(* ===== verification/Prelude.thy ===== *)
theory Prelude
  imports Main "HOL-Library.Word" "HOL-Library.Mapping"
begin

text \<open>
  Shared vocabulary of the development: the machine types of the Rust source,
  results as sums, little-endian byte codecs, and slices of byte buffers with
  their read-over-write laws.

  Every on-disk structure of the engine (page header, line pointer, tuple
  header, WAL record, superblock, freelist, CLOG page, B+Tree entry) is read
  and written with \<open>from_le_bytes\<close>, \<open>to_le_bytes\<close> and \<open>copy_from_slice\<close> at
  fixed offsets, so the lemmas below carry most of the codec proofs of the
  component theories.
\<close>

section \<open>Machine types, results and collections of facts\<close>

unbundle bit_operations_syntax

type_synonym byte = "8 word"
type_synonym u16 = "16 word"
type_synonym u32 = "32 word"
type_synonym u64 = "64 word"

text \<open>The newtypes of \<^verbatim>\<open>pg-storage/src/types.rs\<close>.\<close>

type_synonym txn_id = u64
type_synonym lsn = u64
type_synonym page_id = u64
type_synonym oid = u64

abbreviation Ok :: "'a \<Rightarrow> 'e + 'a" where "Ok \<equiv> Inr"
abbreviation Err :: "'e \<Rightarrow> 'e + 'a" where "Err \<equiv> Inl"

text \<open>The \<open>?\<close> operator: an error returns at once.\<close>

definition try_then :: "'e + 'a \<Rightarrow> ('a \<Rightarrow> 'e + 'b) \<Rightarrow> 'e + 'b" where
  "try_then r f = (case r of Inl e \<Rightarrow> Inl e | Inr a \<Rightarrow> f a)"

named_theorems le_simps \<open>little-endian codec round trips\<close>
named_theorems buf_simps \<open>reads over writes of byte buffers\<close>

lemma try_then_simps [simp]:
  "try_then (Inl e) f = Inl e"
  "try_then (Inr a) f = f a"
  by (simp_all add: try_then_def)

lemma try_then_Ok_iff: "try_then r f = Inr b \<longleftrightarrow> (\<exists>a. r = Inr a \<and> f a = Inr b)"
  by (cases r) auto

lemma try_then_Err_iff:
  "try_then r f = Inl e \<longleftrightarrow> r = Inl e \<or> (\<exists>a. r = Inr a \<and> f a = Inl e)"
  by (cases r) auto

section \<open>Little-endian byte codecs\<close>

text \<open>\<open>to_le_bytes\<close> of an n-byte integer, and \<open>from_le_bytes\<close>.\<close>

fun le_bytes :: "nat \<Rightarrow> nat \<Rightarrow> byte list" where
  "le_bytes 0 v = []"
| "le_bytes (Suc n) v = of_nat (v mod 256) # le_bytes n (v div 256)"

fun le_nat :: "byte list \<Rightarrow> nat" where
  "le_nat [] = 0"
| "le_nat (b # bs) = unat b + 256 * le_nat bs"

lemma length_le_bytes [simp]: "length (le_bytes n v) = n"
  by (induction n arbitrary: v) auto

lemma le_bytes_numeral:
  "le_bytes (numeral k) v = of_nat (v mod 256) # le_bytes (pred_numeral k) (v div 256)"
  by (simp only: numeral_eq_Suc [of k] le_bytes.simps)

lemma unat_byte_less: "unat (b :: byte) < 256"
  using unsigned_less [of b] by simp

lemma unat_of_nat_byte [simp]: "unat (of_nat n :: byte) = n mod 256"
  by (simp add: unat_of_nat)

lemma le_nat_less: "le_nat bs < 256 ^ length bs"
proof (induction bs)
  case (Cons b bs)
  then have "le_nat bs + 1 \<le> 256 ^ length bs"
    by simp
  then have "256 * (le_nat bs + 1) \<le> 256 * 256 ^ length bs"
    by (rule mult_le_mono2)
  then show ?case
    using unat_byte_less [of b] by simp
qed simp

lemma le_nat_le_bytes [le_simps]: "le_nat (le_bytes n v) = v mod 256 ^ n"
  by (induction n arbitrary: v) (auto simp: mod_mult2_eq)

lemma le_bytes_le_nat [le_simps]: "n = length bs \<Longrightarrow> le_bytes n (le_nat bs) = bs"
  by (induction bs arbitrary: n) (auto simp: unat_byte_less div_add1_eq mod_add_eq)

text \<open>The widths the source uses.\<close>

definition u16_le :: "u16 \<Rightarrow> byte list" where "u16_le w = le_bytes 2 (unat w)"
definition u32_le :: "u32 \<Rightarrow> byte list" where "u32_le w = le_bytes 4 (unat w)"
definition u64_le :: "u64 \<Rightarrow> byte list" where "u64_le w = le_bytes 8 (unat w)"
definition le_u16 :: "byte list \<Rightarrow> u16" where "le_u16 bs = of_nat (le_nat bs)"
definition le_u32 :: "byte list \<Rightarrow> u32" where "le_u32 bs = of_nat (le_nat bs)"
definition le_u64 :: "byte list \<Rightarrow> u64" where "le_u64 bs = of_nat (le_nat bs)"

lemma length_uN_le [simp]:
  "length (u16_le a) = 2" "length (u32_le b) = 4" "length (u64_le c) = 8"
  by (simp_all add: u16_le_def u32_le_def u64_le_def)

lemma le_uN_uN_le [simp, le_simps]:
  "le_u16 (u16_le a) = a" "le_u32 (u32_le b) = b" "le_u64 (u64_le c) = c"
proof -
  have "unat a < 65536" "unat b < 4294967296" "unat c < 18446744073709551616"
    using unsigned_less [of a] unsigned_less [of b] unsigned_less [of c] by simp_all
  then show "le_u16 (u16_le a) = a" "le_u32 (u32_le b) = b" "le_u64 (u64_le c) = c"
    by (simp_all add: u16_le_def u32_le_def u64_le_def le_u16_def le_u32_def le_u64_def
        le_nat_le_bytes)
qed

lemma uN_le_le_uN [le_simps]:
  "length bs = 2 \<Longrightarrow> u16_le (le_u16 bs) = bs"
  "length bs = 4 \<Longrightarrow> u32_le (le_u32 bs) = bs"
  "length bs = 8 \<Longrightarrow> u64_le (le_u64 bs) = bs"
  using le_nat_less [of bs]
  by (simp_all add: u16_le_def u32_le_def u64_le_def le_u16_def le_u32_def le_u64_def
      unat_of_nat le_bytes_le_nat)

lemma unat_of_nat_uN:
  "n < 65536 \<Longrightarrow> unat (of_nat n :: u16) = n"
  "n < 4294967296 \<Longrightarrow> unat (of_nat n :: u32) = n"
  "n < 18446744073709551616 \<Longrightarrow> unat (of_nat n :: u64) = n"
  by (simp_all add: unat_of_nat)

section \<open>Slices of byte buffers\<close>

text \<open>
  \<^verbatim>\<open>buf[off..off + n]\<close>, and \<^verbatim>\<open>buf[off..off + n].copy_from_slice(ys)\<close>.
\<close>

definition bytes_at :: "nat \<Rightarrow> nat \<Rightarrow> 'a list \<Rightarrow> 'a list" where
  "bytes_at off n xs = take n (drop off xs)"

definition put_at :: "nat \<Rightarrow> 'a list \<Rightarrow> 'a list \<Rightarrow> 'a list" where
  "put_at off ys xs = take off xs @ ys @ drop (off + length ys) xs"

lemma length_bytes_at [simp]: "off + n \<le> length xs \<Longrightarrow> length (bytes_at off n xs) = n"
  by (simp add: bytes_at_def)

lemma length_put_at [simp]:
  "off + length ys \<le> length xs \<Longrightarrow> length (put_at off ys xs) = length xs"
  by (simp add: put_at_def)

lemma bytes_at_put_at_same [buf_simps]:
  "off + length ys \<le> length xs \<Longrightarrow> n = length ys \<Longrightarrow> bytes_at off n (put_at off ys xs) = ys"
  by (simp add: bytes_at_def put_at_def)

lemma bytes_at_put_at_before [buf_simps]:
  "o2 + n \<le> off \<Longrightarrow> off \<le> length xs \<Longrightarrow> bytes_at o2 n (put_at off ys xs) = bytes_at o2 n xs"
  by (simp add: bytes_at_def put_at_def drop_take)

lemma bytes_at_put_at_after [buf_simps]:
  "off + length ys \<le> o2 \<Longrightarrow> off + length ys \<le> length xs \<Longrightarrow>
   bytes_at o2 n (put_at off ys xs) = bytes_at o2 n xs"
  by (simp add: bytes_at_def put_at_def)

lemma bytes_at_put_at_inside:
  "off \<le> o2 \<Longrightarrow> o2 + n \<le> off + length ys \<Longrightarrow> off + length ys \<le> length xs \<Longrightarrow>
   bytes_at o2 n (put_at off ys xs) = bytes_at (o2 - off) n ys"
  by (simp add: bytes_at_def put_at_def)

lemma bytes_at_bytes_at: "a + n \<le> m \<Longrightarrow> bytes_at a n (bytes_at b m xs) = bytes_at (a + b) n xs"
  by (simp add: bytes_at_def drop_take min_def add.commute)

text \<open>
  A write never shortens the buffer.  Rewriting with this instead of the length of a
  write keeps the side conditions of nested writes linear.
\<close>

lemma le_length_put_at [buf_simps]: "n \<le> length xs \<Longrightarrow> n \<le> length (put_at off ys xs)"
  by (simp add: put_at_def min_def) linarith

lemma nth_bytes_at: "i < n \<Longrightarrow> off + n \<le> length xs \<Longrightarrow> bytes_at off n xs ! i = xs ! (off + i)"
  by (simp add: bytes_at_def)

lemma nth_put_at:
  "off + length ys \<le> length xs \<Longrightarrow> i < length xs \<Longrightarrow>
   put_at off ys xs ! i = (if off \<le> i \<and> i < off + length ys then ys ! (i - off) else xs ! i)"
  by (auto simp: put_at_def nth_append min_def)

lemma put_at_put_at_same [simp]:
  "off \<le> length xs \<Longrightarrow> length ys = length zs \<Longrightarrow> put_at off ys (put_at off zs xs) = put_at off ys xs"
  by (simp add: put_at_def)

lemma put_at_bytes_at [simp]:
  "off + n \<le> length xs \<Longrightarrow> put_at off (bytes_at off n xs) xs = xs"
  by (rule nth_equalityI) (auto simp: nth_put_at nth_bytes_at)

lemma bytes_at_append_left:
  "off + n \<le> length xs \<Longrightarrow> bytes_at off n (xs @ ys) = bytes_at off n xs"
  by (simp add: bytes_at_def)

lemma bytes_at_append_right:
  "length xs \<le> off \<Longrightarrow> bytes_at off n (xs @ ys) = bytes_at (off - length xs) n ys"
  by (simp add: bytes_at_def)

lemma bytes_at_Cons: "0 < off \<Longrightarrow> bytes_at off n (x # xs) = bytes_at (off - 1) n xs"
  by (cases off) (simp_all add: bytes_at_def)

lemma bytes_at_0 [simp]: "n = length xs \<Longrightarrow> bytes_at 0 n xs = xs"
  by (simp add: bytes_at_def)

text \<open>
  A structure written field by field: a list of writes in the order of their offsets.
  Each field reads back what was written to it, whatever the other fields are.
\<close>

fun write_all :: "(nat \<times> 'a list) list \<Rightarrow> 'a list \<Rightarrow> 'a list" where
  "write_all [] b = b"
| "write_all ((off, ys) # ws) b = write_all ws (put_at off ys b)"

definition fields_fit :: "nat \<Rightarrow> (nat \<times> 'a list) list \<Rightarrow> bool" where
  "fields_fit n ws \<longleftrightarrow>
    sorted_wrt (\<lambda>v w. fst v + length (snd v) \<le> fst w) ws \<and> list_all (\<lambda>w. fst w + length (snd w) \<le> n) ws"

lemma length_write_all: "list_all (\<lambda>w. fst w + length (snd w) \<le> length b) ws \<Longrightarrow> length (write_all ws b) = length b"
  by (induction ws b rule: write_all.induct) auto

lemma bytes_at_write_all_other:
  "list_all (\<lambda>w. fst w + length (snd w) \<le> length b) ws \<Longrightarrow>
   list_all (\<lambda>w. fst w + length (snd w) \<le> off \<or> off + n \<le> fst w) ws \<Longrightarrow>
   bytes_at off n (write_all ws b) = bytes_at off n b"
proof (induction ws b rule: write_all.induct)
  case (2 o2 ys ws b)
  have "bytes_at off n (put_at o2 ys b) = bytes_at off n b"
    using 2 by (auto intro: bytes_at_put_at_before bytes_at_put_at_after)
  then show ?case
    using 2 by simp
qed simp

lemma bytes_at_write_all:
  assumes "fields_fit (length b) ws" "(off, ys) \<in> set ws"
  shows "bytes_at off (length ys) (write_all ws b) = ys"
  using assms
proof (induction ws b rule: write_all.induct)
  case (2 o2 zs ws b)
  have fit: "o2 + length zs \<le> length b" "list_all (\<lambda>w. fst w + length (snd w) \<le> length b) ws"
    and after: "\<And>w. w \<in> set ws \<Longrightarrow> o2 + length zs \<le> fst w"
    using 2 by (auto simp: fields_fit_def)
  show ?case
  proof (cases "(off, ys) = (o2, zs)")
    case True
    then have "bytes_at off (length ys) (write_all ws (put_at o2 zs b)) = bytes_at off (length ys) (put_at o2 zs b)"
      using fit after by (intro bytes_at_write_all_other) (auto simp: list_all_iff)
    then show ?thesis
      using True fit by (simp add: bytes_at_put_at_same)
  next
    case False
    then have "bytes_at off (length ys) (write_all ws (put_at o2 zs b)) = ys"
      by (intro "2.IH") (use 2 fit in \<open>auto simp: fields_fit_def\<close>)
    then show ?thesis
      by simp
  qed
qed simp

text \<open>Fixed-width integers at an offset.\<close>

definition get_u16 :: "byte list \<Rightarrow> nat \<Rightarrow> u16" where "get_u16 b off = le_u16 (bytes_at off 2 b)"
definition get_u32 :: "byte list \<Rightarrow> nat \<Rightarrow> u32" where "get_u32 b off = le_u32 (bytes_at off 4 b)"
definition get_u64 :: "byte list \<Rightarrow> nat \<Rightarrow> u64" where "get_u64 b off = le_u64 (bytes_at off 8 b)"
definition put_u16 :: "nat \<Rightarrow> u16 \<Rightarrow> byte list \<Rightarrow> byte list" where "put_u16 off w b = put_at off (u16_le w) b"
definition put_u32 :: "nat \<Rightarrow> u32 \<Rightarrow> byte list \<Rightarrow> byte list" where "put_u32 off w b = put_at off (u32_le w) b"
definition put_u64 :: "nat \<Rightarrow> u64 \<Rightarrow> byte list \<Rightarrow> byte list" where "put_u64 off w b = put_at off (u64_le w) b"

lemmas get_uN_defs = get_u16_def get_u32_def get_u64_def
lemmas put_uN_defs = put_u16_def put_u32_def put_u64_def

lemma length_put_uN [simp]:
  "off + 2 \<le> length b \<Longrightarrow> length (put_u16 off w16 b) = length b"
  "off + 4 \<le> length b \<Longrightarrow> length (put_u32 off w32 b) = length b"
  "off + 8 \<le> length b \<Longrightarrow> length (put_u64 off w64 b) = length b"
  by (simp_all add: put_uN_defs)

lemma le_length_put_uN [buf_simps]:
  "n \<le> length b \<Longrightarrow> n \<le> length (put_u16 off w16 b)"
  "n \<le> length b \<Longrightarrow> n \<le> length (put_u32 off w32 b)"
  "n \<le> length b \<Longrightarrow> n \<le> length (put_u64 off w64 b)"
  by (simp_all add: put_uN_defs le_length_put_at)

lemmas length_puts = length_put_at length_put_uN

lemma get_put_uN_same [buf_simps]:
  "off + 2 \<le> length b \<Longrightarrow> get_u16 (put_u16 off w16 b) off = w16"
  "off + 4 \<le> length b \<Longrightarrow> get_u32 (put_u32 off w32 b) off = w32"
  "off + 8 \<le> length b \<Longrightarrow> get_u64 (put_u64 off w64 b) off = w64"
  by (simp_all add: get_uN_defs put_uN_defs buf_simps)

lemma bytes_at_put_uN [buf_simps]:
  "off + 2 \<le> length b \<Longrightarrow> o2 + n \<le> off \<or> off + 2 \<le> o2 \<Longrightarrow>
   bytes_at o2 n (put_u16 off w16 b) = bytes_at o2 n b"
  "off + 4 \<le> length b \<Longrightarrow> o2 + n \<le> off \<or> off + 4 \<le> o2 \<Longrightarrow>
   bytes_at o2 n (put_u32 off w32 b) = bytes_at o2 n b"
  "off + 8 \<le> length b \<Longrightarrow> o2 + n \<le> off \<or> off + 8 \<le> o2 \<Longrightarrow>
   bytes_at o2 n (put_u64 off w64 b) = bytes_at o2 n b"
  by (auto simp: put_uN_defs buf_simps)

lemma get_u16_put [buf_simps]:
  "off + 2 \<le> length b \<Longrightarrow> o2 + 2 \<le> off \<or> off + 2 \<le> o2 \<Longrightarrow> get_u16 (put_u16 off w16 b) o2 = get_u16 b o2"
  "off + 4 \<le> length b \<Longrightarrow> o2 + 2 \<le> off \<or> off + 4 \<le> o2 \<Longrightarrow> get_u16 (put_u32 off w32 b) o2 = get_u16 b o2"
  "off + 8 \<le> length b \<Longrightarrow> o2 + 2 \<le> off \<or> off + 8 \<le> o2 \<Longrightarrow> get_u16 (put_u64 off w64 b) o2 = get_u16 b o2"
  "off + length ys \<le> length b \<Longrightarrow> o2 + 2 \<le> off \<or> off + length ys \<le> o2 \<Longrightarrow>
   get_u16 (put_at off ys b) o2 = get_u16 b o2"
  by (auto simp: get_uN_defs buf_simps)

lemma get_u32_put [buf_simps]:
  "off + 2 \<le> length b \<Longrightarrow> o2 + 4 \<le> off \<or> off + 2 \<le> o2 \<Longrightarrow> get_u32 (put_u16 off w16 b) o2 = get_u32 b o2"
  "off + 4 \<le> length b \<Longrightarrow> o2 + 4 \<le> off \<or> off + 4 \<le> o2 \<Longrightarrow> get_u32 (put_u32 off w32 b) o2 = get_u32 b o2"
  "off + 8 \<le> length b \<Longrightarrow> o2 + 4 \<le> off \<or> off + 8 \<le> o2 \<Longrightarrow> get_u32 (put_u64 off w64 b) o2 = get_u32 b o2"
  "off + length ys \<le> length b \<Longrightarrow> o2 + 4 \<le> off \<or> off + length ys \<le> o2 \<Longrightarrow>
   get_u32 (put_at off ys b) o2 = get_u32 b o2"
  by (auto simp: get_uN_defs buf_simps)

lemma get_u64_put [buf_simps]:
  "off + 2 \<le> length b \<Longrightarrow> o2 + 8 \<le> off \<or> off + 2 \<le> o2 \<Longrightarrow> get_u64 (put_u16 off w16 b) o2 = get_u64 b o2"
  "off + 4 \<le> length b \<Longrightarrow> o2 + 8 \<le> off \<or> off + 4 \<le> o2 \<Longrightarrow> get_u64 (put_u32 off w32 b) o2 = get_u64 b o2"
  "off + 8 \<le> length b \<Longrightarrow> o2 + 8 \<le> off \<or> off + 8 \<le> o2 \<Longrightarrow> get_u64 (put_u64 off w64 b) o2 = get_u64 b o2"
  "off + length ys \<le> length b \<Longrightarrow> o2 + 8 \<le> off \<or> off + length ys \<le> o2 \<Longrightarrow>
   get_u64 (put_at off ys b) o2 = get_u64 b o2"
  by (auto simp: get_uN_defs buf_simps)

lemma get_uN_append:
  "off + 2 \<le> length x \<Longrightarrow> get_u16 (x @ y) off = get_u16 x off"
  "off + 4 \<le> length x \<Longrightarrow> get_u32 (x @ y) off = get_u32 x off"
  "off + 8 \<le> length x \<Longrightarrow> get_u64 (x @ y) off = get_u64 x off"
  by (simp_all add: get_uN_defs bytes_at_append_left)

end
