(* ===== verification/Clog.thy ===== *)
theory Clog
  imports Prelude
begin

text \<open>
  Transaction status: \<^verbatim>\<open>pg-storage/src/clog.rs\<close> (the states and the
  accessor contract), \<^verbatim>\<open>pg-txn/src/clog_mem.rs\<close> (the in-memory commit log)
  and the address arithmetic and nibble codec of \<^verbatim>\<open>pg-txn/src/clog_file.rs\<close>.

  The locale \<open>clog_accessor\<close> is the contract of the trait \<open>ClogAccessor\<close>: its
  two operations and the laws its clients (visibility, transaction redo, undo of
  losers) rely on.  It is interpreted here on the in-memory log and in
  \<open>Clog_Buffer\<close> on the disk-backed cache.
\<close>

section \<open>States\<close>

datatype txn_state = InProgress | Committed | Aborted | SubCommitted

text \<open>The discriminants: \<open>TxnState as u8\<close>.\<close>

fun state_code :: "txn_state \<Rightarrow> byte" where
  "state_code InProgress = 0"
| "state_code Committed = 1"
| "state_code Aborted = 2"
| "state_code SubCommitted = 3"

definition is_terminal :: "txn_state \<Rightarrow> bool" where
  "is_terminal s \<longleftrightarrow> s = Committed \<or> s = Aborted"

section \<open>The accessor contract\<close>

text \<open>
  \<open>HeapUndoHandler::undo\<close> stamps every loser of the transaction table
  \<open>Aborted\<close>, one \<open>set_state\<close> call after the other.
\<close>

primrec stamp_all ::
  "('c \<Rightarrow> txn_id \<Rightarrow> txn_state \<Rightarrow> unit option \<times> 'c) \<Rightarrow> txn_state \<Rightarrow> txn_id list \<Rightarrow> 'c \<Rightarrow> 'c" where
  "stamp_all set_state s [] c = c"
| "stamp_all set_state s (x # xs) c = stamp_all set_state s xs (snd (set_state c x s))"

text \<open>A client's sequence of calls, and the same sequence on a plain function.\<close>

datatype clog_op = OpGet txn_id | OpSet txn_id txn_state

fun run_clog ::
  "('c \<Rightarrow> txn_id \<Rightarrow> txn_state option \<times> 'c) \<Rightarrow> ('c \<Rightarrow> txn_id \<Rightarrow> txn_state \<Rightarrow> unit option \<times> 'c)
   \<Rightarrow> clog_op list \<Rightarrow> 'c \<Rightarrow> txn_state option list \<times> 'c" where
  "run_clog get_state set_state [] c = ([], c)"
| "run_clog get_state set_state (OpGet x # ops) c =
    (let (r, c) = get_state c x; (rs, c) = run_clog get_state set_state ops c in (r # rs, c))"
| "run_clog get_state set_state (OpSet x s # ops) c =
    run_clog get_state set_state ops (snd (set_state c x s))"

fun spec_reads :: "clog_op list \<Rightarrow> (txn_id \<Rightarrow> txn_state) \<Rightarrow> txn_state list" where
  "spec_reads [] v = []"
| "spec_reads (OpGet x # ops) v = v x # spec_reads ops v"
| "spec_reads (OpSet x s # ops) v = spec_reads ops (v(x := s))"

definition writes_valid :: "clog_op list \<Rightarrow> bool" where
  "writes_valid ops \<longleftrightarrow> list_all (\<lambda>op. case op of OpSet x s \<Rightarrow> x \<noteq> 0 | OpGet x \<Rightarrow> True) ops"

text \<open>
  An accessor has interior state \<open>'c\<close>: even a read may move pages in and out of
  a cache.  \<open>clog_view\<close> is what a read returns, \<open>clog_inv\<close> the accessor's own
  invariant.  A panic of an operation is a \<open>None\<close> result.  Transaction id 0 is
  \<open>TxnId::INVALID\<close>; the contract promises nothing about writing it.
\<close>

locale clog_accessor =
  fixes get_state :: "'c \<Rightarrow> txn_id \<Rightarrow> txn_state option \<times> 'c"
    and set_state :: "'c \<Rightarrow> txn_id \<Rightarrow> txn_state \<Rightarrow> unit option \<times> 'c"
    and clog_inv :: "'c \<Rightarrow> bool"
    and clog_view :: "'c \<Rightarrow> txn_id \<Rightarrow> txn_state"
  assumes get_value: "clog_inv c \<Longrightarrow> fst (get_state c x) = Some (clog_view c x)"
    and get_inv: "clog_inv c \<Longrightarrow> clog_inv (snd (get_state c x))"
    and get_view: "clog_inv c \<Longrightarrow> clog_view (snd (get_state c x)) = clog_view c"
    and set_ok: "clog_inv c \<Longrightarrow> fst (set_state c x s) = Some ()"
    and set_inv: "clog_inv c \<Longrightarrow> clog_inv (snd (set_state c x s))"
    and set_view: "clog_inv c \<Longrightarrow> x \<noteq> 0 \<Longrightarrow>
      clog_view (snd (set_state c x s)) = (clog_view c)(x := s)"
begin

lemma stamp_all_inv: "clog_inv c \<Longrightarrow> clog_inv (stamp_all set_state s xs c)"
  by (induction xs arbitrary: c) (simp_all add: set_inv)

lemma stamp_all_view:
  assumes "clog_inv c" "0 \<notin> set xs"
  shows "clog_view (stamp_all set_state s xs c) y = (if y \<in> set xs then s else clog_view c y)"
  using assms by (induction xs arbitrary: c) (auto simp: set_inv set_view)

lemma read_after_write:
  assumes "clog_inv c" "x \<noteq> 0"
  shows "fst (get_state (snd (set_state c x s)) y)
       = Some (if y = x then s else clog_view c y)"
  using assms by (simp add: get_value set_inv set_view)

lemma run_clog_reads:
  assumes "clog_inv c" "writes_valid ops"
  shows "fst (run_clog get_state set_state ops c) = map Some (spec_reads ops (clog_view c)) \<and>
    clog_inv (snd (run_clog get_state set_state ops c))"
  using assms
proof (induction ops arbitrary: c)
  case (Cons op ops)
  show ?case
  proof (cases op)
    case (OpGet x)
    obtain r c1 where g: "get_state c x = (r, c1)"
      by (metis surj_pair)
    then show ?thesis
      using Cons.IH [of c1] Cons.prems OpGet get_value [of c x] get_inv [of c x] get_view [of c x]
      by (auto simp: writes_valid_def split: prod.splits)
  next
    case (OpSet x s)
    then show ?thesis
      using Cons.IH [of "snd (set_state c x s)"] Cons.prems set_inv [of c x s] set_view [of c x s]
      by (simp add: writes_valid_def)
  qed
qed simp

end

section \<open>The in-memory commit log (\<^verbatim>\<open>clog_mem.rs\<close>)\<close>

record in_memory_clog =
  states :: "(txn_id, txn_state) mapping"
  never_gc :: bool

definition clog_mem_new :: in_memory_clog where
  "clog_mem_new = \<lparr> states = Mapping.empty, never_gc = True \<rparr>"

definition with_gc_enabled :: in_memory_clog where
  "with_gc_enabled = \<lparr> states = Mapping.empty, never_gc = False \<rparr>"

definition mem_get_state :: "in_memory_clog \<Rightarrow> txn_id \<Rightarrow> txn_state" where
  "mem_get_state c xid = (case Mapping.lookup (states c) xid of Some s \<Rightarrow> s | None \<Rightarrow> InProgress)"

definition mem_set_state :: "in_memory_clog \<Rightarrow> txn_id \<Rightarrow> txn_state \<Rightarrow> in_memory_clog" where
  "mem_set_state c xid s = c\<lparr> states := Mapping.update xid s (states c) \<rparr>"

definition gc_committed_below :: "in_memory_clog \<Rightarrow> txn_id \<Rightarrow> nat \<times> in_memory_clog" where
  "gc_committed_below c bound =
    (if never_gc c then (0, c)
     else let before = Mapping.size (states c);
              st = Mapping.filter (\<lambda>xid s. \<not> (s = Committed \<and> xid < bound)) (states c)
          in (before - Mapping.size st, c\<lparr> states := st \<rparr>))"

lemma mem_get_set [simp]:
  "mem_get_state (mem_set_state c x s) y = (if y = x then s else mem_get_state c y)"
  by (simp add: mem_get_state_def mem_set_state_def lookup_update')

lemma lookup_mapping_filter:
  "Mapping.lookup (Mapping.filter P m) k =
   (case Mapping.lookup m k of Some v \<Rightarrow> if P k v then Some v else None | None \<Rightarrow> None)"
  by transfer (auto split: option.splits)

interpretation mem: clog_accessor
  "\<lambda>c x. (Some (mem_get_state c x), c)" "\<lambda>c x s. (Some (), mem_set_state c x s)"
  "\<lambda>c. True" mem_get_state
  by unfold_locales (auto simp: fun_eq_iff)

section \<open>Address arithmetic (\<^verbatim>\<open>clog_file.rs\<close>)\<close>

definition CLOG_PAGE_BYTES :: u64 where "CLOG_PAGE_BYTES = 8192"
definition XIDS_PER_CLOG_PAGE :: u64 where "XIDS_PER_CLOG_PAGE = CLOG_PAGE_BYTES * 2"
definition XIDS_PER_SEGMENT :: u64 where "XIDS_PER_SEGMENT = 268435456"
definition CLOG_SEGMENT_BYTES :: u64 where "CLOG_SEGMENT_BYTES = XIDS_PER_SEGMENT div 2"
definition CLOG_PAGES_PER_SEGMENT :: u64 where
  "CLOG_PAGES_PER_SEGMENT = CLOG_SEGMENT_BYTES div CLOG_PAGE_BYTES"

definition segment_id_of_xid :: "txn_id \<Rightarrow> u64" where
  "segment_id_of_xid xid = xid div XIDS_PER_SEGMENT"

definition byte_offset_of_xid :: "txn_id \<Rightarrow> u64" where
  "byte_offset_of_xid xid = (xid mod XIDS_PER_SEGMENT) div 2"

definition page_no_of_xid :: "txn_id \<Rightarrow> u64" where
  "page_no_of_xid xid = xid div XIDS_PER_CLOG_PAGE"

definition byte_in_page_of_xid :: "txn_id \<Rightarrow> nat" where
  "byte_in_page_of_xid xid = unat ((xid mod XIDS_PER_CLOG_PAGE) div 2)"

definition segment_id_of_page :: "u64 \<Rightarrow> u64" where
  "segment_id_of_page page_no = page_no div CLOG_PAGES_PER_SEGMENT"

definition page_offset_in_segment :: "u64 \<Rightarrow> u64" where
  "page_offset_in_segment page_no = (page_no mod CLOG_PAGES_PER_SEGMENT) * CLOG_PAGE_BYTES"

lemma clog_constants:
  "XIDS_PER_CLOG_PAGE = 16384" "CLOG_SEGMENT_BYTES = 134217728" "CLOG_PAGES_PER_SEGMENT = 16384"
  by (simp_all add: XIDS_PER_CLOG_PAGE_def CLOG_SEGMENT_BYTES_def CLOG_PAGES_PER_SEGMENT_def
      XIDS_PER_SEGMENT_def CLOG_PAGE_BYTES_def)

lemmas clog_addr_defs = segment_id_of_xid_def byte_offset_of_xid_def page_no_of_xid_def
  byte_in_page_of_xid_def segment_id_of_page_def page_offset_in_segment_def clog_constants
  XIDS_PER_SEGMENT_def CLOG_PAGE_BYTES_def

lemma byte_in_page_less: "byte_in_page_of_xid xid < 8192"
proof -
  have "unat xid mod 16384 div 2 < 8192"
    by (simp add: less_mult_imp_div_less)
  then show ?thesis
    by (simp add: clog_addr_defs unat_div unat_mod)
qed

lemma unat_page_offset:
  "unat (page_offset_in_segment p) = unat p mod 16384 * 8192"
proof -
  have "unat p mod 16384 < 16384"
    by simp
  then have "unat p mod 16384 * 8192 < 2 ^ 64"
    by simp
  then show ?thesis
    by (simp add: clog_addr_defs unat_word_ariths unat_mod)
qed

lemma unat_page_no: "unat (page_no_of_xid xid) = unat xid div 16384"
  by (simp add: clog_addr_defs unat_div)

lemma page_no_less: "unat (page_no_of_xid xid) < 2 ^ 50"
proof -
  have "unat xid < 2 ^ 50 * 16384"
    using unsigned_less [of xid] by simp
  then show ?thesis
    unfolding unat_page_no by (rule less_mult_imp_div_less)
qed

text \<open>
  Page-level and xid-level addressing agree: the byte of an xid inside its
  segment is the byte inside its page plus the page's offset.
\<close>

lemma segment_of_page_of_xid: "segment_id_of_page (page_no_of_xid xid) = segment_id_of_xid xid"
proof -
  have "unat xid div 16384 div 16384 = unat xid div 268435456"
    by (simp add: div_mult2_eq [symmetric])
  then show ?thesis
    by (simp add: clog_addr_defs word_unat_eq_iff unat_div)
qed

lemma byte_offset_of_page_and_byte:
  "unat (byte_offset_of_xid xid)
   = unat (page_offset_in_segment (page_no_of_xid xid)) + byte_in_page_of_xid xid"
proof -
  have "(u :: nat) mod 268435456 div 2 = u div 16384 mod 16384 * 8192 + u mod 16384 div 2" for u
  proof -
    have "u mod (16384 * 16384) = 16384 * (u div 16384 mod 16384) + u mod 16384"
      by (rule mod_mult2_eq)
    moreover have "(16384 * a + b) div 2 = a * 8192 + b div 2" for a b :: nat
      by presburger
    ultimately show ?thesis
      by simp
  qed
  then show ?thesis
    unfolding unat_page_offset by (simp add: clog_addr_defs unat_div unat_mod)
qed

section \<open>Nibbles\<close>

definition get_nibble :: "byte \<Rightarrow> txn_id \<Rightarrow> byte" where
  "get_nibble b xid = (if xid AND 1 = 0 then drop_bit 4 b else b AND 0x0F)"

definition set_nibble :: "byte \<Rightarrow> txn_id \<Rightarrow> byte \<Rightarrow> byte" where
  "set_nibble b xid st =
    (if xid AND 1 = 0 then (b AND 0x0F) OR push_bit 4 (st AND 0x0F)
     else (b AND 0xF0) OR (st AND 0x0F))"

text \<open>\<open>None\<close> is the panic on a corrupt nibble.\<close>

definition txn_state_from_nibble :: "byte \<Rightarrow> txn_state option" where
  "txn_state_from_nibble n =
    (if n = 0 then Some InProgress else if n = 1 then Some Committed
     else if n = 2 then Some Aborted else if n = 3 then Some SubCommitted else None)"

lemma state_code_roundtrip [simp]: "txn_state_from_nibble (state_code s) = Some s"
  by (cases s) (simp_all add: txn_state_from_nibble_def)

lemma state_code_masked [simp]: "state_code s AND 0x0F = state_code s"
  by (cases s) simp_all

lemma nibble_masks: "(0x0F :: byte) = mask 4" "(0xF0 :: byte) = push_bit 4 (mask 4)"
  by (simp_all add: mask_eq_exp_minus_1)

lemma nibble_bits:
  "drop_bit 4 ((b AND mask 4) OR push_bit 4 (s AND mask 4)) = s AND mask 4"
  "((b AND mask 4) OR push_bit 4 (s AND mask 4)) AND mask 4 = b AND mask 4"
  "((b AND push_bit 4 (mask 4)) OR (s AND mask 4)) AND mask 4 = s AND mask 4"
  "drop_bit 4 ((b AND push_bit 4 (mask 4)) OR (s AND mask 4)) = drop_bit 4 b"
  for b s :: byte
  by (rule bit_word_eqI; auto simp: bit_simps dest: bit_imp_le_length)+

lemma get_set_nibble_same: "get_nibble (set_nibble b xid st) xid = st AND 0x0F"
  unfolding get_nibble_def set_nibble_def nibble_masks by (simp only: nibble_bits split: if_split) simp

lemma get_set_nibble_other:
  "(x AND 1 = 0) \<noteq> (y AND 1 = 0) \<Longrightarrow> get_nibble (set_nibble b x st) y = get_nibble b y"
  unfolding get_nibble_def set_nibble_def nibble_masks by (auto simp only: nibble_bits split: if_splits)

lemma get_nibble_zero [simp]: "get_nibble 0 x = 0"
  by (simp add: get_nibble_def)

lemma get_nibble_parity: "(x AND 1 = 0) = (y AND 1 = 0) \<Longrightarrow> get_nibble b x = get_nibble b y"
  by (simp add: get_nibble_def)

text \<open>Two xids with the same page, byte and parity are the same xid.\<close>

lemma xid_and_1: "(x AND 1 = 0) \<longleftrightarrow> unat x mod 2 = 0" for x :: u64
proof -
  have "x AND 1 = x mod 2"
    by (simp add: and_one_eq)
  then show ?thesis
    by (simp add: word_unat_eq_iff unat_mod)
qed

lemma xid_split: "(x :: nat) = 16384 * (x div 16384) + (2 * (x mod 16384 div 2) + x mod 2)"
proof -
  have "x mod 2 = x mod 16384 mod 2"
    by (simp add: mod_mod_cancel)
  then show ?thesis
    by simp
qed

lemma xid_address_inj:
  assumes "page_no_of_xid x = page_no_of_xid y" "byte_in_page_of_xid x = byte_in_page_of_xid y"
    "(x AND 1 = 0) = (y AND 1 = 0)"
  shows "x = y"
proof -
  have "unat x div 16384 = unat y div 16384"
    using assms(1) by (simp add: clog_addr_defs word_unat_eq_iff unat_div)
  moreover have "unat x mod 16384 div 2 = unat y mod 16384 div 2"
    using assms(2) by (simp add: clog_addr_defs unat_div unat_mod)
  moreover have "unat x mod 2 = unat y mod 2"
    using assms(3) unfolding xid_and_1 by (metis mod2_eq_if)
  ultimately have "unat x = unat y"
    using xid_split [of "unat x"] xid_split [of "unat y"] by simp
  then show ?thesis
    by (simp add: word_unat_eq_iff)
qed

end
