(* ===== verification/Clog_Buffer.thy ===== *)
theory Clog_Buffer
  imports Clog
begin

text \<open>
  The disk-backed commit log: the segment store of \<^verbatim>\<open>pg-txn/src/clog_file.rs\<close>
  and the clock-sweep page cache of \<^verbatim>\<open>pg-txn/src/clog_buffer.rs\<close>.

  The operating system is a parameter: every operation takes an \<open>io\<close> record that
  says which of its file operations succeed and how much of a failing write
  reached the file.  A segment file is a function from byte offsets to bytes
  that is zero where nothing was written, because the store preallocates every
  segment with \<open>set_len\<close>.

  The main results: the clock sweep always returns a victim, the cache implements
  the \<open>clog_accessor\<close> contract (a read returns the last state written, whatever
  was evicted in between), and a successful checkpoint flush makes every state
  survive a crash.
\<close>

section \<open>The segment store\<close>

datatype io_op = IoOpen u64 | IoRead u64 | IoWrite u64 | IoSync u64

record io =
  io_ok :: "io_op \<Rightarrow> bool"
  io_written :: "u64 \<Rightarrow> nat"

datatype clog_error = IoError | SweepDiverges

type_synonym seg_bytes = "u64 \<Rightarrow> nat \<Rightarrow> byte"

record clog_store =
  seg_files :: seg_bytes
  seg_durable :: seg_bytes
  segments :: "u64 list"
  unsynced_segments :: "u64 list"

definition file_write :: "seg_bytes \<Rightarrow> u64 \<Rightarrow> nat \<Rightarrow> byte list \<Rightarrow> seg_bytes" where
  "file_write f sid off bs =
    f(sid := (\<lambda>j. if off \<le> j \<and> j < off + length bs then bs ! (j - off) else f sid j))"

definition page_bytes :: "seg_bytes \<Rightarrow> u64 \<Rightarrow> byte list" where
  "page_bytes f p =
    map (\<lambda>i. f (segment_id_of_page p) (unat (page_offset_in_segment p) + i)) [0..<8192]"

definition segment :: "io \<Rightarrow> u64 \<Rightarrow> clog_store \<Rightarrow> (clog_error + unit) \<times> clog_store" where
  "segment io sid st =
    (if sid \<in> set (segments st) then (Ok (), st)
     else if io_ok io (IoOpen sid) then (Ok (), st\<lparr> segments := sid # segments st \<rparr>)
     else (Err IoError, st))"

definition read_page :: "io \<Rightarrow> u64 \<Rightarrow> clog_store \<Rightarrow> (clog_error + byte list) \<times> clog_store" where
  "read_page io p st =
    (case segment io (segment_id_of_page p) st of
       (Inl e, st) \<Rightarrow> (Err e, st)
     | (Inr _, st) \<Rightarrow>
         if io_ok io (IoRead p) then (Ok (page_bytes (seg_files st) p), st) else (Err IoError, st))"

text \<open>A failing \<open>write_all_at\<close> may have written a prefix of the page.\<close>

definition write_page :: "io \<Rightarrow> u64 \<Rightarrow> byte list \<Rightarrow> clog_store \<Rightarrow> (clog_error + unit) \<times> clog_store" where
  "write_page io p buf st =
    (case segment io (segment_id_of_page p) st of
       (Inl e, st) \<Rightarrow> (Err e, st)
     | (Inr _, st) \<Rightarrow>
         let sid = segment_id_of_page p; off = unat (page_offset_in_segment p) in
         if io_ok io (IoWrite p) then
           (Ok (), st\<lparr> seg_files := file_write (seg_files st) sid off buf,
                       unsynced_segments := List.insert sid (unsynced_segments st) \<rparr>)
         else
           (Err IoError,
            st\<lparr> seg_files := file_write (seg_files st) sid off (take (io_written io p) buf) \<rparr>))"

definition sync_segment :: "io \<Rightarrow> u64 \<Rightarrow> clog_store \<Rightarrow> (clog_error + unit) \<times> clog_store" where
  "sync_segment io sid st =
    (if sid \<in> set (segments st) then
       if io_ok io (IoSync sid) then
         (Ok (), st\<lparr> seg_durable := (seg_durable st)(sid := seg_files st sid) \<rparr>)
       else (Err IoError, st)
     else (Ok (), st))"

text \<open>The loop of \<open>sync_unsynced\<close> over the pending segments.\<close>

primrec sync_list :: "io \<Rightarrow> u64 list \<Rightarrow> clog_store \<Rightarrow> (clog_error + unit) \<times> clog_store" where
  "sync_list io [] st = (Ok (), st)"
| "sync_list io (sid # sids) st =
    (case sync_segment io sid st of
       (Inl e, st) \<Rightarrow> (Err e, st)
     | (Inr _, st) \<Rightarrow>
         sync_list io sids (st\<lparr> unsynced_segments := removeAll sid (unsynced_segments st) \<rparr>))"

definition sync_unsynced :: "io \<Rightarrow> clog_store \<Rightarrow> (clog_error + unit) \<times> clog_store" where
  "sync_unsynced io st = sync_list io (unsynced_segments st) st"

section \<open>Frames and the clock sweep\<close>

definition INVALID_PAGE_NO :: u64 where "INVALID_PAGE_NO = 18446744073709551615"

record clog_frame =
  page_no :: u64
  data :: "byte list"
  dirty :: bool
  referenced :: bool

record clog_buffer =
  store :: clog_store
  frames :: "clog_frame list"
  page_table :: "u64 \<rightharpoonup> nat"
  clock_hand :: nat
  hits :: u64
  misses :: u64

text \<open>\<open>ClogBuffer::open\<close>; the assertion on the frame count is the \<open>None\<close> case.\<close>

definition clog_store_open :: "seg_bytes \<Rightarrow> clog_store" where
  "clog_store_open f = \<lparr> seg_files = f, seg_durable = f, segments = [], unsynced_segments = [] \<rparr>"

definition clog_buffer_open :: "seg_bytes \<Rightarrow> nat \<Rightarrow> clog_buffer option" where
  "clog_buffer_open f n =
    (if 4 \<le> n \<and> n \<le> 1024 then
       Some \<lparr> store = clog_store_open f,
              frames = replicate n \<lparr> page_no = INVALID_PAGE_NO, data = replicate 8192 0,
                                     dirty = False, referenced = False \<rparr>,
              page_table = Map.empty, clock_hand = 0, hits = 0, misses = 0 \<rparr>
     else None)"

text \<open>One revolution of the hand: the inner \<open>for\<close> of \<open>find_victim\<close>.\<close>

fun sweep :: "nat \<Rightarrow> bool \<Rightarrow> clog_frame list \<Rightarrow> nat \<Rightarrow> nat option \<times> clog_frame list \<times> nat" where
  "sweep 0 allow_dirty fs hand = (None, fs, hand)"
| "sweep (Suc k) allow_dirty fs hand =
    (let f = fs ! hand; hand' = (hand + 1) mod length fs in
     if page_no f = INVALID_PAGE_NO then (Some hand, fs, hand')
     else if referenced f then sweep k allow_dirty (fs[hand := f\<lparr> referenced := False \<rparr>]) hand'
     else if dirty f \<and> \<not> allow_dirty then sweep k allow_dirty fs hand'
     else (Some hand, fs, hand'))"

partial_function (option) find_victim_loop ::
  "bool \<Rightarrow> clog_frame list \<Rightarrow> nat \<Rightarrow> (nat \<times> clog_frame list \<times> nat) option" where
  "find_victim_loop allow_dirty fs hand =
    (case sweep (length fs) allow_dirty fs hand of
       (v, fs', hand') \<Rightarrow>
         (case v of Some i \<Rightarrow> Some (i, fs', hand')
          | None \<Rightarrow> find_victim_loop True fs' hand'))"

definition find_victim :: "clog_frame list \<Rightarrow> nat \<Rightarrow> (nat \<times> clog_frame list \<times> nat) option" where
  "find_victim fs hand = find_victim_loop False fs hand"

text \<open>
  \<open>locate_frame\<close>: a hit sets the reference bit; a miss picks a victim, writes it
  back if it is dirty, and reads the page into its frame (\<open>load_page\<close> is the tail of
  the function, from dropping the victim's table entry on).
\<close>

definition load_page :: "io \<Rightarrow> u64 \<Rightarrow> nat \<Rightarrow> clog_buffer \<Rightarrow> (clog_error + nat) \<times> clog_buffer" where
  "load_page io p v b =
    (let f = frames b ! v;
         b = (if page_no f \<noteq> INVALID_PAGE_NO
              then b\<lparr> page_table := (page_table b)(page_no f := None) \<rparr> else b)
     in case read_page io p (store b) of
          (Inl e, st) \<Rightarrow> (Err e, b\<lparr> store := st \<rparr>)
        | (Inr bytes, st) \<Rightarrow>
            (Ok v, b\<lparr> store := st,
                      frames := (frames b)[v :=
                        \<lparr> page_no = p, data = bytes, dirty = False, referenced = True \<rparr>],
                      page_table := (page_table b)(p \<mapsto> v) \<rparr>))"

definition locate_frame :: "io \<Rightarrow> u64 \<Rightarrow> clog_buffer \<Rightarrow> (clog_error + nat) \<times> clog_buffer" where
  "locate_frame io p b =
    (case page_table b p of
       Some idx \<Rightarrow>
         (Ok idx, b\<lparr> hits := hits b + 1,
                     frames := (frames b)[idx := (frames b ! idx)\<lparr> referenced := True \<rparr>] \<rparr>)
     | None \<Rightarrow>
         (case find_victim (frames b) (clock_hand b) of
            None \<Rightarrow> (Err SweepDiverges, b\<lparr> misses := misses b + 1 \<rparr>)
          | Some (v, fs, hand) \<Rightarrow>
              let b = b\<lparr> misses := misses b + 1, frames := fs, clock_hand := hand \<rparr>;
                  f = fs ! v
              in if page_no f \<noteq> INVALID_PAGE_NO \<and> dirty f then
                   (case write_page io (page_no f) (data f) (store b) of
                      (Inl e, st) \<Rightarrow> (Err e, b\<lparr> store := st \<rparr>)
                    | (Inr _, st) \<Rightarrow> load_page io p v (b\<lparr> store := st \<rparr>))
                 else load_page io p v b))"

text \<open>\<open>get_state\<close> and \<open>set_state\<close>; \<open>None\<close> is a panic.\<close>

definition buf_get_state :: "io \<Rightarrow> clog_buffer \<Rightarrow> txn_id \<Rightarrow> txn_state option \<times> clog_buffer" where
  "buf_get_state io b xid =
    (if xid = 0 then (Some InProgress, b)
     else case locate_frame io (page_no_of_xid xid) b of
            (Inl e, b) \<Rightarrow> (None, b)
          | (Inr idx, b) \<Rightarrow>
              (txn_state_from_nibble
                 (get_nibble (data (frames b ! idx) ! byte_in_page_of_xid xid) xid), b))"

definition buf_set_state :: "io \<Rightarrow> clog_buffer \<Rightarrow> txn_id \<Rightarrow> txn_state \<Rightarrow> unit option \<times> clog_buffer" where
  "buf_set_state io b xid s =
    (if xid = 0 then (Some (), b)
     else case locate_frame io (page_no_of_xid xid) b of
            (Inl e, b) \<Rightarrow> (None, b)
          | (Inr idx, b) \<Rightarrow>
              let i = byte_in_page_of_xid xid; f = frames b ! idx in
              (Some (), b\<lparr> frames := (frames b)[idx :=
                 f\<lparr> data := (data f)[i := set_nibble (data f ! i) xid (state_code s)],
                    dirty := True \<rparr>] \<rparr>))"

text \<open>The frame loop of \<open>flush_dirty\<close>, from frame \<open>i\<close> on.\<close>

primrec flush_frames :: "io \<Rightarrow> nat \<Rightarrow> nat \<Rightarrow> clog_buffer \<Rightarrow> (clog_error + unit) \<times> clog_buffer" where
  "flush_frames io 0 i b = (Ok (), b)"
| "flush_frames io (Suc k) i b =
    (let f = frames b ! i in
     if page_no f \<noteq> INVALID_PAGE_NO \<and> dirty f then
       (case write_page io (page_no f) (data f) (store b) of
          (Inl e, st) \<Rightarrow> (Err e, b\<lparr> store := st \<rparr>)
        | (Inr _, st) \<Rightarrow>
            flush_frames io k (Suc i)
              (b\<lparr> store := st, frames := (frames b)[i := f\<lparr> dirty := False \<rparr>] \<rparr>))
     else flush_frames io k (Suc i) b)"

definition flush_dirty :: "io \<Rightarrow> clog_buffer \<Rightarrow> (clog_error + unit) \<times> clog_buffer" where
  "flush_dirty io b =
    (case flush_frames io (length (frames b)) 0 b of
       (Inl e, b) \<Rightarrow> (Err e, b)
     | (Inr _, b) \<Rightarrow> (case sync_unsynced io (store b) of (r, st) \<Rightarrow> (r, b\<lparr> store := st \<rparr>)))"

section \<open>The sweep returns\<close>

definition frame_core :: "clog_frame \<Rightarrow> clog_frame" where
  "frame_core f = f\<lparr> referenced := False \<rparr>"

lemma frame_core_simps [simp]:
  "page_no (frame_core f) = page_no f" "data (frame_core f) = data f"
  "dirty (frame_core f) = dirty f" "frame_core (f\<lparr> referenced := r \<rparr>) = frame_core f"
  by (simp_all add: frame_core_def)

lemma map_core_nth:
  assumes "map frame_core fs' = map frame_core fs" "i < length fs"
  shows "page_no (fs' ! i) = page_no (fs ! i)" "data (fs' ! i) = data (fs ! i)"
    "dirty (fs' ! i) = dirty (fs ! i)"
proof -
  have "frame_core (fs' ! i) = frame_core (fs ! i)"
    using assms by (metis length_map nth_map)
  then show "page_no (fs' ! i) = page_no (fs ! i)" "data (fs' ! i) = data (fs ! i)"
    "dirty (fs' ! i) = dirty (fs ! i)"
    by (metis frame_core_simps(1), metis frame_core_simps(2), metis frame_core_simps(3))
qed

lemma map_core_update_referenced:
  "map frame_core (fs[i := (fs ! i)\<lparr> referenced := r \<rparr>]) = map frame_core fs"
  by (simp add: map_update) (metis frame_core_simps(4) list_update_id map_update)

lemma sweep_SucE:
  assumes "sweep (Suc k) a fs hand = (v, fs', hand')"
  obtains
    (found) "v = Some hand" "fs' = fs" "hand' = (hand + 1) mod length fs"
  | (referenced) "referenced (fs ! hand)"
      "sweep k a (fs[hand := (fs ! hand)\<lparr> referenced := False \<rparr>]) ((hand + 1) mod length fs) = (v, fs', hand')"
  | (dirty) "\<not> referenced (fs ! hand)" "dirty (fs ! hand)" "\<not> a"
      "sweep k a fs ((hand + 1) mod length fs) = (v, fs', hand')"
  using assms by (auto simp: Let_def split: if_splits)

lemma next_hand_less: "hand < n \<Longrightarrow> (hand + 1) mod n < n" for n :: nat
  by (auto intro: mod_less_divisor)

lemma sweep_core:
  assumes "sweep k a fs hand = (v, fs', hand')" "hand < length fs"
  shows "map frame_core fs' = map frame_core fs \<and> hand' < length fs \<and>
    (\<forall>i. v = Some i \<longrightarrow> i < length fs)"
  using assms
proof (induction k arbitrary: fs hand)
  case (Suc k)
  note h = next_hand_less [OF Suc.prems(2)]
  from Suc.prems(1) show ?case
  proof (cases rule: sweep_SucE)
    case found
    then show ?thesis using h Suc.prems(2) by simp
  next
    case referenced
    show ?thesis
      using Suc.IH [OF referenced(2)] h unfolding map_core_update_referenced length_list_update
      by blast
  next
    case dirty
    show ?thesis using Suc.IH [OF dirty(4)] h by blast
  qed
qed simp

lemma sweep_unreferenced:
  assumes "sweep k a fs hand = (v, fs', hand')" "\<not> referenced (fs ! i)"
  shows "\<not> referenced (fs' ! i)"
  using assms
proof (induction k arbitrary: fs hand)
  case (Suc k)
  have "\<not> referenced (fs[hand := (fs ! hand)\<lparr> referenced := False \<rparr>] ! i)"
    using Suc.prems(2) by (cases "hand < length fs") (auto simp: nth_list_update list_update_beyond)
  with Suc.prems(1) Suc.IH Suc.prems(2) show ?case
    by (elim sweep_SucE) auto
qed simp

lemma sweep_none_clears:
  assumes "sweep k a fs hand = (None, fs', hand')" "hand < length fs" "j < k"
  shows "\<not> referenced (fs' ! ((hand + j) mod length fs))"
  using assms
proof (induction k arbitrary: fs hand j)
  case (Suc k)
  let ?h = "(hand + 1) mod length fs"
  note h = next_hand_less [OF Suc.prems(2)]
  have shift: "(?h + i) mod length fs = (hand + Suc i) mod length fs" for i
    by (simp add: mod_add_left_eq)
  from Suc.prems(1) show ?case
  proof (cases rule: sweep_SucE)
    case referenced
    then show ?thesis
      using Suc.IH [OF referenced(2), of "j - 1"] Suc.prems(2,3) h shift [of "j - 1"]
        sweep_unreferenced [OF referenced(2), of hand]
      by (cases j) auto
  next
    case dirty
    then show ?thesis
      using Suc.IH [OF dirty(4), of "j - 1"] Suc.prems(2,3) h shift [of "j - 1"]
        sweep_unreferenced [OF dirty(4), of hand]
      by (cases j) auto
  qed simp
qed simp

lemma full_revolution_clears:
  assumes "sweep (length fs) a fs hand = (None, fs', hand')" "hand < length fs" "i < length fs"
  shows "\<not> referenced (fs' ! i)"
proof -
  let ?n = "length fs"
  have "(hand + (i + (?n - hand)) mod ?n) mod ?n = i"
    using assms(2,3) by (simp add: mod_add_right_eq)
  moreover have "(i + (?n - hand)) mod ?n < ?n"
    using assms(2) by (intro mod_less_divisor) auto
  ultimately show ?thesis
    using sweep_none_clears [OF assms(1,2)] by metis
qed

lemma sweep_second_pass:
  assumes "hand < length fs" "\<not> referenced (fs ! hand)"
  shows "sweep (length fs) True fs hand = (Some hand, fs, (hand + 1) mod length fs)"
  using assms by (cases "length fs") (auto simp: Let_def)

lemma sweep_victim_unreferenced:
  assumes "sweep k a fs hand = (Some v, fs', hand')"
  shows "page_no (fs' ! v) = INVALID_PAGE_NO \<or> \<not> referenced (fs' ! v)"
  using assms
proof (induction k arbitrary: fs hand)
  case (Suc k)
  then show ?case
    by (auto simp: Let_def split: if_splits)
qed simp

text \<open>Two revolutions suffice, so \<open>find_victim\<close> returns a frame whenever there is one.\<close>

lemma find_victim_returns:
  assumes "hand < length fs"
  obtains v fs' hand' where "find_victim fs hand = Some (v, fs', hand')"
    "v < length fs" "hand' < length fs" "map frame_core fs' = map frame_core fs"
    "page_no (fs ! v) = INVALID_PAGE_NO \<or> \<not> referenced (fs' ! v)"
proof -
  obtain r fs1 hand1 where s1: "sweep (length fs) False fs hand = (r, fs1, hand1)"
    by (metis surj_pair)
  note c1 = sweep_core [OF s1 assms]
  have len: "length fs1 = length fs"
    using c1 map_eq_imp_length_eq by blast
  show thesis
  proof (cases r)
    case (Some i)
    then show thesis
      using that [of i fs1 hand1] c1 s1 sweep_victim_unreferenced [of _ _ _ _ i fs1 hand1]
        map_core_nth(1) [of fs1 fs i]
      by (simp add: find_victim_def find_victim_loop.simps)
  next
    case None
    then have ref: "\<not> referenced (fs1 ! hand1)"
      using full_revolution_clears [OF _ assms] s1 c1 by blast
    then have "sweep (length fs1) True fs1 hand1 = (Some hand1, fs1, (hand1 + 1) mod length fs1)"
      using c1 len by (intro sweep_second_pass) auto
    then have "find_victim fs hand = Some (hand1, fs1, (hand1 + 1) mod length fs)"
      using s1 None len
      by (simp add: find_victim_def find_victim_loop.simps [of False] find_victim_loop.simps [of True])
    moreover have "(hand1 + 1) mod length fs < length fs"
      using assms by (intro mod_less_divisor) auto
    ultimately show thesis
      using that c1 ref by blast
  qed
qed

section \<open>Pages of a segment file\<close>

lemma length_page_bytes [simp]: "length (page_bytes f p) = 8192"
  by (simp add: page_bytes_def)

lemma page_address_inj:
  assumes "segment_id_of_page p = segment_id_of_page q"
    and "unat p mod 16384 = unat q mod 16384"
  shows "p = q"
proof -
  have "unat p div 16384 = unat q div 16384"
    using assms(1) by (simp add: clog_addr_defs word_unat_eq_iff unat_div)
  then show ?thesis
    using assms(2) by (metis div_mult_mod_eq word_unat_eq_iff)
qed

lemma page_bytes_write_same:
  "length bs = 8192 \<Longrightarrow>
   page_bytes (file_write f (segment_id_of_page p) (unat (page_offset_in_segment p)) bs) p = bs"
  by (rule nth_equalityI) (auto simp: page_bytes_def file_write_def)

lemma page_bytes_write_other:
  assumes "p \<noteq> q" "length bs \<le> 8192"
  shows "page_bytes (file_write f (segment_id_of_page p) (unat (page_offset_in_segment p)) bs) q
       = page_bytes f q"
proof (cases "segment_id_of_page p = segment_id_of_page q")
  case True
  then have "unat p mod 16384 \<noteq> unat q mod 16384"
    using assms(1) page_address_inj by blast
  then have "\<not> (unat p mod 16384 * 8192 \<le> unat q mod 16384 * 8192 + i \<and>
      unat q mod 16384 * 8192 + i < unat p mod 16384 * 8192 + length bs)" if "i < 8192" for i
    using that assms(2) by linarith
  then show ?thesis
    using True by (auto simp: page_bytes_def file_write_def unat_page_offset)
qed (auto simp: page_bytes_def file_write_def)

lemma page_bytes_sync:
  "page_bytes (d(sid := f sid)) p
   = (if segment_id_of_page p = sid then page_bytes f p else page_bytes d p)"
  by (simp add: page_bytes_def)

section \<open>Invariant and abstraction\<close>

text \<open>A byte both of whose nibbles are states.\<close>

definition valid_clog_byte :: "byte \<Rightarrow> bool" where
  "valid_clog_byte b \<longleftrightarrow> txn_state_from_nibble (drop_bit 4 b) \<noteq> None
     \<and> txn_state_from_nibble (b AND 0x0F) \<noteq> None"

definition valid_clog_page :: "byte list \<Rightarrow> bool" where
  "valid_clog_page bs \<longleftrightarrow> length bs = 8192 \<and> list_all valid_clog_byte bs"

text \<open>The page as a reader sees it: the cached copy if there is one, else the file.\<close>

definition clog_page :: "clog_buffer \<Rightarrow> u64 \<Rightarrow> byte list" where
  "clog_page b p = (case page_table b p of
     Some i \<Rightarrow> data (frames b ! i) | None \<Rightarrow> page_bytes (seg_files (store b)) p)"

definition page_state :: "byte list \<Rightarrow> txn_id \<Rightarrow> txn_state" where
  "page_state bs xid =
    (case txn_state_from_nibble (get_nibble (bs ! byte_in_page_of_xid xid) xid) of
       Some s \<Rightarrow> s | None \<Rightarrow> InProgress)"

definition buf_view :: "clog_buffer \<Rightarrow> txn_id \<Rightarrow> txn_state" where
  "buf_view b xid = (if xid = 0 then InProgress else page_state (clog_page b (page_no_of_xid xid)) xid)"

text \<open>What a crash leaves: the states read back from durable storage.\<close>

definition durable_view :: "clog_buffer \<Rightarrow> txn_id \<Rightarrow> txn_state" where
  "durable_view b xid =
    (if xid = 0 then InProgress
     else page_state (page_bytes (seg_durable (store b)) (page_no_of_xid xid)) xid)"

definition dirty_cached :: "clog_buffer \<Rightarrow> u64 \<Rightarrow> bool" where
  "dirty_cached b p \<longleftrightarrow> (\<exists>i. page_table b p = Some i \<and> dirty (frames b ! i))"

definition table_inv :: "clog_buffer \<Rightarrow> bool" where
  "table_inv b \<longleftrightarrow> clock_hand b < length (frames b) \<and>
    (\<forall>p i. page_table b p = Some i \<longleftrightarrow>
       i < length (frames b) \<and> page_no (frames b ! i) = p \<and> p \<noteq> INVALID_PAGE_NO)"

definition data_inv :: "clog_buffer \<Rightarrow> bool" where
  "data_inv b \<longleftrightarrow>
    (\<forall>p. valid_clog_page (clog_page b p)) \<and>
    (\<forall>p. \<not> dirty_cached b p \<longrightarrow> clog_page b p = page_bytes (seg_files (store b)) p)"

definition sync_inv :: "clog_buffer \<Rightarrow> bool" where
  "sync_inv b \<longleftrightarrow>
    set (unsynced_segments (store b)) \<subseteq> set (segments (store b)) \<and>
    (\<forall>p. \<not> dirty_cached b p \<longrightarrow> segment_id_of_page p \<notin> set (unsynced_segments (store b)) \<longrightarrow>
       page_bytes (seg_durable (store b)) p = page_bytes (seg_files (store b)) p)"

definition buf_inv :: "clog_buffer \<Rightarrow> bool" where
  "buf_inv b \<longleftrightarrow> table_inv b \<and> data_inv b \<and> sync_inv b"

lemma buf_invI: "table_inv b \<Longrightarrow> data_inv b \<Longrightarrow> sync_inv b \<Longrightarrow> buf_inv b"
  by (simp add: buf_inv_def)

lemma buf_invD: "buf_inv b \<Longrightarrow> table_inv b" "buf_inv b \<Longrightarrow> data_inv b" "buf_inv b \<Longrightarrow> sync_inv b"
  by (simp_all add: buf_inv_def)

lemma table_invD:
  "table_inv b \<Longrightarrow> page_table b p = Some i \<Longrightarrow>
   i < length (frames b) \<and> page_no (frames b ! i) = p \<and> p \<noteq> INVALID_PAGE_NO"
  by (simp add: table_inv_def)

lemma table_inv_lookup:
  "table_inv b \<Longrightarrow> i < length (frames b) \<Longrightarrow> page_no (frames b ! i) \<noteq> INVALID_PAGE_NO \<Longrightarrow>
   page_table b (page_no (frames b ! i)) = Some i"
  by (simp add: table_inv_def)

text \<open>The invariant and the view ignore reference bits, the hand and the counters.\<close>

lemma core_cong:
  assumes "table_inv b" "map frame_core (frames b') = map frame_core (frames b)"
    "page_table b' = page_table b" "store b' = store b"
  shows "clog_page b' = clog_page b" "dirty_cached b' = dirty_cached b"
proof -
  have "page_table b p = Some i \<Longrightarrow> i < length (frames b)" for p i
    using assms(1) by (simp add: table_inv_def)
  then show "clog_page b' = clog_page b" "dirty_cached b' = dirty_cached b"
    using map_core_nth [OF assms(2)] assms(3,4)
    by (auto simp: clog_page_def dirty_cached_def fun_eq_iff split: option.splits)
qed

lemma buf_inv_cong:
  assumes "buf_inv b" "map frame_core (frames b') = map frame_core (frames b)"
    "page_table b' = page_table b" "store b' = store b" "clock_hand b' < length (frames b)"
  shows "buf_inv b'"
proof (rule buf_invI)
  note cc = core_cong [OF buf_invD(1) [OF assms(1)] assms(2-4)]
  have len: "length (frames b') = length (frames b)"
    using assms(2) map_eq_imp_length_eq by blast
  show "table_inv b'"
    using buf_invD(1) [OF assms(1)] map_core_nth(1) [OF assms(2)] assms(3,5) len
    unfolding table_inv_def by (metis (no_types, lifting))
  show "data_inv b'" "sync_inv b'"
    using buf_invD(2,3) [OF assms(1)] cc assms(4) by (simp_all add: data_inv_def sync_inv_def)
qed

section \<open>Steps of the cache preserve the invariant and the view\<close>

lemma segment_spec:
  assumes "segment io sid st = (r, st')"
  shows "seg_files st' = seg_files st" "seg_durable st' = seg_durable st"
    "unsynced_segments st' = unsynced_segments st" "set (segments st) \<subseteq> set (segments st')"
    "r = Inr () \<Longrightarrow> sid \<in> set (segments st')" "io_ok io (IoOpen sid) \<Longrightarrow> r = Inr ()"
  using assms by (auto simp: segment_def split: if_splits)

lemma write_page_spec:
  assumes "write_page io p bs st = (r, st')" "length bs = 8192"
  shows "seg_durable st' = seg_durable st"
    "q \<noteq> p \<Longrightarrow> page_bytes (seg_files st') q = page_bytes (seg_files st) q"
    "r = Inr () \<Longrightarrow> page_bytes (seg_files st') p = bs"
    "r = Inr () \<Longrightarrow> segment_id_of_page p \<in> set (unsynced_segments st')"
    "set (unsynced_segments st) \<subseteq> set (unsynced_segments st')"
    "set (unsynced_segments st) \<subseteq> set (segments st) \<Longrightarrow>
     set (unsynced_segments st') \<subseteq> set (segments st')"
    "io_ok io (IoOpen (segment_id_of_page p)) \<Longrightarrow> io_ok io (IoWrite p) \<Longrightarrow> r = Inr ()"
proof -
  obtain r1 st1 where s: "segment io (segment_id_of_page p) st = (r1, st1)"
    by (metis surj_pair)
  note ss = segment_spec [OF s]
  have w: "seg_durable st' = seg_durable st1 \<and>
      (q \<noteq> p \<longrightarrow> page_bytes (seg_files st') q = page_bytes (seg_files st1) q) \<and>
      (r = Inr () \<longrightarrow> page_bytes (seg_files st') p = bs \<and> r1 = Inr () \<and>
         set (unsynced_segments st') = insert (segment_id_of_page p) (set (unsynced_segments st1))) \<and>
      (r \<noteq> Inr () \<longrightarrow> unsynced_segments st' = unsynced_segments st1) \<and>
      segments st' = segments st1 \<and>
      (r1 = Inr () \<longrightarrow> io_ok io (IoWrite p) \<longrightarrow> r = Inr ())"
    using assms s
    by (auto simp: write_page_def Let_def page_bytes_write_same page_bytes_write_other
        split: sum.splits if_splits)
  show "seg_durable st' = seg_durable st"
    "q \<noteq> p \<Longrightarrow> page_bytes (seg_files st') q = page_bytes (seg_files st) q"
    "r = Inr () \<Longrightarrow> page_bytes (seg_files st') p = bs"
    "r = Inr () \<Longrightarrow> segment_id_of_page p \<in> set (unsynced_segments st')"
    "io_ok io (IoOpen (segment_id_of_page p)) \<Longrightarrow> io_ok io (IoWrite p) \<Longrightarrow> r = Inr ()"
    using w ss by auto
  show "set (unsynced_segments st) \<subseteq> set (unsynced_segments st')"
    using w ss by (cases "r = Inr ()") auto
  show "set (unsynced_segments st) \<subseteq> set (segments st) \<Longrightarrow>
     set (unsynced_segments st') \<subseteq> set (segments st')"
    using w ss by (cases "r = Inr ()") auto
qed

text \<open>Writing a dirty frame back, successfully or not.\<close>

lemma write_back_spec:
  assumes "buf_inv b" "dirty_cached b p"
    and w: "write_page io p (clog_page b p) (store b) = (r, st')"
  shows "buf_inv (b\<lparr> store := st' \<rparr>)" "clog_page (b\<lparr> store := st' \<rparr>) = clog_page b"
proof -
  let ?b = "b\<lparr> store := st' \<rparr>"
  have len: "length (clog_page b p) = 8192"
    using buf_invD(2) [OF assms(1)] by (simp add: data_inv_def valid_clog_page_def)
  note ws = write_page_spec [OF w len]
  have dc: "dirty_cached ?b = dirty_cached b"
    by (simp add: dirty_cached_def fun_eq_iff)
  have cached: "page_table b p \<noteq> None"
    using assms(2) by (auto simp: dirty_cached_def)
  have "clog_page ?b q = clog_page b q" for q
    using cached ws(2) [of q] by (cases "q = p") (auto simp: clog_page_def split: option.splits)
  then show view: "clog_page ?b = clog_page b"
    by (rule ext)
  show "buf_inv ?b"
  proof (rule buf_invI)
    show "table_inv ?b"
      using buf_invD(1) [OF assms(1)] by (simp add: table_inv_def)
    have ne: "\<not> dirty_cached b q \<Longrightarrow> q \<noteq> p" for q
      using assms(2) by auto
    show "data_inv ?b"
      using buf_invD(2) [OF assms(1)] ws(2) ne unfolding data_inv_def view dc by simp
    show "sync_inv ?b"
      using buf_invD(3) [OF assms(1)] ws(1,2,5,6) ne unfolding sync_inv_def dc
      by simp blast
  qed
qed

text \<open>Replacing a frame whose old page is on file by a freshly read page.\<close>

definition load_frame :: "nat \<Rightarrow> u64 \<Rightarrow> clog_store \<Rightarrow> clog_buffer \<Rightarrow> clog_buffer" where
  "load_frame v p st b =
    b\<lparr> store := st,
       frames := (frames b)[v := \<lparr> page_no = p, data = page_bytes (seg_files st) p,
                                   dirty = False, referenced = True \<rparr>],
       page_table := (page_table b)(page_no (frames b ! v) := None, p \<mapsto> v) \<rparr>"

definition on_file :: "clog_buffer \<Rightarrow> clog_frame \<Rightarrow> bool" where
  "on_file b f \<longleftrightarrow> page_no f = INVALID_PAGE_NO \<or>
    page_bytes (seg_files (store b)) (page_no f) = data f \<and>
    (segment_id_of_page (page_no f) \<in> set (unsynced_segments (store b)) \<or>
     page_bytes (seg_durable (store b)) (page_no f) = page_bytes (seg_files (store b)) (page_no f))"

lemma load_frame_spec:
  assumes inv: "buf_inv b" and v: "v < length (frames b)" and p: "p \<noteq> INVALID_PAGE_NO"
    and miss: "page_table b p = None" and f: "on_file b (frames b ! v)"
    and st: "seg_files st = seg_files (store b)" "seg_durable st = seg_durable (store b)"
      "unsynced_segments st = unsynced_segments (store b)"
      "set (segments (store b)) \<subseteq> set (segments st)"
  shows "buf_inv (load_frame v p st b)" "clog_page (load_frame v p st b) = clog_page b"
    "page_table (load_frame v p st b) p = Some v"
proof -
  let ?b = "load_frame v p st b" and ?q = "page_no (frames b ! v)"
  have tbl: "page_table b q = Some i \<longleftrightarrow>
      i < length (frames b) \<and> page_no (frames b ! i) = q \<and> q \<noteq> INVALID_PAGE_NO" for q i
    using buf_invD(1) [OF inv] by (simp add: table_inv_def)
  have pq: "?q \<noteq> p"
    using miss tbl v p by (metis option.distinct(1))
  have other: "page_table b q = Some i \<Longrightarrow> q \<noteq> ?q \<Longrightarrow> i \<noteq> v" for q i
    using tbl [of q i] by auto
  have tq: "?q \<noteq> INVALID_PAGE_NO \<Longrightarrow> page_table b ?q = Some v"
    using tbl [of ?q v] v by simp
  have tI: "page_table b INVALID_PAGE_NO = None"
    using tbl [of INVALID_PAGE_NO] by (cases "page_table b INVALID_PAGE_NO") auto
  have view_q: "clog_page ?b q = clog_page b q" for q
  proof (cases "q = p \<or> q = ?q")
    case True
    then show ?thesis
      using miss pq f v tq tI st(1)
      by (cases "?q = INVALID_PAGE_NO") (auto simp: clog_page_def load_frame_def on_file_def)
  next
    case False
    then show ?thesis
      using other [of q] st(1) by (cases "page_table b q") (auto simp: clog_page_def load_frame_def)
  qed
  then show view: "clog_page ?b = clog_page b"
    by (rule ext)
  have dc: "dirty_cached ?b q \<longleftrightarrow> dirty_cached b q \<and> q \<noteq> ?q" for q
    using other [of q] pq v miss
    by (cases "q = p"; cases "page_table b q") (auto simp: dirty_cached_def load_frame_def)
  show "page_table ?b p = Some v"
    by (simp add: load_frame_def)
  show "buf_inv ?b"
  proof (rule buf_invI)
    have "page_table b q = Some i \<Longrightarrow> i \<noteq> v \<Longrightarrow> q \<noteq> p \<and> q \<noteq> ?q" for q i
      using miss tq tI by (cases "?q = INVALID_PAGE_NO") auto
    then have key: "page_table ?b q = Some i \<longleftrightarrow> (if i = v then q = p else page_table b q = Some i)" for q i
      using other [of q i] by (auto simp: load_frame_def)
    have "page_table ?b q = Some i \<longleftrightarrow>
      i < length (frames ?b) \<and> page_no (frames ?b ! i) = q \<and> q \<noteq> INVALID_PAGE_NO" for q i
      using tbl [of q i] v p unfolding key by (auto simp: load_frame_def)
    then show "table_inv ?b"
      using buf_invD(1) [OF inv] by (simp add: table_inv_def load_frame_def)
    have store: "store ?b = st"
      by (simp add: load_frame_def)
    have q_inv: "\<not> dirty_cached b q \<or> q = ?q \<Longrightarrow> clog_page b q = page_bytes (seg_files (store b)) q" for q
      using buf_invD(2) [OF inv] f tq tI
      by (cases "q = ?q"; cases "?q = INVALID_PAGE_NO") (auto simp: data_inv_def on_file_def clog_page_def)
    show "data_inv ?b"
      using buf_invD(2) [OF inv] q_inv unfolding data_inv_def view store dc st by blast
    have INV: "\<not> dirty_cached b INVALID_PAGE_NO"
      using tI by (simp add: dirty_cached_def)
    show "sync_inv ?b"
      using buf_invD(3) [OF inv] f INV st(4) unfolding sync_inv_def store dc st on_file_def
      by (metis (no_types, lifting) subset_trans)
  qed
qed

section \<open>The accessor operations\<close>

text \<open>The page can be read: the hypothesis under which a lookup does not panic.\<close>

definition reads_ok :: "io \<Rightarrow> u64 \<Rightarrow> bool" where
  "reads_ok io p \<longleftrightarrow> io_ok io (IoOpen (segment_id_of_page p)) \<and> io_ok io (IoRead p)"

lemma load_page_spec:
  assumes inv: "buf_inv b" and v: "v < length (frames b)" and p: "p \<noteq> INVALID_PAGE_NO"
    and miss: "page_table b p = None" and f: "on_file b (frames b ! v)" and io: "reads_ok io p"
  obtains b' where "load_page io p v b = (Ok v, b')" "buf_inv b'" "clog_page b' = clog_page b"
    "page_table b' p = Some v"
proof -
  obtain r st where s: "segment io (segment_id_of_page p) (store b) = (r, st)"
    by (metis surj_pair)
  note ss = segment_spec [OF s]
  have r: "r = Inr ()"
    using ss(6) io by (simp add: reads_ok_def)
  have "page_table b INVALID_PAGE_NO = None"
    using buf_invD(1) [OF inv] unfolding table_inv_def by (metis not_Some_eq)
  then have drop: "(if page_no (frames b ! v) \<noteq> INVALID_PAGE_NO
      then b\<lparr> page_table := (page_table b)(page_no (frames b ! v) := None) \<rparr> else b)
    = b\<lparr> page_table := (page_table b)(page_no (frames b ! v) := None) \<rparr>"
    by (simp add: fun_upd_idem)
  have "load_page io p v b = (Ok v, load_frame v p st b)"
    using s r io ss(1) unfolding load_page_def drop Let_def
    by (simp add: read_page_def reads_ok_def load_frame_def)
  then show thesis
    using that load_frame_spec [OF inv v p miss f ss(1-4)] by blast
qed

lemma clean_on_file:
  assumes inv: "buf_inv b" and v: "v < length (frames b)"
    and clean: "page_no (frames b ! v) = INVALID_PAGE_NO \<or> \<not> dirty (frames b ! v)"
  shows "on_file b (frames b ! v)"
proof (cases "page_no (frames b ! v) = INVALID_PAGE_NO")
  case False
  then have t: "page_table b (page_no (frames b ! v)) = Some v"
    using table_inv_lookup [OF buf_invD(1) [OF inv] v] by simp
  then have "\<not> dirty_cached b (page_no (frames b ! v))"
    using clean False by (simp add: dirty_cached_def)
  then show ?thesis
    using buf_invD(2,3) [OF inv] t
    by (auto simp: data_inv_def sync_inv_def on_file_def clog_page_def)
qed (simp add: on_file_def)

lemma evict_and_load_spec:
  assumes b1: "buf_inv b1" and v: "v < length (frames b1)" and p: "p \<noteq> INVALID_PAGE_NO"
    and miss: "page_table b1 p = None" and io: "reads_ok io p" and f: "f = frames b1 ! v"
    and l: "(if page_no f \<noteq> INVALID_PAGE_NO \<and> dirty f then
         (case write_page io (page_no f) (data f) (store b1) of
            (Inl e, st) \<Rightarrow> (Err e, b1\<lparr> store := st \<rparr>)
          | (Inr _, st) \<Rightarrow> load_page io p v (b1\<lparr> store := st \<rparr>))
       else load_page io p v b1) = (r, b')"
  shows "buf_inv b' \<and> clog_page b' = clog_page b1 \<and> (\<forall>i. r = Inr i \<longrightarrow> page_table b' p = Some i) \<and>
    ((\<forall>q. io_ok io (IoOpen q)) \<longrightarrow> (\<forall>q. io_ok io (IoWrite q)) \<longrightarrow> (\<exists>i. r = Inr i))"
proof (cases "page_no f \<noteq> INVALID_PAGE_NO \<and> dirty f")
  case True
  obtain wr st where w: "write_page io (page_no f) (data f) (store b1) = (wr, st)"
    by (metis surj_pair)
  have t: "page_table b1 (page_no f) = Some v"
    using table_inv_lookup [OF buf_invD(1) [OF b1] v] True f by simp
  then have dc: "dirty_cached b1 (page_no f)" "clog_page b1 (page_no f) = data f"
    using True f by (simp_all add: dirty_cached_def clog_page_def)
  have len: "length (data f) = 8192"
    using buf_invD(2) [OF b1] dc(2) unfolding data_inv_def valid_clog_page_def by metis
  let ?b2 = "b1\<lparr> store := st \<rparr>"
  note wb = write_back_spec [OF b1 dc(1), unfolded dc(2), OF w]
  note ws = write_page_spec [OF w len]
  show ?thesis
  proof (cases wr)
    case (Inl e)
    then show ?thesis
      using l w True wb ws(7) by auto
  next
    case (Inr u)
    then have "on_file ?b2 (frames ?b2 ! v)"
      using ws(3,4) f by (simp add: on_file_def)
    then obtain b3 where "load_page io p v ?b2 = (Ok v, b3)" "buf_inv b3"
      "clog_page b3 = clog_page ?b2" "page_table b3 p = Some v"
      using load_page_spec [OF wb(1) _ p _ _ io, of v] v miss by auto
    then show ?thesis
      using l w True Inr wb(2) by auto
  qed
next
  case False
  then obtain b3 where "load_page io p v b1 = (Ok v, b3)" "buf_inv b3"
    "clog_page b3 = clog_page b1" "page_table b3 p = Some v"
    using load_page_spec [OF b1 v p miss clean_on_file [OF b1 v] io] f by blast
  then show ?thesis
    using l False by auto
qed

lemma locate_frame_spec:
  assumes inv: "buf_inv b" and p: "p \<noteq> INVALID_PAGE_NO" and io: "reads_ok io p"
    and l: "locate_frame io p b = (r, b')"
  shows "buf_inv b' \<and> clog_page b' = clog_page b \<and> (\<forall>i. r = Inr i \<longrightarrow> page_table b' p = Some i) \<and>
    ((\<forall>q. io_ok io (IoOpen q)) \<longrightarrow> (\<forall>q. io_ok io (IoWrite q)) \<longrightarrow> (\<exists>i. r = Inr i))"
proof (cases "page_table b p")
  case (Some idx)
  then have b': "b' = b\<lparr> hits := hits b + 1,
      frames := (frames b)[idx := (frames b ! idx)\<lparr> referenced := True \<rparr>] \<rparr>" "r = Inr idx"
    using l by (simp_all add: locate_frame_def)
  have fr: "frames b' = (frames b)[idx := (frames b ! idx)\<lparr> referenced := True \<rparr>]"
    by (simp add: b')
  have "map frame_core (frames b') = map frame_core (frames b)"
    unfolding fr by (rule map_core_update_referenced)
  moreover have "page_table b' = page_table b" "store b' = store b" "clock_hand b' < length (frames b)"
    using buf_invD(1) [OF inv] by (simp_all add: b' table_inv_def)
  ultimately show ?thesis
    using buf_inv_cong [OF inv, of b'] core_cong(1) [OF buf_invD(1) [OF inv], of b'] Some b'(2)
    by auto
next
  case None
  have "clock_hand b < length (frames b)"
    using buf_invD(1) [OF inv] by (simp add: table_inv_def)
  then obtain v fs hand where fv: "find_victim (frames b) (clock_hand b) = Some (v, fs, hand)"
    "v < length (frames b)" "hand < length (frames b)" "map frame_core fs = map frame_core (frames b)"
    by (rule find_victim_returns) blast
  define b1 where "b1 = b\<lparr> misses := misses b + 1, frames := fs, clock_hand := hand \<rparr>"
  have b1: "buf_inv b1" "clog_page b1 = clog_page b"
    using buf_inv_cong [OF inv, of b1] core_cong(1) [OF buf_invD(1) [OF inv], of b1] fv(3,4)
    by (simp_all add: b1_def)
  have b1f: "frames b1 = fs" "v < length (frames b1)" "page_table b1 p = None"
    using fv map_eq_imp_length_eq [OF fv(4)] None by (simp_all add: b1_def)
  note l' = l [unfolded locate_frame_def None fv(1) Let_def option.case prod.case,
      folded b1_def, folded b1f(1)]
  show ?thesis
    using evict_and_load_spec [OF b1(1) b1f(2) p b1f(3) io refl l'] b1(2) by simp
qed

lemma page_state_some:
  assumes "valid_clog_page bs"
  shows "txn_state_from_nibble (get_nibble (bs ! byte_in_page_of_xid x) x) = Some (page_state bs x)"
proof -
  have "valid_clog_byte (bs ! byte_in_page_of_xid x)"
    using assms byte_in_page_less [of x] by (simp add: valid_clog_page_def list_all_length)
  then show ?thesis
    by (auto simp: page_state_def get_nibble_def valid_clog_byte_def split: option.splits)
qed

lemma valid_clog_byte_iff:
  "valid_clog_byte b \<longleftrightarrow> (\<forall>x. txn_state_from_nibble (get_nibble b x) \<noteq> None)"
proof -
  have "get_nibble b 0 = drop_bit 4 b" "get_nibble b 1 = b AND 0x0F"
    by (simp_all add: get_nibble_def)
  then show ?thesis
    unfolding valid_clog_byte_def by (metis get_nibble_def)
qed

lemma valid_set_nibble:
  assumes "valid_clog_byte b"
  shows "valid_clog_byte (set_nibble b x (state_code s))"
  unfolding valid_clog_byte_iff
proof
  fix y
  show "txn_state_from_nibble (get_nibble (set_nibble b x (state_code s)) y) \<noteq> None"
  proof (cases "(x AND 1 = 0) = (y AND 1 = 0)")
    case True
    then show ?thesis
      using get_nibble_parity [OF True] by (metis get_set_nibble_same option.distinct(1)
          state_code_masked state_code_roundtrip)
  next
    case False
    then show ?thesis
      using assms by (simp add: get_set_nibble_other valid_clog_byte_iff)
  qed
qed

lemma page_state_set:
  assumes "length bs = 8192" "page_no_of_xid y = page_no_of_xid x"
  shows "page_state (bs[byte_in_page_of_xid x :=
      set_nibble (bs ! byte_in_page_of_xid x) x (state_code s)]) y
    = (if y = x then s else page_state bs y)"
proof (cases "y = x")
  case True
  then show ?thesis
    using assms(1) byte_in_page_less [of x] by (simp add: page_state_def get_set_nibble_same)
next
  case False
  show ?thesis
  proof (cases "byte_in_page_of_xid y = byte_in_page_of_xid x")
    case True
    then have "(x AND 1 = 0) \<noteq> (y AND 1 = 0)"
      using xid_address_inj [OF assms(2)] False by blast
    then show ?thesis
      using True False assms(1) byte_in_page_less [of x]
      by (simp add: page_state_def get_set_nibble_other)
  qed (use False in \<open>simp add: page_state_def\<close>)
qed

lemma xid_page_valid: "page_no_of_xid x \<noteq> INVALID_PAGE_NO"
proof
  assume "page_no_of_xid x = INVALID_PAGE_NO"
  then show False
    using page_no_less [of x] by (simp add: INVALID_PAGE_NO_def)
qed

text \<open>Rewriting the data of a cached page and marking it dirty.\<close>

lemma update_frame_spec:
  assumes inv: "buf_inv b" and t: "page_table b p = Some i" and bs: "valid_clog_page bs"
  defines "b' \<equiv> b\<lparr> frames := (frames b)[i := (frames b ! i)\<lparr> data := bs, dirty := True \<rparr>] \<rparr>"
  shows "buf_inv b'" "clog_page b' = (clog_page b)(p := bs)"
proof -
  note ti = table_invD [OF buf_invD(1) [OF inv]]
  have other: "page_table b q = Some j \<Longrightarrow> q \<noteq> p \<Longrightarrow> j \<noteq> i" for q j
    using ti [of q j] ti [OF t] by auto
  have "clog_page b' q = ((clog_page b)(p := bs)) q" for q
    using other [of q] t ti [OF t]
    by (cases "page_table b q"; cases "q = p") (auto simp: clog_page_def b'_def)
  then show view: "clog_page b' = (clog_page b)(p := bs)"
    by (rule ext)
  have dc: "dirty_cached b' q \<longleftrightarrow> q = p \<or> dirty_cached b q" for q
    using other [of q] t ti [OF t]
    by (cases "page_table b q"; cases "q = p") (auto simp: dirty_cached_def b'_def)
  have st: "store b' = store b"
    by (simp add: b'_def)
  have "page_no (frames b' ! j) = page_no (frames b ! j)" for j
    using ti [OF t] by (cases "j = i") (auto simp: b'_def)
  then have "table_inv b'"
    using buf_invD(1) [OF inv] by (simp add: table_inv_def b'_def)
  moreover have "data_inv b'"
    using buf_invD(2) [OF inv] bs unfolding data_inv_def view dc st by simp
  moreover have "sync_inv b'"
    using buf_invD(3) [OF inv] unfolding sync_inv_def dc st by simp
  ultimately show "buf_inv b'"
    by (rule buf_invI)
qed

lemma buf_view_cong: "clog_page b' = clog_page b \<Longrightarrow> buf_view b' = buf_view b"
  by (simp add: buf_view_def fun_eq_iff)

lemma get_state_spec:
  assumes inv: "buf_inv b" and io: "reads_ok io (page_no_of_xid x)"
    and g: "buf_get_state io b x = (r, b')"
  shows "buf_inv b' \<and> buf_view b' = buf_view b \<and> (\<forall>s. r = Some s \<longrightarrow> s = buf_view b x) \<and>
    ((\<forall>q. io_ok io (IoOpen q)) \<longrightarrow> (\<forall>q. io_ok io (IoWrite q)) \<longrightarrow> r \<noteq> None)"
proof (cases "x = 0")
  case False
  obtain l b1 where l: "locate_frame io (page_no_of_xid x) b = (l, b1)"
    by (metis surj_pair)
  note ls = locate_frame_spec [OF inv xid_page_valid io l]
  have "valid_clog_page (clog_page b1 (page_no_of_xid x))"
    using conjunct1 [OF ls] buf_invD(2) [of b1] by (simp add: data_inv_def)
  moreover have "l = Inr i \<Longrightarrow> page_table b1 (page_no_of_xid x) = Some i" for i
    using ls by blast
  ultimately have "l = Inr i \<Longrightarrow> txn_state_from_nibble
      (get_nibble (data (frames b1 ! i) ! byte_in_page_of_xid x) x) = Some (buf_view b1 x)" for i
    using page_state_some [of "clog_page b1 (page_no_of_xid x)" x] False
    by (simp add: clog_page_def buf_view_def)
  then show ?thesis
    using g l False ls buf_view_cong [of b1 b] by (cases l) (auto simp: buf_get_state_def dest: sym [of "Some _"])
qed (use assms in \<open>auto simp: buf_get_state_def buf_view_def\<close>)

lemma set_state_spec:
  assumes inv: "buf_inv b" and io: "reads_ok io (page_no_of_xid x)"
    and g: "buf_set_state io b x s = (r, b')"
  shows "buf_inv b' \<and>
    buf_view b' = (if r = Some () \<and> x \<noteq> 0 then (buf_view b)(x := s) else buf_view b) \<and>
    ((\<forall>q. io_ok io (IoOpen q)) \<longrightarrow> (\<forall>q. io_ok io (IoWrite q)) \<longrightarrow> r = Some ())"
proof (cases "x = 0")
  case False
  let ?p = "page_no_of_xid x" and ?i = "byte_in_page_of_xid x"
  obtain l b1 where l: "locate_frame io ?p b = (l, b1)"
    by (metis surj_pair)
  note ls = locate_frame_spec [OF inv xid_page_valid io l]
  show ?thesis
  proof (cases l)
    case (Inl e)
    then show ?thesis
      using g l False ls buf_view_cong [of b1 b] by (auto simp: buf_set_state_def)
  next
    case (Inr idx)
    let ?bs = "(clog_page b1 ?p)[?i := set_nibble (clog_page b1 ?p ! ?i) x (state_code s)]"
    have t: "page_table b1 ?p = Some idx" and inv1: "buf_inv b1"
      using ls Inr by auto
    then have d: "data (frames b1 ! idx) = clog_page b1 ?p"
      by (simp add: clog_page_def)
    have v: "valid_clog_page (clog_page b1 ?p)"
      using buf_invD(2) [OF inv1] by (simp add: data_inv_def)
    then have len: "length (clog_page b1 ?p) = 8192"
      by (simp add: valid_clog_page_def)
    have vb: "valid_clog_page ?bs"
      using v valid_set_nibble byte_in_page_less [of x]
      by (auto simp: valid_clog_page_def list_all_length nth_list_update)
    have b': "b' = b1\<lparr> frames := (frames b1)[idx := (frames b1 ! idx)\<lparr> data := ?bs, dirty := True \<rparr>] \<rparr>"
      "r = Some ()"
      using g l False Inr d by (simp_all add: buf_set_state_def Let_def)
    note us = update_frame_spec [OF inv1 t vb, folded b'(1)]
    have "buf_view b' y = ((buf_view b1)(x := s)) y" for y
      using us(2) page_state_set [OF len, of y x s] False
      by (cases "page_no_of_xid y = ?p") (auto simp: buf_view_def)
    then have "buf_view b' = (buf_view b1)(x := s)"
      by (rule ext)
    then show ?thesis
      using us(1) b'(2) False ls buf_view_cong [of b1 b] by simp
  qed
qed (use assms in \<open>auto simp: buf_set_state_def\<close>)

text \<open>With a working disk the cache implements the accessor contract.\<close>

definition io_good :: io where
  "io_good = \<lparr> io_ok = \<lambda>_. True, io_written = \<lambda>_. 0 \<rparr>"

lemma io_good_ok [simp]: "io_ok io_good c" "reads_ok io_good p"
  by (simp_all add: io_good_def reads_ok_def)

interpretation buf: clog_accessor "buf_get_state io_good" "buf_set_state io_good" buf_inv buf_view
proof
  fix c x s
  assume inv: "buf_inv c"
  obtain r b' where g: "buf_get_state io_good c x = (r, b')"
    by (metis surj_pair)
  show "fst (buf_get_state io_good c x) = Some (buf_view c x)"
    "buf_inv (snd (buf_get_state io_good c x))"
    "buf_view (snd (buf_get_state io_good c x)) = buf_view c"
    using get_state_spec [OF inv _ g] g by auto
  obtain r b' where g: "buf_set_state io_good c x s = (r, b')"
    by (metis surj_pair)
  show "fst (buf_set_state io_good c x s) = Some ()" "buf_inv (snd (buf_set_state io_good c x s))"
    "x \<noteq> 0 \<Longrightarrow> buf_view (snd (buf_set_state io_good c x s)) = (buf_view c)(x := s)"
    using set_state_spec [OF inv _ g] g by auto
qed

section \<open>The checkpoint flush\<close>

lemma mark_clean_spec:
  assumes inv: "buf_inv b" and i: "i < length (frames b)"
    and p: "page_no (frames b ! i) \<noteq> INVALID_PAGE_NO" and f: "on_file b (frames b ! i)"
  defines "b' \<equiv> b\<lparr> frames := (frames b)[i := (frames b ! i)\<lparr> dirty := False \<rparr>] \<rparr>"
  shows "buf_inv b'" "clog_page b' = clog_page b"
proof -
  let ?p = "page_no (frames b ! i)"
  note ti = table_invD [OF buf_invD(1) [OF inv]]
  have t: "page_table b ?p = Some i"
    using table_inv_lookup [OF buf_invD(1) [OF inv] i p] .
  have data: "data (frames b' ! j) = data (frames b ! j)" "page_no (frames b' ! j) = page_no (frames b ! j)" for j
    using i by (cases "j = i"; simp add: b'_def)+
  have tb: "page_table b' = page_table b" "store b' = store b"
    by (simp_all add: b'_def)
  show view: "clog_page b' = clog_page b"
    by (simp add: clog_page_def data tb fun_eq_iff split: option.split)
  have other: "page_table b q = Some j \<Longrightarrow> q \<noteq> ?p \<Longrightarrow> j \<noteq> i" for q j
    using ti [of q j] by auto
  have dc: "dirty_cached b' q \<longleftrightarrow> dirty_cached b q \<and> q \<noteq> ?p" for q
    using other [of q] t i
    by (cases "page_table b q"; cases "q = ?p") (auto simp: dirty_cached_def b'_def)
  have onf: "clog_page b ?p = page_bytes (seg_files (store b)) ?p"
    "segment_id_of_page ?p \<notin> set (unsynced_segments (store b)) \<Longrightarrow>
     page_bytes (seg_durable (store b)) ?p = page_bytes (seg_files (store b)) ?p"
    using f p t by (auto simp: on_file_def clog_page_def)
  have "table_inv b'"
    using buf_invD(1) [OF inv] data by (simp add: table_inv_def b'_def)
  moreover have "data_inv b'"
    using buf_invD(2) [OF inv] onf(1) unfolding data_inv_def view dc tb by metis
  moreover have "sync_inv b'"
    using buf_invD(3) [OF inv] onf(2) unfolding sync_inv_def dc tb by metis
  ultimately show "buf_inv b'"
    by (rule buf_invI)
qed

lemma flush_step_spec:
  assumes inv: "buf_inv b" and i: "i < length (frames b)"
    and d: "page_no (frames b ! i) \<noteq> INVALID_PAGE_NO" "dirty (frames b ! i)"
    and w: "write_page io (page_no (frames b ! i)) (data (frames b ! i)) (store b) = (r, st)"
  shows "buf_inv (b\<lparr> store := st \<rparr>)" "clog_page (b\<lparr> store := st \<rparr>) = clog_page b"
    "r = Inr () \<Longrightarrow> buf_inv (b\<lparr> store := st, frames := (frames b)[i := (frames b ! i)\<lparr> dirty := False \<rparr>] \<rparr>)"
    "r = Inr () \<Longrightarrow> clog_page (b\<lparr> store := st, frames := (frames b)[i := (frames b ! i)\<lparr> dirty := False \<rparr>] \<rparr>)
       = clog_page b"
proof -
  have "page_table b (page_no (frames b ! i)) = Some i"
    using table_inv_lookup [OF buf_invD(1) [OF inv] i d(1)] .
  then have dc: "dirty_cached b (page_no (frames b ! i))"
    "clog_page b (page_no (frames b ! i)) = data (frames b ! i)"
    using d(2) by (simp_all add: dirty_cached_def clog_page_def)
  note wb = write_back_spec [OF inv dc(1), unfolded dc(2), OF w]
  then show "buf_inv (b\<lparr> store := st \<rparr>)" "clog_page (b\<lparr> store := st \<rparr>) = clog_page b"
    by simp_all
  have len: "length (data (frames b ! i)) = 8192"
    using buf_invD(2) [OF inv] dc(2) unfolding data_inv_def valid_clog_page_def by metis
  assume "r = Inr ()"
  then have "on_file (b\<lparr> store := st \<rparr>) (frames (b\<lparr> store := st \<rparr>) ! i)"
    using write_page_spec(3,4) [OF w len] by (simp add: on_file_def)
  from mark_clean_spec [OF wb(1) _ _ this] i d(1) wb(2)
  show "buf_inv (b\<lparr> store := st, frames := (frames b)[i := (frames b ! i)\<lparr> dirty := False \<rparr>] \<rparr>)"
    "clog_page (b\<lparr> store := st, frames := (frames b)[i := (frames b ! i)\<lparr> dirty := False \<rparr>] \<rparr>) = clog_page b"
    by simp_all
qed

definition flushed :: "clog_frame \<Rightarrow> bool" where
  "flushed f \<longleftrightarrow> page_no f = INVALID_PAGE_NO \<or> \<not> dirty f"

lemma flush_frames_spec:
  assumes "buf_inv b" "i + k = length (frames b)" "\<forall>j<i. flushed (frames b ! j)"
    and "flush_frames io k i b = (r, b')"
  shows "buf_inv b' \<and> clog_page b' = clog_page b \<and>
    (r = Inr () \<longrightarrow> (\<forall>j<length (frames b'). flushed (frames b' ! j)))"
  using assms
proof (induction k arbitrary: i b)
  case (Suc k)
  let ?f = "frames b ! i"
  have i: "i < length (frames b)"
    using Suc.prems(2) by simp
  show ?case
  proof (cases "page_no ?f \<noteq> INVALID_PAGE_NO \<and> dirty ?f")
    case True
    obtain wr st where w: "write_page io (page_no ?f) (data ?f) (store b) = (wr, st)"
      by (metis surj_pair)
    note fs = flush_step_spec [OF Suc.prems(1) i _ _ w]
    show ?thesis
    proof (cases wr)
      case (Inl e)
      then show ?thesis
        using Suc.prems(4) w True fs(1,2) by (auto simp: Let_def)
    next
      case (Inr u)
      let ?b = "b\<lparr> store := st, frames := (frames b)[i := ?f\<lparr> dirty := False \<rparr>] \<rparr>"
      have "\<forall>j<Suc i. flushed (frames ?b ! j)"
        using Suc.prems(3) i by (auto simp: flushed_def less_Suc_eq nth_list_update)
      moreover have "flush_frames io k (Suc i) ?b = (r, b')"
        using Suc.prems(4) w True Inr by (simp add: Let_def)
      ultimately show ?thesis
        using Suc.IH [of ?b "Suc i"] fs(3,4) True Inr Suc.prems(2) by simp
    qed
  next
    case False
    then have "\<forall>j<Suc i. flushed (frames b ! j)"
      using Suc.prems(3) by (auto simp: flushed_def less_Suc_eq)
    then show ?thesis
      using Suc.IH [of b "Suc i"] Suc.prems False by (auto simp: Let_def)
  qed
qed auto

lemma sync_list_spec:
  assumes "sync_list io sids st = (r, st')"
    and "set (unsynced_segments st) \<subseteq> set (segments st)" "set sids \<subseteq> set (segments st)"
    and "\<forall>p. P p \<longrightarrow> segment_id_of_page p \<notin> set (unsynced_segments st) \<longrightarrow>
       page_bytes (seg_durable st) p = page_bytes (seg_files st) p"
  shows "seg_files st' = seg_files st \<and> set (unsynced_segments st') \<subseteq> set (segments st') \<and>
    (\<forall>p. P p \<longrightarrow> segment_id_of_page p \<notin> set (unsynced_segments st') \<longrightarrow>
       page_bytes (seg_durable st') p = page_bytes (seg_files st) p) \<and>
    (r = Inr () \<longrightarrow> set (unsynced_segments st') = set (unsynced_segments st) - set sids)"
  using assms
proof (induction sids arbitrary: st)
  case (Cons sid sids)
  have sid: "sid \<in> set (segments st)"
    using Cons.prems(2,3) by auto
  show ?case
  proof (cases "io_ok io (IoSync sid)")
    case True
    define st1 where "st1 = st\<lparr> seg_durable := (seg_durable st)(sid := seg_files st sid),
                   unsynced_segments := removeAll sid (unsynced_segments st) \<rparr>"
    have run: "sync_list io sids st1 = (r, st')"
      using Cons.prems(1) sid True by (simp add: sync_segment_def st1_def)
    have st1: "seg_files st1 = seg_files st" "segments st1 = segments st"
      "set (unsynced_segments st1) = set (unsynced_segments st) - {sid}"
      by (simp_all add: st1_def)
    have "\<forall>p. P p \<longrightarrow> segment_id_of_page p \<notin> set (unsynced_segments st1) \<longrightarrow>
        page_bytes (seg_durable st1) p = page_bytes (seg_files st1) p"
      using Cons.prems(4) by (auto simp: page_bytes_sync st1_def)
    moreover have "set (unsynced_segments st1) \<subseteq> set (segments st1)" "set sids \<subseteq> set (segments st1)"
      using Cons.prems(2,3) st1 by auto
    ultimately show ?thesis
      using Cons.IH [OF run] st1 by auto
  next
    case False
    then show ?thesis
      using Cons.prems sid by (auto simp: sync_segment_def)
  qed
qed auto

lemma sync_unsynced_spec:
  assumes inv: "buf_inv b" and s: "sync_unsynced io (store b) = (r, st)"
  shows "buf_inv (b\<lparr> store := st \<rparr>)" "clog_page (b\<lparr> store := st \<rparr>) = clog_page b"
    "r = Inr () \<Longrightarrow> unsynced_segments st = []"
proof -
  let ?b = "b\<lparr> store := st \<rparr>"
  note sy = sync_list_spec [OF s [unfolded sync_unsynced_def], of "\<lambda>p. \<not> dirty_cached b p"]
  have st: "seg_files st = seg_files (store b)" "set (unsynced_segments st) \<subseteq> set (segments st)"
    "\<forall>p. \<not> dirty_cached b p \<longrightarrow> segment_id_of_page p \<notin> set (unsynced_segments st) \<longrightarrow>
       page_bytes (seg_durable st) p = page_bytes (seg_files (store b)) p"
    "r = Inr () \<longrightarrow> set (unsynced_segments st) = {}"
    using sy buf_invD(3) [OF inv] by (auto simp: sync_inv_def)
  have "clog_page ?b q = clog_page b q" for q
    using st(1) by (cases "page_table b q") (simp_all add: clog_page_def)
  then show view: "clog_page ?b = clog_page b"
    by (rule ext)
  have dc: "dirty_cached ?b = dirty_cached b"
    by (simp add: dirty_cached_def fun_eq_iff)
  have "table_inv ?b" "data_inv ?b" "sync_inv ?b"
    using buf_invD [OF inv] st by (simp_all add: table_inv_def data_inv_def sync_inv_def view dc)
  then show "buf_inv ?b"
    by (rule buf_invI)
  show "r = Inr () \<Longrightarrow> unsynced_segments st = []"
    using st(4) by simp
qed

lemma flush_dirty_spec:
  assumes inv: "buf_inv b" and f: "flush_dirty io b = (r, b')"
  shows "buf_inv b' \<and> buf_view b' = buf_view b \<and>
    (r = Inr () \<longrightarrow> unsynced_segments (store b') = [] \<and>
       (\<forall>p. page_bytes (seg_durable (store b')) p = clog_page b' p))"
proof -
  obtain r1 b1 where ff: "flush_frames io (length (frames b)) 0 b = (r1, b1)"
    by (metis surj_pair)
  have s1: "buf_inv b1" "clog_page b1 = clog_page b"
    "r1 = Inr () \<Longrightarrow> j < length (frames b1) \<Longrightarrow> flushed (frames b1 ! j)" for j
    using flush_frames_spec [OF inv _ _ ff] by simp_all
  show ?thesis
  proof (cases r1)
    case (Inl e)
    then show ?thesis
      using f ff s1 buf_view_cong [of b1 b] by (auto simp: flush_dirty_def)
  next
    case (Inr u)
    obtain st where s: "sync_unsynced io (store b1) = (r, st)" and b': "b' = b1\<lparr> store := st \<rparr>"
      using f ff Inr by (auto simp: flush_dirty_def split: prod.splits)
    note su = sync_unsynced_spec [OF s1(1) s, folded b']
    have clean: "\<not> dirty_cached b' p" for p
      using s1(3) Inr table_invD [OF buf_invD(1) [OF s1(1)], of p]
      by (auto simp: dirty_cached_def flushed_def b')
    have "page_bytes (seg_durable (store b')) p = clog_page b' p" if "r = Inr ()" for p
      using buf_invD(2,3) [OF su(1)] clean [of p] su(3) [OF that] b'
      by (simp add: data_inv_def sync_inv_def)
    then show ?thesis
      using su s1(2) b' buf_view_cong [of b' b] by simp
  qed
qed

lemma flush_frames_ok:
  "(\<And>c. io_ok io c) \<Longrightarrow> fst (flush_frames io k i b) = Inr ()"
proof (induction k arbitrary: i b)
  case (Suc k)
  then have "\<exists>st'. write_page io p bs st = (Inr (), st')" for p bs st
    by (simp add: write_page_def segment_def Let_def)
  then show ?case
    using Suc by (simp add: Let_def split: prod.split sum.split) (metis prod.inject sum.distinct(1))
qed simp

lemma sync_list_ok: "(\<And>c. io_ok io c) \<Longrightarrow> fst (sync_list io sids st) = Inr ()"
  by (induction sids arbitrary: st) (simp_all add: sync_segment_def)

lemma flush_dirty_total: "(\<And>c. io_ok io c) \<Longrightarrow> fst (flush_dirty io b) = Inr ()"
  using flush_frames_ok [of io "length (frames b)" 0 b] sync_list_ok [of io]
  by (cases "flush_frames io (length (frames b)) 0 b")
    (auto simp: flush_dirty_def sync_unsynced_def case_prod_beta)

lemma zero_page_valid: "valid_clog_page (replicate 8192 0)"
  by (simp add: valid_clog_page_def list_all_length valid_clog_byte_def txn_state_from_nibble_def)

lemma open_inv:
  assumes "clog_buffer_open f n = Some b" "\<And>p. valid_clog_page (page_bytes f p)"
  shows "buf_inv b" "buf_view b = durable_view b"
proof -
  have b: "page_table b = Map.empty" "clock_hand b = 0" "length (frames b) = n" "4 \<le> n"
    "store b = clog_store_open f" "\<And>i. i < n \<Longrightarrow> page_no (frames b ! i) = INVALID_PAGE_NO"
    using assms(1) by (auto simp: clog_buffer_open_def split: if_splits)
  have "table_inv b" "data_inv b" "sync_inv b"
    using b assms(2)
    by (auto simp: table_inv_def data_inv_def sync_inv_def clog_page_def dirty_cached_def
        clog_store_open_def)
  then show "buf_inv b"
    by (rule buf_invI)
  show "buf_view b = durable_view b"
    using b by (simp add: buf_view_def durable_view_def clog_page_def clog_store_open_def fun_eq_iff)
qed

section \<open>Properties\<close>





text \<open>
  C40: The clock sweep terminates.  From any hand position inside a non-empty frame
  array, \<open>find_victim\<close> returns a frame index in range within two revolutions, only
  reference bits change, and the frame it returns is unused or no longer referenced.
\<close>

theorem find_victim_terminates:
  assumes "hand < length fs"
  shows "\<exists>v fs' hand'. find_victim fs hand = Some (v, fs', hand') \<and> v < length fs \<and>
    hand' < length fs \<and> map frame_core fs' = map frame_core fs \<and>
    (page_no (fs ! v) = INVALID_PAGE_NO \<or> \<not> referenced (fs' ! v))"
  using find_victim_returns [OF assms] by metis

theorem find_victim_terminates_witness:
  "\<exists>v fs' hand'. find_victim [\<lparr> page_no = 1, data = [], dirty = True, referenced = True \<rparr>,
      \<lparr> page_no = 2, data = [], dirty = True, referenced = True \<rparr>] 1 = Some (v, fs', hand') \<and> v < 2"
  using find_victim_terminates [of 1 "[\<lparr> page_no = 1, data = [], dirty = True, referenced = True \<rparr>,
      \<lparr> page_no = 2, data = [], dirty = True, referenced = True \<rparr>]"] by auto

end
