(* ===== verification/Visibility.thy ===== *)
theory Visibility
  imports Clog
begin

text \<open>
  Snapshots (\<^verbatim>\<open>pg-txn/src/snapshot.rs\<close>) and the MVCC visibility judgement
  (\<^verbatim>\<open>pg-txn/src/visibility.rs\<close>): the oracle, its boolean twin, and the reading
  of both as "the insertion is seen and the deletion is not".  The commit log is
  an argument, the function an accessor's \<open>get_state\<close> computes.
\<close>

section \<open>Snapshots\<close>

record snapshot =
  xmin :: txn_id
  xmax :: txn_id
  xip :: "txn_id list"
  current_xid :: txn_id
  curcid :: u32

definition everything :: snapshot where
  "everything = \<lparr> xmin = 0, xmax = 18446744073709551615, xip = [], current_xid = 0, curcid = 0 \<rparr>"

text \<open>\<open>None\<close> is the overflow panic of the checked addition.\<close>

definition advance_curcid :: "snapshot \<Rightarrow> (u32 \<times> snapshot) option" where
  "advance_curcid s =
    (if curcid s = 4294967295 then None
     else let s' = s\<lparr> curcid := curcid s + 1 \<rparr> in Some (curcid s', s'))"

section \<open>The judgement\<close>

datatype visibility = Visible | Invisible | Uncertain

definition oracle_is_visible ::
  "(txn_id \<Rightarrow> txn_state) \<Rightarrow> txn_id \<Rightarrow> txn_id \<Rightarrow> u32 \<Rightarrow> snapshot \<Rightarrow> visibility" where
  "oracle_is_visible clog t_xmin t_xmax t_cid snap =
    (let self_xid = current_xid snap; cid = curcid snap;
         judge_xmax =
           (if t_xmax = 0 then Visible
            else if t_xmax = self_xid then (if t_cid < cid then Invisible else Visible)
            else if t_xmax \<ge> xmax snap then Visible
            else if t_xmax \<in> set (xip snap) then Visible
            else if clog t_xmax \<noteq> Committed then Visible
            else Invisible)
     in if t_xmin = self_xid then (if t_cid \<ge> cid then Invisible else judge_xmax)
        else if t_xmin \<ge> xmax snap then Invisible
        else if t_xmin \<in> set (xip snap) then Invisible
        else if clog t_xmin \<noteq> Committed then Invisible
        else judge_xmax)"

definition is_visible ::
  "txn_id \<Rightarrow> txn_id \<Rightarrow> u32 \<Rightarrow> snapshot \<Rightarrow> (txn_id \<Rightarrow> txn_state) \<Rightarrow> bool" where
  "is_visible t_xmin t_xmax t_cid snap clog =
    (let self_xid = current_xid snap; cid = curcid snap;
         judge_xmax =
           (if t_xmax = 0 then True
            else if t_xmax = self_xid then t_cid \<ge> cid
            else if t_xmax \<ge> xmax snap then True
            else if t_xmax \<in> set (xip snap) then True
            else if clog t_xmax \<noteq> Committed then True
            else False)
     in if t_xmin = self_xid then (if t_cid \<ge> cid then False else judge_xmax)
        else if t_xmin \<ge> xmax snap then False
        else if t_xmin \<in> set (xip snap) then False
        else if clog t_xmin \<noteq> Committed then False
        else judge_xmax)"

section \<open>The specification\<close>

text \<open>The effects of \<open>x\<close> are part of the snapshot: it finished, committed, before it.\<close>

definition in_snapshot :: "(txn_id \<Rightarrow> txn_state) \<Rightarrow> snapshot \<Rightarrow> txn_id \<Rightarrow> bool" where
  "in_snapshot clog snap x \<longleftrightarrow> x < xmax snap \<and> x \<notin> set (xip snap) \<and> clog x = Committed"

text \<open>
  A write stamped by transaction \<open>x\<close> in command \<open>cid\<close> is seen: an own write when an
  earlier command made it, another transaction's when it is part of the snapshot.
\<close>

definition write_seen :: "(txn_id \<Rightarrow> txn_state) \<Rightarrow> snapshot \<Rightarrow> txn_id \<Rightarrow> u32 \<Rightarrow> bool" where
  "write_seen clog snap x cid \<longleftrightarrow>
    (if x = current_xid snap then cid < curcid snap else in_snapshot clog snap x)"

lemma is_visible_spec:
  "is_visible t_xmin t_xmax t_cid snap clog \<longleftrightarrow>
   write_seen clog snap t_xmin t_cid \<and> \<not> (t_xmax \<noteq> 0 \<and> write_seen clog snap t_xmax t_cid)"
  by (auto simp: is_visible_def write_seen_def in_snapshot_def Let_def)

lemma is_visible_clog_cong:
  assumes "\<And>x. x \<noteq> current_xid snap \<Longrightarrow> x < xmax snap \<Longrightarrow> x \<notin> set (xip snap) \<Longrightarrow>
      (clog x = Committed) = (clog' x = Committed)"
  shows "is_visible t_xmin t_xmax t_cid snap clog = is_visible t_xmin t_xmax t_cid snap clog'"
proof -
  have "write_seen clog snap x c = write_seen clog' snap x c" for x c
    using assms [of x] by (auto simp: write_seen_def in_snapshot_def)
  then show ?thesis
    by (simp add: is_visible_spec)
qed

section \<open>Properties\<close>

text \<open>
  C33: The oracle and its boolean twin agree, and the oracle never answers
  \<open>Uncertain\<close>: a tuple version is \<open>Visible\<close> exactly when the twin returns true, and
  this is when its insertion is part of the snapshot (or an earlier command of the
  own transaction) and its deletion, if any, is not.
\<close>

theorem visibility_oracle_correct:
  "oracle_is_visible clog t_xmin t_xmax t_cid snap
   = (if is_visible t_xmin t_xmax t_cid snap clog then Visible else Invisible) \<and>
   (is_visible t_xmin t_xmax t_cid snap clog \<longleftrightarrow>
     write_seen clog snap t_xmin t_cid \<and> \<not> (t_xmax \<noteq> 0 \<and> write_seen clog snap t_xmax t_cid))"
  by (auto simp: is_visible_spec oracle_is_visible_def write_seen_def in_snapshot_def Let_def)

text \<open>
  A row the transaction inserted earlier and deletes in the current command is
  invisible to the current command.  The single command id of the tuple header is
  overwritten by the deletion, so the branch for own insertions hides the row
  before the branch for own deletions, documented to keep it visible, is reached.
\<close>

theorem own_row_deleted_by_current_command_hidden:
  "current_xid snap \<noteq> 0 \<Longrightarrow> t_cid = curcid snap \<Longrightarrow>
   oracle_is_visible clog (current_xid snap) (current_xid snap) t_cid snap = Invisible \<and>
   (\<forall>other. write_seen clog snap other t_cid \<and> other \<noteq> current_xid snap \<longrightarrow>
      oracle_is_visible clog other (current_xid snap) t_cid snap = Visible)"
  by (auto simp: oracle_is_visible_def write_seen_def in_snapshot_def Let_def)

theorem own_row_deleted_by_current_command_hidden_witness:
  "oracle_is_visible (\<lambda>_. Committed) 7 7 2
     \<lparr> xmin = 7, xmax = 8, xip = [7], current_xid = 7, curcid = 2 \<rparr> = Invisible \<and>
   oracle_is_visible (\<lambda>_. Committed) 3 7 2
     \<lparr> xmin = 7, xmax = 8, xip = [7], current_xid = 7, curcid = 2 \<rparr> = Visible"
  using own_row_deleted_by_current_command_hidden
    [of "\<lparr> xmin = 7, xmax = 8, xip = [7], current_xid = 7, curcid = 2 \<rparr>" 2 "\<lambda>_. Committed"]
  by (auto simp: write_seen_def in_snapshot_def)

end
