(* ===== verification/Txn_Manager.thy ===== *)
theory Txn_Manager
  imports Visibility
begin

text \<open>
  The transaction manager (\<^verbatim>\<open>pg-txn/src/manager.rs\<close>) over the transaction-id clock
  (\<^verbatim>\<open>pg-storage/src/txn_id.rs\<close>).

  Each method is a function on the manager's state, the write-ahead log being reached
  through the two calls of the trait \<open>CommitWal\<close>.  The locale \<open>commit_wal\<close> is the
  contract of that trait; the interpretation on the WAL writer is in the theory
  \<open>Wal_Writer\<close>.  The interleavings of the methods are in \<open>Txn_Protocol\<close>.
\<close>

section \<open>State and methods\<close>

datatype txn_record = TxnCommit txn_id | TxnAbort txn_id

datatype txn_error = SelfWait txn_id | DeadlockVictim txn_id

record 'w txn_manager =
  txn_id_clock :: u64
  wal :: 'w
  clog :: "txn_id \<Rightarrow> txn_state"
  active :: "txn_id set"
  row_wait_registry :: "(txn_id, txn_id) mapping"
  deadlock_victims :: "txn_id set"

definition txn_manager_new :: "u64 \<Rightarrow> 'w \<Rightarrow> (txn_id \<Rightarrow> txn_state) \<Rightarrow> 'w txn_manager" where
  "txn_manager_new clock w c =
    \<lparr> txn_id_clock = clock, wal = w, clog = c, active = {}, row_wait_registry = Mapping.empty,
      deadlock_victims = {} \<rparr>"

text \<open>\<open>TxnIdClock::alloc\<close> is a \<open>fetch_add\<close>, which wraps.\<close>

definition alloc_txn_id :: "u64 \<Rightarrow> txn_id \<times> u64" where
  "alloc_txn_id clock = (clock, clock + 1)"

definition begin_txn :: "'w txn_manager \<Rightarrow> txn_id \<times> 'w txn_manager" where
  "begin_txn m =
    (let (xid, clock) = alloc_txn_id (txn_id_clock m)
     in (xid, m\<lparr> txn_id_clock := clock, active := insert xid (active m) \<rparr>))"

definition end_txn :: "txn_id \<Rightarrow> txn_state \<Rightarrow> 'w txn_manager \<Rightarrow> 'w txn_manager" where
  "end_txn xid s m =
    m\<lparr> deadlock_victims := deadlock_victims m - {xid},
       clog := (clog m)(xid := s),
       active := active m - {xid} \<rparr>"

text \<open>
  Steps 1 and 2 of the hard order: append the record, flush up to its LSN.  \<open>None\<close> is
  a flush that never returns.
\<close>

definition log_durably ::
  "('w \<Rightarrow> txn_record \<Rightarrow> ('e + 'l) \<times> 'w) \<Rightarrow> ('w \<Rightarrow> 'l \<Rightarrow> (('e + unit) \<times> 'w) option)
   \<Rightarrow> txn_record \<Rightarrow> 'w \<Rightarrow> (('e + unit) \<times> 'w) option" where
  "log_durably wal_append flush_to r w =
    (case wal_append w r of
       (Inl e, w) \<Rightarrow> Some (Err e, w)
     | (Inr lsn, w) \<Rightarrow> flush_to w lsn)"

definition commit_txn ::
  "('w \<Rightarrow> txn_record \<Rightarrow> ('e + 'l) \<times> 'w) \<Rightarrow> ('w \<Rightarrow> 'l \<Rightarrow> (('e + unit) \<times> 'w) option)
   \<Rightarrow> txn_id \<Rightarrow> 'w txn_manager \<Rightarrow> (('e + unit) \<times> 'w txn_manager) option" where
  "commit_txn wal_append flush_to xid m =
    (case log_durably wal_append flush_to (TxnCommit xid) (wal m) of
       None \<Rightarrow> None
     | Some (Inl e, w) \<Rightarrow> Some (Err e, m\<lparr> wal := w \<rparr>)
     | Some (Inr _, w) \<Rightarrow> Some (Ok (), end_txn xid Committed (m\<lparr> wal := w \<rparr>)))"

definition abort_txn ::
  "('w \<Rightarrow> txn_record \<Rightarrow> ('e + 'l) \<times> 'w) \<Rightarrow> ('w \<Rightarrow> 'l \<Rightarrow> (('e + unit) \<times> 'w) option)
   \<Rightarrow> txn_id \<Rightarrow> 'w txn_manager \<Rightarrow> (('e + unit) \<times> 'w txn_manager) option" where
  "abort_txn wal_append flush_to xid m =
    (case log_durably wal_append flush_to (TxnAbort xid) (wal m) of
       None \<Rightarrow> None
     | Some (Inl e, w) \<Rightarrow> Some (Err e, m\<lparr> wal := w \<rparr>)
     | Some (Inr _, w) \<Rightarrow> Some (Ok (), end_txn xid Aborted (m\<lparr> wal := w \<rparr>)))"

definition register_row_wait :: "txn_id \<Rightarrow> txn_id \<Rightarrow> 'w txn_manager \<Rightarrow> 'w txn_manager" where
  "register_row_wait self_xid blocking_xid m =
    m\<lparr> row_wait_registry := Mapping.update self_xid blocking_xid (row_wait_registry m) \<rparr>"

definition unregister_row_wait :: "txn_id \<Rightarrow> 'w txn_manager \<Rightarrow> 'w txn_manager" where
  "unregister_row_wait self_xid m =
    m\<lparr> row_wait_registry := Mapping.delete self_xid (row_wait_registry m) \<rparr>"

definition wait_edges :: "'w txn_manager \<Rightarrow> (txn_id \<times> txn_id) list" where
  "wait_edges m =
    map (\<lambda>w. (w, the (Mapping.lookup (row_wait_registry m) w)))
      (Mapping.ordered_keys (row_wait_registry m))"

text \<open>
  One iteration of the loop of \<open>wait_for\<close>: \<open>None\<close> when the thread goes to sleep on
  the condition variable, to run the iteration again when it is woken.
\<close>

definition wait_for_iteration ::
  "txn_id \<Rightarrow> txn_id \<Rightarrow> 'w txn_manager \<Rightarrow> (txn_error + unit) option \<times> 'w txn_manager" where
  "wait_for_iteration self_xid blocking_xid m =
    (if self_xid = blocking_xid then (Some (Err (SelfWait self_xid)), m)
     else if self_xid \<in> deadlock_victims m then
       (Some (Err (DeadlockVictim self_xid)),
        unregister_row_wait self_xid (m\<lparr> deadlock_victims := deadlock_victims m - {self_xid} \<rparr>))
     else if blocking_xid \<notin> active m then (Some (Ok ()), unregister_row_wait self_xid m)
     else (None, m))"

definition active_xids :: "'w txn_manager \<Rightarrow> txn_id list" where
  "active_xids m = sorted_list_of_set (active m)"

definition is_active :: "'w txn_manager \<Rightarrow> txn_id \<Rightarrow> bool" where
  "is_active m xid \<longleftrightarrow> xid \<in> active m"

definition take_snapshot :: "txn_id \<Rightarrow> 'w txn_manager \<Rightarrow> snapshot" where
  "take_snapshot self m =
    (let xmax = txn_id_clock m; xip = sorted_list_of_set (active m)
     in \<lparr> xmin = (case xip of [] \<Rightarrow> xmax | x # _ \<Rightarrow> x), xmax = xmax, xip = xip,
          current_xid = self, curcid = 0 \<rparr>)"

section \<open>The log contract of commit\<close>

text \<open>
  \<open>CommitWal\<close>: \<open>wal_append\<close> returns the LSN at which the record was placed and
  \<open>flush_to\<close> makes the log durable up to an LSN.  \<open>placed w lsn r\<close> says that the
  log holds \<open>r\<close> at \<open>lsn\<close>, \<open>durable w r\<close> that \<open>r\<close> survives a crash.
  The flush law has the side condition \<open>\<not> at_end w lsn\<close> (\<open>lsn\<close> is not exactly the end
  of the durable prefix), because the writer's \<open>flush_to\<close> promises no more; the theory
  \<open>Wal_Writer\<close> shows where it fails without.
\<close>

locale commit_wal =
  fixes wal_append :: "'w \<Rightarrow> txn_record \<Rightarrow> ('e + 'l) \<times> 'w"
    and flush_to :: "'w \<Rightarrow> 'l \<Rightarrow> (('e + unit) \<times> 'w) option"
    and wal_inv :: "'w \<Rightarrow> bool"
    and placed :: "'w \<Rightarrow> 'l \<Rightarrow> txn_record \<Rightarrow> bool"
    and durable :: "'w \<Rightarrow> txn_record \<Rightarrow> bool"
    and at_end :: "'w \<Rightarrow> 'l \<Rightarrow> bool"
  assumes append_inv: "wal_inv w \<Longrightarrow> wal_inv (snd (wal_append w r))"
    and append_placed: "wal_inv w \<Longrightarrow> wal_append w r = (Ok lsn, w') \<Longrightarrow> placed w' lsn r"
    and append_durable: "wal_inv w \<Longrightarrow> durable w q \<Longrightarrow> durable (snd (wal_append w r)) q"
    and flush_returns: "wal_inv w \<Longrightarrow> placed w lsn r \<Longrightarrow> flush_to w lsn \<noteq> None"
    and flush_inv: "wal_inv w \<Longrightarrow> flush_to w lsn = Some (res, w') \<Longrightarrow> wal_inv w'"
    and flush_durable: "wal_inv w \<Longrightarrow> durable w q \<Longrightarrow> flush_to w lsn = Some (res, w') \<Longrightarrow> durable w' q"
    and flush_placed: "wal_inv w \<Longrightarrow> placed w lsn r \<Longrightarrow> \<not> at_end w lsn \<Longrightarrow>
      flush_to w lsn = Some (Ok (), w') \<Longrightarrow> durable w' r"
begin

text \<open>The append does not land exactly at the end of the durable prefix.\<close>

definition append_clear :: "'w \<Rightarrow> txn_record \<Rightarrow> bool" where
  "append_clear w r \<longleftrightarrow> (\<forall>lsn w'. wal_append w r = (Ok lsn, w') \<longrightarrow> \<not> at_end w' lsn)"

lemma log_durably_spec:
  assumes "wal_inv w"
  obtains res w' where "log_durably wal_append flush_to r w = Some (res, w')" "wal_inv w'"
    "\<And>q. durable w q \<Longrightarrow> durable w' q" "res = Inr () \<Longrightarrow> append_clear w r \<Longrightarrow> durable w' r"
proof -
  obtain a w1 where a: "wal_append w r = (a, w1)"
    by (metis surj_pair)
  have w1: "wal_inv w1" "\<And>q. durable w q \<Longrightarrow> durable w1 q"
    using append_inv [OF assms, of r] append_durable [OF assms, of _ r] a by simp_all
  show thesis
  proof (cases a)
    case (Inl e)
    then show thesis
      using that [of "Err e" w1] a w1 by (simp add: log_durably_def)
  next
    case (Inr lsn)
    then have p: "placed w1 lsn r" "append_clear w r \<Longrightarrow> \<not> at_end w1 lsn"
      using append_placed [OF assms] a by (auto simp: append_clear_def)
    obtain res w' where f: "flush_to w1 lsn = Some (res, w')"
      using flush_returns [OF w1(1) p(1)] by fastforce
    show thesis
    proof (rule that)
      show "log_durably wal_append flush_to r w = Some (res, w')"
        using a Inr f by (simp add: log_durably_def)
      show "wal_inv w'"
        using flush_inv [OF w1(1) f] .
      show "durable w' q" if "durable w q" for q
        using flush_durable [OF w1(1) w1(2) [OF that] f] .
      show "durable w' r" if "res = Inr ()" "append_clear w r"
        using flush_placed [OF w1(1) p(1)] p(2) f that by simp
    qed
  qed
qed

text \<open>Every transaction the CLOG calls committed has its record on disk.\<close>

definition commits_durable :: "'w txn_manager \<Rightarrow> bool" where
  "commits_durable m \<longleftrightarrow> wal_inv (wal m) \<and>
    (\<forall>x. clog m x = Committed \<longrightarrow> durable (wal m) (TxnCommit x))"

lemma commit_durable:
  assumes "commits_durable m" "append_clear (wal m) (TxnCommit xid)"
  shows "\<exists>res m'. commit_txn wal_append flush_to xid m = Some (res, m') \<and> commits_durable m'"
proof -
  have "wal_inv (wal m)"
    using assms(1) by (simp add: commits_durable_def)
  then obtain r w where l: "log_durably wal_append flush_to (TxnCommit xid) (wal m) = Some (r, w)" "wal_inv w"
    "\<And>q. durable (wal m) q \<Longrightarrow> durable w q" "r = Inr () \<Longrightarrow> durable w (TxnCommit xid)"
    using log_durably_spec assms(2) by metis
  then show ?thesis
    using assms by (cases r) (auto simp: commit_txn_def commits_durable_def end_txn_def)
qed

lemma abort_durable:
  assumes "commits_durable m"
  shows "\<exists>res m'. abort_txn wal_append flush_to xid m = Some (res, m') \<and> commits_durable m'"
proof -
  have "wal_inv (wal m)"
    using assms(1) by (simp add: commits_durable_def)
  then obtain r w where l: "log_durably wal_append flush_to (TxnAbort xid) (wal m) = Some (r, w)" "wal_inv w"
    "\<And>q. durable (wal m) q \<Longrightarrow> durable w q"
    using log_durably_spec by metis
  then show ?thesis
    using assms by (cases r) (auto simp: abort_txn_def commits_durable_def end_txn_def)
qed

lemma begin_durable: "commits_durable m \<Longrightarrow> commits_durable (snd (begin_txn m))"
  by (simp add: commits_durable_def begin_txn_def alloc_txn_id_def)

end

section \<open>The hard order of commit\<close>

text \<open>
  C36: Commit follows the hard order: record, flush, CLOG bit, active set.  When
  \<open>commit_txn\<close> succeeds the commit record was appended and the flush of the LSN it got
  had succeeded, and only then the CLOG says committed and the transaction is no longer
  active.  When either WAL call fails, the error is returned and nothing but the log
  has changed: the CLOG, the active set and the victims are as before, so the transaction
  is still in progress.  Whatever the log does, no other transaction's status changes.
\<close>

theorem commit_hard_order:
  assumes "commit_txn wal_append flush_to xid m = Some (res, m')"
  shows "case res of
     Inl e \<Rightarrow> m' = m\<lparr> wal := wal m' \<rparr> \<and>
       (\<exists>r w. wal_append (wal m) (TxnCommit xid) = (r, w) \<and>
         (r = Inl e \<and> wal m' = w \<or> (\<exists>lsn. r = Inr lsn \<and> flush_to w lsn = Some (Inl e, wal m'))))
   | Inr _ \<Rightarrow> (\<exists>lsn w. wal_append (wal m) (TxnCommit xid) = (Inr lsn, w) \<and>
         flush_to w lsn = Some (Inr (), wal m')) \<and>
       clog m' = (clog m)(xid := Committed) \<and> active m' = active m - {xid} \<and>
       deadlock_victims m' = deadlock_victims m - {xid} \<and> txn_id_clock m' = txn_id_clock m"
  using assms
  by (cases "wal_append (wal m) (TxnCommit xid)")
    (auto simp: commit_txn_def log_durably_def end_txn_def split: option.splits sum.splits)

theorem commit_hard_order_witness:
  "case commit_txn (\<lambda>w r. (Inr (length w), w @ [r])) (\<lambda>w lsn. if lsn = 1 then Some (Inl (), w) else Some (Inr (), w))
       5 (txn_manager_new 9 [TxnAbort 4] (\<lambda>_. InProgress)) of
     Some (Inl e, m') \<Rightarrow> clog m' 5 = InProgress
   | _ \<Rightarrow> False"
proof -
  let ?a = "\<lambda>w r. (Inr (length w), w @ [r])"
  let ?f = "\<lambda>w lsn. if lsn = 1 then Some (Inl (), w) else Some (Inr (), w)"
  let ?m = "txn_manager_new 9 [TxnAbort 4] (\<lambda>_. InProgress)"
  obtain m' where c: "commit_txn ?a ?f 5 ?m = Some (Inl (), m')"
    by (simp add: commit_txn_def log_durably_def txn_manager_new_def)
  show ?thesis
    using commit_hard_order [OF c] unfolding c
    by (simp add: txn_manager_new_def) (metis txn_manager.select_convs(3) txn_manager.update_convs(2))
qed

end
