(* ===== verification/Txn_Protocol.thy ===== *)
theory Txn_Protocol
  imports Txn_Manager
begin

text \<open>
  The transaction manager's methods as interleaved critical sections.  Every
  transaction has a program counter for its commit or abort and a phase for its
  row-lock wait; the deadlock detector marks and notifies in two steps.  The machine
  keeps the manager's own record and adds the ghost state that says where each thread
  is.

  Shown here: a snapshot is complete (every older transaction is listed as running or
  has its final state), the visibility it defines never changes afterwards, and no
  wakeup of a row-lock waiter is lost.
\<close>

section \<open>The machine\<close>

datatype txn_pc =
    NotStarted
  | Running
  | Durable txn_state  \<comment> \<open>record appended and flushed, \<open>end_txn\<close> entered\<close>
  | Cleared txn_state  \<comment> \<open>victim flag cleared\<close>
  | ClogSet            \<comment> \<open>CLOG bit flipped\<close>
  | Removed            \<comment> \<open>dropped from the active set\<close>
  | Done               \<comment> \<open>waiters notified\<close>

datatype wait_phase =
    NotWaiting
  | Checking txn_id      \<comment> \<open>holds the registry mutex, victim flag not yet checked\<close>
  | Checked txn_id       \<comment> \<open>was not a victim\<close>
  | AboutToSleep txn_id  \<comment> \<open>the blocking transaction was active\<close>
  | Asleep txn_id        \<comment> \<open>on the condition variable, mutex released\<close>
  | Woken txn_id

record machine =
  mgr :: "unit txn_manager"
  pc :: "txn_id \<Rightarrow> txn_pc"
  phase :: "txn_id \<Rightarrow> wait_phase"
  registry_lock :: "txn_id option"
  marking :: bool

definition init_machine :: "u64 \<Rightarrow> (txn_id \<Rightarrow> txn_state) \<Rightarrow> machine" where
  "init_machine clock c =
    \<lparr> mgr = txn_manager_new clock () c, pc = \<lambda>_. NotStarted, phase = \<lambda>_. NotWaiting,
      registry_lock = None, marking = False \<rparr>"

text \<open>\<open>notify_all\<close>.\<close>

definition wake :: "(txn_id \<Rightarrow> wait_phase) \<Rightarrow> txn_id \<Rightarrow> wait_phase" where
  "wake f w = (case f w of Asleep b \<Rightarrow> Woken b | p \<Rightarrow> p)"

inductive txn_step :: "machine \<Rightarrow> machine \<Rightarrow> bool" where
  begin_step: "begin_txn (mgr s) = (x, m) \<Longrightarrow> txn_id_clock (mgr s) < txn_id_clock m \<Longrightarrow>
    txn_step s (s\<lparr> mgr := m, pc := (pc s)(x := Running) \<rparr>)"
| log_step: "pc s x = Running \<Longrightarrow> phase s x = NotWaiting \<Longrightarrow> is_terminal st \<Longrightarrow>
    txn_step s (s\<lparr> pc := (pc s)(x := Durable st) \<rparr>)"
| clear_step: "pc s x = Durable st \<Longrightarrow>
    txn_step s (s\<lparr> mgr := (mgr s)\<lparr> deadlock_victims := deadlock_victims (mgr s) - {x} \<rparr>,
               pc := (pc s)(x := Cleared st) \<rparr>)"
| clog_step: "pc s x = Cleared st \<Longrightarrow>
    txn_step s (s\<lparr> mgr := (mgr s)\<lparr> clog := (clog (mgr s))(x := st) \<rparr>, pc := (pc s)(x := ClogSet) \<rparr>)"
| remove_step: "pc s x = ClogSet \<Longrightarrow>
    txn_step s (s\<lparr> mgr := (mgr s)\<lparr> active := active (mgr s) - {x} \<rparr>, pc := (pc s)(x := Removed) \<rparr>)"
| notify_step: "pc s x = Removed \<Longrightarrow> registry_lock s = None \<Longrightarrow>
    txn_step s (s\<lparr> phase := wake (phase s), pc := (pc s)(x := Done) \<rparr>)"
| register_step: "pc s w = Running \<Longrightarrow> registry_lock s = None \<Longrightarrow>
    txn_step s (s\<lparr> mgr := register_row_wait w b (mgr s) \<rparr>)"
| wait_step: "pc s w = Running \<Longrightarrow> phase s w = NotWaiting \<Longrightarrow> w \<noteq> b \<Longrightarrow> registry_lock s = None \<Longrightarrow>
    txn_step s (s\<lparr> phase := (phase s)(w := Checking b), registry_lock := Some w \<rparr>)"
| rewait_step: "phase s w = Woken b \<Longrightarrow> registry_lock s = None \<Longrightarrow>
    txn_step s (s\<lparr> phase := (phase s)(w := Checking b), registry_lock := Some w \<rparr>)"
| victim_step: "phase s w = Checking b \<Longrightarrow> w \<in> deadlock_victims (mgr s) \<Longrightarrow>
    txn_step s (s\<lparr> mgr := unregister_row_wait w
                 ((mgr s)\<lparr> deadlock_victims := deadlock_victims (mgr s) - {w} \<rparr>),
               phase := (phase s)(w := NotWaiting), registry_lock := None \<rparr>)"
| not_victim_step: "phase s w = Checking b \<Longrightarrow> w \<notin> deadlock_victims (mgr s) \<Longrightarrow>
    txn_step s (s\<lparr> phase := (phase s)(w := Checked b) \<rparr>)"
| unblocked_step: "phase s w = Checked b \<Longrightarrow> b \<notin> active (mgr s) \<Longrightarrow>
    txn_step s (s\<lparr> mgr := unregister_row_wait w (mgr s),
               phase := (phase s)(w := NotWaiting), registry_lock := None \<rparr>)"
| blocked_step: "phase s w = Checked b \<Longrightarrow> b \<in> active (mgr s) \<Longrightarrow>
    txn_step s (s\<lparr> phase := (phase s)(w := AboutToSleep b) \<rparr>)"
| sleep_step: "phase s w = AboutToSleep b \<Longrightarrow>
    txn_step s (s\<lparr> phase := (phase s)(w := Asleep b), registry_lock := None \<rparr>)"
| spurious_step: "phase s w = Asleep b \<Longrightarrow> txn_step s (s\<lparr> phase := (phase s)(w := Woken b) \<rparr>)"
| mark_step: "txn_step s (s\<lparr> mgr := (mgr s)\<lparr> deadlock_victims := insert v (deadlock_victims (mgr s)) \<rparr>,
    marking := True \<rparr>)"
| notify_row_waiters_step: "marking s \<Longrightarrow> registry_lock s = None \<Longrightarrow>
    txn_step s (s\<lparr> phase := wake (phase s), marking := False \<rparr>)"

inductive reachable :: "u64 \<Rightarrow> (txn_id \<Rightarrow> txn_state) \<Rightarrow> machine \<Rightarrow> bool" for c0 clog0 where
  reach_init: "reachable c0 clog0 (init_machine c0 clog0)"
| reach_step: "reachable c0 clog0 s \<Longrightarrow> txn_step s s' \<Longrightarrow> reachable c0 clog0 s'"

section \<open>The invariant\<close>

definition in_flight :: "txn_pc \<Rightarrow> bool" where
  "in_flight p \<longleftrightarrow> p = Running \<or> p = ClogSet \<or> (\<exists>st. p = Durable st \<or> p = Cleared st)"

definition pc_inv :: "u64 \<Rightarrow> machine \<Rightarrow> bool" where
  "pc_inv c0 s \<longleftrightarrow>
    (\<forall>x. x \<in> active (mgr s) \<longleftrightarrow> in_flight (pc s x)) \<and>
    (\<forall>x. pc s x \<noteq> NotStarted \<longrightarrow> x < txn_id_clock (mgr s)) \<and>
    (\<forall>x. c0 \<le> x \<longrightarrow> x < txn_id_clock (mgr s) \<longrightarrow> pc s x \<noteq> NotStarted) \<and>
    (\<forall>x st. pc s x = Durable st \<or> pc s x = Cleared st \<longrightarrow> is_terminal st) \<and>
    (\<forall>x. pc s x = ClogSet \<or> pc s x = Removed \<or> pc s x = Done \<longrightarrow> is_terminal (clog (mgr s) x))"

definition holds_registry :: "wait_phase \<Rightarrow> bool" where
  "holds_registry p \<longleftrightarrow> (\<exists>b. p = Checking b \<or> p = Checked b \<or> p = AboutToSleep b)"

definition wait_inv :: "machine \<Rightarrow> bool" where
  "wait_inv s \<longleftrightarrow>
    (\<forall>w. registry_lock s = Some w \<longleftrightarrow> holds_registry (phase s w)) \<and>
    (\<forall>w b. phase s w = AboutToSleep b \<or> phase s w = Asleep b \<longrightarrow> b \<in> active (mgr s) \<or> pc s b = Removed) \<and>
    (\<forall>w b. phase s w = Checked b \<or> phase s w = AboutToSleep b \<or> phase s w = Asleep b \<longrightarrow>
       w \<in> deadlock_victims (mgr s) \<longrightarrow> marking s)"

lemma in_flight_simps [simp]:
  "in_flight Running" "in_flight ClogSet" "in_flight (Durable st)" "in_flight (Cleared st)"
  "\<not> in_flight NotStarted" "\<not> in_flight Removed" "\<not> in_flight Done"
  by (simp_all add: in_flight_def)

lemma holds_registry_simps [simp]:
  "holds_registry (Checking b)" "holds_registry (Checked b)" "holds_registry (AboutToSleep b)"
  "\<not> holds_registry NotWaiting" "\<not> holds_registry (Asleep b)" "\<not> holds_registry (Woken b)"
  by (simp_all add: holds_registry_def)

lemma wake_simps [simp]:
  "holds_registry (wake f w) = holds_registry (f w)"
  "(wake f w = AboutToSleep b) = (f w = AboutToSleep b)"
  "(wake f w = Checked b) = (f w = Checked b)"
  "wake f w \<noteq> Asleep b"
  by (auto simp: wake_def split: wait_phase.splits)

lemma mgr_wait_simps [simp]:
  "active (register_row_wait w b m) = active m" "active (unregister_row_wait w m) = active m"
  "clog (register_row_wait w b m) = clog m" "clog (unregister_row_wait w m) = clog m"
  "txn_id_clock (register_row_wait w b m) = txn_id_clock m"
  "txn_id_clock (unregister_row_wait w m) = txn_id_clock m"
  "deadlock_victims (register_row_wait w b m) = deadlock_victims m"
  "deadlock_victims (unregister_row_wait w m) = deadlock_victims m"
  by (simp_all add: register_row_wait_def unregister_row_wait_def)

lemma pc_inv_init: "pc_inv c0 (init_machine c0 clog0)"
  by (auto simp: pc_inv_def init_machine_def txn_manager_new_def)

lemma wait_inv_init: "wait_inv (init_machine c0 clog0)"
  by (simp add: wait_inv_def init_machine_def)

lemma word_less_succ: "a < a + 1 \<Longrightarrow> y < a + 1 \<longleftrightarrow> y = a \<or> y < a" for a y :: u64
  by uint_arith

lemma pc_inv_clock: "pc_inv c0 s \<Longrightarrow> pc s (txn_id_clock (mgr s)) = NotStarted"
  unfolding pc_inv_def by (metis less_irrefl)

lemma pc_inv_mgr_cong:
  assumes "pc_inv c0 s" "pc s' = pc s" "active (mgr s') = active (mgr s)"
    "clog (mgr s') = clog (mgr s)" "txn_id_clock (mgr s') = txn_id_clock (mgr s)"
  shows "pc_inv c0 s'"
  using assms by (simp add: pc_inv_def)

lemma pc_inv_begin:
  assumes inv: "pc_inv c0 s" and b: "begin_txn (mgr s) = (x, m)"
    and "txn_id_clock (mgr s) < txn_id_clock m"
  shows "pc_inv c0 (s\<lparr> mgr := m, pc := (pc s)(x := Running) \<rparr>)"
proof -
  let ?c = "txn_id_clock (mgr s)"
  have m: "x = ?c" "txn_id_clock m = ?c + 1" "active m = insert ?c (active (mgr s))"
    "clog m = clog (mgr s)"
    using b by (auto simp: begin_txn_def alloc_txn_id_def Let_def)
  have less: "y < ?c + 1 \<longleftrightarrow> y = ?c \<or> y < ?c" for y
    using assms(3) unfolding m(2) by (rule word_less_succ)
  show ?thesis
    using inv by (auto simp: pc_inv_def m less)
qed

lemma step_pc_inv: "txn_step s s' \<Longrightarrow> pc_inv c0 s \<Longrightarrow> pc_inv c0 s'"
proof (induction rule: txn_step.induct)
  case (begin_step s x m)
  then show ?case using pc_inv_begin by blast
next
  case (log_step s x st)
  then show ?case by (auto simp: pc_inv_def)
next
  case (clear_step s x st)
  then show ?case by (auto simp: pc_inv_def)
next
  case (clog_step s x st)
  then show ?case by (auto simp: pc_inv_def)
next
  case (remove_step s x)
  then show ?case by (auto simp: pc_inv_def)
next
  case (notify_step s x)
  then show ?case by (auto simp: pc_inv_def)
qed (rule pc_inv_mgr_cong, assumption, simp_all)+

lemma registry_lock_unique:
  assumes "wait_inv s" "holds_registry (phase s w)"
  shows "registry_lock s = Some w" "holds_registry (phase s v) \<longleftrightarrow> v = w"
proof -
  show "registry_lock s = Some w"
    using assms by (simp add: wait_inv_def)
  then show "holds_registry (phase s v) \<longleftrightarrow> v = w"
    using assms(1) unfolding wait_inv_def by (metis option.inject)
qed

lemma step_wait_inv: "txn_step s s' \<Longrightarrow> pc_inv c0 s \<Longrightarrow> wait_inv s \<Longrightarrow> wait_inv s'"
proof (induction rule: txn_step.induct)
  case (begin_step s x m)
  then have "active m = insert x (active (mgr s))" "deadlock_victims m = deadlock_victims (mgr s)"
    "pc s x \<noteq> Removed"
    using pc_inv_clock [OF begin_step.prems(1)] by (auto simp: begin_txn_def alloc_txn_id_def)
  with begin_step.prems(2) show ?case
    by (fastforce simp: wait_inv_def)
next
  case (log_step s x st)
  then show ?case by (fastforce simp: wait_inv_def)
next
  case (clear_step s x st)
  then show ?case by (fastforce simp: wait_inv_def)
next
  case (clog_step s x st)
  then show ?case by (fastforce simp: wait_inv_def)
next
  case (remove_step s x)
  then show ?case by (fastforce simp: wait_inv_def)
next
  case (notify_step s x)
  then have "\<not> holds_registry (phase s w)" for w
    unfolding wait_inv_def by (metis option.distinct(1))
  then have "phase s w \<noteq> AboutToSleep b" for w b
    by (metis holds_registry_simps(3))
  with notify_step show ?case by (simp add: wait_inv_def)
next
  case (register_step s w b)
  then show ?case by (simp add: wait_inv_def)
next
  case (wait_step s w b)
  then show ?case by (fastforce simp: wait_inv_def)
next
  case (rewait_step s w b)
  then show ?case by (fastforce simp: wait_inv_def)
next
  case (victim_step s w b)
  then have "holds_registry (phase s w)"
    by simp
  note u = registry_lock_unique [OF \<open>wait_inv s\<close> this]
  show ?case
    using victim_step u(1) u(2) by (fastforce simp: wait_inv_def)
next
  case (not_victim_step s w b)
  then have "holds_registry (phase s w)"
    by simp
  note u = registry_lock_unique [OF \<open>wait_inv s\<close> this]
  show ?case
    using not_victim_step u(1) u(2) by (fastforce simp: wait_inv_def)
next
  case (unblocked_step s w b)
  then have "holds_registry (phase s w)"
    by simp
  note u = registry_lock_unique [OF \<open>wait_inv s\<close> this]
  show ?case
    using unblocked_step u(1) u(2) by (fastforce simp: wait_inv_def)
next
  case (blocked_step s w b)
  then have "holds_registry (phase s w)"
    by simp
  note u = registry_lock_unique [OF \<open>wait_inv s\<close> this]
  show ?case
    using blocked_step u(1) u(2) by (fastforce simp: wait_inv_def)
next
  case (sleep_step s w b)
  then have "holds_registry (phase s w)"
    by simp
  note u = registry_lock_unique [OF \<open>wait_inv s\<close> this]
  show ?case
    using sleep_step u(1) u(2) by (fastforce simp: wait_inv_def)
next
  case (spurious_step s w b)
  then show ?case by (fastforce simp: wait_inv_def)
next
  case (mark_step s v)
  then show ?case by (fastforce simp: wait_inv_def)
next
  case (notify_row_waiters_step s)
  then have "\<not> holds_registry (phase s w)" for w
    unfolding wait_inv_def by (metis option.distinct(1))
  then have "phase s w \<noteq> AboutToSleep b" "phase s w \<noteq> Checked b" for w b
    by (metis holds_registry_simps(3), metis holds_registry_simps(2))
  with notify_row_waiters_step show ?case by (simp add: wait_inv_def)
qed

lemma reachable_inv:
  assumes "reachable c0 clog0 s"
  shows "pc_inv c0 s" "wait_inv s"
proof -
  have "pc_inv c0 s \<and> wait_inv s"
    using assms
    by induction (simp_all add: pc_inv_init wait_inv_init, metis step_pc_inv step_wait_inv)
  then show "pc_inv c0 s" "wait_inv s"
    by simp_all
qed

lemma reachable_finite: "reachable c0 clog0 s \<Longrightarrow> finite (active (mgr s))"
proof (induction rule: reachable.induct)
  case reach_init
  then show ?case by (simp add: init_machine_def txn_manager_new_def)
next
  case (reach_step s s')
  then show ?case
    by (auto elim!: txn_step.cases simp: begin_txn_def alloc_txn_id_def)
qed

section \<open>Finished transactions stay finished\<close>

definition settled :: "machine \<Rightarrow> txn_id \<Rightarrow> bool" where
  "settled s x \<longleftrightarrow> x < txn_id_clock (mgr s) \<and> x \<notin> active (mgr s)"

lemma step_settled:
  assumes "txn_step s s'" "pc_inv c0 s" "settled s x"
  shows "settled s' x \<and> clog (mgr s') x = clog (mgr s) x"
  using assms
proof (induction rule: txn_step.induct)
  case (begin_step s y m)
  then have "y = txn_id_clock (mgr s)" "txn_id_clock m = txn_id_clock (mgr s) + 1"
    "active m = insert y (active (mgr s))" "clog m = clog (mgr s)"
    by (auto simp: begin_txn_def alloc_txn_id_def)
  then show ?case
    using begin_step.hyps(2) begin_step.prems(2) by (auto simp: settled_def word_less_succ)
next
  case (clog_step s y st)
  then have "y \<in> active (mgr s)"
    by (simp add: pc_inv_def)
  then show ?case
    using clog_step.prems(2) by (auto simp: settled_def)
qed (simp_all add: settled_def)

inductive txn_steps :: "machine \<Rightarrow> machine \<Rightarrow> bool" where
  steps_refl: "txn_steps s s"
| steps_step: "txn_steps s s' \<Longrightarrow> txn_step s' s'' \<Longrightarrow> txn_steps s s''"

lemma steps_reachable: "txn_steps s s' \<Longrightarrow> reachable c0 clog0 s \<Longrightarrow> reachable c0 clog0 s'"
  by (induction rule: txn_steps.induct) (auto intro: reach_step)

lemma steps_settled:
  assumes "txn_steps s s'" "reachable c0 clog0 s" "settled s x"
  shows "settled s' x \<and> clog (mgr s') x = clog (mgr s) x"
  using assms
proof (induction rule: txn_steps.induct)
  case (steps_step s s' s'')
  have "pc_inv c0 s'"
    using reachable_inv(1) steps_reachable [OF steps_step.hyps(1)] steps_step.prems(1) by blast
  then show ?case
    using steps_step step_settled [OF steps_step.hyps(2)] by simp
qed simp

definition snapshot_wf :: "u64 \<Rightarrow> (txn_id \<Rightarrow> txn_state) \<Rightarrow> snapshot \<Rightarrow> bool" where
  "snapshot_wf c0 log snap \<longleftrightarrow>
    sorted (xip snap) \<and> distinct (xip snap) \<and> xmin snap \<le> xmax snap \<and>
    (\<forall>x \<in> set (xip snap). xmin snap \<le> x \<and> x < xmax snap) \<and>
    (\<forall>x. c0 \<le> x \<and> x < xmax snap \<longrightarrow> x \<in> set (xip snap) \<or> is_terminal (log x)) \<and>
    (\<forall>x. c0 \<le> x \<and> x < xmin snap \<longrightarrow> is_terminal (log x))"

lemma reachable_terminal:
  assumes "reachable c0 clog0 s" "c0 \<le> x" "x < txn_id_clock (mgr s)" "x \<notin> active (mgr s)"
  shows "is_terminal (clog (mgr s) x)"
proof -
  have "pc s x \<noteq> NotStarted" "\<not> in_flight (pc s x)"
    using reachable_inv(1) [OF assms(1)] assms(2-4) by (auto simp: pc_inv_def)
  then have "pc s x = Removed \<or> pc s x = Done"
    by (cases "pc s x") simp_all
  then show ?thesis
    using reachable_inv(1) [OF assms(1)] by (auto simp: pc_inv_def)
qed

text \<open>A run used by the witnesses: 10 and 11 have begun and 11 sleeps on 10; then 10 commits.\<close>

definition demo_clog :: "txn_id \<Rightarrow> txn_state" where
  "demo_clog x = (if x < 10 then Committed else InProgress)"

definition demo_machine :: machine where
  "demo_machine = \<lparr> mgr = (txn_manager_new 10 () demo_clog)
       \<lparr> txn_id_clock := 12, active := {10, 11} \<rparr>,
     pc = (\<lambda>_. NotStarted)(10 := Running, 11 := Running),
     phase = (\<lambda>_. NotWaiting)(11 := Asleep 10), registry_lock = None, marking = False \<rparr>"

lemma demo_reachable: "reachable 10 demo_clog demo_machine"
proof -
  let ?r = "reachable 10 demo_clog"
  define m1 where "m1 = (txn_manager_new 10 () demo_clog) \<lparr> txn_id_clock := 11, active := {10} \<rparr>"
  define m2 where "m2 = m1 \<lparr> txn_id_clock := 12, active := {10, 11} \<rparr>"
  let ?s = "\<lambda>m p f l. \<lparr> mgr = m, pc = p, phase = f, registry_lock = l, marking = False \<rparr>"
  let ?p1 = "(\<lambda>_. NotStarted)(10 := Running)" and ?p2 = "(\<lambda>_. NotStarted)(10 := Running, 11 := Running)"
  have "?r (?s m1 ?p1 (\<lambda>_. NotWaiting) None)"
    using begin_step [of "init_machine 10 demo_clog" 10 m1] reach_init [of 10 demo_clog]
    by (auto simp: init_machine_def begin_txn_def alloc_txn_id_def txn_manager_new_def m1_def
        intro: reach_step)
  then have "?r (?s m2 ?p2 (\<lambda>_. NotWaiting) None)"
    using begin_step [of "?s m1 ?p1 (\<lambda>_. NotWaiting) None" 11 m2]
    by (auto simp: begin_txn_def alloc_txn_id_def txn_manager_new_def m1_def m2_def insert_commute
        intro: reach_step)
  then have "?r (?s m2 ?p2 ((\<lambda>_. NotWaiting)(11 := Checking 10)) (Some 11))"
    using wait_step [of "?s m2 ?p2 (\<lambda>_. NotWaiting) None" 11 10] by (auto intro: reach_step)
  then have "?r (?s m2 ?p2 ((\<lambda>_. NotWaiting)(11 := Checked 10)) (Some 11))"
    using not_victim_step [of "?s m2 ?p2 ((\<lambda>_. NotWaiting)(11 := Checking 10)) (Some 11)" 11 10]
    by (auto simp: m2_def m1_def txn_manager_new_def intro: reach_step)
  then have "?r (?s m2 ?p2 ((\<lambda>_. NotWaiting)(11 := AboutToSleep 10)) (Some 11))"
    using blocked_step [of "?s m2 ?p2 ((\<lambda>_. NotWaiting)(11 := Checked 10)) (Some 11)" 11 10]
    by (auto simp: m2_def m1_def txn_manager_new_def intro: reach_step)
  then have "?r (?s m2 ?p2 ((\<lambda>_. NotWaiting)(11 := Asleep 10)) None)"
    using sleep_step [of "?s m2 ?p2 ((\<lambda>_. NotWaiting)(11 := AboutToSleep 10)) (Some 11)" 11 10]
    by (auto intro: reach_step)
  then show ?thesis
    by (simp add: demo_machine_def m2_def m1_def)
qed

lemma demo_commit: "\<exists>s. txn_steps demo_machine s \<and> clog (mgr s) 10 = Committed"
proof -
  define s1 where "s1 = demo_machine \<lparr> pc := (pc demo_machine)(10 := Durable Committed) \<rparr>"
  define s2 where "s2 = s1 \<lparr> mgr := (mgr s1)\<lparr> deadlock_victims := deadlock_victims (mgr s1) - {10} \<rparr>,
      pc := (pc s1)(10 := Cleared Committed) \<rparr>"
  define s3 where "s3 = s2 \<lparr> mgr := (mgr s2)\<lparr> clog := (clog (mgr s2))(10 := Committed) \<rparr>,
      pc := (pc s2)(10 := ClogSet) \<rparr>"
  have "txn_step demo_machine s1"
    unfolding s1_def by (rule log_step) (simp_all add: demo_machine_def is_terminal_def)
  moreover have "txn_step s1 s2"
    unfolding s2_def by (rule clear_step) (simp add: s1_def)
  moreover have "txn_step s2 s3"
    unfolding s3_def by (rule clog_step) (simp add: s2_def)
  ultimately have "txn_steps demo_machine s3"
    by (meson steps_refl steps_step)
  then show ?thesis
    by (intro exI [of _ s3]) (simp add: s3_def)
qed

section \<open>Properties\<close>

text \<open>
  C17: Snapshot isolation.  What a snapshot sees is fixed when it is taken: in every
  interleaving of begins, commits, aborts, waits and deadlock marks after the moment
  of the snapshot, and for every command counter of its transaction, a tuple version
  is judged visible exactly if it was judged visible at that moment.
\<close>

theorem snapshot_visibility_stable:
  assumes "reachable c0 clog0 s" "txn_steps s s'"
  shows "is_visible t_xmin t_xmax t_cid (take_snapshot self (mgr s)\<lparr> curcid := c \<rparr>) (clog (mgr s'))
       = is_visible t_xmin t_xmax t_cid (take_snapshot self (mgr s)\<lparr> curcid := c \<rparr>) (clog (mgr s))"
proof (rule is_visible_clog_cong)
  fix x
  assume "x < xmax (take_snapshot self (mgr s)\<lparr> curcid := c \<rparr>)"
    and "x \<notin> set (xip (take_snapshot self (mgr s)\<lparr> curcid := c \<rparr>))"
  then have "settled s x"
    using reachable_finite [OF assms(1)] by (simp add: take_snapshot_def Let_def settled_def)
  then show "(clog (mgr s') x = Committed) = (clog (mgr s) x = Committed)"
    using steps_settled [OF assms(2,1)] by simp
qed

theorem snapshot_visibility_stable_witness:
  "\<exists>s. reachable 10 demo_clog demo_machine \<and> txn_steps demo_machine s \<and> clog (mgr s) 10 = Committed \<and>
     \<not> is_visible 10 0 0 (take_snapshot 11 (mgr demo_machine)\<lparr> curcid := 3 \<rparr>) (clog (mgr s))"
proof -
  obtain s where s: "txn_steps demo_machine s" "clog (mgr s) 10 = Committed"
    using demo_commit by blast
  have "\<not> is_visible 10 0 0 (take_snapshot 11 (mgr demo_machine)\<lparr> curcid := 3 \<rparr>)
      (clog (mgr demo_machine))"
    by (simp add: is_visible_def take_snapshot_def demo_machine_def Let_def)
  then show ?thesis
    using snapshot_visibility_stable [OF demo_reachable s(1), of 10 0 0 3 11] s demo_reachable by auto
qed

text \<open>
  Snapshots are complete and well formed.  In every reachable state the list of
  running transactions of a snapshot is sorted, lies between its lower and upper
  bound, and every transaction started below the upper bound is either in that list
  or already has its final state in the commit log; below the lower bound all have.
\<close>

theorem snapshot_complete:
  assumes "reachable c0 clog0 s"
  shows "snapshot_wf c0 (clog (mgr s)) (take_snapshot self (mgr s))"
proof -
  let ?L = "sorted_list_of_set (active (mgr s))" and ?c = "txn_id_clock (mgr s)"
  have set: "set ?L = active (mgr s)"
    using reachable_finite [OF assms] by simp
  have below: "x \<in> active (mgr s) \<Longrightarrow> x < ?c" for x
    using reachable_inv(1) [OF assms] unfolding pc_inv_def by (metis in_flight_simps(5))
  have snap: "xip (take_snapshot self (mgr s)) = ?L" "xmax (take_snapshot self (mgr s)) = ?c"
    "xmin (take_snapshot self (mgr s)) = (case ?L of [] \<Rightarrow> ?c | x # _ \<Rightarrow> x)"
    by (simp_all add: take_snapshot_def Let_def)
  have least: "x \<in> set ?L \<Longrightarrow> xmin (take_snapshot self (mgr s)) \<le> x" for x
    using sorted_sorted_list_of_set [of "active (mgr s)"] unfolding snap by (cases ?L) auto
  have bound: "xmin (take_snapshot self (mgr s)) \<le> ?c"
  proof (cases ?L)
    case (Cons a l)
    then have "a \<in> active (mgr s)"
      using set by (metis list.set_intros(1))
    then show ?thesis
      using below [of a] Cons snap(3) by simp
  qed (simp add: snap)
  have terminal: "c0 \<le> x \<Longrightarrow> x < ?c \<Longrightarrow> x \<notin> active (mgr s) \<Longrightarrow> is_terminal (clog (mgr s) x)" for x
    using reachable_terminal [OF assms] .
  have old: "x < xmin (take_snapshot self (mgr s)) \<Longrightarrow> x < ?c \<and> x \<notin> active (mgr s)" for x
    using least [of x] bound set by (auto dest: leD)
  show ?thesis
    unfolding snapshot_wf_def snap(1,2) using below least bound terminal old set by auto
qed

theorem snapshot_complete_witness:
  "reachable 10 demo_clog demo_machine \<and>
   snapshot_wf 10 (clog (mgr demo_machine)) (take_snapshot 11 (mgr demo_machine)) \<and>
   xip (take_snapshot 11 (mgr demo_machine)) = [10, 11]"
  using snapshot_complete [OF demo_reachable, of 11] demo_reachable
  by (simp add: take_snapshot_def demo_machine_def Let_def)

text \<open>
  C34: No wakeup is lost.  In every reachable state a thread asleep in \<open>wait_for\<close> on a
  transaction has that transaction still active, or its end has not yet reached the
  broadcast that will wake the thread; and a sleeping thread that the deadlock
  detector has marked as a victim still has the detector's broadcast to come.
\<close>

theorem no_lost_wakeup:
  assumes "reachable c0 clog0 s" "phase s w = Asleep b"
  shows "(b \<in> active (mgr s) \<or> pc s b = Removed) \<and> pc s b \<noteq> Done \<and>
    (w \<in> deadlock_victims (mgr s) \<longrightarrow> marking s)"
proof -
  have "b \<in> active (mgr s) \<or> pc s b = Removed" "w \<in> deadlock_victims (mgr s) \<longrightarrow> marking s"
    using reachable_inv(2) [OF assms(1)] assms(2) by (auto simp: wait_inv_def)
  moreover have "b \<in> active (mgr s) \<Longrightarrow> pc s b \<noteq> Done"
    using reachable_inv(1) [OF assms(1)] unfolding pc_inv_def by (metis in_flight_simps(7))
  ultimately show ?thesis
    by auto
qed

theorem no_lost_wakeup_witness:
  "reachable 10 demo_clog demo_machine \<and> phase demo_machine 11 = Asleep 10 \<and>
   (10 \<in> active (mgr demo_machine) \<or> pc demo_machine 10 = Removed)"
proof -
  have "phase demo_machine 11 = Asleep 10"
    by (simp add: demo_machine_def)
  then show ?thesis
    using no_lost_wakeup [OF demo_reachable, of 11 10] demo_reachable by simp
qed

end
