(* ===== verification/Storage_Types.thy ===== *)
theory Storage_Types
  imports Prelude
begin

text \<open>
  Identifiers, sizes and errors of the storage layer: \<^verbatim>\<open>pg-storage/src/types.rs\<close>,
  \<^verbatim>\<open>pg-storage/src/error.rs\<close>, \<^verbatim>\<open>pg-storage/src/lsn_clock.rs\<close> and
  \<^verbatim>\<open>pg-storage/src/oid.rs\<close>.  Error values keep the constructor and the typed
  fields of the source and drop the message text.
\<close>

definition PAGE_SIZE :: nat where "PAGE_SIZE = 8192"
definition LSN_ALIGNMENT :: u64 where "LSN_ALIGNMENT = 8"
definition LSN_FIRST :: lsn where "LSN_FIRST = LSN_ALIGNMENT"
definition OID_FIRST_USER :: oid where "OID_FIRST_USER = 16384"

record tid =
  tid_page_id :: page_id
  tid_slot_id :: u16

datatype storage_error =
    Io | PageNotFound page_id | BufferPoolFull | WalCorrupted lsn | WalWriteFailed | WalReadFailed
  | CheckpointFailed | MetadataCorrupted | LsnNotAvailable lsn | InvalidConfig | InvalidOperation
  | Serialize | RecoveryRequired | UnknownRecord byte lsn

definition lsn_is_valid :: "lsn \<Rightarrow> bool" where "lsn_is_valid l \<longleftrightarrow> l \<noteq> 0"
definition lsn_segment_id :: "lsn \<Rightarrow> u64 \<Rightarrow> u64" where "lsn_segment_id l sz = l div sz"
definition lsn_segment_offset :: "lsn \<Rightarrow> u64 \<Rightarrow> u64" where "lsn_segment_offset l sz = l mod sz"

text \<open>\<open>None\<close>: the assertion on the alignment.\<close>

definition lsn_advance :: "lsn \<Rightarrow> u64 \<Rightarrow> lsn option" where
  "lsn_advance l n = (if n mod LSN_ALIGNMENT = 0 then Some (l + n) else None)"

definition oid_is_system :: "oid \<Rightarrow> bool" where
  "oid_is_system oid \<longleftrightarrow> oid > 0 \<and> oid < OID_FIRST_USER"

text \<open>
  \<open>(n + align - 1) & !(align - 1)\<close> for a power of two is rounding up to a multiple.
\<close>

definition align_up :: "nat \<Rightarrow> nat \<Rightarrow> nat" where
  "align_up n align = (n + align - 1) div align * align"

lemma align_up_8:
  "n \<le> align_up n 8" "align_up n 8 < n + 8" "align_up n 8 mod 8 = 0"
  unfolding align_up_def by presburger+

lemma align_up_8_mono: "n \<le> m \<Longrightarrow> align_up n 8 \<le> align_up m 8"
  by (simp add: align_up_def div_le_mono)

section \<open>The LSN clock\<close>

text \<open>
  \<open>LsnClock::new\<close>, \<open>next\<close> and \<open>reserve\<close>; a failed assertion is \<open>None\<close>.  \<open>next\<close> and
  \<open>reserve\<close> have the same body.
\<close>

definition lsn_clock_new :: "lsn \<Rightarrow> u64 option" where
  "lsn_clock_new start = (if lsn_is_valid start \<and> start mod LSN_ALIGNMENT = 0 then Some start else None)"

definition lsn_clock_next :: "u64 \<Rightarrow> u64 \<Rightarrow> (lsn \<times> u64) option" where
  "lsn_clock_next clock n =
    (if n > 0 \<and> n mod LSN_ALIGNMENT = 0 then Some (clock, clock + n) else None)"

text \<open>\<open>OidCounter::alloc\<close>, a \<open>fetch_add\<close>.\<close>

definition oid_alloc :: "u64 \<Rightarrow> oid \<times> u64" where
  "oid_alloc counter = (counter, counter + 1)"

end
