(* ===== verification/Wal_Record.thy ===== *)
theory Wal_Record
  imports Storage_Types
begin

text \<open>
  WAL records (\<^verbatim>\<open>pg-storage/src/wal/record.rs\<close>): the record types and their on-disk
  discriminants, the payload structures and the constructors of the records that carry
  them, and the framing of a record into bytes.

  Two libraries are parameters.  The checksum \<open>crc\<close> (crate \<^verbatim>\<open>crc32fast\<close>) is a function
  from byte strings to 32-bit words.  The payload serialiser (crate \<^verbatim>\<open>bincode\<close>) is a
  pair of functions; the theorems that need it assume that decoding what was encoded
  returns the value.
\<close>

section \<open>Record types\<close>

datatype wal_record_type =
    HeapInsert | HeapUpdate | HeapDelete | BTreeInsert | BTreeSplitPrepare | BTreeDelete
  | HeapHotUpdate | HeapCleanup | FullPageImage | TxnBegin | TxnCommitT | TxnAbortT
  | CheckpointBegin | CheckpointEnd | PageAlloc | PageFree | BTreeSplitCLR | BTreeSplitCopy
  | BTreeSplitCommit | LogicalHnsw | LogicalInverted | LogicalGraph | LogicalTimeSeries
  | SegmentSeal | SegmentMerge

fun to_u8 :: "wal_record_type \<Rightarrow> byte" where
  "to_u8 HeapInsert = 1" | "to_u8 HeapUpdate = 2" | "to_u8 HeapDelete = 3"
| "to_u8 BTreeInsert = 4" | "to_u8 BTreeSplitPrepare = 5" | "to_u8 BTreeDelete = 6"
| "to_u8 HeapHotUpdate = 7" | "to_u8 HeapCleanup = 8" | "to_u8 FullPageImage = 10"
| "to_u8 TxnBegin = 20" | "to_u8 TxnCommitT = 21" | "to_u8 TxnAbortT = 22"
| "to_u8 CheckpointBegin = 30" | "to_u8 CheckpointEnd = 31" | "to_u8 PageAlloc = 40"
| "to_u8 PageFree = 41" | "to_u8 BTreeSplitCLR = 50" | "to_u8 BTreeSplitCopy = 51"
| "to_u8 BTreeSplitCommit = 52" | "to_u8 LogicalHnsw = 100" | "to_u8 LogicalInverted = 101"
| "to_u8 LogicalGraph = 102" | "to_u8 LogicalTimeSeries = 103" | "to_u8 SegmentSeal = 110"
| "to_u8 SegmentMerge = 111"

definition from_u8 :: "byte \<Rightarrow> storage_error + wal_record_type" where
  "from_u8 v =
    (if v = 1 then Ok HeapInsert else if v = 2 then Ok HeapUpdate else if v = 3 then Ok HeapDelete
     else if v = 4 then Ok BTreeInsert else if v = 5 then Ok BTreeSplitPrepare
     else if v = 6 then Ok BTreeDelete else if v = 7 then Ok HeapHotUpdate
     else if v = 8 then Ok HeapCleanup else if v = 10 then Ok FullPageImage
     else if v = 20 then Ok TxnBegin else if v = 21 then Ok TxnCommitT
     else if v = 22 then Ok TxnAbortT else if v = 30 then Ok CheckpointBegin
     else if v = 31 then Ok CheckpointEnd else if v = 40 then Ok PageAlloc
     else if v = 41 then Ok PageFree else if v = 50 then Ok BTreeSplitCLR
     else if v = 51 then Ok BTreeSplitCopy else if v = 52 then Ok BTreeSplitCommit
     else if v = 100 then Ok LogicalHnsw else if v = 101 then Ok LogicalInverted
     else if v = 102 then Ok LogicalGraph else if v = 103 then Ok LogicalTimeSeries
     else if v = 110 then Ok SegmentSeal else if v = 111 then Ok SegmentMerge
     else Err WalReadFailed)"

lemma from_to_u8 [simp]: "from_u8 (to_u8 t) = Ok t"
  by (cases t) (simp_all add: from_u8_def)

lemma to_from_u8: "from_u8 v = Ok t \<Longrightarrow> to_u8 t = v"
  by (auto simp: from_u8_def split: if_splits)

section \<open>The record and its framing\<close>

record wal_record =
  rec_lsn :: lsn
  prev_lsn :: lsn
  txn_id :: txn_id
  record_type :: wal_record_type
  rec_flags :: byte
  payload :: "byte list"

definition WAL_RECORD_HEADER_SIZE :: nat where "WAL_RECORD_HEADER_SIZE = 32"

definition record_size :: "wal_record \<Rightarrow> nat" where
  "record_size r = align_up (WAL_RECORD_HEADER_SIZE + length (payload r)) 8"

text \<open>The buffer of \<open>wal_encode\<close> before the checksum is stored.\<close>

definition encode_body :: "wal_record \<Rightarrow> byte list" where
  "encode_body r =
    (let buf = u64_le (rec_lsn r) @ u64_le (prev_lsn r) @ u64_le (txn_id r)
           @ [to_u8 (record_type r), rec_flags r] @ u16_le (of_nat (length (payload r)))
           @ u32_le 0 @ payload r
     in buf @ replicate (record_size r - length buf) 0)"

text \<open>The checksum covers everything but its own four bytes.\<close>

definition record_crc :: "(byte list \<Rightarrow> u32) \<Rightarrow> byte list \<Rightarrow> nat \<Rightarrow> u32" where
  "record_crc crc buf tot = crc (bytes_at 0 28 buf @ bytes_at 32 (tot - 32) buf)"

definition wal_encode :: "(byte list \<Rightarrow> u32) \<Rightarrow> wal_record \<Rightarrow> storage_error + byte list" where
  "wal_encode crc r =
    (if length (payload r) > 65535 then Err WalWriteFailed
     else let buf = encode_body r; tot = record_size r
          in Ok (put_u32 28 (record_crc crc buf tot) buf))"

definition wal_decode :: "(byte list \<Rightarrow> u32) \<Rightarrow> byte list \<Rightarrow> storage_error + wal_record \<times> nat" where
  "wal_decode crc buf =
    (if length buf < WAL_RECORD_HEADER_SIZE then Err (WalCorrupted 0)
     else
       let lsn = get_u64 buf 0; prev = get_u64 buf 8; xid = get_u64 buf 16;
           type_byte = buf ! 24; fl = buf ! 25;
           payload_len = unat (get_u16 buf 26);
           stored_crc = get_u32 buf 28;
           tot = align_up (WAL_RECORD_HEADER_SIZE + payload_len) 8
       in if length buf < tot then Err (WalCorrupted lsn)
          else if record_crc crc buf tot \<noteq> stored_crc then Err (WalCorrupted lsn)
          else case from_u8 type_byte of
                 Inl e \<Rightarrow> Err e
               | Inr t \<Rightarrow>
                   Ok (\<lparr> rec_lsn = lsn, prev_lsn = prev, txn_id = xid, record_type = t,
                         rec_flags = fl, payload = bytes_at 32 payload_len buf \<rparr>, tot))"

lemma length_encode_body [simp]: "length (encode_body r) = record_size r"
proof -
  have "32 + length (payload r) \<le> record_size r"
    using align_up_8(1) [of "32 + length (payload r)"] by (simp add: record_size_def WAL_RECORD_HEADER_SIZE_def)
  then show ?thesis
    by (simp add: encode_body_def Let_def)
qed

lemma record_size_ge: "32 + length (payload r) \<le> record_size r"
  using align_up_8(1) [of "32 + length (payload r)"] by (simp add: record_size_def WAL_RECORD_HEADER_SIZE_def)

lemma encode_body_fields:
  "get_u64 (encode_body r) 0 = rec_lsn r" "get_u64 (encode_body r) 8 = prev_lsn r"
  "get_u64 (encode_body r) 16 = txn_id r" "encode_body r ! 24 = to_u8 (record_type r)"
  "encode_body r ! 25 = rec_flags r" "get_u16 (encode_body r) 26 = of_nat (length (payload r))"
  "bytes_at 32 (length (payload r)) (encode_body r) = payload r"
  by (simp_all add: encode_body_def Let_def get_uN_defs bytes_at_append_left bytes_at_append_right
      bytes_at_Cons nth_append)

lemma nth_put_u32: "28 + 4 \<le> length b \<Longrightarrow> i < 28 \<Longrightarrow> put_u32 28 w b ! i = b ! i"
  by (simp add: put_u32_def nth_put_at)

lemma record_crc_put:
  assumes "32 \<le> tot" "tot \<le> length buf"
  shows "record_crc crc (put_u32 28 w buf @ rest) tot = record_crc crc buf tot"
  using assms by (simp add: record_crc_def bytes_at_append_left bytes_at_put_uN)

lemma encode_fields:
  assumes "wal_encode crc r = Ok buf"
  shows "length (payload r) \<le> 65535" "length buf = record_size r"
    "buf = put_u32 28 (record_crc crc (encode_body r) (record_size r)) (encode_body r)"
  using assms record_size_ge [of r] by (auto simp: wal_encode_def Let_def split: if_splits)

lemma decode_encode:
  assumes "wal_encode crc r = Ok buf"
  shows "wal_decode crc (buf @ rest) = Ok (r, record_size r)"
proof -
  note e = encode_fields [OF assms]
  have ge: "32 + length (payload r) \<le> length (encode_body r)"
    using record_size_ge [of r] by simp
  have len: "unat (of_nat (length (payload r)) :: u16) = length (payload r)"
    using e(1) by (simp add: unat_of_nat)
  have f: "get_u64 (buf @ rest) 0 = rec_lsn r" "get_u64 (buf @ rest) 8 = prev_lsn r"
    "get_u64 (buf @ rest) 16 = txn_id r" "(buf @ rest) ! 24 = to_u8 (record_type r)"
    "(buf @ rest) ! 25 = rec_flags r" "get_u16 (buf @ rest) 26 = of_nat (length (payload r))"
    "bytes_at 32 (length (payload r)) (buf @ rest) = payload r"
    "get_u32 (buf @ rest) 28 = record_crc crc (encode_body r) (record_size r)"
    using ge unfolding e(3)
    by (simp_all add: get_uN_append buf_simps encode_body_fields nth_append nth_put_u32
        bytes_at_append_left)
  have crc: "record_crc crc (buf @ rest) (record_size r) = record_crc crc (encode_body r) (record_size r)"
    using ge unfolding e(3) by (intro record_crc_put) simp_all
  have size: "align_up (WAL_RECORD_HEADER_SIZE + length (payload r)) 8 = record_size r"
    by (simp add: record_size_def)
  show ?thesis
    using ge e(2) crc unfolding wal_decode_def Let_def f len size
    by (simp add: WAL_RECORD_HEADER_SIZE_def)
qed

section \<open>Payloads\<close>

record checkpoint_end =
  checkpoint_lsn :: lsn
  ce_next_page_id :: page_id
  ce_next_txn_id :: txn_id
  ce_next_oid :: u64
  att_file :: string
  dpt_file :: string

record split_clr =
  clr_left_page :: page_id
  clr_right_page :: page_id
  clr_level :: byte
  clr_copy_start_slot :: u16
  redo_ref_lsn :: lsn
  clr_parent_page :: page_id
  clr_parent_insert_slot :: u16
  new_root_page :: page_id
  meta_page :: page_id
  clr_separator_key :: "byte list"

datatype wal_payload =
    PageAllocRecord page_id
  | PageFreeRecord page_id
  | FullPageImageRecord page_id "byte list"
  | HeapInsertRecord page_id u16 "byte list"
  | HeapUpdateRecord tid tid txn_id "byte list"
  | HeapDeleteRecord tid txn_id
  | HeapHotUpdateRecord page_id u16 u16 "byte list" txn_id
  | BTreeInsertRecord page_id u16 byte byte "byte list"
  | BTreeDeleteRecord page_id u16
  | BTreeSplitPrepareRecord page_id page_id byte page_id "byte list"
  | BTreeSplitCopyRecord page_id page_id u16 lsn
  | BTreeSplitCommitRecord page_id page_id page_id "byte list" u16
  | BTreeSplitCLRRecord split_clr
  | TxnCommitRecord txn_id
  | TxnAbortRecord txn_id
  | CheckpointEndRecordV1 lsn page_id txn_id
  | CheckpointEndRecord checkpoint_end

text \<open>The structure a decoder is asked for.\<close>

datatype payload_kind =
    KPageAlloc | KPageFree | KFullPageImage | KHeapInsert | KHeapUpdate | KHeapDelete
  | KHeapHotUpdate | KBTreeInsert | KBTreeDelete | KSplitPrepare | KSplitCopy | KSplitCommit
  | KSplitCLR | KTxnCommit | KTxnAbort | KCheckpointEndV1 | KCheckpointEnd

fun kind_of :: "wal_payload \<Rightarrow> payload_kind" where
  "kind_of (PageAllocRecord _) = KPageAlloc"
| "kind_of (PageFreeRecord _) = KPageFree"
| "kind_of (FullPageImageRecord _ _) = KFullPageImage"
| "kind_of (HeapInsertRecord _ _ _) = KHeapInsert"
| "kind_of (HeapUpdateRecord _ _ _ _) = KHeapUpdate"
| "kind_of (HeapDeleteRecord _ _) = KHeapDelete"
| "kind_of (HeapHotUpdateRecord _ _ _ _ _) = KHeapHotUpdate"
| "kind_of (BTreeInsertRecord _ _ _ _ _) = KBTreeInsert"
| "kind_of (BTreeDeleteRecord _ _) = KBTreeDelete"
| "kind_of (BTreeSplitPrepareRecord _ _ _ _ _) = KSplitPrepare"
| "kind_of (BTreeSplitCopyRecord _ _ _ _) = KSplitCopy"
| "kind_of (BTreeSplitCommitRecord _ _ _ _ _) = KSplitCommit"
| "kind_of (BTreeSplitCLRRecord _) = KSplitCLR"
| "kind_of (TxnCommitRecord _) = KTxnCommit"
| "kind_of (TxnAbortRecord _) = KTxnAbort"
| "kind_of (CheckpointEndRecordV1 _ _ _) = KCheckpointEndV1"
| "kind_of (CheckpointEndRecord _) = KCheckpointEnd"

text \<open>
  The serialiser: \<open>encode_to_vec\<close> and \<open>decode_from_slice\<close> of the crate \<^verbatim>\<open>bincode\<close>, with a
  failure as \<open>None\<close>.  \<open>bincode_ok\<close> is its documented round trip.
\<close>

record bincode =
  bin_enc :: "wal_payload \<Rightarrow> byte list option"
  bin_dec :: "payload_kind \<Rightarrow> byte list \<Rightarrow> wal_payload option"

definition bincode_ok :: "bincode \<Rightarrow> bool" where
  "bincode_ok bc \<longleftrightarrow> (\<forall>p bs. bin_enc bc p = Some bs \<longrightarrow> bin_dec bc (kind_of p) bs = Some p)"

definition record_new :: "wal_record_type \<Rightarrow> byte list \<Rightarrow> wal_record" where
  "record_new t pl =
    \<lparr> rec_lsn = 0, prev_lsn = 0, txn_id = 0, record_type = t, rec_flags = 0, payload = pl \<rparr>"

definition mk_record ::
  "bincode \<Rightarrow> wal_record_type \<Rightarrow> txn_id \<Rightarrow> byte \<Rightarrow> wal_payload \<Rightarrow> storage_error + wal_record" where
  "mk_record bc t xid fl p =
    (case bin_enc bc p of
       None \<Rightarrow> Err Serialize
     | Some bs \<Rightarrow> Ok ((record_new t bs)\<lparr> txn_id := xid, rec_flags := fl \<rparr>))"

definition page_alloc where "page_alloc bc pid = mk_record bc PageAlloc 0 0 (PageAllocRecord pid)"
definition page_free where "page_free bc pid = mk_record bc PageFree 0 0 (PageFreeRecord pid)"
definition full_page_image where
  "full_page_image bc pid img = mk_record bc FullPageImage 0 0 (FullPageImageRecord pid img)"
definition checkpoint_begin where "checkpoint_begin = record_new CheckpointBegin []"
definition heap_insert where
  "heap_insert bc pid slot tuple xid = mk_record bc HeapInsert xid 0 (HeapInsertRecord pid slot tuple)"
definition heap_update where
  "heap_update bc old new xmax_old tuple xid =
    mk_record bc HeapUpdate xid 0 (HeapUpdateRecord old new xmax_old tuple)"
definition heap_delete where
  "heap_delete bc t xmax xid = mk_record bc HeapDelete xid 0 (HeapDeleteRecord t xmax)"
definition heap_hot_update where
  "heap_hot_update bc pid old_slot new_slot tuple xmax xid =
    mk_record bc HeapHotUpdate xid 0 (HeapHotUpdateRecord pid old_slot new_slot tuple xmax)"
definition btree_insert where
  "btree_insert bc pid slot level fl tuple = mk_record bc BTreeInsert 0 0 (BTreeInsertRecord pid slot level fl tuple)"
definition btree_delete where
  "btree_delete bc pid slot = mk_record bc BTreeDelete 0 0 (BTreeDeleteRecord pid slot)"
definition btree_split_prepare where
  "btree_split_prepare bc left new_right level left_old_next high_key =
    mk_record bc BTreeSplitPrepare 0 0 (BTreeSplitPrepareRecord left new_right level left_old_next high_key)"
definition btree_split_copy where
  "btree_split_copy bc left right start pre_lsn =
    mk_record bc BTreeSplitCopy 0 0 (BTreeSplitCopyRecord left right start pre_lsn)"
definition btree_split_commit where
  "btree_split_commit bc left right parent sep slot =
    mk_record bc BTreeSplitCommit 0 0 (BTreeSplitCommitRecord left right parent sep slot)"
definition btree_split_clr where
  "btree_split_clr bc clr = mk_record bc BTreeSplitCLR 0 0 (BTreeSplitCLRRecord clr)"
definition txn_commit where "txn_commit bc xid = mk_record bc TxnCommitT xid 0 (TxnCommitRecord xid)"
definition txn_abort where "txn_abort bc xid = mk_record bc TxnAbortT xid 0 (TxnAbortRecord xid)"

definition CHECKPOINT_END_VERSION_V2 :: byte where "CHECKPOINT_END_VERSION_V2 = 1"
definition CHECKPOINT_END_V2_FLAGS :: byte where
  "CHECKPOINT_END_V2_FLAGS = push_bit 4 CHECKPOINT_END_VERSION_V2"

definition checkpoint_end_record where
  "checkpoint_end_record bc ce = mk_record bc CheckpointEnd 0 CHECKPOINT_END_V2_FLAGS (CheckpointEndRecord ce)"

text \<open>The decoders: one body for all structures but the two below.\<close>

definition decode_payload :: "bincode \<Rightarrow> payload_kind \<Rightarrow> byte list \<Rightarrow> storage_error + wal_payload" where
  "decode_payload bc k bs = (case bin_dec bc k bs of None \<Rightarrow> Err Serialize | Some p \<Rightarrow> Ok p)"

definition MAX_CLR_SEPARATOR_KEY_BYTES :: nat where
  "MAX_CLR_SEPARATOR_KEY_BYTES = (PAGE_SIZE - 32 - 16) div 3"

definition decode_split_clr :: "bincode \<Rightarrow> byte list \<Rightarrow> storage_error + split_clr" where
  "decode_split_clr bc bs =
    try_then (decode_payload bc KSplitCLR bs) (\<lambda>p. case p of
        BTreeSplitCLRRecord clr \<Rightarrow>
          if length (clr_separator_key clr) > MAX_CLR_SEPARATOR_KEY_BYTES then Err Serialize else Ok clr
      | _ \<Rightarrow> Err Serialize)"

definition decode_checkpoint_end :: "bincode \<Rightarrow> byte list \<Rightarrow> byte \<Rightarrow> storage_error + checkpoint_end" where
  "decode_checkpoint_end bc bs fl =
    (if drop_bit 4 fl = 0 then
       try_then (decode_payload bc KCheckpointEndV1 bs) (\<lambda>p. case p of
           CheckpointEndRecordV1 l pid xid \<Rightarrow>
             Ok \<lparr> checkpoint_lsn = l, ce_next_page_id = pid, ce_next_txn_id = xid,
                  ce_next_oid = OID_FIRST_USER, att_file = [], dpt_file = [] \<rparr>
         | _ \<Rightarrow> Err Serialize)
     else if drop_bit 4 fl = CHECKPOINT_END_VERSION_V2 then
       try_then (decode_payload bc KCheckpointEnd bs) (\<lambda>p. case p of
           CheckpointEndRecord ce \<Rightarrow> Ok ce | _ \<Rightarrow> Err Serialize)
     else Err WalReadFailed)"

lemma mk_record_Ok:
  "mk_record bc t xid fl p = Ok r \<Longrightarrow>
   \<exists>bs. bin_enc bc p = Some bs \<and> payload r = bs \<and> record_type r = t \<and> txn_id r = xid \<and> rec_flags r = fl"
  by (auto simp: mk_record_def record_new_def split: option.splits)

lemma decode_payload_mk:
  "bincode_ok bc \<Longrightarrow> mk_record bc t xid fl p = Ok r \<Longrightarrow> decode_payload bc (kind_of p) (payload r) = Ok p"
  by (auto dest!: mk_record_Ok simp: bincode_ok_def decode_payload_def)

lemma high_nibble: "unat (drop_bit 4 b) = unat b div 16" for b :: byte
  by (simp add: drop_bit_eq_div unat_div)

section \<open>Properties\<close>

text \<open>
  C35: Framing round trip.  For every checksum function, a record that is encoded is
  decoded from the front of any byte string that starts with its encoding, to exactly
  the same record and with exactly the encoded length consumed; that length is the
  announced record size, a multiple of the LSN alignment and at least the header.
\<close>

theorem wal_record_roundtrip:
  assumes "wal_encode crc r = Ok buf"
  shows "wal_decode crc (buf @ rest) = Ok (r, length buf) \<and> length buf = record_size r \<and>
    length buf mod 8 = 0 \<and> WAL_RECORD_HEADER_SIZE \<le> length buf"
  using decode_encode [OF assms] encode_fields(2) [OF assms] record_size_ge [of r]
    align_up_8(3) [of "WAL_RECORD_HEADER_SIZE + length (payload r)"]
  by (simp add: record_size_def WAL_RECORD_HEADER_SIZE_def)

theorem wal_record_roundtrip_witness:
  "\<exists>buf. wal_encode (\<lambda>bs. of_nat (length bs))
      \<lparr> rec_lsn = 8, prev_lsn = 0, txn_id = 7, record_type = TxnCommitT, rec_flags = 0, payload = [7] \<rparr>
      = Ok buf \<and>
     wal_decode (\<lambda>bs. of_nat (length bs)) (buf @ [1, 2, 3])
      = Ok (\<lparr> rec_lsn = 8, prev_lsn = 0, txn_id = 7, record_type = TxnCommitT, rec_flags = 0,
              payload = [7] \<rparr>, 40)"
proof -
  let ?r = "\<lparr> rec_lsn = 8, prev_lsn = 0, txn_id = 7, record_type = TxnCommitT, rec_flags = 0, payload = [7] \<rparr>"
  obtain buf where b: "wal_encode (\<lambda>bs. of_nat (length bs)) ?r = Ok buf"
    by (simp add: wal_encode_def Let_def)
  have "record_size ?r = 40"
    by (simp add: record_size_def WAL_RECORD_HEADER_SIZE_def align_up_def)
  then show ?thesis
    using wal_record_roundtrip [OF b, of "[1, 2, 3]"] b by simp
qed

text \<open>
  The decoder's verdict on a damaged buffer.  A buffer too short for its own length
  field, or whose checksum does not match, is reported as corruption at the LSN the
  header names; only a buffer whose checksum matches can be reported as an unknown
  record type, and a discriminant is known exactly if some record type has it.
\<close>

theorem wal_decode_errors:
  "wal_decode crc buf = Err e \<Longrightarrow>
     (length buf < WAL_RECORD_HEADER_SIZE \<and> e = WalCorrupted 0) \<or>
     (let tot = align_up (WAL_RECORD_HEADER_SIZE + unat (get_u16 buf 26)) 8 in
      (length buf < tot \<or> record_crc crc buf tot \<noteq> get_u32 buf 28) \<and> e = WalCorrupted (get_u64 buf 0)
      \<or> tot \<le> length buf \<and> record_crc crc buf tot = get_u32 buf 28 \<and> e = WalReadFailed \<and>
        (\<nexists>t. to_u8 t = buf ! 24))"
proof -
  assume d: "wal_decode crc buf = Err e"
  have "from_u8 v = Err e \<Longrightarrow> e = WalReadFailed \<and> (\<nexists>t. to_u8 t = v)" for v
  proof -
    assume f: "from_u8 v = Err e"
    then have "e = WalReadFailed"
      by (auto simp: from_u8_def split: if_splits)
    moreover have "to_u8 t \<noteq> v" for t
      using f from_to_u8 [of t] by auto
    ultimately show ?thesis
      by blast
  qed
  then show ?thesis
    using d unfolding wal_decode_def Let_def by (auto split: if_splits sum.splits)
qed

theorem wal_decode_errors_witness:
  "\<exists>e. wal_decode (\<lambda>_. 0) (replicate 24 0 @ [9] @ replicate 7 0) = Err e \<and> e = WalReadFailed"
proof -
  let ?b = "replicate 24 (0 :: byte) @ [9] @ replicate 7 0"
  have h: "get_u16 ?b 26 = 0" "get_u32 ?b 28 = 0" "?b ! 24 = 9" "length ?b = 32"
    by (simp_all add: get_uN_defs bytes_at_def le_u16_def le_u32_def numeral_eq_Suc)
  have d: "wal_decode (\<lambda>_. 0) ?b = Err WalReadFailed"
    unfolding wal_decode_def Let_def h
    by (simp add: WAL_RECORD_HEADER_SIZE_def align_up_def record_crc_def from_u8_def)
  then show ?thesis
    using wal_decode_errors [OF d] by blast
qed

text \<open>
  Checkpoint records across versions.  The record the engine writes carries version
  1 in the high nibble of its flags and decodes to the six fields it was made from; the
  same payload structure of the first version (flags 0) decodes with the default next OID
  and no snapshot files; every other version nibble is refused.
\<close>

theorem checkpoint_end_versions:
  assumes "bincode_ok bc"
  shows "(checkpoint_end_record bc ce = Ok r \<longrightarrow>
       decode_checkpoint_end bc (payload r) (rec_flags r) = Ok ce \<and> record_type r = CheckpointEnd) \<and>
     (bin_enc bc (CheckpointEndRecordV1 l pid xid) = Some bs \<and> low < 16 \<longrightarrow>
       decode_checkpoint_end bc bs low
       = Ok \<lparr> checkpoint_lsn = l, ce_next_page_id = pid, ce_next_txn_id = xid,
              ce_next_oid = 16384, att_file = [], dpt_file = [] \<rparr>) \<and>
     (32 \<le> fl \<longrightarrow> decode_checkpoint_end bc bs fl = Err WalReadFailed)"
proof (intro conjI impI; (elim conjE)?)
  assume c: "checkpoint_end_record bc ce = Ok r"
  then have r: "rec_flags r = CHECKPOINT_END_V2_FLAGS" "record_type r = CheckpointEnd"
    by (auto simp: checkpoint_end_record_def dest: mk_record_Ok)
  have "decode_payload bc KCheckpointEnd (payload r) = Ok (CheckpointEndRecord ce)"
    using decode_payload_mk [OF assms c [unfolded checkpoint_end_record_def]] by simp
  then show "decode_checkpoint_end bc (payload r) (rec_flags r) = Ok ce" "record_type r = CheckpointEnd"
    by (simp_all add: decode_checkpoint_end_def r CHECKPOINT_END_V2_FLAGS_def CHECKPOINT_END_VERSION_V2_def)
next
  assume e: "bin_enc bc (CheckpointEndRecordV1 l pid xid) = Some bs" and "low < 16"
  then have "bin_dec bc KCheckpointEndV1 bs = Some (CheckpointEndRecordV1 l pid xid)"
    using assms unfolding bincode_ok_def by (metis kind_of.simps(16))
  moreover have "drop_bit 4 low = 0"
    using \<open>low < 16\<close> high_nibble [of low] by (simp add: word_less_nat_alt word_unat_eq_iff)
  ultimately show "decode_checkpoint_end bc bs low = Ok \<lparr> checkpoint_lsn = l, ce_next_page_id = pid,
      ce_next_txn_id = xid, ce_next_oid = 16384, att_file = [], dpt_file = [] \<rparr>"
    by (simp add: decode_checkpoint_end_def decode_payload_def OID_FIRST_USER_def)
next
  assume "32 \<le> fl"
  then have "unat (drop_bit 4 fl) \<ge> 2"
    using high_nibble [of fl] by (simp add: word_le_nat_alt)
  then have "drop_bit 4 fl \<noteq> 0" "drop_bit 4 fl \<noteq> 1"
    by (metis not_numeral_le_zero unsigned_0, metis not_less one_less_numeral_iff semiring_norm(76) unsigned_1)
  then show "decode_checkpoint_end bc bs fl = Err WalReadFailed"
    by (simp add: decode_checkpoint_end_def CHECKPOINT_END_VERSION_V2_def)
qed

text \<open>A serialiser that handles checkpoint payloads with one byte.\<close>

definition demo_bincode :: bincode where
  "demo_bincode =
    \<lparr> bin_enc = (\<lambda>p. case p of
         CheckpointEndRecordV1 l pid xid \<Rightarrow> if l = 8 \<and> pid = 3 \<and> xid = 9 then Some [1] else None
       | CheckpointEndRecord ce \<Rightarrow>
           if ce = \<lparr> checkpoint_lsn = 8, ce_next_page_id = 3, ce_next_txn_id = 9, ce_next_oid = 20000,
                     att_file = [], dpt_file = [] \<rparr> then Some [2] else None
       | TxnCommitRecord xid \<Rightarrow> Some (u64_le xid)
       | TxnAbortRecord xid \<Rightarrow> Some (u64_le xid)
       | _ \<Rightarrow> None),
     bin_dec = (\<lambda>k bs. case k of
         KCheckpointEndV1 \<Rightarrow> Some (CheckpointEndRecordV1 8 3 9)
       | KCheckpointEnd \<Rightarrow>
           Some (CheckpointEndRecord \<lparr> checkpoint_lsn = 8, ce_next_page_id = 3, ce_next_txn_id = 9,
             ce_next_oid = 20000, att_file = [], dpt_file = [] \<rparr>)
       | KTxnCommit \<Rightarrow> Some (TxnCommitRecord (le_u64 bs))
       | KTxnAbort \<Rightarrow> Some (TxnAbortRecord (le_u64 bs))
       | _ \<Rightarrow> None) \<rparr>"

lemma demo_bincode_ok: "bincode_ok demo_bincode"
  unfolding bincode_ok_def
proof (intro allI impI)
  fix p bs
  assume "bin_enc demo_bincode p = Some bs"
  then show "bin_dec demo_bincode (kind_of p) bs = Some p"
    by (cases p) (auto simp: demo_bincode_def split: if_splits)
qed

theorem checkpoint_end_versions_witness:
  "bincode_ok demo_bincode \<and>
   (\<exists>r. checkpoint_end_record demo_bincode \<lparr> checkpoint_lsn = 8, ce_next_page_id = 3, ce_next_txn_id = 9,
          ce_next_oid = 20000, att_file = [], dpt_file = [] \<rparr> = Ok r \<and>
        decode_checkpoint_end demo_bincode (payload r) (rec_flags r)
        = Ok \<lparr> checkpoint_lsn = 8, ce_next_page_id = 3, ce_next_txn_id = 9, ce_next_oid = 20000,
               att_file = [], dpt_file = [] \<rparr>) \<and>
   decode_checkpoint_end demo_bincode [1] 3
   = Ok \<lparr> checkpoint_lsn = 8, ce_next_page_id = 3, ce_next_txn_id = 9, ce_next_oid = 16384,
          att_file = [], dpt_file = [] \<rparr> \<and>
   decode_checkpoint_end demo_bincode [1] 47 = Err WalReadFailed"
proof -
  let ?ce = "\<lparr> checkpoint_lsn = 8, ce_next_page_id = 3, ce_next_txn_id = 9, ce_next_oid = 20000,
               att_file = [], dpt_file = [] \<rparr>"
  obtain r where r: "checkpoint_end_record demo_bincode ?ce = Ok r"
    by (simp add: checkpoint_end_record_def mk_record_def demo_bincode_def)
  have "bin_enc demo_bincode (CheckpointEndRecordV1 8 3 9) = Some [1]"
    by (simp add: demo_bincode_def)
  then show ?thesis
    using checkpoint_end_versions [OF demo_bincode_ok, of ?ce r 8 3 9 "[1]" 3 47] r demo_bincode_ok by auto
qed

end
