(* ===== verification/Wal_Stream.thy ===== *)
theory Wal_Stream
  imports Wal_Record
begin

text \<open>
  The WAL as a byte stream over segment files: \<^verbatim>\<open>pg-storage/src/wal/segment.rs\<close>
  (segments and rotation), \<open>write_record_to_segment\<close> of
  \<^verbatim>\<open>pg-storage/src/wal/writer.rs\<close> and the reader \<^verbatim>\<open>pg-storage/src/wal/reader.rs\<close>.

  A WAL directory is a partial map from segment ids to file contents; stream
  positions are natural numbers (the values of LSNs).  A record may span segments,
  so both sides work in chunks; \<open>wal_byte\<close> is the stream they share.  Next to the
  files as the process sees them the manager carries their contents as last fsynced,
  which is what a crash leaves.
\<close>

section \<open>Segments\<close>

type_synonym wal_dir = "nat \<Rightarrow> byte list option"

definition wal_byte :: "nat \<Rightarrow> wal_dir \<Rightarrow> nat \<Rightarrow> byte option" where
  "wal_byte sz dir pos =
    (case dir (pos div sz) of
       None \<Rightarrow> None
     | Some f \<Rightarrow> if pos mod sz < length f then Some (f ! (pos mod sz)) else None)"

record segment_manager =
  wal_files :: wal_dir
  disk_files :: wal_dir
  current_segment_id :: nat

text \<open>\<open>sync_all\<close> on a segment file, and on the current one.\<close>

definition sync_file :: "nat \<Rightarrow> segment_manager \<Rightarrow> segment_manager" where
  "sync_file sid m = m\<lparr> disk_files := (disk_files m)(sid := wal_files m sid) \<rparr>"

definition sync_current :: "segment_manager \<Rightarrow> segment_manager" where
  "sync_current m = sync_file (current_segment_id m) m"

text \<open>
  \<open>open_segment_file\<close> creates a missing file and sizes it to the segment size with
  zeros; an existing file of the right size is left alone.
\<close>

definition open_segment_file :: "nat \<Rightarrow> nat \<Rightarrow> wal_dir \<Rightarrow> wal_dir" where
  "open_segment_file sz sid dir =
    (case dir sid of
       None \<Rightarrow> dir(sid \<mapsto> replicate sz 0)
     | Some f \<Rightarrow> dir(sid \<mapsto> take sz f @ replicate (sz - length f) 0))"

definition rotate_segment :: "nat \<Rightarrow> segment_manager \<Rightarrow> segment_manager" where
  "rotate_segment sz m =
    (let m = sync_current m;
         next_id = current_segment_id m + 1
     in sync_current (m\<lparr> wal_files := open_segment_file sz next_id (wal_files m),
          current_segment_id := next_id \<rparr>))"

text \<open>\<open>ensure_for_write\<close>: the rotation loop runs once per missing segment.\<close>

definition ensure_for_write :: "nat \<Rightarrow> nat \<Rightarrow> segment_manager \<Rightarrow> storage_error + segment_manager" where
  "ensure_for_write sz pos m =
    (let target_id = pos div sz in
     if target_id = current_segment_id m then Ok m
     else if target_id < current_segment_id m then Err WalWriteFailed
     else Ok ((rotate_segment sz ^^ (target_id - current_segment_id m)) m))"

text \<open>
  \<open>WalSegmentManager::open\<close>: the size checks, then the latest segment is opened; an
  empty directory gets segment 0.  The directory is given as the sorted list of the
  segment ids found in it and their contents, all of them on disk.
\<close>

definition segment_manager_open :: "nat \<Rightarrow> nat list \<Rightarrow> wal_dir \<Rightarrow> storage_error + segment_manager" where
  "segment_manager_open sz ids dir =
    (if sz = 0 then Err InvalidConfig
     else if sz mod unat LSN_ALIGNMENT \<noteq> 0 then Err InvalidConfig
     else
       let latest = foldr max ids 0;
           files = open_segment_file sz latest dir
       in Ok \<lparr> wal_files = files, disk_files = files, current_segment_id = latest \<rparr>)"

definition write_chunk :: "nat \<Rightarrow> nat \<Rightarrow> byte list \<Rightarrow> segment_manager \<Rightarrow> segment_manager" where
  "write_chunk sz pos bs m =
    (case wal_files m (pos div sz) of
       None \<Rightarrow> m
     | Some f \<Rightarrow> m\<lparr> wal_files := (wal_files m)(pos div sz \<mapsto> put_at (pos mod sz) bs f) \<rparr>)"

text \<open>\<open>write_record_to_segment\<close>: the loop over chunks, then the whole with its size check.\<close>

function write_loop :: "nat \<Rightarrow> nat \<Rightarrow> byte list \<Rightarrow> segment_manager \<Rightarrow> storage_error + segment_manager" where
  "write_loop sz pos bs m =
    (if bs = [] \<or> sz = 0 then Ok m
     else
       let chunk = min (sz - pos mod sz) (length bs) in
       try_then (ensure_for_write sz pos m) (\<lambda>m.
         let m = write_chunk sz pos (take chunk bs) m;
             m = (if chunk < length bs \<and> pos mod sz + chunk = sz then sync_current m else m)
         in write_loop sz (pos + chunk) (drop chunk bs) m))"
  by pat_completeness auto
termination
  by (relation "measure (\<lambda>(sz, pos, bs, m). length bs)") (auto simp: min_def)

declare write_loop.simps [simp del]

definition write_record_to_segment ::
  "nat \<Rightarrow> nat \<Rightarrow> byte list \<Rightarrow> segment_manager \<Rightarrow> storage_error + segment_manager" where
  "write_record_to_segment sz pos bs m =
    (if length bs > sz then Err WalWriteFailed else write_loop sz pos bs m)"

definition recycle_before :: "nat \<Rightarrow> nat \<Rightarrow> segment_manager \<Rightarrow> segment_manager" where
  "recycle_before sz pos m =
    (let cutoff = min (pos div sz) (current_segment_id m)
     in m\<lparr> wal_files := (\<lambda>sid. if sid < cutoff then None else wal_files m sid),
          disk_files := (\<lambda>sid. if sid < cutoff then None else disk_files m sid) \<rparr>)"

section \<open>The reader\<close>

text \<open>
  \<open>try_read_exact\<close> and \<open>try_read_exact_at\<close>: \<open>None\<close> when the stream ends before the
  buffer is full.
\<close>

function try_read :: "nat \<Rightarrow> wal_dir \<Rightarrow> nat \<Rightarrow> nat \<Rightarrow> byte list option" where
  "try_read sz dir pos n =
    (if n = 0 then Some []
     else case dir (pos div sz) of
       None \<Rightarrow> None
     | Some f \<Rightarrow>
         let got = take (min (sz - pos mod sz) n) (drop (pos mod sz) f) in
         if got = [] then None
         else map_option (\<lambda>rest. got @ rest) (try_read sz dir (pos + length got) (n - length got)))"
  by pat_completeness auto
termination
  by (relation "measure (\<lambda>(sz, dir, pos, n). n)") auto

declare try_read.simps [simp del]

text \<open>The zero scan of \<open>is_torn_tail\<close>; \<open>None\<close> if it does not return.\<close>

partial_function (option) zero_tail :: "nat \<Rightarrow> wal_dir \<Rightarrow> nat \<Rightarrow> bool option" where
  "zero_tail sz dir pos =
    (case dir (pos div sz) of
       None \<Rightarrow> Some True
     | Some f \<Rightarrow>
         (let got = take (min (sz - pos mod sz) 65536) (drop (pos mod sz) f) in
          if got = [] then Some True
          else if list_ex (\<lambda>b. b \<noteq> 0) got then Some False
          else zero_tail sz dir (pos + length got)))"

definition is_torn_tail :: "nat \<Rightarrow> wal_dir \<Rightarrow> nat \<Rightarrow> nat \<Rightarrow> byte list \<Rightarrow> bool option" where
  "is_torn_tail sz dir start record_end header =
    (if unat (get_u64 header 0) \<noteq> start then Some False else zero_tail sz dir record_end)"

text \<open>
  \<open>next_record\<close> from a position: the outcome and the position afterwards.  The outer
  \<open>None\<close> is a scan that does not return.
\<close>

definition next_record ::
  "(byte list \<Rightarrow> u32) \<Rightarrow> nat \<Rightarrow> wal_dir \<Rightarrow> nat \<Rightarrow> ((storage_error + wal_record option) \<times> nat) option" where
  "next_record crc sz dir start =
    (case try_read sz dir start WAL_RECORD_HEADER_SIZE of
       None \<Rightarrow> Some (Ok None, start)
     | Some header \<Rightarrow>
         if list_all (\<lambda>b. b = 0) header then
           (case try_read sz dir (start + WAL_RECORD_HEADER_SIZE) WAL_RECORD_HEADER_SIZE of
              Some probe \<Rightarrow>
                if list_ex (\<lambda>b. b \<noteq> 0) probe then Some (Err MetadataCorrupted, start + WAL_RECORD_HEADER_SIZE)
                else Some (Ok None, start)
            | None \<Rightarrow> Some (Ok None, start))
         else
           let tot = align_up (WAL_RECORD_HEADER_SIZE + unat (get_u16 header 26)) 8 in
           case try_read sz dir (start + WAL_RECORD_HEADER_SIZE) (tot - WAL_RECORD_HEADER_SIZE) of
             None \<Rightarrow> Some (Ok None, start)
           | Some rest \<Rightarrow>
               (case wal_decode crc (header @ rest) of
                  Inr (r, _) \<Rightarrow> Some (Ok (Some r), start + tot)
                | Inl e \<Rightarrow>
                    (case e of
                       WalCorrupted _ \<Rightarrow>
                         (case is_torn_tail sz dir start (start + tot) header of
                            None \<Rightarrow> None
                          | Some True \<Rightarrow> Some (Ok None, start)
                          | Some False \<Rightarrow> Some (Err e, start + tot))
                     | _ \<Rightarrow> Some (Err e, start + tot))))"

text \<open>
  Reading until the end, as \<open>discover_resume_lsn\<close> and the recovery scans do: the records
  and the position after the last one.
\<close>

partial_function (option) read_all ::
  "(byte list \<Rightarrow> u32) \<Rightarrow> nat \<Rightarrow> wal_dir \<Rightarrow> nat \<Rightarrow> (storage_error + wal_record list \<times> nat) option" where
  "read_all crc sz dir pos =
    (case next_record crc sz dir pos of
       None \<Rightarrow> None
     | Some (res, pos') \<Rightarrow>
         (case res of
            Inl e \<Rightarrow> Some (Inl e)
          | Inr ro \<Rightarrow>
              (case ro of
                 None \<Rightarrow> Some (Inr ([], pos'))
               | Some r \<Rightarrow>
                   Option.bind (read_all crc sz dir pos') (\<lambda>res'.
                     Some (case res' of
                         Inl e \<Rightarrow> Inl e
                       | Inr (rs, endp) \<Rightarrow> Inr (r # rs, endp))))))"

declare read_all.simps [code]

definition discover_resume_lsn ::
  "(byte list \<Rightarrow> u32) \<Rightarrow> nat \<Rightarrow> wal_dir \<Rightarrow> nat \<Rightarrow> nat \<Rightarrow> (storage_error + nat) option" where
  "discover_resume_lsn crc sz dir oldest hint =
    (let oldest_start = (if oldest = 0 then unat LSN_FIRST else oldest * sz);
         scan_start = (if hint \<noteq> 0 \<and> hint > oldest_start then hint else oldest_start)
     in map_option (\<lambda>r. case r of Inl e \<Rightarrow> Inl e | Inr (_, endp) \<Rightarrow> Inr endp)
          (read_all crc sz dir scan_start))"

section \<open>Reading the stream\<close>

lemma div_mod_within:
  fixes pos i sz :: nat
  assumes "pos mod sz + i < sz"
  shows "(pos + i) div sz = pos div sz" "(pos + i) mod sz = pos mod sz + i"
proof -
  have p: "sz * (pos div sz) + pos mod sz = pos"
    by (rule mult_div_mod_eq)
  have "sz * (pos div sz) \<le> pos + i" "pos + i < sz * Suc (pos div sz)"
    using assms p mult_Suc_right [of sz "pos div sz"] by linarith+
  then show d: "(pos + i) div sz = pos div sz"
    by (rule div_nat_eqI)
  have "sz * (pos div sz) + (pos + i) mod sz = pos + i"
    using mult_div_mod_eq [of sz "pos + i"] by (simp only: d)
  then show "(pos + i) mod sz = pos mod sz + i"
    using p by linarith
qed

lemma try_read_some:
  assumes "0 < sz" "length bs = n" "\<And>i. i < n \<Longrightarrow> wal_byte sz dir (pos + i) = Some (bs ! i)"
  shows "try_read sz dir pos n = Some bs"
  using assms
proof (induction n arbitrary: pos bs rule: less_induct)
  case (less n)
  show ?case
  proof (cases "n = 0")
    case True
    then show ?thesis
      using less.prems by (simp add: try_read.simps)
  next
    case False
    let ?off = "pos mod sz"
    obtain f where f: "dir (pos div sz) = Some f" "?off < length f"
      using less.prems(3) [of 0] False by (auto simp: wal_byte_def split: option.splits if_splits)
    define k where "k = min (min (sz - ?off) n) (length f - ?off)"
    have off: "?off < sz"
      using less.prems(1) by simp
    have k: "0 < k" "k \<le> n" "\<And>i. i < k \<Longrightarrow> ?off + i < sz \<and> ?off + i < length f"
      using False f off by (auto simp: k_def)
    have got: "take (min (sz - ?off) n) (drop ?off f) = take k bs"
    proof (rule nth_equalityI)
      show "length (take (min (sz - ?off) n) (drop ?off f)) = length (take k bs)"
        using k(2) less.prems(2) by (simp add: k_def min.commute min.left_commute)
      fix i
      assume "i < length (take (min (sz - ?off) n) (drop ?off f))"
      then have i: "i < k"
        by (simp add: k_def)
      then have "wal_byte sz dir (pos + i) = Some (f ! (?off + i))"
        using k(3) [OF i] f by (simp add: wal_byte_def div_mod_within)
      then show "take (min (sz - ?off) n) (drop ?off f) ! i = take k bs ! i"
        using less.prems(3) [of i] i k f by (simp add: k_def)
    qed
    have "try_read sz dir (pos + k) (n - k) = Some (drop k bs)"
      using less.prems k by (intro less.IH) (auto simp: add.assoc)
    moreover have "length (take k bs) = k" "bs \<noteq> []"
      using k less.prems(2) by auto
    ultimately show ?thesis
      using f got k(1) False by (subst try_read.simps) (simp add: Let_def)
  qed
qed

lemma try_read_length: "try_read sz dir pos n = Some bs \<Longrightarrow> length bs = n"
proof (induction sz dir pos n arbitrary: bs rule: try_read.induct)
  case (1 sz dir pos n)
  show ?case
  proof (cases "n = 0")
    case True
    then show ?thesis
      using "1.prems" by (simp add: try_read.simps)
  next
    case False
    then obtain f where f: "dir (pos div sz) = Some f"
      using "1.prems" by (subst (asm) try_read.simps) (auto split: option.splits)
    let ?got = "take (min (sz - pos mod sz) n) (drop (pos mod sz) f)"
    obtain rest where r: "?got \<noteq> []" "try_read sz dir (pos + length ?got) (n - length ?got) = Some rest"
      "bs = ?got @ rest"
      using "1.prems" False f by (subst (asm) try_read.simps) (auto simp: Let_def split: if_splits)
    then have "length rest = n - length ?got"
      using "1.IH" [OF False f refl] by blast
    moreover have "length ?got \<le> n"
      by simp
    ultimately show ?thesis
      unfolding r(3) length_append by linarith
  qed
qed

lemma try_read_bytes:
  assumes "0 < sz" "try_read sz dir pos n = Some bs" "i < n"
  shows "wal_byte sz dir (pos + i) = Some (bs ! i)"
  using assms(2,3)
proof (induction sz dir pos n arbitrary: bs i rule: try_read.induct)
  case (1 sz dir pos n)
  have False: "n \<noteq> 0"
    using "1.prems" by simp
  then obtain f where f: "dir (pos div sz) = Some f"
    using "1.prems" by (subst (asm) try_read.simps) (auto split: option.splits)
  let ?got = "take (min (sz - pos mod sz) n) (drop (pos mod sz) f)"
  obtain rest where r: "?got \<noteq> []" "try_read sz dir (pos + length ?got) (n - length ?got) = Some rest"
    "bs = ?got @ rest"
    using "1.prems" False f by (subst (asm) try_read.simps) (auto simp: Let_def split: if_splits)
  show ?case
  proof (cases "i < length ?got")
    case True
    then have i: "i < sz - pos mod sz" "i < length f - pos mod sz" "i < n"
      unfolding length_take length_drop by linarith+
    then have "pos mod sz + i < sz" "pos mod sz + i < length f"
      by linarith+
    then have "wal_byte sz dir (pos + i) = Some (f ! (pos mod sz + i))"
      using f by (simp add: wal_byte_def div_mod_within)
    moreover have "bs ! i = f ! (pos mod sz + i)"
    proof -
      have "i < min (sz - pos mod sz) n" "pos mod sz \<le> length f"
        using i by linarith+
      then have "?got ! i = f ! (pos mod sz + i)"
        by (simp only: nth_take nth_drop)
      then show ?thesis
        using True by (simp only: r(3) nth_append if_True)
    qed
    ultimately show ?thesis
      by (simp only:)
  next
    case False
    then have i: "i - length ?got < n - length ?got" "pos + length ?got + (i - length ?got) = pos + i"
      using "1.prems"(2) by linarith+
    have "wal_byte sz dir (pos + i) = Some (rest ! (i - length ?got))"
      using "1.IH" [OF \<open>n \<noteq> 0\<close> f refl r(1) r(2) i(1)] unfolding i(2) .
    then show ?thesis
      using False r(3) by (simp only: nth_append if_False)
  qed
qed

text \<open>A position from which the stream holds only zeros, up to its end.\<close>

definition clean_from :: "nat \<Rightarrow> wal_dir \<Rightarrow> nat \<Rightarrow> bool" where
  "clean_from sz dir pos \<longleftrightarrow> (\<forall>q \<ge> pos. wal_byte sz dir q = None \<or> wal_byte sz dir q = Some 0)"

lemma try_read_clean:
  assumes "0 < sz" "clean_from sz dir pos" "try_read sz dir (pos + k) n = Some bs"
  shows "list_all (\<lambda>b. b = 0) bs"
proof -
  have "bs ! i = 0" if "i < length bs" for i
    using try_read_bytes [OF assms(1,3), of i] try_read_length [OF assms(3)] that
      assms(2) [unfolded clean_from_def, rule_format, of "pos + k + i"]
    by auto
  then show ?thesis
    by (simp add: list_all_length)
qed

lemma next_record_clean:
  assumes "0 < sz" "clean_from sz dir pos"
  shows "next_record crc sz dir pos = Some (Ok None, pos)"
proof (cases "try_read sz dir pos WAL_RECORD_HEADER_SIZE")
  case (Some header)
  then have "list_all (\<lambda>b. b = 0) header"
    using try_read_clean [OF assms, of 0] by simp
  moreover have "try_read sz dir (pos + WAL_RECORD_HEADER_SIZE) WAL_RECORD_HEADER_SIZE = Some probe \<Longrightarrow>
      \<not> list_ex (\<lambda>b. b \<noteq> 0) probe" for probe
    using try_read_clean [OF assms, of WAL_RECORD_HEADER_SIZE] by (auto simp: list_all_iff list_ex_iff)
  ultimately show ?thesis
    using Some by (auto simp: next_record_def split: option.split)
qed (simp add: next_record_def)

text \<open>The stream holds the encodings of records, back to back.\<close>

fun holds_records :: "(byte list \<Rightarrow> u32) \<Rightarrow> nat \<Rightarrow> wal_dir \<Rightarrow> nat \<Rightarrow> wal_record list \<Rightarrow> nat \<Rightarrow> bool" where
  "holds_records crc sz dir pos [] endp \<longleftrightarrow> endp = pos"
| "holds_records crc sz dir pos (r # rs) endp \<longleftrightarrow>
    (case wal_encode crc r of
       Inl e \<Rightarrow> False
     | Inr buf \<Rightarrow> list_all (\<lambda>i. wal_byte sz dir (pos + i) = Some (buf ! i)) [0..<length buf] \<and>
         holds_records crc sz dir (pos + length buf) rs endp)"

lemma to_u8_nonzero: "to_u8 t \<noteq> 0"
  by (cases t) simp_all

lemma next_record_holds:
  assumes "0 < sz" and e: "wal_encode crc r = Ok buf"
    and b: "\<And>i. i < length buf \<Longrightarrow> wal_byte sz dir (pos + i) = Some (buf ! i)"
  shows "next_record crc sz dir pos = Some (Ok (Some r), pos + length buf)"
proof -
  have len: "length buf = record_size r" "32 + length (payload r) \<le> length buf" "length (payload r) \<le> 65535"
    using encode_fields [OF e] record_size_ge [of r] by simp_all
  let ?h = "take 32 buf"
  have h: "try_read sz dir pos WAL_RECORD_HEADER_SIZE = Some ?h"
    using assms(1) len b by (intro try_read_some) (auto simp: WAL_RECORD_HEADER_SIZE_def)
  have body: "length (encode_body r) = record_size r"
    by simp
  have "buf ! 24 = to_u8 (record_type r)" "get_u16 buf 26 = of_nat (length (payload r))"
    using len encode_body_fields [of r] record_size_ge [of r] unfolding encode_fields(3) [OF e]
    by (simp_all add: nth_put_u32 buf_simps)
  then have f: "?h ! 24 \<noteq> 0" "get_u16 ?h 26 = of_nat (length (payload r))"
    using len to_u8_nonzero by (simp_all add: get_u16_def bytes_at_def drop_take min_def)
  have nz: "\<not> list_all (\<lambda>b. b = 0) ?h"
    using f(1) len(2) by (auto simp: list_all_length intro!: exI [of _ 24])
  have tot: "align_up (WAL_RECORD_HEADER_SIZE + unat (get_u16 ?h 26)) 8 = length buf"
    using f(2) len(1,3) by (simp add: record_size_def unat_of_nat)
  have rest: "try_read sz dir (pos + WAL_RECORD_HEADER_SIZE) (length buf - WAL_RECORD_HEADER_SIZE) = Some (drop 32 buf)"
    using assms(1) len b by (intro try_read_some) (auto simp: WAL_RECORD_HEADER_SIZE_def add.assoc)
  have "wal_decode crc (?h @ drop 32 buf) = Ok (r, record_size r)"
    using decode_encode [OF e, of "[]"] by simp
  then show ?thesis
    unfolding next_record_def h option.case Let_def tot rest using nz by simp
qed

lemma holds_records_Cons:
  "holds_records crc sz dir pos (r # rs) endp \<longleftrightarrow>
    (\<exists>buf. wal_encode crc r = Ok buf \<and> (\<forall>i < length buf. wal_byte sz dir (pos + i) = Some (buf ! i)) \<and>
      holds_records crc sz dir (pos + length buf) rs endp)"
  by (auto simp: list_all_iff split: sum.split)

lemma read_all_ends:
  assumes "0 < sz" "holds_records crc sz dir pos rs endp" "next_record crc sz dir endp = Some (Ok None, endp)"
  shows "read_all crc sz dir pos = Some (Ok (rs, endp))"
  using assms(2)
proof (induction rs arbitrary: pos)
  case Nil
  then show ?case
    using assms(3) by (simp add: read_all.simps)
next
  case (Cons r rs)
  obtain buf where b: "wal_encode crc r = Ok buf" "holds_records crc sz dir (pos + length buf) rs endp"
    "\<And>i. i < length buf \<Longrightarrow> wal_byte sz dir (pos + i) = Some (buf ! i)"
    using Cons.prems [unfolded holds_records_Cons] by blast
  show ?case
    using next_record_holds [OF assms(1) b(1,3)] Cons.IH [OF b(2)] by (simp add: read_all.simps [of _ _ _ pos])
qed

lemma read_all_records:
  assumes "0 < sz" "holds_records crc sz dir pos rs endp" "clean_from sz dir endp"
  shows "read_all crc sz dir pos = Some (Ok (rs, endp))"
  using read_all_ends [OF assms(1,2) next_record_clean [OF assms(1,3)]] .

section \<open>Writing the stream\<close>

definition files_wf :: "nat \<Rightarrow> segment_manager \<Rightarrow> bool" where
  "files_wf sz m \<longleftrightarrow> 0 < sz \<and>
    (\<forall>sid f. wal_files m sid = Some f \<longrightarrow> length f = sz \<and> sid \<le> current_segment_id m) \<and>
    wal_files m (current_segment_id m) \<noteq> None"

text \<open>One stream extends another: the bytes of the first, and zeros in fresh segments.\<close>

definition zero_fill :: "byte option \<Rightarrow> byte option \<Rightarrow> bool" where
  "zero_fill a b \<longleftrightarrow> b = a \<or> (a = None \<and> b = Some 0)"

definition zero_extends :: "nat \<Rightarrow> wal_dir \<Rightarrow> wal_dir \<Rightarrow> bool" where
  "zero_extends sz d d' \<longleftrightarrow> (\<forall>q. zero_fill (wal_byte sz d q) (wal_byte sz d' q))"

lemma zero_fill_refl [simp]: "zero_fill a a"
  by (simp add: zero_fill_def)

lemma zero_fill_trans: "zero_fill a b \<Longrightarrow> zero_fill b c \<Longrightarrow> zero_fill a c"
  by (auto simp: zero_fill_def)

lemma zero_extends_refl [simp]: "zero_extends sz d d"
  by (simp add: zero_extends_def)

lemma zero_extends_trans: "zero_extends sz d d' \<Longrightarrow> zero_extends sz d' d'' \<Longrightarrow> zero_extends sz d d''"
  unfolding zero_extends_def using zero_fill_trans by blast

lemma sync_simps [simp]:
  "wal_files (sync_file sid m) = wal_files m" "current_segment_id (sync_file sid m) = current_segment_id m"
  "wal_files (sync_current m) = wal_files m" "current_segment_id (sync_current m) = current_segment_id m"
  "disk_files (sync_file sid m) = (disk_files m)(sid := wal_files m sid)"
  "disk_files (sync_current m) = (disk_files m)(current_segment_id m := wal_files m (current_segment_id m))"
  by (simp_all add: sync_file_def sync_current_def)

lemma files_wf_sync [simp]: "files_wf sz (sync_file sid m) \<longleftrightarrow> files_wf sz m"
  "files_wf sz (sync_current m) \<longleftrightarrow> files_wf sz m"
  by (simp_all add: files_wf_def)

lemma files_wf_next: "files_wf sz m \<Longrightarrow> current_segment_id m < sid \<Longrightarrow> wal_files m sid = None"
  unfolding files_wf_def by (cases "wal_files m sid") (simp, use leD in blast)

lemma rotate_fields:
  assumes "files_wf sz m"
  shows "wal_files (rotate_segment sz m) = (wal_files m)(Suc (current_segment_id m) \<mapsto> replicate sz 0)"
    "disk_files (rotate_segment sz m) = (disk_files m)(current_segment_id m := wal_files m (current_segment_id m),
       Suc (current_segment_id m) \<mapsto> replicate sz 0)"
    "current_segment_id (rotate_segment sz m) = Suc (current_segment_id m)"
  using files_wf_next [OF assms, of "Suc (current_segment_id m)"]
  by (simp_all add: rotate_segment_def open_segment_file_def Let_def)

lemma rotate_spec:
  assumes "files_wf sz m"
  shows "files_wf sz (rotate_segment sz m)" "zero_extends sz (wal_files m) (wal_files (rotate_segment sz m))"
proof -
  show "files_wf sz (rotate_segment sz m)"
    using assms unfolding files_wf_def rotate_fields [OF assms] by (auto simp: le_Suc_eq split: if_splits)
  have "0 < sz" "wal_files m (Suc (current_segment_id m)) = None"
    using assms files_wf_next [OF assms] by (simp_all add: files_wf_def)
  then show "zero_extends sz (wal_files m) (wal_files (rotate_segment sz m))"
    unfolding zero_extends_def zero_fill_def rotate_fields [OF assms] wal_byte_def by auto
qed

lemma rotate_funpow_spec:
  assumes "files_wf sz m"
  shows "files_wf sz ((rotate_segment sz ^^ k) m) \<and>
    zero_extends sz (wal_files m) (wal_files ((rotate_segment sz ^^ k) m)) \<and>
    current_segment_id ((rotate_segment sz ^^ k) m) = current_segment_id m + k"
proof (induction k)
  case (Suc k)
  then show ?case
    using rotate_spec [of sz "(rotate_segment sz ^^ k) m"] rotate_fields(3) [of sz "(rotate_segment sz ^^ k) m"]
      zero_extends_trans by auto
qed (use assms in simp)

lemma ensure_for_write_spec:
  assumes "files_wf sz m" "current_segment_id m \<le> pos div sz"
  obtains m' where "ensure_for_write sz pos m = Ok m'" "files_wf sz m'"
    "zero_extends sz (wal_files m) (wal_files m')" "current_segment_id m' = pos div sz"
proof (cases "pos div sz = current_segment_id m")
  case True
  then have "ensure_for_write sz pos m = Ok m"
    by (simp add: ensure_for_write_def)
  then show thesis
    using that assms(1) True zero_extends_refl by metis
next
  case False
  define k where "k = pos div sz - current_segment_id m"
  have "ensure_for_write sz pos m = Ok ((rotate_segment sz ^^ k) m)"
    using False assms(2) by (simp add: ensure_for_write_def Let_def k_def)
  moreover have "current_segment_id m + k = pos div sz"
    using assms(2) by (simp add: k_def)
  ultimately show thesis
    using that rotate_funpow_spec [OF assms(1), of k] by metis
qed

lemma write_chunk_spec:
  assumes "files_wf sz m" "current_segment_id m = pos div sz" "pos mod sz + length bs \<le> sz"
  shows "files_wf sz (write_chunk sz pos bs m)"
    "current_segment_id (write_chunk sz pos bs m) = pos div sz"
    "wal_byte sz (wal_files (write_chunk sz pos bs m)) q =
      (if pos \<le> q \<and> q < pos + length bs then Some (bs ! (q - pos)) else wal_byte sz (wal_files m) q)"
proof -
  obtain f where f: "wal_files m (pos div sz) = Some f" "length f = sz"
    using assms(1,2) by (auto simp: files_wf_def)
  then have w: "write_chunk sz pos bs m
      = m\<lparr> wal_files := (wal_files m)(pos div sz \<mapsto> put_at (pos mod sz) bs f) \<rparr>"
    by (simp add: write_chunk_def)
  show "files_wf sz (write_chunk sz pos bs m)"
    using assms f unfolding w by (auto simp: files_wf_def)
  show "current_segment_id (write_chunk sz pos bs m) = pos div sz"
    using assms(2) by (simp add: w)
  show "wal_byte sz (wal_files (write_chunk sz pos bs m)) q =
      (if pos \<le> q \<and> q < pos + length bs then Some (bs ! (q - pos)) else wal_byte sz (wal_files m) q)"
  proof (cases "q div sz = pos div sz")
    case True
    have q: "sz * (pos div sz) + q mod sz = q" and p: "sz * (pos div sz) + pos mod sz = pos"
      using mult_div_mod_eq [of sz q] mult_div_mod_eq [of sz pos] True by simp_all
    have "0 < sz"
      using assms(1) by (simp add: files_wf_def)
    then have "q mod sz < length f"
      using f(2) by simp
    moreover have "(pos \<le> q \<and> q < pos + length bs) \<longleftrightarrow>
        (pos mod sz \<le> q mod sz \<and> q mod sz < pos mod sz + length bs)" "q mod sz - pos mod sz = q - pos"
      using p q by linarith+
    ultimately show ?thesis
      using True f assms(3) unfolding w by (simp add: wal_byte_def nth_put_at)
  next
    case False
    have "\<not> (pos \<le> q \<and> q < pos + length bs)"
    proof
      assume "pos \<le> q \<and> q < pos + length bs"
      then have "(pos + (q - pos)) div sz = pos div sz"
        using assms(3) by (intro div_mod_within(1)) linarith
      then show False
        using False \<open>pos \<le> q \<and> q < pos + length bs\<close> by simp
    qed
    then show ?thesis
      using False unfolding w wal_byte_def by auto
  qed
qed

lemma write_loop_spec:
  assumes "files_wf sz m" "current_segment_id m \<le> pos div sz"
  shows "\<exists>m'. write_loop sz pos bs m = Ok m' \<and> files_wf sz m' \<and>
    (bs \<noteq> [] \<longrightarrow> current_segment_id m' = (pos + length bs - 1) div sz) \<and>
    (\<forall>i < length bs. wal_byte sz (wal_files m') (pos + i) = Some (bs ! i)) \<and>
    (\<forall>q. q < pos \<or> pos + length bs \<le> q \<longrightarrow>
       zero_fill (wal_byte sz (wal_files m) q) (wal_byte sz (wal_files m') q))"
  using assms
proof (induction "length bs" arbitrary: pos bs m rule: less_induct)
  case less
  show ?case
  proof (cases "bs = []")
    case True
    then show ?thesis
      using less.prems by (subst write_loop.simps) auto
  next
    case False
    have sz: "0 < sz"
      using less.prems by (simp add: files_wf_def)
    define chunk where "chunk = min (sz - pos mod sz) (length bs)"
    have chunk: "0 < chunk" "chunk \<le> length bs" "pos mod sz + chunk \<le> sz"
      using sz False mod_less_divisor [OF sz, of pos] by (auto simp: chunk_def)
    obtain m1 where m1: "ensure_for_write sz pos m = Ok m1" "files_wf sz m1"
      "zero_extends sz (wal_files m) (wal_files m1)" "current_segment_id m1 = pos div sz"
      using ensure_for_write_spec [OF less.prems] .
    let ?c = "write_chunk sz pos (take chunk bs) m1"
    define m2 where "m2 = (if chunk < length bs \<and> pos mod sz + chunk = sz then sync_current ?c else ?c)"
    have m2 [simp]: "wal_files m2 = wal_files ?c" "current_segment_id m2 = current_segment_id ?c"
      "files_wf sz m2 \<longleftrightarrow> files_wf sz ?c"
      by (simp_all add: m2_def)
    have lt: "length (take chunk bs) = chunk"
      using chunk(2) by simp
    note w = write_chunk_spec [OF m1(2,4), of "take chunk bs", unfolded lt, OF chunk(3)]
    have wf2: "files_wf sz m2" and seg: "current_segment_id m2 \<le> (pos + chunk) div sz"
      and less: "length (drop chunk bs) < length bs"
      using w(1,2) chunk by (simp_all add: div_le_mono)
    obtain m' where m': "write_loop sz (pos + chunk) (drop chunk bs) m2 = Ok m'" "files_wf sz m'"
      "drop chunk bs \<noteq> [] \<longrightarrow> current_segment_id m' = (pos + chunk + length (drop chunk bs) - 1) div sz"
      "\<forall>i < length (drop chunk bs). wal_byte sz (wal_files m') (pos + chunk + i) = Some (drop chunk bs ! i)"
      "\<forall>q. q < pos + chunk \<or> pos + chunk + length (drop chunk bs) \<le> q \<longrightarrow>
         zero_fill (wal_byte sz (wal_files m2) q) (wal_byte sz (wal_files m') q)"
      using less.hyps [OF less wf2 seg] by blast
    have loop: "write_loop sz pos bs m = Ok m'"
      using False sz m1(1) m'(1) by (subst write_loop.simps) (simp add: chunk_def [symmetric] m2_def [symmetric] Let_def)
    have end_id: "current_segment_id m' = (pos + length bs - 1) div sz"
    proof (cases "drop chunk bs = []")
      case True
      then have "chunk = length bs" "m' = m2"
        using chunk(2) m'(1) sz by (auto simp: write_loop.simps)
      moreover have "(pos + (chunk - 1)) div sz = pos div sz"
        using chunk(1,3) by (intro div_mod_within(1)) linarith
      ultimately show ?thesis
        using w(2) chunk(1) by simp
    next
      case nonempty: False
      have "pos + chunk + length (drop chunk bs) = pos + length bs"
        using chunk(2) by simp
      then show ?thesis
        using m'(3) nonempty by simp
    qed
    have wrote: "wal_byte sz (wal_files m') (pos + i) = Some (bs ! i)" if "i < length bs" for i
    proof (cases "i < chunk")
      case True
      then have "zero_fill (Some (take chunk bs ! i)) (wal_byte sz (wal_files m') (pos + i))"
        using m'(5) [rule_format, of "pos + i"] w(3) [of "pos + i"] by simp
      then show ?thesis
        using True by (simp add: zero_fill_def)
    next
      case nl: False
      then show ?thesis
        using m'(4) [rule_format, of "i - chunk"] that by simp
    qed
    have others: "zero_fill (wal_byte sz (wal_files m) q) (wal_byte sz (wal_files m') q)"
      if q: "q < pos \<or> pos + length bs \<le> q" for q
    proof -
      have "\<not> (pos \<le> q \<and> q < pos + chunk)" "q < pos + chunk \<or> pos + chunk + length (drop chunk bs) \<le> q"
        using q chunk(2) by auto
      then have "zero_fill (wal_byte sz (wal_files m1) q) (wal_byte sz (wal_files m') q)"
        using m'(5) [rule_format, of q] unfolding m2 w(3) by (simp only: if_False simp_thms)
      then show ?thesis
        using m1(3) zero_fill_trans unfolding zero_extends_def by blast
    qed
    show ?thesis
      using loop m'(2) end_id wrote others by blast
  qed
qed

lemma write_record_spec:
  assumes "files_wf sz m" "current_segment_id m \<le> pos div sz" "clean_from sz (wal_files m) pos"
    "length bs \<le> sz"
  obtains m' where "write_record_to_segment sz pos bs m = Ok m'" "files_wf sz m'"
    "current_segment_id m' \<le> (pos + length bs) div sz" "clean_from sz (wal_files m') (pos + length bs)"
    "\<And>i. i < length bs \<Longrightarrow> wal_byte sz (wal_files m') (pos + i) = Some (bs ! i)"
    "\<And>q b. q < pos \<Longrightarrow> wal_byte sz (wal_files m) q = Some b \<Longrightarrow> wal_byte sz (wal_files m') q = Some b"
proof -
  obtain m' where m': "write_loop sz pos bs m = Ok m'" "files_wf sz m'"
    "bs \<noteq> [] \<longrightarrow> current_segment_id m' = (pos + length bs - 1) div sz"
    "\<And>i. i < length bs \<Longrightarrow> wal_byte sz (wal_files m') (pos + i) = Some (bs ! i)"
    "\<And>q. q < pos \<or> pos + length bs \<le> q \<Longrightarrow> zero_fill (wal_byte sz (wal_files m) q) (wal_byte sz (wal_files m') q)"
    using write_loop_spec [OF assms(1,2), of bs] by blast
  have 1: "write_record_to_segment sz pos bs m = Ok m'"
    using m'(1) assms(4) by (simp add: write_record_to_segment_def)
  have 2: "current_segment_id m' \<le> (pos + length bs) div sz"
  proof (cases "bs = []")
    case True
    then have "m' = m"
      using m'(1) by (simp add: write_loop.simps)
    then show ?thesis
      using assms(2) True by simp
  qed (use m'(3) in \<open>simp add: div_le_mono\<close>)
  have 3: "clean_from sz (wal_files m') (pos + length bs)"
    unfolding clean_from_def
  proof (intro allI impI)
    fix q
    assume q: "pos + length bs \<le> q"
    then have "wal_byte sz (wal_files m) q = None \<or> wal_byte sz (wal_files m) q = Some 0"
      using assms(3) unfolding clean_from_def by simp
    then show "wal_byte sz (wal_files m') q = None \<or> wal_byte sz (wal_files m') q = Some 0"
      using m'(5) [of q] q unfolding zero_fill_def by auto
  qed
  have 4: "wal_byte sz (wal_files m') q = Some b" if "q < pos" "wal_byte sz (wal_files m) q = Some b" for q b
    using m'(5) [of q] that by (simp add: zero_fill_def)
  show thesis
    using that [OF 1 m'(2) 2 3 m'(4) 4] by blast
qed

lemma holds_records_le: "holds_records crc sz dir pos rs endp \<Longrightarrow> pos \<le> endp"
proof (induction rs arbitrary: pos)
  case (Cons r rs)
  obtain buf :: "byte list" where "holds_records crc sz dir (pos + length buf) rs endp"
    using Cons.prems [unfolded holds_records_Cons] by blast
  then have "pos + length buf \<le> endp"
    by (rule Cons.IH)
  then show ?case
    by linarith
qed simp

lemma holds_records_mono:
  assumes "holds_records crc sz dir pos rs endp"
    "\<And>q b. pos \<le> q \<Longrightarrow> q < endp \<Longrightarrow> wal_byte sz dir q = Some b \<Longrightarrow> wal_byte sz dir' q = Some b"
  shows "holds_records crc sz dir' pos rs endp"
  using assms
proof (induction rs arbitrary: pos)
  case (Cons r rs)
  obtain buf where b: "wal_encode crc r = Ok buf" "holds_records crc sz dir (pos + length buf) rs endp"
    "\<And>i. i < length buf \<Longrightarrow> wal_byte sz dir (pos + i) = Some (buf ! i)"
    using Cons.prems(1) [unfolded holds_records_Cons] by blast
  have 1: "wal_byte sz dir' (pos + i) = Some (buf ! i)" if "i < length buf" for i
    using b(3) [OF that] Cons.prems(2) [of "pos + i"] holds_records_le [OF b(2)] that by simp
  have "holds_records crc sz dir' (pos + length buf) rs endp"
    by (rule Cons.IH [OF b(2)], rule Cons.prems(2)) simp_all
  then show ?case
    using b(1) 1 unfolding holds_records_Cons by blast
qed simp

lemma holds_records_snoc:
  assumes "holds_records crc sz dir pos rs mid" "wal_encode crc r = Ok buf"
    "\<And>i. i < length buf \<Longrightarrow> wal_byte sz dir (mid + i) = Some (buf ! i)"
  shows "holds_records crc sz dir pos (rs @ [r]) (mid + length buf)"
  using assms(1)
proof (induction rs arbitrary: pos)
  case Nil
  then show ?case
    using assms(2,3) by (simp add: list_all_iff)
next
  case (Cons r' rs)
  obtain buf' where "wal_encode crc r' = Ok buf'" "holds_records crc sz dir (pos + length buf') rs mid"
    "\<forall>i < length buf'. wal_byte sz dir (pos + i) = Some (buf' ! i)"
    using Cons.prems [unfolded holds_records_Cons] by blast
  then show ?case
    unfolding append_Cons holds_records_Cons using Cons.IH by blast
qed

text \<open>The state of a well-formed log: records back to back, zeros after them.\<close>

definition log_wf ::
  "(byte list \<Rightarrow> u32) \<Rightarrow> nat \<Rightarrow> segment_manager \<Rightarrow> nat \<Rightarrow> wal_record list \<Rightarrow> nat \<Rightarrow> bool" where
  "log_wf crc sz m start rs endp \<longleftrightarrow>
    files_wf sz m \<and> current_segment_id m \<le> endp div sz \<and>
    holds_records crc sz (wal_files m) start rs endp \<and> clean_from sz (wal_files m) endp"

lemma log_wf_read: "log_wf crc sz m start rs endp \<Longrightarrow> read_all crc sz (wal_files m) start = Some (Ok (rs, endp))"
  unfolding log_wf_def files_wf_def by (intro read_all_records) auto

lemma log_wf_write:
  assumes "log_wf crc sz m start rs endp" "wal_encode crc r = Ok buf" "length buf \<le> sz"
  shows "\<exists>m'. write_record_to_segment sz endp buf m = Ok m' \<and>
    log_wf crc sz m' start (rs @ [r]) (endp + length buf)"
proof -
  note a = assms(1) [unfolded log_wf_def]
  obtain m' where m': "write_record_to_segment sz endp buf m = Ok m'" "files_wf sz m'"
    "current_segment_id m' \<le> (endp + length buf) div sz" "clean_from sz (wal_files m') (endp + length buf)"
    "\<And>i. i < length buf \<Longrightarrow> wal_byte sz (wal_files m') (endp + i) = Some (buf ! i)"
    "\<And>q b. q < endp \<Longrightarrow> wal_byte sz (wal_files m) q = Some b \<Longrightarrow> wal_byte sz (wal_files m') q = Some b"
    using write_record_spec [of sz m endp buf] a assms(3) by blast
  have "holds_records crc sz (wal_files m') start rs endp"
    using holds_records_mono a m'(6) by blast
  then have "holds_records crc sz (wal_files m') start (rs @ [r]) (endp + length buf)"
    by (rule holds_records_snoc [OF _ assms(2) m'(5)])
  then show ?thesis
    using m' unfolding log_wf_def by blast
qed

section \<open>What is on disk\<close>

text \<open>Every segment but the current one, and every byte below a position, is on disk.\<close>

definition disk_ok :: "nat \<Rightarrow> segment_manager \<Rightarrow> nat \<Rightarrow> bool" where
  "disk_ok sz m synced \<longleftrightarrow>
    (\<forall>sid. sid \<noteq> current_segment_id m \<longrightarrow> disk_files m sid = wal_files m sid) \<and>
    (\<forall>q < synced. wal_byte sz (disk_files m) q = wal_byte sz (wal_files m) q)"

lemma wal_byte_sync:
  "wal_byte sz (d(sid := d' sid)) q = (if q div sz = sid then wal_byte sz d' q else wal_byte sz d q)"
  by (simp add: wal_byte_def)

lemma disk_ok_sync_file: "disk_ok sz m s \<Longrightarrow> disk_ok sz (sync_file sid m) s"
  by (simp add: disk_ok_def wal_byte_sync)

lemma disk_ok_sync_current: "disk_ok sz m s \<Longrightarrow> disk_ok sz (sync_current m) s"
  unfolding sync_current_def by (rule disk_ok_sync_file)

lemma disk_ok_rotate:
  assumes "files_wf sz m" "disk_ok sz m s"
  shows "disk_ok sz (rotate_segment sz m) s"
  using assms(2) unfolding disk_ok_def rotate_fields [OF assms(1)] wal_byte_def
  by auto

lemma disk_ok_funpow:
  assumes "files_wf sz m" "disk_ok sz m s"
  shows "disk_ok sz ((rotate_segment sz ^^ k) m) s"
proof (induction k)
  case (Suc k)
  then show ?case
    using disk_ok_rotate rotate_funpow_spec [OF assms(1), of k] by simp
qed (use assms in simp)

lemma disk_ok_ensure:
  assumes "files_wf sz m" "disk_ok sz m s" "ensure_for_write sz pos m = Ok m'"
  shows "disk_ok sz m' s"
  using assms disk_ok_funpow by (auto simp: ensure_for_write_def Let_def split: if_splits)

lemma disk_ok_write_chunk:
  assumes "files_wf sz m" "current_segment_id m = pos div sz" "pos mod sz + length bs \<le> sz"
    "disk_ok sz m s" "s \<le> pos"
  shows "disk_ok sz (write_chunk sz pos bs m) s"
proof -
  have d: "disk_files (write_chunk sz pos bs m) = disk_files m"
    "sid \<noteq> pos div sz \<Longrightarrow> wal_files (write_chunk sz pos bs m) sid = wal_files m sid" for sid
    by (simp_all add: write_chunk_def split: option.splits)
  show ?thesis
    unfolding disk_ok_def d(1) write_chunk_spec(2,3) [OF assms(1-3)]
    using assms(2,4,5) d(2) by (auto simp: disk_ok_def)
qed

lemma disk_ok_write_loop:
  assumes "files_wf sz m" "current_segment_id m \<le> pos div sz" "disk_ok sz m s" "s \<le> pos"
    "write_loop sz pos bs m = Ok m'"
  shows "disk_ok sz m' s"
  using assms
proof (induction "length bs" arbitrary: pos bs m rule: less_induct)
  case less
  have sz: "0 < sz"
    using less.prems(1) by (simp add: files_wf_def)
  show ?case
  proof (cases "bs = []")
    case True
    then show ?thesis
      using less.prems by (simp add: write_loop.simps)
  next
    case False
    define chunk where "chunk = min (sz - pos mod sz) (length bs)"
    have chunk: "0 < chunk" "chunk \<le> length bs" "pos mod sz + chunk \<le> sz"
      using sz False mod_less_divisor [OF sz, of pos] by (auto simp: chunk_def)
    obtain m1 where m1: "ensure_for_write sz pos m = Ok m1" "files_wf sz m1" "current_segment_id m1 = pos div sz"
      using ensure_for_write_spec [OF less.prems(1,2)] .
    let ?c = "write_chunk sz pos (take chunk bs) m1"
    define m2 where "m2 = (if chunk < length bs \<and> pos mod sz + chunk = sz then sync_current ?c else ?c)"
    have lt: "length (take chunk bs) = chunk"
      using chunk(2) by simp
    note w = write_chunk_spec [OF m1(2,3), of "take chunk bs", unfolded lt, OF chunk(3)]
    have "disk_ok sz ?c s"
      using disk_ok_write_chunk [OF m1(2,3), of "take chunk bs"] chunk(3) lt less.prems(4)
        disk_ok_ensure [OF less.prems(1,3) m1(1)] by simp
    then have d2: "disk_ok sz m2 s"
      using disk_ok_sync_current by (simp add: m2_def)
    have wf2: "files_wf sz m2" "current_segment_id m2 \<le> (pos + chunk) div sz" "length (drop chunk bs) < length bs"
      using w(1,2) chunk by (simp_all add: m2_def div_le_mono)
    have "write_loop sz (pos + chunk) (drop chunk bs) m2 = Ok m'"
      using less.prems(5) False sz m1(1)
      by (subst (asm) write_loop.simps) (simp add: chunk_def [symmetric] m2_def [symmetric] Let_def)
    then show ?thesis
      using less.hyps [OF wf2(3,1,2) d2] less.prems(4) by simp
  qed
qed

lemma disk_ok_write_record:
  assumes "files_wf sz m" "current_segment_id m \<le> pos div sz" "disk_ok sz m s" "s \<le> pos"
    "write_record_to_segment sz pos bs m = Ok m'"
  shows "disk_ok sz m' s"
  using disk_ok_write_loop [OF assms(1-4)] assms(5)
  by (simp add: write_record_to_segment_def split: if_splits)

section \<open>The torn tail\<close>

lemma zero_tail_clean:
  assumes "files_wf sz m" "clean_from sz (wal_files m) pos"
  shows "zero_tail sz (wal_files m) pos = Some True"
  using assms(2)
proof (induction "Suc (current_segment_id m) * sz - pos" arbitrary: pos rule: less_induct)
  case less
  have sz: "0 < sz"
    using assms(1) by (simp add: files_wf_def)
  show ?case
  proof (cases "wal_files m (pos div sz)")
    case None
    then show ?thesis
      by (subst zero_tail.simps) simp
  next
    case (Some f)
    have f: "length f = sz" "pos div sz \<le> current_segment_id m"
      using assms(1) Some by (auto simp: files_wf_def)
    define got where "got = take (min (sz - pos mod sz) 65536) (drop (pos mod sz) f)"
    have off: "pos mod sz < sz"
      using sz by simp
    then have len: "length got = min (sz - pos mod sz) 65536"
      using f(1) by (simp add: got_def)
    then have pos_len: "0 < length got"
      using off by simp
    have zero: "got ! i = 0" if "i < length got" for i
    proof -
      have "pos mod sz + i < sz"
        using that len off by linarith
      then have "wal_byte sz (wal_files m) (pos + i) = Some (got ! i)"
        using Some f(1) that off by (simp add: wal_byte_def div_mod_within got_def)
      then show ?thesis
        using less.prems unfolding clean_from_def by (metis le_add1 option.distinct(1) option.inject)
    qed
    then have nz: "\<not> list_ex (\<lambda>b. b \<noteq> 0) got"
      by (auto simp: list_ex_length)
    have "pos < Suc (current_segment_id m) * sz"
      using f(2) sz by (metis div_less_iff_less_mult less_Suc_eq_le)
    then have "Suc (current_segment_id m) * sz - (pos + length got) < Suc (current_segment_id m) * sz - pos"
      using pos_len by linarith
    moreover have "clean_from sz (wal_files m) (pos + length got)"
      using less.prems by (simp add: clean_from_def)
    ultimately have "zero_tail sz (wal_files m) (pos + length got) = Some True"
      by (rule less.hyps)
    then show ?thesis
      using Some nz pos_len by (subst zero_tail.simps) (simp add: Let_def got_def [symmetric])
  qed
qed

text \<open>
  A record at \<open>pos\<close> whose header is its own and whose checksum fails: what a crash in
  the middle of the last write leaves.
\<close>

definition torn_record :: "(byte list \<Rightarrow> u32) \<Rightarrow> nat \<Rightarrow> wal_dir \<Rightarrow> nat \<Rightarrow> bool" where
  "torn_record crc sz dir pos \<longleftrightarrow>
    (case try_read sz dir pos WAL_RECORD_HEADER_SIZE of
       None \<Rightarrow> False
     | Some header \<Rightarrow>
         (let tot = align_up (WAL_RECORD_HEADER_SIZE + unat (get_u16 header 26)) 8 in
          list_ex (\<lambda>b. b \<noteq> 0) header \<and> unat (get_u64 header 0) = pos \<and>
          (case try_read sz dir (pos + WAL_RECORD_HEADER_SIZE) (tot - WAL_RECORD_HEADER_SIZE) of
             None \<Rightarrow> False
           | Some rest \<Rightarrow>
               (case wal_decode crc (header @ rest) of Inl (WalCorrupted _) \<Rightarrow> True | _ \<Rightarrow> False))))"

definition torn_end :: "nat \<Rightarrow> wal_dir \<Rightarrow> nat \<Rightarrow> nat" where
  "torn_end sz dir pos =
    (case try_read sz dir pos WAL_RECORD_HEADER_SIZE of
       None \<Rightarrow> pos
     | Some header \<Rightarrow> pos + align_up (WAL_RECORD_HEADER_SIZE + unat (get_u16 header 26)) 8)"

lemma next_record_torn:
  assumes "files_wf sz m" "torn_record crc sz (wal_files m) pos"
    "clean_from sz (wal_files m) (torn_end sz (wal_files m) pos)"
  shows "next_record crc sz (wal_files m) pos = Some (Ok None, pos)"
proof -
  obtain h where h: "try_read sz (wal_files m) pos WAL_RECORD_HEADER_SIZE = Some h"
    using assms(2) by (auto simp: torn_record_def split: option.splits)
  let ?tot = "align_up (WAL_RECORD_HEADER_SIZE + unat (get_u16 h 26)) 8"
  obtain rest l where r: "list_ex (\<lambda>b. b \<noteq> 0) h" "unat (get_u64 h 0) = pos"
    "try_read sz (wal_files m) (pos + WAL_RECORD_HEADER_SIZE) (?tot - WAL_RECORD_HEADER_SIZE) = Some rest"
    "wal_decode crc (h @ rest) = Err (WalCorrupted l)"
    using assms(2) h by (auto simp: torn_record_def Let_def split: option.splits sum.splits storage_error.splits)
  have "\<not> list_all (\<lambda>b. b = 0) h"
    using r(1) by (auto simp: list_all_iff list_ex_iff)
  moreover have "is_torn_tail sz (wal_files m) pos (pos + ?tot) h = Some True"
    using zero_tail_clean [OF assms(1,3)] r(2) h by (simp add: is_torn_tail_def torn_end_def)
  ultimately show ?thesis
    unfolding next_record_def h option.case Let_def using r by simp
qed

text \<open>
  C38: Recovery's scan stops exactly at a torn last write.  If the log holds whole records
  up to a position and, after it, a record whose header is in place but whose checksum
  fails, with only zeros behind it, the scan returns the whole records and the
  position of the torn one, where the next append will go.
\<close>

theorem torn_tail_is_end_of_log:
  assumes "files_wf sz m" "holds_records crc sz (wal_files m) start rs endp"
    "torn_record crc sz (wal_files m) endp" "clean_from sz (wal_files m) (torn_end sz (wal_files m) endp)"
  shows "read_all crc sz (wal_files m) start = Some (Ok (rs, endp))"
  using assms(1,2) next_record_torn [OF assms(1,3,4)] by (intro read_all_ends) (simp_all add: files_wf_def)


lemma clean_from_single:
  assumes "0 < sz" "list_all (\<lambda>b. b = 0) (drop pos f)"
  shows "clean_from sz [0 \<mapsto> f] pos"
proof -
  have "f ! q = 0" if "pos \<le> q" "q < length f" for q
  proof -
    have "drop pos f ! (q - pos) = 0"
      using assms(2) that by (simp add: list_all_length del: nth_drop)
    then show ?thesis
      using that by simp
  qed
  then show ?thesis
    using assms(1) by (auto simp: clean_from_def wal_byte_def div_eq_0_iff)
qed

lemma files_wf_single:
  assumes "0 < length f"
  shows "files_wf (length f) \<lparr> wal_files = [0 \<mapsto> f], disk_files = d, current_segment_id = 0 \<rparr>"
  using assms by (simp add: files_wf_def)

lemma try_read_single:
  assumes "length f = sz" "pos + n \<le> sz" "0 < sz"
  shows "try_read sz [0 \<mapsto> f] pos n = Some (take n (drop pos f))"
proof (rule try_read_some [OF assms(3)])
  show "length (take n (drop pos f)) = n"
    using assms by simp
  fix i
  assume "i < n"
  then have "pos + i < sz"
    using assms(2) by linarith
  then show "wal_byte sz [0 \<mapsto> f] (pos + i) = Some (take n (drop pos f) ! i)"
    using assms \<open>i < n\<close> by (simp add: wal_byte_def)
qed

text \<open>A torn header at LSN 40 behind a whole record at LSN 8, for a checksum that is constantly 1.\<close>

definition torn_header :: "byte list" where
  "torn_header =
    [40, 0, 0, 0, 0, 0, 0, 0, 0, 0, 0, 0, 0, 0, 0, 0,
     0, 0, 0, 0, 0, 0, 0, 0, 30, 0, 0, 0, 0, 0, 0, 0]"

definition torn_manager :: "byte list \<Rightarrow> segment_manager" where
  "torn_manager buf =
    (let f = replicate 8 0 @ buf @ torn_header @ replicate 56 0
     in \<lparr> wal_files = [0 \<mapsto> f], disk_files = [0 \<mapsto> f], current_segment_id = 0 \<rparr>)"

lemma torn_header_fields:
  "length torn_header = 32" "get_u64 torn_header 0 = 40" "get_u16 torn_header 26 = 0"
  "get_u32 torn_header 28 = 0" "list_ex (\<lambda>b. b \<noteq> 0) torn_header"
  by (simp_all add: torn_header_def get_uN_defs bytes_at_def le_u16_def le_u32_def le_u64_def)

lemma torn_manager_ok:
  assumes "wal_encode (\<lambda>_. 1) r = Ok buf" "length buf = 32"
  shows "files_wf 128 (torn_manager buf)"
    "holds_records (\<lambda>_. 1) 128 (wal_files (torn_manager buf)) 8 [r] 40"
    "torn_record (\<lambda>_. 1) 128 (wal_files (torn_manager buf)) 40"
    "clean_from 128 (wal_files (torn_manager buf)) (torn_end 128 (wal_files (torn_manager buf)) 40)"
proof -
  let ?f = "replicate 8 0 @ buf @ torn_header @ replicate 56 0"
  have len: "length ?f = 128"
    using assms(2) by (simp add: torn_header_fields)
  have fl: "wal_files (torn_manager buf) = [0 \<mapsto> ?f]"
    by (simp add: torn_manager_def Let_def)
  show "files_wf 128 (torn_manager buf)"
    using files_wf_single [of ?f] len by (simp add: torn_manager_def Let_def)
  show "holds_records (\<lambda>_. 1) 128 (wal_files (torn_manager buf)) 8 [r] 40"
    using assms len unfolding fl holds_records_Cons by (simp add: wal_byte_def nth_append)
  have h: "try_read 128 [0 \<mapsto> ?f] 40 WAL_RECORD_HEADER_SIZE = Some torn_header"
    using try_read_single [OF len, of 40 32] assms(2) by (simp add: WAL_RECORD_HEADER_SIZE_def torn_header_fields)
  have te: "torn_end 128 [0 \<mapsto> ?f] 40 = 72"
    unfolding torn_end_def h by (simp add: torn_header_fields WAL_RECORD_HEADER_SIZE_def align_up_def)
  have "wal_decode (\<lambda>_. 1) torn_header = Err (WalCorrupted 40)"
    by (simp add: wal_decode_def Let_def torn_header_fields WAL_RECORD_HEADER_SIZE_def align_up_def record_crc_def)
  then show "torn_record (\<lambda>_. 1) 128 (wal_files (torn_manager buf)) 40"
    unfolding fl torn_record_def h
    by (simp add: torn_header_fields WAL_RECORD_HEADER_SIZE_def align_up_def try_read.simps)
  show "clean_from 128 (wal_files (torn_manager buf)) (torn_end 128 (wal_files (torn_manager buf)) 40)"
    unfolding fl te using assms(2) by (intro clean_from_single) (simp_all add: torn_header_fields list_all_iff)
qed

lemma checkpoint_begin_bytes:
  obtains buf where "wal_encode crc checkpoint_begin = Ok buf" "length buf = 32"
proof -
  obtain buf where b: "wal_encode crc checkpoint_begin = Ok buf"
    by (simp add: wal_encode_def Let_def checkpoint_begin_def record_new_def)
  moreover have "record_size checkpoint_begin = 32"
    by (simp add: record_size_def checkpoint_begin_def record_new_def WAL_RECORD_HEADER_SIZE_def align_up_def)
  ultimately show thesis
    using that encode_fields(2) [OF b] by simp
qed

theorem torn_tail_is_end_of_log_witness:
  "\<exists>buf. wal_encode (\<lambda>_. 1) checkpoint_begin = Ok buf \<and>
     read_all (\<lambda>_. 1) 128 (wal_files (torn_manager buf)) 8 = Some (Ok ([checkpoint_begin], 40))"
proof -
  obtain buf where b: "wal_encode (\<lambda>_. 1) checkpoint_begin = Ok buf" "length buf = 32"
    by (rule checkpoint_begin_bytes)
  show ?thesis
    using b torn_tail_is_end_of_log [OF torn_manager_ok [OF b]] by blast
qed

text \<open>
  The same log after a crash in the middle of a longer write: a header announcing an
  eight-byte payload whose first byte is there.
\<close>

definition stale_header :: "byte list" where
  "stale_header =
    [40, 0, 0, 0, 0, 0, 0, 0, 0, 0, 0, 0, 0, 0, 0, 0,
     0, 0, 0, 0, 0, 0, 0, 0, 30, 0, 8, 0, 0, 0, 0, 0]"

definition stale_payload :: "byte list" where
  "stale_payload = [205, 0, 0, 0, 0, 0, 0, 0, 0, 0, 0, 0, 0, 0, 0, 0, 0, 0, 0, 0, 0, 0, 0, 0,
     0, 0, 0, 0, 0, 0, 0, 0]"

definition stale_manager :: "byte list \<Rightarrow> segment_manager" where
  "stale_manager buf =
    (let f = replicate 8 0 @ buf @ stale_header @ stale_payload @ replicate 24 0
     in \<lparr> wal_files = [0 \<mapsto> f], disk_files = [0 \<mapsto> f], current_segment_id = 0 \<rparr>)"

lemma stale_fields:
  "length stale_header = 32" "get_u64 stale_header 0 = 40" "get_u16 stale_header 26 = 8"
  "list_ex (\<lambda>b. b \<noteq> 0) stale_header"
  "length stale_payload = 32" "get_u64 stale_payload 0 = 205" "get_u16 stale_payload 26 = 0"
  "get_u32 stale_payload 28 = 0" "\<not> list_all (\<lambda>b. b = 0) stale_payload"
  "get_u16 (stale_header @ take 8 stale_payload) 26 = 8" "get_u64 (stale_header @ take 8 stale_payload) 0 = 40"
  "get_u32 (stale_header @ take 8 stale_payload) 28 = 0"
  by (simp_all add: stale_header_def stale_payload_def get_uN_defs bytes_at_def le_u16_def le_u32_def le_u64_def)

lemma stale_first_scan:
  assumes "wal_encode (\<lambda>_. 1) r = Ok buf" "length buf = 32"
  shows "read_all (\<lambda>_. 1) 128 (wal_files (stale_manager buf)) 8 = Some (Ok ([r], 40))"
proof -
  let ?f = "replicate 8 0 @ buf @ stale_header @ stale_payload @ replicate 24 0"
  have len: "length ?f = 128"
    using assms(2) by (simp add: stale_fields)
  have fl: "wal_files (stale_manager buf) = [0 \<mapsto> ?f]"
    by (simp add: stale_manager_def Let_def)
  have wf: "files_wf 128 (stale_manager buf)"
    using files_wf_single [of ?f] len by (simp add: stale_manager_def Let_def)
  have rec: "holds_records (\<lambda>_. 1) 128 (wal_files (stale_manager buf)) 8 [r] 40"
    using assms len unfolding fl holds_records_Cons by (simp add: wal_byte_def nth_append)
  have h: "try_read 128 [0 \<mapsto> ?f] 40 WAL_RECORD_HEADER_SIZE = Some stale_header"
    using try_read_single [OF len, of 40 32] assms(2) by (simp add: WAL_RECORD_HEADER_SIZE_def stale_fields)
  have p: "try_read 128 [0 \<mapsto> ?f] 72 8 = Some (take 8 stale_payload)"
    using try_read_single [OF len, of 72 8] assms(2) by (simp add: stale_fields)
  have te: "torn_end 128 [0 \<mapsto> ?f] 40 = 80"
    unfolding torn_end_def h by (simp add: stale_fields WAL_RECORD_HEADER_SIZE_def align_up_def)
  have "wal_decode (\<lambda>_. 1) (stale_header @ take 8 stale_payload) = Err (WalCorrupted 40)"
    by (simp add: wal_decode_def Let_def stale_fields WAL_RECORD_HEADER_SIZE_def align_up_def record_crc_def)
  then have "torn_record (\<lambda>_. 1) 128 (wal_files (stale_manager buf)) 40"
    unfolding fl torn_record_def h using p
    by (simp add: stale_fields WAL_RECORD_HEADER_SIZE_def align_up_def)
  moreover have "clean_from 128 (wal_files (stale_manager buf)) (torn_end 128 (wal_files (stale_manager buf)) 40)"
    unfolding fl te using assms(2)
    by (intro clean_from_single) (simp_all add: stale_fields list_all_iff stale_payload_def)
  ultimately show ?thesis
    using wf rec next_record_torn [OF wf] by (intro read_all_ends) simp_all
qed

lemma stale_second_scan:
  assumes "wal_encode (\<lambda>_. 1) r = Ok buf" "length buf = 32"
    and fl: "d = [0 \<mapsto> replicate 8 0 @ buf @ buf @ stale_payload @ replicate 24 0]"
  shows "read_all (\<lambda>_. 1) 128 d 8 = Some (Err (WalCorrupted 205))"
proof -
  let ?f = "replicate 8 0 @ buf @ buf @ stale_payload @ replicate 24 0"
  have len: "length ?f = 128"
    using assms(2) by (simp add: stale_fields)
  have r: "next_record (\<lambda>_. 1) 128 d 8 = Some (Ok (Some r), 40)" "next_record (\<lambda>_. 1) 128 d 40 = Some (Ok (Some r), 72)"
    using next_record_holds [OF _ assms(1), of 128 d 8] next_record_holds [OF _ assms(1), of 128 d 40] assms(2) len
    unfolding fl by (simp_all add: wal_byte_def nth_append)
  have h: "try_read 128 d 72 WAL_RECORD_HEADER_SIZE = Some stale_payload"
    using try_read_single [OF len, of 72 32] assms(2) unfolding fl
    by (simp add: WAL_RECORD_HEADER_SIZE_def stale_fields)
  have "wal_decode (\<lambda>_. 1) stale_payload = Err (WalCorrupted 205)"
    by (simp add: wal_decode_def Let_def stale_fields WAL_RECORD_HEADER_SIZE_def align_up_def record_crc_def)
  then have "next_record (\<lambda>_. 1) 128 d 72 = Some (Err (WalCorrupted 205), 104)"
    unfolding next_record_def h
    by (simp add: stale_fields WAL_RECORD_HEADER_SIZE_def align_up_def try_read.simps is_torn_tail_def)
  then show ?thesis
    using r by (simp add: read_all.simps)
qed


end
