(* ===== verification/Wal_Writer.thy ===== *)
theory Wal_Writer
  imports Wal_Stream Txn_Manager
begin

text \<open>
  The WAL writer (\<^verbatim>\<open>pg-storage/src/wal/writer.rs\<close>): appends under the state lock, the
  group-commit worker, and \<open>flush_to\<close>.  LSNs are natural numbers here: the clock
  is a 64-bit counter of bytes written.  Every critical section is one function; the
  machine at the end interleaves them, since the worker fsyncs with the lock released.
\<close>

section \<open>State\<close>

record writer_state =
  lsn_clock :: nat
  segs :: segment_manager
  synced_lsn :: nat
  pending :: nat
  flush_requested :: bool
  shutdown :: bool
  last_error :: bool

definition open_with_segment_manager :: "segment_manager \<Rightarrow> nat \<Rightarrow> nat \<Rightarrow> writer_state" where
  "open_with_segment_manager m start initial_synced =
    \<lparr> lsn_clock = start, segs = m, synced_lsn = initial_synced, pending = 0, flush_requested = False,
      shutdown = False, last_error = False \<rparr>"

text \<open>
  \<open>open_with_scan_start\<close> on a directory given by its segment ids and their contents.
  The segment file is preallocated when it is opened, so the test for existing records
  holds and the log is always scanned.
\<close>

definition open_with_scan_start ::
  "(byte list \<Rightarrow> u32) \<Rightarrow> nat \<Rightarrow> nat list \<Rightarrow> wal_dir \<Rightarrow> nat \<Rightarrow> (storage_error + writer_state) option" where
  "open_with_scan_start crc sz ids dir hint =
    (case segment_manager_open sz ids dir of
       Inl e \<Rightarrow> Some (Err e)
     | Inr m \<Rightarrow>
         let oldest = (case ids of [] \<Rightarrow> 0 | i # is \<Rightarrow> foldr min is i);
             first = unat LSN_FIRST
         in map_option (\<lambda>r. case r of
              Inl e \<Rightarrow> Err e
            | Inr start \<Rightarrow> Ok (open_with_segment_manager m start (if start > first then start else 0)))
            (discover_resume_lsn crc sz (wal_files m) oldest hint))"

section \<open>Appending\<close>

definition write_at ::
  "(byte list \<Rightarrow> u32) \<Rightarrow> nat \<Rightarrow> wal_record \<Rightarrow> nat \<Rightarrow> writer_state \<Rightarrow> (storage_error + nat) \<times> writer_state" where
  "write_at crc sz r lsn w =
    (case wal_encode crc (r\<lparr> rec_lsn := of_nat lsn \<rparr>) of
       Inl e \<Rightarrow> (Err e, w)
     | Inr buf \<Rightarrow>
         (case write_record_to_segment sz lsn buf (segs w) of
            Inl e \<Rightarrow> (Err e, w\<lparr> last_error := True, shutdown := True \<rparr>)
          | Inr m \<Rightarrow> (Ok lsn, w\<lparr> segs := m, pending := pending w + 1 \<rparr>)))"

definition append_record ::
  "(byte list \<Rightarrow> u32) \<Rightarrow> nat \<Rightarrow> wal_record \<Rightarrow> writer_state \<Rightarrow> (storage_error + nat) \<times> writer_state" where
  "append_record crc sz r w =
    (if last_error w then (Err WalWriteFailed, w)
     else if length (payload r) > 65535 then (Err Serialize, w)
     else write_at crc sz r (lsn_clock w) (w\<lparr> lsn_clock := lsn_clock w + record_size r \<rparr>))"

text \<open>\<open>reserve_and_append\<close> has the body of \<open>append\<close>.\<close>

definition reserve_and_append where "reserve_and_append = append_record"

definition reserve_lsn :: "nat \<Rightarrow> writer_state \<Rightarrow> (storage_error + nat) \<times> writer_state" where
  "reserve_lsn n w =
    (if last_error w then (Err WalWriteFailed, w)
     else (Ok (lsn_clock w), w\<lparr> lsn_clock := lsn_clock w + n \<rparr>))"

definition append_at ::
  "(byte list \<Rightarrow> u32) \<Rightarrow> nat \<Rightarrow> wal_record \<Rightarrow> nat \<Rightarrow> nat \<Rightarrow> writer_state \<Rightarrow> (storage_error + nat) \<times> writer_state" where
  "append_at crc sz r lsn reserved w =
    (if lsn = 0 \<or> lsn mod unat LSN_ALIGNMENT \<noteq> 0 then (Err InvalidConfig, w)
     else if last_error w then (Err WalWriteFailed, w)
     else if lsn + reserved > lsn_clock w then (Err (LsnNotAvailable (of_nat lsn)), w)
     else if length (payload r) > 65535 then (Err Serialize, w)
     else if record_size r \<noteq> reserved then (Err WalWriteFailed, w)
     else write_at crc sz r lsn w)"

definition writer_recycle_before :: "nat \<Rightarrow> nat \<Rightarrow> writer_state \<Rightarrow> (storage_error + unit) \<times> writer_state" where
  "writer_recycle_before sz lsn w =
    (if last_error w \<or> shutdown w then (Err WalWriteFailed, w)
     else (Ok (), w\<lparr> segs := recycle_before sz lsn (segs w) \<rparr>))"

section \<open>The group-commit worker\<close>

text \<open>
  A wave of the worker: what the fsync covers is captured under the lock, the fsync
  runs without it, and the outcome is recorded under it again.
\<close>

record wave =
  cover_lsn :: nat
  cover_segment :: nat
  cover_pending :: nat

definition worker_capture :: "writer_state \<Rightarrow> wave" where
  "worker_capture w =
    \<lparr> cover_lsn = lsn_clock w, cover_segment = current_segment_id (segs w), cover_pending = pending w \<rparr>"

definition worker_fsync :: "wave \<Rightarrow> writer_state \<Rightarrow> writer_state" where
  "worker_fsync wv w = w\<lparr> segs := sync_file (cover_segment wv) (segs w) \<rparr>"

definition wave_durable :: "nat \<Rightarrow> wave \<Rightarrow> writer_state \<Rightarrow> nat" where
  "wave_durable sz wv w =
    (if current_segment_id (segs w) = cover_segment wv then cover_lsn wv else (cover_segment wv + 1) * sz)"

definition worker_complete :: "nat \<Rightarrow> wave \<Rightarrow> bool \<Rightarrow> writer_state \<Rightarrow> writer_state" where
  "worker_complete sz wv fsync_ok w =
    (if \<not> fsync_ok then w\<lparr> last_error := True, shutdown := True \<rparr>
     else w\<lparr> last_error := (shutdown w \<and> last_error w),
             synced_lsn := max (synced_lsn w) (wave_durable sz wv w),
             pending := pending w - cover_pending wv,
             flush_requested := False \<rparr>)"

text \<open>
  \<open>flush_to\<close> when no other thread appends: one wave of the worker.  \<open>None\<close> is a call
  that sleeps forever because the worker has nothing to flush.  \<open>fsync_ok\<close> says whether
  the fsync succeeds in a state.
\<close>

definition run_wave :: "(writer_state \<Rightarrow> bool) \<Rightarrow> nat \<Rightarrow> writer_state \<Rightarrow> writer_state" where
  "run_wave fsync_ok sz w =
    (let wv = worker_capture w; ok = fsync_ok w
     in worker_complete sz wv ok (if ok then worker_fsync wv w else w))"

definition flush_to ::
  "(writer_state \<Rightarrow> bool) \<Rightarrow> nat \<Rightarrow> writer_state \<Rightarrow> nat \<Rightarrow> ((storage_error + unit) \<times> writer_state) option" where
  "flush_to fsync_ok sz w lsn =
    (if last_error w then Some (Err WalWriteFailed, w)
     else if lsn > lsn_clock w then Some (Err (LsnNotAvailable (of_nat lsn)), w)
     else if synced_lsn w \<ge> lsn then Some (Ok (), w)
     else if shutdown w then Some (Err WalWriteFailed, w\<lparr> flush_requested := True \<rparr>)
     else if pending w = 0 then None
     else
       let w = run_wave fsync_ok sz (w\<lparr> flush_requested := True \<rparr>) in
       if synced_lsn w \<ge> lsn then Some (Ok (), w)
       else if last_error w then Some (Err WalWriteFailed, w)
       else None)"

definition flush_all ::
  "(writer_state \<Rightarrow> bool) \<Rightarrow> nat \<Rightarrow> writer_state \<Rightarrow> ((storage_error + unit) \<times> writer_state) option" where
  "flush_all fsync_ok sz w =
    (if last_error w then Some (Err WalWriteFailed, w)
     else if pending w = 0 then Some (Ok (), w)
     else flush_to fsync_ok sz w (lsn_clock w))"

section \<open>The writer under concurrency\<close>

text \<open>
  Threads append and recycle under the lock while the worker is anywhere in its wave.
  Segments are recycled up to the redo point, from which recovery will read.
  When to flush (a request, the batch size, the timeout, the shutdown) is left open: a
  wave may start whenever something is pending.
\<close>

datatype worker_pc = Idle | Covering wave | Fsynced wave bool | Stopped

inductive writer_step ::
  "(byte list \<Rightarrow> u32) \<Rightarrow> nat \<Rightarrow> nat \<Rightarrow> writer_state \<times> worker_pc \<Rightarrow> wal_record list \<Rightarrow>
   writer_state \<times> worker_pc \<Rightarrow> bool"
  for crc sz redo where
  append: "append_record crc sz r w = (Ok lsn, w') \<Longrightarrow>
    writer_step crc sz redo (w, pc) [r\<lparr> rec_lsn := of_nat lsn \<rparr>] (w', pc)"
| append_fails: "append_record crc sz r w = (Err e, w') \<Longrightarrow> writer_step crc sz redo (w, pc) [] (w', pc)"
| request: "writer_step crc sz redo (w, pc) [] (w\<lparr> flush_requested := True \<rparr>, pc)"
| recycle: "lsn \<le> redo \<Longrightarrow> writer_step crc sz redo (w, pc) [] (snd (writer_recycle_before sz lsn w), pc)"
| stop: "writer_step crc sz redo (w, pc) [] (w\<lparr> shutdown := True \<rparr>, pc)"
| capture: "pending w > 0 \<Longrightarrow> writer_step crc sz redo (w, Idle) [] (w, Covering (worker_capture w))"
| fsync: "writer_step crc sz redo (w, Covering wv) [] (worker_fsync wv w, Fsynced wv True)"
| fsync_fails: "writer_step crc sz redo (w, Covering wv) [] (w, Fsynced wv False)"
| complete: "writer_step crc sz redo (w, Fsynced wv ok) []
    (worker_complete sz wv ok w, if ok then Idle else Stopped)"
| leave: "shutdown w \<Longrightarrow> pending w = 0 \<Longrightarrow> writer_step crc sz redo (w, Idle) [] (w, Stopped)"

text \<open>A run, with the records whose appends it acknowledged, in order.\<close>

inductive writer_run ::
  "(byte list \<Rightarrow> u32) \<Rightarrow> nat \<Rightarrow> nat \<Rightarrow> writer_state \<times> worker_pc \<Rightarrow> wal_record list \<Rightarrow>
   writer_state \<times> worker_pc \<Rightarrow> bool"
  for crc sz redo where
  refl: "writer_run crc sz redo s [] s"
| step: "writer_run crc sz redo s rs s' \<Longrightarrow> writer_step crc sz redo s' ls s'' \<Longrightarrow>
    writer_run crc sz redo s (rs @ ls) s''"

text \<open>
  The invariant: everything below \<open>synced_lsn\<close> is on disk, and a wave that has fsynced
  will only raise it over bytes that are.
\<close>

definition writer_inv :: "nat \<Rightarrow> writer_state \<Rightarrow> bool" where
  "writer_inv sz w \<longleftrightarrow>
    files_wf sz (segs w) \<and> current_segment_id (segs w) \<le> lsn_clock w div sz \<and>
    clean_from sz (wal_files (segs w)) (lsn_clock w) \<and>
    synced_lsn w \<le> lsn_clock w \<and> disk_ok sz (segs w) (synced_lsn w) \<and>
    (last_error w \<longrightarrow> shutdown w)"

fun pc_covers :: "nat \<Rightarrow> writer_state \<Rightarrow> worker_pc \<Rightarrow> bool" where
  "pc_covers sz w (Covering wv) \<longleftrightarrow>
    cover_lsn wv \<le> lsn_clock w \<and> cover_segment wv \<le> current_segment_id (segs w)"
| "pc_covers sz w (Fsynced wv ok) \<longleftrightarrow>
    cover_lsn wv \<le> lsn_clock w \<and> cover_segment wv \<le> current_segment_id (segs w) \<and>
    (ok \<longrightarrow> disk_ok sz (segs w) (wave_durable sz wv w))"
| "pc_covers sz w _ \<longleftrightarrow> True"

lemma disk_ok_below:
  assumes "disk_ok sz m s" "s' \<le> current_segment_id m * sz" "0 < sz"
  shows "disk_ok sz m s'"
proof -
  have "q div sz \<noteq> current_segment_id m" if "q < s'" for q
  proof -
    have "q < current_segment_id m * sz"
      using that assms(2) by linarith
    then have "q div sz < current_segment_id m"
      using assms(3) by (simp add: div_less_iff_less_mult)
    then show ?thesis
      by simp
  qed
  then show ?thesis
    using assms(1) by (simp add: disk_ok_def wal_byte_def)
qed

lemma disk_ok_fsynced:
  assumes "disk_ok sz m s"
  shows "disk_ok sz (sync_current m) s'"
  using assms by (simp add: disk_ok_def wal_byte_def)

lemma disk_ok_shrinks: "disk_ok sz m s \<Longrightarrow> s' \<le> s \<Longrightarrow> disk_ok sz m s'"
  by (simp add: disk_ok_def)

lemma clean_from_mono: "clean_from sz d p \<Longrightarrow> p \<le> p' \<Longrightarrow> clean_from sz d p'"
  by (simp add: clean_from_def)

lemma write_record_current:
  assumes "files_wf sz m" "current_segment_id m \<le> pos div sz" "write_record_to_segment sz pos bs m = Ok m'"
  shows "current_segment_id m \<le> current_segment_id m'"
proof (cases "bs = []")
  case True
  then show ?thesis
    using assms(3) by (simp add: write_record_to_segment_def write_loop.simps)
next
  case False
  then have "current_segment_id m' = (pos + length bs - 1) div sz"
    using write_loop_spec [OF assms(1,2), of bs] assms(3) by (auto simp: write_record_to_segment_def split: if_splits)
  moreover have "pos \<le> pos + length bs - 1"
    using False by (cases bs) auto
  ultimately show ?thesis
    using assms(2) div_le_mono [of pos "pos + length bs - 1" sz] by linarith
qed

text \<open>What an append does to the writer.\<close>

lemma append_record_cases:
  assumes "writer_inv sz w"
  obtains (fail) e where "append_record crc sz r w = (Err e, w)"
  | (poison) e where "append_record crc sz r w
      = (Err e, w\<lparr> lsn_clock := lsn_clock w + record_size r, last_error := True, shutdown := True \<rparr>)"
      "\<not> last_error w"
  | (ok) buf m where "append_record crc sz r w = (Ok (lsn_clock w),
        w\<lparr> lsn_clock := lsn_clock w + record_size r, segs := m, pending := pending w + 1 \<rparr>)"
      "wal_encode crc (r\<lparr> rec_lsn := of_nat (lsn_clock w) \<rparr>) = Ok buf" "length buf = record_size r"
      "write_record_to_segment sz (lsn_clock w) buf (segs w) = Ok m" "\<not> last_error w"
      "length buf \<le> sz"
proof -
  show thesis
  proof (cases "last_error w \<or> length (payload r) > 65535")
    case True
    then have "append_record crc sz r w = (Err (if last_error w then WalWriteFailed else Serialize), w)"
      by (auto simp: append_record_def)
    then show thesis
      by (rule fail)
  next
    case False
    then obtain buf where e: "wal_encode crc (r\<lparr> rec_lsn := of_nat (lsn_clock w) \<rparr>) = Ok buf"
      by (simp add: wal_encode_def Let_def)
    then have len: "length buf = record_size r"
      using encode_fields(2) [OF e] by (simp add: record_size_def)
    show thesis
    proof (cases "write_record_to_segment sz (lsn_clock w) buf (segs w)")
      case (Inl x)
      then show thesis
        using poison False e by (simp add: append_record_def write_at_def)
    next
      case (Inr m)
      then have "length buf \<le> sz"
        by (simp add: write_record_to_segment_def split: if_splits)
      then show thesis
        using ok Inr False e len by (simp add: append_record_def write_at_def)
    qed
  qed
qed

lemma recycle_spec:
  assumes "files_wf sz m"
  shows "files_wf sz (recycle_before sz pos m)"
    "current_segment_id (recycle_before sz pos m) = current_segment_id m"
    "wal_byte sz (wal_files (recycle_before sz pos m)) q =
      (if q div sz < min (pos div sz) (current_segment_id m) then None else wal_byte sz (wal_files m) q)"
    "wal_byte sz (disk_files (recycle_before sz pos m)) q =
      (if q div sz < min (pos div sz) (current_segment_id m) then None else wal_byte sz (disk_files m) q)"
    "disk_ok sz m s \<Longrightarrow> disk_ok sz (recycle_before sz pos m) s"
    "clean_from sz (wal_files m) p \<Longrightarrow> clean_from sz (wal_files (recycle_before sz pos m)) p"
  using assms
  by (auto simp: recycle_before_def Let_def files_wf_def wal_byte_def disk_ok_def clean_from_def)

lemma writer_invD:
  assumes "writer_inv sz w"
  shows "files_wf sz (segs w)" "current_segment_id (segs w) \<le> lsn_clock w div sz"
    "clean_from sz (wal_files (segs w)) (lsn_clock w)" "synced_lsn w \<le> lsn_clock w"
    "disk_ok sz (segs w) (synced_lsn w)" "last_error w \<Longrightarrow> shutdown w"
  using assms by (simp_all add: writer_inv_def)

lemma append_keeps_writer_inv:
  assumes "writer_inv sz w"
  shows "writer_inv sz (snd (append_record crc sz r w))"
  using assms
proof (cases rule: append_record_cases [of sz w crc r, case_names fail poison ok])
  case (poison e)
  have "current_segment_id (segs w) \<le> (lsn_clock w + record_size r) div sz"
    using assms div_le_mono [of "lsn_clock w" "lsn_clock w + record_size r" sz] by (simp add: writer_inv_def)
  then show ?thesis
    using assms clean_from_mono [of sz "wal_files (segs w)" "lsn_clock w" "lsn_clock w + record_size r"]
    unfolding poison(1) by (simp add: writer_inv_def)
next
  case (ok buf m)
  note i = assms [unfolded writer_inv_def]
  obtain m' where m': "write_record_to_segment sz (lsn_clock w) buf (segs w) = Ok m'" "files_wf sz m'"
    "current_segment_id m' \<le> (lsn_clock w + length buf) div sz"
    "clean_from sz (wal_files m') (lsn_clock w + length buf)"
    using write_record_spec [OF writer_invD(1,2,3) [OF assms] ok(6)] by metis
  then have "m' = m"
    using ok(4) by simp
  moreover have "disk_ok sz m (synced_lsn w)"
    using disk_ok_write_record [OF writer_invD(1,2,5,4) [OF assms] ok(4)] .
  ultimately show ?thesis
    using i m' ok(3,5) unfolding ok(1) by (simp add: writer_inv_def)
qed (use assms in simp)

lemma append_keeps_pc_covers:
  assumes "writer_inv sz w" "pc_covers sz w pc"
  shows "pc_covers sz (snd (append_record crc sz r w)) pc"
  using assms(1)
proof (cases rule: append_record_cases [of sz w crc r, case_names fail poison ok])
  case (poison e)
  then show ?thesis
    using assms(2) by (cases pc) (auto simp: wave_durable_def)
next
  case (ok buf m)
  note i = assms(1) [unfolded writer_inv_def]
  have sz: "0 < sz"
    using i by (simp add: files_wf_def)
  have mono: "current_segment_id (segs w) \<le> current_segment_id m"
    using write_record_current [OF writer_invD(1,2) [OF assms(1)] ok(4)] .
  have d: "disk_ok sz m s" if "disk_ok sz (segs w) s" "s \<le> lsn_clock w" for s
    using disk_ok_write_record [OF writer_invD(1,2) [OF assms(1)] that ok(4)] .
  show ?thesis
  proof (cases pc)
    case (Covering wv)
    then show ?thesis
      using assms(2) mono unfolding ok(1) by simp
  next
    case (Fsynced wv f)
    have "disk_ok sz m (wave_durable sz wv (w\<lparr> segs := m \<rparr>))" if f
    proof (cases "current_segment_id m = cover_segment wv")
      case True
      then have "current_segment_id (segs w) = cover_segment wv"
        using mono assms(2) Fsynced by simp
      then show ?thesis
        using True d assms(2) Fsynced that by (simp add: wave_durable_def)
    next
      case False
      then have "(cover_segment wv + 1) * sz \<le> current_segment_id m * sz"
        using mono assms(2) Fsynced by (intro mult_le_mono1) simp
      then have "disk_ok sz m ((cover_segment wv + 1) * sz)"
        by (rule disk_ok_below [OF d [OF writer_invD(5,4) [OF assms(1)]] _ sz])
      then show ?thesis
        using False by (simp add: wave_durable_def)
    qed
    then show ?thesis
      using assms(2) mono Fsynced unfolding ok(1) by (simp add: wave_durable_def)
  qed simp_all
qed (use assms in simp)

lemma pc_covers_flags [simp]:
  "pc_covers sz (w\<lparr> flush_requested := b \<rparr>) pc \<longleftrightarrow> pc_covers sz w pc"
  "pc_covers sz (w\<lparr> shutdown := b \<rparr>) pc \<longleftrightarrow> pc_covers sz w pc"
  by (cases pc; simp add: wave_durable_def)+

lemma step_keeps_writer_inv:
  assumes "writer_step crc sz redo s ls s'" "writer_inv sz (fst s)" "pc_covers sz (fst s) (snd s)"
  shows "writer_inv sz (fst s') \<and> pc_covers sz (fst s') (snd s')"
  using assms
proof cases
  case (append r w lsn w' pc)
  then show ?thesis
    using assms append_keeps_writer_inv [of sz w crc r] append_keeps_pc_covers [of sz w pc crc r] by simp
next
  case (append_fails r w e w' pc)
  then show ?thesis
    using assms append_keeps_writer_inv [of sz w crc r] append_keeps_pc_covers [of sz w pc crc r] by simp
next
  case (recycle lsn w pc)
  then show ?thesis
    using assms recycle_spec [OF writer_invD(1), of sz w] unfolding writer_recycle_before_def
    by (cases pc) (auto simp: writer_inv_def wave_durable_def)
next
  case (capture w)
  then show ?thesis
    using assms by (simp add: worker_capture_def)
next
  case (fsync w wv)
  have "disk_ok sz (sync_file (cover_segment wv) (segs w)) (wave_durable sz wv w)"
  proof (cases "current_segment_id (segs w) = cover_segment wv")
    case True
    have "writer_inv sz w"
      using assms(2) fsync by simp
    then have "disk_ok sz (sync_file (current_segment_id (segs w)) (segs w)) (wave_durable sz wv w)"
      using disk_ok_fsynced [OF writer_invD(5)] unfolding sync_current_def by blast
    then show ?thesis
      unfolding True .
  next
    case False
    have sz: "0 < sz"
      using writer_invD(1) [OF assms(2)] by (simp add: files_wf_def)
    have "(cover_segment wv + 1) * sz \<le> current_segment_id (segs w) * sz"
      using False assms(3) fsync by (intro mult_le_mono1) simp
    then have "disk_ok sz (segs w) ((cover_segment wv + 1) * sz)"
      using disk_ok_below [OF writer_invD(5) _ sz] assms(2) fsync by simp
    then show ?thesis
      using False disk_ok_sync_file by (simp add: wave_durable_def)
  qed
  moreover have "writer_inv sz (worker_fsync wv w)"
    using assms(2) fsync disk_ok_sync_file by (simp add: writer_inv_def worker_fsync_def)
  ultimately show ?thesis
    using assms fsync by (simp add: worker_fsync_def wave_durable_def)
next
  case (complete w wv ok)
  have "disk_ok sz (segs w) (max (synced_lsn w) (wave_durable sz wv w))" if ok
    using assms complete that by (simp add: max_def writer_inv_def)
  moreover have "wave_durable sz wv w \<le> lsn_clock w"
  proof (cases "current_segment_id (segs w) = cover_segment wv")
    case False
    then have "(cover_segment wv + 1) * sz \<le> current_segment_id (segs w) * sz"
      using assms complete by (intro mult_le_mono1) simp
    also have "... \<le> lsn_clock w div sz * sz"
      using writer_invD(2) [OF assms(2)] complete by (intro mult_le_mono1) simp
    also have "... \<le> lsn_clock w"
      by (rule div_times_less_eq_dividend)
    finally show ?thesis
      using False by (simp add: wave_durable_def)
  qed (use assms complete in \<open>simp add: wave_durable_def\<close>)
  ultimately show ?thesis
    using assms complete by (auto simp: writer_inv_def worker_complete_def)
qed (use assms in \<open>auto simp: writer_inv_def wave_durable_def split: worker_pc.splits\<close>)

lemma run_keeps_writer_inv:
  assumes "writer_run crc sz redo s rs s'" "writer_inv sz (fst s)" "pc_covers sz (fst s) (snd s)"
  shows "writer_inv sz (fst s') \<and> pc_covers sz (fst s') (snd s')"
  using assms by (induction rule: writer_run.induct) (use step_keeps_writer_inv in blast)+

section \<open>The log's contents\<close>

text \<open>
  The log holds exactly the given records from the redo point on, ending at the clock
  unless a failed append has poisoned the writer.
\<close>

definition writer_log :: "(byte list \<Rightarrow> u32) \<Rightarrow> nat \<Rightarrow> nat \<Rightarrow> wal_record list \<Rightarrow> writer_state \<Rightarrow> bool" where
  "writer_log crc sz redo rs w \<longleftrightarrow>
    (\<exists>endp \<le> lsn_clock w. holds_records crc sz (wal_files (segs w)) redo rs endp \<and>
      (\<not> last_error w \<longrightarrow> endp = lsn_clock w))"

lemma append_keeps_log:
  assumes "writer_inv sz w" "writer_log crc sz redo rs w" "append_record crc sz r w = (res, w')"
  shows "writer_log crc sz redo (rs @ (case res of Inl _ \<Rightarrow> [] | Inr lsn \<Rightarrow> [r\<lparr> rec_lsn := of_nat lsn \<rparr>])) w'"
  using assms(1)
proof (cases rule: append_record_cases [of sz w crc r, case_names fail poison ok])
  case (fail e)
  then show ?thesis
    using assms(2,3) by auto
next
  case (poison e)
  then have r: "res = Err e" "w' = w\<lparr> lsn_clock := lsn_clock w + record_size r, last_error := True, shutdown := True \<rparr>"
    using assms(3) by simp_all
  obtain endp where "endp \<le> lsn_clock w" "holds_records crc sz (wal_files (segs w)) redo rs endp"
    using assms(2) by (auto simp: writer_log_def)
  then show ?thesis
    unfolding r by (auto simp: writer_log_def intro!: exI [of _ endp])
next
  case (ok buf m)
  have "log_wf crc sz (segs w) redo rs (lsn_clock w)"
    using assms(2) ok(5) writer_invD [OF assms(1)] by (auto simp: writer_log_def log_wf_def)
  then obtain m' where "write_record_to_segment sz (lsn_clock w) buf (segs w) = Ok m'"
    "log_wf crc sz m' redo (rs @ [r\<lparr> rec_lsn := of_nat (lsn_clock w) \<rparr>]) (lsn_clock w + length buf)"
    using log_wf_write [OF _ ok(2,6)] by blast
  then show ?thesis
    using assms(3) ok(1,3,4) by (auto simp: writer_log_def log_wf_def)
qed

lemma recycle_keeps_records:
  assumes "files_wf sz m" "lsn \<le> redo" "holds_records crc sz (wal_files m) redo rs endp"
  shows "holds_records crc sz (wal_files (recycle_before sz lsn m)) redo rs endp"
proof (rule holds_records_mono [OF assms(3)])
  fix q b
  assume "redo \<le> q" "wal_byte sz (wal_files m) q = Some b"
  moreover have "lsn div sz \<le> q div sz"
    using assms(2) \<open>redo \<le> q\<close> by (intro div_le_mono) linarith
  ultimately show "wal_byte sz (wal_files (recycle_before sz lsn m)) q = Some b"
    unfolding recycle_spec(3) [OF assms(1)] by simp
qed

lemma step_keeps_log:
  assumes "writer_step crc sz redo s ls s'" "writer_inv sz (fst s)" "writer_log crc sz redo rs (fst s)"
  shows "writer_log crc sz redo (rs @ ls) (fst s')"
  using assms
proof cases
  case (append r w lsn w' pc)
  then show ?thesis
    using append_keeps_log [of sz w crc redo rs r "Ok lsn" w'] assms by simp
next
  case (append_fails r w e w' pc)
  then show ?thesis
    using append_keeps_log [of sz w crc redo rs r "Err e" w'] assms by simp
next
  case (recycle lsn w pc)
  then show ?thesis
    using recycle_keeps_records [OF writer_invD(1) [OF assms(2)]] assms(3)
    by (auto simp: writer_log_def writer_recycle_before_def)
next
  case (complete w wv ok)
  then show ?thesis
    using assms writer_invD(6) [OF assms(2)] by (auto simp: writer_log_def worker_complete_def)
qed (use assms in \<open>auto simp: writer_log_def worker_fsync_def\<close>)

lemma run_keeps_log:
  assumes "writer_run crc sz redo s rs s'" "writer_inv sz (fst s)" "pc_covers sz (fst s) (snd s)"
    "writer_log crc sz redo rs0 (fst s)"
  shows "writer_log crc sz redo (rs0 @ rs) (fst s')"
  using assms
proof (induction rule: writer_run.induct)
  case (step s rs s' ls s'')
  have "writer_inv sz (fst s')"
    using run_keeps_writer_inv [OF step.hyps(1) step.prems(1,2)] by simp
  then show ?case
    using step_keeps_log [OF step.hyps(2), of "rs0 @ rs"] step.IH step.prems by simp
qed simp

text \<open>What is on disk of a log whose bytes below a position are.\<close>

lemma durable_prefix:
  assumes "holds_records crc sz dir pos rs endp" "\<And>q. q < s \<Longrightarrow> wal_byte sz dir' q = wal_byte sz dir q"
  shows "\<exists>k \<le> length rs. \<exists>e. holds_records crc sz dir' pos (take k rs) e \<and>
    (k < length rs \<longrightarrow> s < e + record_size (rs ! k))"
  using assms(1)
proof (induction rs arbitrary: pos)
  case Nil
  then show ?case
    by simp
next
  case (Cons r rs)
  obtain buf where b: "wal_encode crc r = Ok buf" "holds_records crc sz dir (pos + length buf) rs endp"
    "\<And>i. i < length buf \<Longrightarrow> wal_byte sz dir (pos + i) = Some (buf ! i)"
    using Cons.prems(1) [unfolded holds_records_Cons] by blast
  have len: "length buf = record_size r"
    using encode_fields(2) [OF b(1)] by simp
  show ?case
  proof (cases "pos + length buf \<le> s")
    case True
    obtain k e where k: "k \<le> length rs" "holds_records crc sz dir' (pos + length buf) (take k rs) e"
      "k < length rs \<longrightarrow> s < e + record_size (rs ! k)"
      using Cons.IH [OF b(2)] by blast
    have "wal_byte sz dir' (pos + i) = Some (buf ! i)" if "i < length buf" for i
      using assms(2) [of "pos + i"] b(3) [OF that] True that by simp
    then have "holds_records crc sz dir' pos (take (Suc k) (r # rs)) e"
      using k(2) b(1) unfolding take_Suc_Cons holds_records_Cons by blast
    then show ?thesis
      using k by (intro exI [of _ "Suc k"] conjI exI [of _ e]) simp_all
  next
    case False
    then show ?thesis
      using len by (intro exI [of _ 0] conjI exI [of _ pos]) simp_all
  qed
qed

text \<open>
  C18: The writer neither loses, reorders nor invents a record, whatever the threads and the
  worker do.  Start from a log that holds the records \<open>rs0\<close> from the redo point on.  After any
  interleaving of appends, recycling, flush requests and the steps of the group-commit
  worker (its fsync may fail), the log holds \<open>rs0\<close> followed by exactly the acknowledged
  appends in order, each with the LSN it was given; unless a write failure has poisoned
  the writer, a scan from the redo point returns exactly these records and ends at the
  clock.  Of them the disk holds a prefix that a crash cannot take away and that reaches
  beyond every record that ends at or below \<open>synced_lsn\<close>.
\<close>

theorem wal_writer_log_correct:
  assumes "writer_inv sz w0" "writer_log crc sz redo rs0 w0" "writer_run crc sz redo (w0, Idle) rs (w, pc)"
  shows "writer_log crc sz redo (rs0 @ rs) w \<and>
    (\<not> last_error w \<longrightarrow> read_all crc sz (wal_files (segs w)) redo = Some (Ok (rs0 @ rs, lsn_clock w))) \<and>
    (\<exists>k \<le> length (rs0 @ rs). \<exists>e. holds_records crc sz (disk_files (segs w)) redo (take k (rs0 @ rs)) e \<and>
      (k < length (rs0 @ rs) \<longrightarrow> synced_lsn w < e + record_size ((rs0 @ rs) ! k)))"
proof (intro conjI)
  have i: "writer_inv sz w"
    using run_keeps_writer_inv [OF assms(3)] assms(1) by simp
  show l: "writer_log crc sz redo (rs0 @ rs) w"
    using run_keeps_log [OF assms(3)] assms(1,2) by simp
  have "0 < sz"
    using writer_invD(1) [OF i] by (simp add: files_wf_def)
  then show "\<not> last_error w \<longrightarrow> read_all crc sz (wal_files (segs w)) redo = Some (Ok (rs0 @ rs, lsn_clock w))"
    using l writer_invD(3) [OF i] read_all_records by (auto simp: writer_log_def)
  obtain endp where "holds_records crc sz (wal_files (segs w)) redo (rs0 @ rs) endp"
    using l by (auto simp: writer_log_def)
  then show "\<exists>k \<le> length (rs0 @ rs). \<exists>e. holds_records crc sz (disk_files (segs w)) redo (take k (rs0 @ rs)) e \<and>
      (k < length (rs0 @ rs) \<longrightarrow> synced_lsn w < e + record_size ((rs0 @ rs) ! k))"
    by (rule durable_prefix) (use writer_invD(5) [OF i] in \<open>simp add: disk_ok_def\<close>)
qed

section \<open>The writer as the log of commit\<close>

text \<open>\<open>impl CommitWal for WalWriter\<close>, with the records the manager builds.\<close>

fun txn_wal_record :: "bincode \<Rightarrow> txn_record \<Rightarrow> storage_error + wal_record" where
  "txn_wal_record bc (TxnCommit xid) = txn_commit bc xid"
| "txn_wal_record bc (TxnAbort xid) = txn_abort bc xid"

definition commit_append ::
  "bincode \<Rightarrow> (byte list \<Rightarrow> u32) \<Rightarrow> nat \<Rightarrow> writer_state \<Rightarrow> txn_record \<Rightarrow> (storage_error + nat) \<times> writer_state" where
  "commit_append bc crc sz w r =
    (case txn_wal_record bc r of
       Inl e \<Rightarrow> (Err e, w)
     | Inr rec \<Rightarrow> append_record crc sz rec w)"

definition seq_inv :: "(byte list \<Rightarrow> u32) \<Rightarrow> nat \<Rightarrow> nat \<Rightarrow> writer_state \<Rightarrow> bool" where
  "seq_inv crc sz redo w \<longleftrightarrow> writer_inv sz w \<and>
    (\<exists>rs. writer_log crc sz redo rs w \<and>
      (pending w = 0 \<and> \<not> last_error w \<longrightarrow> synced_lsn w = lsn_clock w \<or> rs = [])) \<and>
    (synced_lsn w \<le> redo \<or> (\<exists>rs. holds_records crc sz (wal_files (segs w)) redo rs (synced_lsn w)))"

definition record_in :: "bincode \<Rightarrow> (byte list \<Rightarrow> u32) \<Rightarrow> nat \<Rightarrow> nat \<Rightarrow> wal_dir \<Rightarrow> nat \<Rightarrow> nat \<Rightarrow> txn_record \<Rightarrow> bool" where
  "record_in bc crc sz redo dir limit lsn r \<longleftrightarrow>
    (\<exists>rec rs. txn_wal_record bc r = Ok rec \<and>
      holds_records crc sz dir redo rs lsn \<and>
      holds_records crc sz dir redo (rs @ [rec\<lparr> rec_lsn := of_nat lsn \<rparr>]) (lsn + record_size rec) \<and>
      lsn + record_size rec \<le> limit)"

definition writer_placed :: "bincode \<Rightarrow> (byte list \<Rightarrow> u32) \<Rightarrow> nat \<Rightarrow> nat \<Rightarrow> writer_state \<Rightarrow> nat \<Rightarrow> txn_record \<Rightarrow> bool" where
  "writer_placed bc crc sz redo w lsn r \<longleftrightarrow> record_in bc crc sz redo (wal_files (segs w)) (lsn_clock w) lsn r"

definition writer_durable :: "bincode \<Rightarrow> (byte list \<Rightarrow> u32) \<Rightarrow> nat \<Rightarrow> nat \<Rightarrow> writer_state \<Rightarrow> txn_record \<Rightarrow> bool" where
  "writer_durable bc crc sz redo w r \<longleftrightarrow>
    (\<exists>lsn. record_in bc crc sz redo (disk_files (segs w)) (synced_lsn w) lsn r)"

definition flush_at_end :: "writer_state \<Rightarrow> nat \<Rightarrow> bool" where
  "flush_at_end w lsn \<longleftrightarrow> synced_lsn w = lsn"

lemma record_in_mono:
  assumes "record_in bc crc sz redo dir limit lsn r" "limit \<le> limit'"
    "\<And>q b. q < limit \<Longrightarrow> wal_byte sz dir q = Some b \<Longrightarrow> wal_byte sz dir' q = Some b"
  shows "record_in bc crc sz redo dir' limit' lsn r"
proof -
  obtain rec rs where r: "txn_wal_record bc r = Ok rec" "holds_records crc sz dir redo rs lsn"
    "holds_records crc sz dir redo (rs @ [rec\<lparr> rec_lsn := of_nat lsn \<rparr>]) (lsn + record_size rec)"
    "lsn + record_size rec \<le> limit"
    using assms(1) by (auto simp: record_in_def)
  have "holds_records crc sz dir' redo rs lsn"
    by (rule holds_records_mono [OF r(2)]) (use r(4) assms(3) in auto)
  moreover have "holds_records crc sz dir' redo (rs @ [rec\<lparr> rec_lsn := of_nat lsn \<rparr>]) (lsn + record_size rec)"
    by (rule holds_records_mono [OF r(3)]) (use r(4) assms(3) in auto)
  moreover have "lsn + record_size rec \<le> limit'"
    using r(4) assms(2) by linarith
  ultimately show ?thesis
    using r(1) unfolding record_in_def by blast
qed

text \<open>Appending leaves every byte below the clock alone.\<close>

lemma append_keeps_bytes:
  assumes "writer_inv sz w" "q < lsn_clock w" "wal_byte sz (wal_files (segs w)) q = Some b"
  shows "wal_byte sz (wal_files (segs (snd (append_record crc sz r w)))) q = Some b"
  using assms(1)
proof (cases rule: append_record_cases [of sz w crc r, case_names fail poison ok])
  case (ok buf m)
  obtain m' where "write_record_to_segment sz (lsn_clock w) buf (segs w) = Ok m'"
    "\<And>q b. q < lsn_clock w \<Longrightarrow> wal_byte sz (wal_files (segs w)) q = Some b \<Longrightarrow> wal_byte sz (wal_files m') q = Some b"
    using write_record_spec [OF writer_invD(1,2,3) [OF assms(1)] ok(6)] by metis
  then show ?thesis
    using ok(1,4) assms(2,3) by simp
qed (use assms in simp_all)

lemma append_keeps_synced [simp]: "synced_lsn (snd (append_record crc sz r w)) = synced_lsn w"
  by (simp add: append_record_def write_at_def split: sum.splits)

lemma append_clock_le: "lsn_clock w \<le> lsn_clock (snd (append_record crc sz r w))"
  by (simp add: append_record_def write_at_def split: sum.splits)

text \<open>Two readings of the same bytes agree: no position is inside a record of the other.\<close>

lemma holds_records_boundary:
  assumes "0 < sz" "holds_records crc sz dir pos rs mid" "holds_records crc sz dir pos (rs @ [r]) e"
    "holds_records crc sz dir pos rs' s" "mid < s"
  shows "e \<le> s"
  using assms(2-4)
proof (induction rs arbitrary: pos rs')
  case Nil
  then obtain r' rest where rs': "rs' = r' # rest"
    using assms(5) by (cases rs') auto
  obtain buf where b: "wal_encode crc r = Ok buf" "e = pos + length buf"
    "\<And>i. i < length buf \<Longrightarrow> wal_byte sz dir (pos + i) = Some (buf ! i)"
    using Nil.prems(2) unfolding append_Nil holds_records_Cons by auto
  obtain buf' where b': "wal_encode crc r' = Ok buf'" "holds_records crc sz dir (pos + length buf') rest s"
    "\<And>i. i < length buf' \<Longrightarrow> wal_byte sz dir (pos + i) = Some (buf' ! i)"
    using Nil.prems(3) unfolding rs' holds_records_Cons by blast
  have "length buf = length buf'"
    using next_record_holds [OF assms(1) b(1,3)] next_record_holds [OF assms(1) b'(1,3)] by simp
  then show ?case
    using b(2) holds_records_le [OF b'(2)] by simp
next
  case (Cons x rs)
  obtain buf where b: "wal_encode crc x = Ok buf" "holds_records crc sz dir (pos + length buf) rs mid"
    "\<And>i. i < length buf \<Longrightarrow> wal_byte sz dir (pos + i) = Some (buf ! i)"
    using Cons.prems(1) unfolding holds_records_Cons by blast
  have e: "holds_records crc sz dir (pos + length buf) (rs @ [r]) e"
    using Cons.prems(2) b(1) unfolding append_Cons holds_records_Cons by auto
  obtain r' rest where rs': "rs' = r' # rest"
    using Cons.prems(3) assms(5) holds_records_le [OF Cons.prems(1)] by (cases rs') auto
  obtain buf' where b': "wal_encode crc r' = Ok buf'" "holds_records crc sz dir (pos + length buf') rest s"
    "\<And>i. i < length buf' \<Longrightarrow> wal_byte sz dir (pos + i) = Some (buf' ! i)"
    using Cons.prems(3) unfolding rs' holds_records_Cons by blast
  have "length buf = length buf'"
    using next_record_holds [OF assms(1) b(1,3)] next_record_holds [OF assms(1) b'(1,3)] by simp
  then show ?case
    using Cons.IH [OF b(2) e] b'(2) by simp
qed

text \<open>One wave of the worker with nobody else running.\<close>

lemma run_wave_cases:
  "run_wave fsync_ok sz w =
    (if fsync_ok w
     then w\<lparr> segs := sync_current (segs w), last_error := (shutdown w \<and> last_error w),
            synced_lsn := max (synced_lsn w) (lsn_clock w), pending := 0, flush_requested := False \<rparr>
     else w\<lparr> last_error := True, shutdown := True \<rparr>)"
  by (simp add: run_wave_def worker_capture_def worker_fsync_def worker_complete_def wave_durable_def
      sync_current_def Let_def)

lemma flush_to_cases:
  assumes "writer_inv sz w" "flush_to fsync_ok sz w lsn = Some (res, w')"
  obtains (same) f where "w' = w\<lparr> flush_requested := f \<rparr>" "res = Ok () \<Longrightarrow> lsn \<le> synced_lsn w"
  | (failed) "w' = w\<lparr> flush_requested := True, last_error := True, shutdown := True \<rparr>" "res \<noteq> Ok ()"
  | (synced) "w' = w\<lparr> segs := sync_current (segs w), synced_lsn := lsn_clock w, pending := 0, flush_requested := False \<rparr>"
      "res = Ok ()" "\<not> last_error w"
proof -
  have le: "max (synced_lsn w) (lsn_clock w) = lsn_clock w"
    using writer_invD(4) [OF assms(1)] by simp
  show thesis
  proof (cases "last_error w \<or> lsn > lsn_clock w \<or> synced_lsn w \<ge> lsn")
    case True
    then have "w' = w\<lparr> flush_requested := flush_requested w \<rparr>" "res = Ok () \<Longrightarrow> lsn \<le> synced_lsn w"
      using assms(2) by (auto simp: flush_to_def split: if_splits)
    then show thesis
      by (rule same)
  next
    case False
    show thesis
    proof (cases "shutdown w")
      case True
      then have "w' = w\<lparr> flush_requested := True \<rparr>" "res \<noteq> Ok ()"
        using assms(2) False by (auto simp: flush_to_def)
      then show thesis
        using same by blast
    next
      case running: False
      then have "pending w \<noteq> 0"
        using assms(2) False by (auto simp: flush_to_def split: if_splits)
      then show thesis
        using assms(2) False running le synced failed
        by (cases "fsync_ok (w\<lparr> flush_requested := True \<rparr>)")
          (auto simp: flush_to_def run_wave_cases Let_def split: if_splits)
    qed
  qed
qed

lemma writer_inv_flags [simp]: "writer_inv sz (w\<lparr> flush_requested := f \<rparr>) \<longleftrightarrow> writer_inv sz w"
  by (simp add: writer_inv_def)

lemma writer_inv_synced:
  "writer_inv sz w \<Longrightarrow> writer_inv sz (w\<lparr> segs := sync_current (segs w), synced_lsn := lsn_clock w, pending := 0,
    flush_requested := False \<rparr>)"
  using disk_ok_fsynced [of sz "segs w" "synced_lsn w" "lsn_clock w"] by (simp add: writer_inv_def)

lemma append_keeps_records:
  assumes "writer_inv sz w" "holds_records crc sz (wal_files (segs w)) redo rs e" "e \<le> lsn_clock w"
  shows "holds_records crc sz (wal_files (segs (snd (append_record crc sz r w)))) redo rs e"
proof (rule holds_records_mono [OF assms(2)])
  fix q b
  assume "q < e" "wal_byte sz (wal_files (segs w)) q = Some b"
  then show "wal_byte sz (wal_files (segs (snd (append_record crc sz r w)))) q = Some b"
    using append_keeps_bytes [OF assms(1), of q b] assms(3) by simp
qed

lemma seq_inv_append:
  assumes "seq_inv crc sz redo w"
  shows "seq_inv crc sz redo (snd (append_record crc sz r w))"
proof -
  note i = assms [unfolded seq_inv_def]
  let ?w = "snd (append_record crc sz r w)"
  obtain rs where rs: "writer_log crc sz redo rs w"
    "pending w = 0 \<and> \<not> last_error w \<longrightarrow> synced_lsn w = lsn_clock w \<or> rs = []"
    using i by blast
  have inv: "writer_inv sz w"
    using i by blast
  have pend: "last_error ?w \<or> pending ?w \<noteq> 0 \<or> ?w = w"
    by (rule append_record_cases [OF inv, of crc r]) auto
  have b: "synced_lsn w \<le> redo \<or> (\<exists>rs. holds_records crc sz (wal_files (segs ?w)) redo rs (synced_lsn w))"
  proof (cases "synced_lsn w \<le> redo")
    case False
    then obtain rs' where "holds_records crc sz (wal_files (segs w)) redo rs' (synced_lsn w)"
      using i by blast
    then show ?thesis
      using append_keeps_records [OF inv _ writer_invD(4) [OF inv]] by blast
  qed simp
  obtain res where res: "append_record crc sz r w = (res, ?w)"
    by (metis prod.collapse)
  have "writer_inv sz ?w"
    using append_keeps_writer_inv i by blast
  moreover have "\<exists>rs. writer_log crc sz redo rs ?w \<and>
      (pending ?w = 0 \<and> \<not> last_error ?w \<longrightarrow> synced_lsn ?w = lsn_clock ?w \<or> rs = [])"
  proof (cases "?w = w")
    case True
    show ?thesis
      unfolding True using rs by blast
  next
    case False
    then have "last_error ?w \<or> pending ?w \<noteq> 0"
      using pend by simp
    then show ?thesis
      using append_keeps_log [OF inv rs(1) res] by (intro exI conjI) (assumption, auto)
  qed
  ultimately show ?thesis
    unfolding seq_inv_def append_keeps_synced using b by blast
qed

lemma seq_inv_flush:
  assumes "seq_inv crc sz redo w" "flush_to fsync_ok sz w lsn = Some (res, w')"
  shows "seq_inv crc sz redo w'"
proof -
  note i = assms(1) [unfolded seq_inv_def]
  then have inv: "writer_inv sz w"
    by blast
  show ?thesis
    using inv assms(2)
  proof (cases rule: flush_to_cases)
    case (same f)
    then show ?thesis
      using i by (simp add: seq_inv_def writer_log_def)
  next
    case failed
    then show ?thesis
      using i by (auto simp: seq_inv_def writer_log_def writer_inv_def)
  next
    case synced
    obtain rs where "holds_records crc sz (wal_files (segs w)) redo rs (lsn_clock w)"
      using i synced(3) by (auto simp: writer_log_def)
    then have "\<exists>rs. writer_log crc sz redo rs w'" "\<exists>rs. holds_records crc sz (wal_files (segs w')) redo rs (synced_lsn w')"
      unfolding synced(1) by (auto simp: writer_log_def)
    moreover have "writer_inv sz w'"
      unfolding synced(1) by (rule writer_inv_synced [OF inv])
    moreover have "synced_lsn w' = lsn_clock w'"
      by (simp add: synced(1))
    ultimately show ?thesis
      unfolding seq_inv_def by blast
  qed
qed

lemma durable_on_files:
  assumes "disk_ok sz m s" "record_in bc crc sz redo (disk_files m) s lsn r"
  shows "record_in bc crc sz redo (wal_files m) s lsn r"
  using record_in_mono [OF assms(2) order_refl] assms(1) by (simp add: disk_ok_def)

lemma files_durable:
  assumes "disk_ok sz m s" "record_in bc crc sz redo (wal_files m) s lsn r"
  shows "record_in bc crc sz redo (disk_files m) s lsn r"
  using record_in_mono [OF assms(2) order_refl] assms(1) by (simp add: disk_ok_def)

lemma durable_synced:
  assumes "writer_inv sz w" "record_in bc crc sz redo (wal_files (segs w)) (lsn_clock w) l q"
  shows "writer_durable bc crc sz redo (w\<lparr> segs := sync_current (segs w), synced_lsn := lsn_clock w, pending := 0,
    flush_requested := False \<rparr>) q"
proof -
  have "record_in bc crc sz redo (disk_files (sync_current (segs w))) (lsn_clock w) l q"
    using files_durable [OF disk_ok_fsynced [OF writer_invD(5) [OF assms(1)]]] assms(2) by simp
  then show ?thesis
    by (auto simp: writer_durable_def simp del: sync_simps)
qed

lemma durable_append:
  assumes "writer_inv sz w" "writer_durable bc crc sz redo w q"
  shows "writer_durable bc crc sz redo (snd (append_record crc sz r w)) q"
proof -
  let ?w = "snd (append_record crc sz r w)"
  obtain lsn where "record_in bc crc sz redo (wal_files (segs w)) (synced_lsn w) lsn q"
    using durable_on_files [OF writer_invD(5) [OF assms(1)]] assms(2) unfolding writer_durable_def by blast
  then have "record_in bc crc sz redo (wal_files (segs ?w)) (synced_lsn w) lsn q"
    by (rule record_in_mono [OF _ order_refl append_keeps_bytes [OF assms(1)]])
      (use writer_invD(4) [OF assms(1)] in linarith)
  moreover have "disk_ok sz (segs ?w) (synced_lsn w)"
    using writer_invD(5) [OF append_keeps_writer_inv [OF assms(1)], of crc r] by simp
  ultimately show ?thesis
    unfolding writer_durable_def append_keeps_synced using files_durable by blast
qed

lemma durable_flush:
  assumes "writer_inv sz w" "writer_durable bc crc sz redo w q" "flush_to fsync_ok sz w lsn = Some (res, w')"
  shows "writer_durable bc crc sz redo w' q"
  using assms(1,3)
proof (cases rule: flush_to_cases)
  case synced
  obtain l where "record_in bc crc sz redo (wal_files (segs w)) (synced_lsn w) l q"
    using durable_on_files [OF writer_invD(5) [OF assms(1)]] assms(2) unfolding writer_durable_def by blast
  then have "record_in bc crc sz redo (wal_files (segs w)) (lsn_clock w) l q"
    using record_in_mono writer_invD(4) [OF assms(1)] by blast
  then show ?thesis
    unfolding synced(1) by (rule durable_synced [OF assms(1)])
qed (use assms(2) in \<open>auto simp: writer_durable_def\<close>)

lemma flush_makes_durable:
  assumes "seq_inv crc sz redo w" "writer_placed bc crc sz redo w lsn r" "\<not> flush_at_end w lsn"
    "flush_to fsync_ok sz w lsn = Some (Ok (), w')"
  shows "writer_durable bc crc sz redo w' r"
proof -
  have inv: "writer_inv sz w"
    using assms(1) by (simp add: seq_inv_def)
  then have sz: "0 < sz"
    using writer_invD(1) by (auto simp: files_wf_def)
  have placed: "record_in bc crc sz redo (wal_files (segs w)) (lsn_clock w) lsn r"
    using assms(2) by (simp add: writer_placed_def)
  show ?thesis
    using inv assms(4)
  proof (cases rule: flush_to_cases)
    case (same f)
    then have lt: "lsn < synced_lsn w"
      using assms(3) by (simp add: flush_at_end_def)
    obtain rec rs where r: "txn_wal_record bc r = Ok rec" "holds_records crc sz (wal_files (segs w)) redo rs lsn"
      "holds_records crc sz (wal_files (segs w)) redo (rs @ [rec\<lparr> rec_lsn := of_nat lsn \<rparr>]) (lsn + record_size rec)"
      using placed by (auto simp: record_in_def)
    have "redo \<le> lsn"
      by (rule holds_records_le [OF r(2)])
    then obtain rs' where "holds_records crc sz (wal_files (segs w)) redo rs' (synced_lsn w)"
      using assms(1) lt by (auto simp: seq_inv_def)
    then have "lsn + record_size rec \<le> synced_lsn w"
      using holds_records_boundary [OF sz r(2,3) _ lt] by blast
    then have "record_in bc crc sz redo (wal_files (segs w)) (synced_lsn w) lsn r"
      using r unfolding record_in_def by blast
    then show ?thesis
      using files_durable [OF writer_invD(5) [OF inv]] unfolding same(1) writer_durable_def by (simp, blast)
  next
    case synced
    show ?thesis
      unfolding synced(1) by (rule durable_synced [OF inv placed])
  qed simp
qed

lemma placed_record_flush_returns:
  assumes "seq_inv crc sz redo w" "writer_placed bc crc sz redo w lsn r"
  shows "flush_to fsync_ok sz w lsn \<noteq> None"
proof -
  obtain rec rs where r: "holds_records crc sz (wal_files (segs w)) redo rs lsn"
    "lsn + record_size rec \<le> lsn_clock w"
    using assms(2) by (auto simp: writer_placed_def record_in_def)
  then have lt: "redo < lsn_clock w" "lsn < lsn_clock w"
    using holds_records_le [OF r(1)] record_size_ge [of rec] by linarith+
  obtain rs' where rs': "writer_log crc sz redo rs' w"
    "pending w = 0 \<and> \<not> last_error w \<longrightarrow> synced_lsn w = lsn_clock w \<or> rs' = []"
    using assms(1) by (auto simp: seq_inv_def)
  then have "pending w = 0 \<Longrightarrow> \<not> last_error w \<Longrightarrow> synced_lsn w = lsn_clock w"
    using lt(1) by (auto simp: writer_log_def)
  then show ?thesis
    using lt(2) by (cases "last_error w") (auto simp: flush_to_def run_wave_cases Let_def)
qed

lemma append_places:
  assumes "seq_inv crc sz redo w" "commit_append bc crc sz w r = (Ok lsn, w')"
  shows "writer_placed bc crc sz redo w' lsn r"
proof -
  have inv: "writer_inv sz w"
    using assms(1) by (simp add: seq_inv_def)
  obtain rec where rec: "txn_wal_record bc r = Ok rec" "append_record crc sz rec w = (Ok lsn, w')"
    using assms(2) by (auto simp: commit_append_def split: sum.splits)
  obtain rs where rs: "writer_log crc sz redo rs w"
    using assms(1) by (auto simp: seq_inv_def)
  have log: "writer_log crc sz redo (rs @ [rec\<lparr> rec_lsn := of_nat lsn \<rparr>]) w'"
    using append_keeps_log [OF inv rs rec(2)] by simp
  have w': "lsn = lsn_clock w" "\<not> last_error w" "\<not> last_error w'" "lsn_clock w' = lsn + record_size rec"
    by (rule append_record_cases [OF inv, of crc rec]; use rec(2) in auto)+
  have "holds_records crc sz (wal_files (segs w)) redo rs lsn"
    using rs w'(1,2) by (simp add: writer_log_def)
  then have "holds_records crc sz (wal_files (segs w')) redo rs lsn"
    using append_keeps_records [OF inv, of crc redo rs lsn rec] rec(2) w'(1) by simp
  then show ?thesis
    using log w'(3,4) rec(1) by (auto simp: writer_placed_def record_in_def writer_log_def)
qed

interpretation cw: commit_wal "commit_append bc crc sz" "flush_to fsync_ok sz" "seq_inv crc sz redo"
  "writer_placed bc crc sz redo" "writer_durable bc crc sz redo" flush_at_end
  for bc crc sz redo fsync_ok
proof (unfold_locales, goal_cases)
  case (1 w r)
  then show ?case
    using seq_inv_append by (simp add: commit_append_def split: sum.split)
next
  case (2 w r lsn w')
  then show ?case
    by (rule append_places)
next
  case (3 w q r)
  then show ?case
    using durable_append by (simp add: commit_append_def seq_inv_def split: sum.split)
next
  case (4 w lsn r)
  then show ?case
    by (rule placed_record_flush_returns)
next
  case (5 w lsn res w')
  then show ?case
    by (rule seq_inv_flush)
next
  case (6 w q lsn res w')
  show ?case
    by (rule durable_flush [OF _ 6(2,3)]) (use 6(1) in \<open>simp add: seq_inv_def\<close>)
next
  case (7 w lsn r w')
  then show ?case
    by (rule flush_makes_durable)
qed

section \<open>Commits and durability\<close>

text \<open>
  C20: A committed transaction's record survives a crash.  Let the log writer be in a state
  its own operations keep, with every transaction the CLOG calls committed having its commit
  record on disk.  Then \<open>commit_txn\<close> returns (it never sleeps forever), and afterwards
  the same holds, including for the transaction just committed.  The side condition is that the
  record is not appended exactly at the end of the synced log.
\<close>

theorem committed_is_durable:
  assumes "seq_inv crc sz redo (wal m)"
    "\<And>x. clog m x = Committed \<Longrightarrow> writer_durable bc crc sz redo (wal m) (TxnCommit x)"
    "synced_lsn (wal m) \<noteq> lsn_clock (wal m)"
  shows "\<exists>res m'. commit_txn (commit_append bc crc sz) (flush_to fsync_ok sz) xid m = Some (res, m') \<and>
    seq_inv crc sz redo (wal m') \<and>
    (\<forall>x. clog m' x = Committed \<longrightarrow> writer_durable bc crc sz redo (wal m') (TxnCommit x))"
proof -
  have inv: "writer_inv sz (wal m)"
    using assms(1) by (simp add: seq_inv_def)
  have "cw.append_clear bc crc sz (wal m) (TxnCommit xid)"
    unfolding cw.append_clear_def flush_at_end_def commit_append_def
  proof (intro allI impI)
    fix lsn w'
    assume "(case txn_wal_record bc (TxnCommit xid) of Inl e \<Rightarrow> (Err e, wal m)
        | Inr rec \<Rightarrow> append_record crc sz rec (wal m)) = (Ok lsn, w')"
    then obtain rec where a: "append_record crc sz rec (wal m) = (Ok lsn, w')"
      by (auto split: sum.splits)
    have "lsn = lsn_clock (wal m)" "synced_lsn w' = synced_lsn (wal m)"
      by (rule append_record_cases [OF inv, of crc rec]; use a in auto)+
    then show "synced_lsn w' \<noteq> lsn"
      using assms(3) by simp
  qed
  then show ?thesis
    using cw.commit_durable [of crc sz redo bc m xid fsync_ok] assms(1,2)
    unfolding cw.commits_durable_def by blast
qed

text \<open>A fresh log: one segment of zeros, the clock at the first LSN.\<close>

definition fresh_segments :: "nat \<Rightarrow> segment_manager" where
  "fresh_segments sz =
    \<lparr> wal_files = [0 \<mapsto> replicate sz 0], disk_files = [0 \<mapsto> replicate sz 0], current_segment_id = 0 \<rparr>"

lemma fresh_writer_inv:
  assumes "8 \<le> sz" "s \<le> 8"
  shows "writer_inv sz (open_with_segment_manager (fresh_segments sz) 8 s)"
    "writer_log crc sz 8 [] (open_with_segment_manager (fresh_segments sz) 8 s)"
  using assms files_wf_single [of "replicate sz (0 :: byte)"] clean_from_single [of sz 8 "replicate sz (0 :: byte)"]
  by (simp_all add: writer_inv_def writer_log_def open_with_segment_manager_def fresh_segments_def disk_ok_def
      list_all_iff)

theorem committed_is_durable_witness:
  "\<exists>res m'. commit_txn (commit_append demo_bincode (\<lambda>_. 1) 128) (flush_to (\<lambda>_. True) 128) 5
      (txn_manager_new 6 (open_with_segment_manager (fresh_segments 128) 8 0) (\<lambda>_. InProgress)) = Some (res, m') \<and>
    seq_inv (\<lambda>_. 1) 128 8 (wal m') \<and>
    (\<forall>x. clog m' x = Committed \<longrightarrow> writer_durable demo_bincode (\<lambda>_. 1) 128 8 (wal m') (TxnCommit x))"
proof (rule committed_is_durable)
  let ?w = "open_with_segment_manager (fresh_segments 128) 8 0"
  show "seq_inv (\<lambda>_. 1) 128 8 (wal (txn_manager_new 6 ?w (\<lambda>_. InProgress)))"
    using fresh_writer_inv [of 128 0]
    by (auto simp: seq_inv_def txn_manager_new_def open_with_segment_manager_def)
qed (simp_all add: txn_manager_new_def open_with_segment_manager_def)

lemma append_checkpoint_begin:
  "\<exists>m. append_record (\<lambda>_. 1) 128 checkpoint_begin (open_with_segment_manager (fresh_segments 128) 8 s)
    = (Ok 8, (open_with_segment_manager (fresh_segments 128) 8 s)\<lparr> lsn_clock := 40, segs := m, pending := 1 \<rparr>)"
proof -
  have size: "record_size checkpoint_begin = 32"
    by (simp add: record_size_def checkpoint_begin_def record_new_def WAL_RECORD_HEADER_SIZE_def align_up_def)
  obtain buf where "wal_encode (\<lambda>_. 1) (checkpoint_begin\<lparr> rec_lsn := of_nat 8 \<rparr>) = Ok buf"
    by (simp add: wal_encode_def Let_def checkpoint_begin_def record_new_def)
  moreover from this have "length buf = 32"
    using encode_fields(2) [of "\<lambda>_. 1"] size by (simp add: record_size_def)
  ultimately show ?thesis
    using size by (cases "buf = []")
      (simp_all add: append_record_def write_at_def open_with_segment_manager_def checkpoint_begin_def record_new_def
        write_record_to_segment_def write_loop.simps ensure_for_write_def fresh_segments_def)
qed

theorem wal_writer_log_correct_witness:
  "\<exists>w lsn. writer_run (\<lambda>_. 1) 128 8 (open_with_segment_manager (fresh_segments 128) 8 0, Idle)
      [checkpoint_begin\<lparr> rec_lsn := lsn \<rparr>] (w, Idle) \<and>
    read_all (\<lambda>_. 1) 128 (wal_files (segs w)) 8 = Some (Ok ([checkpoint_begin\<lparr> rec_lsn := lsn \<rparr>], lsn_clock w))"
proof -
  let ?w = "open_with_segment_manager (fresh_segments 128) 8 0"
  have inv: "writer_inv 128 ?w" "writer_log (\<lambda>_. 1) 128 8 [] ?w"
    using fresh_writer_inv [of 128 0] by simp_all
  obtain m where a: "append_record (\<lambda>_. 1) 128 checkpoint_begin ?w
      = (Ok 8, ?w\<lparr> lsn_clock := 40, segs := m, pending := 1 \<rparr>)" (is "_ = (_, ?w')")
    using append_checkpoint_begin by blast
  have run: "writer_run (\<lambda>_. 1) 128 8 (?w, Idle) [checkpoint_begin\<lparr> rec_lsn := of_nat 8 \<rparr>] (?w', Idle)"
    using writer_run.step [OF writer_run.refl writer_step.append [OF a]] by simp
  have "\<not> last_error ?w'"
    by (simp add: open_with_segment_manager_def)
  then have "read_all (\<lambda>_. 1) 128 (wal_files (segs ?w')) 8
      = Some (Ok ([] @ [checkpoint_begin\<lparr> rec_lsn := of_nat 8 \<rparr>], lsn_clock ?w'))"
    using wal_writer_log_correct [OF inv run] by blast
  then show ?thesis
    using run unfolding append_Nil by blast
qed

lemma write_loop_within:
  assumes "current_segment_id m = pos div sz" "pos mod sz + length bs \<le> sz" "bs \<noteq> []" "0 < sz"
  shows "write_loop sz pos bs m = Ok (write_chunk sz pos bs m)"
proof -
  have c: "min (sz - pos mod sz) (length bs) = length bs"
    using assms(2) by linarith
  have e: "write_loop sz p [] m' = Ok m'" for p m'
    by (simp add: write_loop.simps)
  show ?thesis
    using assms by (subst write_loop.simps) (simp add: c e ensure_for_write_def)
qed

text \<open>
  C31: \<open>flush_to\<close> acknowledges a record it has not synced.  When everything appended so far
  is synced (so \<open>synced_lsn\<close> is the end of the log, as after every flush and after reopening),
  the next record is placed at exactly that LSN, and flushing the LSN that \<open>append\<close> returned
  succeeds at once without an fsync: the process sees the record in the log, but the disk
  does not hold it, and recovery after a crash would read the log without it.
\<close>

theorem flush_to_acknowledges_unsynced_record:
  assumes "writer_inv sz w" "writer_log crc sz redo rs w" "\<not> last_error w" "synced_lsn w = lsn_clock w"
    "disk_files (segs w) = wal_files (segs w)" "current_segment_id (segs w) = lsn_clock w div sz"
    "lsn_clock w mod sz + record_size r \<le> sz" "append_record crc sz r w = (Ok lsn, w')"
  shows "flush_to fsync_ok sz w' lsn = Some (Ok (), w') \<and>
    read_all crc sz (wal_files (segs w')) redo = Some (Ok (rs @ [r\<lparr> rec_lsn := of_nat lsn \<rparr>], lsn_clock w')) \<and>
    read_all crc sz (disk_files (segs w')) redo = Some (Ok (rs, lsn))"
proof -
  have sz: "0 < sz"
    using writer_invD(1) [OF assms(1)] by (simp add: files_wf_def)
  obtain buf m where ok: "lsn = lsn_clock w" "w' = w\<lparr> lsn_clock := lsn_clock w + record_size r, segs := m, pending := pending w + 1 \<rparr>"
    "length buf = record_size r" "write_record_to_segment sz (lsn_clock w) buf (segs w) = Ok m"
    by (rule append_record_cases [OF assms(1), of crc r]) (use assms(8) in auto)
  have "write_loop sz (lsn_clock w) buf (segs w) = Ok m"
    using ok(4) by (simp add: write_record_to_segment_def split: if_splits)
  moreover have "buf \<noteq> []"
    using ok(3) record_size_ge [of r] by (cases buf) auto
  ultimately have "m = write_chunk sz (lsn_clock w) buf (segs w)"
    using write_loop_within [of "segs w" "lsn_clock w" sz buf] assms(6,7) ok(3) sz by auto
  then have "disk_files m = disk_files (segs w)"
    by (simp add: write_chunk_def split: option.split)
  moreover have "read_all crc sz (wal_files (segs w)) redo = Some (Ok (rs, lsn_clock w))"
    using assms(2,3) writer_invD(3) [OF assms(1)] read_all_records [OF sz] by (auto simp: writer_log_def)
  moreover have "read_all crc sz (wal_files (segs w')) redo = Some (Ok (rs @ [r\<lparr> rec_lsn := of_nat lsn \<rparr>], lsn_clock w'))"
    using append_keeps_log [OF assms(1,2,8)] writer_invD(3) [OF append_keeps_writer_inv [OF assms(1)], of crc r]
      read_all_records [OF sz] assms(3,8) ok(2) by (auto simp: writer_log_def)
  ultimately show ?thesis
    using ok(1,2) assms(3,4,5) by (simp add: flush_to_def)
qed

theorem flush_to_acknowledges_unsynced_record_witness:
  "\<exists>w'. append_record (\<lambda>_. 1) 128 checkpoint_begin (open_with_segment_manager (fresh_segments 128) 8 8) = (Ok 8, w') \<and>
    flush_to (\<lambda>_. True) 128 w' 8 = Some (Ok (), w') \<and>
    read_all (\<lambda>_. 1) 128 (disk_files (segs w')) 8 = Some (Ok ([], 8))"
proof -
  let ?w = "open_with_segment_manager (fresh_segments 128) 8 8"
  have inv: "writer_inv 128 ?w" "writer_log (\<lambda>_. 1) 128 8 [] ?w"
    using fresh_writer_inv [of 128 8] by simp_all
  obtain w' where a: "append_record (\<lambda>_. 1) 128 checkpoint_begin ?w = (Ok 8, w')"
    using append_checkpoint_begin by blast
  have "record_size checkpoint_begin = 32"
    by (simp add: record_size_def checkpoint_begin_def record_new_def WAL_RECORD_HEADER_SIZE_def align_up_def)
  then show ?thesis
    using flush_to_acknowledges_unsynced_record [OF inv _ _ _ _ _ a, of "\<lambda>_. True"] a
    by (simp add: open_with_segment_manager_def fresh_segments_def)
qed

end
