(* ===== verification/Lock_Manager.thy ===== *)
theory Lock_Manager
  imports Storage_Types "HOL-Library.AList" "HOL-Library.Sublist"
begin

text \<open>
  The table lock manager (\<^verbatim>\<open>pg-txn/src/lock_manager.rs\<close>): lock modes and their conflicts,
  the granted set and FIFO queue of a table, and the methods of \<open>LockManager\<close>.  The
  hash maps are association lists with distinct keys, whose order nothing depends on.
  The last part interleaves the methods of many transactions, with waiters asleep on
  the shared condition variable.
\<close>

section \<open>Modes\<close>

datatype lock_mode = AccessShare | RowExclusive | Exclusive | AccessExclusive

text \<open>The derived order: by strength, in the order of declaration.\<close>

fun strength :: "lock_mode \<Rightarrow> nat" where
  "strength AccessShare = 0"
| "strength RowExclusive = 1"
| "strength Exclusive = 2"
| "strength AccessExclusive = 3"

instantiation lock_mode :: linorder
begin

definition less_eq_lock_mode :: "lock_mode \<Rightarrow> lock_mode \<Rightarrow> bool" where
  "less_eq_lock_mode a b \<longleftrightarrow> strength a \<le> strength b"

definition less_lock_mode :: "lock_mode \<Rightarrow> lock_mode \<Rightarrow> bool" where
  "less_lock_mode a b \<longleftrightarrow> strength a < strength b"

instance
proof
  fix a b :: lock_mode
  show "a \<le> b \<Longrightarrow> b \<le> a \<Longrightarrow> a = b"
    by (cases a; cases b; simp add: less_eq_lock_mode_def)
qed (auto simp: less_eq_lock_mode_def less_lock_mode_def)

end

definition conflicts_with :: "lock_mode \<Rightarrow> lock_mode \<Rightarrow> bool" where
  "conflicts_with a b \<longleftrightarrow>
    a = AccessExclusive \<or> b = AccessExclusive \<or>
    a = RowExclusive \<and> b = Exclusive \<or> a = Exclusive \<and> b = RowExclusive \<or>
    a = Exclusive \<and> b = Exclusive"

section \<open>One table\<close>

record lock_entry =
  granted :: "(txn_id \<times> lock_mode) list"
  wait_queue :: "(txn_id \<times> lock_mode) list"

definition empty_entry :: lock_entry where
  "empty_entry = \<lparr> granted = [], wait_queue = [] \<rparr>"

definition holds_mode :: "lock_entry \<Rightarrow> txn_id \<Rightarrow> lock_mode \<Rightarrow> bool" where
  "holds_mode e xid mode \<longleftrightarrow>
    (case map_of (granted e) xid of None \<Rightarrow> False | Some held \<Rightarrow> held \<ge> mode)"

definition can_grant :: "lock_entry \<Rightarrow> txn_id \<Rightarrow> lock_mode \<Rightarrow> bool" where
  "can_grant e xid mode \<longleftrightarrow>
    (if holds_mode e xid mode then True
     else if (case wait_queue e of [] \<Rightarrow> False | head # _ \<Rightarrow> fst head \<noteq> xid) then False
     else list_all (\<lambda>(holder, held). holder = xid \<or> \<not> conflicts_with held mode) (granted e))"

definition grant :: "txn_id \<Rightarrow> lock_mode \<Rightarrow> lock_entry \<Rightarrow> lock_entry" where
  "grant xid mode e =
    (let q = (case wait_queue e of
                [] \<Rightarrow> []
              | head # rest \<Rightarrow> if fst head = xid then rest else head # rest);
         held = (case map_of (granted e) xid of None \<Rightarrow> mode | Some m \<Rightarrow> if mode > m then mode else m)
     in e\<lparr> wait_queue := q, granted := AList.update xid held (granted e) \<rparr>)"

definition enqueue_if_absent :: "txn_id \<Rightarrow> lock_mode \<Rightarrow> lock_entry \<Rightarrow> lock_entry" where
  "enqueue_if_absent xid mode e =
    (if list_ex (\<lambda>w. fst w = xid) (wait_queue e) then e
     else e\<lparr> wait_queue := wait_queue e @ [(xid, mode)] \<rparr>)"

function regrant_heads :: "lock_entry \<Rightarrow> lock_entry" where
  "regrant_heads e =
    (case wait_queue e of
       [] \<Rightarrow> e
     | (xid, mode) # _ \<Rightarrow> if can_grant e xid mode then regrant_heads (grant xid mode e) else e)"
  by pat_completeness auto
termination
  by (relation "measure (\<lambda>e. length (wait_queue e))") (auto simp: grant_def Let_def)

declare regrant_heads.simps [simp del]

section \<open>The manager\<close>

datatype lock_error = LockDeadlockVictim txn_id

record lock_manager =
  entries :: "(oid \<times> lock_entry) list"
  victims :: "txn_id set"

definition lock_manager_new :: lock_manager where
  "lock_manager_new = \<lparr> entries = [], victims = {} \<rparr>"

definition entry_of :: "lock_manager \<Rightarrow> oid \<Rightarrow> lock_entry" where
  "entry_of m table = (case map_of (entries m) table of None \<Rightarrow> empty_entry | Some e \<Rightarrow> e)"

definition is_idle :: "lock_entry \<Rightarrow> bool" where
  "is_idle e \<longleftrightarrow> granted e = [] \<and> wait_queue e = []"

text \<open>
  One iteration of the loop of \<open>acquire\<close>, from the lock to the sleep: \<open>None\<close> when the
  thread goes to sleep, to run the iteration again when it is woken.
\<close>

definition acquire_iteration ::
  "txn_id \<Rightarrow> oid \<Rightarrow> lock_mode \<Rightarrow> lock_manager \<Rightarrow> (lock_error + unit) option \<times> lock_manager" where
  "acquire_iteration xid table mode m =
    (if xid \<in> victims m then
       let m = m\<lparr> victims := victims m - {xid} \<rparr>
       in (Some (Err (LockDeadlockVictim xid)),
           case map_of (entries m) table of
             None \<Rightarrow> m
           | Some e \<Rightarrow>
               let e = regrant_heads (e\<lparr> wait_queue := filter (\<lambda>w. fst w \<noteq> xid) (wait_queue e) \<rparr>)
               in m\<lparr> entries := (if is_idle e then AList.delete table (entries m)
                                else AList.update table e (entries m)) \<rparr>)
     else
       let e = entry_of m table
       in if can_grant e xid mode
          then (Some (Ok ()), m\<lparr> entries := AList.update table (grant xid mode e) (entries m) \<rparr>)
          else (None, m\<lparr> entries := AList.update table (enqueue_if_absent xid mode e) (entries m) \<rparr>))"

definition try_acquire :: "txn_id \<Rightarrow> oid \<Rightarrow> lock_mode \<Rightarrow> lock_manager \<Rightarrow> bool \<times> lock_manager" where
  "try_acquire xid table mode m =
    (if (case map_of (entries m) table of None \<Rightarrow> True | Some e \<Rightarrow> can_grant e xid mode)
     then (True, m\<lparr> entries := AList.update table (grant xid mode (entry_of m table)) (entries m) \<rparr>)
     else (False, m))"

definition release_entry :: "txn_id \<Rightarrow> lock_entry \<Rightarrow> lock_entry" where
  "release_entry xid e =
    regrant_heads (e\<lparr> granted := AList.delete xid (granted e),
                      wait_queue := filter (\<lambda>w. fst w \<noteq> xid) (wait_queue e) \<rparr>)"

definition release_all :: "txn_id \<Rightarrow> lock_manager \<Rightarrow> lock_manager" where
  "release_all xid m =
    m\<lparr> entries := filter (\<lambda>(_, e). \<not> is_idle e) (map (\<lambda>(t, e). (t, release_entry xid e)) (entries m)) \<rparr>"

definition is_granted :: "lock_manager \<Rightarrow> txn_id \<Rightarrow> oid \<Rightarrow> lock_mode \<Rightarrow> bool" where
  "is_granted m xid table mode \<longleftrightarrow>
    (case map_of (entries m) table of None \<Rightarrow> False | Some e \<Rightarrow> holds_mode e xid mode)"

definition held_by :: "lock_manager \<Rightarrow> txn_id \<Rightarrow> (oid \<times> lock_mode) list" where
  "held_by m xid =
    sort_key fst (List.map_filter (\<lambda>(t, e). map_option (\<lambda>mode. (t, mode)) (map_of (granted e) xid)) (entries m))"

record table_state =
  state_granted :: "(txn_id \<times> lock_mode) list"
  state_waiters :: "(txn_id \<times> lock_mode) list"

definition lock_state_of :: "lock_entry \<Rightarrow> table_state" where
  "lock_state_of e = \<lparr> state_granted = sort_key fst (granted e), state_waiters = wait_queue e \<rparr>"

definition table_lock_state :: "lock_manager \<Rightarrow> oid \<Rightarrow> table_state option" where
  "table_lock_state m table = map_option lock_state_of (map_of (entries m) table)"

definition table_lock_states :: "lock_manager \<Rightarrow> (oid \<times> table_state) list" where
  "table_lock_states m =
    sort_key fst (map (\<lambda>(t, e). (t, lock_state_of e)) (filter (\<lambda>(_, e). wait_queue e \<noteq> []) (entries m)))"

section \<open>Facts about modes and grants\<close>

lemma conflicts_sym: "conflicts_with a b \<longleftrightarrow> conflicts_with b a"
  by (auto simp: conflicts_with_def)

text \<open>A stronger mode conflicts with at least what a weaker one does.\<close>

lemma conflicts_mono: "a \<le> a' \<Longrightarrow> conflicts_with a b \<Longrightarrow> conflicts_with a' b"
  by (cases a; cases a'; cases b) (simp_all add: conflicts_with_def less_eq_lock_mode_def)

lemma grant_queue:
  "wait_queue (grant xid mode e) =
    (case wait_queue e of [] \<Rightarrow> [] | head # rest \<Rightarrow> if fst head = xid then rest else head # rest)"
  by (simp add: grant_def Let_def)

lemma grant_granted:
  "map_of (granted (grant xid mode e)) =
    (map_of (granted e))(xid \<mapsto> (case map_of (granted e) xid of None \<Rightarrow> mode | Some m \<Rightarrow> max m mode))"
  by (auto simp: grant_def Let_def update_conv' max_def split: option.splits)

text \<open>
  The invariant of a table: one mode per transaction, pairwise compatible; one request
  per transaction in the queue, not already satisfied.
\<close>

definition grants_ok :: "lock_entry \<Rightarrow> bool" where
  "grants_ok e \<longleftrightarrow> distinct (map fst (granted e)) \<and>
    (\<forall>x m y n. map_of (granted e) x = Some m \<longrightarrow> map_of (granted e) y = Some n \<longrightarrow> x \<noteq> y \<longrightarrow>
       \<not> conflicts_with m n)"

definition queue_ok :: "lock_entry \<Rightarrow> bool" where
  "queue_ok e \<longleftrightarrow> distinct (map fst (wait_queue e)) \<and>
    (\<forall>x m. (x, m) \<in> set (wait_queue e) \<longrightarrow> \<not> holds_mode e x m)"

text \<open>Nothing is left to grant: the head of the queue is blocked.\<close>

definition head_blocked :: "lock_entry \<Rightarrow> bool" where
  "head_blocked e \<longleftrightarrow>
    (case wait_queue e of [] \<Rightarrow> True | (xid, mode) # _ \<Rightarrow> \<not> can_grant e xid mode)"

definition entry_inv :: "lock_entry \<Rightarrow> bool" where
  "entry_inv e \<longleftrightarrow> grants_ok e \<and> queue_ok e \<and> head_blocked e"

lemma entry_inv_empty [simp]: "entry_inv empty_entry"
  by (simp add: entry_inv_def grants_ok_def queue_ok_def head_blocked_def empty_entry_def)

lemma can_grant_compatible:
  assumes "can_grant e xid mode" "\<not> holds_mode e xid mode" "map_of (granted e) y = Some n" "y \<noteq> xid"
  shows "\<not> conflicts_with n mode"
  using assms by (auto simp: can_grant_def list_all_iff dest: map_of_SomeD split: if_splits)

lemma holds_mode_grant:
  "holds_mode (grant xid mode e) x m \<longleftrightarrow> holds_mode e x m \<or> x = xid \<and> mode \<ge> m"
  by (auto simp: holds_mode_def grant_granted le_max_iff_disj split: option.splits)

lemma holds_mode_queue [simp]: "holds_mode (e\<lparr> wait_queue := q \<rparr>) = holds_mode e"
  by (simp add: holds_mode_def fun_eq_iff)

lemma grant_held:
  assumes "map_of (granted (grant xid mode e)) y = Some n" "y \<noteq> xid"
  shows "map_of (granted e) y = Some n"
  using assms by (simp add: grant_granted)

lemma grant_own:
  assumes "can_grant e xid mode" "grants_ok e" "map_of (granted (grant xid mode e)) xid = Some n"
    "map_of (granted e) y = Some k" "y \<noteq> xid"
  shows "\<not> conflicts_with k n"
proof (cases "holds_mode e xid mode")
  case True
  then have "map_of (granted e) xid = Some n"
    using assms(3) by (auto simp: grant_granted holds_mode_def max_def split: option.splits)
  then show ?thesis
    using assms(2,4,5) unfolding grants_ok_def by blast
next
  case False
  then have "n = mode"
    using assms(3) by (auto simp: grant_granted holds_mode_def max_def split: option.splits)
  then show ?thesis
    using can_grant_compatible [OF assms(1) False assms(4,5)] by simp
qed

lemma grant_grants_ok:
  assumes "can_grant e xid mode" "grants_ok e"
  shows "grants_ok (grant xid mode e)"
  unfolding grants_ok_def
proof (intro conjI allI impI)
  show "distinct (map fst (granted (grant xid mode e)))"
    using assms(2) by (simp add: grants_ok_def grant_def Let_def distinct_update)
  fix x m y n
  assume h: "map_of (granted (grant xid mode e)) x = Some m" "map_of (granted (grant xid mode e)) y = Some n" "x \<noteq> y"
  consider "x = xid" "y \<noteq> xid" | "y = xid" "x \<noteq> xid" | "x \<noteq> xid" "y \<noteq> xid"
    using h(3) by blast
  then show "\<not> conflicts_with m n"
  proof cases
    case 1
    then show ?thesis
      using grant_own [OF assms, of m y n] h grant_held conflicts_sym by blast
  next
    case 2
    then show ?thesis
      using grant_own [OF assms, of n x m] h grant_held by blast
  next
    case 3
    then show ?thesis
      using assms(2) h grant_held unfolding grants_ok_def by metis
  qed
qed

lemma grant_head_queue_ok:
  assumes "queue_ok e" "wait_queue e = (xid, mode) # rest"
  shows "wait_queue (grant xid mode e) = rest" "queue_ok (grant xid mode e)"
proof -
  show q: "wait_queue (grant xid mode e) = rest"
    using assms(2) by (simp add: grant_queue)
  show "queue_ok (grant xid mode e)"
    using assms unfolding queue_ok_def q holds_mode_grant by (auto simp: image_iff)
qed

lemma regrant_spec:
  assumes "grants_ok e" "queue_ok e"
  shows "entry_inv (regrant_heads e) \<and> suffix (wait_queue (regrant_heads e)) (wait_queue e) \<and>
    (\<forall>x m. holds_mode e x m \<longrightarrow> holds_mode (regrant_heads e) x m) \<and>
    (\<forall>x m. (x, m) \<in> set (wait_queue e) \<longrightarrow> (x, m) \<in> set (wait_queue (regrant_heads e)) \<or> holds_mode (regrant_heads e) x m) \<and>
    (\<forall>x. x \<notin> fst ` set (wait_queue e) \<longrightarrow> map_of (granted (regrant_heads e)) x = map_of (granted e) x)"
  using assms
proof (induction e rule: regrant_heads.induct)
  case (1 e)
  show ?case
  proof (cases "wait_queue e")
    case Nil
    then have "regrant_heads e = e"
      by (subst regrant_heads.simps) simp
    then show ?thesis
      using "1.prems" Nil by (simp add: entry_inv_def head_blocked_def)
  next
    case (Cons w rest)
    obtain xid mode where w: "w = (xid, mode)"
      by (cases w)
    show ?thesis
    proof (cases "can_grant e xid mode")
      case False
      then have "regrant_heads e = e"
        using Cons w by (subst regrant_heads.simps) simp
      then show ?thesis
        using "1.prems" Cons w False by (simp add: entry_inv_def head_blocked_def)
    next
      case True
      let ?g = "grant xid mode e"
      have r: "regrant_heads e = regrant_heads ?g"
        using Cons w True by (subst regrant_heads.simps) simp
      have g: "grants_ok ?g" "queue_ok ?g" "wait_queue ?g = rest"
        using grant_grants_ok [OF True "1.prems"(1)] grant_head_queue_ok [OF "1.prems"(2)] Cons w by simp_all
      note IH = "1.IH" [OF Cons w [symmetric] True g(1,2)]
      have h: "holds_mode ?g x m" if "holds_mode e x m" for x m
        using that by (simp add: holds_mode_grant)
      have h2: "holds_mode (regrant_heads ?g) xid mode"
        using IH by (auto simp: holds_mode_grant)
      have "suffix (wait_queue (regrant_heads ?g)) (wait_queue e)"
        using IH g(3) Cons by (auto intro: suffix_ConsI)
      moreover have "map_of (granted (regrant_heads ?g)) x = map_of (granted e) x" if "x \<notin> fst ` set (wait_queue e)" for x
        using IH that Cons w g(3) by (auto simp: grant_granted)
      ultimately show ?thesis
        unfolding r using IH h h2 g(3) Cons w by auto
    qed
  qed
qed

lemma drop_waiter_ok:
  assumes "grants_ok e" "queue_ok e"
  shows "grants_ok (e\<lparr> wait_queue := filter P (wait_queue e) \<rparr>)"
    "queue_ok (e\<lparr> wait_queue := filter P (wait_queue e) \<rparr>)"
  using assms by (auto simp: grants_ok_def queue_ok_def holds_mode_def distinct_map_filter)

lemma release_ok:
  assumes "grants_ok e" "queue_ok e"
  shows "grants_ok (e\<lparr> granted := AList.delete xid (granted e), wait_queue := filter (\<lambda>w. fst w \<noteq> xid) (wait_queue e) \<rparr>)"
    "queue_ok (e\<lparr> granted := AList.delete xid (granted e), wait_queue := filter (\<lambda>w. fst w \<noteq> xid) (wait_queue e) \<rparr>)"
  using assms
  by (auto simp: grants_ok_def queue_ok_def holds_mode_def distinct_map_filter distinct_delete delete_conv'
      split: if_splits)

text \<open>
  A request is taken up either by a grant, which then comes from outside the queue, or by
  a place in the queue.
\<close>

lemma can_grant_not_queued:
  assumes "entry_inv e" "can_grant e xid mode" "\<And>m. (xid, m) \<in> set (wait_queue e) \<Longrightarrow> m = mode"
  shows "xid \<notin> fst ` set (wait_queue e)"
proof
  assume "xid \<in> fst ` set (wait_queue e)"
  then have q: "(xid, mode) \<in> set (wait_queue e)"
    using assms(3) by auto
  then have nh: "\<not> holds_mode e xid mode"
    using assms(1) by (auto simp: entry_inv_def queue_ok_def)
  then obtain m rest where "wait_queue e = (xid, m) # rest"
    using assms(2) q by (cases "wait_queue e") (auto simp: can_grant_def split: if_splits)
  then show False
    using assms by (auto simp: entry_inv_def head_blocked_def)
qed

lemma grant_new_inv:
  assumes "entry_inv e" "can_grant e xid mode" "xid \<notin> fst ` set (wait_queue e)"
  shows "entry_inv (grant xid mode e)" "wait_queue (grant xid mode e) = wait_queue e"
proof -
  show q: "wait_queue (grant xid mode e) = wait_queue e"
    using assms(3) by (auto simp: grant_queue split: list.splits)
  have "grants_ok (grant xid mode e)"
    using grant_grants_ok assms by (simp add: entry_inv_def)
  moreover have "queue_ok (grant xid mode e)"
    using assms(1,3) unfolding entry_inv_def queue_ok_def q holds_mode_grant by (auto simp: image_iff)
  moreover have "head_blocked (grant xid mode e)"
  proof (cases "wait_queue e")
    case Nil
    then show ?thesis
      by (simp add: head_blocked_def q)
  next
    case (Cons w rest)
    obtain x m where w: "w = (x, m)"
      by (cases w)
    have x: "x \<noteq> xid" "\<not> holds_mode e x m"
      using assms(1,3) Cons w by (auto simp: entry_inv_def queue_ok_def)
    then obtain y n where y: "(y, n) \<in> set (granted e)" "y \<noteq> x" "conflicts_with n m"
      using assms(1) Cons w by (auto simp: entry_inv_def head_blocked_def can_grant_def list_all_iff)
    have "map_of (granted e) y = Some n"
      using y(1) assms(1) by (simp add: entry_inv_def grants_ok_def)
    then obtain n' where n': "map_of (granted (grant xid mode e)) y = Some n'" "n \<le> n'"
      by (cases "y = xid") (auto simp: grant_granted)
    then have "(y, n') \<in> set (granted (grant xid mode e))" "conflicts_with n' m"
      using conflicts_mono [OF n'(2) y(3)] by (auto dest: map_of_SomeD)
    then show ?thesis
      using x y(2) Cons w by (auto simp: head_blocked_def can_grant_def q holds_mode_grant list_all_iff)
  qed
  ultimately show "entry_inv (grant xid mode e)"
    by (simp add: entry_inv_def)
qed

lemma enqueue_inv:
  assumes "entry_inv e" "\<not> can_grant e xid mode"
  shows "entry_inv (enqueue_if_absent xid mode e)"
proof (cases "xid \<in> fst ` set (wait_queue e)")
  case True
  then have "enqueue_if_absent xid mode e = e"
    by (auto simp: enqueue_if_absent_def list_ex_iff)
  then show ?thesis
    using assms(1) by simp
next
  case False
  then have q: "enqueue_if_absent xid mode e = e\<lparr> wait_queue := wait_queue e @ [(xid, mode)] \<rparr>"
    by (force simp: enqueue_if_absent_def list_ex_iff)
  have h: "holds_mode (enqueue_if_absent xid mode e) = holds_mode e"
    by (simp add: q holds_mode_def fun_eq_iff)
  have "\<not> holds_mode e xid mode"
    using assms(2) by (auto simp: can_grant_def split: if_splits)
  then have "queue_ok (enqueue_if_absent xid mode e)"
    using assms(1) False unfolding entry_inv_def queue_ok_def h by (auto simp: q image_iff)
  moreover have "head_blocked (enqueue_if_absent xid mode e)"
    using assms by (cases "wait_queue e")
      (auto simp: entry_inv_def head_blocked_def can_grant_def h q split: if_splits)
  ultimately show ?thesis
    using assms(1) by (simp add: entry_inv_def grants_ok_def q)
qed

section \<open>The manager's invariant\<close>

definition lm_inv :: "lock_manager \<Rightarrow> bool" where
  "lm_inv m \<longleftrightarrow> distinct (map fst (entries m)) \<and>
    (\<forall>t e. map_of (entries m) t = Some e \<longrightarrow> entry_inv e \<and> \<not> is_idle e)"

lemma lm_inv_entry: "lm_inv m \<Longrightarrow> entry_inv (entry_of m t)"
  by (auto simp: lm_inv_def entry_of_def split: option.split)

lemma lm_inv_update:
  assumes "lm_inv m" "entry_inv e" "\<not> is_idle e"
  shows "lm_inv (m\<lparr> entries := AList.update t e (entries m) \<rparr>)"
  using assms by (auto simp: lm_inv_def update_conv' distinct_update)

lemma lm_inv_delete: "lm_inv m \<Longrightarrow> lm_inv (m\<lparr> entries := AList.delete t (entries m) \<rparr>)"
  by (auto simp: lm_inv_def delete_conv' distinct_delete split: if_splits)

lemma lm_inv_victims [simp]: "lm_inv (m\<lparr> victims := v \<rparr>) = lm_inv m"
  by (simp add: lm_inv_def)

lemma entry_of_update [simp]:
  "entry_of (m\<lparr> entries := AList.update t e (entries m) \<rparr>) t' = (if t' = t then e else entry_of m t')"
  "entry_of (m\<lparr> entries := AList.delete t (entries m) \<rparr>) t' = (if t' = t then empty_entry else entry_of m t')"
  by (simp_all add: entry_of_def update_conv' delete_conv')

lemma entry_of_victims [simp]: "entry_of (m\<lparr> victims := v \<rparr>) = entry_of m"
  by (simp add: entry_of_def fun_eq_iff)

lemma grant_not_idle: "\<not> is_idle (grant xid mode e)"
proof -
  have "xid \<in> dom (map_of (granted (grant xid mode e)))"
    by (simp add: grant_granted)
  then show ?thesis
    by (auto simp: is_idle_def)
qed

lemma enqueue_not_idle: "\<not> is_idle (enqueue_if_absent xid mode e)"
  by (auto simp: is_idle_def enqueue_if_absent_def)

lemma idle_entry: "is_idle e \<Longrightarrow> e = empty_entry"
  by (simp add: is_idle_def empty_entry_def)

text \<open>What the methods do to each table.\<close>

definition drop_waiter :: "txn_id \<Rightarrow> lock_entry \<Rightarrow> lock_entry" where
  "drop_waiter xid e = regrant_heads (e\<lparr> wait_queue := filter (\<lambda>w. fst w \<noteq> xid) (wait_queue e) \<rparr>)"

lemma drop_waiter_empty: "drop_waiter xid empty_entry = empty_entry"
  by (simp add: drop_waiter_def empty_entry_def regrant_heads.simps)

lemma acquire_entry:
  "entry_of (snd (acquire_iteration xid t mode m)) t' =
    (if t' \<noteq> t then entry_of m t'
     else if xid \<in> victims m then drop_waiter xid (entry_of m t)
     else if can_grant (entry_of m t) xid mode then grant xid mode (entry_of m t)
     else enqueue_if_absent xid mode (entry_of m t))"
proof (cases "xid \<in> victims m")
  case True
  show ?thesis
  proof (cases "map_of (entries m) t")
    case None
    then show ?thesis
      using True by (simp add: acquire_iteration_def entry_of_def drop_waiter_empty)
  next
    case (Some e)
    let ?m = "m\<lparr> victims := victims m - {xid} \<rparr>"
    have e: "entry_of m t = e" "entry_of ?m t'' = entry_of m t''" for t''
      using Some by (simp_all add: entry_of_def)
    have "snd (acquire_iteration xid t mode m) =
        ?m\<lparr> entries := (if is_idle (drop_waiter xid e) then AList.delete t (entries ?m)
              else AList.update t (drop_waiter xid e) (entries ?m)) \<rparr>"
      using True Some by (simp add: acquire_iteration_def drop_waiter_def Let_def)
    then show ?thesis
      using True e idle_entry [of "drop_waiter xid e"] entry_of_update [where m = ?m]
      by (cases "is_idle (drop_waiter xid e)") simp_all
  qed
next
  case False
  then show ?thesis
    by (simp add: acquire_iteration_def Let_def)
qed

lemma drop_waiter_inv: "entry_inv e \<Longrightarrow> entry_inv (drop_waiter xid e)"
  unfolding drop_waiter_def using regrant_spec drop_waiter_ok by (simp add: entry_inv_def)

lemma acquire_lm_inv:
  assumes "lm_inv m" "\<And>k. (xid, k) \<in> set (wait_queue (entry_of m t)) \<Longrightarrow> k = mode"
  shows "lm_inv (snd (acquire_iteration xid t mode m))"
proof (cases "xid \<in> victims m")
  case True
  show ?thesis
  proof (cases "map_of (entries m) t")
    case (Some e)
    then have "entry_inv (drop_waiter xid e)"
      using assms(1) drop_waiter_inv by (auto simp: lm_inv_def)
    then show ?thesis
      using True Some assms(1) lm_inv_update [of "m\<lparr> victims := victims m - {xid} \<rparr>"]
        lm_inv_delete [of "m\<lparr> victims := victims m - {xid} \<rparr>"]
      by (simp add: acquire_iteration_def drop_waiter_def [symmetric] Let_def)
  qed (use True assms(1) in \<open>simp add: acquire_iteration_def\<close>)
next
  case False
  have e: "entry_inv (entry_of m t)"
    by (rule lm_inv_entry [OF assms(1)])
  show ?thesis
  proof (cases "can_grant (entry_of m t) xid mode")
    case True
    then have "entry_inv (grant xid mode (entry_of m t))"
      using grant_new_inv(1) [OF e] can_grant_not_queued [OF e] assms(2) by blast
    then show ?thesis
      using False True lm_inv_update [OF assms(1)] grant_not_idle by (simp add: acquire_iteration_def Let_def)
  next
    case blocked: False
    then show ?thesis
      using False lm_inv_update [OF assms(1)] enqueue_inv [OF e] enqueue_not_idle
      by (simp add: acquire_iteration_def Let_def)
  qed
qed

lemma acquire_victims: "victims (snd (acquire_iteration xid t mode m)) = victims m - {xid}"
  by (auto simp: acquire_iteration_def Let_def split: option.split)

lemma release_entry_inv:
  assumes "entry_inv e"
  shows "entry_inv (release_entry xid e)"
  unfolding release_entry_def using regrant_spec release_ok assms by (simp add: entry_inv_def)

lemma map_of_filter_idle:
  assumes "distinct (map fst xs)"
  shows "map_of (filter (\<lambda>(_, e). P e) (map (\<lambda>(t, e). (t, f e)) xs)) t =
    (case map_of xs t of None \<Rightarrow> None | Some e \<Rightarrow> if P (f e) then Some (f e) else None)"
  using assms
proof (induction xs)
  case (Cons x xs)
  obtain k e where x: "x = (k, e)"
    by (cases x)
  have "map_of xs k = None"
    using Cons.prems x by (auto simp: map_of_eq_None_iff)
  then show ?case
    using Cons x by (cases "t = k") simp_all
qed simp

lemma release_all_lookup:
  assumes "lm_inv m"
  shows "map_of (entries (release_all xid m)) t =
    (case map_of (entries m) t of
       None \<Rightarrow> None
     | Some e \<Rightarrow> if is_idle (release_entry xid e) then None else Some (release_entry xid e))"
  using assms map_of_filter_idle [of "entries m" "\<lambda>e. \<not> is_idle e" "release_entry xid" t]
  by (auto simp: release_all_def lm_inv_def split: option.splits)

lemma release_all_entry:
  assumes "lm_inv m"
  shows "entry_of (release_all xid m) t = release_entry xid (entry_of m t)"
proof -
  have "release_entry xid empty_entry = empty_entry"
    by (simp add: release_entry_def empty_entry_def regrant_heads.simps)
  then show ?thesis
    unfolding entry_of_def release_all_lookup [OF assms] by (auto dest: idle_entry split: option.splits)
qed

lemma release_all_lm_inv:
  assumes "lm_inv m"
  shows "lm_inv (release_all xid m)"
proof -
  have "distinct (map fst (entries (release_all xid m)))"
  proof -
    have "map fst (map (\<lambda>(t, e). (t, release_entry xid e)) (entries m)) = map fst (entries m)"
      by auto
    then show ?thesis
      using assms by (simp add: release_all_def lm_inv_def distinct_map_filter del: map_map)
  qed
  then show ?thesis
    using assms release_entry_inv unfolding lm_inv_def release_all_lookup [OF assms]
    by (auto split: option.splits if_splits)
qed

section \<open>Many transactions\<close>

text \<open>
  Each step is one holding of the entries mutex.  A thread that does not get its lock is
  \<open>LockAsleep\<close> on the condition variable until a broadcast (or a spurious wake-up) makes it
  \<open>LockWoken\<close>, when it will run the loop of \<open>acquire\<close> again.  The deadlock detector marks a
  victim and broadcasts afterwards; \<open>marking\<close> says that the broadcast is still to come.
\<close>

datatype lock_phase = LockFree | LockAsleep oid lock_mode | LockWoken oid lock_mode

record lock_machine =
  lm :: lock_manager
  lphase :: "txn_id \<Rightarrow> lock_phase"
  lmarking :: bool

definition lock_init :: lock_machine where
  "lock_init = \<lparr> lm = lock_manager_new, lphase = (\<lambda>_. LockFree), lmarking = False \<rparr>"

fun awaken :: "lock_phase \<Rightarrow> lock_phase" where
  "awaken (LockAsleep t mode) = LockWoken t mode"
| "awaken p = p"

text \<open>The iteration of \<open>acquire\<close> in the machine; the victim path broadcasts.\<close>

definition run_iteration :: "txn_id \<Rightarrow> oid \<Rightarrow> lock_mode \<Rightarrow> lock_machine \<Rightarrow> lock_machine" where
  "run_iteration x t mode s =
    (case acquire_iteration x t mode (lm s) of
       (None, m) \<Rightarrow> s\<lparr> lm := m, lphase := (lphase s)(x := LockAsleep t mode) \<rparr>
     | (Some (Inr _), m) \<Rightarrow> s\<lparr> lm := m, lphase := (lphase s)(x := LockFree) \<rparr>
     | (Some (Inl _), m) \<Rightarrow> s\<lparr> lm := m, lphase := (awaken \<circ> lphase s)(x := LockFree) \<rparr>)"

inductive lock_step :: "lock_machine \<Rightarrow> lock_machine \<Rightarrow> bool" where
  acquire: "lphase s x = LockFree \<Longrightarrow> lock_step s (run_iteration x t mode s)"
| retry: "lphase s x = LockWoken t mode \<Longrightarrow> lock_step s (run_iteration x t mode s)"
| try_acquire: "lphase s x = LockFree \<Longrightarrow> lock_step s (s\<lparr> lm := snd (try_acquire x t mode (lm s)) \<rparr>)"
| release: "lphase s x = LockFree \<Longrightarrow>
    lock_step s (s\<lparr> lm := release_all x (lm s), lphase := awaken \<circ> lphase s \<rparr>)"
| spurious: "lphase s x = LockAsleep t mode \<Longrightarrow> lock_step s (s\<lparr> lphase := (lphase s)(x := LockWoken t mode) \<rparr>)"
| mark: "lock_step s (s\<lparr> lm := (lm s)\<lparr> victims := insert x (victims (lm s)) \<rparr>, lmarking := True \<rparr>)"
| notify: "lock_step s (s\<lparr> lphase := awaken \<circ> lphase s, lmarking := False \<rparr>)"
| clear: "lock_step s (s\<lparr> lm := (lm s)\<lparr> victims := victims (lm s) - {x} \<rparr> \<rparr>)"

inductive lock_reachable :: "lock_machine \<Rightarrow> bool" where
  init: "lock_reachable lock_init"
| step: "lock_reachable s \<Longrightarrow> lock_step s s' \<Longrightarrow> lock_reachable s'"

text \<open>
  The invariant: only waiting threads are in a queue, with the request they wait for; a
  sleeping thread is in its queue, and is a victim only while the broadcast is to come.
\<close>

definition waits_for :: "lock_phase \<Rightarrow> oid \<Rightarrow> lock_mode \<Rightarrow> bool" where
  "waits_for p t mode \<longleftrightarrow> p = LockAsleep t mode \<or> p = LockWoken t mode"

definition lock_inv :: "lock_machine \<Rightarrow> bool" where
  "lock_inv s \<longleftrightarrow> lm_inv (lm s) \<and>
    (\<forall>x t mode. (x, mode) \<in> set (wait_queue (entry_of (lm s) t)) \<longrightarrow> waits_for (lphase s x) t mode) \<and>
    (\<forall>x t mode. lphase s x = LockAsleep t mode \<longrightarrow>
       (x, mode) \<in> set (wait_queue (entry_of (lm s) t)) \<and> (x \<in> victims (lm s) \<longrightarrow> lmarking s))"

lemma waits_for_simps [simp]:
  "\<not> waits_for LockFree t mode" "waits_for (LockAsleep t mode) t' mode' \<longleftrightarrow> t = t' \<and> mode = mode'"
  "waits_for (LockWoken t mode) t' mode' \<longleftrightarrow> t = t' \<and> mode = mode'"
  "waits_for (awaken p) t mode \<longleftrightarrow> waits_for p t mode" "awaken p \<noteq> LockAsleep t mode"
  by (auto simp: waits_for_def; cases p; simp)+

lemma regrant_queue:
  assumes "grants_ok e" "queue_ok e"
  shows "set (wait_queue (regrant_heads e)) \<subseteq> set (wait_queue e)"
  using regrant_spec [OF assms] set_mono_suffix by blast

lemma drop_waiter_queue:
  assumes "entry_inv e"
  shows "set (wait_queue (drop_waiter xid e)) \<subseteq> {w \<in> set (wait_queue e). fst w \<noteq> xid}"
  using regrant_queue [OF drop_waiter_ok, of e] assms unfolding drop_waiter_def entry_inv_def by auto

lemma release_entry_queue:
  assumes "entry_inv e"
  shows "set (wait_queue (release_entry xid e)) \<subseteq> {w \<in> set (wait_queue e). fst w \<noteq> xid}"
  using regrant_queue [OF release_ok, of e xid] assms unfolding release_entry_def entry_inv_def by auto

lemma enqueue_queue:
  "set (wait_queue (enqueue_if_absent xid mode e)) =
    (if xid \<in> fst ` set (wait_queue e) then set (wait_queue e) else insert (xid, mode) (set (wait_queue e)))"
  by (auto simp: enqueue_if_absent_def list_ex_iff image_iff)

lemma lock_invD:
  assumes "lock_inv s"
  shows "lm_inv (lm s)"
    "(x, mode) \<in> set (wait_queue (entry_of (lm s) t)) \<Longrightarrow> waits_for (lphase s x) t mode"
    "lphase s x = LockAsleep t mode \<Longrightarrow> (x, mode) \<in> set (wait_queue (entry_of (lm s) t))"
    "lphase s x = LockAsleep t mode \<Longrightarrow> x \<in> victims (lm s) \<Longrightarrow> lmarking s"
  using assms by (auto simp: lock_inv_def)

lemma run_iteration_inv:
  assumes "lock_inv s" "\<And>t' k. waits_for (lphase s x) t' k \<Longrightarrow> t' = t \<and> k = mode" "\<And>t k. lphase s x \<noteq> LockAsleep t k"
  shows "lock_inv (run_iteration x t mode s)"
proof -
  let ?e = "entry_of (lm s) t"
  let ?m = "snd (acquire_iteration x t mode (lm s))"
  have own: "k = mode" if "(x, k) \<in> set (wait_queue ?e)" for k
    using lock_invD(2) [OF assms(1) that] assms(2) by blast
  have other: "(x, k) \<notin> set (wait_queue (entry_of (lm s) t'))" if "t' \<noteq> t" for t' k
    using lock_invD(2) [OF assms(1), of x k t'] assms(2) that by blast
  have e: "entry_inv ?e"
    by (rule lm_inv_entry [OF lock_invD(1) [OF assms(1)]])
  have m: "lm_inv ?m"
    by (rule acquire_lm_inv [OF lock_invD(1) [OF assms(1)] own])
  show ?thesis
  proof (cases "x \<in> victims (lm s)")
    case True
    have r: "run_iteration x t mode s = s\<lparr> lm := ?m, lphase := (awaken \<circ> lphase s)(x := LockFree) \<rparr>"
      using True by (simp add: run_iteration_def acquire_iteration_def Let_def split: option.split)
    have "waits_for (lphase s y) t' k \<and> y \<noteq> x" if "(y, k) \<in> set (wait_queue (entry_of ?m t'))" for y k t'
      using that True drop_waiter_queue [OF e, of x] lock_invD(2) [OF assms(1), of y k t'] other
      by (auto simp: acquire_entry split: if_splits)
    then show ?thesis
      unfolding r lock_inv_def using m by auto
  next
    case nv: False
    show ?thesis
    proof (cases "can_grant ?e x mode")
      case True
      have nq: "x \<notin> fst ` set (wait_queue ?e)"
        using can_grant_not_queued [OF e True] own by blast
      have r: "run_iteration x t mode s = s\<lparr> lm := ?m, lphase := (lphase s)(x := LockFree) \<rparr>"
        using True nv by (simp add: run_iteration_def acquire_iteration_def Let_def)
      have q: "wait_queue (entry_of ?m t') = wait_queue (entry_of (lm s) t')" for t'
        using True nv grant_new_inv(2) [OF e True nq] by (simp add: acquire_entry)
      have "(x, k) \<notin> set (wait_queue (entry_of (lm s) t'))" for k t'
        using nq other by (cases "t' = t") (auto simp: image_iff)
      then show ?thesis
        unfolding r lock_inv_def using m lock_invD(2,3,4) [OF assms(1)] assms(3)
        by (auto simp: q acquire_victims)
    next
      case False
      have r: "run_iteration x t mode s = s\<lparr> lm := ?m, lphase := (lphase s)(x := LockAsleep t mode) \<rparr>"
        using False nv by (simp add: run_iteration_def acquire_iteration_def Let_def)
      have q: "wait_queue (entry_of ?m t') = (if t' = t then wait_queue (enqueue_if_absent x mode ?e)
          else wait_queue (entry_of (lm s) t'))" for t'
        using False nv by (simp add: acquire_entry)
      have x: "(x, mode) \<in> set (wait_queue (entry_of ?m t))"
        using own by (auto simp: q enqueue_queue)
      have sub: "set (wait_queue (entry_of (lm s) t')) \<subseteq> set (wait_queue (entry_of ?m t'))" for t'
        by (auto simp: q enqueue_queue)
      have old: "(y = x \<and> t' = t \<and> k = mode) \<or> (y \<noteq> x \<and> (y, k) \<in> set (wait_queue (entry_of (lm s) t')))"
        if "(y, k) \<in> set (wait_queue (entry_of ?m t'))" for y k t'
        using that own other by (auto simp: q enqueue_queue split: if_splits)
      show ?thesis
        unfolding lock_inv_def
      proof (intro conjI allI impI)
        show "lm_inv (lm (run_iteration x t mode s))"
          using m r by simp
        show "waits_for (lphase (run_iteration x t mode s) y) t' k"
          if "(y, k) \<in> set (wait_queue (entry_of (lm (run_iteration x t mode s)) t'))" for y t' k
          using old that lock_invD(2) [OF assms(1)] unfolding r by fastforce
        show "(y, k) \<in> set (wait_queue (entry_of (lm (run_iteration x t mode s)) t'))"
          if "lphase (run_iteration x t mode s) y = LockAsleep t' k" for y t' k
          using that x subsetD [OF sub] lock_invD(3) [OF assms(1)] unfolding r by (simp split: if_splits)
        show "lmarking (run_iteration x t mode s)"
          if "lphase (run_iteration x t mode s) y = LockAsleep t' k" "y \<in> victims (lm (run_iteration x t mode s))" for y t' k
          using that lock_invD(4) [OF assms(1)] nv unfolding r by (auto simp: acquire_victims split: if_splits)
      qed
    qed
  qed
qed

lemma try_acquire_inv:
  assumes "lock_inv s" "lphase s x = LockFree"
  shows "lock_inv (s\<lparr> lm := snd (try_acquire x t mode (lm s)) \<rparr>)"
proof (cases "can_grant (entry_of (lm s) t) x mode")
  case True
  let ?e = "entry_of (lm s) t"
  have e: "entry_inv ?e"
    by (rule lm_inv_entry [OF lock_invD(1) [OF assms(1)]])
  have nq: "x \<notin> fst ` set (wait_queue ?e)"
    using lock_invD(2) [OF assms(1)] assms(2) by fastforce
  have "(case map_of (entries (lm s)) t of None \<Rightarrow> True | Some e \<Rightarrow> can_grant e x mode)"
    using True by (auto simp: entry_of_def split: option.splits)
  then have m: "snd (try_acquire x t mode (lm s)) = (lm s)\<lparr> entries := AList.update t (grant x mode ?e) (entries (lm s)) \<rparr>"
    by (simp add: try_acquire_def)
  have "lm_inv (snd (try_acquire x t mode (lm s)))"
    unfolding m using lm_inv_update [OF lock_invD(1) [OF assms(1)] grant_new_inv(1) [OF e True nq] grant_not_idle] .
  moreover have "wait_queue (entry_of (snd (try_acquire x t mode (lm s))) t') = wait_queue (entry_of (lm s) t')" for t'
    using grant_new_inv(2) [OF e True nq] by (simp add: m)
  moreover have "victims (snd (try_acquire x t mode (lm s))) = victims (lm s)"
    by (simp add: m)
  ultimately show ?thesis
    using assms(1) by (simp add: lock_inv_def)
next
  case False
  then have "snd (try_acquire x t mode (lm s)) = lm s"
    by (auto simp: try_acquire_def entry_of_def can_grant_def empty_entry_def holds_mode_def split: option.splits)
  then show ?thesis
    using assms(1) by simp
qed

lemma step_lock_inv:
  assumes "lock_step s s'" "lock_inv s"
  shows "lock_inv s'"
  using assms
proof cases
  case (acquire x t mode)
  then show ?thesis
    using run_iteration_inv [OF assms(2), of x t mode] by simp
next
  case (retry x t mode)
  then show ?thesis
    using run_iteration_inv [OF assms(2), of x t mode] by simp
next
  case (try_acquire x t mode)
  then show ?thesis
    using try_acquire_inv [OF assms(2)] by simp
next
  case (release x)
  have i: "lm_inv (lm s)"
    by (rule lock_invD(1) [OF assms(2)])
  have "waits_for (lphase s y) t k" if "(y, k) \<in> set (wait_queue (entry_of (release_all x (lm s)) t))" for y t k
    using that release_entry_queue [OF lm_inv_entry [OF i], of x t] lock_invD(2) [OF assms(2)]
    by (auto simp: release_all_entry [OF i])
  then show ?thesis
    unfolding release(1) lock_inv_def using release_all_lm_inv [OF i] by simp
next
  case (spurious x t mode)
  have "waits_for (((lphase s)(x := LockWoken t mode)) y) t' k"
    if "(y, k) \<in> set (wait_queue (entry_of (lm s) t'))" for y t' k
    using lock_invD(2) [OF assms(2) that] spurious(2) by (auto simp: fun_upd_def)
  then show ?thesis
    unfolding spurious(1) using assms(2) by (auto simp: lock_inv_def)
qed (use assms(2) in \<open>auto simp: lock_inv_def\<close>)

lemma reachable_lock_inv: "lock_reachable s \<Longrightarrow> lock_inv s"
proof (induction rule: lock_reachable.induct)
  case init
  then show ?case
    by (simp add: lock_inv_def lock_init_def lock_manager_new_def lm_inv_def entry_of_def empty_entry_def)
qed (rule step_lock_inv)

section \<open>Properties\<close>


text \<open>
  C30: No grant is lost and no sleeper is forgotten.  In every reachable state a transaction
  asleep in \<open>acquire\<close> cannot be granted what it waits for: it has not got it, and either
  another request is queued ahead of it or some other transaction holds a conflicting
  mode.  If the deadlock detector has marked it, the detector's broadcast is still to come.
\<close>

theorem sleeping_waiter_is_blocked:
  assumes "lock_reachable s" "lphase s x = LockAsleep t mode"
  shows "\<not> is_granted (lm s) x t mode \<and> (x \<in> victims (lm s) \<longrightarrow> lmarking s) \<and>
    (\<exists>before after. wait_queue (entry_of (lm s) t) = before @ (x, mode) # after \<and>
      (before \<noteq> [] \<or> (\<exists>y n. y \<noteq> x \<and> is_granted (lm s) y t n \<and> conflicts_with n mode)))"
proof -
  have i: "lock_inv s"
    by (rule reachable_lock_inv [OF assms(1)])
  let ?e = "entry_of (lm s) t"
  have e: "entry_inv ?e"
    using lm_inv_entry lock_invD(1) [OF i] by blast
  have q: "(x, mode) \<in> set (wait_queue ?e)"
    by (rule lock_invD(3) [OF i assms(2)])
  then obtain before after where ba: "wait_queue ?e = before @ (x, mode) # after"
    by (meson split_list)
  have nh: "\<not> holds_mode ?e x mode"
    using e q by (auto simp: entry_inv_def queue_ok_def)
  have g: "is_granted (lm s) y t n" if "(y, n) \<in> set (granted ?e)" for y n
    using that e by (auto simp: is_granted_def holds_mode_def entry_of_def entry_inv_def grants_ok_def empty_entry_def
        split: option.splits)
  have "before \<noteq> [] \<or> (\<exists>y n. y \<noteq> x \<and> is_granted (lm s) y t n \<and> conflicts_with n mode)"
  proof (cases before)
    case Nil
    then have "\<not> can_grant ?e x mode"
      using e ba by (simp add: entry_inv_def head_blocked_def)
    then obtain y n where "(y, n) \<in> set (granted ?e)" "y \<noteq> x" "conflicts_with n mode"
      using nh ba Nil by (auto simp: can_grant_def list_all_iff)
    then show ?thesis
      using g by blast
  qed simp
  moreover have "\<not> is_granted (lm s) x t mode"
    using nh by (auto simp: is_granted_def entry_of_def split: option.splits)
  ultimately show ?thesis
    using ba lock_invD(4) [OF i assms(2)] by blast
qed

text \<open>
  C31: \<open>release_all\<close> ends the transaction's locking and passes its locks on in order.
  Afterwards the transaction holds and requests nothing, every other transaction holds
  what it held, the queue of each table is the old queue without the transaction minus a
  prefix, and everyone in that prefix has got the mode it asked for.
\<close>

theorem release_all_hands_over:
  assumes "lm_inv m"
  shows "lm_inv (release_all xid m) \<and> (\<forall>mode. \<not> is_granted (release_all xid m) xid t mode) \<and>
    (\<forall>y mode. y \<noteq> xid \<and> is_granted m y t mode \<longrightarrow> is_granted (release_all xid m) y t mode) \<and>
    (\<exists>served. filter (\<lambda>w. fst w \<noteq> xid) (wait_queue (entry_of m t)) = served @ wait_queue (entry_of (release_all xid m) t) \<and>
      (\<forall>(y, mode) \<in> set served. is_granted (release_all xid m) y t mode))"
proof -
  let ?e = "(entry_of m t)\<lparr> granted := AList.delete xid (granted (entry_of m t)),
    wait_queue := filter (\<lambda>w. fst w \<noteq> xid) (wait_queue (entry_of m t)) \<rparr>"
  have e: "entry_inv (entry_of m t)"
    by (rule lm_inv_entry [OF assms])
  have r: "entry_of (release_all xid m) t = regrant_heads ?e"
    using release_all_entry [OF assms] by (simp add: release_entry_def)
  have g: "is_granted m' y t mode \<longleftrightarrow> holds_mode (entry_of m' t) y mode" for m' y mode
    by (auto simp: is_granted_def entry_of_def holds_mode_def empty_entry_def split: option.splits)
  have ok: "grants_ok ?e" "queue_ok ?e"
    using release_ok e by (simp_all add: entry_inv_def)
  note s = regrant_spec [OF ok]
  obtain served where served: "wait_queue ?e = served @ wait_queue (regrant_heads ?e)"
    using s by (auto simp: suffix_def)
  have d: "distinct (map fst (wait_queue ?e))"
    using ok(2) by (simp add: queue_ok_def)
  have "holds_mode (regrant_heads ?e) y mode" if "(y, mode) \<in> set served" for y mode
  proof -
    have "(y, mode) \<notin> set (wait_queue (regrant_heads ?e))"
      using d that unfolding served by (force simp: image_iff)
    moreover have "(y, mode) \<in> set (wait_queue ?e)"
      unfolding served using that by simp
    ultimately show ?thesis
      using s by blast
  qed
  moreover have "\<not> holds_mode (regrant_heads ?e) xid mode" for mode
  proof -
    have "map_of (granted (regrant_heads ?e)) xid = map_of (granted ?e) xid"
      using s by auto
    then show ?thesis
      by (simp add: holds_mode_def delete_conv')
  qed
  moreover have "holds_mode (regrant_heads ?e) y mode" if "y \<noteq> xid" "holds_mode (entry_of m t) y mode" for y mode
  proof -
    have "holds_mode ?e y mode"
      using that by (simp add: holds_mode_def delete_conv')
    then show ?thesis
      using s by blast
  qed
  ultimately show ?thesis
    unfolding g r using served release_all_lm_inv [OF assms] by auto
qed

section \<open>Witnesses\<close>

text \<open>
  On table 9, transaction 1 holds \<open>RowExclusive\<close> and 4 holds \<open>AccessShare\<close>; 2 waits for
  \<open>Exclusive\<close>, then 3 for \<open>AccessShare\<close> behind it.
\<close>

definition demo_locks1 :: lock_machine where
  "demo_locks1 = run_iteration 4 9 AccessShare (run_iteration 1 9 RowExclusive lock_init)"

definition demo_locks :: lock_machine where
  "demo_locks = run_iteration 3 9 AccessShare (run_iteration 2 9 Exclusive demo_locks1)"

lemma demo_locks_reachable: "lock_reachable demo_locks"
proof -
  let ?s1 = "run_iteration 1 9 RowExclusive lock_init"
  let ?s2 = "run_iteration 2 9 Exclusive demo_locks1"
  have "lock_step lock_init ?s1"
    by (rule lock_step.acquire) (simp add: lock_init_def)
  moreover have "lock_step ?s1 demo_locks1"
    unfolding demo_locks1_def by (rule lock_step.acquire) code_simp
  moreover have "lock_step demo_locks1 ?s2"
    by (rule lock_step.acquire) code_simp
  moreover have "lock_step ?s2 demo_locks"
    unfolding demo_locks_def by (rule lock_step.acquire) code_simp
  ultimately show ?thesis
    using lock_reachable.init lock_reachable.step by blast
qed


theorem sleeping_waiter_is_blocked_witness:
  "lphase demo_locks 2 = LockAsleep 9 Exclusive \<and> \<not> is_granted (lm demo_locks) 2 9 Exclusive"
proof -
  have p: "lphase demo_locks 2 = LockAsleep 9 Exclusive"
    by code_simp
  show ?thesis
    using p sleeping_waiter_is_blocked [OF demo_locks_reachable p] by simp
qed

theorem release_all_hands_over_witness:
  "is_granted (lm demo_locks) 1 9 RowExclusive \<and> \<not> is_granted (release_all 1 (lm demo_locks)) 1 9 RowExclusive \<and>
   is_granted (release_all 1 (lm demo_locks)) 2 9 Exclusive"
proof -
  have "lm_inv (lm demo_locks)"
    by (rule lock_invD(1) [OF reachable_lock_inv [OF demo_locks_reachable]])
  moreover have "is_granted (lm demo_locks) 1 9 RowExclusive" "is_granted (release_all 1 (lm demo_locks)) 2 9 Exclusive"
    by code_simp+
  ultimately show ?thesis
    using release_all_hands_over [of "lm demo_locks" 1 9] by blast
qed

end
