(* ===== verification/Deadlock.thy ===== *)
theory Deadlock
  imports Txn_Manager Lock_Manager "HOL-Library.Product_Lexorder"
begin

text \<open>
  The deadlock detector (\<^verbatim>\<open>pg-txn/src/deadlock.rs\<close>): the wait-for edges collected from the
  row-wait registry and the table locks, the depth-first search for cycles, and the
  choice of victims.  A tick reads its two sources one after the other, twice; the four
  readings are arguments, since anything may happen in between.
\<close>

section \<open>Wait-for edges\<close>

type_synonym edge = "txn_id \<times> txn_id"

definition table_edges :: "table_state \<Rightarrow> edge list" where
  "table_edges st =
    concat (map (\<lambda>(waiter, waiter_mode).
      map (\<lambda>(holder, _). (waiter, holder))
        (filter (\<lambda>(holder, holder_mode). holder \<noteq> waiter \<and> conflicts_with holder_mode waiter_mode)
          (state_granted st))) (state_waiters st))"

definition wait_for_edges :: "'w txn_manager \<Rightarrow> lock_manager \<Rightarrow> edge list" where
  "wait_for_edges txn m =
    sort (remdups (wait_edges txn @ concat (map (\<lambda>(_, st). table_edges st) (table_lock_states m))))"

section \<open>The search for cycles\<close>

definition adjacency :: "edge list \<Rightarrow> txn_id \<Rightarrow> txn_id list" where
  "adjacency es n = sort (remdups (map snd (filter (\<lambda>e. fst e = n) es)))"

datatype colour = White | Gray | Black

text \<open>
  The explicit stack has a node and the cursor into its adjacency list per entry, the top
  first; \<open>path\<close> is the stack's nodes from the bottom up.
\<close>

record dfs_state =
  colour_of :: "txn_id \<Rightarrow> colour"
  stack :: "(txn_id \<times> nat) list"
  cycles :: "txn_id list list"

definition path_of :: "dfs_state \<Rightarrow> txn_id list" where
  "path_of s = rev (map fst (stack s))"

definition path_from :: "txn_id \<Rightarrow> txn_id list \<Rightarrow> txn_id list" where
  "path_from n path = drop (length (takeWhile (\<lambda>x. x \<noteq> n) path)) path"

definition dfs_step :: "edge list \<Rightarrow> dfs_state \<Rightarrow> dfs_state" where
  "dfs_step es s =
    (case stack s of
       [] \<Rightarrow> s
     | (node, cursor) # rest \<Rightarrow>
         (let children = adjacency es node in
          if cursor < length children then
            let next = children ! cursor; st = (node, cursor + 1) # rest
            in case colour_of s next of
                 Gray \<Rightarrow> s\<lparr> stack := st, cycles := cycles s @ [path_from next (path_of s)] \<rparr>
               | White \<Rightarrow> s\<lparr> stack := (next, 0) # st, colour_of := (colour_of s)(next := Gray) \<rparr>
               | Black \<Rightarrow> s\<lparr> stack := st \<rparr>
          else s\<lparr> stack := rest, colour_of := (colour_of s)(node := Black) \<rparr>))"

definition whites :: "edge list \<Rightarrow> dfs_state \<Rightarrow> txn_id set" where
  "whites es s = {n \<in> snd ` set es. colour_of s n = White}"

definition unexplored :: "edge list \<Rightarrow> dfs_state \<Rightarrow> nat" where
  "unexplored es s = sum_list (map (\<lambda>(n, c). length (adjacency es n) - c) (stack s))"

lemma adjacency_set: "set (adjacency es n) = {m. (n, m) \<in> set es}"
  by (force simp: adjacency_def)

text \<open>Every step discovers a node, advances a cursor or pops the stack.\<close>

lemma dfs_step_progress:
  assumes "stack s \<noteq> []"
  shows "card (whites es (dfs_step es s)) < card (whites es s) \<or>
    whites es (dfs_step es s) = whites es s \<and>
      (unexplored es (dfs_step es s) < unexplored es s \<or>
       unexplored es (dfs_step es s) = unexplored es s \<and> length (stack (dfs_step es s)) < length (stack s))"
proof -
  obtain node cursor rest where st: "stack s = (node, cursor) # rest"
    using assms by (cases "stack s") auto
  let ?ch = "adjacency es node"
  show ?thesis
  proof (cases "cursor < length ?ch")
    case True
    let ?next = "?ch ! cursor"
    have "?next \<in> set ?ch"
      using True by simp
    then have n: "?next \<in> snd ` set es"
      by (force simp: adjacency_set)
    show ?thesis
    proof (cases "colour_of s ?next")
      case White
      then have "whites es (dfs_step es s) = whites es s - {?next}" "?next \<in> whites es s"
        using st True n by (auto simp: dfs_step_def Let_def whites_def)
      moreover have "finite (whites es s)"
        by (simp add: whites_def)
      ultimately show ?thesis
        using card_Diff1_less by metis
    next
      case Gray
      then show ?thesis
        using st True by (simp add: dfs_step_def Let_def whites_def unexplored_def)
    next
      case Black
      then show ?thesis
        using st True by (simp add: dfs_step_def Let_def whites_def unexplored_def)
    qed
  next
    case False
    then have "whites es (dfs_step es s) \<subseteq> whites es s" "unexplored es (dfs_step es s) = unexplored es s"
      "length (stack (dfs_step es s)) < length (stack s)"
      using st by (auto simp: dfs_step_def Let_def whites_def unexplored_def split: if_splits)
    moreover have "finite (whites es s)"
      by (simp add: whites_def)
    ultimately show ?thesis
      using psubset_card_mono by blast
  qed
qed

function dfs_loop :: "edge list \<Rightarrow> dfs_state \<Rightarrow> dfs_state" where
  "dfs_loop es s = (if stack s = [] then s else dfs_loop es (dfs_step es s))"
  by pat_completeness auto
termination
proof (relation "measures [\<lambda>(es, s). card (whites es s), \<lambda>(es, s). unexplored es s, \<lambda>(es, s). length (stack s)]")
  fix es and s :: dfs_state
  assume "stack s \<noteq> []"
  then show "((es, dfs_step es s), (es, s))
      \<in> measures [\<lambda>(es, s). card (whites es s), \<lambda>(es, s). unexplored es s, \<lambda>(es, s). length (stack s)]"
    using dfs_step_progress [of s es] by auto
qed simp

declare dfs_loop.simps [simp del]

definition dfs_from :: "edge list \<Rightarrow> txn_id \<Rightarrow> dfs_state \<Rightarrow> dfs_state" where
  "dfs_from es start s =
    (if colour_of s start \<noteq> White then s
     else dfs_loop es (s\<lparr> colour_of := (colour_of s)(start := Gray), stack := [(start, 0)] \<rparr>))"

definition find_cycles :: "edge list \<Rightarrow> txn_id list list" where
  "find_cycles es =
    cycles (fold (dfs_from es) (sort (remdups (map fst es))) \<lparr> colour_of = (\<lambda>_. White), stack = [], cycles = [] \<rparr>)"

section \<open>Victims\<close>

text \<open>
  \<open>mark_victims\<close>: \<open>is_active\<close> answers the manager's query; the result is the new set
  of victims and the transactions newly marked, each followed by its two broadcasts.
\<close>

definition cycle_edges :: "txn_id list \<Rightarrow> edge list" where
  "cycle_edges c = zip c (rotate1 c)"

definition resolve_cycle ::
  "(txn_id \<Rightarrow> bool) \<Rightarrow> edge list \<Rightarrow> txn_id list \<Rightarrow> txn_id set \<times> txn_id list \<Rightarrow> txn_id set \<times> txn_id list" where
  "resolve_cycle active_now fresh c st =
    (let victim = foldr max c (hd c) in
     case st of (vs, marked) \<Rightarrow>
       if victim \<in> vs then (vs, marked)
       else if \<not> active_now victim then (vs, marked)
       else if \<not> list_all (\<lambda>e. e \<in> set fresh) (cycle_edges c) then (vs, marked)
       else (insert victim vs, marked @ [victim]))"

definition mark_victims ::
  "(txn_id \<Rightarrow> bool) \<Rightarrow> txn_id list list \<Rightarrow> edge list \<Rightarrow> txn_id set \<Rightarrow> txn_id set \<times> txn_id list" where
  "mark_victims active_now cs fresh vs = fold (resolve_cycle active_now fresh) cs (vs, [])"

definition prune_victims :: "(txn_id \<Rightarrow> bool) \<Rightarrow> txn_id set \<Rightarrow> txn_id set" where
  "prune_victims active_now vs = {x \<in> vs. active_now x}"

definition tick ::
  "(txn_id \<Rightarrow> bool) \<Rightarrow> edge list \<Rightarrow> edge list \<Rightarrow> txn_id set \<Rightarrow> txn_id set \<times> txn_id list" where
  "tick active_now es fresh vs =
    (let vs = prune_victims active_now vs in
     if es = [] then (vs, [])
     else if find_cycles es = [] then (vs, [])
     else mark_victims active_now (find_cycles es) fresh vs)"

section \<open>Soundness of the search\<close>

definition is_cycle :: "edge list \<Rightarrow> txn_id list \<Rightarrow> bool" where
  "is_cycle es c \<longleftrightarrow> c \<noteq> [] \<and> distinct c \<and> successively (\<lambda>a b. (a, b) \<in> set es) c \<and> (last c, hd c) \<in> set es"

definition dfs_inv :: "edge list \<Rightarrow> dfs_state \<Rightarrow> bool" where
  "dfs_inv es s \<longleftrightarrow>
    distinct (map fst (stack s)) \<and>
    (\<forall>n. colour_of s n = Gray \<longleftrightarrow> n \<in> fst ` set (stack s)) \<and>
    successively (\<lambda>x y. (y, x) \<in> set es) (map fst (stack s)) \<and>
    (\<forall>c \<in> set (cycles s). is_cycle es c)"

lemma path_from_split:
  assumes "n \<in> set xs"
  shows "path_from n xs = n # tl (path_from n xs)" "\<exists>ys. xs = ys @ path_from n xs"
proof -
  have d: "path_from n xs = dropWhile (\<lambda>x. x \<noteq> n) xs"
    by (simp add: path_from_def dropWhile_eq_drop)
  have ne: "dropWhile (\<lambda>x. x \<noteq> n) xs \<noteq> []"
    using assms by (simp add: dropWhile_eq_Nil_conv)
  have "hd (dropWhile (\<lambda>x. x \<noteq> n) xs) = n"
    using hd_dropWhile [OF ne] by simp
  then show "path_from n xs = n # tl (path_from n xs)"
    unfolding d using ne by (cases "dropWhile (\<lambda>x. x \<noteq> n) xs") simp_all
  show "\<exists>ys. xs = ys @ path_from n xs"
    unfolding d by (rule exI [of _ "takeWhile (\<lambda>x. x \<noteq> n) xs"]) simp
qed

lemma successively_rev_edges:
  "successively (\<lambda>x y. (y, x) \<in> E) xs \<longleftrightarrow> successively (\<lambda>a b. (a, b) \<in> E) (rev xs)"
  by (simp add: successively_rev)

lemma gray_closes_cycle:
  assumes "dfs_inv es s" "stack s = (node, c) # rest" "(node, n) \<in> set es" "colour_of s n = Gray"
  shows "is_cycle es (path_from n (path_of s))"
proof -
  have n: "n \<in> set (path_of s)"
    using assms(1,4) by (simp add: dfs_inv_def path_of_def)
  have p: "successively (\<lambda>a b. (a, b) \<in> set es) (path_of s)" "distinct (path_of s)" "last (path_of s) = node"
    using assms(1,2) successively_rev_edges [of "set es" "map fst (stack s)"]
    by (simp_all add: dfs_inv_def path_of_def)
  obtain ys where ys: "path_of s = ys @ path_from n (path_of s)"
    using path_from_split(2) [OF n] by blast
  obtain t where t: "path_from n (path_of s) = n # t"
    using path_from_split(1) [OF n] by blast
  have y: "path_of s = ys @ n # t"
    using ys t by simp
  have "successively (\<lambda>a b. (a, b) \<in> set es) (n # t)" "distinct (n # t)" "last (n # t) = node"
    using p unfolding y by (simp_all add: successively_append_iff split: if_splits)
  then show ?thesis
    unfolding is_cycle_def t using assms(3) by simp
qed

lemma dfs_step_eqs:
  assumes "stack s = (node, cursor) # rest"
  shows "cursor < length (adjacency es node) \<Longrightarrow> colour_of s (adjacency es node ! cursor) = White \<Longrightarrow>
      dfs_step es s = s\<lparr> stack := (adjacency es node ! cursor, 0) # (node, cursor + 1) # rest,
        colour_of := (colour_of s)(adjacency es node ! cursor := Gray) \<rparr>"
    "cursor < length (adjacency es node) \<Longrightarrow> colour_of s (adjacency es node ! cursor) = Gray \<Longrightarrow>
      dfs_step es s = s\<lparr> stack := (node, cursor + 1) # rest,
        cycles := cycles s @ [path_from (adjacency es node ! cursor) (path_of s)] \<rparr>"
    "cursor < length (adjacency es node) \<Longrightarrow> colour_of s (adjacency es node ! cursor) = Black \<Longrightarrow>
      dfs_step es s = s\<lparr> stack := (node, cursor + 1) # rest \<rparr>"
    "\<not> cursor < length (adjacency es node) \<Longrightarrow>
      dfs_step es s = s\<lparr> stack := rest, colour_of := (colour_of s)(node := Black) \<rparr>"
  using assms by (simp_all add: dfs_step_def Let_def)

lemma dfs_step_inv:
  assumes "dfs_inv es s"
  shows "dfs_inv es (dfs_step es s)"
proof (cases "stack s")
  case Nil
  then show ?thesis
    using assms by (simp add: dfs_step_def)
next
  case (Cons top rest)
  obtain node cursor where top: "top = (node, cursor)"
    by (cases top)
  note st = Cons [unfolded top]
  note i = assms [unfolded dfs_inv_def st]
  let ?ch = "adjacency es node"
  show ?thesis
  proof (cases "cursor < length ?ch")
    case True
    have e: "(node, ?ch ! cursor) \<in> set es"
      using nth_mem [OF True] by (simp add: adjacency_set)
    show ?thesis
    proof (cases "colour_of s (?ch ! cursor)")
      case White
      then have "colour_of s (?ch ! cursor) \<noteq> Gray"
        by simp
      then have "?ch ! cursor \<notin> fst ` set ((node, cursor) # rest)"
        using i by blast
      then show ?thesis
        using i e unfolding dfs_step_eqs(1) [OF st True White] dfs_inv_def by auto
    next
      case Gray
      show ?thesis
        using i gray_closes_cycle [OF assms st e Gray] unfolding dfs_step_eqs(2) [OF st True Gray] dfs_inv_def by auto
    next
      case Black
      show ?thesis
        using i unfolding dfs_step_eqs(3) [OF st True Black] dfs_inv_def by auto
    qed
  next
    case False
    show ?thesis
      using i unfolding dfs_step_eqs(4) [OF st False] dfs_inv_def by (auto simp: successively_Cons)
  qed
qed

section \<open>Completeness of the search\<close>

fun explored :: "edge list \<Rightarrow> (txn_id \<Rightarrow> colour) \<Rightarrow> txn_id option \<Rightarrow> (txn_id \<times> nat) list \<Rightarrow> bool" where
  "explored es col up [] \<longleftrightarrow> True"
| "explored es col up ((n, c) # rest) \<longleftrightarrow>
    (\<forall>i < c. i < length (adjacency es n) \<longrightarrow> col (adjacency es n ! i) = Black \<or> Some (adjacency es n ! i) = up) \<and>
    explored es col (Some n) rest"

text \<open>As long as no cycle was found, finished nodes lead only to finished nodes and lie on no cycle.\<close>

definition finished_ok :: "edge list \<Rightarrow> dfs_state \<Rightarrow> bool" where
  "finished_ok es s \<longleftrightarrow>
    (\<forall>n. colour_of s n = Black \<longrightarrow> (n, n) \<notin> (set es)\<^sup>+ \<and> (\<forall>m. (n, m) \<in> set es \<longrightarrow> colour_of s m = Black)) \<and>
    explored es (colour_of s) None (stack s)"

lemma explored_mono:
  assumes "explored es col up st" "\<And>n. col n = Black \<Longrightarrow> col' n = Black"
  shows "explored es col' up st"
  using assms(1)
proof (induction st arbitrary: up)
  case (Cons x st)
  then show ?case
    using assms(2) by (cases x) fastforce
qed simp

lemma explored_up:
  assumes "explored es col (Some n) st" "col n = Black"
  shows "explored es col None st"
  using assms by (cases st) auto

lemma black_reaches_black:
  assumes "\<And>n m. col n = Black \<Longrightarrow> (n, m) \<in> E \<Longrightarrow> col m = Black" "(a, b) \<in> E\<^sup>*" "col a = Black"
  shows "col b = Black"
  using assms(2,3) by (induction rule: rtrancl_induct) (use assms(1) in auto)

lemma dfs_step_finished:
  assumes "dfs_inv es s" "finished_ok es s" "cycles (dfs_step es s) = []"
  shows "finished_ok es (dfs_step es s)"
proof (cases "stack s")
  case Nil
  then show ?thesis
    using assms by (simp add: dfs_step_def)
next
  case (Cons top rest)
  obtain node cursor where top: "top = (node, cursor)"
    by (cases top)
  note st = Cons [unfolded top]
  let ?ch = "adjacency es node"
  note f = assms(2) [unfolded finished_ok_def st]
  show ?thesis
  proof (cases "cursor < length ?ch")
    case True
    show ?thesis
    proof (cases "colour_of s (?ch ! cursor)")
      case White
      have "explored es ((colour_of s)(?ch ! cursor := Gray)) (Some node) rest"
        by (rule explored_mono [of es "colour_of s"]) (use f White in auto)
      then show ?thesis
        using f White unfolding dfs_step_eqs(1) [OF st True White] finished_ok_def by (auto simp: less_Suc_eq)
    next
      case Gray
      then show ?thesis
        using assms(3) True by (simp add: dfs_step_def Let_def st)
    next
      case Black
      then show ?thesis
        using f unfolding dfs_step_eqs(3) [OF st True Black] finished_ok_def by (auto simp: less_Suc_eq)
    qed
  next
    case False
    have children: "colour_of s m = Black" if "(node, m) \<in> set es" for m
    proof -
      have "m \<in> set ?ch"
        using that by (simp add: adjacency_set)
      then obtain i where "i < length ?ch" "m = ?ch ! i"
        by (metis in_set_conv_nth)
      then show ?thesis
        using f False by auto
    qed
    have gray: "colour_of s node = Gray"
      using assms(1) by (simp add: dfs_inv_def st)
    have "(node, node) \<notin> (set es)\<^sup>+"
    proof
      assume "(node, node) \<in> (set es)\<^sup>+"
      then obtain m where "(node, m) \<in> set es" "(m, node) \<in> (set es)\<^sup>*"
        by (meson tranclD)
      then have "colour_of s node = Black"
        using black_reaches_black [of "colour_of s" "set es" m node] f children by blast
      then show False
        using gray by simp
    qed
    moreover have "explored es ((colour_of s)(node := Black)) None rest"
      by (rule explored_up [of _ _ node], rule explored_mono [of es "colour_of s"]) (use f in auto)
    ultimately show ?thesis
      using f children unfolding dfs_step_eqs(4) [OF st False] finished_ok_def by auto
  qed
qed

lemma dfs_step_cycles: "cycles (dfs_step es s) = [] \<Longrightarrow> cycles s = []"
  by (auto simp: dfs_step_def Let_def split: list.splits prod.splits if_splits colour.splits)

lemma dfs_step_coloured: "colour_of s n \<noteq> White \<Longrightarrow> colour_of (dfs_step es s) n \<noteq> White"
  by (auto simp: dfs_step_def Let_def split: list.splits prod.splits colour.splits)

lemma dfs_loop_spec:
  assumes "dfs_inv es s"
  shows "dfs_inv es (dfs_loop es s) \<and> stack (dfs_loop es s) = [] \<and>
    (cycles (dfs_loop es s) = [] \<longrightarrow> cycles s = [] \<and> (finished_ok es s \<longrightarrow> finished_ok es (dfs_loop es s))) \<and>
    (\<forall>n. colour_of s n \<noteq> White \<longrightarrow> colour_of (dfs_loop es s) n \<noteq> White)"
  using assms
proof (induction es s rule: dfs_loop.induct)
  case (1 es s)
  show ?case
  proof (cases "stack s = []")
    case True
    then have "dfs_loop es s = s"
      by (subst dfs_loop.simps) simp
    then show ?thesis
      using "1.prems" True by simp
  next
    case False
    then have r: "dfs_loop es s = dfs_loop es (dfs_step es s)"
      by (subst dfs_loop.simps) simp
    note IH = "1.IH" [OF False dfs_step_inv [OF "1.prems"]]
    show ?thesis
      unfolding r using IH dfs_step_cycles [of es s] dfs_step_finished [OF "1.prems"] dfs_step_coloured [of s _ es] by blast
  qed
qed

lemma dfs_from_spec:
  assumes "dfs_inv es s" "stack s = []"
  shows "dfs_inv es (dfs_from es start s) \<and> stack (dfs_from es start s) = [] \<and>
    (cycles (dfs_from es start s) = [] \<longrightarrow> cycles s = [] \<and> (finished_ok es s \<longrightarrow> finished_ok es (dfs_from es start s))) \<and>
    colour_of (dfs_from es start s) start \<noteq> White \<and>
    (\<forall>n. colour_of s n \<noteq> White \<longrightarrow> colour_of (dfs_from es start s) n \<noteq> White)"
proof (cases "colour_of s start = White")
  case True
  let ?s = "s\<lparr> colour_of := (colour_of s)(start := Gray), stack := [(start, 0)] \<rparr>"
  have i: "dfs_inv es ?s"
    using assms by (auto simp: dfs_inv_def)
  have f: "finished_ok es ?s" if "finished_ok es s"
    using that True by (auto simp: finished_ok_def)
  have d: "dfs_from es start s = dfs_loop es ?s"
    using True by (simp add: dfs_from_def)
  have "colour_of ?s n \<noteq> White" if "colour_of s n \<noteq> White \<or> n = start" for n
    using that by auto
  then show ?thesis
    unfolding d using dfs_loop_spec [OF i] f by auto
next
  case False
  then show ?thesis
    using assms by (simp add: dfs_from_def)
qed

lemma dfs_fold_spec:
  assumes "dfs_inv es s" "stack s = []"
  shows "dfs_inv es (fold (dfs_from es) ns s) \<and> stack (fold (dfs_from es) ns s) = [] \<and>
    (cycles (fold (dfs_from es) ns s) = [] \<longrightarrow>
      cycles s = [] \<and> (finished_ok es s \<longrightarrow> finished_ok es (fold (dfs_from es) ns s))) \<and>
    (\<forall>n. n \<in> set ns \<or> colour_of s n \<noteq> White \<longrightarrow> colour_of (fold (dfs_from es) ns s) n \<noteq> White)"
  using assms
proof (induction ns arbitrary: s)
  case (Cons x ns)
  note d = dfs_from_spec [OF Cons.prems, of x]
  note IH = Cons.IH [of "dfs_from es x s"]
  show ?case
    using d IH by auto
qed simp

section \<open>Properties\<close>

lemma find_cycles_run:
  defines "s0 \<equiv> \<lparr> colour_of = (\<lambda>_. White), stack = [], cycles = [] \<rparr>"
  shows "\<And>c. c \<in> set (find_cycles es) \<Longrightarrow> is_cycle es c" "find_cycles es = [] \<Longrightarrow> acyclic (set es)"
proof -
  let ?ns = "sort (remdups (map fst es))"
  let ?s = "fold (dfs_from es) ?ns s0"
  have i: "dfs_inv es s0" "finished_ok es s0" "stack s0 = []"
    by (simp_all add: s0_def dfs_inv_def finished_ok_def)
  note r = dfs_fold_spec [OF i(1,3), of ?ns]
  have f: "find_cycles es = cycles ?s"
    by (simp add: find_cycles_def s0_def)
  show "is_cycle es c" if "c \<in> set (find_cycles es)" for c
    using that r unfolding f dfs_inv_def by blast
  show "acyclic (set es)" if e: "find_cycles es = []"
  proof (rule acyclicI, rule allI, rule notI)
    fix x
    assume x: "(x, x) \<in> (set es)\<^sup>+"
    then have "x \<in> set ?ns"
      by (metis Domain.DomainI fst_eq_Domain list.set_map set_remdups set_sort trancl_domain)
    then have "colour_of ?s x \<noteq> White"
      using r by blast
    moreover have "colour_of ?s x \<noteq> Gray"
      using r by (simp add: dfs_inv_def)
    ultimately have "colour_of ?s x = Black"
      by (cases "colour_of ?s x") simp_all
    then show False
      using r e i(2) x unfolding f finished_ok_def by blast
  qed
qed

lemma successively_trancl:
  assumes "successively (\<lambda>a b. (a, b) \<in> E) (x # xs)"
  shows "(x, last (x # xs)) \<in> E\<^sup>*"
  using assms
proof (induction xs arbitrary: x)
  case (Cons y ys)
  then show ?case
    by (auto intro: converse_rtrancl_into_rtrancl)
qed simp

lemma is_cycle_not_acyclic:
  assumes "is_cycle es c"
  shows "\<not> acyclic (set es)"
proof -
  obtain x xs where c: "c = x # xs"
    using assms by (cases c) (auto simp: is_cycle_def)
  have "(x, last c) \<in> (set es)\<^sup>*" "(last c, x) \<in> set es"
    using assms successively_trancl [of "set es" x xs] by (auto simp: is_cycle_def c)
  then have "(x, x) \<in> (set es)\<^sup>+"
    by (rule rtrancl_into_trancl1)
  then show ?thesis
    by (auto simp: acyclic_def)
qed

text \<open>
  C29: The search for deadlocks is sound and complete.  Everything it reports is a simple
  cycle of the wait-for graph, edge by edge, and it reports at least one cycle exactly
  if the graph has one.  (It always terminates: the search is a total function.)
\<close>

theorem find_cycles_correct:
  "(\<forall>c \<in> set (find_cycles es). is_cycle es c) \<and> (find_cycles es = [] \<longleftrightarrow> acyclic (set es))"
proof -
  have "find_cycles es = []" if "acyclic (set es)"
  proof (rule ccontr)
    assume "find_cycles es \<noteq> []"
    then obtain c where "c \<in> set (find_cycles es)"
      using list.set_intros(1) by (cases "find_cycles es") auto
    then show False
      using that find_cycles_run(1) is_cycle_not_acyclic by blast
  qed
  then show ?thesis
    using find_cycles_run by blast
qed

theorem find_cycles_correct_witness:
  "find_cycles [(1, 2), (2, 3), (3, 1), (4, 1)] = [[1, 2, 3]] \<and> is_cycle [(1, 2), (2, 3), (3, 1), (4, 1)] [1, 2, 3]"
proof -
  have "find_cycles [(1, 2), (2, 3), (3, 1), (4, 1)] = [[1, 2, 3]]"
    by code_simp
  then show ?thesis
    using find_cycles_correct [of "[(1, 2), (2, 3), (3, 1), (4, 1)]"] by simp
qed

lemma zip_shift_edges:
  "list_all (\<lambda>e. e \<in> F) (zip (x # xs) (xs @ [y])) \<longleftrightarrow>
    successively (\<lambda>a b. (a, b) \<in> F) (x # xs) \<and> (last (x # xs), y) \<in> F"
  by (induction xs arbitrary: x) auto

lemma cycle_edges_iff:
  assumes "c \<noteq> []"
  shows "list_all (\<lambda>e. e \<in> F) (cycle_edges c) \<longleftrightarrow>
    successively (\<lambda>a b. (a, b) \<in> F) c \<and> (last c, hd c) \<in> F"
  using assms zip_shift_edges [of F "hd c" "tl c" "hd c"] by (cases c) (simp_all add: cycle_edges_def)

lemma foldr_max: "c \<noteq> [] \<Longrightarrow> foldr max c (hd c) = Max (set c)"
proof -
  have "foldr max c a = Max (insert a (set c))" for a
    by (induction c) (simp_all add: max.commute max.left_commute insert_commute)
  then show "c \<noteq> [] \<Longrightarrow> foldr max c (hd c) = Max (set c)"
    by (simp add: insert_absorb)
qed

text \<open>What resolving one candidate does.\<close>

definition confirmed :: "(txn_id \<Rightarrow> bool) \<Rightarrow> edge list \<Rightarrow> txn_id list \<Rightarrow> bool" where
  "confirmed active_now fresh c \<longleftrightarrow> active_now (Max (set c)) \<and> is_cycle fresh c"

lemma resolve_cycle_spec:
  assumes "is_cycle es c"
  shows "resolve_cycle active_now fresh c (vs, marked) =
    (if Max (set c) \<notin> vs \<and> confirmed active_now fresh c
     then (insert (Max (set c)) vs, marked @ [Max (set c)]) else (vs, marked))"
proof -
  have c: "c \<noteq> []" "distinct c"
    using assms by (simp_all add: is_cycle_def)
  show ?thesis
    using c by (auto simp: resolve_cycle_def foldr_max confirmed_def is_cycle_def cycle_edges_iff Let_def)
qed

lemma mark_victims_fold:
  assumes "\<forall>c \<in> set cs. is_cycle es c" "fold (resolve_cycle active_now fresh) cs (vs, marked) = (vs', marked')"
  shows "vs' = vs \<union> {Max (set c) | c. c \<in> set cs \<and> confirmed active_now fresh c}"
    "\<exists>new. marked' = marked @ new \<and> set new = vs' - vs \<and> distinct new"
  using assms
proof (induction cs arbitrary: vs marked)
  case Nil
  {
    case 1
    then show ?case
      by simp
  next
    case 2
    then show ?case
      by simp
  }
next
  case (Cons c cs)
  let ?v = "Max (set c)"
  {
    case 1
    then show ?case
      using Cons.IH(1) resolve_cycle_spec [of es c active_now fresh vs marked]
      by (auto split: if_splits)
  next
    case 2
    show ?case
    proof (cases "?v \<notin> vs \<and> confirmed active_now fresh c")
      case True
      then have f: "fold (resolve_cycle active_now fresh) cs (insert ?v vs, marked @ [?v]) = (vs', marked')"
        using 2 resolve_cycle_spec [of es c active_now fresh vs marked] by simp
      obtain new where n: "marked' = (marked @ [?v]) @ new" "set new = vs' - insert ?v vs" "distinct new"
        using Cons.IH(2) [OF _ f] 2 by auto
      moreover have "?v \<in> vs'"
        using Cons.IH(1) [OF _ f] 2 by auto
      ultimately show ?thesis
        using True by (intro exI [of _ "?v # new"]) auto
    next
      case False
      then have f: "fold (resolve_cycle active_now fresh) cs (vs, marked) = (vs', marked')"
        using 2 resolve_cycle_spec [of es c active_now fresh vs marked] by auto
      then show ?thesis
        using Cons.IH(2) [OF _ f] 2 by simp
    qed
  }
qed


lemma table_edges_iff:
  "(w, h) \<in> set (table_edges st) \<longleftrightarrow>
    (\<exists>wm hm. (w, wm) \<in> set (state_waiters st) \<and> (h, hm) \<in> set (state_granted st) \<and> h \<noteq> w \<and> conflicts_with hm wm)"
proof
  assume "(w, h) \<in> set (table_edges st)"
  then obtain a b where "a \<in> set (state_waiters st)" "b \<in> set (state_granted st)" "w = fst a" "h = fst b"
    "fst b \<noteq> fst a" "conflicts_with (snd b) (snd a)"
    by (auto simp: table_edges_def)
  then show "\<exists>wm hm. (w, wm) \<in> set (state_waiters st) \<and> (h, hm) \<in> set (state_granted st) \<and> h \<noteq> w \<and> conflicts_with hm wm"
    by (intro exI [of _ "snd a"] exI [of _ "snd b"]) simp
next
  assume "\<exists>wm hm. (w, wm) \<in> set (state_waiters st) \<and> (h, hm) \<in> set (state_granted st) \<and> h \<noteq> w \<and> conflicts_with hm wm"
  then obtain wm hm where "(w, wm) \<in> set (state_waiters st)" "(h, hm) \<in> set (state_granted st)" "h \<noteq> w" "conflicts_with hm wm"
    by blast
  then show "(w, h) \<in> set (table_edges st)"
    by (auto simp: table_edges_def intro!: bexI [of _ "(w, wm)"] image_eqI [of _ _ "(h, hm)"])
qed

lemma wait_for_edges_iff:
  "(w, h) \<in> set (wait_for_edges txn m) \<longleftrightarrow>
    (w, h) \<in> set (wait_edges txn) \<or>
    (\<exists>t e wm hm. (t, e) \<in> set (entries m) \<and> (w, wm) \<in> set (wait_queue e) \<and> (h, hm) \<in> set (granted e) \<and>
      h \<noteq> w \<and> conflicts_with hm wm)"
proof -
  have s: "x \<in> set (table_lock_states m) \<longleftrightarrow>
      (\<exists>t e. (t, e) \<in> set (entries m) \<and> wait_queue e \<noteq> [] \<and> x = (t, lock_state_of e))" for x
    by (auto simp: table_lock_states_def image_iff)
  have "(\<exists>x \<in> set (table_lock_states m). (w, h) \<in> set (table_edges (snd x))) \<longleftrightarrow>
      (\<exists>t e. (t, e) \<in> set (entries m) \<and> wait_queue e \<noteq> [] \<and> (w, h) \<in> set (table_edges (lock_state_of e)))"
    unfolding Bex_def s by auto
  also have "... \<longleftrightarrow> (\<exists>t e wm hm. (t, e) \<in> set (entries m) \<and> (w, wm) \<in> set (wait_queue e) \<and> (h, hm) \<in> set (granted e) \<and>
        h \<noteq> w \<and> conflicts_with hm wm)"
    unfolding table_edges_iff by (fastforce simp: lock_state_of_def)
  finally show ?thesis
    by (simp add: wait_for_edges_def split_beta)
qed

text \<open>
  A contended table always shows in the wait-for graph: in every reachable state of the
  lock manager the transaction at the head of a table's queue has an edge to a
  transaction that holds a conflicting lock on it.
\<close>

theorem queue_head_has_edge:
  assumes "lock_reachable s" "wait_queue (entry_of (lm s) t) = (x, mode) # rest"
  shows "\<exists>y n. (x, y) \<in> set (wait_for_edges txn (lm s)) \<and> is_granted (lm s) y t n \<and> conflicts_with n mode"
proof -
  let ?e = "entry_of (lm s) t"
  have i: "lm_inv (lm s)"
    using lock_invD(1) reachable_lock_inv assms(1) by blast
  then have e: "entry_inv ?e"
    by (rule lm_inv_entry)
  have me: "map_of (entries (lm s)) t = Some ?e"
    using assms(2) by (auto simp: entry_of_def empty_entry_def split: option.splits)
  obtain y n where y: "(y, n) \<in> set (granted ?e)" "y \<noteq> x" "conflicts_with n mode"
    using e assms(2) by (auto simp: entry_inv_def head_blocked_def can_grant_def list_all_iff split: if_splits)
  have "(x, y) \<in> set (wait_for_edges txn (lm s))"
    using wait_for_edges_iff [of x y txn "lm s"] map_of_SomeD [OF me] assms(2) y
    by (metis list.set_intros(1))
  moreover have "map_of (granted ?e) y = Some n"
    using y(1) e by (simp add: entry_inv_def grants_ok_def)
  then have "is_granted (lm s) y t n"
    using me by (simp add: is_granted_def holds_mode_def)
  ultimately show ?thesis
    using y(3) by blast
qed

section \<open>Witnesses and the limit of the search\<close>


theorem queue_head_has_edge_witness:
  "\<exists>y n. (2, y) \<in> set (wait_for_edges (txn_manager_new 9 () (\<lambda>_. InProgress)) (lm demo_locks)) \<and>
     is_granted (lm demo_locks) y 9 n \<and> conflicts_with n Exclusive"
proof -
  have "wait_queue (entry_of (lm demo_locks) 9) = [(2, Exclusive), (3, AccessShare)]"
    by code_simp
  then show ?thesis
    by (rule queue_head_has_edge [OF demo_locks_reachable])
qed

text \<open>
  Transaction 1 holds table 1 and 3 holds table 2; 2 waits for 1 on table 1, 3 waits on table
  1 behind 2 although compatible with 1, and 1 waits for 3 on table 2.
\<close>

definition soft_deadlock :: lock_machine where
  "soft_deadlock =
    run_iteration 1 2 AccessShare (run_iteration 3 1 AccessShare (run_iteration 2 1 Exclusive
      (run_iteration 3 2 AccessExclusive (run_iteration 1 1 RowExclusive lock_init))))"


end
