(* ===== verification/Slotted_Page.thy ===== *)
theory Slotted_Page
  imports Storage_Types "HOL-Library.Product_Lexorder"
begin

text \<open>
  The slotted page: the 32-byte page header (\<^verbatim>\<open>pg-storage/src/page.rs\<close>), the packed line
  pointers (\<^verbatim>\<open>pg-am-heap/src/line_pointer.rs\<close>) and the page operations over raw bytes
  (\<^verbatim>\<open>pg-am-heap/src/slotted_page.rs\<close>), with the error type of the heap access method.
  A page is a list of \<open>PAGE_SIZE\<close> bytes; every operation reads and writes it through
  the offsets of the source.  The main results say that the byte-level operations
  implement a map from slots to tuples.
\<close>

section \<open>Errors of the heap access method\<close>

text \<open>
  The constructors of \<open>HeapError\<close> without message texts.  \<open>HeapPanic\<close> is not an error
  of the source: it stands for a slice index out of range, which panics there.
\<close>

datatype heap_error =
    PageFull nat nat | InvalidSlot u16 | TupleTooLarge nat | Corrupted | InvalidArgument
  | TupleNotFound tid | TupleConcurrentlyUpdated tid | DeadlockVictim | HeapStorage storage_error
  | HeapPanic

section \<open>Page header\<close>

type_synonym page = "byte list"

definition PAGE_HEADER_SIZE :: nat where "PAGE_HEADER_SIZE = 32"
definition PAGE_FORMAT_VERSION :: u16 where "PAGE_FORMAT_VERSION = 1"

definition page_pd_lsn :: "page \<Rightarrow> lsn" where "page_pd_lsn pg = get_u64 pg 0"
definition set_page_pd_lsn :: "page \<Rightarrow> lsn \<Rightarrow> page" where "set_page_pd_lsn pg l = put_u64 0 l pg"

record page_header =
  pd_lsn :: lsn
  pd_checksum :: u32
  pd_flags :: u16
  pd_lower :: u16
  pd_upper :: u16
  pd_special :: u16
  pd_pagesize_version :: u16
  pd_prune_xid :: u32

definition page_header_new :: "u16 \<Rightarrow> page_header" where
  "page_header_new page_size =
    \<lparr> pd_lsn = 0, pd_checksum = 0, pd_flags = 0, pd_lower = of_nat PAGE_HEADER_SIZE, pd_upper = page_size,
      pd_special = page_size, pd_pagesize_version = PAGE_FORMAT_VERSION, pd_prune_xid = 0 \<rparr>"

definition header_read_from :: "page \<Rightarrow> page_header" where
  "header_read_from pg =
    \<lparr> pd_lsn = page_pd_lsn pg, pd_checksum = get_u32 pg 8, pd_flags = get_u16 pg 12,
      pd_lower = get_u16 pg 14, pd_upper = get_u16 pg 16, pd_special = get_u16 pg 18,
      pd_pagesize_version = get_u16 pg 20, pd_prune_xid = get_u32 pg 22 \<rparr>"

definition header_write_to :: "page_header \<Rightarrow> page \<Rightarrow> page" where
  "header_write_to h pg =
    (let pg = set_page_pd_lsn pg (pd_lsn h);
         pg = put_u32 8 (pd_checksum h) pg;
         pg = put_u16 12 (pd_flags h) pg;
         pg = put_u16 14 (pd_lower h) pg;
         pg = put_u16 16 (pd_upper h) pg;
         pg = put_u16 18 (pd_special h) pg;
         pg = put_u16 20 (pd_pagesize_version h) pg;
         pg = put_u32 22 (pd_prune_xid h) pg
     in put_at 26 (replicate (PAGE_HEADER_SIZE - 26) 0) pg)"

definition header_init_page :: "page \<Rightarrow> page" where
  "header_init_page pg = header_write_to (page_header_new (of_nat PAGE_SIZE)) pg"

lemma length_header_write_to [simp]:
  "32 \<le> length pg \<Longrightarrow> length (header_write_to h pg) = length pg"
  by (simp add: header_write_to_def Let_def set_page_pd_lsn_def PAGE_HEADER_SIZE_def)

lemma header_roundtrip:
  assumes "32 \<le> length pg"
  shows "header_read_from (header_write_to h pg) = h"
  using assms
  by (simp add: header_read_from_def header_write_to_def Let_def set_page_pd_lsn_def page_pd_lsn_def
      PAGE_HEADER_SIZE_def buf_simps del: length_puts)

lemma header_write_to_rest:
  "32 \<le> length pg \<Longrightarrow> 32 \<le> off \<Longrightarrow> bytes_at off n (header_write_to h pg) = bytes_at off n pg"
  by (simp add: header_write_to_def Let_def set_page_pd_lsn_def PAGE_HEADER_SIZE_def buf_simps
      del: length_puts)

section \<open>Line pointers\<close>

text \<open>A line pointer packs an offset, a state and a length into 15, 2 and 15 bits.\<close>

type_synonym lp_word = u32

definition LINE_POINTER_SIZE :: nat where "LINE_POINTER_SIZE = 4"
definition LP_OFF_MASK :: u32 where "LP_OFF_MASK = 0x7FFF"
definition LP_FLAGS_MASK :: u32 where "LP_FLAGS_MASK = 3"

datatype lp_state = LpUnused | LpNormal | LpRedirect | LpDead

fun lp_flags_bits :: "lp_state \<Rightarrow> u32" where
  "lp_flags_bits LpUnused = 0"
| "lp_flags_bits LpNormal = 1"
| "lp_flags_bits LpRedirect = 2"
| "lp_flags_bits LpDead = 3"

definition lp_flags_from_bits :: "u32 \<Rightarrow> lp_state" where
  "lp_flags_from_bits w =
    (let b = w AND LP_FLAGS_MASK in
     if b = 0 then LpUnused else if b = 1 then LpNormal else if b = 2 then LpRedirect else LpDead)"

definition lp_new :: "u16 \<Rightarrow> lp_state \<Rightarrow> u16 \<Rightarrow> lp_word" where
  "lp_new off fl len =
    (ucast off AND LP_OFF_MASK) OR push_bit 15 (lp_flags_bits fl) OR push_bit 17 (ucast len)"

definition lp_off :: "lp_word \<Rightarrow> u16" where "lp_off lp = ucast (lp AND LP_OFF_MASK)"
definition lp_flags :: "lp_word \<Rightarrow> lp_state" where "lp_flags lp = lp_flags_from_bits (drop_bit 15 lp)"
definition lp_len :: "lp_word \<Rightarrow> u16" where "lp_len lp = ucast (drop_bit 17 lp)"
definition lp_with_flags :: "lp_word \<Rightarrow> lp_state \<Rightarrow> lp_word" where
  "lp_with_flags lp fl = lp_new (lp_off lp) fl (lp_len lp)"

lemma LP_masks: "LP_OFF_MASK = mask 15" "LP_FLAGS_MASK = mask 2"
  by (simp_all add: LP_OFF_MASK_def LP_FLAGS_MASK_def mask_eq_exp_minus_1)

lemma lp_flags_bits_take_bit: "take_bit 2 (lp_flags_bits fl) = lp_flags_bits fl"
  by (cases fl) (simp_all add: take_bit_eq_mod)

lemma lp_flags_bits_high: "bit (lp_flags_bits fl) n \<Longrightarrow> n < 2"
  by (metis bit_take_bit_iff lp_flags_bits_take_bit)

lemma u15_high_bit:
  assumes "unat (w :: u16) < 32768"
  shows "bit w n \<Longrightarrow> n < 15"
proof -
  have "w = take_bit 15 w"
    using assms by (simp add: word_unat_eq_iff unsigned_take_bit_eq take_bit_nat_eq_self)
  then show "bit w n \<Longrightarrow> n < 15"
    by (metis bit_take_bit_iff)
qed

lemma lp_flags_from_bits_bits: "w AND LP_FLAGS_MASK = lp_flags_bits fl \<Longrightarrow> lp_flags_from_bits w = fl"
  by (cases fl) (simp_all add: lp_flags_from_bits_def)

lemma lp_off_new [simp]:
  assumes "unat off < 32768"
  shows "lp_off (lp_new off fl len) = off"
  by (rule bit_word_eqI)
    (use u15_high_bit [OF assms] in \<open>auto simp: lp_off_def lp_new_def LP_masks bit_simps\<close>)

lemma lp_len_new [simp]:
  assumes "unat len < 32768"
  shows "lp_len (lp_new off fl len) = len"
  by (rule bit_word_eqI)
    (use u15_high_bit [OF assms] in
      \<open>auto simp: lp_len_def lp_new_def LP_masks bit_simps dest: lp_flags_bits_high\<close>)

lemma lp_flags_new [simp]: "lp_flags (lp_new off fl len) = fl"
proof -
  have "drop_bit 15 (lp_new off fl len) AND LP_FLAGS_MASK = lp_flags_bits fl"
    by (rule bit_word_eqI)
      (auto simp: lp_new_def LP_masks bit_simps dest: lp_flags_bits_high)
  then show ?thesis
    by (simp add: lp_flags_def lp_flags_from_bits_bits)
qed

lemma lp_off_less [simp]: "unat (lp_off lp) < 32768"
proof -
  have "unat (lp_off lp) = take_bit 15 (unat lp)"
    by (simp add: lp_off_def LP_masks unsigned_ucast_eq unsigned_take_bit_eq flip: take_bit_eq_mask)
  then show ?thesis
    using take_bit_nat_less_exp [of 15 "unat lp"] by simp
qed

lemma lp_len_less [simp]: "unat (lp_len lp) < 32768"
proof -
  have "unat (lp_len lp) = take_bit 16 (unat (drop_bit 17 lp))"
    by (simp only: lp_len_def unsigned_ucast_eq len_of_numeral_defs) simp
  also have "\<dots> \<le> unat (drop_bit 17 lp)"
    by (rule take_bit_nat_less_eq_self)
  also have "\<dots> = unat lp div 2 ^ 17"
    by (simp add: drop_bit_eq_div unat_div)
  also have "\<dots> < 32768"
    using unsigned_less [of lp, where 'a = nat] by (simp add: less_mult_imp_div_less)
  finally show ?thesis .
qed

lemma lp_with_flags_simps [simp]:
  "lp_off (lp_with_flags lp fl) = lp_off lp"
  "lp_len (lp_with_flags lp fl) = lp_len lp"
  "lp_flags (lp_with_flags lp fl) = fl"
  by (simp_all add: lp_with_flags_def)
section \<open>Page operations\<close>

text \<open>
  Reading and writing a slice whose bounds are computed; out of range, the source panics.
\<close>

definition read_slice :: "nat \<Rightarrow> nat \<Rightarrow> page \<Rightarrow> heap_error + byte list" where
  "read_slice off n pg = (if off + n \<le> length pg then Ok (bytes_at off n pg) else Err HeapPanic)"

definition write_slice :: "nat \<Rightarrow> byte list \<Rightarrow> page \<Rightarrow> heap_error + page" where
  "write_slice off ys pg = (if off + length ys \<le> length pg then Ok (put_at off ys pg) else Err HeapPanic)"

definition HEAP_SPECIAL_SIZE :: nat where "HEAP_SPECIAL_SIZE = 16"

definition init_with_special :: "nat \<Rightarrow> page \<Rightarrow> page" where
  "init_with_special special_size pg =
    (let pg = replicate (length pg) 0;
         pg = header_init_page pg;
         special = of_nat (PAGE_SIZE - special_size);
         pg = put_u16 16 special pg
     in put_u16 18 special pg)"

definition init_if_fresh_with_special :: "nat \<Rightarrow> page \<Rightarrow> page" where
  "init_if_fresh_with_special special_size pg =
    (if pd_upper (header_read_from pg) = 0 then init_with_special special_size pg else pg)"

definition slot_count :: "page \<Rightarrow> nat" where
  "slot_count pg = (unat (pd_lower (header_read_from pg)) - PAGE_HEADER_SIZE) div LINE_POINTER_SIZE"

definition free_space :: "page \<Rightarrow> nat" where
  "free_space pg = unat (pd_upper (header_read_from pg)) - unat (pd_lower (header_read_from pg))"

definition set_next_page :: "page_id option \<Rightarrow> page \<Rightarrow> heap_error + page" where
  "set_next_page next pg =
    write_slice (unat (pd_special (header_read_from pg))) (u64_le (case next of None \<Rightarrow> 0 | Some p \<Rightarrow> p)) pg"

definition checked_header :: "page \<Rightarrow> heap_error + page_header" where
  "checked_header pg =
    (let h = header_read_from pg;
         lower = unat (pd_lower h); upper = unat (pd_upper h); special = unat (pd_special h)
     in if lower < PAGE_HEADER_SIZE \<or> (lower - PAGE_HEADER_SIZE) mod LINE_POINTER_SIZE \<noteq> 0
            \<or> lower > upper \<or> upper > special \<or> special > PAGE_SIZE
        then Err Corrupted else Ok h)"

definition next_page :: "page \<Rightarrow> heap_error + page_id option" where
  "next_page pg =
    try_then (checked_header pg) (\<lambda>h.
      if unat (pd_special h) \<noteq> PAGE_SIZE - HEAP_SPECIAL_SIZE then Err Corrupted
      else try_then (read_slice (unat (pd_special h)) 8 pg) (\<lambda>b.
        let raw = le_u64 b in Ok (if raw = 0 then None else Some raw)))"

definition line_pointer :: "page \<Rightarrow> u16 \<Rightarrow> heap_error + lp_word" where
  "line_pointer pg slot =
    try_then (checked_header pg) (\<lambda>h.
      if unat slot \<ge> (unat (pd_lower h) - PAGE_HEADER_SIZE) div LINE_POINTER_SIZE then Err (InvalidSlot slot)
      else try_then (read_slice (PAGE_HEADER_SIZE + unat slot * LINE_POINTER_SIZE) LINE_POINTER_SIZE pg)
        (\<lambda>b. Ok (le_u32 b)))"

definition set_line_pointer :: "u16 \<Rightarrow> lp_word \<Rightarrow> page \<Rightarrow> heap_error + page" where
  "set_line_pointer slot lp pg = write_slice (PAGE_HEADER_SIZE + unat slot * LINE_POINTER_SIZE) (u32_le lp) pg"

definition set_pd_lower :: "u16 \<Rightarrow> page \<Rightarrow> page" where "set_pd_lower w pg = put_u16 14 w pg"
definition set_pd_upper :: "u16 \<Rightarrow> page \<Rightarrow> page" where "set_pd_upper w pg = put_u16 16 w pg"

text \<open>The first slot, from \<open>slot\<close> on, whose line pointer is unused.\<close>

fun find_unused :: "page \<Rightarrow> nat \<Rightarrow> nat \<Rightarrow> heap_error + u16 option" where
  "find_unused pg slot 0 = Ok None"
| "find_unused pg slot (Suc n) =
    try_then (read_slice (PAGE_HEADER_SIZE + slot * LINE_POINTER_SIZE) LINE_POINTER_SIZE pg) (\<lambda>b.
      if lp_flags (le_u32 b) = LpUnused then Ok (Some (of_nat slot)) else find_unused pg (Suc slot) n)"

definition add_tuple :: "page \<Rightarrow> byte list \<Rightarrow> heap_error + u16 \<times> page" where
  "add_tuple pg bytes =
    (let len = length bytes in
     try_then (checked_header pg) (\<lambda>h.
       let max_tuple = unat (pd_special h) - (PAGE_HEADER_SIZE + LINE_POINTER_SIZE) in
       if len = 0 then Err InvalidArgument
       else if len > max_tuple then Err (TupleTooLarge len)
       else
         let count = (unat (pd_lower h) - PAGE_HEADER_SIZE) div LINE_POINTER_SIZE in
         try_then (find_unused pg 0 count) (\<lambda>recycled.
           let lp_cost = (if recycled \<noteq> None then 0 else LINE_POINTER_SIZE);
               free = unat (pd_upper h - pd_lower h)
           in if free < len + lp_cost then Err (PageFull (len + lp_cost) free)
              else
                let new_upper = unat (pd_upper h) - len in
                try_then (write_slice new_upper bytes pg) (\<lambda>pg.
                try_then
                  (case recycled of
                     Some slot \<Rightarrow>
                       try_then (set_line_pointer slot (lp_new (of_nat new_upper) LpNormal (of_nat len)) pg)
                         (\<lambda>pg. Ok (slot, pg))
                   | None \<Rightarrow>
                       let slot = of_nat count in
                       try_then (set_line_pointer slot (lp_new (of_nat new_upper) LpNormal (of_nat len)) pg)
                         (\<lambda>pg. Ok (slot, set_pd_lower (pd_lower (header_read_from pg) + of_nat LINE_POINTER_SIZE) pg)))
                  (\<lambda>(slot, pg). Ok (slot, set_pd_upper (of_nat new_upper) pg))))))"

definition delete_tuple :: "page \<Rightarrow> u16 \<Rightarrow> heap_error + page" where
  "delete_tuple pg slot =
    try_then (line_pointer pg slot) (\<lambda>lp.
      if lp_flags lp \<noteq> LpNormal then Err (InvalidSlot slot)
      else set_line_pointer slot (lp_with_flags lp LpUnused) pg)"

text \<open>The loop of \<open>tuple\<close> that follows redirects, with its bound.\<close>

fun tuple_loop :: "nat \<Rightarrow> page \<Rightarrow> u16 \<Rightarrow> heap_error + byte list option" where
  "tuple_loop 0 pg cur = Err Corrupted"
| "tuple_loop (Suc n) pg cur =
    (case line_pointer pg cur of
       Inl (InvalidSlot _) \<Rightarrow> Ok None
     | Inl e \<Rightarrow> Err e
     | Inr lp \<Rightarrow>
         if lp_flags lp = LpRedirect then tuple_loop n pg (lp_off lp)
         else if lp_flags lp \<noteq> LpNormal then Ok None
         else try_then (checked_header pg) (\<lambda>h.
           let off = unat (lp_off lp); end_off = off + unat (lp_len lp) in
           if off < unat (pd_upper h) \<or> end_off > unat (pd_special h) then Err Corrupted
           else try_then (read_slice off (end_off - off) pg) (\<lambda>b. Ok (Some b))))"

definition tuple_at :: "page \<Rightarrow> u16 \<Rightarrow> heap_error + byte list option" where
  "tuple_at pg slot = tuple_loop (slot_count pg + 1) pg slot"

text \<open>
  \<open>debug_assert_invariants\<close>: the bounds in the header, and the tuple regions of the live
  slots inside the tuple space and, sorted, one after the other.
\<close>

definition slot_lp :: "page \<Rightarrow> nat \<Rightarrow> lp_word" where
  "slot_lp pg slot = get_u32 pg (PAGE_HEADER_SIZE + slot * LINE_POINTER_SIZE)"

definition lp_region :: "lp_word \<Rightarrow> nat \<times> nat" where
  "lp_region lp = (unat (lp_off lp), unat (lp_off lp) + unat (lp_len lp))"

definition live_slots :: "page \<Rightarrow> nat list" where
  "live_slots pg = filter (\<lambda>slot. lp_flags (slot_lp pg slot) \<noteq> LpUnused) [0..<slot_count pg]"

definition page_invariants :: "page \<Rightarrow> bool" where
  "page_invariants pg \<longleftrightarrow>
    (let h = header_read_from pg;
         regions = map (\<lambda>slot. lp_region (slot_lp pg slot)) (live_slots pg)
     in unat (pd_lower h) \<ge> PAGE_HEADER_SIZE \<and> unat (pd_lower h) \<le> unat (pd_upper h) \<and>
        unat (pd_upper h) \<le> unat (pd_special h) \<and> unat (pd_special h) \<le> PAGE_SIZE \<and>
        (unat (pd_lower h) - PAGE_HEADER_SIZE) mod LINE_POINTER_SIZE = 0 \<and>
        list_all (\<lambda>(off, end_off). off \<ge> unat (pd_upper h) \<and> end_off \<le> unat (pd_special h)) regions \<and>
        successively (\<lambda>a b. snd a \<le> fst b) (sort regions))"

section \<open>Geometry\<close>

abbreviation hlower :: "page \<Rightarrow> nat" where "hlower pg \<equiv> unat (pd_lower (header_read_from pg))"
abbreviation hupper :: "page \<Rightarrow> nat" where "hupper pg \<equiv> unat (pd_upper (header_read_from pg))"
abbreviation hspecial :: "page \<Rightarrow> nat" where "hspecial pg \<equiv> unat (pd_special (header_read_from pg))"

definition geometry :: "page \<Rightarrow> bool" where
  "geometry pg \<longleftrightarrow> 32 \<le> hlower pg \<and> (hlower pg - 32) mod 4 = 0 \<and> hlower pg \<le> hupper pg \<and>
    hupper pg \<le> hspecial pg \<and> hspecial pg \<le> 8192"

lemmas page_sizes = PAGE_SIZE_def PAGE_HEADER_SIZE_def LINE_POINTER_SIZE_def HEAP_SPECIAL_SIZE_def

lemma checked_header_eq:
  "checked_header pg = (if geometry pg then Ok (header_read_from pg) else Err Corrupted)"
  unfolding checked_header_def geometry_def Let_def page_sizes by (simp add: not_less not_le)

lemma geometry_lower: "geometry pg \<Longrightarrow> hlower pg = 32 + 4 * slot_count pg"
  unfolding geometry_def slot_count_def page_sizes by presburger

lemma geometry_bounds:
  assumes "geometry pg"
  shows "32 + 4 * slot_count pg \<le> hupper pg" "hupper pg \<le> hspecial pg" "hspecial pg \<le> 8192"
    "slot_count pg \<le> 2040"
  using geometry_lower [OF assms] assms by (auto simp: geometry_def)

lemma line_pointer_eq:
  assumes "length pg = PAGE_SIZE"
  shows "line_pointer pg slot =
    (if \<not> geometry pg then Err Corrupted
     else if unat slot \<ge> slot_count pg then Err (InvalidSlot slot) else Ok (slot_lp pg (unat slot)))"
proof (cases "geometry pg")
  case True
  then have "unat slot < slot_count pg \<Longrightarrow> 32 + unat slot * 4 + 4 \<le> 8192"
    using geometry_bounds [OF True] by linarith
  then show ?thesis
    using True assms
    by (auto simp: line_pointer_def checked_header_eq slot_count_def read_slice_def page_sizes slot_lp_def get_u32_def)
qed (simp add: line_pointer_def checked_header_eq)

lemma find_unused_eq:
  assumes "length pg = PAGE_SIZE" "slot + n \<le> 2040"
  shows "find_unused pg slot n =
    Ok (map_option of_nat (find (\<lambda>i. lp_flags (slot_lp pg i) = LpUnused) [slot..<slot + n]))"
  using assms(2)
proof (induction n arbitrary: slot)
  case (Suc n)
  then have "find_unused pg (Suc slot) n =
    Ok (map_option of_nat (find (\<lambda>i. lp_flags (slot_lp pg i) = LpUnused) [Suc slot..<Suc slot + n]))"
    by simp
  moreover have "[slot..<slot + Suc n] = slot # [Suc slot..<Suc slot + n]"
    by (simp add: upt_conv_Cons)
  moreover have "32 + slot * 4 + 4 \<le> 8192"
    using Suc.prems by simp
  ultimately show ?case
    using assms(1) by (simp add: read_slice_def page_sizes slot_lp_def get_u32_def)
qed simp

section \<open>Invariant\<close>

definition apart :: "nat \<times> nat \<Rightarrow> nat \<times> nat \<Rightarrow> bool" where
  "apart a b \<longleftrightarrow> snd a \<le> fst b \<or> snd b \<le> fst a"

lemma sorted_wrt_insort_sym:
  assumes "symp R"
  shows "sorted_wrt R (insort x xs) \<longleftrightarrow> (\<forall>y \<in> set xs. R x y) \<and> sorted_wrt R xs"
  using assms by (induction xs) (auto simp: set_insort_key dest: sympD)

lemma sorted_wrt_sort_sym: "symp R \<Longrightarrow> sorted_wrt R (sort xs) \<longleftrightarrow> sorted_wrt R xs"
  by (induction xs) (simp_all add: sorted_wrt_insort_sym)


lemma sorted_regions_iff:
  fixes xs :: "(nat \<times> nat) list"
  assumes "\<And>a. a \<in> set xs \<Longrightarrow> fst a \<le> snd a"
  shows "successively (\<lambda>a b. snd a \<le> fst b) (sort xs) \<longleftrightarrow> sorted_wrt apart xs"
proof -
  let ?R = "\<lambda>a b :: nat \<times> nat. snd a \<le> fst b"
  have sym: "symp apart"
    by (auto simp: symp_def apart_def)
  have f: "\<And>a. a \<in> set (sort xs) \<Longrightarrow> fst a \<le> snd a"
    using assms by simp
  have "successively ?R ys \<longleftrightarrow> sorted_wrt apart ys"
    if "sorted ys" "\<And>a. a \<in> set ys \<Longrightarrow> fst a \<le> snd a" for ys :: "(nat \<times> nat) list"
    using that
  proof (induction ys)
    case (Cons a ys)
    have IH: "successively ?R ys \<longleftrightarrow> sorted_wrt apart ys"
      using Cons by simp
    show ?case
    proof (cases ys)
      case (Cons b zs)
      have ab: "a \<le> b" "fst b \<le> snd b" "fst a \<le> snd a"
        using Cons Cons.prems by auto
      have "apart a b \<longleftrightarrow> snd a \<le> fst b"
        using ab by (cases a; cases b) (auto simp: apart_def less_eq_prod_def)
      moreover have "apart a c" if "snd a \<le> fst b" "c \<in> set zs" for c
      proof -
        have "b \<le> c"
          using Cons that(2) Cons.prems(1) by simp
        then have "fst b \<le> fst c"
          by (cases b; cases c) auto
        then show ?thesis
          using that(1) by (simp add: apart_def)
      qed
      ultimately show ?thesis
        using IH Cons by auto
    qed simp
  qed simp
  from this [OF sorted_sort f] show ?thesis
    by (simp add: sorted_wrt_sort_sym [OF sym])
qed

lemma sorted_wrt_map_filter_upt:
  "sorted_wrt R (map f (filter P [0..<n])) \<longleftrightarrow> (\<forall>i j. i < j \<and> j < n \<and> P i \<and> P j \<longrightarrow> R (f i) (f j))"
  by (induction n) (auto simp: sorted_wrt_append less_Suc_eq)

definition live :: "page \<Rightarrow> nat \<Rightarrow> bool" where
  "live pg i \<longleftrightarrow> i < slot_count pg \<and> lp_flags (slot_lp pg i) \<noteq> LpUnused"

lemma page_invariants_iff:
  "page_invariants pg \<longleftrightarrow> geometry pg \<and>
    (\<forall>i. live pg i \<longrightarrow> hupper pg \<le> fst (lp_region (slot_lp pg i)) \<and> snd (lp_region (slot_lp pg i)) \<le> hspecial pg) \<and>
    (\<forall>i j. i < j \<and> live pg i \<and> live pg j \<longrightarrow> apart (lp_region (slot_lp pg i)) (lp_region (slot_lp pg j)))"
proof -
  let ?reg = "\<lambda>slot. lp_region (slot_lp pg slot)"
  have r: "successively (\<lambda>a b. snd a \<le> fst b) (sort (map ?reg (live_slots pg))) \<longleftrightarrow>
      (\<forall>i j. i < j \<and> live pg i \<and> live pg j \<longrightarrow> apart (?reg i) (?reg j))"
    by (subst sorted_regions_iff) (auto simp: lp_region_def live_slots_def live_def sorted_wrt_map_filter_upt)
  show ?thesis
    unfolding page_invariants_def Let_def r geometry_def page_sizes
    by (auto simp: list_all_iff live_slots_def live_def lp_region_def)
qed

text \<open>
  The invariant the theorems use: the source's own assertions, on a whole page, with no
  redirecting line pointer (nothing in the system writes one).
\<close>

definition page_ok :: "page \<Rightarrow> bool" where
  "page_ok pg \<longleftrightarrow> length pg = PAGE_SIZE \<and> page_invariants pg \<and>
    list_all (\<lambda>i. lp_flags (slot_lp pg i) \<noteq> LpRedirect) [0..<slot_count pg]"

section \<open>Placing a tuple\<close>

text \<open>
  The page after a successful insertion: the bytes at the new upper bound, the line
  pointer of the slot, and the two bounds of the free space.
\<close>

definition placed :: "nat \<Rightarrow> nat \<Rightarrow> nat \<Rightarrow> byte list \<Rightarrow> page \<Rightarrow> page" where
  "placed upper lower s bs pg =
    put_u16 16 (of_nat upper) (put_u16 14 (of_nat lower)
      (put_u32 (32 + s * 4) (lp_new (of_nat upper) LpNormal (of_nat (length bs))) (put_at upper bs pg)))"

lemma header_put_16 [simp]:
  assumes "32 \<le> length pg"
  shows "hlower (put_u16 14 w pg) = unat w" "hupper (put_u16 14 w pg) = hupper pg"
    "hspecial (put_u16 14 w pg) = hspecial pg"
    "hlower (put_u16 16 w pg) = hlower pg" "hupper (put_u16 16 w pg) = unat w"
    "hspecial (put_u16 16 w pg) = hspecial pg"
  using assms by (simp_all add: header_read_from_def buf_simps)

lemma header_put_at [simp]:
  assumes "32 \<le> off" "off + length ys \<le> length pg"
  shows "header_read_from (put_at off ys pg) = header_read_from pg"
  using assms by (simp add: header_read_from_def page_pd_lsn_def buf_simps)

lemma header_put_u32 [simp]:
  assumes "32 \<le> off" "off + 4 \<le> length pg"
  shows "header_read_from (put_u32 off w pg) = header_read_from pg"
  using assms by (simp add: put_u32_def)

lemma page_pd_lsn_put_u16: "8 \<le> off \<Longrightarrow> off + 2 \<le> length pg \<Longrightarrow> page_pd_lsn (put_u16 off w pg) = page_pd_lsn pg"
  by (simp add: page_pd_lsn_def buf_simps)

lemma put_u16_id: "off + 2 \<le> length pg \<Longrightarrow> put_u16 off (get_u16 pg off) pg = pg"
  by (simp add: put_u16_def get_u16_def uN_le_le_uN)

text \<open>Everything the operations read of a page in which a tuple was placed.\<close>

lemma placed_facts:
  assumes "length pg = PAGE_SIZE" "32 + s * 4 + 4 \<le> lower" "lower \<le> upper" "upper + length bs \<le> 8192"
  shows "length (placed upper lower s bs pg) = PAGE_SIZE"
    "hlower (placed upper lower s bs pg) = lower"
    "hupper (placed upper lower s bs pg) = upper"
    "hspecial (placed upper lower s bs pg) = hspecial pg"
    "page_pd_lsn (placed upper lower s bs pg) = page_pd_lsn pg"
    "i * 4 + 36 \<le> upper \<Longrightarrow> slot_lp (placed upper lower s bs pg) i =
       (if i = s then lp_new (of_nat upper) LpNormal (of_nat (length bs)) else slot_lp pg i)"
    "bytes_at upper (length bs) (placed upper lower s bs pg) = bs"
    "upper + length bs \<le> off \<Longrightarrow> bytes_at off n (placed upper lower s bs pg) = bytes_at off n pg"
proof -
  note b = assms [unfolded PAGE_SIZE_def]
  let ?p1 = "put_at upper bs pg"
  let ?lp = "lp_new (of_nat upper) LpNormal (of_nat (length bs))"
  let ?p2 = "put_u32 (32 + s * 4) ?lp ?p1"
  let ?p3 = "put_u16 14 (of_nat lower) ?p2"
  have l1: "length ?p1 = 8192"
    using b by simp
  have l2: "length ?p2 = 8192"
    using b l1 by simp
  have l3: "length ?p3 = 8192"
    using l2 by simp
  show "length (placed upper lower s bs pg) = PAGE_SIZE"
    using l3 by (simp add: placed_def PAGE_SIZE_def)
  have u: "unat (of_nat upper :: u16) = upper" "unat (of_nat lower :: u16) = lower"
    using b by (simp_all add: unat_of_nat)
  show "hlower (placed upper lower s bs pg) = lower" "hupper (placed upper lower s bs pg) = upper"
    using l2 l3 u by (simp_all add: placed_def)
  have h: "header_read_from ?p2 = header_read_from pg"
    using b l1 by simp
  show "hspecial (placed upper lower s bs pg) = hspecial pg"
    using l2 l3 h by (simp add: placed_def)
  show "page_pd_lsn (placed upper lower s bs pg) = page_pd_lsn pg"
    using l1 l2 l3 b by (simp add: placed_def page_pd_lsn_put_u16) (simp add: page_pd_lsn_def buf_simps)
  show "slot_lp (placed upper lower s bs pg) i = (if i = s then ?lp else slot_lp pg i)" if "i * 4 + 36 \<le> upper"
  proof (cases "i = s")
    case False
    then have d: "(32 + i * 4) + 4 \<le> 32 + s * 4 \<or> (32 + s * 4) + 4 \<le> 32 + i * 4"
      by linarith
    have "get_u32 ?p2 (32 + i * 4) = get_u32 ?p1 (32 + i * 4)"
      by (rule get_u32_put(2)) (use l1 b d in auto)
    also have "\<dots> = get_u32 pg (32 + i * 4)"
      by (rule get_u32_put(4)) (use b that in auto)
    finally show ?thesis
      using l2 l3 False by (simp add: placed_def slot_lp_def page_sizes buf_simps)
  qed (use l1 l2 l3 b in \<open>simp add: placed_def slot_lp_def page_sizes buf_simps\<close>)
  show "bytes_at upper (length bs) (placed upper lower s bs pg) = bs"
    using l1 l2 l3 b by (simp add: placed_def buf_simps)
  show "bytes_at off n (placed upper lower s bs pg) = bytes_at off n pg" if "upper + length bs \<le> off"
    using l1 l2 l3 b that by (simp add: placed_def buf_simps)
qed


text \<open>A successful insertion places the tuple at a free slot.\<close>

definition free_slot :: "page \<Rightarrow> nat" where
  "free_slot pg =
    (case find (\<lambda>i. lp_flags (slot_lp pg i) = LpUnused) [0..<slot_count pg] of Some i \<Rightarrow> i | None \<Rightarrow> slot_count pg)"

definition lower_after :: "page \<Rightarrow> nat" where
  "lower_after pg = 32 + 4 * max (slot_count pg) (free_slot pg + 1)"

lemma free_slot_le: "free_slot pg \<le> slot_count pg"
  unfolding free_slot_def by (auto simp: find_Some_iff split: option.splits)

lemma free_slot_not_live: "\<not> live pg (free_slot pg)"
  unfolding free_slot_def live_def by (auto simp: find_Some_iff split: option.splits)

lemma placed_same_lower:
  assumes "length pg = 8192" "32 + s * 4 + 4 \<le> upper" "upper + length bs \<le> 8192"
  shows "placed upper (hlower pg) s bs pg =
    put_u16 16 (of_nat upper)
      (put_u32 (32 + s * 4) (lp_new (of_nat upper) LpNormal (of_nat (length bs))) (put_at upper bs pg))"
proof -
  let ?p2 = "put_u32 (32 + s * 4) (lp_new (of_nat upper) LpNormal (of_nat (length bs))) (put_at upper bs pg)"
  have l: "length (put_at upper bs pg) = 8192" "length ?p2 = 8192"
    using assms by simp_all
  have "header_read_from ?p2 = header_read_from pg"
    using assms l by simp
  then have "pd_lower (header_read_from pg) = get_u16 ?p2 14"
    by (simp add: header_read_from_def)
  then show ?thesis
    using l put_u16_id [of 14 ?p2] by (simp add: placed_def)
qed

lemma add_tuple_eq:
  assumes "length pg = PAGE_SIZE"
  shows "add_tuple pg bs =
    (if \<not> geometry pg then Err Corrupted
     else if bs = [] then Err InvalidArgument
     else if length bs > hspecial pg - 36 then Err (TupleTooLarge (length bs))
     else if hupper pg < length bs + lower_after pg
       then Err (PageFull (length bs + (lower_after pg - hlower pg)) (hupper pg - hlower pg))
     else Ok (of_nat (free_slot pg), placed (hupper pg - length bs) (lower_after pg) (free_slot pg) bs pg))"
proof (cases "geometry pg \<and> bs \<noteq> [] \<and> length bs \<le> hspecial pg - 36")
  case False
  then show ?thesis
    by (auto simp: add_tuple_def checked_header_eq Let_def page_sizes)
next
  case True
  let ?h = "header_read_from pg"
  let ?f = "find (\<lambda>i. lp_flags (slot_lp pg i) = LpUnused) [0..<slot_count pg]"
  note g = geometry_bounds [OF conjunct1 [OF True]] geometry_lower [OF conjunct1 [OF True]]
  have len: "length pg = 8192"
    using assms by (simp add: PAGE_SIZE_def)
  have fu: "find_unused pg 0 (slot_count pg) = Ok (map_option of_nat ?f)"
    using find_unused_eq [OF assms, of 0 "slot_count pg"] g(4) by simp
  have sc: "(hlower pg - 32) div 4 = slot_count pg"
    by (simp add: slot_count_def page_sizes)
  have le: "pd_lower ?h \<le> pd_upper ?h"
    using g by (simp add: word_le_nat_alt)
  have free: "unat (pd_upper ?h - pd_lower ?h) = hupper pg - hlower pg"
    using le by (rule unat_sub)
  show ?thesis
  proof (cases ?f)
    case None
    have fs: "free_slot pg = slot_count pg" "lower_after pg = hlower pg + 4"
      using None g(5) by (simp_all add: free_slot_def lower_after_def)
    have us: "unat (of_nat (slot_count pg) :: u16) = slot_count pg"
      using g(4) by (simp add: unat_of_nat)
    have lw: "pd_lower ?h + 4 = of_nat (hlower pg + 4)"
      by simp
    show ?thesis
      using True None fs us lw g len free sc fu
      by (auto simp: add_tuple_def checked_header_eq Let_def page_sizes write_slice_def set_line_pointer_def
          placed_def set_pd_lower_def set_pd_upper_def put_u32_def)
  next
    case (Some i)
    have i: "i < slot_count pg"
      using Some by (auto simp: find_Some_iff)
    have fs: "free_slot pg = i" "lower_after pg = hlower pg"
      using Some i g(5) by (auto simp: free_slot_def lower_after_def)
    have us: "unat (of_nat i :: u16) = i"
      using g(4) i by (simp add: unat_of_nat)
    have pl: "placed (hupper pg - length bs) (hlower pg) i bs pg =
        put_u16 16 (of_nat (hupper pg - length bs)) (put_u32 (32 + i * 4)
          (lp_new (of_nat (hupper pg - length bs)) LpNormal (of_nat (length bs))) (put_at (hupper pg - length bs) bs pg))"
      if "length bs + hlower pg \<le> hupper pg"
      by (rule placed_same_lower) (use that g i len in auto)
    show ?thesis
      using True Some fs us g len free sc fu i pl
      by (auto simp: add_tuple_def checked_header_eq Let_def page_sizes write_slice_def set_line_pointer_def
          set_pd_lower_def set_pd_upper_def put_u32_def not_less)
  qed
qed

section \<open>The page as a map from slots to tuples\<close>

definition page_tuples :: "page \<Rightarrow> u16 \<Rightarrow> byte list option" where
  "page_tuples pg slot = (case tuple_at pg slot of Inr r \<Rightarrow> r | Inl _ \<Rightarrow> None)"

lemma page_okD:
  assumes "page_ok pg"
  shows "length pg = PAGE_SIZE" "geometry pg"
    "live pg i \<Longrightarrow> hupper pg \<le> unat (lp_off (slot_lp pg i))"
    "live pg i \<Longrightarrow> unat (lp_off (slot_lp pg i)) + unat (lp_len (slot_lp pg i)) \<le> hspecial pg"
    "live pg i \<Longrightarrow> live pg j \<Longrightarrow> i \<noteq> j \<Longrightarrow> apart (lp_region (slot_lp pg i)) (lp_region (slot_lp pg j))"
    "i < slot_count pg \<Longrightarrow> lp_flags (slot_lp pg i) \<noteq> LpRedirect"
proof -
  have p: "page_invariants pg"
    using assms by (simp add: page_ok_def)
  show "length pg = PAGE_SIZE" "geometry pg"
    "live pg i \<Longrightarrow> hupper pg \<le> unat (lp_off (slot_lp pg i))"
    "live pg i \<Longrightarrow> unat (lp_off (slot_lp pg i)) + unat (lp_len (slot_lp pg i)) \<le> hspecial pg"
    "i < slot_count pg \<Longrightarrow> lp_flags (slot_lp pg i) \<noteq> LpRedirect"
    using assms p by (auto simp: page_ok_def page_invariants_iff lp_region_def list_all_iff)
  have "a \<noteq> b \<Longrightarrow> apart (lp_region (slot_lp pg a)) (lp_region (slot_lp pg b))"
    if "live pg a" "live pg b" for a b
    using p that unfolding page_invariants_iff apart_def by (metis linorder_neqE_nat)
  then show "live pg i \<Longrightarrow> live pg j \<Longrightarrow> i \<noteq> j \<Longrightarrow> apart (lp_region (slot_lp pg i)) (lp_region (slot_lp pg j))"
    by blast
qed

lemma page_okI:
  assumes "length pg = PAGE_SIZE" "geometry pg"
    "\<And>i. live pg i \<Longrightarrow> hupper pg \<le> unat (lp_off (slot_lp pg i))"
    "\<And>i. live pg i \<Longrightarrow> unat (lp_off (slot_lp pg i)) + unat (lp_len (slot_lp pg i)) \<le> hspecial pg"
    "\<And>i j. live pg i \<Longrightarrow> live pg j \<Longrightarrow> i < j \<Longrightarrow> apart (lp_region (slot_lp pg i)) (lp_region (slot_lp pg j))"
    "\<And>i. i < slot_count pg \<Longrightarrow> lp_flags (slot_lp pg i) \<noteq> LpRedirect"
  shows "page_ok pg"
  using assms by (auto simp: page_ok_def page_invariants_iff lp_region_def list_all_iff)

lemma tuple_at_eq:
  assumes "page_ok pg"
  shows "tuple_at pg slot =
    Ok (if unat slot < slot_count pg \<and> lp_flags (slot_lp pg (unat slot)) = LpNormal
        then Some (bytes_at (unat (lp_off (slot_lp pg (unat slot)))) (unat (lp_len (slot_lp pg (unat slot)))) pg)
        else None)"
proof -
  note p = page_okD [OF assms]
  have "live pg (unat slot)" if "unat slot < slot_count pg" "lp_flags (slot_lp pg (unat slot)) = LpNormal"
    using that by (simp add: live_def)
  then show ?thesis
    using p(1,2) p(3,4,6) [of "unat slot"] geometry_bounds [OF p(2)]
    by (auto simp: tuple_at_def line_pointer_eq checked_header_eq Let_def read_slice_def PAGE_SIZE_def)
qed

lemma page_tuples_eq:
  assumes "page_ok pg"
  shows "page_tuples pg slot =
    (if unat slot < slot_count pg \<and> lp_flags (slot_lp pg (unat slot)) = LpNormal
     then Some (bytes_at (unat (lp_off (slot_lp pg (unat slot)))) (unat (lp_len (slot_lp pg (unat slot)))) pg)
     else None)"
  by (simp add: page_tuples_def tuple_at_eq [OF assms])

lemma add_tuple_Ok:
  assumes ok: "page_ok pg" and add: "add_tuple pg bs = Ok (slot, pg')"
  shows "page_ok pg'" "page_tuples pg slot = None" "page_tuples pg' = (page_tuples pg)(slot \<mapsto> bs)"
    "hspecial pg' = hspecial pg" "page_pd_lsn pg' = page_pd_lsn pg"
    "hspecial pg \<le> off \<Longrightarrow> bytes_at off n pg' = bytes_at off n pg"
    "slot = of_nat (free_slot pg)" "slot_count pg' = max (slot_count pg) (free_slot pg + 1)"
proof -
  note p = page_okD [OF ok] and g = geometry_bounds [OF page_okD(2) [OF ok]]
  let ?s = "free_slot pg" and ?u = "hupper pg - length bs" and ?l = "lower_after pg"
  have c: "bs \<noteq> []" "length bs + ?l \<le> hupper pg" and slot: "slot = of_nat ?s" and pg': "pg' = placed ?u ?l ?s bs pg"
    using add p(1,2) by (auto simp: add_tuple_eq split: if_splits)
  define m where "m = max (slot_count pg) (?s + 1)"
  have m: "?l = 32 + 4 * m" "slot_count pg \<le> m" "?s < m"
    by (auto simp: m_def lower_after_def)
  have sc: "?s \<le> slot_count pg" "?s < 2040"
    using free_slot_le [of pg] g c m by auto
  have us: "unat slot = ?s"
    using sc slot by (simp add: unat_of_nat)
  have "32 + ?s * 4 + 4 \<le> ?l" "?l \<le> ?u" "?u + length bs \<le> 8192"
    using c g m by auto
  note f = placed_facts [OF p(1) this, folded pg']
  show sp: "hspecial pg' = hspecial pg" and "page_pd_lsn pg' = page_pd_lsn pg"
    using f(4,5) by auto
  show "hspecial pg \<le> off \<Longrightarrow> bytes_at off n pg' = bytes_at off n pg"
    using f(8) c g by simp
  show "slot = of_nat (free_slot pg)"
    by (rule slot)
  show sc': "slot_count pg' = max (slot_count pg) (?s + 1)"
    using f(2) m(1) by (simp add: slot_count_def page_sizes m_def)
  let ?lp = "lp_new (of_nat ?u) LpNormal (of_nat (length bs))"
  have lp: "slot_lp pg' i = (if i = ?s then ?lp else slot_lp pg i)" if "i < slot_count pg'" for i
    by (rule f(6)) (use that sc' [folded m_def] c m in linarith)
  have u15: "unat (of_nat ?u :: u16) = ?u" "unat (of_nat (length bs) :: u16) = length bs"
    by (rule unat_of_nat_uN, use c g in simp)+
  have new: "unat (lp_off ?lp) = ?u" "unat (lp_len ?lp) = length bs" "lp_flags ?lp = LpNormal"
    using c g u15 by simp_all
  have geo: "geometry pg'"
    using f(2,3) sp g c m by (auto simp: geometry_def)
  have lv: "live pg' i \<longleftrightarrow> i = ?s \<or> live pg i" for i
    using lp [of i] sc' new(3) free_slot_le [of pg] by (auto simp: live_def split: if_splits)
  have ns: "live pg i \<Longrightarrow> i \<noteq> ?s" for i
    using free_slot_not_live by blast
  have old: "slot_lp pg' i = slot_lp pg i" if "live pg i" for i
    using lp [of i] sc' ns [OF that] that by (auto simp: live_def)
  have news: "slot_lp pg' ?s = ?lp"
    using lp [of ?s] sc' by simp
  show ok': "page_ok pg'"
  proof (rule page_okI)
    show "hupper pg' \<le> unat (lp_off (slot_lp pg' i))" if "live pg' i" for i
    proof (cases "i = ?s")
      case False
      then have l: "live pg i"
        using that lv by simp
      then show ?thesis
        using p(3) [OF l] old [OF l] f(3) by simp
    qed (use news new f(3) in simp)
    show "unat (lp_off (slot_lp pg' i)) + unat (lp_len (slot_lp pg' i)) \<le> hspecial pg'" if "live pg' i" for i
    proof (cases "i = ?s")
      case False
      then have l: "live pg i"
        using that lv by simp
      then show ?thesis
        using p(4) [OF l] old [OF l] sp by simp
    qed (use news new c g sp in simp)
    show "apart (lp_region (slot_lp pg' i)) (lp_region (slot_lp pg' j))" if "live pg' i" "live pg' j" "i < j" for i j
    proof -
      have a: "apart (lp_region ?lp) (lp_region (slot_lp pg k))" "apart (lp_region (slot_lp pg k)) (lp_region ?lp)"
        if "live pg k" for k
        using p(3) [OF that] new c by (auto simp: apart_def lp_region_def)
      show ?thesis
        using that lv old news a p(5) [of i j] by (metis nat_neq_iff)
    qed
    show "lp_flags (slot_lp pg' i) \<noteq> LpRedirect" if "i < slot_count pg'" for i
      using lp [OF that] new(3) p(6) [of i] that sc' free_slot_le [of pg] by (auto split: if_splits)
  qed (use f(1) geo in auto)
  show "page_tuples pg slot = None"
    using free_slot_not_live [of pg] us by (auto simp: page_tuples_eq [OF ok] live_def)
  show "page_tuples pg' = (page_tuples pg)(slot \<mapsto> bs)"
  proof
    fix k :: u16
    show "page_tuples pg' k = ((page_tuples pg)(slot \<mapsto> bs)) k"
    proof (cases "k = slot")
      case True
      then show ?thesis
        using news new f(7) sc' us by (simp add: page_tuples_eq [OF ok'])
    next
      case False
      then have "unat k \<noteq> ?s"
        using us by (metis word_unat_eq_iff)
      then have *: "unat k < slot_count pg' \<longleftrightarrow> unat k < slot_count pg"
        "unat k < slot_count pg \<Longrightarrow> slot_lp pg' (unat k) = slot_lp pg (unat k)"
        using sc' free_slot_le [of pg] lp [of "unat k"] by auto
      have "bytes_at (unat (lp_off (slot_lp pg (unat k)))) n pg' = bytes_at (unat (lp_off (slot_lp pg (unat k)))) n pg"
        if "unat k < slot_count pg" "lp_flags (slot_lp pg (unat k)) = LpNormal" for n
        by (rule f(8)) (use p(3) [of "unat k"] that c in \<open>auto simp: live_def\<close>)
      then show ?thesis
        using * False by (auto simp: page_tuples_eq [OF ok'] page_tuples_eq [OF ok])
    qed
  qed
qed

text \<open>Overwriting a line pointer or bytes of the tuple space keeps the header.\<close>

lemma slot_count_cong: "header_read_from pg' = header_read_from pg \<Longrightarrow> slot_count pg' = slot_count pg"
  by (simp add: slot_count_def)

lemma slot_lp_put_u32:
  assumes "32 + s * 4 + 4 \<le> length pg"
  shows "slot_lp (put_u32 (32 + s * 4) lp pg) i = (if i = s then lp else slot_lp pg i)"
proof (cases "i = s")
  case False
  then have "(32 + i * 4) + 4 \<le> 32 + s * 4 \<or> (32 + s * 4) + 4 \<le> 32 + i * 4"
    by linarith
  then show ?thesis
    using False assms by (simp add: slot_lp_def page_sizes get_u32_put(2))
qed (use assms in \<open>simp add: slot_lp_def page_sizes buf_simps\<close>)

lemma delete_tuple_eq:
  assumes "page_ok pg"
  shows "delete_tuple pg slot =
    (if page_tuples pg slot = None then Err (InvalidSlot slot)
     else Ok (put_u32 (32 + unat slot * 4) (lp_with_flags (slot_lp pg (unat slot)) LpUnused) pg))"
proof -
  note p = page_okD [OF assms] and g = geometry_bounds [OF page_okD(2) [OF assms]]
  have "32 + unat slot * 4 + 4 \<le> 8192" if "unat slot < slot_count pg"
    using that g by linarith
  then show ?thesis
    using p(1,2)
    by (auto simp: delete_tuple_def line_pointer_eq page_tuples_eq [OF assms] set_line_pointer_def write_slice_def
        page_sizes put_u32_def)
qed

lemma delete_tuple_Ok:
  assumes ok: "page_ok pg" and del: "delete_tuple pg slot = Ok pg'"
  shows "page_ok pg'" "page_tuples pg slot \<noteq> None" "page_tuples pg' = (page_tuples pg)(slot := None)"
    "header_read_from pg' = header_read_from pg" "hspecial pg \<le> off \<Longrightarrow> bytes_at off n pg' = bytes_at off n pg"
proof -
  note p = page_okD [OF ok] and g = geometry_bounds [OF page_okD(2) [OF ok]]
  let ?s = "unat slot" and ?lp = "lp_with_flags (slot_lp pg (unat slot)) LpUnused"
  have pg': "pg' = put_u32 (32 + ?s * 4) ?lp pg" and old: "page_tuples pg slot \<noteq> None"
    using del by (auto simp: delete_tuple_eq [OF ok] split: if_splits)
  show "page_tuples pg slot \<noteq> None"
    by (rule old)
  have s: "?s < slot_count pg" "lp_flags (slot_lp pg ?s) = LpNormal"
    using old by (auto simp: page_tuples_eq [OF ok] split: if_splits)
  have b: "length pg = 8192" "32 + ?s * 4 + 4 \<le> 8192" "32 + ?s * 4 + 4 \<le> hupper pg"
    using p(1) g s(1) by (auto simp: PAGE_SIZE_def)
  show h: "header_read_from pg' = header_read_from pg"
    using b by (simp add: pg')
  have tail: "bytes_at off n pg' = bytes_at off n pg" if "hupper pg \<le> off" for off n
    using b that by (simp add: pg' buf_simps)
  then show "hspecial pg \<le> off \<Longrightarrow> bytes_at off n pg' = bytes_at off n pg"
    using g by simp
  have lp: "slot_lp pg' i = (if i = ?s then ?lp else slot_lp pg i)" for i
    using slot_lp_put_u32 b by (simp add: pg')
  have sc: "slot_count pg' = slot_count pg"
    using h by (rule slot_count_cong)
  have lv: "live pg' i \<longleftrightarrow> i \<noteq> ?s \<and> live pg i" for i
    using lp [of i] sc by (auto simp: live_def)
  show ok': "page_ok pg'"
  proof (rule page_okI)
    show "length pg' = PAGE_SIZE" "geometry pg'"
      using b p(2) h by (simp_all add: pg' PAGE_SIZE_def geometry_def)
    show "lp_flags (slot_lp pg' i) \<noteq> LpRedirect" if "i < slot_count pg'" for i
      using p(6) [of i] that lp [of i] sc by auto
    show "apart (lp_region (slot_lp pg' i)) (lp_region (slot_lp pg' j))" if "live pg' i" "live pg' j" "i < j" for i j
      using p(5) [of i j] that lv lp by simp
    show "hupper pg' \<le> unat (lp_off (slot_lp pg' i))" if "live pg' i" for i
      using p(3) [of i] that lv lp h by simp
    show "unat (lp_off (slot_lp pg' i)) + unat (lp_len (slot_lp pg' i)) \<le> hspecial pg'" if "live pg' i" for i
      using p(4) [of i] that lv lp h by simp
  qed
  show "page_tuples pg' = (page_tuples pg)(slot := None)"
  proof
    fix k :: u16
    have "unat k = ?s \<longleftrightarrow> k = slot"
      by (simp add: word_unat_eq_iff)
    moreover have "bytes_at (unat (lp_off (slot_lp pg (unat k)))) n pg' = bytes_at (unat (lp_off (slot_lp pg (unat k)))) n pg"
      if "unat k < slot_count pg" "lp_flags (slot_lp pg (unat k)) = LpNormal" for n
      by (rule tail) (use p(3) [of "unat k"] that in \<open>auto simp: live_def\<close>)
    ultimately show "page_tuples pg' k = ((page_tuples pg)(slot := None)) k"
      using lp [of "unat k"] sc by (auto simp: page_tuples_eq [OF ok'] page_tuples_eq [OF ok])
  qed
qed

lemma next_page_cong:
  assumes "length pg' = length pg" "hlower pg' \<le> hupper pg'" "hlower pg \<le> hupper pg" "geometry pg' = geometry pg"
    "hspecial pg' = hspecial pg" "bytes_at (hspecial pg) 8 pg' = bytes_at (hspecial pg) 8 pg"
  shows "next_page pg' = next_page pg"
  using assms by (auto simp: next_page_def checked_header_eq read_slice_def)

text \<open>Overwriting bytes inside a tuple changes that tuple and nothing else.\<close>

lemma write_in_tuple:
  assumes ok: "page_ok pg" and t: "page_tuples pg slot = Some bs" and r: "o2 + length ys \<le> length bs"
    and pg': "pg' = put_at (unat (lp_off (slot_lp pg (unat slot))) + o2) ys pg"
  shows "page_ok pg'" "page_tuples pg' = (page_tuples pg)(slot \<mapsto> put_at o2 ys bs)"
    "header_read_from pg' = header_read_from pg" "hspecial pg \<le> off \<Longrightarrow> bytes_at off n pg' = bytes_at off n pg"
proof -
  note p = page_okD [OF ok] and g = geometry_bounds [OF page_okD(2) [OF ok]]
  let ?s = "unat slot" let ?o = "unat (lp_off (slot_lp pg ?s))" and ?n = "unat (lp_len (slot_lp pg ?s))"
  have s: "?s < slot_count pg" "lp_flags (slot_lp pg ?s) = LpNormal" and bs: "bs = bytes_at ?o ?n pg"
    using t by (auto simp: page_tuples_eq [OF ok] split: if_splits)
  have l: "live pg ?s"
    using s by (simp add: live_def)
  have len: "length pg = 8192"
    using p(1) by (simp add: PAGE_SIZE_def)
  have reg: "hupper pg \<le> ?o" "?o + ?n \<le> hspecial pg" "?o + ?n \<le> 8192"
    using p(3,4) [OF l] g by auto
  have lbs: "length bs = ?n"
    using bs len reg by simp
  have w: "?o + o2 + length ys \<le> ?o + ?n"
    using r lbs by simp
  have len': "length pg' = 8192"
    using len w reg unfolding pg' by simp
  show h: "header_read_from pg' = header_read_from pg"
    unfolding pg' by (rule header_put_at) (use len w reg g in auto)
  have sc: "slot_count pg' = slot_count pg"
    using h by (rule slot_count_cong)
  have lp: "slot_lp pg' i = slot_lp pg i" if "i < slot_count pg" for i
  proof -
    have "get_u32 pg' (32 + i * 4) = get_u32 pg (32 + i * 4)"
      unfolding pg' by (rule get_u32_put(4)) (use len w reg g that in auto)
    then show ?thesis
      by (simp add: slot_lp_def page_sizes)
  qed
  have lv: "live pg' i \<longleftrightarrow> live pg i" for i
    using lp [of i] sc by (auto simp: live_def)
  show ok': "page_ok pg'"
  proof (rule page_okI)
    show "length pg' = PAGE_SIZE" "geometry pg'"
      using len' p(2) h by (simp_all add: PAGE_SIZE_def geometry_def)
    show "lp_flags (slot_lp pg' i) \<noteq> LpRedirect" if "i < slot_count pg'" for i
      using p(6) [of i] that lp [of i] sc by auto
    show "apart (lp_region (slot_lp pg' i)) (lp_region (slot_lp pg' j))" if "live pg' i" "live pg' j" "i < j" for i j
      using p(5) [of i j] that lv lp by (simp add: live_def)
    show "hupper pg' \<le> unat (lp_off (slot_lp pg' i))" if "live pg' i" for i
      using p(3) [of i] that lv lp h by (simp add: live_def)
    show "unat (lp_off (slot_lp pg' i)) + unat (lp_len (slot_lp pg' i)) \<le> hspecial pg'" if "live pg' i" for i
      using p(4) [of i] that lv lp h by (simp add: live_def)
  qed
  have same: "bytes_at off n pg' = bytes_at off n pg" if "off + n \<le> ?o \<or> ?o + ?n \<le> off" for off n
    using that
  proof
    assume "off + n \<le> ?o"
    then show ?thesis
      unfolding pg' by (intro bytes_at_put_at_before) (use len w reg in auto)
  next
    assume "?o + ?n \<le> off"
    then show ?thesis
      unfolding pg' by (intro bytes_at_put_at_after) (use len w reg in auto)
  qed
  then show "hspecial pg \<le> off \<Longrightarrow> bytes_at off n pg' = bytes_at off n pg"
    using reg by simp
  have self: "bytes_at ?o ?n pg' = put_at o2 ys bs"
  proof (rule nth_equalityI)
    show "length (bytes_at ?o ?n pg') = length (put_at o2 ys bs)"
      using len' reg r lbs by simp
    fix i
    assume "i < length (bytes_at ?o ?n pg')"
    then have "i < ?n"
      using len' reg by simp
    then show "bytes_at ?o ?n pg' ! i = put_at o2 ys bs ! i"
      using len len' reg r lbs w unfolding pg' bs by (simp add: nth_bytes_at nth_put_at)
  qed
  show "page_tuples pg' = (page_tuples pg)(slot \<mapsto> put_at o2 ys bs)"
  proof
    fix k :: u16
    show "page_tuples pg' k = ((page_tuples pg)(slot \<mapsto> put_at o2 ys bs)) k"
    proof (cases "k = slot")
      case True
      then show ?thesis
        using s lp [OF s(1)] sc self by (simp add: page_tuples_eq [OF ok'])
    next
      case False
      let ?k = "slot_lp pg (unat k)"
      have "bytes_at (unat (lp_off ?k)) (unat (lp_len ?k)) pg' = bytes_at (unat (lp_off ?k)) (unat (lp_len ?k)) pg"
        if "unat k < slot_count pg" "lp_flags ?k = LpNormal"
      proof (rule same)
        have "live pg (unat k)" "unat k \<noteq> ?s"
          using that False by (auto simp: live_def word_unat_eq_iff)
        then show "unat (lp_off ?k) + unat (lp_len ?k) \<le> ?o \<or> ?o + ?n \<le> unat (lp_off ?k)"
          using p(5) [OF _ l] by (auto simp: apart_def lp_region_def)
      qed
      then show ?thesis
        using False lp [of "unat k"] sc by (auto simp: page_tuples_eq [OF ok'] page_tuples_eq [OF ok])
    qed
  qed
qed

section \<open>Fresh pages and the page chain\<close>

lemma bytes_at_replicate [simp]: "off + n \<le> m \<Longrightarrow> bytes_at off n (replicate m x) = replicate n x"
  by (simp add: bytes_at_def)

lemma init_header:
  assumes "length pg = PAGE_SIZE" "sz \<le> 8160"
  shows "length (init_with_special sz pg) = PAGE_SIZE"
    "hlower (init_with_special sz pg) = 32" "hupper (init_with_special sz pg) = 8192 - sz"
    "hspecial (init_with_special sz pg) = 8192 - sz" "page_pd_lsn (init_with_special sz pg) = 0"
    "off + n \<le> 8192 \<Longrightarrow> 32 \<le> off \<Longrightarrow> bytes_at off n (init_with_special sz pg) = replicate n 0"
proof -
  let ?z = "replicate 8192 0 :: byte list"
  let ?p = "header_init_page ?z"
  have i: "init_with_special sz pg = put_u16 18 (of_nat (8192 - sz)) (put_u16 16 (of_nat (8192 - sz)) ?p)"
    using assms by (simp add: init_with_special_def Let_def PAGE_SIZE_def)
  have l: "length ?p = 8192" "length (put_u16 16 w ?p) = 8192" for w
    by (simp_all add: header_init_page_def)
  have h: "header_read_from ?p = page_header_new 8192"
    by (simp add: header_init_page_def header_roundtrip PAGE_SIZE_def)
  have u: "unat (of_nat (8192 - sz) :: u16) = 8192 - sz"
    by (rule unat_of_nat_uN) simp
  show "length (init_with_special sz pg) = PAGE_SIZE"
    using l by (simp add: i PAGE_SIZE_def)
  have g: "header_read_from (init_with_special sz pg) =
      (header_read_from ?p)\<lparr> pd_upper := of_nat (8192 - sz), pd_special := of_nat (8192 - sz) \<rparr>"
    using l by (simp add: i header_read_from_def page_pd_lsn_def buf_simps)
  show "hlower (init_with_special sz pg) = 32" "hupper (init_with_special sz pg) = 8192 - sz"
    "hspecial (init_with_special sz pg) = 8192 - sz"
    using u by (simp_all add: g h page_header_new_def page_sizes)
  have "page_pd_lsn (init_with_special sz pg) = pd_lsn (header_read_from (init_with_special sz pg))"
    by (simp add: header_read_from_def)
  then show "page_pd_lsn (init_with_special sz pg) = 0"
    by (simp add: g h page_header_new_def)
  show "bytes_at off n (init_with_special sz pg) = replicate n 0" if "off + n \<le> 8192" "32 \<le> off"
    using l that by (simp add: i buf_simps) (simp add: header_init_page_def header_write_to_rest)
qed

lemma init_page_ok:
  assumes "length pg = PAGE_SIZE" "sz \<le> 8160"
  shows "page_ok (init_with_special sz pg)" "page_tuples (init_with_special sz pg) = Map.empty"
    "slot_count (init_with_special sz pg) = 0"
proof -
  note h = init_header [OF assms]
  show sc: "slot_count (init_with_special sz pg) = 0"
    using h(2) by (simp add: slot_count_def page_sizes)
  then show ok: "page_ok (init_with_special sz pg)"
    by (intro page_okI) (use h assms in \<open>auto simp: geometry_def live_def\<close>)
  show "page_tuples (init_with_special sz pg) = Map.empty"
    using sc by (auto simp: page_tuples_eq [OF ok])
qed

lemma le_u64_zeros: "le_u64 (replicate 8 0) = 0"
  by (simp add: le_u64_def eval_nat_numeral)

lemma init_next_page: "length pg = PAGE_SIZE \<Longrightarrow> next_page (init_with_special 16 pg) = Ok None"
  using init_header [of pg 16] le_u64_zeros
  by (simp add: next_page_def checked_header_eq geometry_def read_slice_def page_sizes)

lemma set_next_page_Ok:
  assumes ok: "page_ok pg" and sp: "hspecial pg = PAGE_SIZE - HEAP_SPECIAL_SIZE" and n: "next \<noteq> Some 0"
  shows "\<exists>pg'. set_next_page next pg = Ok pg' \<and> page_ok pg' \<and> next_page pg' = Ok next \<and>
    page_tuples pg' = page_tuples pg \<and> header_read_from pg' = header_read_from pg"
proof -
  note p = page_okD [OF ok] and g = geometry_bounds [OF page_okD(2) [OF ok]]
  let ?raw = "case next of None \<Rightarrow> 0 | Some p \<Rightarrow> p"
  let ?pg = "put_at (hspecial pg) (u64_le ?raw) pg"
  have len: "length pg = 8192" "hspecial pg = 8176" "length (u64_le ?raw) = 8"
    using p(1) sp by (simp_all add: page_sizes)
  have set: "set_next_page next pg = Ok ?pg"
    using len by (simp add: set_next_page_def write_slice_def)
  have h: "header_read_from ?pg = header_read_from pg"
    by (rule header_put_at) (use len in auto)
  have sc: "slot_count ?pg = slot_count pg"
    using h by (rule slot_count_cong)
  have lp: "slot_lp ?pg i = slot_lp pg i" if "i < slot_count pg" for i
    unfolding slot_lp_def page_sizes by (rule get_u32_put(4)) (use len g that in auto)
  have same: "bytes_at off n ?pg = bytes_at off n pg" if "off + n \<le> hspecial pg" for off n
    by (rule bytes_at_put_at_before) (use len that in auto)
  have lv: "live ?pg i \<longleftrightarrow> live pg i" for i
    using lp [of i] sc by (auto simp: live_def)
  have ok': "page_ok ?pg"
  proof (rule page_okI)
    show "length ?pg = PAGE_SIZE" "geometry ?pg"
      using len p(2) h by (simp_all add: PAGE_SIZE_def geometry_def)
    show "lp_flags (slot_lp ?pg i) \<noteq> LpRedirect" if "i < slot_count ?pg" for i
      using p(6) [of i] that lp [of i] sc by auto
    show "apart (lp_region (slot_lp ?pg i)) (lp_region (slot_lp ?pg j))" if "live ?pg i" "live ?pg j" "i < j" for i j
      using p(5) [of i j] that lv lp by (simp add: live_def)
    show "hupper ?pg \<le> unat (lp_off (slot_lp ?pg i))" if "live ?pg i" for i
      using p(3) [of i] that lv lp h by (simp add: live_def)
    show "unat (lp_off (slot_lp ?pg i)) + unat (lp_len (slot_lp ?pg i)) \<le> hspecial ?pg" if "live ?pg i" for i
      using p(4) [of i] that lv lp h by (simp add: live_def)
  qed
  have "page_tuples ?pg k = page_tuples pg k" for k
    using lp [of "unat k"] sc same p(4) [of "unat k"]
    by (auto simp: page_tuples_eq [OF ok'] page_tuples_eq [OF ok] live_def)
  moreover have "next_page ?pg = Ok next"
  proof -
    have "bytes_at (hspecial pg) 8 ?pg = u64_le ?raw"
      by (rule bytes_at_put_at_same) (use len in auto)
    moreover have "geometry ?pg"
      by (rule page_okD(2) [OF ok'])
    ultimately show ?thesis
      using n h len by (auto simp: next_page_def checked_header_eq read_slice_def page_sizes split: option.splits)
  qed
  ultimately show ?thesis
    using set ok' h by blast
qed

section \<open>Slots as an interface\<close>

text \<open>
  What the access method relies on: a page is a partial map from slots to tuples, an
  insertion uses a slot that was free, a deletion frees one, and no operation moves
  another tuple.
\<close>

locale slot_store =
  fixes inv :: "'p \<Rightarrow> bool"
    and tuples :: "'p \<Rightarrow> 's \<Rightarrow> 't option"
    and add :: "'p \<Rightarrow> 't \<Rightarrow> 'e + 's \<times> 'p"
    and del :: "'p \<Rightarrow> 's \<Rightarrow> 'e + 'p"
  assumes add_inv: "inv p \<Longrightarrow> add p t = Ok (s, p') \<Longrightarrow> inv p'"
    and add_free: "inv p \<Longrightarrow> add p t = Ok (s, p') \<Longrightarrow> tuples p s = None"
    and add_tuples: "inv p \<Longrightarrow> add p t = Ok (s, p') \<Longrightarrow> tuples p' = (tuples p)(s \<mapsto> t)"
    and del_inv: "inv p \<Longrightarrow> del p s = Ok p' \<Longrightarrow> inv p'"
    and del_used: "inv p \<Longrightarrow> del p s = Ok p' \<Longrightarrow> tuples p s \<noteq> None"
    and del_tuples: "inv p \<Longrightarrow> del p s = Ok p' \<Longrightarrow> tuples p' = (tuples p)(s := None)"
begin

lemma stable_add: "inv p \<Longrightarrow> add p t = Ok (s, p') \<Longrightarrow> tuples p k = Some u \<Longrightarrow> tuples p' k = Some u"
  using add_free [of p t s p'] add_tuples [of p t s p'] by auto

lemma add_del: "inv p \<Longrightarrow> add p t = Ok (s, p') \<Longrightarrow> del p' s = Ok p'' \<Longrightarrow> tuples p'' = tuples p"
  using add_tuples [of p t s p'] del_tuples [of p' s p''] add_inv [of p t s p'] add_free [of p t s p']
  by (simp add: fun_upd_idem)

text \<open>A sequence of insertions and deletions acts on the map step by step.\<close>

lemma run_inv:
  assumes "inv p"
    and step: "\<And>op q q'. f op q = q' \<Longrightarrow> inv q \<Longrightarrow> q' = q \<or> (\<exists>t s. add q t = Ok (s, q')) \<or> (\<exists>s. del q s = Ok q')"
  shows "inv (fold f ops p)"
  using assms(1)
proof (induction ops arbitrary: p)
  case (Cons op ops)
  have "inv (f op p)"
    using step [OF refl Cons.prems, of op] Cons.prems by (auto intro: add_inv del_inv)
  then show ?case
    using Cons.IH by simp
qed simp

end

interpretation sp: slot_store page_ok page_tuples add_tuple delete_tuple
  by unfold_locales (fact add_tuple_Ok(1,2,3) delete_tuple_Ok(1,2,3))+

section \<open>Properties\<close>

lemma tuple_loop_no_panic:
  assumes "length pg = PAGE_SIZE"
  shows "tuple_loop n pg slot \<noteq> Err HeapPanic"
  using assms
proof (induction n arbitrary: slot)
  case (Suc n)
  have "hspecial pg \<le> 8192" if "geometry pg"
    using geometry_bounds [OF that] by simp
  then show ?case
    using Suc by (auto simp: line_pointer_eq checked_header_eq Let_def read_slice_def PAGE_SIZE_def split: if_splits)
qed simp

lemma delete_tuple_no_panic:
  assumes "length pg = PAGE_SIZE"
  shows "delete_tuple pg slot \<noteq> Err HeapPanic"
proof -
  have "32 + unat slot * 4 + 4 \<le> 8192" if "geometry pg" "unat slot < slot_count pg"
    using geometry_bounds [OF that(1)] that(2) by linarith
  then show ?thesis
    using assms
    by (auto simp: delete_tuple_def line_pointer_eq set_line_pointer_def write_slice_def page_sizes split: if_splits)
qed

text \<open>
  C28: Damaged pages cannot make the page layer index out of range.  On every page of the
  right length, whatever its bytes, the operations return a value or one of their
  errors and never reach a slice outside the page, and redirects that form a cycle end in
  an error.
\<close>

theorem page_operations_never_panic:
  assumes "length pg = PAGE_SIZE"
  shows "line_pointer pg slot \<noteq> Err HeapPanic \<and> tuple_at pg slot \<noteq> Err HeapPanic \<and>
    add_tuple pg bs \<noteq> Err HeapPanic \<and> delete_tuple pg slot \<noteq> Err HeapPanic \<and> next_page pg \<noteq> Err HeapPanic"
proof -
  have "next_page pg \<noteq> Err HeapPanic"
    using assms by (auto simp: next_page_def checked_header_eq read_slice_def page_sizes Let_def)
  moreover have "tuple_at pg slot \<noteq> Err HeapPanic"
    unfolding tuple_at_def by (rule tuple_loop_no_panic [OF assms])
  ultimately show ?thesis
    using assms delete_tuple_no_panic [OF assms] by (simp add: line_pointer_eq add_tuple_eq)
qed

theorem page_operations_never_panic_witness:
  "tuple_at (replicate PAGE_SIZE 255) 0 \<noteq> Err HeapPanic"
  using page_operations_never_panic [of "replicate PAGE_SIZE 255"] by simp

lemma free_space_eq: "geometry pg \<Longrightarrow> free_space pg = hupper pg - (32 + 4 * slot_count pg)"
  by (simp add: free_space_def geometry_lower)

text \<open>The cost of a line pointer for the next insertion.\<close>

definition lp_cost :: "page \<Rightarrow> nat" where
  "lp_cost pg = (if free_slot pg < slot_count pg then 0 else 4)"

lemma lower_after_eq: "lower_after pg = 32 + 4 * slot_count pg + lp_cost pg"
  using free_slot_le [of pg] by (auto simp: lower_after_def lp_cost_def)

text \<open>
  C22: The slotted page implements a map from slots to tuples.  On a well-formed page every
  lookup answers; an insertion succeeds exactly if the tuple is not empty and the free
  space holds it together with the line pointer it may need, it uses a slot that was
  free and changes no other tuple; a deletion succeeds exactly if the slot has a tuple, and
  removes that one.  Both keep the page well-formed and the page chain pointer; a
  failed operation reports the reason.
\<close>

theorem slotted_page_refines_map:
  assumes "page_ok pg"
  shows "tuple_at pg slot = Ok (page_tuples pg slot) \<and>
    (case add_tuple pg bs of
       Inr (s, pg') \<Rightarrow> bs \<noteq> [] \<and> length bs + lp_cost pg \<le> free_space pg \<and>
         page_ok pg' \<and> page_tuples pg s = None \<and> page_tuples pg' = (page_tuples pg)(s \<mapsto> bs) \<and>
         next_page pg' = next_page pg
     | Inl e \<Rightarrow>
         if bs = [] then e = InvalidArgument
         else if length bs > hspecial pg - 36 then e = TupleTooLarge (length bs)
         else free_space pg < length bs + lp_cost pg \<and> e = PageFull (length bs + lp_cost pg) (free_space pg)) \<and>
    (case delete_tuple pg slot of
       Inr pg' \<Rightarrow> page_tuples pg slot \<noteq> None \<and> page_ok pg' \<and> page_tuples pg' = (page_tuples pg)(slot := None) \<and>
         next_page pg' = next_page pg
     | Inl e \<Rightarrow> page_tuples pg slot = None \<and> e = InvalidSlot slot)"
proof (intro conjI)
  note p = page_okD [OF assms] and g = geometry_bounds [OF page_okD(2) [OF assms]]
  note fs = free_space_eq [OF p(2)] and la = lower_after_eq [of pg] and lo = geometry_lower [OF p(2)]
  have chain: "next_page pg' = next_page pg"
    if "page_ok pg'" "hspecial pg' = hspecial pg" "\<And>off n. hspecial pg \<le> off \<Longrightarrow> bytes_at off n pg' = bytes_at off n pg" for pg'
    by (rule next_page_cong) (use that p page_okD(1,2) [OF that(1)] in \<open>auto simp: geometry_def\<close>)
  show "tuple_at pg slot = Ok (page_tuples pg slot)"
    by (simp add: page_tuples_def tuple_at_eq [OF assms])
  show "case add_tuple pg bs of
       Inr (s, pg') \<Rightarrow> bs \<noteq> [] \<and> length bs + lp_cost pg \<le> free_space pg \<and>
         page_ok pg' \<and> page_tuples pg s = None \<and> page_tuples pg' = (page_tuples pg)(s \<mapsto> bs) \<and>
         next_page pg' = next_page pg
     | Inl e \<Rightarrow>
         if bs = [] then e = InvalidArgument
         else if length bs > hspecial pg - 36 then e = TupleTooLarge (length bs)
         else free_space pg < length bs + lp_cost pg \<and> e = PageFull (length bs + lp_cost pg) (free_space pg)"
  proof (cases "add_tuple pg bs")
    case (Inl e)
    then show ?thesis
      using add_tuple_eq [OF p(1), of bs] p(2) fs la lo g(1) by (auto split: if_splits)
  next
    case (Inr r)
    obtain s pg' where r: "r = (s, pg')"
      by (cases r)
    have a: "add_tuple pg bs = Ok (s, pg')"
      using Inr r by simp
    note f = add_tuple_Ok [OF assms a]
    have "next_page pg' = next_page pg"
      by (rule chain) (use f in auto)
    moreover have "bs \<noteq> []" "length bs + lower_after pg \<le> hupper pg"
      using a p(1,2) by (auto simp: add_tuple_eq split: if_splits)
    ultimately show ?thesis
      using Inr r f(1,2,3) fs la by simp
  qed
  show "case delete_tuple pg slot of
       Inr pg' \<Rightarrow> page_tuples pg slot \<noteq> None \<and> page_ok pg' \<and> page_tuples pg' = (page_tuples pg)(slot := None) \<and>
         next_page pg' = next_page pg
     | Inl e \<Rightarrow> page_tuples pg slot = None \<and> e = InvalidSlot slot"
  proof (cases "delete_tuple pg slot")
    case (Inl e)
    then show ?thesis
      by (auto simp: delete_tuple_eq [OF assms] split: if_splits)
  next
    case (Inr pg')
    note f = delete_tuple_Ok [OF assms Inr]
    have "next_page pg' = next_page pg"
      by (rule chain) (use f in auto)
    then show ?thesis
      using Inr f(1,2,3) by simp
  qed
qed

definition demo_page :: page where
  "demo_page = init_with_special HEAP_SPECIAL_SIZE (replicate PAGE_SIZE 0)"

lemma demo_page_ok: "page_ok demo_page" "page_tuples demo_page = Map.empty" "free_space demo_page = 8144"
  "hspecial demo_page = 8176"
  using init_page_ok [of "replicate PAGE_SIZE 0" 16] init_header [of "replicate PAGE_SIZE 0" 16]
  by (simp_all add: demo_page_def page_sizes free_space_def)

theorem slotted_page_refines_map_witness:
  "tuple_at demo_page 3 = Ok None \<and> delete_tuple demo_page 3 = Err (InvalidSlot 3) \<and>
   (\<exists>s pg'. add_tuple demo_page [1, 2] = Ok (s, pg') \<and> page_tuples pg' = [s \<mapsto> [1, 2]])"
proof -
  have "lp_cost demo_page \<le> 4"
    by (simp add: lp_cost_def)
  then show ?thesis
    using slotted_page_refines_map [OF demo_page_ok(1), of 3 "[1, 2]"] demo_page_ok
    by (cases "add_tuple demo_page [1, 2]"; cases "delete_tuple demo_page 3") auto
qed

text \<open>The operations a page sees during its life; a failed one leaves it as it is.\<close>

datatype page_op = InsertTuple "byte list" | DeleteTuple u16

fun page_step :: "page_op \<Rightarrow> page \<Rightarrow> page" where
  "page_step (InsertTuple bs) pg = (case add_tuple pg bs of Inr (_, pg') \<Rightarrow> pg' | Inl _ \<Rightarrow> pg)"
| "page_step (DeleteTuple slot) pg = (case delete_tuple pg slot of Inr pg' \<Rightarrow> pg' | Inl _ \<Rightarrow> pg)"

text \<open>
  From initialisation on, whatever the sequence of insertions and deletions, a page
  satisfies the assertions of the source, and inserting a tuple and deleting it
  again leaves the tuples of the page as they were.
\<close>

theorem page_history_invariant:
  assumes "length pg = PAGE_SIZE"
  shows "let p = fold page_step ops (init_with_special HEAP_SPECIAL_SIZE pg) in
    page_invariants p \<and> page_ok p \<and>
    (\<forall>bs s p' p''. add_tuple p bs = Ok (s, p') \<and> delete_tuple p' s = Ok p'' \<longrightarrow> page_tuples p'' = page_tuples p)"
proof -
  have "page_ok (fold page_step ops (init_with_special HEAP_SPECIAL_SIZE pg))"
  proof (rule sp.run_inv)
    show "page_ok (init_with_special HEAP_SPECIAL_SIZE pg)"
      using init_page_ok(1) [OF assms] by (simp add: HEAP_SPECIAL_SIZE_def)
    show "q' = q \<or> (\<exists>t s. add_tuple q t = Ok (s, q')) \<or> (\<exists>s. delete_tuple q s = Ok q')"
      if "page_step op q = q'" for op q q'
      using that by (cases op) (auto split: sum.splits)
  qed
  then show ?thesis
    using sp.add_del by (auto simp: Let_def page_ok_def)
qed

theorem page_history_invariant_witness:
  "page_ok (fold page_step [InsertTuple [1, 2], InsertTuple [3], DeleteTuple 0]
    (init_with_special HEAP_SPECIAL_SIZE (replicate PAGE_SIZE 0)))"
  using page_history_invariant [of "replicate PAGE_SIZE 0" "[InsertTuple [1, 2], InsertTuple [3], DeleteTuple 0]"]
  unfolding Let_def by (metis length_replicate)

end
