(* ===== verification/Tuple_Codec.thy ===== *)
theory Tuple_Codec
  imports Slotted_Page
begin

text \<open>
  Heap tuples: the 64-byte tuple header, the encoding of column values with the null
  bitmap and variable-length headers (\<^verbatim>\<open>pg-am-heap/src/tuple.rs\<close>), and the pointers to
  out-of-line values (\<^verbatim>\<open>pg-am-heap/src/toast.rs\<close>).  The main result is the round trip of
  \<open>encode_tuple\<close> and \<open>decode_tuple\<close>.
\<close>

section \<open>Out-of-line pointers\<close>

definition TOAST_POINTER_SIZE :: nat where "TOAST_POINTER_SIZE = 20"
definition VARLENA_EXTERNAL_FLAG :: u32 where "VARLENA_EXTERNAL_FLAG = 0x40000000"
definition VARLENA_TAG_MASK :: u32 where "VARLENA_TAG_MASK = 0xC0000000"
definition VARLENA_LEN_MASK :: u32 where "VARLENA_LEN_MASK = NOT VARLENA_TAG_MASK"

definition is_external :: "u32 \<Rightarrow> bool" where
  "is_external vl_len \<longleftrightarrow> vl_len AND VARLENA_TAG_MASK = VARLENA_EXTERNAL_FLAG"

record toast_pointer =
  va_rawsize :: u32
  va_extsize :: u32
  va_valueid :: u32
  va_toastrelid :: u32

definition toast_encode :: "toast_pointer \<Rightarrow> byte list" where
  "toast_encode p =
    (let vl_len = of_nat TOAST_POINTER_SIZE OR VARLENA_EXTERNAL_FLAG;
         out = replicate TOAST_POINTER_SIZE 0;
         out = put_u32 0 vl_len out;
         out = put_u32 4 (va_rawsize p) out;
         out = put_u32 8 (va_extsize p) out;
         out = put_u32 12 (va_valueid p) out
     in put_u32 16 (va_toastrelid p) out)"

definition toast_decode :: "byte list \<Rightarrow> heap_error + toast_pointer" where
  "toast_decode b =
    (if length b \<noteq> TOAST_POINTER_SIZE then Err Corrupted
     else let vl_len = get_u32 b 0 in
       if \<not> is_external vl_len then Err Corrupted
       else if unat (vl_len AND VARLENA_LEN_MASK) \<noteq> TOAST_POINTER_SIZE then Err Corrupted
       else Ok \<lparr> va_rawsize = get_u32 b 4, va_extsize = get_u32 b 8, va_valueid = get_u32 b 12,
                 va_toastrelid = get_u32 b 16 \<rparr>)"

section \<open>Tuple header\<close>

definition TUPLE_HEADER_SIZE :: nat where "TUPLE_HEADER_SIZE = 64"
definition HEAP_HASNULL :: u16 where "HEAP_HASNULL = 0x0001"
definition HEAP_HASVARWIDTH :: u16 where "HEAP_HASVARWIDTH = 0x0002"
definition HEAP_HASEXTERNAL :: u16 where "HEAP_HASEXTERNAL = 0x0004"
definition HEAP_UPDATED :: u16 where "HEAP_UPDATED = 0x2000"
definition HEAP_XMAX_LOCK_ONLY :: u16 where "HEAP_XMAX_LOCK_ONLY = 0x1000"
definition HEAP_XMAX_IS_SHARE :: u16 where "HEAP_XMAX_IS_SHARE = 0x4000"
definition HEAP_NATTS_MASK :: u16 where "HEAP_NATTS_MASK = 0x07FF"
definition HEAP_HOT_UPDATED :: u16 where "HEAP_HOT_UPDATED = 0x4000"
definition HEAP_ONLY_TUPLE :: u16 where "HEAP_ONLY_TUPLE = 0x8000"
definition TUPLE_VERSION_MASK :: u16 where "TUPLE_VERSION_MASK = 0x000F"
definition TUPLE_VERSION_M2 :: u16 where "TUPLE_VERSION_M2 = 0"
definition MAX_NATTS :: nat where "MAX_NATTS = 2047"

record tuple_header =
  t_xmin :: txn_id
  t_xmax :: txn_id
  t_agent_id :: u64
  t_trace_id :: "byte list"
  t_ctid :: tid
  t_infomask :: u16
  t_infomask2 :: u16
  t_hoff :: u16
  t_flags :: u16
  t_cid :: u32

definition tuple_header_new ::
  "txn_id \<Rightarrow> txn_id \<Rightarrow> u64 \<Rightarrow> byte list \<Rightarrow> tid \<Rightarrow> u32 \<Rightarrow> tuple_header" where
  "tuple_header_new xmin xmax agent trace ctid cid =
    \<lparr> t_xmin = xmin, t_xmax = xmax, t_agent_id = agent, t_trace_id = trace, t_ctid = ctid,
      t_infomask = 0, t_infomask2 = 0, t_hoff = 0, t_flags = 0, t_cid = cid \<rparr>"

definition natts :: "tuple_header \<Rightarrow> nat" where
  "natts h = unat (t_infomask2 h AND HEAP_NATTS_MASK)"

definition th_write_to :: "tuple_header \<Rightarrow> byte list \<Rightarrow> byte list" where
  "th_write_to h buf =
    (let buf = put_u64 0 (t_xmin h) buf;
         buf = put_u64 8 (t_xmax h) buf;
         buf = put_u64 16 (t_agent_id h) buf;
         buf = put_at 24 (t_trace_id h) buf;
         buf = put_u64 40 (tid_page_id (t_ctid h)) buf;
         buf = put_u16 48 (tid_slot_id (t_ctid h)) buf;
         buf = put_u16 50 0 buf;
         buf = put_u16 52 (t_infomask h) buf;
         buf = put_u16 54 (t_infomask2 h) buf;
         buf = put_u16 56 (t_hoff h) buf;
         buf = put_u16 58 (t_flags h) buf
     in put_u32 60 (t_cid h) buf)"

definition th_read_from :: "byte list \<Rightarrow> heap_error + tuple_header" where
  "th_read_from b =
    (if length b < TUPLE_HEADER_SIZE then Err Corrupted
     else if get_u16 b 50 \<noteq> 0 then Err Corrupted
     else Ok \<lparr> t_xmin = get_u64 b 0, t_xmax = get_u64 b 8, t_agent_id = get_u64 b 16,
               t_trace_id = bytes_at 24 16 b,
               t_ctid = \<lparr> tid_page_id = get_u64 b 40, tid_slot_id = get_u16 b 48 \<rparr>,
               t_infomask = get_u16 b 52, t_infomask2 = get_u16 b 54, t_hoff = get_u16 b 56,
               t_flags = get_u16 b 58, t_cid = get_u32 b 60 \<rparr>)"

section \<open>Column values\<close>

datatype column_type = ColInt4 | ColInt8 | ColTimestamptz | ColUuid | ColText | ColBytea

fun fixed_width :: "column_type \<Rightarrow> nat option" where
  "fixed_width ColInt4 = Some 4"
| "fixed_width ColInt8 = Some 8"
| "fixed_width ColTimestamptz = Some 8"
| "fixed_width ColUuid = Some 16"
| "fixed_width ColText = None"
| "fixed_width ColBytea = None"

text \<open>
  Integers are kept as their bit patterns, a UUID as its 16 bytes and a string as its
  UTF-8 bytes.
\<close>

datatype datum =
    DInt4 u32 | DInt8 u64 | DTimestamptz u64 | DUuid "byte list" | DText "byte list" | DBytea "byte list"
  | DExternal toast_pointer

fun column_type_of :: "datum \<Rightarrow> column_type" where
  "column_type_of (DInt4 _) = ColInt4"
| "column_type_of (DInt8 _) = ColInt8"
| "column_type_of (DTimestamptz _) = ColTimestamptz"
| "column_type_of (DUuid _) = ColUuid"
| "column_type_of (DText _) = ColText"
| "column_type_of (DBytea _) = ColBytea"
| "column_type_of (DExternal _) = ColBytea"

text \<open>\<open>String::from_utf8\<close> accepts exactly the well-formed UTF-8 byte sequences.\<close>

definition byte_in :: "nat \<Rightarrow> nat \<Rightarrow> byte \<Rightarrow> bool" where
  "byte_in lo hi b \<longleftrightarrow> lo \<le> unat b \<and> unat b \<le> hi"

abbreviation cont_byte :: "byte \<Rightarrow> bool" where "cont_byte \<equiv> byte_in 0x80 0xBF"

definition utf8_2 :: "byte \<Rightarrow> byte \<Rightarrow> bool" where
  "utf8_2 a b \<longleftrightarrow> byte_in 0xC2 0xDF a \<and> cont_byte b"

definition utf8_3 :: "byte \<Rightarrow> byte \<Rightarrow> byte \<Rightarrow> bool" where
  "utf8_3 a b c \<longleftrightarrow> cont_byte c \<and>
    (unat a = 0xE0 \<and> byte_in 0xA0 0xBF b \<or> byte_in 0xE1 0xEC a \<and> cont_byte b
     \<or> unat a = 0xED \<and> byte_in 0x80 0x9F b \<or> byte_in 0xEE 0xEF a \<and> cont_byte b)"

definition utf8_4 :: "byte \<Rightarrow> byte \<Rightarrow> byte \<Rightarrow> byte \<Rightarrow> bool" where
  "utf8_4 a b c d \<longleftrightarrow> cont_byte c \<and> cont_byte d \<and>
    (unat a = 0xF0 \<and> byte_in 0x90 0xBF b \<or> byte_in 0xF1 0xF3 a \<and> cont_byte b
     \<or> unat a = 0xF4 \<and> byte_in 0x80 0x8F b)"

fun valid_utf8 :: "byte list \<Rightarrow> bool" where
  "valid_utf8 [] = True"
| "valid_utf8 (a # bs) =
    (if unat a < 0x80 then valid_utf8 bs
     else case bs of
       [] \<Rightarrow> False
     | b # bs2 \<Rightarrow>
         if utf8_2 a b then valid_utf8 bs2
         else case bs2 of
           [] \<Rightarrow> False
         | c # bs3 \<Rightarrow>
             if utf8_3 a b c then valid_utf8 bs3
             else case bs3 of
               [] \<Rightarrow> False
             | d # bs4 \<Rightarrow> utf8_4 a b c d \<and> valid_utf8 bs4)"

section \<open>Encoding\<close>

definition datum_matches :: "column_type \<Rightarrow> datum \<Rightarrow> bool" where
  "datum_matches col d =
    (case d of DExternal _ \<Rightarrow> fixed_width col = None | _ \<Rightarrow> col = column_type_of d)"

text \<open>The pass over the columns: has-null, has-varwidth, has-external, or the mismatch.\<close>

fun check_columns ::
  "column_type list \<Rightarrow> datum option list \<Rightarrow> bool \<times> bool \<times> bool \<Rightarrow> heap_error + bool \<times> bool \<times> bool" where
  "check_columns (col # cols) (val # vals) (has_null, has_varwidth, has_external) =
    (case val of
       None \<Rightarrow> check_columns cols vals (True, has_varwidth, has_external)
     | Some d \<Rightarrow>
         if \<not> datum_matches col d then Err InvalidArgument
         else check_columns cols vals
           (has_null, has_varwidth \<or> fixed_width col = None,
            has_external \<or> (case d of DExternal _ \<Rightarrow> True | _ \<Rightarrow> False)))"
| "check_columns _ _ flags = Ok flags"

text \<open>\<open>bitmap[i / 8] |= 1 << (i % 8)\<close> for every null column, from column \<open>i\<close> on.\<close>

fun set_nulls :: "nat \<Rightarrow> datum option list \<Rightarrow> byte list \<Rightarrow> byte list" where
  "set_nulls i [] bitmap = bitmap"
| "set_nulls i (val # vals) bitmap =
    set_nulls (Suc i) vals
      (if val = None then bitmap[i div 8 := (bitmap ! (i div 8)) OR push_bit (i mod 8) 1] else bitmap)"

definition inline_varlena :: "byte list \<Rightarrow> heap_error + byte list" where
  "inline_varlena data =
    (if length data + 4 > unat VARLENA_LEN_MASK then Err InvalidArgument
     else Ok (u32_le (of_nat (length data + 4)) @ data))"

fun encode_datum :: "datum \<Rightarrow> heap_error + byte list" where
  "encode_datum (DInt4 v) = Ok (u32_le v)"
| "encode_datum (DInt8 v) = Ok (u64_le v)"
| "encode_datum (DTimestamptz v) = Ok (u64_le v)"
| "encode_datum (DUuid v) = Ok v"
| "encode_datum (DText s) = inline_varlena s"
| "encode_datum (DBytea b) = inline_varlena b"
| "encode_datum (DExternal p) = Ok (toast_encode p)"

fun encode_values :: "datum option list \<Rightarrow> byte list \<Rightarrow> heap_error + byte list" where
  "encode_values [] out = Ok out"
| "encode_values (None # vals) out = encode_values vals out"
| "encode_values (Some d # vals) out =
    try_then (encode_datum d) (\<lambda>b. encode_values vals (out @ b))"

definition fill_header :: "tuple_header \<Rightarrow> bool \<times> bool \<times> bool \<Rightarrow> nat \<Rightarrow> nat \<Rightarrow> tuple_header" where
  "fill_header h fl n hoff =
    (case fl of (has_null, has_varwidth, has_external) \<Rightarrow>
      h\<lparr> t_infomask :=
           (t_infomask h AND NOT (HEAP_HASNULL OR HEAP_HASVARWIDTH OR HEAP_HASEXTERNAL))
           OR (if has_null then HEAP_HASNULL else 0)
           OR (if has_varwidth then HEAP_HASVARWIDTH else 0)
           OR (if has_external then HEAP_HASEXTERNAL else 0),
         t_infomask2 := (t_infomask2 h AND NOT HEAP_NATTS_MASK) OR of_nat n,
         t_hoff := of_nat hoff,
         t_flags := (t_flags h AND NOT TUPLE_VERSION_MASK) OR TUPLE_VERSION_M2 \<rparr>)"

definition bitmap_len :: "bool \<Rightarrow> nat \<Rightarrow> nat" where
  "bitmap_len has_null n = (if has_null then (n + 7) div 8 else 0)"

definition encode_tuple ::
  "tuple_header \<Rightarrow> column_type list \<Rightarrow> datum option list \<Rightarrow> heap_error + byte list" where
  "encode_tuple h columns vals =
    (if length columns \<noteq> length vals then Err InvalidArgument
     else if length columns > MAX_NATTS then Err InvalidArgument
     else try_then (check_columns columns vals (False, False, False)) (\<lambda>fl.
       let n = length columns; has_null = fst fl;
           hoff = align_up (TUPLE_HEADER_SIZE + bitmap_len has_null n) 8;
           out = th_write_to (fill_header h fl n hoff) (replicate TUPLE_HEADER_SIZE 0);
           out = out @ replicate (hoff - TUPLE_HEADER_SIZE) 0;
           out = (if has_null
                  then put_at TUPLE_HEADER_SIZE
                    (set_nulls 0 vals (bytes_at TUPLE_HEADER_SIZE (bitmap_len has_null n) out)) out
                  else out)
       in encode_values vals out))"

section \<open>Decoding\<close>

definition take_bytes :: "byte list \<Rightarrow> nat \<Rightarrow> nat \<Rightarrow> heap_error + byte list \<times> nat" where
  "take_bytes b pos n = (if pos + n > length b then Err Corrupted else Ok (bytes_at pos n b, pos + n))"

text \<open>Reading one column at \<open>pos\<close>; the second component is the position after it.\<close>

definition decode_fixed :: "column_type \<Rightarrow> byte list \<Rightarrow> datum" where
  "decode_fixed col field =
    (case col of
       ColInt4 \<Rightarrow> DInt4 (le_u32 field)
     | ColInt8 \<Rightarrow> DInt8 (le_u64 field)
     | ColTimestamptz \<Rightarrow> DTimestamptz (le_u64 field)
     | _ \<Rightarrow> DUuid field)"

definition decode_varlena :: "column_type \<Rightarrow> byte list \<Rightarrow> nat \<Rightarrow> heap_error + datum \<times> nat" where
  "decode_varlena col b pos =
    try_then (take_bytes b pos 4) (\<lambda>(field, pos).
      let vl_len = le_u32 field in
      if is_external vl_len then
        try_then (take_bytes b (pos - 4) TOAST_POINTER_SIZE) (\<lambda>(raw, pos).
          try_then (toast_decode raw) (\<lambda>p. Ok (DExternal p, pos)))
      else
        let tot = unat (vl_len AND VARLENA_LEN_MASK) in
        if tot < 4 then Err Corrupted
        else try_then (take_bytes b pos (tot - 4)) (\<lambda>(data, pos).
          if col = ColText then (if valid_utf8 data then Ok (DText data, pos) else Err Corrupted)
          else Ok (DBytea data, pos)))"

definition decode_column :: "column_type \<Rightarrow> byte list \<Rightarrow> nat \<Rightarrow> heap_error + datum \<times> nat" where
  "decode_column col b pos =
    (case fixed_width col of
       Some width \<Rightarrow> try_then (take_bytes b pos width) (\<lambda>(field, pos). Ok (decode_fixed col field, pos))
     | None \<Rightarrow> decode_varlena col b pos)"

text \<open>\<open>bytes[64 + i / 8] & (1 << (i % 8)) != 0\<close>; the index is checked by the language.\<close>

definition null_bit :: "bool \<Rightarrow> byte list \<Rightarrow> nat \<Rightarrow> heap_error + bool" where
  "null_bit has_null b i =
    (if \<not> has_null then Ok False
     else if TUPLE_HEADER_SIZE + i div 8 \<ge> length b then Err HeapPanic
     else Ok ((b ! (TUPLE_HEADER_SIZE + i div 8)) AND push_bit (i mod 8) 1 \<noteq> 0))"

fun decode_values ::
  "bool \<Rightarrow> byte list \<Rightarrow> nat \<Rightarrow> column_type list \<Rightarrow> nat \<Rightarrow> heap_error + datum option list \<times> nat" where
  "decode_values has_null b i [] pos = Ok ([], pos)"
| "decode_values has_null b i (col # cols) pos =
    try_then (null_bit has_null b i) (\<lambda>is_null.
      if is_null then
        try_then (decode_values has_null b (Suc i) cols pos) (\<lambda>(vals, pos). Ok (None # vals, pos))
      else try_then (decode_column col b pos) (\<lambda>(d, pos).
        try_then (decode_values has_null b (Suc i) cols pos) (\<lambda>(vals, pos). Ok (Some d # vals, pos))))"

definition decode_tuple ::
  "byte list \<Rightarrow> column_type list \<Rightarrow> heap_error + tuple_header \<times> datum option list" where
  "decode_tuple b columns =
    try_then (th_read_from b) (\<lambda>h.
      if natts h \<noteq> length columns then Err Corrupted
      else let hoff = unat (t_hoff h) in
        if hoff < TUPLE_HEADER_SIZE \<or> hoff > length b \<or> hoff mod 8 \<noteq> 0 then Err Corrupted
        else let has_null = (t_infomask h AND HEAP_HASNULL \<noteq> 0)
          in if has_null \<and> TUPLE_HEADER_SIZE + bitmap_len has_null (length columns) > hoff then Err Corrupted
             else try_then (decode_values has_null b 0 columns hoff) (\<lambda>(vals, pos).
               if pos \<noteq> length b then Err Corrupted else Ok (h, vals)))"

section \<open>Round trips of the parts\<close>

lemma varlena_masks: "VARLENA_LEN_MASK = mask 30" "VARLENA_TAG_MASK = NOT (mask 30)"
  by (simp_all add: VARLENA_LEN_MASK_def VARLENA_TAG_MASK_def mask_eq_exp_minus_1)

lemma varlena_inline_header:
  assumes "n < 2 ^ 30"
  shows "\<not> is_external (of_nat n)" "unat (of_nat n AND VARLENA_LEN_MASK) = n"
proof -
  let ?w = "of_nat n :: u32"
  have n: "unat ?w = n"
    by (rule unat_of_nat_uN) (use assms in simp)
  have t: "take_bit 30 ?w = ?w"
    using assms n by (simp add: word_unat_eq_iff unsigned_take_bit_eq take_bit_nat_eq_self)
  then show "unat (of_nat n AND VARLENA_LEN_MASK) = n"
    using n by (simp add: varlena_masks take_bit_eq_mask)
  have "?w AND NOT (mask 30) = 0"
    by (subst t [symmetric], rule bit_word_eqI) (auto simp: bit_simps)
  then show "\<not> is_external (of_nat n)"
    by (simp add: is_external_def varlena_masks VARLENA_EXTERNAL_FLAG_def)
qed

lemma toast_vl_len:
  "is_external (of_nat TOAST_POINTER_SIZE OR VARLENA_EXTERNAL_FLAG)"
  "unat ((of_nat TOAST_POINTER_SIZE OR VARLENA_EXTERNAL_FLAG) AND VARLENA_LEN_MASK) = TOAST_POINTER_SIZE"
  by (simp_all add: is_external_def VARLENA_EXTERNAL_FLAG_def VARLENA_TAG_MASK_def VARLENA_LEN_MASK_def
      TOAST_POINTER_SIZE_def)

lemma length_toast_encode [simp]: "length (toast_encode p) = TOAST_POINTER_SIZE"
  by (simp add: toast_encode_def Let_def TOAST_POINTER_SIZE_def)

lemma toast_roundtrip: "toast_decode (toast_encode p) = Ok p"
  using toast_vl_len
  by (simp add: toast_decode_def Let_def) (simp add: toast_encode_def Let_def TOAST_POINTER_SIZE_def buf_simps del: length_puts)

lemma toast_encode_vl_len: "le_u32 (bytes_at 0 4 (toast_encode p)) = of_nat TOAST_POINTER_SIZE OR VARLENA_EXTERNAL_FLAG"
proof -
  have "get_u32 (toast_encode p) 0 = of_nat TOAST_POINTER_SIZE OR VARLENA_EXTERNAL_FLAG"
    by (simp add: toast_encode_def Let_def TOAST_POINTER_SIZE_def buf_simps del: length_puts)
  then show ?thesis
    by (simp add: get_u32_def)
qed

text \<open>The fields of the tuple header with their offsets.\<close>

definition th_fields :: "tuple_header \<Rightarrow> (nat \<times> byte list) list" where
  "th_fields h =
    [(0, u64_le (t_xmin h)), (8, u64_le (t_xmax h)), (16, u64_le (t_agent_id h)), (24, t_trace_id h),
     (40, u64_le (tid_page_id (t_ctid h))), (48, u16_le (tid_slot_id (t_ctid h))), (50, u16_le 0),
     (52, u16_le (t_infomask h)), (54, u16_le (t_infomask2 h)), (56, u16_le (t_hoff h)),
     (58, u16_le (t_flags h)), (60, u32_le (t_cid h))]"

lemma th_write_to_eq: "th_write_to h buf = write_all (th_fields h) buf"
  by (simp add: th_write_to_def th_fields_def Let_def put_uN_defs)

lemma th_fields_fit: "length (t_trace_id h) = 16 \<Longrightarrow> 64 \<le> n \<Longrightarrow> fields_fit n (th_fields h)"
  by (simp add: fields_fit_def th_fields_def)

lemma length_th_write_to [simp]:
  assumes "64 \<le> length buf" "length (t_trace_id h) = 16"
  shows "length (th_write_to h buf) = length buf"
  using th_fields_fit [OF assms(2,1)] by (simp add: th_write_to_eq length_write_all fields_fit_def)

lemma th_roundtrip:
  assumes "64 \<le> length buf" "length (t_trace_id h) = 16"
  shows "th_read_from (th_write_to h buf) = Ok h"
proof -
  have f: "bytes_at off (length ys) (th_write_to h buf) = ys" if "(off, ys) \<in> set (th_fields h)" for off ys
    unfolding th_write_to_eq by (rule bytes_at_write_all [OF th_fields_fit [OF assms(2,1)] that])
  have "bytes_at 0 8 (th_write_to h buf) = u64_le (t_xmin h)" "bytes_at 8 8 (th_write_to h buf) = u64_le (t_xmax h)"
    "bytes_at 16 8 (th_write_to h buf) = u64_le (t_agent_id h)" "bytes_at 24 16 (th_write_to h buf) = t_trace_id h"
    "bytes_at 40 8 (th_write_to h buf) = u64_le (tid_page_id (t_ctid h))"
    "bytes_at 48 2 (th_write_to h buf) = u16_le (tid_slot_id (t_ctid h))"
    "bytes_at 50 2 (th_write_to h buf) = u16_le 0" "bytes_at 52 2 (th_write_to h buf) = u16_le (t_infomask h)"
    "bytes_at 54 2 (th_write_to h buf) = u16_le (t_infomask2 h)" "bytes_at 56 2 (th_write_to h buf) = u16_le (t_hoff h)"
    "bytes_at 58 2 (th_write_to h buf) = u16_le (t_flags h)" "bytes_at 60 4 (th_write_to h buf) = u32_le (t_cid h)"
    using f [of 0 "u64_le (t_xmin h)"] f [of 8 "u64_le (t_xmax h)"] f [of 16 "u64_le (t_agent_id h)"]
      f [of 24 "t_trace_id h"] f [of 40 "u64_le (tid_page_id (t_ctid h))"] f [of 48 "u16_le (tid_slot_id (t_ctid h))"]
      f [of 50 "u16_le 0"] f [of 52 "u16_le (t_infomask h)"] f [of 54 "u16_le (t_infomask2 h)"]
      f [of 56 "u16_le (t_hoff h)"] f [of 58 "u16_le (t_flags h)"] f [of 60 "u32_le (t_cid h)"] assms(2)
    by (simp_all add: th_fields_def)
  then show ?thesis
    using assms by (simp add: th_read_from_def TUPLE_HEADER_SIZE_def get_uN_defs)
qed

lemma th_read_from_append: "64 \<le> length x \<Longrightarrow> th_read_from (x @ y) = th_read_from x"
  by (simp add: th_read_from_def TUPLE_HEADER_SIZE_def get_uN_append bytes_at_append_left)

lemma length_set_nulls [simp]: "length (set_nulls i vals bm) = length bm"
  by (induction i vals bm rule: set_nulls.induct) auto

lemma bit_set_nulls:
  "i + length vals \<le> 8 * length bm \<Longrightarrow> j < 8 * length bm \<Longrightarrow>
   bit (set_nulls i vals bm ! (j div 8)) (j mod 8) \<longleftrightarrow>
     bit (bm ! (j div 8)) (j mod 8) \<or> i \<le> j \<and> j < i + length vals \<and> vals ! (j - i) = None"
proof (induction i vals bm arbitrary: j rule: set_nulls.induct)
  case (2 i val vals bm)
  let ?bm = "if val = None then bm[i div 8 := bm ! (i div 8) OR push_bit (i mod 8) 1] else bm"
  have b: "bit (?bm ! (j div 8)) (j mod 8) \<longleftrightarrow> bit (bm ! (j div 8)) (j mod 8) \<or> (j = i \<and> val = None)"
  proof (cases "j div 8 = i div 8")
    case True
    then have "j mod 8 = i mod 8 \<longleftrightarrow> j = i"
      by (metis div_mult_mod_eq)
    moreover have "i div 8 < length bm"
      using 2 by auto
    ultimately show ?thesis
      using True by (auto simp: bit_simps nth_list_update)
  next
    case False
    then show ?thesis
      by (auto simp: nth_list_update)
  qed
  have len: "length ?bm = length bm"
    by simp
  have "bit (set_nulls (Suc i) vals ?bm ! (j div 8)) (j mod 8) \<longleftrightarrow>
     bit (?bm ! (j div 8)) (j mod 8) \<or> Suc i \<le> j \<and> j < Suc i + length vals \<and> vals ! (j - Suc i) = None"
    by (rule "2.IH") (use 2 len in auto)
  also have "\<dots> \<longleftrightarrow> bit (bm ! (j div 8)) (j mod 8) \<or> i \<le> j \<and> j < i + length (val # vals) \<and> (val # vals) ! (j - i) = None"
    unfolding b by (cases "j = i") (auto simp: nth_Cons' Suc_le_eq diff_Suc split: nat.splits)
  finally show ?case
    by simp
qed auto

section \<open>Round trip of a tuple\<close>

text \<open>What the Rust types guarantee of a value: a UUID has 16 bytes, a string is UTF-8.\<close>

fun datum_ok :: "datum \<Rightarrow> bool" where
  "datum_ok (DUuid v) = (length v = 16)"
| "datum_ok (DText s) = valid_utf8 s"
| "datum_ok _ = True"

definition value_fits :: "column_type \<Rightarrow> datum option \<Rightarrow> bool" where
  "value_fits col v = (case v of None \<Rightarrow> True | Some d \<Rightarrow> datum_matches col d)"

lemma bytes_at_mid [simp]: "off = length pre \<Longrightarrow> n = length e \<Longrightarrow> bytes_at off n (pre @ e @ post) = e"
  by (simp add: bytes_at_def)

lemma bytes_at_mid_prefix: "off = length pre \<Longrightarrow> n \<le> length e \<Longrightarrow> bytes_at off n (pre @ e @ post) = bytes_at 0 n e"
  by (simp add: bytes_at_def)

lemma unat_VARLENA_LEN_MASK: "unat VARLENA_LEN_MASK = 2 ^ 30 - 1"
  by (simp add: VARLENA_LEN_MASK_def VARLENA_TAG_MASK_def)

lemma decode_varlena_inline:
  assumes "inline_varlena data = Ok e" "col = ColText \<longrightarrow> valid_utf8 data"
  shows "decode_varlena col (pre @ e @ post) (length pre) =
    Ok (if col = ColText then DText data else DBytea data, length pre + length e)"
proof -
  have l: "length data + 4 < 2 ^ 30" and e: "e = u32_le (of_nat (length data + 4)) @ data"
    using assms(1) unat_VARLENA_LEN_MASK by (auto simp: inline_varlena_def split: if_splits)
  have f: "bytes_at (length pre) 4 (pre @ e @ post) = u32_le (of_nat (length data + 4))"
    by (simp add: e bytes_at_def)
  have d: "bytes_at (length pre + 4) (length data) (pre @ e @ post) = data"
    by (simp add: e bytes_at_def)
  show ?thesis
    using varlena_inline_header [OF l] f d assms(2)
    by (simp add: decode_varlena_def take_bytes_def e Let_def del: of_nat_add)
qed

lemma decode_varlena_external:
  "decode_varlena col (pre @ toast_encode p @ post) (length pre) = Ok (DExternal p, length pre + TOAST_POINTER_SIZE)"
proof -
  have "bytes_at (length pre) 4 (pre @ toast_encode p @ post) = bytes_at 0 4 (toast_encode p)"
    by (rule bytes_at_mid_prefix) (simp_all add: TOAST_POINTER_SIZE_def)
  then show ?thesis
    using toast_vl_len(1) toast_encode_vl_len [of p]
    by (simp add: decode_varlena_def take_bytes_def Let_def toast_roundtrip) (simp add: TOAST_POINTER_SIZE_def)
qed

lemma decode_column_encode:
  assumes "encode_datum d = Ok e" "datum_matches col d" "datum_ok d"
  shows "decode_column col (pre @ e @ post) (length pre) = Ok (d, length pre + length e)"
proof (cases "fixed_width col")
  case None
  then show ?thesis
    using assms decode_varlena_inline decode_varlena_external
    by (cases d; cases col) (auto simp: decode_column_def datum_matches_def)
next
  case (Some w)
  then show ?thesis
    using assms
    by (cases d; cases col) (auto simp: decode_column_def datum_matches_def take_bytes_def decode_fixed_def)
qed

lemma encode_values_prefix: "encode_values vals out = Ok b \<Longrightarrow> \<exists>rest. b = out @ rest"
  by (induction vals out rule: encode_values.induct) (auto simp: try_then_Ok_iff)

lemma decode_encode_values:
  assumes "encode_values vals out = Ok b" "list_all2 value_fits cols vals" "\<And>d. Some d \<in> set vals \<Longrightarrow> datum_ok d"
    "\<And>j. j < length vals \<Longrightarrow> null_bit has_null b (i + j) = Ok (vals ! j = None)"
  shows "decode_values has_null b i cols (length out) = Ok (vals, length b)"
  using assms
proof (induction vals arbitrary: out cols i)
  case (Cons v vals)
  obtain col cs where cols: "cols = col # cs" and m: "value_fits col v" "list_all2 value_fits cs vals"
    using Cons.prems(2) by (auto simp: list_all2_Cons2)
  have nb: "null_bit has_null b i = Ok (v = None)"
    using Cons.prems(4) [of 0] by simp
  have nbs: "null_bit has_null b (Suc i + j) = Ok (vals ! j = None)" if "j < length vals" for j
    using Cons.prems(4) [of "Suc j"] that by simp
  show ?case
  proof (cases v)
    case None
    have "decode_values has_null b (Suc i) cs (length out) = Ok (vals, length b)"
      by (rule Cons.IH [OF _ m(2) _ nbs]) (use Cons.prems None in auto)
    then show ?thesis
      using nb None by (simp add: cols)
  next
    case (Some d)
    obtain e where e: "encode_datum d = Ok e" "encode_values vals (out @ e) = Ok b"
      using Cons.prems(1) Some by (auto simp: try_then_Ok_iff)
    obtain rest where b: "b = out @ e @ rest"
      using encode_values_prefix [OF e(2)] by auto
    have "decode_values has_null b (Suc i) cs (length (out @ e)) = Ok (vals, length b)"
      by (rule Cons.IH [OF e(2) m(2) _ nbs]) (use Cons.prems in auto)
    moreover have "decode_column col b (length out) = Ok (d, length out + length e)"
      unfolding b by (rule decode_column_encode [OF e(1)]) (use m(1) Some Cons.prems(3) in \<open>auto simp: value_fits_def\<close>)
    ultimately show ?thesis
      using nb Some by (simp add: cols)
  qed
qed simp

lemma check_columns_Ok:
  assumes "length cols = length vals"
  shows "check_columns cols vals (n, v, e) = Ok (n', v', e') \<Longrightarrow>
    list_all2 value_fits cols vals \<and> n' = (n \<or> None \<in> set vals)"
  using assms
  by (induction cols vals arbitrary: n v e rule: list_induct2)
    (auto simp: value_fits_def split: option.splits if_splits)

lemma check_columns_Err:
  assumes "length cols = length vals"
  shows "check_columns cols vals fl = Err e \<longleftrightarrow> e = InvalidArgument \<and> \<not> list_all2 value_fits cols vals"
  using assms
proof (induction cols vals arbitrary: fl rule: list_induct2)
  case (Cons c cs v vs)
  then show ?case
    by (cases fl) (auto simp: value_fits_def split: option.splits)
qed (simp split: prod.splits)

lemma fill_header_simps [simp]:
  "t_xmin (fill_header h fl n hoff) = t_xmin h" "t_xmax (fill_header h fl n hoff) = t_xmax h"
  "t_agent_id (fill_header h fl n hoff) = t_agent_id h" "t_trace_id (fill_header h fl n hoff) = t_trace_id h"
  "t_ctid (fill_header h fl n hoff) = t_ctid h" "t_cid (fill_header h fl n hoff) = t_cid h"
  "t_hoff (fill_header h fl n hoff) = of_nat hoff"
  by (simp_all add: fill_header_def split: prod.splits)

lemma fill_header_natts: "n \<le> 2047 \<Longrightarrow> natts (fill_header h fl n hoff) = n"
proof -
  assume n: "n \<le> 2047"
  let ?w = "of_nat n :: u16"
  have u: "unat ?w = n"
    by (rule unat_of_nat_uN) (use n in simp)
  have t: "take_bit 11 ?w = ?w"
    using n u by (simp add: word_unat_eq_iff unsigned_take_bit_eq take_bit_nat_eq_self)
  have m: "HEAP_NATTS_MASK = mask 11"
    by (simp add: HEAP_NATTS_MASK_def mask_eq_exp_minus_1)
  have "((x AND NOT (mask 11)) OR take_bit 11 ?w) AND mask 11 = take_bit 11 ?w" for x
    by (rule bit_word_eqI) (auto simp: bit_simps)
  then have "((x AND NOT HEAP_NATTS_MASK) OR ?w) AND HEAP_NATTS_MASK = ?w" for x
    by (simp add: m t)
  then show ?thesis
    using u by (simp add: natts_def fill_header_def split: prod.splits)
qed

lemma fill_header_hasnull: "(t_infomask (fill_header h fl n hoff) AND HEAP_HASNULL \<noteq> 0) = fst fl"
proof -
  obtain hn hv he where fl: "fl = (hn, hv, he)"
    by (cases fl)
  have "bit (t_infomask (fill_header h fl n hoff)) 0 = hn"
    by (simp add: fill_header_def fl HEAP_HASNULL_def HEAP_HASVARWIDTH_def HEAP_HASEXTERNAL_def bit_simps)
  moreover have "HEAP_HASNULL = push_bit 0 1"
    by (simp add: HEAP_HASNULL_def)
  ultimately show ?thesis
    using bit_iff_and_push_bit_not_eq_0 [of "t_infomask (fill_header h fl n hoff)" 0] fl by simp
qed

text \<open>The part before the column data: the header and a multiple of eight bytes.\<close>

lemma encode_tuple_Ok:
  assumes "encode_tuple h cols vals = Ok b" "length (t_trace_id h) = 16"
  obtains fl hoff mid rest where
    "length cols = length vals" "length cols \<le> 2047" "list_all2 value_fits cols vals" "fst fl = (None \<in> set vals)"
    "64 + bitmap_len (fst fl) (length cols) \<le> hoff" "hoff \<le> 328" "hoff mod 8 = 0" "length mid = hoff - 64"
    "b = (th_write_to (fill_header h fl (length cols) hoff) (replicate 64 0) @ mid) @ rest"
    "encode_values vals (th_write_to (fill_header h fl (length cols) hoff) (replicate 64 0) @ mid) = Ok b"
    "fst fl \<longrightarrow> bytes_at 0 (bitmap_len (fst fl) (length cols)) mid =
      set_nulls 0 vals (replicate (bitmap_len (fst fl) (length cols)) 0)"
proof -
  have l: "length cols = length vals" "length cols \<le> 2047"
    using assms(1) by (auto simp: encode_tuple_def MAX_NATTS_def split: if_splits)
  then obtain fl where fl: "check_columns cols vals (False, False, False) = Ok fl"
    using assms(1) by (auto simp: encode_tuple_def MAX_NATTS_def try_then_Ok_iff split: if_splits)
  let ?n = "length cols" let ?bl = "bitmap_len (fst fl) ?n"
  let ?hoff = "align_up (64 + ?bl) 8"
  let ?hdr = "th_write_to (fill_header h fl ?n ?hoff) (replicate 64 0)"
  have bl: "?bl \<le> 256"
    using l by (auto simp: bitmap_len_def)
  have hoff: "64 + ?bl \<le> ?hoff" "?hoff \<le> 328" "?hoff mod 8 = 0"
    using align_up_8 [of "64 + ?bl"] bl by linarith+
  have hdr: "length ?hdr = 64"
    using assms(2) by simp
  define mid where "mid = (if fst fl then set_nulls 0 vals (replicate ?bl 0) @ replicate (?hoff - 64 - ?bl) 0
    else replicate (?hoff - 64) 0)"
  have z: "bytes_at 64 ?bl (?hdr @ replicate (?hoff - 64) 0) = replicate ?bl 0"
    using hdr hoff(1) by (simp add: bytes_at_append_right)
  have "put_at 64 ys (?hdr @ replicate (?hoff - 64) 0) = ?hdr @ ys @ replicate (?hoff - 64 - length ys) 0"
    for ys
    using hdr by (simp add: put_at_def)
  then have enc: "encode_values vals (?hdr @ mid) = Ok b"
    using assms(1) l fl z
    by (simp add: encode_tuple_def MAX_NATTS_def TUPLE_HEADER_SIZE_def Let_def mid_def split: if_splits)
  obtain rest where rest: "b = (?hdr @ mid) @ rest"
    using encode_values_prefix [OF enc] by blast
  have mid: "length mid = ?hoff - 64" "fst fl \<longrightarrow> bytes_at 0 ?bl mid = set_nulls 0 vals (replicate ?bl 0)"
    using hoff by (auto simp: mid_def bytes_at_def)
  have "list_all2 value_fits cols vals" "fst fl = (None \<in> set vals)"
    using check_columns_Ok [OF l(1), of False False False] fl by (cases fl; auto)+
  then show ?thesis
    by (rule that [OF l _ _ hoff mid(1) rest enc mid(2)])
qed


text \<open>A variable-length value whose length does not fit beside the tag bits.\<close>

fun oversized :: "datum \<Rightarrow> bool" where
  "oversized (DText s) = (length s + 4 > 2 ^ 30 - 1)"
| "oversized (DBytea b) = (length b + 4 > 2 ^ 30 - 1)"
| "oversized _ = False"

lemma encode_datum_Err: "encode_datum d = Err e \<longleftrightarrow> e = InvalidArgument \<and> oversized d"
  by (cases d) (auto simp: inline_varlena_def unat_VARLENA_LEN_MASK)

lemma encode_values_Err:
  "encode_values vals out = Err e \<longleftrightarrow> e = InvalidArgument \<and> (\<exists>d. Some d \<in> set vals \<and> oversized d)"
proof (induction vals out rule: encode_values.induct)
  case (3 d vals out)
  show ?case
  proof (cases "encode_datum d")
    case (Inl e')
    then show ?thesis
      using encode_datum_Err [of d e'] by auto
  next
    case (Inr b)
    then have "\<not> oversized d"
      using encode_datum_Err [of d InvalidArgument] by auto
    then show ?thesis
      using 3 Inr by auto
  qed
qed simp_all

lemma encode_tuple_Err:
  "encode_tuple h cols vals = Err e \<longleftrightarrow> e = InvalidArgument \<and>
    (length cols \<noteq> length vals \<or> length cols > MAX_NATTS \<or> \<not> list_all2 value_fits cols vals \<or>
     (\<exists>d. Some d \<in> set vals \<and> oversized d))"
proof (cases "length cols = length vals \<and> length cols \<le> MAX_NATTS")
  case True
  show ?thesis
  proof (cases "check_columns cols vals (False, False, False)")
    case (Inl e')
    then show ?thesis
      using True check_columns_Err [of cols vals "(False, False, False)" e'] by (auto simp: encode_tuple_def)
  next
    case (Inr fl)
    then have "list_all2 value_fits cols vals"
      using True check_columns_Err [of cols vals "(False, False, False)" InvalidArgument] by auto
    then show ?thesis
      using True Inr by (simp add: encode_tuple_def Let_def encode_values_Err)
  qed
qed (auto simp: encode_tuple_def)

lemma decode_column_Err: "decode_column col b pos = Err e \<Longrightarrow> e = Corrupted"
  by (auto simp: decode_column_def decode_varlena_def take_bytes_def toast_decode_def try_then_Err_iff Let_def
      split: option.splits if_splits)

lemma decode_values_Err:
  assumes "has_null \<Longrightarrow> 64 + (i + length cols + 7) div 8 \<le> length b"
  shows "decode_values has_null b i cols pos = Err e \<Longrightarrow> e = Corrupted"
  using assms
proof (induction cols arbitrary: i pos e)
  case (Cons col cols)
  have "i div 8 < (i + length (col # cols) + 7) div 8"
    by (simp add: div_less_iff_less_mult)
  then have "null_bit has_null b i \<noteq> Err x" for x
    using Cons.prems(2) by (auto simp: null_bit_def TUPLE_HEADER_SIZE_def)
  moreover have "e' = Corrupted" if "decode_values has_null b (Suc i) cols p = Err e'" for p e'
    using Cons.IH [OF that] Cons.prems(2) by simp
  ultimately show ?case
    using Cons.prems(1) decode_column_Err by (auto simp: try_then_Err_iff split: if_splits)
qed simp

text \<open>
  The errors of the codec.  Encoding fails only for an argument error, exactly if the
  schema and the values differ in length, there are too many columns, a value has
  not the type of its column, or a variable-length value is too long.  Decoding arbitrary
  bytes never indexes out of range: its only error is that the tuple is corrupted.
\<close>

theorem tuple_codec_errors:
  "(encode_tuple h cols vals = Err e \<longleftrightarrow> e = InvalidArgument \<and>
     (length cols \<noteq> length vals \<or> length cols > MAX_NATTS \<or> \<not> list_all2 value_fits cols vals \<or>
      (\<exists>d. Some d \<in> set vals \<and> oversized d))) \<and>
   (decode_tuple b cols = Err e2 \<longrightarrow> e2 = Corrupted)"
proof -
  have "e2 = Corrupted" if d: "decode_tuple b cols = Err e2"
  proof (cases "th_read_from b")
    case (Inl e)
    then show ?thesis
      using d by (auto simp: decode_tuple_def th_read_from_def split: if_splits)
  next
    case (Inr th)
    let ?n = "t_infomask th AND HEAP_HASNULL \<noteq> 0"
    show ?thesis
    proof (cases "decode_values ?n b 0 cols (unat (t_hoff th))")
      case (Inl e)
      moreover have "e = Corrupted" if "?n \<Longrightarrow> 64 + (0 + length cols + 7) div 8 \<le> length b"
        using decode_values_Err [OF that Inl] .
      ultimately show ?thesis
        using d Inr by (auto simp: decode_tuple_def TUPLE_HEADER_SIZE_def bitmap_len_def Let_def split: if_splits)
    next
      case (Inr r)
      then show ?thesis
        using d \<open>th_read_from b = Inr th\<close> by (auto simp: decode_tuple_def Let_def split: if_splits prod.splits)
    qed
  qed
  then show ?thesis
    using encode_tuple_Err by blast
qed

definition demo_header :: tuple_header where
  "demo_header = tuple_header_new 7 0 0 (replicate 16 0) \<lparr> tid_page_id = 1, tid_slot_id = 0 \<rparr> 0"

definition demo_columns :: "column_type list" where "demo_columns = [ColInt4, ColText, ColBytea]"

definition demo_values :: "datum option list" where
  "demo_values = [None, Some (DText [104, 105]), Some (DBytea [255])]"

lemma demo_encode: "\<exists>b. encode_tuple demo_header demo_columns demo_values = Ok b"
proof (cases "encode_tuple demo_header demo_columns demo_values")
  case (Inl e)
  then show ?thesis
    by (auto simp: encode_tuple_Err demo_columns_def demo_values_def MAX_NATTS_def value_fits_def datum_matches_def)
qed simp


theorem tuple_codec_errors_witness:
  "decode_tuple [1, 2, 3] [ColInt4] = Err Corrupted \<and> encode_tuple demo_header [ColInt4] [] = Err InvalidArgument"
proof -
  have "decode_tuple [1, 2, 3] [ColInt4] = Err Corrupted"
    using tuple_codec_errors [of demo_header "[]" "[]" HeapPanic "[1, 2, 3]" Corrupted]
    by (simp add: decode_tuple_def th_read_from_def TUPLE_HEADER_SIZE_def)
  then show ?thesis
    using tuple_codec_errors [of demo_header "[ColInt4]" "[]" InvalidArgument "[1, 2, 3]" Corrupted] by simp
qed

end
