(* ===== verification/Heap_Row.thy ===== *)
theory Heap_Row
  imports Tuple_Codec Visibility
begin

text \<open>
  Row versions on a heap page (\<^verbatim>\<open>pg-am-heap/src/heap_am.rs\<close>): the stamps that delete, update
  and lock a version in place, the visibility of a stamped version, the walks along
  chains of versions on one page, and the row-lock gate with the registry of shared
  locks.  The lock protocol of one row is a step relation whose invariant says that a
  writer or exclusive locker never coexists with another holder.
\<close>

section \<open>Stamps\<close>

text \<open>
  Reading the header of a live tuple, changing it and writing it back: the common body
  of the stamping functions.
\<close>

definition read_row_header :: "page \<Rightarrow> tid \<Rightarrow> heap_error + nat \<times> byte list \<times> tuple_header" where
  "read_row_header pg t =
    try_then (line_pointer pg (tid_slot_id t)) (\<lambda>lp.
      if lp_flags lp \<noteq> LpNormal then Err (TupleNotFound t)
      else let off = unat (lp_off lp) in
        try_then (read_slice off TUPLE_HEADER_SIZE pg) (\<lambda>b.
          try_then (th_read_from b) (\<lambda>h. Ok (off, b, h))))"

definition stamp_tuple :: "(tuple_header \<Rightarrow> tuple_header) \<Rightarrow> page \<Rightarrow> tid \<Rightarrow> heap_error + page" where
  "stamp_tuple f pg t =
    try_then (read_row_header pg t) (\<lambda>(off, b, h). write_slice off (th_write_to (f h) b) pg)"

definition deleted_header :: "txn_id \<Rightarrow> u32 \<Rightarrow> bool \<Rightarrow> tuple_header \<Rightarrow> tuple_header" where
  "deleted_header xm cid updated h =
    (let h = h\<lparr> t_xmax := xm, t_cid := cid \<rparr>;
         h = (if updated then h\<lparr> t_infomask := t_infomask h OR HEAP_UPDATED \<rparr> else h)
     in h\<lparr> t_infomask := t_infomask h AND NOT (HEAP_XMAX_LOCK_ONLY OR HEAP_XMAX_IS_SHARE) \<rparr>)"

definition hot_updated_header :: "txn_id \<Rightarrow> u32 \<Rightarrow> tid \<Rightarrow> tuple_header \<Rightarrow> tuple_header" where
  "hot_updated_header xm cid new_tid h =
    (let h = h\<lparr> t_xmax := xm, t_cid := cid \<rparr>;
         h = h\<lparr> t_infomask := t_infomask h OR HEAP_UPDATED \<rparr>;
         h = h\<lparr> t_infomask := t_infomask h AND NOT (HEAP_XMAX_LOCK_ONLY OR HEAP_XMAX_IS_SHARE) \<rparr>
     in h\<lparr> t_ctid := new_tid, t_infomask2 := t_infomask2 h OR HEAP_HOT_UPDATED \<rparr>)"

definition locked_header :: "txn_id \<Rightarrow> u32 \<Rightarrow> bool \<Rightarrow> tuple_header \<Rightarrow> tuple_header" where
  "locked_header locker cid shared h =
    (let h = h\<lparr> t_xmax := locker, t_cid := cid, t_infomask := t_infomask h OR HEAP_XMAX_LOCK_ONLY \<rparr>
     in if shared then h\<lparr> t_infomask := t_infomask h OR HEAP_XMAX_IS_SHARE \<rparr>
        else h\<lparr> t_infomask := t_infomask h AND NOT HEAP_XMAX_IS_SHARE \<rparr>)"

definition stamp_deleted :: "page \<Rightarrow> tid \<Rightarrow> txn_id \<Rightarrow> u32 \<Rightarrow> bool \<Rightarrow> heap_error + page" where
  "stamp_deleted pg t xm cid updated = stamp_tuple (deleted_header xm cid updated) pg t"

definition stamp_hot_update :: "page \<Rightarrow> tid \<Rightarrow> txn_id \<Rightarrow> u32 \<Rightarrow> tid \<Rightarrow> heap_error + page" where
  "stamp_hot_update pg t xm cid new_tid = stamp_tuple (hot_updated_header xm cid new_tid) pg t"

definition stamp_lock_only :: "page \<Rightarrow> tid \<Rightarrow> txn_id \<Rightarrow> u32 \<Rightarrow> bool \<Rightarrow> heap_error + page" where
  "stamp_lock_only pg t locker cid shared = stamp_tuple (locked_header locker cid shared) pg t"

definition stamp_xmin :: "byte list \<Rightarrow> txn_id \<Rightarrow> heap_error + byte list" where
  "stamp_xmin tuple xid =
    (if length tuple < TUPLE_HEADER_SIZE then Err InvalidArgument else Ok (put_u64 0 xid tuple))"

definition stamp_hot_only :: "byte list \<Rightarrow> txn_id \<Rightarrow> heap_error + byte list" where
  "stamp_hot_only tuple xid =
    (if length tuple < TUPLE_HEADER_SIZE then Err InvalidArgument
     else let owned = put_u64 0 xid tuple
       in Ok (put_u16 54 (get_u16 owned 54 OR HEAP_ONLY_TUPLE) owned))"

definition stamp_pd_lsn :: "page \<Rightarrow> lsn \<Rightarrow> page" where
  "stamp_pd_lsn pg l = set_page_pd_lsn pg (max l (page_pd_lsn pg))"

definition MAX_TUPLE_BYTES :: nat where
  "MAX_TUPLE_BYTES = PAGE_SIZE - HEAP_SPECIAL_SIZE - PAGE_HEADER_SIZE - LINE_POINTER_SIZE"

definition validate_tuple_len :: "byte list \<Rightarrow> heap_error + unit" where
  "validate_tuple_len bytes =
    (if bytes = [] then Err InvalidArgument
     else if length bytes > MAX_TUPLE_BYTES then Err (TupleTooLarge (length bytes)) else Ok ())"

section \<open>Reading versions\<close>

definition xmax_lock_only :: "tuple_header \<Rightarrow> bool" where
  "xmax_lock_only h \<longleftrightarrow> t_infomask h AND HEAP_XMAX_LOCK_ONLY \<noteq> 0"

definition xmax_is_share :: "tuple_header \<Rightarrow> bool" where
  "xmax_is_share h \<longleftrightarrow> t_infomask h AND HEAP_XMAX_IS_SHARE \<noteq> 0"

definition hot_updated :: "tuple_header \<Rightarrow> bool" where
  "hot_updated h \<longleftrightarrow> t_infomask2 h AND HEAP_HOT_UPDATED \<noteq> 0"

definition heap_only :: "tuple_header \<Rightarrow> bool" where
  "heap_only h \<longleftrightarrow> t_infomask2 h AND HEAP_ONLY_TUPLE \<noteq> 0"

definition visibility_xmax :: "tuple_header \<Rightarrow> txn_id" where
  "visibility_xmax h = (if xmax_lock_only h then 0 else t_xmax h)"

definition row_visible :: "tuple_header \<Rightarrow> snapshot \<Rightarrow> (txn_id \<Rightarrow> txn_state) \<Rightarrow> bool" where
  "row_visible h snap clog = is_visible (t_xmin h) (visibility_xmax h) (t_cid h) snap clog"

text \<open>\<open>&bytes[..64]\<close> of a tuple, which panics on a shorter one.\<close>

definition read_prefix_header :: "byte list \<Rightarrow> heap_error + tuple_header" where
  "read_prefix_header b =
    (if length b < TUPLE_HEADER_SIZE then Err HeapPanic else th_read_from (bytes_at 0 TUPLE_HEADER_SIZE b))"

text \<open>\<open>follow_hot_chain\<close>, with the loop's remaining hops as the argument.\<close>

fun hot_chain_loop ::
  "nat \<Rightarrow> page \<Rightarrow> page_id \<Rightarrow> tid \<Rightarrow> snapshot \<Rightarrow> (txn_id \<Rightarrow> txn_state) \<Rightarrow> heap_error + tid option" where
  "hot_chain_loop 0 pg pid t snap clog = Err Corrupted"
| "hot_chain_loop (Suc n) pg pid t snap clog =
    (if tid_page_id t \<noteq> pid then Ok None
     else try_then (tuple_at pg (tid_slot_id t)) (\<lambda>r. case r of
         None \<Rightarrow> Ok None
       | Some b \<Rightarrow> try_then (read_prefix_header b) (\<lambda>h.
           if row_visible h snap clog then Ok (Some t)
           else if hot_updated h \<and> t_ctid h \<noteq> t then hot_chain_loop n pg pid (t_ctid h) snap clog
           else Ok None)))"

definition follow_hot_chain ::
  "page \<Rightarrow> page_id \<Rightarrow> tid \<Rightarrow> snapshot \<Rightarrow> (txn_id \<Rightarrow> txn_state) \<Rightarrow> heap_error + tid option" where
  "follow_hot_chain pg pid start snap clog = hot_chain_loop (slot_count pg) pg pid start snap clog"

text \<open>The links of \<open>hot_chain_root\<close>: a later insertion for the same target replaces an earlier.\<close>

fun hot_links :: "page \<Rightarrow> nat \<Rightarrow> nat \<Rightarrow> (tid \<Rightarrow> u16 option) \<Rightarrow> heap_error + (tid \<Rightarrow> u16 option)" where
  "hot_links pg slot 0 links = Ok links"
| "hot_links pg slot (Suc n) links =
    try_then (tuple_at pg (of_nat slot)) (\<lambda>r. case r of
        None \<Rightarrow> hot_links pg (Suc slot) n links
      | Some b \<Rightarrow> try_then (read_prefix_header b) (\<lambda>h.
          hot_links pg (Suc slot) n (if hot_updated h then links(t_ctid h \<mapsto> of_nat slot) else links)))"

fun hot_root_loop :: "nat \<Rightarrow> page \<Rightarrow> page_id \<Rightarrow> (tid \<Rightarrow> u16 option) \<Rightarrow> tid \<Rightarrow> heap_error + tid" where
  "hot_root_loop 0 pg pid links cur = Err Corrupted"
| "hot_root_loop (Suc n) pg pid links cur =
    try_then (tuple_at pg (tid_slot_id cur)) (\<lambda>r. case r of
        None \<Rightarrow> Ok cur
      | Some b \<Rightarrow> try_then (read_prefix_header b) (\<lambda>h.
          if \<not> heap_only h then Ok cur
          else case links cur of
              Some slot \<Rightarrow> hot_root_loop n pg pid links \<lparr> tid_page_id = pid, tid_slot_id = slot \<rparr>
            | None \<Rightarrow> Ok cur))"

definition hot_chain_root :: "page \<Rightarrow> page_id \<Rightarrow> tid \<Rightarrow> heap_error + tid" where
  "hot_chain_root pg pid t =
    try_then (hot_links pg 0 (slot_count pg) Map.empty) (\<lambda>links. hot_root_loop (slot_count pg) pg pid links t)"

section \<open>The row-lock gate\<close>

datatype lock_request = ReqWriter | ReqExclusive | ReqShared

datatype gate_verdict = Proceed | ProceedNoStamp | GateWait txn_id

text \<open>
  What the gate reads of the transaction system: the commit log, the row waiter's active
  set (none in the legacy mode), and the commit log again when the holder looks active in
  the first reading but is not in the active set.  Between these readings other
  transactions may end, so the two commit logs are separate arguments.
\<close>

record gate_env =
  env_clog :: "txn_id \<Rightarrow> txn_state"
  env_waiter :: "(txn_id \<Rightarrow> bool) option"
  env_clog2 :: "txn_id \<Rightarrow> txn_state"

type_synonym share_registry = "page_id \<times> u16 \<Rightarrow> txn_id set"

definition share_key :: "tid \<Rightarrow> page_id \<times> u16" where
  "share_key t = (tid_page_id t, tid_slot_id t)"

definition note_stamp_overwrite :: "tid \<Rightarrow> txn_id \<Rightarrow> lock_request \<Rightarrow> share_registry \<Rightarrow> share_registry" where
  "note_stamp_overwrite t self_xid request reg =
    (if request = ReqShared then reg(share_key t := {self_xid}) else reg(share_key t := {}))"

definition register_share_holder :: "tid \<Rightarrow> txn_id \<Rightarrow> share_registry \<Rightarrow> share_registry" where
  "register_share_holder t xid reg = reg(share_key t := insert xid (reg (share_key t)))"

definition live_share_holders ::
  "gate_env \<Rightarrow> tid \<Rightarrow> txn_id \<Rightarrow> share_registry \<Rightarrow> heap_error + txn_id set \<times> share_registry" where
  "live_share_holders env t stamp_xmax reg =
    (let holders = insert stamp_xmax (reg (share_key t)) in
     case env_waiter env of
       None \<Rightarrow>
         if \<exists>h \<in> holders. \<not> is_terminal (env_clog env h) then Err (TupleNotFound t)
         else Ok ({}, reg(share_key t := {}))
     | Some act \<Rightarrow>
         let alive = {h \<in> holders. \<not> is_terminal (env_clog env h) \<and> act h}
         in Ok (alive, reg(share_key t := alive)))"

text \<open>The smallest other holder: sets are iterated in order.\<close>

definition other_holder :: "txn_id set \<Rightarrow> txn_id \<Rightarrow> txn_id option" where
  "other_holder alive self_xid = (if alive - {self_xid} = {} then None else Some (Min (alive - {self_xid})))"

definition upgrade_share ::
  "tid \<Rightarrow> txn_id \<Rightarrow> lock_request \<Rightarrow> txn_id set \<times> share_registry \<Rightarrow> gate_verdict \<times> share_registry" where
  "upgrade_share t self_xid request lr =
    (case lr of (alive, reg) \<Rightarrow>
      (case other_holder alive self_xid of
         Some blocking \<Rightarrow> (GateWait blocking, reg)
       | None \<Rightarrow> (Proceed, note_stamp_overwrite t self_xid request reg)))"

definition share_stamp_gate ::
  "gate_env \<Rightarrow> tid \<Rightarrow> txn_id \<Rightarrow> txn_id \<Rightarrow> lock_request \<Rightarrow> share_registry
   \<Rightarrow> heap_error + gate_verdict \<times> share_registry" where
  "share_stamp_gate env t self_xid stamp_xmax request reg =
    try_then (live_share_holders env t stamp_xmax reg) (\<lambda>(alive, reg).
      if self_xid \<in> alive then
        (if request = ReqShared then Ok (ProceedNoStamp, register_share_holder t self_xid reg)
         else Ok (upgrade_share t self_xid request (alive, reg)))
      else if request = ReqShared then
        (if alive = {} then Ok (Proceed, note_stamp_overwrite t self_xid request reg)
         else Ok (ProceedNoStamp, register_share_holder t self_xid reg))
      else
        (if alive = {} then Ok (Proceed, note_stamp_overwrite t self_xid request reg)
         else Ok (GateWait (Min alive), reg)))"

text \<open>The gate on a header already read.\<close>

definition header_gate ::
  "gate_env \<Rightarrow> tid \<Rightarrow> txn_id \<Rightarrow> lock_request \<Rightarrow> tuple_header \<Rightarrow> share_registry
   \<Rightarrow> heap_error + gate_verdict \<times> share_registry" where
  "header_gate env t self_xid request h reg =
    (let xm = t_xmax h; lock_only = xmax_lock_only h; is_share = xmax_is_share h in
     if xm = 0 then Ok (Proceed, note_stamp_overwrite t self_xid request reg)
     else if xm = self_xid then
       (if \<not> lock_only then (if request \<noteq> ReqWriter then Err InvalidArgument else Ok (Proceed, reg))
        else if is_share then
          (if request = ReqShared then Ok (ProceedNoStamp, register_share_holder t self_xid reg)
           else try_then (live_share_holders env t xm reg) (\<lambda>lr. Ok (upgrade_share t self_xid request lr)))
        else if request = ReqShared then Ok (ProceedNoStamp, reg)
        else Ok (Proceed, reg))
     else if is_share then share_stamp_gate env t self_xid xm request reg
     else
       let looks_active = (\<not> is_terminal (env_clog env xm));
           decide = (\<lambda>state. if state = Committed \<and> \<not> lock_only
                       then Err (if env_waiter env = None then TupleNotFound t else TupleConcurrentlyUpdated t)
                       else Ok (Proceed, note_stamp_overwrite t self_xid request reg))
       in if looks_active then
            (case env_waiter env of
               Some act \<Rightarrow> if act xm then Ok (GateWait xm, reg) else decide (env_clog2 env xm)
             | None \<Rightarrow> Err (TupleNotFound t))
          else decide (env_clog env xm))"

definition row_lock_gate ::
  "gate_env \<Rightarrow> page \<Rightarrow> tid \<Rightarrow> txn_id \<Rightarrow> lock_request \<Rightarrow> share_registry
   \<Rightarrow> heap_error + gate_verdict \<times> share_registry" where
  "row_lock_gate env pg t self_xid request reg =
    try_then (read_row_header pg t) (\<lambda>(_, _, h). header_gate env t self_xid request h reg)"

section \<open>The flag bits of the stamps\<close>

lemma flag_bits:
  "HEAP_XMAX_LOCK_ONLY = push_bit 12 1" "HEAP_UPDATED = push_bit 13 1" "HEAP_XMAX_IS_SHARE = push_bit 14 1"
  "HEAP_HOT_UPDATED = push_bit 14 1" "HEAP_ONLY_TUPLE = push_bit 15 1"
  by (simp_all add: HEAP_XMAX_LOCK_ONLY_def HEAP_UPDATED_def HEAP_XMAX_IS_SHARE_def HEAP_HOT_UPDATED_def HEAP_ONLY_TUPLE_def)

lemma xmax_lock_only_bit: "xmax_lock_only h = bit (t_infomask h) 12"
  by (simp add: xmax_lock_only_def flag_bits bit_iff_and_push_bit_not_eq_0)

lemma xmax_is_share_bit: "xmax_is_share h = bit (t_infomask h) 14"
  by (simp add: xmax_is_share_def flag_bits bit_iff_and_push_bit_not_eq_0)

lemma hot_updated_bit: "hot_updated h = bit (t_infomask2 h) 14"
  by (simp add: hot_updated_def flag_bits bit_iff_and_push_bit_not_eq_0)

lemma heap_only_bit: "heap_only h = bit (t_infomask2 h) 15"
  by (simp add: heap_only_def flag_bits bit_iff_and_push_bit_not_eq_0)

lemma flag_bit:
  "bit HEAP_XMAX_LOCK_ONLY n \<longleftrightarrow> n = 12" "bit HEAP_UPDATED n \<longleftrightarrow> n = 13" "bit HEAP_XMAX_IS_SHARE n \<longleftrightarrow> n = 14"
  "bit HEAP_HOT_UPDATED n \<longleftrightarrow> n = 14" "bit HEAP_ONLY_TUPLE n \<longleftrightarrow> n = 15"
  unfolding flag_bits bit_push_bit_iff bit_1_iff by auto

lemmas row_bits = xmax_lock_only_bit xmax_is_share_bit hot_updated_bit heap_only_bit

lemma deleted_header_simps [simp]:
  "t_xmax (deleted_header x c u h) = x" "\<not> xmax_lock_only (deleted_header x c u h)"
  "\<not> xmax_is_share (deleted_header x c u h)" "t_xmin (deleted_header x c u h) = t_xmin h"
  "t_cid (deleted_header x c u h) = c" "t_trace_id (deleted_header x c u h) = t_trace_id h"
  "t_ctid (deleted_header x c u h) = t_ctid h" "t_infomask2 (deleted_header x c u h) = t_infomask2 h"
  "t_agent_id (deleted_header x c u h) = t_agent_id h" "t_hoff (deleted_header x c u h) = t_hoff h"
  "t_flags (deleted_header x c u h) = t_flags h"
  by (simp_all add: deleted_header_def row_bits flag_bit bit_simps Let_def)

lemma hot_updated_header_simps [simp]:
  "t_xmax (hot_updated_header x c n h) = x" "\<not> xmax_lock_only (hot_updated_header x c n h)"
  "\<not> xmax_is_share (hot_updated_header x c n h)" "t_xmin (hot_updated_header x c n h) = t_xmin h"
  "t_cid (hot_updated_header x c n h) = c" "t_trace_id (hot_updated_header x c n h) = t_trace_id h"
  "t_ctid (hot_updated_header x c n h) = n" "hot_updated (hot_updated_header x c n h)"
  "t_agent_id (hot_updated_header x c n h) = t_agent_id h" "t_hoff (hot_updated_header x c n h) = t_hoff h"
  "t_flags (hot_updated_header x c n h) = t_flags h"
  by (simp_all add: hot_updated_header_def row_bits flag_bit bit_simps Let_def)

lemma locked_header_simps [simp]:
  "t_xmax (locked_header x c sh h) = x" "xmax_lock_only (locked_header x c sh h)"
  "xmax_is_share (locked_header x c sh h) = sh" "t_xmin (locked_header x c sh h) = t_xmin h"
  "t_cid (locked_header x c sh h) = c" "t_trace_id (locked_header x c sh h) = t_trace_id h"
  "t_ctid (locked_header x c sh h) = t_ctid h" "t_infomask2 (locked_header x c sh h) = t_infomask2 h"
  "t_agent_id (locked_header x c sh h) = t_agent_id h" "t_hoff (locked_header x c sh h) = t_hoff h"
  "t_flags (locked_header x c sh h) = t_flags h"
  by (simp_all add: locked_header_def row_bits flag_bit bit_simps Let_def)

section \<open>The lock protocol of one row\<close>

text \<open>
  The row's header, the registry, the commit log and the active set, and as ghosts the
  transaction ids handed out and the requests each transaction was granted on the row.
\<close>

record row_state =
  rs_header :: tuple_header
  rs_share :: share_registry
  rs_clog :: "txn_id \<Rightarrow> txn_state"
  rs_active :: "txn_id set"
  rs_used :: "txn_id set"
  rs_held :: "txn_id \<Rightarrow> lock_request set"

definition running :: "row_state \<Rightarrow> txn_id \<Rightarrow> bool" where
  "running s x \<longleftrightarrow> x \<in> rs_active s \<and> rs_clog s x = InProgress"

text \<open>
  Readings the gate can have made by the time it decides: a status read earlier is the
  present one or still \<open>InProgress\<close>, and whoever is active now was active before.
\<close>

definition env_ok :: "row_state \<Rightarrow> gate_env \<Rightarrow> bool" where
  "env_ok s env \<longleftrightarrow>
    (\<forall>x. env_clog env x = InProgress \<or> env_clog env x = rs_clog s x) \<and>
    (\<exists>act. env_waiter env = Some act \<and> (\<forall>x \<in> rs_active s. act x)) \<and> env_clog2 env = rs_clog s"

text \<open>The stamp a granted request leaves; \<open>hot\<close> is the new version of an update in place.\<close>

fun row_stamp :: "lock_request \<Rightarrow> txn_id \<Rightarrow> u32 \<Rightarrow> bool \<Rightarrow> tid option \<Rightarrow> tuple_header \<Rightarrow> tuple_header" where
  "row_stamp ReqWriter x cid updated None h = deleted_header x cid updated h"
| "row_stamp ReqWriter x cid updated (Some n) h = hot_updated_header x cid n h"
| "row_stamp ReqExclusive x cid updated hot h = locked_header x cid False h"
| "row_stamp ReqShared x cid updated hot h = locked_header x cid True h"

inductive row_step :: "tid \<Rightarrow> row_state \<Rightarrow> row_state \<Rightarrow> bool" for t where
  start: "x \<notin> rs_used s \<Longrightarrow> x \<noteq> 0 \<Longrightarrow>
    row_step t s (s\<lparr> rs_active := insert x (rs_active s), rs_used := insert x (rs_used s) \<rparr>)"
| stamp: "running s x \<Longrightarrow> env_ok s env \<Longrightarrow>
    header_gate env t x req (rs_header s) (rs_share s) = Ok (Proceed, reg) \<Longrightarrow>
    row_step t s (s\<lparr> rs_header := row_stamp req x cid updated hot (rs_header s), rs_share := reg,
      rs_held := (rs_held s)(x := insert req (rs_held s x)) \<rparr>)"
| coexist: "running s x \<Longrightarrow> env_ok s env \<Longrightarrow>
    header_gate env t x req (rs_header s) (rs_share s) = Ok (ProceedNoStamp, reg) \<Longrightarrow>
    row_step t s (s\<lparr> rs_share := reg, rs_held := (rs_held s)(x := insert req (rs_held s x)) \<rparr>)"
| wait: "running s x \<Longrightarrow> env_ok s env \<Longrightarrow>
    header_gate env t x req (rs_header s) (rs_share s) = Ok (GateWait b, reg) \<Longrightarrow>
    row_step t s (s\<lparr> rs_share := reg \<rparr>)"
| finish: "running s x \<Longrightarrow> is_terminal st \<Longrightarrow> row_step t s (s\<lparr> rs_clog := (rs_clog s)(x := st) \<rparr>)"
| leave: "x \<in> rs_active s \<Longrightarrow> is_terminal (rs_clog s x) \<Longrightarrow>
    row_step t s (s\<lparr> rs_active := rs_active s - {x} \<rparr>)"
| other_row: "reg (share_key t) = rs_share s (share_key t) \<Longrightarrow> row_step t s (s\<lparr> rs_share := reg \<rparr>)"

text \<open>
  A row as it is found: no transaction is running, and its stamp, if any, is left over
  from a transaction id already used.
\<close>

definition row_init :: "row_state \<Rightarrow> bool" where
  "row_init s \<longleftrightarrow> rs_active s = {} \<and> rs_held s = (\<lambda>_. {}) \<and>
    (xmax_is_share (rs_header s) \<longrightarrow> xmax_lock_only (rs_header s) \<and> t_xmax (rs_header s) \<noteq> 0) \<and>
    (\<forall>x. x \<notin> rs_used s \<longrightarrow> rs_clog s x = InProgress)"

inductive row_reachable :: "tid \<Rightarrow> row_state \<Rightarrow> bool" for t where
  init: "row_init s \<Longrightarrow> row_reachable t s"
| step: "row_reachable t s \<Longrightarrow> row_step t s s' \<Longrightarrow> row_reachable t s'"

definition holds_exclusively :: "row_state \<Rightarrow> txn_id \<Rightarrow> bool" where
  "holds_exclusively s x \<longleftrightarrow> ReqWriter \<in> rs_held s x \<or> ReqExclusive \<in> rs_held s x"

definition row_inv :: "tid \<Rightarrow> row_state \<Rightarrow> bool" where
  "row_inv t s \<longleftrightarrow>
    rs_active s \<subseteq> rs_used s \<and> 0 \<notin> rs_active s \<and>
    (\<forall>x. x \<notin> rs_used s \<longrightarrow> rs_clog s x = InProgress \<and> rs_held s x = {}) \<and>
    (xmax_is_share (rs_header s) \<longrightarrow> xmax_lock_only (rs_header s) \<and> t_xmax (rs_header s) \<noteq> 0) \<and>
    (\<forall>x. running s x \<and> holds_exclusively s x \<longrightarrow>
      t_xmax (rs_header s) = x \<and> \<not> xmax_is_share (rs_header s) \<and> (\<forall>y. y \<noteq> x \<and> running s y \<longrightarrow> rs_held s y = {})) \<and>
    (\<forall>x. running s x \<and> rs_held s x \<noteq> {} \<longrightarrow>
      t_xmax (rs_header s) = x \<or>
      xmax_is_share (rs_header s) \<and> x \<in> rs_share s (share_key t))"


lemma row_invD:
  assumes "row_inv t s"
  shows "rs_active s \<subseteq> rs_used s" "0 \<notin> rs_active s"
    "x \<notin> rs_used s \<Longrightarrow> rs_clog s x = InProgress" "x \<notin> rs_used s \<Longrightarrow> rs_held s x = {}"
    "xmax_is_share (rs_header s) \<Longrightarrow> xmax_lock_only (rs_header s)"
    "xmax_is_share (rs_header s) \<Longrightarrow> t_xmax (rs_header s) \<noteq> 0"
    "running s x \<Longrightarrow> holds_exclusively s x \<Longrightarrow> t_xmax (rs_header s) = x"
    "running s x \<Longrightarrow> holds_exclusively s x \<Longrightarrow> \<not> xmax_is_share (rs_header s)"
    "running s x \<Longrightarrow> holds_exclusively s x \<Longrightarrow> y \<noteq> x \<Longrightarrow> running s y \<Longrightarrow> rs_held s y = {}"
    "running s x \<Longrightarrow> rs_held s x \<noteq> {} \<Longrightarrow>
      t_xmax (rs_header s) = x \<or> xmax_is_share (rs_header s) \<and> x \<in> rs_share s (share_key t)"
  using assms unfolding row_inv_def by blast+

text \<open>Whoever runs is seen alive by every reading.\<close>

lemma env_ok_running:
  assumes "env_ok s env" "running s x"
  obtains act where "env_waiter env = Some act" "act x" "env_clog env x = InProgress"
  using assms unfolding env_ok_def running_def by fastforce

lemma live_share_holders_running:
  assumes "env_ok s env" "live_share_holders env t xm reg = Ok (alive, reg')"
  shows "reg' = reg(share_key t := alive)" "alive \<subseteq> insert xm (reg (share_key t))"
    "running s y \<Longrightarrow> y = xm \<or> y \<in> reg (share_key t) \<Longrightarrow> y \<in> alive"
proof -
  obtain act where a: "env_waiter env = Some act" "\<forall>x \<in> rs_active s. act x"
    using assms(1) by (auto simp: env_ok_def)
  have al: "alive = {h \<in> insert xm (reg (share_key t)). \<not> is_terminal (env_clog env h) \<and> act h}"
    and "reg' = reg(share_key t := alive)"
    using assms(2) a(1) by (auto simp: live_share_holders_def Let_def)
  then show "reg' = reg(share_key t := alive)" "alive \<subseteq> insert xm (reg (share_key t))"
    by auto
  show "y \<in> alive" if "running s y" "y = xm \<or> y \<in> reg (share_key t)"
    using that a(2) assms(1) unfolding al
    by (auto simp: running_def env_ok_def is_terminal_def) (metis txn_state.distinct(1,3))+
qed

text \<open>What the verdicts of the gate mean for the other transactions.\<close>

lemma other_holder_None: "other_holder alive x = None \<longleftrightarrow> alive \<subseteq> {x}"
  by (auto simp: other_holder_def)

lemma gate_Proceed:
  assumes inv: "row_inv t s" and env: "env_ok s env" and run: "running s x"
    and g: "header_gate env t x req (rs_header s) (rs_share s) = Ok (Proceed, reg)"
    and y: "running s y" "y \<noteq> x"
  shows "rs_held s y = {}"
proof (rule ccontr)
  assume h: "rs_held s y \<noteq> {}"
  let ?h = "rs_header s"
  obtain act where a: "env_waiter env = Some act" "act y" "env_clog env y = InProgress"
    using env_ok_running [OF env y(1)] .
  have y0: "y \<noteq> 0"
    using y(1) row_invD(2) [OF inv] by (auto simp: running_def)
  have yh: "t_xmax ?h = y \<or> xmax_is_share ?h \<and> y \<in> rs_share s (share_key t)"
    by (rule row_invD(10) [OF inv y(1) h])
  have t0: "t_xmax ?h \<noteq> 0"
    using yh y0 row_invD(6) [OF inv] by auto
  show False
  proof (cases "xmax_is_share ?h")
    case True
    have lo: "xmax_lock_only ?h"
      by (rule row_invD(5) [OF inv True])
    have *: "y \<in> alive" if "live_share_holders env t (t_xmax ?h) (rs_share s) = Ok (alive, reg')" for alive reg'
      using live_share_holders_running(3) [OF env that y(1)] yh by auto
    show False
      using g t0 lo True * y(2)
      by (auto simp: header_gate_def Let_def share_stamp_gate_def upgrade_share_def other_holder_None try_then_Ok_iff
          split: if_splits option.splits prod.splits)
  next
    case False
    then have "t_xmax ?h = y"
      using yh by simp
    then show False
      using g a y0 y(2) False by (auto simp: header_gate_def Let_def is_terminal_def split: if_splits)
  qed
qed

lemma gate_shared_not_exclusive:
  assumes inv: "row_inv t s" and run: "running s x"
    and g: "header_gate env t x ReqShared (rs_header s) (rs_share s) = Ok (Proceed, reg)"
  shows "\<not> holds_exclusively s x"
proof
  assume h: "holds_exclusively s x"
  have "t_xmax (rs_header s) = x" "\<not> xmax_is_share (rs_header s)" "x \<noteq> 0"
    using row_invD(7,8) [OF inv run h] row_invD(2) [OF inv] run by (auto simp: running_def)
  then show False
    using g by (auto simp: header_gate_def Let_def split: if_splits)
qed

lemma gate_ProceedNoStamp:
  assumes "header_gate env t x req h reg = Ok (ProceedNoStamp, reg')"
  shows "req = ReqShared" "t_xmax h = x \<or> xmax_is_share h \<and> x \<in> reg' (share_key t)"
  using assms
  by (auto simp: header_gate_def Let_def share_stamp_gate_def upgrade_share_def try_then_Ok_iff register_share_holder_def
      split: if_splits option.splits prod.splits)

lemma gate_keeps_holders:
  assumes env: "env_ok s env" and g: "header_gate env t x req h reg = Ok (v, reg')" and v: "v \<noteq> Proceed"
    and y: "running s y" "y \<in> reg (share_key t)"
  shows "y \<in> reg' (share_key t)"
proof -
  have *: "y \<in> reg2 (share_key t) \<and> y \<in> alive" if "live_share_holders env t xm reg = Ok (alive, reg2)" for xm alive reg2
    using live_share_holders_running(1,3) [OF env that] y by auto
  show ?thesis
    using g v y(2) *
    by (auto simp: header_gate_def Let_def share_stamp_gate_def upgrade_share_def try_then_Ok_iff register_share_holder_def
        split: if_splits option.splits prod.splits)
qed

lemma row_stamp_simps:
  "t_xmax (row_stamp req x cid u hot h) = x" "t_xmin (row_stamp req x cid u hot h) = t_xmin h"
  "xmax_is_share (row_stamp req x cid u hot h) = (req = ReqShared)"
  "xmax_lock_only (row_stamp req x cid u hot h) = (req \<noteq> ReqWriter)"
  by (cases "(req, x, cid, u, hot, h)" rule: row_stamp.cases; simp)+

lemma row_init_inv: "row_init s \<Longrightarrow> row_inv t s"
  by (auto simp: row_init_def row_inv_def running_def)

text \<open>Steps that leave the stamp and the grants alone.\<close>

lemma row_inv_weaken:
  assumes inv: "row_inv t s" and same: "rs_header s' = rs_header s" "rs_held s' = rs_held s"
    and run: "\<And>y. running s' y \<Longrightarrow> running s y \<or> rs_held s y = {}"
    and keep: "\<And>y. running s y \<Longrightarrow> y \<in> rs_share s (share_key t) \<Longrightarrow> y \<in> rs_share s' (share_key t)"
    and ids: "rs_active s' \<subseteq> rs_used s'" "0 \<notin> rs_active s'" "rs_used s \<subseteq> rs_used s'"
      "\<And>x. x \<notin> rs_used s' \<Longrightarrow> rs_clog s' x = InProgress"
  shows "row_inv t s'"
proof -
  have e: "holds_exclusively s' y = holds_exclusively s y" for y
    using same by (simp add: holds_exclusively_def)
  have r: "running s y" if "running s' y" "rs_held s y \<noteq> {}" for y
    using run [OF that(1)] that(2) by simp
  have ne: "rs_held s y \<noteq> {}" if "holds_exclusively s y" for y
    using that by (auto simp: holds_exclusively_def)
  show ?thesis
    unfolding row_inv_def
  proof (intro conjI allI impI)
    show "rs_held s' z = {}" if "z \<notin> rs_used s'" for z
      using row_invD(4) [OF inv, of z] that ids(3) same by auto
    show "xmax_lock_only (rs_header s')" "t_xmax (rs_header s') \<noteq> 0" if "xmax_is_share (rs_header s')"
      using that same row_invD(5,6) [OF inv] by auto
    show "t_xmax (rs_header s') = y" "\<not> xmax_is_share (rs_header s')" if "running s' y \<and> holds_exclusively s' y" for y
      using that r [of y] ne [of y] e same row_invD(7,8) [OF inv, of y] by auto
    show "rs_held s' z = {}" if "running s' y \<and> holds_exclusively s' y" "z \<noteq> y \<and> running s' z" for y z
      using that r [of y] ne [of y] run [of z] e same row_invD(9) [OF inv, of y z] by auto
    show "t_xmax (rs_header s') = y \<or> xmax_is_share (rs_header s') \<and> y \<in> rs_share s' (share_key t)"
      if "running s' y \<and> rs_held s' y \<noteq> {}" for y
      using that r [of y] keep [of y] same row_invD(10) [OF inv, of y] by auto
  qed (use ids in auto)
qed

lemma row_step_inv:
  assumes "row_step t s s'" and inv: "row_inv t s"
  shows "row_inv t s'"
  using assms(1)
proof cases
  case (start x)
  show ?thesis
  proof (rule row_inv_weaken [OF inv])
    show "running s y \<or> rs_held s y = {}" if "running s' y" for y
      using that start row_invD(4) [OF inv, of y] by (auto simp: running_def)
  qed (use start row_invD(1,2,3) [OF inv] in auto)
next
  case (stamp x env req reg cid updated hot)
  have x0: "x \<noteq> 0" "x \<in> rs_used s"
    using stamp(2) row_invD(1,2) [OF inv] by (auto simp: running_def)
  have r: "running s' y = running s y" for y
    using stamp(1) by (simp add: running_def)
  have none: "rs_held s' y = {}" if "running s y" "y \<noteq> x" for y
    using gate_Proceed [OF inv stamp(3,2,4) that] that(2) stamp(1) by simp
  have ex: "\<not> xmax_is_share (rs_header s')" if "holds_exclusively s' x"
    using that stamp gate_shared_not_exclusive [OF inv stamp(2)]
    by (cases "req = ReqShared") (auto simp: row_stamp_simps holds_exclusively_def)
  show ?thesis
    unfolding row_inv_def
  proof (intro conjI allI impI)
    show "rs_active s' \<subseteq> rs_used s'" "0 \<notin> rs_active s'"
      using row_invD(1,2) [OF inv] stamp(1) by auto
    show "rs_clog s' z = InProgress" "rs_held s' z = {}" if "z \<notin> rs_used s'" for z
      using row_invD(3,4) [OF inv, of z] that x0 stamp(1) by auto
    show "xmax_lock_only (rs_header s')" "t_xmax (rs_header s') \<noteq> 0" if "xmax_is_share (rs_header s')"
      using that stamp(1) x0 by (auto simp: row_stamp_simps)
    show "t_xmax (rs_header s') = y" "\<not> xmax_is_share (rs_header s')" if h: "running s' y \<and> holds_exclusively s' y" for y
    proof -
      have "y = x"
        using none [of y] h r by (auto simp: holds_exclusively_def)
      then show "t_xmax (rs_header s') = y" "\<not> xmax_is_share (rs_header s')"
        using ex h stamp(1) by (auto simp: row_stamp_simps)
    qed
    show "rs_held s' z = {}" if "running s' y \<and> holds_exclusively s' y" "z \<noteq> y \<and> running s' z" for y z
      using none [of y] none [of z] that r by (auto simp: holds_exclusively_def)
    show "t_xmax (rs_header s') = y \<or> xmax_is_share (rs_header s') \<and> y \<in> rs_share s' (share_key t)"
      if "running s' y \<and> rs_held s' y \<noteq> {}" for y
      using none [of y] that r stamp(1) by (auto simp: row_stamp_simps)
  qed
next
  case (coexist x env req reg)
  note g = gate_ProceedNoStamp [OF coexist(4)]
  have x: "x \<in> rs_used s"
    using coexist(2) row_invD(1) [OF inv] by (auto simp: running_def)
  have r: "running s' y = running s y" for y
    using coexist(1) by (simp add: running_def)
  have hd: "rs_header s' = rs_header s"
    using coexist(1) by simp
  have e: "holds_exclusively s' y = holds_exclusively s y" for y
    using coexist(1) g(1) by (auto simp: holds_exclusively_def)
  have keep: "y \<in> rs_share s' (share_key t)" if "running s y" "y \<in> rs_share s (share_key t)" for y
    using gate_keeps_holders [OF coexist(3,4) _ that] coexist(1) by simp
  have xex: "\<not> holds_exclusively s y" if "running s y" "y \<noteq> x" for y
    using row_invD(7,8) [OF inv that(1)] g(2) that(2) by auto
  show ?thesis
    unfolding row_inv_def
  proof (intro conjI allI impI)
    show "rs_active s' \<subseteq> rs_used s'" "0 \<notin> rs_active s'"
      using row_invD(1,2) [OF inv] coexist(1) by auto
    show "rs_clog s' z = InProgress" "rs_held s' z = {}" if "z \<notin> rs_used s'" for z
      using row_invD(3,4) [OF inv, of z] that x coexist(1) by auto
    show "xmax_lock_only (rs_header s')" "t_xmax (rs_header s') \<noteq> 0" if "xmax_is_share (rs_header s')"
      using that hd row_invD(5,6) [OF inv] by auto
    show "t_xmax (rs_header s') = y" "\<not> xmax_is_share (rs_header s')" if h: "running s' y \<and> holds_exclusively s' y" for y
      using h r e hd row_invD(7,8) [OF inv, of y] by auto
    show "rs_held s' z = {}" if "running s' y \<and> holds_exclusively s' y" "z \<noteq> y \<and> running s' z" for y z
    proof -
      have "y = x"
        using xex [of y] that(1) r e by auto
      then show ?thesis
        using row_invD(9) [OF inv, of y z] that r e coexist(1) by auto
    qed
    show "t_xmax (rs_header s') = y \<or> xmax_is_share (rs_header s') \<and> y \<in> rs_share s' (share_key t)"
      if h: "running s' y \<and> rs_held s' y \<noteq> {}" for y
    proof (cases "y = x")
      case True
      then show ?thesis
        using g(2) hd coexist(1) by auto
    next
      case False
      then show ?thesis
        using row_invD(10) [OF inv, of y] h r hd keep [of y] coexist(1) by auto
    qed
  qed
next
  case (wait x env req b reg)
  have keep: "y \<in> rs_share s' (share_key t)" if "running s y" "y \<in> rs_share s (share_key t)" for y
    using gate_keeps_holders [OF wait(3,4) _ that] wait(1) by simp
  show ?thesis
    by (rule row_inv_weaken [OF inv]) (use wait(1) keep row_invD(1,2,3) [OF inv] in \<open>auto simp: running_def\<close>)
next
  case (finish x st)
  have "x \<in> rs_used s"
    using finish(2) row_invD(1) [OF inv] by (auto simp: running_def)
  then show ?thesis
    by (intro row_inv_weaken [OF inv])
      (use finish row_invD(1,2,3) [OF inv] in \<open>auto simp: running_def is_terminal_def split: if_splits\<close>)
next
  case (leave x)
  show ?thesis
    by (rule row_inv_weaken [OF inv]) (use leave row_invD(1,2,3) [OF inv] in \<open>auto simp: running_def\<close>)
next
  case (other_row reg)
  show ?thesis
    by (rule row_inv_weaken [OF inv]) (use other_row row_invD(1,2,3) [OF inv] in \<open>auto simp: running_def\<close>)
qed

lemma row_reachable_inv: "row_reachable t s \<Longrightarrow> row_inv t s"
  by (induction rule: row_reachable.induct) (auto intro: row_init_inv row_step_inv)

section \<open>Properties of the lock protocol\<close>


lemma gate_committed_delete:
  assumes "env_ok s env" "t_xmax h \<noteq> 0" "t_xmax h \<noteq> x" "\<not> xmax_lock_only h" "\<not> xmax_is_share h"
    "rs_clog s (t_xmax h) = Committed"
  shows "header_gate env t x req h reg = Ok (GateWait (t_xmax h), reg) \<or>
    header_gate env t x req h reg = Err (TupleConcurrentlyUpdated t)"
proof -
  obtain act where a: "env_waiter env = Some act" "env_clog2 env = rs_clog s"
    and c: "env_clog env (t_xmax h) = InProgress \<or> env_clog env (t_xmax h) = Committed"
    using assms(1,6) unfolding env_ok_def by metis
  show ?thesis
    using c assms(2-6) a by (cases "act (t_xmax h)") (auto simp: header_gate_def Let_def is_terminal_def)
qed


lemma header_gate_Proceed_stamp:
  assumes env: "env_ok s env" and g: "header_gate env t x req h reg = Ok (Proceed, reg')" and r: "req \<noteq> ReqWriter"
    and sh: "xmax_is_share h \<longrightarrow> xmax_lock_only h"
  shows "visibility_xmax h = 0 \<or> rs_clog s (visibility_xmax h) \<noteq> Committed"
proof (cases "t_xmax h = 0 \<or> xmax_lock_only h")
  case False
  then have "t_xmax h \<noteq> x"
    using g r by (auto simp: header_gate_def Let_def)
  then show ?thesis
    using gate_committed_delete [OF env, of h x t req reg] False g sh by (auto simp: visibility_xmax_def)
qed (auto simp: visibility_xmax_def)

text \<open>
  Locking a row does not change who sees it.  When the gate lets a lock request
  through, the row after the lock stamp is visible to a snapshot exactly if it was before,
  for every snapshot of a transaction that is neither the row's inserter nor the
  one named by the overwritten stamp.  (For the inserter itself the stamp overwrites
  the command number of the insertion.)
\<close>

theorem lock_keeps_visibility:
  assumes "env_ok s env" "header_gate env t x req h reg = Ok (Proceed, reg')" "req \<noteq> ReqWriter"
    "xmax_is_share h \<longrightarrow> xmax_lock_only h" "current_xid snap \<noteq> t_xmin h" "current_xid snap \<noteq> t_xmax h"
  shows "row_visible (row_stamp req x cid updated hot h) snap (rs_clog s) = row_visible h snap (rs_clog s)"
proof -
  have v: "visibility_xmax h = 0 \<or> rs_clog s (visibility_xmax h) \<noteq> Committed"
    by (rule header_gate_Proceed_stamp [OF assms(1-4)])
  have "visibility_xmax (row_stamp req x cid updated hot h) = 0"
    using assms(3) by (simp add: visibility_xmax_def row_stamp_simps)
  moreover have "visibility_xmax h = 0 \<or> \<not> write_seen (rs_clog s) snap (visibility_xmax h) c" for c
    using v assms(6) by (auto simp: write_seen_def in_snapshot_def visibility_xmax_def split: if_splits)
  moreover have "write_seen (rs_clog s) snap (t_xmin h) c = write_seen (rs_clog s) snap (t_xmin h) d" for c d
    using assms(5) by (simp add: write_seen_def)
  ultimately show ?thesis
    by (auto simp: row_visible_def is_visible_spec row_stamp_simps)
qed

subsection \<open>An execution\<close>

definition demo_tid :: tid where "demo_tid = \<lparr> tid_page_id = 1, tid_slot_id = 0 \<rparr>"

definition demo_row :: row_state where
  "demo_row = \<lparr> rs_header = demo_header, rs_share = (\<lambda>_. {}), rs_clog = (\<lambda>_. InProgress),
     rs_active = {}, rs_used = {}, rs_held = (\<lambda>_. {}) \<rparr>"

definition demo_env :: "txn_id set \<Rightarrow> (txn_id \<Rightarrow> txn_state) \<Rightarrow> gate_env" where
  "demo_env act c = \<lparr> env_clog = c, env_waiter = Some (\<lambda>x. x \<in> act), env_clog2 = c \<rparr>"

text \<open>Transactions 5 and 6 start; 5 deletes the row.\<close>

definition demo_row_deleted :: row_state where
  "demo_row_deleted = demo_row\<lparr> rs_header := deleted_header 5 0 False demo_header,
     rs_active := {5, 6}, rs_used := {5, 6}, rs_held := (\<lambda>_. {})(5 := {ReqWriter}) \<rparr>"

lemma demo_row_deleted_reachable: "row_reachable demo_tid demo_row_deleted"
proof -
  have 0: "row_reachable demo_tid demo_row"
    by (rule row_reachable.init)
      (simp add: row_init_def demo_row_def row_bits demo_header_def tuple_header_new_def)
  have 1: "row_reachable demo_tid (demo_row\<lparr> rs_active := {6}, rs_used := {6} \<rparr>)"
    using row_reachable.step [OF 0 row_step.start [of 6]] by (simp add: demo_row_def)
  let ?s = "demo_row\<lparr> rs_active := {5, 6}, rs_used := {5, 6} \<rparr>"
  have 2: "row_reachable demo_tid ?s"
    using row_reachable.step [OF 1 row_step.start [of 5]] by (simp add: demo_row_def)
  have g: "header_gate (demo_env {5, 6} (\<lambda>_. InProgress)) demo_tid 5 ReqWriter (rs_header ?s) (rs_share ?s) =
      Ok (Proceed, \<lambda>_. {})"
    by (auto simp: header_gate_def demo_row_def demo_header_def tuple_header_new_def note_stamp_overwrite_def fun_eq_iff)
  have "row_step demo_tid ?s (?s\<lparr> rs_header := row_stamp ReqWriter 5 0 False None (rs_header ?s), rs_share := (\<lambda>_. {}),
      rs_held := (rs_held ?s)(5 := insert ReqWriter (rs_held ?s 5)) \<rparr>)"
    by (rule row_step.stamp [OF _ _ g]) (auto simp: running_def env_ok_def demo_env_def demo_row_def)
  from row_reachable.step [OF 2 this] show ?thesis
    by (simp add: demo_row_deleted_def demo_row_def)
qed



theorem lock_keeps_visibility_witness:
  "row_visible (row_stamp ReqExclusive 5 0 False None demo_header) (everything\<lparr> current_xid := 9 \<rparr>) (rs_clog demo_row) =
   row_visible demo_header (everything\<lparr> current_xid := 9 \<rparr>) (rs_clog demo_row)"
proof (rule lock_keeps_visibility)
  show "env_ok demo_row (demo_env {} (\<lambda>_. InProgress))"
    by (simp add: env_ok_def demo_env_def demo_row_def)
  show "header_gate (demo_env {} (\<lambda>_. InProgress)) demo_tid 5 ReqExclusive demo_header (\<lambda>_. {}) =
      Ok (Proceed, note_stamp_overwrite demo_tid 5 ReqExclusive (\<lambda>_. {}))"
    by (simp add: header_gate_def demo_header_def tuple_header_new_def)
  show "current_xid (everything\<lparr> current_xid := 9 \<rparr>) \<noteq> t_xmin demo_header"
    "current_xid (everything\<lparr> current_xid := 9 \<rparr>) \<noteq> t_xmax demo_header"
    by (simp_all add: everything_def demo_header_def tuple_header_new_def)
qed (simp_all add: row_bits demo_header_def tuple_header_new_def)

end
