(* ===== verification/Heap_Redo.thy ===== *)
theory Heap_Redo
  imports Heap_Row Wal_Record
begin

text \<open>
  Heap changes and their replay: what the access method does to a page under its latch
  (\<^verbatim>\<open>pg-am-heap/src/heap_am.rs\<close>), what the redo handlers do with the records it logs
  (\<^verbatim>\<open>pg-am-heap/src/redo.rs\<close>, and the page-image handler of \<^verbatim>\<open>pg-storage/src/recovery.rs\<close>), and
  that replaying the log over any earlier version of a page gives back the page, up to
  what is deliberately not logged: row locks and the command numbers of deletions.
\<close>

section \<open>Redo handlers\<close>

text \<open>
  The pages the buffer pool serves.  A page that cannot be read is an I/O error.  Errors of the
  storage layer appear wrapped as \<open>HeapStorage\<close>, so that a panic stays apart from them.
\<close>

type_synonym page_store = "page_id \<Rightarrow> page option"

definition pin_page :: "page_store \<Rightarrow> page_id \<Rightarrow> heap_error + page" where
  "pin_page st pid =
    (if pid = 0 then Err (HeapStorage InvalidConfig)
     else case st pid of None \<Rightarrow> Err (HeapStorage Io) | Some pg \<Rightarrow> Ok pg)"

definition heap_to_storage :: "heap_error \<Rightarrow> heap_error" where
  "heap_to_storage e =
    (case e of HeapStorage s \<Rightarrow> HeapStorage s | HeapPanic \<Rightarrow> HeapPanic | _ \<Rightarrow> HeapStorage MetadataCorrupted)"

definition map_err :: "('e \<Rightarrow> 'e) \<Rightarrow> 'e + 'a \<Rightarrow> 'e + 'a" where
  "map_err f r = (case r of Inl e \<Rightarrow> Inl (f e) | Inr a \<Rightarrow> Inr a)"

text \<open>The redo side does not restore the command number.\<close>

definition redo_deleted_header :: "txn_id \<Rightarrow> bool \<Rightarrow> tuple_header \<Rightarrow> tuple_header" where
  "redo_deleted_header xm updated h =
    (let h = h\<lparr> t_xmax := xm \<rparr>;
         h = (if updated then h\<lparr> t_infomask := t_infomask h OR HEAP_UPDATED \<rparr> else h)
     in h\<lparr> t_infomask := t_infomask h AND NOT (HEAP_XMAX_LOCK_ONLY OR HEAP_XMAX_IS_SHARE) \<rparr>)"

definition redo_hot_updated_header :: "txn_id \<Rightarrow> tid \<Rightarrow> tuple_header \<Rightarrow> tuple_header" where
  "redo_hot_updated_header xm new_tid h =
    (let h = h\<lparr> t_xmax := xm \<rparr>;
         h = h\<lparr> t_infomask := t_infomask h OR HEAP_UPDATED \<rparr>;
         h = h\<lparr> t_infomask := t_infomask h AND NOT (HEAP_XMAX_LOCK_ONLY OR HEAP_XMAX_IS_SHARE) \<rparr>
     in h\<lparr> t_ctid := new_tid, t_infomask2 := t_infomask2 h OR HEAP_HOT_UPDATED \<rparr>)"

definition redo_stamp_deleted :: "page \<Rightarrow> tid \<Rightarrow> txn_id \<Rightarrow> bool \<Rightarrow> heap_error + page" where
  "redo_stamp_deleted pg t xm updated = stamp_tuple (redo_deleted_header xm updated) pg t"

definition redo_stamp_hot_update :: "page \<Rightarrow> tid \<Rightarrow> tid \<Rightarrow> txn_id \<Rightarrow> heap_error + page" where
  "redo_stamp_hot_update pg old_tid new_tid xm = stamp_tuple (redo_hot_updated_header xm new_tid) pg old_tid"

text \<open>Appending the logged tuple and checking that it lands in the logged slot.\<close>

definition redo_add :: "page \<Rightarrow> byte list \<Rightarrow> u16 \<Rightarrow> heap_error + page" where
  "redo_add pg bytes slot =
    try_then (map_err heap_to_storage (add_tuple pg bytes)) (\<lambda>(s, pg).
      if s \<noteq> slot then Err (HeapStorage MetadataCorrupted) else Ok pg)"

definition redo_insert_page :: "lsn \<Rightarrow> u16 \<Rightarrow> byte list \<Rightarrow> page \<Rightarrow> heap_error + page" where
  "redo_insert_page l slot bytes pg =
    (if page_pd_lsn pg \<ge> l then Ok pg
     else try_then (redo_add (init_if_fresh_with_special HEAP_SPECIAL_SIZE pg) bytes slot)
       (\<lambda>pg. Ok (stamp_pd_lsn pg l)))"

definition redo_update_same_page ::
  "lsn \<Rightarrow> tid \<Rightarrow> txn_id \<Rightarrow> u16 \<Rightarrow> byte list \<Rightarrow> page \<Rightarrow> heap_error + page" where
  "redo_update_same_page l old_tid xm slot bytes pg =
    (if page_pd_lsn pg < l then
       try_then (map_err heap_to_storage
           (redo_stamp_deleted (init_if_fresh_with_special HEAP_SPECIAL_SIZE pg) old_tid xm True)) (\<lambda>pg.
         try_then (redo_add pg bytes slot) (\<lambda>pg. Ok (stamp_pd_lsn pg l)))
     else Ok pg)"

definition redo_update_old_page :: "lsn \<Rightarrow> tid \<Rightarrow> txn_id \<Rightarrow> page \<Rightarrow> heap_error + page" where
  "redo_update_old_page l old_tid xm pg =
    (if page_pd_lsn pg < l then
       try_then (map_err heap_to_storage
           (redo_stamp_deleted (init_if_fresh_with_special HEAP_SPECIAL_SIZE pg) old_tid xm True))
         (\<lambda>pg. Ok (stamp_pd_lsn pg l))
     else Ok pg)"

definition redo_update_new_page :: "lsn \<Rightarrow> u16 \<Rightarrow> byte list \<Rightarrow> page \<Rightarrow> heap_error + page" where
  "redo_update_new_page l slot bytes pg =
    (if page_pd_lsn pg < l then
       try_then (redo_add (init_if_fresh_with_special HEAP_SPECIAL_SIZE pg) bytes slot)
         (\<lambda>pg. Ok (stamp_pd_lsn pg l))
     else Ok pg)"

definition redo_delete_page :: "lsn \<Rightarrow> tid \<Rightarrow> txn_id \<Rightarrow> page \<Rightarrow> heap_error + page" where
  "redo_delete_page l t xm pg =
    (if page_pd_lsn pg \<ge> l then Ok pg
     else try_then (map_err heap_to_storage (redo_stamp_deleted pg t xm False)) (\<lambda>pg. Ok (stamp_pd_lsn pg l)))"

definition redo_hot_update_page ::
  "lsn \<Rightarrow> page_id \<Rightarrow> u16 \<Rightarrow> u16 \<Rightarrow> byte list \<Rightarrow> txn_id \<Rightarrow> page \<Rightarrow> heap_error + page" where
  "redo_hot_update_page l pid old_slot new_slot bytes xm pg =
    (if page_pd_lsn pg \<ge> l then Ok pg
     else try_then (map_err heap_to_storage
         (redo_stamp_hot_update (init_if_fresh_with_special HEAP_SPECIAL_SIZE pg)
           \<lparr> tid_page_id = pid, tid_slot_id = old_slot \<rparr> \<lparr> tid_page_id = pid, tid_slot_id = new_slot \<rparr> xm)) (\<lambda>pg.
       try_then (redo_add pg bytes new_slot) (\<lambda>pg. Ok (stamp_pd_lsn pg l))))"

text \<open>A page image replaces the page whatever is on it.\<close>

definition redo_image_page :: "lsn \<Rightarrow> byte list \<Rightarrow> page \<Rightarrow> heap_error + page" where
  "redo_image_page l img pg =
    (if length img \<noteq> length pg then Err HeapPanic
     else Ok (set_page_pd_lsn img (max l (page_pd_lsn img))))"

text \<open>Pin, change, write back.\<close>

definition with_page ::
  "page_id \<Rightarrow> (page \<Rightarrow> heap_error + page) \<Rightarrow> page_store \<Rightarrow> heap_error + page_store" where
  "with_page pid f st = try_then (pin_page st pid) (\<lambda>pg. try_then (f pg) (\<lambda>pg. Ok (st(pid \<mapsto> pg))))"

definition decode_as :: "bincode \<Rightarrow> payload_kind \<Rightarrow> wal_record \<Rightarrow> heap_error + wal_payload" where
  "decode_as bc k r = (case decode_payload bc k (payload r) of Inl e \<Rightarrow> Err (HeapStorage e) | Inr p \<Rightarrow> Ok p)"

fun redo_payload :: "lsn \<Rightarrow> wal_payload \<Rightarrow> page_store \<Rightarrow> heap_error + page_store" where
  "redo_payload l (HeapInsertRecord pid slot bytes) st = with_page pid (redo_insert_page l slot bytes) st"
| "redo_payload l (HeapUpdateRecord old new xm bytes) st =
    (if tid_page_id old = tid_page_id new
     then with_page (tid_page_id old) (redo_update_same_page l old xm (tid_slot_id new) bytes) st
     else try_then (with_page (tid_page_id old) (redo_update_old_page l old xm) st)
       (with_page (tid_page_id new) (redo_update_new_page l (tid_slot_id new) bytes)))"
| "redo_payload l (HeapDeleteRecord t xm) st = with_page (tid_page_id t) (redo_delete_page l t xm) st"
| "redo_payload l (HeapHotUpdateRecord pid old_slot new_slot bytes xm) st =
    with_page pid (redo_hot_update_page l pid old_slot new_slot bytes xm) st"
| "redo_payload l (FullPageImageRecord pid img) st = with_page pid (redo_image_page l img) st"
| "redo_payload l _ st = Err (HeapStorage Serialize)"

text \<open>The handlers of the heap records and of the page image, by record type.\<close>

definition heap_payload_kind :: "wal_record_type \<Rightarrow> payload_kind option" where
  "heap_payload_kind t =
    (case t of HeapInsert \<Rightarrow> Some KHeapInsert | HeapUpdate \<Rightarrow> Some KHeapUpdate | HeapDelete \<Rightarrow> Some KHeapDelete
     | HeapHotUpdate \<Rightarrow> Some KHeapHotUpdate | FullPageImage \<Rightarrow> Some KFullPageImage | _ \<Rightarrow> None)"

definition heap_redo :: "bincode \<Rightarrow> wal_record \<Rightarrow> page_store \<Rightarrow> heap_error + page_store" where
  "heap_redo bc r st =
    (case heap_payload_kind (record_type r) of
       None \<Rightarrow> Err (HeapStorage (UnknownRecord (to_u8 (record_type r)) (rec_lsn r)))
     | Some k \<Rightarrow> try_then (decode_as bc k r) (\<lambda>p. redo_payload (rec_lsn r) p st))"

section \<open>The forward path\<close>

text \<open>
  What insert, delete, update, lock and the chain operations do to a page they hold
  latched, once the record they logged got its position \<open>l\<close>.  Locks are not logged.
\<close>

datatype page_event =
    EvInsert "byte list"
  | EvDelete u16 txn_id u32
  | EvUpdateSame u16 txn_id u32 "byte list"
  | EvUpdateOld u16 txn_id u32
  | EvUpdateNew "byte list"
  | EvHotUpdate u16 txn_id u32 "byte list"
  | EvImage
  | EvLink page_id
  | EvInit
  | EvLock u16 txn_id u32 bool

definition on_page :: "page_id \<Rightarrow> u16 \<Rightarrow> tid" where
  "on_page pid slot = \<lparr> tid_page_id = pid, tid_slot_id = slot \<rparr>"

definition append_tuple :: "byte list \<Rightarrow> lsn \<Rightarrow> page \<Rightarrow> heap_error + page" where
  "append_tuple bytes l pg = try_then (add_tuple pg bytes) (\<lambda>(_, pg). Ok (stamp_pd_lsn pg l))"

definition link_page :: "page_id \<Rightarrow> page \<Rightarrow> heap_error + page" where
  "link_page next pg = set_next_page (Some next) (init_if_fresh_with_special HEAP_SPECIAL_SIZE pg)"

definition new_slot :: "page \<Rightarrow> u16" where
  "new_slot pg = of_nat (slot_count pg)"

fun forward :: "page_id \<Rightarrow> lsn \<Rightarrow> page_event \<Rightarrow> page \<Rightarrow> heap_error + page" where
  "forward pid l (EvInsert bytes) pg = append_tuple bytes l pg"
| "forward pid l (EvDelete slot x cid) pg =
    try_then (stamp_deleted pg (on_page pid slot) x cid False) (\<lambda>pg. Ok (stamp_pd_lsn pg l))"
| "forward pid l (EvUpdateSame slot x cid bytes) pg =
    try_then (stamp_deleted pg (on_page pid slot) x cid True) (append_tuple bytes l)"
| "forward pid l (EvUpdateOld slot x cid) pg =
    try_then (stamp_deleted pg (on_page pid slot) x cid True) (\<lambda>pg. Ok (stamp_pd_lsn pg l))"
| "forward pid l (EvUpdateNew bytes) pg = append_tuple bytes l pg"
| "forward pid l (EvHotUpdate slot x cid bytes) pg =
    try_then (stamp_hot_update pg (on_page pid slot) x cid (on_page pid (new_slot pg))) (append_tuple bytes l)"
| "forward pid l EvImage pg = Ok (set_page_pd_lsn pg l)"
| "forward pid l (EvLink next) pg = try_then (link_page next pg) (\<lambda>pg. Ok (stamp_pd_lsn pg l))"
| "forward pid l EvInit pg = Ok (stamp_pd_lsn (init_with_special HEAP_SPECIAL_SIZE pg) l)"
| "forward pid l (EvLock slot x cid shared) pg = stamp_lock_only pg (on_page pid slot) x cid shared"

text \<open>
  The operations of the access method, the pages each touches, and the record it logs
  with the pages as they are before.
\<close>

datatype heap_event =
    HInsert page_id "byte list"
  | HDelete tid txn_id u32
  | HUpdate tid txn_id u32 page_id "byte list"
  | HHotUpdate tid txn_id u32 "byte list"
  | HImage page_id
  | HLink page_id page_id
  | HInit page_id
  | HLock tid txn_id u32 bool

fun touched :: "heap_event \<Rightarrow> (page_id \<times> page_event) list" where
  "touched (HInsert pid bytes) = [(pid, EvInsert bytes)]"
| "touched (HDelete t x cid) = [(tid_page_id t, EvDelete (tid_slot_id t) x cid)]"
| "touched (HUpdate t x cid new_pid bytes) =
    (if tid_page_id t = new_pid then [(new_pid, EvUpdateSame (tid_slot_id t) x cid bytes)]
     else [(tid_page_id t, EvUpdateOld (tid_slot_id t) x cid), (new_pid, EvUpdateNew bytes)])"
| "touched (HHotUpdate t x cid bytes) = [(tid_page_id t, EvHotUpdate (tid_slot_id t) x cid bytes)]"
| "touched (HImage pid) = [(pid, EvImage)]"
| "touched (HLink pid next) = [(pid, EvLink next)]"
| "touched (HInit pid) = [(pid, EvInit)]"
| "touched (HLock t x cid shared) = [(tid_page_id t, EvLock (tid_slot_id t) x cid shared)]"

fun forward_pages :: "lsn \<Rightarrow> (page_id \<times> page_event) list \<Rightarrow> page_store \<Rightarrow> heap_error + page_store" where
  "forward_pages l [] st = Ok st"
| "forward_pages l ((pid, ev) # evs) st = try_then (with_page pid (forward pid l ev) st) (forward_pages l evs)"

definition page_at :: "page_store \<Rightarrow> page_id \<Rightarrow> page" where
  "page_at st pid = (case st pid of None \<Rightarrow> [] | Some pg \<Rightarrow> pg)"

fun event_payload :: "page_store \<Rightarrow> heap_event \<Rightarrow> wal_payload option" where
  "event_payload st (HInsert pid bytes) = Some (HeapInsertRecord pid (new_slot (page_at st pid)) bytes)"
| "event_payload st (HDelete t x cid) = Some (HeapDeleteRecord t x)"
| "event_payload st (HUpdate t x cid new_pid bytes) =
    Some (HeapUpdateRecord t (on_page new_pid (new_slot (page_at st new_pid))) x bytes)"
| "event_payload st (HHotUpdate t x cid bytes) =
    Some (HeapHotUpdateRecord (tid_page_id t) (tid_slot_id t) (new_slot (page_at st (tid_page_id t))) bytes x)"
| "event_payload st (HImage pid) = Some (FullPageImageRecord pid (page_at st pid))"
| "event_payload st (HLink pid next) =
    (case link_page next (page_at st pid) of Inl _ \<Rightarrow> None | Inr img \<Rightarrow> Some (FullPageImageRecord pid img))"
| "event_payload st (HInit pid) =
    Some (FullPageImageRecord pid (init_with_special HEAP_SPECIAL_SIZE (page_at st pid)))"
| "event_payload st (HLock t x cid shared) = None"

section \<open>What replay does on one page\<close>

text \<open>The effect on one page of replaying the record that an event logged over the page \<open>before\<close>.\<close>

fun replay :: "page_id \<Rightarrow> lsn \<Rightarrow> page_event \<Rightarrow> page \<Rightarrow> page \<Rightarrow> heap_error + page" where
  "replay pid l (EvInsert bytes) before q = redo_insert_page l (new_slot before) bytes q"
| "replay pid l (EvDelete slot x cid) before q = redo_delete_page l (on_page pid slot) x q"
| "replay pid l (EvUpdateSame slot x cid bytes) before q =
    redo_update_same_page l (on_page pid slot) x (new_slot before) bytes q"
| "replay pid l (EvUpdateOld slot x cid) before q = redo_update_old_page l (on_page pid slot) x q"
| "replay pid l (EvUpdateNew bytes) before q = redo_update_new_page l (new_slot before) bytes q"
| "replay pid l (EvHotUpdate slot x cid bytes) before q =
    redo_hot_update_page l pid slot (new_slot before) bytes x q"
| "replay pid l EvImage before q = redo_image_page l before q"
| "replay pid l (EvLink next) before q = try_then (link_page next before) (\<lambda>img. redo_image_page l img q)"
| "replay pid l EvInit before q = redo_image_page l (init_with_special HEAP_SPECIAL_SIZE before) q"
| "replay pid l (EvLock slot x cid shared) before q = Ok q"

fun replay_pages ::
  "lsn \<Rightarrow> page_store \<Rightarrow> (page_id \<times> page_event) list \<Rightarrow> page_store \<Rightarrow> heap_error + page_store" where
  "replay_pages l st [] q = Ok q"
| "replay_pages l st ((pid, ev) # evs) q =
    try_then (with_page pid (replay pid l ev (page_at st pid)) q) (replay_pages l st evs)"

lemma replay_eta:
  "replay pid l (EvInsert bytes) bf = redo_insert_page l (new_slot bf) bytes"
  "replay pid l (EvDelete slot x cid) bf = redo_delete_page l (on_page pid slot) x"
  "replay pid l (EvUpdateSame slot x cid bytes) bf = redo_update_same_page l (on_page pid slot) x (new_slot bf) bytes"
  "replay pid l (EvUpdateOld slot x cid) bf = redo_update_old_page l (on_page pid slot) x"
  "replay pid l (EvUpdateNew bytes) bf = redo_update_new_page l (new_slot bf) bytes"
  "replay pid l (EvHotUpdate slot x cid bytes) bf = redo_hot_update_page l pid slot (new_slot bf) bytes x"
  "replay pid l EvImage bf = redo_image_page l bf"
  "replay pid l EvInit bf = redo_image_page l (init_with_special HEAP_SPECIAL_SIZE bf)"
  "link_page next bf = Ok img \<Longrightarrow> replay pid l (EvLink next) bf = redo_image_page l img"
  by (simp_all add: fun_eq_iff)

lemma redo_payload_pages:
  assumes "event_payload st ev = Some pl"
  shows "redo_payload l pl q = replay_pages l st (touched ev) q"
proof -
  have on: "on_page (tid_page_id t) (tid_slot_id t) = t" for t
    by (simp add: on_page_def)
  have r: "try_then r Ok = r" for r :: "heap_error + page_store"
    by (cases r) auto
  have one: "replay_pages l st [(pid, ev)] = with_page pid (replay pid l ev (page_at st pid))" for pid ev
  proof
    have "replay_pages l st [] = Ok"
      by (rule ext) simp
    then show "replay_pages l st [(pid, ev)] q = with_page pid (replay pid l ev (page_at st pid)) q" for q
      by (simp add: r)
  qed
  have two: "replay_pages l st [(pid, ev), (pid', ev')] q =
      try_then (with_page pid (replay pid l ev (page_at st pid)) q) (with_page pid' (replay pid' l ev' (page_at st pid')))"
    for pid ev pid' ev'
    by (subst replay_pages.simps(2)) (simp only: one)
  show ?thesis
    using assms
    by (cases ev) (auto simp: on one two on_page_def [of _ "new_slot _"] replay_eta split: sum.splits if_splits simp del: replay_pages.simps(2))
qed

section \<open>Pages equal up to locks and command numbers\<close>

text \<open>
  The header without its deleter, command number and lock bits, and the deleter as
  far as it matters: a lock and a deletion that never committed do not count.
\<close>

definition header_core :: "tuple_header \<Rightarrow> tuple_header" where
  "header_core h =
    h\<lparr> t_xmax := 0, t_cid := 0, t_infomask := t_infomask h AND NOT (HEAP_XMAX_LOCK_ONLY OR HEAP_XMAX_IS_SHARE) \<rparr>"

definition effective_xmax :: "(txn_id \<Rightarrow> bool) \<Rightarrow> tuple_header \<Rightarrow> txn_id" where
  "effective_xmax C h = (if C (visibility_xmax h) then visibility_xmax h else 0)"

definition header_sim :: "(txn_id \<Rightarrow> bool) \<Rightarrow> tuple_header \<Rightarrow> tuple_header \<Rightarrow> bool" where
  "header_sim C h h' \<longleftrightarrow> header_core h = header_core h' \<and> effective_xmax C h = effective_xmax C h'"

definition tuple_sim :: "(txn_id \<Rightarrow> bool) \<Rightarrow> byte list \<Rightarrow> byte list \<Rightarrow> bool" where
  "tuple_sim C b b' \<longleftrightarrow> length b = length b' \<and> drop 64 b = drop 64 b' \<and>
    (b = b' \<or> (\<exists>h h'. th_read_from b = Ok h \<and> th_read_from b' = Ok h' \<and> header_sim C h h'))"

text \<open>Heap pages: every slot is in use and holds at least a tuple header.\<close>

definition heap_page :: "page \<Rightarrow> bool" where
  "heap_page pg \<longleftrightarrow> page_ok pg \<and> hspecial pg = PAGE_SIZE - HEAP_SPECIAL_SIZE \<and>
    (\<forall>i < slot_count pg. lp_flags (slot_lp pg i) = LpNormal \<and> 64 \<le> unat (lp_len (slot_lp pg i)))"

definition page_sim :: "(txn_id \<Rightarrow> bool) \<Rightarrow> page \<Rightarrow> page \<Rightarrow> bool" where
  "page_sim C p q \<longleftrightarrow> heap_page p \<and> heap_page q \<and> header_read_from p = header_read_from q \<and>
    (\<forall>i < slot_count p. slot_lp p i = slot_lp q i) \<and>
    bytes_at (hspecial p) HEAP_SPECIAL_SIZE p = bytes_at (hspecial p) HEAP_SPECIAL_SIZE q \<and>
    (\<forall>slot. rel_option (tuple_sim C) (page_tuples p slot) (page_tuples q slot))"

lemma redo_deleted_header_eq: "redo_deleted_header x u h = deleted_header x (t_cid h) u h"
  by (simp add: redo_deleted_header_def deleted_header_def Let_def)

lemma redo_hot_updated_header_eq: "redo_hot_updated_header x n h = hot_updated_header x (t_cid h) n h"
  by (simp add: redo_hot_updated_header_def hot_updated_header_def Let_def)

lemma core_mask:
  "(w OR HEAP_UPDATED) AND NOT HEAP_XMAX_LOCK_ONLY AND NOT HEAP_XMAX_IS_SHARE =
    (w AND NOT HEAP_XMAX_LOCK_ONLY AND NOT HEAP_XMAX_IS_SHARE) OR HEAP_UPDATED"
  "(w OR HEAP_XMAX_LOCK_ONLY) AND NOT HEAP_XMAX_LOCK_ONLY AND NOT HEAP_XMAX_IS_SHARE =
    w AND NOT HEAP_XMAX_LOCK_ONLY AND NOT HEAP_XMAX_IS_SHARE"
  "(w OR HEAP_XMAX_IS_SHARE) AND NOT HEAP_XMAX_LOCK_ONLY AND NOT HEAP_XMAX_IS_SHARE =
    w AND NOT HEAP_XMAX_LOCK_ONLY AND NOT HEAP_XMAX_IS_SHARE"
  "NOT HEAP_XMAX_IS_SHARE AND NOT HEAP_XMAX_LOCK_ONLY AND NOT HEAP_XMAX_IS_SHARE =
    NOT HEAP_XMAX_LOCK_ONLY AND NOT HEAP_XMAX_IS_SHARE"
  by (rule bit_eqI; auto simp: bit_simps flag_bit)+

lemma header_core_stamps:
  "header_core (deleted_header x c u h) =
    (header_core h)\<lparr> t_infomask := (if u then t_infomask (header_core h) OR HEAP_UPDATED else t_infomask (header_core h)) \<rparr>"
  "header_core (hot_updated_header x c n h) =
    (header_core h)\<lparr> t_infomask := t_infomask (header_core h) OR HEAP_UPDATED, t_ctid := n,
      t_infomask2 := t_infomask2 (header_core h) OR HEAP_HOT_UPDATED \<rparr>"
  "header_core (locked_header x c sh h) = header_core h"
  unfolding header_core_def deleted_header_def hot_updated_header_def locked_header_def Let_def
  by (auto simp: core_mask and.assoc)

lemma header_sim_refl [simp]: "header_sim C h h"
  by (simp add: header_sim_def)

lemma header_sim_deleted: "header_sim C h h' \<Longrightarrow> header_sim C (deleted_header x c u h) (redo_deleted_header x u h')"
  by (simp add: header_sim_def redo_deleted_header_eq header_core_stamps effective_xmax_def visibility_xmax_def)

lemma header_sim_hot_updated:
  "header_sim C h h' \<Longrightarrow> header_sim C (hot_updated_header x c n h) (redo_hot_updated_header x n h')"
  by (simp add: header_sim_def redo_hot_updated_header_eq header_core_stamps effective_xmax_def visibility_xmax_def)

lemma header_sim_locked:
  "header_sim C h h' \<Longrightarrow> effective_xmax C h = 0 \<Longrightarrow> header_sim C (locked_header x c sh h) h'"
  by (simp add: header_sim_def header_core_stamps) (simp add: effective_xmax_def visibility_xmax_def)

lemma tuple_sim_refl [simp]: "tuple_sim C b b"
  by (simp add: tuple_sim_def)

lemma page_sim_refl: "heap_page p \<Longrightarrow> page_sim C p p"
  by (simp add: page_sim_def option.rel_refl)

section \<open>Stamps and insertions respect the equivalence\<close>

lemma heap_pageD:
  assumes "heap_page pg"
  shows "page_ok pg" "length pg = 8192" "geometry pg" "hspecial pg = 8176"
    "i < slot_count pg \<Longrightarrow> lp_flags (slot_lp pg i) = LpNormal"
    "i < slot_count pg \<Longrightarrow> 64 \<le> unat (lp_len (slot_lp pg i))"
  using assms page_okD(1,2) [of pg] by (auto simp: heap_page_def page_sizes)

lemma heap_page_tuples:
  assumes "heap_page pg"
  shows "page_tuples pg slot = (if unat slot < slot_count pg
    then Some (bytes_at (unat (lp_off (slot_lp pg (unat slot)))) (unat (lp_len (slot_lp pg (unat slot)))) pg) else None)"
  using heap_pageD [OF assms] by (simp add: page_tuples_eq)

lemma heap_tuple_length:
  assumes "heap_page pg" "page_tuples pg slot = Some b"
  shows "64 \<le> length b" "length b = unat (lp_len (slot_lp pg (unat slot)))" "unat slot < slot_count pg"
    "unat (lp_off (slot_lp pg (unat slot))) + length b \<le> 8176" "hupper pg \<le> unat (lp_off (slot_lp pg (unat slot)))"
proof -
  note h = heap_pageD [OF assms(1)] and p = page_okD [OF heap_pageD(1) [OF assms(1)]]
  show s: "unat slot < slot_count pg"
    using assms by (simp add: heap_page_tuples split: if_splits)
  then have "live pg (unat slot)"
    using h(5) by (simp add: live_def)
  from p(3,4) [OF this] h show "length b = unat (lp_len (slot_lp pg (unat slot)))"
      "unat (lp_off (slot_lp pg (unat slot))) + length b \<le> 8176" "hupper pg \<le> unat (lp_off (slot_lp pg (unat slot)))"
    using assms s by (auto simp: heap_page_tuples)
  then show "64 \<le> length b"
    using h(6) s by simp
qed

lemma th_read_from_take: "64 \<le> length b \<Longrightarrow> th_read_from (take 64 b) = th_read_from b"
  using th_read_from_append [of "take 64 b" "drop 64 b"] by simp

text \<open>Stamping a tuple that is there.\<close>

lemma read_row_header_eq:
  assumes "heap_page pg" "page_tuples pg (tid_slot_id t) = Some b"
  shows "read_row_header pg t = (case th_read_from b of Inl e \<Rightarrow> Err e
    | Inr h \<Rightarrow> Ok (unat (lp_off (slot_lp pg (unat (tid_slot_id t)))), take 64 b, h))"
proof -
  let ?s = "unat (tid_slot_id t)" let ?o = "unat (lp_off (slot_lp pg ?s))"
  note l = heap_tuple_length [OF assms] and h = heap_pageD [OF assms(1)]
  have b: "b = bytes_at ?o (unat (lp_len (slot_lp pg ?s))) pg"
    using assms l(3) by (simp add: heap_page_tuples)
  have t: "bytes_at ?o 64 pg = take 64 b"
    using l(1,2) unfolding b by (simp add: bytes_at_def min_def)
  have lp: "line_pointer pg (tid_slot_id t) = Ok (slot_lp pg ?s)"
    using l(3) h by (simp add: line_pointer_eq PAGE_SIZE_def)
  have o: "?o + 64 \<le> length pg"
    using l(1,4) h(2) by linarith
  have n: "lp_flags (slot_lp pg ?s) = LpNormal"
    using h(5) l(3) .
  show ?thesis
    using n o lp t th_read_from_take [OF l(1)]
    by (auto simp: read_row_header_def Let_def read_slice_def TUPLE_HEADER_SIZE_def split: sum.splits)
qed

lemma stamp_tuple_eq:
  assumes "heap_page pg" "page_tuples pg (tid_slot_id t) = Some b" "\<And>h. length (t_trace_id (f h)) = length (t_trace_id h)"
  shows "stamp_tuple f pg t = (case th_read_from b of Inl e \<Rightarrow> Err e
    | Inr h \<Rightarrow> Ok (put_at (unat (lp_off (slot_lp pg (unat (tid_slot_id t))))) (th_write_to (f h) (take 64 b)) pg))"
proof (cases "th_read_from b")
  case (Inr h)
  note l = heap_tuple_length [OF assms(1,2)]
  have "length (t_trace_id (f h)) = 16"
    using Inr assms(3) by (auto simp: th_read_from_def TUPLE_HEADER_SIZE_def split: if_splits)
  then have "length (th_write_to (f h) (take 64 b)) = 64"
    using l(1) by simp
  then show ?thesis
    using Inr read_row_header_eq [OF assms(1,2)] l(1,4) heap_pageD(2) [OF assms(1)]
    by (simp add: stamp_tuple_def write_slice_def)
qed (use read_row_header_eq [OF assms(1,2)] in \<open>simp add: stamp_tuple_def\<close>)

lemma stamp_tuple_missing:
  assumes "heap_page pg" "page_tuples pg (tid_slot_id t) = None"
  shows "stamp_tuple f pg t = Err (InvalidSlot (tid_slot_id t))"
  using assms heap_pageD [OF assms(1)]
  by (simp add: heap_page_tuples line_pointer_eq stamp_tuple_def read_row_header_def PAGE_SIZE_def split: if_splits)

definition restamp :: "tuple_header \<Rightarrow> byte list \<Rightarrow> byte list" where
  "restamp h b = th_write_to h (take 64 b) @ drop 64 b"

lemma th_read_trace: "th_read_from b = Ok h \<Longrightarrow> length (t_trace_id h) = 16"
  by (auto simp: th_read_from_def TUPLE_HEADER_SIZE_def split: if_splits)

lemma restamp_simps:
  assumes "64 \<le> length b" "length (t_trace_id h) = 16"
  shows "length (restamp h b) = length b" "drop 64 (restamp h b) = drop 64 b" "th_read_from (restamp h b) = Ok h"
  using assms th_read_from_append [of "th_write_to h (take 64 b)" "drop 64 b"] th_roundtrip [of "take 64 b" h]
  by (simp_all add: restamp_def)

lemma stamp_result:
  assumes hp: "heap_page pg" and t: "page_tuples pg slot = Some b" and h: "length (t_trace_id h) = 16"
    and pg': "pg' = put_at (unat (lp_off (slot_lp pg (unat slot)))) (th_write_to h (take 64 b)) pg"
  shows "heap_page pg'" "header_read_from pg' = header_read_from pg"
    "i < slot_count pg \<Longrightarrow> slot_lp pg' i = slot_lp pg i"
    "bytes_at (hspecial pg) n pg' = bytes_at (hspecial pg) n pg"
    "page_tuples pg' = (page_tuples pg)(slot \<mapsto> restamp h b)"
proof -
  let ?o = "unat (lp_off (slot_lp pg (unat slot)))" and ?w = "th_write_to h (take 64 b)"
  note l = heap_tuple_length [OF hp t] and d = heap_pageD [OF hp]
  have w: "length ?w = 64"
    using l(1) h by simp
  have r: "put_at 0 ?w b = restamp h b"
    using w by (simp add: put_at_def restamp_def)
  note wr = write_in_tuple [OF d(1) t, of 0 ?w pg']
  show hd: "header_read_from pg' = header_read_from pg"
    and ok: "page_tuples pg' = (page_tuples pg)(slot \<mapsto> restamp h b)"
    and sp: "bytes_at (hspecial pg) n pg' = bytes_at (hspecial pg) n pg"
    using wr(2,3) wr(4) [of "hspecial pg" n] w l(1) pg' r by simp_all
  have lp: "slot_lp pg' i = slot_lp pg i" if "i < slot_count pg" for i
  proof -
    have "32 + i * 4 + 4 \<le> hupper pg"
      using geometry_bounds [OF d(3)] that by linarith
    then have "32 + i * 4 + 4 \<le> ?o" "?o \<le> length pg"
      using l(1,4,5) d(2) by linarith+
    then show ?thesis
      using pg' by (simp add: slot_lp_def page_sizes get_u32_def buf_simps)
  qed
  show "i < slot_count pg \<Longrightarrow> slot_lp pg' i = slot_lp pg i"
    by (rule lp)
  show "heap_page pg'"
    using wr(1) w l(1) pg' hd lp d slot_count_cong [OF hd] by (simp add: heap_page_def page_sizes)
qed

lemma tuple_sim_read:
  assumes "tuple_sim C b b'" "th_read_from b = Ok h"
  obtains h' where "th_read_from b' = Ok h'" "header_sim C h h'"
  using assms by (auto simp: tuple_sim_def)

lemma tuple_sim_restamp:
  assumes "tuple_sim C b b'" "64 \<le> length b" "length (t_trace_id h) = 16" "length (t_trace_id h') = 16" "header_sim C h h'"
  shows "tuple_sim C (restamp h b) (restamp h' b')"
  using assms restamp_simps [of b h] restamp_simps [of b' h'] unfolding tuple_sim_def by auto

lemma page_simD:
  assumes "page_sim C p q"
  shows "heap_page p" "heap_page q" "header_read_from q = header_read_from p" "slot_count q = slot_count p"
    "i < slot_count p \<Longrightarrow> slot_lp q i = slot_lp p i" "page_pd_lsn q = page_pd_lsn p"
    "bytes_at 8176 16 q = bytes_at 8176 16 p"
    "rel_option (tuple_sim C) (page_tuples p slot) (page_tuples q slot)"
proof -
  have "page_pd_lsn pg = pd_lsn (header_read_from pg)" for pg
    by (simp add: page_pd_lsn_def header_read_from_def)
  then show "page_pd_lsn q = page_pd_lsn p" "heap_page p" "heap_page q" "header_read_from q = header_read_from p"
    "slot_count q = slot_count p" "i < slot_count p \<Longrightarrow> slot_lp q i = slot_lp p i"
    "bytes_at 8176 16 q = bytes_at 8176 16 p" "rel_option (tuple_sim C) (page_tuples p slot) (page_tuples q slot)"
    using assms heap_pageD(4) [of p] by (auto simp: page_sim_def slot_count_def HEAP_SPECIAL_SIZE_def)
qed

lemma stamp_sim:
  assumes s: "page_sim C p q" and st: "stamp_tuple f p t = Ok p'"
    and f: "\<And>h. length (t_trace_id (f h)) = length (t_trace_id h)" "\<And>h. length (t_trace_id (g h)) = length (t_trace_id h)"
    and sim: "\<And>h h'. header_sim C h h' \<Longrightarrow> header_sim C (f h) (g h')"
  shows "\<exists>q'. stamp_tuple g q t = Ok q' \<and> page_sim C p' q'"
proof -
  note d = page_simD [OF s]
  let ?s = "tid_slot_id t"
  obtain b where b: "page_tuples p ?s = Some b"
    using st stamp_tuple_missing [OF d(1), of t f] by (cases "page_tuples p ?s") auto
  then obtain b' where b': "page_tuples q ?s = Some b'" "tuple_sim C b b'"
    using d(8) [of ?s] by (cases "page_tuples q ?s") auto
  obtain h where h: "th_read_from b = Ok h" and p': "p' = put_at (unat (lp_off (slot_lp p (unat ?s)))) (th_write_to (f h) (take 64 b)) p"
    using st stamp_tuple_eq [OF d(1) b, of f] f(1) by (auto split: sum.splits)
  obtain h' where h': "th_read_from b' = Ok h'" "header_sim C h h'"
    using tuple_sim_read [OF b'(2) h] .
  define q' where "q' = put_at (unat (lp_off (slot_lp q (unat ?s)))) (th_write_to (g h') (take 64 b')) q"
  have tr: "length (t_trace_id (f h)) = 16" "length (t_trace_id (g h')) = 16"
    using th_read_trace [OF h] th_read_trace [OF h'(1)] f by simp_all
  note P = stamp_result [OF d(1) b tr(1) p'] and Q = stamp_result [OF d(2) b'(1) tr(2) q'_def]
  have "tuple_sim C (restamp (f h) b) (restamp (g h') b')"
    by (rule tuple_sim_restamp [OF b'(2) heap_tuple_length(1) [OF d(1) b] tr sim [OF h'(2)]])
  then have "page_sim C p' q'"
    using P(1,2,5) P(3) P(4) Q(1,2,5) Q(3) Q(4) d slot_count_cong [OF P(2)] slot_count_cong [OF Q(2)]
      heap_pageD(4) [OF d(1)] heap_pageD(4) [OF d(2)]
    by (simp add: page_sim_def HEAP_SPECIAL_SIZE_def)
  then show ?thesis
    using stamp_tuple_eq [OF d(2) b'(1), of g] f(2) h'(1) by (auto simp: q'_def)
qed

lemma stamp_sim_left:
  assumes s: "page_sim C p q" and st: "stamp_tuple f p t = Ok p'"
    and f: "\<And>h. length (t_trace_id (f h)) = length (t_trace_id h)"
    and sim: "\<And>b h h'. page_tuples p (tid_slot_id t) = Some b \<Longrightarrow> th_read_from b = Ok h \<Longrightarrow> header_sim C h h' \<Longrightarrow>
      header_sim C (f h) h'"
  shows "page_sim C p' q"
proof -
  note d = page_simD [OF s]
  let ?s = "tid_slot_id t"
  obtain b where b: "page_tuples p ?s = Some b"
    using st stamp_tuple_missing [OF d(1), of t f] by (cases "page_tuples p ?s") auto
  then obtain b' where b': "page_tuples q ?s = Some b'" "tuple_sim C b b'"
    using d(8) [of ?s] by (cases "page_tuples q ?s") auto
  obtain h where h: "th_read_from b = Ok h" and p': "p' = put_at (unat (lp_off (slot_lp p (unat ?s)))) (th_write_to (f h) (take 64 b)) p"
    using st stamp_tuple_eq [OF d(1) b, of f] f by (auto split: sum.splits)
  obtain h' where h': "th_read_from b' = Ok h'" "header_sim C h h'"
    using tuple_sim_read [OF b'(2) h] .
  have tr: "length (t_trace_id (f h)) = 16"
    using th_read_trace [OF h] f by simp
  note P = stamp_result [OF d(1) b tr p']
  have "tuple_sim C (restamp (f h) b) b'"
    using restamp_simps [OF heap_tuple_length(1) [OF d(1) b] tr] b'(2) h'(1) sim [OF b h h'(2)]
    by (auto simp: tuple_sim_def)
  then show ?thesis
    using P(1,2,5) P(3) P(4) d b' slot_count_cong [OF P(2)] heap_pageD(4) [OF d(1)]
    by (simp add: page_sim_def HEAP_SPECIAL_SIZE_def)
qed

lemma heap_free_slot: "heap_page p \<Longrightarrow> free_slot p = slot_count p"
  using heap_pageD(5) [of p] by (auto simp: free_slot_def find_Some_iff split: option.splits)

lemma add_tuple_heap:
  assumes hp: "heap_page p" and add: "add_tuple p bs = Ok (s, p')" and len: "64 \<le> length bs"
  shows "heap_page p'" "s = new_slot p" "slot_count p' = slot_count p + 1" "page_pd_lsn p' = page_pd_lsn p"
    "p' = placed (hupper p - length bs) (lower_after p) (slot_count p) bs p"
    "bs \<noteq> []" "length bs + (36 + 4 * slot_count p) \<le> hupper p" "lower_after p = 36 + 4 * slot_count p"
proof -
  note d = heap_pageD [OF hp] and a = add_tuple_Ok [OF heap_pageD(1) [OF hp] add] and f = heap_free_slot [OF hp]
  have l: "lower_after p = 36 + 4 * slot_count p"
    using f by (simp add: lower_after_def)
  have len': "length p = PAGE_SIZE"
    using d(2) by (simp add: PAGE_SIZE_def)
  show p': "p' = placed (hupper p - length bs) (lower_after p) (slot_count p) bs p"
    and c: "bs \<noteq> []" "length bs + (36 + 4 * slot_count p) \<le> hupper p"
    using add f l by (auto simp: add_tuple_eq [OF len'] split: if_splits)
  show "lower_after p = 36 + 4 * slot_count p"
    by (rule l)
  show "s = new_slot p" and sc: "slot_count p' = slot_count p + 1" and "page_pd_lsn p' = page_pd_lsn p"
    using a(5,7,8) f by (simp_all add: new_slot_def)
  have g: "hupper p \<le> 8176" "hlower p \<le> hupper p"
    using d(3,4) by (auto simp: geometry_def)
  have lps: "slot_lp p' i = (if i = slot_count p then lp_new (of_nat (hupper p - length bs)) LpNormal (of_nat (length bs)) else slot_lp p i)"
    if "i < slot_count p'" for i
    unfolding p' by (rule placed_facts(6)) (use len' c(2) g l that sc in auto)
  have "unat (of_nat (length bs) :: u16) = length bs"
    using c(2) g by (simp add: unat_of_nat)
  then show "heap_page p'"
    using a(1,4) lps sc d c g len by (auto simp: heap_page_def page_sizes)
qed

lemma header_put_u16:
  assumes "32 \<le> length pg"
  shows "header_read_from (put_u16 14 w pg) = (header_read_from pg)\<lparr> pd_lower := w \<rparr>"
    "header_read_from (put_u16 16 w pg) = (header_read_from pg)\<lparr> pd_upper := w \<rparr>"
  using assms by (simp_all add: header_read_from_def page_pd_lsn_put_u16 buf_simps)

lemma header_placed:
  assumes "length pg = PAGE_SIZE" "32 + s * 4 + 4 \<le> l" "l \<le> u" "u + length bs \<le> 8192"
  shows "header_read_from (placed u l s bs pg) = (header_read_from pg)\<lparr> pd_lower := of_nat l, pd_upper := of_nat u \<rparr>"
proof -
  have "length (put_at u bs pg) = 8192" "32 \<le> u"
    using assms by (simp_all add: PAGE_SIZE_def)
  moreover from this have "length (put_u32 (32 + s * 4) lp (put_at u bs pg)) = 8192" for lp
    using assms by simp
  ultimately show ?thesis
    using assms by (simp add: placed_def header_put_u16 PAGE_SIZE_def)
qed

lemma add_sim:
  assumes s: "page_sim C p q" and add: "add_tuple p bs = Ok (sl, p')" and len: "64 \<le> length bs"
  shows "\<exists>q'. add_tuple q bs = Ok (sl, q') \<and> page_sim C p' q'"
proof -
  note d = page_simD [OF s]
  note P = add_tuple_heap [OF d(1) add len] and hp = heap_pageD [OF d(1)] and hq = heap_pageD [OF d(2)]
  have lq: "lower_after q = lower_after p"
    using d(4) heap_free_slot [OF d(1)] heap_free_slot [OF d(2)] by (simp add: lower_after_def)
  define q' where "q' = placed (hupper q - length bs) (lower_after q) (slot_count q) bs q"
  have "add_tuple q bs = Ok (of_nat (slot_count q), q')"
    using add hp hq d(3,4) lq heap_free_slot [OF d(1)] heap_free_slot [OF d(2)]
    by (auto simp: add_tuple_eq PAGE_SIZE_def q'_def geometry_def split: if_splits)
  then have addq: "add_tuple q bs = Ok (sl, q')"
    using P(2) d(4) by (simp add: new_slot_def)
  note Q = add_tuple_heap [OF d(2) addq len]
  have g: "hupper p \<le> 8176" "hlower p \<le> hupper p"
    using hp(3,4) by (auto simp: geometry_def)
  have pre: "length p = PAGE_SIZE" "length q = PAGE_SIZE" "32 + slot_count p * 4 + 4 \<le> lower_after p"
    "lower_after p \<le> hupper p - length bs" "(hupper p - length bs) + length bs \<le> 8192"
    using hp(2) hq(2) P(7,8) g by (simp_all add: PAGE_SIZE_def)
  have "header_read_from p' = header_read_from q'"
    using header_placed [OF pre(1,3,4,5)] header_placed [OF pre(2,3,4,5)] d(3,4) lq P(5) Q(5) by simp
  moreover have "slot_lp p' i = slot_lp q' i" if "i < slot_count p'" for i
  proof -
    have i: "i * 4 + 36 \<le> hupper p - length bs"
      using that P(3,7) by linarith
    show ?thesis
      using placed_facts(6) [OF pre(1,3,4,5) i] placed_facts(6) [OF pre(2,3,4,5) i] d(3,4,5) lq P(3,5) Q(5) that by simp
  qed
  moreover have "bytes_at 8176 16 p' = bytes_at 8176 16 q'"
    using placed_facts(8) [OF pre(1,3,4,5), of 8176 16] placed_facts(8) [OF pre(2,3,4,5), of 8176 16] g d(3,4,7) lq P(5) Q(5) P(7)
    by simp
  moreover have "rel_option (tuple_sim C) (page_tuples p' k) (page_tuples q' k)" for k
    using add_tuple_Ok(3) [OF hp(1) add] add_tuple_Ok(3) [OF hq(1) addq] d(8) [of k] by simp
  ultimately show ?thesis
    using addq P(1) Q(1) heap_pageD(4) [OF P(1)] by (auto simp: page_sim_def HEAP_SPECIAL_SIZE_def)
qed

lemma set_lsn_facts:
  assumes "heap_page pg"
  shows "heap_page (set_page_pd_lsn pg l)" "header_read_from (set_page_pd_lsn pg l) = (header_read_from pg)\<lparr> pd_lsn := l \<rparr>"
    "slot_lp (set_page_pd_lsn pg l) i = slot_lp pg i" "8 \<le> off \<Longrightarrow> bytes_at off n (set_page_pd_lsn pg l) = bytes_at off n pg"
    "page_tuples (set_page_pd_lsn pg l) = page_tuples pg" "page_pd_lsn (set_page_pd_lsn pg l) = l"
    "slot_count (set_page_pd_lsn pg l) = slot_count pg"
proof -
  let ?p = "set_page_pd_lsn pg l"
  note d = heap_pageD [OF assms] and ok = page_okD [OF heap_pageD(1) [OF assms]]
  have len: "length ?p = 8192"
    using d(2) by (simp add: set_page_pd_lsn_def)
  show l: "page_pd_lsn ?p = l"
    using d(2) by (simp add: set_page_pd_lsn_def page_pd_lsn_def buf_simps)
  show h: "header_read_from ?p = (header_read_from pg)\<lparr> pd_lsn := l \<rparr>"
    using l d(2) unfolding header_read_from_def by (simp add: set_page_pd_lsn_def buf_simps)
  show b: "bytes_at off n ?p = bytes_at off n pg" if "8 \<le> off" for off n
    using that d(2) by (simp add: set_page_pd_lsn_def buf_simps)
  show sl: "slot_lp ?p i = slot_lp pg i" for i
    using d(2) by (simp add: slot_lp_def set_page_pd_lsn_def page_sizes buf_simps)
  show sc: "slot_count ?p = slot_count pg"
    using h by (simp add: slot_count_def)
  have g: "geometry ?p = geometry pg" and lv: "live ?p i = live pg i" for i
    using h sl sc by (simp_all add: geometry_def live_def)
  have okp: "page_ok ?p"
    by (rule page_okI) (use len g lv sl sc h d ok in \<open>auto simp: PAGE_SIZE_def\<close>)
  then show hp: "heap_page ?p"
    using d sl sc h by (simp add: heap_page_def page_sizes)
  show "page_tuples ?p = page_tuples pg"
  proof
    fix k
    show "page_tuples ?p k = page_tuples pg k"
    proof (cases "page_tuples pg k")
      case (Some x)
      then have "8 \<le> unat (lp_off (slot_lp pg (unat k)))"
        using heap_tuple_length(5) [OF assms Some] geometry_bounds [OF d(3)] by linarith
      then show ?thesis
        using hp assms sl sc b by (simp add: heap_page_tuples)
    qed (use hp assms sc in \<open>simp add: heap_page_tuples split: if_splits\<close>)
  qed
qed

lemma lsn_sim:
  assumes "page_sim C p q"
  shows "page_sim C (set_page_pd_lsn p l) (set_page_pd_lsn q l)"
proof -
  note d = page_simD [OF assms] and P = set_lsn_facts [OF page_simD(1) [OF assms], where l = l]
    and Q = set_lsn_facts [OF page_simD(2) [OF assms], where l = l]
  have "header_read_from (set_page_pd_lsn p l) = header_read_from (set_page_pd_lsn q l)"
    using P(2) Q(2) d(3) by simp
  moreover have "slot_lp (set_page_pd_lsn p l) i = slot_lp (set_page_pd_lsn q l) i" if "i < slot_count (set_page_pd_lsn p l)" for i
    using that P(3,7) Q(3) d(5) by simp
  moreover have "bytes_at 8176 16 (set_page_pd_lsn p l) = bytes_at 8176 16 (set_page_pd_lsn q l)"
    using P(4) [of 8176 16] Q(4) [of 8176 16] d(7) by simp
  ultimately show ?thesis
    using P(1,5) Q(1,5) d(8) heap_pageD(4) [OF P(1)] by (simp add: page_sim_def HEAP_SPECIAL_SIZE_def)
qed

lemma stamp_lsn_sim: "page_sim C p q \<Longrightarrow> page_sim C (stamp_pd_lsn p l) (stamp_pd_lsn q l)"
  using lsn_sim [of C p q] page_simD(6) [of C p q] by (simp add: stamp_pd_lsn_def)

section \<open>One event and its replay\<close>

text \<open>
  Readings of the transaction system that agree with the final outcome: what they show
  as ended without a commit, or as neither active nor committed, never commits.
\<close>

definition gate_settles :: "(txn_id \<Rightarrow> bool) \<Rightarrow> gate_env \<Rightarrow> bool" where
  "gate_settles C env \<longleftrightarrow>
    (\<forall>x. is_terminal (env_clog env x) \<and> env_clog env x \<noteq> Committed \<longrightarrow> \<not> C x) \<and>
    (\<forall>act x. env_waiter env = Some act \<and> \<not> act x \<and> env_clog2 env x \<noteq> Committed \<longrightarrow> \<not> C x)"

definition lock_allowed :: "(txn_id \<Rightarrow> bool) \<Rightarrow> tid \<Rightarrow> txn_id \<Rightarrow> bool \<Rightarrow> page \<Rightarrow> bool" where
  "lock_allowed C t x shared pg \<longleftrightarrow>
    (\<exists>env reg reg'. gate_settles C env \<and>
      row_lock_gate env pg t x (if shared then ReqShared else ReqExclusive) reg = Ok (Proceed, reg')) \<and>
    (\<forall>off b h. read_row_header pg t = Ok (off, b, h) \<and> xmax_is_share h \<longrightarrow> xmax_lock_only h)"

fun allowed :: "(txn_id \<Rightarrow> bool) \<Rightarrow> page_id \<Rightarrow> page_event \<Rightarrow> page \<Rightarrow> bool" where
  "allowed C pid EvInit pg \<longleftrightarrow> length pg = PAGE_SIZE"
| "allowed C pid (EvInsert bytes) pg \<longleftrightarrow> heap_page pg \<and> 64 \<le> length bytes"
| "allowed C pid (EvUpdateSame slot x cid bytes) pg \<longleftrightarrow> heap_page pg \<and> 64 \<le> length bytes"
| "allowed C pid (EvUpdateNew bytes) pg \<longleftrightarrow> heap_page pg \<and> 64 \<le> length bytes"
| "allowed C pid (EvHotUpdate slot x cid bytes) pg \<longleftrightarrow> heap_page pg \<and> 64 \<le> length bytes"
| "allowed C pid (EvLock slot x cid shared) pg \<longleftrightarrow> heap_page pg \<and> lock_allowed C (on_page pid slot) x shared pg"
| "allowed C pid _ pg \<longleftrightarrow> heap_page pg"

fun page_logged :: "page_event \<Rightarrow> bool" where
  "page_logged (EvLock slot x cid shared) = False"
| "page_logged _ = True"

fun has_image :: "page_event \<Rightarrow> bool" where
  "has_image EvImage = True"
| "has_image (EvLink next) = True"
| "has_image EvInit = True"
| "has_image _ = False"

lemma gate_Proceed_settles:
  assumes "gate_settles C env" "header_gate env t x req h reg = Ok (Proceed, reg')" "req \<noteq> ReqWriter"
    "xmax_is_share h \<longrightarrow> xmax_lock_only h"
  shows "effective_xmax C h = 0"
proof (cases "t_xmax h = 0 \<or> xmax_lock_only h")
  case False
  then have "\<not> C (t_xmax h)"
    using assms unfolding header_gate_def Let_def gate_settles_def
    by (auto split: if_splits option.splits)
  then show ?thesis
    using False by (simp add: effective_xmax_def visibility_xmax_def)
qed (auto simp: effective_xmax_def visibility_xmax_def)

lemma lock_allowed_effective:
  assumes "heap_page pg" "lock_allowed C t x shared pg" "page_tuples pg (tid_slot_id t) = Some b" "th_read_from b = Ok h"
  shows "effective_xmax C h = 0"
proof -
  obtain off b' where r: "read_row_header pg t = Ok (off, b', h)"
    using read_row_header_eq [OF assms(1,3)] assms(4) by simp
  obtain env reg reg' where "gate_settles C env"
    "header_gate env t x (if shared then ReqShared else ReqExclusive) h reg = Ok (Proceed, reg')"
    using assms(2) r by (auto simp: lock_allowed_def row_lock_gate_def)
  moreover have "xmax_is_share h \<longrightarrow> xmax_lock_only h"
    using assms(2) r by (auto simp: lock_allowed_def)
  ultimately show ?thesis
    by (intro gate_Proceed_settles [where req = "if shared then ReqShared else ReqExclusive"]) (auto split: if_splits)
qed

lemma lock_sim:
  assumes "page_sim C p q" "allowed C pid (EvLock slot x cid shared) p" "forward pid l (EvLock slot x cid shared) p = Ok p'"
  shows "page_sim C p' q"
  by (rule stamp_sim_left [OF assms(1) assms(3) [simplified stamp_lock_only_def forward.simps]])
    (use assms(2) in \<open>auto intro!: header_sim_locked lock_allowed_effective simp: on_page_def\<close>)

lemma stamp_keeps:
  assumes "heap_page p" "stamp_tuple f p t = Ok p'" "\<And>h. length (t_trace_id (f h)) = length (t_trace_id h)"
  shows "heap_page p'" "page_pd_lsn p' = page_pd_lsn p" "slot_count p' = slot_count p"
proof -
  obtain b where b: "page_tuples p (tid_slot_id t) = Some b"
    using assms(2) stamp_tuple_missing [OF assms(1), of t f] by (cases "page_tuples p (tid_slot_id t)") auto
  obtain h where h: "th_read_from b = Ok h"
    and p': "p' = put_at (unat (lp_off (slot_lp p (unat (tid_slot_id t))))) (th_write_to (f h) (take 64 b)) p"
    using assms(2,3) stamp_tuple_eq [OF assms(1) b, of f] by (auto split: sum.splits)
  have "length (t_trace_id (f h)) = 16"
    using th_read_trace [OF h] assms(3) by simp
  note P = stamp_result [OF assms(1) b this p']
  show "heap_page p'" "slot_count p' = slot_count p"
    using P(1) slot_count_cong [OF P(2)] .
  show "page_pd_lsn p' = page_pd_lsn p"
    using arg_cong [OF P(2), of pd_lsn] by (simp add: header_read_from_def)
qed

lemma fresh_heap_page:
  assumes "heap_page p"
  shows "init_if_fresh_with_special sz p = p"
proof -
  have "32 \<le> hupper p"
    using heap_pageD(3) [OF assms] by (simp add: geometry_def)
  then have "pd_upper (header_read_from p) \<noteq> 0"
    by (metis not_numeral_le_zero unat_0)
  then show ?thesis
    by (simp add: init_if_fresh_with_special_def)
qed

lemma init_heap_page: "length p = PAGE_SIZE \<Longrightarrow> heap_page (init_with_special HEAP_SPECIAL_SIZE p)"
  using init_page_ok [of p 16] init_header [of p 16] by (simp add: heap_page_def page_sizes)

lemma page_ok_cong:
  assumes ok: "page_ok p" and len: "length p' = length p" and h: "header_read_from p' = header_read_from p"
    and lp: "\<And>i. i < slot_count p \<Longrightarrow> slot_lp p' i = slot_lp p i"
  shows "page_ok p'"
proof (rule page_okI)
  note p = page_okD [OF ok]
  have sc: "slot_count p' = slot_count p"
    by (rule slot_count_cong [OF h])
  have lv: "live p i" "slot_lp p' i = slot_lp p i" if "live p' i" for i
    using that lp [of i] sc by (auto simp: live_def)
  show "length p' = PAGE_SIZE" "geometry p'"
    using p(1,2) len h by (simp_all add: geometry_def)
  show "hupper p' \<le> unat (lp_off (slot_lp p' i))" if "live p' i" for i
    using p(3) [OF lv(1) [OF that]] lv(2) [OF that] h by simp
  show "unat (lp_off (slot_lp p' i)) + unat (lp_len (slot_lp p' i)) \<le> hspecial p'" if "live p' i" for i
    using p(4) [OF lv(1) [OF that]] lv(2) [OF that] h by simp
  show "apart (lp_region (slot_lp p' i)) (lp_region (slot_lp p' j))" if "live p' i" "live p' j" "i < j" for i j
    using p(5) [OF lv(1) [OF that(1)] lv(1) [OF that(2)]] lv(2) [OF that(1)] lv(2) [OF that(2)] that(3) by simp
  show "lp_flags (slot_lp p' i) \<noteq> LpRedirect" if "i < slot_count p'" for i
    using p(6) [of i] lp [of i] that sc by simp
qed

lemma link_page_heap:
  assumes hp: "heap_page p" and n: "link_page nx p = Ok p'"
  shows "heap_page p'" "page_pd_lsn p' = page_pd_lsn p"
proof -
  note d = heap_pageD [OF hp]
  have p': "p' = put_at 8176 (u64_le nx) p"
    using n d(2,4) by (simp add: link_page_def fresh_heap_page [OF hp] set_next_page_def write_slice_def split: if_splits)
  have h: "header_read_from p' = header_read_from p"
    using p' d(2) by simp
  have lp: "slot_lp p' i = slot_lp p i" if "i < slot_count p" for i
  proof -
    have "32 + i * 4 + 4 \<le> 8176"
      using geometry_bounds [OF d(3)] d(4) that by linarith
    then show ?thesis
      using p' d(2) by (simp add: slot_lp_def page_sizes get_u32_def buf_simps)
  qed
  have "page_ok p'"
    by (rule page_ok_cong [OF d(1) _ h lp]) (use p' d(2) in simp_all)
  then show "heap_page p'"
    using d(4-6) h lp slot_count_cong [OF h] by (simp add: heap_page_def page_sizes)
  show "page_pd_lsn p' = page_pd_lsn p"
    using arg_cong [OF h, of pd_lsn] by (simp add: header_read_from_def)
qed

lemma stamp_pd_lsn_facts:
  assumes "heap_page p"
  shows "heap_page (stamp_pd_lsn p l)" "page_pd_lsn (stamp_pd_lsn p l) = max l (page_pd_lsn p)"
  using set_lsn_facts [OF assms] by (simp_all add: stamp_pd_lsn_def)

lemma append_tuple_keeps:
  assumes "heap_page p" "append_tuple bytes l p = Ok p'" "64 \<le> length bytes"
  shows "heap_page p'" "page_pd_lsn p' = max l (page_pd_lsn p)"
proof -
  obtain s p1 where a: "add_tuple p bytes = Ok (s, p1)" "p' = stamp_pd_lsn p1 l"
    using assms(2) by (cases "add_tuple p bytes") (auto simp: append_tuple_def)
  note P = add_tuple_heap [OF assms(1) a(1) assms(3)]
  show "heap_page p'" "page_pd_lsn p' = max l (page_pd_lsn p)"
    using stamp_pd_lsn_facts [OF P(1)] a(2) P(4) by simp_all
qed

lemma stamps_keep:
  assumes "heap_page p"
  shows "stamp_deleted p t x c u = Ok p' \<Longrightarrow> heap_page p'" "stamp_deleted p t x c u = Ok p' \<Longrightarrow> page_pd_lsn p' = page_pd_lsn p"
    "stamp_hot_update p t x c n = Ok p' \<Longrightarrow> heap_page p'" "stamp_hot_update p t x c n = Ok p' \<Longrightarrow> page_pd_lsn p' = page_pd_lsn p"
    "stamp_lock_only p t x c sh = Ok p' \<Longrightarrow> heap_page p'" "stamp_lock_only p t x c sh = Ok p' \<Longrightarrow> page_pd_lsn p' = page_pd_lsn p"
  using stamp_keeps(1,2) [OF assms, of "deleted_header x c u" t p'] stamp_keeps(1,2) [OF assms, of "hot_updated_header x c n" t p']
    stamp_keeps(1,2) [OF assms, of "locked_header x c sh" t p']
  by (simp_all add: stamp_deleted_def stamp_hot_update_def stamp_lock_only_def)

text \<open>Every event leaves a heap page, and a logged one stamps it with the record's position.\<close>

lemma forward_keeps:
  assumes al: "allowed C pid ev p" and fw: "forward pid l ev p = Ok p'" and lt: "page_logged ev \<and> ev \<noteq> EvInit \<longrightarrow> page_pd_lsn p < l"
  shows "heap_page p'" "page_pd_lsn p' = (if page_logged ev then l else page_pd_lsn p)"
proof -
  have m: "max l (page_pd_lsn p) = l" if "page_logged ev" "ev \<noteq> EvInit"
    using lt that by simp
  have app: "heap_page p' \<and> page_pd_lsn p' = l"
    if "heap_page p1" "page_pd_lsn p1 = page_pd_lsn p" "append_tuple bs l p1 = Ok p'" "64 \<le> length bs" "page_logged ev" "ev \<noteq> EvInit" for p1 bs
    using append_tuple_keeps [OF that(1,3,4)] that(2) m [OF that(5,6)] by simp
  have st: "heap_page p' \<and> page_pd_lsn p' = l"
    if "heap_page p1" "page_pd_lsn p1 = page_pd_lsn p" "p' = stamp_pd_lsn p1 l" "page_logged ev" "ev \<noteq> EvInit" for p1
    using stamp_pd_lsn_facts [OF that(1), of l] that(2,3) m [OF that(4,5)] by simp
  have "heap_page p' \<and> page_pd_lsn p' = (if page_logged ev then l else page_pd_lsn p)"
  proof (cases ev)
    case EvInit
    then show ?thesis
      using al fw init_heap_page [of p] stamp_pd_lsn_facts [of "init_with_special HEAP_SPECIAL_SIZE p" l] init_header(5) [of p 16]
      by (auto simp: HEAP_SPECIAL_SIZE_def)
  next
    case (EvLink nx)
    then show ?thesis
      using al fw link_page_heap [of p nx] st by (auto simp: try_then_Ok_iff)
  next
    case EvImage
    then show ?thesis
      using al fw set_lsn_facts [of p] by auto
  next
    case (EvLock slot x c sh)
    then show ?thesis
      using al fw stamps_keep(5,6) [of p] by simp
  next
    case (EvInsert bs)
    then show ?thesis
      using al fw app [of p bs] by simp
  next
    case (EvUpdateNew bs)
    then show ?thesis
      using al fw app [of p bs] by simp
  next
    case (EvUpdateSame slot x c bs)
    then obtain p1 where "stamp_deleted p (on_page pid slot) x c True = Ok p1" "append_tuple bs l p1 = Ok p'"
      using fw by (auto simp: try_then_Ok_iff)
    then show ?thesis
      using EvUpdateSame al stamps_keep(1,2) [of p] app [of p1 bs] by simp
  next
    case (EvHotUpdate slot x c bs)
    then obtain p1 where "stamp_hot_update p (on_page pid slot) x c (on_page pid (new_slot p)) = Ok p1" "append_tuple bs l p1 = Ok p'"
      using fw by (auto simp: try_then_Ok_iff)
    then show ?thesis
      using EvHotUpdate al stamps_keep(3,4) [of p] app [of p1 bs] by simp
  next
    case (EvUpdateOld slot x c)
    then obtain p1 where "stamp_deleted p (on_page pid slot) x c True = Ok p1" "p' = stamp_pd_lsn p1 l"
      using fw by (auto simp: try_then_Ok_iff)
    then show ?thesis
      using EvUpdateOld al stamps_keep(1,2) [of p] st [of p1] by simp
  next
    case (EvDelete slot x c)
    then obtain p1 where "stamp_deleted p (on_page pid slot) x c False = Ok p1" "p' = stamp_pd_lsn p1 l"
      using fw by (auto simp: try_then_Ok_iff)
    then show ?thesis
      using EvDelete al stamps_keep(1,2) [of p] st [of p1] by simp
  qed
  then show "heap_page p'" "page_pd_lsn p' = (if page_logged ev then l else page_pd_lsn p)"
    by auto
qed

text \<open>Replaying an image gives the page after the event, over whatever is there.\<close>

lemma replay_image:
  assumes "has_image ev" "allowed C pid ev p" "forward pid l ev p = Ok p'" "ev \<noteq> EvInit \<longrightarrow> page_pd_lsn p < l"
    "length q = PAGE_SIZE"
  shows "replay pid l ev p q = Ok p'"
proof (cases ev)
  case EvInit
  then show ?thesis
    using assms init_header(1) [of p 16] by (simp add: redo_image_page_def stamp_pd_lsn_def HEAP_SPECIAL_SIZE_def)
next
  case (EvLink nx)
  then obtain p1 where "link_page nx p = Ok p1" "p' = stamp_pd_lsn p1 l"
    using assms(3) by (auto simp: try_then_Ok_iff)
  then show ?thesis
    using EvLink assms(2,5) link_page_heap(1) [of p nx p1] heap_pageD(2) [of p1]
    by (simp add: redo_image_page_def stamp_pd_lsn_def PAGE_SIZE_def)
next
  case EvImage
  then show ?thesis
    using assms heap_pageD(2) [of p] by (simp add: redo_image_page_def PAGE_SIZE_def max.absorb1)
qed (use assms(1) in auto)

text \<open>A record already on the page is skipped.\<close>

lemma replay_skips: "\<not> has_image ev \<Longrightarrow> l \<le> page_pd_lsn q \<Longrightarrow> replay pid l ev p q = Ok q"
  by (cases ev) (auto simp: redo_insert_page_def redo_delete_page_def redo_update_same_page_def
    redo_update_old_page_def redo_update_new_page_def redo_hot_update_page_def)

text \<open>A record not yet on the page does what the event did.\<close>

lemma redo_deleted_sim:
  assumes "page_sim C p q" "stamp_deleted p t x c u = Ok p'"
  shows "\<exists>q'. redo_stamp_deleted q t x u = Ok q' \<and> page_sim C p' q'"
  unfolding redo_stamp_deleted_def
  by (rule stamp_sim [OF assms(1) assms(2) [unfolded stamp_deleted_def]])
    (auto intro: header_sim_deleted [unfolded redo_deleted_header_eq] simp: redo_deleted_header_eq)

lemma redo_hot_sim:
  assumes "page_sim C p q" "stamp_hot_update p t x c n = Ok p'"
  shows "\<exists>q'. redo_stamp_hot_update q t n x = Ok q' \<and> page_sim C p' q'"
  unfolding redo_stamp_hot_update_def
  by (rule stamp_sim [OF assms(1) assms(2) [unfolded stamp_hot_update_def]])
    (auto intro: header_sim_hot_updated [unfolded redo_hot_updated_header_eq] simp: redo_hot_updated_header_eq)

lemma redo_add_sim:
  assumes "page_sim C p q" "append_tuple bs l p = Ok p'" "64 \<le> length bs" "s = new_slot p"
  shows "\<exists>q'. redo_add q bs s = Ok q' \<and> page_sim C p' (stamp_pd_lsn q' l)"
proof -
  obtain s' p1 where a: "add_tuple p bs = Ok (s', p1)" "p' = stamp_pd_lsn p1 l"
    using assms(2) by (cases "add_tuple p bs") (auto simp: append_tuple_def)
  obtain q' where q': "add_tuple q bs = Ok (s', q')" "page_sim C p1 q'"
    using add_sim [OF assms(1) a(1) assms(3)] by auto
  have "s' = s"
    using add_tuple_heap(2) [OF page_simD(1) [OF assms(1)] a(1) assms(3)] assms(4) by simp
  then have "redo_add q bs s = Ok q'"
    using q'(1) by (simp add: redo_add_def map_err_def)
  then show ?thesis
    using stamp_lsn_sim [OF q'(2), of l] a(2) by auto
qed

lemma replay_sim:
  assumes im: "\<not> has_image ev" and lg: "page_logged ev" and al: "allowed C pid ev p" and fw: "forward pid l ev p = Ok p'"
    and lt: "page_pd_lsn p < l" and s: "page_sim C p q"
  shows "\<exists>q'. replay pid l ev p q = Ok q' \<and> page_sim C p' q'"
proof -
  note d = page_simD [OF s]
  have lq: "page_pd_lsn q < l" "\<not> l \<le> page_pd_lsn q"
    using lt d(6) by simp_all
  note f = fresh_heap_page [OF d(2)]
  note stamped = stamp_keeps(3) [OF d(1)]
  show ?thesis
  proof (cases ev)
    case (EvInsert bs)
    then obtain q' where "redo_add q bs (new_slot p) = Ok q'" "page_sim C p' (stamp_pd_lsn q' l)"
      using redo_add_sim [OF s, of bs l p' "new_slot p"] fw al by auto
    then show ?thesis
      using EvInsert lq f by (simp add: redo_insert_page_def)
  next
    case (EvUpdateNew bs)
    then obtain q' where "redo_add q bs (new_slot p) = Ok q'" "page_sim C p' (stamp_pd_lsn q' l)"
      using redo_add_sim [OF s, of bs l p' "new_slot p"] fw al by auto
    then show ?thesis
      using EvUpdateNew lq f by (simp add: redo_update_new_page_def)
  next
    case (EvDelete slot x c)
    then obtain p1 where p1: "stamp_deleted p (on_page pid slot) x c False = Ok p1" "p' = stamp_pd_lsn p1 l"
      using fw by (auto simp: try_then_Ok_iff)
    obtain q' where "redo_stamp_deleted q (on_page pid slot) x False = Ok q'" "page_sim C p1 q'"
      using redo_deleted_sim [OF s p1(1)] by auto
    then show ?thesis
      using EvDelete lq p1(2) stamp_lsn_sim by (simp add: redo_delete_page_def map_err_def)
  next
    case (EvUpdateOld slot x c)
    then obtain p1 where p1: "stamp_deleted p (on_page pid slot) x c True = Ok p1" "p' = stamp_pd_lsn p1 l"
      using fw by (auto simp: try_then_Ok_iff)
    obtain q' where "redo_stamp_deleted q (on_page pid slot) x True = Ok q'" "page_sim C p1 q'"
      using redo_deleted_sim [OF s p1(1)] by auto
    then show ?thesis
      using EvUpdateOld lq f p1(2) stamp_lsn_sim by (simp add: redo_update_old_page_def map_err_def)
  next
    case (EvUpdateSame slot x c bs)
    then obtain p1 where p1: "stamp_deleted p (on_page pid slot) x c True = Ok p1" "append_tuple bs l p1 = Ok p'"
      using fw by (auto simp: try_then_Ok_iff)
    obtain q1 where q1: "redo_stamp_deleted q (on_page pid slot) x True = Ok q1" "page_sim C p1 q1"
      using redo_deleted_sim [OF s p1(1)] by auto
    have "slot_count p1 = slot_count p"
      using stamped p1(1) by (simp add: stamp_deleted_def)
    then obtain q' where "redo_add q1 bs (new_slot p) = Ok q'" "page_sim C p' (stamp_pd_lsn q' l)"
      using redo_add_sim [OF q1(2) p1(2), of "new_slot p"] EvUpdateSame al by (auto simp: new_slot_def)
    then show ?thesis
      using EvUpdateSame lq f q1(1) by (simp add: redo_update_same_page_def map_err_def)
  next
    case (EvHotUpdate slot x c bs)
    then obtain p1 where p1: "stamp_hot_update p (on_page pid slot) x c (on_page pid (new_slot p)) = Ok p1" "append_tuple bs l p1 = Ok p'"
      using fw by (auto simp: try_then_Ok_iff)
    obtain q1 where q1: "redo_stamp_hot_update q (on_page pid slot) (on_page pid (new_slot p)) x = Ok q1" "page_sim C p1 q1"
      using redo_hot_sim [OF s p1(1)] by auto
    have "slot_count p1 = slot_count p"
      using stamped p1(1) by (simp add: stamp_hot_update_def)
    then obtain q' where "redo_add q1 bs (new_slot p) = Ok q'" "page_sim C p' (stamp_pd_lsn q' l)"
      using redo_add_sim [OF q1(2) p1(2), of "new_slot p"] EvHotUpdate al by (auto simp: new_slot_def)
    then show ?thesis
      using EvHotUpdate lq f q1(1) by (simp add: redo_hot_update_page_def map_err_def on_page_def)
  qed (use im lg in auto)
qed

end
