(* ===== verification/Heap_Recovery.thy ===== *)
theory Heap_Recovery
  imports Heap_Redo
begin

text \<open>
  Recovery of heap pages: a history of heap operations over the page store, what a crash
  leaves of the pages, and that replaying the log from the redo point restores every page
  up to row locks and command numbers, so that every later snapshot sees the rows it
  would have seen without the crash.
\<close>

section \<open>Histories\<close>

definition event_logged :: "heap_event \<Rightarrow> bool" where
  "event_logged he \<longleftrightarrow> list_all (\<lambda>(pid, ev). page_logged ev) (touched he)"

type_synonym history = "(lsn \<times> heap_event \<times> page_store) list"

text \<open>
  Log positions grow, and no heap page the history starts from carries a position of
  its records.
\<close>

definition lsn_follows :: "page_store \<Rightarrow> history \<Rightarrow> lsn \<Rightarrow> bool" where
  "lsn_follows st0 hs l \<longleftrightarrow> (\<forall>(l', he, st) \<in> set hs. event_logged he \<longrightarrow> l' < l) \<and>
    (\<forall>pid p. st0 pid = Some p \<and> heap_page p \<longrightarrow> page_pd_lsn p < l)"

text \<open>A history lists each operation with its log position and the store before it.\<close>

inductive heap_history :: "(txn_id \<Rightarrow> bool) \<Rightarrow> page_store \<Rightarrow> history \<Rightarrow> page_store \<Rightarrow> bool" for C st0 where
  start: "(\<And>pid p. st0 pid = Some p \<Longrightarrow> length p = PAGE_SIZE) \<Longrightarrow> heap_history C st0 [] st0"
| step: "heap_history C st0 hs st \<Longrightarrow> list_all (\<lambda>(pid, ev). allowed C pid ev (page_at st pid)) (touched he) \<Longrightarrow>
    (event_logged he \<Longrightarrow> lsn_follows st0 hs l) \<Longrightarrow> forward_pages l (touched he) st = Ok st' \<Longrightarrow>
    heap_history C st0 (hs @ [(l, he, st)]) st'"

definition state_at :: "history \<Rightarrow> page_store \<Rightarrow> nat \<Rightarrow> page_store" where
  "state_at hs st i = (if i < length hs then snd (snd (hs ! i)) else st)"

fun redo_log :: "history \<Rightarrow> page_store \<Rightarrow> heap_error + page_store" where
  "redo_log [] q = Ok q"
| "redo_log ((l, he, st) # hs) q =
    (case event_payload st he of None \<Rightarrow> redo_log hs q | Some pl \<Rightarrow> try_then (redo_payload l pl q) (redo_log hs))"

text \<open>
  What a crash leaves of a page: its contents at some time since the redo point, or,
  torn, any bytes, if the first operation on it since then logged an image.
\<close>

definition touches :: "history \<Rightarrow> nat \<Rightarrow> page_id \<Rightarrow> bool" where
  "touches hs i pid \<longleftrightarrow> pid \<in> fst ` set (touched (fst (snd (hs ! i))))"

definition torn :: "history \<Rightarrow> nat \<Rightarrow> page_id \<Rightarrow> page option \<Rightarrow> bool" where
  "torn hs i pid d \<longleftrightarrow> (\<exists>g k. d = Some g \<and> length g = PAGE_SIZE \<and> i \<le> k \<and> k < length hs \<and>
    (\<exists>ev. (pid, ev) \<in> set (touched (fst (snd (hs ! k)))) \<and> has_image ev) \<and> (\<forall>j. i \<le> j \<and> j < k \<longrightarrow> \<not> touches hs j pid))"

definition survives :: "history \<Rightarrow> page_store \<Rightarrow> nat \<Rightarrow> page_store \<Rightarrow> bool" where
  "survives hs st i disk \<longleftrightarrow>
    (\<forall>pid. (\<exists>m. i \<le> m \<and> m \<le> length hs \<and> disk pid = state_at hs st m pid) \<or> torn hs i pid (disk pid))"

section \<open>The steps of a history, page by page\<close>

lemma touched_distinct: "distinct (map fst (touched he))"
  by (cases he) auto

lemma with_page_Ok:
  "with_page pid f st = Ok st' \<longleftrightarrow> (\<exists>p p'. pid \<noteq> 0 \<and> st pid = Some p \<and> f p = Ok p' \<and> st' = st(pid \<mapsto> p'))"
  by (auto simp: with_page_def pin_page_def try_then_Ok_iff split: option.splits)

lemma forward_pages_other:
  "forward_pages l evs st = Ok st' \<Longrightarrow> pid \<notin> fst ` set evs \<Longrightarrow> st' pid = st pid"
  by (induction l evs st rule: forward_pages.induct) (auto simp: try_then_Ok_iff with_page_Ok)

lemma forward_pages_touched:
  assumes "forward_pages l evs st = Ok st'" "distinct (map fst evs)" "(pid, ev) \<in> set evs"
  shows "\<exists>p p'. pid \<noteq> 0 \<and> st pid = Some p \<and> st' pid = Some p' \<and> forward pid l ev p = Ok p'"
  using assms
proof (induction l evs st rule: forward_pages.induct)
  case (2 l pid0 ev0 evs st)
  obtain p0 p1 where p0: "pid0 \<noteq> 0" "st pid0 = Some p0" "forward pid0 l ev0 p0 = Ok p1"
    and r: "forward_pages l evs (st(pid0 \<mapsto> p1)) = Ok st'"
    using "2.prems"(1) by (auto simp: try_then_Ok_iff with_page_Ok)
  show ?case
  proof (cases "pid = pid0")
    case True
    then have "pid \<notin> fst ` set evs" "ev = ev0"
      using "2.prems"(2,3) by (auto simp: rev_image_eqI)
    then show ?thesis
      using forward_pages_other [OF r] p0 True by auto
  next
    case False
    then have "(pid, ev) \<in> set evs"
      using "2.prems"(3) by auto
    moreover have "with_page pid0 (forward pid0 l ev0) st = Ok (st(pid0 \<mapsto> p1))"
      using p0 by (simp add: with_page_Ok)
    ultimately obtain p p' where "pid \<noteq> 0" "(st(pid0 \<mapsto> p1)) pid = Some p" "st' pid = Some p'" "forward pid l ev p = Ok p'"
      using "2.IH" [OF r] "2.prems"(2) by auto
    then show ?thesis
      using False by auto
  qed
qed simp

lemma page_at_Some [simp]: "st pid = Some p \<Longrightarrow> page_at st pid = p"
  by (simp add: page_at_def)

text \<open>Every state of a history: the same pages, of full size, and heap pages below the coming positions.\<close>

definition store_ok :: "page_store \<Rightarrow> history \<Rightarrow> page_store \<Rightarrow> bool" where
  "store_ok st0 hs st \<longleftrightarrow> dom st = dom st0 \<and> (\<forall>pid p. st pid = Some p \<longrightarrow> length p = PAGE_SIZE \<and>
    (heap_page p \<longrightarrow> (\<forall>l. lsn_follows st0 hs l \<longrightarrow> page_pd_lsn p < l)))"

lemma lsn_follows_butlast: "lsn_follows st0 (hs @ [x]) l \<Longrightarrow> lsn_follows st0 hs l"
  unfolding lsn_follows_def by auto

lemma touched_heap_page: "allowed C pid ev p \<Longrightarrow> ev \<noteq> EvInit \<Longrightarrow> heap_page p"
  by (cases ev) auto

lemma event_logged_touched:
  assumes "(pid, ev) \<in> set (touched he)"
  shows "page_logged ev \<longleftrightarrow> event_logged he"
  using assms by (cases he) (auto simp: event_logged_def split: if_splits)

text \<open>What one operation does to one page it touches.\<close>

lemma history_step_page:
  assumes ok: "store_ok st0 hs st" and al: "list_all (\<lambda>(pid, ev). allowed C pid ev (page_at st pid)) (touched he)"
    and lf: "event_logged he \<Longrightarrow> lsn_follows st0 hs l" and fw: "forward_pages l (touched he) st = Ok st'"
    and t: "(pid, ev) \<in> set (touched he)"
  obtains p p' where "pid \<noteq> 0" "st pid = Some p" "st' pid = Some p'" "forward pid l ev p = Ok p'" "allowed C pid ev p"
    "length p = PAGE_SIZE" "page_logged ev \<Longrightarrow> heap_page p \<Longrightarrow> page_pd_lsn p < l" "page_logged ev \<and> ev \<noteq> EvInit \<longrightarrow> page_pd_lsn p < l"
    "heap_page p'" "page_pd_lsn p' = (if page_logged ev then l else page_pd_lsn p)"
proof -
  obtain p p' where p: "pid \<noteq> 0" "st pid = Some p" "st' pid = Some p'" "forward pid l ev p = Ok p'"
    using forward_pages_touched [OF fw touched_distinct t] by auto
  have a: "allowed C pid ev p"
    using al t p(2) by (auto simp: list_all_iff)
  have l: "page_logged ev \<Longrightarrow> heap_page p \<Longrightarrow> page_pd_lsn p < l"
    using ok p(2) lf event_logged_touched [OF t] by (auto simp: store_ok_def)
  then have l': "page_logged ev \<and> ev \<noteq> EvInit \<longrightarrow> page_pd_lsn p < l"
    using touched_heap_page [OF a] by auto
  show thesis
    by (rule that [OF p a _ l l' forward_keeps [OF a p(4) l']]) (use ok p(2) in \<open>auto simp: store_ok_def\<close>)
qed

lemma history_step_ok:
  assumes ok: "store_ok st0 hs st" and al: "list_all (\<lambda>(pid, ev). allowed C pid ev (page_at st pid)) (touched he)"
    and lf: "event_logged he \<Longrightarrow> lsn_follows st0 hs l" and fw: "forward_pages l (touched he) st = Ok st'"
  shows "store_ok st0 (hs @ [(l, he, st)]) st'"
proof -
  have "length p' = PAGE_SIZE \<and> (heap_page p' \<longrightarrow> (\<forall>k. lsn_follows st0 (hs @ [(l, he, st)]) k \<longrightarrow> page_pd_lsn p' < k))"
    if p': "st' pid = Some p'" for pid p'
  proof (cases "pid \<in> fst ` set (touched he)")
    case True
    then obtain ev where t: "(pid, ev) \<in> set (touched he)"
      by auto
    show ?thesis
    proof (rule history_step_page [OF ok al lf fw t])
      fix p p'' assume s: "st pid = Some p" "st' pid = Some p''" "heap_page p''" "allowed C pid ev p"
        "page_pd_lsn p'' = (if page_logged ev then l else page_pd_lsn p)"
      have "page_pd_lsn p'' < k" if k: "lsn_follows st0 (hs @ [(l, he, st)]) k" for k
      proof (cases "page_logged ev")
        case True
        then show ?thesis
          using s k event_logged_touched [OF t] by (simp add: lsn_follows_def)
      next
        case False
        then have "heap_page p"
          using touched_heap_page [OF s(4)] by (cases ev) auto
        then show ?thesis
          using False s ok lsn_follows_butlast [OF k] by (auto simp: store_ok_def)
      qed
      then show ?thesis
        using s p' heap_pageD(2) [OF s(3)] by (simp add: PAGE_SIZE_def)
    qed
  next
    case False
    then show ?thesis
      using forward_pages_other [OF fw] ok p' lsn_follows_butlast by (auto simp: store_ok_def)
  qed
  moreover have "dom st' = dom st"
  proof (rule set_eqI)
    fix pid show "pid \<in> dom st' \<longleftrightarrow> pid \<in> dom st"
      using forward_pages_other [OF fw, of pid] forward_pages_touched [OF fw touched_distinct, of pid]
      by (cases "pid \<in> fst ` set (touched he)") force+
  qed
  ultimately show ?thesis
    using ok by (auto simp: store_ok_def)
qed

lemma state_at_append:
  "state_at (hs @ [(l, he, st)]) st' i = (if i \<le> length hs then state_at hs st i else st')"
  by (auto simp: state_at_def nth_append)

lemma history_states:
  assumes "heap_history C st0 hs st"
  shows "i \<le> length hs \<Longrightarrow> store_ok st0 (take i hs) (state_at hs st i)"
    "i < length hs \<Longrightarrow> hs ! i = (l, he, s) \<Longrightarrow> s = state_at hs st i \<and>
      list_all (\<lambda>(pid, ev). allowed C pid ev (page_at s pid)) (touched he) \<and>
      (event_logged he \<longrightarrow> lsn_follows st0 (take i hs) l) \<and> forward_pages l (touched he) s = Ok (state_at hs st (Suc i))"
  using assms
proof (induction arbitrary: i l he s)
  case start
  {
    case 1
    then show ?case
      using start by (auto simp: state_at_def store_ok_def lsn_follows_def)
  next
    case 2
    then show ?case
      by simp
  }
next
  case (step hs st he0 l0 st')
  have last: "store_ok st0 hs st"
    using step.IH(1) [of "length hs"] by (simp add: state_at_def)
  {
    case 1
    then show ?case
      using step.IH(1) [of i] history_step_ok [OF last step.hyps(2) _ step.hyps(4)] step.hyps(3)
      by (cases "i = length hs + 1") (auto simp: state_at_append)
  next
    case 2
    show ?case
    proof (cases "i < length hs")
      case True
      then show ?thesis
        using step.IH(2) [OF True, of l he s] 2 by (auto simp: state_at_append nth_append)
    next
      case False
      then have "i = length hs"
        using 2 by simp
      then show ?thesis
        using 2 step.hyps by (auto simp: state_at_append nth_append state_at_def)
    qed
  }
qed

section \<open>Replay from the redo point\<close>

definition close :: "(txn_id \<Rightarrow> bool) \<Rightarrow> page option \<Rightarrow> page option \<Rightarrow> bool" where
  "close C a d \<longleftrightarrow> a = d \<or> (\<exists>p q. a = Some p \<and> d = Some q \<and> page_sim C p q)"

text \<open>
  Before record \<open>i\<close> is replayed a page is as it was at some time since \<open>i\<close>, or torn with
  an image still to come.
\<close>

definition since :: "(txn_id \<Rightarrow> bool) \<Rightarrow> history \<Rightarrow> page_store \<Rightarrow> nat \<Rightarrow> page_id \<Rightarrow> page option \<Rightarrow> bool" where
  "since C hs st i pid d \<longleftrightarrow> (\<exists>m. i \<le> m \<and> m \<le> length hs \<and> close C (state_at hs st m pid) d)"

definition ahead :: "(txn_id \<Rightarrow> bool) \<Rightarrow> history \<Rightarrow> page_store \<Rightarrow> nat \<Rightarrow> page_id \<Rightarrow> page option \<Rightarrow> bool" where
  "ahead C hs st i pid d \<longleftrightarrow> since C hs st i pid d \<or> torn hs i pid d"

lemma since_Suc: "since C hs st (Suc i) pid d \<Longrightarrow> since C hs st i pid d"
  unfolding since_def using Suc_leD by blast

lemma closeD:
  assumes "close C (Some p) d"
  obtains q where "d = Some q" "heap_page p \<Longrightarrow> page_sim C p q" "page_pd_lsn q = page_pd_lsn p"
    "length p = PAGE_SIZE \<Longrightarrow> length q = PAGE_SIZE"
proof -
  obtain q where q: "d = Some q" "p = q \<or> page_sim C p q"
    using assms by (auto simp: close_def)
  then have "heap_page p \<Longrightarrow> page_sim C p q"
    using page_sim_refl by auto
  moreover have "page_pd_lsn q = page_pd_lsn p" "length p = PAGE_SIZE \<Longrightarrow> length q = PAGE_SIZE"
    using q(2) page_simD(2,6) [of C p q] heap_pageD(2) [of q] by (auto simp: PAGE_SIZE_def)
  ultimately show thesis
    using that q(1) by blast
qed

text \<open>Later states of a heap page carry later positions.\<close>

lemma history_untouched:
  assumes "heap_history C st0 hs st" "i < length hs" "\<not> touches hs i pid"
  shows "state_at hs st (Suc i) pid = state_at hs st i pid"
proof -
  obtain l he s where e: "hs ! i = (l, he, s)"
    by (cases "hs ! i") auto
  note h = history_states(2) [OF assms(1,2) e]
  show ?thesis
    using forward_pages_other [of l "touched he" s "state_at hs st (Suc i)" pid] h assms(3) e by (auto simp: touches_def)
qed

lemma history_touched:
  assumes "heap_history C st0 hs st" "i < length hs" "hs ! i = (l, he, s)" "(pid, ev) \<in> set (touched he)"
  obtains p p' where "pid \<noteq> 0" "state_at hs st i pid = Some p" "state_at hs st (Suc i) pid = Some p'"
    "forward pid l ev p = Ok p'" "allowed C pid ev p" "length p = PAGE_SIZE"
    "page_logged ev \<Longrightarrow> heap_page p \<Longrightarrow> page_pd_lsn p < l" "page_logged ev \<and> ev \<noteq> EvInit \<longrightarrow> page_pd_lsn p < l"
    "heap_page p'" "page_pd_lsn p' = (if page_logged ev then l else page_pd_lsn p)"
proof -
  note h = history_states(2) [OF assms(1-3)] and ok = history_states(1) [OF assms(1) less_imp_le [OF assms(2)]]
  show thesis
    by (rule history_step_page [OF ok _ _ _ assms(4), of C l "state_at hs st (Suc i)"]) (use h that in auto)
qed

lemma history_lsn_mono:
  assumes "heap_history C st0 hs st" "i \<le> m" "m \<le> length hs" "state_at hs st i pid = Some p" "heap_page p"
  shows "\<exists>p'. state_at hs st m pid = Some p' \<and> heap_page p' \<and> page_pd_lsn p \<le> page_pd_lsn p'"
  using assms(2,3)
proof (induction m rule: dec_induct)
  case base
  then show ?case
    using assms(4,5) by auto
next
  case (step m)
  then obtain p1 where p1: "state_at hs st m pid = Some p1" "heap_page p1" "page_pd_lsn p \<le> page_pd_lsn p1"
    by auto
  show ?case
  proof (cases "touches hs m pid")
    case True
    then obtain l he s ev where t: "hs ! m = (l, he, s)" "(pid, ev) \<in> set (touched he)"
      by (cases "hs ! m") (auto simp: touches_def)
    have m: "m < length hs"
      using step by simp
    show ?thesis
      by (rule history_touched [OF assms(1) m t]) (use p1 in force)
  next
    case False
    then show ?thesis
      using history_untouched [OF assms(1) _ False] step p1 by simp
  qed
qed

lemma ahead_untouched:
  assumes "heap_history C st0 hs st" "i < length hs" "\<not> touches hs i pid" "ahead C hs st i pid d"
  shows "ahead C hs st (Suc i) pid d"
proof -
  have "close C (state_at hs st (Suc i) pid) d" if "close C (state_at hs st i pid) d"
    using that history_untouched [OF assms(1-3)] by simp
  moreover have "torn hs (Suc i) pid d" if tn: "torn hs i pid d"
  proof -
    obtain g k ev where k: "d = Some g" "length g = PAGE_SIZE" "i \<le> k" "k < length hs"
        "(pid, ev) \<in> set (touched (fst (snd (hs ! k))))" "has_image ev" "\<forall>j. i \<le> j \<and> j < k \<longrightarrow> \<not> touches hs j pid"
      using tn unfolding torn_def by auto
    moreover have "k \<noteq> i"
      using k(5) assms(3) by (force simp: touches_def)
    ultimately show ?thesis
      unfolding torn_def by (metis Suc_leI le_neq_implies_less Suc_leD)
  qed
  ultimately show ?thesis
    using assms(2,4) unfolding ahead_def since_def by (metis Suc_leI le_neq_implies_less order_refl)
qed

text \<open>The page after the event, or a later one.\<close>

lemma since_next: "i < length hs \<Longrightarrow> close C (state_at hs st (Suc i) pid) d \<Longrightarrow> since C hs st (Suc i) pid d"
  unfolding since_def by (metis Suc_leI order_refl)

lemma ahead_lock:
  assumes hist: "heap_history C st0 hs st" and i: "i < length hs" "hs ! i = (l, he, s)" and t: "(pid, ev) \<in> set (touched he)"
    and nl: "\<not> page_logged ev" and d: "ahead C hs st i pid d"
  shows "ahead C hs st (Suc i) pid d"
proof (rule history_touched [OF hist i t])
  fix p p' assume P: "state_at hs st i pid = Some p" "state_at hs st (Suc i) pid = Some p'" "forward pid l ev p = Ok p'"
    "allowed C pid ev p"
  have "\<not> torn hs i pid d"
  proof
    assume "torn hs i pid d"
    then obtain k ev' where "i \<le> k" "(pid, ev') \<in> set (touched (fst (snd (hs ! k))))" "has_image ev'"
      "\<forall>j. i \<le> j \<and> j < k \<longrightarrow> \<not> touches hs j pid"
      unfolding torn_def by auto
    moreover have "touches hs i pid"
      using t i(2) by (force simp: touches_def)
    ultimately have "(pid, ev') \<in> set (touched he)" "has_image ev'"
      using i(2) by (metis fst_conv le_neq_implies_less order_refl snd_conv)+
    then show False
      using event_logged_touched [OF t] event_logged_touched [of pid ev' he] nl by (cases ev') auto
  qed
  then obtain m where m: "i \<le> m" "m \<le> length hs" "close C (state_at hs st m pid) d"
    using d by (auto simp: ahead_def since_def)
  show ?thesis
  proof (cases "m = i")
    case True
    obtain q where q: "d = Some q" "heap_page p \<Longrightarrow> page_sim C p q"
      using closeD [OF m(3) [unfolded True P(1)]] by metis
    obtain slot x c sh where ev: "ev = EvLock slot x c sh"
      using nl by (cases ev) auto
    have "page_sim C p' q"
      using lock_sim [OF q(2)] P(3,4) ev by auto
    then show ?thesis
      using since_next [OF i(1)] P(2) q(1) by (auto simp: ahead_def close_def)
  next
    case False
    then show ?thesis
      using m by (auto simp: ahead_def since_def intro: exI [of _ m])
  qed
qed

lemma ahead_replay:
  assumes hist: "heap_history C st0 hs st" and i: "i < length hs" "hs ! i = (l, he, s)" and t: "(pid, ev) \<in> set (touched he)"
    and lg: "page_logged ev" and d: "ahead C hs st i pid d"
  shows "\<exists>q q'. pid \<noteq> 0 \<and> d = Some q \<and> replay pid l ev (page_at s pid) q = Ok q' \<and> since C hs st (Suc i) pid (Some q')"
proof (rule history_touched [OF hist i t])
  fix p p' assume P: "pid \<noteq> 0" "state_at hs st i pid = Some p" "state_at hs st (Suc i) pid = Some p'" "forward pid l ev p = Ok p'"
    "allowed C pid ev p" "length p = PAGE_SIZE" "page_logged ev \<Longrightarrow> heap_page p \<Longrightarrow> page_pd_lsn p < l"
    "page_logged ev \<and> ev \<noteq> EvInit \<longrightarrow> page_pd_lsn p < l" "heap_page p'" "page_pd_lsn p' = (if page_logged ev then l else page_pd_lsn p)"
  have s: "page_at s pid = p"
    using history_states(2) [OF hist i] P(2) by simp
  have image: ?thesis if "d = Some q" "length q = PAGE_SIZE" "has_image ev" for q
    using replay_image [OF that(3) P(5,4) _ that(2)] P(1,3,8) lg s that since_next [OF i(1), of C st pid "Some p'"]
    by (auto simp: close_def)
  from d consider (tn) "torn hs i pid d" | (m) m where "i \<le> m" "m \<le> length hs" "close C (state_at hs st m pid) d"
    unfolding ahead_def since_def by auto
  then show ?thesis
  proof cases
    case tn
    then obtain g k ev' where k: "d = Some g" "length g = PAGE_SIZE" "i \<le> k" "(pid, ev') \<in> set (touched (fst (snd (hs ! k))))"
      "has_image ev'" "\<forall>j. i \<le> j \<and> j < k \<longrightarrow> \<not> touches hs j pid"
      unfolding torn_def by auto
    have "touches hs i pid"
      using t i(2) by (force simp: touches_def)
    then have "k = i"
      using k(3,6) by (metis le_neq_implies_less order_refl)
    then have "(pid, ev') \<in> set (touched he)"
      using k(4) i(2) by simp
    then have "ev' = ev"
      using t touched_distinct [of he] by (metis eq_key_imp_eq_value)
    then show ?thesis
      using image k by auto
  next
    case m
    obtain pm where pm: "state_at hs st m pid = Some pm" "length pm = PAGE_SIZE"
    proof -
      have "dom (state_at hs st m) = dom (state_at hs st i)"
        using history_states(1) [OF hist m(2)] history_states(1) [OF hist less_imp_le [OF i(1)]] by (simp add: store_ok_def)
      then obtain pm where "state_at hs st m pid = Some pm"
        using P(2) by (metis domD domI)
      then show thesis
        using history_states(1) [OF hist m(2)] that by (auto simp: store_ok_def)
    qed
    obtain q where q: "d = Some q" "heap_page pm \<Longrightarrow> page_sim C pm q" "page_pd_lsn q = page_pd_lsn pm" "length q = PAGE_SIZE"
      using closeD [OF m(3) [unfolded pm(1)]] pm(2) by metis
    show ?thesis
    proof (cases "has_image ev")
      case True
      then show ?thesis
        using image q by auto
    next
      case noimg: False
      then have hp: "heap_page p"
        using touched_heap_page [OF P(5)] by (cases ev) auto
      show ?thesis
      proof (cases "m = i")
        case True
        then have "page_sim C p q"
          using pm(1) P(2) q(2) hp by simp
        from replay_sim [OF noimg lg P(5,4) P(7) [OF lg hp] this] obtain q'
          where "replay pid l ev p q = Ok q'" "page_sim C p' q'"
          by auto
        then show ?thesis
          using P(1,3) q(1) s since_next [OF i(1), of C st pid "Some q'"] by (auto simp: close_def)
      next
        case False
        then have "Suc i \<le> m"
          using m(1) by simp
        from history_lsn_mono [OF hist this m(2) P(3,9)] have "l \<le> page_pd_lsn q"
          using P(10) lg q(3) pm(1) by auto
        then show ?thesis
          using replay_skips [OF noimg] P(1) q(1) s m \<open>Suc i \<le> m\<close> by (auto simp: since_def)
      qed
    qed
  qed
qed

lemma replay_pages_ahead:
  assumes hist: "heap_history C st0 hs st" and i: "i < length hs" "hs ! i = (l, he, s)" and lg: "event_logged he"
  shows "set evs \<subseteq> set (touched he) \<Longrightarrow> distinct (map fst evs) \<Longrightarrow> (\<And>pid. pid \<in> fst ` set evs \<Longrightarrow> ahead C hs st i pid (q pid)) \<Longrightarrow>
    \<exists>q'. replay_pages l s evs q = Ok q' \<and> (\<forall>pid \<in> fst ` set evs. since C hs st (Suc i) pid (q' pid)) \<and>
      (\<forall>pid. pid \<notin> fst ` set evs \<longrightarrow> q' pid = q pid)"
proof (induction evs arbitrary: q)
  case (Cons e evs)
  obtain pid ev where e: "e = (pid, ev)"
    by (cases e)
  have t: "(pid, ev) \<in> set (touched he)" "page_logged ev"
    using Cons.prems(1) e event_logged_touched lg by auto
  obtain p q1 where r: "pid \<noteq> 0" "q pid = Some p" "replay pid l ev (page_at s pid) p = Ok q1" "since C hs st (Suc i) pid (Some q1)"
    using ahead_replay [OF hist i t, of "q pid"] Cons.prems(3) [of pid] e by auto
  have w: "with_page pid (replay pid l ev (page_at s pid)) q = Ok (q(pid \<mapsto> q1))"
    using r by (simp add: with_page_Ok)
  have n: "pid \<notin> fst ` set evs"
    using Cons.prems(2) e by auto
  have "\<exists>q'. replay_pages l s evs (q(pid \<mapsto> q1)) = Ok q' \<and> (\<forall>pid \<in> fst ` set evs. since C hs st (Suc i) pid (q' pid)) \<and>
      (\<forall>k. k \<notin> fst ` set evs \<longrightarrow> q' k = (q(pid \<mapsto> q1)) k)"
    by (rule Cons.IH) (use Cons.prems e n in auto)
  then obtain q' where q': "replay_pages l s evs (q(pid \<mapsto> q1)) = Ok q'"
    "\<forall>pid \<in> fst ` set evs. since C hs st (Suc i) pid (q' pid)" "\<forall>k. k \<notin> fst ` set evs \<longrightarrow> q' k = (q(pid \<mapsto> q1)) k"
    by auto
  then show ?case
    using w r(4) n e by (intro exI [of _ q']) auto
qed simp

text \<open>
  Replaying the records from \<open>i\<close> up to \<open>j\<close> succeeds and leaves every page at least at
  \<open>j\<close>; a page it changes is one the history had since \<open>i\<close>.
\<close>

lemma redo_log_ahead:
  assumes hist: "heap_history C st0 hs st" and j: "j \<le> length hs"
  shows "i \<le> j \<Longrightarrow> (\<And>pid. ahead C hs st i pid (q pid)) \<Longrightarrow>
    \<exists>q'. redo_log (take (j - i) (drop i hs)) q = Ok q' \<and> (\<forall>pid. ahead C hs st j pid (q' pid)) \<and>
      (\<forall>pid. since C hs st i pid (q' pid) \<or> q' pid = q pid)"
proof (induction "j - i" arbitrary: i q)
  case (Suc n)
  then have i: "i < length hs" "i < j"
    using j by simp_all
  obtain l he s where e: "hs ! i = (l, he, s)"
    by (cases "hs ! i") auto
  have "j - i = Suc (j - Suc i)"
    using i by simp
  then have dr: "take (j - i) (drop i hs) = (l, he, s) # take (j - Suc i) (drop (Suc i) hs)"
    using Cons_nth_drop_Suc [OF i(1)] e by (metis take_Suc_Cons)
  have IH: "\<exists>q'. redo_log (take (j - Suc i) (drop (Suc i) hs)) q1 = Ok q' \<and> (\<forall>pid. ahead C hs st j pid (q' pid)) \<and>
      (\<forall>pid. since C hs st i pid (q' pid) \<or> q' pid = q1 pid)"
    if q1: "\<And>pid. ahead C hs st (Suc i) pid (q1 pid)" for q1
    using Suc.hyps(1) [of "Suc i" q1] Suc.hyps(2) i q1 since_Suc by (metis Suc_leI diff_Suc_Suc diff_Suc_1 Suc_diff_Suc)
  have un: "ahead C hs st (Suc i) pid (q pid)" if "pid \<notin> fst ` set (touched he)" for pid
    using ahead_untouched [OF hist i(1) _ Suc.prems(2), of pid] that e by (simp add: touches_def)
  show ?case
  proof (cases "event_logged he")
    case True
    obtain pl where pl: "event_payload s he = Some pl"
    proof (cases "event_payload s he")
      case None
      then obtain pid nx where he: "he = HLink pid nx"
        using True by (cases he) (auto simp: event_logged_def)
      have "(pid, EvLink nx) \<in> set (touched he)"
        using he by simp
      then obtain p p' where "state_at hs st i pid = Some p" "forward pid l (EvLink nx) p = Ok p'"
        using history_touched [OF hist i(1) e] by metis
      then have "\<exists>img. link_page nx (page_at s pid) = Ok img"
        using history_states(2) [OF hist i(1) e] by (auto simp: try_then_Ok_iff)
      then show thesis
        using None he by auto
    qed
    obtain q1 where q1: "replay_pages l s (touched he) q = Ok q1" "\<forall>pid \<in> fst ` set (touched he). since C hs st (Suc i) pid (q1 pid)"
      "\<forall>pid. pid \<notin> fst ` set (touched he) \<longrightarrow> q1 pid = q pid"
      using replay_pages_ahead [OF hist i(1) e True order_refl touched_distinct, of q] Suc.prems(2) by auto
    have a: "ahead C hs st (Suc i) pid (q1 pid)" for pid
      using q1(2,3) un by (cases "pid \<in> fst ` set (touched he)") (auto simp: ahead_def)
    have c: "since C hs st i pid (q1 pid) \<or> q1 pid = q pid" for pid
      using q1(2,3) since_Suc by (cases "pid \<in> fst ` set (touched he)") auto
    have "redo_log (take (j - i) (drop i hs)) q = redo_log (take (j - Suc i) (drop (Suc i) hs)) q1"
      using dr pl q1(1) redo_payload_pages [OF pl, of l q] by simp
    then show ?thesis
      using IH [OF a] c by metis
  next
    case False
    then obtain t x c sh where he: "he = HLock t x c sh"
      by (cases he) (auto simp: event_logged_def split: if_splits)
    have "ahead C hs st (Suc i) pid (q pid)" for pid
    proof (cases "pid \<in> fst ` set (touched he)")
      case True
      then obtain ev where t: "(pid, ev) \<in> set (touched he)"
        by auto
      show ?thesis
        by (rule ahead_lock [OF hist i(1) e t _ Suc.prems(2)]) (use t he in auto)
    qed (rule un)
    from IH [OF this] show ?thesis
      using dr he by simp
  qed
qed simp

lemma survives_ahead: "survives hs st i disk \<Longrightarrow> ahead C hs st i pid (disk pid)"
  unfolding survives_def ahead_def since_def close_def by metis

lemma ahead_end: "ahead C hs st (length hs) pid d \<Longrightarrow> close C (st pid) d"
  by (auto simp: ahead_def since_def torn_def state_at_def)

section \<open>Recovery\<close>

text \<open>
  The pages on disk when recovery starts: those a crash left, or those left when recovery
  itself was interrupted and some of the pages it had replayed were written.
\<close>

inductive crash_disk :: "history \<Rightarrow> page_store \<Rightarrow> nat \<Rightarrow> page_store \<Rightarrow> bool" for hs st i where
  crash: "survives hs st i disk \<Longrightarrow> crash_disk hs st i disk"
| again: "crash_disk hs st i disk \<Longrightarrow>
    (\<And>pid. \<exists>j q. i \<le> j \<and> j \<le> length hs \<and> redo_log (take (j - i) (drop i hs)) disk = Ok q \<and> disk' pid = q pid) \<Longrightarrow>
    crash_disk hs st i disk'"

text \<open>
  The same row: equal column bytes, inserter and successor, and equal visibility for every
  snapshot of a transaction other than those named by the two headers.
\<close>

definition same_row :: "(txn_id \<Rightarrow> txn_state) \<Rightarrow> byte list \<Rightarrow> byte list \<Rightarrow> bool" where
  "same_row clog b b' \<longleftrightarrow> length b = length b' \<and> drop 64 b = drop 64 b' \<and>
    (\<forall>h. th_read_from b = Ok h \<longrightarrow> (\<exists>h'. th_read_from b' = Ok h' \<and> t_xmin h' = t_xmin h \<and> t_ctid h' = t_ctid h \<and>
      (\<forall>snap. current_xid snap \<notin> {t_xmin h, t_xmax h, t_xmax h'} \<longrightarrow>
        row_visible h' snap clog = row_visible h snap clog)))"

definition same_page :: "(txn_id \<Rightarrow> txn_state) \<Rightarrow> page \<Rightarrow> page \<Rightarrow> bool" where
  "same_page clog p q \<longleftrightarrow> heap_page q \<and> slot_count q = slot_count p \<and> next_page q = next_page p \<and>
    (\<forall>slot. rel_option (same_row clog) (page_tuples p slot) (page_tuples q slot))"

lemma header_sim_fields:
  assumes "header_sim C h h'"
  shows "t_xmin h' = t_xmin h" "t_ctid h' = t_ctid h"
proof -
  have core: "header_core h = header_core h'"
    using assms by (simp add: header_sim_def)
  show "t_xmin h' = t_xmin h" "t_ctid h' = t_ctid h"
    using arg_cong [OF core, of t_xmin] arg_cong [OF core, of t_ctid] by (simp_all add: header_core_def)
qed

lemma header_sim_visible:
  assumes "header_sim C h h'" "\<And>x. C x \<longleftrightarrow> clog x = Committed" "current_xid snap \<notin> {t_xmin h, t_xmax h, t_xmax h'}"
  shows "row_visible h' snap clog = row_visible h snap clog"
proof -
  have eff: "effective_xmax C h = effective_xmax C h'" and xm: "t_xmin h' = t_xmin h"
    using assms(1) header_sim_fields [OF assms(1)] by (simp_all add: header_sim_def)
  have seen: "(visibility_xmax g = 0 \<or> \<not> write_seen clog snap (visibility_xmax g) c) \<longleftrightarrow>
      (effective_xmax C g = 0 \<or> \<not> write_seen clog snap (effective_xmax C g) c)"
    if "current_xid snap \<noteq> t_xmax g" for g c
    using that assms(2) by (auto simp: effective_xmax_def visibility_xmax_def write_seen_def in_snapshot_def split: if_splits)
  have cid: "write_seen clog snap x c = write_seen clog snap x d" if "x \<noteq> current_xid snap" for x c d
    using that by (simp add: write_seen_def)
  have "effective_xmax C h = 0 \<or> effective_xmax C h \<noteq> current_xid snap"
    using assms(3) by (auto simp: effective_xmax_def visibility_xmax_def)
  then have "effective_xmax C h = 0 \<or> \<not> write_seen clog snap (effective_xmax C h) (t_cid h) \<longleftrightarrow>
      effective_xmax C h = 0 \<or> \<not> write_seen clog snap (effective_xmax C h) (t_cid h')"
    using cid [of "effective_xmax C h" "t_cid h" "t_cid h'"] by auto
  moreover have "write_seen clog snap (t_xmin h) (t_cid h) = write_seen clog snap (t_xmin h) (t_cid h')"
    using cid [of "t_xmin h" "t_cid h" "t_cid h'"] assms(3) by auto
  moreover have "row_visible g snap clog \<longleftrightarrow> write_seen clog snap (t_xmin g) (t_cid g) \<and>
      (effective_xmax C g = 0 \<or> \<not> write_seen clog snap (effective_xmax C g) (t_cid g))" if "current_xid snap \<noteq> t_xmax g" for g
    using seen [OF that, of "t_cid g"] by (auto simp: row_visible_def is_visible_spec)
  ultimately show "row_visible h' snap clog = row_visible h snap clog"
    using assms(3) eff xm by simp
qed

lemma tuple_sim_row: "tuple_sim C b b' \<Longrightarrow> (\<And>x. C x \<longleftrightarrow> clog x = Committed) \<Longrightarrow> same_row clog b b'"
proof -
  assume t: "tuple_sim C b b'" and C: "\<And>x. C x \<longleftrightarrow> clog x = Committed"
  show "same_row clog b b'"
    unfolding same_row_def
  proof (intro conjI allI impI)
    fix h assume "th_read_from b = Ok h"
    then obtain h' where h': "th_read_from b' = Ok h'" "header_sim C h h'"
      using tuple_sim_read [OF t] by auto
    show "\<exists>h'. th_read_from b' = Ok h' \<and> t_xmin h' = t_xmin h \<and> t_ctid h' = t_ctid h \<and>
      (\<forall>snap. current_xid snap \<notin> {t_xmin h, t_xmax h, t_xmax h'} \<longrightarrow> row_visible h' snap clog = row_visible h snap clog)"
      using h' header_sim_fields [OF h'(2)] header_sim_visible [OF h'(2) C] by auto
  qed (use t in \<open>auto simp: tuple_sim_def\<close>)
qed

lemma close_same_page:
  assumes "close C (Some p) d" "heap_page p" "\<And>x. C x \<longleftrightarrow> clog x = Committed"
  shows "\<exists>q. d = Some q \<and> same_page clog p q"
proof -
  obtain q where q: "d = Some q" "page_sim C p q"
    using closeD [OF assms(1)] assms(2) by metis
  note s = page_simD [OF q(2)] and P = heap_pageD [OF assms(2)]
  have "next_page q = next_page p"
  proof (rule next_page_cong)
    have "bytes_at 8176 8 g = take 8 (bytes_at 8176 16 g)" for g :: page
      by (simp add: bytes_at_def)
    then show "bytes_at (hspecial p) 8 q = bytes_at (hspecial p) 8 p"
      using s(7) P(4) by simp
  qed (use P s heap_pageD [OF s(2)] in \<open>auto simp: geometry_def\<close>)
  moreover have "rel_option (same_row clog) (page_tuples p slot) (page_tuples q slot)" for slot
    by (rule option.rel_mono_strong [OF s(8)]) (use tuple_sim_row assms(3) in blast)
  ultimately show ?thesis
    using q(1) s by (auto simp: same_page_def)
qed

lemma crash_disk_ahead:
  assumes "heap_history C st0 hs st" "i \<le> length hs"
  shows "crash_disk hs st i disk \<Longrightarrow> ahead C hs st i pid (disk pid)"
proof (induction arbitrary: pid rule: crash_disk.induct)
  case (crash disk)
  then show ?case
    by (rule survives_ahead)
next
  case (again disk disk')
  obtain j q where j: "i \<le> j" "j \<le> length hs" "redo_log (take (j - i) (drop i hs)) disk = Ok q" "disk' pid = q pid"
    using again.hyps(2) [of pid] by blast
  then have "since C hs st i pid (q pid) \<or> q pid = disk pid"
    using redo_log_ahead [OF assms(1) j(2,1), of disk] again.IH by auto
  then show ?case
    using again.IH [of pid] j(4) by (auto simp: ahead_def)
qed

text \<open>
  The log as recovery reads it: the records of the logged operations, each with its
  payload encoded by the serialiser and its position in the log.
\<close>

fun heap_record_type :: "wal_payload \<Rightarrow> wal_record_type" where
  "heap_record_type (HeapInsertRecord pid slot bytes) = HeapInsert"
| "heap_record_type (HeapUpdateRecord old new xm bytes) = HeapUpdate"
| "heap_record_type (HeapDeleteRecord t xm) = HeapDelete"
| "heap_record_type (HeapHotUpdateRecord pid old new bytes xm) = HeapHotUpdate"
| "heap_record_type _ = FullPageImage"

fun heap_log :: "bincode \<Rightarrow> history \<Rightarrow> wal_record list \<Rightarrow> bool" where
  "heap_log bc [] rs \<longleftrightarrow> rs = []"
| "heap_log bc ((l, he, st) # hs) rs \<longleftrightarrow>
    (case event_payload st he of
       None \<Rightarrow> heap_log bc hs rs
     | Some pl \<Rightarrow> (case rs of [] \<Rightarrow> False | r # rs' \<Rightarrow>
         (\<exists>xid r0. mk_record bc (heap_record_type pl) xid 0 pl = Ok r0 \<and> r = r0\<lparr> rec_lsn := l \<rparr>) \<and> heap_log bc hs rs'))"

fun redo_records :: "bincode \<Rightarrow> wal_record list \<Rightarrow> page_store \<Rightarrow> heap_error + page_store" where
  "redo_records bc [] q = Ok q"
| "redo_records bc (r # rs) q = try_then (heap_redo bc r q) (redo_records bc rs)"

lemma heap_redo_payload:
  assumes "bincode_ok bc" "event_payload st he = Some pl" "mk_record bc (heap_record_type pl) xid 0 pl = Ok r"
  shows "heap_redo bc (r\<lparr> rec_lsn := l \<rparr>) q = redo_payload l pl q"
proof -
  have t: "record_type r = heap_record_type pl"
    using mk_record_Ok [OF assms(3)] by auto
  have "heap_payload_kind (heap_record_type pl) = Some (kind_of pl)"
    using assms(2) by (cases he) (auto simp: heap_payload_kind_def split: sum.splits)
  then show ?thesis
    using t decode_payload_mk [OF assms(1,3)] by (simp add: heap_redo_def decode_as_def)
qed

lemma redo_records_log:
  "bincode_ok bc \<Longrightarrow> heap_log bc hs rs \<Longrightarrow> redo_records bc rs q = redo_log hs q"
proof (induction hs arbitrary: rs q)
  case (Cons x hs)
  obtain l he st where x: "x = (l, he, st)"
    by (cases x) auto
  show ?case
  proof (cases "event_payload st he")
    case None
    then show ?thesis
      using Cons x by simp
  next
    case (Some pl)
    then obtain r rs' xid r0 where r: "rs = r # rs'" "mk_record bc (heap_record_type pl) xid 0 pl = Ok r0" "r = r0\<lparr> rec_lsn := l \<rparr>"
      "heap_log bc hs rs'"
      using Cons.prems(2) x by (auto split: list.splits)
    have "redo_records bc rs' = redo_log hs"
      by (rule ext) (use Cons.IH [OF Cons.prems(1) r(4)] in simp)
    then show ?thesis
      using heap_redo_payload [OF Cons.prems(1) Some r(2), of l q] r x Some by simp
  qed
qed simp


subsection \<open>An execution\<close>

text \<open>A page is initialised over old bytes and gets one row; the crash tears it.\<close>

definition demo_raw :: page where "demo_raw = replicate 8192 7"

definition demo_init :: page where
  "demo_init = stamp_pd_lsn (init_with_special HEAP_SPECIAL_SIZE demo_raw) 16"

definition demo_row_page :: page where
  "demo_row_page = stamp_pd_lsn (placed 8112 36 0 (replicate 64 0) demo_init) 32"

definition demo_history :: history where
  "demo_history = [(16, HInit 1, [1 \<mapsto> demo_raw]), (32, HInsert 1 (replicate 64 0), [1 \<mapsto> demo_init])]"

lemma demo_init_facts:
  "heap_page demo_init" "page_pd_lsn demo_init = 16" "slot_count demo_init = 0" "hupper demo_init = 8176"
proof -
  let ?p = "init_with_special HEAP_SPECIAL_SIZE demo_raw"
  have l: "length demo_raw = PAGE_SIZE"
    by (simp add: demo_raw_def PAGE_SIZE_def)
  have hp: "heap_page ?p"
    by (rule init_heap_page [OF l])
  have z: "page_pd_lsn ?p = 0" "hupper ?p = 8176"
    using init_header [OF l, of 16] by (simp_all add: HEAP_SPECIAL_SIZE_def)
  have d: "demo_init = set_page_pd_lsn ?p 16"
    using z by (simp add: demo_init_def stamp_pd_lsn_def)
  show "heap_page demo_init" "page_pd_lsn demo_init = 16" "hupper demo_init = 8176"
    using set_lsn_facts [OF hp, of 16] z unfolding d by simp_all
  show "slot_count demo_init = 0"
    using set_lsn_facts(7) [OF hp, of 16] init_page_ok(3) [OF l, of 16] unfolding d by (simp add: HEAP_SPECIAL_SIZE_def)
qed

lemma demo_insert: "add_tuple demo_init (replicate 64 0) = Ok (0, placed 8112 36 0 (replicate 64 0) demo_init)"
proof -
  note d = demo_init_facts and h = heap_pageD [OF demo_init_facts(1)]
  have "lower_after demo_init = 36" "free_slot demo_init = 0"
    using heap_free_slot [OF d(1)] d(3) by (simp_all add: lower_after_def)
  then show ?thesis
    using h(2-4) d(4) by (simp add: add_tuple_eq PAGE_SIZE_def)
qed

lemma demo_heap_history: "heap_history (\<lambda>_. True) [1 \<mapsto> demo_raw] demo_history [1 \<mapsto> demo_row_page]"
proof -
  have l: "length demo_raw = PAGE_SIZE"
    by (simp add: demo_raw_def PAGE_SIZE_def)
  have nh: "\<not> heap_page demo_raw"
  proof
    assume "heap_page demo_raw"
    then have "hspecial demo_raw = 8176"
      by (rule heap_pageD)
    moreover have "replicate 2 7 = [7, 7 :: byte]"
      by (simp add: numeral_2_eq_2)
    then have "hspecial demo_raw = 1799"
      by (simp add: demo_raw_def header_read_from_def get_u16_def bytes_at_def le_u16_def)
    ultimately show False
      by simp
  qed
  have h0: "heap_history (\<lambda>_. True) [1 \<mapsto> demo_raw] [] [1 \<mapsto> demo_raw]"
    by (rule heap_history.start) (use l in \<open>auto split: if_splits\<close>)
  have h1: "heap_history (\<lambda>_. True) [1 \<mapsto> demo_raw] ([] @ [(16, HInit 1, [1 \<mapsto> demo_raw])]) [1 \<mapsto> demo_init]"
    by (rule heap_history.step [OF h0])
      (use l nh in \<open>auto simp: lsn_follows_def with_page_def pin_page_def demo_init_def split: if_splits\<close>)
  have "heap_history (\<lambda>_. True) [1 \<mapsto> demo_raw]
      (([] @ [(16, HInit 1, [1 \<mapsto> demo_raw])]) @ [(32, HInsert 1 (replicate 64 0), [1 \<mapsto> demo_init])]) [1 \<mapsto> demo_row_page]"
    by (rule heap_history.step [OF h1])
      (use nh demo_init_facts demo_insert in
        \<open>auto simp: lsn_follows_def with_page_def pin_page_def append_tuple_def demo_row_page_def split: if_splits\<close>)
  then show ?thesis
    by (simp add: demo_history_def)
qed

text \<open>A serialiser that knows the two records of the execution.\<close>

definition demo_payloads :: "wal_payload list" where
  "demo_payloads = [FullPageImageRecord 1 (init_with_special HEAP_SPECIAL_SIZE demo_raw), HeapInsertRecord 1 0 (replicate 64 0)]"

definition demo_redo_bincode :: bincode where
  "demo_redo_bincode = \<lparr> bin_enc = (\<lambda>p. if p = demo_payloads ! 0 then Some [0] else if p = demo_payloads ! 1 then Some [1] else None),
     bin_dec = (\<lambda>k bs. if bs = [0] then Some (demo_payloads ! 0) else if bs = [1] then Some (demo_payloads ! 1) else None) \<rparr>"

definition demo_records :: "wal_record list" where
  "demo_records = [(record_new FullPageImage [0])\<lparr> rec_lsn := 16 \<rparr>, (record_new HeapInsert [1])\<lparr> rec_lsn := 32, txn_id := 5 \<rparr>]"

lemma demo_redo_bincode_ok: "bincode_ok demo_redo_bincode"
  by (auto simp: bincode_ok_def demo_redo_bincode_def demo_payloads_def)

lemma demo_heap_log: "heap_log demo_redo_bincode demo_history demo_records"
  by (auto simp: demo_history_def demo_records_def mk_record_def demo_redo_bincode_def demo_payloads_def new_slot_def
      record_new_def demo_init_facts)


end
