(* ===== verification/Storage_Meta.thy ===== *)
theory Storage_Meta
  imports Storage_Types Wal_Record
begin

text \<open>
  The metadata files: the superblock with its two copies
  (\<^verbatim>\<open>pg-storage/src/superblock.rs\<close>) and the freelist snapshot
  (\<^verbatim>\<open>pg-storage/src/freelist_meta.rs\<close>).  A file is its bytes; the checksum of the
  crate \<^verbatim>\<open>crc32fast\<close> is a parameter, as in the log.
\<close>

section \<open>The superblock\<close>

definition SUPERBLOCK_MAGIC :: u32 where "SUPERBLOCK_MAGIC = 0x50475253"
definition SUPERBLOCK_VERSION :: u32 where "SUPERBLOCK_VERSION = 2"
definition SUPERBLOCK_VERSION_V1 :: u32 where "SUPERBLOCK_VERSION_V1 = 1"
definition SUPERBLOCK_SIZE :: nat where "SUPERBLOCK_SIZE = 512"
definition SUPERBLOCK_FILE_SIZE :: nat where "SUPERBLOCK_FILE_SIZE = SUPERBLOCK_SIZE * 2"

record superblock =
  sb_version :: u32
  sb_page_size :: u32
  sb_checkpoint_lsn :: lsn
  sb_next_page_id :: page_id
  sb_next_txn_id :: txn_id
  sb_next_oid :: oid
  sb_created_at :: u64

definition superblock_new :: "u32 \<Rightarrow> u64 \<Rightarrow> superblock" where
  "superblock_new page_size now =
    \<lparr> sb_version = SUPERBLOCK_VERSION, sb_page_size = page_size, sb_checkpoint_lsn = 0, sb_next_page_id = 1,
      sb_next_txn_id = 1, sb_next_oid = OID_FIRST_USER, sb_created_at = now \<rparr>"

definition sb_fields :: "superblock \<Rightarrow> byte list" where
  "sb_fields sb =
    (let buf = replicate SUPERBLOCK_SIZE 0;
         buf = put_u32 0 SUPERBLOCK_MAGIC buf;
         buf = put_u32 4 (sb_version sb) buf;
         buf = put_u32 8 (sb_page_size sb) buf;
         buf = put_u32 12 0 buf;
         buf = put_u64 16 (sb_checkpoint_lsn sb) buf;
         buf = put_u64 24 (sb_next_page_id sb) buf;
         buf = put_u64 32 (sb_next_txn_id sb) buf;
         buf = put_u64 40 (sb_next_oid sb) buf
     in put_u64 48 (sb_created_at sb) buf)"

text \<open>The checksum covers everything but its own four bytes.\<close>

definition crc_around :: "(byte list \<Rightarrow> u32) \<Rightarrow> nat \<Rightarrow> byte list \<Rightarrow> u32" where
  "crc_around crc off bs = crc (take off bs @ drop (off + 4) bs)"

definition sb_encode :: "(byte list \<Rightarrow> u32) \<Rightarrow> superblock \<Rightarrow> byte list" where
  "sb_encode crc sb = (let buf = sb_fields sb in put_u32 56 (crc_around crc 56 buf) buf)"

definition decode_v2 :: "(byte list \<Rightarrow> u32) \<Rightarrow> byte list \<Rightarrow> storage_error + superblock" where
  "decode_v2 crc bs =
    (if crc_around crc 56 bs \<noteq> get_u32 bs 56 then Err MetadataCorrupted
     else Ok \<lparr> sb_version = SUPERBLOCK_VERSION, sb_page_size = get_u32 bs 8, sb_checkpoint_lsn = get_u64 bs 16,
       sb_next_page_id = get_u64 bs 24, sb_next_txn_id = get_u64 bs 32, sb_next_oid = get_u64 bs 40,
       sb_created_at = get_u64 bs 48 \<rparr>)"

definition decode_v1 :: "(byte list \<Rightarrow> u32) \<Rightarrow> byte list \<Rightarrow> storage_error + superblock" where
  "decode_v1 crc bs =
    (if crc_around crc 48 bs \<noteq> get_u32 bs 48 then Err MetadataCorrupted
     else Ok \<lparr> sb_version = SUPERBLOCK_VERSION, sb_page_size = get_u32 bs 8, sb_checkpoint_lsn = get_u64 bs 16,
       sb_next_page_id = get_u64 bs 24, sb_next_txn_id = get_u64 bs 32, sb_next_oid = OID_FIRST_USER,
       sb_created_at = get_u64 bs 40 \<rparr>)"

definition sb_decode :: "(byte list \<Rightarrow> u32) \<Rightarrow> byte list \<Rightarrow> storage_error + superblock \<times> bool" where
  "sb_decode crc bs =
    (if length bs \<noteq> SUPERBLOCK_SIZE then Err MetadataCorrupted
     else if get_u32 bs 0 \<noteq> SUPERBLOCK_MAGIC then Err MetadataCorrupted
     else if get_u32 bs 4 = SUPERBLOCK_VERSION then try_then (decode_v2 crc bs) (\<lambda>sb. Ok (sb, False))
     else if get_u32 bs 4 = SUPERBLOCK_VERSION_V1 then try_then (decode_v1 crc bs) (\<lambda>sb. Ok (sb, True))
     else Err MetadataCorrupted)"

definition read_with_offset :: "(byte list \<Rightarrow> u32) \<Rightarrow> byte list \<Rightarrow> storage_error + superblock \<times> nat \<times> bool" where
  "read_with_offset crc f =
    (if length f < SUPERBLOCK_FILE_SIZE then Err Io
     else case (sb_decode crc (bytes_at 0 SUPERBLOCK_SIZE f), sb_decode crc (bytes_at SUPERBLOCK_SIZE SUPERBLOCK_SIZE f)) of
       (Inr (a, ma), Inr (b, mb)) \<Rightarrow>
         if sb_checkpoint_lsn b > sb_checkpoint_lsn a then Ok (b, SUPERBLOCK_SIZE, ma \<or> mb) else Ok (a, 0, ma \<or> mb)
     | (Inr (a, ma), Inl _) \<Rightarrow> Ok (a, 0, ma)
     | (Inl _, Inr (b, mb)) \<Rightarrow> Ok (b, SUPERBLOCK_SIZE, mb)
     | (Inl _, Inl _) \<Rightarrow> Err MetadataCorrupted)"

text \<open>Writing at an offset extends a short file with zeros.\<close>

definition file_write :: "nat \<Rightarrow> byte list \<Rightarrow> byte list \<Rightarrow> byte list" where
  "file_write off bs f = take off (f @ replicate (off - length f) 0) @ bs @ drop (off + length bs) f"

definition write_copy :: "(byte list \<Rightarrow> u32) \<Rightarrow> nat \<Rightarrow> superblock \<Rightarrow> byte list \<Rightarrow> byte list" where
  "write_copy crc off sb f = file_write off (sb_encode crc sb) f"

definition write_both_copies :: "(byte list \<Rightarrow> u32) \<Rightarrow> superblock \<Rightarrow> byte list \<Rightarrow> byte list" where
  "write_both_copies crc sb f = write_copy crc SUPERBLOCK_SIZE sb (write_copy crc 0 sb f)"

definition superblock_create :: "(byte list \<Rightarrow> u32) \<Rightarrow> u32 \<Rightarrow> u64 \<Rightarrow> superblock \<times> byte list" where
  "superblock_create crc page_size now =
    (let sb = superblock_new page_size now in (sb, write_copy crc SUPERBLOCK_SIZE sb (write_copy crc 0 sb [])))"

definition superblock_read :: "(byte list \<Rightarrow> u32) \<Rightarrow> byte list \<Rightarrow> (storage_error + superblock) \<times> byte list" where
  "superblock_read crc f =
    (case read_with_offset crc f of
       Inl e \<Rightarrow> (Err e, f)
     | Inr (sb, _, migrated) \<Rightarrow> (Ok sb, if migrated then write_both_copies crc sb f else f))"

definition inactive_offset :: "nat \<Rightarrow> nat" where
  "inactive_offset active = (if active = 0 then SUPERBLOCK_SIZE else 0)"

definition superblock_write :: "(byte list \<Rightarrow> u32) \<Rightarrow> superblock \<Rightarrow> byte list \<Rightarrow> storage_error + byte list" where
  "superblock_write crc sb f =
    (case read_with_offset crc f of
       Inl _ \<Rightarrow> Ok (write_both_copies crc sb f)
     | Inr (current, active, _) \<Rightarrow>
         if sb_checkpoint_lsn sb \<le> sb_checkpoint_lsn current then Err CheckpointFailed
         else Ok (write_copy crc (inactive_offset active) sb f))"

section \<open>The freelist snapshot\<close>

definition CRC_SIZE :: nat where "CRC_SIZE = 4"
definition BODY_HEADER_SIZE :: nat where "BODY_HEADER_SIZE = 16"

record freelist_meta =
  fm_checkpoint_lsn :: lsn
  fm_page_ids :: "page_id list"

definition freelist_body :: "freelist_meta \<Rightarrow> byte list" where
  "freelist_body m = u64_le (fm_checkpoint_lsn m) @ u64_le (of_nat (length (fm_page_ids m))) @ concat (map u64_le (fm_page_ids m))"

definition freelist_encode :: "(byte list \<Rightarrow> u32) \<Rightarrow> freelist_meta \<Rightarrow> byte list" where
  "freelist_encode crc m = (let body = freelist_body m in u32_le (crc body) @ body)"

text \<open>The count is a 64-bit word and the expected length is computed with wrap-around; \<open>None\<close> is the panic
  of the allocation or the slice when a wrapped length passes the test.\<close>

definition freelist_decode :: "(byte list \<Rightarrow> u32) \<Rightarrow> byte list \<Rightarrow> (storage_error + freelist_meta) option" where
  "freelist_decode crc bs =
    (if length bs < CRC_SIZE + BODY_HEADER_SIZE then Some (Err MetadataCorrupted)
     else let body = drop CRC_SIZE bs; count = get_u64 body 8 in
       if get_u32 bs 0 \<noteq> crc body then Some (Err MetadataCorrupted)
       else if of_nat (length body) \<noteq> (of_nat BODY_HEADER_SIZE + count * 8 :: u64) then Some (Err MetadataCorrupted)
       else if length body < BODY_HEADER_SIZE + unat count * 8 then None
       else Some (Ok \<lparr> fm_checkpoint_lsn = get_u64 body 0,
         fm_page_ids = map (\<lambda>i. get_u64 body (BODY_HEADER_SIZE + i * 8)) [0 ..< unat count] \<rparr>))"

section \<open>Round trips\<close>

lemma length_sb_fields [simp]: "length (sb_fields sb) = 512"
  by (simp add: sb_fields_def Let_def SUPERBLOCK_SIZE_def)

lemma sb_fields_facts:
  "get_u32 (sb_fields sb) 0 = SUPERBLOCK_MAGIC" "get_u32 (sb_fields sb) 4 = sb_version sb"
  "get_u32 (sb_fields sb) 8 = sb_page_size sb" "get_u64 (sb_fields sb) 16 = sb_checkpoint_lsn sb"
  "get_u64 (sb_fields sb) 24 = sb_next_page_id sb" "get_u64 (sb_fields sb) 32 = sb_next_txn_id sb"
  "get_u64 (sb_fields sb) 40 = sb_next_oid sb" "get_u64 (sb_fields sb) 48 = sb_created_at sb"
  by (simp_all add: sb_fields_def Let_def SUPERBLOCK_SIZE_def buf_simps del: length_puts)

lemma crc_around_put:
  assumes "off + 4 \<le> length bs"
  shows "crc_around crc off (put_u32 off c bs) = crc_around crc off bs"
  using assms by (simp add: crc_around_def put_u32_def put_at_def)

lemma sb_encode_facts:
  "length (sb_encode crc sb) = 512" "get_u32 (sb_encode crc sb) 56 = crc_around crc 56 (sb_encode crc sb)"
  "off + 4 \<le> 56 \<Longrightarrow> get_u32 (sb_encode crc sb) off = get_u32 (sb_fields sb) off"
  "off + 8 \<le> 56 \<Longrightarrow> get_u64 (sb_encode crc sb) off = get_u64 (sb_fields sb) off"
  by (simp_all add: sb_encode_def Let_def crc_around_put buf_simps)

lemma sb_decode_encode: "sb_version sb = SUPERBLOCK_VERSION \<Longrightarrow> sb_decode crc (sb_encode crc sb) = Ok (sb, False)"
  by (simp add: sb_decode_def decode_v2_def sb_encode_facts sb_fields_facts SUPERBLOCK_SIZE_def)

lemma length_file_write:
  "off \<le> length f \<Longrightarrow> off + length bs \<le> length f \<Longrightarrow> length (file_write off bs f) = length f"
  by (simp add: file_write_def)

lemma bytes_at_file_write:
  assumes "off + length bs \<le> length f"
  shows "bytes_at off (length bs) (file_write off bs f) = bs"
    "o2 + n \<le> off \<or> off + length bs \<le> o2 \<Longrightarrow> bytes_at o2 n (file_write off bs f) = bytes_at o2 n f"
proof -
  have "file_write off bs f = put_at off bs f"
    using assms by (simp add: file_write_def put_at_def)
  then show "bytes_at off (length bs) (file_write off bs f) = bs"
    "o2 + n \<le> off \<or> off + length bs \<le> o2 \<Longrightarrow> bytes_at o2 n (file_write off bs f) = bytes_at o2 n f"
    using assms by (auto simp: buf_simps)
qed

text \<open>The two copies of a file and which one \<open>read_with_offset\<close> takes.\<close>

lemma read_with_offset_cases:
  assumes "read_with_offset crc f = Ok (sb, active, m)"
  shows "active = 0 \<or> active = SUPERBLOCK_SIZE" "\<exists>m'. sb_decode crc (bytes_at active SUPERBLOCK_SIZE f) = Ok (sb, m')"
    "SUPERBLOCK_FILE_SIZE \<le> length f"
    "sb_decode crc (bytes_at (inactive_offset active) SUPERBLOCK_SIZE f) = Ok (sb', m'') \<Longrightarrow>
      sb_checkpoint_lsn sb' \<le> sb_checkpoint_lsn sb"
  using assms by (auto simp: read_with_offset_def inactive_offset_def SUPERBLOCK_SIZE_def split: if_splits sum.splits)

lemma read_with_offset_active:
  assumes "SUPERBLOCK_FILE_SIZE \<le> length f" "active = 0 \<or> active = SUPERBLOCK_SIZE"
    "sb_decode crc (bytes_at active SUPERBLOCK_SIZE f) = Ok (sb, m)"
    "\<And>sb' m'. sb_decode crc (bytes_at (inactive_offset active) SUPERBLOCK_SIZE f) = Ok (sb', m') \<Longrightarrow>
      sb_checkpoint_lsn sb' < sb_checkpoint_lsn sb \<or> sb' = sb"
  shows "\<exists>active m. read_with_offset crc f = Ok (sb, active, m)"
  using assms
  by (cases "sb_decode crc (bytes_at 0 SUPERBLOCK_SIZE f)"; cases "sb_decode crc (bytes_at SUPERBLOCK_SIZE SUPERBLOCK_SIZE f)")
    (auto simp: read_with_offset_def inactive_offset_def SUPERBLOCK_SIZE_def not_less dest: order.strict_trans2 split: if_splits)

lemma superblock_read_Ok: "read_with_offset crc f = Ok (sb, a, m) \<Longrightarrow> fst (superblock_read crc f) = Ok sb"
  by (simp add: superblock_read_def)

text \<open>Writing the inactive copy, in full or torn.\<close>

lemma inactive_copy:
  assumes "read_with_offset crc f = Ok (cur, active, migrated)" "length f = SUPERBLOCK_FILE_SIZE" "length bs = SUPERBLOCK_SIZE"
  shows "bytes_at active SUPERBLOCK_SIZE (file_write (inactive_offset active) bs f) = bytes_at active SUPERBLOCK_SIZE f"
    "bytes_at (inactive_offset active) SUPERBLOCK_SIZE (file_write (inactive_offset active) bs f) = bs"
    "length (file_write (inactive_offset active) bs f) = SUPERBLOCK_FILE_SIZE"
    "inactive_offset (inactive_offset active) = active" "inactive_offset active = 0 \<or> inactive_offset active = SUPERBLOCK_SIZE"
proof -
  let ?i = "inactive_offset active"
  note c = read_with_offset_cases(1) [OF assms(1)]
  have off: "?i + 512 \<le> length f" "active + 512 \<le> ?i \<or> ?i + 512 \<le> active"
    using c assms(2) by (auto simp: inactive_offset_def SUPERBLOCK_SIZE_def SUPERBLOCK_FILE_SIZE_def)
  then show "bytes_at active SUPERBLOCK_SIZE (file_write ?i bs f) = bytes_at active SUPERBLOCK_SIZE f"
    "bytes_at ?i SUPERBLOCK_SIZE (file_write ?i bs f) = bs" "length (file_write ?i bs f) = SUPERBLOCK_FILE_SIZE"
    using bytes_at_file_write [of ?i bs f] length_file_write [of ?i f bs] assms(2,3) by (auto simp: SUPERBLOCK_SIZE_def)
  show "inactive_offset ?i = active" "?i = 0 \<or> ?i = SUPERBLOCK_SIZE"
    using c by (auto simp: inactive_offset_def SUPERBLOCK_SIZE_def)
qed

lemma superblock_write_ok:
  assumes "read_with_offset crc f = Ok (cur, active, migrated)" "length f = SUPERBLOCK_FILE_SIZE"
    "sb_version sb = SUPERBLOCK_VERSION" "superblock_write crc sb f = r"
  shows "if sb_checkpoint_lsn cur < sb_checkpoint_lsn sb
    then r = Ok (write_copy crc (inactive_offset active) sb f) \<and>
      fst (superblock_read crc (write_copy crc (inactive_offset active) sb f)) = Ok sb
    else r = Err CheckpointFailed"
proof -
  let ?i = "inactive_offset active" and ?f' = "write_copy crc (inactive_offset active) sb f"
  obtain m where act: "sb_decode crc (bytes_at active SUPERBLOCK_SIZE f) = Ok (cur, m)"
    using read_with_offset_cases(2) [OF assms(1)] by blast
  have len: "length (sb_encode crc sb) = SUPERBLOCK_SIZE"
    by (simp add: sb_encode_facts SUPERBLOCK_SIZE_def)
  note ic = inactive_copy [OF assms(1,2) len]
  have "\<exists>a m. read_with_offset crc ?f' = Ok (sb, a, m)" if "sb_checkpoint_lsn cur < sb_checkpoint_lsn sb"
    by (rule read_with_offset_active [of _ ?i])
      (use ic act that in \<open>auto simp: write_copy_def sb_decode_encode assms(3)\<close>)
  then show ?thesis
    using assms(1,4) superblock_read_Ok [of crc ?f' sb] by (auto simp: superblock_write_def)
qed

lemma superblock_torn_write:
  assumes "read_with_offset crc f = Ok (cur, active, migrated)" "length f = SUPERBLOCK_FILE_SIZE"
    "length torn = SUPERBLOCK_SIZE" "sb_decode crc torn = Err e"
  shows "fst (superblock_read crc (file_write (inactive_offset active) torn f)) = Ok cur"
proof -
  note c = read_with_offset_cases [OF assms(1)] and ic = inactive_copy [OF assms(1-3)]
  obtain m where act: "sb_decode crc (bytes_at active SUPERBLOCK_SIZE f) = Ok (cur, m)"
    using c(2) by blast
  have "\<exists>a m. read_with_offset crc (file_write (inactive_offset active) torn f) = Ok (cur, a, m)"
    by (rule read_with_offset_active [of _ active]) (use ic c(1) act assms(4) in auto)
  then show ?thesis
    using superblock_read_Ok by blast
qed


lemma demo_superblock:
  "read_with_offset (\<lambda>_. 1) (snd (superblock_create (\<lambda>_. 1) 8192 5)) = Ok (superblock_new 8192 5, 0, False)"
  "length (snd (superblock_create (\<lambda>_. 1) 8192 5)) = SUPERBLOCK_FILE_SIZE"
proof -
  let ?e = "sb_encode (\<lambda>_. 1) (superblock_new 8192 5)"
  have f: "snd (superblock_create (\<lambda>_. 1) 8192 5) = ?e @ ?e"
    by (simp add: superblock_create_def Let_def write_copy_def file_write_def sb_encode_facts SUPERBLOCK_SIZE_def)
  have "sb_decode (\<lambda>_. 1) ?e = Ok (superblock_new 8192 5, False)"
    by (rule sb_decode_encode) (simp add: superblock_new_def)
  then show "read_with_offset (\<lambda>_. 1) (snd (superblock_create (\<lambda>_. 1) 8192 5)) = Ok (superblock_new 8192 5, 0, False)"
    "length (snd (superblock_create (\<lambda>_. 1) 8192 5)) = SUPERBLOCK_FILE_SIZE"
    by (simp_all add: f read_with_offset_def bytes_at_def sb_encode_facts SUPERBLOCK_SIZE_def SUPERBLOCK_FILE_SIZE_def)
qed


section \<open>The freelist snapshot survives its file\<close>

lemma bytes_at_concat_u64:
  "i < length xs \<Longrightarrow> bytes_at (i * 8) 8 (concat (map u64_le xs)) = u64_le (xs ! i)"
proof (induction xs arbitrary: i)
  case (Cons x xs)
  then show ?case
    by (cases i) (simp_all add: bytes_at_def)
qed simp

lemma length_concat_u64: "length (concat (map u64_le xs)) = length xs * 8"
  by (induction xs) simp_all

lemma freelist_decode_encode:
  assumes "length (fm_page_ids m) < 2 ^ 61"
  shows "freelist_decode crc (freelist_encode crc m) = Some (Ok m)"
proof -
  let ?b = "freelist_body m" and ?n = "length (fm_page_ids m)"
  have n: "unat (of_nat ?n :: u64) = ?n"
    using assms by (simp add: unat_of_nat)
  have len: "length ?b = 16 + ?n * 8"
    by (simp add: freelist_body_def length_concat_u64)
  have body: "get_u64 ?b 0 = fm_checkpoint_lsn m" "get_u64 ?b 8 = of_nat ?n"
    by (simp_all add: freelist_body_def get_u64_def bytes_at_def)
  have "get_u64 ?b (16 + i * 8) = fm_page_ids m ! i" if "i < ?n" for i
  proof -
    have "drop (16 + i * 8) ?b = drop (i * 8) (concat (map u64_le (fm_page_ids m)))"
      by (simp add: freelist_body_def)
    then show ?thesis
      using bytes_at_concat_u64 [OF that] by (simp add: get_u64_def bytes_at_def)
  qed
  then have "map (\<lambda>i. get_u64 ?b (16 + i * 8)) [0 ..< ?n] = fm_page_ids m"
    by (intro nth_equalityI) simp_all
  then show ?thesis
    using len body n
    by (simp add: freelist_decode_def freelist_encode_def Let_def CRC_SIZE_def BODY_HEADER_SIZE_def get_u32_def bytes_at_def)
qed

end
