(* ===== verification/Buffer_Pool.thy ===== *)
theory Buffer_Pool
  imports Slotted_Page Wal_Writer
begin

text \<open>
  The buffer pool (\<^verbatim>\<open>pg-storage/src/buffer_pool.rs\<close>): frames with their metadata, the page
  table, the clock sweep, loading and eviction, flushing with the WAL flushed first, the
  page image logged before the first change after a checkpoint, and the guards.
  Every operation is a function on the pool; flushing is composed of the sections that
  the code separates by its locks.  The sharding of the page table does not change
  what is mapped and is left out, as are the spurious failures of \<open>try_lock\<close>.
\<close>

section \<open>State\<close>

record frame =
  fr_page_id :: page_id
  fr_pin_count :: nat
  fr_dirty :: bool
  fr_reference :: bool
  fr_cached_lsn :: lsn
  fr_first_dirty_lsn :: lsn
  fr_needs_fpi :: bool
  fr_evicting :: bool
  fr_flushing :: bool
  fr_content :: page

definition frame_default :: frame where
  "frame_default = \<lparr> fr_page_id = 0, fr_pin_count = 0, fr_dirty = False, fr_reference = False, fr_cached_lsn = 0,
     fr_first_dirty_lsn = 0, fr_needs_fpi = False, fr_evicting = False, fr_flushing = False,
     fr_content = replicate PAGE_SIZE 0 \<rparr>"

text \<open>
  The data file as last written and as last synced: a crash can lose what was written since.
  The write-ahead log is an argument of the operations.
\<close>

record 'w pool =
  bp_frames :: "frame list"
  bp_table :: "page_id \<Rightarrow> nat option"
  bp_hand :: nat
  bp_checkpoint_lsn :: lsn
  bp_flush_gen :: nat
  bp_synced_gen :: nat
  bp_file :: "page_id \<Rightarrow> page option"
  bp_disk :: "page_id \<Rightarrow> page option"
  bp_wal :: 'w

record 'w wal_ops =
  wo_append :: "'w \<Rightarrow> wal_record \<Rightarrow> (storage_error + nat) \<times> 'w"
  wo_flush_to :: "'w \<Rightarrow> nat \<Rightarrow> (storage_error + unit) \<times> 'w"
  wo_current :: "'w \<Rightarrow> nat"
  wo_synced :: "'w \<Rightarrow> nat"

text \<open>Which file operations succeed.\<close>

record pool_io =
  read_ok :: "page_id \<Rightarrow> bool"
  write_ok :: "page_id \<Rightarrow> bool"
  sync_ok :: bool

definition pool_open :: "nat \<Rightarrow> (page_id \<Rightarrow> page option) \<Rightarrow> 'w \<Rightarrow> 'w pool" where
  "pool_open frame_count file w =
    \<lparr> bp_frames = replicate frame_count frame_default, bp_table = Map.empty, bp_hand = 0, bp_checkpoint_lsn = 0,
      bp_flush_gen = 0, bp_synced_gen = 0, bp_file = file, bp_disk = file, bp_wal = w \<rparr>"

definition set_checkpoint_lsn :: "lsn \<Rightarrow> 'w pool \<Rightarrow> 'w pool" where
  "set_checkpoint_lsn l p = p\<lparr> bp_checkpoint_lsn := l \<rparr>"

definition frame_at :: "'w pool \<Rightarrow> nat \<Rightarrow> frame" where
  "frame_at p f = bp_frames p ! f"

definition upd_frame :: "nat \<Rightarrow> (frame \<Rightarrow> frame) \<Rightarrow> 'w pool \<Rightarrow> 'w pool" where
  "upd_frame f g p = p\<lparr> bp_frames := (bp_frames p)[f := g (bp_frames p ! f)] \<rparr>"

section \<open>Flushing a frame\<close>

definition restore_first_dirty_lsn :: "lsn \<Rightarrow> lsn \<Rightarrow> lsn" where
  "restore_first_dirty_lsn current saved =
    (if lsn_is_valid saved \<and> (current = 0 \<or> saved < current) then saved else current)"

text \<open>Claiming the dirty epoch: the page and its first-dirty anchor, if there is something to do.\<close>

definition flush_claim :: "nat \<Rightarrow> 'w pool \<Rightarrow> (page_id \<times> lsn) option \<times> 'w pool" where
  "flush_claim f p =
    (let m = frame_at p f in
     if \<not> fr_dirty m \<or> fr_page_id m = 0 then (None, p)
     else (Some (fr_page_id m, fr_first_dirty_lsn m),
           upd_frame f (\<lambda>m. m\<lparr> fr_flushing := True, fr_dirty := False, fr_first_dirty_lsn := 0 \<rparr>) p))"

definition flush_fail :: "nat \<Rightarrow> lsn \<Rightarrow> 'w pool \<Rightarrow> 'w pool" where
  "flush_fail f saved p = upd_frame f (\<lambda>m. m\<lparr> fr_dirty := True,
     fr_first_dirty_lsn := restore_first_dirty_lsn (fr_first_dirty_lsn m) saved, fr_flushing := False \<rparr>) p"

definition flush_wal :: "'w wal_ops \<Rightarrow> nat \<Rightarrow> 'w pool \<Rightarrow> (storage_error + unit) \<times> 'w pool" where
  "flush_wal ops f p =
    (let page_lsn = page_pd_lsn (fr_content (frame_at p f)) in
     if lsn_is_valid page_lsn \<and> unat page_lsn \<le> wo_current ops (bp_wal p) \<and> wo_synced ops (bp_wal p) < unat page_lsn
     then (case wo_flush_to ops (bp_wal p) (unat page_lsn) of (r, w) \<Rightarrow> (r, p\<lparr> bp_wal := w \<rparr>))
     else (Ok (), p))"

definition flush_write :: "pool_io \<Rightarrow> nat \<Rightarrow> page_id \<Rightarrow> 'w pool \<Rightarrow> (storage_error + nat) \<times> 'w pool" where
  "flush_write io f pid p =
    (if \<not> write_ok io pid then (Err Io, p)
     else (Ok (bp_flush_gen p + 1),
           upd_frame f (\<lambda>m. m\<lparr> fr_needs_fpi := True \<rparr>)
             (p\<lparr> bp_file := (bp_file p)(pid \<mapsto> fr_content (frame_at p f)), bp_flush_gen := bp_flush_gen p + 1 \<rparr>)))"

definition flush_sync :: "pool_io \<Rightarrow> nat \<Rightarrow> 'w pool \<Rightarrow> (storage_error + unit) \<times> 'w pool" where
  "flush_sync io my_gen p =
    (if bp_synced_gen p < my_gen then
       (if \<not> sync_ok io then (Err Io, p)
        else (Ok (), p\<lparr> bp_disk := bp_file p, bp_synced_gen := max (bp_synced_gen p) (bp_flush_gen p) \<rparr>))
     else (Ok (), p))"

definition flush_finish :: "nat \<Rightarrow> 'w pool \<Rightarrow> 'w pool" where
  "flush_finish f p = upd_frame f (\<lambda>m. m\<lparr> fr_flushing := False \<rparr>) p"

definition flush_frame :: "'w wal_ops \<Rightarrow> pool_io \<Rightarrow> nat \<Rightarrow> 'w pool \<Rightarrow> (storage_error + unit) \<times> 'w pool" where
  "flush_frame ops io f p =
    (case flush_claim f p of
       (None, p) \<Rightarrow> (Ok (), p)
     | (Some (pid, saved), p) \<Rightarrow>
         (case flush_wal ops f p of
            (Inl e, p) \<Rightarrow> (Err e, flush_fail f saved p)
          | (Inr _, p) \<Rightarrow>
              (case flush_write io f pid p of
                 (Inl e, p) \<Rightarrow> (Err e, flush_fail f saved p)
               | (Inr my_gen, p) \<Rightarrow>
                   (case flush_sync io my_gen p of
                      (Inl e, p) \<Rightarrow> (Err e, flush_fail f saved p)
                    | (Inr _, p) \<Rightarrow> (Ok (), flush_finish f p)))))"

section \<open>Eviction and loading\<close>

text \<open>The clock sweep, with the scans left; each looks at one frame.\<close>

fun evict_loop :: "'w wal_ops \<Rightarrow> pool_io \<Rightarrow> nat \<Rightarrow> 'w pool \<Rightarrow> (storage_error + nat) \<times> 'w pool" where
  "evict_loop ops io 0 p = (Err BufferPoolFull, p)"
| "evict_loop ops io (Suc n) p =
    (let hand = bp_hand p mod length (bp_frames p); p = p\<lparr> bp_hand := bp_hand p + 1 \<rparr>; m = frame_at p hand in
     if fr_pin_count m > 0 \<or> fr_evicting m then evict_loop ops io n p
     else if fr_reference m then evict_loop ops io n (upd_frame hand (\<lambda>m. m\<lparr> fr_reference := False \<rparr>) p)
     else
       let p = upd_frame hand (\<lambda>m. m\<lparr> fr_evicting := True \<rparr>) p in
       case (if fr_dirty m \<and> fr_page_id m \<noteq> 0 then flush_frame ops io hand p else (Ok (), p)) of
         (Inl e, p) \<Rightarrow> (Err e, upd_frame hand (\<lambda>m. m\<lparr> fr_evicting := False \<rparr>) p)
       | (Inr _, p) \<Rightarrow>
           (Ok hand,
            upd_frame hand (\<lambda>m. frame_default\<lparr> fr_content := fr_content m \<rparr>)
              (if fr_page_id m \<noteq> 0 then p\<lparr> bp_table := (bp_table p)(fr_page_id m := None) \<rparr> else p)))"

definition evict_frame :: "'w wal_ops \<Rightarrow> pool_io \<Rightarrow> 'w pool \<Rightarrow> (storage_error + nat) \<times> 'w pool" where
  "evict_frame ops io p =
    (if bp_frames p = [] then (Err BufferPoolFull, p) else evict_loop ops io (length (bp_frames p) * 2) p)"

definition try_pin_resident :: "page_id \<Rightarrow> 'w pool \<Rightarrow> (nat \<times> 'w pool) option" where
  "try_pin_resident pid p =
    (case bp_table p pid of
       None \<Rightarrow> None
     | Some f \<Rightarrow>
         if fr_page_id (frame_at p f) \<noteq> pid \<or> fr_evicting (frame_at p f) then None
         else Some (f, upd_frame f (\<lambda>m. m\<lparr> fr_pin_count := fr_pin_count m + 1, fr_reference := True \<rparr>) p))"

definition read_page_from_disk :: "pool_io \<Rightarrow> page_id \<Rightarrow> nat \<Rightarrow> 'w pool \<Rightarrow> (storage_error + unit) \<times> 'w pool" where
  "read_page_from_disk io pid f p =
    (case bp_file p pid of
       Some pg \<Rightarrow> if read_ok io pid then (Ok (), upd_frame f (\<lambda>m. m\<lparr> fr_content := pg \<rparr>) p) else (Err Io, p)
     | None \<Rightarrow> (Err Io, p))"

text \<open>
  \<open>alloc_frame\<close>.  The loop at its start waits for the lock of a resident frame; without
  contention a page in the table is pinned at once.
\<close>

definition alloc_frame :: "'w wal_ops \<Rightarrow> pool_io \<Rightarrow> page_id \<Rightarrow> bool \<Rightarrow> 'w pool \<Rightarrow> (storage_error + nat) \<times> 'w pool" where
  "alloc_frame ops io pid load p =
    (case try_pin_resident pid p of
       Some (f, p) \<Rightarrow> (Ok f, p)
     | None \<Rightarrow>
         (case evict_frame ops io p of
            (Inl e, p) \<Rightarrow> (Err e, p)
          | (Inr f, p) \<Rightarrow>
              let p = upd_frame f (\<lambda>m. m\<lparr> fr_content := replicate PAGE_SIZE 0 \<rparr>) p in
              (case (if load then read_page_from_disk io pid f p else (Ok (), p)) of
                 (Inl e, p) \<Rightarrow> (Err e, p)
               | (Inr _, p) \<Rightarrow>
                   let p = upd_frame f (\<lambda>m. m\<lparr> fr_page_id := pid, fr_pin_count := 1, fr_reference := True, fr_dirty := False,
                         fr_cached_lsn := page_pd_lsn (fr_content m), fr_first_dirty_lsn := 0, fr_needs_fpi := True \<rparr>) p
                   in (Ok f, p\<lparr> bp_table := (bp_table p)(pid \<mapsto> f) \<rparr>))))"

definition locate_or_load :: "'w wal_ops \<Rightarrow> pool_io \<Rightarrow> page_id \<Rightarrow> 'w pool \<Rightarrow> (storage_error + nat) \<times> 'w pool" where
  "locate_or_load ops io pid p =
    (case try_pin_resident pid p of Some (f, p) \<Rightarrow> (Ok f, p) | None \<Rightarrow> alloc_frame ops io pid True p)"

section \<open>Guards\<close>

definition unpin :: "nat \<Rightarrow> 'w pool \<Rightarrow> 'w pool" where
  "unpin f p = upd_frame f (\<lambda>m. m\<lparr> fr_pin_count := fr_pin_count m - 1 \<rparr>) p"

definition drop_guard_mut :: "nat \<Rightarrow> 'w pool \<Rightarrow> 'w pool" where
  "drop_guard_mut f p =
    unpin f (upd_frame f (\<lambda>m. if fr_page_id m \<noteq> 0
      then m\<lparr> fr_first_dirty_lsn := (if fr_first_dirty_lsn m = 0 then page_pd_lsn (fr_content m) else fr_first_dirty_lsn m),
              fr_dirty := True \<rparr> else m) p)"

definition pin :: "'w wal_ops \<Rightarrow> pool_io \<Rightarrow> page_id \<Rightarrow> 'w pool \<Rightarrow> (storage_error + nat) \<times> 'w pool" where
  "pin ops io pid p = (if pid = 0 then (Err InvalidConfig, p) else locate_or_load ops io pid p)"

definition pin_mut_without_fpi ::
  "'w wal_ops \<Rightarrow> pool_io \<Rightarrow> page_id \<Rightarrow> 'w pool \<Rightarrow> (storage_error + nat) \<times> 'w pool" where
  "pin_mut_without_fpi ops io pid p =
    (if pid = 0 then (Err InvalidConfig, p)
     else case locate_or_load ops io pid p of
       (Inl e, p) \<Rightarrow> (Err e, p)
     | (Inr f, p) \<Rightarrow> (Ok f, upd_frame f (\<lambda>m. m\<lparr> fr_dirty := True \<rparr>) p))"

definition ensure_fpi ::
  "bincode \<Rightarrow> 'w wal_ops \<Rightarrow> nat \<Rightarrow> page_id \<Rightarrow> 'w pool \<Rightarrow> (storage_error + unit) \<times> 'w pool" where
  "ensure_fpi bc ops f pid p =
    (let m = frame_at p f in
     if \<not> (fr_needs_fpi m \<and> lsn_is_valid (bp_checkpoint_lsn p) \<and> page_pd_lsn (fr_content m) < bp_checkpoint_lsn p)
     then (Ok (), p)
     else case full_page_image bc pid (fr_content m) of
       Inl e \<Rightarrow> (Err e, p)
     | Inr r \<Rightarrow>
         (case wo_append ops (bp_wal p) r of
            (Inl e, w) \<Rightarrow> (Err e, p\<lparr> bp_wal := w \<rparr>)
          | (Inr fpi_lsn, w) \<Rightarrow>
              (Ok (), upd_frame f (\<lambda>m. m\<lparr> fr_content := set_page_pd_lsn (fr_content m) (of_nat fpi_lsn),
                 fr_cached_lsn := of_nat fpi_lsn,
                 fr_first_dirty_lsn := (if fr_first_dirty_lsn m = 0 then of_nat fpi_lsn else fr_first_dirty_lsn m),
                 fr_dirty := True \<rparr>) (p\<lparr> bp_wal := w \<rparr>))))"

definition pin_mut ::
  "bincode \<Rightarrow> 'w wal_ops \<Rightarrow> pool_io \<Rightarrow> page_id \<Rightarrow> 'w pool \<Rightarrow> (storage_error + nat) \<times> 'w pool" where
  "pin_mut bc ops io pid p =
    (case pin_mut_without_fpi ops io pid p of
       (Inl e, p) \<Rightarrow> (Err e, p)
     | (Inr f, p) \<Rightarrow>
         (case ensure_fpi bc ops f pid p of
            (Inl e, p) \<Rightarrow> (Err e, drop_guard_mut f p)
          | (Inr _, p) \<Rightarrow> (Ok f, p)))"

text \<open>\<open>new_page\<close>, with the page number the allocator returned.\<close>

definition new_page :: "'w wal_ops \<Rightarrow> pool_io \<Rightarrow> page_id \<Rightarrow> 'w pool \<Rightarrow> (storage_error + nat) \<times> 'w pool" where
  "new_page ops io pid p =
    (case alloc_frame ops io pid False p of
       (Inl e, p) \<Rightarrow> (Err e, p)
     | (Inr f, p) \<Rightarrow> (Ok f, upd_frame f (\<lambda>m. m\<lparr> fr_needs_fpi := False, fr_dirty := True \<rparr>) p))"

text \<open>Writing through a guard replaces the content.\<close>

definition guard_write :: "nat \<Rightarrow> page \<Rightarrow> 'w pool \<Rightarrow> 'w pool" where
  "guard_write f pg p = upd_frame f (\<lambda>m. m\<lparr> fr_content := pg \<rparr>) p"

definition flush_page :: "'w wal_ops \<Rightarrow> pool_io \<Rightarrow> page_id \<Rightarrow> 'w pool \<Rightarrow> (storage_error + unit) \<times> 'w pool" where
  "flush_page ops io pid p =
    (if pid = 0 then (Err InvalidConfig, p)
     else case bp_table p pid of None \<Rightarrow> (Err (PageNotFound pid), p) | Some f \<Rightarrow> flush_frame ops io f p)"

definition dirty_page_ids :: "'w pool \<Rightarrow> page_id list" where
  "dirty_page_ids p = map fr_page_id (filter (\<lambda>m. fr_dirty m \<and> fr_page_id m \<noteq> 0) (bp_frames p))"

definition dirty_page_snapshot :: "'w pool \<Rightarrow> (page_id \<times> lsn) list" where
  "dirty_page_snapshot p = map (\<lambda>m. (fr_page_id m, fr_first_dirty_lsn m))
     (filter (\<lambda>m. fr_dirty m \<and> fr_page_id m \<noteq> 0 \<and> lsn_is_valid (fr_first_dirty_lsn m)) (bp_frames p))"

section \<open>The write-ahead log as the pool uses it\<close>

text \<open>
  What the pool relies on: a flush that succeeds has synced up to the LSN asked for, the
  synced position and the clock never go back, and an append returns a position below
  the clock.
\<close>

locale pool_log =
  fixes ops :: "'w wal_ops" and log_ok :: "'w \<Rightarrow> bool"
  assumes log_flush: "log_ok w \<Longrightarrow> wo_flush_to ops w l = (r, w') \<Longrightarrow>
      log_ok w' \<and> wo_current ops w' = wo_current ops w \<and> wo_synced ops w \<le> wo_synced ops w' \<and>
      (r = Ok () \<longrightarrow> l \<le> wo_synced ops w')"
    and log_append: "log_ok w \<Longrightarrow> wo_append ops w rec = (res, w') \<Longrightarrow>
      log_ok w' \<and> wo_current ops w \<le> wo_current ops w' \<and> wo_synced ops w \<le> wo_synced ops w' \<and>
      (\<forall>l. res = Ok l \<longrightarrow> l \<le> wo_current ops w')"
    and log_synced: "log_ok w \<Longrightarrow> wo_synced ops w \<le> wo_current ops w"

section \<open>Invariant\<close>

text \<open>
  The contents of the store as the users of the pool see it: the frame of a resident
  page, the file otherwise.
\<close>

definition pool_view :: "'w pool \<Rightarrow> page_id \<Rightarrow> page option" where
  "pool_view p pid =
    (case bp_table p pid of Some f \<Rightarrow> Some (fr_content (frame_at p f)) | None \<Rightarrow> bp_file p pid)"

text \<open>
  The table and the frames agree, pages have the right size, a clean frame holds what the
  file holds, no page in the file is ahead of the synced log, and no page is ahead of the log.
\<close>

definition table_ok :: "'w pool \<Rightarrow> bool" where
  "table_ok p \<longleftrightarrow> (\<forall>pid f. bp_table p pid = Some f \<longleftrightarrow>
     f < length (bp_frames p) \<and> fr_page_id (frame_at p f) = pid \<and> pid \<noteq> 0)"

definition frame_ok :: "'w wal_ops \<Rightarrow> 'w pool \<Rightarrow> frame \<Rightarrow> bool" where
  "frame_ok ops p m \<longleftrightarrow> length (fr_content m) = PAGE_SIZE \<and> \<not> fr_flushing m \<and>
     unat (page_pd_lsn (fr_content m)) \<le> wo_current ops (bp_wal p) \<and>
     (fr_page_id m \<noteq> 0 \<and> \<not> fr_dirty m \<longrightarrow> bp_file p (fr_page_id m) = Some (fr_content m))"

definition file_ok :: "'w wal_ops \<Rightarrow> 'w pool \<Rightarrow> bool" where
  "file_ok ops p \<longleftrightarrow> (\<forall>pid pg. bp_file p pid = Some pg \<longrightarrow>
     length pg = PAGE_SIZE \<and> unat (page_pd_lsn pg) \<le> wo_synced ops (bp_wal p))"

text \<open>A page that is not dirty in a frame is on disk as it is in the file.\<close>

definition clean_synced :: "'w pool \<Rightarrow> bool" where
  "clean_synced p \<longleftrightarrow> (\<forall>pid. (\<forall>f. bp_table p pid = Some f \<longrightarrow> \<not> fr_dirty (frame_at p f)) \<longrightarrow> bp_disk p pid = bp_file p pid)"

definition pool_ok :: "'w wal_ops \<Rightarrow> ('w \<Rightarrow> bool) \<Rightarrow> 'w pool \<Rightarrow> bool" where
  "pool_ok ops log_ok p \<longleftrightarrow> table_ok p \<and> (\<forall>f < length (bp_frames p). frame_ok ops p (frame_at p f)) \<and>
     file_ok ops p \<and> bp_synced_gen p \<le> bp_flush_gen p \<and> log_ok (bp_wal p) \<and> clean_synced p"

definition settled :: "'w pool \<Rightarrow> bool" where
  "settled p \<longleftrightarrow> (\<forall>f < length (bp_frames p). \<not> fr_evicting (frame_at p f))"

lemma frame_at_upd_frame [simp]:
  "f < length (bp_frames p) \<Longrightarrow> frame_at (upd_frame f u p) g = (if g = f then u (frame_at p f) else frame_at p g)"
  by (simp add: frame_at_def upd_frame_def nth_list_update)

lemma upd_frame_fields [simp]:
  "length (bp_frames (upd_frame f u p)) = length (bp_frames p)"
  "bp_table (upd_frame f u p) = bp_table p" "bp_hand (upd_frame f u p) = bp_hand p"
  "bp_checkpoint_lsn (upd_frame f u p) = bp_checkpoint_lsn p"
  "bp_flush_gen (upd_frame f u p) = bp_flush_gen p" "bp_synced_gen (upd_frame f u p) = bp_synced_gen p"
  "bp_file (upd_frame f u p) = bp_file p" "bp_disk (upd_frame f u p) = bp_disk p" "bp_wal (upd_frame f u p) = bp_wal p"
  "bp_frames (upd_frame f u p) = [] \<longleftrightarrow> bp_frames p = []"
  by (simp_all add: upd_frame_def)

lemma frame_at_fields [simp]:
  "frame_at (p\<lparr> bp_table := t \<rparr>) f = frame_at p f" "frame_at (p\<lparr> bp_hand := h \<rparr>) f = frame_at p f"
  "frame_at (p\<lparr> bp_checkpoint_lsn := l \<rparr>) f = frame_at p f" "frame_at (p\<lparr> bp_flush_gen := n \<rparr>) f = frame_at p f"
  "frame_at (p\<lparr> bp_synced_gen := n \<rparr>) f = frame_at p f" "frame_at (p\<lparr> bp_file := d \<rparr>) f = frame_at p f"
  "frame_at (p\<lparr> bp_disk := d \<rparr>) f = frame_at p f" "frame_at (p\<lparr> bp_wal := w \<rparr>) f = frame_at p f"
  by (simp_all add: frame_at_def)

lemma pool_okD:
  assumes "pool_ok ops log_ok p"
  shows "table_ok p" "\<And>f. f < length (bp_frames p) \<Longrightarrow> frame_ok ops p (frame_at p f)" "file_ok ops p"
    "bp_synced_gen p \<le> bp_flush_gen p" "log_ok (bp_wal p)" "clean_synced p"
  using assms by (simp_all add: pool_ok_def)

lemma table_okD:
  assumes "table_ok p" "bp_table p pid = Some f"
  shows "f < length (bp_frames p)" "fr_page_id (frame_at p f) = pid" "pid \<noteq> 0"
  using assms by (simp_all add: table_ok_def)

lemma table_okI: "table_ok p \<Longrightarrow> f < length (bp_frames p) \<Longrightarrow> fr_page_id (frame_at p f) \<noteq> 0 \<Longrightarrow>
    bp_table p (fr_page_id (frame_at p f)) = Some f"
  by (simp add: table_ok_def)

lemma clean_syncedI:
  "(\<And>pid. (\<And>f. bp_table p pid = Some f \<Longrightarrow> \<not> fr_dirty (frame_at p f)) \<Longrightarrow> bp_disk p pid = bp_file p pid) \<Longrightarrow> clean_synced p"
  by (simp add: clean_synced_def)

lemma clean_syncedD:
  "clean_synced p \<Longrightarrow> (\<And>f. bp_table p pid = Some f \<Longrightarrow> \<not> fr_dirty (frame_at p f)) \<Longrightarrow> bp_disk p pid = bp_file p pid"
  by (simp add: clean_synced_def)

section \<open>Flushing\<close>

text \<open>
  Flushing a frame either finds nothing to do, or fails before the write and leaves the
  frame as it was, or fails at the sync, or leaves the page clean and on disk; always after the
  log is synced to the page's LSN.
\<close>

context pool_log
begin

lemma flush_frame_cases:
  assumes ok: "pool_ok ops log_ok p" and f: "f < length (bp_frames p)"
  obtains (clean) "flush_frame ops io f p = (Ok (), p)" "\<not> fr_dirty (frame_at p f) \<or> fr_page_id (frame_at p f) = 0"
  | (failed) e w where "flush_frame ops io f p = (Err e, p\<lparr> bp_wal := w \<rparr>)"
      "log_ok w" "wo_current ops w = wo_current ops (bp_wal p)" "wo_synced ops (bp_wal p) \<le> wo_synced ops w"
  | (unsynced) w where "flush_frame ops io f p = (Err Io, upd_frame f (\<lambda>m. m\<lparr> fr_needs_fpi := True \<rparr>)
       (p\<lparr> bp_wal := w, bp_file := (bp_file p)(fr_page_id (frame_at p f) \<mapsto> fr_content (frame_at p f)),
          bp_flush_gen := bp_flush_gen p + 1 \<rparr>))"
      "log_ok w" "wo_current ops w = wo_current ops (bp_wal p)" "wo_synced ops (bp_wal p) \<le> wo_synced ops w"
      "unat (page_pd_lsn (fr_content (frame_at p f))) \<le> wo_synced ops w" "fr_dirty (frame_at p f)"
      "fr_page_id (frame_at p f) \<noteq> 0"
  | (flushed) w where "flush_frame ops io f p = (Ok (),
       upd_frame f (\<lambda>m. m\<lparr> fr_dirty := False, fr_first_dirty_lsn := 0, fr_needs_fpi := True \<rparr>)
       (p\<lparr> bp_wal := w, bp_file := (bp_file p)(fr_page_id (frame_at p f) \<mapsto> fr_content (frame_at p f)),
          bp_disk := (bp_file p)(fr_page_id (frame_at p f) \<mapsto> fr_content (frame_at p f)),
          bp_flush_gen := bp_flush_gen p + 1, bp_synced_gen := bp_flush_gen p + 1 \<rparr>))"
      "log_ok w" "wo_current ops w = wo_current ops (bp_wal p)" "wo_synced ops (bp_wal p) \<le> wo_synced ops w"
      "unat (page_pd_lsn (fr_content (frame_at p f))) \<le> wo_synced ops w" "fr_dirty (frame_at p f)"
      "fr_page_id (frame_at p f) \<noteq> 0"
proof (cases "\<not> fr_dirty (frame_at p f) \<or> fr_page_id (frame_at p f) = 0")
  case True
  then show thesis
    by (intro clean) (auto simp: flush_frame_def flush_claim_def Let_def)
next
  case False
  let ?m = "frame_at p f" and ?claim = "\<lambda>m. m\<lparr> fr_flushing := True, fr_dirty := False, fr_first_dirty_lsn := 0 \<rparr>"
  let ?lsn = "page_pd_lsn (fr_content ?m)"
  note fr = pool_okD(2) [OF ok f, unfolded frame_ok_def]
  have claim: "flush_claim f p = (Some (fr_page_id ?m, fr_first_dirty_lsn ?m), upd_frame f ?claim p)"
    using False by (simp add: flush_claim_def Let_def)
  obtain r w where rw: "flush_wal ops f (upd_frame f ?claim p) = (r, (upd_frame f ?claim p)\<lparr> bp_wal := w \<rparr>)"
    "log_ok w" "wo_current ops w = wo_current ops (bp_wal p)" "wo_synced ops (bp_wal p) \<le> wo_synced ops w"
    "r = Ok () \<Longrightarrow> unat ?lsn \<le> wo_synced ops w"
  proof (cases "lsn_is_valid ?lsn \<and> unat ?lsn \<le> wo_current ops (bp_wal p) \<and> wo_synced ops (bp_wal p) < unat ?lsn")
    case True
    obtain r w where "wo_flush_to ops (bp_wal p) (unat ?lsn) = (r, w)"
      by (metis prod.collapse)
    then show thesis
      using that [of r w] True f log_flush [OF pool_okD(5) [OF ok], of "unat ?lsn" r w]
      by (simp add: flush_wal_def Let_def)
  next
    case skip: False
    have "unat ?lsn \<le> wo_synced ops (bp_wal p)"
      using skip fr by (auto simp: lsn_is_valid_def)
    then show thesis
      using that [of "Ok ()" "bp_wal p"] skip f pool_okD(5) [OF ok] by (auto simp: flush_wal_def Let_def)
  qed
  have same: "upd_frame f (\<lambda>m. m\<lparr> fr_dirty := True,
        fr_first_dirty_lsn := restore_first_dirty_lsn (fr_first_dirty_lsn m) (fr_first_dirty_lsn ?m), fr_flushing := False \<rparr>)
      ((upd_frame f ?claim p)\<lparr> bp_wal := w \<rparr>) = p\<lparr> bp_wal := w \<rparr>"
    using f fr False
    by (auto simp: upd_frame_def frame_at_def restore_first_dirty_lsn_def lsn_is_valid_def list_update_same_conv)
  show thesis
  proof (cases r)
    case (Inl e)
    then show thesis
      using failed [of e w] rw same by (simp add: flush_frame_def claim flush_fail_def)
  next
    case (Inr u)
    then have wal: "r = Ok ()"
      by simp
    show thesis
    proof (cases "write_ok io (fr_page_id ?m)")
      case False
      then show thesis
        using failed [of Io w] rw same wal by (simp add: flush_frame_def claim flush_fail_def flush_write_def)
    next
      case written: True
      show thesis
      proof (cases "sync_ok io")
        case no: False
        have "flush_frame ops io f p = (Err Io, upd_frame f (\<lambda>m. m\<lparr> fr_needs_fpi := True \<rparr>)
           (p\<lparr> bp_wal := w, bp_file := (bp_file p)(fr_page_id ?m \<mapsto> fr_content ?m), bp_flush_gen := bp_flush_gen p + 1 \<rparr>))"
          using no written wal rw(1) f fr False pool_okD(4) [OF ok]
          by (simp add: flush_frame_def claim flush_fail_def flush_write_def flush_sync_def)
            (cases "frame_at p f"; cases p; simp add: upd_frame_def frame_at_def restore_first_dirty_lsn_def lsn_is_valid_def)
        then show thesis
          using rw wal False by (intro unsynced) auto
      next
        case yes: True
        have "flush_frame ops io f p = (Ok (),
          upd_frame f (\<lambda>m. m\<lparr> fr_dirty := False, fr_first_dirty_lsn := 0, fr_needs_fpi := True \<rparr>)
           (p\<lparr> bp_wal := w, bp_file := (bp_file p)(fr_page_id ?m \<mapsto> fr_content ?m),
              bp_disk := (bp_file p)(fr_page_id ?m \<mapsto> fr_content ?m),
              bp_flush_gen := bp_flush_gen p + 1, bp_synced_gen := bp_flush_gen p + 1 \<rparr>))"
          using yes written wal rw(1) f fr False pool_okD(4) [OF ok]
          by (simp add: flush_frame_def claim flush_finish_def flush_write_def flush_sync_def)
            (cases "frame_at p f"; cases p; simp add: upd_frame_def frame_at_def max_def)
        then show thesis
          using rw wal False by (intro flushed) auto
      qed
    qed
  qed
qed

end

text \<open>What flushing and evicting leave alone: the pages as the users see them and the log clock.\<close>

definition same_pages :: "'w wal_ops \<Rightarrow> 'w pool \<Rightarrow> 'w pool \<Rightarrow> bool" where
  "same_pages ops p p' \<longleftrightarrow> pool_view p' = pool_view p \<and> length (bp_frames p') = length (bp_frames p) \<and>
     wo_current ops (bp_wal p') = wo_current ops (bp_wal p) \<and> bp_checkpoint_lsn p' = bp_checkpoint_lsn p"

lemma same_pages_refl [simp]: "same_pages ops p p"
  by (simp add: same_pages_def)

lemma same_pages_trans: "same_pages ops p q \<Longrightarrow> same_pages ops q r \<Longrightarrow> same_pages ops p r"
  by (simp add: same_pages_def)

lemma pool_view_cong:
  assumes "bp_table p' = bp_table p" "\<And>f. f < length (bp_frames p) \<Longrightarrow> fr_content (frame_at p' f) = fr_content (frame_at p f)"
    "\<And>pid. bp_table p pid = None \<Longrightarrow> bp_file p' pid = bp_file p pid" "table_ok p"
  shows "pool_view p' = pool_view p"
  using assms by (auto simp: pool_view_def fun_eq_iff table_okD split: option.split)

lemma table_ok_cong:
  assumes "bp_table p' = bp_table p" "length (bp_frames p') = length (bp_frames p)"
    "\<And>f. f < length (bp_frames p) \<Longrightarrow> fr_page_id (frame_at p' f) = fr_page_id (frame_at p f)"
  shows "table_ok p' \<longleftrightarrow> table_ok p"
  using assms by (auto simp: table_ok_def)

context pool_log
begin

lemma pool_ok_write:
  assumes ok: "pool_ok ops log_ok p" and f: "f < length (bp_frames p)" "fr_page_id (frame_at p f) \<noteq> 0"
    and w: "log_ok w" "wo_current ops w = wo_current ops (bp_wal p)" "wo_synced ops (bp_wal p) \<le> wo_synced ops w"
      "unat (page_pd_lsn (fr_content (frame_at p f))) \<le> wo_synced ops w"
    and u: "\<And>m. fr_page_id (u m) = fr_page_id m" "\<And>m. fr_content (u m) = fr_content m"
      "\<And>m. fr_flushing (u m) = fr_flushing m"
    and g: "sg \<le> bp_flush_gen p + 1"
    and d: "d = (bp_file p)(fr_page_id (frame_at p f) \<mapsto> fr_content (frame_at p f)) \<or>
      d = bp_disk p \<and> fr_dirty (u (frame_at p f))"
    and p': "p' = upd_frame f u (p\<lparr> bp_wal := w,
      bp_file := (bp_file p)(fr_page_id (frame_at p f) \<mapsto> fr_content (frame_at p f)), bp_disk := d,
      bp_flush_gen := bp_flush_gen p + 1, bp_synced_gen := sg \<rparr>)"
  shows "pool_ok ops log_ok p'" "same_pages ops p p'"
proof -
  note t = pool_okD(1) [OF ok]
  have "frame_ok ops p' (frame_at p' h)" if "h < length (bp_frames p)" for h
    using pool_okD(2) [OF ok that] pool_okD(2) [OF ok f(1)] table_okI [OF t that] table_okI [OF t f(1)] f u w(2)
    by (auto simp: frame_ok_def p')
  moreover have "table_ok p'"
    by (rule table_ok_cong [THEN iffD2, OF _ _ _ t]) (use f u in \<open>auto simp: p'\<close>)
  moreover have "file_ok ops p'"
    using pool_okD(2) [OF ok f(1)] pool_okD(3) [OF ok] w
    by (auto simp: file_ok_def frame_ok_def p' intro: order_trans)
  moreover have "clean_synced p'"
  proof (rule clean_syncedI)
    fix pid
    assume a: "\<And>g. bp_table p' pid = Some g \<Longrightarrow> \<not> fr_dirty (frame_at p' g)"
    show "bp_disk p' pid = bp_file p' pid"
    proof (cases "pid = fr_page_id (frame_at p f)")
      case True
      then show ?thesis
        using a [of f] table_okI [OF t f] d f by (auto simp: p')
    next
      case False
      have "\<not> fr_dirty (frame_at p g)" if "bp_table p pid = Some g" for g
      proof -
        have "g \<noteq> f"
          using table_okD(2) [OF t that] False by auto
        then show ?thesis
          using a [of g] that f by (simp add: p')
      qed
      then have "bp_disk p pid = bp_file p pid"
        by (rule clean_syncedD [OF pool_okD(6) [OF ok]])
      then show ?thesis
        using d False by (auto simp: p')
    qed
  qed
  ultimately show "pool_ok ops log_ok p'"
    using g w(1) by (simp add: pool_ok_def p')
  show "same_pages ops p p'"
    using f u w(2) table_okI [OF t f(1,2)] unfolding same_pages_def
    by (intro conjI pool_view_cong [OF _ _ _ t]) (auto simp: p')
qed

lemma pool_ok_log:
  assumes ok: "pool_ok ops log_ok p" and w: "log_ok w" "wo_current ops (bp_wal p) \<le> wo_current ops w"
    "wo_synced ops (bp_wal p) \<le> wo_synced ops w"
  shows "pool_ok ops log_ok (p\<lparr> bp_wal := w \<rparr>)" "pool_view (p\<lparr> bp_wal := w \<rparr>) = pool_view p"
proof -
  have "frame_ok ops (p\<lparr> bp_wal := w \<rparr>) (frame_at p f)" if "f < length (bp_frames p)" for f
    using pool_okD(2) [OF ok that] w(2) by (auto simp: frame_ok_def)
  moreover have "file_ok ops (p\<lparr> bp_wal := w \<rparr>)"
    using pool_okD(3) [OF ok] w(3) by (auto simp: file_ok_def intro: order_trans)
  moreover have "clean_synced (p\<lparr> bp_wal := w \<rparr>)"
    using pool_okD(6) [OF ok] by (simp add: clean_synced_def)
  ultimately show "pool_ok ops log_ok (p\<lparr> bp_wal := w \<rparr>)"
    using ok w(1) table_ok_cong [of "p\<lparr> bp_wal := w \<rparr>" p] by (simp add: pool_ok_def)
  show "pool_view (p\<lparr> bp_wal := w \<rparr>) = pool_view p"
    by (rule pool_view_cong) (simp_all add: pool_okD(1) [OF ok])
qed

lemma flush_frame_ok:
  assumes ok: "pool_ok ops log_ok p" and f: "f < length (bp_frames p)" and res: "flush_frame ops io f p = (r, p')"
  shows "pool_ok ops log_ok p' \<and> same_pages ops p p' \<and> bp_table p' = bp_table p \<and> bp_hand p' = bp_hand p \<and>
    (\<forall>g. g \<noteq> f \<longrightarrow> frame_at p' g = frame_at p g) \<and>
    (\<exists>d l n. frame_at p' f = (frame_at p f)\<lparr> fr_dirty := d, fr_first_dirty_lsn := l, fr_needs_fpi := n \<rparr>) \<and>
    (r = Ok () \<and> fr_page_id (frame_at p f) \<noteq> 0 \<longrightarrow> \<not> fr_dirty (frame_at p' f))"
proof -
  have same: "\<exists>d l n. m = m\<lparr> fr_dirty := d, fr_first_dirty_lsn := l, fr_needs_fpi := n \<rparr>" for m
    by (rule exI [of _ "fr_dirty m"], rule exI [of _ "fr_first_dirty_lsn m"], rule exI [of _ "fr_needs_fpi m"]) simp
  show ?thesis
  proof (cases rule: flush_frame_cases [OF ok f, of io, case_names clean failed unsynced flushed])
    case clean
    then show ?thesis
      using res ok same by auto
  next
    case (failed e w)
    then show ?thesis
      using res pool_ok_log [OF ok failed(2)] same by (auto simp: same_pages_def)
  next
    case (unsynced w)
    then have p': "p' = upd_frame f (\<lambda>m. m\<lparr> fr_needs_fpi := True \<rparr>) (p\<lparr> bp_wal := w,
        bp_file := (bp_file p)(fr_page_id (frame_at p f) \<mapsto> fr_content (frame_at p f)), bp_disk := bp_disk p,
        bp_flush_gen := bp_flush_gen p + 1, bp_synced_gen := bp_synced_gen p \<rparr>)" and r: "r = Err Io"
      using res by (cases p; simp)+
    have "pool_ok ops log_ok p'" "same_pages ops p p'"
      by (rule pool_ok_write [OF ok f unsynced(7,2,3,4,5) _ _ _ _ _ p']; use pool_okD(4) [OF ok] unsynced(6) in simp)+
    moreover have "\<exists>d l n. (frame_at p f)\<lparr> fr_needs_fpi := True \<rparr> =
        (frame_at p f)\<lparr> fr_dirty := d, fr_first_dirty_lsn := l, fr_needs_fpi := n \<rparr>"
      by (rule exI [of _ "fr_dirty (frame_at p f)"], rule exI [of _ "fr_first_dirty_lsn (frame_at p f)"],
          rule exI [of _ True]) simp
    ultimately show ?thesis
      using f by (simp add: p' r)
  next
    case (flushed w)
    then have p': "p' = upd_frame f (\<lambda>m. m\<lparr> fr_dirty := False, fr_first_dirty_lsn := 0, fr_needs_fpi := True \<rparr>) (p\<lparr> bp_wal := w,
        bp_file := (bp_file p)(fr_page_id (frame_at p f) \<mapsto> fr_content (frame_at p f)),
        bp_disk := (bp_file p)(fr_page_id (frame_at p f) \<mapsto> fr_content (frame_at p f)),
        bp_flush_gen := bp_flush_gen p + 1, bp_synced_gen := bp_flush_gen p + 1 \<rparr>)"
      using res by simp
    have "pool_ok ops log_ok p'" "same_pages ops p p'"
      by (rule pool_ok_write [OF ok f flushed(7,2,3,4,5) _ _ _ _ _ p']; simp)+
    moreover have "\<exists>d l n. (frame_at p f)\<lparr> fr_dirty := False, fr_first_dirty_lsn := 0, fr_needs_fpi := True \<rparr> =
        (frame_at p f)\<lparr> fr_dirty := d, fr_first_dirty_lsn := l, fr_needs_fpi := n \<rparr>"
      by blast
    ultimately show ?thesis
      using f by (simp add: p')
  qed
qed

end

section \<open>Eviction\<close>

lemma pool_ok_hand [simp]:
  "pool_ok ops log_ok (p\<lparr> bp_hand := h \<rparr>) = pool_ok ops log_ok p"
  "same_pages ops p (p\<lparr> bp_hand := h \<rparr>)" "settled (p\<lparr> bp_hand := h \<rparr>) = settled p"
  by (simp_all add: pool_ok_def frame_ok_def file_ok_def table_ok_def clean_synced_def same_pages_def pool_view_def
      settled_def fun_eq_iff
      cong: option.case_cong)

lemma table_zero [simp]: "table_ok p \<Longrightarrow> bp_table p 0 = None"
  using table_okD(3) [of p 0] by (cases "bp_table p 0") blast+

lemma table_inj: "table_ok p \<Longrightarrow> f < length (bp_frames p) \<Longrightarrow> g < length (bp_frames p) \<Longrightarrow>
    fr_page_id (frame_at p f) = fr_page_id (frame_at p g) \<Longrightarrow> fr_page_id (frame_at p f) \<noteq> 0 \<Longrightarrow> f = g"
  by (metis table_okI option.inject)

text \<open>Changing only flags and counts of a frame.\<close>

lemma pool_ok_upd:
  assumes ok: "pool_ok ops log_ok p" and f: "f < length (bp_frames p)"
    and u: "fr_page_id (u (frame_at p f)) = fr_page_id (frame_at p f)" "fr_content (u (frame_at p f)) = fr_content (frame_at p f)"
      "\<not> fr_flushing (u (frame_at p f))" "fr_dirty (frame_at p f) \<Longrightarrow> fr_dirty (u (frame_at p f))"
  shows "pool_ok ops log_ok (upd_frame f u p)" "same_pages ops p (upd_frame f u p)"
proof -
  have "frame_ok ops (upd_frame f u p) (frame_at (upd_frame f u p) g)" if "g < length (bp_frames p)" for g
    using pool_okD(2) [OF ok that] u f by (auto simp: frame_ok_def)
  moreover have "clean_synced (upd_frame f u p)"
  proof (rule clean_syncedI)
    fix pid
    assume a: "\<And>g. bp_table (upd_frame f u p) pid = Some g \<Longrightarrow> \<not> fr_dirty (frame_at (upd_frame f u p) g)"
    have "\<not> fr_dirty (frame_at p g)" if "bp_table p pid = Some g" for g
      using a [of g] that f u(4) by (auto split: if_splits)
    then show "bp_disk (upd_frame f u p) pid = bp_file (upd_frame f u p) pid"
      using clean_syncedD [OF pool_okD(6) [OF ok]] by simp
  qed
  ultimately show "pool_ok ops log_ok (upd_frame f u p)"
    using ok f u table_ok_cong [of "upd_frame f u p" p] by (auto simp: pool_ok_def file_ok_def)
  show "same_pages ops p (upd_frame f u p)"
    using f u by (auto simp: same_pages_def intro!: pool_view_cong [OF _ _ _ pool_okD(1) [OF ok]])
qed

text \<open>Taking a page that is clean, or has just been written, out of the table.\<close>

lemma pool_ok_remove:
  assumes ok: "pool_ok ops log_ok p" and f: "f < length (bp_frames p)"
    and clean: "fr_page_id (frame_at p f) \<noteq> 0 \<Longrightarrow> \<not> fr_dirty (frame_at p f)"
    and p': "p' = upd_frame f (\<lambda>m. frame_default\<lparr> fr_content := fr_content m \<rparr>)
      (if fr_page_id (frame_at p f) \<noteq> 0 then p\<lparr> bp_table := (bp_table p)(fr_page_id (frame_at p f) := None) \<rparr> else p)"
  shows "pool_ok ops log_ok p'" "same_pages ops p p'" "bp_table p' pid = Some g \<Longrightarrow> bp_table p pid = Some g"
proof -
  note t = pool_okD(1) [OF ok]
  have len: "length (bp_frames p') = length (bp_frames p)"
    by (simp add: p')
  have fr: "frame_at p' g = (if g = f then frame_default\<lparr> fr_content := fr_content (frame_at p f) \<rparr> else frame_at p g)" for g
    using f by (simp add: p')
  have tab: "bp_table p' pid = (if pid = fr_page_id (frame_at p f) then None else bp_table p pid)" for pid
    using t by (simp add: p')
  have rest: "bp_file p' = bp_file p" "bp_disk p' = bp_disk p" "bp_wal p' = bp_wal p" "bp_checkpoint_lsn p' = bp_checkpoint_lsn p"
    "bp_flush_gen p' = bp_flush_gen p" "bp_synced_gen p' = bp_synced_gen p"
    by (simp_all add: p')
  have "table_ok p'"
    unfolding table_ok_def
  proof (intro allI)
    fix pid g
    show "bp_table p' pid = Some g \<longleftrightarrow> g < length (bp_frames p') \<and> fr_page_id (frame_at p' g) = pid \<and> pid \<noteq> 0"
      using t table_inj [OF t _ f, of g] unfolding tab len fr
      by (cases "g = f"; cases "pid = fr_page_id (frame_at p f)") (auto simp: frame_default_def table_ok_def)
  qed
  moreover have "frame_ok ops p' (frame_at p' g)" if "g < length (bp_frames p)" for g
    using pool_okD(2) [OF ok that] pool_okD(2) [OF ok f] by (auto simp: fr frame_ok_def rest frame_default_def)
  moreover have "clean_synced p'"
  proof (rule clean_syncedI)
    fix pid
    assume a: "\<And>g. bp_table p' pid = Some g \<Longrightarrow> \<not> fr_dirty (frame_at p' g)"
    have "\<not> fr_dirty (frame_at p g)" if "bp_table p pid = Some g" for g
    proof (cases "g = f")
      case True
      then show ?thesis
        using clean table_okD [OF t that] by simp
    next
      case False
      then have "pid \<noteq> fr_page_id (frame_at p f)"
        using table_inj [OF t _ f, of g] table_okD [OF t that] by auto
      then show ?thesis
        using a [of g] that False by (simp add: tab fr)
    qed
    then show "bp_disk p' pid = bp_file p' pid"
      using clean_syncedD [OF pool_okD(6) [OF ok]] by (simp add: rest)
  qed
  ultimately show "pool_ok ops log_ok p'"
    using ok by (simp add: pool_ok_def len rest file_ok_def)
  have "pool_view p' pid = pool_view p pid" for pid
  proof (cases "pid = fr_page_id (frame_at p f)")
    case True
    show ?thesis
    proof (cases "pid = 0")
      case zero: True
      then show ?thesis
        using True t by (simp add: pool_view_def tab rest)
    next
      case False
      then show ?thesis
        using table_okI [OF t f] pool_okD(2) [OF ok f] clean True by (auto simp: pool_view_def tab rest frame_ok_def)
    qed
  next
    case False
    then show ?thesis
      using table_okD(2) [OF t, of pid] by (auto simp: pool_view_def tab rest fr split: option.split)
  qed
  then show "same_pages ops p p'"
    by (auto simp: same_pages_def rest len)
  show "bp_table p' pid = Some g \<Longrightarrow> bp_table p pid = Some g"
    by (simp add: tab split: if_splits)
qed

text \<open>The effect of the clock sweep.\<close>

definition evicted :: "'w wal_ops \<Rightarrow> ('w \<Rightarrow> bool) \<Rightarrow> 'w pool \<Rightarrow> storage_error + nat \<Rightarrow> 'w pool \<Rightarrow> bool" where
  "evicted ops log_ok p r p' \<longleftrightarrow> pool_ok ops log_ok p' \<and> same_pages ops p p' \<and> (settled p \<longrightarrow> settled p') \<and>
    (\<forall>g < length (bp_frames p). fr_pin_count (frame_at p' g) = fr_pin_count (frame_at p g) \<and>
       (fr_pin_count (frame_at p g) > 0 \<longrightarrow> frame_at p' g = frame_at p g)) \<and>
    (\<forall>pid f. bp_table p' pid = Some f \<longrightarrow> bp_table p pid = Some f) \<and>
    (\<forall>f. r = Ok f \<longrightarrow> f < length (bp_frames p) \<and> fr_pin_count (frame_at p f) = 0 \<and>
       (\<exists>c. frame_at p' f = frame_default\<lparr> fr_content := c \<rparr>))"

lemma evicted_trans:
  assumes "same_pages ops p q" "settled p \<Longrightarrow> settled q" "bp_table q = bp_table p"
    "\<And>g. fr_pin_count (frame_at q g) = fr_pin_count (frame_at p g)"
    "\<And>g. fr_pin_count (frame_at p g) > 0 \<Longrightarrow> frame_at q g = frame_at p g"
    "evicted ops log_ok q r p'"
  shows "evicted ops log_ok p r p'"
proof -
  have len: "length (bp_frames q) = length (bp_frames p)"
    using assms(1) by (simp add: same_pages_def)
  note e = assms(6) [unfolded evicted_def len assms(3,4)]
  have a: "same_pages ops p p'"
    using same_pages_trans [OF assms(1) conjunct1 [OF conjunct2 [OF e]]] .
  have b: "\<forall>g < length (bp_frames p). fr_pin_count (frame_at p' g) = fr_pin_count (frame_at p g) \<and>
       (fr_pin_count (frame_at p g) > 0 \<longrightarrow> frame_at p' g = frame_at p g)"
    using conjunct1 [OF conjunct2 [OF conjunct2 [OF conjunct2 [OF e]]]] assms(5) by simp
  have c: "settled p \<longrightarrow> settled p'"
    using conjunct1 [OF conjunct2 [OF conjunct2 [OF e]]] assms(2) by blast
  show ?thesis
    unfolding evicted_def using e a b c by (elim conjE) (intro conjI, assumption+)
qed

text \<open>The frame the hand stops at: marked, flushed when dirty, then kept or emptied.\<close>

definition marked :: "'w wal_ops \<Rightarrow> ('w \<Rightarrow> bool) \<Rightarrow> 'w pool \<Rightarrow> nat \<Rightarrow> 'w pool \<Rightarrow> bool" where
  "marked ops log_ok p f q \<longleftrightarrow> pool_ok ops log_ok q \<and> same_pages ops p q \<and> bp_table q = bp_table p \<and>
    (\<forall>g. g \<noteq> f \<longrightarrow> frame_at q g = frame_at p g) \<and> fr_page_id (frame_at q f) = fr_page_id (frame_at p f) \<and>
    fr_pin_count (frame_at q f) = fr_pin_count (frame_at p f)"

context pool_log
begin

lemma mark_and_flush:
  assumes ok: "pool_ok ops log_ok p" and f: "f < length (bp_frames p)"
    and q: "q = upd_frame f (\<lambda>m. m\<lparr> fr_evicting := True \<rparr>) p"
    and fl: "(if fr_dirty (frame_at p f) \<and> fr_page_id (frame_at p f) \<noteq> 0 then flush_frame ops io f q else (Ok (), q)) = (r, q')"
  shows "marked ops log_ok p f q'" "r = Ok () \<Longrightarrow> fr_page_id (frame_at q' f) \<noteq> 0 \<Longrightarrow> \<not> fr_dirty (frame_at q' f)"
proof -
  have okq: "pool_ok ops log_ok q" and sq: "same_pages ops p q"
    unfolding q using pool_okD(2) [OF ok f]
    by (intro pool_ok_upd [OF ok f]; simp add: frame_ok_def)+
  have fq: "f < length (bp_frames q)"
    using f by (simp add: q)
  have tq: "bp_table q = bp_table p"
    by (simp add: q)
  have frq: "frame_at q g = (if g = f then (frame_at p f)\<lparr> fr_evicting := True \<rparr> else frame_at p g)" for g
    using f by (simp add: q)
  show "marked ops log_ok p f q'" "r = Ok () \<Longrightarrow> fr_page_id (frame_at q' f) \<noteq> 0 \<Longrightarrow> \<not> fr_dirty (frame_at q' f)"
  proof (atomize (full), cases "fr_dirty (frame_at p f) \<and> fr_page_id (frame_at p f) \<noteq> 0")
    case True
    then have fl': "flush_frame ops io f q = (r, q')"
      using fl by simp
    note e = flush_frame_ok [OF okq fq fl']
    obtain d l n where "frame_at q' f = (frame_at q f)\<lparr> fr_dirty := d, fr_first_dirty_lsn := l, fr_needs_fpi := n \<rparr>"
      using e by blast
    then have "fr_page_id (frame_at q' f) = fr_page_id (frame_at p f)" "fr_pin_count (frame_at q' f) = fr_pin_count (frame_at p f)"
      by (simp_all add: frq)
    then show "marked ops log_ok p f q' \<and> (r = Ok () \<longrightarrow> fr_page_id (frame_at q' f) \<noteq> 0 \<longrightarrow> \<not> fr_dirty (frame_at q' f))"
      using e same_pages_trans [OF sq, of q'] by (auto simp: marked_def frq tq)
  next
    case False
    then have "q' = q"
      using fl by (auto split: if_splits)
    then show "marked ops log_ok p f q' \<and> (r = Ok () \<longrightarrow> fr_page_id (frame_at q' f) \<noteq> 0 \<longrightarrow> \<not> fr_dirty (frame_at q' f))"
      using False okq sq by (auto simp: marked_def frq tq)
  qed
qed

lemma evict_fails:
  assumes m: "marked ops log_ok p f q" and f: "f < length (bp_frames p)" and free: "fr_pin_count (frame_at p f) = 0"
  shows "evicted ops log_ok p (Err e) (upd_frame f (\<lambda>m. m\<lparr> fr_evicting := False \<rparr>) q)"
proof -
  let ?p' = "upd_frame f (\<lambda>m. m\<lparr> fr_evicting := False \<rparr>) q"
  note m = m [unfolded marked_def]
  have lq: "length (bp_frames q) = length (bp_frames p)" and fq: "f < length (bp_frames q)"
    using m f by (auto simp: same_pages_def)
  have okq: "pool_ok ops log_ok q"
    using m by blast
  have "pool_ok ops log_ok ?p'" "same_pages ops q ?p'"
    using pool_okD(2) [OF okq fq] by (intro pool_ok_upd [OF okq fq]; simp add: frame_ok_def)+
  moreover have "settled p \<longrightarrow> settled ?p'"
    using m fq lq by (simp add: settled_def)
  moreover have "\<forall>g < length (bp_frames p). fr_pin_count (frame_at ?p' g) = fr_pin_count (frame_at p g) \<and>
      (fr_pin_count (frame_at p g) > 0 \<longrightarrow> frame_at ?p' g = frame_at p g)"
    using free m fq by auto
  moreover have "bp_table ?p' = bp_table p" "same_pages ops p q"
    using m by simp_all
  ultimately show ?thesis
    using same_pages_trans [of ops p q] by (simp add: evicted_def)
qed

lemma evict_succeeds:
  assumes m: "marked ops log_ok p f q" and f: "f < length (bp_frames p)" and free: "fr_pin_count (frame_at p f) = 0"
    and clean: "fr_page_id (frame_at q f) \<noteq> 0 \<Longrightarrow> \<not> fr_dirty (frame_at q f)"
    and p': "p' = upd_frame f (\<lambda>m. frame_default\<lparr> fr_content := fr_content m \<rparr>)
       (if fr_page_id (frame_at p f) \<noteq> 0 then q\<lparr> bp_table := (bp_table q)(fr_page_id (frame_at p f) := None) \<rparr> else q)"
  shows "evicted ops log_ok p (Ok f) p'"
proof -
  note m = m [unfolded marked_def]
  have lq: "length (bp_frames q) = length (bp_frames p)" and fq: "f < length (bp_frames q)"
    using m f by (auto simp: same_pages_def)
  have okq: "pool_ok ops log_ok q" and tq: "bp_table q = bp_table p" and sq: "same_pages ops p q"
    and frq: "g \<noteq> f \<Longrightarrow> frame_at q g = frame_at p g" and pid: "fr_page_id (frame_at p f) = fr_page_id (frame_at q f)" for g
    using m by simp_all
  note a = pool_ok_remove [OF okq fq clean p' [unfolded pid]]
  have fr: "frame_at p' g = (if g = f then frame_default\<lparr> fr_content := fr_content (frame_at q f) \<rparr> else frame_at q g)" for g
    using fq by (simp add: p')
  have "settled p \<longrightarrow> settled p'"
    using frq a(2) lq unfolding settled_def fr by (simp add: frame_default_def same_pages_def)
  moreover have "\<forall>g < length (bp_frames p). fr_pin_count (frame_at p' g) = fr_pin_count (frame_at p g) \<and>
      (fr_pin_count (frame_at p g) > 0 \<longrightarrow> frame_at p' g = frame_at p g)"
    using free frq unfolding fr by (auto simp: frame_default_def)
  moreover have "\<forall>pid f. bp_table p' pid = Some f \<longrightarrow> bp_table p pid = Some f"
    using a(3) tq by simp
  moreover have "\<exists>c. frame_at p' f = frame_default\<lparr> fr_content := c \<rparr>"
    unfolding fr by auto
  ultimately show ?thesis
    unfolding evicted_def using a(1) same_pages_trans [OF sq a(2)] free f
    by (intro conjI allI impI) auto
qed

lemma evict_loop_ok:
  "pool_ok ops log_ok p \<Longrightarrow> bp_frames p \<noteq> [] \<Longrightarrow> evict_loop ops io n p = (r, p') \<Longrightarrow> evicted ops log_ok p r p'"
proof (induction n arbitrary: p)
  case 0
  then show ?case
    by (auto simp: evicted_def)
next
  case (Suc n)
  let ?h = "bp_hand p mod length (bp_frames p)" and ?p = "p\<lparr> bp_hand := bp_hand p + 1 \<rparr>"
  let ?m = "frame_at p ?h" and ?r = "upd_frame ?h (\<lambda>m. m\<lparr> fr_reference := False \<rparr>) ?p"
  let ?q = "upd_frame ?h (\<lambda>m. m\<lparr> fr_evicting := True \<rparr>) ?p"
  have h: "?h < length (bp_frames ?p)" and ne: "bp_frames ?p \<noteq> []" and ok: "pool_ok ops log_ok ?p"
    using Suc.prems by simp_all
  have unhand: "evicted ops log_ok p r p'" if "evicted ops log_ok ?p r p'"
    by (rule evicted_trans [OF _ _ _ _ _ that]) simp_all
  consider (skip) "fr_pin_count ?m > 0 \<or> fr_evicting ?m" | (ref) "fr_pin_count ?m = 0" "\<not> fr_evicting ?m" "fr_reference ?m"
    | (take) "fr_pin_count ?m = 0" "\<not> fr_evicting ?m" "\<not> fr_reference ?m"
    by blast
  then show ?case
  proof cases
    case skip
    then show ?thesis
      using Suc.IH [OF ok ne] Suc.prems(3) unhand by (simp add: Let_def)
  next
    case ref
    have "pool_ok ops log_ok ?r" and s: "same_pages ops ?p ?r"
      using pool_okD(2) [OF ok h] by (intro pool_ok_upd [OF ok h]; simp add: frame_ok_def)+
    then have "evicted ops log_ok ?r r p'"
      using Suc.IH [of ?r] Suc.prems(2,3) ref by (simp add: Let_def)
    then have "evicted ops log_ok ?p r p'"
      by (rule evicted_trans [OF s, rotated -1]) (use ref h in \<open>auto simp: settled_def\<close>)
    then show ?thesis
      by (rule unhand)
  next
    case take
    obtain r' q' where fl: "(if fr_dirty ?m \<and> fr_page_id ?m \<noteq> 0 then flush_frame ops io ?h ?q else (Ok (), ?q)) = (r', q')"
      by (metis prod.collapse)
    have res: "(r, p') = (case (r', q') of
         (Inl e, p) \<Rightarrow> (Err e, upd_frame ?h (\<lambda>m. m\<lparr> fr_evicting := False \<rparr>) p)
       | (Inr _, p) \<Rightarrow> (Ok ?h, upd_frame ?h (\<lambda>m. frame_default\<lparr> fr_content := fr_content m \<rparr>)
              (if fr_page_id ?m \<noteq> 0 then p\<lparr> bp_table := (bp_table p)(fr_page_id ?m := None) \<rparr> else p)))"
      unfolding fl [symmetric] using Suc.prems(3) [unfolded evict_loop.simps Let_def frame_at_fields] take by simp
    have mk: "marked ops log_ok ?p ?h q'" "r' = Ok () \<Longrightarrow> fr_page_id (frame_at q' ?h) \<noteq> 0 \<Longrightarrow> \<not> fr_dirty (frame_at q' ?h)"
      using mark_and_flush [OF ok h HOL.refl, of io r' q'] fl by simp_all
    show ?thesis
    proof (cases r')
      case (Inl e)
      then have "r = Err e" "p' = upd_frame ?h (\<lambda>m. m\<lparr> fr_evicting := False \<rparr>) q'"
        using res by simp_all
      then show ?thesis
        using evict_fails [OF mk(1) h] take(1) unhand by simp
    next
      case (Inr u)
      then have "r = Ok ?h" and p': "p' = upd_frame ?h (\<lambda>m. frame_default\<lparr> fr_content := fr_content m \<rparr>)
          (if fr_page_id (frame_at ?p ?h) \<noteq> 0 then q'\<lparr> bp_table := (bp_table q')(fr_page_id (frame_at ?p ?h) := None) \<rparr> else q')"
        using res by simp_all
      then show ?thesis
        using evict_succeeds [OF mk(1) h _ _ p'] mk(2) Inr take(1) unhand by simp
    qed
  qed
qed

end

text \<open>
  Two rounds of the clock find an unpinned frame: the first may only clear its reference bit.
\<close>

lemma evict_loop_ref_clear:
  assumes "evict_loop ops io n p = (Err e, p')" "bp_frames p \<noteq> []" "(bp_hand p + d) mod length (bp_frames p) = f" "d < n"
    "fr_pin_count (frame_at p f) = 0" "\<not> fr_evicting (frame_at p f)" "\<not> fr_reference (frame_at p f)"
  shows "\<exists>g q q'. flush_frame ops io g q = (Err e, q')"
  using assms
proof (induction n arbitrary: p d)
  case (Suc n)
  let ?h = "bp_hand p mod length (bp_frames p)" and ?p = "p\<lparr> bp_hand := bp_hand p + 1 \<rparr>"
  let ?m = "frame_at p ?h" and ?r = "upd_frame ?h (\<lambda>m. m\<lparr> fr_reference := False \<rparr>) ?p"
  let ?q = "upd_frame ?h (\<lambda>m. m\<lparr> fr_evicting := True \<rparr>) ?p"
  have h: "?h < length (bp_frames p)"
    using Suc.prems(2) by simp
  have other: "fr_pin_count ?m > 0 \<or> fr_evicting ?m \<or> fr_reference ?m \<Longrightarrow> ?h \<noteq> f"
    using Suc.prems(5-7) by auto
  have later: "d \<noteq> 0" "(bp_hand ?p + (d - 1)) mod length (bp_frames p) = f" "d - 1 < n" if "?h \<noteq> f"
    using Suc.prems(3,4) that by (auto simp: Suc_diff_le intro: Suc_lessI) (cases d; simp)+
  show ?case
  proof (cases "fr_pin_count ?m > 0 \<or> fr_evicting ?m \<or> fr_reference ?m")
    case True
    have "evict_loop ops io n ?p = (Err e, p') \<or> evict_loop ops io n ?r = (Err e, p')"
      using True Suc.prems(1) by (auto simp: Let_def split: if_splits)
    then show ?thesis
      using Suc.IH [of ?p "d - 1"] Suc.IH [of ?r "d - 1"] later [OF other [OF True]] other [OF True] Suc.prems(2,5-7) h by auto
  next
    case False
    then show ?thesis
      using Suc.prems(1) [unfolded evict_loop.simps Let_def frame_at_fields]
      by (auto split: if_splits prod.splits sum.splits)
  qed
qed simp

lemma evict_loop_finds:
  assumes "evict_loop ops io n p = (Err e, p')" "bp_frames p \<noteq> []" "(bp_hand p + d) mod length (bp_frames p) = f"
    "d + length (bp_frames p) < n" "d < length (bp_frames p)" "fr_pin_count (frame_at p f) = 0" "\<not> fr_evicting (frame_at p f)"
  shows "\<exists>g q q'. flush_frame ops io g q = (Err e, q')"
  using assms
proof (induction n arbitrary: p d)
  case (Suc n)
  let ?N = "length (bp_frames p)"
  let ?h = "bp_hand p mod ?N" and ?p = "p\<lparr> bp_hand := bp_hand p + 1 \<rparr>"
  let ?m = "frame_at p ?h" and ?r = "upd_frame ?h (\<lambda>m. m\<lparr> fr_reference := False \<rparr>) ?p"
  have h: "?h < ?N"
    using Suc.prems(2) by simp
  have later: "(bp_hand ?p + (d - 1)) mod ?N = f" "d - 1 + ?N < n" "d - 1 < ?N" if "?h \<noteq> f"
    using Suc.prems(3-5) that by (cases d; simp)+
  have "bp_hand ?p + (?N - 1) = bp_hand p + ?N"
    using h by simp
  then have round: "(bp_hand ?p + (?N - 1)) mod ?N = f" "?N - 1 < n" if "?h = f"
    using that h Suc.prems(4) by simp_all
  consider (skip) "fr_pin_count ?m > 0 \<or> fr_evicting ?m"
    | (ref) "fr_pin_count ?m = 0" "\<not> fr_evicting ?m" "fr_reference ?m"
    | (take) "fr_pin_count ?m = 0" "\<not> fr_evicting ?m" "\<not> fr_reference ?m"
    by blast
  then show ?case
  proof cases
    case skip
    then have "evict_loop ops io n ?p = (Err e, p')" "?h \<noteq> f"
      using Suc.prems by (auto simp: Let_def)
    then show ?thesis
      using Suc.IH [of ?p "d - 1"] later Suc.prems(2,6,7) by simp
  next
    case ref
    then have res: "evict_loop ops io n ?r = (Err e, p')"
      using Suc.prems(1) by (simp add: Let_def)
    show ?thesis
    proof (cases "?h = f")
      case True
      then show ?thesis
        using evict_loop_ref_clear [OF res, of "?N - 1" f] round Suc.prems(2,4,6,7) h by simp
    next
      case False
      then show ?thesis
        using Suc.IH [OF res, of "d - 1"] later Suc.prems(2,6,7) h by simp
    qed
  next
    case take
    then show ?thesis
      using Suc.prems(1) [unfolded evict_loop.simps Let_def frame_at_fields]
      by (auto split: if_splits prod.splits sum.splits)
  qed
qed simp

lemma evict_frame_finds:
  assumes "evict_frame ops io p = (Err e, p')" "f < length (bp_frames p)" "fr_pin_count (frame_at p f) = 0"
    "\<not> fr_evicting (frame_at p f)"
  shows "\<exists>g q q'. flush_frame ops io g q = (Err e, q')"
proof -
  let ?N = "length (bp_frames p)"
  have N: "0 < ?N"
    using assms(2) by linarith
  have "(bp_hand p + (?N + f - bp_hand p mod ?N) mod ?N) mod ?N = f"
  proof -
    have "(bp_hand p + (?N + f - bp_hand p mod ?N)) mod ?N = (bp_hand p mod ?N + (?N + f - bp_hand p mod ?N)) mod ?N"
      by (simp add: mod_add_left_eq)
    also have "\<dots> = (?N + f) mod ?N"
      using mod_less_divisor [OF N, of "bp_hand p"] by (simp add: le_add_diff_inverse)
    finally show ?thesis
      using assms(2) by (simp add: mod_add_right_eq)
  qed
  moreover have "(?N + f - bp_hand p mod ?N) mod ?N < ?N"
    using N by simp
  ultimately show ?thesis
    using evict_loop_finds [of ops io "?N * 2" p e p' "(?N + f - bp_hand p mod ?N) mod ?N" f] assms
    by (auto simp: evict_frame_def split: if_splits)
qed

section \<open>Loading\<close>

lemma upd_frame_twice: "f < length (bp_frames p) \<Longrightarrow> upd_frame f u (upd_frame f v p) = upd_frame f (\<lambda>m. u (v m)) p"
  by (simp add: upd_frame_def)

lemma upd_frame_table: "upd_frame f u (p\<lparr> bp_table := t \<rparr>) = (upd_frame f u p)\<lparr> bp_table := t \<rparr>"
  by (simp add: upd_frame_def)

text \<open>A free frame takes a page that is not resident.\<close>

lemma pool_ok_fill:
  assumes ok: "pool_ok ops log_ok p" and f: "f < length (bp_frames p)" "fr_page_id (frame_at p f) = 0"
    and pid: "pid \<noteq> 0" "bp_table p pid = None"
    and m: "\<And>m0. u m0 = m" "fr_page_id m = pid" "frame_ok ops p m"
    and p': "p' = (upd_frame f u p)\<lparr> bp_table := (bp_table p)(pid \<mapsto> f) \<rparr>"
  shows "pool_ok ops log_ok p'" "pool_view p' = (pool_view p)(pid \<mapsto> fr_content m)"
proof -
  note t = pool_okD(1) [OF ok]
  have fr: "frame_at p' g = (if g = f then m else frame_at p g)" for g
    using f m(1) by (simp add: p')
  have rest: "bp_file p' = bp_file p" "bp_disk p' = bp_disk p" "bp_wal p' = bp_wal p"
    "bp_flush_gen p' = bp_flush_gen p" "bp_synced_gen p' = bp_synced_gen p" "bp_table p' = (bp_table p)(pid \<mapsto> f)"
    "length (bp_frames p') = length (bp_frames p)"
    by (simp_all add: p')
  have new: "g < length (bp_frames p) \<Longrightarrow> fr_page_id (frame_at p g) \<noteq> pid" for g
    using table_okI [OF t, of g] pid by auto
  have "table_ok p'"
    unfolding table_ok_def
  proof (intro allI)
    fix pid' g
    show "bp_table p' pid' = Some g \<longleftrightarrow> g < length (bp_frames p') \<and> fr_page_id (frame_at p' g) = pid' \<and> pid' \<noteq> 0"
      using t new [of g] f m(2) pid(1) unfolding rest fr
      by (cases "g = f"; cases "pid' = pid") (auto simp: table_ok_def)
  qed
  moreover have "frame_ok ops p' (frame_at p' g)" if "g < length (bp_frames p)" for g
    using pool_okD(2) [OF ok that] m(3) by (simp add: fr frame_ok_def rest)
  moreover have "clean_synced p'"
  proof (rule clean_syncedI)
    fix pid'
    assume a: "\<And>g. bp_table p' pid' = Some g \<Longrightarrow> \<not> fr_dirty (frame_at p' g)"
    have "\<not> fr_dirty (frame_at p g)" if "bp_table p pid' = Some g" for g
    proof -
      have "pid' \<noteq> pid" "g \<noteq> f"
        using that pid(2) table_okD [OF t that] f(2) by auto
      then show ?thesis
        using a [of g] that by (simp add: rest fr)
    qed
    then show "bp_disk p' pid' = bp_file p' pid'"
      using clean_syncedD [OF pool_okD(6) [OF ok]] by (simp add: rest)
  qed
  ultimately show "pool_ok ops log_ok p'"
    using ok by (simp add: pool_ok_def rest file_ok_def)
  show "pool_view p' = (pool_view p)(pid \<mapsto> fr_content m)"
    using table_okD(2,3) [OF t] f(2) by (auto simp: pool_view_def rest fr fun_eq_iff split: option.split)
qed

text \<open>The metadata of a frame just filled.\<close>

definition loaded_frame :: "page_id \<Rightarrow> page \<Rightarrow> frame" where
  "loaded_frame pid pg = frame_default\<lparr> fr_page_id := pid, fr_pin_count := 1, fr_reference := True,
     fr_cached_lsn := page_pd_lsn pg, fr_needs_fpi := True, fr_content := pg \<rparr>"

definition pin_frame :: "frame \<Rightarrow> frame" where
  "pin_frame m = m\<lparr> fr_pin_count := fr_pin_count m + 1, fr_reference := True \<rparr>"

context pool_log
begin

lemma evict_frame_ok:
  assumes "pool_ok ops log_ok p" "evict_frame ops io p = (r, q)"
  shows "evicted ops log_ok p r q"
  using evict_loop_ok [OF assms(1), of io _ r q] assms by (auto simp: evict_frame_def evicted_def split: if_splits)

lemma alloc_frame_cases:
  assumes ok: "pool_ok ops log_ok p" and st: "settled p"
  obtains (resident) f where "bp_table p pid = Some f" "alloc_frame ops io pid load p = (Ok f, upd_frame f pin_frame p)"
  | (full) e q where "bp_table p pid = None" "evicted ops log_ok p (Err e) q" "evict_frame ops io p = (Err e, q)"
      "alloc_frame ops io pid load p = (Err e, q)"
  | (unread) f q where "bp_table p pid = None" "evicted ops log_ok p (Ok f) q" "load"
      "alloc_frame ops io pid load p = (Err Io, upd_frame f (\<lambda>m. m\<lparr> fr_content := replicate PAGE_SIZE 0 \<rparr>) q)"
  | (loaded) f q pg where "bp_table p pid = None" "evicted ops log_ok p (Ok f) q"
      "if load then bp_file q pid = Some pg else pg = replicate PAGE_SIZE 0"
      "alloc_frame ops io pid load p = (Ok f, (upd_frame f (\<lambda>m. loaded_frame pid pg) q)\<lparr> bp_table := (bp_table q)(pid \<mapsto> f) \<rparr>)"
proof (cases "bp_table p pid")
  case (Some f)
  then have "alloc_frame ops io pid load p = (Ok f, upd_frame f pin_frame p)"
    using table_okD [OF pool_okD(1) [OF ok] Some] st
    by (simp add: alloc_frame_def try_pin_resident_def settled_def pin_frame_def [abs_def])
  with Some show thesis
    by (rule resident)
next
  case None
  obtain r q where ev: "evict_frame ops io p = (r, q)"
    by (metis prod.collapse)
  note e = evict_frame_ok [OF ok ev]
  have tp: "try_pin_resident pid p = None"
    by (simp add: try_pin_resident_def None)
  show thesis
  proof (cases r)
    case (Inl e')
    then show thesis
      using full [OF None, of e' q] e ev tp by (simp add: alloc_frame_def)
  next
    case (Inr f)
    let ?q = "upd_frame f (\<lambda>m. m\<lparr> fr_content := replicate PAGE_SIZE 0 \<rparr>) q"
    have f: "f < length (bp_frames q)" and "\<exists>c. frame_at q f = frame_default\<lparr> fr_content := c \<rparr>"
      using e Inr by (auto simp: evicted_def same_pages_def)
    then obtain c where fr: "frame_at q f = frame_default\<lparr> fr_content := c \<rparr>"
      by blast
    have fin: "upd_frame f (\<lambda>m. u (frame_at q f)) q = upd_frame f u q" for u
      by (simp add: upd_frame_def frame_at_def)
    have ld: "upd_frame f (\<lambda>m. m\<lparr> fr_page_id := pid, fr_pin_count := 1, fr_reference := True, fr_dirty := False,
         fr_cached_lsn := page_pd_lsn (fr_content m), fr_first_dirty_lsn := 0, fr_needs_fpi := True \<rparr>)
       (upd_frame f (\<lambda>m. m\<lparr> fr_content := pg \<rparr>) q) = upd_frame f (\<lambda>m. loaded_frame pid pg) q" for pg
      unfolding upd_frame_twice [OF f]
      by (subst fin [symmetric]) (simp add: fr loaded_frame_def frame_default_def)
    show thesis
    proof (cases "load \<and> (bp_file q pid = None \<or> \<not> read_ok io pid)")
      case True
      then have "alloc_frame ops io pid load p = (Err Io, ?q)"
        using ev Inr tp by (cases "bp_file q pid") (auto simp: alloc_frame_def read_page_from_disk_def Let_def)
      then show thesis
        using unread [OF None] e Inr True by auto
    next
      case False
      define pg where "pg = (if load then the (bp_file q pid) else replicate PAGE_SIZE 0)"
      have "alloc_frame ops io pid load p = (Ok f, (upd_frame f (\<lambda>m. loaded_frame pid pg) q)\<lparr> bp_table := (bp_table q)(pid \<mapsto> f) \<rparr>)"
        using False ev Inr tp f ld [of pg]
        by (auto simp: alloc_frame_def read_page_from_disk_def Let_def pg_def upd_frame_twice split: option.splits)
      moreover have "if load then bp_file q pid = Some pg else pg = replicate PAGE_SIZE 0"
        using False by (auto simp: pg_def)
      ultimately show thesis
        using loaded [OF None, of f q pg] e Inr by auto
    qed
  qed
qed

end

section \<open>The pool under its users\<close>

text \<open>
  Users hold guards: \<open>W\<close> are the frames held for writing, \<open>R\<close> counts the read guards of each
  frame.  The content lock of a frame makes a write guard exclusive and keeps a flush out of it.
  Each step is one call of an operation; steps of different users interleave freely.
  The label says what the step means for the pages.
\<close>

datatype pool_act =
  Quiet
| ReadPage page_id page
| ClaimPage page_id
| NewPage page_id
| WritePage page_id page
| ExtendFile

type_synonym 'w pool_state = "'w pool \<times> nat set \<times> (nat \<Rightarrow> nat)"

inductive pool_step :: "bincode \<Rightarrow> 'w wal_ops \<Rightarrow> 'w pool_state \<Rightarrow> pool_act \<Rightarrow> 'w pool_state \<Rightarrow> bool"
  for bc ops where
  pin: "pin ops io pid p = (Ok f, p') \<Longrightarrow> f \<notin> W \<Longrightarrow>
    pool_step bc ops (p, W, R) (ReadPage pid (fr_content (frame_at p' f))) (p', W, R(f := R f + 1))"
| pin_fails: "pin ops io pid p = (Err e, p') \<Longrightarrow> pool_step bc ops (p, W, R) Quiet (p', W, R)"
| pin_mut: "pin_mut bc ops io pid p = (Ok f, p') \<Longrightarrow> f \<notin> W \<Longrightarrow> R f = 0 \<Longrightarrow>
    pool_step bc ops (p, W, R) (ClaimPage pid) (p', insert f W, R)"
| pin_mut_fails: "pin_mut bc ops io pid p = (Err e, p') \<Longrightarrow> (\<And>f. bp_table p pid = Some f \<Longrightarrow> f \<notin> W \<and> R f = 0) \<Longrightarrow>
    pool_step bc ops (p, W, R) Quiet (p', W, R)"
| new_page: "new_page ops io pid p = (Ok f, p') \<Longrightarrow> pid \<noteq> 0 \<Longrightarrow> f \<notin> W \<Longrightarrow> R f = 0 \<Longrightarrow>
    pool_step bc ops (p, W, R) (NewPage pid) (p', insert f W, R)"
| new_page_fails: "new_page ops io pid p = (Err e, p') \<Longrightarrow> pid \<noteq> 0 \<Longrightarrow> pool_step bc ops (p, W, R) Quiet (p', W, R)"
| guard_write: "f \<in> W \<Longrightarrow> length pg = PAGE_SIZE \<Longrightarrow> unat (page_pd_lsn pg) \<le> wo_current ops (bp_wal p) \<Longrightarrow>
    pool_step bc ops (p, W, R) (WritePage (fr_page_id (frame_at p f)) pg) (guard_write f pg p, W, R)"
| drop_guard_mut: "f \<in> W \<Longrightarrow> pool_step bc ops (p, W, R) Quiet (drop_guard_mut f p, W - {f}, R)"
| drop_guard: "R f > 0 \<Longrightarrow> pool_step bc ops (p, W, R) Quiet (unpin f p, W, R(f := R f - 1))"
| flush: "flush_page ops io pid p = (r, p') \<Longrightarrow> (\<And>f. bp_table p pid = Some f \<Longrightarrow> f \<notin> W) \<Longrightarrow>
    pool_step bc ops (p, W, R) Quiet (p', W, R)"
| append_log: "wo_append ops (bp_wal p) rec = (res, w) \<Longrightarrow> pool_step bc ops (p, W, R) Quiet (p\<lparr> bp_wal := w \<rparr>, W, R)"
| sync_log: "wo_flush_to ops (bp_wal p) l = (r, w) \<Longrightarrow> pool_step bc ops (p, W, R) Quiet (p\<lparr> bp_wal := w \<rparr>, W, R)"
| set_checkpoint_lsn: "pool_step bc ops (p, W, R) Quiet (set_checkpoint_lsn l p, W, R)"
| extend: "(\<And>pid. pid \<notin> N \<Longrightarrow> ext pid = None) \<Longrightarrow> (\<And>pid. pid \<in> N \<Longrightarrow> bp_file p pid = None \<and> bp_disk p pid = None \<and> bp_table p pid = None \<and>
      ext pid = Some (replicate PAGE_SIZE 0)) \<Longrightarrow>
    pool_step bc ops (p, W, R) ExtendFile (p\<lparr> bp_file := bp_file p ++ ext, bp_disk := bp_disk p ++ ext \<rparr>, W, R)"

text \<open>What a step means for the pages: the store the users believe they work on.\<close>

fun store_step :: "pool_act \<Rightarrow> (page_id \<Rightarrow> page option) \<Rightarrow> (page_id \<Rightarrow> page option) \<Rightarrow> bool" where
  "store_step Quiet v v' \<longleftrightarrow> v' = v"
| "store_step (ReadPage pid pg) v v' \<longleftrightarrow> v' = v \<and> v pid = Some pg"
| "store_step (ClaimPage pid) v v' \<longleftrightarrow>
    (\<exists>pg. v pid = Some pg \<and> (v' = v \<or> (\<exists>l. v' = v(pid \<mapsto> set_page_pd_lsn pg l))))"
| "store_step (NewPage pid) v v' \<longleftrightarrow> v' = v(pid \<mapsto> replicate PAGE_SIZE 0) \<or> v' = v \<and> v pid \<noteq> None"
| "store_step (WritePage pid pg) v v' \<longleftrightarrow> v pid \<noteq> None \<and> v' = v(pid \<mapsto> pg)"
| "store_step ExtendFile v v' \<longleftrightarrow>
    (\<forall>pid. v' pid = v pid \<or> v pid = None \<and> v' pid = Some (replicate PAGE_SIZE 0))"

inductive pool_run ::
  "bincode \<Rightarrow> 'w wal_ops \<Rightarrow> 'w pool_state \<Rightarrow> pool_act list \<Rightarrow> 'w pool_state \<Rightarrow> bool"
  for bc ops where
  start: "pool_run bc ops s [] s"
| step: "pool_run bc ops s as t \<Longrightarrow> pool_step bc ops t a u \<Longrightarrow> pool_run bc ops s (as @ [a]) u"

inductive store_run :: "(page_id \<Rightarrow> page option) \<Rightarrow> pool_act list \<Rightarrow> (page_id \<Rightarrow> page option) \<Rightarrow> bool" where
  start: "store_run v [] v"
| step: "store_run v as v' \<Longrightarrow> store_step a v' v'' \<Longrightarrow> store_run v (as @ [a]) v''"

text \<open>Guards pin their frames, and a frame held for writing is marked dirty.\<close>

definition guards_ok :: "'w pool \<Rightarrow> nat set \<Rightarrow> (nat \<Rightarrow> nat) \<Rightarrow> bool" where
  "guards_ok p W R \<longleftrightarrow> (\<forall>f < length (bp_frames p). fr_pin_count (frame_at p f) = R f + (if f \<in> W then 1 else 0)) \<and>
     (\<forall>f. f \<in> W \<longrightarrow> f < length (bp_frames p) \<and> fr_page_id (frame_at p f) \<noteq> 0 \<and> fr_dirty (frame_at p f)) \<and>
     (\<forall>f. R f > 0 \<longrightarrow> f < length (bp_frames p))"

definition pool_inv :: "'w wal_ops \<Rightarrow> ('w \<Rightarrow> bool) \<Rightarrow> 'w pool_state \<Rightarrow> bool" where
  "pool_inv ops log_ok s \<longleftrightarrow> (case s of (p, W, R) \<Rightarrow> pool_ok ops log_ok p \<and> settled p \<and> guards_ok p W R)"

lemma evictedD:
  assumes "evicted ops log_ok p r q"
  shows "pool_ok ops log_ok q" "pool_view q = pool_view p" "length (bp_frames q) = length (bp_frames p)"
    "settled p \<Longrightarrow> settled q" "wo_current ops (bp_wal q) = wo_current ops (bp_wal p)"
    "g < length (bp_frames p) \<Longrightarrow> fr_pin_count (frame_at q g) = fr_pin_count (frame_at p g)"
    "g < length (bp_frames p) \<Longrightarrow> fr_pin_count (frame_at p g) > 0 \<Longrightarrow> frame_at q g = frame_at p g"
    "bp_table p pid = None \<Longrightarrow> bp_table q pid = None"
    "r = Ok f \<Longrightarrow> f < length (bp_frames p) \<and> fr_pin_count (frame_at p f) = 0 \<and> (\<exists>c. frame_at q f = frame_default\<lparr> fr_content := c \<rparr>)"
  using assms unfolding evicted_def same_pages_def by (blast | (cases "bp_table q pid"; force))+

lemma guards_ok_evicted:
  assumes "evicted ops log_ok p r q" "guards_ok p W R"
  shows "guards_ok q W R"
proof -
  note g = assms(2) [unfolded guards_ok_def]
  have "frame_at q f = frame_at p f" if "f \<in> W" for f
    using evictedD(7) [OF assms(1), of f] g that by simp
  then show ?thesis
    using g evictedD(3,6) [OF assms(1)] by (simp add: guards_ok_def)
qed

lemma guards_okD:
  assumes "guards_ok p W R"
  shows "f < length (bp_frames p) \<Longrightarrow> fr_pin_count (frame_at p f) = R f + (if f \<in> W then 1 else 0)"
    "f \<in> W \<Longrightarrow> f < length (bp_frames p)" "f \<in> W \<Longrightarrow> fr_page_id (frame_at p f) \<noteq> 0" "f \<in> W \<Longrightarrow> fr_dirty (frame_at p f)"
    "R f > 0 \<Longrightarrow> f < length (bp_frames p)"
  using assms by (simp_all add: guards_ok_def)

text \<open>A frame changes and a guard of it is taken or dropped.\<close>

lemma guards_ok_upd:
  assumes "guards_ok p W R" "f < length (bp_frames p)" "length (bp_frames p') = length (bp_frames p)"
    "\<And>g. g \<noteq> f \<Longrightarrow> frame_at p' g = frame_at p g"
    "fr_pin_count (frame_at p' f) = R' f + (if f \<in> W' then 1 else 0)"
    "f \<in> W' \<Longrightarrow> fr_page_id (frame_at p' f) \<noteq> 0 \<and> fr_dirty (frame_at p' f)"
    "\<And>g. g \<noteq> f \<Longrightarrow> R' g = R g" "\<And>g. g \<noteq> f \<Longrightarrow> g \<in> W' \<longleftrightarrow> g \<in> W"
  shows "guards_ok p' W' R'"
  unfolding guards_ok_def
proof (intro conjI allI impI)
  fix g
  show "g < length (bp_frames p') \<Longrightarrow> fr_pin_count (frame_at p' g) = R' g + (if g \<in> W' then 1 else 0)"
    using assms guards_okD(1) [OF assms(1), of g] by (cases "g = f") auto
  show "R' g > 0 \<Longrightarrow> g < length (bp_frames p')"
    using assms(2,3,7) guards_okD(5) [OF assms(1), of g] by (cases "g = f") auto
  assume "g \<in> W'"
  then show "g < length (bp_frames p')" "fr_page_id (frame_at p' g) \<noteq> 0" "fr_dirty (frame_at p' g)"
    using assms(2-4,6,8) guards_okD(2-4) [OF assms(1), of g] by (cases "g = f"; simp)+
qed

lemma settled_upd:
  "settled p \<Longrightarrow> f < length (bp_frames p) \<Longrightarrow> \<not> fr_evicting (u (frame_at p f)) \<Longrightarrow> settled (upd_frame f u p)"
  by (simp add: settled_def)

lemma settled_table [simp]: "settled (p\<lparr> bp_table := t \<rparr>) = settled p"
  by (simp add: settled_def)

lemma view_of_table: "bp_table p pid = Some f \<Longrightarrow> pool_view p pid = Some (fr_content (frame_at p f))"
  by (simp add: pool_view_def)

lemma frame_ok_file: "pool_ok ops log_ok p \<Longrightarrow> bp_file p pid = Some pg \<Longrightarrow>
    length pg = PAGE_SIZE \<and> unat (page_pd_lsn pg) \<le> wo_synced ops (bp_wal p)"
  by (drule pool_okD(3)) (simp add: file_ok_def)

lemma zero_page_lsn [simp]: "page_pd_lsn (replicate PAGE_SIZE 0) = 0"
  by (simp add: page_pd_lsn_def PAGE_SIZE_def get_u64_def le_u64_zeros)

lemma pool_ok_content:
  assumes ok: "pool_ok ops log_ok p" and f: "f < length (bp_frames p)"
    and u: "fr_page_id (u (frame_at p f)) = fr_page_id (frame_at p f)" "frame_ok ops p (u (frame_at p f))"
      "fr_dirty (frame_at p f) \<Longrightarrow> fr_dirty (u (frame_at p f))"
  shows "pool_ok ops log_ok (upd_frame f u p)"
    "pool_view (upd_frame f u p) = (if fr_page_id (frame_at p f) = 0 then pool_view p
       else (pool_view p)(fr_page_id (frame_at p f) \<mapsto> fr_content (u (frame_at p f))))"
proof -
  let ?p' = "upd_frame f u p"
  note t = pool_okD(1) [OF ok]
  have "frame_ok ops ?p' (frame_at ?p' g)" if "g < length (bp_frames p)" for g
    using pool_okD(2) [OF ok that] u(2) f by (auto simp: frame_ok_def)
  moreover have "clean_synced ?p'"
  proof (rule clean_syncedI)
    fix pid
    assume a: "\<And>g. bp_table ?p' pid = Some g \<Longrightarrow> \<not> fr_dirty (frame_at ?p' g)"
    have "\<not> fr_dirty (frame_at p g)" if "bp_table p pid = Some g" for g
      using a [of g] that f u(3) by (auto split: if_splits)
    then show "bp_disk ?p' pid = bp_file ?p' pid"
      using clean_syncedD [OF pool_okD(6) [OF ok]] by simp
  qed
  ultimately show "pool_ok ops log_ok ?p'"
    using ok f u table_ok_cong [of ?p' p] by (auto simp: pool_ok_def file_ok_def)
  show "pool_view ?p' = (if fr_page_id (frame_at p f) = 0 then pool_view p
       else (pool_view p)(fr_page_id (frame_at p f) \<mapsto> fr_content (u (frame_at p f))))"
    using f table_okI [OF t f] table_okD(2,3) [OF t] by (auto simp: pool_view_def fun_eq_iff split: option.split)
qed

lemma locate_or_load_alloc: "locate_or_load ops io pid p = alloc_frame ops io pid True p"
  by (simp add: locate_or_load_def alloc_frame_def split: option.split)

lemma pool_inv_iff: "pool_inv ops log_ok (p, W, R) \<longleftrightarrow> pool_ok ops log_ok p \<and> settled p \<and> guards_ok p W R"
  by (simp add: pool_inv_def)

context pool_log
begin

text \<open>Pinning a page that is resident, and filling a frame.\<close>

lemma alloc_frame_fails:
  assumes inv: "pool_inv ops log_ok (p, W, R)" and res: "alloc_frame ops io pid load p = (Err e, p')"
  shows "pool_inv ops log_ok (p', W, R)" "pool_view p' = pool_view p"
proof -
  note i = inv [unfolded pool_inv_iff]
  show "pool_inv ops log_ok (p', W, R)" "pool_view p' = pool_view p"
  proof (atomize (full), cases rule: alloc_frame_cases [of p pid io load, case_names ok st resident full unread loaded])
    case (full e' q)
    then show "pool_inv ops log_ok (p', W, R) \<and> pool_view p' = pool_view p"
      using res i evictedD(1,2,4) [OF full(2)] guards_ok_evicted [OF full(2)] by (simp add: pool_inv_iff)
  next
    case (unread f q)
    let ?u = "\<lambda>m :: frame. m\<lparr> fr_content := replicate PAGE_SIZE 0 \<rparr>"
    have p': "p' = upd_frame f ?u q"
      using res unread by simp
    obtain c where f: "f < length (bp_frames q)" "fr_pin_count (frame_at p f) = 0" "frame_at q f = frame_default\<lparr> fr_content := c \<rparr>"
      using evictedD(3,9) [OF unread(2)] by auto
    have "pool_ok ops log_ok p'" "pool_view p' = pool_view q"
      using pool_ok_content [OF evictedD(1) [OF unread(2)] f(1), of ?u] pool_okD(2) [OF evictedD(1) [OF unread(2)] f(1)]
      by (simp_all add: p' f(3) frame_ok_def frame_default_def)
    moreover have "settled p'"
      unfolding p' using evictedD(4) [OF unread(2)] i f by (intro settled_upd) (simp_all add: frame_default_def)
    moreover have "guards_ok p' W R"
    proof (rule guards_ok_upd [OF guards_ok_evicted [OF unread(2)] f(1)])
      show "guards_ok p W R"
        using i by blast
      then show "f \<in> W \<Longrightarrow> fr_page_id (frame_at p' f) \<noteq> 0 \<and> fr_dirty (frame_at p' f)"
        "fr_pin_count (frame_at p' f) = R f + (if f \<in> W then 1 else 0)"
        using guards_okD(1) [of p W R f] f evictedD(3) [OF unread(2)] by (auto simp: p' frame_default_def split: if_splits)
    qed (use f in \<open>simp_all add: p'\<close>)
    ultimately show "pool_inv ops log_ok (p', W, R) \<and> pool_view p' = pool_view p"
      using evictedD(2) [OF unread(2)] by (simp add: pool_inv_iff)
  qed (use i res in auto)
qed

end

text \<open>
  A call that gets its frame, and what the caller then sets on it: \<open>u\<close> is the identity for
  \<open>pin\<close>, marks the frame dirty for \<open>pin_mut\<close>, and also clears \<open>needs_fpi\<close> for \<open>new_page\<close>.
\<close>

definition claims :: "(frame \<Rightarrow> frame) \<Rightarrow> bool" where
  "claims u \<longleftrightarrow> (\<forall>m. fr_page_id (u m) = fr_page_id m \<and> fr_content (u m) = fr_content m \<and> fr_pin_count (u m) = fr_pin_count m \<and>
     fr_evicting (u m) = fr_evicting m \<and> fr_flushing (u m) = fr_flushing m \<and> (fr_dirty m \<longrightarrow> fr_dirty (u m)))"

lemma claimsD:
  assumes "claims u"
  shows "fr_page_id (u m) = fr_page_id m" "fr_content (u m) = fr_content m" "fr_pin_count (u m) = fr_pin_count m"
    "fr_evicting (u m) = fr_evicting m" "fr_flushing (u m) = fr_flushing m" "fr_dirty m \<Longrightarrow> fr_dirty (u m)"
  using assms by (simp_all add: claims_def)

lemma claims_simps [simp]:
  "claims (\<lambda>m. m)" "claims (fr_dirty_update (\<lambda>_. True))" "claims (\<lambda>m. m\<lparr> fr_needs_fpi := False, fr_dirty := True \<rparr>)"
  by (simp_all add: claims_def)

definition pinned :: "'w wal_ops \<Rightarrow> ('w \<Rightarrow> bool) \<Rightarrow> nat set \<Rightarrow> (nat \<Rightarrow> nat) \<Rightarrow> page_id \<Rightarrow> nat \<Rightarrow> 'w pool \<Rightarrow> bool" where
  "pinned ops log_ok W R pid f p \<longleftrightarrow> pool_ok ops log_ok p \<and> settled p \<and> f < length (bp_frames p) \<and> bp_table p pid = Some f \<and>
     guards_ok p W (R(f := R f + 1))"

lemma guards_claim:
  assumes "guards_ok p W R" "f < length (bp_frames p)" "f \<notin> W" "length (bp_frames p') = length (bp_frames p)"
    "\<And>g. g \<noteq> f \<Longrightarrow> frame_at p' g = frame_at p g" "fr_pin_count (frame_at p' f) = fr_pin_count (frame_at p f) + 1"
  shows "guards_ok p' W (R(f := R f + 1))"
  by (rule guards_ok_upd [OF assms(1,2,4,5)]) (use assms guards_okD(1) [OF assms(1,2)] in auto)

context pool_log
begin

lemma alloc_frame_pins:
  assumes inv: "pool_inv ops log_ok (p, W, R)" and pid: "pid \<noteq> 0" and u: "claims u" "\<not> load \<Longrightarrow> \<forall>m. fr_dirty (u m)"
    and res: "alloc_frame ops io pid load p = (Ok f, q)" and f: "f \<notin> W"
  shows "pinned ops log_ok W R pid f (upd_frame f u q) \<and>
    (pool_view (upd_frame f u q) = pool_view p \<and> pool_view p pid \<noteq> None \<or>
     \<not> load \<and> pool_view (upd_frame f u q) = (pool_view p)(pid \<mapsto> replicate PAGE_SIZE 0)) \<and>
    wo_current ops (bp_wal q) = wo_current ops (bp_wal p)"
proof -
  have ok: "pool_ok ops log_ok p" and st: "settled p" and g: "guards_ok p W R"
    using inv by (simp_all add: pool_inv_iff)
  note t = pool_okD(1) [OF ok]
  show ?thesis
  proof (cases rule: alloc_frame_cases [OF ok st, of pid io load, case_names resident full unread loaded])
    case (resident h)
    have h: "h = f" and q: "q = upd_frame f pin_frame p"
      using res resident by auto
    have fl: "f < length (bp_frames p)" and tf: "bp_table p pid = Some f"
      using table_okD [OF t resident(1)] resident(1) h by auto
    let ?p' = "upd_frame f (\<lambda>m. u (pin_frame m)) p"
    have eq: "upd_frame f u q = ?p'"
      using fl by (simp add: q upd_frame_twice)
    have "pool_ok ops log_ok ?p'" "same_pages ops p ?p'"
      using claimsD [OF u(1)] pool_okD(2) [OF ok fl]
      by (intro pool_ok_upd [OF ok fl]; simp add: pin_frame_def frame_ok_def)+
    moreover have "settled ?p'"
      using st fl claimsD [OF u(1)] by (intro settled_upd) (simp_all add: pin_frame_def settled_def)
    moreover have "guards_ok ?p' W (R(f := R f + 1))"
      by (rule guards_claim [OF g fl f]) (use fl claimsD [OF u(1)] in \<open>simp_all add: pin_frame_def\<close>)
    ultimately show ?thesis
      using tf fl unfolding eq by (simp add: pinned_def same_pages_def view_of_table q)
  next
    case (loaded h r pg)
    have h: "h = f" and q: "q = (upd_frame f (\<lambda>m. loaded_frame pid pg) r)\<lparr> bp_table := (bp_table r)(pid \<mapsto> f) \<rparr>"
      using res loaded by auto
    note ev = loaded(2) [unfolded h]
    obtain c where fl: "f < length (bp_frames r)" and fr: "frame_at r f = frame_default\<lparr> fr_content := c \<rparr>"
      using evictedD(3,9) [OF ev] by auto
    have nt: "bp_table r pid = None"
      using evictedD(8) [OF ev loaded(1)] .
    let ?m = "u (loaded_frame pid pg)"
    let ?p' = "(upd_frame f (\<lambda>m. ?m) r)\<lparr> bp_table := (bp_table r)(pid \<mapsto> f) \<rparr>"
    have eq: "upd_frame f u q = ?p'"
      using fl by (simp add: q upd_frame_table upd_frame_twice)
    have m: "fr_page_id ?m = pid" "fr_pin_count ?m = 1" "\<not> fr_evicting ?m" "\<not> fr_flushing ?m" "fr_content ?m = pg"
      using claimsD [OF u(1)] by (simp_all add: loaded_frame_def frame_default_def)
    have "frame_ok ops r ?m"
      using m loaded(3) u(2) frame_ok_file [OF evictedD(1) [OF ev], of pid pg] log_synced [OF pool_okD(5) [OF evictedD(1) [OF ev]]]
      by (cases load) (auto simp: frame_ok_def)
    then have a: "pool_ok ops log_ok ?p'" "pool_view ?p' = (pool_view r)(pid \<mapsto> pg)"
      using pool_ok_fill [OF evictedD(1) [OF ev] fl _ pid nt HOL.refl m(1) _ HOL.refl] fr m(5)
      by (simp_all add: frame_default_def)
    have "settled ?p'"
      using settled_upd [OF evictedD(4) [OF ev st] fl, of "\<lambda>m. ?m"] m(3) by simp
    moreover have "guards_ok ?p' W (R(f := R f + 1))"
      by (rule guards_claim [OF guards_ok_evicted [OF ev g] fl f]) (use fl m fr in \<open>simp_all add: frame_default_def\<close>)
    moreover have "load \<Longrightarrow> pool_view r pid = Some pg"
      using loaded(3) nt by (simp add: pool_view_def)
    ultimately show ?thesis
      using a fl loaded(3) evictedD(2,5) [OF ev] unfolding eq
      by (cases load) (auto simp: pinned_def q fun_upd_idem)
  qed (use res in auto)
qed

end

lemma guards_to_write:
  assumes "guards_ok p W (R(f := R f + 1))" "f \<notin> W" "f < length (bp_frames p)" "fr_page_id (frame_at p f) \<noteq> 0" "fr_dirty (frame_at p f)"
  shows "guards_ok p (insert f W) R"
  by (rule guards_ok_upd [OF assms(1,3)]) (use assms guards_okD(1) [OF assms(1,3)] in auto)

lemma set_page_pd_lsn_facts [simp]:
  "8 \<le> length pg \<Longrightarrow> length (set_page_pd_lsn pg l) = length pg" "8 \<le> length pg \<Longrightarrow> page_pd_lsn (set_page_pd_lsn pg l) = l"
  by (simp_all add: set_page_pd_lsn_def page_pd_lsn_def buf_simps)

lemma unat_of_nat_le: "unat (of_nat n :: 'a::len word) \<le> n"
  by (simp add: unat_of_nat)

lemma pool_inv_cong:
  assumes "pool_inv ops log_ok (p, W, R)" "pool_ok ops log_ok p'" "length (bp_frames p') = length (bp_frames p)"
    "\<And>f. frame_at p' f = frame_at p f"
  shows "pool_inv ops log_ok (p', W, R)"
  using assms by (simp add: pool_inv_iff settled_def guards_ok_def)

context pool_log
begin

lemma pool_inv_log:
  assumes "pool_inv ops log_ok (p, W, R)" "log_ok w" "wo_current ops (bp_wal p) \<le> wo_current ops w"
    "wo_synced ops (bp_wal p) \<le> wo_synced ops w"
  shows "pool_inv ops log_ok (p\<lparr> bp_wal := w \<rparr>, W, R)" "pool_view (p\<lparr> bp_wal := w \<rparr>) = pool_view p"
proof -
  have ok: "pool_ok ops log_ok p"
    using assms(1) by (simp add: pool_inv_iff)
  show "pool_inv ops log_ok (p\<lparr> bp_wal := w \<rparr>, W, R)"
    by (rule pool_inv_cong [OF assms(1) pool_ok_log(1) [OF ok assms(2-4)]]) simp_all
  show "pool_view (p\<lparr> bp_wal := w \<rparr>) = pool_view p"
    by (rule pool_ok_log(2) [OF ok assms(2-4)])
qed

text \<open>Changing a frame held for writing.\<close>

lemma pool_inv_held:
  assumes inv: "pool_inv ops log_ok (p, W, R)" and f: "f \<in> W"
    and u: "fr_page_id (u (frame_at p f)) = fr_page_id (frame_at p f)" "fr_dirty (u (frame_at p f))"
      "fr_evicting (u (frame_at p f)) = fr_evicting (frame_at p f)" "fr_flushing (u (frame_at p f)) = fr_flushing (frame_at p f)"
      "fr_pin_count (u (frame_at p f)) = fr_pin_count (frame_at p f)"
      "length (fr_content (u (frame_at p f))) = PAGE_SIZE"
      "unat (page_pd_lsn (fr_content (u (frame_at p f)))) \<le> wo_current ops (bp_wal p)"
  shows "pool_inv ops log_ok (upd_frame f u p, W, R)"
    "pool_view (upd_frame f u p) = (pool_view p)(fr_page_id (frame_at p f) \<mapsto> fr_content (u (frame_at p f)))"
proof -
  have ok: "pool_ok ops log_ok p" and st: "settled p" and g: "guards_ok p W R"
    using inv by (simp_all add: pool_inv_iff)
  note fl = guards_okD(2) [OF g f]
  have fok: "frame_ok ops p (u (frame_at p f))"
    using pool_okD(2) [OF ok fl] u by (simp add: frame_ok_def)
  note c = pool_ok_content [where u = u, OF ok fl u(1) fok u(2)]
  have "settled (upd_frame f u p)"
    using st u(3) fl by (intro settled_upd) (simp_all add: settled_def)
  moreover have "guards_ok (upd_frame f u p) W R"
    by (rule guards_ok_upd [OF g fl]) (use fl u guards_okD [OF g] f in auto)
  ultimately show "pool_inv ops log_ok (upd_frame f u p, W, R)"
    using c(1) by (simp add: pool_inv_iff)
  show "pool_view (upd_frame f u p) = (pool_view p)(fr_page_id (frame_at p f) \<mapsto> fr_content (u (frame_at p f)))"
    using c(2) guards_okD(3) [OF g f] by simp
qed

lemma held_view:
  assumes "pool_inv ops log_ok (p, W, R)" "f \<in> W"
  shows "pool_view p (fr_page_id (frame_at p f)) = Some (fr_content (frame_at p f))"
  using assms table_okI [OF pool_okD(1), of ops log_ok p f] by (auto simp: pool_inv_iff guards_okD view_of_table)

lemma ensure_fpi_ok:
  assumes inv: "pool_inv ops log_ok (p, W, R)" and f: "f \<in> W" "fr_page_id (frame_at p f) = pid"
    and res: "ensure_fpi bc ops f pid p = (r, p')"
  shows "pool_inv ops log_ok (p', W, R)" "r = Err e \<Longrightarrow> pool_view p' = pool_view p"
    "pool_view p' = pool_view p \<or> (\<exists>pg l. pool_view p pid = Some pg \<and> pool_view p' = (pool_view p)(pid \<mapsto> set_page_pd_lsn pg l))"
proof -
  let ?c = "fr_content (frame_at p f)"
  have ok: "pool_ok ops log_ok p" and g: "guards_ok p W R"
    using inv by (simp_all add: pool_inv_iff)
  have len: "length ?c = PAGE_SIZE"
    using pool_okD(2) [OF ok guards_okD(2) [OF g f(1)]] by (simp add: frame_ok_def)
  have "pool_inv ops log_ok (p', W, R) \<and> (r = Err e \<longrightarrow> pool_view p' = pool_view p) \<and>
    (pool_view p' = pool_view p \<or> (\<exists>pg l. pool_view p pid = Some pg \<and> pool_view p' = (pool_view p)(pid \<mapsto> set_page_pd_lsn pg l)))"
  proof (cases "p' = p")
    case True
    then show ?thesis
      using inv by simp
  next
    case False
    then obtain rec res' w where rec: "full_page_image bc pid ?c = Ok rec" "wo_append ops (bp_wal p) rec = (res', w)"
      using res by (auto simp: ensure_fpi_def Let_def split: if_splits sum.splits prod.splits)
    note a = log_append [OF pool_okD(5) [OF ok] rec(2)]
    note l = pool_inv_log [OF inv, of w]
    show ?thesis
    proof (cases res')
      case (Inl e')
      then have "p' = p\<lparr> bp_wal := w \<rparr>"
        using res rec False by (auto simp: ensure_fpi_def Let_def split: if_splits)
      then show ?thesis
        using l a by simp
    next
      case (Inr fl)
      let ?u = "\<lambda>m. m\<lparr> fr_content := set_page_pd_lsn (fr_content m) (of_nat fl), fr_cached_lsn := of_nat fl,
         fr_first_dirty_lsn := (if fr_first_dirty_lsn m = 0 then of_nat fl else fr_first_dirty_lsn m), fr_dirty := True \<rparr>"
      have p': "p' = upd_frame f ?u (p\<lparr> bp_wal := w \<rparr>)" "r = Ok ()"
        using res rec False Inr by (auto simp: ensure_fpi_def Let_def split: if_splits)
      have "unat (of_nat fl :: lsn) \<le> wo_current ops w"
        using a Inr by (intro order_trans [OF unat_of_nat_le]) simp
      then have "pool_inv ops log_ok (p', W, R)" "pool_view p' = (pool_view p)(pid \<mapsto> set_page_pd_lsn ?c (of_nat fl))"
        using pool_inv_held [OF l(1) f(1), of ?u] a l(2) f(2) len by (simp_all add: p'(1) PAGE_SIZE_def)
      then show ?thesis
        using held_view [OF inv f(1)] f(2) p'(2) by auto
    qed
  qed
  then show "pool_inv ops log_ok (p', W, R)" "r = Err e \<Longrightarrow> pool_view p' = pool_view p"
    "pool_view p' = pool_view p \<or> (\<exists>pg l. pool_view p pid = Some pg \<and> pool_view p' = (pool_view p)(pid \<mapsto> set_page_pd_lsn pg l))"
    by blast+
qed

end

context pool_log
begin

text \<open>Dropping a guard.\<close>

lemma drop_guard_mut_ok:
  assumes inv: "pool_inv ops log_ok (p, W, R)" and f: "f \<in> W"
  shows "pool_inv ops log_ok (drop_guard_mut f p, W - {f}, R)" "pool_view (drop_guard_mut f p) = pool_view p"
proof -
  have ok: "pool_ok ops log_ok p" and st: "settled p" and g: "guards_ok p W R"
    using inv by (simp_all add: pool_inv_iff)
  note fl = guards_okD(2) [OF g f]
  let ?u = "\<lambda>m. m\<lparr> fr_first_dirty_lsn := (if fr_first_dirty_lsn m = 0 then page_pd_lsn (fr_content m) else fr_first_dirty_lsn m),
    fr_dirty := True, fr_pin_count := fr_pin_count m - 1 \<rparr>"
  have d: "drop_guard_mut f p = upd_frame f ?u p"
    using guards_okD(3) [OF g f] fl by (simp add: drop_guard_mut_def unpin_def upd_frame_twice) (simp add: upd_frame_def frame_at_def)
  have "pool_ok ops log_ok (upd_frame f ?u p)" "same_pages ops p (upd_frame f ?u p)"
    using pool_okD(2) [OF ok fl] by (intro pool_ok_upd [OF ok fl]; simp add: frame_ok_def)+
  moreover have "settled (upd_frame f ?u p)"
    using st fl by (intro settled_upd) (simp_all add: settled_def)
  moreover have "guards_ok (upd_frame f ?u p) (W - {f}) R"
    by (rule guards_ok_upd [OF g fl]) (use fl f guards_okD(1) [OF g fl] in auto)
  ultimately show "pool_inv ops log_ok (drop_guard_mut f p, W - {f}, R)" "pool_view (drop_guard_mut f p) = pool_view p"
    by (simp_all add: d pool_inv_iff same_pages_def)
qed

lemma drop_guard_ok:
  assumes inv: "pool_inv ops log_ok (p, W, R)" and f: "R f > 0"
  shows "pool_inv ops log_ok (unpin f p, W, R(f := R f - 1))" "pool_view (unpin f p) = pool_view p"
proof -
  have ok: "pool_ok ops log_ok p" and st: "settled p" and g: "guards_ok p W R"
    using inv by (simp_all add: pool_inv_iff)
  note fl = guards_okD(5) [OF g f]
  have "pool_ok ops log_ok (unpin f p)" "same_pages ops p (unpin f p)"
    unfolding unpin_def using pool_okD(2) [OF ok fl] by (intro pool_ok_upd [OF ok fl]; simp add: frame_ok_def)+
  moreover have "settled (unpin f p)"
    unfolding unpin_def using st fl by (intro settled_upd) (simp_all add: settled_def)
  moreover have "guards_ok (unpin f p) W (R(f := R f - 1))"
    by (rule guards_ok_upd [OF g fl]) (use fl f guards_okD [OF g] in \<open>auto simp: unpin_def\<close>)
  ultimately show "pool_inv ops log_ok (unpin f p, W, R(f := R f - 1))" "pool_view (unpin f p) = pool_view p"
    by (simp_all add: pool_inv_iff same_pages_def)
qed

lemma pin_ok:
  assumes inv: "pool_inv ops log_ok (p, W, R)" and res: "pin ops io pid p = (r, p')"
  shows "r = Ok f \<Longrightarrow> f \<notin> W \<Longrightarrow> pool_inv ops log_ok (p', W, R(f := R f + 1)) \<and> pool_view p' = pool_view p \<and>
      pool_view p pid = Some (fr_content (frame_at p' f))"
    "r = Err e \<Longrightarrow> pool_inv ops log_ok (p', W, R) \<and> pool_view p' = pool_view p"
proof -
  have id: "upd_frame f (\<lambda>m. m) q = q" for f and q :: "'w pool"
    by (simp add: upd_frame_def)
  show "r = Ok f \<Longrightarrow> f \<notin> W \<Longrightarrow> pool_inv ops log_ok (p', W, R(f := R f + 1)) \<and> pool_view p' = pool_view p \<and>
      pool_view p pid = Some (fr_content (frame_at p' f))"
    using alloc_frame_pins [OF inv, of pid "\<lambda>m. m" True io f p'] res
    by (auto simp: pin_def locate_or_load_alloc pinned_def pool_inv_iff id dest: view_of_table split: if_splits)
  show "r = Err e \<Longrightarrow> pool_inv ops log_ok (p', W, R) \<and> pool_view p' = pool_view p"
    using alloc_frame_fails [OF inv, of io pid True] res inv by (auto simp: pin_def locate_or_load_alloc split: if_splits)
qed

text \<open>A frame taken for writing.\<close>

lemma claimed_write:
  assumes "pinned ops log_ok W R pid f p" "f \<notin> W" "fr_dirty (frame_at p f)"
  shows "pool_inv ops log_ok (p, insert f W, R)" "fr_page_id (frame_at p f) = pid"
proof -
  note i = assms(1) [unfolded pinned_def]
  have ok: "pool_ok ops log_ok p" and tf: "bp_table p pid = Some f"
    using i by simp_all
  have pid: "fr_page_id (frame_at p f) = pid" "pid \<noteq> 0"
    using table_okD(2,3) [OF pool_okD(1) [OF ok] tf] .
  then show "pool_inv ops log_ok (p, insert f W, R)"
    using i assms(2,3) guards_to_write [of p W R f] by (simp add: pool_inv_iff)
  show "fr_page_id (frame_at p f) = pid"
    by (rule pid(1))
qed

lemma pin_mut_without_fpi_ok:
  assumes inv: "pool_inv ops log_ok (p, W, R)" and res: "pin_mut_without_fpi ops io pid p = (r, p')"
  shows "r = Ok f \<Longrightarrow> f \<notin> W \<Longrightarrow> pool_inv ops log_ok (p', insert f W, R) \<and> pool_view p' = pool_view p \<and>
      fr_page_id (frame_at p' f) = pid"
    "r = Err e \<Longrightarrow> pool_inv ops log_ok (p', W, R) \<and> pool_view p' = pool_view p"
proof -
  assume r: "r = Ok f" and f: "f \<notin> W"
  then obtain q where q: "alloc_frame ops io pid True p = (Ok f, q)" "p' = upd_frame f (\<lambda>m. m\<lparr> fr_dirty := True \<rparr>) q" "pid \<noteq> 0"
    using res by (auto simp: pin_mut_without_fpi_def locate_or_load_alloc split: if_splits prod.splits sum.splits)
  have a: "pinned ops log_ok W R pid f p'" "pool_view p' = pool_view p"
    using alloc_frame_pins [OF inv q(3) _ _ q(1) f, of "\<lambda>m. m\<lparr> fr_dirty := True \<rparr>"] by (simp_all add: q(2))
  moreover have "fr_dirty (frame_at p' f)"
    using a(1) by (simp add: pinned_def q(2))
  ultimately show "pool_inv ops log_ok (p', insert f W, R) \<and> pool_view p' = pool_view p \<and> fr_page_id (frame_at p' f) = pid"
    using claimed_write [OF a(1) f] by simp
next
  assume "r = Err e"
  then show "pool_inv ops log_ok (p', W, R) \<and> pool_view p' = pool_view p"
    using alloc_frame_fails [OF inv, of io pid True] res inv
    by (auto simp: pin_mut_without_fpi_def locate_or_load_alloc split: if_splits prod.splits sum.splits)
qed

end

context pool_log
begin

lemma alloc_frame_free:
  assumes inv: "pool_inv ops log_ok (p, W, R)" and res: "alloc_frame ops io pid load p = (Ok f, q)"
  shows "bp_table p pid = Some f \<or> f \<notin> W"
proof -
  have ok: "pool_ok ops log_ok p" and st: "settled p" and g: "guards_ok p W R"
    using inv by (simp_all add: pool_inv_iff)
  have "f \<notin> W" if "evicted ops log_ok p (Ok f) r" for r
    using evictedD(9) [OF that HOL.refl] guards_okD(1) [OF g, of f] by auto
  then show ?thesis
    using res by (cases rule: alloc_frame_cases [OF ok st, of pid io load]) auto
qed

lemma pin_mut_ok:
  assumes inv: "pool_inv ops log_ok (p, W, R)" and res: "pin_mut bc ops io pid p = (r, p')"
  shows "r = Ok f \<Longrightarrow> f \<notin> W \<Longrightarrow> pool_inv ops log_ok (p', insert f W, R) \<and>
      (\<exists>pg. pool_view p pid = Some pg \<and> (pool_view p' = pool_view p \<or> (\<exists>l. pool_view p' = (pool_view p)(pid \<mapsto> set_page_pd_lsn pg l))))"
    "r = Err e \<Longrightarrow> (\<And>f. bp_table p pid = Some f \<Longrightarrow> f \<notin> W) \<Longrightarrow> pool_inv ops log_ok (p', W, R) \<and> pool_view p' = pool_view p"
proof -
  obtain r0 q where q: "pin_mut_without_fpi ops io pid p = (r0, q)"
    by (metis prod.collapse)
  show "pool_inv ops log_ok (p', insert f W, R) \<and>
      (\<exists>pg. pool_view p pid = Some pg \<and> (pool_view p' = pool_view p \<or> (\<exists>l. pool_view p' = (pool_view p)(pid \<mapsto> set_page_pd_lsn pg l))))"
    if r: "r = Ok f" and f: "f \<notin> W"
  proof -
    obtain u where r0: "r0 = Ok f" and e: "ensure_fpi bc ops f pid q = (Ok u, p')"
      using res q r by (auto simp: pin_mut_def split: sum.splits prod.splits)
    have a: "pool_inv ops log_ok (q, insert f W, R)" "pool_view q = pool_view p" "fr_page_id (frame_at q f) = pid"
      using pin_mut_without_fpi_ok(1) [OF inv q r0 f] by simp_all
    have v: "pool_view p pid \<noteq> None"
      using held_view [OF a(1), of f] a(2,3) by simp
    show ?thesis
      using ensure_fpi_ok(1,3) [OF a(1) insertI1 a(3) e] v a(2) by auto
  qed
  show "pool_inv ops log_ok (p', W, R) \<and> pool_view p' = pool_view p"
    if r: "r = Err e" and W: "\<And>f. bp_table p pid = Some f \<Longrightarrow> f \<notin> W"
  proof (cases r0)
    case (Inl e')
    then show ?thesis
      using res q pin_mut_without_fpi_ok(2) [OF inv q] by (auto simp: pin_mut_def)
  next
    case (Inr f)
    obtain e' q' where e: "ensure_fpi bc ops f pid q = (Err e', q')" "p' = drop_guard_mut f q'"
      using res q r Inr by (auto simp: pin_mut_def split: sum.splits prod.splits)
    obtain q0 where "alloc_frame ops io pid True p = (Ok f, q0)"
      using q Inr by (auto simp: pin_mut_without_fpi_def locate_or_load_alloc split: if_splits prod.splits sum.splits)
    then have f: "f \<notin> W"
      using alloc_frame_free [OF inv] W by blast
    have a: "pool_inv ops log_ok (q, insert f W, R)" "pool_view q = pool_view p" "fr_page_id (frame_at q f) = pid"
      using pin_mut_without_fpi_ok(1) [OF inv q Inr f] by simp_all
    note b = ensure_fpi_ok(1,2) [OF a(1) insertI1 a(3) e(1)]
    show ?thesis
      using drop_guard_mut_ok [OF b(1) insertI1] b(2) a(2) f e(2) by simp
  qed
qed

lemma new_page_ok:
  assumes inv: "pool_inv ops log_ok (p, W, R)" and res: "new_page ops io pid p = (r, p')" and pid: "pid \<noteq> 0"
  shows "r = Ok f \<Longrightarrow> f \<notin> W \<Longrightarrow> pool_inv ops log_ok (p', insert f W, R) \<and>
      (pool_view p' = (pool_view p)(pid \<mapsto> replicate PAGE_SIZE 0) \<or> pool_view p' = pool_view p \<and> pool_view p pid \<noteq> None)"
    "r = Err e \<Longrightarrow> pool_inv ops log_ok (p', W, R) \<and> pool_view p' = pool_view p"
proof -
  let ?u = "\<lambda>m :: frame. m\<lparr> fr_needs_fpi := False, fr_dirty := True \<rparr>"
  assume r: "r = Ok f" and f: "f \<notin> W"
  then obtain q where q: "alloc_frame ops io pid False p = (Ok f, q)" "p' = upd_frame f ?u q"
    using res by (auto simp: new_page_def split: prod.splits sum.splits)
  have a: "pinned ops log_ok W R pid f p' \<and>
    (pool_view p' = pool_view p \<and> pool_view p pid \<noteq> None \<or> pool_view p' = (pool_view p)(pid \<mapsto> replicate PAGE_SIZE 0))"
    using alloc_frame_pins [OF inv pid _ _ q(1) f, of ?u] by (simp add: q(2))
  moreover have "fr_dirty (frame_at p' f)"
    using a by (simp add: pinned_def q(2))
  ultimately show "pool_inv ops log_ok (p', insert f W, R) \<and>
      (pool_view p' = (pool_view p)(pid \<mapsto> replicate PAGE_SIZE 0) \<or> pool_view p' = pool_view p \<and> pool_view p pid \<noteq> None)"
    using claimed_write(1) [of W R pid f p'] f by blast
next
  assume "r = Err e"
  then show "pool_inv ops log_ok (p', W, R) \<and> pool_view p' = pool_view p"
    using alloc_frame_fails [OF inv, of io pid False] res by (auto simp: new_page_def split: prod.splits sum.splits)
qed

lemma flush_page_ok:
  assumes inv: "pool_inv ops log_ok (p, W, R)" and res: "flush_page ops io pid p = (r, p')"
    and W: "\<And>f. bp_table p pid = Some f \<Longrightarrow> f \<notin> W"
  shows "pool_inv ops log_ok (p', W, R)" "pool_view p' = pool_view p" "r = Ok () \<Longrightarrow> bp_disk p' pid = pool_view p pid"
proof -
  have ok: "pool_ok ops log_ok p" and st: "settled p" and g: "guards_ok p W R"
    using inv by (simp_all add: pool_inv_iff)
  have "pool_inv ops log_ok (p', W, R) \<and> pool_view p' = pool_view p \<and> (r = Ok () \<longrightarrow> bp_disk p' pid = pool_view p pid)"
  proof (cases "bp_table p pid")
    case None
    then show ?thesis
      using res inv by (auto simp: flush_page_def split: if_splits)
  next
    case (Some f)
    note tf = table_okD [OF pool_okD(1) [OF ok] Some]
    have fl: "flush_frame ops io f p = (r, p')"
      using res Some tf(3) by (simp add: flush_page_def)
    note e = flush_frame_ok [OF ok tf(1) fl]
    obtain d l n where fr: "frame_at p' f = (frame_at p f)\<lparr> fr_dirty := d, fr_first_dirty_lsn := l, fr_needs_fpi := n \<rparr>"
      using e by blast
    have same: "pool_ok ops log_ok p'" "pool_view p' = pool_view p" "length (bp_frames p') = length (bp_frames p)"
      "bp_table p' = bp_table p" "g \<noteq> f \<Longrightarrow> frame_at p' g = frame_at p g" for g
      using e by (simp_all add: same_pages_def)
    have "settled p'"
      unfolding settled_def
    proof (intro allI impI)
      fix h
      assume "h < length (bp_frames p')"
      then show "\<not> fr_evicting (frame_at p' h)"
        using st same(3) same(5) [of h] fr by (cases "h = f") (auto simp: settled_def)
    qed
    moreover have "guards_ok p' W R"
      by (rule guards_ok_upd [OF g tf(1) same(3)]) (use same(5) fr guards_okD(1) [OF g tf(1)] W [OF Some] in auto)
    moreover have "bp_disk p' pid = pool_view p pid" if "r = Ok ()"
    proof -
      have "\<not> fr_dirty (frame_at p' f)"
        using e that tf(2,3) by simp
      then have "bp_disk p' pid = bp_file p' pid" "bp_file p' pid = Some (fr_content (frame_at p' f))"
        using clean_syncedD [OF pool_okD(6) [OF same(1)], of pid] pool_okD(2) [OF same(1), of f] same(3,4) Some fr tf
        by (auto simp: frame_ok_def)
      then show ?thesis
        using fr by (simp add: view_of_table [OF Some])
    qed
    ultimately show ?thesis
      using same by (simp add: pool_inv_iff)
  qed
  then show "pool_inv ops log_ok (p', W, R)" "pool_view p' = pool_view p" "r = Ok () \<Longrightarrow> bp_disk p' pid = pool_view p pid"
    by blast+
qed

end

lemma pool_ok_extend:
  assumes ok: "pool_ok ops log_ok p"
    and ext: "\<And>pid. pid \<notin> N \<Longrightarrow> ext pid = None" "\<And>pid. pid \<in> N \<Longrightarrow> bp_file p pid = None \<and> bp_disk p pid = None \<and>
      bp_table p pid = None \<and> ext pid = Some (replicate PAGE_SIZE 0)"
    and p': "p' = p\<lparr> bp_file := bp_file p ++ ext, bp_disk := bp_disk p ++ ext \<rparr>"
  shows "pool_ok ops log_ok p'"
    "pool_view p' pid = pool_view p pid \<or> pool_view p pid = None \<and> pool_view p' pid = Some (replicate PAGE_SIZE 0)"
proof -
  have files: "bp_file p' pid = (if pid \<in> N then Some (replicate PAGE_SIZE 0) else bp_file p pid)"
    "bp_disk p' pid = (if pid \<in> N then Some (replicate PAGE_SIZE 0) else bp_disk p pid)" for pid
    using ext by (auto simp: p' map_add_def)
  have rest: "bp_table p' = bp_table p" "bp_wal p' = bp_wal p" "bp_flush_gen p' = bp_flush_gen p"
    "bp_synced_gen p' = bp_synced_gen p" "bp_frames p' = bp_frames p" "frame_at p' f = frame_at p f" for f
    by (simp_all add: p')
  have tab: "fr_page_id (frame_at p f) \<notin> N" if "f < length (bp_frames p)" "fr_page_id (frame_at p f) \<noteq> 0" for f
    using ext(2) table_okI [OF pool_okD(1) [OF ok] that] by fastforce
  have "table_ok p'"
    using pool_okD(1) [OF ok] by (simp add: table_ok_def rest)
  moreover have "frame_ok ops p' (frame_at p' f)" if "f < length (bp_frames p)" for f
    using pool_okD(2) [OF ok that] tab [OF that] by (simp add: frame_ok_def rest files)
  moreover have "file_ok ops p'"
    using pool_okD(3) [OF ok] by (simp add: file_ok_def rest files)
  moreover have "clean_synced p'"
    using pool_okD(6) [OF ok] by (simp add: clean_synced_def rest files)
  ultimately show "pool_ok ops log_ok p'"
    using ok by (simp add: pool_ok_def rest)
  show "pool_view p' pid = pool_view p pid \<or> pool_view p pid = None \<and> pool_view p' pid = Some (replicate PAGE_SIZE 0)"
    using ext(2) [of pid] by (simp add: pool_view_def rest files split: option.split)
qed

context pool_log
begin

lemma pool_step_ok:
  assumes "pool_step bc ops s a t" "pool_inv ops log_ok s"
  shows "pool_inv ops log_ok t \<and> store_step a (pool_view (fst s)) (pool_view (fst t))"
  using assms
proof (induction rule: pool_step.induct)
  case (pin io pid p f p' W R)
  then show ?case
    using pin_ok(1) [OF pin.prems pin.hyps(1) HOL.refl pin.hyps(2)] by simp
next
  case (pin_fails io pid p e p' W R)
  then show ?case
    using pin_ok(2) [OF pin_fails.prems pin_fails.hyps] by simp
next
  case (pin_mut io pid p f p' W R)
  then show ?case
    using pin_mut_ok(1) [OF pin_mut.prems pin_mut.hyps(1) HOL.refl pin_mut.hyps(2)] by simp
next
  case (pin_mut_fails io pid p e p' W R)
  then show ?case
    using pin_mut_ok(2) [OF pin_mut_fails.prems pin_mut_fails.hyps(1) HOL.refl] by simp
next
  case (new_page io pid p f p' W R)
  then show ?case
    using new_page_ok(1) [OF new_page.prems new_page.hyps(1,2) HOL.refl new_page.hyps(3)] by simp
next
  case (new_page_fails io pid p e p' W R)
  then show ?case
    using new_page_ok(2) [OF new_page_fails.prems new_page_fails.hyps] by simp
next
  case (guard_write f W pg p R)
  have "fr_dirty (frame_at p f)"
    using guard_write.prems guard_write.hyps(1) guards_okD(4) by (auto simp: pool_inv_iff)
  then show ?case
    using pool_inv_held [OF guard_write.prems guard_write.hyps(1), of "\<lambda>m. m\<lparr> fr_content := pg \<rparr>"] guard_write.hyps
      held_view [OF guard_write.prems guard_write.hyps(1)] by (simp add: guard_write_def fun_eq_iff)
next
  case (drop_guard_mut f W p R)
  then show ?case
    using drop_guard_mut_ok [OF drop_guard_mut.prems drop_guard_mut.hyps] by simp
next
  case (drop_guard R f p W)
  then show ?case
    using drop_guard_ok [OF drop_guard.prems drop_guard.hyps] by simp
next
  case (flush io pid p r p' W R)
  then show ?case
    using flush_page_ok(1,2) [OF flush.prems flush.hyps] by simp
next
  case (append_log p rec res w W R)
  have "log_ok (bp_wal p)"
    using append_log.prems pool_okD(5) by (auto simp: pool_inv_iff)
  then show ?case
    using pool_inv_log [OF append_log.prems, of w] log_append [of "bp_wal p" rec res w] append_log.hyps by simp
next
  case (sync_log p l r w W R)
  have "log_ok (bp_wal p)"
    using sync_log.prems pool_okD(5) by (auto simp: pool_inv_iff)
  then show ?case
    using pool_inv_log [OF sync_log.prems, of w] log_flush [of "bp_wal p" l r w] sync_log.hyps by simp
next
  case (set_checkpoint_lsn p W R l)
  have "pool_ok ops log_ok (set_checkpoint_lsn l p)"
    using set_checkpoint_lsn by (simp add: pool_inv_iff set_checkpoint_lsn_def pool_ok_def frame_ok_def table_ok_def file_ok_def clean_synced_def)
  moreover have "pool_view (set_checkpoint_lsn l p) = pool_view p"
    using set_checkpoint_lsn by (intro pool_view_cong) (auto simp: pool_inv_iff set_checkpoint_lsn_def dest: pool_okD(1))
  ultimately show ?case
    using pool_inv_cong [OF set_checkpoint_lsn, of "Buffer_Pool.set_checkpoint_lsn l p"] by (simp add: set_checkpoint_lsn_def)
next
  case (extend N ext p W R)
  have "pool_ok ops log_ok p"
    using extend.prems by (simp add: pool_inv_iff)
  note e = pool_ok_extend [OF this extend.hyps HOL.refl]
  show ?case
    using pool_inv_cong [OF extend.prems e(1)] e(2) by simp
qed

end

context pool_log
begin

lemma pool_open_inv:
  assumes "log_ok w" "\<And>pid pg. file0 pid = Some pg \<Longrightarrow> length pg = PAGE_SIZE \<and> unat (page_pd_lsn pg) \<le> wo_synced ops w"
  shows "pool_inv ops log_ok (pool_open n file0 w, {}, \<lambda>_. 0)" "pool_view (pool_open n file0 w) = file0"
proof -
  have fr: "frame_at (pool_open n file0 w) f = frame_default" if "f < n" for f
    using that by (simp add: frame_at_def pool_open_def)
  have "length (bp_frames (pool_open n file0 w)) = n"
    by (simp add: pool_open_def)
  then show "pool_inv ops log_ok (pool_open n file0 w, {}, \<lambda>_. 0)"
    using assms fr by (auto simp: pool_inv_iff pool_ok_def table_ok_def frame_ok_def file_ok_def clean_synced_def settled_def
        guards_ok_def frame_default_def pool_open_def)
  show "pool_view (pool_open n file0 w) = file0"
    by (simp add: pool_view_def pool_open_def fun_eq_iff)
qed

lemma pool_run_ok:
  "pool_run bc ops s as t \<Longrightarrow> pool_inv ops log_ok s \<Longrightarrow>
    pool_inv ops log_ok t \<and> store_run (pool_view (fst s)) as (pool_view (fst t))"
proof (induction rule: pool_run.induct)
  case (start s)
  then show ?case
    by (simp add: store_run.start)
next
  case (step s as t a u)
  then show ?case
    using pool_step_ok [OF step.hyps(2)] store_run.step by blast
qed

lemma not_dirty_on_disk:
  assumes inv: "pool_inv ops log_ok (p, W, R)" and pid: "pid \<notin> set (dirty_page_ids p)"
  shows "bp_disk p pid = pool_view p pid"
proof -
  have ok: "pool_ok ops log_ok p"
    using inv by (simp add: pool_inv_iff)
  have clean: "\<not> fr_dirty (frame_at p f)" if "bp_table p pid = Some f" for f
    using pid table_okD [OF pool_okD(1) [OF ok] that] by (auto simp: dirty_page_ids_def frame_at_def)
  then have "bp_disk p pid = bp_file p pid"
    using clean_syncedD [OF pool_okD(6) [OF ok]] by blast
  moreover have "pool_view p pid = bp_file p pid"
  proof (cases "bp_table p pid")
    case (Some f)
    then show ?thesis
      using clean [OF Some] pool_okD(2) [OF ok, of f] table_okD [OF pool_okD(1) [OF ok] Some]
      by (auto simp: pool_view_def frame_ok_def)
  qed (simp add: pool_view_def)
  ultimately show ?thesis
    by simp
qed

lemma full_means_guarded:
  assumes inv: "pool_inv ops log_ok (p, W, R)" and res: "pin ops io pid p = (Err BufferPoolFull, p')"
    and flush: "\<And>g q q'. flush_frame ops io g q \<noteq> (Err BufferPoolFull, q')"
    and f: "f < length (bp_frames p)"
  shows "f \<in> W \<or> R f > 0"
proof (rule ccontr)
  assume n: "\<not> ?thesis"
  have ok: "pool_ok ops log_ok p" and st: "settled p" and g: "guards_ok p W R"
    using inv by (simp_all add: pool_inv_iff)
  have "alloc_frame ops io pid True p = (Err BufferPoolFull, p')"
    using res by (auto simp: pin_def locate_or_load_alloc split: if_splits)
  then have "evict_frame ops io p = (Err BufferPoolFull, p')"
    by (cases rule: alloc_frame_cases [OF ok st, of pid io True]) auto
  then show False
    using evict_frame_finds [OF _ f, of ops io BufferPoolFull p'] n guards_okD(1) [OF g f] st f flush
    by (auto simp: settled_def)
qed

end

section \<open>The pool over the log writer\<close>

text \<open>
  The operations of \<open>WalWriter\<close> that the pool calls.  A \<open>flush_to\<close> that never returns is
  given as a failure: the pool then does nothing more with the page.
\<close>

definition writer_ops :: "(byte list \<Rightarrow> u32) \<Rightarrow> nat \<Rightarrow> (writer_state \<Rightarrow> bool) \<Rightarrow> writer_state wal_ops" where
  "writer_ops crc sz fsync_ok =
    \<lparr> wo_append = (\<lambda>w r. append_record crc sz r w),
      wo_flush_to = (\<lambda>w l. case flush_to fsync_ok sz w l of Some x \<Rightarrow> x | None \<Rightarrow> (Err WalWriteFailed, w)),
      wo_current = lsn_clock, wo_synced = synced_lsn \<rparr>"

lemma writer_flush_law:
  assumes inv: "writer_inv sz w" and res: "flush_to fsync_ok sz w l = Some (r, w')"
  shows "writer_inv sz w' \<and> lsn_clock w' = lsn_clock w \<and> synced_lsn w \<le> synced_lsn w' \<and> (r = Ok () \<longrightarrow> l \<le> synced_lsn w')"
  using inv res
proof (cases rule: flush_to_cases)
  case (same f)
  then show ?thesis
    using inv by auto
next
  case failed
  then show ?thesis
    using inv by (auto simp: writer_inv_def)
next
  case synced
  have "l \<le> lsn_clock w"
    using res synced(2,3) writer_invD(4) [OF inv] by (auto simp: flush_to_def split: if_splits)
  then show ?thesis
    using synced writer_inv_synced [OF inv] writer_invD(4) [OF inv] by auto
qed

interpretation bp: pool_log "writer_ops crc sz fsync_ok" "writer_inv sz" for crc sz fsync_ok
proof (unfold_locales, goal_cases)
  case (1 w l r w')
  then show ?case
    using writer_flush_law [OF 1(1), of fsync_ok l r w'] by (auto simp: writer_ops_def split: option.splits)
next
  case (2 w rec res w')
  then have "append_record crc sz rec w = (res, w')"
    by (simp add: writer_ops_def)
  then show ?case
    using append_keeps_writer_inv [OF 2(1), of crc rec] append_clock_le [of w crc sz rec] append_keeps_synced [of crc sz rec w]
    by (cases rule: append_record_cases [OF 2(1), of crc rec]) (auto simp: writer_ops_def)
next
  case (3 w)
  then show ?case
    by (simp add: writer_ops_def writer_invD)
qed

text \<open>The data file a pool opens: whole pages, none ahead of the synced log.\<close>

definition data_file_ok :: "(page_id \<Rightarrow> page option) \<Rightarrow> nat \<Rightarrow> bool" where
  "data_file_ok d l \<longleftrightarrow> (\<forall>pid pg. d pid = Some pg \<longrightarrow> length pg = PAGE_SIZE \<and> unat (page_pd_lsn pg) \<le> l)"

lemma writer_pool_run:
  assumes "writer_inv sz w" "data_file_ok file0 (synced_lsn w)"
    "pool_run bc (writer_ops crc sz fsync_ok) (pool_open n file0 w, {}, \<lambda>_. 0) as (p, W, R)"
  shows "pool_inv (writer_ops crc sz fsync_ok) (writer_inv sz) (p, W, R)" "store_run file0 as (pool_view p)"
proof -
  have "wo_synced (writer_ops crc sz fsync_ok) = synced_lsn"
    by (simp add: writer_ops_def)
  then show "pool_inv (writer_ops crc sz fsync_ok) (writer_inv sz) (p, W, R)" "store_run file0 as (pool_view p)"
    using bp.pool_run_ok [OF assms(3) bp.pool_open_inv(1) [OF assms(1)]] assms(2) [unfolded data_file_ok_def] bp.pool_open_inv(2) [OF assms(1), of file0 crc fsync_ok n]
    by auto
qed

text \<open>
  C2: The buffer pool is the page store its users believe in.  Starting from an opened
  pool, after any sequence of pins, page creations, writes through guards, guard drops,
  flushes, evictions and failures of the file operations, the pages seen through the
  pool are those of the abstract store after the same sequence, in which caching does not exist;
  and every page not reported by \<open>dirty_page_ids\<close> is on disk exactly as its users see it.
\<close>

theorem buffer_pool_refines_store:
  assumes "writer_inv sz w" "data_file_ok file0 (synced_lsn w)"
    "pool_run bc (writer_ops crc sz fsync_ok) (pool_open n file0 w, {}, \<lambda>_. 0) as (p, W, R)"
  shows "store_run file0 as (pool_view p) \<and> (\<forall>pid. pid \<notin> set (dirty_page_ids p) \<longrightarrow> bp_disk p pid = pool_view p pid)"
  using writer_pool_run [OF assms] bp.not_dirty_on_disk by blast

text \<open>
  C26: The log goes first.  In every state of the pool, a page written to the data file
  has all of the log before its \<open>pd_lsn\<close> on disk: what a crash leaves of the data file never
  runs ahead of what it leaves of the log.
\<close>

theorem wal_before_data:
  assumes "writer_inv sz w" "data_file_ok file0 (synced_lsn w)"
    "pool_run bc (writer_ops crc sz fsync_ok) (pool_open n file0 w, {}, \<lambda>_. 0) as (p, W, R)"
    "bp_file p pid = Some pg"
  shows "disk_ok sz (segs (bp_wal p)) (unat (page_pd_lsn pg))"
proof -
  have ok: "pool_ok (writer_ops crc sz fsync_ok) (writer_inv sz) p"
    using writer_pool_run(1) [OF assms(1-3)] by (simp add: pool_inv_iff)
  have "unat (page_pd_lsn pg) \<le> synced_lsn (bp_wal p)"
    using pool_okD(3) [OF ok] assms(4) by (simp add: file_ok_def writer_ops_def)
  then show ?thesis
    using disk_ok_shrinks [OF writer_invD(5) [OF pool_okD(5) [OF ok]]] by simp
qed

lemma flush_never_full:
  "flush_frame (writer_ops crc sz fsync_ok) io g q \<noteq> (Err BufferPoolFull, q')"
  by (auto simp: flush_frame_def flush_claim_def flush_wal_def flush_write_def flush_sync_def writer_ops_def flush_to_def
      Let_def split: if_splits prod.splits sum.splits option.splits)


section \<open>A pool of one frame\<close>

definition demo_log :: writer_state where
  "demo_log = open_with_segment_manager (fresh_segments 128) 8 0"

definition demo_ops :: "writer_state wal_ops" where
  "demo_ops = writer_ops (\<lambda>_. 1) 128 (\<lambda>_. True)"

definition demo_io :: pool_io where
  "demo_io = \<lparr> read_ok = (\<lambda>_. True), write_ok = (\<lambda>_. True), sync_ok = True \<rparr>"

definition demo_file :: "page_id \<Rightarrow> page option" where
  "demo_file = [1 \<mapsto> replicate PAGE_SIZE 0]"

definition demo_claimed :: "writer_state pool" where
  "demo_claimed = (pool_open 1 demo_file demo_log)\<lparr> bp_frames := [(loaded_frame 1 (replicate PAGE_SIZE 0))\<lparr> fr_dirty := True \<rparr>],
     bp_table := [1 \<mapsto> 0], bp_hand := 1 \<rparr>"

lemma demo_pin_mut: "pin_mut demo_bincode demo_ops demo_io 1 (pool_open 1 demo_file demo_log) = (Ok 0, demo_claimed)"
  by (simp add: pin_mut_def pin_mut_without_fpi_def locate_or_load_def try_pin_resident_def alloc_frame_def evict_frame_def
      pool_open_def frame_default_def frame_at_def upd_frame_def read_page_from_disk_def demo_file_def demo_io_def
      ensure_fpi_def Let_def lsn_is_valid_def demo_claimed_def loaded_frame_def numeral_2_eq_2)

lemma demo_full: "\<exists>p. pin demo_ops demo_io 2 demo_claimed = (Err BufferPoolFull, p)"
  by (simp add: pin_def locate_or_load_def try_pin_resident_def alloc_frame_def evict_frame_def
      pool_open_def frame_default_def frame_at_def upd_frame_def Let_def demo_claimed_def loaded_frame_def numeral_2_eq_2)

lemma demo_ok: "writer_inv 128 demo_log" "data_file_ok demo_file (synced_lsn demo_log)"
  using fresh_writer_inv(1) [of 128 0] by (simp_all add: demo_log_def data_file_ok_def demo_file_def)

lemma demo_claim_run:
  "pool_run demo_bincode demo_ops (pool_open 1 demo_file demo_log, {}, \<lambda>_. 0) [ClaimPage 1] (demo_claimed, {0}, \<lambda>_. 0)"
  using pool_run.step [OF pool_run.start pool_step.pin_mut [OF demo_pin_mut]] by simp

lemma demo_write_run:
  "\<exists>p. pool_run demo_bincode demo_ops (pool_open 1 demo_file demo_log, {}, \<lambda>_. 0)
     [ClaimPage 1, WritePage 1 ((replicate PAGE_SIZE 0)[100 := 7]), Quiet, Quiet] (p, {}, \<lambda>_. 0)"
proof -
  let ?pg = "(replicate PAGE_SIZE 0)[100 := 7] :: page"
  obtain r p where fl: "flush_page demo_ops demo_io 1 (drop_guard_mut 0 (guard_write 0 ?pg demo_claimed)) = (r, p)"
    by (metis prod.collapse)
  have lsn: "page_pd_lsn ?pg = 0"
    using zero_page_lsn by (simp add: page_pd_lsn_def get_u64_def bytes_at_def take_update_swap PAGE_SIZE_def list_update_beyond)
  have pid: "fr_page_id (frame_at demo_claimed 0) = 1"
    by (simp add: demo_claimed_def frame_at_def loaded_frame_def)
  show ?thesis
    using pool_run.step [OF pool_run.step [OF pool_run.step [OF demo_claim_run pool_step.guard_write [of 0 "{0}" ?pg]]
      pool_step.drop_guard_mut] pool_step.flush [OF fl]] lsn pid by auto
qed

theorem buffer_pool_refines_store_witness:
  "\<exists>p :: writer_state pool. store_run demo_file [ClaimPage 1, WritePage 1 ((replicate PAGE_SIZE 0)[100 := 7]), Quiet, Quiet] (pool_view p) \<and>
    (\<forall>pid. pid \<notin> set (dirty_page_ids p) \<longrightarrow> bp_disk p pid = pool_view p pid)"
proof -
  obtain p where "pool_run demo_bincode demo_ops (pool_open 1 demo_file demo_log, {}, \<lambda>_. 0)
     [ClaimPage 1, WritePage 1 ((replicate PAGE_SIZE 0)[100 := 7]), Quiet, Quiet] (p, {}, \<lambda>_. 0)"
    using demo_write_run by blast
  then show ?thesis
    using buffer_pool_refines_store [OF demo_ok, of _ _ _ 1] unfolding demo_ops_def by fast
qed

theorem wal_before_data_witness:
  "bp_file demo_claimed 1 = Some (replicate PAGE_SIZE 0) \<and>
    disk_ok 128 (segs (bp_wal demo_claimed)) (unat (page_pd_lsn (replicate PAGE_SIZE 0)))"
proof -
  have "bp_file demo_claimed 1 = Some (replicate PAGE_SIZE 0)"
    by (simp add: demo_claimed_def pool_open_def demo_file_def)
  then show ?thesis
    using wal_before_data [OF demo_ok demo_claim_run [unfolded demo_ops_def]] by blast
qed


end
