(* ===== verification/Page_Allocator.thy ===== *)
theory Page_Allocator
  imports Storage_Meta Buffer_Pool
begin

text \<open>
  The page allocator (\<^verbatim>\<open>pg-storage/src/page_allocator.rs\<close>): handing out and freeing page
  numbers with their log records, growing the data file, the freelist snapshot, and the
  replay of \<open>PageAlloc\<close> and \<open>PageFree\<close> records after a crash.  Page numbers and the file length
  are 64-bit words; \<open>ext\<close> says to which lengths the file can be extended and synced.
\<close>

section \<open>Operations\<close>

definition DATA_FILE_GROWTH_BYTES :: u64 where "DATA_FILE_GROWTH_BYTES = 1048576"

record 'w allocator =
  al_wal :: 'w
  al_file_len :: u64
  al_next :: page_id
  al_freelist :: "page_id list"
  al_page_size :: u64
  al_recovered :: bool

definition allocator_open_at :: "u64 \<Rightarrow> u64 \<Rightarrow> 'w \<Rightarrow> page_id \<Rightarrow> storage_error + 'w allocator" where
  "allocator_open_at page_size len w nx =
    (if len mod page_size \<noteq> 0 then Err MetadataCorrupted
     else Ok \<lparr> al_wal = w, al_file_len = len, al_next = nx, al_freelist = [], al_page_size = page_size, al_recovered = False \<rparr>)"

definition div_ceil :: "u64 \<Rightarrow> u64 \<Rightarrow> u64" where
  "div_ceil a b = (if a mod b > 0 then a div b + 1 else a div b)"

definition ensure_data_file_capacity ::
  "(u64 \<Rightarrow> bool) \<Rightarrow> page_id \<Rightarrow> 'w allocator \<Rightarrow> (storage_error + unit) \<times> 'w allocator" where
  "ensure_data_file_capacity ext pid a =
    (let required = pid * al_page_size a in
     if required > al_file_len a then
       let target = div_ceil required DATA_FILE_GROWTH_BYTES * DATA_FILE_GROWTH_BYTES in
       if \<not> ext target then (Err Io, a) else (Ok (), a\<lparr> al_file_len := target \<rparr>)
     else (Ok (), a))"

definition freelist_pop :: "'w allocator \<Rightarrow> page_id \<times> 'w allocator" where
  "freelist_pop a =
    (if al_freelist a = [] then (al_next a, a) else (last (al_freelist a), a\<lparr> al_freelist := butlast (al_freelist a) \<rparr>))"

definition alloc_page ::
  "bincode \<Rightarrow> 'w wal_ops \<Rightarrow> (u64 \<Rightarrow> bool) \<Rightarrow> 'w allocator \<Rightarrow> (storage_error + page_id) \<times> 'w allocator" where
  "alloc_page bc ops ext a =
    (if al_file_len a \<ge> al_page_size a \<and> al_next a = 1 \<and> \<not> al_recovered a then (Err RecoveryRequired, a)
     else case freelist_pop a of (pid, a) \<Rightarrow>
       (case ensure_data_file_capacity ext pid a of
          (Inl e, a) \<Rightarrow> (Err e, a)
        | (Inr _, a) \<Rightarrow>
            (case page_alloc bc pid of
               Inl e \<Rightarrow> (Err e, a)
             | Inr r \<Rightarrow>
                 (case wo_append ops (al_wal a) r of
                    (Inl e, w) \<Rightarrow> (Err e, a\<lparr> al_wal := w \<rparr>)
                  | (Inr _, w) \<Rightarrow>
                      (Ok pid, a\<lparr> al_wal := w, al_next := (if pid = al_next a then al_next a + 1 else al_next a) \<rparr>)))))"

definition free_page :: "bincode \<Rightarrow> 'w wal_ops \<Rightarrow> page_id \<Rightarrow> 'w allocator \<Rightarrow> (storage_error + unit) \<times> 'w allocator" where
  "free_page bc ops pid a =
    (if pid = 0 then (Err InvalidOperation, a)
     else if pid \<ge> al_next a then (Err InvalidOperation, a)
     else if pid \<in> set (al_freelist a) then (Err InvalidOperation, a)
     else case page_free bc pid of
       Inl e \<Rightarrow> (Err e, a)
     | Inr r \<Rightarrow>
         (case wo_append ops (al_wal a) r of
            (Inl e, w) \<Rightarrow> (Err e, a\<lparr> al_wal := w \<rparr>)
          | (Inr _, w) \<Rightarrow> (Ok (), a\<lparr> al_wal := w, al_freelist := al_freelist a @ [pid] \<rparr>)))"

definition mark_recovery_complete :: "'w allocator \<Rightarrow> 'w allocator" where
  "mark_recovery_complete a = a\<lparr> al_recovered := True \<rparr>"

definition allocator_snapshot :: "lsn \<Rightarrow> 'w allocator \<Rightarrow> freelist_meta" where
  "allocator_snapshot l a = \<lparr> fm_checkpoint_lsn = l, fm_page_ids = al_freelist a \<rparr>"

definition apply_page_alloc :: "(u64 \<Rightarrow> bool) \<Rightarrow> page_id \<Rightarrow> 'w allocator \<Rightarrow> (storage_error + unit) \<times> 'w allocator" where
  "apply_page_alloc ext pid a =
    (let a = a\<lparr> al_next := (if pid \<ge> al_next a then pid + 1 else al_next a), al_freelist := filter (\<lambda>i. i \<noteq> pid) (al_freelist a) \<rparr> in
     case ensure_data_file_capacity ext pid a of
       (Inl e, a) \<Rightarrow> (Err e, a)
     | (Inr _, a) \<Rightarrow> (Ok (), a\<lparr> al_recovered := True \<rparr>))"

definition apply_page_free :: "page_id \<Rightarrow> 'w allocator \<Rightarrow> 'w allocator" where
  "apply_page_free pid a =
    (if pid \<in> set (al_freelist a) then a else a\<lparr> al_freelist := al_freelist a @ [pid], al_recovered := True \<rparr>)"

definition seed_freelist :: "page_id list \<Rightarrow> 'w allocator \<Rightarrow> 'w allocator" where
  "seed_freelist pids a = a\<lparr> al_freelist := pids \<rparr>"

definition replay_record ::
  "bincode \<Rightarrow> (u64 \<Rightarrow> bool) \<Rightarrow> wal_record \<Rightarrow> 'w allocator \<Rightarrow> (storage_error + unit) \<times> 'w allocator" where
  "replay_record bc ext r a =
    (case record_type r of
       PageAlloc \<Rightarrow>
         (case decode_payload bc KPageAlloc (payload r) of
            Inr (PageAllocRecord pid) \<Rightarrow> apply_page_alloc ext pid a
          | _ \<Rightarrow> (Err Serialize, a))
     | PageFree \<Rightarrow>
         (case decode_payload bc KPageFree (payload r) of
            Inr (PageFreeRecord pid) \<Rightarrow> (Ok (), apply_page_free pid a)
          | _ \<Rightarrow> (Err Serialize, a))
     | _ \<Rightarrow> (Ok (), a))"

fun replay_records ::
  "bincode \<Rightarrow> (u64 \<Rightarrow> bool) \<Rightarrow> wal_record list \<Rightarrow> 'w allocator \<Rightarrow> (storage_error + unit) \<times> 'w allocator" where
  "replay_records bc ext [] a = (Ok (), a)"
| "replay_records bc ext (r # rs) a =
    (case replay_record bc ext r a of (Inl e, a) \<Rightarrow> (Err e, a) | (Inr _, a) \<Rightarrow> replay_records bc ext rs a)"

section \<open>Who owns which page\<close>

text \<open>
  The log of an allocator as the operations it records, and what they mean for the pages: the
  next fresh number, the free pages and the pages in use.
\<close>

datatype alloc_op = AllocOp page_id | FreeOp page_id

type_synonym page_ledger = "page_id \<times> page_id set \<times> page_id set"

fun ledger_step :: "alloc_op \<Rightarrow> page_ledger \<Rightarrow> page_ledger" where
  "ledger_step (AllocOp pid) (nx, free, used) = (if pid = nx then nx + 1 else nx, free - {pid}, insert pid used)"
| "ledger_step (FreeOp pid) (nx, free, used) = (nx, insert pid free, used - {pid})"

fun ledger_allows :: "alloc_op \<Rightarrow> page_ledger \<Rightarrow> bool" where
  "ledger_allows (AllocOp pid) (nx, free, used) \<longleftrightarrow> (pid \<in> free \<or> pid = nx) \<and> nx \<noteq> - 1"
| "ledger_allows (FreeOp pid) (nx, free, used) \<longleftrightarrow> pid \<in> used"

fun ledger_log :: "alloc_op list \<Rightarrow> page_ledger \<Rightarrow> bool" where
  "ledger_log [] l \<longleftrightarrow> True"
| "ledger_log (op # ops) l \<longleftrightarrow> ledger_allows op l \<and> ledger_log ops (ledger_step op l)"

definition ledger_after :: "alloc_op list \<Rightarrow> page_ledger \<Rightarrow> page_ledger" where
  "ledger_after ops l = fold ledger_step ops l"

fun ledger_ok :: "page_ledger \<Rightarrow> bool" where
  "ledger_ok (nx, free, used) \<longleftrightarrow> 0 < nx \<and> free \<inter> used = {} \<and> (\<forall>pid \<in> free \<union> used. 0 < pid \<and> pid < nx)"

text \<open>The records of the operations, as far as replay reads them.\<close>

fun op_record :: "bincode \<Rightarrow> alloc_op \<Rightarrow> storage_error + wal_record" where
  "op_record bc (AllocOp pid) = page_alloc bc pid"
| "op_record bc (FreeOp pid) = page_free bc pid"

definition logged_as :: "bincode \<Rightarrow> alloc_op \<Rightarrow> wal_record \<Rightarrow> bool" where
  "logged_as bc op r \<longleftrightarrow> (\<exists>r0. op_record bc op = Ok r0 \<and> record_type r = record_type r0 \<and> payload r = payload r0)"

text \<open>
  The allocator over its life: the ledger at the last checkpoint, the operations logged
  since, and the allocator.  Pages are freed by their owner.  A crash keeps some prefix of
  the log; recovery opens the allocator with the checkpoint's freelist and the next page number
  read when the checkpoint ended, whose records are durable by then, and replays that prefix.
\<close>

type_synonym 'w alloc_state = "'w allocator \<times> page_ledger \<times> alloc_op list"

inductive alloc_step :: "bincode \<Rightarrow> 'w wal_ops \<Rightarrow> 'w alloc_state \<Rightarrow> 'w alloc_state \<Rightarrow> bool" for bc ops where
  alloc: "alloc_page bc ops ext a = (Ok pid, a') \<Longrightarrow> al_next a \<noteq> - 1 \<Longrightarrow>
    alloc_step bc ops (a, base, log) (a', base, log @ [AllocOp pid])"
| alloc_fails: "alloc_page bc ops ext a = (Err e, a') \<Longrightarrow> alloc_step bc ops (a, base, log) (a', base, log)"
| free: "ledger_after log base = (nx, free, used) \<Longrightarrow> pid \<in> used \<Longrightarrow> free_page bc ops pid a = (Ok (), a') \<Longrightarrow>
    alloc_step bc ops (a, base, log) (a', base, log @ [FreeOp pid])"
| free_fails: "free_page bc ops pid a = (Err e, a') \<Longrightarrow> alloc_step bc ops (a, base, log) (a', base, log)"
| checkpoint: "ledger_after log base = (nx, free, used) \<Longrightarrow>
    alloc_step bc ops (a, base, log) (a, (al_next a, set (fm_page_ids (allocator_snapshot l a)), used), [])"
| crash: "base = (nx, free, used) \<Longrightarrow> set snap = free \<Longrightarrow> distinct snap \<Longrightarrow>
    nx \<le> nx_end \<Longrightarrow> nx_end \<le> fst (ledger_after (take n log) base) \<Longrightarrow>
    allocator_open_at page_size len w nx_end = Ok a0 \<Longrightarrow>
    list_all2 (logged_as bc) (take n log) rs \<Longrightarrow>
    replay_records bc ext rs (seed_freelist snap a0) = (Ok (), a') \<Longrightarrow>
    alloc_step bc ops (a, base, log) (mark_recovery_complete a', base, take n log)"

definition alloc_inv :: "'w alloc_state \<Rightarrow> bool" where
  "alloc_inv s \<longleftrightarrow> (case s of (a, base, log) \<Rightarrow> ledger_ok base \<and> ledger_log log base \<and>
    (case ledger_after log base of (nx, free, used) \<Rightarrow>
      al_next a = nx \<and> set (al_freelist a) \<subseteq> free \<and> distinct (al_freelist a)))"

lemma u64_less_succ:
  fixes x n :: u64
  assumes "n \<noteq> - 1"
  shows "x < n + 1 \<longleftrightarrow> x < n \<or> x = n"
proof -
  have "n + 1 \<noteq> 0"
    using assms by (simp add: add_eq_0_iff2)
  then have "(unat n + 1) mod 2 ^ 64 \<noteq> 0"
    by (simp add: word_unat_eq_iff unat_word_ariths(1))
  then have "unat n + 1 < 2 ^ 64"
    using unsigned_less [of n, where ?'a = nat] by (cases "unat n + 1 = 2 ^ 64") auto
  then have "unat (n + 1) = unat n + 1"
    by (simp add: unat_word_ariths(1))
  then show ?thesis
    by (auto simp: word_less_nat_alt word_unat_eq_iff)
qed

lemma ledger_ok_step: "ledger_ok l \<Longrightarrow> ledger_allows op l \<Longrightarrow> ledger_ok (ledger_step op l)"
  by (cases "(op, l)" rule: ledger_step.cases) (auto simp: u64_less_succ)

lemma ledger_after_simps [simp]:
  "ledger_after [] l = l" "ledger_after (op # ops) l = ledger_after ops (ledger_step op l)"
  "ledger_after (xs @ ys) l = ledger_after ys (ledger_after xs l)"
  by (simp_all add: ledger_after_def)

lemma ledger_log_append: "ledger_log (xs @ ys) l \<longleftrightarrow> ledger_log xs l \<and> ledger_log ys (ledger_after xs l)"
  by (induction xs arbitrary: l) simp_all

lemma ledger_ok_after: "ledger_ok l \<Longrightarrow> ledger_log ops l \<Longrightarrow> ledger_ok (ledger_after ops l)"
  by (induction ops arbitrary: l) (simp_all add: ledger_ok_step)

lemma ledger_log_take: "ledger_log ops l \<Longrightarrow> ledger_log (take n ops) l"
  using ledger_log_append [of "take n ops" "drop n ops" l] by simp

lemma ensure_fields:
  assumes "ensure_data_file_capacity ext pid a = (r, a')"
  shows "al_next a' = al_next a \<and> al_freelist a' = al_freelist a"
  using assms by (auto simp: ensure_data_file_capacity_def Let_def split: if_splits)

lemma alloc_page_fields:
  assumes "alloc_page bc ops ext a = (r, a')"
  shows "r = Ok pid \<Longrightarrow> pid = (if al_freelist a = [] then al_next a else last (al_freelist a)) \<and>
      al_freelist a' = butlast (al_freelist a) \<and> al_next a' = (if pid = al_next a then al_next a + 1 else al_next a)"
    "r = Err e \<Longrightarrow> al_next a' = al_next a \<and> (al_freelist a' = al_freelist a \<or> al_freelist a' = butlast (al_freelist a))"
  using assms
  by (auto simp: alloc_page_def freelist_pop_def split: if_splits prod.splits sum.splits dest!: ensure_fields)

lemma free_page_fields:
  assumes "free_page bc ops pid a = (r, a')"
  shows "r = Ok () \<Longrightarrow> al_next a' = al_next a \<and> al_freelist a' = al_freelist a @ [pid] \<and> pid \<notin> set (al_freelist a)"
    "r = Err e \<Longrightarrow> al_next a' = al_next a \<and> al_freelist a' = al_freelist a"
  using assms by (auto simp: free_page_def split: if_splits prod.splits sum.splits)

lemma decode_logged:
  assumes "bincode_ok bc" "logged_as bc op r"
  shows "op = AllocOp pid \<Longrightarrow> record_type r = PageAlloc \<and> decode_payload bc KPageAlloc (payload r) = Ok (PageAllocRecord pid)"
    "op = FreeOp pid \<Longrightarrow> record_type r = PageFree \<and> decode_payload bc KPageFree (payload r) = Ok (PageFreeRecord pid)"
proof -
  have dec: "bin_dec bc (kind_of p) bs = Some p" if "bin_enc bc p = Some bs" for p bs
    using assms(1) that by (simp add: bincode_ok_def)
  show "op = AllocOp pid \<Longrightarrow> record_type r = PageAlloc \<and> decode_payload bc KPageAlloc (payload r) = Ok (PageAllocRecord pid)"
    using assms(2) dec [of "PageAllocRecord pid"]
    by (auto simp: logged_as_def page_alloc_def mk_record_def record_new_def decode_payload_def split: option.splits)
  show "op = FreeOp pid \<Longrightarrow> record_type r = PageFree \<and> decode_payload bc KPageFree (payload r) = Ok (PageFreeRecord pid)"
    using assms(2) dec [of "PageFreeRecord pid"]
    by (auto simp: logged_as_def page_free_def mk_record_def record_new_def decode_payload_def split: option.splits)
qed

text \<open>Replaying one operation follows the ledger.\<close>

definition follows :: "page_id \<Rightarrow> 'w allocator \<Rightarrow> page_ledger \<Rightarrow> bool" where
  "follows m a l \<longleftrightarrow> (case l of (nx, free, used) \<Rightarrow> al_next a = max m nx \<and> set (al_freelist a) = free \<and> distinct (al_freelist a))"

lemma replay_follows:
  assumes bc: "bincode_ok bc" and l: "logged_as bc op r" "ledger_ok l" "ledger_allows op l" "follows m a l"
    and res: "replay_record bc ext r a = (Ok (), a')"
  shows "follows m a' (ledger_step op l)"
proof (cases op)
  case (AllocOp pid)
  obtain nx free used where led: "l = (nx, free, used)"
    by (cases l)
  have "decode_payload bc KPageAlloc (payload r) = Ok (PageAllocRecord pid)" "record_type r = PageAlloc"
    using decode_logged [OF bc l(1)] AllocOp by blast+
  then have b: "apply_page_alloc ext pid a = (Ok (), a')"
    using res by (simp add: replay_record_def)
  then have "al_next a' = (if pid \<ge> al_next a then pid + 1 else al_next a)" "al_freelist a' = filter (\<lambda>i. i \<noteq> pid) (al_freelist a)"
    by (auto simp: apply_page_alloc_def Let_def split: prod.splits sum.splits dest!: ensure_fields)
  moreover have "pid \<in> free \<Longrightarrow> pid < nx"
    using l(2) led by simp
  moreover have "nx \<noteq> - 1 \<Longrightarrow> max m (nx + 1) = (if m \<le> nx then nx + 1 else m)"
    using u64_less_succ [of nx m] inc_le [of nx m] by (auto simp: max_def)
  ultimately show ?thesis
    using l(3,4) AllocOp led by (auto simp: follows_def max_def split: if_splits)
next
  case (FreeOp pid)
  obtain nx free used where led: "l = (nx, free, used)"
    by (cases l)
  have "decode_payload bc KPageFree (payload r) = Ok (PageFreeRecord pid)" "record_type r = PageFree"
    using decode_logged [OF bc l(1)] FreeOp by blast+
  then have "a' = apply_page_free pid a"
    using res by (simp add: replay_record_def)
  then show ?thesis
    using l FreeOp led by (auto simp: follows_def apply_page_free_def)
qed

lemma replay_records_follow:
  assumes "bincode_ok bc" "list_all2 (logged_as bc) ops rs" "ledger_ok l" "ledger_log ops l" "follows m a l"
    "replay_records bc ext rs a = (Ok (), a')"
  shows "follows m a' (ledger_after ops l)"
  using assms(2-)
proof (induction ops rs arbitrary: l a rule: list_all2_induct)
  case Nil
  then show ?case
    by simp
next
  case (Cons op ops r rs)
  obtain b where b: "replay_record bc ext r a = (Ok (), b)" "replay_records bc ext rs b = (Ok (), a')"
    using Cons.prems(4) by (auto split: prod.splits sum.splits)
  show ?case
    using Cons.IH [OF ledger_ok_step [OF Cons.prems(1)] _ _ b(2)] replay_follows [OF assms(1) Cons.hyps(1) Cons.prems(1) _ Cons.prems(3) b(1)] Cons.prems(2)
    by simp
qed

lemma alloc_step_inv:
  assumes "alloc_step bc ops s t" "bincode_ok bc" "alloc_inv s"
  shows "alloc_inv t"
  using assms
proof (induction rule: alloc_step.induct)
  case (alloc ext a pid a' base log)
  obtain nx free used where l: "ledger_after log base = (nx, free, used)"
    by (cases "ledger_after log base")
  have i: "ledger_ok base" "ledger_log log base" "al_next a = nx" "set (al_freelist a) \<subseteq> free" "distinct (al_freelist a)"
    using alloc.prems l by (simp_all add: alloc_inv_def)
  note f = alloc_page_fields(1) [OF alloc.hyps(1) HOL.refl]
  have "pid \<in> free \<or> pid = nx"
    using f i(3,4) last_in_set by (cases "al_freelist a = []") auto
  moreover have "set (butlast (al_freelist a)) \<subseteq> free - {pid}"
  proof (cases "al_freelist a = []")
    case False
    then have "pid \<notin> set (butlast (al_freelist a))"
      using f i(5) by (metis append_butlast_last_id distinct_append disjoint_iff list.set_intros(1))
    then show ?thesis
      using i(4) in_set_butlastD by fastforce
  qed simp
  ultimately show ?case
    using i f l alloc.hyps(2) by (auto simp: alloc_inv_def ledger_log_append distinct_butlast)
next
  case (alloc_fails ext a e a' base log)
  then show ?case
    using alloc_page_fields(2) [OF alloc_fails.hyps HOL.refl]
    by (auto simp: alloc_inv_def distinct_butlast split: prod.splits dest!: in_set_butlastD)
next
  case (free log base nx free used pid a a')
  then show ?case
    using free_page_fields(1) [OF free.hyps(3) HOL.refl] by (auto simp: alloc_inv_def ledger_log_append)
next
  case (free_fails pid a e a' base log)
  then show ?case
    using free_page_fields(2) [OF free_fails.hyps HOL.refl] by (simp add: alloc_inv_def)
next
  case (checkpoint log base nx free used l a)
  have "ledger_ok (nx, free, used)"
    using ledger_ok_after [of base log] checkpoint by (simp add: alloc_inv_def)
  then show ?case
    using checkpoint by (auto simp: alloc_inv_def allocator_snapshot_def)
next
  case (crash base nx free used snap nx_end n log page_size len w a0 rs ext a' a)
  have i: "ledger_ok base" "ledger_log (take n log) base"
    using crash.prems ledger_log_take by (auto simp: alloc_inv_def)
  have "follows nx_end (seed_freelist snap a0) base"
    using crash.hyps by (auto simp: follows_def max_def seed_freelist_def allocator_open_at_def split: if_splits)
  then have "follows nx_end a' (ledger_after (take n log) base)"
    using replay_records_follow [OF crash.prems(1) crash.hyps(7) i _ crash.hyps(8)] by blast
  then show ?case
    using i crash.hyps(5) by (auto simp: alloc_inv_def follows_def mark_recovery_complete_def max_def split: prod.splits if_splits)
qed

lemma alloc_run_inv:
  assumes "(alloc_step bc ops)\<^sup>*\<^sup>* s t" "bincode_ok bc" "alloc_inv s"
  shows "alloc_inv t"
  using assms(1,3) by (induction rule: rtranclp_induct) (auto intro: alloc_step_inv [OF _ assms(2)])

text \<open>
  C5: No page is handed out twice.  In every state an allocator can reach from an empty
  database by allocating, freeing, failing, checkpointing and crashing (each crash losing any
  suffix of the log since the checkpoint), the page that \<open>alloc_page\<close> returns is a real page number
  and is not in use according to the log.
\<close>

theorem pages_never_shared:
  assumes "bincode_ok bc" "allocator_open_at page_size len w 1 = Ok a0"
    "(alloc_step bc ops)\<^sup>*\<^sup>* (a0, (1, {}, {}), []) (a, base, log)"
    "ledger_after log base = (nx, free, used)" "alloc_page bc ops ext a = (Ok pid, a')"
  shows "pid \<noteq> 0 \<and> pid \<notin> used"
proof -
  have "alloc_inv (a0, (1, {}, {}), [])"
    using assms(2) by (auto simp: alloc_inv_def allocator_open_at_def split: if_splits)
  then have i: "alloc_inv (a, base, log)"
    using alloc_run_inv [OF assms(3,1)] by blast
  then have l: "ledger_ok (nx, free, used)" "al_next a = nx" "set (al_freelist a) \<subseteq> free"
    using ledger_ok_after [of base log] assms(4) by (simp_all add: alloc_inv_def)
  have "pid = nx \<or> pid \<in> free"
    using alloc_page_fields(1) [OF assms(5) HOL.refl] l(2,3) last_in_set by (cases "al_freelist a = []") auto
  then show ?thesis
    using l(1) by auto
qed

lemma unat_small_mult: "unat a * unat b < 2 ^ 64 \<Longrightarrow> unat (a * b) = unat a * unat (b :: u64)"
  by (simp add: unat_word_ariths(2))

lemma unat_div_ceil:
  assumes "unat a + unat b < 2 ^ 64" "0 < unat b"
  shows "unat a \<le> unat (div_ceil a b) * unat b" "unat (div_ceil a b) * unat b < unat a + unat b"
proof -
  have m: "unat a = unat a div unat b * unat b + unat a mod unat b" "unat a mod unat b < unat b"
    using assms(2) by simp_all
  have q: "unat (a div b) = unat a div unat b" "unat (a mod b) = unat a mod unat b"
    by (simp_all add: unat_div_distrib unat_mod_distrib)
  show "unat a \<le> unat (div_ceil a b) * unat b" "unat (div_ceil a b) * unat b < unat a + unat b"
  proof (atomize (full), cases "a mod b > 0")
    case True
    then have pos: "unat a mod unat b > 0"
      by (simp add: word_less_nat_alt q)
    have "unat a div unat b < unat a + 1"
      using div_le_dividend [of "unat a" "unat b"] by linarith
    then have "unat a div unat b + 1 < 2 ^ 64"
      using assms by linarith
    then have "unat (div_ceil a b) = unat a div unat b + 1"
      using True by (simp add: div_ceil_def unat_word_ariths(1) q)
    then have "unat (div_ceil a b) * unat b = unat a div unat b * unat b + unat b"
      by (simp add: add_mult_distrib)
    then show "unat a \<le> unat (div_ceil a b) * unat b \<and> unat (div_ceil a b) * unat b < unat a + unat b"
      using m pos by linarith
  next
    case False
    then have "unat a mod unat b = 0" "unat (div_ceil a b) = unat a div unat b"
      by (simp_all add: word_less_nat_alt q div_ceil_def)
    then show "unat a \<le> unat (div_ceil a b) * unat b \<and> unat (div_ceil a b) * unat b < unat a + unat b"
      using m assms(2) by simp
  qed
qed

lemma alloc_page_file:
  assumes "alloc_page bc ops ext a = (Ok pid, a')" "al_page_size a = 8192" "unat pid < 2 ^ 50"
  shows "unat pid * 8192 \<le> unat (al_file_len a') \<and> unat (al_file_len a) \<le> unat (al_file_len a') \<and>
    (al_file_len a' = al_file_len a \<or> unat (al_file_len a') < unat pid * 8192 + 1048576)"
proof -
  obtain b c where b: "freelist_pop a = (pid, b)" "ensure_data_file_capacity ext pid b = (Ok (), c)" "al_file_len a' = al_file_len c"
    using assms(1) by (auto simp: alloc_page_def split: if_splits prod.splits sum.splits)
  have fp: "al_file_len b = al_file_len a" "al_page_size b = 8192"
    using b(1) assms(2) by (auto simp: freelist_pop_def split: if_splits)
  have req: "unat (pid * 8192) = unat pid * 8192"
    using unat_small_mult [of pid 8192] assms(3) by simp
  let ?t = "div_ceil (pid * 8192) 1048576"
  have dc: "unat pid * 8192 \<le> unat ?t * 1048576" "unat ?t * 1048576 < unat pid * 8192 + 1048576"
    using unat_div_ceil [of "pid * 8192" 1048576] req assms(3) by simp_all
  then have "unat (?t * 1048576) = unat ?t * 1048576"
    using unat_small_mult [of ?t 1048576] assms(3) by simp
  then show ?thesis
    using b(2,3) fp req dc
    by (auto simp: ensure_data_file_capacity_def Let_def DATA_FILE_GROWTH_BYTES_def word_less_nat_alt split: if_splits)
qed

text \<open>
  C8: Every page handed out lies inside the data file.  When \<open>alloc_page\<close> returns a page
  number below \<open>2 ^ 50\<close>, the 64-bit arithmetic of the file growth does not wrap and the page's 8192
  bytes end at or before the new end of the file, which never shrinks and grows by less than one
  megabyte beyond the page.
\<close>

theorem allocated_page_in_file:
  assumes "alloc_page bc ops ext a = (Ok pid, a')" "al_page_size a = 8192" "unat pid < 2 ^ 50"
  shows "unat pid * 8192 \<le> unat (al_file_len a') \<and> unat (al_file_len a) \<le> unat (al_file_len a') \<and>
    (al_file_len a' = al_file_len a \<or> unat (al_file_len a') < unat pid * 8192 + 1048576)"
  by (rule alloc_page_file [OF assms])


section \<open>An allocator at work\<close>

definition page_bincode :: bincode where
  "page_bincode =
    \<lparr> bin_enc = (\<lambda>p. case p of PageAllocRecord pid \<Rightarrow> Some (u64_le pid) | PageFreeRecord pid \<Rightarrow> Some (u64_le pid) | _ \<Rightarrow> None),
      bin_dec = (\<lambda>k bs. case k of KPageAlloc \<Rightarrow> Some (PageAllocRecord (le_u64 bs)) | KPageFree \<Rightarrow> Some (PageFreeRecord (le_u64 bs))
        | _ \<Rightarrow> None) \<rparr>"

lemma page_bincode_ok: "bincode_ok page_bincode"
  unfolding bincode_ok_def
proof (intro allI impI)
  fix p bs
  assume "bin_enc page_bincode p = Some bs"
  then show "bin_dec page_bincode (kind_of p) bs = Some p"
    by (cases p) (auto simp: page_bincode_def)
qed

text \<open>A log that accepts every record.\<close>

definition open_log :: "nat wal_ops" where
  "open_log = \<lparr> wo_append = (\<lambda>w r. (Ok w, w + record_size r)), wo_flush_to = (\<lambda>w l. (Ok (), w)), wo_current = id, wo_synced = id \<rparr>"

definition demo_alloc :: "nat allocator" where
  "demo_alloc = \<lparr> al_wal = 8, al_file_len = 0, al_next = 1, al_freelist = [], al_page_size = 8192, al_recovered = False \<rparr>"

lemma demo_alloc_page: "\<exists>w. alloc_page page_bincode open_log (\<lambda>_. True) demo_alloc =
    (Ok 1, demo_alloc\<lparr> al_file_len := 1048576, al_wal := w, al_next := 2 \<rparr>)"
  by (simp add: alloc_page_def freelist_pop_def ensure_data_file_capacity_def Let_def demo_alloc_def open_log_def page_alloc_def
      mk_record_def page_bincode_def div_ceil_def DATA_FILE_GROWTH_BYTES_def)

theorem pages_never_shared_witness:
  "\<exists>a. (alloc_step page_bincode open_log)\<^sup>*\<^sup>* (demo_alloc, (1, {}, {}), []) (a, (1, {}, {}), [AllocOp 1]) \<and>
    (2 :: page_id) \<noteq> 0 \<and> (2 :: page_id) \<notin> {1} \<and> (\<exists>a'. alloc_page page_bincode open_log (\<lambda>_. True) (mark_recovery_complete a) = (Ok 2, a'))"
proof -
  obtain w where a: "alloc_page page_bincode open_log (\<lambda>_. True) demo_alloc =
      (Ok 1, demo_alloc\<lparr> al_file_len := 1048576, al_wal := w, al_next := 2 \<rparr>)" (is "_ = (_, ?a)")
    using demo_alloc_page by blast
  have "alloc_step page_bincode open_log (demo_alloc, (1, {}, {}), []) (?a, (1, {}, {}), [] @ [AllocOp 1])"
    by (rule alloc_step.alloc [OF a]) (simp add: demo_alloc_def)
  then have run: "(alloc_step page_bincode open_log)\<^sup>*\<^sup>* (demo_alloc, (1, {}, {}), []) (?a, (1, {}, {}), [AllocOp 1])"
    by auto
  have nx: "\<exists>a'. alloc_page page_bincode open_log (\<lambda>_. True) ?a = (Ok 2, a')"
    "\<exists>a'. alloc_page page_bincode open_log (\<lambda>_. True) (mark_recovery_complete ?a) = (Ok 2, a')"
    by (simp_all add: alloc_page_def freelist_pop_def ensure_data_file_capacity_def Let_def demo_alloc_def open_log_def page_alloc_def
        mk_record_def page_bincode_def mark_recovery_complete_def)
  have "allocator_open_at 8192 0 8 1 = Ok demo_alloc"
    by (simp add: allocator_open_at_def demo_alloc_def)
  then have "(2 :: page_id) \<noteq> 0 \<and> (2 :: page_id) \<notin> {1}"
    using pages_never_shared [OF page_bincode_ok _ run] nx(1) by fastforce
  then show ?thesis
    using run nx(2) by blast
qed

theorem allocated_page_in_file_witness:
  "\<exists>a'. alloc_page page_bincode open_log (\<lambda>_. True) demo_alloc = (Ok 1, a') \<and> unat (1 :: page_id) * 8192 \<le> unat (al_file_len a')"
proof -
  obtain a' where a: "alloc_page page_bincode open_log (\<lambda>_. True) demo_alloc = (Ok 1, a')"
    using demo_alloc_page by blast
  then show ?thesis
    using allocated_page_in_file [OF a] by (simp add: demo_alloc_def)
qed

end
