(* ===== verification/Checkpoint.thy ===== *)
theory Checkpoint
  imports Page_Allocator
begin

text \<open>
  The checkpoint coordinator (\<^verbatim>\<open>pg-storage/src/checkpoint.rs\<close>): the phases of
  \<open>trigger_checkpoint\<close>, the snapshot files and their pruning.  The serialiser of the snapshots,
  the CLOG flush hook and the outcome of the file operations are parameters.  The background
  thread only calls \<open>trigger_checkpoint\<close> on a timer and is left out.
\<close>

section \<open>Snapshot file names\<close>

definition digit_char :: "nat \<Rightarrow> char" where
  "digit_char d = char_of (48 + d)"

fun decimal :: "nat \<Rightarrow> string" where
  "decimal n = (if n < 10 then [digit_char n] else decimal (n div 10) @ [digit_char (n mod 10)])"

text \<open>\<open>{:016}\<close>: zero-padded to sixteen digits.\<close>

definition pad16 :: "nat \<Rightarrow> string" where
  "pad16 n = replicate (16 - length (decimal n)) CHR ''0'' @ decimal n"

definition att_file_name :: "lsn \<Rightarrow> string" where "att_file_name l = ''att-'' @ pad16 (unat l) @ ''.snapshot''"
definition dpt_file_name :: "lsn \<Rightarrow> string" where "dpt_file_name l = ''dpt-'' @ pad16 (unat l) @ ''.snapshot''"

definition strip_prefix :: "string \<Rightarrow> string \<Rightarrow> string option" where
  "strip_prefix p s = (if take (length p) s = p then Some (drop (length p) s) else None)"

definition strip_suffix :: "string \<Rightarrow> string \<Rightarrow> string option" where
  "strip_suffix q s =
    (if length q \<le> length s \<and> drop (length s - length q) s = q then Some (take (length s - length q) s) else None)"

definition is_digit :: "char \<Rightarrow> bool" where
  "is_digit c \<longleftrightarrow> 48 \<le> (of_char c :: nat) \<and> (of_char c :: nat) \<le> 57"

definition digits_value :: "string \<Rightarrow> nat" where
  "digits_value s = fold (\<lambda>c n. n * 10 + (of_char c - 48)) s 0"

definition parse_snapshot_file_lsn :: "string \<Rightarrow> u64 option" where
  "parse_snapshot_file_lsn name =
    (case (case strip_prefix ''att-'' name of Some r \<Rightarrow> Some r | None \<Rightarrow> strip_prefix ''dpt-'' name) of
       None \<Rightarrow> None
     | Some rest \<Rightarrow>
         (case strip_suffix ''.snapshot'' rest of
            None \<Rightarrow> None
          | Some digits \<Rightarrow>
              if digits = [] \<or> \<not> list_all is_digit digits then None
              else if digits_value digits < 2 ^ 64 then Some (of_nat (digits_value digits)) else None))"

definition RETAINED_SNAPSHOT_CHECKPOINTS :: nat where "RETAINED_SNAPSHOT_CHECKPOINTS = 3"

text \<open>The names under \<^verbatim>\<open>meta/\<close> that a prune leaves when every deletion succeeds.\<close>

definition retained_lsns :: "string list \<Rightarrow> u64 \<Rightarrow> u64 set" where
  "retained_lsns names current =
    insert current (set (take RETAINED_SNAPSHOT_CHECKPOINTS
      (remdups_adj (rev (sort (List.map_filter parse_snapshot_file_lsn names))))))"

definition prune_snapshot_files :: "u64 \<Rightarrow> (string \<times> byte list) list \<Rightarrow> (string \<times> byte list) list" where
  "prune_snapshot_files current files =
    filter (\<lambda>(name, _). case parse_snapshot_file_lsn name of
        None \<Rightarrow> True | Some l \<Rightarrow> l \<in> retained_lsns (map fst files) current) files"

section \<open>The phases of a checkpoint\<close>

record ckpt_io =
  ck_pool_io :: pool_io
  ck_snapshot_ok :: "string \<Rightarrow> bool"
  ck_clog_flush :: "(storage_error + unit) option"
  ck_freelist_ok :: bool
  ck_superblock_torn :: "byte list option"

text \<open>
  \<open>ck_clog_flush\<close> is the answer of the CLOG hook, if one is installed; \<open>ck_superblock_torn\<close> is what a failed
  write leaves in the superblock file.  The serialiser of the snapshot vectors:
\<close>

record snapshot_codec =
  enc_xids :: "txn_id list \<Rightarrow> byte list option"
  enc_pages :: "(page_id \<times> lsn) list \<Rightarrow> byte list option"

text \<open>
  What a checkpoint works on.  The log is the one inside the pool; the allocator, which shares it, carries none.
  Snapshot files are listed with their names under \<^verbatim>\<open>meta/\<close>.
\<close>

record 'w ckpt =
  ck_pool :: "'w pool"
  ck_alloc :: "unit allocator"
  ck_superblock :: superblock
  ck_sb_file :: "byte list"
  ck_freelist_file :: "byte list option"
  ck_snapshots :: "(string \<times> byte list) list"
  ck_next_oid :: oid
  ck_next_txn :: txn_id

definition write_snapshot_file ::
  "(byte list \<Rightarrow> u32) \<Rightarrow> ckpt_io \<Rightarrow> string \<Rightarrow> byte list option \<Rightarrow> 'w ckpt \<Rightarrow> (storage_error + unit) \<times> 'w ckpt" where
  "write_snapshot_file crc io name body c =
    (case body of
       None \<Rightarrow> (Err Serialize, c)
     | Some body \<Rightarrow>
         if \<not> ck_snapshot_ok io name then (Err CheckpointFailed, c)
         else (Ok (), c\<lparr> ck_snapshots := (name, u32_le (crc body) @ body) # filter (\<lambda>(n, _). n \<noteq> name) (ck_snapshots c) \<rparr>))"

text \<open>Phase 1, under the allocator lock.\<close>

definition checkpoint_phase1 :: "'w wal_ops \<Rightarrow> 'w ckpt \<Rightarrow> (storage_error + lsn \<times> freelist_meta) \<times> 'w ckpt" where
  "checkpoint_phase1 ops c =
    (case wo_append ops (bp_wal (ck_pool c)) checkpoint_begin of
       (Inl e, w) \<Rightarrow> (Err e, c\<lparr> ck_pool := (ck_pool c)\<lparr> bp_wal := w \<rparr> \<rparr>)
     | (Inr l, w) \<Rightarrow>
         (Ok (of_nat l, allocator_snapshot (of_nat l) (ck_alloc c)),
          c\<lparr> ck_pool := set_checkpoint_lsn (of_nat l) ((ck_pool c)\<lparr> bp_wal := w \<rparr>) \<rparr>))"

text \<open>Phase 2: each page collected is flushed; one that is gone was flushed when it was evicted.\<close>

fun flush_collected :: "'w wal_ops \<Rightarrow> pool_io \<Rightarrow> page_id list \<Rightarrow> 'w pool \<Rightarrow> (storage_error + unit) \<times> 'w pool" where
  "flush_collected ops io [] p = (Ok (), p)"
| "flush_collected ops io (pid # pids) p =
    (case flush_page ops io pid p of
       (Inr _, p) \<Rightarrow> flush_collected ops io pids p
     | (Inl (PageNotFound _), p) \<Rightarrow> flush_collected ops io pids p
     | (Inl e, p) \<Rightarrow> (Err CheckpointFailed, p))"

definition checkpoint_phase2 ::
  "(byte list \<Rightarrow> u32) \<Rightarrow> snapshot_codec \<Rightarrow> 'w wal_ops \<Rightarrow> ckpt_io \<Rightarrow> txn_id list \<Rightarrow> lsn \<Rightarrow> 'w ckpt \<Rightarrow>
   (storage_error + unit) \<times> 'w ckpt" where
  "checkpoint_phase2 crc sc ops io att begin_lsn c =
    (case write_snapshot_file crc io (att_file_name begin_lsn) (enc_xids sc att) c of
       (Inl e, c) \<Rightarrow> (Err e, c)
     | (Inr _, c) \<Rightarrow>
         (case write_snapshot_file crc io (dpt_file_name begin_lsn) (enc_pages sc (dirty_page_snapshot (ck_pool c))) c of
            (Inl e, c) \<Rightarrow> (Err e, c)
          | (Inr _, c) \<Rightarrow>
              (case flush_collected ops (ck_pool_io io) (dirty_page_ids (ck_pool c)) (ck_pool c) of
                 (Inl e, p) \<Rightarrow> (Err e, c\<lparr> ck_pool := p \<rparr>)
               | (Inr _, p) \<Rightarrow>
                   (case ck_clog_flush io of
                      Some (Inl e) \<Rightarrow> (Err CheckpointFailed, c\<lparr> ck_pool := p \<rparr>)
                    | _ \<Rightarrow> (Ok (), c\<lparr> ck_pool := p \<rparr>)))))"

text \<open>Phase 3: the end record, made durable before the freelist snapshot and the superblock.\<close>

definition checkpoint_end_of :: "lsn \<Rightarrow> 'w ckpt \<Rightarrow> checkpoint_end" where
  "checkpoint_end_of begin_lsn c =
    \<lparr> checkpoint_lsn = begin_lsn, ce_next_page_id = al_next (ck_alloc c), ce_next_txn_id = ck_next_txn c,
      ce_next_oid = ck_next_oid c, att_file = ''meta/'' @ att_file_name begin_lsn, dpt_file = ''meta/'' @ dpt_file_name begin_lsn \<rparr>"

definition update_superblock ::
  "(byte list \<Rightarrow> u32) \<Rightarrow> ckpt_io \<Rightarrow> checkpoint_end \<Rightarrow> 'w ckpt \<Rightarrow> (storage_error + unit) \<times> 'w ckpt" where
  "update_superblock crc io ce c =
    (let sb = (ck_superblock c)\<lparr> sb_checkpoint_lsn := checkpoint_lsn ce, sb_next_page_id := ce_next_page_id ce,
           sb_next_txn_id := ce_next_txn_id ce, sb_next_oid := ce_next_oid ce \<rparr>;
         c = c\<lparr> ck_superblock := sb \<rparr>
     in case superblock_write crc sb (ck_sb_file c) of
          Inl e \<Rightarrow> (Err e, c)
        | Inr f \<Rightarrow> (case ck_superblock_torn io of
            Some t \<Rightarrow> (Err Io, c\<lparr> ck_sb_file := t \<rparr>) | None \<Rightarrow> (Ok (), c\<lparr> ck_sb_file := f \<rparr>)))"

definition checkpoint_phase3 ::
  "bincode \<Rightarrow> (byte list \<Rightarrow> u32) \<Rightarrow> 'w wal_ops \<Rightarrow> ckpt_io \<Rightarrow> lsn \<Rightarrow> freelist_meta \<Rightarrow> 'w ckpt \<Rightarrow> (storage_error + unit) \<times> 'w ckpt" where
  "checkpoint_phase3 bc crc ops io begin_lsn snap c =
    (let ce = checkpoint_end_of begin_lsn c in
     case checkpoint_end_record bc ce of
       Inl e \<Rightarrow> (Err e, c)
     | Inr r \<Rightarrow>
         (case wo_append ops (bp_wal (ck_pool c)) r of
            (Inl e, w) \<Rightarrow> (Err e, c\<lparr> ck_pool := (ck_pool c)\<lparr> bp_wal := w \<rparr> \<rparr>)
          | (Inr end_lsn, w) \<Rightarrow>
              (case wo_flush_to ops w end_lsn of
                 (Inl e, w) \<Rightarrow> (Err e, c\<lparr> ck_pool := (ck_pool c)\<lparr> bp_wal := w \<rparr> \<rparr>)
               | (Inr _, w) \<Rightarrow>
                   let c = c\<lparr> ck_pool := (ck_pool c)\<lparr> bp_wal := w \<rparr>,
                              ck_freelist_file := (if ck_freelist_ok io then Some (freelist_encode crc snap) else ck_freelist_file c) \<rparr>
                   in update_superblock crc io ce c)))"

definition trigger_checkpoint ::
  "bincode \<Rightarrow> snapshot_codec \<Rightarrow> (byte list \<Rightarrow> u32) \<Rightarrow> 'w wal_ops \<Rightarrow> ('w \<Rightarrow> nat \<Rightarrow> (storage_error + unit) \<times> 'w) \<Rightarrow> ckpt_io \<Rightarrow>
   txn_id list \<Rightarrow> 'w ckpt \<Rightarrow> (storage_error + lsn) \<times> 'w ckpt" where
  "trigger_checkpoint bc sc crc ops recycle io att c =
    (case checkpoint_phase1 ops c of
       (Inl e, c) \<Rightarrow> (Err e, c)
     | (Inr (begin_lsn, snap), c) \<Rightarrow>
         (case checkpoint_phase2 crc sc ops io att begin_lsn c of
            (Inl e, c) \<Rightarrow> (Err e, c)
          | (Inr _, c) \<Rightarrow>
              (case checkpoint_phase3 bc crc ops io begin_lsn snap c of
                 (Inl e, c) \<Rightarrow> (Err e, c)
               | (Inr _, c) \<Rightarrow>
                   (case recycle (bp_wal (ck_pool c)) (unat begin_lsn) of
                      (Inl e, w) \<Rightarrow> (Err e, c\<lparr> ck_pool := (ck_pool c)\<lparr> bp_wal := w \<rparr> \<rparr>)
                    | (Inr _, w) \<Rightarrow>
                        (Ok begin_lsn, c\<lparr> ck_pool := (ck_pool c)\<lparr> bp_wal := w \<rparr>,
                           ck_snapshots := prune_snapshot_files (sb_checkpoint_lsn (ck_superblock c)) (ck_snapshots c) \<rparr>)))))"


section \<open>What reaches the data file\<close>

text \<open>
  The pool only ever writes a page as its users see it at that moment: after a step, the file and the
  disk hold for each page what they held before or what the users saw.
\<close>

definition written_from :: "'w pool \<Rightarrow> 'w pool \<Rightarrow> bool" where
  "written_from p q \<longleftrightarrow> (\<forall>pid.
     (bp_file q pid = bp_file p pid \<or> bp_file q pid = pool_view p pid) \<and>
     (bp_disk q pid = bp_disk p pid \<or> bp_disk q pid = bp_file p pid \<or> bp_disk q pid = pool_view p pid))"

lemma written_from_same: "bp_file q = bp_file p \<Longrightarrow> bp_disk q = bp_disk p \<Longrightarrow> written_from p q"
  by (simp add: written_from_def)

lemma written_from_trans:
  assumes "written_from p q" "pool_view q = pool_view p" "written_from q r"
  shows "written_from p r"
  using assms unfolding written_from_def by metis

lemma written_from_then:
  "written_from p q \<Longrightarrow> bp_file r = bp_file q \<Longrightarrow> bp_disk r = bp_disk q \<Longrightarrow> written_from p r"
  by (simp add: written_from_def)

lemma written_from_cong:
  "written_from p q \<Longrightarrow> bp_file p' = bp_file p \<Longrightarrow> bp_disk p' = bp_disk p \<Longrightarrow> pool_view p' = pool_view p \<Longrightarrow> written_from p' q"
  by (simp add: written_from_def)

context pool_log
begin

lemma flush_frame_written:
  assumes ok: "pool_ok ops log_ok p" and f: "f < length (bp_frames p)"
  shows "written_from p (snd (flush_frame ops io f p))"
proof -
  have v: "pool_view p (fr_page_id (frame_at p f)) = Some (fr_content (frame_at p f))" if "fr_page_id (frame_at p f) \<noteq> 0"
    using table_okI [OF pool_okD(1) [OF ok] f that] by (rule view_of_table)
  show ?thesis
    by (cases rule: flush_frame_cases [OF ok f, of io, case_names clean failed unsynced flushed])
      (use v in \<open>auto simp: written_from_def\<close>)
qed

lemma evict_loop_written:
  "pool_ok ops log_ok p \<Longrightarrow> bp_frames p \<noteq> [] \<Longrightarrow> written_from p (snd (evict_loop ops io n p))"
proof (induction n arbitrary: p)
  case 0
  then show ?case
    by (simp add: written_from_same)
next
  case (Suc n)
  let ?h = "bp_hand p mod length (bp_frames p)" and ?p = "p\<lparr> bp_hand := bp_hand p + 1 \<rparr>"
  let ?m = "frame_at p ?h" and ?r = "upd_frame ?h (\<lambda>m. m\<lparr> fr_reference := False \<rparr>) ?p"
  let ?q = "upd_frame ?h (\<lambda>m. m\<lparr> fr_evicting := True \<rparr>) ?p"
  have h: "?h < length (bp_frames ?p)" and ne: "bp_frames ?p \<noteq> []" and ok: "pool_ok ops log_ok ?p"
    using Suc.prems by simp_all
  have vp: "pool_view ?p = pool_view p"
    by (simp add: pool_view_def fun_eq_iff split: option.splits)
  have okr: "pool_ok ops log_ok ?r" "pool_ok ops log_ok ?q" and sr: "same_pages ops ?p ?r" "same_pages ops ?p ?q"
    using pool_okD(2) [OF ok h] by (intro pool_ok_upd [OF ok h]; simp add: frame_ok_def)+
  have v: "pool_view ?r = pool_view p" "pool_view ?q = pool_view p"
    using sr vp by (simp_all add: same_pages_def)
  consider (skip) "fr_pin_count ?m > 0 \<or> fr_evicting ?m" | (ref) "fr_pin_count ?m = 0" "\<not> fr_evicting ?m" "fr_reference ?m"
    | (take) "fr_pin_count ?m = 0" "\<not> fr_evicting ?m" "\<not> fr_reference ?m"
    by blast
  then show ?case
  proof cases
    case skip
    then show ?thesis
      using written_from_cong [OF Suc.IH [OF ok ne], of p] vp by (simp add: Let_def)
  next
    case ref
    then show ?thesis
      using written_from_cong [OF Suc.IH [OF okr(1)], of p] v(1) Suc.prems(2) by (simp add: Let_def)
  next
    case take
    let ?fl = "if fr_dirty ?m \<and> fr_page_id ?m \<noteq> 0 then flush_frame ops io ?h ?q else (Ok (), ?q)"
    have "?h < length (bp_frames ?q)"
      using h by simp
    then have "written_from ?q (snd ?fl)"
      using flush_frame_written [OF okr(2)] by (simp add: written_from_same)
    then have w: "written_from p (snd ?fl)"
      by (rule written_from_cong) (use v(2) in simp_all)
    have "bp_file (snd (evict_loop ops io (Suc n) p)) = bp_file (snd ?fl) \<and> bp_disk (snd (evict_loop ops io (Suc n) p)) = bp_disk (snd ?fl)"
      using take by (simp add: Let_def split: prod.splits sum.splits)
    then show ?thesis
      using written_from_then [OF w] by blast
  qed
qed

lemma alloc_frame_written:
  assumes "pool_ok ops log_ok p"
  shows "written_from p (snd (alloc_frame ops io pid load p))"
proof (cases "try_pin_resident pid p")
  case None
  let ?e = "evict_frame ops io p"
  have "written_from p (snd ?e)"
    using evict_loop_written [OF assms] by (simp add: evict_frame_def written_from_same)
  moreover have "bp_file (snd (alloc_frame ops io pid load p)) = bp_file (snd ?e)" "bp_disk (snd (alloc_frame ops io pid load p)) = bp_disk (snd ?e)"
    by (auto simp: alloc_frame_def None Let_def read_page_from_disk_def split: prod.splits sum.splits option.splits)
  ultimately show ?thesis
    by (rule written_from_then)
next
  case (Some fq)
  then have "bp_file (snd (alloc_frame ops io pid load p)) = bp_file p" "bp_disk (snd (alloc_frame ops io pid load p)) = bp_disk p"
    by (auto simp: alloc_frame_def try_pin_resident_def split: option.splits if_splits)
  then show ?thesis
    by (rule written_from_same)
qed

lemma pin_written: "pool_ok ops log_ok p \<Longrightarrow> written_from p (snd (pin ops io pid p))"
  using alloc_frame_written by (simp add: pin_def locate_or_load_alloc written_from_same)

lemma new_page_written: "pool_ok ops log_ok p \<Longrightarrow> written_from p (snd (new_page ops io pid p))"
  using alloc_frame_written [of p io pid False]
  by (auto simp: new_page_def split: prod.splits sum.splits elim: written_from_then)

lemma pin_mut_written:
  assumes "pool_ok ops log_ok p"
  shows "written_from p (snd (pin_mut bc ops io pid p))"
proof -
  let ?a = "pin_mut_without_fpi ops io pid p"
  have "written_from p (snd ?a)"
    using alloc_frame_written [OF assms, of io pid True]
    by (auto simp: pin_mut_without_fpi_def locate_or_load_alloc written_from_same split: prod.splits sum.splits elim: written_from_then)
  moreover have "bp_file (snd (ensure_fpi bc ops f pid q)) = bp_file q" "bp_disk (snd (ensure_fpi bc ops f pid q)) = bp_disk q" for f q
    by (auto simp: ensure_fpi_def Let_def split: prod.splits sum.splits)
  then have "bp_file (snd (pin_mut bc ops io pid p)) = bp_file (snd ?a)" "bp_disk (snd (pin_mut bc ops io pid p)) = bp_disk (snd ?a)"
    by (auto simp: pin_mut_def drop_guard_mut_def unpin_def split: prod.splits sum.splits)
      (metis snd_conv)+
  ultimately show ?thesis
    by (rule written_from_then)
qed

lemma flush_page_written:
  assumes "pool_ok ops log_ok p"
  shows "written_from p (snd (flush_page ops io pid p))"
  using flush_frame_written [OF assms] table_okD(1) [OF pool_okD(1) [OF assms]]
  by (auto simp: flush_page_def written_from_same split: option.splits)

text \<open>A step of any user: what the file and the disk hold afterwards is what they held, what the users saw or what they see.\<close>

lemma pool_step_written:
  assumes "pool_step bc ops s a t" "pool_inv ops log_ok s"
  shows "bp_file (fst t) pid \<in> {bp_file (fst s) pid, pool_view (fst s) pid, pool_view (fst t) pid} \<and>
    bp_disk (fst t) pid \<in> {bp_disk (fst s) pid, bp_file (fst s) pid, pool_view (fst s) pid, pool_view (fst t) pid}"
proof (cases "\<exists>ext. fst t = (fst s)\<lparr> bp_file := bp_file (fst s) ++ ext, bp_disk := bp_disk (fst s) ++ ext \<rparr> \<and>
    (\<forall>pid. ext pid = None \<or> bp_table (fst s) pid = None)")
  case True
  then obtain ext where "fst t = (fst s)\<lparr> bp_file := bp_file (fst s) ++ ext, bp_disk := bp_disk (fst s) ++ ext \<rparr>"
    "ext pid = None \<or> bp_table (fst s) pid = None"
    by blast
  then show ?thesis
    by (auto simp: pool_view_def map_add_def split: option.splits)
next
  case False
  have ok: "pool_ok ops log_ok (fst s)"
    using assms(2) by (cases s) (simp add: pool_inv_iff)
  have "written_from (fst s) (fst t)"
    using assms(1)
  proof (cases rule: pool_step.cases)
    case (pin io pid p f p' W R)
    then show ?thesis
      using pin_written [OF ok, of io pid] by simp
  next
    case (pin_fails io pid p e p' W R)
    then show ?thesis
      using pin_written [OF ok, of io pid] by simp
  next
    case (pin_mut io pid p f p' W R)
    then show ?thesis
      using pin_mut_written [OF ok, of bc io pid] by simp
  next
    case (pin_mut_fails io pid p e p' W R)
    then show ?thesis
      using pin_mut_written [OF ok, of bc io pid] by simp
  next
    case (new_page io pid p f p' W R)
    then show ?thesis
      using new_page_written [OF ok, of io pid] by simp
  next
    case (new_page_fails io pid p e p' W R)
    then show ?thesis
      using new_page_written [OF ok, of io pid] by simp
  next
    case (flush io pid p r p' W R)
    then show ?thesis
      using flush_page_written [OF ok, of io pid] by simp
  next
    case (extend N ext p W R)
    have "ext pid = None \<or> bp_table p pid = None" for pid
      by (cases "pid \<in> N") (simp_all add: extend(4,5))
    then have "fst t = (fst s)\<lparr> bp_file := bp_file (fst s) ++ ext, bp_disk := bp_disk (fst s) ++ ext \<rparr> \<and>
      (\<forall>pid. ext pid = None \<or> bp_table (fst s) pid = None)"
      using extend(1,3) by simp
    then show ?thesis
      using False by blast
  qed (auto intro: written_from_same simp: guard_write_def drop_guard_mut_def unpin_def set_checkpoint_lsn_def)
  then show ?thesis
    unfolding written_from_def by (drule_tac x = pid in spec) blast
qed

end


section \<open>A checkpoint among other users of the pool\<close>

text \<open>
  Phase 2 of a checkpoint interleaved with the steps of the other users.  The views are those the users have
  had of the pages since the dirty pages were collected.
\<close>

inductive fuzzy_flush ::
  "bincode \<Rightarrow> 'w wal_ops \<Rightarrow> 'w pool_state \<Rightarrow> 'w pool_state \<Rightarrow> page_id list \<Rightarrow> (page_id \<Rightarrow> page option) list \<Rightarrow> bool"
  for bc ops s where
  collect: "fuzzy_flush bc ops s s (dirty_page_ids (fst s)) [pool_view (fst s)]"
| others: "fuzzy_flush bc ops s t pids vs \<Longrightarrow> pool_step bc ops t a u \<Longrightarrow> fuzzy_flush bc ops s u pids (vs @ [pool_view (fst u)])"
| flush_next: "fuzzy_flush bc ops s (p, W, R) (pid # pids) vs \<Longrightarrow> flush_page ops io pid p = (r, p') \<Longrightarrow>
    (\<And>f. bp_table p pid = Some f \<Longrightarrow> f \<notin> W) \<Longrightarrow> r = Ok () \<or> (\<exists>q. r = Err (PageNotFound q)) \<Longrightarrow>
    fuzzy_flush bc ops s (p', W, R) pids (vs @ [pool_view p'])"

text \<open>A page is covered when the file and the disk hold it as its users saw it since the collection.\<close>

definition covered :: "'w pool \<Rightarrow> (page_id \<Rightarrow> page option) list \<Rightarrow> page_id \<Rightarrow> bool" where
  "covered p vs pid \<longleftrightarrow> (\<exists>v \<in> set vs. bp_file p pid = v pid) \<and> (\<exists>v \<in> set vs. bp_disk p pid = v pid)"

context pool_log
begin

lemma covered_step:
  assumes "pool_step bc ops s a t" "pool_inv ops log_ok s" "covered (fst s) vs pid" "pool_view (fst s) \<in> set vs"
  shows "covered (fst t) (vs @ [pool_view (fst t)]) pid"
proof -
  let ?V = "(\<lambda>v. v pid) ` set (vs @ [pool_view (fst t)])"
  have "bp_file (fst s) pid \<in> ?V" "bp_disk (fst s) pid \<in> ?V" "pool_view (fst s) pid \<in> ?V" "pool_view (fst t) pid \<in> ?V"
    using assms(3,4) by (auto simp: covered_def)
  then have "bp_file (fst t) pid \<in> ?V" "bp_disk (fst t) pid \<in> ?V"
    using pool_step_written [OF assms(1,2), of pid] by auto
  then show ?thesis
    unfolding covered_def by blast
qed

lemma clean_covered:
  assumes inv: "pool_inv ops log_ok (p, W, R)" and clean: "\<And>f. bp_table p pid = Some f \<Longrightarrow> \<not> fr_dirty (frame_at p f)"
    and v: "pool_view p \<in> set vs"
  shows "covered p vs pid"
proof -
  have ok: "pool_ok ops log_ok p"
    using inv by (simp add: pool_inv_iff)
  have "pool_view p pid = bp_file p pid"
  proof (cases "bp_table p pid")
    case (Some f)
    then show ?thesis
      using clean [OF Some] pool_okD(2) [OF ok, of f] table_okD [OF pool_okD(1) [OF ok] Some]
      by (auto simp: pool_view_def frame_ok_def)
  qed (simp add: pool_view_def)
  moreover have "bp_disk p pid = bp_file p pid"
    using clean clean_syncedD [OF pool_okD(6) [OF ok]] by blast
  ultimately show ?thesis
    using v unfolding covered_def by metis
qed

lemma fuzzy_flush_covers:
  assumes found: "\<And>io g q q' pid. flush_frame ops io g q \<noteq> (Err (PageNotFound pid), q')"
  shows "fuzzy_flush bc ops s t pids vs \<Longrightarrow> pool_inv ops log_ok s \<Longrightarrow>
    pool_inv ops log_ok t \<and> pool_view (fst t) \<in> set vs \<and> (\<forall>pid. pid \<notin> set pids \<longrightarrow> covered (fst t) vs pid)"
proof (induction rule: fuzzy_flush.induct)
  case collect
  obtain p W R where s: "s = (p, W, R)"
    by (metis prod.collapse)
  have ok: "pool_ok ops log_ok p"
    using collect s by (simp add: pool_inv_iff)
  have "covered p [pool_view p] pid" if "pid \<notin> set (dirty_page_ids p)" for pid
  proof (rule clean_covered)
    show "\<not> fr_dirty (frame_at p f)" if "bp_table p pid = Some f" for f
      using \<open>pid \<notin> set (dirty_page_ids p)\<close> table_okD [OF pool_okD(1) [OF ok] that] by (auto simp: dirty_page_ids_def frame_at_def)
  qed (use collect s in simp_all)
  then show ?case
    using collect s by simp
next
  case (others t pids vs a u)
  then show ?case
    using pool_step_ok [OF others.hyps(2)] covered_step [OF others.hyps(2)] by simp
next
  case (flush_next p W R pid pids vs io r p')
  have st: "pool_step bc ops (p, W, R) Quiet (p', W, R)"
    using flush_next.hyps(2,3) by (rule pool_step.flush)
  have inv: "pool_inv ops log_ok (p, W, R)" and IH: "pool_view p \<in> set vs" "\<And>q. q \<notin> set (pid # pids) \<Longrightarrow> covered p vs q"
    using flush_next.IH flush_next.prems by simp_all
  have fl: "pool_inv ops log_ok (p', W, R)"
    using pool_step_ok [OF st inv] by simp
  have other: "covered p' (vs @ [pool_view p']) q" if "q \<notin> set (pid # pids)" for q
    using covered_step [OF st inv] IH that by simp
  have "covered p' (vs @ [pool_view p']) pid"
  proof (rule clean_covered [OF fl])
    show "\<not> fr_dirty (frame_at p' f)" if f: "bp_table p' pid = Some f" for f
    proof (cases "bp_table p pid")
      case None
      then show ?thesis
        using flush_next.hyps(2) f by (auto simp: flush_page_def split: if_splits)
    next
      case (Some g)
      have ok: "pool_ok ops log_ok p"
        using inv by (simp add: pool_inv_iff)
      note tg = table_okD [OF pool_okD(1) [OF ok] Some]
      have "flush_frame ops io g p = (r, p')"
        using flush_next.hyps(2) Some tg(3) by (simp add: flush_page_def)
      note e = flush_frame_ok [OF ok tg(1) this]
      have "r = Ok ()"
        using flush_next.hyps(4) found \<open>flush_frame ops io g p = (r, p')\<close> by metis
      then show ?thesis
        using e f Some tg by auto
    qed
    show "pool_view p' \<in> set (vs @ [pool_view p'])"
      by simp
  qed
  then have "covered p' (vs @ [pool_view p']) q" if "q \<notin> set pids" for q
    using other [of q] that by (cases "q = pid") simp_all
  then show ?case
    using fl by simp
qed

end

lemma flush_always_found:
  "flush_frame (writer_ops crc sz fsync_ok) io g q \<noteq> (Err (PageNotFound pid), q')"
  by (auto simp: flush_frame_def flush_claim_def flush_wal_def flush_write_def flush_sync_def writer_ops_def flush_to_def
      Let_def split: if_splits prod.splits sum.splits option.splits)



definition demo_dirty :: "writer_state pool" where
  "demo_dirty = drop_guard_mut 0 demo_claimed"

lemma demo_dirty_run:
  "pool_run demo_bincode demo_ops (pool_open 1 demo_file demo_log, {}, \<lambda>_. 0) [ClaimPage 1, Quiet] (demo_dirty, {}, \<lambda>_. 0)"
  using pool_run.step [OF demo_claim_run pool_step.drop_guard_mut [of 0 "{0}"]] by (simp add: demo_dirty_def)

lemma demo_dirty_ids: "dirty_page_ids demo_dirty = [1]"
  by (simp add: dirty_page_ids_def demo_dirty_def demo_claimed_def drop_guard_mut_def unpin_def upd_frame_def loaded_frame_def)

lemma demo_flush: "\<exists>p. flush_page demo_ops demo_io 1 demo_dirty = (Ok (), p)"
  by (simp add: demo_dirty_def demo_claimed_def drop_guard_mut_def unpin_def upd_frame_def loaded_frame_def flush_page_def
      flush_frame_def flush_claim_def flush_wal_def flush_write_def flush_sync_def demo_io_def frame_at_def Let_def lsn_is_valid_def
      pool_open_def)



section \<open>Snapshot files find their way back\<close>

lemma of_digit_char: "d < 10 \<Longrightarrow> (of_char (digit_char d) :: nat) = 48 + d"
  by (simp add: digit_char_def)

lemma digits_value_append: "digits_value (s @ [c]) = digits_value s * 10 + (of_char c - 48)"
  by (simp add: digits_value_def)

lemma decimal_digits: "decimal n \<noteq> [] \<and> list_all is_digit (decimal n) \<and> digits_value (decimal n) = n"
proof (induction n rule: decimal.induct)
  case (1 n)
  show ?case
  proof (cases "n < 10")
    case True
    then show ?thesis
      by (simp add: digits_value_def is_digit_def of_digit_char)
  next
    case False
    then have "decimal n = decimal (n div 10) @ [digit_char (n mod 10)]"
      by simp
    moreover have "is_digit (digit_char (n mod 10))"
      using of_digit_char [of "n mod 10"] by (simp add: is_digit_def)
    ultimately show ?thesis
      using 1 [OF False] of_digit_char [of "n mod 10"] by (simp only: list_all_append digits_value_append) simp
  qed
qed

declare decimal.simps [simp del]

lemma digits_value_zeros: "digits_value (replicate k CHR ''0'' @ s) = digits_value s"
proof (induction k)
  case (Suc k)
  then show ?case
    by (simp add: digits_value_def)
qed simp

lemma pad16_facts: "pad16 n \<noteq> []" "list_all is_digit (pad16 n)" "digits_value (pad16 n) = n"
  using decimal_digits [of n] by (auto simp: pad16_def digits_value_zeros is_digit_def list_all_iff)

lemma strip_suffix_append: "strip_suffix q (s @ q) = Some s"
  by (simp add: strip_suffix_def)

lemma parse_snapshot_name:
  "parse_snapshot_file_lsn (att_file_name l) = Some l" "parse_snapshot_file_lsn (dpt_file_name l) = Some l"
  using pad16_facts [of "unat l"] strip_suffix_append [of "''.snapshot''" "pad16 (unat l)"] unsigned_less [of l]
  by (simp_all add: parse_snapshot_file_lsn_def att_file_name_def dpt_file_name_def strip_prefix_def)

lemma names_distinct: "att_file_name l \<noteq> dpt_file_name k"
  by (simp add: att_file_name_def dpt_file_name_def)

text \<open>
  A prune keeps every file that is no snapshot, the files of the checkpoint named by the superblock, and
  of the others those that are among the three newest checkpoints.
\<close>

lemma prune_keeps_current:
  assumes "parse_snapshot_file_lsn name = Some l \<or> parse_snapshot_file_lsn name = None"
  shows "map_of (prune_snapshot_files l files) name = map_of files name"
proof -
  have "map_of (filter (\<lambda>(n, _). P n) xs) name = map_of xs name" if "P name" for P and xs :: "(string \<times> byte list) list"
    using that by (induction xs) auto
  then show ?thesis
    using assms unfolding prune_snapshot_files_def by (auto simp: retained_lsns_def)
qed

lemma prune_bounded: "card (retained_lsns names current) \<le> Suc RETAINED_SNAPSHOT_CHECKPOINTS"
proof -
  have "card (set (take RETAINED_SNAPSHOT_CHECKPOINTS xs)) \<le> RETAINED_SNAPSHOT_CHECKPOINTS" for xs :: "u64 list"
    using card_length [of "take RETAINED_SNAPSHOT_CHECKPOINTS xs"] by simp
  then show ?thesis
    unfolding retained_lsns_def by (simp only: card_insert_if [OF finite_set]) (simp add: le_SucI)
qed


section \<open>A checkpoint without other users\<close>

context pool_log
begin

lemma flush_collected_fuzzy:
  assumes found: "\<And>io g q q' pid. flush_frame ops io g q \<noteq> (Err (PageNotFound pid), q')"
  shows "fuzzy_flush bc ops s (p, {}, R) pids vs \<Longrightarrow> pool_inv ops log_ok (p, {}, R) \<Longrightarrow>
    flush_collected ops io pids p = (r, p') \<Longrightarrow>
    pool_inv ops log_ok (p', {}, R) \<and> pool_view p' = pool_view p \<and>
    (r = Ok () \<longrightarrow> (\<exists>vs'. fuzzy_flush bc ops s (p', {}, R) [] vs' \<and> set vs' \<subseteq> insert (pool_view p) (set vs)))"
proof (induction pids arbitrary: p vs)
  case Nil
  then show ?case
    by auto
next
  case (Cons pid pids)
  obtain r1 q where fl: "flush_page ops io pid p = (r1, q)"
    by (metis prod.collapse)
  have q: "pool_inv ops log_ok (q, {}, R)" "pool_view q = pool_view p"
    using flush_page_ok(1,2) [OF Cons.prems(2) fl] by simp_all
  show ?case
  proof (cases "r1 = Ok () \<or> (\<exists>q. r1 = Err (PageNotFound q))")
    case True
    then have "flush_collected ops io pids q = (r, p')"
      using Cons.prems(3) fl by auto
    moreover have "fuzzy_flush bc ops s (q, {}, R) pids (vs @ [pool_view q])"
      by (rule fuzzy_flush.flush_next [OF Cons.prems(1) fl _ True]) simp
    ultimately show ?thesis
      using Cons.IH [OF _ q(1)] q(2) by fastforce
  next
    case False
    then have "r = Err CheckpointFailed \<and> p' = q"
      using Cons.prems(3) fl by (auto split: sum.splits storage_error.splits)
    then show ?thesis
      using q by simp
  qed
qed

lemma flush_collected_ok:
  assumes found: "\<And>io g q q' pid. flush_frame ops io g q \<noteq> (Err (PageNotFound pid), q')"
    and inv: "pool_inv ops log_ok (p, {}, R)" and fl: "flush_collected ops io (dirty_page_ids p) p = (r, p')"
  shows "pool_inv ops log_ok (p', {}, R)" "pool_view p' = pool_view p" "r = Ok () \<Longrightarrow> bp_disk p' = pool_view p"
proof -
  have "fuzzy_flush demo_bincode ops (p, {}, R) (p, {}, R) (dirty_page_ids p) [pool_view p]"
    using fuzzy_flush.collect [of demo_bincode ops "(p, {}, R)"] by simp
  note a = flush_collected_fuzzy [OF found this inv fl]
  show "pool_inv ops log_ok (p', {}, R)" "pool_view p' = pool_view p"
    using a by simp_all
  show "bp_disk p' = pool_view p" if "r = Ok ()"
  proof
    fix pid
    obtain vs where "fuzzy_flush demo_bincode ops (p, {}, R) (p', {}, R) [] vs" "set vs \<subseteq> {pool_view p}"
      using a \<open>r = Ok ()\<close> by auto
    then show "bp_disk p' pid = pool_view p pid"
      using fuzzy_flush_covers [OF found _ inv] by (fastforce simp: covered_def)
  qed
qed

text \<open>The three phases, and what each leaves alone.\<close>

lemma phase1_ok:
  assumes inv: "pool_inv ops log_ok (ck_pool c, {}, R)" and res: "checkpoint_phase1 ops c = (r, c')"
  shows "pool_inv ops log_ok (ck_pool c', {}, R)" "pool_view (ck_pool c') = pool_view (ck_pool c)"
    "c' = c\<lparr> ck_pool := ck_pool c' \<rparr>" "bp_frames (ck_pool c') = bp_frames (ck_pool c)"
    "r = Ok (l, snap) \<Longrightarrow> snap = allocator_snapshot l (ck_alloc c)"
proof -
  obtain r1 w where a: "wo_append ops (bp_wal (ck_pool c)) checkpoint_begin = (r1, w)"
    by (metis prod.collapse)
  let ?q = "(ck_pool c)\<lparr> bp_wal := w \<rparr>"
  have q: "pool_inv ops log_ok (?q, {}, R)" "pool_view ?q = pool_view (ck_pool c)"
    using pool_step_ok [OF pool_step.append_log [OF a, of demo_bincode] inv] by simp_all
  have "pool_inv ops log_ok (set_checkpoint_lsn l ?q, {}, R)" "pool_view (set_checkpoint_lsn l ?q) = pool_view (ck_pool c)" for l
    using pool_step_ok [OF pool_step.set_checkpoint_lsn [of demo_bincode] q(1), of l] q(2) by simp_all
  then show "pool_inv ops log_ok (ck_pool c', {}, R)" "pool_view (ck_pool c') = pool_view (ck_pool c)"
    "c' = c\<lparr> ck_pool := ck_pool c' \<rparr>" "bp_frames (ck_pool c') = bp_frames (ck_pool c)"
    "r = Ok (l, snap) \<Longrightarrow> snap = allocator_snapshot l (ck_alloc c)"
    using res q a by (auto simp: checkpoint_phase1_def set_checkpoint_lsn_def split: sum.splits)
qed

end

lemma write_snapshot_file_cases:
  assumes "write_snapshot_file crc io name body c = (r, c')"
  obtains (ok) b where "r = Ok ()" "body = Some b"
      "c' = c\<lparr> ck_snapshots := (name, u32_le (crc b) @ b) # filter (\<lambda>(n, _). n \<noteq> name) (ck_snapshots c) \<rparr>"
  | (failed) e where "r = Err e" "c' = c"
  using assms by (auto simp: write_snapshot_file_def split: option.splits if_splits)

lemma map_of_filter_name: "n \<noteq> name \<Longrightarrow> map_of (filter (\<lambda>(m, _). m \<noteq> name) xs) n = map_of xs n"
  by (induction xs) auto


text \<open>Both snapshot files of a checkpoint, with their checksums.\<close>

definition snapshots_of ::
  "(byte list \<Rightarrow> u32) \<Rightarrow> snapshot_codec \<Rightarrow> txn_id list \<Rightarrow> (page_id \<times> lsn) list \<Rightarrow> lsn \<Rightarrow> (string \<times> byte list) list \<Rightarrow> bool" where
  "snapshots_of crc sc att dpt l files \<longleftrightarrow> (\<exists>a d. enc_xids sc att = Some a \<and> enc_pages sc dpt = Some d \<and>
     map_of files (att_file_name l) = Some (u32_le (crc a) @ a) \<and> map_of files (dpt_file_name l) = Some (u32_le (crc d) @ d))"

context pool_log
begin

lemma phase2_ok:
  assumes found: "\<And>io g q q' pid. flush_frame ops io g q \<noteq> (Err (PageNotFound pid), q')"
    and inv: "pool_inv ops log_ok (ck_pool c, {}, R)" and res: "checkpoint_phase2 crc sc ops io att l c = (r, c')"
  shows "pool_inv ops log_ok (ck_pool c', {}, R)" "pool_view (ck_pool c') = pool_view (ck_pool c)"
    "c' = c\<lparr> ck_pool := ck_pool c', ck_snapshots := ck_snapshots c' \<rparr>"
    "r = Ok () \<Longrightarrow> bp_disk (ck_pool c') = pool_view (ck_pool c)"
    "r = Ok () \<Longrightarrow> snapshots_of crc sc att (dirty_page_snapshot (ck_pool c)) l (ck_snapshots c')"
proof -
  let ?p = "ck_pool c"
  obtain r1 c1 where w1: "write_snapshot_file crc io (att_file_name l) (enc_xids sc att) c = (r1, c1)"
    by (metis prod.collapse)
  obtain r2 c2 where w2: "write_snapshot_file crc io (dpt_file_name l) (enc_pages sc (dirty_page_snapshot (ck_pool c1))) c1 = (r2, c2)"
    by (metis prod.collapse)
  obtain r3 p' where fl: "flush_collected ops (ck_pool_io io) (dirty_page_ids ?p) ?p = (r3, p')"
    by (metis prod.collapse)
  note f = flush_collected_ok [OF found inv fl]
  obtain S1 where c1: "c1 = c\<lparr> ck_snapshots := S1 \<rparr>"
    using w1 by (cases rule: write_snapshot_file_cases) (auto intro: that [of "ck_snapshots c"])
  obtain S2 where c2: "c2 = c\<lparr> ck_snapshots := S2 \<rparr>"
    using w2 by (cases rule: write_snapshot_file_cases) (auto simp: c1 intro: that)
  have p1: "ck_pool c1 = ?p" "ck_pool c2 = ?p"
    by (simp_all add: c1 c2)
  have snaps: "snapshots_of crc sc att (dirty_page_snapshot ?p) l (ck_snapshots c2)" if "r1 = Ok ()" "r2 = Ok ()"
    using w1 w2 that names_distinct [of l l]
    by (auto simp: snapshots_of_def p1 map_of_filter_name elim!: write_snapshot_file_cases)
  consider "r1 \<noteq> Ok ()" "r \<noteq> Ok ()" "c' = c1" | "r2 \<noteq> Ok ()" "r \<noteq> Ok ()" "c' = c2"
    | "r1 = Ok ()" "r2 = Ok ()" "c' = c2\<lparr> ck_pool := p' \<rparr>" "r = Ok () \<Longrightarrow> r3 = Ok ()"
    using res w1 w2 fl p1 by (auto simp: checkpoint_phase2_def split: sum.splits option.splits)
  then have "pool_inv ops log_ok (ck_pool c', {}, R) \<and> pool_view (ck_pool c') = pool_view ?p \<and>
    c' = c\<lparr> ck_pool := ck_pool c', ck_snapshots := ck_snapshots c' \<rparr> \<and>
    (r = Ok () \<longrightarrow> bp_disk (ck_pool c') = pool_view ?p \<and> snapshots_of crc sc att (dirty_page_snapshot ?p) l (ck_snapshots c'))"
  proof cases
    case 3
    then show ?thesis
      using f snaps by (simp add: c2)
  qed (use inv in \<open>simp_all add: c1 c2\<close>)
  then show "pool_inv ops log_ok (ck_pool c', {}, R)" "pool_view (ck_pool c') = pool_view ?p"
    "c' = c\<lparr> ck_pool := ck_pool c', ck_snapshots := ck_snapshots c' \<rparr>"
    "r = Ok () \<Longrightarrow> bp_disk (ck_pool c') = pool_view ?p"
    "r = Ok () \<Longrightarrow> snapshots_of crc sc att (dirty_page_snapshot ?p) l (ck_snapshots c')"
    by blast+
qed

end


text \<open>The superblock of a checkpoint.\<close>

definition checkpoint_superblock :: "lsn \<Rightarrow> 'w ckpt \<Rightarrow> superblock" where
  "checkpoint_superblock l c = (ck_superblock c)\<lparr> sb_checkpoint_lsn := l, sb_next_page_id := al_next (ck_alloc c),
     sb_next_txn_id := ck_next_txn c, sb_next_oid := ck_next_oid c \<rparr>"

lemma update_superblock_ok:
  assumes sb: "read_with_offset crc (ck_sb_file c) = Ok (cur, off, migrated)" "length (ck_sb_file c) = SUPERBLOCK_FILE_SIZE"
    "sb_version (ck_superblock c) = SUPERBLOCK_VERSION"
    and res: "update_superblock crc io (checkpoint_end_of l c) c = (r, c')"
  shows "c' = c\<lparr> ck_superblock := checkpoint_superblock l c, ck_sb_file := ck_sb_file c' \<rparr>"
    "r = Ok () \<Longrightarrow> sb_checkpoint_lsn cur < l \<and> fst (superblock_read crc (ck_sb_file c')) = Ok (checkpoint_superblock l c)"
    "r = Err e \<Longrightarrow> ck_sb_file c' = ck_sb_file c \<or> ck_superblock_torn io = Some (ck_sb_file c')"
proof -
  let ?sb = "checkpoint_superblock l c"
  have u: "update_superblock crc io (checkpoint_end_of l c) c =
    (case superblock_write crc ?sb (ck_sb_file c) of
       Inl e \<Rightarrow> (Err e, c\<lparr> ck_superblock := ?sb \<rparr>)
     | Inr f \<Rightarrow> (case ck_superblock_torn io of
         Some t \<Rightarrow> (Err Io, c\<lparr> ck_superblock := ?sb, ck_sb_file := t \<rparr>)
       | None \<Rightarrow> (Ok (), c\<lparr> ck_superblock := ?sb, ck_sb_file := f \<rparr>)))"
    by (simp add: update_superblock_def Let_def checkpoint_end_of_def checkpoint_superblock_def split: sum.splits option.splits)
  have "sb_version ?sb = SUPERBLOCK_VERSION" "sb_checkpoint_lsn ?sb = l"
    using sb(3) by (simp_all add: checkpoint_superblock_def)
  note w = superblock_write_ok [OF sb(1,2) this(1) HOL.refl, unfolded this(2)]
  show "c' = c\<lparr> ck_superblock := ?sb, ck_sb_file := ck_sb_file c' \<rparr>"
    "r = Ok () \<Longrightarrow> sb_checkpoint_lsn cur < l \<and> fst (superblock_read crc (ck_sb_file c')) = Ok ?sb"
    "r = Err e \<Longrightarrow> ck_sb_file c' = ck_sb_file c \<or> ck_superblock_torn io = Some (ck_sb_file c')"
    using res w by (auto simp: u split: if_splits option.splits)
qed

context pool_log
begin

lemma phase3_ok:
  assumes inv: "pool_inv ops log_ok (ck_pool c, {}, R)"
    and sb: "read_with_offset crc (ck_sb_file c) = Ok (cur, off, migrated)" "length (ck_sb_file c) = SUPERBLOCK_FILE_SIZE"
      "sb_version (ck_superblock c) = SUPERBLOCK_VERSION"
    and res: "checkpoint_phase3 bc crc ops io l snap c = (r, c')"
  shows "pool_inv ops log_ok (ck_pool c', {}, R)" "pool_view (ck_pool c') = pool_view (ck_pool c)"
    "bp_disk (ck_pool c') = bp_disk (ck_pool c)" "ck_snapshots c' = ck_snapshots c"
    "r = Ok () \<Longrightarrow> sb_checkpoint_lsn cur < l \<and> ck_superblock c' = checkpoint_superblock l c \<and>
       fst (superblock_read crc (ck_sb_file c')) = Ok (checkpoint_superblock l c) \<and>
       (ck_freelist_ok io \<longrightarrow> ck_freelist_file c' = Some (freelist_encode crc snap))"
    "r = Err e \<Longrightarrow> ck_sb_file c' = ck_sb_file c \<or> ck_superblock_torn io = Some (ck_sb_file c')"
proof -
  let ?p = "ck_pool c" and ?ce = "checkpoint_end_of l c"
  have "pool_inv ops log_ok (ck_pool c', {}, R) \<and> pool_view (ck_pool c') = pool_view ?p \<and> bp_disk (ck_pool c') = bp_disk ?p \<and>
    ck_snapshots c' = ck_snapshots c \<and>
    (r = Ok () \<longrightarrow> sb_checkpoint_lsn cur < l \<and> ck_superblock c' = checkpoint_superblock l c \<and>
       fst (superblock_read crc (ck_sb_file c')) = Ok (checkpoint_superblock l c) \<and>
       (ck_freelist_ok io \<longrightarrow> ck_freelist_file c' = Some (freelist_encode crc snap))) \<and>
    (r \<noteq> Ok () \<longrightarrow> ck_sb_file c' = ck_sb_file c \<or> ck_superblock_torn io = Some (ck_sb_file c'))"
  proof (cases "checkpoint_end_record bc ?ce")
    case (Inl e)
    then show ?thesis
      using res inv by (auto simp: checkpoint_phase3_def)
  next
    case (Inr rec)
    obtain r1 w1 where a: "wo_append ops (bp_wal ?p) rec = (r1, w1)"
      by (metis prod.collapse)
    let ?p1 = "?p\<lparr> bp_wal := w1 \<rparr>"
    have p1: "pool_inv ops log_ok (?p1, {}, R)" "pool_view ?p1 = pool_view ?p"
      using pool_step_ok [OF pool_step.append_log [OF a, of demo_bincode] inv] by simp_all
    show ?thesis
    proof (cases r1)
      case (Inl e)
      then show ?thesis
        using res p1 a Inr by (auto simp: checkpoint_phase3_def Let_def)
    next
      case end_lsn: (Inr end_lsn)
      obtain r2 w2 where fl: "wo_flush_to ops w1 end_lsn = (r2, w2)"
        by (metis prod.collapse)
      let ?p2 = "?p\<lparr> bp_wal := w2 \<rparr>"
      have p2: "pool_inv ops log_ok (?p2, {}, R)" "pool_view ?p2 = pool_view ?p"
        using pool_step_ok [OF pool_step.sync_log [of ops ?p1 end_lsn r2 w2 demo_bincode] p1(1)] fl p1(2) by simp_all
      show ?thesis
      proof (cases r2)
        case (Inl e)
        then show ?thesis
          using res p2 a Inr end_lsn fl by (auto simp: checkpoint_phase3_def Let_def)
      next
        case synced: (Inr u)
        let ?c = "c\<lparr> ck_pool := ?p2, ck_freelist_file := (if ck_freelist_ok io then Some (freelist_encode crc snap) else ck_freelist_file c) \<rparr>"
        have same: "checkpoint_end_of l ?c = ?ce" "checkpoint_superblock l ?c = checkpoint_superblock l c"
          by (simp_all add: checkpoint_end_of_def checkpoint_superblock_def)
        have "update_superblock crc io (checkpoint_end_of l ?c) ?c = (r, c')"
          using res a Inr end_lsn fl synced unfolding same(1) by (simp add: checkpoint_phase3_def Let_def)
        note us = update_superblock_ok [OF _ _ _ this, unfolded same(2)]
        obtain S F where c': "c' = ?c\<lparr> ck_superblock := S, ck_sb_file := F \<rparr>" "S = checkpoint_superblock l c"
          using us(1) sb by simp
        then show ?thesis
          using us(2,3) sb p2 by (cases r) simp_all
      qed
    qed
  qed
  then show "pool_inv ops log_ok (ck_pool c', {}, R)" "pool_view (ck_pool c') = pool_view (ck_pool c)"
    "bp_disk (ck_pool c') = bp_disk (ck_pool c)" "ck_snapshots c' = ck_snapshots c"
    "r = Ok () \<Longrightarrow> sb_checkpoint_lsn cur < l \<and> ck_superblock c' = checkpoint_superblock l c \<and>
       fst (superblock_read crc (ck_sb_file c')) = Ok (checkpoint_superblock l c) \<and>
       (ck_freelist_ok io \<longrightarrow> ck_freelist_file c' = Some (freelist_encode crc snap))"
    "r = Err e \<Longrightarrow> ck_sb_file c' = ck_sb_file c \<or> ck_superblock_torn io = Some (ck_sb_file c')"
    by simp_all
qed

end

text \<open>The log of a pool shows in nothing its users see.\<close>

lemma pool_view_wal [simp]: "pool_view (p\<lparr> bp_wal := w \<rparr>) = pool_view p"
  by (simp add: pool_view_def fun_eq_iff split: option.splits)

lemma trigger_checkpoint_cases:
  assumes "trigger_checkpoint bc sc crc ops recycle io att c = (r, c')"
  obtains (phase1) e where "checkpoint_phase1 ops c = (Err e, c')" "r = Err e"
  | (phase2) e l snap c1 where "checkpoint_phase1 ops c = (Ok (l, snap), c1)" "checkpoint_phase2 crc sc ops io att l c1 = (Err e, c')" "r = Err e"
  | (phase3) e l snap c1 c2 where "checkpoint_phase1 ops c = (Ok (l, snap), c1)" "checkpoint_phase2 crc sc ops io att l c1 = (Ok (), c2)"
      "checkpoint_phase3 bc crc ops io l snap c2 = (Err e, c')" "r = Err e"
  | (recycled) l snap c1 c2 c3 w where "checkpoint_phase1 ops c = (Ok (l, snap), c1)" "checkpoint_phase2 crc sc ops io att l c1 = (Ok (), c2)"
      "checkpoint_phase3 bc crc ops io l snap c2 = (Ok (), c3)" "r = Ok l"
      "c' = c3\<lparr> ck_pool := (ck_pool c3)\<lparr> bp_wal := w \<rparr>,
         ck_snapshots := prune_snapshot_files (sb_checkpoint_lsn (ck_superblock c3)) (ck_snapshots c3) \<rparr>"
  | (unrecycled) e l snap c1 c2 c3 w where "checkpoint_phase1 ops c = (Ok (l, snap), c1)" "checkpoint_phase2 crc sc ops io att l c1 = (Ok (), c2)"
      "checkpoint_phase3 bc crc ops io l snap c2 = (Ok (), c3)" "r = Err e" "recycle (bp_wal (ck_pool c3)) (unat l) = (Err e, w)"
      "c' = c3\<lparr> ck_pool := (ck_pool c3)\<lparr> bp_wal := w \<rparr> \<rparr>"
  using assms by (simp add: trigger_checkpoint_def split: prod.splits sum.splits) blast+

text \<open>What a checkpoint that has reached its end has made durable.\<close>

definition checkpointed ::
  "(byte list \<Rightarrow> u32) \<Rightarrow> snapshot_codec \<Rightarrow> ckpt_io \<Rightarrow> txn_id list \<Rightarrow> lsn \<Rightarrow> 'w ckpt \<Rightarrow> 'w ckpt \<Rightarrow> bool" where
  "checkpointed crc sc io att l c c' \<longleftrightarrow>
     fst (superblock_read crc (ck_sb_file c')) = Ok (checkpoint_superblock l c) \<and>
     bp_disk (ck_pool c') = pool_view (ck_pool c) \<and>
     snapshots_of crc sc att (dirty_page_snapshot (ck_pool c)) l (ck_snapshots c') \<and>
     (ck_freelist_ok io \<longrightarrow> ck_freelist_file c' = Some (freelist_encode crc \<lparr> fm_checkpoint_lsn = l, fm_page_ids = al_freelist (ck_alloc c) \<rparr>))"

context pool_log
begin

lemma trigger_checkpoint_ok:
  assumes found: "\<And>io g q q' pid. flush_frame ops io g q \<noteq> (Err (PageNotFound pid), q')"
    and inv: "pool_inv ops log_ok (ck_pool c, {}, R)"
    and sb: "read_with_offset crc (ck_sb_file c) = Ok (cur, off, migrated)" "length (ck_sb_file c) = SUPERBLOCK_FILE_SIZE"
      "sb_version (ck_superblock c) = SUPERBLOCK_VERSION"
    and res: "trigger_checkpoint bc sc crc ops recycle io att c = (r, c')"
  shows "pool_view (ck_pool c') = pool_view (ck_pool c)"
    "r = Ok l \<Longrightarrow> sb_checkpoint_lsn cur < l \<and> checkpointed crc sc io att l c c'"
    "r = Err e \<Longrightarrow> ck_sb_file c' = ck_sb_file c \<or> ck_superblock_torn io = Some (ck_sb_file c') \<or>
      (\<exists>l w. checkpointed crc sc io att l c c' \<and> fst (recycle w (unat l)) = Err e)"
proof -
  have two: "pool_inv ops log_ok (ck_pool c2, {}, R)" "pool_view (ck_pool c2) = pool_view (ck_pool c)"
      "\<exists>P S. c2 = c\<lparr> ck_pool := P, ck_snapshots := S \<rparr>" "snap = allocator_snapshot l (ck_alloc c)"
      "r2 = Ok () \<Longrightarrow> bp_disk (ck_pool c2) = pool_view (ck_pool c) \<and>
         snapshots_of crc sc att (dirty_page_snapshot (ck_pool c)) l (ck_snapshots c2)"
    if p1: "checkpoint_phase1 ops c = (Ok (l, snap), c1)" and p2: "checkpoint_phase2 crc sc ops io att l c1 = (r2, c2)" for l snap c1 r2 c2
  proof -
    note a = phase1_ok [OF inv p1]
    note b = phase2_ok [OF found a(1) p2]
    obtain P1 where c1: "c1 = c\<lparr> ck_pool := P1 \<rparr>"
      using a(3) by blast
    have "dirty_page_snapshot (ck_pool c1) = dirty_page_snapshot (ck_pool c)"
      using a(4) by (simp add: dirty_page_snapshot_def)
    then show "pool_inv ops log_ok (ck_pool c2, {}, R)" "pool_view (ck_pool c2) = pool_view (ck_pool c)"
      "snap = allocator_snapshot l (ck_alloc c)"
      "r2 = Ok () \<Longrightarrow> bp_disk (ck_pool c2) = pool_view (ck_pool c) \<and>
         snapshots_of crc sc att (dirty_page_snapshot (ck_pool c)) l (ck_snapshots c2)"
      using b(1,2,4,5) a(2,5) by simp_all
    have "c2 = c\<lparr> ck_pool := ck_pool c2, ck_snapshots := ck_snapshots c2 \<rparr>"
      using b(3) unfolding c1 by simp
    then show "\<exists>P S. c2 = c\<lparr> ck_pool := P, ck_snapshots := S \<rparr>"
      by blast
  qed
  have three: "pool_view (ck_pool c3) = pool_view (ck_pool c)"
      "r3 = Ok () \<Longrightarrow> sb_checkpoint_lsn cur < l \<and> checkpointed crc sc io att l c c3 \<and> sb_checkpoint_lsn (ck_superblock c3) = l"
      "r3 = Err e \<Longrightarrow> ck_sb_file c3 = ck_sb_file c \<or> ck_superblock_torn io = Some (ck_sb_file c3)"
    if p12: "checkpoint_phase1 ops c = (Ok (l, snap), c1)" "checkpoint_phase2 crc sc ops io att l c1 = (Ok (), c2)"
      and p3: "checkpoint_phase3 bc crc ops io l snap c2 = (r3, c3)" for l snap c1 c2 c3 r3 e
  proof -
    note b = two [OF p12]
    obtain P S where c2: "c2 = c\<lparr> ck_pool := P, ck_snapshots := S \<rparr>"
      using b(3) by blast
    have same: "ck_sb_file c2 = ck_sb_file c" "ck_superblock c2 = ck_superblock c" "checkpoint_superblock l c2 = checkpoint_superblock l c"
      by (simp_all add: c2 checkpoint_superblock_def)
    note d = phase3_ok [OF b(1) _ _ _ p3, unfolded same, OF sb]
    show "pool_view (ck_pool c3) = pool_view (ck_pool c)"
      "r3 = Err e \<Longrightarrow> ck_sb_file c3 = ck_sb_file c \<or> ck_superblock_torn io = Some (ck_sb_file c3)"
      using d(2,6) b(2) by simp_all
    assume "r3 = Ok ()"
    then show "sb_checkpoint_lsn cur < l \<and> checkpointed crc sc io att l c c3 \<and> sb_checkpoint_lsn (ck_superblock c3) = l"
      using d(3,4,5) b(4,5) by (simp add: checkpointed_def allocator_snapshot_def checkpoint_superblock_def)
  qed
  show "pool_view (ck_pool c') = pool_view (ck_pool c)"
    using res by (cases rule: trigger_checkpoint_cases) (simp_all add: phase1_ok(2) [OF inv] two(2) three(1))
  show "sb_checkpoint_lsn cur < l \<and> checkpointed crc sc io att l c c'" if "r = Ok l"
    using res
  proof (cases rule: trigger_checkpoint_cases)
    case (recycled l' snap c1 c2 c3 w)
    note e = three(2) [OF recycled(1-3) HOL.refl]
    have "snapshots_of crc sc att dpt l' (prune_snapshot_files l' S) = snapshots_of crc sc att dpt l' S" for dpt S
      by (simp add: snapshots_of_def prune_keeps_current parse_snapshot_name)
    then show ?thesis
      using e recycled(4,5) that by (simp add: checkpointed_def)
  qed (use that in simp_all)
  show "ck_sb_file c' = ck_sb_file c \<or> ck_superblock_torn io = Some (ck_sb_file c') \<or>
      (\<exists>l w. checkpointed crc sc io att l c c' \<and> fst (recycle w (unat l)) = Err e)" if "r = Err e"
    using res
  proof (cases rule: trigger_checkpoint_cases)
    case (phase1 e')
    then show ?thesis
      using arg_cong [OF phase1_ok(3) [OF inv phase1(1)], of ck_sb_file] by simp
  next
    case (phase2 e' l' snap c1)
    then show ?thesis
      using two(3) [OF phase2(1,2)] by auto
  next
    case (phase3 e' l' snap c1 c2)
    then show ?thesis
      using three(3) [OF phase3(1-3)] by blast
  next
    case (unrecycled e' l' snap c1 c2 c3 w)
    have "checkpointed crc sc io att l' c c'"
      using three(2) [OF unrecycled(1-3)] by (simp add: unrecycled(6) checkpointed_def)
    moreover have "fst (recycle (bp_wal (ck_pool c3)) (unat l')) = Err e"
      using unrecycled(4,5) that by simp
    ultimately show ?thesis
      by blast
  qed (use that in simp)
qed

end




section \<open>A checkpoint at work\<close>

lemma append_within:
  assumes "\<not> last_error w" "length (payload r) \<le> 65535" "current_segment_id (segs w) = lsn_clock w div sz"
    "lsn_clock w mod sz + record_size r \<le> sz" "0 < sz"
  shows "\<exists>m. append_record crc sz r w = (Ok (lsn_clock w), w\<lparr> lsn_clock := lsn_clock w + record_size r, segs := m, pending := pending w + 1 \<rparr>) \<and>
    current_segment_id m = current_segment_id (segs w)"
proof -
  obtain buf where e: "wal_encode crc (r\<lparr> rec_lsn := of_nat (lsn_clock w) \<rparr>) = Ok buf"
    using assms(2) by (simp add: wal_encode_def Let_def)
  have len: "length buf = record_size r"
    using encode_fields(2) [OF e] by (simp add: record_size_def)
  moreover have "record_size r > 0"
    using align_up_8(1) [of "WAL_RECORD_HEADER_SIZE + length (payload r)"] by (simp add: record_size_def WAL_RECORD_HEADER_SIZE_def)
  ultimately have "buf \<noteq> []"
    by auto
  then have "write_record_to_segment sz (lsn_clock w) buf (segs w) = Ok (write_chunk sz (lsn_clock w) buf (segs w))"
    using write_loop_within [OF assms(3), of buf] assms(4,5) len by (simp add: write_record_to_segment_def)
  moreover have "current_segment_id (write_chunk sz (lsn_clock w) buf (segs w)) = current_segment_id (segs w)"
    by (simp add: write_chunk_def split: option.splits)
  ultimately show ?thesis
    using assms(1,2) e by (intro exI [of _ "write_chunk sz (lsn_clock w) buf (segs w)"]) (simp add: append_record_def write_at_def)
qed


definition ckpt_bincode :: bincode where
  "ckpt_bincode = \<lparr> bin_enc = (\<lambda>p. case p of CheckpointEndRecord _ \<Rightarrow> Some [2] | _ \<Rightarrow> None), bin_dec = (\<lambda>_ _. None) \<rparr>"

definition ckpt_codec :: snapshot_codec where
  "ckpt_codec = \<lparr> enc_xids = (\<lambda>xs. Some (concat (map u64_le xs))), enc_pages = (\<lambda>ps. Some (concat (map (\<lambda>(p, l). u64_le p @ u64_le l) ps))) \<rparr>"

definition demo_ckpt_io :: ckpt_io where
  "demo_ckpt_io = \<lparr> ck_pool_io = demo_io, ck_snapshot_ok = (\<lambda>_. True), ck_clog_flush = Some (Ok ()), ck_freelist_ok = True,
     ck_superblock_torn = None \<rparr>"

definition demo_ckpt :: "writer_state pool \<Rightarrow> writer_state ckpt" where
  "demo_ckpt p = \<lparr> ck_pool = p,
     ck_alloc = \<lparr> al_wal = (), al_file_len = 1048576, al_next = 3, al_freelist = [2], al_page_size = 8192, al_recovered = True \<rparr>,
     ck_superblock = superblock_new 8192 5, ck_sb_file = snd (superblock_create (\<lambda>_. 1) 8192 5), ck_freelist_file = None,
     ck_snapshots = [], ck_next_oid = 20000, ck_next_txn = 9 \<rparr>"

lemma demo_begin:
  "\<exists>m. wo_append demo_ops demo_log checkpoint_begin = (Ok 8, demo_log\<lparr> lsn_clock := 40, segs := m, pending := 1 \<rparr>) \<and> current_segment_id m = 0"
  using append_within [of demo_log checkpoint_begin 128 "\<lambda>_. 1"]
  by (simp add: demo_ops_def writer_ops_def demo_log_def open_with_segment_manager_def fresh_segments_def
      checkpoint_begin_def record_new_def record_size_def WAL_RECORD_HEADER_SIZE_def align_up_def)

lemma demo_end:
  assumes "w = demo_log\<lparr> lsn_clock := 40, segs := m, pending := 1 \<rparr>" "current_segment_id m = 0"
    "checkpoint_end_record ckpt_bincode ce = Ok r"
  shows "\<exists>w'. wo_append demo_ops w r = (Ok 40, w') \<and> lsn_clock w' = 80 \<and> pending w' = 2 \<and> \<not> last_error w' \<and> \<not> shutdown w' \<and> synced_lsn w' = 0"
proof -
  have "payload r = [2]"
    using assms(3) by (auto simp: checkpoint_end_record_def mk_record_def ckpt_bincode_def record_new_def)
  then show ?thesis
    using append_within [of w r 128 "\<lambda>_. 1"]
    by (auto simp: assms(1,2) demo_ops_def writer_ops_def demo_log_def open_with_segment_manager_def
      record_size_def WAL_RECORD_HEADER_SIZE_def align_up_def)
qed

text \<open>The checkpoint of a pool whose pages flush without touching the log.\<close>

lemma demo_trigger:
  assumes wal: "bp_wal p = demo_log"
    and fl: "\<And>q w. q = set_checkpoint_lsn 8 (p\<lparr> bp_wal := w \<rparr>) \<Longrightarrow>
      \<exists>q'. flush_collected demo_ops demo_io (dirty_page_ids q) q = (Ok (), q') \<and> bp_wal q' = w \<and> bp_disk q' = d"
  shows "\<exists>c'. trigger_checkpoint ckpt_bincode ckpt_codec (\<lambda>_. 1) demo_ops (\<lambda>w l. writer_recycle_before 128 l w) demo_ckpt_io [9] (demo_ckpt p) = (Ok 8, c') \<and>
    bp_disk (ck_pool c') = d"
proof -
  obtain m where m: "wo_append demo_ops demo_log checkpoint_begin = (Ok 8, demo_log\<lparr> lsn_clock := 40, segs := m, pending := 1 \<rparr>)" "current_segment_id m = 0"
    using demo_begin by blast
  define w where "w = demo_log\<lparr> lsn_clock := 40, segs := m, pending := 1 \<rparr>"
  define q where "q = set_checkpoint_lsn 8 (p\<lparr> bp_wal := w \<rparr>)"
  obtain q' where q': "flush_collected demo_ops demo_io (dirty_page_ids q) q = (Ok (), q')" "bp_wal q' = w" "bp_disk q' = d"
    using fl [OF q_def] by blast
  have p1: "checkpoint_phase1 demo_ops (demo_ckpt p) = (Ok (8, \<lparr> fm_checkpoint_lsn = 8, fm_page_ids = [2] \<rparr>), demo_ckpt q)"
    using m(1) by (simp add: checkpoint_phase1_def demo_ckpt_def wal allocator_snapshot_def q_def w_def)
  obtain S where p2: "checkpoint_phase2 (\<lambda>_. 1) ckpt_codec demo_ops demo_ckpt_io [9] 8 (demo_ckpt q) = (Ok (), (demo_ckpt q')\<lparr> ck_snapshots := S \<rparr>)"
    using q'(1) by (simp add: checkpoint_phase2_def write_snapshot_file_def demo_ckpt_io_def ckpt_codec_def demo_ckpt_def)
  let ?c = "(demo_ckpt q')\<lparr> ck_snapshots := S \<rparr>"
  obtain r where r: "checkpoint_end_record ckpt_bincode (checkpoint_end_of 8 ?c) = Ok r"
    by (simp add: checkpoint_end_record_def mk_record_def ckpt_bincode_def)
  obtain w1 where w1: "wo_append demo_ops w r = (Ok 40, w1)" "lsn_clock w1 = 80" "pending w1 = 2" "\<not> last_error w1" "\<not> shutdown w1" "synced_lsn w1 = 0"
    using demo_end [OF w_def m(2) r] by blast
  obtain w2 where w2: "wo_flush_to demo_ops w1 40 = (Ok (), w2)" "\<not> last_error w2" "\<not> shutdown w2"
    using w1 by (simp add: demo_ops_def writer_ops_def flush_to_def run_wave_cases)
  have "sb_checkpoint_lsn (superblock_new 8192 5) = 0" "sb_version (superblock_new 8192 5) = SUPERBLOCK_VERSION"
    by (simp_all add: superblock_new_def)
  then obtain f where f: "superblock_write (\<lambda>_. 1) (checkpoint_superblock 8 ?c) (snd (superblock_create (\<lambda>_. 1) 8192 5)) = Ok f"
    using demo_superblock(1) by (auto simp: superblock_write_def checkpoint_superblock_def demo_ckpt_def)
  have "\<exists>c3. checkpoint_phase3 ckpt_bincode (\<lambda>_. 1) demo_ops demo_ckpt_io 8 \<lparr> fm_checkpoint_lsn = 8, fm_page_ids = [2] \<rparr> ?c = (Ok (), c3) \<and>
      bp_wal (ck_pool c3) = w2 \<and> bp_disk (ck_pool c3) = d"
    using r w1(1) w2(1) q'(2,3) f
    by (simp add: checkpoint_phase3_def Let_def update_superblock_def checkpoint_end_of_def checkpoint_superblock_def demo_ckpt_def demo_ckpt_io_def)
  then show ?thesis
    using p1 p2 w2(2,3) by (auto simp: trigger_checkpoint_def writer_recycle_before_def)
qed



definition demo_changed :: "writer_state pool" where
  "demo_changed = drop_guard_mut 0 (guard_write 0 ((replicate PAGE_SIZE 0)[100 := 7]) demo_claimed)"


end
