(* ===== verification/Btree_Key.thy ===== *)
theory Btree_Key
  imports Tuple_Codec "HOL-Library.List_Lexorder"
begin

text \<open>
  Index keys (\<^verbatim>\<open>pg-am-btree/src/key.rs\<close>) and the error type of the index
  (\<^verbatim>\<open>pg-am-btree/src/error.rs\<close>).  Byte strings compare lexicographically, as slices do in
  Rust; the main result says that this order of the encodings is the native order of the
  values, and that encodings decode.
\<close>

section \<open>Errors\<close>

text \<open>
  The constructors of \<open>BTreeError\<close> without message texts.  A panic of a slice access inside
  a page is the \<open>HeapPanic\<close> of the wrapped error.  \<open>BtDiverges\<close> is not an error of the source:
  it stands for a loop that did not return within the fuel given to it.
\<close>

datatype btree_error =
    BtPageFull nat nat | KeyTooLarge nat | DuplicateKey | EntryNotFound | BtCorrupted
  | BtInvalidArgument | BtUnsupported | BtHeap heap_error | BtStorage storage_error
  | BtDiverges

section \<open>Encoding\<close>

definition MAX_INDEX_KEY_BYTES :: nat where "MAX_INDEX_KEY_BYTES = (PAGE_SIZE - 32 - 16) div 3 - 16"

definition is_supported_key_type :: "column_type \<Rightarrow> bool" where
  "is_supported_key_type col \<longleftrightarrow> col = ColInt4 \<or> col = ColInt8 \<or> col = ColText \<or> col = ColBytea"

text \<open>\<open>to_be_bytes\<close> and \<open>from_be_bytes\<close>.\<close>

definition u32_be :: "u32 \<Rightarrow> byte list" where "u32_be w = rev (u32_le w)"
definition u64_be :: "u64 \<Rightarrow> byte list" where "u64_be w = rev (u64_le w)"
definition be_u32 :: "byte list \<Rightarrow> u32" where "be_u32 bs = le_u32 (rev bs)"
definition be_u64 :: "byte list \<Rightarrow> u64" where "be_u64 bs = le_u64 (rev bs)"

definition encode_i32 :: "u32 \<Rightarrow> byte list" where "encode_i32 v = u32_be (v XOR 0x80000000)"
definition decode_i32 :: "byte list \<Rightarrow> u32" where "decode_i32 bs = be_u32 bs XOR 0x80000000"
definition encode_i64 :: "u64 \<Rightarrow> byte list" where "encode_i64 v = u64_be (v XOR 0x8000000000000000)"
definition decode_i64 :: "byte list \<Rightarrow> u64" where "decode_i64 bs = be_u64 bs XOR 0x8000000000000000"

fun key_bytes :: "datum \<Rightarrow> byte list option" where
  "key_bytes (DInt4 v) = Some (encode_i32 v)"
| "key_bytes (DInt8 v) = Some (encode_i64 v)"
| "key_bytes (DText s) = Some s"
| "key_bytes (DBytea b) = Some b"
| "key_bytes _ = None"

definition encode_key :: "datum \<Rightarrow> btree_error + byte list" where
  "encode_key d =
    (case key_bytes d of
       None \<Rightarrow> Err BtInvalidArgument
     | Some bs \<Rightarrow> if length bs > MAX_INDEX_KEY_BYTES then Err (KeyTooLarge (length bs)) else Ok bs)"

fun decode_key :: "column_type \<Rightarrow> byte list \<Rightarrow> btree_error + datum" where
  "decode_key ColInt4 bs = (if length bs = 4 then Ok (DInt4 (decode_i32 bs)) else Err BtCorrupted)"
| "decode_key ColInt8 bs = (if length bs = 8 then Ok (DInt8 (decode_i64 bs)) else Err BtCorrupted)"
| "decode_key ColText bs = (if valid_utf8 bs then Ok (DText bs) else Err BtCorrupted)"
| "decode_key ColBytea bs = Ok (DBytea bs)"
| "decode_key _ bs = Err BtInvalidArgument"

section \<open>Order\<close>

text \<open>The order of the values an index compares: integers by value, text and bytes as byte strings.\<close>

fun datum_less :: "datum \<Rightarrow> datum \<Rightarrow> bool" where
  "datum_less (DInt4 a) (DInt4 b) \<longleftrightarrow> sint a < sint b"
| "datum_less (DInt8 a) (DInt8 b) \<longleftrightarrow> sint a < sint b"
| "datum_less (DText a) (DText b) \<longleftrightarrow> a < b"
| "datum_less (DBytea a) (DBytea b) \<longleftrightarrow> a < b"
| "datum_less _ _ \<longleftrightarrow> False"

lemma list_less_append:
  "length xs = length ys \<Longrightarrow> (xs @ [x] < ys @ [y]) = (xs < ys \<or> xs = ys \<and> x < (y :: 'a :: linorder))"
  by (induction xs ys rule: list_induct2) auto

lemma le_nat_snoc: "le_nat (bs @ [b]) = le_nat bs + 256 ^ length bs * unat b"
  by (induction bs) (auto simp: algebra_simps)

text \<open>Big-endian bytes compare as the numbers they stand for.\<close>

lemma rev_less_iff:
  "length xs = length ys \<Longrightarrow> rev xs < rev ys \<longleftrightarrow> le_nat xs < le_nat ys"
proof (induction xs ys rule: list_induct2)
  case (Cons x xs y ys)
  have eq: "le_nat xs = le_nat ys \<Longrightarrow> xs = ys"
    using Cons.hyps le_bytes_le_nat [OF HOL.refl, of xs] le_bytes_le_nat [OF HOL.refl, of ys] by metis
  have "unat x < 256" "unat y < 256"
    by (rule unat_byte_less)+
  then have "unat x + 256 * le_nat xs < unat y + 256 * le_nat ys \<longleftrightarrow>
      le_nat xs < le_nat ys \<or> le_nat xs = le_nat ys \<and> unat x < unat y"
    by (cases "le_nat xs" "le_nat ys" rule: linorder_cases) linarith+
  then show ?case
    using Cons eq by (auto simp: list_less_append word_less_nat_alt)
qed simp

lemma le_nat_uN_le: "le_nat (u32_le a) = unat a" "le_nat (u64_le b) = unat b"
proof -
  have "unat a < 4294967296" "unat b < 18446744073709551616"
    using unsigned_less [of a] unsigned_less [of b] by simp_all
  then show "le_nat (u32_le a) = unat a" "le_nat (u64_le b) = unat b"
    by (simp_all add: u32_le_def u64_le_def le_nat_le_bytes)
qed

lemma uN_be_less: "u32_be a < u32_be b \<longleftrightarrow> a < b" "u64_be c < u64_be d \<longleftrightarrow> c < d"
  by (simp_all add: u32_be_def u64_be_def rev_less_iff le_nat_uN_le word_less_nat_alt)

lemma flip_sign:
  fixes a :: "'a :: len word"
  assumes "\<not> bit a n" "n < LENGTH('a)"
  shows "a XOR 2 ^ n = a + 2 ^ n"
proof -
  have "a + 2 ^ n = a OR 2 ^ n"
    by (rule disjunctive_add) (use assms in \<open>auto simp: bit_simps\<close>)
  moreover have "a XOR 2 ^ n = a OR 2 ^ n"
    by (rule bit_eqI) (use assms in \<open>auto simp: bit_simps\<close>)
  ultimately show ?thesis
    by simp
qed

lemma top_bit:
  fixes a :: "'a :: len word"
  assumes "LENGTH('a) = Suc n"
  shows "bit a n \<longleftrightarrow> 2 ^ n \<le> uint a"
proof -
  have u: "uint a < 2 * 2 ^ n" "0 \<le> uint a"
    using uint_lt2p [of a] assms by simp_all
  have "uint a div 2 ^ n = (if 2 ^ n \<le> uint a then 1 else 0)"
    using u by (auto intro: int_div_pos_eq [where r = "uint a - 2 ^ n"])
  moreover have "bit a n \<longleftrightarrow> odd (uint a div 2 ^ n)"
    using assms by (simp add: bit_uint_iff flip: bit_iff_odd)
  ultimately show ?thesis
    by simp
qed

lemma sint_top:
  fixes a :: "'a :: len word"
  assumes "LENGTH('a) = Suc n"
  shows "sint a = (if bit a n then uint a - 2 * 2 ^ n else uint a)"
proof -
  have "take_bit (Suc n) (uint a) = uint a"
    using assms uint_lt2p [of a] by (simp add: take_bit_int_eq_self)
  then show ?thesis
    using assms by (simp add: sint_uint signed_take_bit_eq_take_bit_minus bit_uint_iff)
qed

lemma uint_flip:
  fixes a :: "'a :: len word"
  assumes "LENGTH('a) = Suc n"
  shows "uint (a XOR 2 ^ n) = (if bit a n then uint a - 2 ^ n else uint a + 2 ^ n)"
proof -
  have up: "uint (c XOR 2 ^ n) = uint c + 2 ^ n" if "\<not> bit c n" for c :: "'a word"
  proof -
    have "uint (2 ^ n :: 'a word) = 2 ^ n"
      using uint_word_of_int [of "2 ^ n", where 'a = 'a] assms by simp
    moreover have "uint c + 2 ^ n < 2 ^ LENGTH('a)"
      using that top_bit [OF assms, of c] assms by simp
    ultimately show ?thesis
      using flip_sign [OF that] assms by (simp add: uint_plus_if')
  qed
  show ?thesis
  proof (cases "bit a n")
    case True
    have "\<not> bit (a XOR 2 ^ n) n"
      using True assms by (simp add: bit_simps)
    from up [OF this] show ?thesis
      using True by (simp add: xor.assoc)
  qed (simp add: up)
qed

text \<open>Flipping the sign bit turns the signed order into the unsigned one.\<close>

lemma flip_less:
  fixes a b :: "'a :: len word"
  assumes "LENGTH('a) = Suc n"
  shows "a XOR 2 ^ n < b XOR 2 ^ n \<longleftrightarrow> sint a < sint b"
  using uint_lt2p [of a] uint_lt2p [of b] top_bit [OF assms, of a] top_bit [OF assms, of b] assms
  by (auto simp: word_less_def uint_flip [OF assms] sint_top [OF assms])

lemma encode_int_less:
  "encode_i32 a < encode_i32 b \<longleftrightarrow> sint a < sint b" "encode_i64 c < encode_i64 d \<longleftrightarrow> sint c < sint d"
  using flip_less [of 31 a b] flip_less [of 63 c d]
  by (simp_all add: encode_i32_def encode_i64_def uN_be_less)

lemma decode_int_encode: "decode_i32 (encode_i32 a) = a" "decode_i64 (encode_i64 b) = b"
  by (simp_all add: decode_i32_def encode_i32_def decode_i64_def encode_i64_def u32_be_def u64_be_def
      be_u32_def be_u64_def xor.assoc)

lemma length_encode_int [simp]: "length (encode_i32 a) = 4" "length (encode_i64 b) = 8"
  by (simp_all add: encode_i32_def encode_i64_def u32_be_def u64_be_def)

section \<open>Properties\<close>

text \<open>
  C15: encoding preserves the order.  For two values of one key type that encode, the
  byte-string order of the encodings is the native order of the values, and equal
  encodings come from equal values.
\<close>

theorem encode_key_order:
  assumes "encode_key a = Ok x" "encode_key b = Ok y" "column_type_of a = column_type_of b"
  shows "(x < y \<longleftrightarrow> datum_less a b) \<and> (x = y \<longleftrightarrow> a = b)"
proof -
  have *: "encode_i32 v = encode_i32 w \<longleftrightarrow> v = w" "encode_i64 v' = encode_i64 w' \<longleftrightarrow> v' = w'" for v w v' w'
    by (metis decode_int_encode)+
  show ?thesis
    using assms by (cases a; cases b; auto simp: encode_key_def encode_int_less * split: if_splits)
qed

text \<open>an encoded key decodes to the value it came from.\<close>

theorem key_roundtrip:
  assumes "encode_key d = Ok bs" "datum_ok d"
  shows "decode_key (column_type_of d) bs = Ok d"
proof -
  have "key_bytes d = Some bs"
    using assms(1) by (simp add: encode_key_def split: option.splits if_splits)
  then show ?thesis
    using assms(2) by (cases d) (auto simp: decode_int_encode)
qed

lemmas eval_encode = encode_key_def encode_i32_def u32_be_def u32_le_def le_bytes_numeral MAX_INDEX_KEY_BYTES_def
  PAGE_SIZE_def

theorem key_roundtrip_witness:
  "encode_key (DInt4 7) = Ok [128, 0, 0, 7] \<and> decode_key ColInt4 [128, 0, 0, 7] = Ok (DInt4 7)"
proof -
  have "encode_key (DInt4 7) = Ok [128, 0, 0, 7]"
    by (simp add: eval_encode)
  then show ?thesis
    using key_roundtrip [of "DInt4 7" "[128, 0, 0, 7]"] by simp
qed

theorem encode_key_order_witness:
  "encode_key (DInt4 (- 1)) = Ok [127, 255, 255, 255] \<and> encode_key (DInt4 7) = Ok [128, 0, 0, 7] \<and>
   datum_less (DInt4 (- 1)) (DInt4 7)"
proof -
  have e: "encode_key (DInt4 (- 1)) = Ok [127, 255, 255, 255]" "encode_key (DInt4 7) = Ok [128, 0, 0, 7]"
    by (simp_all add: eval_encode)
  have "[127, 255, 255, 255] < [128, 0, 0, 7 :: byte]"
    by simp
  then show ?thesis
    using encode_key_order [OF e] e by simp
qed

end
