(* ===== verification/Btree_Page.thy ===== *)
theory Btree_Page
  imports Btree_Key
begin

text \<open>
  The index page (\<^verbatim>\<open>pg-am-btree/src/page.rs\<close>): a slotted page whose line pointers are kept in
  entry order, with level and flags in the high byte of \<open>pd_flags\<close> and the links to the
  siblings in the special space, and the codecs of its entries.  The main result says that
  the byte-level operations implement insertion, removal and truncation of a list.
\<close>

section \<open>Flags, level and links\<close>

definition BTREE_SPECIAL_SIZE :: nat where "BTREE_SPECIAL_SIZE = HEAP_SPECIAL_SIZE"
definition BTREE_FLAG_LEAF :: byte where "BTREE_FLAG_LEAF = 1"
definition BTREE_FLAG_ROOT :: byte where "BTREE_FLAG_ROOT = 2"
definition BTREE_FLAG_DELETED :: byte where "BTREE_FLAG_DELETED = 4"
definition BTREE_FLAG_SPLIT_INCOMPLETE :: byte where "BTREE_FLAG_SPLIT_INCOMPLETE = 8"
definition LEAF_TRAILER_SIZE :: nat where "LEAF_TRAILER_SIZE = 10"
definition INTERNAL_TRAILER_SIZE :: nat where "INTERNAL_TRAILER_SIZE = 8"
definition META_RECORD_SIZE :: nat where "META_RECORD_SIZE = 10"

text \<open>The conversion of heap errors by the \<open>?\<close> operator.\<close>

definition of_heap :: "heap_error + 'a \<Rightarrow> btree_error + 'a" where
  "of_heap r = (case r of Inl e \<Rightarrow> Err (BtHeap e) | Inr a \<Rightarrow> Ok a)"

definition bt_checked_header :: "page \<Rightarrow> btree_error + page_header" where
  "bt_checked_header pg =
    (let h = header_read_from pg;
         lower = unat (pd_lower h); upper = unat (pd_upper h); special = unat (pd_special h)
     in if lower < PAGE_HEADER_SIZE \<or> (lower - PAGE_HEADER_SIZE) mod LINE_POINTER_SIZE \<noteq> 0
            \<or> lower > upper \<or> upper > special \<or> special \<noteq> PAGE_SIZE - BTREE_SPECIAL_SIZE
        then Err BtCorrupted else Ok h)"

definition bt_level :: "page \<Rightarrow> btree_error + byte" where
  "bt_level pg = try_then (bt_checked_header pg) (\<lambda>h. Ok (ucast (drop_bit 8 (pd_flags h) AND 0x0F)))"

definition bt_flags :: "page \<Rightarrow> btree_error + byte" where
  "bt_flags pg = try_then (bt_checked_header pg) (\<lambda>h. Ok (ucast (drop_bit 12 (pd_flags h) AND 0x0F)))"

definition set_level :: "byte \<Rightarrow> page \<Rightarrow> page" where
  "set_level level pg = put_u16 12 ((get_u16 pg 12 AND NOT (push_bit 8 0x0F)) OR push_bit 8 (ucast level)) pg"

definition set_flags :: "byte \<Rightarrow> page \<Rightarrow> page" where
  "set_flags fl pg = put_u16 12 ((get_u16 pg 12 AND NOT (push_bit 12 0x0F)) OR push_bit 12 (ucast fl)) pg"

definition set_flag :: "byte \<Rightarrow> bool \<Rightarrow> page \<Rightarrow> btree_error + page" where
  "set_flag flag on pg =
    try_then (bt_flags pg) (\<lambda>fl. Ok (set_flags (if on then fl OR flag else fl AND NOT flag) pg))"

definition bt_prev :: "page \<Rightarrow> btree_error + page_id" where
  "bt_prev pg =
    try_then (bt_checked_header pg) (\<lambda>h.
      try_then (of_heap (read_slice (unat (pd_special h)) 8 pg)) (\<lambda>b. Ok (le_u64 b)))"

definition bt_next :: "page \<Rightarrow> btree_error + page_id" where
  "bt_next pg =
    try_then (bt_checked_header pg) (\<lambda>h.
      try_then (of_heap (read_slice (unat (pd_special h) + 8) 8 pg)) (\<lambda>b. Ok (le_u64 b)))"

definition set_prev :: "page_id \<Rightarrow> page \<Rightarrow> btree_error + page" where
  "set_prev pid pg = of_heap (write_slice (unat (pd_special (header_read_from pg))) (u64_le pid) pg)"

definition set_next :: "page_id \<Rightarrow> page \<Rightarrow> btree_error + page" where
  "set_next pid pg = of_heap (write_slice (unat (pd_special (header_read_from pg)) + 8) (u64_le pid) pg)"

definition flags_for_level :: "byte \<Rightarrow> byte" where
  "flags_for_level level = (if level = 0 then BTREE_FLAG_LEAF else 0)"

definition bt_init :: "byte \<Rightarrow> byte \<Rightarrow> page \<Rightarrow> page" where
  "bt_init level fl pg = set_flags fl (set_level level (init_with_special BTREE_SPECIAL_SIZE pg))"

definition bt_init_if_fresh :: "byte \<Rightarrow> byte \<Rightarrow> page \<Rightarrow> bool \<times> page" where
  "bt_init_if_fresh level fl pg =
    (if pd_upper (header_read_from pg) = 0 then (True, bt_init level fl pg) else (False, pg))"

section \<open>Entries\<close>

text \<open>\<open>copy_within\<close>.\<close>

definition copy_within :: "nat \<Rightarrow> nat \<Rightarrow> nat \<Rightarrow> page \<Rightarrow> page" where
  "copy_within from to dest pg = put_at dest (bytes_at from (to - from) pg) pg"

definition insert_entry_at :: "u16 \<Rightarrow> byte list \<Rightarrow> page \<Rightarrow> btree_error + page" where
  "insert_entry_at slot entry pg =
    try_then (bt_checked_header pg) (\<lambda>h.
      if entry = [] then Err BtInvalidArgument
      else
        let count = (unat (pd_lower h) - PAGE_HEADER_SIZE) div LINE_POINTER_SIZE in
        if unat slot > count then Err BtCorrupted
        else
          let max_entry = (PAGE_SIZE - BTREE_SPECIAL_SIZE) - (PAGE_HEADER_SIZE + LINE_POINTER_SIZE) in
          if length entry > max_entry then Err (KeyTooLarge (length entry))
          else
            let needed = length entry + LINE_POINTER_SIZE; free = unat (pd_upper h - pd_lower h) in
            if free < needed then Err (BtPageFull needed free)
            else
              let new_upper = unat (pd_upper h) - length entry;
                  pg = put_at new_upper entry pg;
                  lp_start = PAGE_HEADER_SIZE + unat slot * LINE_POINTER_SIZE;
                  lp_end = PAGE_HEADER_SIZE + count * LINE_POINTER_SIZE;
                  pg = copy_within lp_start lp_end (lp_start + LINE_POINTER_SIZE) pg;
                  lp = lp_new (of_nat new_upper) LpNormal (of_nat (length entry));
                  pg = put_u32 lp_start lp pg;
                  pg = put_u16 14 (pd_lower h + of_nat LINE_POINTER_SIZE) pg
              in Ok (put_u16 16 (of_nat new_upper) pg))"

definition remove_entry_at :: "u16 \<Rightarrow> page \<Rightarrow> btree_error + page" where
  "remove_entry_at slot pg =
    try_then (bt_checked_header pg) (\<lambda>h.
      let count = (unat (pd_lower h) - PAGE_HEADER_SIZE) div LINE_POINTER_SIZE in
      if unat slot \<ge> count then Err BtCorrupted
      else
        let from = PAGE_HEADER_SIZE + (unat slot + 1) * LINE_POINTER_SIZE;
            to = PAGE_HEADER_SIZE + count * LINE_POINTER_SIZE;
            pg = copy_within from to (from - LINE_POINTER_SIZE) pg
        in Ok (put_u16 14 (pd_lower h - of_nat LINE_POINTER_SIZE) pg))"

definition truncate_slots :: "u16 \<Rightarrow> page \<Rightarrow> btree_error + page" where
  "truncate_slots keep pg =
    try_then (bt_checked_header pg) (\<lambda>h.
      let count = (unat (pd_lower h) - PAGE_HEADER_SIZE) div LINE_POINTER_SIZE in
      if unat keep > count then Err BtCorrupted
      else Ok (put_u16 14 (of_nat (PAGE_HEADER_SIZE + unat keep * LINE_POINTER_SIZE)) pg))"

section \<open>The page halves of a split\<close>

definition apply_prepare_left :: "page_id \<Rightarrow> page \<Rightarrow> btree_error + page" where
  "apply_prepare_left new_right pg =
    try_then (bt_checked_header pg) (\<lambda>_.
      if pd_upper (header_read_from pg) = 0 then Err BtCorrupted
      else try_then (set_flag BTREE_FLAG_SPLIT_INCOMPLETE True pg) (set_next new_right))"

definition init_right_page :: "page_id \<Rightarrow> page_id \<Rightarrow> byte \<Rightarrow> page \<Rightarrow> btree_error + page" where
  "init_right_page left left_old_next level pg =
    try_then (set_prev left (bt_init level (flags_for_level level) pg)) (set_next left_old_next)"

definition apply_commit_left :: "page \<Rightarrow> btree_error + page" where
  "apply_commit_left pg =
    try_then (bt_checked_header pg) (\<lambda>_.
      if pd_upper (header_read_from pg) = 0 then Err BtCorrupted
      else try_then (bt_flags pg) (\<lambda>fl.
        Ok (set_flags (fl AND NOT (BTREE_FLAG_SPLIT_INCOMPLETE OR BTREE_FLAG_ROOT)) pg)))"

section \<open>Entry codecs\<close>

definition encode_leaf_entry :: "byte list \<Rightarrow> tid \<Rightarrow> byte list" where
  "encode_leaf_entry key t = key @ u64_le (tid_page_id t) @ u16_le (tid_slot_id t)"

definition decode_leaf_entry :: "byte list \<Rightarrow> btree_error + byte list \<times> tid" where
  "decode_leaf_entry bs =
    (if length bs < LEAF_TRAILER_SIZE then Err BtCorrupted
     else
       let key = take (length bs - LEAF_TRAILER_SIZE) bs; tail = drop (length bs - LEAF_TRAILER_SIZE) bs
       in Ok (key, \<lparr> tid_page_id = le_u64 (bytes_at 0 8 tail), tid_slot_id = le_u16 (bytes_at 8 2 tail) \<rparr>))"

definition encode_internal_entry :: "byte list \<Rightarrow> page_id \<Rightarrow> byte list" where
  "encode_internal_entry key child = key @ u64_le child"

definition decode_internal_entry :: "byte list \<Rightarrow> btree_error + byte list \<times> page_id" where
  "decode_internal_entry bs =
    (if length bs < INTERNAL_TRAILER_SIZE then Err BtCorrupted
     else Ok (take (length bs - INTERNAL_TRAILER_SIZE) bs, le_u64 (drop (length bs - INTERNAL_TRAILER_SIZE) bs)))"

definition encode_meta_record :: "page_id \<Rightarrow> u16 \<Rightarrow> byte list" where
  "encode_meta_record root tree_level = u64_le root @ u16_le tree_level"

definition decode_meta_record :: "byte list \<Rightarrow> btree_error + page_id \<times> u16" where
  "decode_meta_record bs =
    (if length bs \<noteq> META_RECORD_SIZE then Err BtCorrupted
     else Ok (le_u64 (bytes_at 0 8 bs), le_u16 (bytes_at 8 2 bs)))"

lemmas trailer_sizes = LEAF_TRAILER_SIZE_def INTERNAL_TRAILER_SIZE_def META_RECORD_SIZE_def

lemma of_heap_simps [simp]: "of_heap (Ok a) = Ok a" "of_heap (Err e) = Err (BtHeap e)"
  by (simp_all add: of_heap_def)

lemma decode_encode_entry [simp]:
  "decode_leaf_entry (encode_leaf_entry k t) = Ok (k, t)"
  "decode_internal_entry (encode_internal_entry k c) = Ok (k, c)"
  "decode_meta_record (encode_meta_record r l) = Ok (r, l)"
  by (simp_all add: decode_leaf_entry_def encode_leaf_entry_def decode_internal_entry_def
      encode_internal_entry_def decode_meta_record_def encode_meta_record_def trailer_sizes bytes_at_def)

lemma encode_decode_entry:
  "decode_leaf_entry bs = Ok (k, t) \<Longrightarrow> encode_leaf_entry k t = bs"
  "decode_internal_entry bs = Ok (k, c) \<Longrightarrow> encode_internal_entry k c = bs"
proof -
  have "take 8 (drop n bs) @ drop (8 + n) bs = drop n bs" for n
    by (metis append_take_drop_id drop_drop)
  from this [of "length bs - 10"] show "decode_leaf_entry bs = Ok (k, t) \<Longrightarrow> encode_leaf_entry k t = bs"
    by (auto simp: decode_leaf_entry_def encode_leaf_entry_def Let_def trailer_sizes bytes_at_def le_simps
        split: if_splits)
  show "decode_internal_entry bs = Ok (k, c) \<Longrightarrow> encode_internal_entry k c = bs"
    by (auto simp: decode_internal_entry_def encode_internal_entry_def trailer_sizes le_simps split: if_splits)
qed

section \<open>The page as a list of entries\<close>

definition lp_bytes :: "page \<Rightarrow> lp_word \<Rightarrow> byte list" where
  "lp_bytes pg lp = bytes_at (unat (lp_off lp)) (unat (lp_len lp)) pg"

definition entries :: "page \<Rightarrow> byte list list" where
  "entries pg = map (\<lambda>i. lp_bytes pg (slot_lp pg i)) [0..<slot_count pg]"

definition btree_page :: "page \<Rightarrow> bool" where
  "btree_page pg \<longleftrightarrow> page_ok pg \<and> hspecial pg = 8176 \<and> (\<forall>i < slot_count pg. lp_flags (slot_lp pg i) = LpNormal)"

text \<open>What the entry operations leave alone: position, level and flags, and the links.\<close>

definition same_frame :: "page \<Rightarrow> page \<Rightarrow> bool" where
  "same_frame pg pg' \<longleftrightarrow> page_pd_lsn pg' = page_pd_lsn pg \<and> get_u16 pg' 12 = get_u16 pg 12 \<and>
    bytes_at 8176 16 pg' = bytes_at 8176 16 pg"

lemma length_entries [simp]: "length (entries pg) = slot_count pg"
  by (simp add: entries_def)

lemma nth_entries: "i < slot_count pg \<Longrightarrow> entries pg ! i = lp_bytes pg (slot_lp pg i)"
  by (simp add: entries_def)

lemma bt_checked_header_eq:
  "bt_checked_header pg =
    (if geometry pg \<and> hspecial pg = 8176 then Ok (header_read_from pg) else Err BtCorrupted)"
  unfolding bt_checked_header_def geometry_def Let_def page_sizes BTREE_SPECIAL_SIZE_def
  by (auto simp: not_less not_le)

lemma btree_pageD:
  assumes "btree_page pg"
  shows "page_ok pg" "length pg = 8192" "geometry pg" "hspecial pg = 8176" "hlower pg = 32 + 4 * slot_count pg"
    "32 + 4 * slot_count pg \<le> hupper pg" "hupper pg \<le> 8176"
    "i < slot_count pg \<Longrightarrow> lp_flags (slot_lp pg i) = LpNormal"
    "i < slot_count pg \<Longrightarrow> live pg i"
proof -
  show ok: "page_ok pg" and "hspecial pg = 8176" and fl: "i < slot_count pg \<Longrightarrow> lp_flags (slot_lp pg i) = LpNormal"
    using assms by (auto simp: btree_page_def)
  then show "length pg = 8192" "geometry pg" "hlower pg = 32 + 4 * slot_count pg"
    "32 + 4 * slot_count pg \<le> hupper pg" "hupper pg \<le> 8176"
    using page_okD(1,2) [OF ok] geometry_lower geometry_bounds [of pg] by (auto simp: PAGE_SIZE_def)
  show "i < slot_count pg \<Longrightarrow> live pg i"
    using fl by (auto simp: live_def)
qed

text \<open>
  A page built from another one: given the line pointers as a permuted selection of old ones
  with unchanged bytes, and possibly one new one, the page is well formed.  The selection is
  given by its list of line pointers.
\<close>

definition lps :: "page \<Rightarrow> lp_word list" where
  "lps pg = map (slot_lp pg) [0..<slot_count pg]"

lemma length_lps [simp]: "length (lps pg) = slot_count pg"
  by (simp add: lps_def)

lemma nth_lps [simp]: "i < slot_count pg \<Longrightarrow> lps pg ! i = slot_lp pg i"
  by (simp add: lps_def)

lemma entries_lps: "entries pg = map (lp_bytes pg) (lps pg)"
  by (simp add: entries_def lps_def)

text \<open>A line pointer that \<open>btree_page\<close> accepts above a given upper bound.\<close>

definition lp_fits :: "nat \<Rightarrow> lp_word \<Rightarrow> bool" where
  "lp_fits upper lp \<longleftrightarrow> lp_flags lp = LpNormal \<and> upper \<le> unat (lp_off lp) \<and> unat (lp_off lp) + unat (lp_len lp) \<le> 8176"

definition lps_apart :: "lp_word list \<Rightarrow> bool" where
  "lps_apart ls \<longleftrightarrow> sorted_wrt (\<lambda>a b. apart (lp_region a) (lp_region b)) ls"

lemma apart_sym: "apart a b \<longleftrightarrow> apart b a"
  by (auto simp: apart_def)

lemma btree_page_lps:
  "btree_page pg \<longleftrightarrow> length pg = 8192 \<and> geometry pg \<and> hspecial pg = 8176 \<and>
    list_all (lp_fits (hupper pg)) (lps pg) \<and> lps_apart (lps pg)"
  (is "?l \<longleftrightarrow> ?r")
proof
  assume ?l
  note d = btree_pageD [OF this] page_okD [OF btree_pageD(1) [OF this]]
  show ?r
    using d by (auto simp: list_all_length lp_fits_def lps_apart_def sorted_wrt_iff_nth_less)
next
  assume r: ?r
  then have f: "lp_fits (hupper pg) (slot_lp pg i)" if "i < slot_count pg" for i
    using that by (auto simp: list_all_length)
  have a: "apart (lp_region (slot_lp pg i)) (lp_region (slot_lp pg j))" if "i < j" "j < slot_count pg" for i j
    using r that by (auto simp: lps_apart_def sorted_wrt_iff_nth_less)
  have "page_ok pg"
    by (rule page_okI) (use r f a in \<open>auto simp: PAGE_SIZE_def live_def lp_fits_def\<close>)
  then show ?l
    using r f by (auto simp: btree_page_def lp_fits_def)
qed

section \<open>Insertion\<close>

definition inserted :: "nat \<Rightarrow> byte list \<Rightarrow> page \<Rightarrow> page" where
  "inserted s e pg =
    (let count = slot_count pg; upper = hupper pg - length e; pg1 = put_at upper e pg in
     put_u16 16 (of_nat upper) (put_u16 14 (of_nat (32 + 4 * (count + 1)))
       (put_u32 (32 + s * 4) (lp_new (of_nat upper) LpNormal (of_nat (length e)))
         (put_at (36 + s * 4) (bytes_at (32 + s * 4) ((count - s) * 4) pg1) pg1))))"

lemma insert_entry_at_eq:
  assumes "btree_page pg"
  shows "insert_entry_at slot e pg =
    (if e = [] then Err BtInvalidArgument
     else if unat slot > slot_count pg then Err BtCorrupted
     else if length e > 8140 then Err (KeyTooLarge (length e))
     else if hupper pg < hlower pg + length e + 4 then Err (BtPageFull (length e + 4) (hupper pg - hlower pg))
     else Ok (inserted (unat slot) e pg))"
proof -
  note d = btree_pageD [OF assms]
  let ?h = "header_read_from pg"
  have sc: "(hlower pg - 32) div 4 = slot_count pg"
    by (simp add: slot_count_def page_sizes)
  have free: "unat (pd_upper ?h - pd_lower ?h) = hupper pg - hlower pg"
    using d by (simp add: unat_sub word_le_nat_alt)
  have lw: "pd_lower ?h + 4 = of_nat (32 + 4 * (slot_count pg + 1))"
  proof -
    have "pd_lower ?h = of_nat (32 + 4 * slot_count pg)"
      by (simp flip: d(5))
    then show ?thesis
      by (simp add: algebra_simps)
  qed
  have "bt_checked_header pg = Ok ?h"
    using d by (simp add: bt_checked_header_eq)
  moreover have "32 + slot_count pg * 4 - (32 + unat slot * 4) = (slot_count pg - unat slot) * 4"
    by simp
  ultimately show ?thesis
    using d free lw sc
    by (auto simp: insert_entry_at_def Let_def page_sizes BTREE_SPECIAL_SIZE_def inserted_def copy_within_def)
qed

lemma inserted_facts:
  assumes ok: "btree_page pg" and s: "s \<le> slot_count pg" and e: "e \<noteq> []"
    and fit: "hlower pg + length e + 4 \<le> hupper pg"
  shows "btree_page (inserted s e pg)" "slot_count (inserted s e pg) = slot_count pg + 1"
    "hupper (inserted s e pg) = hupper pg - length e" "same_frame pg (inserted s e pg)"
    "entries (inserted s e pg) = take s (entries pg) @ e # drop s (entries pg)"
proof -
  note d = btree_pageD [OF ok]
  let ?c = "slot_count pg" and ?u = "hupper pg - length e"
  let ?lp = "lp_new (of_nat ?u) LpNormal (of_nat (length e))"
  define pg1 where "pg1 = put_at ?u e pg"
  define Y where "Y = bytes_at (32 + s * 4) ((?c - s) * 4) pg1"
  define pg2 where "pg2 = put_at (36 + s * 4) Y pg1"
  define pg3 where "pg3 = put_u32 (32 + s * 4) ?lp pg2"
  define pg4 where "pg4 = put_u16 14 (of_nat (32 + 4 * (?c + 1))) pg3"
  have pg: "inserted s e pg = put_u16 16 (of_nat ?u) pg4"
    by (simp add: inserted_def Let_def pg1_def pg2_def pg3_def pg4_def Y_def)
  have b: "36 + 4 * ?c \<le> ?u" "?u + length e = hupper pg" "hupper pg \<le> 8176" "length e \<le> 8140"
    using d fit by auto
  have l1: "length pg1 = 8192"
    using b d by (simp add: pg1_def)
  have ly: "length Y = (?c - s) * 4"
    unfolding Y_def by (rule length_bytes_at) (use b s l1 in auto)
  have l2: "length pg2 = 8192"
    using b l1 ly s by (simp add: pg2_def)
  have l3: "length pg3 = 8192"
    using b l2 s by (simp add: pg3_def)
  have l4: "length pg4 = 8192"
    using l3 by (simp add: pg4_def)
  note h4 = header_put_16 [of pg4 "of_nat ?u", folded pg] header_put_16 [of pg3 "of_nat (32 + 4 * (?c + 1))", folded pg4_def]
  have h3: "header_read_from pg3 = header_read_from pg"
  proof -
    have "header_read_from pg3 = header_read_from pg2"
      unfolding pg3_def by (rule header_put_u32) (use b s l2 in auto)
    moreover have "header_read_from pg2 = header_read_from pg1"
      unfolding pg2_def by (rule header_put_at) (use b s l1 ly in auto)
    moreover have "header_read_from pg1 = header_read_from pg"
      unfolding pg1_def by (rule header_put_at) (use b d in auto)
    ultimately show ?thesis
      by simp
  qed
  have u16: "unat (of_nat ?u :: u16) = ?u" "unat (of_nat (32 + 4 * (?c + 1)) :: u16) = 32 + 4 * (?c + 1)"
    "unat (of_nat (length e) :: u16) = length e"
    by (rule unat_of_nat_uN, use b in simp)+
  have low: "hlower (inserted s e pg) = 32 + 4 * (?c + 1)" and up: "hupper (inserted s e pg) = ?u"
    and sp: "hspecial (inserted s e pg) = 8176" and len: "length (inserted s e pg) = 8192"
    using h4 l3 l4 h3 d(4) u16 by (simp_all add: pg)
  show sc: "slot_count (inserted s e pg) = ?c + 1" and "hupper (inserted s e pg) = hupper pg - length e"
    using low up by (simp_all add: slot_count_def [of "inserted s e pg"] page_sizes)
  have lower: "bytes_at off n (inserted s e pg) = bytes_at off n pg3" if "18 \<le> off" for off n
    using that l3 l4 by (simp add: pg pg4_def bytes_at_put_uN)
  have upper: "bytes_at off n (inserted s e pg) = bytes_at off n pg1" if "36 + 4 * ?c \<le> off" for off n
  proof -
    have "bytes_at off n pg3 = bytes_at off n pg2"
      unfolding pg3_def by (rule bytes_at_put_uN) (use that b s l2 in auto)
    moreover have "bytes_at off n pg2 = bytes_at off n pg1"
      unfolding pg2_def by (rule bytes_at_put_at_after) (use that b s l1 ly in auto)
    ultimately show ?thesis
      using lower that by simp
  qed
  have old: "bytes_at off n (inserted s e pg) = bytes_at off n pg" if "hupper pg \<le> off" for off n
    using upper [of off n] that b d by (simp add: pg1_def bytes_at_put_at_after)
  have new: "bytes_at ?u (length e) (inserted s e pg) = e"
    using upper [of ?u "length e"] b d by (simp add: pg1_def bytes_at_put_at_same)
  have lp1: "slot_lp pg1 i = slot_lp pg i" if "i < ?c" for i
    using that b d by (simp add: slot_lp_def page_sizes pg1_def get_u32_put)
  have lp: "slot_lp (inserted s e pg) i = (if i < s then slot_lp pg i else if i = s then ?lp else slot_lp pg (i - 1))"
    if i: "i < ?c + 1" for i
  proof -
    have g: "slot_lp (inserted s e pg) i = le_u32 (bytes_at (32 + i * 4) 4 pg3)"
      using lower [of "32 + i * 4" 4] by (simp add: slot_lp_def get_u32_def page_sizes)
    consider "i < s" | "i = s" | "s < i"
      by linarith
    then show ?thesis
    proof cases
      case 1
      then have "bytes_at (32 + i * 4) 4 pg3 = bytes_at (32 + i * 4) 4 pg1"
        using b s l1 l2 ly by (simp add: pg3_def pg2_def bytes_at_put_uN bytes_at_put_at_before)
      then show ?thesis
        using g 1 lp1 [of i] s by (simp add: slot_lp_def get_u32_def page_sizes)
    next
      case 2
      then have "get_u32 pg3 (32 + i * 4) = ?lp"
        using b s l2 by (simp add: pg3_def get_put_uN_same)
      then show ?thesis
        using g 2 by (simp add: get_u32_def)
    next
      case 3
      have "bytes_at (32 + i * 4) 4 pg3 = bytes_at (32 + i * 4) 4 pg2"
        unfolding pg3_def by (rule bytes_at_put_uN) (use 3 b s l2 i in auto)
      also have "\<dots> = bytes_at (32 + i * 4 - (36 + s * 4)) 4 Y"
        unfolding pg2_def by (rule bytes_at_put_at_inside) (use 3 b s l1 ly i in auto)
      also have "\<dots> = bytes_at (32 + i * 4 - (36 + s * 4) + (32 + s * 4)) 4 pg1"
        unfolding Y_def by (rule bytes_at_bytes_at) (use 3 i in auto)
      also have "32 + i * 4 - (36 + s * 4) + (32 + s * 4) = 32 + (i - 1) * 4"
        using 3 by auto
      finally have "slot_lp (inserted s e pg) i = slot_lp pg1 (i - 1)"
        using g by (simp add: slot_lp_def get_u32_def page_sizes)
      then show ?thesis
        using 3 lp1 [of "i - 1"] i by auto
    qed
  qed
  have L: "lps (inserted s e pg) = take s (lps pg) @ ?lp # drop s (lps pg)"
    by (rule nth_equalityI) (use s sc lp in \<open>auto simp: nth_append nth_Cons' min_def\<close>)
  have new_lp: "unat (lp_off ?lp) = ?u" "unat (lp_len ?lp) = length e" "lp_flags ?lp = LpNormal"
    using b u16 by simp_all
  have fits: "list_all (lp_fits (hupper pg)) (lps pg)" "lps_apart (lps pg)"
    using ok by (simp_all add: btree_page_lps)
  have ap: "apart (lp_region ?lp) (lp_region l)" if "l \<in> set (lps pg)" for l
    using that fits(1) b new_lp by (auto simp: list_all_iff lp_fits_def apart_def lp_region_def)
  have ap': "apart (lp_region l) (lp_region ?lp)" if "l \<in> set (lps pg)" for l
    using ap [OF that] apart_sym by blast
  have "lps_apart (take s (lps pg) @ drop s (lps pg))"
    using fits by simp
  then have "lps_apart (take s (lps pg) @ ?lp # drop s (lps pg))"
    unfolding lps_apart_def sorted_wrt_append by (auto intro: ap ap' dest: in_set_takeD in_set_dropD)
  moreover have "list_all (lp_fits ?u) (take s (lps pg) @ ?lp # drop s (lps pg))"
    using fits(1) b new_lp by (auto simp: list_all_iff lp_fits_def dest!: in_set_takeD in_set_dropD)
  moreover have "geometry (inserted s e pg)"
    using low up sp b by (simp add: geometry_def)
  ultimately show "btree_page (inserted s e pg)"
    using len sp up L by (simp add: btree_page_lps)
  have "lp_bytes (inserted s e pg) l = lp_bytes pg l" if "l \<in> set (lps pg)" for l
    using that fits(1) old by (auto simp: list_all_iff lp_fits_def lp_bytes_def)
  moreover have "lp_bytes (inserted s e pg) ?lp = e"
    using new new_lp by (simp add: lp_bytes_def)
  ultimately show "entries (inserted s e pg) = take s (entries pg) @ e # drop s (entries pg)"
    unfolding entries_lps L by (simp add: take_map drop_map) (auto dest: in_set_takeD in_set_dropD)
  show "same_frame pg (inserted s e pg)"
  proof -
    have "bytes_at off n (inserted s e pg) = bytes_at off n pg" if "off + n \<le> 14" for off n
    proof -
      have "bytes_at off n (inserted s e pg) = bytes_at off n pg3"
        using that l3 l4 by (simp add: pg pg4_def bytes_at_put_uN)
      also have "\<dots> = bytes_at off n pg1"
        using that b s l1 l2 ly by (simp add: pg3_def pg2_def bytes_at_put_uN bytes_at_put_at_before)
      also have "\<dots> = bytes_at off n pg"
        using that b d by (simp add: pg1_def bytes_at_put_at_before)
      finally show ?thesis .
    qed
    then show ?thesis
      using old [of 8176 16] b by (simp add: same_frame_def page_pd_lsn_def get_u64_def get_u16_def)
  qed
qed

section \<open>Removal and truncation\<close>

text \<open>Any page that keeps the bytes of the tuple space and selects some of its line pointers.\<close>

lemma select_lps:
  assumes ok: "btree_page pg" and len: "length pg' = 8192"
    and low: "hlower pg' = 32 + 4 * length L" and up: "hupper pg' = hupper pg" and sp: "hspecial pg' = hspecial pg"
    and L: "lps pg' = L" "set L \<subseteq> set (lps pg)" "lps_apart L" "length L \<le> slot_count pg"
    and bytes: "\<And>off n. hupper pg \<le> off \<Longrightarrow> bytes_at off n pg' = bytes_at off n pg"
  shows "btree_page pg'" "entries pg' = map (lp_bytes pg) L"
proof -
  note d = btree_pageD [OF ok]
  have f: "list_all (lp_fits (hupper pg)) (lps pg)"
    using ok by (simp add: btree_page_lps)
  then show "btree_page pg'"
    using assms d by (auto simp: btree_page_lps geometry_def list_all_iff)
  show "entries pg' = map (lp_bytes pg) L"
    unfolding entries_lps L(1)
    by (rule map_cong) (use f bytes L(2) in \<open>auto simp: list_all_iff lp_fits_def lp_bytes_def subset_iff\<close>)
qed

definition removed :: "nat \<Rightarrow> page \<Rightarrow> page" where
  "removed s pg =
    put_u16 14 (of_nat (32 + 4 * (slot_count pg - 1)))
      (put_at (32 + s * 4) (bytes_at (36 + s * 4) ((slot_count pg - s - 1) * 4) pg) pg)"

definition truncated :: "nat \<Rightarrow> page \<Rightarrow> page" where
  "truncated k pg = put_u16 14 (of_nat (32 + k * 4)) pg"

lemma remove_entry_at_eq:
  assumes "btree_page pg"
  shows "remove_entry_at slot pg =
    (if unat slot \<ge> slot_count pg then Err BtCorrupted else Ok (removed (unat slot) pg))"
proof -
  note d = btree_pageD [OF assms]
  let ?h = "header_read_from pg"
  have sc: "(hlower pg - 32) div 4 = slot_count pg"
    by (simp add: slot_count_def page_sizes)
  have "pd_lower ?h = of_nat (32 + 4 * slot_count pg)"
    by (simp flip: d(5))
  then have "pd_lower ?h - 4 = of_nat (32 + 4 * (slot_count pg - 1))" if "0 < slot_count pg"
    using that by (simp add: of_nat_diff algebra_simps)
  moreover have "bt_checked_header pg = Ok ?h"
    using d by (simp add: bt_checked_header_eq)
  moreover have "slot_count pg * 4 - (4 + unat slot * 4) = (slot_count pg - Suc (unat slot)) * 4"
    by auto
  ultimately show ?thesis
    using sc by (auto simp: remove_entry_at_def Let_def page_sizes removed_def copy_within_def)
qed

lemma truncate_slots_eq:
  assumes "btree_page pg"
  shows "truncate_slots keep pg =
    (if unat keep > slot_count pg then Err BtCorrupted else Ok (truncated (unat keep) pg))"
proof -
  note d = btree_pageD [OF assms]
  have "(hlower pg - 32) div 4 = slot_count pg"
    by (simp add: slot_count_def page_sizes)
  moreover have "bt_checked_header pg = Ok (header_read_from pg)"
    using d by (simp add: bt_checked_header_eq)
  ultimately show ?thesis
    by (simp add: truncate_slots_def Let_def page_sizes truncated_def)
qed

lemma removed_facts:
  assumes ok: "btree_page pg" and s: "s < slot_count pg"
  shows "btree_page (removed s pg)" "slot_count (removed s pg) = slot_count pg - 1"
    "hupper (removed s pg) = hupper pg" "same_frame pg (removed s pg)"
    "entries (removed s pg) = take s (entries pg) @ drop (s + 1) (entries pg)"
proof -
  note d = btree_pageD [OF ok]
  let ?c = "slot_count pg"
  define Y where "Y = bytes_at (36 + s * 4) ((?c - s - 1) * 4) pg"
  define pg1 where "pg1 = put_at (32 + s * 4) Y pg"
  have pg: "removed s pg = put_u16 14 (of_nat (32 + 4 * (?c - 1))) pg1"
    by (simp add: removed_def pg1_def Y_def)
  have ly: "length Y = (?c - s - 1) * 4"
    unfolding Y_def by (rule length_bytes_at) (use d s in auto)
  have l1: "length pg1 = 8192"
    using d s ly by (simp add: pg1_def)
  have h1: "header_read_from pg1 = header_read_from pg"
    unfolding pg1_def by (rule header_put_at) (use d s ly in auto)
  have u16: "unat (of_nat (32 + 4 * (?c - 1)) :: u16) = 32 + 4 * (?c - 1)"
    by (rule unat_of_nat_uN) (use d in simp)
  have low: "hlower (removed s pg) = 32 + 4 * (?c - 1)" and up: "hupper (removed s pg) = hupper pg"
    and sp: "hspecial (removed s pg) = hspecial pg" and len: "length (removed s pg) = 8192"
    using header_put_16 [of pg1] l1 h1 u16 by (simp_all add: pg)
  show sc: "slot_count (removed s pg) = ?c - 1"
    using low by (simp add: slot_count_def [of "removed s pg"] page_sizes)
  show "hupper (removed s pg) = hupper pg"
    by (rule up)
  have above: "bytes_at off n (removed s pg) = bytes_at off n pg" if "32 + 4 * ?c \<le> off" for off n
  proof -
    have "bytes_at off n (removed s pg) = bytes_at off n pg1"
      using that l1 by (simp add: pg bytes_at_put_uN)
    also have "\<dots> = bytes_at off n pg"
      unfolding pg1_def by (rule bytes_at_put_at_after) (use that d s ly in auto)
    finally show ?thesis .
  qed
  have lp: "slot_lp (removed s pg) i = (if i < s then slot_lp pg i else slot_lp pg (i + 1))" if i: "i < ?c - 1" for i
  proof -
    have g: "slot_lp (removed s pg) i = le_u32 (bytes_at (32 + i * 4) 4 pg1)"
      using l1 by (simp add: slot_lp_def get_u32_def page_sizes pg bytes_at_put_uN)
    show ?thesis
    proof (cases "i < s")
      case True
      then have "bytes_at (32 + i * 4) 4 pg1 = bytes_at (32 + i * 4) 4 pg"
        using d s by (simp add: pg1_def bytes_at_put_at_before)
      then show ?thesis
        using g True by (simp add: slot_lp_def get_u32_def page_sizes)
    next
      case False
      have "bytes_at (32 + i * 4) 4 pg1 = bytes_at (32 + i * 4 - (32 + s * 4)) 4 Y"
        unfolding pg1_def by (rule bytes_at_put_at_inside) (use False d ly i s in auto)
      also have "\<dots> = bytes_at (32 + i * 4 - (32 + s * 4) + (36 + s * 4)) 4 pg"
        unfolding Y_def by (rule bytes_at_bytes_at) (use False i in auto)
      also have "32 + i * 4 - (32 + s * 4) + (36 + s * 4) = 32 + (i + 1) * 4"
        using False by auto
      finally show ?thesis
        using g False by (simp add: slot_lp_def get_u32_def page_sizes)
    qed
  qed
  have L: "lps (removed s pg) = take s (lps pg) @ drop (s + 1) (lps pg)"
    by (rule nth_equalityI) (use s sc lp in \<open>auto simp: nth_append min_def\<close>)
  have "lps_apart (take s (lps pg) @ drop s (lps pg))"
    using ok by (simp add: btree_page_lps)
  moreover have "drop s (lps pg) = lps pg ! s # drop (s + 1) (lps pg)"
    using s Cons_nth_drop_Suc [of s "lps pg"] by simp
  ultimately have a: "lps_apart (take s (lps pg) @ drop (s + 1) (lps pg))"
    unfolding lps_apart_def sorted_wrt_append by (auto dest: in_set_dropD)
  have "length (take s (lps pg) @ drop (s + 1) (lps pg)) = ?c - 1"
    using s by simp
  note sel = select_lps [OF ok len _ up sp L _ a]
  show "btree_page (removed s pg)"
    by (rule sel(1)) (use low s d above in \<open>auto dest: in_set_takeD in_set_dropD\<close>)
  show "entries (removed s pg) = take s (entries pg) @ drop (s + 1) (entries pg)"
    unfolding entries_lps [of pg] take_map drop_map map_append [symmetric]
    by (rule sel(2)) (use low s d above in \<open>auto dest: in_set_takeD in_set_dropD\<close>)
  have "bytes_at off n (removed s pg) = bytes_at off n pg" if "off + n \<le> 14" for off n
    using that d l1 s by (simp add: pg pg1_def bytes_at_put_uN bytes_at_put_at_before)
  then show "same_frame pg (removed s pg)"
    using above [of 8176 16] d by (simp add: same_frame_def page_pd_lsn_def get_u64_def get_u16_def)
qed

lemma truncated_facts:
  assumes ok: "btree_page pg" and k: "k \<le> slot_count pg"
  shows "btree_page (truncated k pg)" "slot_count (truncated k pg) = k"
    "hupper (truncated k pg) = hupper pg" "same_frame pg (truncated k pg)"
    "entries (truncated k pg) = take k (entries pg)"
proof -
  note d = btree_pageD [OF ok]
  have u16: "unat (of_nat (32 + k * 4) :: u16) = 32 + k * 4"
    by (rule unat_of_nat_uN) (use d k in simp)
  have low: "hlower (truncated k pg) = 32 + 4 * k" and up: "hupper (truncated k pg) = hupper pg"
    and sp: "hspecial (truncated k pg) = hspecial pg" and len: "length (truncated k pg) = 8192"
    using header_put_16 [of pg] u16 d by (simp_all add: truncated_def)
  show sc: "slot_count (truncated k pg) = k"
    using low by (simp add: slot_count_def page_sizes)
  show "hupper (truncated k pg) = hupper pg"
    by (rule up)
  have same: "bytes_at off n (truncated k pg) = bytes_at off n pg" if "16 \<le> off \<or> off + n \<le> 14" for off n
    unfolding truncated_def by (rule bytes_at_put_uN) (use that d in auto)
  have L: "lps (truncated k pg) = take k (lps pg)"
  proof (rule nth_equalityI)
    show "length (lps (truncated k pg)) = length (take k (lps pg))"
      using k sc by simp
    show "lps (truncated k pg) ! i = take k (lps pg) ! i" if "i < length (lps (truncated k pg))" for i
      using that k sc same [of "32 + i * 4" 4] by (simp add: slot_lp_def get_u32_def page_sizes)
  qed
  have "lps_apart (take k (lps pg) @ drop k (lps pg))"
    using ok by (simp add: btree_page_lps)
  then have a: "lps_apart (take k (lps pg))"
    unfolding lps_apart_def sorted_wrt_append by simp
  note sel = select_lps [OF ok len _ up sp L _ a]
  show "btree_page (truncated k pg)"
    by (rule sel(1)) (use low k d same in \<open>auto dest: in_set_takeD\<close>)
  show "entries (truncated k pg) = take k (entries pg)"
    unfolding entries_lps [of pg] take_map
    by (rule sel(2)) (use low k d same in \<open>auto dest: in_set_takeD\<close>)
  show "same_frame pg (truncated k pg)"
    using same [of 8176 16] same [of 0 8] same [of 12 2]
    by (simp add: same_frame_def page_pd_lsn_def get_u64_def get_u16_def)
qed

section \<open>Pages as nodes\<close>

text \<open>What the index reads of a page.\<close>

record node =
  nd_level :: byte
  nd_flags :: byte
  nd_prev :: page_id
  nd_next :: page_id
  nd_entries :: "byte list list"

definition node_of :: "page \<Rightarrow> node" where
  "node_of pg = \<lparr> nd_level = ucast (drop_bit 8 (get_u16 pg 12) AND 0x0F), nd_flags = ucast (drop_bit 12 (get_u16 pg 12) AND 0x0F),
    nd_prev = get_u64 pg 8176, nd_next = get_u64 pg 8184, nd_entries = entries pg \<rparr>"

lemma nd_entries_node_of [simp]: "nd_entries (node_of pg) = entries pg"
  by (simp add: node_of_def)

lemma node_reads:
  assumes "btree_page pg"
  shows "bt_level pg = Ok (nd_level (node_of pg))" "bt_flags pg = Ok (nd_flags (node_of pg))"
    "bt_prev pg = Ok (nd_prev (node_of pg))" "bt_next pg = Ok (nd_next (node_of pg))"
  using btree_pageD [OF assms]
  by (simp_all add: bt_level_def bt_flags_def bt_prev_def bt_next_def bt_checked_header_eq node_of_def
      header_read_from_def read_slice_def get_u64_def)

lemma same_frame_node:
  "same_frame pg pg' \<Longrightarrow> node_of pg' = node_of pg\<lparr> nd_entries := entries pg' \<rparr>"
proof -
  assume "same_frame pg pg'"
  then have "get_u16 pg' 12 = get_u16 pg 12" "bytes_at 0 8 (bytes_at 8176 16 pg') = bytes_at 0 8 (bytes_at 8176 16 pg)"
    "bytes_at 8 8 (bytes_at 8176 16 pg') = bytes_at 8 8 (bytes_at 8176 16 pg)"
    by (simp_all add: same_frame_def)
  then show ?thesis
    by (simp add: node_of_def bytes_at_bytes_at get_u64_def)
qed

text \<open>Two pages with the same bounds, line pointers and tuple space.\<close>

definition same_body :: "page \<Rightarrow> page \<Rightarrow> bool" where
  "same_body pg pg' \<longleftrightarrow> length pg' = length pg \<and> bytes_at 14 8162 pg' = bytes_at 14 8162 pg"

lemma same_body_bytes: "same_body pg pg' \<Longrightarrow> 14 \<le> off \<Longrightarrow> off + n \<le> 8176 \<Longrightarrow> bytes_at off n pg' = bytes_at off n pg"
proof -
  assume b: "same_body pg pg'" and off: "14 \<le> off" "off + n \<le> 8176"
  have "bytes_at (off - 14) n (bytes_at 14 8162 pg') = bytes_at (off - 14) n (bytes_at 14 8162 pg)"
    using b by (simp add: same_body_def)
  then show ?thesis
    using off by (simp add: bytes_at_bytes_at)
qed

lemma same_body_header:
  assumes "same_body pg pg'"
  shows "hlower pg' = hlower pg" "hupper pg' = hupper pg" "hspecial pg' = hspecial pg" "slot_count pg' = slot_count pg"
proof -
  show "hlower pg' = hlower pg" "hupper pg' = hupper pg" "hspecial pg' = hspecial pg"
    using same_body_bytes [OF assms, of _ 2] by (simp_all add: header_read_from_def get_u16_def)
  then show "slot_count pg' = slot_count pg"
    by (simp add: slot_count_def)
qed

lemma same_body_page:
  assumes ok: "btree_page pg" and b: "same_body pg pg'"
  shows "btree_page pg'" "entries pg' = entries pg"
proof -
  note d = btree_pageD [OF ok] and h = same_body_header [OF b]
  have "slot_lp pg' i = slot_lp pg i" if "i < slot_count pg" for i
    using same_body_bytes [OF b, of "32 + i * 4" 4] d that by (simp add: slot_lp_def get_u32_def page_sizes)
  then have L: "lps pg' = lps pg"
    by (simp add: lps_def h)
  moreover have "geometry pg'"
    using d(3) h by (simp add: geometry_def)
  ultimately show "btree_page pg'"
    using ok h b by (simp add: btree_page_lps same_body_def)
  have "list_all (lp_fits (hupper pg)) (lps pg)"
    using ok by (simp add: btree_page_lps)
  then show "entries pg' = entries pg"
    unfolding entries_lps L lp_bytes_def using same_body_bytes [OF b] d
    by (auto simp: list_all_iff lp_fits_def)
qed

lemma mask_4: "(15 :: 'a :: len word) = mask 4"
  by (simp add: mask_eq_exp_minus_1)

lemma nibble_flags:
  "ucast (drop_bit 12 ((r AND NOT (push_bit 12 15)) OR push_bit 12 (ucast fl)) AND 15 :: u16) = (fl AND 15 :: byte)"
  "drop_bit 8 ((r AND NOT (push_bit 12 15)) OR push_bit 12 (ucast fl)) AND 15 = (drop_bit 8 r AND 15 :: u16)"
  for r :: u16
  by (rule bit_eqI; auto simp: mask_4 bit_simps)+

lemma nibble_level:
  assumes "lv < 16"
  shows "ucast (drop_bit 8 ((r AND NOT (push_bit 8 15)) OR push_bit 8 (ucast lv)) AND 15 :: u16) = (lv :: byte)"
    "drop_bit 12 ((r AND NOT (push_bit 8 15)) OR push_bit 8 (ucast lv)) AND 15 = (drop_bit 12 r AND 15 :: u16)"
proof -
  have b: "n < 4" if "bit lv n" for n
  proof (rule ccontr)
    assume "\<not> n < 4"
    then have "(2 :: nat) ^ 4 \<le> 2 ^ n"
      by (intro power_increasing) auto
    then have "unat lv div 2 ^ n = 0"
      using assms by (simp add: word_less_nat_alt)
    moreover have "odd (unat lv div 2 ^ n)"
      using that by (simp add: bit_unsigned_iff flip: bit_iff_odd)
    ultimately show False
      by simp
  qed
  show "ucast (drop_bit 8 ((r AND NOT (push_bit 8 15)) OR push_bit 8 (ucast lv)) AND 15 :: u16) = lv"
    "drop_bit 12 ((r AND NOT (push_bit 8 15)) OR push_bit 8 (ucast lv)) AND 15 = (drop_bit 12 r AND 15 :: u16)"
    by (rule bit_eqI; auto simp: mask_4 bit_simps dest: b)+
qed

lemma set_flags_facts:
  assumes "btree_page pg"
  shows "btree_page (set_flags fl pg)" "node_of (set_flags fl pg) = node_of pg\<lparr> nd_flags := fl AND 0x0F \<rparr>"
    "hupper (set_flags fl pg) = hupper pg" "page_pd_lsn (set_flags fl pg) = page_pd_lsn pg"
proof -
  note d = btree_pageD [OF assms]
  have b: "same_body pg (set_flags fl pg)"
    using d by (simp add: same_body_def set_flags_def bytes_at_put_uN)
  show "btree_page (set_flags fl pg)" "hupper (set_flags fl pg) = hupper pg"
    using same_body_page [OF assms b] same_body_header [OF b] by simp_all
  show "node_of (set_flags fl pg) = node_of pg\<lparr> nd_flags := fl AND 0x0F \<rparr>"
    using same_body_page(2) [OF assms b] d nibble_flags [of "get_u16 pg 12" fl]
    by (simp add: node_of_def set_flags_def get_put_uN_same get_u64_put)
  show "page_pd_lsn (set_flags fl pg) = page_pd_lsn pg"
    using d by (simp add: set_flags_def page_pd_lsn_put_u16)
qed

lemma set_level_facts:
  assumes "btree_page pg" "lv < 16"
  shows "btree_page (set_level lv pg)" "node_of (set_level lv pg) = node_of pg\<lparr> nd_level := lv \<rparr>"
    "hupper (set_level lv pg) = hupper pg" "page_pd_lsn (set_level lv pg) = page_pd_lsn pg"
proof -
  note d = btree_pageD [OF assms(1)]
  have b: "same_body pg (set_level lv pg)"
    using d by (simp add: same_body_def set_level_def bytes_at_put_uN)
  show "btree_page (set_level lv pg)" "hupper (set_level lv pg) = hupper pg"
    using same_body_page [OF assms(1) b] same_body_header [OF b] by simp_all
  show "node_of (set_level lv pg) = node_of pg\<lparr> nd_level := lv \<rparr>"
    using same_body_page(2) [OF assms(1) b] d nibble_level [OF assms(2), of "get_u16 pg 12"]
    by (simp add: node_of_def set_level_def get_put_uN_same get_u64_put)
  show "page_pd_lsn (set_level lv pg) = page_pd_lsn pg"
    using d by (simp add: set_level_def page_pd_lsn_put_u16)
qed

lemma set_prev_facts:
  assumes "btree_page pg"
  shows "set_prev pid pg = Ok (put_u64 8176 pid pg)" "btree_page (put_u64 8176 pid pg)"
    "node_of (put_u64 8176 pid pg) = node_of pg\<lparr> nd_prev := pid \<rparr>"
    "hupper (put_u64 8176 pid pg) = hupper pg" "page_pd_lsn (put_u64 8176 pid pg) = page_pd_lsn pg"
proof -
  note d = btree_pageD [OF assms]
  have b: "same_body pg (put_u64 8176 pid pg)"
    using d by (simp add: same_body_def bytes_at_put_uN)
  show "btree_page (put_u64 8176 pid pg)" "hupper (put_u64 8176 pid pg) = hupper pg"
    "node_of (put_u64 8176 pid pg) = node_of pg\<lparr> nd_prev := pid \<rparr>"
    using same_body_page [OF assms b] same_body_header [OF b] d by (simp_all add: node_of_def buf_simps)
  show "set_prev pid pg = Ok (put_u64 8176 pid pg)" "page_pd_lsn (put_u64 8176 pid pg) = page_pd_lsn pg"
    using d by (simp_all add: set_prev_def write_slice_def put_u64_def page_pd_lsn_def buf_simps)
qed

lemma set_next_facts:
  assumes "btree_page pg"
  shows "set_next pid pg = Ok (put_u64 8184 pid pg)" "btree_page (put_u64 8184 pid pg)"
    "node_of (put_u64 8184 pid pg) = node_of pg\<lparr> nd_next := pid \<rparr>"
    "hupper (put_u64 8184 pid pg) = hupper pg" "page_pd_lsn (put_u64 8184 pid pg) = page_pd_lsn pg"
proof -
  note d = btree_pageD [OF assms]
  have b: "same_body pg (put_u64 8184 pid pg)"
    using d by (simp add: same_body_def bytes_at_put_uN)
  show "btree_page (put_u64 8184 pid pg)" "hupper (put_u64 8184 pid pg) = hupper pg"
    "node_of (put_u64 8184 pid pg) = node_of pg\<lparr> nd_next := pid \<rparr>"
    using same_body_page [OF assms b] same_body_header [OF b] d by (simp_all add: node_of_def buf_simps)
  show "set_next pid pg = Ok (put_u64 8184 pid pg)" "page_pd_lsn (put_u64 8184 pid pg) = page_pd_lsn pg"
    using d by (simp_all add: set_next_def write_slice_def put_u64_def page_pd_lsn_def buf_simps)
qed

lemma bt_set_lsn_facts:
  assumes "btree_page pg"
  shows "btree_page (set_page_pd_lsn pg l)" "node_of (set_page_pd_lsn pg l) = node_of pg"
    "hupper (set_page_pd_lsn pg l) = hupper pg" "page_pd_lsn (set_page_pd_lsn pg l) = l"
proof -
  note d = btree_pageD [OF assms]
  have b: "same_body pg (set_page_pd_lsn pg l)"
    using d by (simp add: same_body_def bytes_at_put_uN set_page_pd_lsn_def)
  show "btree_page (set_page_pd_lsn pg l)" "hupper (set_page_pd_lsn pg l) = hupper pg"
    "node_of (set_page_pd_lsn pg l) = node_of pg"
    using same_body_page [OF assms b] same_body_header [OF b] d
    by (simp_all add: node_of_def buf_simps set_page_pd_lsn_def)
  show "page_pd_lsn (set_page_pd_lsn pg l) = l"
    using d by (simp add: page_pd_lsn_def set_page_pd_lsn_def buf_simps)
qed

lemma init_special_page:
  assumes "length pg = 8192"
  shows "btree_page (init_with_special 16 pg)" "hupper (init_with_special 16 pg) = 8176"
    "node_of (init_with_special 16 pg) = \<lparr> nd_level = 0, nd_flags = 0, nd_prev = 0, nd_next = 0, nd_entries = [] \<rparr>"
    "page_pd_lsn (init_with_special 16 pg) = 0"
proof -
  have len: "length pg = PAGE_SIZE"
    using assms by (simp add: PAGE_SIZE_def)
  note i = init_header [OF len, of 16] init_page_ok [OF len, of 16]
  show ok: "btree_page (init_with_special 16 pg)" and "hupper (init_with_special 16 pg) = 8176"
    "page_pd_lsn (init_with_special 16 pg) = 0"
    using i by (simp_all add: btree_page_def)
  have "get_u16 (init_with_special 16 pg) 12 = 0"
    using assms
    by (simp add: init_with_special_def Let_def header_init_page_def header_write_to_def set_page_pd_lsn_def
        page_header_new_def page_sizes buf_simps del: length_puts)
  moreover have "entries (init_with_special 16 pg) = []"
    using i by (simp add: entries_def)
  moreover have "get_u64 (init_with_special 16 pg) 8176 = 0" "get_u64 (init_with_special 16 pg) 8184 = 0"
    using i(6) [of 8176 8] i(6) [of 8184 8] le_u64_zeros by (simp_all add: get_u64_def)
  ultimately show "node_of (init_with_special 16 pg) =
      \<lparr> nd_level = 0, nd_flags = 0, nd_prev = 0, nd_next = 0, nd_entries = [] \<rparr>"
    by (simp add: node_of_def)
qed

lemma bt_init_facts:
  assumes "length pg = 8192" "lv < 16"
  shows "btree_page (bt_init lv fl pg)" "hupper (bt_init lv fl pg) = 8176"
    "node_of (bt_init lv fl pg) = \<lparr> nd_level = lv, nd_flags = fl AND 0x0F, nd_prev = 0, nd_next = 0, nd_entries = [] \<rparr>"
    "page_pd_lsn (bt_init lv fl pg) = 0"
proof -
  note i = init_special_page [OF assms(1)]
  note l = set_level_facts [OF i(1) assms(2)]
  note f = set_flags_facts [OF l(1), of fl]
  have "bt_init lv fl pg = set_flags fl (set_level lv (init_with_special 16 pg))"
    by (simp add: bt_init_def BTREE_SPECIAL_SIZE_def HEAP_SPECIAL_SIZE_def)
  then show "btree_page (bt_init lv fl pg)" "hupper (bt_init lv fl pg) = 8176" "page_pd_lsn (bt_init lv fl pg) = 0"
    "node_of (bt_init lv fl pg) = \<lparr> nd_level = lv, nd_flags = fl AND 0x0F, nd_prev = 0, nd_next = 0, nd_entries = [] \<rparr>"
    using i l f by simp_all
qed

lemma put_at_Nil [simp]: "put_at off [] xs = xs"
  by (simp add: put_at_def)

lemma add_tuple_btree:
  assumes ok: "btree_page pg"
  shows "add_tuple pg e =
    (if e = [] then Err InvalidArgument
     else if length e > 8140 then Err (TupleTooLarge (length e))
     else if hupper pg < hlower pg + length e + 4 then Err (PageFull (length e + 4) (hupper pg - hlower pg))
     else Ok (of_nat (slot_count pg), inserted (slot_count pg) e pg))"
proof -
  note d = btree_pageD [OF ok]
  have "find (\<lambda>i. lp_flags (slot_lp pg i) = LpUnused) [0..<slot_count pg] = None"
    using d(8) by (auto simp: find_None_iff)
  then have f: "free_slot pg = slot_count pg" "lower_after pg = 36 + 4 * slot_count pg"
    by (simp_all add: free_slot_def lower_after_def)
  have "placed (hupper pg - length e) (36 + 4 * slot_count pg) (slot_count pg) e pg = inserted (slot_count pg) e pg"
    by (simp add: placed_def inserted_def Let_def bytes_at_def)
  then show ?thesis
    using d f by (auto simp: add_tuple_eq PAGE_SIZE_def)
qed

lemma prepare_left_facts:
  assumes "btree_page pg" "0 < hupper pg"
  obtains pg' where "apply_prepare_left r pg = Ok pg'" "btree_page pg'" "hupper pg' = hupper pg"
    "page_pd_lsn pg' = page_pd_lsn pg"
    "node_of pg' = node_of pg\<lparr> nd_flags := (nd_flags (node_of pg) OR BTREE_FLAG_SPLIT_INCOMPLETE) AND 0x0F, nd_next := r \<rparr>"
proof -
  let ?fl = "nd_flags (node_of pg) OR BTREE_FLAG_SPLIT_INCOMPLETE"
  note f = set_flags_facts [OF assms(1), of ?fl]
  note n = set_next_facts [OF f(1), of r]
  have "pd_upper (header_read_from pg) \<noteq> 0"
    using assms(2) by auto
  moreover have "set_flag BTREE_FLAG_SPLIT_INCOMPLETE True pg = Ok (set_flags ?fl pg)"
    using node_reads(2) [OF assms(1)] by (simp add: set_flag_def)
  ultimately have "apply_prepare_left r pg = Ok (put_u64 8184 r (set_flags ?fl pg))"
    using btree_pageD [OF assms(1)] n(1) by (simp add: apply_prepare_left_def bt_checked_header_eq)
  then show thesis
    by (rule that) (use f n in simp_all)
qed

lemma commit_left_facts:
  assumes "btree_page pg" "0 < hupper pg"
  obtains pg' where "apply_commit_left pg = Ok pg'" "btree_page pg'" "hupper pg' = hupper pg"
    "page_pd_lsn pg' = page_pd_lsn pg"
    "node_of pg' = node_of pg\<lparr> nd_flags :=
      (nd_flags (node_of pg) AND NOT (BTREE_FLAG_SPLIT_INCOMPLETE OR BTREE_FLAG_ROOT)) AND 0x0F \<rparr>"
proof -
  let ?fl = "nd_flags (node_of pg) AND NOT (BTREE_FLAG_SPLIT_INCOMPLETE OR BTREE_FLAG_ROOT)"
  note f = set_flags_facts [OF assms(1), of ?fl]
  have "pd_upper (header_read_from pg) \<noteq> 0"
    using assms(2) by auto
  then have "apply_commit_left pg = Ok (set_flags ?fl pg)"
    using btree_pageD [OF assms(1)] node_reads(2) [OF assms(1)] by (simp add: apply_commit_left_def bt_checked_header_eq)
  then show thesis
    by (rule that) (use f in simp_all)
qed

lemma init_right_facts:
  assumes "length pg = 8192" "lv < 16"
  obtains pg' where "init_right_page l n lv pg = Ok pg'" "btree_page pg'" "hupper pg' = 8176" "page_pd_lsn pg' = 0"
    "node_of pg' = \<lparr> nd_level = lv, nd_flags = flags_for_level lv AND 0x0F, nd_prev = l, nd_next = n, nd_entries = [] \<rparr>"
proof -
  note i = bt_init_facts [OF assms, of "flags_for_level lv"]
  note p = set_prev_facts [OF i(1), of l]
  note q = set_next_facts [OF p(2), of n]
  have "init_right_page l n lv pg = Ok (put_u64 8184 n (put_u64 8176 l (bt_init lv (flags_for_level lv) pg)))"
    using p(1) q(1) by (simp add: init_right_page_def)
  then show thesis
    by (rule that) (use i p q in simp_all)
qed

text \<open>
  The geometry check rejects a page of zeros, so the test for \<open>pd_upper = 0\<close> after it in
  \<open>apply_prepare_left\<close> and \<open>apply_commit_left\<close> never fires.
\<close>

lemma zero_page_rejected: "bt_checked_header pg = Ok h \<Longrightarrow> pd_upper h \<noteq> 0"
  by (auto simp: bt_checked_header_eq geometry_def split: if_splits)

section \<open>Entry lists as an interface\<close>

text \<open>
  What the index relies on: a page holds a list of entries, an insertion puts one entry at a
  position, a removal takes one out, and a truncation keeps a prefix.
\<close>

locale entry_list =
  fixes inv :: "'p \<Rightarrow> bool"
    and ents :: "'p \<Rightarrow> 'e list"
    and ins :: "nat \<Rightarrow> 'e \<Rightarrow> 'p \<Rightarrow> 'p"
    and rem :: "nat \<Rightarrow> 'p \<Rightarrow> 'p"
    and room :: "'e \<Rightarrow> 'p \<Rightarrow> bool"
  assumes ins_inv: "inv p \<Longrightarrow> room e p \<Longrightarrow> i \<le> length (ents p) \<Longrightarrow> inv (ins i e p)"
    and ins_ents: "inv p \<Longrightarrow> room e p \<Longrightarrow> i \<le> length (ents p) \<Longrightarrow>
      ents (ins i e p) = take i (ents p) @ e # drop i (ents p)"
    and rem_inv: "inv p \<Longrightarrow> i < length (ents p) \<Longrightarrow> inv (rem i p)"
    and rem_ents: "inv p \<Longrightarrow> i < length (ents p) \<Longrightarrow> ents (rem i p) = take i (ents p) @ drop (i + 1) (ents p)"
begin

lemma ins_rem: "inv p \<Longrightarrow> room e p \<Longrightarrow> i \<le> length (ents p) \<Longrightarrow> ents (rem i (ins i e p)) = ents p"
  by (simp add: ins_inv ins_ents rem_ents)

lemma ins_sorted:
  assumes "inv p" "room e p" "sorted_wrt R (ents p)" "i \<le> length (ents p)"
    "\<And>a. a \<in> set (take i (ents p)) \<Longrightarrow> R a e" "\<And>b. b \<in> set (drop i (ents p)) \<Longrightarrow> R e b"
  shows "sorted_wrt R (ents (ins i e p))"
proof -
  have "sorted_wrt R (take i (ents p) @ drop i (ents p))"
    using assms(3) by simp
  then show ?thesis
    unfolding sorted_wrt_append ins_ents [OF assms(1,2,4)] using assms(5,6) by auto
qed

lemma rem_sorted:
  assumes "inv p" "i < length (ents p)" "sorted_wrt R (ents p)"
  shows "sorted_wrt R (ents (rem i p))"
proof -
  have "sorted_wrt R (take i (ents p) @ drop i (ents p))"
    using assms(3) by simp
  moreover have "drop i (ents p) = ents p ! i # drop (i + 1) (ents p)"
    using assms(2) by (simp add: Cons_nth_drop_Suc)
  ultimately show ?thesis
    unfolding sorted_wrt_append rem_ents [OF assms(1,2)] by auto
qed

lemma set_rem:
  assumes "inv p" "i < length (ents p)" "distinct (ents p)"
  shows "set (ents (rem i p)) = set (ents p) - {ents p ! i}"
proof -
  have "distinct (take i (ents p) @ ents p ! i # drop (i + 1) (ents p))"
    using assms(2,3) by (simp add: id_take_nth_drop [symmetric])
  moreover have "set (ents p) = set (take i (ents p) @ ents p ! i # drop (i + 1) (ents p))"
    using assms(2) by (simp add: id_take_nth_drop [symmetric])
  ultimately show ?thesis
    unfolding rem_ents [OF assms(1,2)] by auto
qed

end

definition entry_fits :: "byte list \<Rightarrow> page \<Rightarrow> bool" where
  "entry_fits e pg \<longleftrightarrow> e \<noteq> [] \<and> length e + 4 \<le> free_space pg"

lemma entry_fits_iff: "btree_page pg \<Longrightarrow> entry_fits e pg \<longleftrightarrow> e \<noteq> [] \<and> hlower pg + length e + 4 \<le> hupper pg"
  using btree_pageD [of pg] by (auto simp: entry_fits_def free_space_def)

interpretation bp: entry_list btree_page entries inserted removed entry_fits
  by unfold_locales (auto simp: entry_fits_iff inserted_facts removed_facts)

section \<open>Properties\<close>

text \<open>
  C13: a well-formed index page implements a list of entries.  An insertion at a slot within
  the list puts the entry there, or reports the first of: an empty entry, a slot beyond the
  list, an entry no page can hold, not enough free space; a removal takes out the entry of its
  slot, a truncation keeps a prefix.  Level, flags, links and the log position of the page stay.
\<close>

theorem btree_page_refines_list:
  assumes "btree_page pg"
  shows "(case insert_entry_at slot e pg of
      Inr pg' \<Rightarrow> btree_page pg' \<and> page_pd_lsn pg' = page_pd_lsn pg \<and> e \<noteq> [] \<and> unat slot \<le> length (entries pg) \<and>
        node_of pg' = node_of pg\<lparr> nd_entries := take (unat slot) (entries pg) @ e # drop (unat slot) (entries pg) \<rparr>
    | Inl er \<Rightarrow> er = (if e = [] then BtInvalidArgument
        else if unat slot > length (entries pg) then BtCorrupted
        else if length e > 8140 then KeyTooLarge (length e) else BtPageFull (length e + 4) (free_space pg)) \<and>
        \<not> (entry_fits e pg \<and> unat slot \<le> length (entries pg))) \<and>
    (case remove_entry_at slot pg of
      Inr pg' \<Rightarrow> btree_page pg' \<and> page_pd_lsn pg' = page_pd_lsn pg \<and> unat slot < length (entries pg) \<and>
        node_of pg' = node_of pg\<lparr> nd_entries := take (unat slot) (entries pg) @ drop (unat slot + 1) (entries pg) \<rparr>
    | Inl er \<Rightarrow> er = BtCorrupted \<and> \<not> unat slot < length (entries pg)) \<and>
    (case truncate_slots slot pg of
      Inr pg' \<Rightarrow> btree_page pg' \<and> page_pd_lsn pg' = page_pd_lsn pg \<and> unat slot \<le> length (entries pg) \<and>
        node_of pg' = node_of pg\<lparr> nd_entries := take (unat slot) (entries pg) \<rparr>
    | Inl er \<Rightarrow> er = BtCorrupted \<and> \<not> unat slot \<le> length (entries pg))"
  (is "?ins \<and> ?rem \<and> ?trunc")
proof -
  have n: "node_of pg' = node_of pg\<lparr> nd_entries := entries pg' \<rparr> \<and> page_pd_lsn pg' = page_pd_lsn pg"
    if "same_frame pg pg'" for pg'
    using same_frame_node [OF that] that by (simp add: same_frame_def)
  note i = inserted_facts [OF assms, of "unat slot" e] and r = removed_facts [OF assms, of "unat slot"]
    and t = truncated_facts [OF assms, of "unat slot"]
  have ?ins
    using i n [OF i(4)] btree_pageD [OF assms]
    by (auto simp: insert_entry_at_eq [OF assms] entry_fits_iff [OF assms] free_space_def)
  moreover have ?rem
    using r n [OF r(4)] by (auto simp: remove_entry_at_eq [OF assms])
  moreover have ?trunc
    using t n [OF t(4)] by (auto simp: truncate_slots_eq [OF assms])
  ultimately show ?thesis
    by blast
qed

definition demo_leaf :: page where
  "demo_leaf = bt_init 0 BTREE_FLAG_LEAF (replicate 8192 0)"

theorem btree_page_refines_list_witness:
  "btree_page demo_leaf \<and> (\<exists>pg'. insert_entry_at 0 [1, 2] demo_leaf = Ok pg' \<and> entries pg' = [[1, 2]])"
proof -
  note i = bt_init_facts [of "replicate 8192 0" 0 BTREE_FLAG_LEAF, folded demo_leaf_def]
  have ok: "btree_page demo_leaf" and "entries demo_leaf = []" and "hupper demo_leaf = 8176"
    using i nd_entries_node_of [of demo_leaf] by simp_all
  moreover have "slot_count demo_leaf = 0"
    using length_entries [of demo_leaf] \<open>entries demo_leaf = []\<close> by simp
  moreover have "entry_fits [1, 2] demo_leaf"
    using calculation btree_pageD(5) [OF ok] by (simp add: entry_fits_iff)
  ultimately obtain pg' where pg': "insert_entry_at 0 [1, 2] demo_leaf = Ok pg'"
    "node_of pg' = node_of demo_leaf\<lparr> nd_entries := [[1, 2]] \<rparr>"
    using btree_page_refines_list [OF ok, where slot = 0 and e = "[1, 2]"] by (auto split: sum.splits)
  have "entries pg' = [[1, 2]]"
    using arg_cong [OF pg'(2), of nd_entries] by simp
  then show ?thesis
    using ok pg'(1) by blast
qed

end
