(* ===== verification/Btree_Node.thy ===== *)
theory Btree_Node
  imports Btree_Page
begin

text \<open>
  The page-level part of the index (\<^verbatim>\<open>pg-am-btree/src/index.rs\<close>): comparison of entries, the
  binary searches, the choice of the split point and the copy step of a split.  The main
  results: each search returns the lower bound of the sorted page, a split point that leaves
  room for the pending entry always exists, and the copy step moves exactly the upper part.
\<close>

section \<open>Order of row identifiers\<close>

text \<open>The derived order of \<open>Tid\<close>: page, then slot.\<close>

instantiation tid_ext :: (linorder) linorder
begin

definition less_eq_tid_ext :: "'a tid_scheme \<Rightarrow> 'a tid_scheme \<Rightarrow> bool" where
  "less_eq_tid_ext a b \<longleftrightarrow>
    (tid_page_id a, tid_slot_id a, tid.more a) \<le> (tid_page_id b, tid_slot_id b, tid.more b)"

definition less_tid_ext :: "'a tid_scheme \<Rightarrow> 'a tid_scheme \<Rightarrow> bool" where
  "less_tid_ext a b \<longleftrightarrow>
    (tid_page_id a, tid_slot_id a, tid.more a) < (tid_page_id b, tid_slot_id b, tid.more b)"

instance
proof
  fix x y z :: "'a tid_scheme"
  show "x < y \<longleftrightarrow> x \<le> y \<and> \<not> y \<le> x" "x \<le> x" "x \<le> y \<or> y \<le> x"
    by (auto simp: less_eq_tid_ext_def less_tid_ext_def)
  show "x \<le> y \<Longrightarrow> y \<le> z \<Longrightarrow> x \<le> z"
    by (auto simp: less_eq_tid_ext_def)
  show "x \<le> y \<Longrightarrow> y \<le> x \<Longrightarrow> x = y"
    by (auto simp: less_eq_tid_ext_def intro: tid.equality)
qed

end

section \<open>Entries of a page\<close>

definition entry_bytes :: "page \<Rightarrow> u16 \<Rightarrow> btree_error + byte list" where
  "entry_bytes pg slot =
    try_then (of_heap (tuple_at pg slot)) (\<lambda>r. case r of Some b \<Rightarrow> Ok b | None \<Rightarrow> Err BtCorrupted)"

definition leaf_entry_at :: "page \<Rightarrow> u16 \<Rightarrow> btree_error + byte list \<times> tid" where
  "leaf_entry_at pg slot = try_then (entry_bytes pg slot) decode_leaf_entry"

definition internal_entry_at :: "page \<Rightarrow> u16 \<Rightarrow> btree_error + byte list \<times> page_id" where
  "internal_entry_at pg slot = try_then (entry_bytes pg slot) decode_internal_entry"

text \<open>\<open>std::cmp::Ordering\<close> and \<open>cmp\<close>.\<close>

datatype ordering = OLess | OEqual | OGreater

definition cmp :: "'a :: linorder \<Rightarrow> 'a \<Rightarrow> ordering" where
  "cmp x y = (if x < y then OLess else if x = y then OEqual else OGreater)"

definition entry_cmp :: "byte list \<Rightarrow> byte list \<Rightarrow> bool \<Rightarrow> btree_error + ordering" where
  "entry_cmp a b leaf =
    (if leaf
     then try_then (decode_leaf_entry a) (\<lambda>x. try_then (decode_leaf_entry b) (\<lambda>y. Ok (cmp x y)))
     else try_then (decode_internal_entry a) (\<lambda>x. try_then (decode_internal_entry b) (\<lambda>y. Ok (cmp x y))))"

definition entry_key :: "byte list \<Rightarrow> byte \<Rightarrow> btree_error + byte list" where
  "entry_key bs level =
    (if level = 0 then try_then (decode_leaf_entry bs) (\<lambda>x. Ok (fst x))
     else try_then (decode_internal_entry bs) (\<lambda>x. Ok (fst x)))"

definition first_entry_key :: "page \<Rightarrow> btree_error + byte list option" where
  "first_entry_key pg =
    (if slot_count pg = 0 then Ok None
     else try_then (bt_level pg) (\<lambda>level. try_then (entry_bytes pg 0) (\<lambda>b.
       try_then (entry_key b level) (\<lambda>k. Ok (Some k)))))"

section \<open>Binary search\<close>

text \<open>The loop the four searches share: \<open>below mid\<close> is the test that moves the lower end.\<close>

function lower_bound_loop :: "(nat \<Rightarrow> btree_error + bool) \<Rightarrow> nat \<Rightarrow> nat \<Rightarrow> btree_error + nat" where
  "lower_bound_loop below lo hi =
    (if lo < hi
     then let mid = (lo + hi) div 2 in
       try_then (below mid) (\<lambda>b. if b then lower_bound_loop below (mid + 1) hi else lower_bound_loop below lo mid)
     else Ok lo)"
  by auto
termination
  by (relation "measure (\<lambda>(below, lo, hi). hi - lo)") auto

declare lower_bound_loop.simps [simp del]

definition leaf_lower_bound :: "page \<Rightarrow> byte list \<Rightarrow> tid \<Rightarrow> btree_error + nat" where
  "leaf_lower_bound pg key t =
    lower_bound_loop (\<lambda>mid. try_then (leaf_entry_at pg (of_nat mid)) (\<lambda>x. Ok (x < (key, t)))) 0 (slot_count pg)"

definition leaf_insert_slot :: "page \<Rightarrow> byte list \<Rightarrow> tid \<Rightarrow> btree_error + u16" where
  "leaf_insert_slot pg key t =
    try_then (leaf_lower_bound pg key t) (\<lambda>pos.
      if pos < slot_count pg
      then try_then (leaf_entry_at pg (of_nat pos)) (\<lambda>x.
        if x = (key, t) then Err DuplicateKey else Ok (of_nat pos))
      else Ok (of_nat pos))"

definition internal_lower_bound :: "page \<Rightarrow> byte list \<Rightarrow> page_id \<Rightarrow> btree_error + nat" where
  "internal_lower_bound pg key child =
    lower_bound_loop (\<lambda>mid. try_then (internal_entry_at pg (of_nat mid)) (\<lambda>x. Ok (x < (key, child)))) 0 (slot_count pg)"

definition entry_lower_bound :: "page \<Rightarrow> byte list \<Rightarrow> bool \<Rightarrow> btree_error + nat" where
  "entry_lower_bound pg entry leaf =
    lower_bound_loop (\<lambda>mid. try_then (entry_bytes pg (of_nat mid)) (\<lambda>b.
      try_then (entry_cmp b entry leaf) (\<lambda>c. Ok (c = OLess)))) 0 (slot_count pg)"

definition find_child :: "page \<Rightarrow> byte list \<Rightarrow> btree_error + page_id" where
  "find_child pg key =
    (if slot_count pg = 0 then Err BtCorrupted
     else
       try_then (lower_bound_loop (\<lambda>mid. try_then (internal_entry_at pg (of_nat mid)) (\<lambda>x. Ok (fst x \<le> key)))
         0 (slot_count pg)) (\<lambda>lo.
           try_then (internal_entry_at pg (of_nat (lo - 1))) (\<lambda>x. Ok (snd x))))"

fun points_at_loop :: "page \<Rightarrow> page_id \<Rightarrow> nat \<Rightarrow> nat \<Rightarrow> btree_error + bool" where
  "points_at_loop pg child slot 0 = Ok False"
| "points_at_loop pg child slot (Suc n) =
    try_then (internal_entry_at pg (of_nat slot)) (\<lambda>x.
      if snd x = child then Ok True else points_at_loop pg child (Suc slot) n)"

definition internal_page_points_at :: "page \<Rightarrow> page_id \<Rightarrow> btree_error + bool" where
  "internal_page_points_at pg child = points_at_loop pg child 0 (slot_count pg)"

section \<open>Splitting a page\<close>

definition BTREE_PAGE_CAPACITY :: nat where
  "BTREE_PAGE_CAPACITY = PAGE_SIZE - PAGE_HEADER_SIZE - BTREE_SPECIAL_SIZE"

fun entry_costs :: "page \<Rightarrow> nat \<Rightarrow> nat \<Rightarrow> btree_error + nat list" where
  "entry_costs pg slot 0 = Ok []"
| "entry_costs pg slot (Suc n) =
    try_then (entry_bytes pg (of_nat slot)) (\<lambda>b.
      try_then (entry_costs pg (Suc slot) n) (\<lambda>cs. Ok ((length b + 4) # cs)))"

definition split_valid :: "nat list \<Rightarrow> nat \<Rightarrow> nat \<Rightarrow> nat \<Rightarrow> bool" where
  "split_valid costs pending_cost p s \<longleftrightarrow>
    (let lands_left = s \<ge> p; left_bytes = sum_list (take s costs);
         right_need = sum_list costs - left_bytes + (if lands_left then 0 else pending_cost);
         left_need = left_bytes + (if lands_left then pending_cost else 0)
     in right_need \<le> BTREE_PAGE_CAPACITY \<and> left_need \<le> BTREE_PAGE_CAPACITY)"

definition split_candidates :: "nat \<Rightarrow> nat list" where
  "split_candidates count = concat (map (\<lambda>d. [count div 2 + d, count div 2 - d]) [0..<count div 2 + 2])"

definition choose_split_slot :: "page \<Rightarrow> byte \<Rightarrow> byte list option \<Rightarrow> btree_error + u16" where
  "choose_split_slot pg level pending =
    (let count = slot_count pg in
     if count < 2 then Err BtCorrupted
     else case pending of
       None \<Rightarrow> Ok (of_nat (count div 2))
     | Some pending \<Rightarrow>
         try_then (entry_costs pg 0 count) (\<lambda>costs.
           let pending_cost = length pending + 4 in
           try_then (entry_lower_bound pg pending (level = 0)) (\<lambda>p.
             case find (\<lambda>s. 1 \<le> s \<and> s < count \<and> split_valid costs pending_cost p s) (split_candidates count) of
               Some s \<Rightarrow> Ok (of_nat s)
             | None \<Rightarrow> Err (BtPageFull pending_cost 0))))"

fun collect_entries :: "page \<Rightarrow> nat \<Rightarrow> nat \<Rightarrow> btree_error + byte list list" where
  "collect_entries pg slot 0 = Ok []"
| "collect_entries pg slot (Suc n) =
    try_then (entry_bytes pg (of_nat slot)) (\<lambda>b. try_then (collect_entries pg (Suc slot) n) (\<lambda>bs. Ok (b # bs)))"

fun add_all :: "byte list list \<Rightarrow> page \<Rightarrow> btree_error + page" where
  "add_all [] pg = Ok pg"
| "add_all (e # es) pg = try_then (of_heap (add_tuple pg e)) (\<lambda>(_, pg). add_all es pg)"

text \<open>The pair of pages after the copy; on an error the source has already changed some of their bytes.\<close>

definition apply_split_copy :: "page \<Rightarrow> page \<Rightarrow> u16 \<Rightarrow> bool \<Rightarrow> btree_error + page \<times> page" where
  "apply_split_copy left_page right_page copy_start_slot move_to_right =
    (let count = slot_count left_page; start = unat copy_start_slot in
     if start = 0 \<or> start > count then Err BtCorrupted
     else
       try_then (collect_entries left_page 0 count) (\<lambda>es.
       let kept = take start es; moved = drop start es in
       try_then (if move_to_right then add_all moved right_page else Ok right_page) (\<lambda>right_page.
       let l = page_pd_lsn left_page in
       try_then (bt_prev left_page) (\<lambda>prev.
       try_then (bt_next left_page) (\<lambda>nxt.
       try_then (bt_level left_page) (\<lambda>level.
       try_then (bt_flags left_page) (\<lambda>fl.
       try_then (set_prev prev (bt_init level fl left_page)) (\<lambda>pg.
       try_then (set_next nxt pg) (\<lambda>pg.
       try_then (add_all kept pg) (\<lambda>pg.
       Ok (set_page_pd_lsn pg l, right_page)))))))))))"

section \<open>Reading entries\<close>

lemma entry_bytes_nth:
  assumes "btree_page pg" "i < slot_count pg"
  shows "entry_bytes pg (of_nat i) = Ok (entries pg ! i)"
proof -
  note d = btree_pageD [OF assms(1)]
  have "unat (of_nat i :: u16) = i"
    by (rule unat_of_nat_uN) (use assms d in simp)
  then show ?thesis
    using assms d by (simp add: entry_bytes_def tuple_at_eq nth_entries lp_bytes_def)
qed

lemma collect_entries_eq:
  "btree_page pg \<Longrightarrow> slot + n \<le> slot_count pg \<Longrightarrow> collect_entries pg slot n = Ok (take n (drop slot (entries pg)))"
  by (induction n arbitrary: slot) (simp_all add: entry_bytes_nth take_Suc_conv_app_nth Cons_nth_drop_Suc [symmetric])

lemma entry_costs_eq:
  "btree_page pg \<Longrightarrow> slot + n \<le> slot_count pg \<Longrightarrow>
   entry_costs pg slot n = Ok (map (\<lambda>e. length e + 4) (take n (drop slot (entries pg))))"
  by (induction n arbitrary: slot) (simp_all add: entry_bytes_nth Cons_nth_drop_Suc [symmetric])

definition leaf_item :: "byte list \<Rightarrow> byte list \<times> tid" where "leaf_item e = projr (decode_leaf_entry e)"
definition internal_item :: "byte list \<Rightarrow> byte list \<times> page_id" where "internal_item e = projr (decode_internal_entry e)"

definition leaf_page :: "page \<Rightarrow> bool" where
  "leaf_page pg \<longleftrightarrow> btree_page pg \<and> (\<forall>e \<in> set (entries pg). 10 \<le> length e)"

definition internal_page :: "page \<Rightarrow> bool" where
  "internal_page pg \<longleftrightarrow> btree_page pg \<and> (\<forall>e \<in> set (entries pg). 8 \<le> length e)"

definition leaf_items :: "page \<Rightarrow> (byte list \<times> tid) list" where "leaf_items pg = map leaf_item (entries pg)"
definition internal_items :: "page \<Rightarrow> (byte list \<times> page_id) list" where
  "internal_items pg = map internal_item (entries pg)"

lemma decode_leaf_item: "10 \<le> length e \<Longrightarrow> decode_leaf_entry e = Ok (leaf_item e)"
  by (simp add: leaf_item_def decode_leaf_entry_def trailer_sizes Let_def)

lemma decode_internal_item: "8 \<le> length e \<Longrightarrow> decode_internal_entry e = Ok (internal_item e)"
  by (simp add: internal_item_def decode_internal_entry_def trailer_sizes)

lemma item_encode [simp]:
  "leaf_item (encode_leaf_entry k t) = (k, t)" "internal_item (encode_internal_entry k c) = (k, c)"
  by (simp_all add: leaf_item_def internal_item_def)

lemma length_encode_entry [simp]:
  "length (encode_leaf_entry k t) = length k + 10" "length (encode_internal_entry k c) = length k + 8"
  by (simp_all add: encode_leaf_entry_def encode_internal_entry_def)

lemma length_items [simp]: "length (leaf_items pg) = slot_count pg" "length (internal_items pg) = slot_count pg"
  by (simp_all add: leaf_items_def internal_items_def)

lemma leaf_entry_at_nth:
  assumes "leaf_page pg" "i < slot_count pg"
  shows "leaf_entry_at pg (of_nat i) = Ok (leaf_items pg ! i)"
proof -
  have "entries pg ! i \<in> set (entries pg)"
    using assms(2) by simp
  then show ?thesis
    using assms by (simp add: leaf_entry_at_def leaf_page_def entry_bytes_nth decode_leaf_item leaf_items_def)
qed

lemma internal_entry_at_nth:
  assumes "internal_page pg" "i < slot_count pg"
  shows "internal_entry_at pg (of_nat i) = Ok (internal_items pg ! i)"
proof -
  have "entries pg ! i \<in> set (entries pg)"
    using assms(2) by simp
  then show ?thesis
    using assms by (simp add: internal_entry_at_def internal_page_def entry_bytes_nth decode_internal_item internal_items_def)
qed

lemma slot_u16: "btree_page pg \<Longrightarrow> i \<le> slot_count pg \<Longrightarrow> unat (of_nat i :: u16) = i"
  using btree_pageD [of pg] by (intro unat_of_nat_uN) auto

section \<open>The searches return lower bounds\<close>

lemma lower_bound_loop_Ok:
  assumes "\<And>i. lo \<le> i \<Longrightarrow> i < hi \<Longrightarrow> below i = Ok (P i)" "lo \<le> hi"
  shows "\<exists>r. lower_bound_loop below lo hi = Ok r \<and> lo \<le> r \<and> r \<le> hi"
  using assms
proof (induction below lo hi rule: lower_bound_loop.induct)
  case (1 below lo hi)
  let ?mid = "(lo + hi) div 2"
  show ?case
  proof (cases "lo < hi")
    case True
    then have m: "below ?mid = Ok (P ?mid)" "lo \<le> ?mid" "?mid < hi"
      using "1.prems" by auto
    show ?thesis
    proof (cases "P ?mid")
      case Pm: True
      then obtain r where "lower_bound_loop below (?mid + 1) hi = Ok r" "?mid + 1 \<le> r" "r \<le> hi"
        using "1.IH"(1) [OF True HOL.refl Pm] "1.prems" m by auto
      then show ?thesis
        using True m Pm by (subst lower_bound_loop.simps) simp
    next
      case Pm: False
      then obtain r where "lower_bound_loop below lo ?mid = Ok r" "lo \<le> r" "r \<le> ?mid"
        using "1.IH"(2) [OF True HOL.refl Pm] "1.prems" m by auto
      then show ?thesis
        using True m Pm by (subst lower_bound_loop.simps) simp
    qed
  qed (use "1.prems" in \<open>simp add: lower_bound_loop.simps\<close>)
qed

lemma lower_bound_loop_correct:
  assumes "\<forall>i. lo \<le> i \<and> i < hi \<longrightarrow> below i = Ok (P i)" "lo \<le> hi" "\<forall>i j. i \<le> j \<and> j < hi \<and> P j \<longrightarrow> P i"
  shows "\<exists>r. lower_bound_loop below lo hi = Ok r \<and> lo \<le> r \<and> r \<le> hi \<and>
    (\<forall>i. lo \<le> i \<and> i < r \<longrightarrow> P i) \<and> (\<forall>i. r \<le> i \<and> i < hi \<longrightarrow> \<not> P i)"
  using assms
proof (induction below lo hi rule: lower_bound_loop.induct)
  case (1 below lo hi)
  let ?mid = "(lo + hi) div 2"
  show ?case
  proof (cases "lo < hi")
    case True
    then have m': "lo \<le> ?mid" "?mid < hi"
      by auto
    then have m: "below ?mid = Ok (P ?mid)" "lo \<le> ?mid" "?mid < hi"
      using "1.prems"(1) by blast+
    show ?thesis
    proof (cases "P ?mid")
      case Pm: True
      have "\<forall>i. ?mid + 1 \<le> i \<and> i < hi \<longrightarrow> below i = Ok (P i)" "?mid + 1 \<le> hi"
        using "1.prems"(1) m by auto
      then obtain r where r: "lower_bound_loop below (?mid + 1) hi = Ok r" "?mid + 1 \<le> r" "r \<le> hi"
        "\<forall>i. ?mid + 1 \<le> i \<and> i < r \<longrightarrow> P i" "\<forall>i. r \<le> i \<and> i < hi \<longrightarrow> \<not> P i"
        using "1.IH"(1) [OF True HOL.refl Pm _ _ "1.prems"(3)] by blast
      have "P i" if "lo \<le> i" "i < r" for i
      proof (cases "?mid + 1 \<le> i")
        case False
        then have "i \<le> ?mid"
          by simp
        then show ?thesis
          using "1.prems"(3) m(3) Pm by blast
      qed (use that r(4) in blast)
      then show ?thesis
        using r True m Pm by (subst lower_bound_loop.simps) (simp add: Let_def)
    next
      case Pm: False
      have "\<forall>i. lo \<le> i \<and> i < ?mid \<longrightarrow> below i = Ok (P i)" "\<forall>i j. i \<le> j \<and> j < ?mid \<and> P j \<longrightarrow> P i"
        using "1.prems"(1,3) m(3) less_trans by blast+
      then obtain r where r: "lower_bound_loop below lo ?mid = Ok r" "lo \<le> r" "r \<le> ?mid"
        "\<forall>i. lo \<le> i \<and> i < r \<longrightarrow> P i" "\<forall>i. r \<le> i \<and> i < ?mid \<longrightarrow> \<not> P i"
        using "1.IH"(2) [OF True HOL.refl Pm _ m(2)] by blast
      have "\<not> P i" if "r \<le> i" "i < hi" for i
      proof (cases "i < ?mid")
        case False
        then have "?mid \<le> i"
          by simp
        then show ?thesis
          using "1.prems"(3) that(2) Pm by blast
      qed (use that r(5) in blast)
      then show ?thesis
        using r True m Pm by (subst lower_bound_loop.simps) (simp add: Let_def)
    qed
  qed (use "1.prems"(2) in \<open>auto simp: lower_bound_loop.simps\<close>)
qed

text \<open>The lower bound as the length of the prefix that satisfies the test.\<close>

lemma lower_bound_takeWhile:
  assumes "\<And>i. i < length xs \<Longrightarrow> below i = Ok (Q (xs ! i))"
    and "\<And>i j. i \<le> j \<Longrightarrow> j < length xs \<Longrightarrow> Q (xs ! j) \<Longrightarrow> Q (xs ! i)"
  shows "lower_bound_loop below 0 (length xs) = Ok (length (takeWhile Q xs))"
proof -
  obtain r where r: "lower_bound_loop below 0 (length xs) = Ok r" "r \<le> length xs"
    "\<forall>i. i < r \<longrightarrow> Q (xs ! i)" "\<forall>i. r \<le> i \<and> i < length xs \<longrightarrow> \<not> Q (xs ! i)"
    using lower_bound_loop_correct [of 0 "length xs" below "\<lambda>i. Q (xs ! i)"] assms by blast
  have "takeWhile Q xs = take r xs"
    by (rule takeWhile_eq_take_P_nth) (use r in auto)
  then show ?thesis
    using r by simp
qed

lemma leaf_lower_bound_eq:
  assumes "leaf_page pg" "sorted (leaf_items pg)"
  shows "leaf_lower_bound pg key t = Ok (length (takeWhile (\<lambda>x. x < (key, t)) (leaf_items pg)))"
proof -
  let ?xs = "leaf_items pg"
  have "lower_bound_loop (\<lambda>mid. try_then (leaf_entry_at pg (of_nat mid)) (\<lambda>x. Ok (x < (key, t)))) 0 (length ?xs) =
      Ok (length (takeWhile (\<lambda>x. x < (key, t)) ?xs))"
  proof (rule lower_bound_takeWhile)
    show "try_then (leaf_entry_at pg (of_nat i)) (\<lambda>x. Ok (x < (key, t))) = Ok (?xs ! i < (key, t))" if "i < length ?xs" for i
      using that by (simp add: leaf_entry_at_nth [OF assms(1)])
    show "?xs ! i < (key, t)" if "i \<le> j" "j < length ?xs" "?xs ! j < (key, t)" for i j
      using sorted_nth_mono [OF assms(2) that(1,2)] that(3) by (rule le_less_trans)
  qed
  then show ?thesis
    by (simp add: leaf_lower_bound_def)
qed

lemma internal_lower_bound_eq:
  assumes "internal_page pg" "sorted (internal_items pg)"
  shows "internal_lower_bound pg key c = Ok (length (takeWhile (\<lambda>x. x < (key, c)) (internal_items pg)))"
proof -
  let ?xs = "internal_items pg"
  have "lower_bound_loop (\<lambda>mid. try_then (internal_entry_at pg (of_nat mid)) (\<lambda>x. Ok (x < (key, c)))) 0 (length ?xs) =
      Ok (length (takeWhile (\<lambda>x. x < (key, c)) ?xs))"
  proof (rule lower_bound_takeWhile)
    show "try_then (internal_entry_at pg (of_nat i)) (\<lambda>x. Ok (x < (key, c))) = Ok (?xs ! i < (key, c))" if "i < length ?xs" for i
      using that by (simp add: internal_entry_at_nth [OF assms(1)])
    show "?xs ! i < (key, c)" if "i \<le> j" "j < length ?xs" "?xs ! j < (key, c)" for i j
      using sorted_nth_mono [OF assms(2) that(1,2)] that(3) by (rule le_less_trans)
  qed
  then show ?thesis
    by (simp add: internal_lower_bound_def)
qed

lemma takeWhile_sorted:
  fixes x :: "'a :: linorder"
  assumes "sorted xs"
  defines "p \<equiv> length (takeWhile (\<lambda>y. y < x) xs)"
  shows "p \<le> length xs" "y \<in> set (take p xs) \<Longrightarrow> y < x" "y \<in> set (drop p xs) \<Longrightarrow> x \<le> y"
    "x \<in> set xs \<longleftrightarrow> p < length xs \<and> xs ! p = x"
proof -
  show le: "p \<le> length xs"
    by (simp add: p_def length_takeWhile_le)
  show "y \<in> set (take p xs) \<Longrightarrow> y < x"
    unfolding p_def takeWhile_eq_take [symmetric] by (auto dest: set_takeWhileD)
  have ge: "x \<le> xs ! p" if "p < length xs"
    using nth_length_takeWhile [of "\<lambda>y. y < x" xs] that by (auto simp: p_def not_less)
  show hi: "x \<le> y" if "y \<in> set (drop p xs)" for y
  proof -
    obtain i where "i < length (drop p xs)" "drop p xs ! i = y"
      using \<open>y \<in> set (drop p xs)\<close> unfolding in_set_conv_nth by blast
    then have i: "p + i < length xs" "y = xs ! (p + i)"
      using le by auto
    then show ?thesis
      using sorted_nth_mono [OF assms(1), of p "p + i"] ge by auto
  qed
  show "x \<in> set xs \<longleftrightarrow> p < length xs \<and> xs ! p = x"
  proof
    assume "x \<in> set xs"
    then obtain j where j: "j < length xs" "xs ! j = x"
      by (auto simp: in_set_conv_nth)
    have "p \<le> j"
      using j unfolding p_def by (metis nth_mem not_le less_irrefl set_takeWhileD takeWhile_nth)
    then have "p < length xs" "xs ! p \<le> x"
      using sorted_nth_mono [OF assms(1) \<open>p \<le> j\<close> j(1)] j by auto
    then show "p < length xs \<and> xs ! p = x"
      using ge by auto
  qed (auto simp: in_set_conv_nth)
qed

lemma leaf_insert_slot_eq:
  assumes "leaf_page pg" "sorted (leaf_items pg)"
  shows "leaf_insert_slot pg key t =
    (if (key, t) \<in> set (leaf_items pg) then Err DuplicateKey
     else Ok (of_nat (length (takeWhile (\<lambda>x. x < (key, t)) (leaf_items pg)))))"
proof -
  note t = takeWhile_sorted [OF assms(2), of "(key, t)"]
  show ?thesis
    unfolding leaf_insert_slot_def leaf_lower_bound_eq [OF assms] t(4)
    using leaf_entry_at_nth [OF assms(1)] by simp
qed

lemma find_child_eq:
  assumes "internal_page pg" "sorted (map fst (internal_items pg))" "0 < slot_count pg"
  shows "find_child pg key =
    Ok (snd (internal_items pg ! (length (takeWhile (\<lambda>x. fst x \<le> key) (internal_items pg)) - 1)))"
proof -
  let ?xs = "internal_items pg"
  let ?r = "length (takeWhile (\<lambda>x. fst x \<le> key) ?xs)"
  have "lower_bound_loop (\<lambda>mid. try_then (internal_entry_at pg (of_nat mid)) (\<lambda>x. Ok (fst x \<le> key))) 0 (length ?xs) = Ok ?r"
  proof (rule lower_bound_takeWhile)
    show "try_then (internal_entry_at pg (of_nat i)) (\<lambda>x. Ok (fst x \<le> key)) = Ok (fst (?xs ! i) \<le> key)" if "i < length ?xs" for i
      using that by (simp add: internal_entry_at_nth [OF assms(1)])
    show "fst (?xs ! i) \<le> key" if "i \<le> j" "j < length ?xs" "fst (?xs ! j) \<le> key" for i j
      using sorted_nth_mono [OF assms(2) that(1)] that by simp
  qed
  moreover have "?r - 1 < slot_count pg"
    using length_takeWhile_le [of "\<lambda>x. fst x \<le> key" ?xs] assms(3) by auto
  ultimately show ?thesis
    using assms(3) internal_entry_at_nth [OF assms(1), of "?r - 1"] by (simp add: find_child_def)
qed

lemma find_child_in:
  assumes "internal_page pg" "0 < slot_count pg"
  shows "\<exists>c. find_child pg key = Ok c \<and> c \<in> snd ` set (internal_items pg)"
proof -
  have "\<exists>r. lower_bound_loop (\<lambda>mid. try_then (internal_entry_at pg (of_nat mid)) (\<lambda>x. Ok (fst x \<le> key))) 0 (slot_count pg) = Ok r \<and>
      0 \<le> r \<and> r \<le> slot_count pg"
    by (rule lower_bound_loop_Ok [where P = "\<lambda>i. fst (internal_items pg ! i) \<le> key"])
      (simp_all add: internal_entry_at_nth [OF assms(1)])
  then obtain r where r: "lower_bound_loop (\<lambda>mid. try_then (internal_entry_at pg (of_nat mid)) (\<lambda>x. Ok (fst x \<le> key))) 0 (slot_count pg) = Ok r"
      "r \<le> slot_count pg"
    by blast
  have "r - 1 < slot_count pg"
    using r(2) assms(2) by auto
  then show ?thesis
    using r(1) assms internal_entry_at_nth [OF assms(1), of "r - 1"] by (simp add: find_child_def)
qed

lemma points_at_eq:
  assumes "internal_page pg"
  shows "internal_page_points_at pg c = Ok (c \<in> snd ` set (internal_items pg))"
proof -
  have "points_at_loop pg c slot n = Ok (c \<in> snd ` set (take n (drop slot (internal_items pg))))"
    if "slot + n \<le> slot_count pg" for slot n
    using that
  proof (induction n arbitrary: slot)
    case (Suc n)
    have "take (Suc n) (drop slot (internal_items pg)) = internal_items pg ! slot # take n (drop (Suc slot) (internal_items pg))"
      using Suc.prems by (simp add: Cons_nth_drop_Suc [symmetric])
    then show ?case
      using Suc internal_entry_at_nth [OF assms, of slot] by auto
  qed simp
  from this [of 0 "slot_count pg"] show ?thesis
    by (simp add: internal_page_points_at_def)
qed

lemma entry_lower_bound_leaf:
  assumes "leaf_page pg" "10 \<le> length e"
  shows "entry_lower_bound pg e True = leaf_lower_bound pg (fst (leaf_item e)) (snd (leaf_item e))"
    "\<exists>p. entry_lower_bound pg e True = Ok p \<and> p \<le> slot_count pg"
proof -
  let ?f = "\<lambda>mid. try_then (entry_bytes pg (of_nat mid)) (\<lambda>b. try_then (entry_cmp b e True) (\<lambda>c. Ok (c = OLess)))"
  let ?g = "\<lambda>mid. try_then (leaf_entry_at pg (of_nat mid)) (\<lambda>x. Ok (x < (fst (leaf_item e), snd (leaf_item e))))"
  have fg: "?f mid = ?g mid" for mid
    using decode_leaf_item [OF assms(2)]
    by (cases "entry_bytes pg (of_nat mid)") (auto simp: leaf_entry_at_def entry_cmp_def cmp_def try_then_def split: sum.splits)
  then show "entry_lower_bound pg e True = leaf_lower_bound pg (fst (leaf_item e)) (snd (leaf_item e))"
    unfolding entry_lower_bound_def leaf_lower_bound_def by presburger
  have "\<exists>r. lower_bound_loop ?g 0 (slot_count pg) = Ok r \<and> 0 \<le> r \<and> r \<le> slot_count pg"
    by (rule lower_bound_loop_Ok [where P = "\<lambda>i. leaf_items pg ! i < (fst (leaf_item e), snd (leaf_item e))"])
      (simp_all add: leaf_entry_at_nth [OF assms(1)] del: prod.collapse)
  then show "\<exists>p. entry_lower_bound pg e True = Ok p \<and> p \<le> slot_count pg"
    unfolding entry_lower_bound_def fg by blast
qed

lemma entry_lower_bound_internal:
  assumes "internal_page pg" "8 \<le> length e"
  shows "entry_lower_bound pg e False = internal_lower_bound pg (fst (internal_item e)) (snd (internal_item e))"
    "\<exists>p. entry_lower_bound pg e False = Ok p \<and> p \<le> slot_count pg"
proof -
  let ?f = "\<lambda>mid. try_then (entry_bytes pg (of_nat mid)) (\<lambda>b. try_then (entry_cmp b e False) (\<lambda>c. Ok (c = OLess)))"
  let ?g = "\<lambda>mid. try_then (internal_entry_at pg (of_nat mid)) (\<lambda>x. Ok (x < (fst (internal_item e), snd (internal_item e))))"
  have fg: "?f mid = ?g mid" for mid
    using decode_internal_item [OF assms(2)]
    by (cases "entry_bytes pg (of_nat mid)") (auto simp: internal_entry_at_def entry_cmp_def cmp_def try_then_def split: sum.splits)
  then show "entry_lower_bound pg e False = internal_lower_bound pg (fst (internal_item e)) (snd (internal_item e))"
    unfolding entry_lower_bound_def internal_lower_bound_def by presburger
  have "\<exists>r. lower_bound_loop ?g 0 (slot_count pg) = Ok r \<and> 0 \<le> r \<and> r \<le> slot_count pg"
    by (rule lower_bound_loop_Ok [where P = "\<lambda>i. internal_items pg ! i < (fst (internal_item e), snd (internal_item e))"])
      (simp_all add: internal_entry_at_nth [OF assms(1)] del: prod.collapse)
  then show "\<exists>p. entry_lower_bound pg e False = Ok p \<and> p \<le> slot_count pg"
    unfolding entry_lower_bound_def fg by blast
qed

section \<open>Space\<close>

lemma card_regions:
  "lps_apart ls \<Longrightarrow>
   card (\<Union>l \<in> set ls. {unat (lp_off l)..<unat (lp_off l) + unat (lp_len l)}) = sum_list (map (\<lambda>l. unat (lp_len l)) ls)"
proof (induction ls)
  case (Cons l ls)
  let ?I = "\<lambda>l. {unat (lp_off l)..<unat (lp_off l) + unat (lp_len l)}"
  have "?I l \<inter> ?I m = {}" if "m \<in> set ls" for m
    using Cons.prems that by (auto simp: lps_apart_def apart_def lp_region_def)
  then have "?I l \<inter> (\<Union>l \<in> set ls. ?I l) = {}"
    by blast
  then have "card (?I l \<union> (\<Union>l \<in> set ls. ?I l)) = card (?I l) + card (\<Union>l \<in> set ls. ?I l)"
    by (intro card_Un_disjoint) auto
  then show ?case
    using Cons by (simp add: lps_apart_def)
qed simp

definition cost :: "byte list list \<Rightarrow> nat" where
  "cost es = sum_list (map (\<lambda>e. length e + 4) es)"

lemma cost_simps [simp]: "cost [] = 0" "cost (e # es) = length e + 4 + cost es" "cost (xs @ ys) = cost xs + cost ys"
  by (simp_all add: cost_def)

lemma cost_take_drop: "cost (take n es) + cost (drop n es) = cost es"
  by (metis append_take_drop_id cost_simps(3))

text \<open>The live entries, their line pointers and the free space share the page.\<close>

lemma used_space:
  assumes "btree_page pg"
  shows "cost (entries pg) + free_space pg \<le> BTREE_PAGE_CAPACITY"
proof -
  note d = btree_pageD [OF assms]
  have f: "list_all (lp_fits (hupper pg)) (lps pg)" and a: "lps_apart (lps pg)"
    using assms by (simp_all add: btree_page_lps)
  have "(\<Union>l \<in> set (lps pg). {unat (lp_off l)..<unat (lp_off l) + unat (lp_len l)}) \<subseteq> {hupper pg..<8176}"
    using f by (auto simp: list_all_iff lp_fits_def)
  then have "sum_list (map (\<lambda>l. unat (lp_len l)) (lps pg)) \<le> card {hupper pg..<8176}"
    unfolding card_regions [OF a, symmetric] by (intro card_mono) auto
  moreover have "map length (entries pg) = map (\<lambda>l. unat (lp_len l)) (lps pg)"
    unfolding entries_lps using f d(2) by (auto simp: list_all_iff lp_fits_def lp_bytes_def intro!: length_bytes_at)
  moreover have "cost (entries pg) = sum_list (map length (entries pg)) + 4 * slot_count pg"
    by (simp add: cost_def sum_list_addf sum_list_triv)
  ultimately show ?thesis
    using d by (simp add: BTREE_PAGE_CAPACITY_def page_sizes BTREE_SPECIAL_SIZE_def free_space_def)
qed

text \<open>Adding entries that fit the free space.\<close>

lemma add_all_Ok:
  assumes "btree_page pg" "cost es \<le> free_space pg" "\<forall>e \<in> set es. e \<noteq> []"
  shows "\<exists>pg'. add_all es pg = Ok pg' \<and> btree_page pg' \<and> free_space pg' = free_space pg - cost es \<and>
    page_pd_lsn pg' = page_pd_lsn pg \<and> node_of pg' = node_of pg\<lparr> nd_entries := entries pg @ es \<rparr>"
  using assms
proof (induction es arbitrary: pg)
  case Nil
  then show ?case
    by (simp add: node_of_def)
next
  case (Cons e es)
  note d = btree_pageD [OF Cons.prems(1)]
  let ?p = "inserted (slot_count pg) e pg"
  have fit: "hlower pg + length e + 4 \<le> hupper pg" "e \<noteq> []"
    using Cons.prems d by (auto simp: free_space_def)
  note i = inserted_facts [OF Cons.prems(1) order.refl fit(2,1)]
  have "free_space ?p = free_space pg - (length e + 4)"
    using i(2,3) d btree_pageD(5) [OF i(1)] by (simp add: free_space_def)
  moreover have "add_tuple pg e = Ok (of_nat (slot_count pg), ?p)"
    using fit d by (simp add: add_tuple_btree [OF Cons.prems(1)])
  moreover have "node_of ?p = node_of pg\<lparr> nd_entries := entries pg @ [e] \<rparr>" "page_pd_lsn ?p = page_pd_lsn pg"
    using same_frame_node [OF i(4)] i(4,5) by (simp_all add: same_frame_def)
  ultimately show ?case
    using Cons.IH [OF i(1)] Cons.prems(2,3) i(5) by auto
qed

section \<open>The split point\<close>

lemma split_candidates_all:
  assumes "1 \<le> s" "s < count"
  shows "s \<in> set (split_candidates count)"
proof -
  define d where "d = (if count div 2 \<le> s then s - count div 2 else count div 2 - s)"
  have "d < count div 2 + 2"
    using assms by (auto simp: d_def)
  moreover have "s = count div 2 + d \<or> s = count div 2 - d"
    by (auto simp: d_def)
  ultimately show ?thesis
    by (auto simp: split_candidates_def)
qed

lemma sum_take_Suc: "n < length cs \<Longrightarrow> sum_list (take (Suc n) cs) = sum_list (take n cs) + (cs ! n :: nat)"
  by (simp add: take_Suc_conv_app_nth)

lemma split_valid_exists:
  assumes c: "\<forall>c \<in> set costs. c \<le> 2712" and T: "sum_list costs \<le> 8144" and P: "pc \<le> 2712"
    and n: "2 \<le> length costs" and p: "p \<le> length costs"
  shows "\<exists>s. 1 \<le> s \<and> s < length costs \<and> split_valid costs pc p s"
proof -
  let ?L = "\<lambda>s. sum_list (take s costs)"
  have nth: "costs ! i \<le> 2712" if "i < length costs" for i
    using c that by auto
  have L: "?L s \<le> sum_list costs" for s
    by (metis append_take_drop_id le_add1 sum_list.append)
  have v: "split_valid costs pc p s \<longleftrightarrow>
      (if p \<le> s then ?L s + pc \<le> 8144 else sum_list costs - ?L s + pc \<le> 8144)" for s
    using T L [of s] by (auto simp: split_valid_def Let_def BTREE_PAGE_CAPACITY_def page_sizes BTREE_SPECIAL_SIZE_def)
  have first: "?L 1 \<le> 2712"
    using sum_take_Suc [of 0 costs] nth [of 0] n by fastforce
  consider "p \<le> 1" | "p = length costs" | "1 < p" "p < length costs"
    using p by linarith
  then show ?thesis
  proof cases
    case 1
    then have "split_valid costs pc p 1"
      using v first P by simp
    then show ?thesis
      using n by auto
  next
    case 2
    let ?s = "length costs - 1"
    have "sum_list costs = ?L ?s + costs ! ?s"
      using sum_take_Suc [of ?s costs] n by simp
    then have "sum_list costs - ?L ?s \<le> 2712"
      using nth [of ?s] n by simp
    then have "split_valid costs pc p ?s"
      using v 2 P n by simp
    then show ?thesis
      using n by (intro exI [of _ ?s]) auto
  next
    case 3
    show ?thesis
    proof (cases "?L p + pc \<le> 8144")
      case True
      then have "split_valid costs pc p p"
        using v by simp
      then show ?thesis
        using 3 by (intro exI [of _ p]) auto
    next
      case False
      have "?L p = ?L (p - 1) + costs ! (p - 1)"
        using sum_take_Suc [of "p - 1" costs] 3 by simp
      then have "sum_list costs - ?L (p - 1) + pc \<le> 8144"
        using False nth [of "p - 1"] 3 T P by linarith
      then have "split_valid costs pc p (p - 1)"
        using v 3 by simp
      then show ?thesis
        using 3 by (intro exI [of _ "p - 1"]) auto
    qed
  qed
qed

text \<open>
  Entries as the index makes them: a key of at most \<open>MAX_INDEX_KEY_BYTES\<close> bytes and the trailer.
\<close>

definition entry_sized :: "byte list \<Rightarrow> bool" where
  "entry_sized e \<longleftrightarrow> length e \<le> MAX_INDEX_KEY_BYTES + LEAF_TRAILER_SIZE"

definition level_page :: "byte \<Rightarrow> page \<Rightarrow> bool" where
  "level_page level pg \<longleftrightarrow> (if level = 0 then leaf_page pg else internal_page pg)"

definition level_entry :: "byte \<Rightarrow> byte list \<Rightarrow> bool" where
  "level_entry level e \<longleftrightarrow> (if level = 0 then 10 \<le> length e else 8 \<le> length e) \<and> entry_sized e"

lemma choose_split_slot_Ok:
  assumes pg: "level_page level pg" "\<forall>e \<in> set (entries pg). entry_sized e" "2 \<le> slot_count pg"
    and e: "level_entry level e"
  shows "\<exists>s p. choose_split_slot pg level (Some e) = Ok (of_nat s) \<and> 1 \<le> s \<and> s < slot_count pg \<and>
    entry_lower_bound pg e (level = 0) = Ok p \<and> p \<le> slot_count pg \<and>
    (if p \<le> s then cost (take s (entries pg)) + length e + 4 \<le> BTREE_PAGE_CAPACITY
     else cost (drop s (entries pg)) + length e + 4 \<le> BTREE_PAGE_CAPACITY)"
proof -
  have ok: "btree_page pg"
    using pg(1) by (auto simp: level_page_def leaf_page_def internal_page_def split: if_splits)
  let ?cs = "map (\<lambda>e. length e + 4) (entries pg)"
  obtain p where p: "entry_lower_bound pg e (level = 0) = Ok p" "p \<le> slot_count pg"
    using pg(1) e entry_lower_bound_leaf(2) [of pg e] entry_lower_bound_internal(2) [of pg e]
    by (cases "level = 0") (auto simp: level_page_def level_entry_def)
  have costs: "entry_costs pg 0 (slot_count pg) = Ok ?cs"
    using entry_costs_eq [OF ok, of 0 "slot_count pg"] by simp
  have "\<exists>s. 1 \<le> s \<and> s < length ?cs \<and> split_valid ?cs (length e + 4) p s"
    by (rule split_valid_exists)
      (use pg(2,3) e p(2) used_space [OF ok] in
        \<open>auto simp: entry_sized_def level_entry_def cost_def MAX_INDEX_KEY_BYTES_def trailer_sizes page_sizes
           BTREE_PAGE_CAPACITY_def BTREE_SPECIAL_SIZE_def\<close>)
  then obtain s where "1 \<le> s \<and> s < slot_count pg \<and> split_valid ?cs (length e + 4) p s" "s \<in> set (split_candidates (slot_count pg))"
    using split_candidates_all by auto
  then obtain s where s: "find (\<lambda>s. 1 \<le> s \<and> s < slot_count pg \<and> split_valid ?cs (length e + 4) p s)
      (split_candidates (slot_count pg)) = Some s"
    by (cases "find (\<lambda>s. 1 \<le> s \<and> s < slot_count pg \<and> split_valid ?cs (length e + 4) p s)
      (split_candidates (slot_count pg))") (auto simp: find_None_iff)
  then have v: "1 \<le> s" "s < slot_count pg" "split_valid ?cs (length e + 4) p s"
    by (auto simp: find_Some_iff)
  have "sum_list ?cs - sum_list (take s ?cs) = cost (drop s (entries pg))"
    using cost_take_drop [of s "entries pg"] by (simp add: cost_def take_map)
  then have "if p \<le> s then cost (take s (entries pg)) + length e + 4 \<le> BTREE_PAGE_CAPACITY
     else cost (drop s (entries pg)) + length e + 4 \<le> BTREE_PAGE_CAPACITY"
    using v(3) by (auto simp: split_valid_def Let_def cost_def take_map split: if_splits)
  moreover have "choose_split_slot pg level (Some e) = Ok (of_nat s)"
    using pg(3) costs p s by (simp add: choose_split_slot_def)
  ultimately show ?thesis
    using v p by blast
qed

section \<open>The copy step\<close>

lemma node_nibbles: "nd_level (node_of pg) < 16" "nd_flags (node_of pg) AND 0x0F = nd_flags (node_of pg)"
proof -
  have "unat (drop_bit 8 (get_u16 pg 12) AND 0x0F) \<le> unat (0x0F :: u16)"
    by (metis word_and_le1 word_le_nat_alt)
  then have "drop_bit 8 (get_u16 pg 12) AND 0x0F < (16 :: u16)"
    by (simp add: word_less_nat_alt)
  moreover have "unat (ucast w :: byte) \<le> unat w" for w :: u16
    by (simp add: unsigned_ucast_eq take_bit_nat_less_eq_self)
  ultimately show "nd_level (node_of pg) < 16"
    by (simp add: node_of_def word_less_nat_alt) (meson le_less_trans)
  have "ucast (w AND 15 :: u16) AND 15 = (ucast (w AND 15) :: byte)" for w
    by (rule bit_eqI) (auto simp: mask_4 bit_simps)
  then show "nd_flags (node_of pg) AND 0x0F = nd_flags (node_of pg)"
    by (simp add: node_of_def)
qed

lemma free_space_init: "length pg = 8192 \<Longrightarrow> lv < 16 \<Longrightarrow> free_space (bt_init lv fl pg) = BTREE_PAGE_CAPACITY"
proof -
  assume a: "length pg = 8192" "lv < 16"
  note i = bt_init_facts [OF a, of fl]
  have "slot_count (bt_init lv fl pg) = 0"
    using arg_cong [OF i(3), of nd_entries] by (simp flip: length_entries)
  then show ?thesis
    using btree_pageD(5) [OF i(1)] i(2)
    by (simp add: free_space_def BTREE_PAGE_CAPACITY_def page_sizes BTREE_SPECIAL_SIZE_def)
qed

lemma free_space_cong:
  "btree_page pg \<Longrightarrow> btree_page pg' \<Longrightarrow> hupper pg' = hupper pg \<Longrightarrow> length (entries pg') = length (entries pg) \<Longrightarrow>
   free_space pg' = free_space pg"
  using btree_pageD(5) [of pg] btree_pageD(5) [of pg'] by (simp add: free_space_def)

lemma apply_split_copy_Ok:
  assumes l: "btree_page left" "\<forall>e \<in> set (entries left). e \<noteq> []" and r: "btree_page right"
    and s: "1 \<le> s" "s \<le> slot_count left" and room: "mv \<Longrightarrow> cost (drop s (entries left)) \<le> free_space right"
  shows "\<exists>l' r'. apply_split_copy left right (of_nat s) mv = Ok (l', r') \<and> btree_page l' \<and> btree_page r' \<and>
    node_of l' = node_of left\<lparr> nd_entries := take s (entries left) \<rparr> \<and> page_pd_lsn l' = page_pd_lsn left \<and>
    free_space l' = BTREE_PAGE_CAPACITY - cost (take s (entries left)) \<and>
    node_of r' = node_of right\<lparr> nd_entries := entries right @ (if mv then drop s (entries left) else []) \<rparr> \<and>
    page_pd_lsn r' = page_pd_lsn right \<and>
    free_space r' = free_space right - (if mv then cost (drop s (entries left)) else 0)"
proof -
  note d = btree_pageD [OF l(1)] and n = node_reads [OF l(1)] and nib = node_nibbles [of left]
  let ?N = "node_of left"
  have u: "unat (of_nat s :: u16) = s"
    by (rule slot_u16 [OF l(1) s(2)])
  have col: "collect_entries left 0 (slot_count left) = Ok (entries left)"
    using collect_entries_eq [OF l(1), of 0 "slot_count left"] by simp
  obtain r' where r': "(if mv then add_all (drop s (entries left)) right else Ok right) = Ok r'" "btree_page r'"
    "node_of r' = node_of right\<lparr> nd_entries := entries right @ (if mv then drop s (entries left) else []) \<rparr>"
    "page_pd_lsn r' = page_pd_lsn right"
    "free_space r' = free_space right - (if mv then cost (drop s (entries left)) else 0)"
  proof (cases mv)
    case True
    have "\<forall>e \<in> set (drop s (entries left)). e \<noteq> []"
      using l(2) by (auto dest: in_set_dropD)
    from add_all_Ok [OF r room [OF True] this] show ?thesis
      using that True by auto
  qed (rule that, auto simp: r node_of_def)
  let ?p0 = "bt_init (nd_level ?N) (nd_flags ?N) left"
  note i = bt_init_facts [OF d(2) nib(1), of "nd_flags ?N"] free_space_init [OF d(2) nib(1), of "nd_flags ?N"]
  note p = set_prev_facts [OF i(1), of "nd_prev ?N"]
  let ?p1 = "put_u64 8176 (nd_prev ?N) ?p0"
  note q = set_next_facts [OF p(2), of "nd_next ?N"]
  let ?p2 = "put_u64 8184 (nd_next ?N) ?p1"
  have N2: "node_of ?p2 = ?N\<lparr> nd_entries := [] \<rparr>"
    using i(3) p(3) q(3) nib(2) by simp
  have e2: "entries ?p2 = []"
    using arg_cong [OF N2, of nd_entries] by simp
  have f2: "free_space ?p2 = BTREE_PAGE_CAPACITY"
  proof -
    have "length (entries ?p2) = length (entries ?p0)"
      using e2 arg_cong [OF i(3), of nd_entries] by simp
    then have "free_space ?p2 = free_space ?p0"
      by (intro free_space_cong) (use i(1) q(2,4) p(4) in simp_all)
    then show ?thesis
      using i(5) by simp
  qed
  have "cost (take s (entries left)) \<le> free_space ?p2" "\<forall>e \<in> set (take s (entries left)). e \<noteq> []"
    using used_space [OF l(1)] cost_take_drop [of s "entries left"] f2 l(2) by (auto dest: in_set_takeD)
  from add_all_Ok [OF q(2) this] obtain p3 where p3: "add_all (take s (entries left)) ?p2 = Ok p3" "btree_page p3"
    "free_space p3 = BTREE_PAGE_CAPACITY - cost (take s (entries left))"
    "node_of p3 = ?N\<lparr> nd_entries := take s (entries left) \<rparr>"
    using f2 N2 e2 by auto
  let ?l = "set_page_pd_lsn p3 (page_pd_lsn left)"
  note L = bt_set_lsn_facts [OF p3(2), of "page_pd_lsn left"]
  have "entries ?l = entries p3"
    using arg_cong [OF L(2), of nd_entries] by simp
  then have "free_space ?l = free_space p3"
    by (intro free_space_cong) (use p3(2) L in simp_all)
  moreover have "apply_split_copy left right (of_nat s) mv = Ok (?l, r')"
    using s u col r'(1) n p(1) q(1) p3(1) by (simp add: apply_split_copy_def)
  ultimately show ?thesis
    using L p3 r' by auto
qed

section \<open>Properties of a node\<close>

text \<open>
  C14: a split always makes room.  On a page of at least two entries of admissible size, the
  split point exists, the copy succeeds, the entries are those of the page in order, both
  halves keep an entry, and the half the pending entry sorts into has room for it.
\<close>

theorem split_makes_room:
  assumes "level_page level pg" "\<forall>x \<in> set (entries pg). entry_sized x" "2 \<le> slot_count pg" "level < 16"
    and "level_entry level e" "length r = 8192" "init_right_page left nxt level r = Ok right"
  shows "\<exists>s p l' r'. choose_split_slot pg level (Some e) = Ok s \<and> apply_split_copy pg right s True = Ok (l', r') \<and>
    entries l' @ entries r' = entries pg \<and> entries l' \<noteq> [] \<and> entries r' \<noteq> [] \<and>
    entry_lower_bound pg e (level = 0) = Ok p \<and> length e + 4 \<le> free_space (if p \<le> unat s then l' else r')"
proof -
  have pg: "btree_page pg" "\<forall>x \<in> set (entries pg). x \<noteq> []"
    using assms(1) by (auto simp: level_page_def leaf_page_def internal_page_def split: if_splits)
  obtain s p where s: "choose_split_slot pg level (Some e) = Ok (of_nat s)" "1 \<le> s" "s < slot_count pg"
      "entry_lower_bound pg e (level = 0) = Ok p"
      "if p \<le> s then cost (take s (entries pg)) + length e + 4 \<le> BTREE_PAGE_CAPACITY
       else cost (drop s (entries pg)) + length e + 4 \<le> BTREE_PAGE_CAPACITY"
    using choose_split_slot_Ok [OF assms(1-3,5)] by blast
  obtain r' where "init_right_page left nxt level r = Ok r'" "btree_page r'" "hupper r' = 8176"
      "node_of r' = \<lparr> nd_level = level, nd_flags = flags_for_level level AND 0x0F, nd_prev = left, nd_next = nxt, nd_entries = [] \<rparr>"
    using init_right_facts [OF assms(6,4)] by metis
  then have right: "btree_page right" "hupper right = 8176" "entries right = []"
    using assms(7) nd_entries_node_of [of r'] by auto
  then have "slot_count right = 0"
    using length_entries [of right] by simp
  then have free: "free_space right = BTREE_PAGE_CAPACITY"
    using btree_pageD(5) [OF right(1)] right(2)
    by (simp add: free_space_def BTREE_PAGE_CAPACITY_def page_sizes BTREE_SPECIAL_SIZE_def)
  have room: "cost (drop s (entries pg)) \<le> free_space right"
    using used_space [OF pg(1)] cost_take_drop [of s "entries pg"] free by simp
  from apply_split_copy_Ok [OF pg right(1) s(2) less_imp_le [OF s(3)], of True] room obtain l' r' where
    c: "apply_split_copy pg right (of_nat s) True = Ok (l', r')"
      "node_of l' = node_of pg\<lparr> nd_entries := take s (entries pg) \<rparr>" "free_space l' = BTREE_PAGE_CAPACITY - cost (take s (entries pg))"
      "node_of r' = node_of right\<lparr> nd_entries := entries right @ drop s (entries pg) \<rparr>"
      "free_space r' = free_space right - cost (drop s (entries pg))"
    by auto
  have e: "entries l' = take s (entries pg)" "entries r' = drop s (entries pg)"
    using arg_cong [OF c(2), of nd_entries] arg_cong [OF c(4), of nd_entries] right(3) by simp_all
  have u: "unat (of_nat s :: u16) = s"
    by (rule slot_u16 [OF pg(1)]) (use s in simp)
  have "length e + 4 \<le> free_space (if p \<le> s then l' else r')"
    using s(5) c(3,5) free by (auto split: if_splits)
  moreover have "entries l' \<noteq> []" "entries r' \<noteq> []"
    using e s(2,3) by (auto simp flip: length_greater_0_conv)
  ultimately show ?thesis
    using s(1,4) c(1) e u by (intro exI [of _ "of_nat s"] exI [of _ p] exI [of _ l'] exI [of _ r']) simp
qed

definition demo_tid :: tid where "demo_tid = \<lparr> tid_page_id = 5, tid_slot_id = 2 \<rparr>"

definition demo_leaf1 :: page where
  "demo_leaf1 = inserted 0 (encode_leaf_entry [7] demo_tid) demo_leaf"

lemma demo_leaf_facts:
  "btree_page demo_leaf" "hupper demo_leaf = 8176" "entries demo_leaf = []" "slot_count demo_leaf = 0"
  "node_of demo_leaf = \<lparr> nd_level = 0, nd_flags = 1, nd_prev = 0, nd_next = 0, nd_entries = [] \<rparr>"
proof -
  note i = bt_init_facts [of "replicate 8192 0" 0 BTREE_FLAG_LEAF, folded demo_leaf_def]
  show "btree_page demo_leaf" "hupper demo_leaf = 8176"
    "node_of demo_leaf = \<lparr> nd_level = 0, nd_flags = 1, nd_prev = 0, nd_next = 0, nd_entries = [] \<rparr>"
    using i by (simp_all add: BTREE_FLAG_LEAF_def)
  show e: "entries demo_leaf = []"
    using arg_cong [OF i(3), of nd_entries] by simp
  show "slot_count demo_leaf = 0"
    using arg_cong [OF e, of length] by simp
qed

lemma demo_leaf1_facts:
  "leaf_page demo_leaf1" "leaf_items demo_leaf1 = [([7], demo_tid)]" "slot_count demo_leaf1 = 1"
  "node_of demo_leaf1 = \<lparr> nd_level = 0, nd_flags = 1, nd_prev = 0, nd_next = 0,
     nd_entries = [encode_leaf_entry [7] demo_tid] \<rparr>" "hupper demo_leaf1 = 8165"
proof -
  note d = demo_leaf_facts
  have "hlower demo_leaf = 32"
    using btree_pageD(5) [OF d(1)] d(4) by simp
  then have f: "0 \<le> slot_count demo_leaf" "encode_leaf_entry [7] demo_tid \<noteq> []"
    "hlower demo_leaf + length (encode_leaf_entry [7] demo_tid) + 4 \<le> hupper demo_leaf"
    using d by (auto simp: encode_leaf_entry_def)
  note i = inserted_facts [OF d(1) f, folded demo_leaf1_def]
  have e: "entries demo_leaf1 = [encode_leaf_entry [7] demo_tid]"
    using i(5) d(3) by simp
  show "leaf_page demo_leaf1" "leaf_items demo_leaf1 = [([7], demo_tid)]" "slot_count demo_leaf1 = 1"
    using i(1,2) e d(4) by (simp_all add: leaf_page_def leaf_items_def)
  show "hupper demo_leaf1 = 8165"
    using i(3) d(2) by simp
  show "node_of demo_leaf1 = \<lparr> nd_level = 0, nd_flags = 1, nd_prev = 0, nd_next = 0,
     nd_entries = [encode_leaf_entry [7] demo_tid] \<rparr>"
    using same_frame_node [OF i(4)] e d(5) by simp
qed

definition demo_leaf2 :: page where
  "demo_leaf2 = inserted 1 (encode_leaf_entry [8] demo_tid) demo_leaf1"

lemma demo_leaf2_facts:
  "leaf_page demo_leaf2" "leaf_items demo_leaf2 = [([7], demo_tid), ([8], demo_tid)]" "slot_count demo_leaf2 = 2"
  "\<forall>x \<in> set (entries demo_leaf2). entry_sized x"
proof -
  note d = demo_leaf1_facts
  have b: "btree_page demo_leaf1"
    using d(1) by (simp add: leaf_page_def)
  have e1: "entries demo_leaf1 = [encode_leaf_entry [7] demo_tid]"
    using arg_cong [OF d(4), of nd_entries] by simp
  have f: "1 \<le> slot_count demo_leaf1" "encode_leaf_entry [8] demo_tid \<noteq> []"
    "hlower demo_leaf1 + length (encode_leaf_entry [8] demo_tid) + 4 \<le> hupper demo_leaf1"
    using d(3,5) btree_pageD(5) [OF b] by (auto simp: encode_leaf_entry_def)
  note i = inserted_facts [OF b f, folded demo_leaf2_def]
  have e: "entries demo_leaf2 = [encode_leaf_entry [7] demo_tid, encode_leaf_entry [8] demo_tid]"
    using i(5) e1 by simp
  show "leaf_page demo_leaf2" "leaf_items demo_leaf2 = [([7], demo_tid), ([8], demo_tid)]" "slot_count demo_leaf2 = 2"
    "\<forall>x \<in> set (entries demo_leaf2). entry_sized x"
    using i(1,2) e d(3) by (simp_all add: leaf_page_def leaf_items_def entry_sized_def MAX_INDEX_KEY_BYTES_def page_sizes trailer_sizes)
qed

theorem split_makes_room_witness:
  "level_page 0 demo_leaf2 \<and> (\<exists>s. choose_split_slot demo_leaf2 0 (Some (encode_leaf_entry [9] demo_tid)) = Ok s)"
proof -
  obtain r where r: "init_right_page 1 0 0 (replicate 8192 0) = Ok r"
    using init_right_facts [of "replicate 8192 0" 0 1 0] by auto
  show ?thesis
    using split_makes_room [OF _ demo_leaf2_facts(4) _ _ _ _ r, of "encode_leaf_entry [9] demo_tid"] demo_leaf2_facts
    by (auto simp: level_page_def level_entry_def entry_sized_def MAX_INDEX_KEY_BYTES_def page_sizes trailer_sizes)
qed

text \<open>
  the slot of a new entry.  On a leaf in strict order, the search for the slot reports a
  duplicate exactly when the entry is present, and otherwise the slot at which the entry
  keeps the leaf in strict order.
\<close>

theorem leaf_insert_slot_correct:
  assumes "leaf_page pg" "sorted_wrt (<) (leaf_items pg)"
  shows "case leaf_insert_slot pg key t of
      Inl e \<Rightarrow> e = DuplicateKey \<and> (key, t) \<in> set (leaf_items pg)
    | Inr slot \<Rightarrow> unat slot \<le> slot_count pg \<and>
        sorted_wrt (<) (take (unat slot) (leaf_items pg) @ (key, t) # drop (unat slot) (leaf_items pg))"
proof (cases "(key, t) \<in> set (leaf_items pg)")
  case True
  then show ?thesis
    using leaf_insert_slot_eq [OF assms(1) strict_sorted_imp_sorted [OF assms(2)], of key t] by simp
next
  case False
  let ?xs = "leaf_items pg" and ?e = "(key, t)"
  define p where "p = length (takeWhile (\<lambda>x. x < ?e) ?xs)"
  note t = takeWhile_sorted [OF strict_sorted_imp_sorted [OF assms(2)], where x = ?e, folded p_def]
  have eq: "leaf_insert_slot pg key t = Ok (of_nat p)"
    using leaf_insert_slot_eq [OF assms(1) strict_sorted_imp_sorted [OF assms(2)], of key t] False by (simp add: p_def)
  have u: "unat (of_nat p :: u16) = p"
    using t(1) assms(1) by (intro slot_u16 [of pg]) (simp_all add: leaf_page_def)
  have hi: "?e < y" if "y \<in> set (drop p ?xs)" for y
  proof (rule le_neq_trans)
    show "?e \<le> y"
      using that by (rule t(3))
    show "?e \<noteq> y"
      using False that by (auto dest: in_set_dropD)
  qed
  have ts: "sorted_wrt (<) (take p ?xs)" "sorted_wrt (<) (drop p ?xs)" "\<forall>x \<in> set (take p ?xs). \<forall>y \<in> set (drop p ?xs). x < y"
    using assms(2) sorted_wrt_append [of "(<)" "take p ?xs" "drop p ?xs"] by simp_all
  then have "sorted_wrt (<) (take p ?xs @ ?e # drop p ?xs)"
    unfolding sorted_wrt_append sorted_wrt.simps using t(2) hi by simp
  then show ?thesis
    using eq u t(1) by simp
qed

theorem leaf_insert_slot_correct_witness:
  "leaf_page demo_leaf2 \<and> sorted_wrt (<) (leaf_items demo_leaf2) \<and> leaf_insert_slot demo_leaf2 [7] demo_tid = Err DuplicateKey"
proof -
  have s: "sorted_wrt (<) (leaf_items demo_leaf2)"
    by (simp add: demo_leaf2_facts less_prod_def)
  show ?thesis
    using leaf_insert_slot_correct [OF demo_leaf2_facts(1) s, of "[7]" demo_tid] demo_leaf2_facts s
      leaf_insert_slot_eq [OF demo_leaf2_facts(1) strict_sorted_imp_sorted [OF s], of "[7]" demo_tid] by simp
qed

end
