(* ===== verification/Btree_Index.thy ===== *)
theory Btree_Index
  imports Btree_Node Page_Allocator
begin

text \<open>
  The index over its pages (\<^verbatim>\<open>pg-am-btree/src/index.rs\<close>): descent and walks along the sibling
  chains, lookups and scans, insertion with its optimistic and pessimistic passes, the three
  steps of a split, and deletion.

  The operations run one at a time on the pages the buffer pool serves (which are those of a
  plain store); the latches the source takes on the way have no counterpart.  The WAL and the
  page allocator are those of the storage layer.  Which page accesses fail and when the pool
  logs an image of a page before a change are parameters.
\<close>

section \<open>State and environment\<close>

text \<open>The pages, the allocator with the WAL, and the fields of the handle.\<close>

record 'w bt_store =
  bt_pages :: "page_id \<Rightarrow> page option"
  bt_alloc :: "'w allocator"
  meta_page :: page_id
  root_page :: page_id
  tree_level :: byte
  key_type :: column_type

record 'w bt_env =
  be_bincode :: bincode
  be_ops :: "'w wal_ops"
  be_ext :: "u64 \<Rightarrow> bool"
  be_fail :: "page_id \<Rightarrow> 'w bt_store \<Rightarrow> storage_error option"  \<comment> \<open>a pin of the page fails\<close>
  be_due :: "page_id \<Rightarrow> 'w bt_store \<Rightarrow> bool"  \<comment> \<open>the pool logs an image of the page before the next change\<close>
  be_flush :: "page_id \<Rightarrow> 'w bt_store \<Rightarrow> storage_error option"  \<comment> \<open>a flush of the page fails\<close>

type_synonym ('w, 'a) bt = "'w bt_store \<Rightarrow> (btree_error + 'a) \<times> 'w bt_store"

definition bt_return :: "'a \<Rightarrow> ('w, 'a) bt" where "bt_return a s = (Ok a, s)"
definition bt_lift :: "btree_error + 'a \<Rightarrow> ('w, 'a) bt" where "bt_lift r s = (r, s)"
definition bt_get :: "('w bt_store \<Rightarrow> btree_error + 'a) \<Rightarrow> ('w, 'a) bt" where "bt_get f s = (f s, s)"
definition bt_then :: "('w, 'a) bt \<Rightarrow> ('a \<Rightarrow> ('w, 'b) bt) \<Rightarrow> ('w, 'b) bt" where
  "bt_then m f s = (case m s of (Inl e, s) \<Rightarrow> (Err e, s) | (Inr a, s) \<Rightarrow> f a s)"

text \<open>The bytes of a page some guard holds.\<close>

definition guarded :: "'w bt_store \<Rightarrow> page_id \<Rightarrow> page" where
  "guarded s pid = (case bt_pages s pid of Some pg \<Rightarrow> pg | None \<Rightarrow> [])"

definition put_page :: "page_id \<Rightarrow> page \<Rightarrow> ('w, unit) bt" where
  "put_page pid pg s = (Ok (), s\<lparr> bt_pages := (bt_pages s)(pid \<mapsto> pg) \<rparr>)"

definition bt_pin :: "'w bt_env \<Rightarrow> 'w bt_store \<Rightarrow> page_id \<Rightarrow> btree_error + page" where
  "bt_pin E s pid =
    (if pid = 0 then Err (BtStorage InvalidConfig)
     else case be_fail E pid s of
       Some e \<Rightarrow> Err (BtStorage e)
     | None \<Rightarrow> (case bt_pages s pid of Some pg \<Rightarrow> Ok pg | None \<Rightarrow> Err (BtStorage Io)))"

definition bt_append :: "'w bt_env \<Rightarrow> storage_error + wal_record \<Rightarrow> ('w, lsn) bt" where
  "bt_append E rec s =
    (case rec of
       Inl e \<Rightarrow> (Err (BtStorage e), s)
     | Inr r \<Rightarrow>
         (case wo_append (be_ops E) (al_wal (bt_alloc s)) r of
            (Inl e, w) \<Rightarrow> (Err (BtStorage e), s\<lparr> bt_alloc := (bt_alloc s)\<lparr> al_wal := w \<rparr> \<rparr>)
          | (Inr n, w) \<Rightarrow> (Ok (of_nat n), s\<lparr> bt_alloc := (bt_alloc s)\<lparr> al_wal := w \<rparr> \<rparr>)))"

definition bt_ensure_fpi :: "'w bt_env \<Rightarrow> page_id \<Rightarrow> ('w, unit) bt" where
  "bt_ensure_fpi E pid s =
    (if be_due E pid s
     then bt_then (bt_append E (full_page_image (be_bincode E) pid (guarded s pid))) (\<lambda>l s.
       put_page pid (set_page_pd_lsn (guarded s pid) l) s) s
     else (Ok (), s))"

definition bt_pin_mut :: "'w bt_env \<Rightarrow> page_id \<Rightarrow> ('w, page) bt" where
  "bt_pin_mut E pid = bt_then (bt_get (\<lambda>s. bt_pin E s pid)) (\<lambda>_.
    bt_then (bt_ensure_fpi E pid) (\<lambda>_. bt_get (\<lambda>s. Ok (guarded s pid))))"

text \<open>\<open>new_page\<close>: a page number from the allocator, zero-filled.\<close>

definition bt_new_page :: "'w bt_env \<Rightarrow> ('w, page_id) bt" where
  "bt_new_page E s =
    (case alloc_page (be_bincode E) (be_ops E) (be_ext E) (bt_alloc s) of
       (Inl e, a) \<Rightarrow> (Err (BtStorage e), s\<lparr> bt_alloc := a \<rparr>)
     | (Inr pid, a) \<Rightarrow>
         let s = s\<lparr> bt_alloc := a \<rparr> in
         (case be_fail E pid s of
            Some e \<Rightarrow> (Err (BtStorage e), s)
          | None \<Rightarrow> bt_then (put_page pid (replicate PAGE_SIZE 0)) (\<lambda>_. bt_return pid) s))"

definition bt_stamp :: "page \<Rightarrow> lsn \<Rightarrow> page" where
  "bt_stamp pg l = set_page_pd_lsn pg (max l (page_pd_lsn pg))"

section \<open>The meta page\<close>

definition root_from_meta :: "'w bt_env \<Rightarrow> 'w bt_store \<Rightarrow> page_id \<Rightarrow> btree_error + page_id \<times> byte" where
  "root_from_meta E s meta =
    try_then (bt_pin E s meta) (\<lambda>pg.
      let count = slot_count pg in
      if count = 0 then Err BtCorrupted
      else try_then (of_heap (tuple_at pg (of_nat (count - 1)))) (\<lambda>r.
        case r of None \<Rightarrow> Err BtCorrupted | Some bs \<Rightarrow>
          try_then (decode_meta_record bs) (\<lambda>(root, level).
            if level > 0x0F then Err BtCorrupted else Ok (root, ucast level))))"

definition refresh_root_from_meta :: "'w bt_env \<Rightarrow> ('w, page_id) bt" where
  "refresh_root_from_meta E s =
    (case root_from_meta E s (meta_page s) of
       Inl e \<Rightarrow> (Err e, s)
     | Inr (root, level) \<Rightarrow> (Ok root, s\<lparr> root_page := root, tree_level := level \<rparr>))"

definition log_page_init :: "'w bt_env \<Rightarrow> page_id \<Rightarrow> ('w, unit) bt" where
  "log_page_init E pid s =
    bt_then (bt_append E (full_page_image (be_bincode E) pid (guarded s pid))) (\<lambda>l s.
      put_page pid (bt_stamp (guarded s pid) l) s) s"

definition write_meta_record :: "'w bt_env \<Rightarrow> ('w, unit) bt" where
  "write_meta_record E s =
    bt_then (bt_pin_mut E (meta_page s)) (\<lambda>pg s.
      let slot = of_nat (slot_count pg); bs = encode_meta_record (root_page s) (ucast (tree_level s)) in
      bt_then (bt_append E (btree_insert (be_bincode E) (meta_page s) slot 0 0 bs)) (\<lambda>l.
      bt_then (bt_lift (insert_entry_at slot bs pg)) (\<lambda>pg.
      put_page (meta_page s) (bt_stamp pg l))) s) s"

definition create_index :: "'w bt_env \<Rightarrow> column_type \<Rightarrow> ('w, unit) bt" where
  "create_index E col =
    (if \<not> is_supported_key_type col then bt_lift (Err BtInvalidArgument)
     else
       bt_then (bt_new_page E) (\<lambda>meta.
       bt_then (\<lambda>s. put_page meta (bt_init 0 0 (guarded s meta)) s) (\<lambda>_.
       bt_then (log_page_init E meta) (\<lambda>_.
       bt_then (bt_new_page E) (\<lambda>root.
       bt_then (\<lambda>s. put_page root (bt_init 0 (BTREE_FLAG_LEAF OR BTREE_FLAG_ROOT) (guarded s root)) s) (\<lambda>_.
       bt_then (log_page_init E root) (\<lambda>_ s.
       write_meta_record E (s\<lparr> meta_page := meta, root_page := root, tree_level := 0, key_type := col \<rparr>))))))))"

definition open_index :: "'w bt_env \<Rightarrow> page_id \<Rightarrow> column_type \<Rightarrow> ('w, unit) bt" where
  "open_index E meta col s =
    (case root_from_meta E s meta of
       Inl e \<Rightarrow> (Err e, s)
     | Inr (root, level) \<Rightarrow>
         (Ok (), s\<lparr> meta_page := meta, root_page := root, tree_level := level, key_type := col \<rparr>))"

section \<open>Walks along a level\<close>

definition MAX_CHAIN_HOPS :: nat where "MAX_CHAIN_HOPS = 65536"
definition MAX_INSERT_RESTARTS :: nat where "MAX_INSERT_RESTARTS = 256"

lemma try_then_cong [fundef_cong]:
  "r = r' \<Longrightarrow> (\<And>a. r' = Inr a \<Longrightarrow> f a = g a) \<Longrightarrow> try_then r f = try_then r' g"
  by (cases r') auto

text \<open>The first entry of a page against the probe, by level.\<close>

definition first_above :: "byte \<Rightarrow> page \<Rightarrow> byte list \<Rightarrow> tid \<Rightarrow> btree_error + bool" where
  "first_above level pg key t =
    (if slot_count pg = 0 then Ok False
     else if level = 0 then try_then (leaf_entry_at pg 0) (\<lambda>x. Ok (x > (key, t)))
     else try_then (internal_entry_at pg 0) (\<lambda>x. Ok (fst x > key)))"

definition owns_probe :: "byte \<Rightarrow> page \<Rightarrow> byte list \<Rightarrow> tid \<Rightarrow> btree_error + bool" where
  "owns_probe level pg key t =
    (if level = 0 then try_then (leaf_entry_at pg 0) (\<lambda>x. Ok (x \<le> (key, t)))
     else try_then (first_entry_key pg) (\<lambda>fk. case fk of
         None \<Rightarrow> Err (BtHeap HeapPanic)
       | Some fk \<Rightarrow> Ok (fk \<noteq> [] \<and> fk \<le> key)))"

text \<open>The next non-empty sibling from \<open>nxt\<close> on, if the probe belongs to it; empty pages are skipped.\<close>

function right_target ::
  "'w bt_env \<Rightarrow> 'w bt_store \<Rightarrow> byte \<Rightarrow> byte list \<Rightarrow> tid \<Rightarrow> page_id \<Rightarrow> nat \<Rightarrow> btree_error + page_id option \<times> nat" where
  "right_target E s level key t nxt hops =
    (if nxt = 0 then Ok (None, hops)
     else try_then (bt_pin E s nxt) (\<lambda>pg.
       if slot_count pg = 0 then
         try_then (bt_next pg) (\<lambda>n2.
           if hops + 1 > MAX_CHAIN_HOPS then Err BtCorrupted else right_target E s level key t n2 (hops + 1))
       else try_then (owns_probe level pg key t) (\<lambda>own. Ok (if own then Some nxt else None, hops))))"
  by auto
termination
  by (relation "measure (\<lambda>(E, s, level, key, t, nxt, hops). MAX_CHAIN_HOPS - hops)") auto

declare right_target.simps [simp del]

text \<open>The last non-empty page between the \<open>prev\<close> hint of a page and the page.\<close>

function left_scan ::
  "'w bt_env \<Rightarrow> 'w bt_store \<Rightarrow> page_id \<Rightarrow> page_id \<Rightarrow> page_id option \<Rightarrow> nat \<Rightarrow> btree_error + page_id option" where
  "left_scan E s target cur found hops =
    (let pg = guarded s cur in
     try_then (bt_next pg) (\<lambda>nxt.
       let found = (if slot_count pg > 0 then Some cur else found) in
       if nxt = target then Ok found
       else if nxt = 0 then Err BtCorrupted
       else try_then (bt_pin E s nxt) (\<lambda>_.
         if hops + 1 > MAX_CHAIN_HOPS then Err BtCorrupted else left_scan E s target nxt found (hops + 1))))"
  by auto
termination
  by (relation "measure (\<lambda>(E, s, target, cur, found, hops). MAX_CHAIN_HOPS - hops)") auto

declare left_scan.simps [simp del]

definition nearest_nonempty_left :: "'w bt_env \<Rightarrow> 'w bt_store \<Rightarrow> page_id \<Rightarrow> btree_error + page_id option" where
  "nearest_nonempty_left E s pid =
    try_then (bt_pin E s pid) (\<lambda>pg.
    try_then (bt_prev pg) (\<lambda>start.
      if start = 0 then Ok None
      else try_then (bt_pin E s start) (\<lambda>_. left_scan E s pid start None 0)))"

definition last_above :: "page \<Rightarrow> byte list \<Rightarrow> tid \<Rightarrow> btree_error + bool" where
  "last_above pg key t = try_then (leaf_entry_at pg (of_nat (slot_count pg) - 1)) (\<lambda>x. Ok (x > (key, t)))"

text \<open>
  One step to the left.  The result is the page, whether the walk moved, the hops so far and
  the page whose left neighbour was already examined.
\<close>

definition left_step ::
  "'w bt_env \<Rightarrow> 'w bt_store \<Rightarrow> bool \<Rightarrow> byte \<Rightarrow> byte list \<Rightarrow> tid \<Rightarrow> page_id \<Rightarrow> nat \<Rightarrow> page_id \<Rightarrow>
   btree_error + page_id \<times> bool \<times> nat \<times> page_id" where
  "left_step E s position_for_insert level key t cur hops verified =
    (let pg = guarded s cur in
     if level = 0 then
       try_then (first_above 0 pg key t) (\<lambda>above.
       try_then (bt_prev pg) (\<lambda>prev.
         if position_for_insert then
           (if (slot_count pg = 0 \<or> above) \<and> prev \<noteq> 0 \<and> verified \<noteq> cur then
              try_then (nearest_nonempty_left E s cur) (\<lambda>left.
                case left of
                  Some walk \<Rightarrow>
                    try_then (bt_pin E s walk) (\<lambda>lpg.
                    try_then (last_above lpg key t) (\<lambda>go_left.
                      if go_left then try_then (bt_pin E s walk) (\<lambda>_. Ok (walk, True, hops + 2, verified))
                      else try_then (bt_pin E s cur) (\<lambda>_. Ok (cur, True, hops + 2, cur))))
                | None \<Rightarrow> try_then (bt_pin E s cur) (\<lambda>_. Ok (cur, True, hops + 1, cur)))
            else Ok (cur, False, hops, verified))
         else
           (if (slot_count pg = 0 \<or> above) \<and> prev \<noteq> 0
            then try_then (bt_pin E s prev) (\<lambda>_. Ok (prev, True, hops + 1, verified))
            else Ok (cur, False, hops, verified))))
     else
       try_then (first_above level pg key t) (\<lambda>above.
         if above then try_then (bt_prev pg) (\<lambda>prev.
           if prev \<noteq> 0 then try_then (bt_pin E s prev) (\<lambda>_. Ok (prev, True, hops + 1, verified))
           else Ok (cur, False, hops, verified))
         else Ok (cur, False, hops, verified)))"

lemma left_step_hops:
  assumes "left_step E s ins level key t cur hops verified = Ok (cur', moved, hops', verified')"
  shows "hops \<le> hops' \<and> (moved \<longrightarrow> hops < hops') \<and> (\<not> moved \<longrightarrow> hops' = hops \<and> cur' = cur \<and> verified' = verified)"
  using assms unfolding left_step_def Let_def
  by (cases "level = 0"; cases ins) (auto simp: try_then_Ok_iff split: if_split_asm option.split_asm)

lemma right_target_hops: "right_target E s level key t nxt hops = Ok (r, hops') \<Longrightarrow> hops \<le> hops'"
proof (induction E s level key t nxt hops rule: right_target.induct)
  case (1 E s level key t nxt hops)
  consider "nxt = 0" | pg where "nxt \<noteq> 0" "bt_pin E s nxt = Ok pg" "slot_count pg \<noteq> 0"
    | pg n2 where "nxt \<noteq> 0" "bt_pin E s nxt = Ok pg" "slot_count pg = 0" "bt_next pg = Ok n2" "\<not> hops + 1 > MAX_CHAIN_HOPS"
        "right_target E s level key t n2 (hops + 1) = Ok (r, hops')"
    using "1.prems" by (subst (asm) right_target.simps) (auto simp: try_then_Ok_iff split: if_splits)
  then show ?case
  proof cases
    case 3
    then have "hops + 1 \<le> hops'"
      by (rule "1.IH")
    then show ?thesis
      by simp
  qed (use "1.prems" in \<open>subst (asm) right_target.simps, auto simp: try_then_Ok_iff\<close>)+
qed

function walk_to_position ::
  "'w bt_env \<Rightarrow> 'w bt_store \<Rightarrow> bool \<Rightarrow> byte \<Rightarrow> byte list \<Rightarrow> tid \<Rightarrow> page_id \<Rightarrow> nat \<Rightarrow> page_id \<Rightarrow> bool \<Rightarrow>
   btree_error + page_id \<times> bool" where
  "walk_to_position E s ins level key t cur hops verified hopped =
    try_then (left_step E s ins level key t cur hops verified) (\<lambda>(cur, moved, hops, verified).
    try_then (bt_next (guarded s cur)) (\<lambda>nxt.
    try_then (right_target E s level key t nxt hops) (\<lambda>(target, hops).
      case target of
        Some r \<Rightarrow> if hops + 1 > MAX_CHAIN_HOPS then Err BtCorrupted
          else walk_to_position E s ins level key t r (hops + 1) verified True
      | None \<Rightarrow>
          if \<not> moved then Ok (cur, hopped)
          else if hops > MAX_CHAIN_HOPS then Err BtCorrupted
          else walk_to_position E s ins level key t cur hops verified hopped)))"
  by pat_completeness auto
termination
  by (relation "measure (\<lambda>(E, s, ins, level, key, t, cur, hops, verified, hopped). MAX_CHAIN_HOPS + 1 - hops)")
    (auto dest!: left_step_hops right_target_hops)

declare walk_to_position.simps [simp del]

section \<open>Descent and reads\<close>

text \<open>
  The descent.  A tree has at most sixteen levels, so a descent through more pages has left
  the tree; the source would go on.
\<close>

definition DESCENT_FUEL :: nat where "DESCENT_FUEL = 16"

fun descend ::
  "'w bt_env \<Rightarrow> 'w bt_store \<Rightarrow> bool \<Rightarrow> byte list \<Rightarrow> tid \<Rightarrow> nat \<Rightarrow> page_id \<Rightarrow> page_id list \<Rightarrow> bool \<Rightarrow>
   btree_error + page_id \<times> page_id list \<times> bool" where
  "descend E s ins key t 0 cur path hopped = Err BtDiverges"
| "descend E s ins key t (Suc fuel) cur path hopped =
    try_then (bt_level (guarded s cur)) (\<lambda>level.
    try_then (walk_to_position E s ins level key t cur 0 0 hopped) (\<lambda>(cur, hopped).
      if level = 0 then Ok (cur, path, hopped)
      else try_then (find_child (guarded s cur) key) (\<lambda>child.
        try_then (bt_pin E s child) (\<lambda>_.
        descend E s ins key t fuel child (path @ [cur]) hopped))))"

definition descend_to_leaf_from ::
  "'w bt_env \<Rightarrow> 'w bt_store \<Rightarrow> page_id \<Rightarrow> byte list \<Rightarrow> tid \<Rightarrow> bool \<Rightarrow> btree_error + page_id \<times> page_id list \<times> bool" where
  "descend_to_leaf_from E s root key t ins =
    try_then (bt_pin E s root) (\<lambda>_. descend E s ins key t DESCENT_FUEL root [] False)"

definition descend_to_leaf where "descend_to_leaf E s key t = descend_to_leaf_from E s (root_page s) key t False"
definition descend_to_leaf_for_insert where
  "descend_to_leaf_for_insert E s key t = descend_to_leaf_from E s (root_page s) key t True"

definition INVALID_TID :: tid where "INVALID_TID = \<lparr> tid_page_id = 0, tid_slot_id = 0 \<rparr>"

text \<open>
  The loop the three reads share.  \<open>visit\<close> looks at one entry: \<open>Some out\<close> ends the read with
  \<open>out\<close>, \<open>None\<close> goes on; \<open>collect\<close> is the result so far.
\<close>

fun scan_page ::
  "page \<Rightarrow> (byte list \<times> tid \<Rightarrow> 'a \<Rightarrow> 'a \<times> bool) \<Rightarrow> nat \<Rightarrow> nat \<Rightarrow> 'a \<Rightarrow> btree_error + 'a \<times> bool" where
  "scan_page pg visit slot 0 out = Ok (out, False)"
| "scan_page pg visit slot (Suc n) out =
    try_then (leaf_entry_at pg (of_nat slot)) (\<lambda>x.
      case visit x out of (out, stop) \<Rightarrow> if stop then Ok (out, True) else scan_page pg visit (Suc slot) n out)"

function scan_chain ::
  "'w bt_env \<Rightarrow> 'w bt_store \<Rightarrow> (byte list \<times> tid \<Rightarrow> 'a \<Rightarrow> 'a \<times> bool) \<Rightarrow> page_id \<Rightarrow> nat \<Rightarrow> nat \<Rightarrow> 'a \<Rightarrow> btree_error + 'a" where
  "scan_chain E s visit cur slot hops out =
    (let pg = guarded s cur in
     try_then (scan_page pg visit slot (slot_count pg - slot) out) (\<lambda>(out, stop).
       if stop then Ok out
       else try_then (bt_next pg) (\<lambda>nxt.
         if nxt = 0 then Ok out
         else try_then (bt_pin E s nxt) (\<lambda>_.
           if hops + 1 > MAX_CHAIN_HOPS then Err BtCorrupted else scan_chain E s visit nxt 0 (hops + 1) out))))"
  by pat_completeness auto
termination
  by (relation "measure (\<lambda>(E, s, visit, cur, slot, hops, out). MAX_CHAIN_HOPS - hops)") auto

declare scan_chain.simps [simp del]

definition lookup :: "'w bt_env \<Rightarrow> 'w bt_store \<Rightarrow> byte list \<Rightarrow> btree_error + tid option" where
  "lookup E s key =
    try_then (descend_to_leaf E s key INVALID_TID) (\<lambda>(leaf, _, _).
    try_then (leaf_lower_bound (guarded s leaf) key INVALID_TID) (\<lambda>slot.
    scan_chain E s (\<lambda>(k, t) out. (if k = key then Some t else None, True)) leaf slot 0 None))"

definition lookup_all :: "'w bt_env \<Rightarrow> 'w bt_store \<Rightarrow> byte list \<Rightarrow> btree_error + tid list" where
  "lookup_all E s key =
    try_then (descend_to_leaf E s key INVALID_TID) (\<lambda>(leaf, _, _).
    try_then (leaf_lower_bound (guarded s leaf) key INVALID_TID) (\<lambda>slot.
    scan_chain E s (\<lambda>(k, t) out. if k \<noteq> key then (out, True) else (out @ [t], False)) leaf slot 0 []))"

definition range_scan ::
  "'w bt_env \<Rightarrow> 'w bt_store \<Rightarrow> byte list option \<Rightarrow> byte list option \<Rightarrow> btree_error + (byte list \<times> tid) list" where
  "range_scan E s start end_key =
    try_then (descend_to_leaf E s (case start of Some k \<Rightarrow> k | None \<Rightarrow> []) INVALID_TID) (\<lambda>(leaf, _, _).
    try_then (case start of Some k \<Rightarrow> leaf_lower_bound (guarded s leaf) k INVALID_TID | None \<Rightarrow> Ok 0) (\<lambda>slot.
    scan_chain E s (\<lambda>x out. case end_key of
        Some e \<Rightarrow> if fst x \<ge> e then (out, True) else (out @ [x], False)
      | None \<Rightarrow> (out @ [x], False)) leaf slot 0 []))"

end
