(* ===== verification/Btree_Read.thy ===== *)
theory Btree_Read
  imports Btree_Index
begin

text \<open>
  Reads of the index: on a well-formed tree every walk ends at the page that owns the probe,
  and lookups and scans return exactly the entries of the leaf chain in their range.
\<close>

section \<open>Chains\<close>

definition node_at :: "'w bt_store \<Rightarrow> page_id \<Rightarrow> node" where
  "node_at s pid = node_of (guarded s pid)"

definition items_at :: "'w bt_store \<Rightarrow> page_id \<Rightarrow> (byte list \<times> tid) list" where
  "items_at s pid = leaf_items (guarded s pid)"

definition is_page :: "'w bt_store \<Rightarrow> byte \<Rightarrow> page_id \<Rightarrow> bool" where
  "is_page s level pid \<longleftrightarrow> pid \<noteq> 0 \<and> bt_pages s pid \<noteq> None \<and> level_page level (guarded s pid) \<and>
    nd_level (node_at s pid) = level"

text \<open>
  The pages of one level, left to right.  The forward links are exact; the backward link of
  a page may be stale, but leads to some page left of it.
\<close>

definition chain :: "'w bt_store \<Rightarrow> byte \<Rightarrow> page_id list \<Rightarrow> bool" where
  "chain s level cs \<longleftrightarrow> distinct cs \<and> (\<forall>i < length cs.
    is_page s level (cs ! i) \<and>
    nd_next (node_at s (cs ! i)) = (if i + 1 < length cs then cs ! (i + 1) else 0) \<and>
    (if i = 0 then nd_prev (node_at s (cs ! i)) = 0 else (\<exists>j < i. nd_prev (node_at s (cs ! i)) = cs ! j)))"

definition no_faults :: "'w bt_env \<Rightarrow> bool" where
  "no_faults E \<longleftrightarrow> (\<forall>pid s. be_fail E pid s = None)"

lemma is_pageD:
  assumes "is_page s level pid"
  shows "pid \<noteq> 0" "bt_pages s pid = Some (guarded s pid)" "btree_page (guarded s pid)" "level_page level (guarded s pid)"
    "level = 0 \<Longrightarrow> leaf_page (guarded s pid)" "level \<noteq> 0 \<Longrightarrow> internal_page (guarded s pid)"
    "bt_level (guarded s pid) = Ok level" "bt_prev (guarded s pid) = Ok (nd_prev (node_at s pid))"
    "bt_next (guarded s pid) = Ok (nd_next (node_at s pid))" "bt_flags (guarded s pid) = Ok (nd_flags (node_at s pid))"
    "no_faults E \<Longrightarrow> bt_pin E s pid = Ok (guarded s pid)"
proof -
  show "pid \<noteq> 0" "bt_pages s pid = Some (guarded s pid)" and lp: "level_page level (guarded s pid)"
    and "level = 0 \<Longrightarrow> leaf_page (guarded s pid)" "level \<noteq> 0 \<Longrightarrow> internal_page (guarded s pid)"
    using assms by (auto simp: is_page_def guarded_def level_page_def)
  then show bp: "btree_page (guarded s pid)"
    by (auto simp: level_page_def leaf_page_def internal_page_def split: if_splits)
  show "bt_level (guarded s pid) = Ok level" "bt_prev (guarded s pid) = Ok (nd_prev (node_at s pid))"
    "bt_next (guarded s pid) = Ok (nd_next (node_at s pid))" "bt_flags (guarded s pid) = Ok (nd_flags (node_at s pid))"
    using node_reads [OF bp] assms by (simp_all add: node_at_def is_page_def)
  show "no_faults E \<Longrightarrow> bt_pin E s pid = Ok (guarded s pid)"
    using assms by (auto simp: is_page_def bt_pin_def no_faults_def guarded_def split: option.splits)
qed

lemma chainD:
  assumes "chain s level cs" "i < length cs"
  shows "is_page s level (cs ! i)"
    "nd_next (node_at s (cs ! i)) = (if i + 1 < length cs then cs ! (i + 1) else 0)"
    "i = 0 \<Longrightarrow> nd_prev (node_at s (cs ! i)) = 0"
    "i \<noteq> 0 \<Longrightarrow> \<exists>j < i. nd_prev (node_at s (cs ! i)) = cs ! j"
    "nd_prev (node_at s (cs ! i)) = 0 \<longleftrightarrow> i = 0"
proof -
  have c: "is_page s level (cs ! i) \<and>
    nd_next (node_at s (cs ! i)) = (if i + 1 < length cs then cs ! (i + 1) else 0) \<and>
    (if i = 0 then nd_prev (node_at s (cs ! i)) = 0 else (\<exists>j < i. nd_prev (node_at s (cs ! i)) = cs ! j))"
    if "i < length cs" for i
    using assms(1) that unfolding chain_def by blast
  show "is_page s level (cs ! i)" "nd_next (node_at s (cs ! i)) = (if i + 1 < length cs then cs ! (i + 1) else 0)"
    "i = 0 \<Longrightarrow> nd_prev (node_at s (cs ! i)) = 0" "i \<noteq> 0 \<Longrightarrow> \<exists>j < i. nd_prev (node_at s (cs ! i)) = cs ! j"
    using c [OF assms(2)] by auto
  then show "nd_prev (node_at s (cs ! i)) = 0 \<longleftrightarrow> i = 0"
    using c assms(2) is_pageD(1) by (metis order.strict_trans)
qed

section \<open>Where a walk ends\<close>

definition empty_at :: "'w bt_store \<Rightarrow> page_id \<Rightarrow> bool" where
  "empty_at s pid \<longleftrightarrow> slot_count (guarded s pid) = 0"

text \<open>The two tests of the walk as predicates on pages.\<close>

definition dominated :: "'w bt_store \<Rightarrow> byte \<Rightarrow> byte list \<Rightarrow> tid \<Rightarrow> page_id \<Rightarrow> bool" where
  "dominated s level key t pid \<longleftrightarrow>
    (if level = 0 then empty_at s pid \<or> hd (items_at s pid) > (key, t)
     else \<not> empty_at s pid \<and> fst (hd (internal_items (guarded s pid))) > key)"

definition owned :: "'w bt_store \<Rightarrow> byte \<Rightarrow> byte list \<Rightarrow> tid \<Rightarrow> page_id \<Rightarrow> bool" where
  "owned s level key t pid \<longleftrightarrow> \<not> empty_at s pid \<and>
    (if level = 0 then hd (items_at s pid) \<le> (key, t)
     else fst (hd (internal_items (guarded s pid))) \<noteq> [] \<and> fst (hd (internal_items (guarded s pid))) \<le> key)"

lemma owned_not_dominated: "owned s level key t pid \<Longrightarrow> \<not> dominated s level key t pid"
  by (auto simp: owned_def dominated_def split: if_splits)

lemma hd_items:
  "0 < slot_count pg \<Longrightarrow> leaf_items pg \<noteq> [] \<and> leaf_items pg ! 0 = hd (leaf_items pg)"
  "0 < slot_count pg \<Longrightarrow> internal_items pg \<noteq> [] \<and> internal_items pg ! 0 = hd (internal_items pg)"
  by (metis hd_conv_nth length_items length_greater_0_conv)+

lemma first_above_eq:
  assumes "is_page s level pid"
  shows "first_above level (guarded s pid) key t = Ok (\<not> empty_at s pid \<and> dominated s level key t pid)"
proof (cases "empty_at s pid")
  case False
  note p = is_pageD [OF assms]
  show ?thesis
  proof (cases "level = 0")
    case True
    then have "leaf_entry_at (guarded s pid) 0 = Ok (hd (items_at s pid))"
      using False leaf_entry_at_nth [OF p(5), of 0] hd_items(1) [of "guarded s pid"] by (simp add: empty_at_def items_at_def)
    then show ?thesis
      using False True by (simp add: first_above_def empty_at_def dominated_def)
  next
    case l: False
    then have "internal_entry_at (guarded s pid) 0 = Ok (hd (internal_items (guarded s pid)))"
      using False internal_entry_at_nth [OF p(6), of 0] hd_items(2) [of "guarded s pid"] by (simp add: empty_at_def)
    then show ?thesis
      using False l by (simp add: first_above_def empty_at_def dominated_def)
  qed
qed (simp add: first_above_def empty_at_def)

lemma owns_probe_eq:
  assumes "is_page s level pid" "\<not> empty_at s pid"
  shows "owns_probe level (guarded s pid) key t = Ok (owned s level key t pid)"
proof -
  note p = is_pageD [OF assms(1)]
  show ?thesis
  proof (cases "level = 0")
    case True
    then have "leaf_entry_at (guarded s pid) 0 = Ok (hd (items_at s pid))"
      using assms(2) leaf_entry_at_nth [OF p(5), of 0] hd_items(1) [of "guarded s pid"] by (simp add: empty_at_def items_at_def)
    then show ?thesis
      using assms(2) True by (simp add: owns_probe_def owned_def)
  next
    case False
    let ?e = "entries (guarded s pid) ! 0"
    have c: "0 < slot_count (guarded s pid)"
      using assms(2) by (simp add: empty_at_def)
    have "?e \<in> set (entries (guarded s pid))"
      using c by simp
    then have "decode_internal_entry ?e = Ok (internal_item ?e)"
      using p(6) False by (intro decode_internal_item) (auto simp: internal_page_def)
    moreover have "hd (internal_items (guarded s pid)) = internal_item ?e"
      using c by (auto simp: internal_items_def hd_map hd_conv_nth simp flip: length_entries)
    ultimately have "first_entry_key (guarded s pid) = Ok (Some (fst (hd (internal_items (guarded s pid)))))"
      using c p(7) False entry_bytes_nth [OF p(3), of 0] by (simp add: first_entry_key_def entry_key_def)
    then show ?thesis
      using assms(2) False by (simp add: owns_probe_def owned_def)
  qed
qed

text \<open>The first non-empty page from an index on.\<close>

definition first_full :: "'w bt_store \<Rightarrow> page_id list \<Rightarrow> nat \<Rightarrow> nat" where
  "first_full s cs i = i + length (takeWhile (empty_at s) (drop i cs))"

definition empties :: "'w bt_store \<Rightarrow> page_id list \<Rightarrow> nat" where
  "empties s cs = length (filter (empty_at s) cs)"

lemma first_full_step:
  assumes "i < length cs"
  shows "first_full s cs i = (if empty_at s (cs ! i) then first_full s cs (i + 1) else i)"
  using Cons_nth_drop_Suc [OF assms] by (simp add: first_full_def flip: Cons_nth_drop_Suc [OF assms])

lemma first_full_facts:
  "i \<le> length cs \<Longrightarrow> i \<le> first_full s cs i \<and> first_full s cs i \<le> length cs"
  "first_full s cs i < length cs \<Longrightarrow> \<not> empty_at s (cs ! first_full s cs i)"
  "first_full s cs i - i \<le> empties s cs"
  "i \<le> j \<Longrightarrow> j < first_full s cs i \<Longrightarrow> empty_at s (cs ! j)"
proof -
  let ?w = "takeWhile (empty_at s) (drop i cs)"
  have l: "length ?w \<le> length (drop i cs)"
    by (rule length_takeWhile_le)
  then show "i \<le> length cs \<Longrightarrow> i \<le> first_full s cs i \<and> first_full s cs i \<le> length cs"
    by (simp add: first_full_def)
  show "\<not> empty_at s (cs ! first_full s cs i)" if "first_full s cs i < length cs"
    using nth_length_takeWhile [of "empty_at s" "drop i cs"] that by (simp add: first_full_def)
  have "length ?w \<le> length (filter (empty_at s) (drop i cs))"
    by (metis filter_True length_append le_add1 set_takeWhileD takeWhile_dropWhile_id filter_append)
  also have "\<dots> \<le> length (filter (empty_at s) cs)"
    by (metis append_take_drop_id filter_append le_add2 length_append)
  finally show "first_full s cs i - i \<le> empties s cs"
    by (simp add: first_full_def empties_def)
  show "empty_at s (cs ! j)" if "i \<le> j" "j < first_full s cs i"
  proof -
    have "j - i < length ?w"
      using that by (auto simp: first_full_def)
    then have "?w ! (j - i) \<in> set ?w" "?w ! (j - i) = drop i cs ! (j - i)"
      by (simp only: nth_mem, simp add: takeWhile_nth)
    moreover have "drop i cs ! (j - i) = cs ! j"
      using that by (cases "i \<le> length cs") (auto simp: first_full_def)
    ultimately show ?thesis
      by (metis set_takeWhileD)
  qed
qed

lemma right_target_chain:
  assumes ch: "chain s level cs" and nf: "no_faults E" and i: "i < length cs"
    and h: "hops + (first_full s cs (i + 1) - (i + 1)) \<le> MAX_CHAIN_HOPS"
  shows "right_target E s level key t (nd_next (node_at s (cs ! i))) hops =
    (let k = first_full s cs (i + 1) in
     Ok (if k < length cs \<and> owned s level key t (cs ! k) then Some (cs ! k) else None, hops + (k - (i + 1))))"
  using i h
proof (induction "length cs - i" arbitrary: i hops)
  case (Suc n)
  note c = chainD [OF ch Suc.prems(1)]
  show ?case
  proof (cases "i + 1 < length cs")
    case True
    let ?p = "cs ! (i + 1)"
    note d = chainD [OF ch True] and p = is_pageD [OF chainD(1) [OF ch True]]
    have k: "first_full s cs (i + 1) = (if empty_at s ?p then first_full s cs (i + 2) else i + 1)"
      using first_full_step [OF True, of s] by (simp add: numeral_2_eq_2)
    have nx: "nd_next (node_at s (cs ! i)) = ?p" "?p \<noteq> 0" "bt_pin E s ?p = Ok (guarded s ?p)"
      using c(2) True p(1) p(11) [OF nf] by auto
    show ?thesis
    proof (cases "empty_at s ?p")
      case e: True
      have f: "i + 2 \<le> first_full s cs (i + 2)"
        using first_full_facts(1) [of "i + 2" cs s] True by simp
      then have hh: "hops + 1 + (first_full s cs (i + 1 + 1) - (i + 1 + 1)) \<le> MAX_CHAIN_HOPS"
        using Suc.prems(2) k e by simp
      have "right_target E s level key t (nd_next (node_at s ?p)) (hops + 1) =
          (let k = first_full s cs (i + 1 + 1) in
           Ok (if k < length cs \<and> owned s level key t (cs ! k) then Some (cs ! k) else None, hops + 1 + (k - (i + 1 + 1))))"
        by (rule Suc.hyps(1)) (use Suc.hyps(2) True hh in auto)
      moreover have "right_target E s level key t ?p hops = right_target E s level key t (nd_next (node_at s ?p)) (hops + 1)"
        using nx e hh p(9) by (subst right_target.simps) (simp add: empty_at_def)
      ultimately show ?thesis
        using k e f nx by (simp add: Let_def)
    next
      case e: False
      then have "right_target E s level key t ?p hops = Ok (if owned s level key t ?p then Some ?p else None, hops)"
        using nx owns_probe_eq [OF d(1) e, of key t] by (subst right_target.simps) (simp add: empty_at_def)
      then show ?thesis
        using k e nx True by simp
    qed
  next
    case False
    then have "nd_next (node_at s (cs ! i)) = 0" "first_full s cs (i + 1) = i + 1"
      using c(2) by (auto simp: first_full_def)
    then show ?thesis
      using False by (simp add: right_target.simps)
  qed
qed simp

lemma left_step_locate:
  assumes "chain s level cs" "no_faults E" "i < length cs"
  shows "left_step E s False level key t (cs ! i) hops v =
    (if dominated s level key t (cs ! i) \<and> i \<noteq> 0
     then Ok (nd_prev (node_at s (cs ! i)), True, hops + 1, v) else Ok (cs ! i, False, hops, v))"
proof -
  note c = chainD [OF assms(1,3)] and p = is_pageD [OF chainD(1) [OF assms(1,3)]]
  note f = first_above_eq [OF c(1), of key t]
  have pin: "bt_pin E s (nd_prev (node_at s (cs ! i))) = Ok (guarded s (nd_prev (node_at s (cs ! i))))" if i0: "i \<noteq> 0"
  proof -
    obtain j where "j < i" "nd_prev (node_at s (cs ! i)) = cs ! j"
      using c(4) [OF i0] by blast
    then show ?thesis
      using is_pageD(11) [OF chainD(1) [OF assms(1)] assms(2), of j] assms(3) by simp
  qed
  show ?thesis
  proof (cases "level = 0")
    case True
    then have "dominated s level key t (cs ! i) \<longleftrightarrow> slot_count (guarded s (cs ! i)) = 0 \<or>
        (\<not> empty_at s (cs ! i) \<and> dominated s level key t (cs ! i))"
      by (auto simp: dominated_def empty_at_def)
    then show ?thesis
      using f True p(8) c(5) pin by (auto simp: left_step_def Let_def)
  next
    case False
    then have "dominated s level key t (cs ! i) \<longleftrightarrow> \<not> empty_at s (cs ! i) \<and> dominated s level key t (cs ! i)"
      by (auto simp: dominated_def)
    then show ?thesis
      using f False p(8) c(5) pin by (auto simp: left_step_def Let_def)
  qed
qed

text \<open>What the steps return when they succeed, whatever may fail on the way.\<close>

lemma bt_pin_guarded: "bt_pin E s pid = Ok pg \<Longrightarrow> pg = guarded s pid"
  by (auto simp: bt_pin_def guarded_def split: if_splits option.splits)

lemma right_target_Ok:
  assumes ch: "chain s level cs" and "i < length cs"
    and "right_target E s level key t (nd_next (node_at s (cs ! i))) hops = Ok (r, hops')"
  shows "r = (let k = first_full s cs (i + 1) in if k < length cs \<and> owned s level key t (cs ! k) then Some (cs ! k) else None)"
  using assms(2,3)
proof (induction "length cs - i" arbitrary: i hops)
  case (Suc n)
  note c = chainD [OF ch Suc.prems(1)]
  show ?case
  proof (cases "i + 1 < length cs")
    case True
    let ?p = "cs ! (i + 1)"
    note d = chainD [OF ch True] and p = is_pageD [OF chainD(1) [OF ch True]]
    have k: "first_full s cs (i + 1) = (if empty_at s ?p then first_full s cs (i + 1 + 1) else i + 1)"
      by (rule first_full_step [OF True])
    have nx: "nd_next (node_at s (cs ! i)) = ?p" "?p \<noteq> 0"
      using c(2) True p(1) by auto
    obtain pg where pg: "bt_pin E s ?p = Ok pg"
      using Suc.prems(2) nx by (subst (asm) right_target.simps) (auto simp: try_then_Ok_iff)
    then have pin: "bt_pin E s ?p = Ok (guarded s ?p)"
      using bt_pin_guarded by blast
    show ?thesis
    proof (cases "empty_at s ?p")
      case e: True
      have "right_target E s level key t (nd_next (node_at s ?p)) (hops + 1) = Ok (r, hops')"
        using Suc.prems(2) nx pin e p(9) by (subst (asm) right_target.simps) (simp add: empty_at_def split: if_splits)
      then have "r = (let k = first_full s cs (i + 1 + 1) in if k < length cs \<and> owned s level key t (cs ! k) then Some (cs ! k) else None)"
        by (intro Suc.hyps(1)) (use Suc.hyps(2) True in auto)
      then show ?thesis
        using k e by simp
    next
      case e: False
      then show ?thesis
        using Suc.prems(2) nx pin owns_probe_eq [OF d(1) e, of key t] k True
        by (subst (asm) right_target.simps) (auto simp: empty_at_def)
    qed
  next
    case False
    then have "nd_next (node_at s (cs ! i)) = 0" "first_full s cs (i + 1) = i + 1"
      using c(2) by (auto simp: first_full_def)
    then show ?thesis
      using False Suc.prems(2) by (simp add: right_target.simps)
  qed
qed simp

lemma left_scan_Ok:
  assumes ch: "chain s level cs" and i: "i < length cs"
    and "a < i" "left_scan E s (cs ! i) (cs ! a) found hops = Ok r"
  shows "(\<exists>k. a \<le> k \<and> k < i \<and> r = Some (cs ! k) \<and> \<not> empty_at s (cs ! k) \<and> (\<forall>j. k < j \<and> j < i \<longrightarrow> empty_at s (cs ! j))) \<or>
    r = found \<and> (\<forall>j. a \<le> j \<and> j < i \<longrightarrow> empty_at s (cs ! j))"
  using assms(3,4)
proof (induction "i - a" arbitrary: a found hops)
  case (Suc n)
  have a: "a < length cs" "a + 1 < length cs"
    using Suc.prems(1) i by auto
  note c = chainD [OF ch a(1)] and p = is_pageD [OF chainD(1) [OF ch a(1)]]
  have nx: "bt_next (guarded s (cs ! a)) = Ok (cs ! (a + 1))" "cs ! (a + 1) \<noteq> 0"
    using p(9) c(2) a is_pageD(1) [OF chainD(1) [OF ch a(2)]] by auto
  let ?f = "if slot_count (guarded s (cs ! a)) > 0 then Some (cs ! a) else found"
  show ?case
  proof (cases "a + 1 = i")
    case True
    then have "r = ?f"
      using Suc.prems(2) nx by (subst (asm) left_scan.simps) (simp add: Let_def)
    then show ?thesis
      using True Suc.prems(1) by (cases "empty_at s (cs ! a)") (auto simp: empty_at_def less_Suc_eq_le intro: exI [of _ a] dest: le_antisym)
  next
    case False
    then have ne: "cs ! (a + 1) \<noteq> cs ! i"
      using ch a i by (simp add: chain_def nth_eq_iff_index_eq)
    have "left_scan E s (cs ! i) (cs ! (a + 1)) ?f (hops + 1) = Ok r"
      using Suc.prems(2) nx ne by (subst (asm) left_scan.simps) (auto simp: Let_def try_then_Ok_iff split: if_splits)
    then have "(\<exists>k. a + 1 \<le> k \<and> k < i \<and> r = Some (cs ! k) \<and> \<not> empty_at s (cs ! k) \<and> (\<forall>j. k < j \<and> j < i \<longrightarrow> empty_at s (cs ! j))) \<or>
        r = ?f \<and> (\<forall>j. a + 1 \<le> j \<and> j < i \<longrightarrow> empty_at s (cs ! j))"
      by (intro Suc.hyps(1)) (use Suc.hyps(2) Suc.prems(1) False in auto)
    then consider k where "a + 1 \<le> k" "k < i" "r = Some (cs ! k)" "\<not> empty_at s (cs ! k)" "\<forall>j. k < j \<and> j < i \<longrightarrow> empty_at s (cs ! j)"
      | "r = ?f" "\<forall>j. a + 1 \<le> j \<and> j < i \<longrightarrow> empty_at s (cs ! j)"
      by blast
    then show ?thesis
    proof cases
      case 1
      then show ?thesis
        by (intro disjI1 exI [of _ k]) auto
    next
      case 2
      show ?thesis
      proof (cases "empty_at s (cs ! a)")
        case True
        then have "\<forall>j. a \<le> j \<and> j < i \<longrightarrow> empty_at s (cs ! j)"
          using 2(2) by (metis Suc_eq_plus1 Suc_leI le_neq_implies_less)
        then show ?thesis
          using 2(1) True by (simp add: empty_at_def)
      next
        case False
        then show ?thesis
          using 2 Suc.prems(1) by (intro disjI1 exI [of _ a]) (auto simp: empty_at_def)
      qed
    qed
  qed
qed simp

lemma nearest_nonempty_left_Ok:
  assumes ch: "chain s level cs" and i: "i < length cs" and "nearest_nonempty_left E s (cs ! i) = Ok r"
  shows "case r of
      Some p \<Rightarrow> \<exists>k < i. p = cs ! k \<and> \<not> empty_at s p \<and> (\<forall>j. k < j \<and> j < i \<longrightarrow> empty_at s (cs ! j))
    | None \<Rightarrow> i = 0 \<or> (\<exists>a < i. nd_prev (node_at s (cs ! i)) = cs ! a \<and> (\<forall>j. a \<le> j \<and> j < i \<longrightarrow> empty_at s (cs ! j)))"
proof (cases "i = 0")
  case True
  then have "r = None"
    using assms(3) is_pageD(8) [OF chainD(1) [OF ch i]] chainD(3) [OF ch i]
    by (auto simp: nearest_nonempty_left_def try_then_Ok_iff dest!: bt_pin_guarded)
  then show ?thesis
    using True by simp
next
  case False
  then obtain a where a: "a < i" "nd_prev (node_at s (cs ! i)) = cs ! a" "cs ! a \<noteq> 0"
    using chainD(4,5) [OF ch i] by metis
  then have "left_scan E s (cs ! i) (cs ! a) None 0 = Ok r"
    using assms(3) is_pageD(8) [OF chainD(1) [OF ch i]]
    by (auto simp: nearest_nonempty_left_def try_then_Ok_iff dest!: bt_pin_guarded)
  from left_scan_Ok [OF ch i a(1) this] show ?thesis
    using a by (cases r) auto
qed

lemma left_step_mem:
  assumes ch: "chain s level cs" and i: "i < length cs"
    and "left_step E s ins level key t (cs ! i) hops v = Ok (c', moved, hops', v')"
  shows "c' \<in> set cs" "level \<noteq> 0 \<Longrightarrow> c' = cs ! i \<or> nd_prev (node_at s (cs ! i)) \<noteq> 0 \<and> c' = nd_prev (node_at s (cs ! i))"
proof -
  note c = chainD [OF ch i] and p = is_pageD [OF chainD(1) [OF ch i]]
  have pv: "nd_prev (node_at s (cs ! i)) \<in> set cs" if "nd_prev (node_at s (cs ! i)) \<noteq> 0"
    using c(4,5) that i by (metis nth_mem order.strict_trans)
  have nn: "q \<in> set cs" if "nearest_nonempty_left E s (cs ! i) = Ok (Some q)" for q
    using nearest_nonempty_left_Ok [OF ch i that] i by (auto intro: nth_mem)
  have "c' = cs ! i \<or> nd_prev (node_at s (cs ! i)) \<noteq> 0 \<and> c' = nd_prev (node_at s (cs ! i)) \<or>
      level = 0 \<and> nearest_nonempty_left E s (cs ! i) = Ok (Some c')"
    using assms(3) p(8) unfolding left_step_def Let_def
    by (cases "level = 0"; cases ins) (auto simp: try_then_Ok_iff split: if_split_asm option.split_asm)
  then show "c' \<in> set cs" "level \<noteq> 0 \<Longrightarrow> c' = cs ! i \<or> nd_prev (node_at s (cs ! i)) \<noteq> 0 \<and> c' = nd_prev (node_at s (cs ! i))"
    using pv nn i by auto
qed

text \<open>A walk stays within every set of pages its single steps stay within.\<close>

lemma walk_closed:
  assumes ch: "chain s level cs" and Q: "\<forall>p. Q p \<longrightarrow> p \<in> set cs"
    and L: "\<forall>c c' m h h' v v'. Q c \<and> left_step E s ins level key t c h v = Ok (c', m, h', v') \<longrightarrow> Q c'"
    and R: "\<forall>p \<in> set cs. owned s level key t p \<longrightarrow> Q p"
    and "walk_to_position E s ins level key t cur hops v hopped = Ok (c', hopped')" "Q cur"
  shows "Q c'"
  using assms(5,6)
proof (induction "MAX_CHAIN_HOPS + 1 - hops" arbitrary: cur hops v hopped rule: less_induct)
  case less
  obtain c1 m h1 v1 nxt target h2 where st: "left_step E s ins level key t cur hops v = Ok (c1, m, h1, v1)"
    "bt_next (guarded s c1) = Ok nxt" "right_target E s level key t nxt h1 = Ok (target, h2)"
    "(case target of
        Some r \<Rightarrow> if h2 + 1 > MAX_CHAIN_HOPS then Err BtCorrupted
          else walk_to_position E s ins level key t r (h2 + 1) v1 True
      | None \<Rightarrow> if \<not> m then Ok (c1, hopped)
          else if h2 > MAX_CHAIN_HOPS then Err BtCorrupted
          else walk_to_position E s ins level key t c1 h2 v1 hopped) = Ok (c', hopped')"
    using less.prems(1) by (subst (asm) walk_to_position.simps) (auto simp: try_then_Ok_iff)
  have q1: "Q c1"
    using L less.prems(2) st(1) by blast
  then obtain i where i: "i < length cs" "c1 = cs ! i"
    using Q by (metis in_set_conv_nth)
  have h: "hops \<le> h1" "m \<Longrightarrow> hops < h1" "h1 \<le> h2"
    using left_step_hops [OF st(1)] right_target_hops [OF st(3)] by auto
  have "right_target E s level key t (nd_next (node_at s (cs ! i))) h1 = Ok (target, h2)"
    using st(2,3) is_pageD(9) [OF chainD(1) [OF ch i(1)]] i(2) by simp
  note r = right_target_Ok [OF ch i(1) this]
  show ?case
  proof (cases target)
    case None
    show ?thesis
    proof (cases m)
      case True
      then have w: "walk_to_position E s ins level key t c1 h2 v1 hopped = Ok (c', hopped')" "h2 \<le> MAX_CHAIN_HOPS"
        using st(4) None by (auto split: if_splits)
      show ?thesis
        by (rule less.hyps [OF _ w(1) q1]) (use h True w(2) in simp)
    qed (use st(4) None q1 in simp)
  next
    case (Some p)
    then have p: "p \<in> set cs" "owned s level key t p"
      using r by (auto simp: Let_def split: if_splits)
    have w: "walk_to_position E s ins level key t p (h2 + 1) v1 True = Ok (c', hopped')" "h2 + 1 \<le> MAX_CHAIN_HOPS"
      using st(4) Some by (auto split: if_splits)
    show ?thesis
      by (rule less.hyps [OF _ w(1)]) (use h w(2) R p in auto)
  qed
qed

text \<open>The moves a walk has left: from a dominated page first left, then right, otherwise only right.\<close>

definition moves_left :: "'w bt_store \<Rightarrow> byte \<Rightarrow> byte list \<Rightarrow> tid \<Rightarrow> page_id list \<Rightarrow> nat \<Rightarrow> nat" where
  "moves_left s level key t cs i =
    (if dominated s level key t (cs ! i) then length cs + i else length cs - i)"

definition walk_end :: "'w bt_store \<Rightarrow> byte \<Rightarrow> byte list \<Rightarrow> tid \<Rightarrow> page_id list \<Rightarrow> nat \<Rightarrow> bool" where
  "walk_end s level key t cs j \<longleftrightarrow> j < length cs \<and> (j = 0 \<or> \<not> dominated s level key t (cs ! j)) \<and>
    \<not> (first_full s cs (j + 1) < length cs \<and> owned s level key t (cs ! first_full s cs (j + 1)))"

lemma walk_locate:
  assumes ch: "chain s level cs" and nf: "no_faults E" and "i < length cs"
    and "hops + (empties s cs + 2) * (moves_left s level key t cs i + 1) \<le> MAX_CHAIN_HOPS"
  shows "\<exists>j h. walk_to_position E s False level key t (cs ! i) hops v hopped = Ok (cs ! j, h) \<and>
    walk_end s level key t cs j"
  using assms(3,4)
proof (induction "moves_left s level key t cs i" arbitrary: i hops hopped rule: less_induct)
  case less
  let ?n = "length cs" and ?e = "empties s cs" and ?m = "moves_left s level key t cs"
  note c = chainD [OF ch less.prems(1)]
  have bound: "hops + (?e + 2) + (?e + 2) * ?m i \<le> MAX_CHAIN_HOPS"
    using less.prems(2) by simp
  \<comment> \<open>what happens once the left step has chosen page \<open>j\<close>\<close>
  have rest: "\<exists>j' h. (let k = first_full s cs (j + 1); hops' = hops + d + (k - (j + 1)) in
        if k < ?n \<and> owned s level key t (cs ! k)
        then walk_to_position E s False level key t (cs ! k) (hops' + 1) v True
        else if \<not> moved then Ok (cs ! j, hopped)
        else walk_to_position E s False level key t (cs ! j) hops' v hopped) = Ok (cs ! j', h) \<and>
      walk_end s level key t cs j'"
    if j: "j < ?n" "d \<le> 1" and mv: "moved \<Longrightarrow> ?m j < ?m i"
      and st: "\<not> moved \<Longrightarrow> j = 0 \<or> \<not> dominated s level key t (cs ! j)"
      and right: "\<And>k. j < k \<Longrightarrow> k < ?n \<Longrightarrow> owned s level key t (cs ! k) \<Longrightarrow> ?m k < ?m i" for j d moved
  proof -
    let ?k = "first_full s cs (j + 1)"
    have kj: "?k - (j + 1) \<le> ?e" "j + 1 \<le> ?k"
      using first_full_facts(1) [of "j + 1" cs s] first_full_facts(3) [of s cs "j + 1"] j by auto
    show ?thesis
    proof (cases "?k < ?n \<and> owned s level key t (cs ! ?k)")
      case True
      then have lt: "?m ?k < ?m i"
        using right kj by auto
      then have "(?e + 2) * (?m ?k + 1) \<le> (?e + 2) * ?m i"
        by (intro mult_le_mono2) simp
      then have "hops + d + (?k - (j + 1)) + 1 + (?e + 2) * (?m ?k + 1) \<le> MAX_CHAIN_HOPS"
        using bound kj j(2) by linarith
      then show ?thesis
        using less.hyps [OF lt] True by (simp add: Let_def)
    next
      case False
      show ?thesis
      proof (cases moved)
        case m: True
        then have "(?e + 2) * (?m j + 1) \<le> (?e + 2) * ?m i"
          using mv by (intro mult_le_mono2) simp
        then have "hops + d + (?k - (j + 1)) + (?e + 2) * (?m j + 1) \<le> MAX_CHAIN_HOPS"
          using bound kj j(2) by linarith
        from less.hyps [OF mv [OF m] j(1) this, of hopped] show ?thesis
          using False m by (auto simp: Let_def)
      next
        case m: False
        then have "walk_end s level key t cs j"
          using st j False by (simp add: walk_end_def)
        then show ?thesis
          using False m by (auto simp: Let_def)
      qed
    qed
  qed
  have step: "walk_to_position E s False level key t (cs ! i) hops v hopped =
      (let k = first_full s cs (j + 1); hops' = hops + d + (k - (j + 1)) in
        if k < ?n \<and> owned s level key t (cs ! k)
        then walk_to_position E s False level key t (cs ! k) (hops' + 1) v True
        else if \<not> moved then Ok (cs ! j, hopped)
        else walk_to_position E s False level key t (cs ! j) hops' v hopped)"
    if ls: "left_step E s False level key t (cs ! i) hops v = Ok (cs ! j, moved, hops + d, v)"
      and j: "j < ?n" "d \<le> 1" for j d moved
  proof -
    let ?k = "first_full s cs (j + 1)"
    have "?k - (j + 1) \<le> ?e"
      using first_full_facts(3) [of s cs "j + 1"] by simp
    then have h: "hops + d + (?k - (j + 1)) + 1 \<le> MAX_CHAIN_HOPS"
      using bound j(2) by linarith
    then have "right_target E s level key t (nd_next (node_at s (cs ! j))) (hops + d) =
        Ok (if ?k < ?n \<and> owned s level key t (cs ! ?k) then Some (cs ! ?k) else None, hops + d + (?k - (j + 1)))"
      using right_target_chain [OF ch nf j(1), of "hops + d" key t] by (simp add: Let_def)
    then show ?thesis
      using ls h is_pageD(9) [OF chainD(1) [OF ch j(1)]]
      by (subst walk_to_position.simps) (auto simp: Let_def not_less)
  qed
  show ?case
  proof (cases "dominated s level key t (cs ! i) \<and> i \<noteq> 0")
    case True
    then obtain j where j: "j < i" "nd_prev (node_at s (cs ! i)) = cs ! j"
      using c(4) by blast
    have ls: "left_step E s False level key t (cs ! i) hops v = Ok (cs ! j, True, hops + 1, v)"
      using left_step_locate [OF ch nf less.prems(1)] True j by simp
    have "?m j < ?m i"
      using True j less.prems(1) by (auto simp: moves_left_def)
    moreover have "?m k < ?m i" if "j < k" "k < ?n" "owned s level key t (cs ! k)" for k
      using True that owned_not_dominated [OF that(3)] less.prems(1) by (auto simp: moves_left_def)
    ultimately show ?thesis
      unfolding step [OF ls less_trans [OF j(1) less.prems(1)] order.refl]
      by (intro rest) (use j less.prems(1) in auto)
  next
    case False
    then have ls: "left_step E s False level key t (cs ! i) hops v = Ok (cs ! i, False, hops + 0, v)"
      using left_step_locate [OF ch nf less.prems(1)] by auto
    have "?m k < ?m i" if "i < k" "k < ?n" "owned s level key t (cs ! k)" for k
      using that owned_not_dominated [OF that(3)] by (auto simp: moves_left_def)
    then show ?thesis
      unfolding step [OF ls less.prems(1) zero_le]
      by (intro rest) (use False less.prems(1) in auto)
  qed
qed

section \<open>Trees\<close>

text \<open>
  The levels from the leaves up, each a chain; the root is on the last one, and the children of
  an internal page are pages of the level below.  An internal page may be without entries (a
  split whose copy was never made), but no link to the left and no downlink leads to it.
\<close>

definition full :: "'w bt_store \<Rightarrow> nat \<Rightarrow> page_id \<Rightarrow> bool" where
  "full s l p \<longleftrightarrow> (0 < l \<longrightarrow> \<not> empty_at s p)"

definition children :: "'w bt_store \<Rightarrow> page_id \<Rightarrow> page_id set" where
  "children s p = snd ` set (internal_items (guarded s p))"

definition prevs_full :: "'w bt_store \<Rightarrow> nat \<Rightarrow> page_id list \<Rightarrow> bool" where
  "prevs_full s l cs \<longleftrightarrow> (\<forall>p \<in> set cs. nd_prev (node_at s p) \<noteq> 0 \<longrightarrow> full s l (nd_prev (node_at s p)))"

definition linked :: "'w bt_store \<Rightarrow> nat \<Rightarrow> page_id list \<Rightarrow> page_id list \<Rightarrow> bool" where
  "linked s l cs below \<longleftrightarrow> (\<forall>p \<in> set cs. \<forall>c \<in> children s p. c \<in> set below \<and> full s (l - 1) c)"

definition tree :: "'w bt_store \<Rightarrow> page_id list list \<Rightarrow> bool" where
  "tree s Ls \<longleftrightarrow> Ls \<noteq> [] \<and> length Ls \<le> 16 \<and> root_page s \<in> set (last Ls) \<and> full s (length Ls - 1) (root_page s) \<and>
    (\<forall>l < length Ls. chain s (of_nat l) (Ls ! l) \<and> prevs_full s l (Ls ! l) \<and>
      (0 < l \<longrightarrow> linked s l (Ls ! l) (Ls ! (l - 1))))"

definition contents :: "'w bt_store \<Rightarrow> page_id list \<Rightarrow> (byte list \<times> tid) list" where
  "contents s cs = concat (map (items_at s) cs)"

text \<open>The size up to which no walk on a level can exceed the hop bound.\<close>

definition walkable :: "'w bt_store \<Rightarrow> page_id list \<Rightarrow> bool" where
  "walkable s cs \<longleftrightarrow> (empties s cs + 2) * (2 * length cs) \<le> MAX_CHAIN_HOPS"

definition btree_ok :: "'w bt_store \<Rightarrow> page_id list list \<Rightarrow> bool" where
  "btree_ok s Ls \<longleftrightarrow> tree s Ls \<and> sorted_wrt (<) (contents s (hd Ls)) \<and> list_all (walkable s) Ls"

lemma chain_mem: "chain s level cs \<Longrightarrow> c \<in> set cs \<Longrightarrow> is_page s level c"
  using chainD(1) by (metis in_set_conv_nth)

lemma treeD:
  assumes "tree s Ls"
  shows "Ls \<noteq> []" "length Ls \<le> 16" "root_page s \<in> set (last Ls)" "l < length Ls \<Longrightarrow> chain s (of_nat l) (Ls ! l)"
    "full s (length Ls - 1) (root_page s)" "l < length Ls \<Longrightarrow> prevs_full s l (Ls ! l)"
    "Suc l < length Ls \<Longrightarrow> linked s (Suc l) (Ls ! Suc l) (Ls ! l)" "hd Ls = Ls ! 0"
proof -
  have l: "chain s (of_nat l) (Ls ! l) \<and> prevs_full s l (Ls ! l) \<and> (0 < l \<longrightarrow> linked s l (Ls ! l) (Ls ! (l - 1)))"
    if "l < length Ls" for l
    using assms that by (simp add: tree_def)
  show "l < length Ls \<Longrightarrow> chain s (of_nat l) (Ls ! l)" "l < length Ls \<Longrightarrow> prevs_full s l (Ls ! l)"
    using l by blast+
  show "Suc l < length Ls \<Longrightarrow> linked s (Suc l) (Ls ! Suc l) (Ls ! l)"
    using l [of "Suc l"] by simp
qed (use assms in \<open>auto simp: tree_def hd_conv_nth\<close>)

lemma level_byte: "l < 16 \<Longrightarrow> unat (of_nat l :: byte) = l"
  by (simp add: unat_of_nat_byte)

lemma level_nonzero: "0 < l \<Longrightarrow> l < 16 \<Longrightarrow> (of_nat l :: byte) \<noteq> 0"
  by (metis level_byte neq0_conv unat_0)

lemma walk_full:
  assumes "chain s (of_nat l) cs" "prevs_full s l cs" "l < 16"
    and "walk_to_position E s ins (of_nat l) key t c hops v hopped = Ok (c', h)" "c \<in> set cs" "full s l c"
  shows "c' \<in> set cs \<and> full s l c'"
proof (rule walk_closed [OF assms(1), where Q = "\<lambda>c. c \<in> set cs \<and> full s l c", OF _ _ _ assms(4)])
  show "\<forall>c c' m h h' v v'. (c \<in> set cs \<and> full s l c) \<and> left_step E s ins (of_nat l) key t c h v = Ok (c', m, h', v') \<longrightarrow>
      c' \<in> set cs \<and> full s l c'"
  proof (intro allI impI)
    fix c c' m h h' v v'
    assume a: "(c \<in> set cs \<and> full s l c) \<and> left_step E s ins (of_nat l) key t c h v = Ok (c', m, h', v')"
    then obtain i where i: "i < length cs" "c = cs ! i"
      by (metis in_set_conv_nth)
    note m = left_step_mem [OF assms(1) i(1), of E ins key t h v c' m h' v']
    have "c' \<in> set cs"
      using m(1) a i by simp
    moreover have "full s l c'" if "0 < l"
      using m(2) a i level_nonzero [OF that assms(3)] assms(2) by (auto simp: prevs_full_def)
    ultimately show "c' \<in> set cs \<and> full s l c'"
      by (auto simp: full_def)
  qed
qed (use assms(5,6) in \<open>auto simp: full_def owned_def\<close>)

text \<open>A descent that returns a page returns a leaf of the tree.\<close>

lemma descend_mem:
  assumes t: "tree s Ls"
    and "l < length Ls" "c \<in> set (Ls ! l)" "full s l c"
    and "descend E s ins key t fuel c path hopped = Ok (leaf, path', h)"
  shows "leaf \<in> set (hd Ls)"
  using assms(2-5)
proof (induction l arbitrary: c fuel path hopped)
  case 0
  then obtain f where f: "fuel = Suc f"
    by (cases fuel) auto
  have ch: "chain s (of_nat 0) (Ls ! 0)" "prevs_full s 0 (Ls ! 0)"
    using treeD(4,6) [OF t 0(1)] by auto
  have "bt_level (guarded s c) = Ok (of_nat 0)"
    by (rule is_pageD(7) [OF chain_mem [OF ch(1) 0(2)]])
  then have "walk_to_position E s ins (of_nat 0) key t c 0 0 hopped = Ok (leaf, h)"
    using 0(4) f by (auto simp: try_then_Ok_iff)
  then show ?case
    using walk_full [OF ch, of E ins key t c 0 0 hopped leaf h] 0 treeD(8) [OF t] by simp
next
  case (Suc l)
  then obtain f where f: "fuel = Suc f"
    by (cases fuel) auto
  have l: "Suc l < 16"
    using treeD(2) [OF t] Suc.prems by simp
  have ch: "chain s (of_nat (Suc l)) (Ls ! Suc l)" "prevs_full s (Suc l) (Ls ! Suc l)"
    using treeD(4,6) [OF t Suc.prems(1)] by auto
  note lv = level_nonzero [OF zero_less_Suc l]
  have "bt_level (guarded s c) = Ok (of_nat (Suc l))"
    by (rule is_pageD(7) [OF chain_mem [OF ch(1) Suc.prems(2)]])
  then obtain p h' c' where p: "walk_to_position E s ins (of_nat (Suc l)) key t c 0 0 hopped = Ok (p, h')"
      "find_child (guarded s p) key = Ok c'" "descend E s ins key t f c' (path @ [p]) h' = Ok (leaf, path', h)"
    using Suc.prems(4) f lv by (auto simp: try_then_Ok_iff simp del: of_nat_Suc)
  note q = walk_full [OF ch l p(1) Suc.prems(2,3)]
  have "0 < slot_count (guarded s p)"
    using q by (simp add: full_def empty_at_def)
  from find_child_in [OF is_pageD(6) [OF chain_mem [OF ch(1)] lv] this, of key] q p(2)
  have "c' \<in> children s p"
    by (auto simp: children_def)
  then have "c' \<in> set (Ls ! l) \<and> full s l c'"
    using treeD(7) [OF t Suc.prems(1)] q by (auto simp: linked_def)
  then show ?case
    using Suc.IH [of c' f "path @ [p]" h'] Suc.prems(1) p(3) by simp
qed

lemma descend_to_leaf_mem:
  assumes "tree s Ls" "descend_to_leaf_from E s (root_page s) key t ins = Ok (leaf, path, h)"
  shows "leaf \<in> set (hd Ls)"
proof -
  have "length Ls - 1 < length Ls" "root_page s \<in> set (Ls ! (length Ls - 1))"
    using treeD(1,3) [OF assms(1)] by (auto simp: last_conv_nth)
  then show ?thesis
    using descend_mem [OF assms(1), of "length Ls - 1" "root_page s"] treeD(5) [OF assms(1)] assms(2)
    by (auto simp: descend_to_leaf_from_def try_then_Ok_iff)
qed

lemma contents_append [simp]: "contents s (xs @ ys) = contents s xs @ contents s ys"
  by (simp add: contents_def)

lemma contents_Cons [simp]: "contents s (c # cs) = items_at s c @ contents s cs" "contents s [] = []"
  by (simp_all add: contents_def)

lemma contents_split: "j < length cs \<Longrightarrow>
    contents s cs = contents s (take j cs) @ items_at s (cs ! j) @ contents s (drop (j + 1) cs)"
  by (subst id_take_nth_drop [of j cs]) simp_all

lemma walk_walkable:
  assumes "chain s level cs" "no_faults E" "walkable s cs" "c \<in> set cs"
  shows "\<exists>j h. walk_to_position E s False level key t c 0 v hopped = Ok (cs ! j, h) \<and> walk_end s level key t cs j"
proof -
  obtain i where i: "i < length cs" "c = cs ! i"
    using assms(4) by (auto simp: in_set_conv_nth)
  have "moves_left s level key t cs i + 1 \<le> 2 * length cs"
    using i by (auto simp: moves_left_def)
  then have "(empties s cs + 2) * (moves_left s level key t cs i + 1) \<le> (empties s cs + 2) * (2 * length cs)"
    by (rule mult_le_mono2)
  then show ?thesis
    using walk_locate [OF assms(1,2) i(1), of 0 key t v hopped] assms(3) i by (simp add: walkable_def)
qed

lemma descend_tree:
  assumes t: "tree s Ls" "list_all (walkable s) Ls" "no_faults E"
    and "l < length Ls" "c \<in> set (Ls ! l)" "full s l c" "l < fuel"
  shows "\<exists>j path' h. descend E s False key t fuel c path hopped = Ok (hd Ls ! j, path', h) \<and> walk_end s 0 key t (hd Ls) j"
  using assms(4-7)
proof (induction l arbitrary: c fuel path hopped)
  case 0
  then obtain f where f: "fuel = Suc f"
    by (cases fuel) auto
  note hd = treeD(8) [OF t(1)]
  have ch: "chain s 0 (Ls ! 0)" and w: "walkable s (Ls ! 0)"
    using treeD(4) [OF t(1) 0(1)] t(2) 0 by (auto simp: list_all_length)
  have "bt_level (guarded s c) = Ok 0"
    by (rule is_pageD(7) [OF chain_mem [OF ch 0(2)]])
  moreover obtain j h where "walk_to_position E s False 0 key t c 0 0 hopped = Ok (hd Ls ! j, h)" "walk_end s 0 key t (hd Ls) j"
    using walk_walkable [OF ch t(3) w 0(2)] hd by metis
  ultimately show ?case
    using f by auto
next
  case (Suc l)
  then obtain f where f: "fuel = Suc f" "l < f"
    by (cases fuel) auto
  let ?lv = "of_nat (Suc l) :: byte"
  have l: "Suc l < 16"
    using treeD(2) [OF t(1)] Suc.prems by simp
  note lv = level_nonzero [OF zero_less_Suc l]
  have ch: "chain s ?lv (Ls ! Suc l)"
    by (rule treeD(4) [OF t(1) Suc.prems(1)])
  have w: "walkable s (Ls ! Suc l)"
    using t(2) Suc.prems(1) by (simp add: list_all_length)
  have ch0: "chain s (of_nat l) (Ls ! l)"
    by (rule treeD(4) [OF t(1)]) (use Suc.prems in simp)
  have pc: "is_page s ?lv c"
    by (rule chain_mem [OF ch Suc.prems(2)])
  obtain j h where j: "walk_to_position E s False ?lv key t c 0 0 hopped = Ok (Ls ! Suc l ! j, h)" "j < length (Ls ! Suc l)"
    using walk_walkable [OF ch t(3) w Suc.prems(2), of key t 0 hopped] by (auto simp: walk_end_def)
  let ?p = "Ls ! Suc l ! j"
  have pj: "is_page s ?lv ?p"
    by (rule chainD(1) [OF ch j(2)])
  have pf: "?p \<in> set (Ls ! Suc l) \<and> full s (Suc l) ?p"
    by (rule walk_full [OF ch treeD(6) [OF t(1) Suc.prems(1)] l j(1) Suc.prems(2,3)])
  then have "0 < slot_count (guarded s ?p)"
    by (simp add: full_def empty_at_def)
  from find_child_in [OF is_pageD(6) [OF pj lv] this, of key] obtain c' where
    c': "find_child (guarded s ?p) key = Ok c'" "c' \<in> snd ` set (internal_items (guarded s ?p))"
    by blast
  then have c'l: "c' \<in> set (Ls ! l)" "full s l c'"
    using treeD(7) [OF t(1) Suc.prems(1)] pf by (auto simp: linked_def children_def)
  from c'l(1) have "bt_pin E s c' = Ok (guarded s c')"
    by (rule is_pageD(11) [OF chain_mem [OF ch0] t(3)])
  then have "descend E s False key t fuel c path hopped = descend E s False key t f c' (path @ [?p]) h"
    using f(1) is_pageD(7) [OF pc] j(1) lv c'(1) by simp
  then show ?case
    using Suc.IH [of c' f "path @ [?p]" h] Suc.prems c'l f(2) by simp
qed

lemma descend_to_leaf_tree:
  assumes "tree s Ls" "list_all (walkable s) Ls" "no_faults E"
  shows "\<exists>j path h. descend_to_leaf E s key t = Ok (hd Ls ! j, path, h) \<and> walk_end s 0 key t (hd Ls) j"
proof -
  let ?l = "length Ls - 1"
  have l: "?l < length Ls" "root_page s \<in> set (Ls ! ?l)" "full s ?l (root_page s)" "?l < DESCENT_FUEL"
    using assms(1) by (auto simp: tree_def last_conv_nth DESCENT_FUEL_def)
  have "bt_pin E s (root_page s) = Ok (guarded s (root_page s))"
    by (rule is_pageD(11) [OF chain_mem [OF treeD(4) [OF assms(1) l(1)] l(2)] assms(3)])
  then show ?thesis
    using descend_tree [OF assms l, of key t "[]" False] by (simp add: descend_to_leaf_def descend_to_leaf_from_def)
qed

text \<open>Everything left of the page a leaf walk ends at sorts below the probe.\<close>

lemma walk_end_below:
  assumes "sorted_wrt (<) (contents s cs)" "walk_end s 0 key t cs j" "x \<in> set (contents s (take j cs))"
  shows "x < (key, t)"
proof -
  have j: "j < length cs" "j = 0 \<or> \<not> dominated s 0 key t (cs ! j)"
    using assms(2) by (auto simp: walk_end_def)
  have "j \<noteq> 0"
    using assms(3) by (cases j) auto
  then have nd: "\<not> empty_at s (cs ! j)" "\<not> hd (items_at s (cs ! j)) > (key, t)"
    using j(2) by (simp_all add: dominated_def)
  have "items_at s (cs ! j) \<noteq> []" "hd (items_at s (cs ! j)) \<le> (key, t)"
    using nd(1) hd_items(1) [of "guarded s (cs ! j)"] leI [OF nd(2)] by (simp_all add: empty_at_def items_at_def)
  moreover have "sorted_wrt (<) (contents s (take j cs) @ (items_at s (cs ! j) @ contents s (drop (j + 1) cs)))"
    using assms(1) contents_split [OF j(1)] by metis
  ultimately have "x < hd (items_at s (cs ! j))"
    using assms(3) unfolding sorted_wrt_append by (metis UnI1 hd_in_set set_append)
  then show ?thesis
    using \<open>hd (items_at s (cs ! j)) \<le> (key, t)\<close> by (rule less_le_trans)
qed

section \<open>Scans\<close>

fun run_visit :: "('x \<Rightarrow> 'a \<Rightarrow> 'a \<times> bool) \<Rightarrow> 'x list \<Rightarrow> 'a \<Rightarrow> 'a \<times> bool" where
  "run_visit visit [] out = (out, False)"
| "run_visit visit (x # xs) out =
    (case visit x out of (out, stop) \<Rightarrow> if stop then (out, True) else run_visit visit xs out)"

lemma run_visit_append:
  "run_visit visit (xs @ ys) out =
    (case run_visit visit xs out of (out, stop) \<Rightarrow> if stop then (out, True) else run_visit visit ys out)"
  by (induction xs arbitrary: out) (auto split: prod.splits)

lemma scan_page_eq:
  assumes "leaf_page pg" "slot + n = slot_count pg"
  shows "scan_page pg visit slot n out = Ok (run_visit visit (drop slot (leaf_items pg)) out)"
  using assms(2)
proof (induction n arbitrary: slot out)
  case (Suc n)
  have "drop slot (leaf_items pg) = leaf_items pg ! slot # drop (Suc slot) (leaf_items pg)"
    using Suc.prems by (simp add: Cons_nth_drop_Suc)
  then show ?case
    using Suc leaf_entry_at_nth [OF assms(1), of slot] by (simp split: prod.splits)
qed simp

lemma scan_chain_eq:
  assumes ch: "chain s 0 cs" and nf: "no_faults E" and "j < length cs" "slot \<le> slot_count (guarded s (cs ! j))"
    and "hops + (length cs - 1 - j) \<le> MAX_CHAIN_HOPS"
  shows "scan_chain E s visit (cs ! j) slot hops out =
    Ok (fst (run_visit visit (drop slot (items_at s (cs ! j)) @ contents s (drop (j + 1) cs)) out))"
  using assms(3-5)
proof (induction "length cs - j" arbitrary: j slot hops out)
  case (Suc n)
  let ?pg = "guarded s (cs ! j)"
  note c = chainD [OF ch Suc.prems(1)] and p = is_pageD [OF chainD(1) [OF ch Suc.prems(1)]]
  obtain out' stop where r: "run_visit visit (drop slot (leaf_items ?pg)) out = (out', stop)"
    by (cases "run_visit visit (drop slot (leaf_items ?pg)) out")
  have sp: "scan_page ?pg visit slot (slot_count ?pg - slot) out = Ok (out', stop)"
    using scan_page_eq [OF p(5) [OF HOL.refl], of slot "slot_count ?pg - slot" visit out] Suc.prems(2) r by simp
  show ?case
  proof (cases "stop \<or> \<not> j + 1 < length cs")
    case True
    then show ?thesis
      using sp r p(9) c(2) by (subst scan_chain.simps) (auto simp: run_visit_append items_at_def Let_def)
  next
    case False
    let ?q = "cs ! (j + 1)"
    have j1: "j + 1 < length cs" and "\<not> stop"
      using False by auto
    note q = is_pageD [OF chainD(1) [OF ch j1]]
    have nx: "bt_next ?pg = Ok ?q" "?q \<noteq> 0" "bt_pin E s ?q = Ok (guarded s ?q)" "hops + 1 \<le> MAX_CHAIN_HOPS"
      using p(9) c(2) j1 q(1,11) nf Suc.prems(3) by auto
    have "scan_chain E s visit (cs ! j) slot hops out = scan_chain E s visit ?q 0 (hops + 1) out'"
      using sp nx \<open>\<not> stop\<close> by (subst scan_chain.simps) (simp add: Let_def)
    also have "\<dots> = Ok (fst (run_visit visit (drop 0 (items_at s ?q) @ contents s (drop (j + 1 + 1) cs)) out'))"
      by (rule Suc.hyps(1)) (use Suc.hyps(2) Suc.prems(3) j1 in auto)
    also have "drop (j + 1) cs = ?q # drop (j + 1 + 1) cs"
      using j1 by (simp add: Cons_nth_drop_Suc)
    ultimately show ?thesis
      using r \<open>\<not> stop\<close> by (simp add: run_visit_append items_at_def)
  qed
qed simp

text \<open>A read that starts at the lower bound of its probe sees the chain from there on.\<close>

lemma dropWhile_prefix:
  "\<forall>x \<in> set xs. P x \<Longrightarrow> dropWhile P (xs @ ys) = dropWhile P ys"
  by (induction xs) auto

lemma dropWhile_inner: "length (takeWhile P ys) < length ys \<or> (\<forall>z \<in> set zs. \<not> P z) \<Longrightarrow>
    dropWhile P (ys @ zs) = drop (length (takeWhile P ys)) ys @ zs"
proof (induction ys)
  case Nil
  then show ?case
    by (cases zs) auto
qed auto

text \<open>Everything right of the page a leaf walk ends at sorts above the probe.\<close>

lemma empty_items: "empty_at s c \<Longrightarrow> items_at s c = []"
  by (metis empty_at_def items_at_def length_0_conv length_items(1))

lemma walk_end_above:
  assumes so: "sorted_wrt (<) (contents s cs)" and w: "walk_end s 0 key t cs j"
    and z: "z \<in> set (contents s (drop (j + 1) cs))"
  shows "(key, t) < z"
proof -
  let ?r = "drop (j + 1) cs" and ?k = "first_full s cs (j + 1)"
  have c0: "contents s (takeWhile (empty_at s) ?r) = []"
    by (auto simp: contents_def dest: set_takeWhileD empty_items)
  have "contents s ?r = contents s (dropWhile (empty_at s) ?r)"
    using contents_append [of s "takeWhile (empty_at s) ?r" "dropWhile (empty_at s) ?r"] c0 by simp
  moreover have "dropWhile (empty_at s) ?r = drop ?k cs"
    by (simp add: dropWhile_eq_drop first_full_def add.commute add.left_commute)
  ultimately have zk: "z \<in> set (contents s (drop ?k cs))"
    using z by simp
  then have k: "?k < length cs"
    by (cases "?k < length cs") auto
  then have "\<not> owned s 0 key t (cs ! ?k)" "\<not> empty_at s (cs ! ?k)"
    using w first_full_facts(2) by (auto simp: walk_end_def)
  then have "\<not> hd (items_at s (cs ! ?k)) \<le> (key, t)" and ne: "items_at s (cs ! ?k) \<noteq> []"
    using hd_items(1) [of "guarded s (cs ! ?k)"] by (simp_all add: owned_def empty_at_def items_at_def)
  then have hd: "(key, t) < hd (items_at s (cs ! ?k))"
    by (simp only: not_le)
  have "drop ?k cs = cs ! ?k # drop (?k + 1) cs"
    using k by (simp add: Cons_nth_drop_Suc)
  then have split: "contents s (drop ?k cs) = items_at s (cs ! ?k) @ contents s (drop (?k + 1) cs)"
    by simp
  have "sorted_wrt (<) (contents s (drop ?k cs))"
    using so contents_append [of s "take ?k cs" "drop ?k cs"] by (simp add: sorted_wrt_append)
  then have "sorted_wrt (<) (hd (items_at s (cs ! ?k)) # tl (items_at s (cs ! ?k)) @ contents s (drop (?k + 1) cs))"
    using split ne by (metis append_Cons list.collapse)
  then have "\<forall>y \<in> set (tl (items_at s (cs ! ?k)) @ contents s (drop (?k + 1) cs)). hd (items_at s (cs ! ?k)) < y"
    by (simp only: sorted_wrt.simps) blast
  moreover have "z = hd (items_at s (cs ! ?k)) \<or> z \<in> set (tl (items_at s (cs ! ?k)) @ contents s (drop (?k + 1) cs))"
    using zk split ne by (metis append_Cons list.collapse set_ConsD)
  ultimately have "hd (items_at s (cs ! ?k)) \<le> z"
    using less_imp_le order.refl by blast
  then show ?thesis
    using hd by (rule less_le_trans [rotated])
qed

lemma scan_from_probe:
  assumes "btree_ok s Ls" "no_faults E"
  obtains leaf path h slot where
    "descend_to_leaf E s key t = Ok (leaf, path, h)" "leaf_lower_bound (guarded s leaf) key t = Ok slot"
    "\<And>visit (out :: 'a). scan_chain E s visit leaf slot 0 out =
       Ok (fst (run_visit visit (dropWhile (\<lambda>x. x < (key, t)) (contents s (hd Ls))) out))"
    "\<And>visit (out :: 'a). \<forall>x. \<not> x < (key, t) \<Longrightarrow> scan_chain E s visit leaf 0 0 out =
       Ok (fst (run_visit visit (contents s (hd Ls)) out))"
proof -
  let ?cs = "hd Ls" and ?P = "\<lambda>x. x < (key, t)"
  have tr: "tree s Ls" and so: "sorted_wrt (<) (contents s ?cs)" and wk: "list_all (walkable s) Ls"
    using assms(1) by (auto simp: btree_ok_def)
  obtain j path h where d: "descend_to_leaf E s key t = Ok (?cs ! j, path, h)" "walk_end s 0 key t ?cs j"
    using descend_to_leaf_tree [OF tr wk assms(2)] by blast
  have j: "j < length ?cs"
    using d(2) by (simp add: walk_end_def)
  have ch: "chain s 0 ?cs"
    using treeD(4) [OF tr, of 0] treeD(1,8) [OF tr] by simp
  have len: "length ?cs \<le> MAX_CHAIN_HOPS"
  proof -
    have "walkable s ?cs"
      using wk treeD(1) [OF tr] by (simp add: list_all_iff)
    then show ?thesis
      by (simp add: walkable_def)
  qed
  let ?I = "items_at s (?cs ! j)" and ?A = "contents s (take j ?cs)" and ?B = "contents s (drop (j + 1) ?cs)"
  have C: "contents s ?cs = ?A @ ?I @ ?B"
    by (rule contents_split [OF j])
  have A: "\<forall>x \<in> set ?A. ?P x"
    using walk_end_below [OF so d(2)] by blast
  have soI: "sorted_wrt (<) (leaf_items (guarded s (?cs ! j)))"
    using so unfolding C by (simp add: sorted_wrt_append items_at_def)
  let ?slot = "length (takeWhile ?P ?I)"
  have lp: "leaf_page (guarded s (?cs ! j))"
    using is_pageD(5) [OF chainD(1) [OF ch j]] by simp
  have lb: "leaf_lower_bound (guarded s (?cs ! j)) key t = Ok ?slot"
    using leaf_lower_bound_eq [OF lp strict_sorted_imp_sorted [OF soI]] by (simp add: items_at_def)
  have slot: "?slot \<le> slot_count (guarded s (?cs ! j))"
    using length_takeWhile_le [of ?P ?I] by (simp add: items_at_def)
  have notB: "\<not> ?P z" if "z \<in> set ?B" for z
    using walk_end_above [OF so d(2) that] by (rule less_not_sym)
  have D: "dropWhile ?P (contents s ?cs) = drop ?slot ?I @ ?B"
    unfolding C dropWhile_prefix [OF A] by (rule dropWhile_inner) (use notB in blast)
  show thesis
  proof (rule that [OF d(1) lb])
    show "scan_chain E s visit (?cs ! j) ?slot 0 out = Ok (fst (run_visit visit (dropWhile ?P (contents s ?cs)) out))"
      for visit and out :: 'a
      unfolding D by (rule scan_chain_eq [OF ch assms(2) j slot]) (use len in simp)
    show "scan_chain E s visit (?cs ! j) 0 0 out = Ok (fst (run_visit visit (contents s ?cs) out))"
      if "\<forall>x. \<not> ?P x" for visit and out :: 'a
    proof -
      have "?A = []"
        using A that by (metis ex_in_conv set_empty)
      then show ?thesis
        unfolding C using scan_chain_eq [OF ch assms(2) j, of 0 0 visit out] len by simp
    qed
  qed
qed

section \<open>Properties\<close>

lemma invalid_tid_least: "INVALID_TID \<le> t"
  by (cases t) (auto simp: INVALID_TID_def less_eq_tid_ext_def)

lemma below_probe: "x < (key, INVALID_TID) \<longleftrightarrow> fst x < key"
  using invalid_tid_least [of "snd x"] by (cases x) (auto simp: less_le_not_le)

lemma sorted_keys: "sorted_wrt (<) (xs :: (byte list \<times> tid) list) \<Longrightarrow> sorted_wrt (\<lambda>a b. fst a \<le> fst b) xs"
  by (erule sorted_wrt_mono_rel [rotated]) (auto simp: less_prod_def)

lemma run_collect:
  "fst (run_visit (\<lambda>(k, t) out. if k \<noteq> key then (out, True) else (out @ [t], False)) xs out) =
    out @ map snd (takeWhile (\<lambda>x. fst x = key) xs)"
  by (induction xs arbitrary: out) auto

lemma run_first:
  fixes xs :: "('k :: linorder \<times> 't) list"
  shows "sorted_wrt (\<lambda>a b. fst a \<le> fst b) xs \<Longrightarrow>
   fst (run_visit (\<lambda>(k, t) out. (if k = key then Some t else None, True)) (filter (\<lambda>x. key \<le> fst x) xs) None) =
    map_option snd (find (\<lambda>x. fst x = key) xs)"
proof (induction xs)
  case (Cons x xs)
  show ?case
  proof (cases "key \<le> fst x \<and> fst x \<noteq> key")
    case True
    then have "fst y \<noteq> key" if "y \<in> set xs" for y
      using Cons.prems that by auto
    then have "find (\<lambda>x. fst x = key) xs = None"
      unfolding find_None_iff by blast
    then show ?thesis
      using True by (cases x) auto
  qed (use Cons in \<open>cases x, auto\<close>)
qed simp

lemma run_range:
  fixes xs :: "('k :: linorder \<times> 't) list"
  shows "fst (run_visit (\<lambda>x out. case end_key of Some e \<Rightarrow> if fst x \<ge> e then (out, True) else (out @ [x], False)
      | None \<Rightarrow> (out @ [x], False)) xs out) =
    out @ takeWhile (\<lambda>x. case end_key of Some e \<Rightarrow> fst x < e | None \<Rightarrow> True) xs"
  by (induction xs arbitrary: out) (auto simp: not_le dest: leD split: option.splits)

lemma dropWhile_sorted_keys:
  assumes "sorted_wrt (\<lambda>a b. fst a \<le> fst b) xs" "\<And>a b :: 'k :: linorder. P b \<Longrightarrow> a \<le> b \<Longrightarrow> P a"
  shows "dropWhile (\<lambda>x. P (fst x)) xs = filter (\<lambda>x. \<not> P (fst x)) xs"
  using assms(1)
proof (induction xs)
  case (Cons x xs)
  show ?case
  proof (cases "P (fst x)")
    case False
    then have "\<not> P (fst y)" if "y \<in> set xs" for y
      using Cons.prems that assms(2) [of "fst y" "fst x"] by auto
    then show ?thesis
      using False by (auto simp: filter_id_conv)
  qed (use Cons in auto)
qed simp

lemma takeWhile_sorted_keys:
  assumes "sorted_wrt (\<lambda>a b. fst a \<le> fst b) xs" "\<And>a b :: 'k :: linorder. P b \<Longrightarrow> a \<le> b \<Longrightarrow> P a"
  shows "takeWhile (\<lambda>x. P (fst x)) xs = filter (\<lambda>x. P (fst x)) xs"
  using assms(1)
proof (induction xs)
  case (Cons x xs)
  show ?case
  proof (cases "P (fst x)")
    case False
    then have "\<not> P (fst y)" if "y \<in> set xs" for y
      using Cons.prems that assms(2) [of "fst y" "fst x"] by auto
    then show ?thesis
      using False by (auto simp: filter_empty_conv)
  qed (use Cons in auto)
qed simp

lemma entries_from_key:
  assumes "sorted_wrt (<) (xs :: (byte list \<times> tid) list)"
  shows "dropWhile (\<lambda>x. x < (key, INVALID_TID)) xs = filter (\<lambda>x. key \<le> fst x) xs"
  unfolding below_probe using dropWhile_sorted_keys [OF sorted_keys [OF assms], of "\<lambda>k. k < key"]
  by (simp add: not_less)

text \<open>
  C10: reads of the index are exact.  On a well-formed tree, drained leaves and stale backward
  links and separators included, \<open>lookup_all\<close> returns the row identifiers of exactly the
  entries with the key, in order, \<open>lookup\<close> the first of them, and \<open>range_scan\<close> exactly the
  entries from the start up to the end, in order.
\<close>

theorem btree_reads_correct:
  assumes "btree_ok s Ls" "no_faults E"
  shows "lookup_all E s key = Ok (map snd (filter (\<lambda>x. fst x = key) (contents s (hd Ls)))) \<and>
    lookup E s key = Ok (map_option snd (find (\<lambda>x. fst x = key) (contents s (hd Ls)))) \<and>
    range_scan E s start end_key = Ok (filter (\<lambda>x. (case start of Some k \<Rightarrow> k \<le> fst x | None \<Rightarrow> True) \<and>
      (case end_key of Some e \<Rightarrow> fst x < e | None \<Rightarrow> True)) (contents s (hd Ls)))"
proof -
  let ?xs = "contents s (hd Ls)"
  have so: "sorted_wrt (<) ?xs"
    using assms(1) by (simp add: btree_ok_def)
  note ks = sorted_keys [OF so]
  let ?f = "filter (\<lambda>x. key \<le> fst x) ?xs"
  have kf: "sorted_wrt (\<lambda>a b. fst a \<le> fst b) ?f"
    using ks by (rule sorted_wrt_filter)
  have all: "lookup_all E s key = Ok (map snd (filter (\<lambda>x. fst x = key) ?xs))"
  proof -
    have "takeWhile (\<lambda>x. fst x = key) ?f = takeWhile (\<lambda>x. fst x \<le> key) ?f"
      by (rule takeWhile_cong) auto
    also have "\<dots> = filter (\<lambda>x. fst x \<le> key) ?f"
      by (rule takeWhile_sorted_keys [OF kf]) (rule order_trans)
    also have "\<dots> = filter (\<lambda>x. fst x = key) ?xs"
      by (auto simp: intro: filter_cong)
    finally have f: "takeWhile (\<lambda>x. fst x = key) ?f = filter (\<lambda>x. fst x = key) ?xs" .
    obtain leaf path h slot where "descend_to_leaf E s key INVALID_TID = Ok (leaf, path, h)"
      "leaf_lower_bound (guarded s leaf) key INVALID_TID = Ok slot"
      "\<And>visit (out :: tid list). scan_chain E s visit leaf slot 0 out =
        Ok (fst (run_visit visit (dropWhile (\<lambda>x. x < (key, INVALID_TID)) ?xs) out))"
      by (rule scan_from_probe [OF assms, of key INVALID_TID, where 'a = "tid list"]) blast
    then show ?thesis
      by (simp add: lookup_all_def entries_from_key [OF so] run_collect f)
  qed
  have one: "lookup E s key = Ok (map_option snd (find (\<lambda>x. fst x = key) ?xs))"
  proof -
    have f: "fst (run_visit (\<lambda>(k, t) out. (if k = key then Some t else None, True)) ?f None) =
        map_option snd (find (\<lambda>x. fst x = key) ?xs)"
      using ks by (rule run_first)
    obtain leaf path h slot where "descend_to_leaf E s key INVALID_TID = Ok (leaf, path, h)"
      "leaf_lower_bound (guarded s leaf) key INVALID_TID = Ok slot"
      "\<And>visit (out :: tid option). scan_chain E s visit leaf slot 0 out =
        Ok (fst (run_visit visit (dropWhile (\<lambda>x. x < (key, INVALID_TID)) ?xs) out))"
      by (rule scan_from_probe [OF assms, of key INVALID_TID, where 'a = "tid option"]) blast
    then show ?thesis
      by (simp add: lookup_def entries_from_key [OF so] f)
  qed
  have range: "range_scan E s start end_key = Ok (filter (\<lambda>x. (case start of Some k \<Rightarrow> k \<le> fst x | None \<Rightarrow> True) \<and>
      (case end_key of Some e \<Rightarrow> fst x < e | None \<Rightarrow> True)) ?xs)"
  proof -
    let ?k = "case start of Some k \<Rightarrow> k | None \<Rightarrow> []"
    let ?g = "filter (\<lambda>x. ?k \<le> fst x) ?xs"
    obtain leaf path h slot where d: "descend_to_leaf E s ?k INVALID_TID = Ok (leaf, path, h)"
      "leaf_lower_bound (guarded s leaf) ?k INVALID_TID = Ok slot"
      "\<And>visit (out :: (byte list \<times> tid) list). scan_chain E s visit leaf slot 0 out =
        Ok (fst (run_visit visit (dropWhile (\<lambda>x. x < (?k, INVALID_TID)) ?xs) out))"
      "\<And>visit (out :: (byte list \<times> tid) list). \<forall>x. \<not> x < (?k, INVALID_TID) \<Longrightarrow> scan_chain E s visit leaf 0 0 out =
        Ok (fst (run_visit visit ?xs out))"
      by (rule scan_from_probe [OF assms, of ?k INVALID_TID, where 'a = "(byte list \<times> tid) list"]) blast
    have tw: "takeWhile (\<lambda>x. case end_key of Some e \<Rightarrow> fst x < e | None \<Rightarrow> True) zs =
        filter (\<lambda>x. case end_key of Some e \<Rightarrow> fst x < e | None \<Rightarrow> True) zs"
      if "sorted_wrt (\<lambda>a b. fst a \<le> fst b) zs" for zs :: "(byte list \<times> tid) list"
      by (rule takeWhile_sorted_keys [OF that]) (auto split: option.splits)
    show ?thesis
    proof (cases start)
      case None
      have "range_scan E s start end_key = Ok (takeWhile (\<lambda>x. case end_key of Some e \<Rightarrow> fst x < e | None \<Rightarrow> True) ?xs)"
        using d(1,4) None by (simp add: range_scan_def below_probe run_range)
      then show ?thesis
        using tw [OF ks] None by simp
    next
      case (Some k)
      have "range_scan E s start end_key = Ok (takeWhile (\<lambda>x. case end_key of Some e \<Rightarrow> fst x < e | None \<Rightarrow> True) ?g)"
        using d(1,2,3) Some by (simp add: range_scan_def entries_from_key [OF so] run_range)
      then show ?thesis
        using tw [OF sorted_wrt_filter [OF ks]] Some by (simp add: conj_commute)
    qed
  qed
  show ?thesis
    using all one range by blast
qed

definition demo_env :: "unit bt_env" where
  "demo_env = \<lparr> be_bincode = \<lparr> bin_enc = (\<lambda>_. Some []), bin_dec = (\<lambda>_ _. None) \<rparr>,
    be_ops = \<lparr> wo_append = (\<lambda>w _. (Ok 8, w)), wo_flush_to = (\<lambda>w _. (Ok (), w)), wo_current = (\<lambda>_. 16), wo_synced = (\<lambda>_. 16) \<rparr>,
    be_ext = (\<lambda>_. True), be_fail = (\<lambda>_ _. None), be_due = (\<lambda>_ _. False), be_flush = (\<lambda>_ _. None) \<rparr>"

definition demo_store :: "(page_id \<Rightarrow> page option) \<Rightarrow> page_id \<Rightarrow> unit bt_store" where
  "demo_store pages root = \<lparr> bt_pages = pages,
    bt_alloc = \<lparr> al_wal = (), al_file_len = 0, al_next = 1000, al_freelist = [], al_page_size = 8192, al_recovered = True \<rparr>,
    meta_page = 999, root_page = root, tree_level = 0, key_type = ColBytea \<rparr>"

lemma no_faults_demo: "no_faults demo_env"
  by (simp add: no_faults_def demo_env_def)

lemma demo_tree:
  "tree (demo_store [1 \<mapsto> demo_leaf1] 1) [[1]]" "contents (demo_store [1 \<mapsto> demo_leaf1] 1) [1] = [([7], demo_tid)]"
  "walkable (demo_store [1 \<mapsto> demo_leaf1] 1) [1]"
proof -
  let ?s = "demo_store [1 \<mapsto> demo_leaf1] 1"
  note d = demo_leaf1_facts
  have g: "guarded ?s 1 = demo_leaf1" "node_at ?s 1 = node_of demo_leaf1" "items_at ?s 1 = [([7], demo_tid)]"
    using d(2) by (simp_all add: guarded_def demo_store_def node_at_def items_at_def)
  then have "chain ?s 0 [1]"
    using d by (simp add: chain_def is_page_def level_page_def) (simp add: demo_store_def)
  moreover have "root_page ?s = 1"
    by (simp add: demo_store_def)
  ultimately show "tree ?s [[1]]"
    by (simp add: tree_def full_def prevs_full_def)
  show "contents ?s [1] = [([7], demo_tid)]" "walkable ?s [1]"
    using g d(3) by (simp_all add: walkable_def empties_def empty_at_def MAX_CHAIN_HOPS_def)
qed

theorem btree_reads_correct_witness:
  "btree_ok (demo_store [1 \<mapsto> demo_leaf1] 1) [[1]] \<and> no_faults demo_env \<and>
   lookup_all demo_env (demo_store [1 \<mapsto> demo_leaf1] 1) [7] = Ok [demo_tid]"
proof -
  let ?s = "demo_store [1 \<mapsto> demo_leaf1] 1"
  have "btree_ok ?s [[1]]"
    using demo_tree by (simp add: btree_ok_def)
  then show ?thesis
    using btree_reads_correct [of ?s "[[1]]" demo_env "[7]" None None] no_faults_demo demo_tree(2) by simp
qed

section \<open>Runs of drained leaves\<close>

lemma right_target_exceeds:
  assumes ch: "chain s level cs" and nf: "no_faults E" and i: "i < length cs" "hops \<le> MAX_CHAIN_HOPS"
    and h: "hops + (first_full s cs (i + 1) - (i + 1)) > MAX_CHAIN_HOPS"
  shows "right_target E s level key t (nd_next (node_at s (cs ! i))) hops = Err BtCorrupted"
  using i h
proof (induction "length cs - i" arbitrary: i hops)
  case (Suc n)
  have i1: "i + 1 < length cs"
  proof (rule ccontr)
    assume "\<not> i + 1 < length cs"
    then have "first_full s cs (i + 1) = i + 1"
      by (simp add: first_full_def)
    then show False
      using Suc.prems by simp
  qed
  let ?p = "cs ! (i + 1)"
  note p = is_pageD [OF chainD(1) [OF ch i1]]
  have nx: "nd_next (node_at s (cs ! i)) = ?p" "bt_pin E s ?p = Ok (guarded s ?p)"
    using chainD(2) [OF ch Suc.prems(1)] i1 p(11) [OF nf] by auto
  have e: "empty_at s ?p" and k: "first_full s cs (i + 1) = first_full s cs (i + 2)"
    using first_full_step [OF i1, of s] Suc.prems(2,3) by (auto split: if_splits)
  show ?case
  proof (cases "hops + 1 > MAX_CHAIN_HOPS")
    case True
    then show ?thesis
      using nx e p(1,9) by (subst right_target.simps) (simp add: empty_at_def)
  next
    case False
    have "right_target E s level key t (nd_next (node_at s ?p)) (hops + 1) = Err BtCorrupted"
      by (rule Suc.hyps(1)) (use Suc.hyps(2) Suc.prems(3) i1 False k in auto)
    then show ?thesis
      using nx e p(1,9) False by (subst right_target.simps) (simp add: empty_at_def)
  qed
qed simp

text \<open>
  The hops of a walk that enters a run of empty leaves, whose last is number \<open>m\<close>, at number \<open>i\<close>:
  each step to the left skips again through all of the run right of it.
\<close>

definition run_hops :: "nat \<Rightarrow> nat \<Rightarrow> nat" where
  "run_hops m i = (\<Sum>k = 1..i. m - k + 2)"

lemma walk_drained:
  assumes ch: "chain s 0 cs" and nf: "no_faults E" and m: "m < length cs"
    and run: "\<And>i. 1 \<le> i \<Longrightarrow> i \<le> m \<Longrightarrow> empty_at s (cs ! i) \<and> nd_prev (node_at s (cs ! i)) = cs ! (i - 1)"
    and stop: "m + 1 < length cs \<Longrightarrow> \<not> empty_at s (cs ! (m + 1)) \<and> \<not> owned s 0 key t (cs ! (m + 1))"
    and "i \<le> m" "hops \<le> MAX_CHAIN_HOPS" "hops + run_hops m i > MAX_CHAIN_HOPS"
  shows "walk_to_position E s False 0 key t (cs ! i) hops v hopped = Err BtCorrupted"
  using assms(6-8)
proof (induction i arbitrary: hops)
  case (Suc i)
  have ff: "first_full s cs (Suc i) = m + 1"
  proof -
    have "first_full s cs (m + 1 - d) = m + 1" if "d \<le> m" for d
      using that
    proof (induction d)
      case 0
      show ?case
        using stop m first_full_step [of "m + 1" cs s] by (cases "m + 1 < length cs") (auto simp: first_full_def)
    next
      case (Suc d)
      have "m + 1 - Suc d < length cs" "empty_at s (cs ! (m + 1 - Suc d))" "m + 1 - Suc d + 1 = m + 1 - d"
        using Suc.prems m run [of "m + 1 - Suc d"] by auto
      then show ?case
        using first_full_step [of "m + 1 - Suc d" cs s] Suc by simp
    qed
    from this [of "m - i"] show ?thesis
      using Suc.prems(1) by simp
  qed
  have si: "Suc i < length cs" "i < length cs"
    using Suc.prems(1) m by auto
  have r: "empty_at s (cs ! Suc i)" "nd_prev (node_at s (cs ! Suc i)) = cs ! i"
    using run [of "Suc i"] Suc.prems(1) by auto
  then have ls: "left_step E s False 0 key t (cs ! Suc i) hops v = Ok (cs ! i, True, hops + 1, v)"
    using left_step_locate [OF ch nf si(1), of key t hops v] by (simp add: dominated_def)
  have nx: "bt_next (guarded s (cs ! i)) = Ok (nd_next (node_at s (cs ! i)))"
    by (rule is_pageD(9) [OF chainD(1) [OF ch si(2)]])
  have skip: "first_full s cs (i + 1) - (i + 1) = m - i"
    using ff by simp
  have sum: "run_hops m (Suc i) = run_hops m i + (m - Suc i + 2)"
    by (simp add: run_hops_def)
  show ?case
  proof (cases "hops + 1 + (m - i) > MAX_CHAIN_HOPS")
    case True
    have "right_target E s 0 key t (nd_next (node_at s (cs ! i))) (hops + 1) = Err BtCorrupted"
      if "hops + 1 \<le> MAX_CHAIN_HOPS"
      by (rule right_target_exceeds [OF ch nf si(2) that]) (use True skip in simp)
    moreover have "right_target E s 0 key t (nd_next (node_at s (cs ! i))) (hops + 1) = Err BtCorrupted"
      if "\<not> hops + 1 \<le> MAX_CHAIN_HOPS"
      using r that chainD(2) [OF ch si(2)] si is_pageD(1,9,11) [OF chainD(1) [OF ch si(1)]] nf
      by (subst right_target.simps) (simp add: empty_at_def)
    ultimately have "right_target E s 0 key t (nd_next (node_at s (cs ! i))) (hops + 1) = Err BtCorrupted"
      by blast
    then show ?thesis
      using ls nx by (subst walk_to_position.simps) simp
  next
    case False
    have "right_target E s 0 key t (nd_next (node_at s (cs ! i))) (hops + 1) = Ok (None, hops + 1 + (m - i))"
      using right_target_chain [OF ch nf si(2), of "hops + 1" key t] False skip ff stop by (auto simp: Let_def)
    moreover have "walk_to_position E s False 0 key t (cs ! i) (hops + 1 + (m - i)) v hopped = Err BtCorrupted"
      by (rule Suc.IH) (use Suc.prems False sum in auto)
    ultimately show ?thesis
      using ls nx False by (subst walk_to_position.simps) simp
  qed
qed (simp add: run_hops_def)

lemma run_hops_bound:
  assumes "361 \<le> m"
  shows "MAX_CHAIN_HOPS < run_hops m m"
proof -
  have "2 * run_hops m i + i * i = i * (2 * m + 3)" if "i \<le> m" for i
    using that by (induction i) (auto simp: run_hops_def algebra_simps)
  from this [of m] have "2 * run_hops m m = m * (m + 3)"
    by (simp add: algebra_simps)
  moreover have "361 * 364 \<le> m * (m + 3)"
    by (rule mult_le_mono) (use assms in auto)
  ultimately show ?thesis
    by (simp add: MAX_CHAIN_HOPS_def)
qed


definition drained_leaf :: "page_id \<Rightarrow> page" where
  "drained_leaf p = put_u64 8184 (if p = 362 then 0 else p + 1) (put_u64 8176 (p - 1) demo_leaf)"

definition drained_root :: page where
  "drained_root = inserted 0 (encode_internal_entry [] 362) (bt_init 1 BTREE_FLAG_ROOT (replicate 8192 0))"

definition drained_store :: "unit bt_store" where
  "drained_store = demo_store (\<lambda>p. if p = 400 then Some drained_root else Some (drained_leaf p)) 400"

definition drained_chain :: "page_id list" where "drained_chain = map of_nat [1..<363]"

lemma drained_leaf_facts:
  "leaf_page (drained_leaf p)" "node_of (drained_leaf p) =
     \<lparr> nd_level = 0, nd_flags = 1, nd_prev = p - 1, nd_next = (if p = 362 then 0 else p + 1), nd_entries = [] \<rparr>"
  "slot_count (drained_leaf p) = 0"
proof -
  note d = demo_leaf_facts(1,5)
  note q = set_prev_facts [OF d(1), of "p - 1"]
  note r = set_next_facts [OF q(2), of "if p = 362 then 0 else p + 1", folded drained_leaf_def]
  show n: "node_of (drained_leaf p) =
     \<lparr> nd_level = 0, nd_flags = 1, nd_prev = p - 1, nd_next = (if p = 362 then 0 else p + 1), nd_entries = [] \<rparr>"
    using r(3) q(3) d(2) by simp
  have e: "entries (drained_leaf p) = []"
    using arg_cong [OF n, of nd_entries] by (simp add: node_of_def)
  show "leaf_page (drained_leaf p)" "slot_count (drained_leaf p) = 0"
    using r(2) e length_entries [of "drained_leaf p"] by (simp_all add: leaf_page_def)
qed

lemma drained_root_facts:
  "internal_page drained_root" "internal_items drained_root = [([], 362)]" "slot_count drained_root = 1"
  "nd_level (node_of drained_root) = 1" "nd_prev (node_of drained_root) = 0" "nd_next (node_of drained_root) = 0"
proof -
  note i = bt_init_facts [of "replicate 8192 0" 1 BTREE_FLAG_ROOT, simplified]
  let ?r = "bt_init 1 BTREE_FLAG_ROOT (replicate 8192 0)"
  have e: "entries ?r = []"
    using arg_cong [OF i(3), of nd_entries] by (simp add: node_of_def)
  have c: "slot_count ?r = 0"
    using arg_cong [OF e, of length] by simp
  have "hlower ?r + length (encode_internal_entry [] 362) + 4 \<le> hupper ?r"
    using btree_pageD(5) [OF i(1)] c i(2) by simp
  note r = inserted_facts [OF i(1) _ _ this, of 0, folded drained_root_def]
  have "encode_internal_entry [] 362 \<noteq> []"
    by (metis length_encode_entry(2) list.size(3) add_is_0 numeral_neq_zero)
  note r = r [OF _ this, simplified]
  have "entries drained_root = [encode_internal_entry [] 362]"
    using r(5) e by simp
  then show "internal_page drained_root" "internal_items drained_root = [([], 362)]"
    using r(1) by (simp_all add: internal_page_def internal_items_def)
  show "slot_count drained_root = 1"
    using r(2) c by simp
  show "nd_level (node_of drained_root) = 1" "nd_prev (node_of drained_root) = 0" "nd_next (node_of drained_root) = 0"
    using same_frame_node [OF r(4)] i(3) by simp_all
qed

lemma drained_chain_nth:
  "length drained_chain = 362" "i < 362 \<Longrightarrow> drained_chain ! i = of_nat (i + 1)"
  by (simp_all add: drained_chain_def del: upt_Suc)

lemma drained_unat: "i < 362 \<Longrightarrow> unat (of_nat (i + 1) :: page_id) = i + 1"
  by (subst unat_of_nat) simp

lemma drained_at:
  assumes "i < 362"
  shows "guarded drained_store (of_nat (i + 1)) = drained_leaf (of_nat (i + 1))"
    "bt_pages drained_store (of_nat (i + 1)) \<noteq> None" "of_nat (i + 1) \<noteq> (0 :: page_id)"
    "of_nat (i + 1) = (362 :: page_id) \<longleftrightarrow> i = 361"
    "guarded drained_store 400 = drained_root"
proof -
  have u: "unat (of_nat (i + 1) :: page_id) = i + 1"
    using assms by (rule drained_unat)
  then show "of_nat (i + 1) \<noteq> (0 :: page_id)" "of_nat (i + 1) = (362 :: page_id) \<longleftrightarrow> i = 361"
    by (auto simp: unat_eq_zero simp flip: word_unat_eq_iff)
  have "of_nat (i + 1) \<noteq> (400 :: page_id)"
    using u assms by auto
  then show "guarded drained_store (of_nat (i + 1)) = drained_leaf (of_nat (i + 1))"
    "bt_pages drained_store (of_nat (i + 1)) \<noteq> None" "guarded drained_store 400 = drained_root"
    by (simp_all add: drained_store_def demo_store_def guarded_def)
qed

lemma drained_tree: "tree drained_store [drained_chain, [400]]"
proof -
  let ?s = drained_store
  have "chain ?s 0 drained_chain"
    unfolding chain_def
  proof (intro conjI allI impI)
    show "distinct drained_chain"
      unfolding drained_chain_def distinct_map
    proof (intro conjI inj_onI)
      fix x y
      assume x: "x \<in> set [1..<363]" and y: "y \<in> set [1..<363]" and e: "of_nat x = (of_nat y :: page_id)"
      have "unat (of_nat x :: page_id) = x"
        using x by (subst unat_of_nat) simp
      moreover have "unat (of_nat y :: page_id) = y"
        using y by (subst unat_of_nat) simp
      ultimately show "x = y"
        using e by argo
    qed (rule distinct_upt)
    fix i
    assume i: "i < length drained_chain"
    then have i: "i < 362"
      by (simp add: drained_chain_nth)
    note a = drained_at [OF i] drained_leaf_facts [of "of_nat (i + 1)"]
    have c: "drained_chain ! i = of_nat (i + 1)"
      using i by (rule drained_chain_nth)
    have n: "node_at ?s (of_nat (i + 1)) = node_of (drained_leaf (of_nat (i + 1)))"
      by (simp only: node_at_def a)
    show "is_page ?s 0 (drained_chain ! i)"
      unfolding c is_page_def n using a(1,2,3,6,7) by (simp add: level_page_def)
    show "nd_next (node_at ?s (drained_chain ! i)) = (if i + 1 < length drained_chain then drained_chain ! (i + 1) else 0)"
      unfolding c n using a(4,7) i by (auto simp: drained_chain_nth)
    show "if i = 0 then nd_prev (node_at ?s (drained_chain ! i)) = 0
      else (\<exists>j < i. nd_prev (node_at ?s (drained_chain ! i)) = drained_chain ! j)"
      unfolding c n using a(7) i by (auto simp: drained_chain_nth intro!: exI [of _ "i - 1"])
  qed
  moreover have r: "guarded ?s 400 = drained_root" "node_at ?s 400 = node_of drained_root"
    by (simp_all add: drained_at(5) [of 0] node_at_def)
  then have "chain ?s 1 [400]"
    using drained_root_facts by (simp add: chain_def is_page_def level_page_def) (simp add: drained_store_def demo_store_def)
  moreover have "drained_chain ! 361 \<in> set drained_chain"
    by (rule nth_mem) (simp add: drained_chain_nth)
  then have "362 \<in> set drained_chain"
    by (simp add: drained_chain_nth)
  moreover have "root_page ?s = 400"
    by (simp add: drained_store_def demo_store_def)
  ultimately show ?thesis
    using drained_root_facts r by (auto simp: tree_def less_Suc_eq empty_at_def full_def prevs_full_def linked_def children_def)
qed


end
