(* ===== verification/Btree_Write.thy ===== *)
theory Btree_Write
  imports Btree_Read
begin

text \<open>
  The writing half of the index (\<^verbatim>\<open>pg-am-btree/src/index.rs\<close>): placement of a new entry on
  the leaf chain, the optimistic and the pessimistic pass of an insertion, the three steps of
  a split, and deletion.  The guards of the source name pages here: a guarded page is the
  page the store holds.
\<close>

section \<open>Placement\<close>

lemma bt_then_cong [fundef_cong]:
  "s = s' \<Longrightarrow> m s' = m' s' \<Longrightarrow> (\<And>a r. m' s' = (Inr a, r) \<Longrightarrow> f a r = g a r) \<Longrightarrow> bt_then m f s = bt_then m' g s'"
  by (auto simp: bt_then_def split: prod.splits sum.splits)

definition split_incomplete :: "page \<Rightarrow> btree_error + bool" where
  "split_incomplete pg = try_then (bt_flags pg) (\<lambda>fl. Ok (fl AND BTREE_FLAG_SPLIT_INCOMPLETE \<noteq> 0))"

text \<open>The image of a page is logged only when no commit of a split of it is in flight.\<close>

definition fpi_unless_splitting :: "'w bt_env \<Rightarrow> page_id \<Rightarrow> ('w, unit) bt" where
  "fpi_unless_splitting E cur =
    bt_then (bt_get (\<lambda>s. split_incomplete (guarded s cur))) (\<lambda>inc.
      if inc then bt_return () else bt_ensure_fpi E cur)"

definition hop_to :: "'w bt_env \<Rightarrow> 'w bt_store \<Rightarrow> page_id \<Rightarrow> nat \<Rightarrow> btree_error + page_id \<times> nat" where
  "hop_to E s pid hops =
    try_then (bt_pin E s pid) (\<lambda>_. if hops + 1 > MAX_CHAIN_HOPS then Err BtCorrupted else Ok (pid, hops + 1))"

text \<open>
  One round of the search for the leaf a deletion changes: \<open>Inl\<close> the page to go to, with the
  hops so far and whether it lies to the right, or \<open>Inr\<close> when the current page is the one.
\<close>

definition write_round ::
  "'w bt_env \<Rightarrow> 'w bt_store \<Rightarrow> byte list \<Rightarrow> tid \<Rightarrow> page_id \<Rightarrow> nat \<Rightarrow> btree_error + (page_id \<times> nat \<times> bool) + unit" where
  "write_round E s key t cur hops =
    (let pg = guarded s cur in
     try_then (first_above 0 pg key t) (\<lambda>above.
     try_then (bt_prev pg) (\<lambda>prev.
       if (slot_count pg = 0 \<or> above) \<and> prev \<noteq> 0
       then try_then (hop_to E s prev hops) (\<lambda>(pid, hops). Ok (Inl (pid, hops, False)))
       else
         try_then (bt_next pg) (\<lambda>nxt.
         try_then (right_target E s 0 key t nxt hops) (\<lambda>(target, hops).
           case target of
             None \<Rightarrow> Ok (Inr ())
           | Some r \<Rightarrow> try_then (hop_to E s r hops) (\<lambda>(pid, hops). Ok (Inl (pid, hops, True))))))))"

lemma hop_to_Ok: "hop_to E s pid hops = Ok (pid', hops') \<longleftrightarrow>
  (\<exists>pg. bt_pin E s pid = Ok pg) \<and> pid' = pid \<and> hops' = hops + 1 \<and> hops' \<le> MAX_CHAIN_HOPS"
  by (auto simp: hop_to_def try_then_Ok_iff)

lemma write_round_hops:
  assumes "write_round E s key t cur hops = Ok (Inl (pid, hops', h))"
  shows "hops < hops' \<and> hops' \<le> MAX_CHAIN_HOPS"
proof -
  consider prev where "hop_to E s prev hops = Ok (pid, hops')"
    | nxt r hops1 where "right_target E s 0 key t nxt hops = Ok (Some r, hops1)" "hop_to E s r hops1 = Ok (pid, hops')"
    using assms unfolding write_round_def Let_def
    by (auto simp: try_then_Ok_iff split: if_split_asm option.split_asm)
  then show ?thesis
    by cases (auto simp: hop_to_Ok dest: right_target_hops)
qed

function pin_leaf_for_write ::
  "'w bt_env \<Rightarrow> byte list \<Rightarrow> tid \<Rightarrow> page_id \<Rightarrow> nat \<Rightarrow> bool \<Rightarrow> 'w bt_store \<Rightarrow> (btree_error + page_id \<times> bool) \<times> 'w bt_store" where
  "pin_leaf_for_write E key t cur hops hopped s =
    bt_then (fpi_unless_splitting E cur) (\<lambda>_ s.
      case write_round E s key t cur hops of
        Inl e \<Rightarrow> (Err e, s)
      | Inr (Inr _) \<Rightarrow> (Ok (cur, hopped), s)
      | Inr (Inl (pid, hops, right)) \<Rightarrow> pin_leaf_for_write E key t pid hops (hopped \<or> right) s) s"
  by pat_completeness auto
termination
  by (relation "measure (\<lambda>(E, key, t, cur, hops, hopped, s). MAX_CHAIN_HOPS - hops)")
    (auto dest!: write_round_hops)

declare pin_leaf_for_write.simps [simp del]

text \<open>Whether the pages from \<open>w\<close> up to the page \<open>cur\<close> are all empty.\<close>

function clean_until ::
  "'w bt_env \<Rightarrow> 'w bt_store \<Rightarrow> page_id \<Rightarrow> page_id \<Rightarrow> nat \<Rightarrow> btree_error + bool \<times> nat" where
  "clean_until E s cur w hops =
    (if w = cur then Ok (True, hops)
     else if w = 0 then Err BtCorrupted
     else try_then (bt_pin E s w) (\<lambda>pg.
       try_then (bt_next pg) (\<lambda>wnext.
         if slot_count pg \<noteq> 0 then Ok (False, hops)
         else if hops + 1 > MAX_CHAIN_HOPS then Err BtCorrupted
         else clean_until E s cur wnext (hops + 1))))"
  by auto
termination
  by (relation "measure (\<lambda>(E, s, cur, w, hops). MAX_CHAIN_HOPS - hops)") auto

declare clean_until.simps [simp del]

text \<open>The nearest non-empty page from \<open>rnext\<close> on.\<close>

function nonempty_right ::
  "'w bt_env \<Rightarrow> 'w bt_store \<Rightarrow> page_id \<Rightarrow> nat \<Rightarrow> btree_error + page_id option \<times> nat" where
  "nonempty_right E s rnext hops =
    (if rnext = 0 then Ok (None, hops)
     else try_then (bt_pin E s rnext) (\<lambda>pg.
       if slot_count pg \<noteq> 0 then Ok (Some rnext, hops)
       else try_then (bt_next pg) (\<lambda>n2.
         if hops + 1 > MAX_CHAIN_HOPS then Err BtCorrupted else nonempty_right E s n2 (hops + 1))))"
  by auto
termination
  by (relation "measure (\<lambda>(E, s, rnext, hops). MAX_CHAIN_HOPS - hops)") auto

declare nonempty_right.simps [simp del]

text \<open>A landing on the first slot of \<open>cur\<close>, decided against the non-empty page \<open>lid\<close> left of it.\<close>

definition left_edge ::
  "'w bt_env \<Rightarrow> 'w bt_store \<Rightarrow> byte list \<Rightarrow> tid \<Rightarrow> page_id \<Rightarrow> page_id \<Rightarrow> nat \<Rightarrow> btree_error + (page_id \<times> nat) + u16" where
  "left_edge E s key t cur lid hops =
    try_then (bt_pin E s lid) (\<lambda>lpg.
      if slot_count lpg = 0 then try_then (hop_to E s cur hops) (\<lambda>c. Ok (Inl c))
      else
        try_then (bt_pin E s cur) (\<lambda>pg.
        try_then (bt_next lpg) (\<lambda>w.
        try_then (clean_until E s cur w hops) (\<lambda>(clean, hops).
          if \<not> clean then Ok (Inl (cur, hops + 1))
          else
            try_then (if slot_count pg = 0 then Ok True else first_above 0 pg key t) (\<lambda>still_left_edge.
              if \<not> still_left_edge then Ok (Inl (cur, hops))
              else try_then (last_above lpg key t) (\<lambda>above.
                if above then (if hops + 1 > MAX_CHAIN_HOPS then Err BtCorrupted else Ok (Inl (lid, hops + 1)))
                else Ok (Inr 0)))))))"

text \<open>The same when no page left of \<open>cur\<close> holds an entry.\<close>

definition right_edge ::
  "'w bt_env \<Rightarrow> 'w bt_store \<Rightarrow> byte list \<Rightarrow> tid \<Rightarrow> page_id \<Rightarrow> nat \<Rightarrow> btree_error + (page_id \<times> nat) + u16" where
  "right_edge E s key t cur hops =
    try_then (bt_pin E s cur) (\<lambda>pg.
    try_then (bt_next pg) (\<lambda>rnext.
    try_then (nonempty_right E s rnext hops) (\<lambda>(right, hops).
      case right of
        None \<Rightarrow> Ok (Inr 0)
      | Some r \<Rightarrow> try_then (leaf_entry_at (guarded s r) 0) (\<lambda>x.
          if x \<le> (key, t) then (if hops + 1 > MAX_CHAIN_HOPS then Err BtCorrupted else Ok (Inl (r, hops + 1)))
          else Ok (Inr 0)))))"

definition insert_round ::
  "'w bt_env \<Rightarrow> 'w bt_store \<Rightarrow> byte list \<Rightarrow> tid \<Rightarrow> page_id \<Rightarrow> nat \<Rightarrow> btree_error + (page_id \<times> nat) + u16" where
  "insert_round E s key t cur hops =
    try_then (bt_next (guarded s cur)) (\<lambda>nxt.
    try_then (right_target E s 0 key t nxt hops) (\<lambda>(hop, hops).
      case hop of
        Some target \<Rightarrow> try_then (hop_to E s target hops) (\<lambda>c. Ok (Inl c))
      | None \<Rightarrow>
          try_then (leaf_insert_slot (guarded s cur) key t) (\<lambda>pos.
            if pos > 0 then Ok (Inr pos)
            else try_then (nearest_nonempty_left E s cur) (\<lambda>left.
              case left of
                Some lid \<Rightarrow> left_edge E s key t cur lid hops
              | None \<Rightarrow> right_edge E s key t cur hops))))"

text \<open>
  The leaf and the slot of a new entry.  Two rounds of the source repeat without counting a
  hop or without checking the count; both need another writer, so a sequential run takes each
  hop once and the fuel is never used up on a well-formed chain.
\<close>

definition PLACE_FUEL :: nat where "PLACE_FUEL = MAX_CHAIN_HOPS + 2"

fun pin_leaf_for_insert ::
  "'w bt_env \<Rightarrow> byte list \<Rightarrow> tid \<Rightarrow> nat \<Rightarrow> page_id \<Rightarrow> nat \<Rightarrow> 'w bt_store \<Rightarrow> (btree_error + page_id \<times> u16) \<times> 'w bt_store" where
  "pin_leaf_for_insert E key t 0 cur hops s = (Err BtDiverges, s)"
| "pin_leaf_for_insert E key t (Suc fuel) cur hops s =
    bt_then (fpi_unless_splitting E cur) (\<lambda>_ s.
      case insert_round E s key t cur hops of
        Inl e \<Rightarrow> (Err e, s)
      | Inr (Inr pos) \<Rightarrow> (Ok (cur, pos), s)
      | Inr (Inl (pid, hops)) \<Rightarrow> pin_leaf_for_insert E key t fuel pid hops s) s"

section \<open>Changing a page\<close>

definition insert_into_page :: "'w bt_env \<Rightarrow> page_id \<Rightarrow> u16 \<Rightarrow> byte list \<Rightarrow> ('w, unit) bt" where
  "insert_into_page E pid slot entry s =
    (let pg = guarded s pid in
     bt_then (bt_lift (bt_level pg)) (\<lambda>level.
     bt_then (bt_lift (bt_flags pg)) (\<lambda>fl.
     bt_then (bt_append E (btree_insert (be_bincode E) pid slot level fl entry)) (\<lambda>l.
     bt_then (bt_lift (insert_entry_at slot entry pg)) (\<lambda>pg.
     put_page pid (bt_stamp pg l))))) s)"

text \<open>\<open>delete\<close> once the leaf is latched.\<close>

definition delete_at :: "'w bt_env \<Rightarrow> byte list \<Rightarrow> tid \<Rightarrow> page_id \<Rightarrow> ('w, unit) bt" where
  "delete_at E key t leaf s =
    (let pg = guarded s leaf in
     bt_then (bt_lift (leaf_lower_bound pg key t)) (\<lambda>pos.
       if pos \<ge> slot_count pg then bt_lift (Err EntryNotFound)
       else
         bt_then (bt_lift (leaf_entry_at pg (of_nat pos))) (\<lambda>x.
           if x \<noteq> (key, t) then bt_lift (Err EntryNotFound)
           else
             bt_then (bt_append E (btree_delete (be_bincode E) leaf (of_nat pos))) (\<lambda>l.
             bt_then (bt_lift (remove_entry_at (of_nat pos) pg)) (\<lambda>pg.
             put_page leaf (bt_stamp pg l))))) s)"

definition delete :: "'w bt_env \<Rightarrow> byte list \<Rightarrow> tid \<Rightarrow> ('w, unit) bt" where
  "delete E key t =
    bt_then (bt_get (\<lambda>s. descend_to_leaf E s key t)) (\<lambda>(leaf, _, _).
    bt_then (bt_get (\<lambda>s. bt_pin E s leaf)) (\<lambda>_.
    bt_then (pin_leaf_for_write E key t leaf 0 False) (\<lambda>(leaf, _). delete_at E key t leaf)))"

section \<open>Splitting\<close>

record split_state =
  sp_left :: page_id
  sp_right :: page_id
  sp_level :: byte
  sp_copy_start_slot :: u16
  sp_prepare_lsn :: lsn

text \<open>What the first step reads of the page to split: level, next page, last key and split point.\<close>

definition prepare_reads :: "page \<Rightarrow> byte list option \<Rightarrow> btree_error + byte \<times> page_id \<times> byte list \<times> u16" where
  "prepare_reads pg pending_entry =
    try_then (bt_level pg) (\<lambda>level.
    try_then (split_incomplete pg) (\<lambda>inc.
      if inc then Err BtUnsupported
      else
        try_then (bt_next pg) (\<lambda>old_next.
          if slot_count pg < 2 then Err BtCorrupted
          else
            try_then (entry_bytes pg (of_nat (slot_count pg - 1))) (\<lambda>bs.
            try_then (entry_key bs level) (\<lambda>high_key.
            try_then (choose_split_slot pg level pending_entry) (\<lambda>copy_start_slot.
            Ok (level, old_next, high_key, copy_start_slot)))))))"

definition split_prepare_on_guards ::
  "'w bt_env \<Rightarrow> page_id \<Rightarrow> page_id \<Rightarrow> byte list option \<Rightarrow> ('w, split_state) bt" where
  "split_prepare_on_guards E left right pending_entry =
    bt_then (bt_get (\<lambda>s. prepare_reads (guarded s left) pending_entry)) (\<lambda>(level, old_next, high_key, copy_start_slot).
    bt_then (bt_append E (btree_split_prepare (be_bincode E) left right level old_next high_key)) (\<lambda>l.
    bt_then (bt_get (\<lambda>s. init_right_page left old_next level (guarded s right))) (\<lambda>rpg.
    bt_then (put_page right (bt_stamp rpg l)) (\<lambda>_.
    bt_then (bt_get (\<lambda>s. apply_prepare_left right (guarded s left))) (\<lambda>lpg.
    bt_then (put_page left (bt_stamp lpg l)) (\<lambda>_.
    bt_return \<lparr> sp_left = left, sp_right = right, sp_level = level,
      sp_copy_start_slot = copy_start_slot, sp_prepare_lsn = l \<rparr>))))))"

text \<open>The right page is flushed before the left one can be; that it is no longer resident is no error.\<close>

definition flush_right :: "'w bt_env \<Rightarrow> page_id \<Rightarrow> ('w, unit) bt" where
  "flush_right E pid s =
    (case be_flush E pid s of
       None \<Rightarrow> (Ok (), s)
     | Some (PageNotFound _) \<Rightarrow> (Ok (), s)
     | Some e \<Rightarrow> (Err (BtStorage e), s))"

definition split_copy_on_guards :: "'w bt_env \<Rightarrow> split_state \<Rightarrow> ('w, lsn) bt" where
  "split_copy_on_guards E st s =
    bt_then (bt_append E (btree_split_copy (be_bincode E) (sp_left st) (sp_right st) (sp_copy_start_slot st)
      (page_pd_lsn (guarded s (sp_left st))))) (\<lambda>l s.
    bt_then (bt_lift (apply_split_copy (guarded s (sp_left st)) (guarded s (sp_right st)) (sp_copy_start_slot st) True)) (\<lambda>(lpg, rpg).
    bt_then (put_page (sp_left st) (bt_stamp lpg l)) (\<lambda>_.
    bt_then (put_page (sp_right st) (bt_stamp rpg l)) (\<lambda>_.
    bt_then (flush_right E (sp_right st)) (\<lambda>_. bt_return l)))) s) s"

definition split_prepare :: "'w bt_env \<Rightarrow> page_id \<Rightarrow> byte list option \<Rightarrow> ('w, split_state) bt" where
  "split_prepare E left pending_entry =
    bt_then (bt_pin_mut E left) (\<lambda>_.
    bt_then (bt_new_page E) (\<lambda>right.
    split_prepare_on_guards E left right pending_entry))"

definition split_copy :: "'w bt_env \<Rightarrow> split_state \<Rightarrow> ('w, lsn) bt" where
  "split_copy E st =
    bt_then (bt_pin_mut E (sp_left st)) (\<lambda>_.
    bt_then (bt_pin_mut E (sp_right st)) (\<lambda>_.
    split_copy_on_guards E st))"

definition create_new_root :: "'w bt_env \<Rightarrow> split_state \<Rightarrow> ('w, page_id) bt" where
  "create_new_root E st =
    (if sp_level st \<ge> 0x0F then bt_lift (Err BtCorrupted)
     else
       let new_level = sp_level st + 1 in
       bt_then (bt_new_page E) (\<lambda>new_root.
       bt_then (\<lambda>s. put_page new_root (bt_init new_level BTREE_FLAG_ROOT (guarded s new_root)) s) (\<lambda>_.
       bt_then (log_page_init E new_root) (\<lambda>_.
       bt_then (insert_into_page E new_root 0 (encode_internal_entry [] (sp_left st))) (\<lambda>_.
       bt_then (\<lambda>s. write_meta_record E (s\<lparr> root_page := new_root, tree_level := new_level \<rparr>)) (\<lambda>_.
       bt_return new_root))))))"

text \<open>The commit record with the two changes it covers: the downlink on the parent and the flags of the left page.\<close>

definition log_commit :: "'w bt_env \<Rightarrow> split_state \<Rightarrow> page_id \<Rightarrow> byte list \<Rightarrow> u16 \<Rightarrow> ('w, lsn) bt" where
  "log_commit E st parent separator slot =
    bt_then (bt_pin_mut E (sp_left st)) (\<lambda>_.
    bt_append E (btree_split_commit (be_bincode E) (sp_left st) (sp_right st) parent separator slot))"

definition add_downlink :: "page_id \<Rightarrow> u16 \<Rightarrow> byte list \<Rightarrow> lsn \<Rightarrow> ('w, unit) bt" where
  "add_downlink parent slot downlink l s =
    bt_then (bt_lift (insert_entry_at slot downlink (guarded s parent))) (\<lambda>pg. put_page parent (bt_stamp pg l)) s"

definition clear_incomplete :: "'w bt_env \<Rightarrow> page_id \<Rightarrow> lsn \<Rightarrow> ('w, unit) bt" where
  "clear_incomplete E left l =
    bt_then (bt_get (\<lambda>s. bt_pin E s left)) (\<lambda>pg.
    bt_then (bt_lift (apply_commit_left pg)) (\<lambda>pg. put_page left (bt_stamp pg l)))"

text \<open>The path is a stack of pages, the parent of the split page first.\<close>

fun split_commit_guarded :: "'w bt_env \<Rightarrow> split_state \<Rightarrow> byte list \<Rightarrow> page_id list \<Rightarrow> ('w, unit) bt" where
  "split_commit_guarded E st separator [] =
    bt_then (refresh_root_from_meta E) (\<lambda>current_root.
      if current_root \<noteq> sp_left st then bt_lift (Err BtUnsupported)
      else
        bt_then (create_new_root E st) (\<lambda>new_root.
        bt_then (bt_pin_mut E new_root) (\<lambda>_.
        bt_then (log_commit E st new_root separator 1) (\<lambda>l.
        bt_then (bt_get (\<lambda>s. bt_pin E s new_root)) (\<lambda>_.
        bt_then (add_downlink new_root 1 (encode_internal_entry separator (sp_right st)) l) (\<lambda>_.
        clear_incomplete E (sp_left st) l))))))"
| "split_commit_guarded E st separator (parent # stack) = (\<lambda>s.
    let downlink = encode_internal_entry separator (sp_right st); ppg = guarded s parent in
    bt_then (bt_lift (internal_page_points_at ppg (sp_left st))) (\<lambda>points.
      if \<not> points then bt_lift (Err BtUnsupported)
      else if free_space ppg \<ge> length downlink + 4 then
        bt_then (bt_lift (internal_lower_bound ppg separator (sp_right st))) (\<lambda>slot.
        bt_then (log_commit E st parent separator (of_nat slot)) (\<lambda>l.
        bt_then (add_downlink parent (of_nat slot) downlink l) (\<lambda>_.
        clear_incomplete E (sp_left st) l)))
      else
        bt_then (bt_new_page E) (\<lambda>p2.
        bt_then (split_prepare_on_guards E parent p2 (Some downlink)) (\<lambda>pst.
        bt_then (bt_get (\<lambda>s. entry_bytes (guarded s parent) (sp_copy_start_slot pst))) (\<lambda>p2_first.
        bt_then (bt_lift (entry_key p2_first (sp_level pst))) (\<lambda>p2_first_key.
        bt_then (split_copy_on_guards E pst) (\<lambda>_.
        bt_then (split_commit_guarded E pst p2_first_key stack) (\<lambda>_.
        bt_then (bt_lift (entry_cmp downlink p2_first False)) (\<lambda>c.
        let target = (if c \<noteq> OLess then sp_right pst else parent) in
        bt_then (bt_pin_mut E target) (\<lambda>tpg.
        bt_then (bt_lift (internal_lower_bound tpg separator (sp_right st))) (\<lambda>slot.
        bt_then (log_commit E st target separator (of_nat slot)) (\<lambda>l.
        bt_then (add_downlink target (of_nat slot) downlink l) (\<lambda>_.
        clear_incomplete E (sp_left st) l)))))))))))) s)"

section \<open>The pessimistic pass\<close>

datatype write_move = WAbort | WGoto page_id nat page_id | WDown page_id nat | WLeaf

definition write_view :: "page \<Rightarrow> byte list \<Rightarrow> tid \<Rightarrow> btree_error + byte \<times> bool \<times> page_id \<times> page_id \<times> bool" where
  "write_view pg key t =
    try_then (bt_level pg) (\<lambda>level.
    try_then (first_above level pg key t) (\<lambda>is_above.
    try_then (split_incomplete pg) (\<lambda>inc.
    try_then (bt_prev pg) (\<lambda>prev.
    try_then (bt_next pg) (\<lambda>nxt. Ok (level, inc, prev, nxt, is_above))))))"

definition write_step ::
  "'w bt_env \<Rightarrow> 'w bt_store \<Rightarrow> byte list \<Rightarrow> tid \<Rightarrow> page_id list \<Rightarrow> page_id \<Rightarrow> nat \<Rightarrow> page_id \<Rightarrow>
   byte \<Rightarrow> page_id \<Rightarrow> page_id \<Rightarrow> bool \<Rightarrow> btree_error + write_move" where
  "write_step E s key t stack cur hops verified level prev nxt is_above =
    (if is_above \<and> prev \<noteq> 0 \<and> level \<noteq> 0 then Ok WAbort
     else if level = 0 \<and> prev \<noteq> 0 \<and> verified \<noteq> cur \<and> (is_above \<or> slot_count (guarded s cur) = 0) then
       try_then (nearest_nonempty_left E s cur) (\<lambda>left.
       try_then (case left of
           None \<Rightarrow> Ok (False, 0)
         | Some lid \<Rightarrow> try_then (bt_pin E s lid) (\<lambda>lpg. try_then (last_above lpg key t) (\<lambda>go. Ok (go, lid))))
         (\<lambda>(go_left, walk).
           if go_left then try_then (hop_to E s walk hops) (\<lambda>(pid, hops). Ok (WGoto pid hops verified))
           else try_then (hop_to E s cur hops) (\<lambda>(pid, hops). Ok (WGoto pid hops cur))))
     else
       try_then (right_target E s level key t nxt hops) (\<lambda>(target, hops).
         case target of
           Some r \<Rightarrow>
             try_then (case stack of parent # _ \<Rightarrow> internal_page_points_at (guarded s parent) r | [] \<Rightarrow> Ok False)
               (\<lambda>parent_has_downlink.
                 if \<not> parent_has_downlink then Ok WAbort
                 else try_then (hop_to E s r hops) (\<lambda>(pid, hops). Ok (WGoto pid hops verified)))
         | None \<Rightarrow>
             if level = 0 then Ok WLeaf
             else try_then (find_child (guarded s cur) key) (\<lambda>child.
               try_then (bt_pin E s child) (\<lambda>_. Ok (WDown child hops)))))"

text \<open>Each round of the descent counts a hop or goes down a level.\<close>

definition WRITE_FUEL :: nat where "WRITE_FUEL = MAX_CHAIN_HOPS + DESCENT_FUEL + 1"

fun descend_write ::
  "'w bt_env \<Rightarrow> byte list \<Rightarrow> tid \<Rightarrow> nat \<Rightarrow> page_id list \<Rightarrow> page_id \<Rightarrow> nat \<Rightarrow> page_id \<Rightarrow> ('w, page_id list option) bt" where
  "descend_write E key t 0 stack cur hops verified s = (Err BtDiverges, s)"
| "descend_write E key t (Suc fuel) stack cur hops verified s =
    (case write_view (guarded s cur) key t of
       Inl e \<Rightarrow> (Err e, s)
     | Inr (level, inc, prev, nxt, is_above) \<Rightarrow>
         if inc then (Ok None, s)
         else bt_then (bt_ensure_fpi E cur) (\<lambda>_ s.
           case write_step E s key t stack cur hops verified level prev nxt is_above of
             Inl e \<Rightarrow> (Err e, s)
           | Inr WAbort \<Rightarrow> (Ok None, s)
           | Inr (WGoto pid hops verified) \<Rightarrow> descend_write E key t fuel stack pid hops verified s
           | Inr (WDown child hops) \<Rightarrow> descend_write E key t fuel (cur # stack) child hops verified s
           | Inr WLeaf \<Rightarrow> (Ok (Some (cur # stack)), s)) s)"

definition descend_write_path :: "'w bt_env \<Rightarrow> byte list \<Rightarrow> tid \<Rightarrow> page_id \<Rightarrow> ('w, page_id list option) bt" where
  "descend_write_path E key t root =
    bt_then (bt_get (\<lambda>s. bt_pin E s root)) (\<lambda>pg.
    bt_then (bt_lift (bt_flags pg)) (\<lambda>fl.
      if fl AND BTREE_FLAG_ROOT = 0 then bt_return None
      else descend_write E key t WRITE_FUEL [] root 0 0))"

datatype pessimistic = PDone | PRetry

text \<open>Splitting the leaf, placing the entry on its half, and committing the split.\<close>

definition split_and_insert ::
  "'w bt_env \<Rightarrow> byte list \<Rightarrow> page_id \<Rightarrow> page_id list \<Rightarrow> page_id \<Rightarrow> bool \<Rightarrow> ('w, pessimistic) bt" where
  "split_and_insert E entry leaf stack right left_edge_with_left_sibling =
    bt_then (split_prepare_on_guards E leaf right (if left_edge_with_left_sibling then None else Some entry)) (\<lambda>st.
    bt_then (bt_get (\<lambda>s. entry_bytes (guarded s leaf) (sp_copy_start_slot st))) (\<lambda>right_first.
    bt_then (split_copy_on_guards E st) (\<lambda>_.
      if left_edge_with_left_sibling then
        bt_then (bt_lift (entry_key right_first (sp_level st))) (\<lambda>separator.
        bt_then (split_commit_guarded E st separator stack) (\<lambda>_. bt_return PRetry))
      else
        bt_then (bt_lift (entry_cmp entry right_first True)) (\<lambda>c.
        bt_then
          (if c = OLess then
             bt_then (bt_get (\<lambda>s. entry_lower_bound (guarded s leaf) entry True)) (\<lambda>pos.
             insert_into_page E leaf (of_nat pos) entry)
           else
             bt_then (bt_pin_mut E (sp_right st)) (\<lambda>rpg.
             bt_then (bt_lift (entry_lower_bound rpg entry True)) (\<lambda>pos.
             insert_into_page E (sp_right st) (of_nat pos) entry))) (\<lambda>_.
        bt_then (bt_lift (entry_key right_first (sp_level st))) (\<lambda>separator.
        bt_then (split_commit_guarded E st separator stack) (\<lambda>_. bt_return PDone)))))))"

definition insert_pessimistic :: "'w bt_env \<Rightarrow> byte list \<Rightarrow> tid \<Rightarrow> byte list \<Rightarrow> ('w, pessimistic) bt" where
  "insert_pessimistic E key t entry =
    bt_then (refresh_root_from_meta E) (\<lambda>root.
    bt_then (descend_write_path E key t root) (\<lambda>path s.
      case path of
        Some (leaf # stack) \<Rightarrow>
          (let pg = guarded s leaf in
           bt_then (bt_lift (leaf_insert_slot pg key t)) (\<lambda>pos.
           bt_then (bt_lift (bt_prev pg)) (\<lambda>prev.
             let left_edge_with_left_sibling = (pos = 0 \<and> prev \<noteq> 0) in
             if free_space pg \<ge> length entry + 4 then
               if left_edge_with_left_sibling then bt_return PRetry
               else bt_then (insert_into_page E leaf pos entry) (\<lambda>_. bt_return PDone)
             else (\<lambda>s.
               case bt_new_page E s of
                 (Inl _, s) \<Rightarrow> (Ok PRetry, s)
               | (Inr right, s) \<Rightarrow> split_and_insert E entry leaf stack right left_edge_with_left_sibling s))) s)
      | _ \<Rightarrow> (Ok PRetry, s)))"

section \<open>Insertion\<close>

text \<open>One optimistic attempt: \<open>True\<close> when the entry is placed, \<open>False\<close> when its leaf has no room.\<close>

definition insert_optimistic :: "'w bt_env \<Rightarrow> byte list \<Rightarrow> tid \<Rightarrow> byte list \<Rightarrow> ('w, bool) bt" where
  "insert_optimistic E key t entry =
    bt_then (bt_get (\<lambda>s. descend_to_leaf_for_insert E s key t)) (\<lambda>(leaf, _, _).
    bt_then (bt_get (\<lambda>s. bt_pin E s leaf)) (\<lambda>_.
    bt_then (pin_leaf_for_insert E key t PLACE_FUEL leaf 0) (\<lambda>(leaf, pos) s.
      if free_space (guarded s leaf) \<ge> length entry + 4
      then bt_then (insert_into_page E leaf pos entry) (\<lambda>_. bt_return True) s
      else (Ok False, s))))"

text \<open>The restart loop: \<open>budget\<close> is what \<open>restart_or_fail\<close> still allows.\<close>

fun insert_loop :: "'w bt_env \<Rightarrow> byte list \<Rightarrow> tid \<Rightarrow> bool \<Rightarrow> nat \<Rightarrow> ('w, unit) bt" where
  "insert_loop E key t restarted budget = (let entry = encode_leaf_entry key t in
    bt_then (if restarted then bt_then (refresh_root_from_meta E) (\<lambda>_. bt_return ()) else bt_return ()) (\<lambda>_.
    bt_then (insert_optimistic E key t entry) (\<lambda>placed.
      if placed then bt_return ()
      else (\<lambda>s.
        let (r, s) = insert_pessimistic E key t entry s;
          restart = (case budget of 0 \<Rightarrow> (Err BtUnsupported, s) | Suc b \<Rightarrow> insert_loop E key t True b s) in
        case r of
          Inr PDone \<Rightarrow> (Ok (), s)
        | Inr PRetry \<Rightarrow> restart
        | Inl e \<Rightarrow> if e = BtStorage BufferPoolFull then restart else (Err e, s)))))"

declare insert_loop.simps [simp del]

definition insert_with_budget :: "'w bt_env \<Rightarrow> byte list \<Rightarrow> tid \<Rightarrow> nat \<Rightarrow> ('w, unit) bt" where
  "insert_with_budget E key t max_restarts =
    (if length key > MAX_INDEX_KEY_BYTES then bt_lift (Err (KeyTooLarge (length key)))
     else insert_loop E key t False max_restarts)"

definition bt_insert :: "'w bt_env \<Rightarrow> byte list \<Rightarrow> tid \<Rightarrow> ('w, unit) bt" where
  "bt_insert E key t = insert_with_budget E key t MAX_INSERT_RESTARTS"

end
