(* ===== verification/Btree_Update.thy ===== *)
theory Btree_Update
  imports Btree_Write
begin

text \<open>
  A logic for the operations of the index that change it, and deletion.

  A triple states what holds after an operation that succeeds and after one that fails,
  whatever fails on the way: page accesses, log appends and flushes.  Page bytes enter only
  through the view of the store: for each page that is a B+tree page, its node.
\<close>

section \<open>Triples\<close>

definition triple ::
  "('w bt_store \<Rightarrow> bool) \<Rightarrow> ('w, 'a) bt \<Rightarrow> ('a \<Rightarrow> 'w bt_store \<Rightarrow> bool) \<Rightarrow> (btree_error \<Rightarrow> 'w bt_store \<Rightarrow> bool) \<Rightarrow> bool" where
  "triple P m Q X \<longleftrightarrow> (\<forall>s. P s \<longrightarrow> (case m s of (Inr a, s') \<Rightarrow> Q a s' | (Inl e, s') \<Rightarrow> X e s'))"

named_theorems triples

lemma tripleI:
  assumes "\<And>s a s'. P s \<Longrightarrow> m s = (Ok a, s') \<Longrightarrow> Q a s'" "\<And>s e s'. P s \<Longrightarrow> m s = (Err e, s') \<Longrightarrow> X e s'"
  shows "triple P m Q X"
  using assms by (auto simp: triple_def split: prod.splits sum.splits)

lemma tripleD:
  assumes "triple P m Q X" "P s"
  shows "m s = (Ok a, s') \<Longrightarrow> Q a s'" "m s = (Err e, s') \<Longrightarrow> X e s'"
  using assms by (auto simp: triple_def split: prod.splits sum.splits)

lemma triple_then:
  assumes "triple P m R X" "\<And>a. triple (R a) (f a) Q X"
  shows "triple P (bt_then m f) Q X"
proof (rule tripleI)
  fix s a s'
  assume p: "P s" and b: "bt_then m f s = (Ok a, s')"
  then obtain c r where "m s = (Ok c, r)" "f c r = (Ok a, s')"
    by (auto simp: bt_then_def split: prod.splits sum.splits)
  then show "Q a s'"
    using tripleD(1) [OF assms(1) p] tripleD(1) [OF assms(2)] by blast
next
  fix s e s'
  assume p: "P s" and b: "bt_then m f s = (Err e, s')"
  then consider "m s = (Err e, s')" | c r where "m s = (Ok c, r)" "f c r = (Err e, s')"
    by (auto simp: bt_then_def split: prod.splits sum.splits)
  then show "X e s'"
    using tripleD [OF assms(1) p] tripleD(2) [OF assms(2)] by cases blast+
qed

lemma triple_weaken:
  assumes "triple P m Q X" "\<And>s. P' s \<Longrightarrow> P s" "\<And>a s. Q a s \<Longrightarrow> Q' a s" "\<And>e s. X e s \<Longrightarrow> X' e s"
  shows "triple P' m Q' X'"
  using tripleD [OF assms(1)] assms(2-4) by (intro tripleI) blast+

lemma triple_lift: "(\<And>s a. P s \<Longrightarrow> r = Ok a \<Longrightarrow> Q a s) \<Longrightarrow> (\<And>s e. P s \<Longrightarrow> r = Err e \<Longrightarrow> X e s) \<Longrightarrow> triple P (bt_lift r) Q X"
  by (auto simp: triple_def bt_lift_def split: sum.splits)

lemma triple_get: "(\<And>s a. P s \<Longrightarrow> f s = Ok a \<Longrightarrow> Q a s) \<Longrightarrow> (\<And>s e. P s \<Longrightarrow> f s = Err e \<Longrightarrow> X e s) \<Longrightarrow> triple P (bt_get f) Q X"
  by (auto simp: triple_def bt_get_def split: sum.splits)

lemma triple_return: "(\<And>s. P s \<Longrightarrow> Q a s) \<Longrightarrow> triple P (bt_return a) Q X"
  by (auto simp: triple_def bt_return_def)

lemma triple_if: "(b \<Longrightarrow> triple P m Q X) \<Longrightarrow> (\<not> b \<Longrightarrow> triple P n Q X) \<Longrightarrow> triple P (if b then m else n) Q X"
  by simp

lemma triple_state: "(\<And>s. P s \<Longrightarrow> triple (\<lambda>r. r = s) (f s) Q X) \<Longrightarrow> triple P (\<lambda>s. f s s) Q X"
  by (auto simp: triple_def)

section \<open>Views\<close>

definition view :: "'w bt_store \<Rightarrow> page_id \<Rightarrow> node option" where
  "view s pid = (if bt_pages s pid \<noteq> None \<and> btree_page (guarded s pid) then Some (node_at s pid) else None)"

text \<open>Two stores that an operation cannot tell apart, save for page positions, free space and the log.\<close>

definition quiet :: "'w bt_store \<Rightarrow> 'w bt_store \<Rightarrow> bool" where
  "quiet s s' \<longleftrightarrow> view s' = view s \<and> root_page s' = root_page s \<and> meta_page s' = meta_page s \<and>
    (\<exists>w. bt_alloc s' = (bt_alloc s)\<lparr> al_wal := w \<rparr>) \<and>
    (\<forall>p. length (guarded s' p) = length (guarded s p))"

lemma quiet_refl [simp]: "quiet s s"
  by (auto simp: quiet_def intro!: exI [of _ "al_wal (bt_alloc s)"])

lemma quiet_trans: "quiet s s' \<Longrightarrow> quiet s' s'' \<Longrightarrow> quiet s s''"
  by (auto simp: quiet_def)

lemma view_Some: "view s p = Some nd \<Longrightarrow> btree_page (guarded s p) \<and> node_of (guarded s p) = nd \<and> node_at s p = nd \<and> bt_pages s p \<noteq> None"
  by (auto simp: view_def node_at_def split: if_splits)

lemma guarded_put [simp]: "guarded (s\<lparr> bt_pages := (bt_pages s)(p \<mapsto> pg) \<rparr>) q = (if q = p then pg else guarded s q)"
  by (simp add: guarded_def)

lemma view_put:
  "btree_page pg \<Longrightarrow> view (s\<lparr> bt_pages := (bt_pages s)(p \<mapsto> pg) \<rparr>) = (view s)(p \<mapsto> node_of pg)"
  by (rule ext) (simp add: view_def node_at_def)

lemma stamp_facts:
  assumes "btree_page pg"
  shows "btree_page (bt_stamp pg l)" "node_of (bt_stamp pg l) = node_of pg" "hupper (bt_stamp pg l) = hupper pg"
  using bt_set_lsn_facts [OF assms] by (simp_all add: bt_stamp_def)

lemma append_quiet: "bt_append E r s = (x, s') \<Longrightarrow> quiet s s'"
  by (auto simp: bt_append_def quiet_def view_def node_at_def guarded_def split: sum.splits prod.splits
      intro: exI [of _ "al_wal (bt_alloc s)"])

lemma append_pages: "bt_append E r s = (x, s') \<Longrightarrow> guarded s' = guarded s \<and> bt_pages s' = bt_pages s"
  by (auto simp: bt_append_def guarded_def split: sum.splits prod.splits)

lemma ensure_fpi_quiet:
  assumes "view s p \<noteq> None" "bt_ensure_fpi E p s = (x, s')"
  shows "quiet s s'"
proof (cases "be_due E p s")
  case True
  obtain y s1 where a: "bt_append E (full_page_image (be_bincode E) p (guarded s p)) s = (y, s1)"
    by fastforce
  note q = append_quiet [OF a] and g = append_pages [OF a]
  show ?thesis
  proof (cases y)
    case (Inr l)
    obtain nd where v: "view s p = Some nd"
      using assms(1) by auto
    note n = view_Some [OF v] and f = bt_set_lsn_facts [of "guarded s p" l]
    have s': "s' = s1\<lparr> bt_pages := (bt_pages s1)(p \<mapsto> set_page_pd_lsn (guarded s1 p) l) \<rparr>"
      using assms(2) True a Inr by (simp add: bt_ensure_fpi_def bt_then_def put_page_def)
    have "view s' = view s"
      unfolding s' using view_put [OF f(1), of s1 p] n f(2) q v g by (auto simp: quiet_def)
    moreover have "length (guarded s' r) = length (guarded s r)" for r
      unfolding s' guarded_put using g n btree_pageD [of "guarded s p"] by (simp add: set_page_pd_lsn_def)
    ultimately show ?thesis
      using q s' by (simp add: quiet_def)
  qed (use assms(2) True a q in \<open>simp add: bt_ensure_fpi_def bt_then_def\<close>)
qed (use assms(2) in \<open>simp add: bt_ensure_fpi_def\<close>)

text \<open>The predicates on trees depend on the store through the view.\<close>

lemma node_reads_at:
  "items_at s p = map leaf_item (nd_entries (node_at s p))"
  "empty_at s p \<longleftrightarrow> nd_entries (node_at s p) = []"
  "children s p = (snd \<circ> internal_item) ` set (nd_entries (node_at s p))"
  by (auto simp: items_at_def leaf_items_def node_at_def empty_at_def children_def internal_items_def image_comp
      simp flip: length_entries)

lemma is_page_view:
  "is_page s lv p \<longleftrightarrow> p \<noteq> 0 \<and> (\<exists>nd. view s p = Some nd \<and> nd_level nd = lv \<and>
    (\<forall>e \<in> set (nd_entries nd). (if lv = 0 then 10 else 8) \<le> length e))"
  by (auto simp: is_page_def view_def node_at_def level_page_def leaf_page_def internal_page_def)

lemma view_page: "is_page s lv p \<Longrightarrow> view s p = Some (node_at s p)"
  by (auto simp: is_page_def level_page_def leaf_page_def internal_page_def view_def split: if_splits)

lemma view_cong:
  assumes "view s' p = view s p" "is_page s lv p"
  shows "is_page s' lv p" "node_at s' p = node_at s p"
proof -
  show "is_page s' lv p"
    using assms by (simp add: is_page_view)
  from view_page [OF this] view_page [OF assms(2)] show "node_at s' p = node_at s p"
    using assms(1) by simp
qed

lemma chain_cong:
  assumes "chain s lv cs" "\<forall>p \<in> set cs. view s' p = view s p"
  shows "chain s' lv cs"
proof -
  have "is_page s' lv (cs ! i) \<and> node_at s' (cs ! i) = node_at s (cs ! i)" if "i < length cs" for i
    using view_cong [OF _ chainD(1) [OF assms(1) that]] assms(2) nth_mem [OF that] by blast
  then show ?thesis
    using assms(1) by (simp add: chain_def)
qed

lemma contents_cong:
  assumes "chain s lv cs" "\<forall>p \<in> set cs. view s' p = view s p"
  shows "contents s' cs = contents s cs"
proof -
  have "items_at s' p = items_at s p" if "p \<in> set cs" for p
    using view_cong(2) [OF bspec [OF assms(2) that] chain_mem [OF assms(1) that]] by (simp add: node_reads_at)
  then show ?thesis
    by (simp add: contents_def cong: map_cong)
qed

lemma prev_mem: "chain s lv cs \<Longrightarrow> p \<in> set cs \<Longrightarrow> nd_prev (node_at s p) \<noteq> 0 \<Longrightarrow> nd_prev (node_at s p) \<in> set cs"
proof -
  assume ch: "chain s lv cs" and p: "p \<in> set cs" "nd_prev (node_at s p) \<noteq> 0"
  then obtain i where i: "i < length cs" "p = cs ! i"
    by (metis in_set_conv_nth)
  then obtain j where "j < i" "nd_prev (node_at s p) = cs ! j"
    using chainD(3,4) [OF ch i(1)] p(2) by (cases "i = 0") auto
  then show ?thesis
    using i by simp
qed

lemma tree_cong:
  assumes t: "tree s Ls" and v: "\<forall>l < length Ls. \<forall>p \<in> set (Ls ! l). view s' p = view s p" and r: "root_page s' = root_page s"
  shows "tree s' Ls"
proof -
  have n: "node_at s' p = node_at s p" if "l < length Ls" "p \<in> set (Ls ! l)" for l p
    using view_cong(2) [OF _ chain_mem [OF treeD(4) [OF t that(1)] that(2)]] v that by blast
  have f: "full s' l p = full s l p" if "l < length Ls" "p \<in> set (Ls ! l)" for l p
    using n [OF that] by (simp add: full_def node_reads_at)
  have k: "children s' p = children s p" if "l < length Ls" "p \<in> set (Ls ! l)" for l p
    using n [OF that] by (simp add: node_reads_at)
  have "chain s' (of_nat l) (Ls ! l)" if "l < length Ls" for l
    using chain_cong [OF treeD(4) [OF t that]] v that by blast
  moreover have "prevs_full s' l (Ls ! l)" if "l < length Ls" for l
    unfolding prevs_full_def
  proof (intro ballI impI)
    fix p
    assume p: "p \<in> set (Ls ! l)" "nd_prev (node_at s' p) \<noteq> 0"
    then have "full s l (nd_prev (node_at s p))" "nd_prev (node_at s p) \<in> set (Ls ! l)"
      using treeD(6) [OF t that] n [OF that] prev_mem [OF treeD(4) [OF t that]] by (auto simp: prevs_full_def)
    then show "full s' l (nd_prev (node_at s' p))"
      using f [OF that] n [OF that p(1)] by simp
  qed
  moreover have "linked s' l (Ls ! l) (Ls ! (l - 1))" if "l < length Ls" "0 < l" for l
  proof -
    have "l - 1 < length Ls"
      using that(1) by simp
    from f [OF this] show ?thesis
      using treeD(7) [OF t, of "l - 1"] that k [OF that(1)] by (simp add: linked_def)
  qed
  moreover have "full s' (length Ls - 1) (root_page s')"
    using treeD(1,3,5) [OF t] f [of "length Ls - 1"] r by (simp add: last_conv_nth)
  ultimately show ?thesis
    using t r by (simp add: tree_def)
qed

lemma quiet_tree: "tree s Ls \<Longrightarrow> quiet s s' \<Longrightarrow> tree s' Ls"
  by (rule tree_cong) (auto simp: quiet_def)

lemma quiet_contents: "tree s Ls \<Longrightarrow> quiet s s' \<Longrightarrow> l < length Ls \<Longrightarrow> contents s' (Ls ! l) = contents s (Ls ! l)"
  by (rule contents_cong [OF treeD(4)]) (auto simp: quiet_def)

lemma quiet_node: "is_page s lv p \<Longrightarrow> quiet s s' \<Longrightarrow> is_page s' lv p \<and> node_at s' p = node_at s p"
  using view_cong [of s' p s lv] by (simp add: quiet_def)

lemma quiet_empty: "chain s lv cs \<Longrightarrow> quiet s s' \<Longrightarrow> p \<in> set cs \<Longrightarrow> empty_at s' p = empty_at s p"
  using quiet_node [OF chain_mem, of s lv cs p s'] by (simp add: node_reads_at)

lemma quiet_first_full:
  assumes "chain s lv cs" "quiet s s'"
  shows "first_full s' cs i = first_full s cs i"
proof -
  have "takeWhile (empty_at s') (drop i cs) = takeWhile (empty_at s) (drop i cs)"
    by (rule takeWhile_cong) (auto simp: quiet_empty [OF assms] dest: in_set_dropD)
  then show ?thesis
    by (simp add: first_full_def)
qed

lemma quiet_walk_end:
  assumes "chain s 0 cs" "quiet s s'"
  shows "walk_end s' 0 key t cs j = walk_end s 0 key t cs j"
proof -
  have "dominated s' 0 key t p = dominated s 0 key t p" "owned s' 0 key t p = owned s 0 key t p" if "p \<in> set cs" for p
    using quiet_node [OF chain_mem [OF assms(1) that] assms(2)] by (simp_all add: dominated_def owned_def node_reads_at)
  then show ?thesis
    by (auto simp: walk_end_def quiet_first_full [OF assms])
qed

section \<open>Finding the leaf of an entry\<close>

lemma fpi_unless_splitting_quiet:
  assumes "view s p \<noteq> None" "fpi_unless_splitting E p s = (x, s')"
  shows "quiet s s'"
  using assms ensure_fpi_quiet [OF assms(1), of E]
  by (auto simp: fpi_unless_splitting_def bt_then_def bt_get_def bt_return_def split: sum.splits if_splits)

lemma write_round_eq:
  assumes ch: "chain s 0 cs" and i: "i < length cs"
  shows "write_round E s key t (cs ! i) hops = Ok (Inl (p, hops', h)) \<Longrightarrow> p \<in> set cs"
    "write_round E s key t (cs ! i) hops = Ok (Inr u) \<Longrightarrow> walk_end s 0 key t cs i"
proof -
  note c = chainD [OF ch i] and p = is_pageD [OF chainD(1) [OF ch i]]
  note fa = first_above_eq [OF c(1), of key t]
  let ?left = "(empty_at s (cs ! i) \<or> \<not> empty_at s (cs ! i) \<and> dominated s 0 key t (cs ! i)) \<and> nd_prev (node_at s (cs ! i)) \<noteq> 0"
  have dom: "empty_at s (cs ! i) \<or> \<not> empty_at s (cs ! i) \<and> dominated s 0 key t (cs ! i) \<longleftrightarrow> dominated s 0 key t (cs ! i)"
    by (auto simp: dominated_def)
  have eq: "write_round E s key t (cs ! i) hops =
    (if ?left then try_then (hop_to E s (nd_prev (node_at s (cs ! i))) hops) (\<lambda>(pid, hops). Ok (Inl (pid, hops, False)))
     else try_then (right_target E s 0 key t (nd_next (node_at s (cs ! i))) hops) (\<lambda>(target, hops).
           case target of
             None \<Rightarrow> Ok (Inr ())
           | Some r \<Rightarrow> try_then (hop_to E s r hops) (\<lambda>(pid, hops). Ok (Inl (pid, hops, True)))))"
    using fa p(8,9) by (auto simp: write_round_def Let_def empty_at_def)
  show "p \<in> set cs" if w: "write_round E s key t (cs ! i) hops = Ok (Inl (p, hops', h))"
  proof (cases ?left)
    case True
    then have "p = nd_prev (node_at s (cs ! i))"
      using w eq by (auto simp: try_then_Ok_iff hop_to_Ok)
    then show ?thesis
      using prev_mem [OF ch nth_mem [OF i]] True by simp
  next
    case False
    then obtain h' where "right_target E s 0 key t (nd_next (node_at s (cs ! i))) hops = Ok (Some p, h')"
      using w eq by (auto simp: try_then_Ok_iff hop_to_Ok split: option.split_asm)
    from right_target_Ok [OF ch i this] show ?thesis
      by (auto simp: Let_def split: if_splits)
  qed
  show "walk_end s 0 key t cs i" if w: "write_round E s key t (cs ! i) hops = Ok (Inr u)"
  proof -
    have nl: "\<not> ?left"
      using w eq by (auto simp: try_then_Ok_iff split: if_split_asm)
    then obtain h' where "right_target E s 0 key t (nd_next (node_at s (cs ! i))) hops = Ok (None, h')"
      using w eq by (auto simp: try_then_Ok_iff split: option.split_asm)
    from right_target_Ok [OF ch i this] show ?thesis
      using nl dom i c(5) by (auto simp: walk_end_def Let_def split: if_splits)
  qed
qed

lemma pin_leaf_for_write_spec:
  assumes "chain s 0 cs" "cur \<in> set cs" "pin_leaf_for_write E key t cur hops hopped s = (r, s')"
  shows "quiet s s' \<and> (\<forall>c h. r = Ok (c, h) \<longrightarrow> (\<exists>i. c = cs ! i \<and> walk_end s 0 key t cs i))"
  using assms
proof (induction "MAX_CHAIN_HOPS - hops" arbitrary: cur hops hopped s rule: less_induct)
  case less
  obtain i where i: "i < length cs" "cur = cs ! i"
    using less.prems(2) by (metis in_set_conv_nth)
  obtain x s1 where f: "fpi_unless_splitting E cur s = (x, s1)"
    by fastforce
  have q: "quiet s s1"
    using fpi_unless_splitting_quiet [OF _ f] view_page [OF chain_mem [OF less.prems(1,2)]] by simp
  have ch: "chain s1 0 cs"
    using chain_cong [OF less.prems(1), of s1] q by (simp add: quiet_def)
  note w = write_round_eq [OF ch i(1), folded i(2)]
  consider e where "r = Err e" "s' = s1"
    | u where "write_round E s1 key t cur hops = Ok (Inr u)" "r = Ok (cur, hopped)" "s' = s1"
    | pid hops' right where "write_round E s1 key t cur hops = Ok (Inl (pid, hops', right))"
        "pin_leaf_for_write E key t pid hops' (hopped \<or> right) s1 = (r, s')"
  proof -
    have "(case x of Inl e \<Rightarrow> (Err e, s1) | Inr _ \<Rightarrow>
        (case write_round E s1 key t cur hops of
          Inl e \<Rightarrow> (Err e, s1)
        | Inr (Inr _) \<Rightarrow> (Ok (cur, hopped), s1)
        | Inr (Inl (pid, hops, right)) \<Rightarrow> pin_leaf_for_write E key t pid hops (hopped \<or> right) s1)) = (r, s')"
      using less.prems(3) f by (subst (asm) pin_leaf_for_write.simps) (simp add: bt_then_def split: sum.splits)
    note step = this
    show thesis
    proof (cases x)
      case (Inl e)
      then show thesis
        using that(1) [of e] step by simp
    next
      case x: (Inr u)
      show thesis
      proof (cases "write_round E s1 key t cur hops")
        case (Inl e)
        then show thesis
          using that(1) [of e] step x by simp
      next
        case w: (Inr v)
        show thesis
        proof (cases v)
          case (Inl y)
          obtain pid hops' right where "y = (pid, hops', right)"
            by (cases y)
          then show thesis
            using that(3) step x w Inl by simp
        qed (use that(2) step x w in simp)
      qed
    qed
  qed
  then show ?case
  proof cases
    case 1
    then show ?thesis
      using q by simp
  next
    case 2
    then show ?thesis
      using w(2) [OF 2(1)] q i quiet_walk_end [OF less.prems(1) q] by auto
  next
    case 3
    have "MAX_CHAIN_HOPS - hops' < MAX_CHAIN_HOPS - hops"
      using write_round_hops [OF 3(1)] by auto
    from less.hyps [OF this ch w(1) [OF 3(1)] 3(2)] show ?thesis
      using quiet_trans [OF q] quiet_walk_end [OF less.prems(1) q] by simp
  qed
qed

section \<open>Deletion\<close>

text \<open>One page of the store replaced by another with the same position in the tree.\<close>

lemma node_update:
  assumes "is_page s lv q" "view s' = (view s)(p \<mapsto> nd)"
  shows "node_at s' q = (if q = p then nd else node_at s q)"
proof (cases "q = p")
  case True
  then show ?thesis
    using view_Some [of s' p nd] assms(2) by simp
next
  case False
  then show ?thesis
    using view_cong(2) [OF _ assms(1), of s'] assms(2) by simp
qed

lemma chain_entries:
  assumes ch: "chain s lv cs" and v: "view s' = (view s)(p \<mapsto> nd)"
    and nd: "p \<in> set cs \<Longrightarrow> nd_level nd = lv \<and> nd_prev nd = nd_prev (node_at s p) \<and> nd_next nd = nd_next (node_at s p) \<and>
      (\<forall>e \<in> set (nd_entries nd). (if lv = 0 then 10 else 8) \<le> length e)"
  shows "chain s' lv cs"
proof -
  have "is_page s' lv q \<and> nd_prev (node_at s' q) = nd_prev (node_at s q) \<and> nd_next (node_at s' q) = nd_next (node_at s q)"
    if q: "q \<in> set cs" for q
  proof -
    note i = chain_mem [OF ch q]
    have "is_page s' lv q"
      using i nd q v by (auto simp: is_page_view)
    then show ?thesis
      using node_update [OF i v] nd q by auto
  qed
  then show ?thesis
    using ch by (simp add: chain_def)
qed

lemma tree_entries:
  assumes t: "tree s Ls" and v: "view s' = (view s)(p \<mapsto> nd)" and r: "root_page s' = root_page s"
    and p: "l < length Ls" "p \<in> set (Ls ! l)" and nd: "nd_level nd = nd_level (node_at s p)"
      "nd_prev nd = nd_prev (node_at s p)" "nd_next nd = nd_next (node_at s p)"
    and e: "\<forall>e \<in> set (nd_entries nd). (if l = 0 then 10 else 8) \<le> length e"
    and full: "0 < l \<Longrightarrow> nd_entries (node_at s p) \<noteq> [] \<Longrightarrow> nd_entries nd \<noteq> []"
    and kids: "\<And>e. 0 < l \<Longrightarrow> e \<in> set (nd_entries nd) \<Longrightarrow> snd (internal_item e) \<in> set (Ls ! (l - 1)) \<and> full s (l - 1) (snd (internal_item e))"
  shows "tree s' Ls"
proof -
  have l16: "l < 16"
    using p(1) treeD(2) [OF t] by simp
  have pg: "is_page s (of_nat l) p"
    by (rule chain_mem [OF treeD(4) [OF t p(1)] p(2)])
  have same: "m = l" if "m < length Ls" "p \<in> set (Ls ! m)" for m
  proof -
    have "is_page s (of_nat m) p" "m < 16"
      using chain_mem [OF treeD(4) [OF t that(1)] that(2)] that(1) treeD(2) [OF t] by auto
    then have "(of_nat m :: byte) = of_nat l"
      using pg by (simp add: is_page_def)
    then show ?thesis
      using level_byte \<open>m < 16\<close> l16 by metis
  qed
  have lv: "(of_nat l :: byte) = 0 \<longleftrightarrow> l = 0"
    using level_nonzero [of l] l16 by auto
  have n: "node_at s' q = (if q = p then nd else node_at s q)" if "m < length Ls" "q \<in> set (Ls ! m)" for m q
    by (rule node_update [OF chain_mem [OF treeD(4) [OF t that(1)] that(2)] v])
  have f: "full s' m q" if "m < length Ls" "q \<in> set (Ls ! m)" "full s m q" for m q
    using n [OF that(1,2)] that same full by (cases "q = p") (auto simp: full_def node_reads_at)
  have ch: "chain s' (of_nat m) (Ls ! m)" if "m < length Ls" for m
    by (rule chain_entries [OF treeD(4) [OF t that] v]) (use same [OF that] nd e lv pg in \<open>auto simp: is_page_def\<close>)
  moreover have "prevs_full s' m (Ls ! m)" if m: "m < length Ls" for m
    unfolding prevs_full_def
  proof (intro ballI impI)
    fix q
    assume q: "q \<in> set (Ls ! m)" "nd_prev (node_at s' q) \<noteq> 0"
    then have eq: "nd_prev (node_at s' q) = nd_prev (node_at s q)"
      using n [OF m q(1)] nd by simp
    then have "full s m (nd_prev (node_at s q))" "nd_prev (node_at s q) \<in> set (Ls ! m)"
      using treeD(6) [OF t m] q prev_mem [OF treeD(4) [OF t m]] by (auto simp: prevs_full_def)
    then show "full s' m (nd_prev (node_at s' q))"
      using f [OF m] eq by simp
  qed
  moreover have "linked s' m (Ls ! m) (Ls ! (m - 1))" if m: "m < length Ls" "0 < m" for m
    unfolding linked_def
  proof (intro ballI)
    fix q c
    assume q: "q \<in> set (Ls ! m)" "c \<in> children s' q"
    have "c \<in> set (Ls ! (m - 1)) \<and> full s (m - 1) c"
    proof (cases "q = p")
      case True
      then have "m = l"
        using same [OF m(1)] q(1) by simp
      then show ?thesis
        using q n [OF m(1) q(1)] True kids m(2) by (auto simp: node_reads_at)
    next
      case False
      then have "c \<in> children s q"
        using q n [OF m(1) q(1)] by (simp add: node_reads_at)
      then show ?thesis
        using treeD(7) [OF t, of "m - 1"] m q(1) by (auto simp: linked_def)
    qed
    then show "c \<in> set (Ls ! (m - 1)) \<and> full s' (m - 1) c"
      using f [of "m - 1"] m by simp
  qed
  moreover have "full s' (length Ls - 1) (root_page s')"
    using treeD(1,3,5) [OF t] f [of "length Ls - 1"] r by (simp add: last_conv_nth)
  ultimately show ?thesis
    using t r by (simp add: tree_def)
qed

lemma contents_entries:
  assumes ch: "chain s lv cs" and i: "i < length cs" and v: "view s' = (view s)(cs ! i \<mapsto> nd)"
  shows "contents s' cs = contents s (take i cs) @ map leaf_item (nd_entries nd) @ contents s (drop (i + 1) cs)"
proof -
  have d: "distinct cs"
    using ch by (simp add: chain_def)
  have it: "items_at s' q = (if q = cs ! i then map leaf_item (nd_entries nd) else items_at s q)" if "q \<in> set cs" for q
    using node_update [OF chain_mem [OF ch that] v] by (simp add: node_reads_at)
  have "contents s' xs = contents s xs" if "set xs \<subseteq> set cs" "cs ! i \<notin> set xs" for xs
    using that it by (auto simp: contents_def intro!: arg_cong [of _ _ concat] map_cong)
  moreover have "cs ! i \<notin> set (take i cs)" "cs ! i \<notin> set (drop (i + 1) cs)"
    using d id_take_nth_drop [OF i] by (metis distinct_append disjoint_insert(1) list.simps(15), metis Suc_eq_plus1 distinct.simps(2) distinct_append)
  ultimately show ?thesis
    using contents_split [OF i, of s'] it [OF nth_mem [OF i]] by (simp add: set_take_subset set_drop_subset)
qed

lemma remove_filter:
  assumes "distinct xs" "p < length xs"
  shows "take p xs @ drop (p + 1) xs = filter (\<lambda>x. x \<noteq> xs ! p) xs"
proof -
  obtain ys x zs where xs: "xs = ys @ x # zs" "length ys = p"
    using id_take_nth_drop [OF assms(2)] assms(2) by (metis length_take less_imp_le min.absorb2)
  then have "filter (\<lambda>y. y \<noteq> x) ys = ys" "filter (\<lambda>y. y \<noteq> x) zs = zs"
    using assms(1) by (auto intro!: filter_True)
  moreover have "xs ! p = x"
    using xs by (simp flip: xs(2))
  ultimately show ?thesis
    using xs by simp
qed

text \<open>A log that takes every record.\<close>

definition log_accepts :: "'w bt_env \<Rightarrow> bool" where
  "log_accepts E \<longleftrightarrow> (\<forall>p. bin_enc (be_bincode E) p \<noteq> None) \<and>
    (\<forall>w r. \<exists>n w'. wo_append (be_ops E) w r = (Inr n, w'))"

lemma append_accepted:
  assumes "log_accepts E"
  shows "\<exists>l s'. bt_append E (mk_record (be_bincode E) ty xid fl p) s = (Ok l, s')"
proof -
  obtain bs where "bin_enc (be_bincode E) p = Some bs"
    using assms unfolding log_accepts_def by blast
  moreover obtain n w' where "wo_append (be_ops E) (al_wal (bt_alloc s)) ((record_new ty bs)\<lparr> txn_id := xid, rec_flags := fl \<rparr>) = (Inr n, w')"
    using assms unfolding log_accepts_def by blast
  ultimately show ?thesis
    by (simp add: bt_append_def mk_record_def)
qed

lemma fpi_accepted:
  assumes "log_accepts E" "view s p \<noteq> None"
  shows "\<exists>s'. fpi_unless_splitting E p s = (Ok (), s')"
proof -
  obtain nd where "view s p = Some nd"
    using assms(2) by auto
  then have f: "bt_flags (guarded s p) = Ok (nd_flags nd)"
    using view_Some [of s p nd] node_reads(2) [of "guarded s p"] by simp
  obtain l s1 where "bt_append E (full_page_image (be_bincode E) p (guarded s p)) s = (Ok l, s1)"
    unfolding full_page_image_def using append_accepted [OF assms(1)] by blast
  then show ?thesis
    using f by (auto simp: fpi_unless_splitting_def split_incomplete_def bt_ensure_fpi_def bt_then_def bt_get_def bt_return_def put_page_def)
qed

text \<open>The entry at the end of the walk, and the tree without it.\<close>

lemma walk_end_entry:
  assumes so: "sorted_wrt (<) (contents s cs)" and w: "walk_end s 0 key t cs i"
  shows "(key, t) \<in> set (contents s cs) \<longleftrightarrow> (key, t) \<in> set (items_at s (cs ! i))"
    "filter (\<lambda>x. x \<noteq> (key, t)) (contents s cs) =
      contents s (take i cs) @ filter (\<lambda>x. x \<noteq> (key, t)) (items_at s (cs ! i)) @ contents s (drop (i + 1) cs)"
proof -
  have i: "i < length cs"
    using w by (simp add: walk_end_def)
  have "(key, t) \<notin> set (contents s (take i cs))" "(key, t) \<notin> set (contents s (drop (i + 1) cs))"
    using walk_end_below [OF so w, of "(key, t)"] walk_end_above [OF so w, of "(key, t)"] by blast+
  moreover from this have "filter (\<lambda>x. x \<noteq> (key, t)) (contents s (take i cs)) = contents s (take i cs)"
    "filter (\<lambda>x. x \<noteq> (key, t)) (contents s (drop (i + 1) cs)) = contents s (drop (i + 1) cs)"
    by (auto simp: filter_id_conv)
  ultimately show "(key, t) \<in> set (contents s cs) \<longleftrightarrow> (key, t) \<in> set (items_at s (cs ! i))"
    "filter (\<lambda>x. x \<noteq> (key, t)) (contents s cs) =
      contents s (take i cs) @ filter (\<lambda>x. x \<noteq> (key, t)) (items_at s (cs ! i)) @ contents s (drop (i + 1) cs)"
    by (simp_all add: contents_split [OF i, of s])
qed

lemma sorted_items:
  assumes "sorted_wrt P (contents s cs)" "i < length cs"
  shows "sorted_wrt P (items_at s (cs ! i))"
  using assms(1) by (simp add: contents_split [OF assms(2), of s] sorted_wrt_append)

lemma delete_at_spec:
  assumes t: "tree s Ls" and so: "sorted_wrt (<) (contents s (hd Ls))" and w: "walk_end s 0 key t (hd Ls) i"
    and d: "delete_at E key t (hd Ls ! i) s = (r, s')"
  shows "tree s' Ls \<and>
    contents s' (hd Ls) = (if r = Ok () then filter (\<lambda>x. x \<noteq> (key, t)) (contents s (hd Ls)) else contents s (hd Ls)) \<and>
    (r = Ok () \<longrightarrow> (key, t) \<in> set (contents s (hd Ls))) \<and> (r = Err EntryNotFound \<longleftrightarrow> (key, t) \<notin> set (contents s (hd Ls))) \<and>
    (log_accepts E \<longrightarrow> r = Ok () \<or> r = Err EntryNotFound)"
proof -
  let ?cs = "hd Ls" and ?e = "(key, t)"
  let ?p = "?cs ! i"
  let ?pg = "guarded s ?p" and ?I = "items_at s ?p"
  have l0: "0 < length Ls" "?cs = Ls ! 0"
    using treeD(1,8) [OF t] by auto
  have ch: "chain s 0 ?cs"
    using treeD(4) [OF t l0(1)] l0(2) by simp
  have i: "i < length ?cs"
    using w by (simp add: walk_end_def)
  note pg = is_pageD [OF chainD(1) [OF ch i]]
  have lp: "leaf_page ?pg" and I: "?I = leaf_items ?pg"
    using pg(5) by (simp_all add: items_at_def)
  have sI: "sorted_wrt (<) ?I"
    by (rule sorted_items [OF so i])
  define pos where "pos = length (takeWhile (\<lambda>x. x < ?e) ?I)"
  have lb: "leaf_lower_bound ?pg key t = Ok pos"
    using leaf_lower_bound_eq [OF lp] strict_sorted_imp_sorted [OF sI] by (simp add: I pos_def)
  have mem: "?e \<in> set (contents s ?cs) \<longleftrightarrow> pos < slot_count ?pg \<and> ?I ! pos = ?e"
    using walk_end_entry(1) [OF so w] takeWhile_sorted(4) [OF strict_sorted_imp_sorted [OF sI], of ?e]
    by (simp add: pos_def I)
  have at: "leaf_entry_at ?pg (of_nat pos) = Ok (?I ! pos)" if "pos < slot_count ?pg"
    using leaf_entry_at_nth [OF lp that] by (simp add: I)
  show "tree s' Ls \<and> contents s' ?cs = (if r = Ok () then filter (\<lambda>x. x \<noteq> ?e) (contents s ?cs) else contents s ?cs) \<and>
    (r = Ok () \<longrightarrow> ?e \<in> set (contents s ?cs)) \<and> (r = Err EntryNotFound \<longleftrightarrow> ?e \<notin> set (contents s ?cs)) \<and>
    (log_accepts E \<longrightarrow> r = Ok () \<or> r = Err EntryNotFound)"
  proof (cases "?e \<in> set (contents s ?cs)")
    case False
    then have "r = Err EntryNotFound" "s' = s"
      using d lb mem at by (auto simp: delete_at_def Let_def bt_then_def bt_lift_def split: if_splits)
    then show ?thesis
      using False t by simp
  next
    case True
    then have p: "pos < slot_count ?pg" "?I ! pos = ?e"
      using mem by auto
    obtain x s1 where a: "bt_append E (btree_delete (be_bincode E) ?p (of_nat pos)) s = (x, s1)"
      by fastforce
    note q = append_quiet [OF a] and g = append_pages [OF a]
    show ?thesis
    proof (cases x)
      case (Inl e)
      then have "r = Err e" "s' = s1" "e \<noteq> EntryNotFound"
        using d lb p at a by (auto simp: delete_at_def Let_def bt_then_def bt_lift_def bt_append_def split: sum.splits prod.splits)
      moreover have "\<not> log_accepts E"
        using append_accepted [of E] a Inl unfolding btree_delete_def by (metis Inl_Inr_False prod.inject)
      ultimately show ?thesis
        using True quiet_tree [OF t q] quiet_contents [OF t q l0(1)] l0(2) by simp
    next
      case (Inr l)
      have u: "unat (of_nat pos :: u16) = pos"
        by (rule slot_u16 [OF pg(3)]) (use p in simp)
      let ?pg' = "removed pos ?pg"
      note f = removed_facts [OF pg(3) p(1)] and st = stamp_facts [OF removed_facts(1) [OF pg(3) p(1)], of l]
      have r: "r = Ok ()" "s' = s1\<lparr> bt_pages := (bt_pages s1)(?p \<mapsto> bt_stamp ?pg' l) \<rparr>"
        using d lb p at a Inr remove_entry_at_eq [OF pg(3), of "of_nat pos"] u
        by (auto simp: delete_at_def Let_def bt_then_def bt_lift_def put_page_def)
      let ?nd = "node_of ?pg\<lparr> nd_entries := take pos (entries ?pg) @ drop (pos + 1) (entries ?pg) \<rparr>"
      have v: "view s' = (view s)(?p \<mapsto> ?nd)"
        using view_put [OF st(1), of s1 ?p] st(2) same_frame_node [OF f(4)] f(5) q r(2) by (simp add: quiet_def)
      have root: "root_page s' = root_page s"
        using q r(2) by (simp add: quiet_def)
      have "tree s' Ls"
        by (rule tree_entries [OF t v root l0(1)])
          (use i l0(2) lp in \<open>auto simp: node_at_def leaf_page_def dest: in_set_takeD in_set_dropD\<close>)
      moreover have "contents s' ?cs = contents s (take i ?cs) @ (take pos ?I @ drop (pos + 1) ?I) @ contents s (drop (i + 1) ?cs)"
        using contents_entries [OF ch i v] by (simp add: I leaf_items_def take_map drop_map)
      moreover have "take pos ?I @ drop (pos + 1) ?I = filter (\<lambda>x. x \<noteq> ?e) ?I"
        using remove_filter [of ?I pos] sI p by (simp add: I strict_sorted_iff)
      ultimately show ?thesis
        using walk_end_entry(2) [OF so w] r(1) True by simp
    qed
  qed
qed

lemma delete_leaf_found:
  assumes t: "tree s Ls" and E: "no_faults E" "log_accepts E" and wk: "list_all (walkable s) Ls"
  shows "\<exists>leaf p h x s1. descend_to_leaf E s key t = Ok (leaf, p, h) \<and> (\<exists>pg. bt_pin E s leaf = Ok pg) \<and>
      pin_leaf_for_write E key t leaf 0 False s = (Ok x, s1)"
proof -
  let ?cs = "hd Ls"
  have l0: "0 < length Ls" "?cs = Ls ! 0"
    using treeD(1,8) [OF t] by auto
  have ch: "chain s 0 ?cs"
    using treeD(4) [OF t l0(1)] l0(2) by simp
  obtain i p h where d: "descend_to_leaf E s key t = Ok (?cs ! i, p, h)" "walk_end s 0 key t ?cs i"
    using descend_to_leaf_tree [OF t wk E(1)] by blast
  have i: "i < length ?cs"
    using d(2) by (simp add: walk_end_def)
  let ?p = "?cs ! i"
  have v: "view s ?p \<noteq> None"
    using view_page [OF chainD(1) [OF ch i]] by simp
  obtain s1 where f: "fpi_unless_splitting E ?p s = (Ok (), s1)"
    using fpi_accepted [OF E(2) v] by blast
  note q = fpi_unless_splitting_quiet [OF v f]
  have ch1: "chain s1 0 ?cs"
    using chain_cong [OF ch, of s1] q by (simp add: quiet_def)
  have w: "walk_end s1 0 key t ?cs i"
    using quiet_walk_end [OF ch q] d(2) by simp
  note c = chainD [OF ch1 i] and pg = is_pageD [OF chainD(1) [OF ch1 i]]
  have "empties s ?cs + 2 \<le> MAX_CHAIN_HOPS"
  proof -
    have "(empties s ?cs + 2) * (2 * length ?cs) \<le> MAX_CHAIN_HOPS"
      using wk l0 by (auto simp: list_all_length walkable_def)
    then show ?thesis
      using i by (cases "length ?cs") auto
  qed
  then have "first_full s1 ?cs (i + 1) - (i + 1) \<le> MAX_CHAIN_HOPS"
    using first_full_facts(3) [of s ?cs "i + 1"] quiet_first_full [OF ch q, of "i + 1"] by simp
  then have rt: "right_target E s1 0 key t (nd_next (node_at s1 ?p)) 0 = Ok (None, first_full s1 ?cs (i + 1) - (i + 1))"
    using right_target_chain [OF ch1 E(1) i, of 0 key t] w by (simp add: walk_end_def Let_def)
  have "write_round E s1 key t ?p 0 = Ok (Inr ())"
  proof (cases "i = 0")
    case True
    then show ?thesis
      using rt first_above_eq [OF c(1), of key t] pg(8,9) c(3) by (simp add: write_round_def)
  next
    case False
    then have "\<not> dominated s1 0 key t ?p"
      using w by (simp add: walk_end_def)
    then show ?thesis
      using rt first_above_eq [OF c(1), of key t] pg(8,9) by (simp add: write_round_def dominated_def empty_at_def)
  qed
  then have "pin_leaf_for_write E key t ?p 0 False s = (Ok (?p, False), s1)"
    using f by (subst pin_leaf_for_write.simps) (simp add: bt_then_def)
  then show ?thesis
    using d(1) is_pageD(11) [OF chainD(1) [OF ch i] E(1)] by blast
qed

text \<open>
  C12: deletion.  Whatever fails on the way, the tree stays well formed and loses at most the
  entry asked for: it is removed exactly when the operation succeeds, which only happens when
  it was there.  On pages that can be read, a log that takes every record and levels within
  the hop bound, the operation removes a present entry and reports an absent one as missing.
\<close>

theorem btree_delete_correct:
  assumes "tree s Ls" "sorted_wrt (<) (contents s (hd Ls))" "delete E key t s = (r, s')"
  shows "tree s' Ls \<and>
    contents s' (hd Ls) = (if r = Ok () then filter (\<lambda>x. x \<noteq> (key, t)) (contents s (hd Ls)) else contents s (hd Ls)) \<and>
    (r = Ok () \<longrightarrow> (key, t) \<in> set (contents s (hd Ls))) \<and>
    (no_faults E \<and> log_accepts E \<and> list_all (walkable s) Ls \<longrightarrow>
      r = (if (key, t) \<in> set (contents s (hd Ls)) then Ok () else Err EntryNotFound))"
proof -
  let ?cs = "hd Ls" and ?e = "(key, t)"
  have l0: "0 < length Ls" "?cs = Ls ! 0"
    using treeD(1,8) [OF assms(1)] by auto
  have ch: "chain s 0 ?cs"
    using treeD(4) [OF assms(1) l0(1)] l0(2) by simp
  show ?thesis
  proof (cases "\<exists>leaf p h x s1. descend_to_leaf E s key t = Ok (leaf, p, h) \<and> (\<exists>pg. bt_pin E s leaf = Ok pg) \<and>
      pin_leaf_for_write E key t leaf 0 False s = (Ok x, s1)")
    case True
    then obtain leaf p h pg c hh s1 where d: "descend_to_leaf E s key t = Ok (leaf, p, h)" "bt_pin E s leaf = Ok pg"
      "pin_leaf_for_write E key t leaf 0 False s = (Ok (c, hh), s1)"
      by auto
    have "leaf \<in> set ?cs"
      using descend_to_leaf_mem [OF assms(1)] d(1) by (simp add: descend_to_leaf_def)
    from pin_leaf_for_write_spec [OF ch this d(3)] obtain i where q: "quiet s s1" and c: "c = ?cs ! i" "walk_end s 0 key t ?cs i"
      by blast
    have t1: "tree s1 Ls" and c1: "contents s1 ?cs = contents s ?cs" and w1: "walk_end s1 0 key t ?cs i"
      using quiet_tree [OF assms(1) q] quiet_contents [OF assms(1) q l0(1)] l0(2) quiet_walk_end [OF ch q] c(2) by simp_all
    have da: "delete_at E key t (?cs ! i) s1 = (r, s')"
      using assms(3) d c(1) by (simp add: delete_def bt_then_def bt_get_def)
    note sp = delete_at_spec [OF t1 _ w1 da, unfolded c1, OF assms(2)]
    then have "log_accepts E \<longrightarrow> r = (if ?e \<in> set (contents s ?cs) then Ok () else Err EntryNotFound)"
      by (cases "?e \<in> set (contents s ?cs)") auto
    then show ?thesis
      using sp by blast
  next
    case False
    have nf: "\<not> (no_faults E \<and> log_accepts E \<and> list_all (walkable s) Ls)"
      using delete_leaf_found [OF assms(1), of E key t] False by blast
    obtain s1 where "quiet s s1" "s' = s1" "r \<noteq> Ok ()"
    proof (cases "descend_to_leaf E s key t")
      case (Inl e)
      then show ?thesis
        using that [of s] assms(3) by (auto simp: delete_def bt_then_def bt_get_def)
    next
      case (Inr y)
      obtain leaf p h where y: "y = (leaf, p, h)"
        by (cases y)
      have m: "leaf \<in> set ?cs"
        using descend_to_leaf_mem [OF assms(1)] Inr y by (simp add: descend_to_leaf_def)
      show ?thesis
      proof (cases "bt_pin E s leaf")
        case (Inl e)
        then show ?thesis
          using that [of s] assms(3) Inr y by (auto simp: delete_def bt_then_def bt_get_def)
      next
        case pin: (Inr pg)
        obtain z s1 where z: "pin_leaf_for_write E key t leaf 0 False s = (z, s1)"
          by fastforce
        then obtain e where "z = Err e"
          using False Inr y pin by (cases z) auto
        then show ?thesis
          using that [of s1] pin_leaf_for_write_spec [OF ch m z] assms(3) Inr y pin z
          by (auto simp: delete_def bt_then_def bt_get_def)
      qed
    qed
    then show ?thesis
      using nf quiet_tree [OF assms(1), of s1] quiet_contents [OF assms(1) _ l0(1), of s1] l0(2) by (simp; blast)
  qed
qed

theorem btree_delete_correct_witness:
  "tree (demo_store [1 \<mapsto> demo_leaf1] 1) [[1]] \<and> log_accepts demo_env \<and>
   (\<exists>s'. delete demo_env [7] demo_tid (demo_store [1 \<mapsto> demo_leaf1] 1) = (Ok (), s') \<and> contents s' [1] = [])"
proof -
  let ?s = "demo_store [1 \<mapsto> demo_leaf1] 1"
  note d = demo_tree
  have la: "log_accepts demo_env"
    by (simp add: log_accepts_def demo_env_def)
  obtain r s' where x: "delete demo_env [7] demo_tid ?s = (r, s')"
    by fastforce
  show ?thesis
    using btree_delete_correct [OF d(1) _ x] d x la no_faults_demo by auto
qed

end
