(* ===== verification/Btree_Split.thy ===== *)
theory Btree_Split
  imports Btree_Update "HOL-Library.Multiset"
begin

text \<open>
  The invariant of an index at rest and in the middle of a split, and its preservation by the
  single steps of a write: log appends and page allocation, a change of the entries of a
  page, and the first two steps of a split.
\<close>

section \<open>The allocator\<close>

text \<open>No file grows beyond \<open>2 ^ 60\<close> bytes, so page numbers do not wrap around.\<close>

definition files_bounded :: "'w bt_env \<Rightarrow> bool" where
  "files_bounded E \<longleftrightarrow> (\<forall>len. be_ext E len \<longrightarrow> unat len \<le> 2 ^ 60)"

definition alloc_ok :: "'w allocator \<Rightarrow> bool" where
  "alloc_ok a \<longleftrightarrow> al_page_size a = 8192 \<and> unat (al_file_len a) \<le> 2 ^ 60 \<and> 0 < unat (al_next a) \<and> unat (al_next a) \<le> 2 ^ 48 \<and>
    distinct (al_freelist a) \<and> (\<forall>p \<in> set (al_freelist a). 0 < unat p \<and> unat p < unat (al_next a))"

definition used :: "'w allocator \<Rightarrow> page_id \<Rightarrow> bool" where
  "used a p \<longleftrightarrow> unat p < unat (al_next a) \<and> p \<notin> set (al_freelist a)"

lemma alloc_page_env:
  assumes "alloc_page bc ops ext a = (r, a')"
  shows "al_page_size a' = al_page_size a" "al_file_len a' = al_file_len a \<or> ext (al_file_len a')"
  using assms by (auto simp: alloc_page_def freelist_pop_def ensure_data_file_capacity_def Let_def split: if_splits prod.splits sum.splits)

lemma butlast_last: "distinct xs \<Longrightarrow> xs \<noteq> [] \<Longrightarrow> last xs \<notin> set (butlast xs)"
  by (metis append_butlast_last_id distinct_append disjoint_iff list.set_intros(1))

lemma alloc_page_used:
  assumes E: "files_bounded E" and ok: "alloc_ok a" and al: "alloc_page bc ops (be_ext E) a = (r, a')"
  shows "alloc_ok a'" "used a p \<Longrightarrow> used a' p" "r = Ok pid \<Longrightarrow> pid \<noteq> 0 \<and> \<not> used a pid \<and> used a' pid"
proof -
  have len: "unat (al_file_len a') \<le> 2 ^ 60"
    using alloc_page_env(2) [OF al] E ok by (auto simp: files_bounded_def alloc_ok_def)
  have ps: "al_page_size a' = 8192"
    using alloc_page_env(1) [OF al] ok by (simp add: alloc_ok_def)
  have fl: "distinct (al_freelist a)" "\<forall>p \<in> set (al_freelist a). 0 < unat p \<and> unat p < unat (al_next a)"
    using ok by (simp_all add: alloc_ok_def)
  have bl: "\<forall>p \<in> set (butlast (al_freelist a)). p \<in> set (al_freelist a) \<and> 0 < unat p \<and> unat p < unat (al_next a)"
    using fl(2) by (meson in_set_butlastD)
  have nx: "0 < unat (al_next a)" "unat (al_next a) \<le> 2 ^ 48"
    using ok by (simp_all add: alloc_ok_def)
  have "alloc_ok a' \<and> (used a p \<longrightarrow> used a' p) \<and> (\<forall>pid. r = Ok pid \<longrightarrow> pid \<noteq> 0 \<and> \<not> used a pid \<and> used a' pid)"
  proof (cases r)
    case (Inl e)
    then have "al_next a' = al_next a" "al_freelist a' = al_freelist a \<or> al_freelist a' = butlast (al_freelist a)"
      using alloc_page_fields(2) [OF al, of e] by auto
    then show ?thesis
      using Inl len ps fl nx bl by (auto simp: alloc_ok_def used_def distinct_butlast dest: in_set_butlastD)
  next
    case (Inr q)
    note f = alloc_page_fields(1) [OF al, of q]
    show ?thesis
    proof (cases "al_freelist a = []")
      case True
      then have q: "q = al_next a" "al_freelist a' = []" "al_next a' = al_next a + 1"
        using f Inr by auto
      have "unat q * 8192 \<le> unat (al_file_len a')"
        using alloc_page_file [of bc ops "be_ext E" a q a'] al Inr ok nx(2) q(1) by (simp add: alloc_ok_def)
      then have b: "unat (al_next a) \<le> 2 ^ 47"
        using len q(1) by simp
      then have "unat (al_next a + 1) = unat (al_next a) + 1"
        by (simp add: unat_word_ariths(1))
      then show ?thesis
        using Inr q len ps nx b True by (auto simp: alloc_ok_def used_def)
    next
      case False
      then have q: "q = last (al_freelist a)" "al_freelist a' = butlast (al_freelist a)"
        using f Inr by auto
      then have m: "q \<in> set (al_freelist a)"
        using False by simp
      then have "0 < unat q" "unat q < unat (al_next a)"
        using fl(2) by auto
      then have "al_next a' = al_next a" "q \<noteq> 0"
        using f Inr by auto
      then show ?thesis
        using Inr q m len ps nx fl bl butlast_last [OF fl(1) False] \<open>unat q < unat (al_next a)\<close>
        by (auto simp: alloc_ok_def used_def distinct_butlast dest: in_set_butlastD)
    qed
  qed
  then show "alloc_ok a'" "used a p \<Longrightarrow> used a' p" "r = Ok pid \<Longrightarrow> pid \<noteq> 0 \<and> \<not> used a pid \<and> used a' pid"
    by blast+
qed

section \<open>The invariant\<close>

definition tree_pages :: "page_id list list \<Rightarrow> page_id set" where
  "tree_pages Ls = (\<Union>cs \<in> set Ls. set cs)"

text \<open>
  Between a leaf and the page its \<open>prev\<close> link names lies a non-empty page, unless that page is
  the first.
\<close>

definition hints :: "'w bt_store \<Rightarrow> page_id list \<Rightarrow> bool" where
  "hints s cs \<longleftrightarrow> (\<forall>i a. a < i \<and> i < length cs \<and> nd_prev (node_at s (cs ! i)) = cs ! a \<and>
    (\<forall>j. a \<le> j \<and> j < i \<longrightarrow> empty_at s (cs ! j)) \<longrightarrow> a = 0)"

definition at_root :: "'w bt_store \<Rightarrow> page_id list list \<Rightarrow> page_id \<Rightarrow> bool" where
  "at_root s Ls r \<longleftrightarrow> Ls \<noteq> [] \<and> r \<in> set (last Ls) \<and> full s (length Ls - 1) r"

text \<open>The root the meta page names: the last record counts.\<close>

definition meta_root :: "'w bt_store \<Rightarrow> page_id \<Rightarrow> bool" where
  "meta_root s r \<longleftrightarrow> (\<exists>nd lv. view s (meta_page s) = Some nd \<and> nd_entries nd \<noteq> [] \<and>
    decode_meta_record (last (nd_entries nd)) = Ok (r, lv))"

definition settled :: "'w bt_store \<Rightarrow> page_id list list \<Rightarrow> bool" where
  "settled s Ls \<longleftrightarrow> (\<forall>r. meta_root s r \<longrightarrow> at_root s Ls r)"

text \<open>
  The levels, in order and with sound links; the pages of the tree and the meta page are in
  use.  The meta page names a root on the top level, or, after a promotion of the root whose
  meta record was not written, one on the level below the root of this handle.
\<close>

definition index_inv :: "'w bt_store \<Rightarrow> page_id list list \<Rightarrow> bool" where
  "index_inv s Ls \<longleftrightarrow> tree s Ls \<and> sorted (contents s (hd Ls)) \<and> hints s (hd Ls) \<and>
    alloc_ok (bt_alloc s) \<and> (\<forall>p \<in> insert (meta_page s) (tree_pages Ls). used (bt_alloc s) p) \<and>
    meta_page s \<notin> tree_pages Ls \<and> meta_page s \<noteq> 0 \<and> view s (meta_page s) \<noteq> None \<and>
    (settled s Ls \<or> (\<exists>Ms. Ms \<noteq> [] \<and> Ls = Ms @ [[root_page s]] \<and> settled s Ms))"

text \<open>
  What the passes know of the index: its entries, some pages with their levels, some pages
  freshly allocated, and whether the meta page is up to date.
\<close>

definition in_tree :: "'w bt_store \<Rightarrow> page_id list list \<Rightarrow> page_id \<Rightarrow> nat \<Rightarrow> bool" where
  "in_tree s Ls p l \<longleftrightarrow> l < length Ls \<and> p \<in> set (Ls ! l) \<and> full s l p"

definition fresh :: "'w bt_store \<Rightarrow> page_id list list \<Rightarrow> page_id \<Rightarrow> bool" where
  "fresh s Ls p \<longleftrightarrow> p \<noteq> 0 \<and> p \<notin> tree_pages Ls \<and> p \<noteq> meta_page s \<and> used (bt_alloc s) p \<and> length (guarded s p) = 8192"

definition knows ::
  "(byte list \<times> tid) list \<Rightarrow> (page_id \<times> nat) set \<Rightarrow> page_id set \<Rightarrow> bool \<Rightarrow> 'w bt_store \<Rightarrow> page_id list list \<Rightarrow> bool" where
  "knows C R F b s Ls \<longleftrightarrow> index_inv s Ls \<and> contents s (hd Ls) = C \<and> (\<forall>(p, l) \<in> R. in_tree s Ls p l) \<and>
    (\<forall>p \<in> F. fresh s Ls p) \<and> (b \<longrightarrow> settled s Ls)"

definition known ::
  "(byte list \<times> tid) list \<Rightarrow> (page_id \<times> nat) set \<Rightarrow> page_id set \<Rightarrow> bool \<Rightarrow> 'w bt_store \<Rightarrow> bool" where
  "known C R F b s \<longleftrightarrow> (\<exists>Ls. knows C R F b s Ls)"

lemma bex_set_nth: "(\<exists>x \<in> set xs. P x) \<longleftrightarrow> (\<exists>i < length xs. P (xs ! i))"
  unfolding Bex_def in_set_conv_nth by blast

lemma known_weaken: "known C R F b s \<Longrightarrow> R' \<subseteq> R \<Longrightarrow> F' \<subseteq> F \<Longrightarrow> (b' \<longrightarrow> b) \<Longrightarrow> known C R' F' b' s"
  unfolding known_def knows_def by (elim exE, rule_tac x = Ls in exI) (auto dest: subsetD)

lemma tree_pages_nth: "p \<in> tree_pages Ls \<longleftrightarrow> (\<exists>l < length Ls. p \<in> set (Ls ! l))"
proof -
  have "p \<in> tree_pages Ls \<longleftrightarrow> (\<exists>cs \<in> set Ls. p \<in> set cs)"
    by (simp add: tree_pages_def)
  also have "\<dots> \<longleftrightarrow> (\<exists>l < length Ls. p \<in> set (Ls ! l))"
    by (rule bex_set_nth)
  finally show ?thesis .
qed

lemma tree_page: "tree s Ls \<Longrightarrow> p \<in> tree_pages Ls \<Longrightarrow> \<exists>lv. is_page s lv p"
  unfolding tree_pages_nth using chain_mem treeD(4) by blast

subsection \<open>Changes outside the tree\<close>

definition outside :: "page_id list list \<Rightarrow> 'w bt_store \<Rightarrow> 'w bt_store \<Rightarrow> bool" where
  "outside Ls s s' \<longleftrightarrow> (\<forall>p \<in> insert (meta_page s) (tree_pages Ls). view s' p = view s p) \<and>
    root_page s' = root_page s \<and> meta_page s' = meta_page s \<and> alloc_ok (bt_alloc s') \<and>
    (\<forall>p. used (bt_alloc s) p \<longrightarrow> used (bt_alloc s') p)"

lemma outside_node: "tree s Ls \<Longrightarrow> outside Ls s s' \<Longrightarrow> p \<in> tree_pages Ls \<Longrightarrow> node_at s' p = node_at s p"
  using tree_page [of s Ls p] view_cong(2) [of s' p s] by (auto simp: outside_def)

lemma outside_full: "tree s Ls \<Longrightarrow> outside Ls s s' \<Longrightarrow> p \<in> tree_pages Ls \<Longrightarrow> full s' l p = full s l p"
  using outside_node [of s Ls s' p] by (simp add: full_def node_reads_at)

lemma outside_meta: "outside Ls s s' \<Longrightarrow> meta_root s' = meta_root s"
  by (auto simp: meta_root_def outside_def)

lemma outside_settled:
  assumes "tree s Ls" "outside Ls s s'" "set Ms \<subseteq> set Ls"
  shows "settled s' Ms = settled s Ms"
proof -
  have "at_root s' Ms r = at_root s Ms r" for r
  proof (cases "Ms \<noteq> [] \<and> r \<in> set (last Ms)")
    case True
    then have "r \<in> tree_pages Ls"
      using assms(3) last_in_set by (auto simp: tree_pages_def)
    then show ?thesis
      using outside_full [OF assms(1,2)] by (simp add: at_root_def)
  qed (auto simp: at_root_def)
  then show ?thesis
    by (simp add: settled_def outside_meta [OF assms(2)])
qed

lemma leaves_in_tree: "tree s Ls \<Longrightarrow> p \<in> set (hd Ls) \<Longrightarrow> p \<in> tree_pages Ls"
  using treeD(1) [of s Ls] by (auto simp: tree_pages_def intro: bexI [of _ "hd Ls"])

lemma hints_mono:
  assumes "hints s cs" "\<forall>p \<in> set cs. nd_prev (node_at s' p) = nd_prev (node_at s p) \<and> (empty_at s' p \<longrightarrow> empty_at s p)"
  shows "hints s' cs"
  unfolding hints_def
proof (intro allI impI)
  fix i a
  assume h: "a < i \<and> i < length cs \<and> nd_prev (node_at s' (cs ! i)) = cs ! a \<and> (\<forall>j. a \<le> j \<and> j < i \<longrightarrow> empty_at s' (cs ! j))"
  then have "nd_prev (node_at s (cs ! i)) = cs ! a" "\<forall>j. a \<le> j \<and> j < i \<longrightarrow> empty_at s (cs ! j)"
    using assms(2) by auto
  then show "a = 0"
    using assms(1) h unfolding hints_def by blast
qed

lemma outside_hints:
  assumes "tree s Ls" "outside Ls s s'" "hints s (hd Ls)"
  shows "hints s' (hd Ls)"
  using assms(3) by (rule hints_mono) (use outside_node [OF assms(1,2) leaves_in_tree [OF assms(1)]] in \<open>simp add: node_reads_at\<close>)

lemma outside_knows:
  assumes "knows C R {} b s Ls" "outside Ls s s'"
  shows "knows C R {} b s' Ls"
proof -
  have i: "tree s Ls" "hints s (hd Ls)" "\<forall>p \<in> insert (meta_page s) (tree_pages Ls). used (bt_alloc s) p"
    "settled s Ls \<or> (\<exists>Ms. Ms \<noteq> [] \<and> Ls = Ms @ [[root_page s]] \<and> settled s Ms)"
    using assms(1) by (auto simp: knows_def index_inv_def)
  have l0: "0 < length Ls" "hd Ls = Ls ! 0"
    using treeD(1,8) [OF i(1)] by auto
  have v: "\<forall>p \<in> insert (meta_page s) (tree_pages Ls). view s' p = view s p" "root_page s' = root_page s" "meta_page s' = meta_page s"
    "alloc_ok (bt_alloc s')" "\<forall>p. used (bt_alloc s) p \<longrightarrow> used (bt_alloc s') p"
    using assms(2) by (auto simp: outside_def)
  have tr: "tree s' Ls"
    by (rule tree_cong [OF i(1) _ v(2)]) (use v(1) in \<open>auto simp: tree_pages_nth\<close>)
  have c: "contents s' (hd Ls) = contents s (hd Ls)"
    by (rule contents_cong [of s "of_nat 0"]) (use treeD(4) [OF i(1) l0(1)] l0(2) v(1) leaves_in_tree [OF i(1)] in auto)
  have t: "in_tree s' Ls p l = in_tree s Ls p l" for p l
    using outside_full [OF i(1) assms(2), of p l] by (auto simp: in_tree_def tree_pages_nth)
  have se: "settled s' Ls = settled s Ls" "Ls = Ms @ [x] \<Longrightarrow> settled s' Ms = settled s Ms" for Ms x
    using outside_settled [OF i(1) assms(2)] by auto
  have last: "settled s' Ls \<or> (\<exists>Ms. Ms \<noteq> [] \<and> Ls = Ms @ [[root_page s]] \<and> settled s' Ms)"
    using i(4) se by blast
  have "index_inv s' Ls"
    unfolding index_inv_def v(2,3) c
    using assms(1) tr outside_hints [OF i(1) assms(2) i(2)] last v(1,4,5)
    unfolding knows_def index_inv_def by (metis insertI1)
  then show ?thesis
    using assms(1) c t se(1) by (simp add: knows_def)
qed

lemma quiet_outside: "index_inv s Ls \<Longrightarrow> quiet s s' \<Longrightarrow> outside Ls s s'"
  by (auto simp: outside_def quiet_def index_inv_def used_def alloc_ok_def)

lemma quiet_knows:
  assumes "knows C R F b s Ls" "quiet s s'"
  shows "knows C R F b s' Ls"
proof -
  have "knows C R {} b s Ls" "index_inv s Ls"
    using assms(1) by (auto simp: knows_def)
  then have "knows C R {} b s' Ls"
    using outside_knows quiet_outside assms(2) by blast
  moreover have "fresh s' Ls p = fresh s Ls p" for p
    using assms(2) by (auto simp: fresh_def quiet_def used_def)
  ultimately show ?thesis
    using assms(1) by (simp add: knows_def)
qed

lemma quiet_known: "known C R F b s \<Longrightarrow> quiet s s' \<Longrightarrow> known C R F b s'"
  using quiet_knows unfolding known_def by blast

subsection \<open>Steps that leave the tree alone\<close>

lemma view_other: "q \<noteq> p \<Longrightarrow> view (s\<lparr> bt_pages := (bt_pages s)(p \<mapsto> pg) \<rparr>) q = view s q"
  by (simp add: view_def node_at_def)

lemma triple_knows:
  fixes m :: "('w, 'a) bt"
  assumes "\<And>s Ls. knows C R F b s Ls \<Longrightarrow> case m s of (Inr a, s') \<Rightarrow> Q a s' | (Inl e, s') \<Rightarrow> X e s'"
  shows "triple (known C R F b) m Q X"
  unfolding triple_def
proof (intro allI impI)
  fix s :: "'w bt_store"
  assume "known C R F b s"
  then obtain Ls where "knows C R F b s Ls"
    unfolding known_def ..
  then show "case m s of (Inr a, s') \<Rightarrow> Q a s' | (Inl e, s') \<Rightarrow> X e s'"
    by (rule assms)
qed

lemma append_known: "triple (known C R F b) (bt_append E r) (\<lambda>_. known C R F b) (\<lambda>_. known C R F b)"
  by (rule tripleI) (auto dest: append_quiet intro: quiet_known)

lemma known_view: "known C R F b s \<Longrightarrow> (p, l) \<in> R \<Longrightarrow> \<exists>nd. view s p = Some nd \<and> nd_level nd = of_nat l \<and> p \<noteq> 0"
proof -
  assume k: "known C R F b s" and p: "(p, l) \<in> R"
  then obtain Ls where "tree s Ls" "l < length Ls" "p \<in> set (Ls ! l)"
    by (auto simp: known_def knows_def index_inv_def in_tree_def)
  then have "is_page s (of_nat l) p"
    using chain_mem [OF treeD(4)] by blast
  then show ?thesis
    by (auto simp: is_page_view)
qed

lemma pin_mut_known:
  assumes "(p, l) \<in> R"
  shows "triple (known C R F b) (bt_pin_mut E p) (\<lambda>pg s. known C R F b s \<and> pg = guarded s p) (\<lambda>_. known C R F b)"
  unfolding bt_pin_mut_def
proof (rule triple_then)
  show "triple (known C R F b) (bt_get (\<lambda>s. bt_pin E s p)) (\<lambda>_. known C R F b) (\<lambda>_. known C R F b)"
    by (rule triple_get)
  show "triple (known C R F b) (bt_then (bt_ensure_fpi E p) (\<lambda>_. bt_get (\<lambda>s. Ok (guarded s p))))
      (\<lambda>pg s. known C R F b s \<and> pg = guarded s p) (\<lambda>_. known C R F b)"
  proof (rule triple_then)
    show "triple (known C R F b) (bt_ensure_fpi E p) (\<lambda>_. known C R F b) (\<lambda>_. known C R F b)"
      by (rule tripleI) (use ensure_fpi_quiet known_view [OF _ assms] quiet_known in \<open>metis option.distinct(1)\<close>)+
  qed (rule triple_get; simp)
qed

lemma outside_trans: "outside Ls s s1 \<Longrightarrow> outside Ls s1 s2 \<Longrightarrow> outside Ls s s2"
  by (auto simp: outside_def)

lemma new_page_knows:
  assumes "files_bounded E" and k: "knows C R {} b s Ls" and run: "bt_new_page E s = (r, s')"
  shows "outside Ls s s'" "knows C R {} b s' Ls" "r = Ok p \<Longrightarrow> knows C R {p} b s' Ls"
proof -
  obtain x a where al: "alloc_page (be_bincode E) (be_ops E) (be_ext E) (bt_alloc s) = (x, a)"
    by fastforce
  have i: "index_inv s Ls" "alloc_ok (bt_alloc s)"
    using k by (auto simp: knows_def index_inv_def)
  note u = alloc_page_used [OF assms(1) i(2) al]
  define s1 where "s1 = s\<lparr> bt_alloc := a \<rparr>"
  have s1: "meta_page s1 = meta_page s" "bt_alloc s1 = a"
    by (simp_all add: s1_def)
  have o1: "outside Ls s s1"
    using u(1,2) by (auto simp: outside_def view_def guarded_def node_at_def s1_def)
  have "outside Ls s s' \<and> (\<forall>p. r = Ok p \<longrightarrow> fresh s' Ls p)"
  proof (cases x)
    case (Inl e)
    then have "r = Err (BtStorage e)" "s' = s1"
      using run al by (simp_all add: bt_new_page_def s1_def)
    then show ?thesis
      using o1 by simp
  next
    case (Inr pid)
    show ?thesis
    proof (cases "be_fail E pid s1")
      case None
      let ?s2 = "s1\<lparr> bt_pages := (bt_pages s1)(pid \<mapsto> replicate PAGE_SIZE 0) \<rparr>"
      have n: "pid \<noteq> 0" "\<not> used (bt_alloc s) pid" "used a pid"
        using u(3) [OF Inr] by auto
      have d: "pid \<noteq> meta_page s" "pid \<notin> tree_pages Ls"
        using n(2) i(1) by (auto simp: index_inv_def)
      have "outside Ls s1 ?s2"
        using u(1) d s1 by (auto simp: outside_def intro!: view_other)
      moreover have "fresh ?s2 Ls pid"
        using n d s1 by (simp add: fresh_def PAGE_SIZE_def)
      moreover have "(r, s') = (Ok pid, ?s2)"
        using run al Inr None by (simp add: bt_new_page_def Let_def bt_then_def put_page_def bt_return_def s1_def)
      ultimately show ?thesis
        using outside_trans [OF o1] by auto
    next
      case (Some e)
      then have "r = Err (BtStorage e)" "s' = s1"
        using run al Inr by (simp_all add: bt_new_page_def Let_def s1_def)
      then show ?thesis
        using o1 by simp
    qed
  qed
  then show o: "outside Ls s s'" and "r = Ok p \<Longrightarrow> knows C R {p} b s' Ls"
    using outside_knows [OF k] by (auto simp: knows_def)
  show "knows C R {} b s' Ls"
    by (rule outside_knows [OF k o])
qed

lemma new_page_known:
  fixes E :: "'w bt_env"
  assumes "files_bounded E"
  shows "triple (known C R {} b) (bt_new_page E) (\<lambda>p. known C R {p} b) (\<lambda>_. known C R {} b)"
proof (rule triple_knows)
  fix s :: "'w bt_store" and Ls
  assume k: "knows C R {} b s Ls"
  obtain r s' where run: "bt_new_page E s = (r, s')"
    by fastforce
  show "case bt_new_page E s of (Inr p, s') \<Rightarrow> known C R {p} b s' | (Inl e, s') \<Rightarrow> known C R {} b s'"
    using new_page_knows(2,3) [OF assms k run] run by (auto simp: known_def split: sum.splits)
qed

subsection \<open>Changing the entries of a page\<close>

definition replaced :: "page_id \<Rightarrow> node \<Rightarrow> 'w bt_store \<Rightarrow> 'w bt_store \<Rightarrow> bool" where
  "replaced p nd s s' \<longleftrightarrow> view s' = (view s)(p \<mapsto> nd) \<and> root_page s' = root_page s \<and> meta_page s' = meta_page s \<and>
    (\<exists>w. bt_alloc s' = (bt_alloc s)\<lparr> al_wal := w \<rparr>) \<and> (\<forall>q. length (guarded s' q) = length (guarded s q))"

lemma put_replaced:
  assumes "quiet s s1" "view s p \<noteq> None" "btree_page pg"
  shows "replaced p (node_of pg) s (s1\<lparr> bt_pages := (bt_pages s1)(p \<mapsto> bt_stamp pg l) \<rparr>)"
proof -
  note st = stamp_facts [OF assms(3), of l]
  obtain nd where "view s1 p = Some nd"
    using assms(1,2) by (auto simp: quiet_def)
  then have "length (guarded s1 p) = 8192" "length (bt_stamp pg l) = 8192"
    using view_Some [of s1 p nd] btree_pageD(2) [of "guarded s1 p"] btree_pageD(2) [OF st(1)] by auto
  moreover have "view (s1\<lparr> bt_pages := (bt_pages s1)(p \<mapsto> bt_stamp pg l) \<rparr>) = (view s)(p \<mapsto> node_of pg)"
    using view_put [OF st(1), of s1 p] st(2) assms(1) by (simp add: quiet_def)
  ultimately show ?thesis
    using assms(1) by (auto simp: replaced_def quiet_def)
qed

lemma replaced_full:
  assumes "tree s Ls" "replaced p nd s s'" "nd_entries (node_at s p) \<noteq> [] \<longrightarrow> nd_entries nd \<noteq> []" "q \<in> tree_pages Ls" "full s l q"
  shows "full s' l q"
proof -
  obtain lv where "is_page s lv q"
    using tree_page [OF assms(1,4)] by blast
  from node_update [OF this, of s' p nd] show ?thesis
    using assms(2,3,5) by (auto simp: replaced_def full_def node_reads_at)
qed

lemma replaced_settled:
  assumes "tree s Ls" "replaced p nd s s'" "nd_entries (node_at s p) \<noteq> [] \<longrightarrow> nd_entries nd \<noteq> []" "p \<noteq> meta_page s"
    and "set Ms \<subseteq> set Ls" "settled s Ms"
  shows "settled s' Ms"
  unfolding settled_def
proof (intro allI impI)
  fix r
  assume "meta_root s' r"
  then have "meta_root s r"
    using assms(2,4) by (auto simp: meta_root_def replaced_def)
  then have r: "at_root s Ms r"
    using assms(6) by (simp add: settled_def)
  then have "r \<in> tree_pages Ls"
    using assms(5) last_in_set by (auto simp: at_root_def tree_pages_def)
  then show "at_root s' Ms r"
    using r replaced_full [OF assms(1-3)] by (auto simp: at_root_def)
qed

lemma replaced_knows:
  assumes k: "knows C R F b s Ls" and p: "l < length Ls" "p \<in> set (Ls ! l)" and u: "replaced p nd s s'"
    and nd: "nd_level nd = nd_level (node_at s p)" "nd_prev nd = nd_prev (node_at s p)" "nd_next nd = nd_next (node_at s p)"
    and e: "\<forall>e \<in> set (nd_entries nd). (if l = 0 then 10 else 8) \<le> length e"
    and ne: "nd_entries (node_at s p) \<noteq> [] \<longrightarrow> nd_entries nd \<noteq> []"
    and kids: "\<And>e. 0 < l \<Longrightarrow> e \<in> set (nd_entries nd) \<Longrightarrow> in_tree s Ls (snd (internal_item e)) (l - 1)"
    and so: "sorted (contents s' (hd Ls))"
  shows "knows (contents s' (hd Ls)) R F b s' Ls"
proof -
  have i: "tree s Ls" "hints s (hd Ls)" "meta_page s \<notin> tree_pages Ls" "alloc_ok (bt_alloc s)"
    "settled s Ls \<or> (\<exists>Ms. Ms \<noteq> [] \<and> Ls = Ms @ [[root_page s]] \<and> settled s Ms)"
    using k by (auto simp: knows_def index_inv_def)
  have v: "view s' = (view s)(p \<mapsto> nd)" "root_page s' = root_page s" "meta_page s' = meta_page s"
    "alloc_ok (bt_alloc s')" "used (bt_alloc s') = used (bt_alloc s)"
    using u i(4) by (auto simp: replaced_def alloc_ok_def used_def fun_eq_iff)
  have pm: "p \<noteq> meta_page s" "p \<in> tree_pages Ls"
    using p i(3) by (auto simp: tree_pages_nth)
  have tr: "tree s' Ls"
    by (rule tree_entries [OF i(1) v(1,2) p nd e]) (use ne kids in \<open>auto simp: in_tree_def\<close>)
  have n: "node_at s' q = (if q = p then nd else node_at s q)" if "q \<in> tree_pages Ls" for q
    using tree_page [OF i(1) that] node_update [OF _ v(1)] by blast
  have h: "hints s' (hd Ls)"
    using i(2) by (rule hints_mono) (use n [OF leaves_in_tree [OF i(1)]] nd ne in \<open>auto simp: node_reads_at\<close>)
  have f: "full s' m q" if "q \<in> tree_pages Ls" "full s m q" for m q
    using replaced_full [OF i(1) u ne] that by blast
  have se: "settled s Ls \<Longrightarrow> settled s' Ls" "Ls = Ms @ [x] \<Longrightarrow> settled s Ms \<Longrightarrow> settled s' Ms" for Ms x
    using replaced_settled [OF i(1) u ne pm(1)] by auto
  have last: "settled s' Ls \<or> (\<exists>Ms. Ms \<noteq> [] \<and> Ls = Ms @ [[root_page s]] \<and> settled s' Ms)"
    using i(5) se by blast
  have m: "view s' (meta_page s) = view s (meta_page s)"
    using v(1) pm(1) by simp
  have "index_inv s' Ls"
    unfolding index_inv_def v(2,3,5) m
    using k tr h last so v(4) unfolding knows_def index_inv_def by blast
  moreover have "in_tree s' Ls q m" if "in_tree s Ls q m" for q m
    using that f by (auto simp: in_tree_def tree_pages_nth)
  moreover have "fresh s' Ls q" if "fresh s Ls q" for q
    using that u by (auto simp: fresh_def replaced_def used_def)
  ultimately show ?thesis
    using k se(1) by (auto simp: knows_def)
qed

lemma level_unique:
  assumes t: "tree s Ls" and "l < length Ls" "p \<in> set (Ls ! l)" "m < length Ls" "p \<in> set (Ls ! m)"
  shows "l = m"
proof -
  have "is_page s (of_nat l) p" "is_page s (of_nat m) p"
    using chain_mem [OF treeD(4) [OF t]] assms by blast+
  then have "(of_nat l :: byte) = of_nat m"
    by (simp add: is_page_def)
  moreover have "l < 16" "m < 16"
    using treeD(2) [OF t] assms by auto
  ultimately show ?thesis
    using level_byte by metis
qed

lemma insert_entry_Ok:
  assumes "btree_page pg" "insert_entry_at slot e pg = Ok pg'"
  shows "btree_page pg'" "unat slot \<le> slot_count pg"
    "node_of pg' = node_of pg\<lparr> nd_entries := take (unat slot) (entries pg) @ e # drop (unat slot) (entries pg) \<rparr>"
proof -
  have p: "pg' = inserted (unat slot) e pg" "unat slot \<le> slot_count pg" "e \<noteq> []" "hlower pg + length e + 4 \<le> hupper pg"
    using assms(2) insert_entry_at_eq [OF assms(1), of slot e] by (auto split: if_splits)
  note f = inserted_facts [OF assms(1) p(2-4)]
  show "btree_page pg'" "unat slot \<le> slot_count pg"
    "node_of pg' = node_of pg\<lparr> nd_entries := take (unat slot) (entries pg) @ e # drop (unat slot) (entries pg) \<rparr>"
    using f(1) p(1,2) same_frame_node [OF f(4)] f(5) by simp_all
qed

lemma page_entries:
  assumes "tree s Ls" "l < length Ls" "p \<in> set (Ls ! l)"
  shows "btree_page (guarded s p)" "node_at s p = node_of (guarded s p)" "view s p \<noteq> None"
    "\<forall>e \<in> set (entries (guarded s p)). (if l = 0 then 10 else 8) \<le> length e" "nd_level (node_at s p) = of_nat l" "p \<noteq> 0"
    "0 < l \<Longrightarrow> e \<in> set (entries (guarded s p)) \<Longrightarrow> in_tree s Ls (snd (internal_item e)) (l - 1)"
proof -
  have pg: "is_page s (of_nat l) p"
    by (rule chain_mem [OF treeD(4) [OF assms(1,2)] assms(3)])
  have l16: "l < 16"
    using treeD(2) [OF assms(1)] assms(2) by simp
  have lv: "(of_nat l :: byte) = 0 \<longleftrightarrow> l = 0"
    using level_nonzero [of l] l16 by auto
  show "btree_page (guarded s p)" "node_at s p = node_of (guarded s p)" "view s p \<noteq> None" "nd_level (node_at s p) = of_nat l" "p \<noteq> 0"
    using view_page [OF pg] is_pageD(1,3) [OF pg] pg by (auto simp: node_at_def is_page_def)
  show "\<forall>e \<in> set (entries (guarded s p)). (if l = 0 then 10 else 8) \<le> length e"
    using pg lv by (auto simp: is_page_def level_page_def leaf_page_def internal_page_def)
  show "in_tree s Ls (snd (internal_item e)) (l - 1)" if "0 < l" "e \<in> set (entries (guarded s p))"
  proof -
    have "snd (internal_item e) \<in> children s p"
      using that(2) by (auto simp: children_def internal_items_def)
    then show ?thesis
      using treeD(7) [OF assms(1), of "l - 1"] that(1) assms(2,3) by (auto simp: linked_def in_tree_def)
  qed
qed

text \<open>A change on an internal page leaves the entries of the tree alone.\<close>

lemma internal_contents:
  assumes "tree s Ls" "0 < l" "l < length Ls" "p \<in> set (Ls ! l)" "replaced p nd s s'"
  shows "contents s' (hd Ls) = contents s (hd Ls)"
proof (rule contents_cong [of s "of_nat 0"])
  have l0: "0 < length Ls" "hd Ls = Ls ! 0"
    using treeD(1,8) [OF assms(1)] by auto
  show "chain s (of_nat 0) (hd Ls)"
    using treeD(4) [OF assms(1) l0(1)] l0(2) by simp
  show "\<forall>q \<in> set (hd Ls). view s' q = view s q"
    using level_unique [OF assms(1,3,4) l0(1)] l0(2) assms(2,5) by (auto simp: replaced_def)
qed

lemma add_downlink_known:
  fixes C :: "(byte list \<times> tid) list"
  assumes "(parent, Suc l) \<in> R" "(right, l) \<in> R"
  shows "triple (known C R F b) (add_downlink parent slot (encode_internal_entry sep right) n)
    (\<lambda>_. known C R F b) (\<lambda>_. known C R F b)"
proof (rule triple_knows)
  fix s :: "'a bt_store" and Ls
  assume k: "knows C R F b s Ls"
  let ?e = "encode_internal_entry sep right" and ?pg = "guarded s parent"
  have t: "tree s Ls" and p: "Suc l < length Ls" "parent \<in> set (Ls ! Suc l)" and r: "in_tree s Ls right l" and C: "contents s (hd Ls) = C"
    and so: "sorted C"
    using k assms by (auto simp: knows_def index_inv_def in_tree_def)
  note g = page_entries [OF t p]
  show "case add_downlink parent slot ?e n s of (Inr a, s') \<Rightarrow> known C R F b s' | (Inl e, s') \<Rightarrow> known C R F b s'"
  proof (cases "insert_entry_at slot ?e ?pg")
    case (Inl x)
    then show ?thesis
      using k by (auto simp: add_downlink_def bt_then_def bt_lift_def known_def)
  next
    case (Inr pg')
    note i = insert_entry_Ok [OF g(1) Inr]
    let ?s' = "s\<lparr> bt_pages := (bt_pages s)(parent \<mapsto> bt_stamp pg' n) \<rparr>"
    have u: "replaced parent (node_of pg') s ?s'"
      by (rule put_replaced [OF quiet_refl g(3) i(1)])
    have c: "contents ?s' (hd Ls) = C"
      using internal_contents [OF t _ p u] C by simp
    have "knows (contents ?s' (hd Ls)) R F b ?s' Ls"
    proof (rule replaced_knows [OF k p u])
      show "\<forall>e \<in> set (nd_entries (node_of pg')). (if Suc l = 0 then 10 else 8) \<le> length e"
        using g(4) i(3) by (auto dest: in_set_takeD in_set_dropD)
      show "in_tree s Ls (snd (internal_item e)) (Suc l - 1)" if "e \<in> set (nd_entries (node_of pg'))" for e
        using that i(3) g(7) r by (auto dest: in_set_takeD in_set_dropD)
    qed (use i(3) g(2) c so in simp_all)
    moreover have "add_downlink parent slot ?e n s = (Ok (), ?s')"
      using Inr by (simp add: add_downlink_def bt_then_def bt_lift_def put_page_def)
    ultimately show ?thesis
      using c by (auto simp: known_def)
  qed
qed

lemma clear_incomplete_known:
  fixes C :: "(byte list \<times> tid) list"
  assumes "(left, l) \<in> R"
  shows "triple (known C R F b) (clear_incomplete E left n) (\<lambda>_. known C R F b) (\<lambda>_. known C R F b)"
proof (rule triple_knows)
  fix s :: "'a bt_store" and Ls
  assume k: "knows C R F b s Ls"
  let ?pg = "guarded s left"
  have t: "tree s Ls" and p: "l < length Ls" "left \<in> set (Ls ! l)" and C: "contents s (hd Ls) = C" and so: "sorted C"
    using k assms by (auto simp: knows_def index_inv_def in_tree_def)
  note g = page_entries [OF t p]
  show "case clear_incomplete E left n s of (Inr a, s') \<Rightarrow> known C R F b s' | (Inl e, s') \<Rightarrow> known C R F b s'"
  proof (cases "bt_pin E s left")
    case (Inl x)
    then show ?thesis
      using k by (auto simp: clear_incomplete_def bt_then_def bt_get_def known_def)
  next
    case (Inr pg)
    have "0 < hupper ?pg"
      using btree_pageD(6) [OF g(1)] by simp
    from commit_left_facts [OF g(1) this] obtain pg' where c: "apply_commit_left ?pg = Ok pg'" "btree_page pg'"
      "node_of pg' = node_of ?pg\<lparr> nd_flags :=
        (nd_flags (node_of ?pg) AND NOT (BTREE_FLAG_SPLIT_INCOMPLETE OR BTREE_FLAG_ROOT)) AND 0x0F \<rparr>"
      by metis
    let ?s' = "s\<lparr> bt_pages := (bt_pages s)(left \<mapsto> bt_stamp pg' n) \<rparr>"
    have u: "replaced left (node_of pg') s ?s'"
      by (rule put_replaced [OF quiet_refl g(3) c(2)])
    have "items_at ?s' q = items_at s q" if "q \<in> set (hd Ls)" for q
      using tree_page [OF t leaves_in_tree [OF t that]] node_update [of s _ q ?s' left "node_of pg'"] u c(3) g(2)
      by (auto simp: node_reads_at replaced_def)
    then have C': "contents ?s' (hd Ls) = C"
      using C by (simp add: contents_def cong: map_cong)
    have "knows (contents ?s' (hd Ls)) R F b ?s' Ls"
      by (rule replaced_knows [OF k p u]) (use c(3) g(2,4,7) C' so in simp_all)
    moreover have "clear_incomplete E left n s = (Ok (), ?s')"
      using Inr bt_pin_guarded [OF Inr] c(1) by (simp add: clear_incomplete_def bt_then_def bt_get_def bt_lift_def put_page_def)
    ultimately show ?thesis
      using C' by (auto simp: known_def)
  qed
qed

subsection \<open>Placing an entry\<close>

text \<open>The slot \<open>pos\<close> of a leaf is where \<open>e\<close> belongs.\<close>

definition places ::
  "(byte list \<times> tid) list \<Rightarrow> (page_id \<times> nat) set \<Rightarrow> bool \<Rightarrow> byte list \<times> tid \<Rightarrow> page_id \<Rightarrow> nat \<Rightarrow> 'w bt_store \<Rightarrow> bool" where
  "places C R b e leaf pos s \<longleftrightarrow> (\<exists>Ls i. knows C R {} b s Ls \<and> i < length (hd Ls) \<and> leaf = hd Ls ! i \<and>
    (\<forall>x \<in> set (contents s (take i (hd Ls)) @ take pos (items_at s leaf)). x \<le> e) \<and>
    (\<forall>x \<in> set (drop pos (items_at s leaf) @ contents s (drop (i + 1) (hd Ls))). e \<le> x))"

lemma insort_middle:
  fixes e :: "'a :: linorder"
  assumes "sorted (xs @ ys)" "\<forall>x \<in> set xs. x \<le> e" "\<forall>y \<in> set ys. e \<le> y"
  shows "xs @ e # ys = insort e (xs @ ys)" "sorted (xs @ e # ys)"
proof -
  show s: "sorted (xs @ e # ys)"
    using assms by (auto simp: sorted_append)
  have "sorted (insort e (xs @ ys))" "mset (insort e (xs @ ys)) = mset (xs @ e # ys)"
    using assms(1) by (simp_all add: sorted_insort)
  with s show "xs @ e # ys = insort e (xs @ ys)"
    by (metis properties_for_sort)
qed

lemma insert_into_leaf_known:
  fixes C :: "(byte list \<times> tid) list" and E :: "'w bt_env"
  shows "triple (places C R b (key, t) leaf (unat slot)) (insert_into_page E leaf slot (encode_leaf_entry key t))
    (\<lambda>_. known (insort (key, t) C) R {} b) (\<lambda>_. known C R {} b)"
  unfolding triple_def
proof (intro allI impI)
  fix s :: "'w bt_store"
  assume "places C R b (key, t) leaf (unat slot) s"
  then obtain Ls i where k: "knows C R {} b s Ls" and i: "i < length (hd Ls)" "leaf = hd Ls ! i"
    and lo: "\<forall>x \<in> set (contents s (take i (hd Ls)) @ take (unat slot) (items_at s leaf)). x \<le> (key, t)"
    and hi: "\<forall>x \<in> set (drop (unat slot) (items_at s leaf) @ contents s (drop (i + 1) (hd Ls))). (key, t) \<le> x"
    unfolding places_def by blast
  let ?cs = "hd Ls" and ?e = "encode_leaf_entry key t" and ?pg = "guarded s leaf"
  have tr: "tree s Ls" and C: "contents s ?cs = C" and so: "sorted C"
    using k by (auto simp: knows_def index_inv_def)
  have l0: "0 < length Ls" "?cs = Ls ! 0"
    using treeD(1,8) [OF tr] by auto
  have ch: "chain s 0 ?cs"
    using treeD(4) [OF tr l0(1)] l0(2) by simp
  have p: "leaf \<in> set (Ls ! 0)"
    using i l0(2) by simp
  note g = page_entries [OF tr l0(1) p]
  have I: "items_at s leaf = map leaf_item (entries ?pg)"
    by (simp add: items_at_def leaf_items_def)
  show "case insert_into_page E leaf slot ?e s of (Inr a, s') \<Rightarrow> known (insort (key, t) C) R {} b s' | (Inl e, s') \<Rightarrow> known C R {} b s'"
  proof -
    let ?rec = "btree_insert (be_bincode E) leaf slot (nd_level (node_of ?pg)) (nd_flags (node_of ?pg)) ?e"
    obtain x s1 where a: "bt_append E ?rec s = (x, s1)"
      by fastforce
    note q = append_quiet [OF a]
    have rest: "insert_into_page E leaf slot ?e s =
      (case x of Inl e \<Rightarrow> (Err e, s1) | Inr n \<Rightarrow>
        (case insert_entry_at slot ?e ?pg of Inl e \<Rightarrow> (Err e, s1)
         | Inr pg' \<Rightarrow> (Ok (), s1\<lparr> bt_pages := (bt_pages s1)(leaf \<mapsto> bt_stamp pg' n) \<rparr>)))"
      using node_reads(1,2) [OF g(1)] a
      by (simp add: insert_into_page_def Let_def bt_then_def bt_lift_def put_page_def split: sum.splits)
    have k1: "known C R {} b s1"
      using quiet_knows [OF k q] by (auto simp: known_def)
    show ?thesis
    proof (cases x)
      case (Inr n)
      show ?thesis
      proof (cases "insert_entry_at slot ?e ?pg")
        case ok: (Inr pg')
        note f = insert_entry_Ok [OF g(1) ok]
        let ?s' = "s1\<lparr> bt_pages := (bt_pages s1)(leaf \<mapsto> bt_stamp pg' n) \<rparr>"
        have u: "replaced leaf (node_of pg') s ?s'"
          by (rule put_replaced [OF q g(3) f(1)])
        let ?A = "contents s (take i ?cs)" and ?B = "contents s (drop (i + 1) ?cs)" and ?I = "items_at s leaf" and ?n = "unat slot"
        have "contents ?s' ?cs = ?A @ map leaf_item (nd_entries (node_of pg')) @ ?B"
          using contents_entries [OF ch i(1), of ?s' "node_of pg'"] u i(2) by (simp add: replaced_def)
        then have c': "contents ?s' ?cs = (?A @ take ?n ?I) @ (key, t) # (drop ?n ?I @ ?B)"
          using f(3) by (simp add: I take_map drop_map)
        have c: "C = (?A @ take ?n ?I) @ (drop ?n ?I @ ?B)"
          using contents_split [OF i(1), of s] C i(2) by simp
        note m = insort_middle [of "?A @ take ?n ?I" "drop ?n ?I @ ?B" "(key, t)", OF so [unfolded c] lo hi]
        have "knows (contents ?s' ?cs) R {} b ?s' Ls"
        proof (rule replaced_knows [OF k l0(1) p u])
          show "\<forall>e \<in> set (nd_entries (node_of pg')). (if (0 :: nat) = 0 then 10 else 8) \<le> length e"
            using g(4) f(3) by (auto dest: in_set_takeD in_set_dropD)
          show "sorted (contents ?s' (hd Ls))"
            unfolding c' by (rule m(2))
        qed (use f(3) g(2) in simp_all)
        then have "known (insort (key, t) C) R {} b ?s'"
          using c' c m(1) by (auto simp: known_def)
        then show ?thesis
          using rest Inr ok by simp
      qed (use rest Inr k1 in simp)
    qed (use rest k1 in simp)
  qed
qed

section \<open>Splits\<close>

definition spliced :: "nat \<Rightarrow> page_id \<Rightarrow> page_id list \<Rightarrow> page_id list" where
  "spliced i right cs = take (i + 1) cs @ right # drop (i + 1) cs"

lemma spliced_nth:
  assumes "i < length cs"
  shows "length (spliced i right cs) = length cs + 1" "j \<le> i \<Longrightarrow> spliced i right cs ! j = cs ! j"
    "spliced i right cs ! (i + 1) = right" "i + 1 < j \<Longrightarrow> j < length cs + 1 \<Longrightarrow> spliced i right cs ! j = cs ! (j - 1)"
    "set (spliced i right cs) = insert right (set cs)"
proof -
  have l: "length (take (i + 1) cs) = i + 1"
    using assms by simp
  show "length (spliced i right cs) = length cs + 1"
    using assms by (simp add: spliced_def)
  show "j \<le> i \<Longrightarrow> spliced i right cs ! j = cs ! j"
    using l by (simp add: spliced_def nth_append)
  show "spliced i right cs ! (i + 1) = right"
    using l by (simp add: spliced_def nth_append)
  show "spliced i right cs ! j = cs ! (j - 1)" if j: "i + 1 < j" "j < length cs + 1"
  proof -
    have "i + 2 \<le> j"
      using j(1) by simp
    from le_Suc_ex [OF this] obtain d where d: "j = i + 2 + d"
      by blast
    then show ?thesis
      using j l assms by (simp add: spliced_def nth_append)
  qed
  show "set (spliced i right cs) = insert right (set cs)"
    unfolding spliced_def using set_append [of "take (i + 1) cs" "drop (i + 1) cs"] by auto
qed

lemma node_update2:
  assumes "view s' = (view s)(p \<mapsto> nd, r \<mapsto> ndr)" "is_page s lv q" "q \<noteq> r"
  shows "node_at s' q = (if q = p then nd else node_at s q)"
  using view_page [OF assms(2)] view_Some [of s' q] assms by (auto split: if_splits)

lemma chain_splice:
  assumes ch: "chain s lv cs" and i: "i < length cs" and r: "right \<notin> set cs" "right \<noteq> 0"
    and v: "view s' = (view s)(cs ! i \<mapsto> ndl, right \<mapsto> ndr)"
    and l: "nd_level ndl = lv" "nd_prev ndl = nd_prev (node_at s (cs ! i))" "nd_next ndl = right"
      "nd_entries ndl = nd_entries (node_at s (cs ! i))"
    and n: "nd_level ndr = lv" "nd_prev ndr = cs ! i" "nd_next ndr = nd_next (node_at s (cs ! i))" "nd_entries ndr = []"
  shows "chain s' lv (spliced i right cs)"
proof -
  let ?ds = "spliced i right cs"
  note d = spliced_nth [OF i, where right = right]
  have dist: "distinct cs"
    using ch by (simp add: chain_def)
  have nr: "node_at s' right = ndr"
    using view_Some [of s' right ndr] v by simp
  have nq: "node_at s' q = (if q = cs ! i then ndl else node_at s q)" if "q \<in> set cs" for q
    by (rule node_update2 [OF v chain_mem [OF ch that]]) (use that r(1) in auto)
  have pq: "is_page s' lv q" if q: "q \<in> set cs" for q
  proof -
    have "q \<noteq> right"
      using q r(1) by auto
    then show ?thesis
      using chain_mem [OF ch q] v l(1,4) view_page [OF chainD(1) [OF ch i]] by (auto simp: is_page_view)
  qed
  have pr: "is_page s' lv right"
    using r(2) v n(1,4) by (simp add: is_page_view)
  have "distinct ?ds"
    using dist r(1) set_take_subset [of "i + 1" cs] set_drop_subset [of "i + 1" cs]
      distinct_append [of "take (i + 1) cs" "drop (i + 1) cs"] by (auto simp: spliced_def)
  moreover have "is_page s' lv (?ds ! j) \<and>
      nd_next (node_at s' (?ds ! j)) = (if j + 1 < length ?ds then ?ds ! (j + 1) else 0) \<and>
      (if j = 0 then nd_prev (node_at s' (?ds ! j)) = 0 else (\<exists>a < j. nd_prev (node_at s' (?ds ! j)) = ?ds ! a))"
    if j: "j < length ?ds" for j
  proof -
    consider "j \<le> i" | "j = i + 1" | "i + 1 < j" "j < length cs + 1"
      using j d(1) by linarith
    then show ?thesis
    proof cases
      case 1
      have jl: "j < length cs"
        using 1 i by simp
      note c = chainD [OF ch jl] and q = nq [OF nth_mem [OF jl]]
      have eq: "cs ! j = cs ! i \<longleftrightarrow> j = i"
        using dist jl i by (simp add: nth_eq_iff_index_eq)
      have nx: "nd_next (node_at s' (cs ! j)) = ?ds ! (j + 1)"
        using q eq l(3) c(2) 1 jl i d(2) [of "j + 1"] d(3) by (cases "j = i") auto
      have pe: "nd_prev (node_at s' (cs ! j)) = nd_prev (node_at s (cs ! j))"
        using q eq l(2) by auto
      have pv: "if j = 0 then nd_prev (node_at s' (cs ! j)) = 0 else (\<exists>a < j. nd_prev (node_at s' (cs ! j)) = ?ds ! a)"
      proof (cases "j = 0")
        case False
        then obtain a where "a < j" "nd_prev (node_at s (cs ! j)) = cs ! a"
          using c(4) by blast
        then show ?thesis
          using False pe d(2) [of a] 1 by auto
      qed (use pe c(3) in simp)
      show ?thesis
        using pq [OF nth_mem [OF jl]] nx pv d(1) d(2) [OF 1] jl by auto
    next
      case 2
      have "nd_next ndr = (if j + 1 < length ?ds then ?ds ! (j + 1) else 0)"
        using n(3) chainD(2) [OF ch i] d(1) d(4) [of "j + 1"] 2 i by auto
      moreover have "\<exists>a < j. nd_prev ndr = ?ds ! a"
        using n(2) d(2) [of i] 2 by (intro exI [of _ i]) simp
      ultimately show ?thesis
        using 2 d(3) pr nr by simp
    next
      case 3
      let ?k = "j - 1"
      have k: "?k < length cs" "i < ?k" and k0: "?k \<noteq> 0"
        using 3 by auto
      note c = chainD [OF ch k(1)] and q = nq [OF nth_mem [OF k(1)]]
      have "cs ! ?k \<noteq> cs ! i"
        using dist k i by (simp add: nth_eq_iff_index_eq)
      then have same: "node_at s' (cs ! ?k) = node_at s (cs ! ?k)"
        using q by simp
      have nx: "nd_next (node_at s' (cs ! ?k)) = (if j + 1 < length ?ds then ?ds ! (j + 1) else 0)"
        using same c(2) d(1) d(4) [of "j + 1"] 3 by auto
      obtain a where a: "a < ?k" "nd_prev (node_at s (cs ! ?k)) = cs ! a"
        using c(4) [OF k0] by blast
      have "\<exists>a < j. nd_prev (node_at s' (cs ! ?k)) = ?ds ! a"
      proof (cases "a \<le> i")
        case True
        then show ?thesis
          using a same d(2) [OF True] 3 by (intro exI [of _ a]) auto
      next
        case False
        then show ?thesis
          using a same d(4) [of "a + 1"] 3 by (intro exI [of _ "a + 1"]) auto
      qed
      then show ?thesis
        using pq [OF nth_mem [OF k(1)]] nx d(4) [OF 3] 3(1) by simp
    qed
  qed
  ultimately show ?thesis
    by (simp add: chain_def)
qed

lemma hints_splice:
  assumes ch: "chain s lv cs" and i: "i < length cs" and h: "hints s cs" and r: "right \<notin> set cs"
    and e: "\<forall>q \<in> set cs. nd_prev (node_at s' q) = nd_prev (node_at s q) \<and> empty_at s' q = empty_at s q"
    and n: "nd_prev (node_at s' right) = cs ! i" "\<not> empty_at s (cs ! i)"
  shows "hints s' (spliced i right cs)"
  unfolding hints_def
proof (intro allI impI)
  let ?ds = "spliced i right cs"
  note d = spliced_nth [OF i, where right = right]
  fix j a
  assume a: "a < j \<and> j < length ?ds \<and> nd_prev (node_at s' (?ds ! j)) = ?ds ! a \<and> (\<forall>k. a \<le> k \<and> k < j \<longrightarrow> empty_at s' (?ds ! k))"
  have dist: "distinct cs"
    using ch by (simp add: chain_def)
  have old: "b = 0" if "b < m" "m < length cs" "nd_prev (node_at s (cs ! m)) = cs ! b" "\<forall>k. b \<le> k \<and> k < m \<longrightarrow> empty_at s (cs ! k)" for b m
    using h that unfolding hints_def by blast
  consider "j \<le> i" | "j = i + 1" | "i + 1 < j"
    by linarith
  then show "a = 0"
  proof cases
    case 1
    have "nd_prev (node_at s (cs ! j)) = cs ! a"
      using a 1 i e d(2) by auto
    moreover have "empty_at s (cs ! k)" if "a \<le> k" "k < j" for k
      using a that 1 i e d(2) [of k] by auto
    ultimately show ?thesis
      using old [of a j] a 1 i by auto
  next
    case 2
    then have "cs ! i = ?ds ! a" "a \<le> i"
      using a d(3) n(1) by auto
    then have "a = i"
      using d(2) dist i by (simp add: nth_eq_iff_index_eq)
    then have "empty_at s' (cs ! i)"
      using a 2 d(2) [of i] by auto
    then show ?thesis
      using e n(2) i by simp
  next
    case 3
    have jl: "j - 1 < length cs" "j < length cs + 1"
      using a d(1) 3 by auto
    have p: "nd_prev (node_at s (cs ! (j - 1))) = ?ds ! a"
      using a d(4) [OF 3 jl(2)] e jl(1) by auto
    obtain m where m: "m < j - 1" "nd_prev (node_at s (cs ! (j - 1))) = cs ! m"
      using chainD(4) [OF ch jl(1)] 3 by auto
    have emp: "empty_at s (cs ! k)" if "k < j - 1" "a \<le> (if k \<le> i then k else k + 1)" for k
    proof (cases "k \<le> i")
      case True
      have "empty_at s' (?ds ! k)"
        using a that True 3 by auto
      then show ?thesis
        using d(2) [OF True] e that(1) jl by auto
    next
      case False
      have "empty_at s' (?ds ! (k + 1))"
        using a that False by auto
      then show ?thesis
        using d(4) [of "k + 1"] False e that(1) jl by auto
    qed
    have am: "?ds ! a = cs ! m"
      using p m(2) by simp
    show ?thesis
    proof (cases "a \<le> i")
      case True
      then have "a = m"
        using am d(2) [OF True] dist m(1) jl(1) i by (simp add: nth_eq_iff_index_eq)
      then have "\<forall>k. a \<le> k \<and> k < j - 1 \<longrightarrow> empty_at s (cs ! k)"
        using emp by auto
      then show ?thesis
        using old [of a "j - 1"] m jl \<open>a = m\<close> by auto
    next
      case False
      have "a \<noteq> i + 1"
        using am d(3) r m(1) jl(1) by (metis nth_mem order.strict_trans)
      then have a1: "i + 1 < a"
        using False by simp
      have al: "a < length cs + 1" "a - 1 < length cs" "m < length cs"
        using a d(1) m(1) jl by auto
      have "cs ! (a - 1) = cs ! m"
        using am d(4) [OF a1 al(1)] by simp
      then have "a - 1 = m"
        using nth_eq_iff_index_eq [OF dist al(2,3)] by simp
      moreover have "empty_at s (cs ! k)" if "m \<le> k" "k < j - 1" for k
      proof -
        have "\<not> k \<le> i" "a \<le> k + 1"
          using that(1) \<open>a - 1 = m\<close> a1 by auto
        then show ?thesis
          using emp [OF that(2)] by simp
      qed
      ultimately have "\<forall>k. m \<le> k \<and> k < j - 1 \<longrightarrow> empty_at s (cs ! k)"
        by blast
      then have "m = 0"
        using old [OF m(1) jl(1) m(2)] by blast
      then show ?thesis
        using \<open>a - 1 = m\<close> a1 by simp
    qed
  qed
qed

text \<open>The first step of a split: the new page enters the chain right of the page to split.\<close>

definition linked_in :: "page_id \<Rightarrow> page_id \<Rightarrow> node \<Rightarrow> node \<Rightarrow> 'w bt_store \<Rightarrow> 'w bt_store \<Rightarrow> bool" where
  "linked_in left right ndl ndr s s' \<longleftrightarrow> view s' = (view s)(left \<mapsto> ndl, right \<mapsto> ndr) \<and>
    root_page s' = root_page s \<and> meta_page s' = meta_page s \<and> (\<exists>w. bt_alloc s' = (bt_alloc s)\<lparr> al_wal := w \<rparr>) \<and>
    nd_level ndl = nd_level (node_at s left) \<and> nd_prev ndl = nd_prev (node_at s left) \<and> nd_next ndl = right \<and>
    nd_entries ndl = nd_entries (node_at s left) \<and>
    nd_level ndr = nd_level (node_at s left) \<and> nd_prev ndr = left \<and> nd_next ndr = nd_next (node_at s left) \<and> nd_entries ndr = []"

lemma linked_in_pages:
  assumes t: "tree s Ls" and u: "linked_in left right ndl ndr s s'" and r: "right \<notin> tree_pages Ls" and q: "q \<in> tree_pages Ls"
  shows "node_at s' q = (if q = left then ndl else node_at s q)" "nd_entries (node_at s' q) = nd_entries (node_at s q)"
    "nd_prev (node_at s' q) = nd_prev (node_at s q)"
proof -
  obtain lv where lv: "is_page s lv q"
    using tree_page [OF t q] by blast
  show n: "node_at s' q = (if q = left then ndl else node_at s q)"
    by (rule node_update2 [OF _ lv]) (use u r q in \<open>auto simp: linked_in_def\<close>)
  show "nd_entries (node_at s' q) = nd_entries (node_at s q)" "nd_prev (node_at s' q) = nd_prev (node_at s q)"
    using n u by (auto simp: linked_in_def)
qed

lemma linked_in_tree:
  assumes t: "tree s Ls" and p: "l < length Ls" "i < length (Ls ! l)" and u: "linked_in (Ls ! l ! i) right ndl ndr s s'"
    and r: "right \<notin> tree_pages Ls" "right \<noteq> 0" and ne: "\<not> empty_at s (Ls ! l ! i)"
  shows "tree s' (Ls[l := spliced i right (Ls ! l)])"
proof -
  let ?left = "Ls ! l ! i" and ?Ns = "Ls[l := spliced i right (Ls ! l)]"
  note n = linked_in_pages [OF t u r(1)]
  have v: "view s' = (view s)(?left \<mapsto> ndl, right \<mapsto> ndr)"
    using u by (simp add: linked_in_def)
  have nr: "node_at s' right = ndr"
    using view_Some [of s' right ndr] v by simp
  have mem: "q \<in> tree_pages Ls" if "m < length Ls" "q \<in> set (Ls ! m)" for q m
    using that by (auto simp: tree_pages_nth)
  have Ns: "set (?Ns ! m) = (if m = l then insert right (set (Ls ! l)) else set (Ls ! m))" if "m < length Ls" for m
    using spliced_nth(5) [OF p(2)] that by (simp add: nth_list_update)
  have f: "full s' m q = full s m q" if "q \<in> tree_pages Ls" for m q
    using n(2) [OF that] by (simp add: full_def node_reads_at)
  have kids: "children s' q = children s q" if "q \<in> tree_pages Ls" for q
    using n(2) [OF that] by (simp add: node_reads_at)
  have rk: "children s' right = {}"
    using u nr by (simp add: node_reads_at linked_in_def)
  have "chain s' (of_nat m) (?Ns ! m)" if m: "m < length Ls" for m
  proof (cases "m = l")
    case True
    have "chain s' (of_nat l) (spliced i right (Ls ! l))"
      by (rule chain_splice [OF treeD(4) [OF t p(1)] p(2) _ r(2) v])
        (use u r(1) p page_entries(5) [OF t p(1) nth_mem [OF p(2)]] in \<open>auto simp: linked_in_def tree_pages_nth\<close>)
    then show ?thesis
      using True p(1) by simp
  next
    case False
    have "chain s' (of_nat m) (Ls ! m)"
    proof (rule chain_cong [OF treeD(4) [OF t m]], intro ballI)
      fix q
      assume q: "q \<in> set (Ls ! m)"
      then have "q \<noteq> right" "q \<noteq> ?left"
        using r(1) mem [OF m q] level_unique [OF t m q p(1)] p(2) False by auto
      then show "view s' q = view s q"
        using v by simp
    qed
    then show ?thesis
      using False by simp
  qed
  moreover have "prevs_full s' m (?Ns ! m)" if m: "m < length Ls" for m
    unfolding prevs_full_def
  proof (intro ballI impI)
    fix q
    assume q: "q \<in> set (?Ns ! m)" "nd_prev (node_at s' q) \<noteq> 0"
    show "full s' m (nd_prev (node_at s' q))"
    proof (cases "q \<in> set (Ls ! m)")
      case True
      have "nd_prev (node_at s q) \<in> set (Ls ! m)" "full s m (nd_prev (node_at s q))"
        using prev_mem [OF treeD(4) [OF t m] True] treeD(6) [OF t m] True q(2) n(3) [OF mem [OF m True]]
        by (auto simp: prevs_full_def)
      then show ?thesis
        using f mem [OF m] n(3) [OF mem [OF m True]] by simp
    next
      case False
      then have "q = right" "m = l"
        using q(1) Ns [OF m] by (auto split: if_splits)
      then have "nd_prev (node_at s' q) = ?left"
        using nr u by (simp add: linked_in_def)
      then show ?thesis
        using ne f [OF mem [OF p(1) nth_mem [OF p(2)]]] by (simp add: full_def)
    qed
  qed
  moreover have "linked s' m (?Ns ! m) (?Ns ! (m - 1))" if m: "m < length Ls" "0 < m" for m
    unfolding linked_def
  proof (intro ballI)
    fix q c
    assume q: "q \<in> set (?Ns ! m)" "c \<in> children s' q"
    then have q': "q \<in> set (Ls ! m)"
      using rk Ns [OF m(1)] by (auto split: if_splits)
    then have "c \<in> set (Ls ! (m - 1))" "full s (m - 1) c"
      using treeD(7) [OF t, of "m - 1"] m q(2) kids [OF mem [OF m(1) q']] by (auto simp: linked_def)
    moreover have "m - 1 < length Ls"
      using m by simp
    ultimately show "c \<in> set (?Ns ! (m - 1)) \<and> full s' (m - 1) c"
      using Ns [of "m - 1"] f mem [of "m - 1"] by auto
  qed
  moreover have "root_page s' \<in> set (last ?Ns) \<and> full s' (length ?Ns - 1) (root_page s')"
  proof -
    have "root_page s' = root_page s"
      using u by (simp add: linked_in_def)
    moreover have "root_page s \<in> set (Ls ! (length Ls - 1))" "length Ls - 1 < length Ls"
      using treeD(1,3) [OF t] by (auto simp: last_conv_nth)
    moreover have "last ?Ns = ?Ns ! (length Ls - 1)"
      using treeD(1) [OF t] by (simp add: last_conv_nth)
    ultimately show ?thesis
      using Ns [of "length Ls - 1"] f mem [of "length Ls - 1"] treeD(5) [OF t] by auto
  qed
  ultimately show ?thesis
    using treeD(1,2) [OF t] unfolding tree_def by simp
qed

definition lands :: "byte list \<times> tid \<Rightarrow> 'w bt_store \<Rightarrow> page_id list \<Rightarrow> nat \<Rightarrow> bool" where
  "lands e s cs i \<longleftrightarrow> i < length cs \<and> (\<forall>x \<in> set (contents s (take i cs)). x \<le> e) \<and> (\<forall>x \<in> set (contents s (drop (i + 1) cs)). e \<le> x)"

lemma contents_same: "(\<And>q. q \<in> set xs \<Longrightarrow> nd_entries (node_at s' q) = nd_entries (node_at s q)) \<Longrightarrow> contents s' xs = contents s xs"
  by (simp add: contents_def node_reads_at cong: map_cong)

lemma linked_in_contents:
  assumes t: "tree s Ls" and i: "i < length (hd Ls)" and u: "linked_in left right ndl ndr s s'" and r: "right \<notin> tree_pages Ls"
  shows "contents s' (spliced i right (hd Ls)) = contents s (hd Ls)" "lands e s (hd Ls) i \<Longrightarrow> lands e s' (spliced i right (hd Ls)) i"
proof -
  let ?cs = "hd Ls"
  have sub: "contents s' xs = contents s xs" if "set xs \<subseteq> set ?cs" for xs
    using linked_in_pages(2) [OF t u r leaves_in_tree [OF t]] that by (intro contents_same) auto
  have "view s' right = Some ndr" "nd_entries ndr = []"
    using u by (auto simp: linked_in_def)
  then have rc: "items_at s' right = []"
    using view_Some [of s' right ndr] by (simp add: node_reads_at)
  have tk: "take i (spliced i right ?cs) = take i ?cs" "drop (i + 1) (spliced i right ?cs) = right # drop (i + 1) ?cs"
    using i by (simp_all add: spliced_def min_def)
  show "contents s' (spliced i right ?cs) = contents s ?cs"
    using sub [of "take (i + 1) ?cs"] sub [of "drop (i + 1) ?cs"] rc contents_append [of s "take (i + 1) ?cs" "drop (i + 1) ?cs"]
    by (simp add: spliced_def set_take_subset set_drop_subset)
  show "lands e s ?cs i \<Longrightarrow> lands e s' (spliced i right ?cs) i"
    using sub [of "take i ?cs"] sub [of "drop (i + 1) ?cs"] rc tk spliced_nth(1) [OF i, of right]
    by (simp add: lands_def set_take_subset set_drop_subset)
qed

lemma linked_in_knows:
  assumes k: "knows C R {right} True s Ls" and p: "l < length Ls" "i < length (Ls ! l)"
    and u: "linked_in (Ls ! l ! i) right ndl ndr s s'" and ne: "\<not> empty_at s (Ls ! l ! i)"
  shows "knows C R {} True s' (Ls[l := spliced i right (Ls ! l)])"
proof -
  let ?Ns = "Ls[l := spliced i right (Ls ! l)]"
  have i: "tree s Ls" "hints s (hd Ls)" "meta_page s \<notin> tree_pages Ls" "alloc_ok (bt_alloc s)" "settled s Ls" "sorted C"
    "contents s (hd Ls) = C" "meta_page s \<noteq> 0" "view s (meta_page s) \<noteq> None" "used (bt_alloc s) (meta_page s)"
    "\<forall>p \<in> tree_pages Ls. used (bt_alloc s) p"
    using k by (auto simp: knows_def index_inv_def)
  have r: "right \<notin> tree_pages Ls" "right \<noteq> 0" "right \<noteq> meta_page s" "used (bt_alloc s) right"
    using k by (auto simp: knows_def fresh_def)
  have l0: "0 < length Ls" "hd Ls = Ls ! 0"
    using treeD(1,8) [OF i(1)] by auto
  have v: "view s' = (view s)(Ls ! l ! i \<mapsto> ndl, right \<mapsto> ndr)" "root_page s' = root_page s" "meta_page s' = meta_page s"
    "alloc_ok (bt_alloc s')" "used (bt_alloc s') = used (bt_alloc s)"
    using u i(4) by (auto simp: linked_in_def alloc_ok_def used_def fun_eq_iff)
  have tr: "tree s' ?Ns"
    by (rule linked_in_tree [OF i(1) p u r(1,2) ne])
  have hdN: "hd ?Ns = (if l = 0 then spliced i right (hd Ls) else hd Ls)"
    using l0 by (cases Ls; cases l) auto
  have il: "l = 0 \<Longrightarrow> i < length (hd Ls)"
    using p(2) l0(2) by simp
  note n = linked_in_pages [OF i(1) u r(1)]
  have c: "contents s' (hd ?Ns) = C"
    using hdN linked_in_contents(1) [OF i(1) il u r(1)] i(7) contents_same [of "hd Ls" s' s] n(2) [OF leaves_in_tree [OF i(1)]]
    by (cases "l = 0") auto
  have h: "hints s' (hd ?Ns)"
  proof (cases "l = 0")
    case True
    have "hints s' (spliced i right (hd Ls))"
    proof (rule hints_splice [OF _ il [OF True] i(2)])
      show "chain s (of_nat 0) (hd Ls)"
        using treeD(4) [OF i(1) l0(1)] l0(2) by simp
      show "right \<notin> set (hd Ls)"
        using r(1) leaves_in_tree [OF i(1)] by blast
      show "\<forall>q \<in> set (hd Ls). nd_prev (node_at s' q) = nd_prev (node_at s q) \<and> empty_at s' q = empty_at s q"
        using n(2,3) leaves_in_tree [OF i(1)] by (simp add: node_reads_at)
      show "nd_prev (node_at s' right) = hd Ls ! i"
        using view_Some [of s' right ndr] v(1) u True l0(2) by (simp add: linked_in_def)
      show "\<not> empty_at s (hd Ls ! i)"
        using ne True l0(2) by simp
    qed
    then show ?thesis
      using hdN True by simp
  next
    case False
    have "hints s' (hd Ls)"
      using i(2) by (rule hints_mono) (use n(2,3) leaves_in_tree [OF i(1)] in \<open>simp add: node_reads_at\<close>)
    then show ?thesis
      using hdN False by simp
  qed
  have sub: "set (Ls ! m) \<subseteq> set (?Ns ! m)" if "m < length Ls" for m
    using spliced_nth(5) [OF p(2), of right] that p(1) by (cases "m = l") auto
  have pg: "tree_pages ?Ns = insert right (tree_pages Ls)"
  proof -
    have "q \<in> tree_pages ?Ns \<longleftrightarrow> q = right \<or> q \<in> tree_pages Ls" for q
      using spliced_nth(5) [OF p(2), of right] p(1) by (auto simp: tree_pages_nth nth_list_update)
    then show ?thesis
      by blast
  qed
  have lft: "Ls ! l ! i \<in> tree_pages Ls"
    using p by (auto simp: tree_pages_nth)
  then have m: "view s' (meta_page s) = view s (meta_page s)"
    using v(1) r(3) i(3) by auto
  have f: "full s' m q = full s m q" if "q \<in> tree_pages Ls" for m q
    using n(2) [OF that] by (simp add: full_def node_reads_at)
  have se: "settled s' ?Ns"
    unfolding settled_def
  proof (intro allI impI)
    fix q
    assume "meta_root s' q"
    then have "at_root s Ls q"
      using i(5) m v(3) by (simp add: settled_def meta_root_def)
    moreover from this have "q \<in> tree_pages Ls"
      using last_in_set by (auto simp: at_root_def tree_pages_def)
    moreover have "set (last Ls) \<subseteq> set (last ?Ns)"
      using treeD(1) [OF i(1)] sub [of "length Ls - 1"] by (simp add: last_conv_nth)
    ultimately show "at_root s' ?Ns q"
      using f treeD(1) [OF i(1)] by (auto simp: at_root_def)
  qed
  have "index_inv s' ?Ns"
    unfolding index_inv_def v(3,5) c m pg
    using tr i(3,6,8-11) h v(4) r(3,4) se by simp
  moreover have "in_tree s' ?Ns q j" if "in_tree s Ls q j" for q j
    using that f [of q] sub [of j] by (auto simp: in_tree_def tree_pages_nth)
  ultimately show ?thesis
    using k c se by (auto simp: knows_def)
qed

lemma choose_split_slot_range:
  assumes "btree_page pg" "choose_split_slot pg level pend = Ok s"
  shows "1 \<le> unat s" "unat s < slot_count pg"
proof -
  obtain n where n: "s = of_nat n" "1 \<le> n" "n < slot_count pg"
  proof (cases pend)
    case None
    then have "s = of_nat (slot_count pg div 2)" "2 \<le> slot_count pg"
      using assms(2) by (auto simp: choose_split_slot_def Let_def split: if_splits)
    then show ?thesis
      using that [of "slot_count pg div 2"] by simp
  next
    case (Some e)
    then obtain costs p n where "find (\<lambda>s. 1 \<le> s \<and> s < slot_count pg \<and> split_valid costs (length e + 4) p s) (split_candidates (slot_count pg)) = Some n"
        "s = of_nat n"
      using assms(2) by (auto simp: choose_split_slot_def Let_def try_then_Ok_iff split: if_splits option.splits)
    then show ?thesis
      using that [of n] by (auto simp: find_Some_iff)
  qed
  then show "1 \<le> unat s" "unat s < slot_count pg"
    using slot_u16 [OF assms(1), of n] by simp_all
qed

text \<open>Between the first two steps of a split: the right page is in the chain and holds nothing yet.\<close>

definition prepares ::
  "(byte list \<times> tid) list \<Rightarrow> (page_id \<times> nat) set \<Rightarrow> split_state \<Rightarrow> 'w bt_store \<Rightarrow> page_id list list \<Rightarrow> nat \<Rightarrow> nat \<Rightarrow> bool" where
  "prepares C R st s Ls l i \<longleftrightarrow> knows C R {} True s Ls \<and> l < length Ls \<and> i + 1 < length (Ls ! l) \<and>
    sp_left st = Ls ! l ! i \<and> sp_right st = Ls ! l ! (i + 1) \<and> sp_level st = of_nat l \<and>
    entries (guarded s (sp_right st)) = [] \<and> free_space (guarded s (sp_right st)) = BTREE_PAGE_CAPACITY \<and>
    1 \<le> unat (sp_copy_start_slot st) \<and> unat (sp_copy_start_slot st) < slot_count (guarded s (sp_left st))"

lemma prepare_knows:
  assumes k: "knows C R {right} True s Ls" and p: "l < length Ls" "i < length (Ls ! l)"
    and run: "split_prepare_on_guards E (Ls ! l ! i) right pend s = (r, s')"
  shows "(\<forall>e. r = Err e \<longrightarrow> known C R {} True s') \<and>
    (\<forall>st. r = Ok st \<longrightarrow> sp_left st = Ls ! l ! i \<and> sp_right st = right \<and>
      prepares C R st s' (Ls[l := spliced i right (Ls ! l)]) l i \<and>
      entries (guarded s' (Ls ! l ! i)) = entries (guarded s (Ls ! l ! i)) \<and>
      (\<forall>e. l = 0 \<and> lands e s (hd Ls) i \<longrightarrow> lands e s' (hd (Ls[l := spliced i right (Ls ! l)])) i))"
proof -
  let ?left = "Ls ! l ! i"
  let ?pg = "guarded s ?left"
  have t: "tree s Ls" and fr: "right \<notin> tree_pages Ls" "right \<noteq> 0" "length (guarded s right) = 8192"
    using k by (auto simp: knows_def index_inv_def fresh_def)
  have lm: "?left \<in> set (Ls ! l)"
    using p(2) by simp
  note g = page_entries [OF t p(1) lm]
  have lr: "?left \<noteq> right"
    using fr(1) p lm by (auto simp: tree_pages_nth)
  have l16: "l < 16"
    using treeD(2) [OF t] p(1) by simp
  have lv: "(of_nat l :: byte) < 16"
    using level_byte [OF l16] l16 by (simp add: word_less_nat_alt)
  note nr = node_reads [OF g(1)]
  have kw: "known C R {} True s1" if "quiet s s1" for s1
    using quiet_knows [OF k that] known_weaken [of C R "{right}" True s1 R "{}" True] by (auto simp: known_def)
  show ?thesis
  proof (cases "prepare_reads ?pg pend")
    case (Inl e)
    then show ?thesis
      using run kw [OF quiet_refl] by (auto simp: split_prepare_on_guards_def bt_then_def bt_get_def)
  next
    case (Inr x)
    obtain hk slot where x: "x = (of_nat l, nd_next (node_of ?pg), hk, slot)" and c2: "2 \<le> slot_count ?pg"
      and slot: "choose_split_slot ?pg (of_nat l) pend = Ok slot"
      using Inr nr g(2,5) by (auto simp: prepare_reads_def try_then_Ok_iff split: if_splits)
    obtain y s1 where a: "bt_append E (btree_split_prepare (be_bincode E) ?left right (of_nat l) (nd_next (node_of ?pg)) hk) s = (y, s1)"
      by fastforce
    note q = append_quiet [OF a] and gd = conjunct1 [OF append_pages [OF a]]
    show ?thesis
    proof (cases y)
      case (Inl e)
      then show ?thesis
        using run Inr x a kw [OF q] by (auto simp: split_prepare_on_guards_def bt_then_def bt_get_def)
    next
      case y: (Inr n)
      obtain rpg where rp: "init_right_page ?left (nd_next (node_of ?pg)) (of_nat l) (guarded s right) = Ok rpg" "btree_page rpg"
          "hupper rpg = 8176" "node_of rpg = \<lparr> nd_level = of_nat l, nd_flags = flags_for_level (of_nat l) AND 0x0F, nd_prev = ?left,
             nd_next = nd_next (node_of ?pg), nd_entries = [] \<rparr>"
        using init_right_facts [OF fr(3) lv] by metis
      have "0 < hupper ?pg"
        using btree_pageD(6) [OF g(1)] by simp
      from prepare_left_facts [OF g(1) this, of right] obtain lpg where lp: "apply_prepare_left right ?pg = Ok lpg" "btree_page lpg"
          "node_of lpg = node_of ?pg\<lparr> nd_flags := (nd_flags (node_of ?pg) OR BTREE_FLAG_SPLIT_INCOMPLETE) AND 0x0F, nd_next := right \<rparr>"
        by metis
      note rst = stamp_facts [OF rp(2), of n] and lst = stamp_facts [OF lp(2), of n]
      define s2 where "s2 = s1\<lparr> bt_pages := (bt_pages s1)(right \<mapsto> bt_stamp rpg n) \<rparr>"
      define s3 where "s3 = s2\<lparr> bt_pages := (bt_pages s2)(?left \<mapsto> bt_stamp lpg n) \<rparr>"
      let ?st = "\<lparr> sp_left = ?left, sp_right = right, sp_level = of_nat l, sp_copy_start_slot = slot, sp_prepare_lsn = n \<rparr>"
      have gs2: "guarded s2 z = (if z = right then bt_stamp rpg n else guarded s1 z)" for z
        unfolding s2_def by (rule guarded_put)
      have gs3: "guarded s3 z = (if z = ?left then bt_stamp lpg n else guarded s2 z)" for z
        unfolding s3_def by (rule guarded_put)
      have g2: "guarded s2 ?left = ?pg"
        using lr gd by (simp add: gs2)
      have r: "r = Ok ?st" "s' = s3"
        using run Inr x a y rp(1) gd lp(1) g2
        by (auto simp: split_prepare_on_guards_def bt_then_def bt_get_def put_page_def bt_return_def s2_def [symmetric] s3_def [symmetric])
      have "view s2 = (view s)(right \<mapsto> node_of rpg)"
        using view_put [OF rst(1), of s1 right] rst(2) q by (simp add: s2_def quiet_def)
      then have v: "view s3 = (view s)(?left \<mapsto> node_of lpg, right \<mapsto> node_of rpg)"
        using view_put [OF lst(1), of s2 ?left] lst(2) lr by (simp add: s3_def fun_upd_twist)
      have u: "linked_in ?left right (node_of lpg) (node_of rpg) s s3"
        using v q lp(3) rp(4) g(2,5) by (auto simp: linked_in_def quiet_def s2_def s3_def)
      have ne: "\<not> empty_at s ?left"
        using c2 by (simp add: empty_at_def)
      let ?Ns = "Ls[l := spliced i right (Ls ! l)]"
      have kn: "knows C R {} True s3 ?Ns"
        by (rule linked_in_knows [OF k p u ne])
      have gl: "guarded s3 ?left = bt_stamp lpg n" "guarded s3 right = bt_stamp rpg n"
        using lr by (simp_all add: gs3 gs2)
      have el: "entries (guarded s3 ?left) = entries ?pg" "entries (guarded s3 right) = []"
        using gl lst(2) rst(2) lp(3) rp(4) nd_entries_node_of [of "bt_stamp lpg n"] nd_entries_node_of [of "bt_stamp rpg n"] by simp_all
      have sc: "slot_count (guarded s3 ?left) = slot_count ?pg" "slot_count (guarded s3 right) = 0"
        using el length_entries [of "guarded s3 ?left"] length_entries [of "guarded s3 right"] by simp_all
      have fs: "free_space (guarded s3 right) = BTREE_PAGE_CAPACITY"
        using sc(2) gl(2) rst(1,3) rp(3) btree_pageD(5) [OF rst(1)]
        by (simp add: free_space_def BTREE_PAGE_CAPACITY_def page_sizes BTREE_SPECIAL_SIZE_def)
      note sl = choose_split_slot_range [OF g(1) slot]
      note sp = spliced_nth [OF p(2), where right = right]
      have "prepares C R ?st s3 ?Ns l i"
        using kn p(1) sp(1,3) sp(2) [of i] p(2) el(2) fs sl sc(1) by (simp add: prepares_def)
      moreover have "lands e s3 (hd ?Ns) i" if "l = 0" "lands e s (hd Ls) i" for e
      proof -
        have "hd Ls = Ls ! 0" "Ls \<noteq> []"
          using treeD(1,8) [OF t] by auto
        then have "hd ?Ns = spliced i right (hd Ls)" "i < length (hd Ls)"
          using that(1) p(2) by (auto simp: hd_conv_nth)
        then show ?thesis
          using linked_in_contents(2) [OF t _ u fr(1) that(2)] by simp
      qed
      ultimately show ?thesis
        using r el(1) by auto
    qed
  qed
qed

lemma knows_more:
  assumes "knows C R F b s Ls" "\<forall>(p, l) \<in> R'. in_tree s Ls p l"
  shows "knows C (R \<union> R') F b s Ls"
  using assms by (auto simp: knows_def)

lemma replaced_items:
  assumes "tree s Ls" "replaced p nd s s'" "q \<in> tree_pages Ls"
  shows "items_at s' q = (if q = p then map leaf_item (nd_entries nd) else items_at s q)"
  using tree_page [OF assms(1,3)] node_update [of s _ q s' p nd] assms(2) by (auto simp: replaced_def node_reads_at)

lemma copy_contents:
  assumes t: "tree s Ls" and i: "i + 1 < length (hd Ls)" and u: "replaced (hd Ls ! i) nl s s2" and w: "replaced (hd Ls ! (i + 1)) nr s2 s3"
    and t2: "tree s2 Ls" and e: "items_at s (hd Ls ! (i + 1)) = []"
  shows "contents s2 (hd Ls) = contents s (take i (hd Ls)) @ map leaf_item (nd_entries nl) @ contents s (drop (i + 2) (hd Ls))"
    "contents s3 (take i (hd Ls)) = contents s (take i (hd Ls))" "contents s3 (drop (i + 2) (hd Ls)) = contents s (drop (i + 2) (hd Ls))"
    "items_at s3 (hd Ls ! i) = map leaf_item (nd_entries nl)" "items_at s3 (hd Ls ! (i + 1)) = map leaf_item (nd_entries nr)"
    "contents s (hd Ls) = contents s (take i (hd Ls)) @ items_at s (hd Ls ! i) @ contents s (drop (i + 2) (hd Ls))"
    "contents s3 (hd Ls) = contents s (take i (hd Ls)) @ map leaf_item (nd_entries nl) @ map leaf_item (nd_entries nr) @ contents s (drop (i + 2) (hd Ls))"
proof -
  let ?cs = "hd Ls"
  let ?l = "?cs ! i" and ?r = "?cs ! (i + 1)" and ?xs = "take i ?cs" and ?ys = "drop (i + 2) ?cs"
  have l0: "0 < length Ls" "?cs = Ls ! 0"
    using treeD(1,8) [OF t] by auto
  have "distinct ?cs"
    using treeD(4) [OF t l0(1)] l0(2) by (simp add: chain_def)
  moreover have dec: "?cs = ?xs @ ?l # ?r # ?ys"
    using i by (metis Cons_nth_drop_Suc Suc_eq_plus1 Suc_lessD add_2_eq_Suc' id_take_nth_drop)
  ultimately have d: "?l \<noteq> ?r" "?l \<notin> set ?xs" "?l \<notin> set ?ys" "?r \<notin> set ?xs" "?r \<notin> set ?ys"
    by (metis distinct.simps(2) distinct_append disjoint_insert(1) list.simps(15) insert_iff)+
  have sub: "set ?xs \<subseteq> set ?cs" "set ?ys \<subseteq> set ?cs"
    by (simp_all add: set_take_subset set_drop_subset)
  note i2 = replaced_items [OF t u leaves_in_tree [OF t]] and i3 = replaced_items [OF t2 w leaves_in_tree [OF t]]
  have cong: "contents s' zs = contents s zs" if "\<And>q. q \<in> set zs \<Longrightarrow> items_at s' q = items_at s q" for s' :: "'a bt_store" and zs
    using that by (simp add: contents_def cong: map_cong)
  have x2: "contents s2 ?xs = contents s ?xs" "contents s2 ?ys = contents s ?ys"
    using i2 d sub by (intro cong; auto)+
  show x3: "contents s3 ?xs = contents s ?xs" "contents s3 ?ys = contents s ?ys"
    using i2 i3 d sub by (intro cong; auto)+
  have m: "?l \<in> set ?cs" "?r \<in> set ?cs"
    using i by simp_all
  show it: "items_at s3 ?l = map leaf_item (nd_entries nl)" "items_at s3 ?r = map leaf_item (nd_entries nr)"
    using i2 [OF m(1)] i3 [OF m(1)] i3 [OF m(2)] d(1) by simp_all
  have c: "contents s' ?cs = contents s' ?xs @ items_at s' ?l @ items_at s' ?r @ contents s' ?ys" for s' :: "'a bt_store"
    by (subst dec) simp
  show "contents s2 ?cs = contents s ?xs @ map leaf_item (nd_entries nl) @ contents s ?ys"
    using c [of s2] x2 i2 [OF m(1)] i2 [OF m(2)] d(1) e by simp
  show "contents s ?cs = contents s ?xs @ items_at s ?l @ contents s ?ys"
    using c [of s] e by simp
  show "contents s3 ?cs = contents s ?xs @ map leaf_item (nd_entries nl) @ map leaf_item (nd_entries nr) @ contents s ?ys"
    using c [of s3] x3 it by simp
qed

text \<open>The second step: the entries from the split point on move to the right page.\<close>

lemma copy_knows:
  assumes pr: "prepares C R st s Ls l i" and run: "split_copy_on_guards E st s = (r, s')"
  shows "known C R {} True s' \<and>
    (\<forall>n. r = Ok n \<longrightarrow> (let es = entries (guarded s (sp_left st)); k = unat (sp_copy_start_slot st) in
      knows C (R \<union> {(sp_left st, l), (sp_right st, l)}) {} True s' Ls \<and>
      (\<forall>e. l = 0 \<and> lands e s (hd Ls) i \<longrightarrow>
        (if e < leaf_item (es ! k) then lands e s' (hd Ls) i else lands e s' (hd Ls) (i + 1)))))"
proof -
  define left where "left = sp_left st"
  define right where "right = sp_right st"
  define k where "k = unat (sp_copy_start_slot st)"
  let ?lp = "guarded s left" and ?rp = "guarded s right"
  define es where "es = entries ?lp"
  have kn: "knows C R {} True s Ls" and l: "l < length Ls" "i + 1 < length (Ls ! l)" and lr: "left = Ls ! l ! i" "right = Ls ! l ! (i + 1)"
    and er: "entries ?rp = []" "free_space ?rp = BTREE_PAGE_CAPACITY" and k: "1 \<le> k" "k < slot_count ?lp"
    using pr by (auto simp: prepares_def left_def right_def k_def)
  have t: "tree s Ls" and C: "contents s (hd Ls) = C" "sorted C"
    using kn by (auto simp: knows_def index_inv_def)
  have m: "left \<in> set (Ls ! l)" "right \<in> set (Ls ! l)"
    using lr l by simp_all
  have dist: "distinct (Ls ! l)"
    using treeD(4) [OF t l(1)] by (simp add: chain_def)
  then have ne: "left \<noteq> right"
    using lr l by (simp add: nth_eq_iff_index_eq)
  note gl = page_entries [OF t l(1) m(1)] and gr = page_entries [OF t l(1) m(2)]
  have lk: "length es = slot_count ?lp"
    by (simp add: es_def)
  have enz: "\<forall>e \<in> set es. e \<noteq> []"
    using gl(4) by (auto simp: es_def split: if_splits)
  have room: "cost (drop k es) \<le> free_space ?rp"
    using used_space [OF gl(1)] cost_take_drop [of k es] er(2) by (simp add: es_def)
  have ku: "sp_copy_start_slot st = of_nat k"
    by (simp add: k_def)
  from apply_split_copy_Ok [OF gl(1) enz [unfolded es_def] gr(1) k(1) less_imp_le [OF k(2)], of True] room
  obtain lpg rpg where c: "apply_split_copy ?lp ?rp (sp_copy_start_slot st) True = Ok (lpg, rpg)" "btree_page lpg" "btree_page rpg"
      "node_of lpg = node_of ?lp\<lparr> nd_entries := take k es \<rparr>" "node_of rpg = node_of ?rp\<lparr> nd_entries := drop k es \<rparr>"
    unfolding ku using er(1) by (auto simp: es_def)
  obtain y s1 where a: "bt_append E (btree_split_copy (be_bincode E) left right (sp_copy_start_slot st) (page_pd_lsn ?lp)) s = (y, s1)"
    by fastforce
  note q = append_quiet [OF a] and gd = conjunct1 [OF append_pages [OF a]]
  show ?thesis
  proof (cases y)
    case (Inl e)
    then have "r = Err e" "s' = s1"
      using run a by (auto simp: split_copy_on_guards_def bt_then_def left_def right_def)
    then show ?thesis
      using quiet_knows [OF kn q] by (auto simp: known_def)
  next
    case (Inr n)
    define s2 where "s2 = s1\<lparr> bt_pages := (bt_pages s1)(left \<mapsto> bt_stamp lpg n) \<rparr>"
    define s3 where "s3 = s2\<lparr> bt_pages := (bt_pages s2)(right \<mapsto> bt_stamp rpg n) \<rparr>"
    have s': "s' = s3"
      using run a Inr c(1) gd
      by (auto simp: split_copy_on_guards_def bt_then_def bt_lift_def put_page_def bt_return_def flush_right_def
          left_def [symmetric] right_def [symmetric] s2_def [symmetric] s3_def [symmetric] split: option.splits storage_error.splits)
    have u: "replaced left (node_of lpg) s s2"
      unfolding s2_def by (rule put_replaced [OF q gl(3) c(2)])
    have v2: "view s2 right \<noteq> None"
      using u gr(3) ne by (simp add: replaced_def)
    have w: "replaced right (node_of rpg) s2 s3"
      unfolding s3_def by (rule put_replaced [OF quiet_refl v2 c(3)])
    have n2: "node_at s2 right = node_of ?rp"
      using node_update [of s "of_nat l" right s2 left "node_of lpg"] chain_mem [OF treeD(4) [OF t l(1)] m(2)] u ne gr(2)
      by (simp add: replaced_def)
    let ?K = "if 0 < l then {(snd (internal_item e), l - 1) | e. e \<in> set es} else {}"
    have kn': "knows C (R \<union> ?K) {} True s Ls"
      by (rule knows_more [OF kn]) (use gl(7) in \<open>auto simp: es_def\<close>)
    have tk: "take k es \<noteq> []" "drop k es \<noteq> []"
      using k lk by (auto simp: take_eq_Nil simp flip: length_greater_0_conv)
    have sz: "\<forall>e \<in> set es. (if l = 0 then 10 else 8) \<le> length e"
      using gl(4) by (simp add: es_def)
    have t2: "tree s2 Ls"
      by (rule tree_entries [OF t, of s2 left "node_of lpg" l])
        (use u l(1) m(1) c(4) gl(2,7) sz tk in \<open>auto simp: replaced_def es_def in_tree_def dest: in_set_takeD\<close>)
    have sc: "sorted (contents s2 (hd Ls)) \<and> contents s3 (hd Ls) = C \<and>
      (\<forall>e. l = 0 \<and> lands e s (hd Ls) i \<longrightarrow> (if e < leaf_item (es ! k) then lands e s3 (hd Ls) i else lands e s3 (hd Ls) (i + 1)))"
    proof (cases "l = 0")
      case False
      then have "contents s2 (hd Ls) = C" "contents s3 (hd Ls) = contents s2 (hd Ls)"
        using internal_contents [OF t _ l(1) m(1) u] internal_contents [OF t2 _ l(1) m(2) w] C(1) by auto
      then show ?thesis
        using C(2) False by simp
    next
      case True
      let ?cs = "hd Ls" and ?I = "map leaf_item es"
      have cs: "?cs = Ls ! 0"
        using treeD(8) [OF t] .
      have ir: "items_at s (?cs ! (i + 1)) = []"
        using er(1) lr(2) True cs by (simp add: items_at_def leaf_items_def)
      have i1: "i + 1 < length ?cs" "?cs ! i = left" "?cs ! (i + 1) = right"
        using l(2) lr True cs by simp_all
      note cc = copy_contents [OF t i1(1) u [folded i1(2)] w [folded i1(3)] t2 ir]
      let ?A = "contents s (take i ?cs)" and ?B = "contents s (drop (i + 2) ?cs)"
      have I: "items_at s left = ?I"
        by (simp add: items_at_def leaf_items_def es_def)
      have CI: "C = ?A @ (take k ?I @ drop k ?I) @ ?B"
        using cc(6) C(1) I i1(2) by simp
      have s3c: "contents s3 ?cs = C"
        using cc(7) c(4,5) CI by (simp add: take_map drop_map)
      have s2c: "contents s2 ?cs = ?A @ take k ?I @ ?B"
        using cc(1) c(4) by (simp add: take_map)
      have so: "sorted (?A @ take k ?I @ drop k ?I @ ?B)"
        using C(2) unfolding CI by (simp only: append_assoc)
      then have "sorted (contents s2 ?cs)"
        unfolding s2c by (auto simp: sorted_append)
      moreover have "if e < leaf_item (es ! k) then lands e s3 ?cs i else lands e s3 ?cs (i + 1)" if ld: "lands e s ?cs i" for e
      proof -
        have tk1: "take (i + 1) ?cs = take i ?cs @ [left]" "drop (i + 1) ?cs = right # drop (i + 2) ?cs"
          using i1 take_Suc_conv_app_nth [of i ?cs] Cons_nth_drop_Suc [of "i + 1" ?cs] by auto
        have lo: "x \<le> e" if "x \<in> set ?A" for x
          using ld that by (simp add: lands_def)
        have hi: "e \<le> x" if "x \<in> set ?B" for x
          using ld that tk1(2) by (simp add: lands_def)
        have fk: "leaf_item (es ! k) \<in> set (drop k ?I)" "\<forall>x \<in> set (drop k ?I). leaf_item (es ! k) \<le> x"
          "\<forall>x \<in> set (take k ?I). x \<le> leaf_item (es ! k)"
        proof -
          have d: "drop k ?I = leaf_item (es ! k) # drop (k + 1) ?I"
            using k(2) lk Cons_nth_drop_Suc [of k ?I] by simp
          then show a: "leaf_item (es ! k) \<in> set (drop k ?I)"
            by simp
          have "sorted (drop k ?I)" "\<forall>x \<in> set (take k ?I). \<forall>y \<in> set (drop k ?I). x \<le> y"
            using so by (auto simp: sorted_append)
          then show "\<forall>x \<in> set (drop k ?I). leaf_item (es ! k) \<le> x" "\<forall>x \<in> set (take k ?I). x \<le> leaf_item (es ! k)"
            using a unfolding d by (auto simp only: sorted_simps set_simps)
        qed
        show ?thesis
        proof (cases "e < leaf_item (es ! k)")
          case True
          have "e \<le> x" if "x \<in> set (drop k ?I)" for x
            using fk(2) that True by (meson less_imp_le order_trans)
          then have "lands e s3 ?cs i"
            using i1(1) cc(2,3,5) c(5) tk1(2) lo hi i1(3) by (auto simp: lands_def drop_map)
          then show ?thesis
            using True by simp
        next
          case False
          have "x \<le> e" if "x \<in> set (take k ?I)" for x
            using fk(3) that False by (meson not_less order_trans)
          moreover have "drop (i + 1 + 1) ?cs = drop (i + 2) ?cs"
            by simp
          ultimately have "lands e s3 ?cs (i + 1)"
            unfolding lands_def tk1(1) using i1(1,2) cc(2,3,4) c(4) lo hi by (auto simp: take_map)
          then show ?thesis
            using False by simp
        qed
      qed
      ultimately show ?thesis
        using s3c by blast
    qed
    have k2: "knows (contents s2 (hd Ls)) (R \<union> ?K) {} True s2 Ls"
      by (rule replaced_knows [OF kn' l(1) m(1) u])
        (use c(4) gl(2,7) sz tk sc in \<open>auto simp: es_def dest: in_set_takeD\<close>)
    have "knows (contents s3 (hd Ls)) (R \<union> ?K) {} True s3 Ls"
    proof (rule replaced_knows [OF k2 l(1) m(2) w])
      show "in_tree s2 Ls (snd (internal_item e)) (l - 1)" if "0 < l" "e \<in> set (nd_entries (node_of rpg))" for e
        using k2 that c(5) by (auto simp: knows_def dest: in_set_dropD)
    qed (use c(5) n2 sz tk sc C(2) in \<open>auto dest: in_set_dropD\<close>)
    then have k3: "knows C R {} True s3 Ls"
      using sc by (auto simp: knows_def)
    then have kk: "known C R {} True s3"
      unfolding known_def ..
    have "node_at s3 left = node_of lpg" "node_at s3 right = node_of rpg"
      using view_Some [of s3 left] view_Some [of s3 right] u w ne by (auto simp: replaced_def)
    then have "in_tree s3 Ls left l" "in_tree s3 Ls right l"
      using l(1) m c(4,5) tk by (auto simp: in_tree_def full_def node_reads_at)
    then have "knows C (R \<union> {(left, l), (right, l)}) {} True s3 Ls"
      by (intro knows_more [OF k3]) auto
    then show ?thesis
      using s' sc kk unfolding left_def [symmetric] right_def [symmetric] k_def [symmetric] es_def [symmetric] Let_def
      by blast
  qed
qed

end
