(* ===== verification/Btree_Errors.thy ===== *)
theory Btree_Errors
  imports Btree_Write
begin

text \<open>
  Which errors an operation of the index can return.  The reads of pages and the single steps
  of a write never report that their fuel is used up, and they report a full buffer pool only
  when the pool or the log does.
\<close>

section \<open>Steady results\<close>

definition never_full :: "'w bt_env \<Rightarrow> bool" where
  "never_full E \<longleftrightarrow> (\<forall>pid s. be_fail E pid s \<noteq> Some BufferPoolFull) \<and> (\<forall>pid s. be_flush E pid s \<noteq> Some BufferPoolFull) \<and>
    (\<forall>w r. fst (wo_append (be_ops E) w r) \<noteq> Err BufferPoolFull)"

definition calm :: "bool \<Rightarrow> btree_error \<Rightarrow> bool" where
  "calm b e \<longleftrightarrow> e \<noteq> BtDiverges \<and> (b \<longrightarrow> e \<noteq> BtStorage BufferPoolFull)"

definition steady :: "bool \<Rightarrow> btree_error + 'a \<Rightarrow> bool" where
  "steady b r \<longleftrightarrow> (\<forall>e. r = Err e \<longrightarrow> calm b e)"

definition steady_run :: "bool \<Rightarrow> ('w, 'a) bt \<Rightarrow> bool" where
  "steady_run b m \<longleftrightarrow> (\<forall>s. steady b (fst (m s)))"

named_theorems steady

lemma steady_simps [simp]: "steady b (Ok a)" "steady b (Err e) \<longleftrightarrow> calm b e"
  by (simp_all add: steady_def)

lemma calm_simps [simp]:
  "calm b BtCorrupted" "calm b BtUnsupported" "calm b BtInvalidArgument" "calm b DuplicateKey" "calm b EntryNotFound"
  "calm b (KeyTooLarge n)" "calm b (BtPageFull m n)" "calm b (BtHeap h)" "calm b (BtStorage e) \<longleftrightarrow> \<not> b \<or> e \<noteq> BufferPoolFull"
  by (simp_all add: calm_def)

lemma steady_try: "steady b r \<Longrightarrow> (\<And>a. r = Ok a \<Longrightarrow> steady b (f a)) \<Longrightarrow> steady b (try_then r f)"
  by (cases r) simp_all

lemma steady_of_heap [steady]: "steady b (of_heap r)"
  by (cases r) simp_all

section \<open>Pages\<close>

lemma steady_header [steady]: "steady b (bt_checked_header pg)"
  by (simp add: bt_checked_header_def Let_def)

lemma steady_fields [steady]:
  "steady b (bt_level pg)" "steady b (bt_flags pg)" "steady b (bt_prev pg)" "steady b (bt_next pg)"
  "steady b (set_prev p pg)" "steady b (set_next p pg)"
  by (auto simp: bt_level_def bt_flags_def bt_prev_def bt_next_def set_prev_def set_next_def steady intro!: steady_try)

lemma steady_set_flag [steady]: "steady b (set_flag f on pg)"
  by (auto simp: set_flag_def steady intro!: steady_try)

lemma steady_insert_entry [steady]: "steady b (insert_entry_at slot e pg)"
  unfolding insert_entry_at_def Let_def by (rule steady_try) (simp_all add: steady)

lemma steady_split_pages [steady]:
  "steady b (apply_prepare_left p pg)" "steady b (init_right_page l n lv pg)" "steady b (apply_commit_left pg)"
  by (auto simp: apply_prepare_left_def init_right_page_def apply_commit_left_def steady intro!: steady_try)

lemma steady_decode [steady]: "steady b (decode_leaf_entry bs)" "steady b (decode_internal_entry bs)" "steady b (decode_meta_record bs)"
  by (simp_all add: decode_leaf_entry_def decode_internal_entry_def decode_meta_record_def Let_def)

lemma steady_entries [steady]:
  "steady b (entry_bytes pg slot)" "steady b (leaf_entry_at pg slot)" "steady b (internal_entry_at pg slot)"
proof -
  show e: "steady b (entry_bytes pg slot)"
    unfolding entry_bytes_def by (rule steady_try) (auto simp: steady split: option.split)
  show "steady b (leaf_entry_at pg slot)" "steady b (internal_entry_at pg slot)"
    unfolding leaf_entry_at_def internal_entry_at_def by (rule steady_try [OF e], simp add: steady)+
qed

lemma steady_cmp [steady]: "steady b (entry_cmp x y leaf)" "steady b (entry_key bs level)" "steady b (first_entry_key pg)"
  unfolding entry_cmp_def entry_key_def first_entry_key_def by (auto simp: steady entry_key_def intro!: steady_try)

lemma steady_lower_bound_loop: "(\<And>i. steady b (below i)) \<Longrightarrow> steady b (lower_bound_loop below lo hi)"
proof (induction below lo hi rule: lower_bound_loop.induct)
  case (1 below lo hi)
  show ?case
    by (subst lower_bound_loop.simps) (use 1 in \<open>auto simp: Let_def intro!: steady_try\<close>)
qed

lemma steady_searches [steady]:
  "steady b (leaf_lower_bound pg key t)" "steady b (internal_lower_bound pg key c)" "steady b (entry_lower_bound pg e leaf)"
  unfolding leaf_lower_bound_def internal_lower_bound_def entry_lower_bound_def
  by (rule steady_lower_bound_loop; auto simp: steady intro!: steady_try)+

lemma steady_leaf_insert_slot [steady]: "steady b (leaf_insert_slot pg key t)"
  unfolding leaf_insert_slot_def by (auto simp: steady intro!: steady_try)

lemma steady_find_child [steady]: "steady b (find_child pg key)"
  unfolding find_child_def by (auto simp: steady intro!: steady_try steady_lower_bound_loop)

lemma steady_points_at [steady]: "steady b (internal_page_points_at pg c)"
proof -
  have "steady b (points_at_loop pg c slot n)" for slot n
    by (induction n arbitrary: slot) (auto simp: steady intro!: steady_try)
  then show ?thesis
    by (simp add: internal_page_points_at_def)
qed

lemma steady_lists [steady]:
  "steady b (entry_costs pg slot n)" "steady b (collect_entries pg slot n)" "steady b (add_all es pg)"
proof -
  show "steady b (entry_costs pg slot n)"
    by (induction n arbitrary: slot) (auto simp: steady intro!: steady_try)
  show "steady b (collect_entries pg slot n)"
    by (induction n arbitrary: slot) (auto simp: steady intro!: steady_try)
  show "steady b (add_all es pg)"
    by (induction es arbitrary: pg) (auto simp: steady intro!: steady_try)
qed

lemma steady_choose_split_slot [steady]: "steady b (choose_split_slot pg level pend)"
  unfolding choose_split_slot_def Let_def by (auto simp: steady intro!: steady_try split: option.split)

lemma steady_split_copy_page [steady]: "steady b (apply_split_copy l r k mv)"
  unfolding apply_split_copy_def Let_def by (auto simp: steady intro!: steady_try)

lemma steady_split_incomplete [steady]: "steady b (split_incomplete pg)"
  unfolding split_incomplete_def by (auto simp: steady intro!: steady_try)

lemma steady_prepare_reads [steady]: "steady b (prepare_reads pg pend)"
  unfolding prepare_reads_def by (auto simp: steady intro!: steady_try)

section \<open>Walks\<close>

lemma steady_pin [steady]: "(b \<Longrightarrow> never_full E) \<Longrightarrow> steady b (bt_pin E s pid)"
  by (auto simp: bt_pin_def never_full_def split: option.split)

lemma steady_tests [steady]:
  "steady b (first_above level pg key t)" "steady b (owns_probe level pg key t)" "steady b (last_above pg key t)"
  unfolding first_above_def owns_probe_def last_above_def by (auto simp: steady intro!: steady_try split: option.split)

lemma steady_right_target [steady]: "(b \<Longrightarrow> never_full E) \<Longrightarrow> steady b (right_target E s level key t nxt hops)"
proof (induction E s level key t nxt hops rule: right_target.induct)
  case (1 E s level key t nxt hops)
  show ?case
    by (subst right_target.simps) (use 1 in \<open>auto simp: steady intro!: steady_try\<close>)
qed

lemma steady_left_scan: "(b \<Longrightarrow> never_full E) \<Longrightarrow> steady b (left_scan E s target cur found hops)"
proof (induction E s target cur found hops rule: left_scan.induct)
  case (1 E s target cur found hops)
  show ?case
    by (subst left_scan.simps) (use 1 in \<open>auto simp: steady Let_def intro!: steady_try\<close>)
qed

lemma steady_nearest [steady]: "(b \<Longrightarrow> never_full E) \<Longrightarrow> steady b (nearest_nonempty_left E s pid)"
  unfolding nearest_nonempty_left_def by (auto simp: steady intro!: steady_try steady_left_scan)

lemma steady_left_step: "(b \<Longrightarrow> never_full E) \<Longrightarrow> steady b (left_step E s ins level key t cur hops v)"
  unfolding left_step_def Let_def by (auto simp: steady intro!: steady_try split: option.split)

lemma steady_walk [steady]: "(b \<Longrightarrow> never_full E) \<Longrightarrow> steady b (walk_to_position E s ins level key t cur hops v hopped)"
proof (induction E s ins level key t cur hops v hopped rule: walk_to_position.induct)
  case (1 E s ins level key t cur hops v hopped)
  show ?case
    by (subst walk_to_position.simps) (use 1 in \<open>auto simp: steady intro!: steady_try steady_left_step split: option.split\<close>)
qed

lemma steady_hop_to [steady]: "(b \<Longrightarrow> never_full E) \<Longrightarrow> steady b (hop_to E s pid hops)"
  unfolding hop_to_def by (auto simp: steady intro!: steady_try)

lemma steady_clean_until: "(b \<Longrightarrow> never_full E) \<Longrightarrow> steady b (clean_until E s cur w hops)"
proof (induction E s cur w hops rule: clean_until.induct)
  case (1 E s cur w hops)
  show ?case
    by (subst clean_until.simps) (use 1 in \<open>auto simp: steady intro!: steady_try\<close>)
qed

lemma steady_nonempty_right: "(b \<Longrightarrow> never_full E) \<Longrightarrow> steady b (nonempty_right E s rnext hops)"
proof (induction E s rnext hops rule: nonempty_right.induct)
  case (1 E s rnext hops)
  show ?case
    by (subst nonempty_right.simps) (use 1 in \<open>auto simp: steady intro!: steady_try\<close>)
qed

lemma steady_insert_round: "(b \<Longrightarrow> never_full E) \<Longrightarrow> steady b (insert_round E s key t cur hops)"
  unfolding insert_round_def left_edge_def right_edge_def
  by (auto simp: steady intro!: steady_try steady_clean_until steady_nonempty_right split: option.split)

lemma steady_write_view: "steady b (write_view pg key t)"
  unfolding write_view_def by (auto simp: steady intro!: steady_try)

lemma steady_write_step: "(b \<Longrightarrow> never_full E) \<Longrightarrow> steady b (write_step E s key t stack cur hops v level prev nxt ab)"
  unfolding write_step_def by (auto simp: steady intro!: steady_try split: option.split list.split)

lemma steady_root_from_meta [steady]: "(b \<Longrightarrow> never_full E) \<Longrightarrow> steady b (root_from_meta E s meta)"
  unfolding root_from_meta_def Let_def by (auto simp: steady intro!: steady_try split: option.split)

section \<open>Steps\<close>

lemma steady_then: "steady_run b m \<Longrightarrow> (\<And>a. steady_run b (f a)) \<Longrightarrow> steady_run b (bt_then m f)"
  unfolding steady_run_def bt_then_def by (auto split: prod.split sum.split) (metis fst_conv steady_simps(2))

lemma steady_runs [steady]:
  "steady b r \<Longrightarrow> steady_run b (bt_lift r)" "steady_run b (bt_return a)" "steady_run b (put_page p pg)"
  "(\<And>s. steady b (f s)) \<Longrightarrow> steady_run b (bt_get f)"
  by (simp_all add: steady_run_def bt_lift_def bt_return_def put_page_def bt_get_def)

lemma steady_state: "(\<And>s. steady_run b (f s)) \<Longrightarrow> steady_run b (\<lambda>s. f s s)"
  by (simp add: steady_run_def)

lemma mk_record_error: "mk_record bc ty xid prev pl \<noteq> Err BufferPoolFull"
  by (auto simp: mk_record_def split: option.splits)

lemma records_error:
  "full_page_image bc p img \<noteq> Err BufferPoolFull" "btree_insert bc p slot lv fl e \<noteq> Err BufferPoolFull"
  "btree_split_prepare bc l r lv n k \<noteq> Err BufferPoolFull" "btree_split_copy bc l r c n \<noteq> Err BufferPoolFull"
  "btree_split_commit bc l r p k c \<noteq> Err BufferPoolFull" "page_alloc bc p \<noteq> Err BufferPoolFull"
  by (simp_all add: full_page_image_def btree_insert_def btree_split_prepare_def btree_split_copy_def btree_split_commit_def
      page_alloc_def mk_record_error)

lemma append_not_full: "never_full E \<Longrightarrow> wo_append (be_ops E) w r = (x, w') \<Longrightarrow> x \<noteq> Err BufferPoolFull"
  by (metis fst_conv never_full_def)

lemma steady_append: "(b \<Longrightarrow> never_full E) \<Longrightarrow> r \<noteq> Err BufferPoolFull \<Longrightarrow> steady_run b (bt_append E r)"
  using append_not_full [of E] by (fastforce simp: steady_run_def bt_append_def split: sum.split prod.split)

lemma steady_ensure_fpi [steady]: "(b \<Longrightarrow> never_full E) \<Longrightarrow> steady_run b (bt_ensure_fpi E p)"
proof -
  assume b: "b \<Longrightarrow> never_full E"
  have "steady_run b (if be_due E p s
     then bt_then (bt_append E (full_page_image (be_bincode E) p (guarded s p))) (\<lambda>l s. put_page p (set_page_pd_lsn (guarded s p) l) s)
     else bt_return ())" for s
  proof (cases "be_due E p s")
    case True
    have "steady_run b (\<lambda>s. put_page p (set_page_pd_lsn (guarded s p) l) s)" for l
      by (rule steady_state) (simp add: steady)
    then show ?thesis
      using True b by (auto simp: records_error intro!: steady_then steady_append)
  qed (simp add: steady)
  note r = this [unfolded steady_run_def]
  show ?thesis
    unfolding steady_run_def
  proof
    fix s
    show "steady b (fst (bt_ensure_fpi E p s))"
      using spec [OF r [of s], of s] by (simp add: bt_ensure_fpi_def split: if_splits)
  qed
qed

lemma steady_pin_mut [steady]: "(b \<Longrightarrow> never_full E) \<Longrightarrow> steady_run b (bt_pin_mut E p)"
  unfolding bt_pin_mut_def by (auto simp: steady intro!: steady_then)

lemma steady_new_page [steady]:
  fixes E :: "'w bt_env"
  shows "(b \<Longrightarrow> never_full E) \<Longrightarrow> steady_run b (bt_new_page E)"
proof -
  assume b: "b \<Longrightarrow> never_full E"
  have al: "fst (alloc_page (be_bincode E) (be_ops E) (be_ext E) a) \<noteq> Err BufferPoolFull" if "b" for a
    using append_not_full [OF b [OF that]]
    by (auto simp: alloc_page_def freelist_pop_def ensure_data_file_capacity_def Let_def records_error split: prod.splits sum.splits)
  have fl: "be_fail E p s \<noteq> Some BufferPoolFull" if "b" for p s
    using b [OF that] by (simp add: never_full_def)
  show ?thesis
    unfolding steady_run_def
  proof
    fix s :: "'w bt_store"
    obtain r a where r: "alloc_page (be_bincode E) (be_ops E) (be_ext E) (bt_alloc s) = (r, a)"
      by fastforce
    show "steady b (fst (bt_new_page E s))"
    proof (cases r)
      case (Inl e)
      then show ?thesis
        using al [of "bt_alloc s"] r by (auto simp: bt_new_page_def)
    next
      case (Inr pid)
      then show ?thesis
        using fl [of pid] r
        by (cases "be_fail E pid (s\<lparr> bt_alloc := a \<rparr>)")
          (auto simp: bt_new_page_def Let_def bt_then_def put_page_def bt_return_def)
    qed
  qed
qed

lemma steady_refresh [steady]: "(b \<Longrightarrow> never_full E) \<Longrightarrow> steady_run b (refresh_root_from_meta E)"
  using steady_root_from_meta [of b E] by (auto simp: steady_run_def refresh_root_from_meta_def steady_def split: sum.split)

lemma steady_log_page_init [steady]: "(b \<Longrightarrow> never_full E) \<Longrightarrow> steady_run b (log_page_init E p)"
proof -
  assume b: "b \<Longrightarrow> never_full E"
  have "steady_run b (\<lambda>s. put_page p (bt_stamp (guarded s p) l) s)" for l
    by (rule steady_state) (simp add: steady)
  then have "steady_run b (bt_then (bt_append E (full_page_image (be_bincode E) p pg)) (\<lambda>l s. put_page p (bt_stamp (guarded s p) l) s))" for pg
    using b by (auto simp: records_error intro!: steady_then steady_append)
  then show ?thesis
    by (simp add: steady_run_def log_page_init_def)
qed

lemma steady_write_meta [steady]: "(b \<Longrightarrow> never_full E) \<Longrightarrow> steady_run b (write_meta_record E)"
proof -
  assume b: "b \<Longrightarrow> never_full E"
  have "steady_run b (bt_then (bt_append E (btree_insert (be_bincode E) m slot 0 0 bs)) (\<lambda>l.
      bt_then (bt_lift (insert_entry_at slot bs pg)) (\<lambda>pg. put_page m (bt_stamp pg l))))" for m slot bs pg
    using b by (auto simp: records_error steady intro!: steady_then steady_append)
  then have "steady_run b (\<lambda>s. let slot = of_nat (slot_count pg); bs = encode_meta_record (root_page s) (ucast (tree_level s)) in
      bt_then (bt_append E (btree_insert (be_bincode E) (meta_page s) slot 0 0 bs)) (\<lambda>l.
      bt_then (bt_lift (insert_entry_at slot bs pg)) (\<lambda>pg. put_page (meta_page s) (bt_stamp pg l))) s)" for pg
    by (simp add: steady_run_def Let_def)
  from steady_then [OF steady_pin_mut [OF b] this] show ?thesis
    by (simp add: steady_run_def write_meta_record_def)
qed

lemma steady_insert_into_page [steady]: "(b \<Longrightarrow> never_full E) \<Longrightarrow> steady_run b (insert_into_page E p slot e)"
proof -
  assume b: "b \<Longrightarrow> never_full E"
  have "steady_run b (bt_then (bt_lift (bt_level pg)) (\<lambda>level.
     bt_then (bt_lift (bt_flags pg)) (\<lambda>fl.
     bt_then (bt_append E (btree_insert (be_bincode E) p slot level fl e)) (\<lambda>l.
     bt_then (bt_lift (insert_entry_at slot e pg)) (\<lambda>pg. put_page p (bt_stamp pg l))))))" for pg
    using b by (auto simp: records_error steady intro!: steady_then steady_append)
  then show ?thesis
    by (simp add: steady_run_def insert_into_page_def Let_def)
qed

lemma steady_create_new_root [steady]: "(b \<Longrightarrow> never_full E) \<Longrightarrow> steady_run b (create_new_root E st)"
proof -
  assume b: "b \<Longrightarrow> never_full E"
  have "steady_run b (\<lambda>s. put_page p (bt_init lv fl (guarded s p)) s)" for p lv fl
    by (rule steady_state) (simp add: steady)
  moreover have "steady_run b (\<lambda>s. write_meta_record E (s\<lparr> root_page := p, tree_level := lv \<rparr>))" for p lv
    using steady_write_meta [OF b] by (simp add: steady_run_def)
  ultimately show ?thesis
    using b unfolding create_new_root_def Let_def by (auto simp: steady intro!: steady_then)
qed

lemma steady_flush_right [steady]: "(b \<Longrightarrow> never_full E) \<Longrightarrow> steady_run b (flush_right E p)"
  by (auto simp: steady_run_def flush_right_def never_full_def split: option.split storage_error.split)

lemma steady_prepare [steady]: "(b \<Longrightarrow> never_full E) \<Longrightarrow> steady_run b (split_prepare_on_guards E l r pend)"
  unfolding split_prepare_on_guards_def
  by (auto simp: steady records_error intro!: steady_then steady_append split: prod.split)

lemma steady_copy [steady]: "(b \<Longrightarrow> never_full E) \<Longrightarrow> steady_run b (split_copy_on_guards E st)"
proof -
  assume b: "b \<Longrightarrow> never_full E"
  have "steady_run b (\<lambda>s. bt_then (bt_lift (apply_split_copy (guarded s l) (guarded s r) k True)) (\<lambda>(lpg, rpg).
    bt_then (put_page l (bt_stamp lpg n)) (\<lambda>_.
    bt_then (put_page r (bt_stamp rpg n)) (\<lambda>_.
    bt_then (flush_right E r) (\<lambda>_. bt_return n)))) s)" for l r k n
    by (rule steady_state) (use b in \<open>auto simp: steady intro!: steady_then split: prod.split\<close>)
  then have "steady_run b (bt_then (bt_append E (btree_split_copy (be_bincode E) (sp_left st) (sp_right st) (sp_copy_start_slot st) x)) (\<lambda>n s.
    bt_then (bt_lift (apply_split_copy (guarded s (sp_left st)) (guarded s (sp_right st)) (sp_copy_start_slot st) True)) (\<lambda>(lpg, rpg).
    bt_then (put_page (sp_left st) (bt_stamp lpg n)) (\<lambda>_.
    bt_then (put_page (sp_right st) (bt_stamp rpg n)) (\<lambda>_.
    bt_then (flush_right E (sp_right st)) (\<lambda>_. bt_return n)))) s))" for x
    using b by (auto simp: records_error intro!: steady_then steady_append)
  then show ?thesis
    by (simp add: steady_run_def split_copy_on_guards_def)
qed

lemma steady_commit_steps [steady]:
  "(b \<Longrightarrow> never_full E) \<Longrightarrow> steady_run b (log_commit E st p sep slot)" "steady_run b (add_downlink p slot d l)"
  "(b \<Longrightarrow> never_full E) \<Longrightarrow> steady_run b (clear_incomplete E p l)"
proof -
  show "(b \<Longrightarrow> never_full E) \<Longrightarrow> steady_run b (log_commit E st p sep slot)"
    unfolding log_commit_def by (auto simp: steady records_error intro!: steady_then steady_append)
  show "(b \<Longrightarrow> never_full E) \<Longrightarrow> steady_run b (clear_incomplete E p l)"
    unfolding clear_incomplete_def by (auto simp: steady intro!: steady_then)
  have "steady_run b (bt_then (bt_lift (insert_entry_at slot d pg)) (\<lambda>pg. put_page p (bt_stamp pg l)))" for pg
    by (auto simp: steady intro!: steady_then)
  then show "steady_run b (add_downlink p slot d l)"
    unfolding steady_run_def add_downlink_def by blast
qed

lemma steady_commit [steady]: "(b \<Longrightarrow> never_full E) \<Longrightarrow> steady_run b (split_commit_guarded E st sep stack)"
proof (induction stack arbitrary: st sep)
  case Nil
  then show ?case
    unfolding split_commit_guarded.simps by (auto simp: steady intro!: steady_then)
next
  case (Cons parent stack)
  show ?case
    unfolding split_commit_guarded.simps Let_def
    by (rule steady_state) (use Cons in \<open>auto simp: steady intro!: steady_then\<close>)
qed

lemma steady_split_and_insert [steady]: "(b \<Longrightarrow> never_full E) \<Longrightarrow> steady_run b (split_and_insert E entry leaf stack right ed)"
  unfolding split_and_insert_def by (auto simp: steady intro!: steady_then)

end
