(* ===== verification/Btree_Insert.thy ===== *)
theory Btree_Insert
  imports Btree_Split Btree_Errors
begin

text \<open>
  Insertion: the promotion of a new root, the commit of a split along the path to the root,
  the placement of an entry in the two passes, and what an insertion does to the entries of
  the index, whatever fails on the way.
\<close>

section \<open>The root\<close>

lemma root_from_meta_Ok:
  assumes "view s (meta_page s) = Some nd" "root_from_meta E s (meta_page s) = Ok (r, lv)"
  shows "meta_root s r"
proof -
  let ?pg = "guarded s (meta_page s)"
  have b: "btree_page ?pg" "node_of ?pg = nd"
    using view_Some [OF assms(1)] by auto
  obtain bs l where c: "slot_count ?pg \<noteq> 0" "of_heap (tuple_at ?pg (of_nat (slot_count ?pg - 1))) = Ok (Some bs)"
      "decode_meta_record bs = Ok (r, l)"
    using assms(2) by (auto simp: root_from_meta_def Let_def try_then_Ok_iff dest!: bt_pin_guarded split: if_splits option.splits)
  have "entry_bytes ?pg (of_nat (slot_count ?pg - 1)) = Ok (entries ?pg ! (slot_count ?pg - 1))"
    by (rule entry_bytes_nth [OF b(1)]) (use c(1) in simp)
  then have "bs = entries ?pg ! (slot_count ?pg - 1)"
    using c(2) by (simp add: entry_bytes_def)
  moreover have "entries ?pg \<noteq> []"
    using c(1) by (simp flip: length_greater_0_conv)
  ultimately have "decode_meta_record (last (nd_entries nd)) = Ok (r, l)" "nd_entries nd \<noteq> []"
    using c(3) b(2) nd_entries_node_of [of ?pg] by (auto simp: last_conv_nth)
  then show ?thesis
    using assms(1) by (auto simp: meta_root_def)
qed

lemma tree_top:
  assumes t: "tree s (Ms @ Ns)" and r: "at_root s Ms r"
  shows "tree (s\<lparr> root_page := r, tree_level := lv \<rparr>) Ms"
proof -
  let ?s = "s\<lparr> root_page := r, tree_level := lv \<rparr>"
  have same: "guarded ?s = guarded s" "bt_pages ?s = bt_pages s" "node_at ?s = node_at s"
    by (simp_all add: guarded_def node_at_def fun_eq_iff)
  have e: "full ?s = full s" "children ?s = children s" "is_page ?s = is_page s"
    by (simp_all add: full_def empty_at_def children_def is_page_def same fun_eq_iff)
  have lvl: "chain s (of_nat l) (Ms ! l) \<and> prevs_full s l (Ms ! l) \<and> (0 < l \<longrightarrow> linked s l (Ms ! l) (Ms ! (l - 1)))" if "l < length Ms" for l
    using treeD(4,6) [OF t, of l] treeD(7) [OF t, of "l - 1"] that by (cases l) (auto simp: nth_append)
  show ?thesis
    using lvl r treeD(2) [OF t] unfolding tree_def at_root_def
    by (simp add: chain_def prevs_full_def linked_def e same)
qed

lemma rooted_settled: "settled (s\<lparr> root_page := r, tree_level := lv \<rparr>) Ls = settled s Ls"
  by (simp add: settled_def meta_root_def at_root_def view_def guarded_def node_at_def full_def empty_at_def)

lemma rooted_simps:
  "contents (s\<lparr> root_page := r, tree_level := lv \<rparr>) cs = contents s cs"
  "hints (s\<lparr> root_page := r, tree_level := lv \<rparr>) cs = hints s cs"
  "view (s\<lparr> root_page := r, tree_level := lv \<rparr>) = view s"
  "fresh (s\<lparr> root_page := r, tree_level := lv \<rparr>) Ls p = fresh s Ls p"
  "in_tree (s\<lparr> root_page := r, tree_level := lv \<rparr>) Ls p l = in_tree s Ls p l"
  by (simp_all add: contents_def items_at_def hints_def view_def guarded_def node_at_def fresh_def in_tree_def full_def empty_at_def
      fun_eq_iff cong: map_cong)

lemma rooted_knows:
  assumes k: "knows C R F b s (Ms @ Ns)" and r: "at_root s Ms r" "settled s Ms" and Ns: "Ns = [] \<or> R = {}"
  shows "knows C R F True (s\<lparr> root_page := r, tree_level := lv \<rparr>) Ms"
proof -
  have i: "tree s (Ms @ Ns)" "Ms \<noteq> []"
    using k r(1) by (auto simp: knows_def index_inv_def at_root_def)
  have h: "hd (Ms @ Ns) = hd Ms" "tree_pages Ms \<subseteq> tree_pages (Ms @ Ns)"
    using i(2) by (auto simp: tree_pages_def)
  have "fresh s Ms p" if "fresh s (Ms @ Ns) p" for p
    using that h(2) by (auto simp: fresh_def)
  moreover have "\<forall>(p, l) \<in> R. in_tree s Ms p l"
    using Ns k by (auto simp: knows_def)
  ultimately show ?thesis
    using k tree_top [OF i(1) r(1), of lv] r(2) h
    by (auto simp: knows_def index_inv_def rooted_settled rooted_simps)
qed

lemma refresh_root_known:
  assumes "b \<or> R = {}"
  shows "triple (known C R F b) (refresh_root_from_meta E) (\<lambda>r s. known C R F True s \<and> root_page s = r) (\<lambda>_. known C R F b)"
proof (rule triple_knows)
  fix s :: "'a bt_store" and Ls
  assume k: "knows C R F b s Ls"
  show "case refresh_root_from_meta E s of (Inr r, s') \<Rightarrow> known C R F True s' \<and> root_page s' = r | (Inl e, s') \<Rightarrow> known C R F b s'"
  proof (cases "root_from_meta E s (meta_page s)")
    case (Inl e)
    then show ?thesis
      using k by (auto simp: refresh_root_from_meta_def known_def)
  next
    case (Inr x)
    obtain r lv where x: "x = (r, lv)"
      by (cases x)
    let ?s = "s\<lparr> root_page := r, tree_level := lv \<rparr>"
    obtain nd where "view s (meta_page s) = Some nd"
      using k by (auto simp: knows_def index_inv_def)
    then have m: "meta_root s r"
      using root_from_meta_Ok Inr x by blast
    consider "settled s Ls" | Ms where "\<not> b" "Ms \<noteq> []" "Ls = Ms @ [[root_page s]]" "settled s Ms"
      using k by (auto simp: knows_def index_inv_def)
    then have "known C R F True ?s"
    proof cases
      case 1
      then have "at_root s Ls r"
        using m by (simp add: settled_def)
      then show ?thesis
        using rooted_knows [of C R F b s Ls "[]" r lv] k 1 unfolding known_def by auto
    next
      case 2
      then have "at_root s Ms r"
        using m by (simp add: settled_def)
      then show ?thesis
        using rooted_knows [of C R F b s Ms "[[root_page s]]" r lv] k 2 assms unfolding known_def by auto
    qed
    then show ?thesis
      using Inr x by (simp add: refresh_root_from_meta_def)
  qed
qed

section \<open>A new root\<close>

text \<open>The page that becomes the root holds \<open>es\<close> and is not in the tree yet.\<close>

definition rising ::
  "(byte list \<times> tid) list \<Rightarrow> (page_id \<times> nat) set \<Rightarrow> page_id \<Rightarrow> nat \<Rightarrow> page_id \<Rightarrow> byte list list \<Rightarrow> 'w bt_store \<Rightarrow> bool" where
  "rising C R left l p es s \<longleftrightarrow> known C R {p} True s \<and> root_page s = left \<and>
    (\<exists>nd. view s p = Some nd \<and> nd_level nd = of_nat (Suc l) \<and> nd_prev nd = 0 \<and> nd_next nd = 0 \<and> nd_entries nd = es)"

lemma put_fresh_known:
  assumes k: "known C R {p} b s" and "length pg = 8192"
  shows "known C R {p} b (s\<lparr> bt_pages := (bt_pages s)(p \<mapsto> pg) \<rparr>)"
proof -
  let ?s = "s\<lparr> bt_pages := (bt_pages s)(p \<mapsto> pg) \<rparr>"
  obtain Ls where kn: "knows C R {p} b s Ls"
    using k by (auto simp: known_def)
  then have f: "fresh s Ls p" and k0: "knows C R {} b s Ls" and a: "alloc_ok (bt_alloc s)"
    by (auto simp: knows_def index_inv_def)
  have "outside Ls s ?s"
    using f a by (auto simp: outside_def fresh_def intro!: view_other)
  from outside_knows [OF k0 this] show ?thesis
    using f assms(2) by (auto simp: known_def knows_def fresh_def)
qed

lemma rising_known: "rising C R left l p es s \<Longrightarrow> known C R {} False s"
  by (auto simp: rising_def intro: known_weaken)

lemma rising_quiet: "rising C R left l p es s \<Longrightarrow> quiet s s' \<Longrightarrow> rising C R left l p es s'"
  using quiet_known [of C R "{p}" True s s'] by (auto simp: rising_def quiet_def)

lemma rising_put:
  assumes r: "rising C R left l p es s" and pg: "btree_page pg" "nd_level (node_of pg) = of_nat (Suc l)"
    "nd_prev (node_of pg) = 0" "nd_next (node_of pg) = 0" "nd_entries (node_of pg) = es'"
  shows "rising C R left l p es' (s\<lparr> bt_pages := (bt_pages s)(p \<mapsto> pg) \<rparr>)"
proof -
  have "length pg = 8192"
    by (rule btree_pageD(2) [OF pg(1)])
  then have "known C R {p} True (s\<lparr> bt_pages := (bt_pages s)(p \<mapsto> pg) \<rparr>)"
    using r put_fresh_known by (auto simp: rising_def)
  then show ?thesis
    using r pg view_put [OF pg(1), of s p] by (simp add: rising_def)
qed

lemma init_root_rising:
  assumes "known C R {p} True s" "root_page s = left" "Suc l < 16"
  shows "rising C R left l p [] (s\<lparr> bt_pages := (bt_pages s)(p \<mapsto> bt_init (of_nat (Suc l)) BTREE_FLAG_ROOT (guarded s p)) \<rparr>)"
proof -
  have "length (guarded s p) = 8192"
    using assms(1) by (auto simp: known_def knows_def fresh_def)
  moreover have "(of_nat (Suc l) :: byte) < 16"
    using assms(3) level_byte [of "Suc l"] by (simp add: word_less_nat_alt del: of_nat_Suc)
  ultimately have i: "btree_page (bt_init (of_nat (Suc l)) BTREE_FLAG_ROOT (guarded s p))"
    "node_of (bt_init (of_nat (Suc l)) BTREE_FLAG_ROOT (guarded s p)) =
      \<lparr> nd_level = of_nat (Suc l), nd_flags = BTREE_FLAG_ROOT AND 0x0F, nd_prev = 0, nd_next = 0, nd_entries = [] \<rparr>"
    using bt_init_facts by blast+
  have "known C R {p} True (s\<lparr> bt_pages := (bt_pages s)(p \<mapsto> bt_init (of_nat (Suc l)) BTREE_FLAG_ROOT (guarded s p)) \<rparr>)"
    by (rule put_fresh_known [OF assms(1) btree_pageD(2) [OF i(1)]])
  then show ?thesis
    using view_put [OF i(1), of s p] i(2) assms(2) by (simp add: rising_def)
qed

lemma log_page_init_rising:
  "triple (rising C R left l p es) (log_page_init E p) (\<lambda>_. rising C R left l p es) (\<lambda>_. known C R {} False)"
proof (rule tripleI)
  fix s x s'
  assume r: "rising C R left l p es s" and m: "log_page_init E p s = (Ok x, s')"
  then obtain n s1 where a: "bt_append E (full_page_image (be_bincode E) p (guarded s p)) s = (Ok n, s1)"
    and s': "s' = s1\<lparr> bt_pages := (bt_pages s1)(p \<mapsto> bt_stamp (guarded s1 p) n) \<rparr>"
    by (auto simp: log_page_init_def bt_then_def put_page_def split: prod.splits sum.splits)
  have r1: "rising C R left l p es s1"
    by (rule rising_quiet [OF r append_quiet [OF a]])
  then obtain nd where v: "view s1 p = Some nd" "nd_level nd = of_nat (Suc l)" "nd_prev nd = 0" "nd_next nd = 0" "nd_entries nd = es"
    by (auto simp: rising_def)
  note st = stamp_facts [of "guarded s1 p" n]
  show "rising C R left l p es s'"
    unfolding s' by (rule rising_put [OF r1]) (use st view_Some [OF v(1)] v in simp_all)
next
  fix s e s'
  assume r: "rising C R left l p es s" and m: "log_page_init E p s = (Err e, s')"
  then have "bt_append E (full_page_image (be_bincode E) p (guarded s p)) s = (Err e, s')"
    by (auto simp: log_page_init_def bt_then_def put_page_def split: prod.splits sum.splits)
  then show "known C R {} False s'"
    using rising_known rising_quiet [OF r append_quiet] by blast
qed

lemma insert_first_rising:
  "triple (rising C R left l p []) (insert_into_page E p 0 (encode_internal_entry [] c))
    (\<lambda>_. rising C R left l p [encode_internal_entry [] c]) (\<lambda>_. known C R {} False)"
  (is "triple _ (insert_into_page E p 0 ?e) _ _")
  unfolding triple_def
proof (intro allI impI)
  fix s :: "'a bt_store"
  assume r: "rising C R left l p [] s"
  then obtain nd where v: "view s p = Some nd" "nd_level nd = of_nat (Suc l)" "nd_prev nd = 0" "nd_next nd = 0" "nd_entries nd = []"
    by (auto simp: rising_def)
  note b = view_Some [OF v(1)]
  then have g: "btree_page (guarded s p)"
    by simp
  let ?pg = "guarded s p"
  let ?rec = "btree_insert (be_bincode E) p 0 (nd_level (node_of ?pg)) (nd_flags (node_of ?pg)) ?e"
  obtain x s1 where a: "bt_append E ?rec s = (x, s1)"
    by fastforce
  note r1 = rising_quiet [OF r append_quiet [OF a]]
  have rest: "insert_into_page E p 0 ?e s =
    (case x of Inl e \<Rightarrow> (Err e, s1) | Inr n \<Rightarrow>
      (case insert_entry_at 0 ?e ?pg of Inl e \<Rightarrow> (Err e, s1)
       | Inr pg' \<Rightarrow> (Ok (), s1\<lparr> bt_pages := (bt_pages s1)(p \<mapsto> bt_stamp pg' n) \<rparr>)))"
    using node_reads(1,2) [OF g] a
    by (simp add: insert_into_page_def Let_def bt_then_def bt_lift_def put_page_def split: sum.splits)
  show "case insert_into_page E p 0 ?e s of (Inr a, s') \<Rightarrow> rising C R left l p [?e] s' | (Inl e, s') \<Rightarrow> known C R {} False s'"
  proof (cases x)
    case (Inr n)
    show ?thesis
    proof (cases "insert_entry_at 0 ?e ?pg")
      case ok: (Inr pg')
      note f = insert_entry_Ok [OF g ok] and st = stamp_facts [OF insert_entry_Ok(1) [OF g ok], of n]
      have "entries ?pg = []"
        using b v(5) nd_entries_node_of [of ?pg] by simp
      then have "rising C R left l p [?e] (s1\<lparr> bt_pages := (bt_pages s1)(p \<mapsto> bt_stamp pg' n) \<rparr>)"
        by (intro rising_put [OF r1]) (use f st b v in simp_all)
      then show ?thesis
        using rest Inr ok by simp
    qed (use rest Inr rising_known [OF r1] in simp)
  qed (use rest rising_known [OF r1] in simp)
qed

lemma tree_grow:
  assumes t: "tree s Ls" and l: "length Ls = Suc l" "Suc l < 16" and p: "p \<noteq> 0"
    and v: "view s p = Some nd" "nd_level nd = of_nat (Suc l)" "nd_prev nd = 0" "nd_next nd = 0" "nd_entries nd = [encode_internal_entry [] left]"
    and left: "in_tree s Ls left l"
  shows "tree (s\<lparr> root_page := p, tree_level := lv \<rparr>) (Ls @ [[p]])"
proof -
  let ?s = "s\<lparr> root_page := p, tree_level := lv \<rparr>"
  have same: "guarded ?s = guarded s" "bt_pages ?s = bt_pages s" "node_at ?s = node_at s"
    by (simp_all add: guarded_def node_at_def fun_eq_iff)
  have e: "full ?s = full s" "children ?s = children s" "is_page ?s = is_page s"
    by (simp_all add: full_def empty_at_def children_def is_page_def same fun_eq_iff)
  have n: "node_at s p = nd"
    using view_Some [OF v(1)] by simp
  have "is_page s (of_nat (Suc l)) p"
    using p v level_nonzero [of "Suc l"] l(2) by (auto simp: is_page_view simp del: of_nat_Suc)
  then have ch: "chain s (of_nat (Suc l)) [p]"
    using n v by (simp add: chain_def)
  have kids: "children s p = {left}" "full s (Suc l) p"
    using n v by (simp_all add: node_reads_at full_def)
  have top: "prevs_full s (Suc l) [p]" "linked s (Suc l) [p] (Ls ! l)"
    using n v(3) kids left by (auto simp: prevs_full_def linked_def in_tree_def)
  have lvl: "chain s (of_nat m) ((Ls @ [[p]]) ! m) \<and> prevs_full s m ((Ls @ [[p]]) ! m) \<and>
      (0 < m \<longrightarrow> linked s m ((Ls @ [[p]]) ! m) ((Ls @ [[p]]) ! (m - 1)))" if "m < length (Ls @ [[p]])" for m
  proof (cases "m = Suc l")
    case True
    then show ?thesis
      using ch top l(1) by (simp add: nth_append del: of_nat_Suc)
  next
    case False
    then have "m < length Ls"
      using that l(1) by simp
    then show ?thesis
      using treeD(4,6) [OF t, of m] treeD(7) [OF t, of "m - 1"] by (cases m) (auto simp: nth_append simp del: of_nat_Suc)
  qed
  show ?thesis
    using lvl l kids(2) unfolding tree_def
    by (simp add: chain_def prevs_full_def linked_def e same del: of_nat_Suc)
qed

lemma rising_root:
  assumes r: "rising C R left l p [encode_internal_entry [] left] s" and R: "(left, l) \<in> R" and l: "Suc l < 16"
  shows "known C (insert (p, Suc l) R) {} False (s\<lparr> root_page := p, tree_level := lv \<rparr>)"
proof -
  let ?s = "s\<lparr> root_page := p, tree_level := lv \<rparr>"
  obtain Ls nd where k: "knows C R {p} True s Ls" and v: "view s p = Some nd" "nd_level nd = of_nat (Suc l)" "nd_prev nd = 0" "nd_next nd = 0"
      "nd_entries nd = [encode_internal_entry [] left]" and root: "root_page s = left"
    using r by (auto simp: rising_def known_def)
  have t: "tree s Ls" and f: "fresh s Ls p" and left: "in_tree s Ls left l" and se: "settled s Ls"
    using k R by (auto simp: knows_def index_inv_def)
  have "length Ls - 1 < length Ls" "left \<in> set (Ls ! (length Ls - 1))"
    using treeD(1,3) [OF t] root by (auto simp: last_conv_nth)
  then have "l = length Ls - 1"
    using level_unique [OF t] left by (auto simp: in_tree_def)
  then have len: "length Ls = Suc l"
    using treeD(1) [OF t] by (cases Ls) auto
  have p: "p \<noteq> 0" "p \<notin> tree_pages Ls" "p \<noteq> meta_page s" "used (bt_alloc s) p"
    using f by (auto simp: fresh_def)
  have tr: "tree ?s (Ls @ [[p]])"
    by (rule tree_grow [OF t len l p(1) v left])
  have h: "hd (Ls @ [[p]]) = hd Ls" "tree_pages (Ls @ [[p]]) = insert p (tree_pages Ls)"
    using treeD(1) [OF t] by (auto simp: tree_pages_def)
  have "Ls \<noteq> []"
    by (rule treeD(1) [OF t])
  then have ii: "index_inv ?s (Ls @ [[p]])"
    using k tr p se h by (auto simp: knows_def index_inv_def rooted_settled rooted_simps)
  have fu: "full ?s = full s"
    by (simp add: full_def empty_at_def guarded_def fun_eq_iff)
  have "in_tree ?s (Ls @ [[p]]) q m" if "in_tree s Ls q m" for q m
    using that by (auto simp: fu in_tree_def nth_append)
  moreover have "in_tree ?s (Ls @ [[p]]) p (Suc l)"
    using len v view_Some [OF v(1)] by (auto simp: fu in_tree_def nth_append full_def [of s] node_reads_at)
  ultimately have "knows C (insert (p, Suc l) R) {} False ?s (Ls @ [[p]])"
    using k ii h by (auto simp: knows_def rooted_simps)
  then show ?thesis
    by (auto simp: known_def)
qed

text \<open>A record of the root this handle uses settles the meta page.\<close>

lemma meta_replaced_knows:
  assumes k: "knows C R {} b s Ls" and u: "replaced (meta_page s) nd s s'"
    and nd: "nd_entries nd \<noteq> []" "decode_meta_record (last (nd_entries nd)) = Ok (root_page s, lv)"
  shows "knows C R {} True s' Ls"
proof -
  have i: "tree s Ls" "hints s (hd Ls)" "meta_page s \<notin> tree_pages Ls" "alloc_ok (bt_alloc s)"
    using k by (auto simp: knows_def index_inv_def)
  have v: "view s' = (view s)(meta_page s \<mapsto> nd)" "root_page s' = root_page s" "meta_page s' = meta_page s"
    "alloc_ok (bt_alloc s')" "used (bt_alloc s') = used (bt_alloc s)"
    using u i(4) by (auto simp: replaced_def alloc_ok_def used_def fun_eq_iff)
  have same: "view s' p = view s p" if "p \<in> tree_pages Ls" for p
    using that i(3) v(1) by auto
  have n: "node_at s' p = node_at s p" if "p \<in> tree_pages Ls" for p
    using tree_page [OF i(1) that] view_cong(2) [OF same [OF that]] by blast
  have tr: "tree s' Ls"
    by (rule tree_cong [OF i(1) _ v(2)]) (use same in \<open>auto simp: tree_pages_nth\<close>)
  have c: "contents s' (hd Ls) = contents s (hd Ls)"
    by (rule contents_same) (use n [OF leaves_in_tree [OF i(1)]] in simp)
  have h: "hints s' (hd Ls)"
    using i(2) by (rule hints_mono) (use n [OF leaves_in_tree [OF i(1)]] in \<open>simp add: node_reads_at\<close>)
  have t: "in_tree s' Ls p l = in_tree s Ls p l" for p l
  proof (cases "l < length Ls \<and> p \<in> set (Ls ! l)")
    case True
    then have "p \<in> tree_pages Ls"
      by (auto simp: tree_pages_nth)
    from n [OF this] show ?thesis
      by (simp add: in_tree_def full_def node_reads_at)
  qed (auto simp: in_tree_def)
  have "at_root s' Ls (root_page s)"
    using treeD(1,3,5) [OF tr] v(2) by (simp add: at_root_def)
  then have se: "settled s' Ls"
    using v(1,3) nd by (auto simp: settled_def meta_root_def)
  have "index_inv s' Ls"
    using k tr c h se v by (auto simp: knows_def index_inv_def)
  then show ?thesis
    using k c t se by (simp add: knows_def)
qed

lemma pin_mut_quiet:
  assumes "view s p \<noteq> None" "bt_pin_mut E p s = (r, s')"
  shows "quiet s s'" "r = Ok pg \<Longrightarrow> pg = guarded s' p"
proof -
  have "quiet s s' \<and> (\<forall>pg. r = Ok pg \<longrightarrow> pg = guarded s' p)"
    using assms(2) ensure_fpi_quiet [OF assms(1), of E]
    by (auto simp: bt_pin_mut_def bt_then_def bt_get_def split: prod.splits sum.splits)
  then show "quiet s s'" "r = Ok pg \<Longrightarrow> pg = guarded s' p"
    by blast+
qed

lemma write_meta_known:
  fixes C :: "(byte list \<times> tid) list"
  shows "triple (known C R {} b) (write_meta_record E) (\<lambda>_. known C R {} True) (\<lambda>_. known C R {} b)"
proof (rule triple_knows)
  fix s :: "'a bt_store" and Ls
  assume k: "knows C R {} b s Ls"
  let ?m = "meta_page s" and ?bs = "encode_meta_record (root_page s) (ucast (tree_level s))"
  have vm: "view s ?m \<noteq> None"
    using k by (simp add: knows_def index_inv_def)
  obtain x s1 where pm: "bt_pin_mut E ?m s = (x, s1)"
    by fastforce
  note q1 = pin_mut_quiet [OF vm pm]
  have k1: "knows C R {} b s1 Ls"
    by (rule quiet_knows [OF k q1(1)])
  show "case write_meta_record E s of (Inr a, s') \<Rightarrow> known C R {} True s' | (Inl e, s') \<Rightarrow> known C R {} b s'"
  proof (cases x)
    case (Inl e)
    then show ?thesis
      using pm k1 by (auto simp: write_meta_record_def bt_then_def known_def)
  next
    case (Inr pg)
    have pg: "pg = guarded s1 ?m" "meta_page s1 = ?m"
      using q1 Inr by (auto simp: quiet_def)
    let ?bs1 = "encode_meta_record (root_page s1) (ucast (tree_level s1))"
    obtain y s2 where a: "bt_append E (btree_insert (be_bincode E) ?m (of_nat (slot_count pg)) 0 0 ?bs1) s1 = (y, s2)"
      by fastforce
    have q2: "quiet s1 s2"
      by (rule append_quiet [OF a])
    have k2: "known C R {} b s2"
      using quiet_knows [OF k1 q2] by (auto simp: known_def)
    have vm1: "view s1 ?m \<noteq> None"
      using vm q1(1) by (simp add: quiet_def)
    then have g: "btree_page pg"
      using view_Some pg(1) by blast
    have run: "write_meta_record E s = (case y of Inl e \<Rightarrow> (Err e, s2) | Inr n \<Rightarrow>
        (case insert_entry_at (of_nat (slot_count pg)) ?bs1 pg of Inl e \<Rightarrow> (Err e, s2)
         | Inr pg' \<Rightarrow> (Ok (), s2\<lparr> bt_pages := (bt_pages s2)(?m \<mapsto> bt_stamp pg' n) \<rparr>)))"
      using pm Inr a pg(2) by (simp add: write_meta_record_def bt_then_def bt_lift_def put_page_def Let_def split: sum.splits)
    show ?thesis
    proof (cases y)
      case y: (Inr n)
      show ?thesis
      proof (cases "insert_entry_at (of_nat (slot_count pg)) ?bs1 pg")
        case ok: (Inr pg')
        note f = insert_entry_Ok [OF g ok]
        have "unat (of_nat (slot_count pg) :: u16) = slot_count pg"
          by (rule slot_u16 [OF g]) simp
        then have en: "nd_entries (node_of pg') = entries pg @ [?bs1]"
          using f(3) by simp
        have u: "replaced ?m (node_of pg') s1 (s2\<lparr> bt_pages := (bt_pages s2)(?m \<mapsto> bt_stamp pg' n) \<rparr>)"
          by (rule put_replaced [OF q2 vm1 f(1)])
        have "knows C R {} True (s2\<lparr> bt_pages := (bt_pages s2)(?m \<mapsto> bt_stamp pg' n) \<rparr>) Ls"
          by (rule meta_replaced_knows [OF k1, of "node_of pg'"]) (use u pg(2) en in simp_all)
        then show ?thesis
          using run y ok by (auto simp: known_def)
      qed (use run y k2 in simp)
    qed (use run k2 in simp)
  qed
qed

lemma create_new_root_known:
  fixes C :: "(byte list \<times> tid) list" and E :: "'w bt_env"
  assumes E: "files_bounded E" and st: "sp_left st = left" "sp_level st = of_nat l" "l < 16" and R: "(left, l) \<in> R"
  shows "triple (\<lambda>s. known C R {} True s \<and> root_page s = left) (create_new_root E st)
    (\<lambda>p. known C (insert (p, Suc l) R) {} True) (\<lambda>_. known C R {} False)"
proof (cases "l = 15")
  case True
  then show ?thesis
    using st by (auto simp: create_new_root_def triple_def bt_lift_def intro: known_weaken)
next
  case False
  then have l: "Suc l < 16"
    using st(3) by simp
  have "\<not> sp_level st \<ge> 0x0F"
    using st level_byte [of l] False by (simp add: word_le_nat_alt)
  moreover have "sp_level st + 1 = of_nat (Suc l)"
    using st(2) by simp
  ultimately have def_: "create_new_root E st =
      bt_then (bt_new_page E) (\<lambda>p.
       bt_then (\<lambda>s. put_page p (bt_init (of_nat (Suc l)) BTREE_FLAG_ROOT (guarded s p)) s) (\<lambda>_.
       bt_then (log_page_init E p) (\<lambda>_.
       bt_then (insert_into_page E p 0 (encode_internal_entry [] left)) (\<lambda>_.
       bt_then (\<lambda>s. write_meta_record E (s\<lparr> root_page := p, tree_level := of_nat (Suc l) \<rparr>)) (\<lambda>_.
       bt_return p)))))"
    using st(1) by (simp add: create_new_root_def Let_def del: of_nat_Suc)
  show ?thesis
    unfolding def_
  proof (rule triple_then [where R = "\<lambda>p s. known C R {p} True s \<and> root_page s = left"])
    show "triple (\<lambda>s. known C R {} True s \<and> root_page s = left) (bt_new_page E)
        (\<lambda>p s. known C R {p} True s \<and> root_page s = left) (\<lambda>_. known C R {} False)"
    proof (rule tripleI)
      fix s a s'
      assume k: "known C R {} True s \<and> root_page s = left" and m: "bt_new_page E s = (Ok a, s')"
      moreover have "root_page s' = root_page s"
        using m by (auto simp: bt_new_page_def Let_def bt_then_def put_page_def bt_return_def split: prod.splits sum.splits option.splits)
      ultimately show "known C R {a} True s' \<and> root_page s' = left"
        using tripleD(1) [OF new_page_known [OF E], of C R True s a s'] by blast
    next
      fix s e s'
      assume k: "known C R {} True s \<and> root_page s = left" and m: "bt_new_page E s = (Err e, s')"
      then have "known C R {} True s'"
        using tripleD(2) [OF new_page_known [OF E]] by blast
      then show "known C R {} False s'"
        by (rule known_weaken) auto
    qed
    fix p
    let ?e = "encode_internal_entry [] left"
    show "triple (\<lambda>s. known C R {p} True s \<and> root_page s = left)
       (bt_then (\<lambda>s. put_page p (bt_init (of_nat (Suc l)) BTREE_FLAG_ROOT (guarded s p)) s) (\<lambda>_.
       bt_then (log_page_init E p) (\<lambda>_.
       bt_then (insert_into_page E p 0 ?e) (\<lambda>_.
       bt_then (\<lambda>s. write_meta_record E (s\<lparr> root_page := p, tree_level := of_nat (Suc l) \<rparr>)) (\<lambda>_.
       bt_return p))))) (\<lambda>p. known C (insert (p, Suc l) R) {} True) (\<lambda>_. known C R {} False)"
    proof (rule triple_then [where R = "\<lambda>_. rising C R left l p []"])
      show "triple (\<lambda>s. known C R {p} True s \<and> root_page s = left)
         (\<lambda>s. put_page p (bt_init (of_nat (Suc l)) BTREE_FLAG_ROOT (guarded s p)) s) (\<lambda>_. rising C R left l p []) (\<lambda>_. known C R {} False)"
        using init_root_rising [OF _ _ l, of C R p _ left] by (auto simp: triple_def put_page_def simp del: of_nat_Suc)
      show "triple (rising C R left l p []) (bt_then (log_page_init E p) (\<lambda>_.
         bt_then (insert_into_page E p 0 ?e) (\<lambda>_.
         bt_then (\<lambda>s. write_meta_record E (s\<lparr> root_page := p, tree_level := of_nat (Suc l) \<rparr>)) (\<lambda>_. bt_return p))))
         (\<lambda>p. known C (insert (p, Suc l) R) {} True) (\<lambda>_. known C R {} False)"
      proof (rule triple_then [OF log_page_init_rising], rule triple_then [OF insert_first_rising], rule triple_then)
        show "triple (rising C R left l p [?e]) (\<lambda>s. write_meta_record E (s\<lparr> root_page := p, tree_level := of_nat (Suc l) \<rparr>))
          (\<lambda>_. known C (insert (p, Suc l) R) {} True) (\<lambda>_. known C R {} False)"
          unfolding triple_def
        proof (intro allI impI)
          fix s :: "'w bt_store"
          assume "rising C R left l p [?e] s"
          note k = rising_root [OF this R l, of "of_nat (Suc l)"]
          have w: "known C (insert (p, Suc l) R) {} False s' \<Longrightarrow> known C R {} False s'" for s' :: "'w bt_store"
            by (erule known_weaken) auto
          from tripleD [OF write_meta_known k] show "case write_meta_record E (s\<lparr> root_page := p, tree_level := of_nat (Suc l) \<rparr>) of
              (Inr a, s') \<Rightarrow> known C (insert (p, Suc l) R) {} True s' | (Inl e, s') \<Rightarrow> known C R {} False s'"
            by (auto split: prod.splits sum.splits simp del: of_nat_Suc intro: w)
        qed
      qed (rule triple_return)
    qed
  qed
qed

section \<open>Committing a split\<close>

definition prepared ::
  "(byte list \<times> tid) list \<Rightarrow> (page_id \<times> nat) set \<Rightarrow> nat \<Rightarrow> page_id \<Rightarrow> page_id \<Rightarrow> split_state \<Rightarrow> 'w bt_store \<Rightarrow> bool" where
  "prepared C R l left right st s \<longleftrightarrow> sp_left st = left \<and> sp_right st = right \<and> sp_level st = of_nat l \<and> (\<exists>Ls i. prepares C R st s Ls l i)"

lemma prepare_known:
  fixes E :: "'w bt_env"
  assumes "(left, l) \<in> R"
  shows "triple (known C R {right} True) (split_prepare_on_guards E left right pend)
    (\<lambda>st. prepared C R l left right st) (\<lambda>_. known C R {} False)"
proof (rule triple_knows)
  fix s :: "'w bt_store" and Ls
  assume k: "knows C R {right} True s Ls"
  then have "in_tree s Ls left l"
    using assms by (auto simp: knows_def)
  then obtain i where i: "l < length Ls" "i < length (Ls ! l)" "left = Ls ! l ! i"
    by (auto simp: in_tree_def in_set_conv_nth)
  obtain r s' where run: "split_prepare_on_guards E (Ls ! l ! i) right pend s = (r, s')"
    by fastforce
  note p = prepare_knows [OF k i(1,2) run]
  show "case split_prepare_on_guards E left right pend s of (Inr st, s') \<Rightarrow> prepared C R l left right st s' | (Inl e, s') \<Rightarrow> known C R {} False s'"
  proof (cases r)
    case (Inl e)
    then have "known C R {} True s'"
      using p by blast
    then have "known C R {} False s'"
      by (rule known_weaken) auto
    then show ?thesis
      using run Inl i(3) by simp
  next
    case (Inr st)
    then have "sp_left st = left" "sp_right st = right" "prepares C R st s' (Ls[l := spliced i right (Ls ! l)]) l i"
      using p i(3) by auto
    then have "prepared C R l left right st s'"
      unfolding prepared_def using prepares_def [of C R st s'] by blast
    then show ?thesis
      using run Inr i(3) by simp
  qed
qed

lemma prepared_known: "prepared C R l left right st s \<Longrightarrow> known C R {} False s"
  by (auto simp: prepared_def prepares_def known_def knows_def)

lemma copy_known:
  fixes E :: "'w bt_env"
  shows "triple (prepared C R l left right st) (split_copy_on_guards E st)
    (\<lambda>_. known C (R \<union> {(left, l), (right, l)}) {} True) (\<lambda>_. known C R {} False)"
  unfolding triple_def
proof (intro allI impI)
  fix s :: "'w bt_store"
  assume "prepared C R l left right st s"
  then obtain Ls i where p: "prepares C R st s Ls l i" "sp_left st = left" "sp_right st = right"
    by (auto simp: prepared_def)
  obtain r s' where run: "split_copy_on_guards E st s = (r, s')"
    by fastforce
  have c: "known C R {} True s'" "\<And>n. r = Ok n \<Longrightarrow> knows C (R \<union> {(left, l), (right, l)}) {} True s' Ls"
    using copy_knows [OF p(1) run] p(2,3) by (auto simp: Let_def)
  have "known C R {} False s'"
    by (rule known_weaken [OF c(1)]) auto
  then show "case split_copy_on_guards E st s of (Inr _, s') \<Rightarrow> known C (R \<union> {(left, l), (right, l)}) {} True s' | (Inl e, s') \<Rightarrow> known C R {} False s'"
    using run c(2) by (auto simp: known_def split: sum.splits)
qed

lemma known_getI: "triple (known C R F b) (bt_get f) (\<lambda>_. known C R F b) (\<lambda>_. known C R F b)"
  by (rule triple_get)

lemma known_liftI: "triple (known C R F b) (bt_lift r) (\<lambda>_. known C R F b) (\<lambda>_. known C R F b)"
  by (rule triple_lift)

lemma prepared_getI: "triple (prepared C R l left right st) (bt_get f) (\<lambda>_. prepared C R l left right st) (\<lambda>_. known C R {} False)"
  by (rule triple_get) (simp_all add: prepared_known)

lemma prepared_liftI: "triple (prepared C R l left right st) (bt_lift r) (\<lambda>_. prepared C R l left right st) (\<lambda>_. known C R {} False)"
  by (rule triple_lift) (simp_all add: prepared_known)

lemma pin_mut_keeps: "(p, l) \<in> R \<Longrightarrow> triple (known C R F b) (bt_pin_mut E p) (\<lambda>_. known C R F b) (\<lambda>_. known C R F b)"
  by (rule triple_weaken [OF pin_mut_known]) auto

lemma log_commit_known:
  assumes "(sp_left st, l) \<in> R"
  shows "triple (known C R F b) (log_commit E st parent sep slot) (\<lambda>_. known C R F b) (\<lambda>_. known C R F b)"
  unfolding log_commit_def
  by (rule triple_then [OF pin_mut_keeps [OF assms] append_known])

text \<open>The record of the commit and the two changes it covers.\<close>

lemma link_known:
  assumes "(parent, Suc l) \<in> R" "(sp_right st, l) \<in> R" "(sp_left st, l) \<in> R"
  shows "triple (known C R {} True)
    (bt_then (log_commit E st parent sep slot) (\<lambda>n.
     bt_then (add_downlink parent slot' (encode_internal_entry sep (sp_right st)) n) (\<lambda>_. clear_incomplete E (sp_left st) n)))
    (\<lambda>_. known C R {} True) (\<lambda>_. known C R {} True)"
  by (rule triple_then [OF log_commit_known [OF assms(3)]], rule triple_then [OF add_downlink_known [OF assms(1,2)]],
      rule clear_incomplete_known [OF assms(3)])

lemma known_err: "triple P m Q (\<lambda>_. known C R' F' b) \<Longrightarrow> R \<subseteq> R' \<Longrightarrow> triple P m Q (\<lambda>_. known C R {} False)"
  by (erule triple_weaken) (auto intro: known_weaken)

lemma known_post:
  "triple P m (\<lambda>_. known C R' F' b') (\<lambda>_. known C R' F'' b) \<Longrightarrow> R \<subseteq> R' \<Longrightarrow> b' \<Longrightarrow>
   triple P m (\<lambda>_. known C R {} True) (\<lambda>_. known C R {} False)"
  by (erule triple_weaken) (auto intro: known_weaken)

lemma promote_known:
  fixes E :: "'w bt_env"
  assumes E: "files_bounded E" and st: "sp_level st = of_nat l" "l < 16" and R: "(sp_left st, l) \<in> R" "(sp_right st, l) \<in> R"
  shows "triple (known C R {} True) (split_commit_guarded E st sep []) (\<lambda>_. known C R {} True) (\<lambda>_. known C R {} False)"
  unfolding split_commit_guarded.simps
proof (rule triple_then)
  show "triple (known C R {} True) (refresh_root_from_meta E) (\<lambda>r s. known C R {} True s \<and> root_page s = r) (\<lambda>_. known C R {} False)"
    by (rule known_err [OF refresh_root_known]) auto
  fix r
  let ?rest = "\<lambda>p. bt_then (bt_pin_mut E p) (\<lambda>_. bt_then (log_commit E st p sep 1) (\<lambda>n.
    bt_then (bt_get (\<lambda>s. bt_pin E s p)) (\<lambda>_.
    bt_then (add_downlink p 1 (encode_internal_entry sep (sp_right st)) n) (\<lambda>_. clear_incomplete E (sp_left st) n))))"
  have rest: "triple (known C (insert (p, Suc l) R) {} True) (?rest p) (\<lambda>_. known C R {} True) (\<lambda>_. known C R {} False)" for p
  proof (rule known_post)
    let ?R = "insert (p, Suc l) R"
    show "triple (known C ?R {} True) (?rest p) (\<lambda>_. known C ?R {} True) (\<lambda>_. known C ?R {} True)"
      by (rule triple_then [OF pin_mut_keeps [of p "Suc l"]], simp, rule triple_then [OF log_commit_known [of st l]], use R in simp,
          rule triple_then [OF known_getI], rule triple_then [OF add_downlink_known [of p l]], simp, use R in simp,
          rule clear_incomplete_known [of _ l], use R in simp)
  qed auto
  show "triple (\<lambda>s. known C R {} True s \<and> root_page s = r)
      (if r \<noteq> sp_left st then bt_lift (Err BtUnsupported) else bt_then (create_new_root E st) ?rest)
      (\<lambda>_. known C R {} True) (\<lambda>_. known C R {} False)"
  proof (rule triple_if)
    show "triple (\<lambda>s. known C R {} True s \<and> root_page s = r) (bt_lift (Err BtUnsupported)) (\<lambda>_. known C R {} True) (\<lambda>_. known C R {} False)"
      by (rule triple_lift) (auto intro: known_weaken)
    assume "\<not> r \<noteq> sp_left st"
    then show "triple (\<lambda>s. known C R {} True s \<and> root_page s = r) (bt_then (create_new_root E st) ?rest)
        (\<lambda>_. known C R {} True) (\<lambda>_. known C R {} False)"
      using triple_then [OF create_new_root_known [OF E HOL.refl st R(1)] rest] by simp
  qed
qed

lemma triple_assume: "(\<And>s. P s \<Longrightarrow> A) \<Longrightarrow> (A \<Longrightarrow> triple P m Q X) \<Longrightarrow> triple P m Q X"
  by (auto simp: triple_def)

lemma known_level: "known C R F b s \<Longrightarrow> (p, l) \<in> R \<Longrightarrow> l < 16"
  using treeD(2) by (fastforce simp: known_def knows_def index_inv_def in_tree_def)

lemma split_commit_known:
  fixes E :: "'w bt_env"
  assumes E: "files_bounded E"
    and "sp_level st = of_nat l" "(sp_left st, l) \<in> R" "(sp_right st, l) \<in> R" "\<forall>k < length stack. (stack ! k, l + 1 + k) \<in> R"
  shows "triple (known C R {} True) (split_commit_guarded E st sep stack) (\<lambda>_. known C R {} True) (\<lambda>_. known C R {} False)"
  using assms(2-)
proof (induction stack arbitrary: st sep l R)
  case Nil
  show ?case
    by (rule triple_assume [OF known_level [OF _ Nil(2)]], assumption, rule promote_known [OF E Nil(1) _ Nil(2,3)])
next
  case (Cons parent stack)
  have P: "(parent, Suc l) \<in> R"
    using Cons.prems(4) by force
  have S: "\<forall>k < length stack. (stack ! k, Suc l + 1 + k) \<in> R"
    using Cons.prems(4) by force
  let ?down = "encode_internal_entry sep (sp_right st)"
  have link: "triple (known C R' {} True)
      (bt_then (log_commit E st p sep slot) (\<lambda>n. bt_then (add_downlink p slot' ?down n) (\<lambda>_. clear_incomplete E (sp_left st) n)))
      (\<lambda>_. known C R {} True) (\<lambda>_. known C R {} False)" if "R \<subseteq> R'" "(p, Suc l) \<in> R'" for p slot slot' R'
    by (rule known_post [OF link_known [of p l R' st C E sep slot slot']]) (use that Cons.prems in auto)
  define tail where "tail first pst =
      bt_then (bt_lift (entry_cmp ?down first False)) (\<lambda>c.
      let target = (if c \<noteq> OLess then sp_right pst else parent) in
      bt_then (bt_pin_mut E target) (\<lambda>tpg.
      bt_then (bt_lift (internal_lower_bound tpg sep (sp_right st))) (\<lambda>slot.
      bt_then (log_commit E st target sep (of_nat slot)) (\<lambda>l.
      bt_then (add_downlink target (of_nat slot) ?down l) (\<lambda>_. clear_incomplete E (sp_left st) l)))))" for first and pst :: split_state
  have tail: "triple (known C R' {} True) (tail first pst) (\<lambda>_. known C R {} True) (\<lambda>_. known C R {} False)"
    if R': "R \<subseteq> R'" "(sp_right pst, Suc l) \<in> R'" for first pst R'
    unfolding tail_def Let_def
  proof (rule triple_then [OF known_err [OF known_liftI R'(1)]])
    fix c
    have "((if c \<noteq> OLess then sp_right pst else parent), Suc l) \<in> R'" (is "(?t, _) \<in> _")
      using R' P by auto
    note t = this
    show "triple (known C R' {} True) (bt_then (bt_pin_mut E ?t) (\<lambda>tpg.
        bt_then (bt_lift (internal_lower_bound tpg sep (sp_right st))) (\<lambda>slot.
        bt_then (log_commit E st ?t sep (of_nat slot)) (\<lambda>l.
        bt_then (add_downlink ?t (of_nat slot) ?down l) (\<lambda>_. clear_incomplete E (sp_left st) l)))))
        (\<lambda>_. known C R {} True) (\<lambda>_. known C R {} False)"
      by (rule triple_then [OF known_err [OF pin_mut_keeps [OF t] R'(1)]], rule triple_then [OF known_err [OF known_liftI R'(1)]], rule link [OF R'(1) t])
  qed
  have after: "triple (known C (R \<union> {(parent, Suc l), (p2, Suc l)}) {} True) (bt_then (split_commit_guarded E pst k2 stack) (\<lambda>_. tail first pst))
      (\<lambda>_. known C R {} True) (\<lambda>_. known C R {} False)"
    if "sp_left pst = parent" "sp_right pst = p2" "sp_level pst = of_nat (Suc l)" for pst k2 first p2
  proof (rule triple_then [OF known_err])
    show "triple (known C (R \<union> {(parent, Suc l), (p2, Suc l)}) {} True) (split_commit_guarded E pst k2 stack)
        (\<lambda>_. known C (R \<union> {(parent, Suc l), (p2, Suc l)}) {} True) (\<lambda>_. known C (R \<union> {(parent, Suc l), (p2, Suc l)}) {} False)"
      by (rule Cons.IH [of pst "Suc l"]) (use that S in auto)
    show "triple (known C (R \<union> {(parent, Suc l), (p2, Suc l)}) {} True) (tail first pst) (\<lambda>_. known C R {} True) (\<lambda>_. known C R {} False)"
      by (rule tail) (use that in auto)
  qed auto
  define grow where "grow =
      bt_then (bt_new_page E) (\<lambda>p2.
      bt_then (split_prepare_on_guards E parent p2 (Some ?down)) (\<lambda>pst.
      bt_then (bt_get (\<lambda>s. entry_bytes (guarded s parent) (sp_copy_start_slot pst))) (\<lambda>first.
      bt_then (bt_lift (entry_key first (sp_level pst))) (\<lambda>k2.
      bt_then (split_copy_on_guards E pst) (\<lambda>_.
      bt_then (split_commit_guarded E pst k2 stack) (\<lambda>_. tail first pst))))))"
  have grow: "triple (known C R {} True) grow (\<lambda>_. known C R {} True) (\<lambda>_. known C R {} False)"
    unfolding grow_def
  proof (rule triple_then [OF known_err [OF new_page_known [OF E] subset_refl]], rule triple_then [OF prepare_known [OF P]])
    fix p2 pst
    let ?P = "prepared C R (Suc l) parent p2 pst :: 'w bt_store \<Rightarrow> bool"
    show "triple ?P (bt_then (bt_get (\<lambda>s. entry_bytes (guarded s parent) (sp_copy_start_slot pst))) (\<lambda>first.
      bt_then (bt_lift (entry_key first (sp_level pst))) (\<lambda>k2.
      bt_then (split_copy_on_guards E pst) (\<lambda>_.
      bt_then (split_commit_guarded E pst k2 stack) (\<lambda>_. tail first pst))))) (\<lambda>_. known C R {} True) (\<lambda>_. known C R {} False)"
    proof (rule triple_assume)
      show "sp_left pst = parent \<and> sp_right pst = p2 \<and> sp_level pst = of_nat (Suc l)" if "?P s" for s
        using that by (simp add: prepared_def)
    qed (rule triple_then [OF prepared_getI], rule triple_then [OF prepared_liftI], rule triple_then [OF copy_known], rule after, simp_all)
  qed
  define body where "body s =
      bt_then (bt_lift (internal_page_points_at (guarded s parent) (sp_left st))) (\<lambda>points.
        if \<not> points then bt_lift (Err BtUnsupported)
        else if free_space (guarded s parent) \<ge> length ?down + 4 then
          bt_then (bt_lift (internal_lower_bound (guarded s parent) sep (sp_right st))) (\<lambda>slot.
          bt_then (log_commit E st parent sep (of_nat slot)) (\<lambda>l.
          bt_then (add_downlink parent (of_nat slot) ?down l) (\<lambda>_. clear_incomplete E (sp_left st) l)))
        else grow)" for s :: "'w bt_store"
  have body: "triple (known C R {} True) (body s) (\<lambda>_. known C R {} True) (\<lambda>_. known C R {} False)" for s
    unfolding body_def
  proof (rule triple_then [OF known_err [OF known_liftI subset_refl]])
    show "triple (known C R {} True) (if \<not> points then bt_lift (Err BtUnsupported)
        else if free_space (guarded s parent) \<ge> length ?down + 4 then
          bt_then (bt_lift (internal_lower_bound (guarded s parent) sep (sp_right st))) (\<lambda>slot.
          bt_then (log_commit E st parent sep (of_nat slot)) (\<lambda>l.
          bt_then (add_downlink parent (of_nat slot) ?down l) (\<lambda>_. clear_incomplete E (sp_left st) l)))
        else grow) (\<lambda>_. known C R {} True) (\<lambda>_. known C R {} False)" for points
    proof (rule triple_if)
      show "triple (known C R {} True) (bt_lift (Err BtUnsupported)) (\<lambda>_. known C R {} True) (\<lambda>_. known C R {} False)"
        by (rule triple_lift) (auto intro: known_weaken)
    qed (rule triple_if, rule triple_then [OF known_err [OF known_liftI subset_refl]], rule link [OF subset_refl P], rule grow)
  qed
  have eq: "split_commit_guarded E st sep (parent # stack) = (\<lambda>s. body s s)"
    unfolding split_commit_guarded.simps(2) body_def grow_def tail_def Let_def by (rule HOL.refl)
  show ?case
    unfolding eq triple_def
  proof (intro allI impI)
    fix s :: "'w bt_store"
    assume "known C R {} True s"
    then show "case body s s of (Inr a, s') \<Rightarrow> known C R {} True s' | (Inl e, s') \<Rightarrow> known C R {} False s'"
      using spec [OF body [of s, unfolded triple_def], of s] by (rule rev_mp)
  qed
qed

section \<open>Where an entry belongs\<close>

lemma contents_drained: "\<forall>p \<in> set xs. empty_at s p \<Longrightarrow> contents s xs = []"
  by (auto simp: contents_def empty_items)

lemma above_right:
  assumes so: "sorted (contents s cs)" and j: "j = first_full s cs (i + 1)" "\<not> (j < length cs \<and> owned s 0 key t (cs ! j))"
  shows "\<forall>x \<in> set (contents s (drop (i + 1) cs)). (key, t) \<le> x"
proof -
  have "contents s (drop (i + 1) cs) = contents s (takeWhile (empty_at s) (drop (i + 1) cs)) @ contents s (dropWhile (empty_at s) (drop (i + 1) cs))"
    by (simp flip: contents_append)
  moreover have "contents s (takeWhile (empty_at s) (drop (i + 1) cs)) = []"
    by (rule contents_drained) (auto dest: set_takeWhileD)
  moreover have "dropWhile (empty_at s) (drop (i + 1) cs) = drop j cs"
    by (simp add: dropWhile_eq_drop first_full_def add.commute add.left_commute j(1))
  ultimately have c: "contents s (drop (i + 1) cs) = contents s (drop j cs)"
    by simp
  show ?thesis
  proof (cases "j < length cs")
    case True
    then have ne: "\<not> empty_at s (cs ! j)" "\<not> owned s 0 key t (cs ! j)"
      using j first_full_facts(2) by auto
    then obtain x xs where I: "items_at s (cs ! j) = x # xs"
      by (metis empty_at_def items_at_def length_items(1) list.exhaust list.size(3))
    have e: "(key, t) \<le> x"
      using ne I by (simp add: owned_def less_imp_le)
    have d: "contents s (drop j cs) = x # (xs @ contents s (drop (Suc j) cs))"
      using I True by (simp flip: Cons_nth_drop_Suc)
    have "sorted (contents s (drop j cs))"
      using so contents_append [of s "take j cs" "drop j cs"] by (simp add: sorted_append)
    then have "x \<le> y" if "y \<in> set (contents s (drop j cs))" for y
      using that unfolding d by auto
    then have "(key, t) \<le> y" if "y \<in> set (contents s (drop j cs))" for y
      using order_trans [OF e] that by blast
    then show ?thesis
      unfolding c by blast
  next
    case False
    then show ?thesis
      unfolding c by simp
  qed
qed

lemma below_first:
  assumes so: "sorted (contents s cs)" and i: "i < length cs" and e: "\<not> empty_at s (cs ! i)" "hd (items_at s (cs ! i)) \<le> e"
  shows "\<forall>x \<in> set (contents s (take i cs)). x \<le> e"
proof
  fix x
  assume x: "x \<in> set (contents s (take i cs))"
  obtain y ys where I: "items_at s (cs ! i) = y # ys"
    using e(1) by (metis empty_at_def items_at_def length_items(1) list.exhaust list.size(3))
  have "sorted (contents s (take i cs) @ y # ys @ contents s (drop (i + 1) cs))"
    using so contents_split [OF i, of s] I by simp
  then have "x \<le> y"
    using x by (simp add: sorted_append)
  then show "x \<le> e"
    using e(2) I by (simp add: order_trans [of x y])
qed

lemma le_last: "sorted xs \<Longrightarrow> x \<in> set xs \<Longrightarrow> x \<le> last (xs :: 'a :: linorder list)"
  by (induction xs) auto

lemma below_last:
  assumes so: "sorted (contents s cs)" and i: "k < i" "i \<le> length cs" "\<forall>j. k < j \<and> j < i \<longrightarrow> empty_at s (cs ! j)"
    and e: "\<not> empty_at s (cs ! k)" "last (items_at s (cs ! k)) \<le> e"
  shows "\<forall>x \<in> set (contents s (take i cs)). x \<le> e"
proof
  fix x
  assume x: "x \<in> set (contents s (take i cs))"
  have t: "take i cs = take (k + 1) cs @ drop (k + 1) (take i cs)"
    using append_take_drop_id [of "k + 1" "take i cs"] i(1) by (simp add: min_def)
  have "\<forall>p \<in> set (drop (k + 1) (take i cs)). empty_at s p"
  proof
    fix p
    assume "p \<in> set (drop (k + 1) (take i cs))"
    then obtain m where "m < i - (k + 1)" "p = cs ! (k + 1 + m)"
      using i(2) by (auto simp: in_set_conv_nth)
    then show "empty_at s p"
      using i(3) by simp
  qed
  from contents_drained [OF this] have "contents s (take i cs) = contents s (take (k + 1) cs)"
    using arg_cong [OF t, of "contents s"] by (simp only: contents_append append_Nil2)
  also have "\<dots> = contents s (take k cs) @ items_at s (cs ! k)"
    using i by (simp add: take_Suc_conv_app_nth)
  finally have c: "contents s (take i cs) = contents s (take k cs) @ items_at s (cs ! k)" .
  have ne: "items_at s (cs ! k) \<noteq> []"
    using e(1) by (metis empty_at_def items_at_def length_items(1) list.size(3))
  have "sorted (contents s (take i cs))"
    using so contents_append [of s "take i cs" "drop i cs"] by (simp add: sorted_append)
  from le_last [OF this x] have "x \<le> last (items_at s (cs ! k))"
    unfolding c last_appendR [OF ne] .
  then show "x \<le> e"
    using e(2) by (rule order_trans)
qed

lemma nothing_left:
  assumes h: "hints s cs" and i: "i < length cs"
    and n: "i = 0 \<or> (\<exists>a < i. nd_prev (node_at s (cs ! i)) = cs ! a \<and> (\<forall>j. a \<le> j \<and> j < i \<longrightarrow> empty_at s (cs ! j)))"
  shows "contents s (take i cs) = []"
proof (cases "i = 0")
  case False
  then obtain a where a: "a < i" "nd_prev (node_at s (cs ! i)) = cs ! a" "\<forall>j. a \<le> j \<and> j < i \<longrightarrow> empty_at s (cs ! j)"
    using n by blast
  then have "a = 0"
    using h i unfolding hints_def by blast
  then show ?thesis
    using a(3) i by (intro contents_drained) (auto simp: in_set_conv_nth)
qed simp

subsection \<open>The optimistic pass\<close>

definition slot_for :: "'a :: linorder \<Rightarrow> nat \<Rightarrow> 'a list \<Rightarrow> bool" where
  "slot_for e n xs \<longleftrightarrow> (\<forall>x \<in> set (take n xs). x \<le> e) \<and> (\<forall>x \<in> set (drop n xs). e \<le> x)"

lemma slot_for_takeWhile: "sorted xs \<Longrightarrow> slot_for e (length (takeWhile (\<lambda>x. x < e) xs)) xs"
  unfolding slot_for_def using takeWhile_sorted(2,3) [of xs _ e] less_imp_le by blast

lemma items_sorted: "sorted (contents s cs) \<Longrightarrow> i < length cs \<Longrightarrow> sorted (items_at s (cs ! i))"
  using contents_split [of i cs s] by (simp add: sorted_append)

lemma insert_slot_for:
  assumes p: "is_page s 0 p" and so: "sorted (items_at s p)" and r: "leaf_insert_slot (guarded s p) key t = Ok pos"
  shows "slot_for (key, t) (unat pos) (items_at s p)" "unat pos = 0 \<Longrightarrow> \<not> empty_at s p \<Longrightarrow> dominated s 0 key t p"
    "unat pos \<noteq> 0 \<Longrightarrow> \<not> empty_at s p \<and> hd (items_at s p) \<le> (key, t)"
proof -
  let ?xs = "items_at s p" and ?n = "length (takeWhile (\<lambda>x. x < (key, t)) (items_at s p))"
  have lp: "leaf_page (guarded s p)" "btree_page (guarded s p)" "sorted (leaf_items (guarded s p))"
    using is_pageD(3,5) [OF p] so by (simp_all add: items_at_def)
  have ne: "(key, t) \<notin> set ?xs" and pos: "pos = of_nat ?n"
    using leaf_insert_slot_eq [OF lp(1,3), of key t] r by (simp_all add: items_at_def split: if_splits)
  have "?n \<le> length ?xs"
    by (rule length_takeWhile_le)
  then have u: "unat pos = ?n"
    using slot_u16 [OF lp(2), of ?n] pos by (simp add: items_at_def)
  show "slot_for (key, t) (unat pos) ?xs"
    unfolding u by (rule slot_for_takeWhile [OF so])
  show "dominated s 0 key t p" if "unat pos = 0" "\<not> empty_at s p"
  proof -
    obtain x xs where I: "?xs = x # xs"
      using \<open>\<not> empty_at s p\<close> by (metis empty_at_def items_at_def length_items(1) list.exhaust list.size(3))
    then have "\<not> x < (key, t)" "x \<noteq> (key, t)"
      using \<open>unat pos = 0\<close> u ne by (auto split: if_splits)
    then have "(key, t) < x"
      by (meson linorder_neqE)
    then show ?thesis
      by (simp add: dominated_def I)
  qed
  show "\<not> empty_at s p \<and> hd ?xs \<le> (key, t)" if "unat pos \<noteq> 0"
  proof (cases ?xs)
    case (Cons x xs)
    then have "x < (key, t)"
      using that u by (simp split: if_splits)
    moreover have "\<not> empty_at s p"
      using Cons by (metis empty_items list.distinct(1))
    ultimately show ?thesis
      using Cons by (simp add: less_imp_le)
  qed (use that u in simp)
qed

lemma last_above_eq:
  assumes "is_page s 0 p" "\<not> empty_at s p"
  shows "last_above (guarded s p) key t = Ok (last (items_at s p) > (key, t))"
proof -
  have lp: "leaf_page (guarded s p)"
    by (rule is_pageD(5) [OF assms(1)]) simp
  have c: "0 < slot_count (guarded s p)"
    using assms(2) by (simp add: empty_at_def)
  then have "(of_nat (slot_count (guarded s p)) - 1 :: u16) = of_nat (slot_count (guarded s p) - 1)"
    by (simp add: of_nat_diff)
  moreover have "items_at s p \<noteq> []"
    using c by (metis items_at_def length_greater_0_conv length_items(1))
  ultimately show ?thesis
    using leaf_entry_at_nth [OF lp, of "slot_count (guarded s p) - 1"] c
    by (simp add: last_above_def last_conv_nth items_at_def)
qed

lemma right_target_le: "right_target E s level key t nxt hops = Ok (r, hops') \<Longrightarrow> hops \<le> MAX_CHAIN_HOPS \<Longrightarrow> hops' \<le> MAX_CHAIN_HOPS"
proof (induction E s level key t nxt hops rule: right_target.induct)
  case (1 E s level key t nxt hops)
  consider "nxt = 0" | pg where "nxt \<noteq> 0" "bt_pin E s nxt = Ok pg" "slot_count pg \<noteq> 0"
    | pg n2 where "nxt \<noteq> 0" "bt_pin E s nxt = Ok pg" "slot_count pg = 0" "bt_next pg = Ok n2" "\<not> hops + 1 > MAX_CHAIN_HOPS"
        "right_target E s level key t n2 (hops + 1) = Ok (r, hops')"
    using "1.prems"(1) by (subst (asm) right_target.simps) (auto simp: try_then_Ok_iff split: if_splits)
  then show ?case
  proof cases
    case 3
    then show ?thesis
      using "1.IH" [OF 3(1-6)] by simp
  qed (use "1.prems" in \<open>subst (asm) right_target.simps, auto simp: try_then_Ok_iff\<close>)+
qed

lemma clean_until_Ok:
  assumes ch: "chain s 0 cs" and i: "i < length cs"
    and "k \<le> i" "\<forall>j. k \<le> j \<and> j < i \<longrightarrow> empty_at s (cs ! j)" "clean_until E s (cs ! i) (cs ! k) hops = Ok (c, h)"
  shows "c \<and> hops \<le> h \<and> (hops \<le> MAX_CHAIN_HOPS \<longrightarrow> h \<le> MAX_CHAIN_HOPS)"
  using assms(3-5)
proof (induction "i - k" arbitrary: k hops)
  case 0
  then show ?case
    by (subst (asm) clean_until.simps) simp
next
  case (Suc n)
  have k: "k < i"
    using Suc.hyps(2) by simp
  have "cs ! k \<noteq> cs ! i"
    using ch k i by (simp add: chain_def nth_eq_iff_index_eq)
  moreover have kl: "k < length cs"
    using k i by simp
  note p = is_pageD [OF chainD(1) [OF ch kl]]
  have nx: "bt_next (guarded s (cs ! k)) = Ok (cs ! (k + 1))"
    using p(9) chainD(2) [OF ch kl] k i by simp
  have "empty_at s (cs ! k)"
    using Suc.prems(2) k by simp
  ultimately have "\<not> hops + 1 > MAX_CHAIN_HOPS" "clean_until E s (cs ! i) (cs ! (k + 1)) (hops + 1) = Ok (c, h)"
    using Suc.prems(3) p(1) nx
    by (subst (asm) clean_until.simps, auto simp: try_then_Ok_iff empty_at_def dest!: bt_pin_guarded split: if_splits)+
  then have "c \<and> hops + 1 \<le> h \<and> (hops + 1 \<le> MAX_CHAIN_HOPS \<longrightarrow> h \<le> MAX_CHAIN_HOPS)"
    by (intro Suc.hyps(1)) (use Suc.hyps(2) Suc.prems(2) k in auto)
  then show ?case
    using \<open>\<not> hops + 1 > MAX_CHAIN_HOPS\<close> by linarith
qed

lemma nonempty_right_Ok:
  assumes ch: "chain s 0 cs"
    and "i < length cs" "nonempty_right E s (nd_next (node_at s (cs ! i))) hops = Ok (x, h)" "hops \<le> MAX_CHAIN_HOPS"
  shows "hops \<le> h \<and> h \<le> MAX_CHAIN_HOPS \<and> (\<forall>r. x = Some r \<longrightarrow> r \<in> set cs)"
  using assms(2-4)
proof (induction "length cs - i" arbitrary: i hops)
  case (Suc n)
  show ?case
  proof (cases "i + 1 < length cs")
    case True
    note nx = chainD(2) [OF ch Suc.prems(1)] and p = is_pageD [OF chainD(1) [OF ch True]]
    have n1: "nd_next (node_at s (cs ! i)) = cs ! (i + 1)"
      using nx True by simp
    consider "x = Some (cs ! (i + 1))" "h = hops"
      | "\<not> hops + 1 > MAX_CHAIN_HOPS" "nonempty_right E s (nd_next (node_at s (cs ! (i + 1)))) (hops + 1) = Ok (x, h)"
      using Suc.prems(2) p(1,9) unfolding n1
      by (subst (asm) nonempty_right.simps) (auto simp: try_then_Ok_iff dest!: bt_pin_guarded split: if_splits)
    then show ?thesis
    proof cases
      case 1
      then show ?thesis
        using True Suc.prems(3) by simp
    next
      case 2
      have "hops + 1 \<le> h \<and> h \<le> MAX_CHAIN_HOPS \<and> (\<forall>r. x = Some r \<longrightarrow> r \<in> set cs)"
        by (rule Suc.hyps(1) [OF _ True 2(2)]) (use 2(1) Suc.hyps(2) in auto)
      then show ?thesis
        by auto
    qed
  next
    case False
    then have "nd_next (node_at s (cs ! i)) = 0"
      using chainD(2) [OF ch Suc.prems(1)] by simp
    then show ?thesis
      using Suc.prems(2,3) by (subst (asm) nonempty_right.simps) simp
  qed
qed simp

lemma left_edge_Ok:
  assumes ch: "chain s 0 cs" and i: "i < length cs" and k: "k < i" "\<not> empty_at s (cs ! k)" "\<forall>j. k < j \<and> j < i \<longrightarrow> empty_at s (cs ! j)"
    and d: "\<not> empty_at s (cs ! i) \<Longrightarrow> dominated s 0 key t (cs ! i)" and h: "hops \<le> MAX_CHAIN_HOPS"
    and r: "left_edge E s key t (cs ! i) (cs ! k) hops = Ok x"
  shows "(\<exists>h'. x = Inl (cs ! k, h') \<and> hops < h' \<and> h' \<le> MAX_CHAIN_HOPS) \<or> x = Inr 0 \<and> last (items_at s (cs ! k)) \<le> (key, t)"
proof -
  have kl: "k < length cs"
    using k(1) i by simp
  note pk = is_pageD [OF chainD(1) [OF ch kl]] and pi = is_pageD [OF chainD(1) [OF ch i]]
  have nx: "bt_next (guarded s (cs ! k)) = Ok (cs ! (k + 1))"
    using pk(9) chainD(2) [OF ch kl] k(1) i by simp
  have fa: "slot_count (guarded s (cs ! i)) \<noteq> 0 \<Longrightarrow> first_above 0 (guarded s (cs ! i)) key t = Ok True"
    using first_above_eq [OF chainD(1) [OF ch i], of key t] d by (simp add: empty_at_def)
  note la = last_above_eq [OF chainD(1) [OF ch kl] k(2), of key t]
  obtain pg where "bt_pin E s (cs ! k) = Ok pg"
    using r unfolding left_edge_def by (auto simp: try_then_Ok_iff)
  then have bk: "bt_pin E s (cs ! k) = Ok (guarded s (cs ! k))"
    using bt_pin_guarded by blast
  obtain pg' where "bt_pin E s (cs ! i) = Ok pg'"
    using r bk k(2) unfolding left_edge_def by (auto simp: try_then_Ok_iff empty_at_def)
  then have bi: "bt_pin E s (cs ! i) = Ok (guarded s (cs ! i))"
    using bt_pin_guarded by blast
  obtain c h1 where c: "clean_until E s (cs ! i) (cs ! (k + 1)) hops = Ok (c, h1)"
    using r bk bi k(2) nx unfolding left_edge_def by (auto simp: try_then_Ok_iff empty_at_def)
  have cl: "c" "hops \<le> h1" "h1 \<le> MAX_CHAIN_HOPS"
    using clean_until_Ok [OF ch i _ _ c] k h by auto
  have "(if last (items_at s (cs ! k)) > (key, t) then (if h1 + 1 > MAX_CHAIN_HOPS then Err BtCorrupted else Ok (Inl (cs ! k, h1 + 1)))
      else Ok (Inr 0)) = Ok x"
    using r k(2) nx bk bi c cl(1) fa la unfolding left_edge_def by (auto simp: empty_at_def split: if_split_asm)
  then show ?thesis
    using cl by (auto split: if_splits)
qed

lemma right_edge_Ok:
  assumes ch: "chain s 0 cs" and i: "i < length cs" and h: "hops \<le> MAX_CHAIN_HOPS" and r: "right_edge E s key t (cs ! i) hops = Ok x"
  shows "(\<exists>p h'. x = Inl (p, h') \<and> p \<in> set cs \<and> hops < h' \<and> h' \<le> MAX_CHAIN_HOPS) \<or> x = Inr 0"
proof -
  note p = is_pageD [OF chainD(1) [OF ch i]]
  obtain y h1 where n: "nonempty_right E s (nd_next (node_at s (cs ! i))) hops = Ok (y, h1)"
    and x: "(case y of None \<Rightarrow> Ok (Inr 0)
      | Some r \<Rightarrow> try_then (leaf_entry_at (guarded s r) 0) (\<lambda>x.
          if x \<le> (key, t) then (if h1 + 1 > MAX_CHAIN_HOPS then Err BtCorrupted else Ok (Inl (r, h1 + 1))) else Ok (Inr 0))) = Ok x"
    using r p(9) unfolding right_edge_def by (auto simp: try_then_Ok_iff dest!: bt_pin_guarded)
  note nr = nonempty_right_Ok [OF ch i n h]
  show ?thesis
  proof (cases y)
    case (Some q)
    then obtain a where "(if a \<le> (key, t) then (if h1 + 1 > MAX_CHAIN_HOPS then Err BtCorrupted else Ok (Inl (q, h1 + 1))) else Ok (Inr 0)) = Ok x"
      using x by (auto simp: try_then_Ok_iff)
    then show ?thesis
      using nr Some by (auto split: if_split_asm)
  qed (use x in simp)
qed

lemma insert_round_Ok:
  assumes ch: "chain s 0 cs" and so: "sorted (contents s cs)" and hi: "hints s cs" and i: "i < length cs" and h: "hops \<le> MAX_CHAIN_HOPS"
    and r: "insert_round E s key t (cs ! i) hops = Ok x"
  shows "(\<exists>p h'. x = Inl (p, h') \<and> p \<in> set cs \<and> hops < h' \<and> h' \<le> MAX_CHAIN_HOPS) \<or>
    (\<exists>pos. x = Inr pos \<and> lands (key, t) s cs i \<and> slot_for (key, t) (unat pos) (items_at s (cs ! i)))"
proof -
  note p = is_pageD [OF chainD(1) [OF ch i]]
  obtain tgt h1 where rt: "right_target E s 0 key t (nd_next (node_at s (cs ! i))) hops = Ok (tgt, h1)"
    and x: "(case tgt of
        Some target \<Rightarrow> try_then (hop_to E s target h1) (\<lambda>c. Ok (Inl c))
      | None \<Rightarrow>
          try_then (leaf_insert_slot (guarded s (cs ! i)) key t) (\<lambda>pos.
            if pos > 0 then Ok (Inr pos)
            else try_then (nearest_nonempty_left E s (cs ! i)) (\<lambda>left.
              case left of
                Some lid \<Rightarrow> left_edge E s key t (cs ! i) lid h1
              | None \<Rightarrow> right_edge E s key t (cs ! i) h1))) = Ok x"
    using r p(9) unfolding insert_round_def by (auto simp: try_then_Ok_iff)
  note t = right_target_Ok [OF ch i rt, unfolded Let_def]
  have h1: "hops \<le> h1" "h1 \<le> MAX_CHAIN_HOPS"
    using right_target_hops [OF rt] right_target_le [OF rt h] by auto
  show ?thesis
  proof (cases tgt)
    case (Some q)
    then have "q \<in> set cs"
      using t by (auto split: if_splits)
    moreover obtain c where c: "hop_to E s q h1 = Ok c" "x = Inl c"
      using x Some by (auto simp: try_then_Ok_iff)
    moreover obtain a b where "c = (a, b)"
      by (cases c)
    ultimately show ?thesis
      using h1 by (auto simp: hop_to_Ok)
  next
    case None
    let ?j = "first_full s cs (i + 1)"
    have "\<not> (?j < length cs \<and> owned s 0 key t (cs ! ?j))"
      using t None by (auto split: if_splits)
    note right = above_right [OF so HOL.refl this]
    obtain pos where pos: "leaf_insert_slot (guarded s (cs ! i)) key t = Ok pos"
      and x': "(if pos > 0 then Ok (Inr pos)
            else try_then (nearest_nonempty_left E s (cs ! i)) (\<lambda>left.
              case left of Some lid \<Rightarrow> left_edge E s key t (cs ! i) lid h1 | None \<Rightarrow> right_edge E s key t (cs ! i) h1)) = Ok x"
      using x None by (auto simp: try_then_Ok_iff)
    note sl = insert_slot_for [OF chainD(1) [OF ch i] items_sorted [OF so i] pos]
    show ?thesis
    proof (cases "pos > 0")
      case True
      then have "unat pos \<noteq> 0"
        by (simp add: word_greater_zero_iff unat_eq_0)
      from below_first [OF so i, of "(key, t)"] sl(3) [OF this] have "lands (key, t) s cs i"
        using right i by (simp add: lands_def)
      then show ?thesis
        using x' True sl(1) by auto
    next
      case False
      then have z: "unat pos = 0"
        by (simp add: word_greater_zero_iff)
      obtain left where nl: "nearest_nonempty_left E s (cs ! i) = Ok left"
        and x'': "(case left of Some lid \<Rightarrow> left_edge E s key t (cs ! i) lid h1 | None \<Rightarrow> right_edge E s key t (cs ! i) h1) = Ok x"
        using x' False by (auto simp: try_then_Ok_iff)
      note n = nearest_nonempty_left_Ok [OF ch i nl]
      show ?thesis
      proof (cases left)
        case (Some lid)
        then obtain k where k: "k < i" "lid = cs ! k" "\<not> empty_at s (cs ! k)" "\<forall>j. k < j \<and> j < i \<longrightarrow> empty_at s (cs ! j)"
          using n by auto
        have "left_edge E s key t (cs ! i) (cs ! k) h1 = Ok x"
          using x'' Some k(2) by simp
        from left_edge_Ok [OF ch i k(1,3,4) _ h1(2) this] sl(2) [OF z]
        consider h' where "x = Inl (cs ! k, h')" "h1 < h'" "h' \<le> MAX_CHAIN_HOPS" | "x = Inr 0" "last (items_at s (cs ! k)) \<le> (key, t)"
          by blast
        then show ?thesis
        proof cases
          case 1
          moreover have "cs ! k \<in> set cs"
            using k(1) i by simp
          ultimately show ?thesis
            using h1(1) by auto
        next
          case 2
          have "lands (key, t) s cs i"
            using below_last [OF so k(1) _ k(4,3) 2(2)] right i by (simp add: lands_def)
          then show ?thesis
            using 2(1) sl(1) z by simp
        qed
      next
        case None
        have "contents s (take i cs) = []"
          by (rule nothing_left [OF hi i]) (use n None in simp)
        then have l: "lands (key, t) s cs i"
          using right i by (simp add: lands_def)
        have "right_edge E s key t (cs ! i) h1 = Ok x"
          using x'' None by simp
        from right_edge_Ok [OF ch i h1(2) this] show ?thesis
        proof
          assume "\<exists>p h'. x = Inl (p, h') \<and> p \<in> set cs \<and> h1 < h' \<and> h' \<le> MAX_CHAIN_HOPS"
          then show ?thesis
            using h1(1) by auto
        next
          assume "x = Inr 0"
          then show ?thesis
            using l sl(1) z by simp
        qed
      qed
    qed
  qed
qed

lemma quiet_chain:
  assumes "chain s lv cs" "quiet s s'"
  shows "chain s' lv cs" "contents s' cs = contents s cs" "hints s cs \<Longrightarrow> hints s' cs"
proof -
  have v: "\<forall>p \<in> set cs. view s' p = view s p"
    using assms(2) by (simp add: quiet_def)
  show "chain s' lv cs" "contents s' cs = contents s cs"
    by (rule chain_cong [OF assms(1) v], rule contents_cong [OF assms(1) v])
  show "hints s' cs" if "hints s cs"
    using that by (rule hints_mono) (use quiet_node [OF chain_mem [OF assms(1)] assms(2)] in \<open>simp add: node_reads_at\<close>)
qed

lemma steady_fpi_unless_splitting: "(b \<Longrightarrow> never_full E) \<Longrightarrow> steady_run b (fpi_unless_splitting E cur)"
  unfolding fpi_unless_splitting_def by (auto simp: steady intro!: steady_then)

lemma pin_leaf_for_insert_spec:
  assumes b: "b \<Longrightarrow> never_full E"
    and "chain s 0 cs" "sorted (contents s cs)" "hints s cs" "cur \<in> set cs" "hops \<le> MAX_CHAIN_HOPS" "MAX_CHAIN_HOPS - hops < fuel"
    and "pin_leaf_for_insert E key t fuel cur hops s = (r, s')"
  shows "quiet s s' \<and> (\<forall>e. r = Err e \<longrightarrow> calm b e) \<and>
    (\<forall>c pos. r = Ok (c, pos) \<longrightarrow> (\<exists>i < length cs. c = cs ! i \<and> lands (key, t) s' cs i \<and> slot_for (key, t) (unat pos) (items_at s' c)))"
  using assms(2-)
proof (induction fuel arbitrary: cur hops s)
  case (Suc fuel)
  obtain i where i: "i < length cs" "cur = cs ! i"
    using Suc.prems(4) by (metis in_set_conv_nth)
  obtain x s1 where f: "fpi_unless_splitting E cur s = (x, s1)"
    by fastforce
  have q: "quiet s s1"
    using fpi_unless_splitting_quiet [OF _ f] view_page [OF chain_mem [OF Suc.prems(1,4)]] by simp
  have "steady_run b (fpi_unless_splitting E cur)"
    by (rule steady_fpi_unless_splitting) (rule b)
  then have "steady b (fst (fpi_unless_splitting E cur s))"
    unfolding steady_run_def ..
  then have x: "\<And>e. x = Err e \<Longrightarrow> calm b e"
    using f by simp
  note c1 = quiet_chain [OF Suc.prems(1) q]
  have so1: "sorted (contents s1 cs)"
    using Suc.prems(2) c1(2) by simp
  have run: "(case x of Inl e \<Rightarrow> (Err e, s1) | Inr _ \<Rightarrow>
      (case insert_round E s1 key t cur hops of
        Inl e \<Rightarrow> (Err e, s1)
      | Inr (Inr pos) \<Rightarrow> (Ok (cur, pos), s1)
      | Inr (Inl (pid, hops)) \<Rightarrow> pin_leaf_for_insert E key t fuel pid hops s1)) = (r, s')"
    using Suc.prems(7) f by (simp add: bt_then_def split: sum.splits)
  show ?case
  proof (cases x)
    case (Inl e)
    then show ?thesis
      using run x q by auto
  next
    case xx: (Inr u)
    show ?thesis
    proof (cases "insert_round E s1 key t cur hops")
      case (Inl e)
      moreover have "steady b (insert_round E s1 key t cur hops)"
        by (rule steady_insert_round) (rule b)
      ultimately have "calm b e"
        by simp
      then show ?thesis
        using run xx Inl q by auto
    next
      case (Inr y)
      from insert_round_Ok [OF c1(1) so1 c1(3) [OF Suc.prems(3)] i(1) Suc.prems(5) Inr [unfolded i(2)]]
      consider p h' where "y = Inl (p, h')" "p \<in> set cs" "hops < h'" "h' \<le> MAX_CHAIN_HOPS"
        | pos where "y = Inr pos" "lands (key, t) s1 cs i" "slot_for (key, t) (unat pos) (items_at s1 (cs ! i))"
        by blast
      then show ?thesis
      proof cases
        case 1
        have go: "pin_leaf_for_insert E key t fuel p h' s1 = (r, s')"
          using run xx Inr 1(1) by simp
        have "MAX_CHAIN_HOPS - h' < fuel"
          using 1(3,4) Suc.prems(6) by linarith
        from Suc.IH [OF c1(1) so1 c1(3) [OF Suc.prems(3)] 1(2,4) this go] show ?thesis
          using quiet_trans [OF q] by blast
      next
        case 2
        then have "r = Ok (cur, pos)" "s' = s1"
          using run xx Inr by simp_all
        then show ?thesis
          using 2 q i by auto
      qed
    qed
  qed
qed simp

lemma descend_steady:
  assumes t: "tree s Ls" and b: "b \<Longrightarrow> never_full E"
    and "l < length Ls" "c \<in> set (Ls ! l)" "full s l c" "l < fuel"
  shows "steady b (descend E s ins key t fuel c path hopped)"
  using assms(3-)
proof (induction l arbitrary: c fuel path hopped)
  case 0
  then obtain f where f: "fuel = Suc f"
    by (cases fuel) auto
  have "chain s (of_nat 0) (Ls ! 0)"
    by (rule treeD(4) [OF t 0(1)])
  then have lv: "bt_level (guarded s c) = Ok 0"
    using is_pageD(7) [OF chain_mem [OF _ 0(2)]] by fastforce
  show ?case
    unfolding f descend.simps lv by (auto simp: steady b intro!: steady_try)
next
  case (Suc l)
  then obtain f where f: "fuel = Suc f"
    by (cases fuel) auto
  have l: "Suc l < 16"
    using treeD(2) [OF t] Suc.prems by simp
  have ch: "chain s (of_nat (Suc l)) (Ls ! Suc l)" "prevs_full s (Suc l) (Ls ! Suc l)"
    using treeD(4,6) [OF t Suc.prems(1)] by auto
  note lvn = level_nonzero [OF zero_less_Suc l]
  have lv: "bt_level (guarded s c) = Ok (of_nat (Suc l))"
    by (rule is_pageD(7) [OF chain_mem [OF ch(1) Suc.prems(2)]])
  show ?case
    unfolding f descend.simps lv try_then_simps
  proof (rule steady_try)
    show "steady b (walk_to_position E s ins (of_nat (Suc l)) key t c 0 0 hopped)"
      by (rule steady_walk) (rule b)
    fix w
    assume w: "walk_to_position E s ins (of_nat (Suc l)) key t c 0 0 hopped = Ok w"
    obtain p h' where p: "w = (p, h')"
      by (cases w)
    note q = walk_full [OF ch l w [unfolded p] Suc.prems(2,3)]
    have "0 < slot_count (guarded s p)"
      using q by (simp add: full_def empty_at_def)
    from find_child_in [OF is_pageD(6) [OF chain_mem [OF ch(1)] lvn] this, of key] q
    obtain c' where c': "find_child (guarded s p) key = Ok c'" "c' \<in> children s p"
      by (auto simp: children_def)
    then have "c' \<in> set (Ls ! l)" "full s l c'"
      using treeD(7) [OF t Suc.prems(1)] q by (auto simp: linked_def)
    then have "steady b (descend E s ins key t f c' (path @ [p]) h')"
      using Suc.IH [of c' f] Suc.prems(1,4) f by simp
    then show "steady b (case w of (cur, hopped) \<Rightarrow>
        if of_nat (Suc l) = 0 then Ok (cur, path, hopped)
        else try_then (find_child (guarded s cur) key) (\<lambda>child. try_then (bt_pin E s child)
          (\<lambda>_. descend E s ins key t f child (path @ [cur]) hopped)))"
      unfolding p using c'(1) lvn b by (auto simp: steady simp del: of_nat_Suc intro!: steady_try)
  qed
qed

lemma knows_leaves:
  assumes "knows C R F b s Ls"
  shows "tree s Ls" "chain s 0 (hd Ls)" "sorted (contents s (hd Ls))" "hints s (hd Ls)" "contents s (hd Ls) = C"
proof -
  show t: "tree s Ls" "sorted (contents s (hd Ls))" "hints s (hd Ls)" "contents s (hd Ls) = C"
    using assms by (auto simp: knows_def index_inv_def)
  show "chain s 0 (hd Ls)"
    using treeD(4) [OF t(1), of 0] treeD(1,8) [OF t(1)] by auto
qed

lemma descend_for_insert:
  assumes t: "tree s Ls" and b: "b \<Longrightarrow> never_full E"
  shows "steady b (descend_to_leaf_for_insert E s key t)"
    "descend_to_leaf_for_insert E s key t = Ok (leaf, path, h) \<Longrightarrow> leaf \<in> set (hd Ls)"
proof -
  have l: "length Ls - 1 < length Ls" "root_page s \<in> set (Ls ! (length Ls - 1))" "length Ls - 1 < DESCENT_FUEL"
    using treeD(1,2,3) [OF t] by (auto simp: last_conv_nth DESCENT_FUEL_def)
  have "steady b (descend E s True key t DESCENT_FUEL (root_page s) [] False)"
    by (rule descend_steady [OF t _ l(1,2) treeD(5) [OF t] l(3)]) (rule b)
  then show "steady b (descend_to_leaf_for_insert E s key t)"
    unfolding descend_to_leaf_for_insert_def descend_to_leaf_from_def by (auto simp: steady b intro!: steady_try)
  show "leaf \<in> set (hd Ls)" if "descend_to_leaf_for_insert E s key t = Ok (leaf, path, h)"
    using descend_to_leaf_mem [OF t] that by (simp add: descend_to_leaf_for_insert_def)
qed

lemma places_lands:
  assumes "knows C R {} b s Ls" "i < length (hd Ls)" "lands e s (hd Ls) i" "slot_for e n (items_at s (hd Ls ! i))"
  shows "places C R b e (hd Ls ! i) n s"
  unfolding places_def using assms by (intro exI [of _ Ls] exI [of _ i]) (auto simp: lands_def slot_for_def)

text \<open>What a pass leaves behind: the entries with or without the new one, and only calm errors.\<close>

lemma insert_optimistic_known:
  fixes E :: "'w bt_env"
  assumes b: "b \<Longrightarrow> never_full E"
  shows "triple (known C {} {} b') (insert_optimistic E key t (encode_leaf_entry key t))
    (\<lambda>placed. known (if placed then insort (key, t) C else C) {} {} b') (\<lambda>e s. known C {} {} b' s \<and> calm b e)"
proof (rule triple_knows)
  fix s :: "'w bt_store" and Ls
  assume k: "knows C {} {} b' s Ls"
  note kl = knows_leaves [OF k]
  let ?e = "encode_leaf_entry key t"
  let ?Q = "\<lambda>placed. known (if placed then insort (key, t) C else C) {} {} b'" and ?X = "\<lambda>e s. known C {} {} b' s \<and> calm b e"
  let ?post = "\<lambda>out. case out of (Inr a, s') \<Rightarrow> ?Q a s' | (Inl e, s') \<Rightarrow> ?X e s'"
  have k0: "known C {} {} b' s"
    using k by (auto simp: known_def)
  have st: "steady b (descend_to_leaf_for_insert E s key t)"
    by (rule descend_for_insert [OF kl(1)]) (rule b)
  show "?post (insert_optimistic E key t ?e s)"
  proof (cases "descend_to_leaf_for_insert E s key t")
    case (Inl e)
    then show ?thesis
      using st k0 by (simp add: insert_optimistic_def bt_then_def bt_get_def)
  next
    case (Inr x)
    obtain leaf path h where x: "x = (leaf, path, h)"
      by (cases x)
    have lf: "leaf \<in> set (hd Ls)"
      using descend_for_insert(2) [OF kl(1), of b E key t leaf path h] b Inr x by blast
    show ?thesis
    proof (cases "bt_pin E s leaf")
      case pin: (Inl e)
      have "steady b (bt_pin E s leaf)"
        by (rule steady_pin) (rule b)
      then show ?thesis
        using pin Inr x k0 by (simp add: insert_optimistic_def bt_then_def bt_get_def)
    next
      case pin: (Inr pg)
      obtain r s1 where run: "pin_leaf_for_insert E key t PLACE_FUEL leaf 0 s = (r, s1)"
        by fastforce
      have "quiet s s1 \<and> (\<forall>e. r = Err e \<longrightarrow> calm b e) \<and> (\<forall>c pos. r = Ok (c, pos) \<longrightarrow>
          (\<exists>i < length (hd Ls). c = hd Ls ! i \<and> lands (key, t) s1 (hd Ls) i \<and> slot_for (key, t) (unat pos) (items_at s1 c)))"
        by (rule pin_leaf_for_insert_spec [OF _ kl(2-4) lf _ _ run]) (simp_all add: b PLACE_FUEL_def)
      then have q: "quiet s s1" and r: "\<And>e. r = Err e \<Longrightarrow> calm b e"
        "\<And>c pos. r = Ok (c, pos) \<Longrightarrow>
          \<exists>i < length (hd Ls). c = hd Ls ! i \<and> lands (key, t) s1 (hd Ls) i \<and> slot_for (key, t) (unat pos) (items_at s1 c)"
        by blast+
      have k1: "knows C {} {} b' s1 Ls"
        by (rule quiet_knows [OF k q])
      then have kn: "known C {} {} b' s1"
        by (auto simp: known_def)
      show ?thesis
      proof (cases r)
        case re: (Inl e)
        then show ?thesis
          using r(1) run pin Inr x kn by (simp add: insert_optimistic_def bt_then_def bt_get_def)
      next
        case rk: (Inr y)
        obtain c pos where y: "y = (c, pos)"
          by (cases y)
        obtain i where i: "i < length (hd Ls)" "c = hd Ls ! i" "lands (key, t) s1 (hd Ls) i"
            "slot_for (key, t) (unat pos) (items_at s1 (hd Ls ! i))"
          using r(2) rk y by blast
        have pl: "places C {} b' (key, t) c (unat pos) s1"
          unfolding i(2) by (rule places_lands [OF k1 i(1,3,4)])
        have eq: "insert_optimistic E key t ?e s = (if free_space (guarded s1 c) \<ge> length ?e + 4
            then bt_then (insert_into_page E c pos ?e) (\<lambda>_. bt_return True) s1 else (Ok False, s1))"
          using run pin Inr x rk y by (simp add: insert_optimistic_def bt_then_def bt_get_def)
        obtain z s2 where ins: "insert_into_page E c pos ?e s1 = (z, s2)"
          by fastforce
        note tr = tripleD [OF insert_into_leaf_known pl, of E]
        have "steady_run b (insert_into_page E c pos ?e)"
          by (rule steady_insert_into_page) (rule b)
        then have "steady b (fst (insert_into_page E c pos ?e s1))"
          unfolding steady_run_def ..
        then show ?thesis
          using eq kn ins tr by (cases z) (auto simp: bt_then_def bt_return_def)
      qed
    qed
  qed
qed

subsection \<open>The descent of the pessimistic pass\<close>

definition left_done :: "'w bt_store \<Rightarrow> page_id list \<Rightarrow> byte list \<times> tid \<Rightarrow> page_id \<Rightarrow> bool" where
  "left_done s cs e v \<longleftrightarrow> (\<forall>i < length cs. cs ! i = v \<longrightarrow> (\<forall>x \<in> set (contents s (take i cs)). x \<le> e))"

definition step_ok :: "'w bt_store \<Rightarrow> page_id list list \<Rightarrow> byte list \<times> tid \<Rightarrow> nat \<Rightarrow> nat \<Rightarrow> nat \<Rightarrow> write_move \<Rightarrow> bool" where
  "step_ok s Ls e l i hops m \<longleftrightarrow> (case m of
      WAbort \<Rightarrow> True
    | WGoto p h v \<Rightarrow> in_tree s Ls p l \<and> hops < h \<and> h \<le> MAX_CHAIN_HOPS \<and> left_done s (hd Ls) e v
    | WDown c h \<Rightarrow> 0 < l \<and> in_tree s Ls c (l - 1) \<and> hops \<le> h \<and> h \<le> MAX_CHAIN_HOPS
    | WLeaf \<Rightarrow> l = 0 \<and> lands e s (hd Ls) i)"

lemma left_move_ok:
  assumes t: "tree s Ls" and so: "sorted (contents s (hd Ls))" and hi: "hints s (hd Ls)" and i: "i < length (hd Ls)"
    and v: "left_done s (hd Ls) (key, t) v"
    and r: "try_then (nearest_nonempty_left E s (hd Ls ! i)) (\<lambda>left.
       try_then (case left of
           None \<Rightarrow> Ok (False, 0)
         | Some lid \<Rightarrow> try_then (bt_pin E s lid) (\<lambda>lpg. try_then (last_above lpg key t) (\<lambda>go. Ok (go, lid))))
         (\<lambda>(go_left, walk).
           if go_left then try_then (hop_to E s walk hops) (\<lambda>(pid, hops). Ok (WGoto pid hops v))
           else try_then (hop_to E s (hd Ls ! i) hops) (\<lambda>(pid, hops). Ok (WGoto pid hops (hd Ls ! i))))) = Ok m"
  shows "step_ok s Ls (key, t) 0 i hops m"
proof -
  let ?cs = "hd Ls"
  have l0: "0 < length Ls" "?cs = Ls ! 0"
    using treeD(1,8) [OF t] by auto
  have ch: "chain s 0 ?cs"
    using treeD(4) [OF t l0(1)] l0(2) by simp
  have it: "in_tree s Ls p 0" if "p \<in> set ?cs" for p
    using that l0 by (simp add: in_tree_def full_def)
  have here: "step_ok s Ls (key, t) 0 i hops m"
    if "try_then (hop_to E s (?cs ! i) hops) (\<lambda>(pid, hops). Ok (WGoto pid hops (?cs ! i))) = Ok m" "\<forall>x \<in> set (contents s (take i ?cs)). x \<le> (key, t)"
  proof -
    have "distinct ?cs"
      using ch by (simp add: chain_def)
    then have "left_done s ?cs (key, t) (?cs ! i)"
      using that(2) i by (auto simp: left_done_def nth_eq_iff_index_eq)
    then show ?thesis
      using that(1) it [OF nth_mem [OF i]] by (auto simp: try_then_Ok_iff hop_to_Ok step_ok_def)
  qed
  obtain left where nl: "nearest_nonempty_left E s (?cs ! i) = Ok left"
    using r by (auto simp: try_then_Ok_iff)
  note n = nearest_nonempty_left_Ok [OF ch i nl]
  show ?thesis
  proof (cases left)
    case None
    have "contents s (take i ?cs) = []"
      by (rule nothing_left [OF hi i]) (use n None in simp)
    then show ?thesis
      using here r nl None by simp
  next
    case (Some lid)
    then obtain k where k: "k < i" "lid = ?cs ! k" "\<not> empty_at s (?cs ! k)" "\<forall>j. k < j \<and> j < i \<longrightarrow> empty_at s (?cs ! j)"
      using n by auto
    have kl: "k < length ?cs"
      using k(1) i by simp
    note la = last_above_eq [OF chainD(1) [OF ch kl] k(3), of key t]
    obtain pg where "bt_pin E s lid = Ok pg"
      using r nl Some by (auto simp: try_then_Ok_iff)
    then have pin: "bt_pin E s lid = Ok (guarded s (?cs ! k))"
      using bt_pin_guarded k(2) by blast
    let ?go = "last (items_at s (?cs ! k)) > (key, t)"
    show ?thesis
    proof (cases ?go)
      case True
      then have "try_then (hop_to E s (?cs ! k) hops) (\<lambda>(pid, hops). Ok (WGoto pid hops v)) = Ok m"
        using r nl Some pin la k(2) by simp
      then show ?thesis
        using it [OF nth_mem [OF kl]] v by (auto simp: try_then_Ok_iff hop_to_Ok step_ok_def)
    next
      case False
      then have "try_then (hop_to E s (?cs ! i) hops) (\<lambda>(pid, hops). Ok (WGoto pid hops (?cs ! i))) = Ok m"
        using r nl Some pin la k(2) by simp
      then show ?thesis
      proof (rule here)
        show "\<forall>x \<in> set (contents s (take i ?cs)). x \<le> (key, t)"
          by (rule below_last [OF so k(1) _ k(4,3)]) (use i False in \<open>simp_all add: not_less\<close>)
      qed
    qed
  qed
qed

lemma write_step_ok:
  assumes t: "tree s Ls" and so: "sorted (contents s (hd Ls))" and hi: "hints s (hd Ls)"
    and l: "l < length Ls" "i < length (Ls ! l)" "full s l (Ls ! l ! i)" and v: "left_done s (hd Ls) (key, t) v" and h: "hops \<le> MAX_CHAIN_HOPS"
    and r: "write_step E s key t stack (Ls ! l ! i) hops v (of_nat l) (nd_prev (node_at s (Ls ! l ! i))) (nd_next (node_at s (Ls ! l ! i)))
      (\<not> empty_at s (Ls ! l ! i) \<and> dominated s (of_nat l) key t (Ls ! l ! i)) = Ok m"
  shows "step_ok s Ls (key, t) l i hops m"
proof -
  let ?p = "Ls ! l ! i"
  have l16: "l < 16"
    using treeD(2) [OF t] l(1) by simp
  have lz: "(of_nat l :: byte) = 0 \<longleftrightarrow> l = 0"
    using level_nonzero [of l] l16 by auto
  have ch: "chain s (of_nat l) (Ls ! l)"
    by (rule treeD(4) [OF t l(1)])
  have hd: "hd Ls = Ls ! 0"
    by (rule treeD(8) [OF t])
  let ?ab = "\<not> empty_at s ?p \<and> dominated s (of_nat l) key t ?p" and ?prev = "nd_prev (node_at s ?p)"
  let ?look = "l = 0 \<and> ?prev \<noteq> 0 \<and> v \<noteq> ?p \<and> (?ab \<or> empty_at s ?p)"
  consider "m = WAbort" | "?look" | tgt h1 where "\<not> ?look" "right_target E s (of_nat l) key t (nd_next (node_at s ?p)) hops = Ok (tgt, h1)"
    "(case tgt of
           Some r \<Rightarrow>
             try_then (case stack of parent # _ \<Rightarrow> internal_page_points_at (guarded s parent) r | [] \<Rightarrow> Ok False)
               (\<lambda>parent_has_downlink.
                 if \<not> parent_has_downlink then Ok WAbort
                 else try_then (hop_to E s r h1) (\<lambda>(pid, hops). Ok (WGoto pid hops v)))
         | None \<Rightarrow>
             if l = 0 then Ok WLeaf
             else try_then (find_child (guarded s ?p) key) (\<lambda>child.
               try_then (bt_pin E s child) (\<lambda>_. Ok (WDown child h1)))) = Ok m"
  proof (cases "?ab \<and> ?prev \<noteq> 0 \<and> l \<noteq> 0")
    case True
    then show thesis
      using that(1) r lz by (simp add: write_step_def)
  next
    case ab: False
    show thesis
    proof (cases "?look")
      case False
      have "\<not> (?ab \<and> ?prev \<noteq> 0 \<and> (of_nat l :: byte) \<noteq> 0)" "\<not> ((of_nat l :: byte) = 0 \<and> ?prev \<noteq> 0 \<and> v \<noteq> ?p \<and> (?ab \<or> slot_count (guarded s ?p) = 0))"
        using ab False lz by (auto simp: empty_at_def)
      then obtain tgt h1 where "right_target E s (of_nat l) key t (nd_next (node_at s ?p)) hops = Ok (tgt, h1)"
        "(case tgt of
           Some r \<Rightarrow>
             try_then (case stack of parent # _ \<Rightarrow> internal_page_points_at (guarded s parent) r | [] \<Rightarrow> Ok False)
               (\<lambda>parent_has_downlink.
                 if \<not> parent_has_downlink then Ok WAbort
                 else try_then (hop_to E s r h1) (\<lambda>(pid, hops). Ok (WGoto pid hops v)))
         | None \<Rightarrow>
             if (of_nat l :: byte) = 0 then Ok WLeaf
             else try_then (find_child (guarded s ?p) key) (\<lambda>child.
               try_then (bt_pin E s child) (\<lambda>_. Ok (WDown child h1)))) = Ok m"
        using r unfolding write_step_def by (simp only: if_False) (auto simp: try_then_Ok_iff)
      then show thesis
        using that(3) False unfolding lz by blast
    qed (rule that(2))
  qed
  then show ?thesis
  proof cases
    case 1
    then show ?thesis
      by (simp add: step_ok_def)
  next
    case 2
    then have "l = 0" by simp
    have i0: "i < length (hd Ls)" "?p = hd Ls ! i"
      using l(2) hd \<open>l = 0\<close> by simp_all
    have "step_ok s Ls (key, t) 0 i hops m"
      by (rule left_move_ok [OF t so hi i0(1) v, of E hops], unfold hd)
        (use r 2 \<open>l = 0\<close> in \<open>simp add: write_step_def empty_at_def hd split: if_split_asm\<close>)
    then show ?thesis
      using \<open>l = 0\<close> by simp
  next
    case 3
    note tg = right_target_Ok [OF ch l(2) 3(2), unfolded Let_def]
    have h1: "hops \<le> h1" "h1 \<le> MAX_CHAIN_HOPS"
      using right_target_hops [OF 3(2)] right_target_le [OF 3(2) h] by auto
    show ?thesis
    proof (cases tgt)
      case (Some q)
      then obtain k where "k < length (Ls ! l)" "q = Ls ! l ! k" "owned s (of_nat l) key t q"
        using tg by (auto split: if_splits)
      then have q: "in_tree s Ls q l"
        using l(1) by (auto simp: in_tree_def full_def owned_def)
      have "m = WAbort \<or> (\<exists>pid h'. hop_to E s q h1 = Ok (pid, h') \<and> m = WGoto pid h' v)"
        using 3(3) Some by (auto simp: try_then_Ok_iff split: if_splits)
      then show ?thesis
        using q h1 v by (auto simp: step_ok_def hop_to_Ok)
    next
      case None
      show ?thesis
      proof (cases "l = 0")
        case True
        then have m: "m = WLeaf" and i0: "i < length (hd Ls)" "?p = hd Ls ! i" and ch0: "chain s 0 (hd Ls)"
          using 3(3) None l(2) hd ch by simp_all
        have "\<not> (first_full s (hd Ls) (i + 1) < length (hd Ls) \<and> owned s 0 key t (hd Ls ! first_full s (hd Ls) (i + 1)))"
          using tg None True hd by (auto split: if_splits)
        note right = above_right [OF so HOL.refl this]
        consider "?prev = 0" | "v = ?p" | "\<not> empty_at s ?p" "\<not> dominated s 0 key t ?p"
          using 3(1) True by auto
        then have "\<forall>x \<in> set (contents s (take i (hd Ls))). x \<le> (key, t)"
        proof cases
          case 1
          then have "i = 0"
            using chainD(5) [OF ch l(2)] by simp
          then show ?thesis
            by simp
        next
          case 2
          then show ?thesis
            using v i0 by (auto simp: left_done_def)
        next
          case 3
          then have "hd (items_at s (hd Ls ! i)) \<le> (key, t)"
            using i0(2) by (simp add: dominated_def not_less)
          then show ?thesis
            using below_first [OF so i0(1)] 3(1) i0(2) by simp
        qed
        then show ?thesis
          using m True right i0(1) by (simp add: step_ok_def lands_def)
      next
        case False
        then obtain c where c: "find_child (guarded s ?p) key = Ok c" "m = WDown c h1"
          using 3(3) None by (auto simp: try_then_Ok_iff)
        have "0 < slot_count (guarded s ?p)"
          using l(3) False by (simp add: full_def empty_at_def)
        then have "c \<in> children s ?p"
          using find_child_in [OF is_pageD(6) [OF chainD(1) [OF ch l(2)]], of key] c(1) lz False by (auto simp: children_def)
        then have "in_tree s Ls c (l - 1)"
          using treeD(7) [OF t, of "l - 1"] l False by (auto simp: linked_def in_tree_def)
        then show ?thesis
          using c(2) h1 False by (simp add: step_ok_def)
      qed
    qed
  qed
qed

definition levels :: "nat \<Rightarrow> page_id list \<Rightarrow> (page_id \<times> nat) set" where
  "levels l stack = {(stack ! k, l + k) | k. k < length stack}"

lemma levels_Cons: "levels l (p # stack) = insert (p, l) (levels (Suc l) stack)"
  unfolding levels_def by (auto simp: less_Suc_eq_0_disj intro: exI [of _ "Suc _"])

lemma quiet_left_done: "chain s lv cs \<Longrightarrow> quiet s s' \<Longrightarrow> left_done s' cs e v = left_done s cs e v"
proof -
  assume ch: "chain s lv cs" and q: "quiet s s'"
  have "contents s' (take i cs) = contents s (take i cs)" for i
    by (rule contents_same) (use quiet_node [OF chain_mem [OF ch] q] in \<open>auto dest: in_set_takeD\<close>)
  then show ?thesis
    by (simp add: left_done_def)
qed

lemma write_view_eq:
  assumes "is_page s lv p"
  shows "write_view (guarded s p) key t = Ok (lv, nd_flags (node_at s p) AND BTREE_FLAG_SPLIT_INCOMPLETE \<noteq> 0,
    nd_prev (node_at s p), nd_next (node_at s p), \<not> empty_at s p \<and> dominated s lv key t p)"
  using is_pageD(7-10) [OF assms] first_above_eq [OF assms, of key t] by (simp add: write_view_def split_incomplete_def)

definition found_leaf ::
  "(byte list \<times> tid) list \<Rightarrow> byte list \<times> tid \<Rightarrow> page_id list list \<Rightarrow> page_id list \<Rightarrow> 'w bt_store \<Rightarrow> bool" where
  "found_leaf C e Ls path s \<longleftrightarrow> (\<exists>leaf stack i. path = leaf # stack \<and> i < length (hd Ls) \<and> leaf = hd Ls ! i \<and> lands e s (hd Ls) i \<and>
    knows C (levels 0 path) {} True s Ls)"

lemma descend_write_spec:
  fixes E :: "'w bt_env"
  assumes b: "b \<Longrightarrow> never_full E"
    and "knows C (levels l (cur # stack)) {} True s Ls" "left_done s (hd Ls) (key, t) v" "hops \<le> MAX_CHAIN_HOPS" "MAX_CHAIN_HOPS - hops + l < fuel"
    and "descend_write E key t fuel stack cur hops v s = (r, s')"
  shows "quiet s s' \<and> (\<forall>e. r = Err e \<longrightarrow> calm b e) \<and> (\<forall>path. r = Ok (Some path) \<longrightarrow> found_leaf C (key, t) Ls path s')"
  using assms(2-)
proof (induction fuel arbitrary: l cur stack hops v s)
  case (Suc fuel)
  note k = Suc.prems(1) and kl = knows_leaves [OF Suc.prems(1)]
  have R: "(cur, l) \<in> levels l (cur # stack)"
    by (simp add: levels_Cons)
  have it: "in_tree s Ls cur l"
    using k R by (auto simp: knows_def)
  then obtain i where i: "l < length Ls" "i < length (Ls ! l)" "cur = Ls ! l ! i" "full s l cur"
    by (auto simp: in_tree_def in_set_conv_nth)
  have pg: "is_page s (of_nat l) cur"
    using chainD(1) [OF treeD(4) [OF kl(1) i(1)] i(2)] i(3) by simp
  note wv = write_view_eq [OF pg, of key t]
  show ?case
  proof (cases "nd_flags (node_at s cur) AND BTREE_FLAG_SPLIT_INCOMPLETE \<noteq> 0")
    case True
    then show ?thesis
      using Suc.prems(5) wv by auto
  next
    case inc: False
    obtain x s1 where f: "bt_ensure_fpi E cur s = (x, s1)"
      by fastforce
    have q: "quiet s s1"
      by (rule ensure_fpi_quiet [OF _ f]) (use view_page [OF pg] in simp)
    have k1: "knows C (levels l (cur # stack)) {} True s1 Ls"
      by (rule quiet_knows [OF k q])
    note kl1 = knows_leaves [OF k1]
    have it1: "in_tree s1 Ls cur l"
      using k1 R by (auto simp: knows_def)
    have n1: "node_at s1 cur = node_at s cur"
      using quiet_node [OF pg q] by simp
    have en: "entries (guarded s1 cur) = entries (guarded s cur)"
      using arg_cong [OF n1, of nd_entries] by (simp only: node_at_def nd_entries_node_of)
    have e1: "empty_at s1 cur = empty_at s cur" "dominated s1 (of_nat l) key t cur = dominated s (of_nat l) key t cur"
      using n1 en by (simp_all add: node_reads_at dominated_def internal_items_def)
    have v1: "left_done s1 (hd Ls) (key, t) v"
      using Suc.prems(2) quiet_left_done [OF kl(2) q] by simp
    let ?w = "write_step E s1 key t stack cur hops v (of_nat l) (nd_prev (node_at s1 cur)) (nd_next (node_at s1 cur))
      (\<not> empty_at s1 cur \<and> dominated s1 (of_nat l) key t cur)"
    have run: "(case x of Inl e \<Rightarrow> (Err e, s1) | Inr _ \<Rightarrow> (case ?w of
             Inl e \<Rightarrow> (Err e, s1)
           | Inr WAbort \<Rightarrow> (Ok None, s1)
           | Inr (WGoto pid hops verified) \<Rightarrow> descend_write E key t fuel stack pid hops verified s1
           | Inr (WDown child hops) \<Rightarrow> descend_write E key t fuel (cur # stack) child hops v s1
           | Inr WLeaf \<Rightarrow> (Ok (Some (cur # stack)), s1))) = (r, s')"
      using Suc.prems(5) wv inc f n1 e1 by (simp add: bt_then_def split: sum.splits)
    show ?thesis
    proof (cases x)
      case (Inl e)
      have "steady_run b (bt_ensure_fpi E cur)"
        by (rule steady_ensure_fpi) (rule b)
      then have "steady b (fst (bt_ensure_fpi E cur s))"
        unfolding steady_run_def ..
      then show ?thesis
        using run Inl f q by auto
    next
      case x: (Inr u)
      show ?thesis
      proof (cases ?w)
        case (Inl e)
        moreover have "steady b ?w"
          by (rule steady_write_step) (rule b)
        ultimately show ?thesis
          using run x q by auto
      next
        case (Inr m)
        have "step_ok s1 Ls (key, t) l i hops m"
          by (rule write_step_ok [OF kl1(1,3,4) i(1,2) _ v1 Suc.prems(3)]) (use it1 i(3) Inr in \<open>auto simp: in_tree_def\<close>)
        note st = this
        have go: "quiet s s' \<and> (\<forall>e. r = Err e \<longrightarrow> calm b e) \<and> (\<forall>path. r = Ok (Some path) \<longrightarrow> found_leaf C (key, t) Ls path s')"
          if "descend_write E key t fuel stack' p h w s1 = (r, s')" "in_tree s1 Ls p m'" "levels (Suc m') stack' \<subseteq> levels l (cur # stack)"
            "left_done s1 (hd Ls) (key, t) w" "h \<le> MAX_CHAIN_HOPS" "MAX_CHAIN_HOPS - h + m' < fuel" for stack' p h w m'
        proof -
          have "knows C (levels m' (p # stack')) {} True s1 Ls"
            using k1 that(2,3) unfolding levels_Cons [of m'] by (auto simp: knows_def dest!: subsetD)
          from Suc.IH [OF this that(4-6,1)] show ?thesis
            using quiet_trans [OF q] by blast
        qed
        show ?thesis
        proof (cases m)
          case WAbort
          then show ?thesis
            using run x Inr q by auto
        next
          case (WGoto p h w)
          then have s: "in_tree s1 Ls p l" "hops < h" "h \<le> MAX_CHAIN_HOPS" "left_done s1 (hd Ls) (key, t) w"
            using st by (auto simp: step_ok_def)
          show ?thesis
            by (rule go [OF _ s(1) _ s(4,3)]) (use run x Inr WGoto s Suc.prems(3,4) in \<open>auto simp: levels_Cons\<close>)
        next
          case (WDown c h)
          then have s: "0 < l" "in_tree s1 Ls c (l - 1)" "hops \<le> h" "h \<le> MAX_CHAIN_HOPS"
            using st by (auto simp: step_ok_def)
          show ?thesis
            by (rule go [OF _ s(2) _ v1 s(4)]) (use run x Inr WDown s Suc.prems(3,4) in auto)
        next
          case WLeaf
          then have "l = 0" "lands (key, t) s1 (hd Ls) i"
            using st by (auto simp: step_ok_def)
          then have "found_leaf C (key, t) Ls (cur # stack) s1"
            using k1 i(2,3) treeD(8) [OF kl(1)] by (auto simp: found_leaf_def)
          then show ?thesis
            using run x Inr WLeaf q by auto
        qed
      qed
    qed
  qed
qed simp

lemma descend_write_path_spec:
  fixes E :: "'w bt_env"
  assumes b: "b \<Longrightarrow> never_full E" and k: "knows C {} {} True s Ls" and run: "descend_write_path E key t (root_page s) s = (r, s')"
  shows "quiet s s' \<and> (\<forall>e. r = Err e \<longrightarrow> calm b e) \<and> (\<forall>path. r = Ok (Some path) \<longrightarrow> found_leaf C (key, t) Ls path s')"
proof -
  let ?root = "root_page s"
  note kl = knows_leaves [OF k]
  have sp: "steady b (bt_pin E s ?root)"
    by (rule steady_pin) (rule b)
  have sf: "steady b (bt_flags pg)" for pg
    by (simp add: steady)
  consider e where "r = Err e" "s' = s" "calm b e" | "r = Ok None" "s' = s" | "descend_write E key t WRITE_FUEL [] ?root 0 0 s = (r, s')"
  proof (cases "bt_pin E s ?root")
    case (Inl e)
    then show thesis
      using that(1) [of e] run sp by (simp add: descend_write_path_def bt_then_def bt_get_def)
  next
    case (Inr pg)
    then show thesis
      using that(1) that(2,3) run sf [of pg]
      by (cases "bt_flags pg") (auto simp: descend_write_path_def bt_then_def bt_get_def bt_lift_def bt_return_def split: if_splits)
  qed
  then show ?thesis
  proof cases
    case 3
    let ?l = "length Ls - 1"
    have l: "?l < length Ls" "?root \<in> set (Ls ! ?l)" "length Ls \<le> 16"
      using treeD(1,2,3) [OF kl(1)] by (auto simp: last_conv_nth)
    have "levels ?l [?root] = {(?root, ?l)}"
      by (auto simp: levels_def)
    then have k': "knows C (levels ?l [?root]) {} True s Ls"
      using k l treeD(5) [OF kl(1)] by (simp add: knows_def in_tree_def)
    have v: "left_done s (hd Ls) (key, t) 0"
      using chainD(1) [OF kl(2)] by (auto simp: left_done_def is_page_def)
    show ?thesis
      by (rule descend_write_spec [OF _ k' v _ _ 3]) (use l in \<open>simp_all add: b WRITE_FUEL_def DESCENT_FUEL_def\<close>)
  qed auto
qed

subsection \<open>Splitting the leaf\<close>

lemma entry_slot_for:
  assumes p: "is_page s 0 p" and so: "sorted (items_at s p)" and r: "entry_lower_bound (guarded s p) (encode_leaf_entry key t) True = Ok n"
  shows "slot_for (key, t) (unat (of_nat n :: u16)) (items_at s p)"
proof -
  have lp: "leaf_page (guarded s p)" "btree_page (guarded s p)" "sorted (leaf_items (guarded s p))"
    using is_pageD(3,5) [OF p] so by (simp_all add: items_at_def)
  have n: "n = length (takeWhile (\<lambda>x. x < (key, t)) (items_at s p))"
    using entry_lower_bound_leaf(1) [OF lp(1), of "encode_leaf_entry key t"] leaf_lower_bound_eq [OF lp(1,3), of key t] r
    by (simp add: items_at_def)
  have "n \<le> slot_count (guarded s p)"
    using length_takeWhile_le [of "\<lambda>x. x < (key, t)" "items_at s p"] by (simp add: n items_at_def)
  from slot_u16 [OF lp(2) this] show ?thesis
    using slot_for_takeWhile [OF so, of "(key, t)"] n by simp
qed

lemma quiet_lands: "chain s lv cs \<Longrightarrow> quiet s s' \<Longrightarrow> lands e s' cs i = lands e s cs i"
proof -
  assume ch: "chain s lv cs" and q: "quiet s s'"
  have "contents s' xs = contents s xs" if "set xs \<subseteq> set cs" for xs
    by (rule contents_same) (use quiet_node [OF chain_mem [OF ch] q] that in auto)
  then show ?thesis
    by (simp add: lands_def set_take_subset set_drop_subset)
qed

lemma place_at:
  fixes E :: "'w bt_env"
  assumes k: "knows C R {} True s Ls" and i: "i < length (hd Ls)" "lands (key, t) s (hd Ls) i"
    and n: "entry_lower_bound (guarded s (hd Ls ! i)) (encode_leaf_entry key t) True = Ok n"
    and run: "insert_into_page E (hd Ls ! i) (of_nat n) (encode_leaf_entry key t) s = (r, s')"
  shows "r = Ok u \<Longrightarrow> known (insort (key, t) C) R {} True s'" "r = Err e \<Longrightarrow> known C R {} True s'"
proof -
  note kl = knows_leaves [OF k]
  have "slot_for (key, t) (unat (of_nat n :: u16)) (items_at s (hd Ls ! i))"
    by (rule entry_slot_for [OF chainD(1) [OF kl(2) i(1)] items_sorted [OF kl(3) i(1)] n])
  note pl = places_lands [OF k i this]
  show "r = Ok u \<Longrightarrow> known (insort (key, t) C) R {} True s'" "r = Err e \<Longrightarrow> known C R {} True s'"
    using tripleD [OF insert_into_leaf_known pl] run by blast+
qed

text \<open>The entry goes to the half it belongs to.\<close>

definition place_half :: "'w bt_env \<Rightarrow> byte list \<Rightarrow> page_id \<Rightarrow> page_id \<Rightarrow> ordering \<Rightarrow> ('w, unit) bt" where
  "place_half E entry leaf right c =
    (if c = OLess then
       bt_then (bt_get (\<lambda>s. entry_lower_bound (guarded s leaf) entry True)) (\<lambda>pos.
       insert_into_page E leaf (of_nat pos) entry)
     else
       bt_then (bt_pin_mut E right) (\<lambda>rpg.
       bt_then (bt_lift (entry_lower_bound rpg entry True)) (\<lambda>pos.
       insert_into_page E right (of_nat pos) entry)))"

lemma place_half_known:
  fixes E :: "'w bt_env"
  assumes k: "knows C R {} True s Ls" and i: "i + 1 < length (hd Ls)"
    and c: "if c = OLess then lands (key, t) s (hd Ls) i else lands (key, t) s (hd Ls) (i + 1)"
    and run: "place_half E (encode_leaf_entry key t) (hd Ls ! i) (hd Ls ! (i + 1)) c s = (r, s')"
  shows "r = Ok u \<Longrightarrow> known (insort (key, t) C) R {} True s'" "r = Err e \<Longrightarrow> known C R {} True s'"
proof -
  let ?e = "encode_leaf_entry key t" and ?right = "hd Ls ! (i + 1)"
  note kl = knows_leaves [OF k]
  have kn: "known C R {} True s"
    using k by (auto simp: known_def)
  have "(\<forall>u. r = Ok u \<longrightarrow> known (insort (key, t) C) R {} True s') \<and> (\<forall>e. r = Err e \<longrightarrow> known C R {} True s')"
  proof (cases "c = OLess")
    case True
    show ?thesis
    proof (cases "entry_lower_bound (guarded s (hd Ls ! i)) ?e True")
      case (Inl e)
      then show ?thesis
        using run True kn by (auto simp: place_half_def bt_then_def bt_get_def)
    next
      case (Inr n)
      have "insert_into_page E (hd Ls ! i) (of_nat n) ?e s = (r, s')"
        using run True Inr by (simp add: place_half_def bt_then_def bt_get_def)
      from place_at [OF k _ _ Inr this] show ?thesis
        using i c True by simp
    qed
  next
    case False
    obtain x s1 where pm: "bt_pin_mut E ?right s = (x, s1)"
      by fastforce
    have pg: "is_page s 0 ?right"
      by (rule chainD(1) [OF kl(2) i])
    note q = pin_mut_quiet [OF _ pm]
    have q1: "quiet s s1"
      using q(1) view_page [OF pg] by simp
    have k1: "knows C R {} True s1 Ls"
      by (rule quiet_knows [OF k q1])
    then have kn1: "known C R {} True s1"
      by (auto simp: known_def)
    have l1: "lands (key, t) s1 (hd Ls) (i + 1)"
      using quiet_lands [OF kl(2) q1] c False by simp
    show ?thesis
    proof (cases x)
      case (Inl e)
      then show ?thesis
        using run False pm kn1 by (auto simp: place_half_def bt_then_def)
    next
      case x: (Inr rpg)
      then have rp: "rpg = guarded s1 ?right"
        using q(2) view_page [OF pg] by simp
      show ?thesis
      proof (cases "entry_lower_bound rpg ?e True")
        case (Inl e)
        then show ?thesis
          using run False pm x kn1 by (auto simp: place_half_def bt_then_def bt_lift_def)
      next
        case (Inr n)
        have "insert_into_page E ?right (of_nat n) ?e s1 = (r, s')"
          using run False pm x Inr by (simp add: place_half_def bt_then_def bt_lift_def)
        from place_at [OF k1 i l1 _ this] Inr rp show ?thesis
          by simp
      qed
    qed
  qed
  then show "r = Ok u \<Longrightarrow> known (insort (key, t) C) R {} True s'" "r = Err e \<Longrightarrow> known C R {} True s'"
    by blast+
qed

lemma split_and_insert_def': "split_and_insert E entry leaf stack right ed =
    bt_then (split_prepare_on_guards E leaf right (if ed then None else Some entry)) (\<lambda>st.
    bt_then (bt_get (\<lambda>s. entry_bytes (guarded s leaf) (sp_copy_start_slot st))) (\<lambda>right_first.
    bt_then (split_copy_on_guards E st) (\<lambda>_.
      if ed then
        bt_then (bt_lift (entry_key right_first (sp_level st))) (\<lambda>separator.
        bt_then (split_commit_guarded E st separator stack) (\<lambda>_. bt_return PRetry))
      else
        bt_then (bt_lift (entry_cmp entry right_first True)) (\<lambda>c.
        bt_then (place_half E entry leaf (sp_right st) c) (\<lambda>_.
        bt_then (bt_lift (entry_key right_first (sp_level st))) (\<lambda>separator.
        bt_then (split_commit_guarded E st separator stack) (\<lambda>_. bt_return PDone)))))))"
  unfolding split_and_insert_def place_half_def by (rule HOL.refl)

definition outcome :: "(byte list \<times> tid) list \<Rightarrow> byte list \<times> tid \<Rightarrow> (btree_error + pessimistic) \<times> 'w bt_store \<Rightarrow> bool" where
  "outcome C e out \<longleftrightarrow> (case out of
      (Inr PDone, s) \<Rightarrow> known (insort e C) {} {} False s
    | (Inr PRetry, s) \<Rightarrow> known C {} {} False s
    | (Inl _, s) \<Rightarrow> known C {} {} False s \<or> known (insort e C) {} {} False s)"

lemma outcome_err: "known C R F b s \<Longrightarrow> outcome C e (Err x, s)"
  by (auto simp: outcome_def elim: known_weaken)

text \<open>The last part of a split: the separator and the commit.\<close>

lemma commit_outcome:
  fixes E :: "'w bt_env"
  assumes E: "files_bounded E" and k: "known C' R {} True s" and C': "C' = C \<or> C' = insort e C" "d = PDone \<Longrightarrow> C' = insort e C" "d = PRetry \<Longrightarrow> C' = C"
    and st: "sp_level st = of_nat 0" "(sp_left st, 0) \<in> R" "(sp_right st, 0) \<in> R" "\<forall>k < length stack. (stack ! k, 0 + 1 + k) \<in> R"
  shows "outcome C e (bt_then (bt_lift sep) (\<lambda>separator. bt_then (split_commit_guarded E st separator stack) (\<lambda>_. bt_return d)) s)"
proof -
  have w: "known C' {} {} False s'" if "known C' R {} b s'" for s' :: "'w bt_store" and b
    by (rule known_weaken [OF that]) auto
  show ?thesis
  proof (cases sep)
    case (Inl x)
    then show ?thesis
      using w [OF k] C'(1) by (auto simp: bt_then_def bt_lift_def outcome_def)
  next
    case (Inr y)
    obtain r s' where c: "split_commit_guarded E st y stack s = (r, s')"
      by fastforce
    note tr = tripleD [OF split_commit_known [OF E st] k, of y, unfolded c]
    show ?thesis
    proof (cases r)
      case x: (Inl x)
      then show ?thesis
        using w tr(2) C'(1) c Inr by (auto simp: bt_then_def bt_lift_def outcome_def)
    next
      case u: (Inr u)
      then have "known C' {} {} False s'"
        using w tr(1) by blast
      then show ?thesis
        using C'(2,3) c Inr u by (cases d) (auto simp: bt_then_def bt_lift_def bt_return_def outcome_def)
    qed
  qed
qed

lemma split_and_insert_outcome:
  fixes E :: "'w bt_env"
  assumes E: "files_bounded E" and k: "knows C (levels 0 (leaf # stack)) {right} True s Ls"
    and i: "i < length (hd Ls)" "leaf = hd Ls ! i" "lands (key, t) s (hd Ls) i"
  shows "outcome C (key, t) (split_and_insert E (encode_leaf_entry key t) leaf stack right ed s)"
proof -
  let ?e = "encode_leaf_entry key t" and ?R = "levels 0 (leaf # stack)" and ?pend = "if ed then None else Some (encode_leaf_entry key t)"
  let ?Ls = "Ls[0 := spliced i right (Ls ! 0)]"
  have t: "tree s Ls"
    using k by (auto simp: knows_def index_inv_def)
  have l0: "0 < length Ls" "hd Ls = Ls ! 0"
    using treeD(1,8) [OF t] by auto
  have hd': "hd ?Ls = spliced i right (Ls ! 0)"
    using l0(1) by (cases Ls) auto
  have i0: "i < length (Ls ! 0)" "leaf = Ls ! 0 ! i"
    using i l0(2) by simp_all
  obtain x s1 where pr: "split_prepare_on_guards E leaf right ?pend s = (x, s1)"
    by fastforce
  note p = prepare_knows [OF k l0(1) i0(1) pr [unfolded i0(2)], folded i0(2)]
  show ?thesis
  proof (cases x)
    case (Inl a)
    then have "known C ?R {} True s1"
      using p by blast
    then show ?thesis
      using pr Inl outcome_err by (simp add: split_and_insert_def' bt_then_def)
  next
    case (Inr st)
    then have st: "sp_left st = leaf" "sp_right st = right" "prepares C ?R st s1 ?Ls 0 i" and l1: "lands (key, t) s1 (hd ?Ls) i"
      using p i(3) by auto
    let ?es = "entries (guarded s1 leaf)" and ?k = "unat (sp_copy_start_slot st)"
    have pp: "knows C ?R {} True s1 ?Ls" "?k < slot_count (guarded s1 leaf)" "sp_level st = of_nat 0" "i + 1 < length (hd ?Ls)"
        "leaf = hd ?Ls ! i" "right = hd ?Ls ! (i + 1)"
      using st hd' l0(1) by (auto simp: prepares_def)
    have ks: "known C ?R {} True s1"
      using pp(1) by (auto simp: known_def)
    note kl1 = knows_leaves [OF pp(1)]
    have pg: "is_page s1 0 leaf"
      using chainD(1) [OF kl1(2), of i] pp(4,5) by simp
    have "entry_bytes (guarded s1 leaf) (of_nat ?k) = Ok (?es ! ?k)"
      by (rule entry_bytes_nth [OF is_pageD(3) [OF pg] pp(2)])
    then have eb: "entry_bytes (guarded s1 leaf) (sp_copy_start_slot st) = Ok (?es ! ?k)"
      by simp
    have len: "10 \<le> length (?es ! ?k)"
      using is_pageD(5) [OF pg] pp(2) by (auto simp: leaf_page_def)
    obtain y s2 where cp: "split_copy_on_guards E st s1 = (y, s2)"
      by fastforce
    note c = copy_knows [OF st(3) cp, unfolded Let_def st(1,2)]
    show ?thesis
    proof (cases y)
      case y: (Inl a)
      have "known C ?R {} True s2"
        using c by blast
      then show ?thesis
        using pr Inr eb cp y outcome_err by (simp add: split_and_insert_def' bt_then_def bt_get_def)
    next
      case y: (Inr n)
      let ?R' = "?R \<union> {(leaf, 0), (right, 0)}" and ?c = "cmp (key, t) (leaf_item (?es ! ?k))"
      have k2: "knows C ?R' {} True s2 ?Ls"
        using c y by blast
      have l2: "if (key, t) < leaf_item (?es ! ?k) then lands (key, t) s2 (hd ?Ls) i else lands (key, t) s2 (hd ?Ls) (i + 1)"
        using c y l1 by blast
      have kn2: "known C ?R' {} True s2"
        using k2 by (auto simp: known_def)
      have stack: "\<forall>k < length stack. (stack ! k, 0 + 1 + k) \<in> ?R'"
        by (auto simp: levels_def)
      note fin = commit_outcome [OF E _ _ _ _ pp(3), of _ ?R' _ C "(key, t)" _ stack]
      show ?thesis
      proof (cases ed)
        case True
        have "outcome C (key, t) (bt_then (bt_lift (entry_key (?es ! ?k) (sp_level st)))
            (\<lambda>separator. bt_then (split_commit_guarded E st separator stack) (\<lambda>_. bt_return PRetry)) s2)"
          by (rule fin [OF kn2]) (use st stack in auto)
        then show ?thesis
          using pr Inr eb cp y True by (simp add: split_and_insert_def' bt_then_def bt_get_def)
      next
        case False
        have ec: "entry_cmp ?e (?es ! ?k) True = Ok ?c"
          using len by (simp add: entry_cmp_def decode_leaf_item)
        have cl: "?c = OLess \<longleftrightarrow> (key, t) < leaf_item (?es ! ?k)"
          by (simp add: cmp_def)
        obtain z s3 where ph: "place_half E ?e leaf right ?c s2 = (z, s3)"
          by fastforce
        have ph': "place_half E ?e (hd ?Ls ! i) (hd ?Ls ! (i + 1)) ?c s2 = (z, s3)"
          unfolding pp(5) [symmetric] pp(6) [symmetric] by (rule ph)
        have l3: "if ?c = OLess then lands (key, t) s2 (hd ?Ls) i else lands (key, t) s2 (hd ?Ls) (i + 1)"
          unfolding cl by (rule l2)
        note pl = place_half_known [OF k2 pp(4) l3 ph']
        show ?thesis
        proof (cases z)
          case z: (Inl a)
          have "known C ?R' {} True s3"
            using pl(2) z by blast
          then show ?thesis
            using pr Inr eb cp y False ec ph z st(2) outcome_err by (simp add: split_and_insert_def' bt_then_def bt_get_def bt_lift_def)
        next
          case z: (Inr u)
          have "known (insort (key, t) C) ?R' {} True s3"
            using pl(1) z by blast
          then have "outcome C (key, t) (bt_then (bt_lift (entry_key (?es ! ?k) (sp_level st)))
              (\<lambda>separator. bt_then (split_commit_guarded E st separator stack) (\<lambda>_. bt_return PDone)) s3)"
            by (rule fin) (use st stack in auto)
          then show ?thesis
            using pr Inr eb cp y False ec ph z st(2) by (simp add: split_and_insert_def' bt_then_def bt_get_def bt_lift_def)
        qed
      qed
    qed
  qed
qed

lemma outside_lands: "tree s Ls \<Longrightarrow> outside Ls s s' \<Longrightarrow> lands e s' (hd Ls) i = lands e s (hd Ls) i"
proof -
  assume t: "tree s Ls" and o: "outside Ls s s'"
  have "contents s' xs = contents s xs" if "set xs \<subseteq> set (hd Ls)" for xs
    by (rule contents_same) (use outside_node [OF t o leaves_in_tree [OF t]] that in auto)
  then show ?thesis
    by (simp add: lands_def set_take_subset set_drop_subset)
qed

text \<open>The part of the pessimistic pass below the descent.\<close>

definition insert_at_leaf :: "'w bt_env \<Rightarrow> byte list \<Rightarrow> tid \<Rightarrow> byte list \<Rightarrow> page_id \<Rightarrow> page_id list \<Rightarrow> ('w, pessimistic) bt" where
  "insert_at_leaf E key t entry leaf stack s =
    (let pg = guarded s leaf in
     bt_then (bt_lift (leaf_insert_slot pg key t)) (\<lambda>pos.
     bt_then (bt_lift (bt_prev pg)) (\<lambda>prev.
       let ed = (pos = 0 \<and> prev \<noteq> 0) in
       if free_space pg \<ge> length entry + 4 then
         if ed then bt_return PRetry
         else bt_then (insert_into_page E leaf pos entry) (\<lambda>_. bt_return PDone)
       else (\<lambda>s.
         case bt_new_page E s of
           (Inl _, s) \<Rightarrow> (Ok PRetry, s)
         | (Inr right, s) \<Rightarrow> split_and_insert E entry leaf stack right ed s))) s)"

lemma insert_pessimistic_alt: "insert_pessimistic E key t entry =
    bt_then (refresh_root_from_meta E) (\<lambda>root.
    bt_then (descend_write_path E key t root) (\<lambda>path s.
      case path of Some (leaf # stack) \<Rightarrow> insert_at_leaf E key t entry leaf stack s | _ \<Rightarrow> (Ok PRetry, s)))"
  unfolding insert_pessimistic_def insert_at_leaf_def by (rule HOL.refl)

lemma steady_insert_at_leaf: "(b \<Longrightarrow> never_full E) \<Longrightarrow> steady_run b (insert_at_leaf E key t entry leaf stack)"
proof -
  assume b: "b \<Longrightarrow> never_full E"
  have sp: "steady_run b (\<lambda>s. case bt_new_page E s of (Inl _, s) \<Rightarrow> (Ok PRetry, s) | (Inr right, s) \<Rightarrow> split_and_insert E entry leaf stack right ed s)" for ed
  proof -
    have "steady_run b (split_and_insert E entry leaf stack right ed)" for right
      by (rule steady_split_and_insert) (rule b)
    then show ?thesis
      by (auto simp: steady_run_def split: prod.split sum.split)
  qed
  have "steady_run b (bt_then (bt_lift (leaf_insert_slot pg key t)) (\<lambda>pos.
     bt_then (bt_lift (bt_prev pg)) (\<lambda>prev.
       let ed = (pos = 0 \<and> prev \<noteq> 0) in
       if free_space pg \<ge> length entry + 4 then
         if ed then bt_return PRetry
         else bt_then (insert_into_page E leaf pos entry) (\<lambda>_. bt_return PDone)
       else (\<lambda>s.
         case bt_new_page E s of
           (Inl _, s) \<Rightarrow> (Ok PRetry, s)
         | (Inr right, s) \<Rightarrow> split_and_insert E entry leaf stack right ed s))))" for pg
    using b by (auto simp: Let_def steady intro!: steady_then sp)
  then show ?thesis
    unfolding steady_run_def insert_at_leaf_def Let_def by blast
qed

lemma insert_at_leaf_outcome:
  fixes E :: "'w bt_env"
  assumes E: "files_bounded E" and f: "found_leaf C (key, t) Ls (leaf # stack) s"
  shows "outcome C (key, t) (insert_at_leaf E key t (encode_leaf_entry key t) leaf stack s)"
proof -
  let ?e = "encode_leaf_entry key t" and ?R = "levels 0 (leaf # stack)" and ?pg = "guarded s leaf"
  obtain i where i: "i < length (hd Ls)" "leaf = hd Ls ! i" "lands (key, t) s (hd Ls) i" and k: "knows C ?R {} True s Ls"
    using f by (auto simp: found_leaf_def)
  note kl = knows_leaves [OF k]
  have kn: "known C ?R {} True s"
    using k by (auto simp: known_def)
  have pgl: "is_page s 0 leaf"
    using chainD(1) [OF kl(2) i(1)] i(2) by simp
  show ?thesis
  proof (cases "leaf_insert_slot ?pg key t")
    case (Inl x)
    then show ?thesis
      using outcome_err [OF kn] by (simp add: insert_at_leaf_def bt_then_def bt_lift_def)
  next
    case (Inr pos)
    let ?ed = "pos = 0 \<and> nd_prev (node_at s leaf) \<noteq> 0"
    have eq: "insert_at_leaf E key t ?e leaf stack s =
      (if free_space ?pg \<ge> length ?e + 4 then
         if ?ed then (Ok PRetry, s) else bt_then (insert_into_page E leaf pos ?e) (\<lambda>_. bt_return PDone) s
       else case bt_new_page E s of
           (Inl _, s) \<Rightarrow> (Ok PRetry, s)
         | (Inr right, s) \<Rightarrow> split_and_insert E ?e leaf stack right ?ed s)"
      using Inr is_pageD(8) [OF pgl] by (simp add: insert_at_leaf_def bt_then_def bt_lift_def bt_return_def Let_def)
    have retry: "outcome C (key, t) (Ok PRetry, s')" if "known C R' F' b' s'" for R' F' b' and s' :: "'w bt_store"
      using known_weaken [OF that, of "{}" "{}" False] by (simp add: outcome_def)
    show ?thesis
    proof (cases "free_space ?pg \<ge> length ?e + 4")
      case True
      show ?thesis
      proof (cases ?ed)
        case False
        have sl: "slot_for (key, t) (unat pos) (items_at s (hd Ls ! i))"
          using insert_slot_for(1) [OF pgl _ Inr] items_sorted [OF kl(3) i(1)] i(2) by simp
        have pl: "places C ?R True (key, t) leaf (unat pos) s"
          unfolding i(2) by (rule places_lands [OF k [unfolded i(2)] i(1,3) sl])
        have eq': "insert_at_leaf E key t ?e leaf stack s = bt_then (insert_into_page E leaf pos ?e) (\<lambda>_. bt_return PDone) s"
          unfolding eq if_P [OF True] if_not_P [OF False] ..
        obtain z s' where ins: "insert_into_page E leaf pos ?e s = (z, s')"
          by fastforce
        note tr = tripleD [OF insert_into_leaf_known pl, of E, unfolded ins]
        show ?thesis
        proof (cases z)
          case z: (Inl x)
          then have "known C ?R {} True s'"
            using tr(2) by blast
          then show ?thesis
            using outcome_err ins z eq' by (simp add: bt_then_def)
        next
          case z: (Inr u)
          then have "known (insort (key, t) C) ?R {} True s'"
            using tr(1) by blast
          from known_weaken [OF this, of "{}" "{}" False] show ?thesis
            using ins z eq' by (simp add: bt_then_def bt_return_def outcome_def)
        qed
      qed (use eq True retry [OF kn] in simp)
    next
      case full: False
      obtain x s1 where np: "bt_new_page E s = (x, s1)"
        by fastforce
      note n = new_page_knows [OF E k np]
      show ?thesis
      proof (cases x)
        case (Inl a)
        then show ?thesis
          using eq full np retry [of ?R "{}" True s1] n(2) by (auto simp: known_def)
      next
        case (Inr right)
        have "outcome C (key, t) (split_and_insert E ?e leaf stack right ?ed s1)"
          by (rule split_and_insert_outcome [OF E n(3) [OF Inr] i(1,2)]) (use outside_lands [OF kl(1) n(1)] i(3) in simp)
        then show ?thesis
          using eq full np Inr by simp
      qed
    qed
  qed
qed

lemma insert_pessimistic_spec:
  fixes E :: "'w bt_env"
  assumes E: "files_bounded E" and b: "b \<Longrightarrow> never_full E" and k: "known C {} {} False s"
  shows "outcome C (key, t) (insert_pessimistic E key t (encode_leaf_entry key t) s) \<and>
    steady b (fst (insert_pessimistic E key t (encode_leaf_entry key t) s))"
proof -
  let ?e = "encode_leaf_entry key t"
  have retry: "outcome C (key, t) (Ok PRetry, s')" if "known C R' F' b' s'" for R' F' b' and s' :: "'w bt_store"
    using known_weaken [OF that, of "{}" "{}" False] by (simp add: outcome_def)
  obtain x s1 where rf: "refresh_root_from_meta E s = (x, s1)"
    by fastforce
  have "triple (known C {} {} False) (refresh_root_from_meta E) (\<lambda>r s. known C {} {} True s \<and> root_page s = r) (\<lambda>_. known C {} {} False)"
    by (rule refresh_root_known) simp
  note tr = tripleD [OF this k, unfolded rf]
  have "steady_run b (refresh_root_from_meta E)"
    by (rule steady_refresh) (rule b)
  then have sr: "steady b x"
    using rf by (metis fst_conv steady_run_def)
  show ?thesis
  proof (cases x)
    case (Inl a)
    then show ?thesis
      using outcome_err [OF tr(2)] rf sr by (simp add: insert_pessimistic_alt bt_then_def)
  next
    case (Inr root)
    then obtain Ls where k1: "knows C {} {} True s1 Ls" "root_page s1 = root"
      using tr(1) by (auto simp: known_def)
    obtain y s2 where dp: "descend_write_path E key t root s1 = (y, s2)"
      by fastforce
    have d: "quiet s1 s2 \<and> (\<forall>e. y = Err e \<longrightarrow> calm b e) \<and> (\<forall>path. y = Ok (Some path) \<longrightarrow> found_leaf C (key, t) Ls path s2)"
      by (rule descend_write_path_spec [OF _ k1(1)]) (use b dp k1(2) in auto)
    have kn2: "known C {} {} True s2"
      using quiet_knows [OF k1(1)] d by (auto simp: known_def)
    show ?thesis
    proof (cases y)
      case y: (Inl a)
      then show ?thesis
        using outcome_err [OF kn2] rf Inr dp d by (simp add: insert_pessimistic_alt bt_then_def)
    next
      case y: (Inr path)
      show ?thesis
      proof (cases path)
        case None
        then show ?thesis
          using retry [OF kn2] rf Inr dp y by (simp add: insert_pessimistic_alt bt_then_def)
      next
        case (Some p)
        then have "found_leaf C (key, t) Ls p s2"
          using d y by blast
        then obtain leaf stack where p: "p = leaf # stack" and f: "found_leaf C (key, t) Ls (leaf # stack) s2"
          by (auto simp: found_leaf_def)
        have "steady_run b (insert_at_leaf E key t ?e leaf stack)"
          by (rule steady_insert_at_leaf) (rule b)
        then have "steady b (fst (insert_at_leaf E key t ?e leaf stack s2))"
          unfolding steady_run_def ..
        then show ?thesis
          using insert_at_leaf_outcome [OF E f] rf Inr dp y Some p by (simp add: insert_pessimistic_alt bt_then_def)
      qed
    qed
  qed
qed

section \<open>Insertion\<close>

lemma insert_loop_spec:
  fixes E :: "'w bt_env" and e :: "byte list \<times> tid"
  assumes E: "files_bounded E" and b: "b \<Longrightarrow> never_full E" and e: "e = (key, t)"
    and "known C {} {} False s" "insert_loop E key t restarted budget s = (r, s')"
  shows "\<exists>n. known ((insort e ^^ n) C) {} {} False s' \<and> (r = Ok () \<longrightarrow> 1 \<le> n) \<and> (b \<longrightarrow> n \<le> 1) \<and> steady b r"
  using assms(4,5)
proof (induction budget arbitrary: C s restarted rule: less_induct)
  case (less budget)
  let ?en = "encode_leaf_entry key t"
  let ?goal = "\<lambda>C r s'. \<exists>n. known ((insort e ^^ n) C) {} {} False s' \<and> (r = Ok () \<longrightarrow> 1 \<le> n) \<and> (b \<longrightarrow> n \<le> 1) \<and> steady b r"
  have err: "?goal C (Err x) s2" if "known C {} {} False s2 \<or> known (insort e C) {} {} False s2" "calm b x" for x s2
    using that by (auto intro: exI [of _ 0] exI [of _ 1])
  define m where "m = (if restarted then bt_then (refresh_root_from_meta E) (\<lambda>_. bt_return ()) else bt_return ())"
  obtain x s1 where m: "m s = (x, s1)"
    by fastforce
  have "triple (known C {} {} False) (refresh_root_from_meta E) (\<lambda>r s. known C {} {} True s \<and> root_page s = r) (\<lambda>_. known C {} {} False)"
    by (rule refresh_root_known) simp
  then have "triple (known C {} {} False) m (\<lambda>_. known C {} {} False) (\<lambda>_. known C {} {} False)"
    unfolding m_def by (intro triple_if triple_then [where R = "\<lambda>_. known C {} {} False"] triple_return)
      (auto elim!: triple_weaken intro: known_weaken)
  from tripleD [OF this less.prems(1), unfolded m] have k1: "known C {} {} False s1"
    by (cases x) auto
  have "steady_run b m"
    using b by (auto simp: m_def steady intro!: steady_then)
  then have sx: "steady b x"
    using m by (metis fst_conv steady_run_def)
  have run: "(case x of Inl y \<Rightarrow> (Err y, s1) | Inr _ \<Rightarrow>
      bt_then (insert_optimistic E key t ?en) (\<lambda>placed.
      if placed then bt_return ()
      else (\<lambda>s.
        let (r, s) = insert_pessimistic E key t ?en s;
          restart = (case budget of 0 \<Rightarrow> (Err BtUnsupported, s) | Suc b \<Rightarrow> insert_loop E key t True b s) in
        case r of
          Inr PDone \<Rightarrow> (Ok (), s)
        | Inr PRetry \<Rightarrow> restart
        | Inl e \<Rightarrow> if e = BtStorage BufferPoolFull then restart else (Err e, s))) s1) = (r, s')"
    using less.prems(2) m by (subst (asm) insert_loop.simps) (simp add: Let_def bt_then_def m_def split: sum.splits)
  show ?case
  proof (cases x)
    case (Inl y)
    then have "r = Err y" "s' = s1" "calm b y"
      using run sx by auto
    then show ?thesis
      using err [of s1 y] k1 by blast
  next
    case x: (Inr u)
    obtain y s2 where op: "insert_optimistic E key t ?en s1 = (y, s2)"
      by fastforce
    have "triple (known C {} {} False) (insert_optimistic E key t ?en)
        (\<lambda>placed. known (if placed then insort (key, t) C else C) {} {} False) (\<lambda>e s. known C {} {} False s \<and> calm b e)"
      by (rule insert_optimistic_known) (rule b)
    note o = tripleD [OF this k1, unfolded op]
    show ?thesis
    proof (cases y)
      case (Inl z)
      then have "r = Err z" "s' = s2" "known C {} {} False s2" "calm b z"
        using run x op o(2) by (auto simp: bt_then_def)
      then show ?thesis
        using err [of s2 z] by blast
    next
      case y: (Inr placed)
      show ?thesis
      proof (cases placed)
        case True
        then have "known (insort e C) {} {} False s2" "r = Ok ()" "s' = s2"
          using o(1) y e run x op by (auto simp: bt_then_def bt_return_def)
        then show ?thesis
          by (auto intro: exI [of _ 1])
      next
        case False
        then have k2: "known C {} {} False s2"
          using o(1) y by auto
        obtain z s3 where pe: "insert_pessimistic E key t ?en s2 = (z, s3)"
          by fastforce
        have ps: "outcome C (key, t) (z, s3)" "steady b z"
          using insert_pessimistic_spec [OF E _ k2, of b key t] b unfolding pe by auto
        let ?restart = "case budget of 0 \<Rightarrow> (Err BtUnsupported, s3) | Suc b \<Rightarrow> insert_loop E key t True b s3"
        have run3: "(case z of Inr PDone \<Rightarrow> (Ok (), s3) | Inr PRetry \<Rightarrow> ?restart
          | Inl e \<Rightarrow> if e = BtStorage BufferPoolFull then ?restart else (Err e, s3)) = (r, s')"
          using run x op y False pe by (simp add: bt_then_def Let_def)
        have again: "?goal C' r s'" if "?restart = (r, s')" "known C' {} {} False s3" for C'
        proof (cases budget)
          case 0
          then show ?thesis
            using that by (auto intro: exI [of _ 0])
        next
          case (Suc d)
          show ?thesis
            by (rule less.IH [of d C' s3 True]) (use Suc that in auto)
        qed
        show ?thesis
        proof (cases z)
          case (Inr d)
          show ?thesis
          proof (cases d)
            case PDone
            then show ?thesis
              using ps(1) Inr run3 e by (auto simp: outcome_def intro: exI [of _ 1])
          next
            case PRetry
            then show ?thesis
              using ps(1) Inr run3 again by (simp add: outcome_def)
          qed
        next
          case (Inl a)
          have C: "known C {} {} False s3 \<or> known (insort e C) {} {} False s3"
            using ps(1) Inl e by (simp add: outcome_def)
          show ?thesis
          proof (cases "a = BtStorage BufferPoolFull")
            case True
            then have nb: "\<not> b" and rs: "?restart = (r, s')"
              using ps(2) run3 Inl by simp_all
            from C show ?thesis
            proof
              assume "known (insort e C) {} {} False s3"
              from again [OF rs this] obtain n where "known ((insort e ^^ n) (insort e C)) {} {} False s'" "r = Ok () \<longrightarrow> 1 \<le> n" "steady b r"
                by blast
              then show ?thesis
                using nb by (intro exI [of _ "Suc n"]) (simp add: funpow_swap1)
            qed (rule again [OF rs])
          next
            case False
            then have "r = Err a" "s' = s3" "calm b a"
              using ps(2) run3 Inl by auto
            then show ?thesis
              using err [OF C] by blast
          qed
        qed
      qed
    qed
  qed
qed

lemma bt_insert_spec:
  assumes "files_bounded E" "index_inv s Ls" "bt_insert E key t s = (r, s')"
  shows "\<exists>Ls' n. index_inv s' Ls' \<and> contents s' (hd Ls') = (insort (key, t) ^^ n) (contents s (hd Ls)) \<and>
    (r = Ok () \<longrightarrow> 1 \<le> n) \<and> (never_full E \<longrightarrow> n \<le> 1) \<and> r \<noteq> Err BtDiverges"
proof (cases "length key > MAX_INDEX_KEY_BYTES")
  case True
  then have "s' = s" "r = Err (KeyTooLarge (length key))"
    using assms(3) by (auto simp: bt_insert_def insert_with_budget_def bt_lift_def)
  then show ?thesis
    using assms(2) by (intro exI [of _ Ls] exI [of _ 0]) simp
next
  case False
  let ?C = "contents s (hd Ls)"
  have k: "known ?C {} {} False s"
    unfolding known_def knows_def using assms(2) by auto
  have run: "insert_loop E key t False MAX_INSERT_RESTARTS s = (r, s')"
    using assms(3) False by (simp add: bt_insert_def insert_with_budget_def)
  obtain n where n: "known ((insort (key, t) ^^ n) ?C) {} {} False s'" "r = Ok () \<longrightarrow> 1 \<le> n" "never_full E \<longrightarrow> n \<le> 1" "steady (never_full E) r"
    using insert_loop_spec [OF assms(1) _ HOL.refl k run, of "never_full E"] by blast
  then obtain Ls' where "index_inv s' Ls'" "contents s' (hd Ls') = (insort (key, t) ^^ n) ?C"
    by (auto simp: known_def knows_def)
  moreover have "r \<noteq> Err BtDiverges"
    using n(4) by (auto simp: calm_def)
  ultimately show ?thesis
    using n by blast
qed

end
