(* ===== verification/Btree_Progress.thy ===== *)
theory Btree_Progress
  imports Btree_Insert
begin

text \<open>
  Insertions that succeed: without faults, on levels short enough for the hop bound, the
  descent ends at the leaf of the new entry, the placement confirms it in one round, and the
  entry is placed when its leaf has room.
\<close>

section \<open>Walks for an insertion\<close>

lemma left_scan_total:
  assumes ch: "chain s 0 cs" and nf: "no_faults E" and i: "i < length cs" and "a < i" "hops + (i - a) \<le> MAX_CHAIN_HOPS"
  shows "\<exists>r. left_scan E s (cs ! i) (cs ! a) found hops = Ok r"
  using assms(4,5)
proof (induction "i - a" arbitrary: a found hops)
  case (Suc n)
  have a: "a < length cs" "a + 1 < length cs"
    using Suc.prems(1) i by simp_all
  note p = is_pageD [OF chainD(1) [OF ch a(1)]] and p1 = is_pageD [OF chainD(1) [OF ch a(2)]]
  have nx: "bt_next (guarded s (cs ! a)) = Ok (cs ! (a + 1))"
    using p(9) chainD(2) [OF ch a(1)] a(2) by simp
  show ?case
  proof (cases "a + 1 = i")
    case True
    then show ?thesis
      by (subst left_scan.simps) (use nx in \<open>simp add: Let_def\<close>)
  next
    case False
    then have "a + 1 < i"
      using Suc.prems(1) by simp
    then obtain r where "left_scan E s (cs ! i) (cs ! (a + 1)) (if slot_count (guarded s (cs ! a)) > 0 then Some (cs ! a) else found) (hops + 1) = Ok r"
      using Suc.hyps(1) [of "a + 1" "hops + 1"] Suc.hyps(2) Suc.prems(2) by fastforce
    moreover have "cs ! (a + 1) \<noteq> cs ! i"
      using ch a(2) i False by (simp add: chain_def nth_eq_iff_index_eq)
    moreover have "\<not> hops + 1 > MAX_CHAIN_HOPS"
      using Suc.prems by simp
    ultimately show ?thesis
      by (subst left_scan.simps) (use nx p1(1) p1(11) [OF nf] in \<open>simp add: Let_def\<close>)
  qed
qed simp

lemma nearest_total:
  assumes ch: "chain s 0 cs" and nf: "no_faults E" and i: "i < length cs" and len: "length cs \<le> MAX_CHAIN_HOPS"
  shows "\<exists>r. nearest_nonempty_left E s (cs ! i) = Ok r"
proof (cases "i = 0")
  case True
  then show ?thesis
    using is_pageD(8,11) [OF chainD(1) [OF ch i]] nf chainD(3) [OF ch i] by (simp add: nearest_nonempty_left_def)
next
  case False
  then obtain a where a: "a < i" "nd_prev (node_at s (cs ! i)) = cs ! a"
    using chainD(4) [OF ch i] by blast
  have al: "a < length cs"
    using a(1) i by simp
  note p = is_pageD [OF chainD(1) [OF ch i]] and pa = is_pageD [OF chainD(1) [OF ch al]]
  show ?thesis
    using left_scan_total [OF ch nf i a(1), of 0 None] len i p(8) p(11) [OF nf] pa(1) pa(11) [OF nf] a(2)
    by (simp add: nearest_nonempty_left_def)
qed

text \<open>One step to the left of a walk for an insertion.\<close>

lemma left_step_insert:
  assumes ch: "chain s 0 cs" and so: "sorted (contents s cs)" and hi: "hints s cs" and nf: "no_faults E" and i: "i < length cs"
    and len: "length cs \<le> MAX_CHAIN_HOPS"
  obtains (stop) "left_step E s True 0 key t (cs ! i) hops v = Ok (cs ! i, False, hops, v)" "i = 0 \<or> v = cs ! i \<or> \<not> dominated s 0 key t (cs ! i)"
  | (left) k h where "left_step E s True 0 key t (cs ! i) hops v = Ok (cs ! k, True, h, v)" "k < i" "h \<le> hops + 2" "i \<noteq> 0" "v \<noteq> cs ! i" "dominated s 0 key t (cs ! i)"
  | (stay) h where "left_step E s True 0 key t (cs ! i) hops v = Ok (cs ! i, True, h, cs ! i)" "h \<le> hops + 2" "i \<noteq> 0" "v \<noteq> cs ! i" "dominated s 0 key t (cs ! i)"
      "\<forall>x \<in> set (contents s (take i cs)). x \<le> (key, t)"
proof -
  note c = chainD [OF ch i] and p = is_pageD [OF chainD(1) [OF ch i]]
  note fa = first_above_eq [OF c(1), of key t]
  let ?cand = "(slot_count (guarded s (cs ! i)) = 0 \<or> \<not> empty_at s (cs ! i) \<and> dominated s 0 key t (cs ! i)) \<and>
    nd_prev (node_at s (cs ! i)) \<noteq> 0 \<and> v \<noteq> cs ! i"
  have cand: "?cand \<longleftrightarrow> i \<noteq> 0 \<and> v \<noteq> cs ! i \<and> dominated s 0 key t (cs ! i)"
    using c(5) by (auto simp: dominated_def empty_at_def)
  have eq: "left_step E s True 0 key t (cs ! i) hops v = (if ?cand then
      try_then (nearest_nonempty_left E s (cs ! i)) (\<lambda>left.
        case left of
          Some walk \<Rightarrow>
            try_then (bt_pin E s walk) (\<lambda>lpg.
            try_then (last_above lpg key t) (\<lambda>go_left.
              if go_left then try_then (bt_pin E s walk) (\<lambda>_. Ok (walk, True, hops + 2, v))
              else try_then (bt_pin E s (cs ! i)) (\<lambda>_. Ok (cs ! i, True, hops + 2, cs ! i))))
        | None \<Rightarrow> try_then (bt_pin E s (cs ! i)) (\<lambda>_. Ok (cs ! i, True, hops + 1, cs ! i)))
      else Ok (cs ! i, False, hops, v))"
    using fa p(8) by (simp add: left_step_def Let_def)
  show thesis
  proof (cases ?cand)
    case False
    show thesis
      by (rule stop) (use eq False cand in auto)
  next
    case True
    then have d: "i \<noteq> 0" "v \<noteq> cs ! i" "dominated s 0 key t (cs ! i)"
      using cand by auto
    obtain left where nl: "nearest_nonempty_left E s (cs ! i) = Ok left"
      using nearest_total [OF ch nf i len] by blast
    note n = nearest_nonempty_left_Ok [OF ch i nl]
    show thesis
    proof (cases left)
      case None
      have "contents s (take i cs) = []"
        by (rule nothing_left [OF hi i]) (use n None in simp)
      then show thesis
        using stay [of "hops + 1"] eq True nl None p(11) [OF nf] d by simp
    next
      case (Some lid)
      then obtain k where k: "k < i" "lid = cs ! k" "\<not> empty_at s (cs ! k)" "\<forall>j. k < j \<and> j < i \<longrightarrow> empty_at s (cs ! j)"
        using n by auto
      have kl: "k < length cs"
        using k(1) i by simp
      note pk = is_pageD [OF chainD(1) [OF ch kl]] and la = last_above_eq [OF chainD(1) [OF ch kl] k(3), of key t]
      show thesis
      proof (cases "last (items_at s (cs ! k)) > (key, t)")
        case go: True
        show thesis
          using left [of k "hops + 2"] eq True nl Some k(1,2) pk(11) [OF nf] la go d by simp
      next
        case go: False
        have "\<forall>x \<in> set (contents s (take i cs)). x \<le> (key, t)"
          by (rule below_last [OF so k(1) _ k(4,3)]) (use i go in \<open>simp_all add: not_less\<close>)
        then show thesis
          using stay [of "hops + 2"] eq True nl Some k(2) p(11) [OF nf] pk(11) [OF nf] la go d by simp
      qed
    qed
  qed
qed

definition insert_moves :: "'w bt_store \<Rightarrow> byte list \<Rightarrow> tid \<Rightarrow> page_id list \<Rightarrow> nat \<Rightarrow> page_id \<Rightarrow> nat" where
  "insert_moves s key t cs i v =
    (if \<not> dominated s 0 key t (cs ! i) then length cs - i
     else if i = 0 \<or> v = cs ! i then length cs - i + 1 else length cs + i + 2)"

lemma walk_insert:
  assumes ch: "chain s 0 cs" and so: "sorted (contents s cs)" and hi: "hints s cs" and nf: "no_faults E" and len: "length cs \<le> MAX_CHAIN_HOPS"
    and "i < length cs" "left_done s cs (key, t) v" "hops + (empties s cs + 3) * (insert_moves s key t cs i v + 1) \<le> MAX_CHAIN_HOPS"
  shows "\<exists>j h. walk_to_position E s True 0 key t (cs ! i) hops v hopped = Ok (cs ! j, h) \<and> lands (key, t) s cs j"
  using assms(6-8)
proof (induction "insert_moves s key t cs i v" arbitrary: i hops v hopped rule: less_induct)
  case less
  let ?M = "empties s cs + 3"
  note i = less.prems(1)
  have room: "hops + ?M * insert_moves s key t cs i v + ?M \<le> MAX_CHAIN_HOPS"
    using less.prems(3) by (simp add: algebra_simps)
  have dist: "distinct cs"
    using ch by (simp add: chain_def)
  text \<open>The rest of a round, once the left step has led to page \<open>m\<close>.\<close>
  have rest: "\<exists>j h. walk_to_position E s True 0 key t (cs ! i) hops v hopped = Ok (cs ! j, h) \<and> lands (key, t) s cs j"
    if ls: "left_step E s True 0 key t (cs ! i) hops v = Ok (cs ! m, moved, h1, v1)" and m: "m < length cs" and h1: "h1 \<le> hops + 2"
      and v1: "left_done s cs (key, t) v1"
      and right: "\<And>j. m < j \<Longrightarrow> length cs - j < insert_moves s key t cs i v"
      and again: "moved \<Longrightarrow> insert_moves s key t cs m v1 < insert_moves s key t cs i v"
      and stop: "\<not> moved \<Longrightarrow> m = i \<and> (\<forall>x \<in> set (contents s (take i cs)). x \<le> (key, t))" for m moved h1 v1
  proof -
    let ?k = "first_full s cs (m + 1)"
    have ks: "?k - (m + 1) \<le> empties s cs"
      by (rule first_full_facts(3))
    have b: "h1 + (?k - (m + 1)) + 1 + ?M * insert_moves s key t cs i v \<le> MAX_CHAIN_HOPS"
      using room h1 ks by linarith
    have "h1 + (?k - (m + 1)) \<le> MAX_CHAIN_HOPS"
      using b by linarith
    from right_target_chain [OF ch nf m this, of key t, unfolded Let_def]
    have rt: "right_target E s 0 key t (nd_next (node_at s (cs ! m))) h1 =
      Ok (if ?k < length cs \<and> owned s 0 key t (cs ! ?k) then Some (cs ! ?k) else None, h1 + (?k - (m + 1)))" .
    have nx: "bt_next (guarded s (cs ! m)) = Ok (nd_next (node_at s (cs ! m)))"
      by (rule is_pageD(9) [OF chainD(1) [OF ch m]])
    have le: "?M * (n + 1) \<le> ?M * insert_moves s key t cs i v" if "n < insert_moves s key t cs i v" for n
      using mult_le_mono2 [of "n + 1" "insert_moves s key t cs i v" ?M] that by simp
    show ?thesis
    proof (cases "?k < length cs \<and> owned s 0 key t (cs ! ?k)")
      case True
      have mk: "m < ?k"
        using first_full_facts(1) [of "m + 1" cs s] m by simp
      have mv: "insert_moves s key t cs ?k v1 = length cs - ?k"
        using owned_not_dominated [of s 0 key t "cs ! ?k"] True by (simp add: insert_moves_def)
      have lt: "insert_moves s key t cs ?k v1 < insert_moves s key t cs i v"
        using right [OF mk] mv by simp
      have hp: "h1 + (?k - (m + 1)) + 1 + ?M * (insert_moves s key t cs ?k v1 + 1) \<le> MAX_CHAIN_HOPS"
        using b le [OF lt] by linarith
      have "\<exists>j h. walk_to_position E s True 0 key t (cs ! ?k) (h1 + (?k - (m + 1)) + 1) v1 True = Ok (cs ! j, h) \<and> lands (key, t) s cs j"
        by (rule less.hyps [OF lt _ v1 hp]) (use True in simp)
      moreover have "walk_to_position E s True 0 key t (cs ! i) hops v hopped =
          walk_to_position E s True 0 key t (cs ! ?k) (h1 + (?k - (m + 1)) + 1) v1 True"
        by (subst walk_to_position.simps) (use ls nx rt True b in \<open>simp\<close>)
      ultimately show ?thesis
        by simp
    next
      case False
      show ?thesis
      proof (cases moved)
        case mv: True
        have hp: "h1 + (?k - (m + 1)) + ?M * (insert_moves s key t cs m v1 + 1) \<le> MAX_CHAIN_HOPS"
          using b le [OF again [OF mv]] by linarith
        have "\<exists>j h. walk_to_position E s True 0 key t (cs ! m) (h1 + (?k - (m + 1))) v1 hopped = Ok (cs ! j, h) \<and> lands (key, t) s cs j"
          by (rule less.hyps [OF again [OF mv] m v1 hp])
        moreover have "walk_to_position E s True 0 key t (cs ! i) hops v hopped =
            walk_to_position E s True 0 key t (cs ! m) (h1 + (?k - (m + 1))) v1 hopped"
          by (subst walk_to_position.simps) (use ls nx rt False mv b in \<open>auto\<close>)
        ultimately show ?thesis
          by simp
      next
        case nm: False
        then have mi: "m = i" and lo: "\<forall>x \<in> set (contents s (take i cs)). x \<le> (key, t)"
          using stop by auto
        have "lands (key, t) s cs i"
          using above_right [OF so HOL.refl False] lo mi i by (simp add: lands_def)
        moreover have "walk_to_position E s True 0 key t (cs ! i) hops v hopped = Ok (cs ! i, hopped)"
          by (subst walk_to_position.simps) (use ls nx rt False nm mi in \<open>auto\<close>)
        ultimately show ?thesis
          by blast
      qed
    qed
  qed
  show ?case
  proof (rule left_step_insert [OF ch so hi nf i len, of key t hops v], goal_cases)
    case 1
    note stop = 1
    have lo: "\<forall>x \<in> set (contents s (take i cs)). x \<le> (key, t)"
    proof -
      consider "i = 0" | "v = cs ! i" | "\<not> dominated s 0 key t (cs ! i)"
        using stop(2) by blast
      then show ?thesis
      proof cases
        case 2
        then show ?thesis
          using less.prems(2) i by (auto simp: left_done_def)
      next
        case 3
        then have "\<not> empty_at s (cs ! i)" "hd (items_at s (cs ! i)) \<le> (key, t)"
          by (simp_all add: dominated_def not_less)
        then show ?thesis
          by (rule below_first [OF so i])
      qed simp
    qed
    show ?thesis
      by (rule rest [OF stop(1) i _ less.prems(2)]) (use stop(2) lo i in \<open>auto simp: insert_moves_def\<close>)
  next
    case (2 k h)
    note left = 2
    have k: "k < length cs"
      using left(2) i by simp
    show ?thesis
      by (rule rest [OF left(1) k left(3) less.prems(2)]) (use left i in \<open>auto simp: insert_moves_def\<close>)
  next
    case (3 h)
    note stay = 3
    have "left_done s cs (key, t) (cs ! i)"
      using stay(6) i dist by (auto simp: left_done_def nth_eq_iff_index_eq)
    then show ?thesis
      by (intro rest [OF stay(1) i stay(2)]) (use stay i in \<open>auto simp: insert_moves_def\<close>)
  qed
qed

lemma walk_internal:
  assumes "level \<noteq> 0"
  shows "walk_to_position E s True level key t cur hops v hopped = walk_to_position E s False level key t cur hops v hopped"
proof -
  have ls: "left_step E s True level key t c h w = left_step E s False level key t c h w" for c h w
    using assms by (simp add: left_step_def)
  have "level \<noteq> 0 \<Longrightarrow> walk_to_position E s ins level key t cur hops v hopped = walk_to_position E s False level key t cur hops v hopped"
    if "ins" for ins
    using that ls
  proof (induction E s ins level key t cur hops v hopped rule: walk_to_position.induct)
    case (1 E s ins level key t cur hops v hopped)
    then have eq: "left_step E s ins level key t cur hops v = left_step E s False level key t cur hops v"
      by simp
    show ?case
      by (subst (1 2) walk_to_position.simps, unfold eq)
        (use 1 in \<open>auto simp: eq intro!: try_then_cong split: option.split\<close>)
  qed
  then show ?thesis
    using assms by simp
qed

definition insertable :: "'w bt_store \<Rightarrow> page_id list \<Rightarrow> bool" where
  "insertable s cs \<longleftrightarrow> (empties s cs + 3) * (2 * length cs + 2) \<le> MAX_CHAIN_HOPS"

lemma walk_insertable:
  assumes ch: "chain s 0 cs" and so: "sorted (contents s cs)" and hi: "hints s cs" and nf: "no_faults E" and w: "insertable s cs" and c: "c \<in> set cs"
  shows "\<exists>j h. walk_to_position E s True 0 key t c 0 0 hopped = Ok (cs ! j, h) \<and> lands (key, t) s cs j"
proof -
  obtain i where i: "i < length cs" "c = cs ! i"
    using c by (metis in_set_conv_nth)
  have "1 * (2 * length cs + 2) \<le> (empties s cs + 3) * (2 * length cs + 2)"
    by (rule mult_le_mono1) simp
  from order_trans [OF this w [unfolded insertable_def]] have len: "length cs \<le> MAX_CHAIN_HOPS"
    by simp
  have "insert_moves s key t cs i 0 + 1 \<le> 2 * length cs + 2"
    using i(1) by (auto simp: insert_moves_def)
  then have "(empties s cs + 3) * (insert_moves s key t cs i 0 + 1) \<le> (empties s cs + 3) * (2 * length cs + 2)"
    by (rule mult_le_mono2)
  then have h: "0 + (empties s cs + 3) * (insert_moves s key t cs i 0 + 1) \<le> MAX_CHAIN_HOPS"
    using w unfolding insertable_def by linarith
  have "left_done s cs (key, t) 0"
    using chainD(1) [OF ch] by (auto simp: left_done_def is_page_def)
  from walk_insert [OF ch so hi nf len i(1) this h] show ?thesis
    using i(2) by simp
qed

lemma descend_insert:
  assumes t: "tree s Ls" "list_all (walkable s) Ls" "no_faults E" "sorted (contents s (hd Ls))" "hints s (hd Ls)" "insertable s (hd Ls)"
    and "l < length Ls" "c \<in> set (Ls ! l)" "full s l c" "l < fuel"
  shows "\<exists>j path' h. descend E s True key t fuel c path hopped = Ok (hd Ls ! j, path', h) \<and> lands (key, t) s (hd Ls) j"
  using assms(7-)
proof (induction l arbitrary: c fuel path hopped)
  case 0
  then obtain f where f: "fuel = Suc f"
    by (cases fuel) auto
  note hd = treeD(8) [OF t(1)]
  have ch: "chain s 0 (hd Ls)" and c: "c \<in> set (hd Ls)"
    using treeD(4) [OF t(1) 0(1)] 0 hd by auto
  have "bt_level (guarded s c) = Ok 0"
    by (rule is_pageD(7) [OF chain_mem [OF ch c]])
  moreover obtain j h where "walk_to_position E s True 0 key t c 0 0 hopped = Ok (hd Ls ! j, h)" "lands (key, t) s (hd Ls) j"
    using walk_insertable [OF ch t(4,5,3,6) c] by metis
  ultimately show ?case
    using f by auto
next
  case (Suc l)
  then obtain f where f: "fuel = Suc f" "l < f"
    by (cases fuel) auto
  let ?lv = "of_nat (Suc l) :: byte"
  have l: "Suc l < 16"
    using treeD(2) [OF t(1)] Suc.prems by simp
  note lv = level_nonzero [OF zero_less_Suc l]
  have ch: "chain s ?lv (Ls ! Suc l)"
    by (rule treeD(4) [OF t(1) Suc.prems(1)])
  have w: "walkable s (Ls ! Suc l)"
    using t(2) Suc.prems(1) by (simp add: list_all_length)
  have ch0: "chain s (of_nat l) (Ls ! l)"
    by (rule treeD(4) [OF t(1)]) (use Suc.prems in simp)
  have pc: "is_page s ?lv c"
    by (rule chain_mem [OF ch Suc.prems(2)])
  obtain j h where j': "walk_to_position E s False ?lv key t c 0 0 hopped = Ok (Ls ! Suc l ! j, h)" "j < length (Ls ! Suc l)"
    using walk_walkable [OF ch t(3) w Suc.prems(2), of key t 0 hopped] by (auto simp: walk_end_def)
  have j: "walk_to_position E s True ?lv key t c 0 0 hopped = Ok (Ls ! Suc l ! j, h)"
    unfolding walk_internal [OF lv] by (rule j'(1))
  let ?p = "Ls ! Suc l ! j"
  have pj: "is_page s ?lv ?p"
    by (rule chainD(1) [OF ch j'(2)])
  have pf: "?p \<in> set (Ls ! Suc l) \<and> full s (Suc l) ?p"
    by (rule walk_full [OF ch treeD(6) [OF t(1) Suc.prems(1)] l j'(1) Suc.prems(2,3)])
  then have "0 < slot_count (guarded s ?p)"
    by (simp add: full_def empty_at_def)
  from find_child_in [OF is_pageD(6) [OF pj lv] this, of key] obtain c' where
    c': "find_child (guarded s ?p) key = Ok c'" "c' \<in> snd ` set (internal_items (guarded s ?p))"
    by blast
  then have c'l: "c' \<in> set (Ls ! l)" "full s l c'"
    using treeD(7) [OF t(1) Suc.prems(1)] pf by (auto simp: linked_def children_def)
  from c'l(1) have "bt_pin E s c' = Ok (guarded s c')"
    by (rule is_pageD(11) [OF chain_mem [OF ch0] t(3)])
  then have "descend E s True key t fuel c path hopped = descend E s True key t f c' (path @ [?p]) h"
    using f(1) is_pageD(7) [OF pc] j lv c'(1) by simp
  then show ?case
    using Suc.IH [of c' f "path @ [?p]" h] Suc.prems c'l f(2) by simp
qed

section \<open>Placement in one round\<close>

lemma clean_until_total:
  assumes ch: "chain s 0 cs" and nf: "no_faults E" and i: "i < length cs"
    and "k \<le> i" "\<forall>j. k \<le> j \<and> j < i \<longrightarrow> empty_at s (cs ! j)" "hops + (i - k) \<le> MAX_CHAIN_HOPS"
  shows "\<exists>h. clean_until E s (cs ! i) (cs ! k) hops = Ok (True, h)"
  using assms(4-)
proof (induction "i - k" arbitrary: k hops)
  case 0
  then show ?case
    by (subst clean_until.simps) simp
next
  case (Suc n)
  have k: "k < i"
    using Suc.hyps(2) by simp
  have kl: "k < length cs"
    using k i by simp
  note p = is_pageD [OF chainD(1) [OF ch kl]]
  have nx: "bt_next (guarded s (cs ! k)) = Ok (cs ! (k + 1))"
    using p(9) chainD(2) [OF ch kl] k i by simp
  have "cs ! k \<noteq> cs ! i"
    using ch k i by (simp add: chain_def nth_eq_iff_index_eq)
  moreover have "empty_at s (cs ! k)"
    using Suc.prems(2) k by simp
  moreover obtain h where "clean_until E s (cs ! i) (cs ! (k + 1)) (hops + 1) = Ok (True, h)"
  proof -
    have "\<exists>h. clean_until E s (cs ! i) (cs ! (k + 1)) (hops + 1) = Ok (True, h)"
      by (rule Suc.hyps(1)) (use Suc.hyps(2) Suc.prems k in auto)
    then show thesis
      using that by blast
  qed
  moreover have "\<not> hops + 1 > MAX_CHAIN_HOPS"
    using Suc.prems(3) k by linarith
  ultimately show ?case
    by (subst clean_until.simps) (use p(1) p(11) [OF nf] nx in \<open>simp add: empty_at_def\<close>)
qed

lemma nonempty_right_total:
  assumes ch: "chain s 0 cs" and nf: "no_faults E" and "i < length cs" "hops + (length cs - i) \<le> MAX_CHAIN_HOPS"
  shows "\<exists>x h. nonempty_right E s (nd_next (node_at s (cs ! i))) hops = Ok (x, h) \<and>
    (\<forall>r. x = Some r \<longrightarrow> (\<exists>j. i < j \<and> j < length cs \<and> r = cs ! j \<and> \<not> empty_at s r))"
  using assms(3,4)
proof (induction "length cs - i" arbitrary: i hops)
  case (Suc n)
  show ?case
  proof (cases "i + 1 < length cs")
    case True
    note p = is_pageD [OF chainD(1) [OF ch True]]
    have n1: "nd_next (node_at s (cs ! i)) = cs ! (i + 1)"
      using chainD(2) [OF ch Suc.prems(1)] True by simp
    show ?thesis
    proof (cases "empty_at s (cs ! (i + 1))")
      case e: True
      have "\<exists>x h. nonempty_right E s (nd_next (node_at s (cs ! (i + 1)))) (hops + 1) = Ok (x, h) \<and>
          (\<forall>r. x = Some r \<longrightarrow> (\<exists>j. i + 1 < j \<and> j < length cs \<and> r = cs ! j \<and> \<not> empty_at s r))"
        by (rule Suc.hyps(1)) (use Suc.hyps(2) Suc.prems True in auto)
      then obtain x h where x: "nonempty_right E s (nd_next (node_at s (cs ! (i + 1)))) (hops + 1) = Ok (x, h)"
        "\<forall>r. x = Some r \<longrightarrow> (\<exists>j. i + 1 < j \<and> j < length cs \<and> r = cs ! j \<and> \<not> empty_at s r)"
        by blast
      have "\<not> hops + 1 > MAX_CHAIN_HOPS"
        using Suc.prems(2) True by linarith
      then have "nonempty_right E s (nd_next (node_at s (cs ! i))) hops = Ok (x, h)"
        unfolding n1 by (subst nonempty_right.simps) (use e x(1) p(1,9) p(11) [OF nf] in \<open>simp add: empty_at_def\<close>)
      then show ?thesis
        using x(2) by (metis Suc_eq_plus1 Suc_lessD)
    next
      case e: False
      then have "nonempty_right E s (nd_next (node_at s (cs ! i))) hops = Ok (Some (cs ! (i + 1)), hops)"
        unfolding n1 by (subst nonempty_right.simps) (use p(1) p(11) [OF nf] in \<open>simp add: empty_at_def\<close>)
      then show ?thesis
        using True e by auto
    qed
  next
    case False
    then have "nd_next (node_at s (cs ! i)) = 0"
      using chainD(2) [OF ch Suc.prems(1)] by simp
    then show ?thesis
      by (subst nonempty_right.simps) simp
  qed
qed simp

lemma page_above:
  assumes l: "lands (key, t) s cs i" and fr: "(key, t) \<notin> set (contents s cs)" and j: "i < j" "j < length cs" "\<not> empty_at s (cs ! j)"
  shows "\<not> hd (items_at s (cs ! j)) \<le> (key, t)"
proof -
  have ne: "items_at s (cs ! j) \<noteq> []"
    using j(3) by (metis empty_at_def items_at_def length_items(1) list.size(3))
  let ?x = "hd (items_at s (cs ! j))"
  have "cs ! j \<in> set (drop (i + 1) cs)"
    using j(1,2) by (auto simp: in_set_conv_nth intro!: exI [of _ "j - (i + 1)"])
  then have x: "?x \<in> set (contents s (drop (i + 1) cs))"
    using ne unfolding contents_def by (auto intro!: bexI [of _ "cs ! j"])
  then have "(key, t) \<le> ?x"
    using l by (simp add: lands_def)
  moreover have "set (contents s (drop (i + 1) cs)) \<subseteq> set (contents s cs)"
    by (auto simp: contents_def dest: in_set_dropD)
  then have "?x \<noteq> (key, t)"
    using x fr by auto
  ultimately show ?thesis
    by (metis antisym)
qed

lemma insert_slot_le:
  assumes "is_page s 0 p" "sorted (items_at s p)" "leaf_insert_slot (guarded s p) key t = Ok pos"
  shows "unat pos \<le> slot_count (guarded s p)"
proof -
  let ?n = "length (takeWhile (\<lambda>x. x < (key, t)) (items_at s p))"
  have "?n \<le> slot_count (guarded s p)"
    using length_takeWhile_le [of "\<lambda>x. x < (key, t)" "items_at s p"] by (simp add: items_at_def)
  moreover have "pos = of_nat ?n"
    using leaf_insert_slot_eq [OF is_pageD(5) [OF assms(1)], of key t] assms(2,3) by (simp add: items_at_def split: if_splits)
  ultimately show ?thesis
    using slot_u16 [OF is_pageD(3) [OF assms(1)]] by simp
qed

lemma insert_round_lands:
  assumes ch: "chain s 0 cs" and so: "sorted (contents s cs)" and hi: "hints s cs" and nf: "no_faults E" and len: "2 * length cs \<le> MAX_CHAIN_HOPS"
    and l: "lands (key, t) s cs i" and fr: "(key, t) \<notin> set (contents s cs)"
  shows "\<exists>pos. insert_round E s key t (cs ! i) 0 = Ok (Inr pos) \<and> unat pos \<le> slot_count (guarded s (cs ! i))"
proof -
  have i: "i < length cs"
    using l by (simp add: lands_def)
  note p = is_pageD [OF chainD(1) [OF ch i]]
  let ?k = "first_full s cs (i + 1)"
  define h0 where "h0 = ?k - (i + 1)"
  have kf: "h0 + i < length cs"
    using first_full_facts(1) [of "i + 1" cs s] i unfolding h0_def by linarith
  have no: "\<not> (?k < length cs \<and> owned s 0 key t (cs ! ?k))"
    using page_above [OF l fr, of ?k] first_full_facts(1) [of "i + 1" cs s] i by (auto simp: owned_def)
  have "0 + (?k - (i + 1)) \<le> MAX_CHAIN_HOPS"
    using kf len unfolding h0_def by linarith
  from right_target_chain [OF ch nf i this, of key t, unfolded Let_def if_not_P [OF no]]
  have rt: "right_target E s 0 key t (nd_next (node_at s (cs ! i))) 0 = Ok (None, h0)"
    by (simp only: h0_def add_0)
  have it: "items_at s (cs ! i) = leaf_items (guarded s (cs ! i))"
    by (simp add: items_at_def)
  have sub: "set (items_at s (cs ! i)) \<subseteq> set (contents s cs)"
    using contents_split [OF i, of s] by auto
  then have "(key, t) \<notin> set (leaf_items (guarded s (cs ! i)))"
    using fr unfolding it by blast
  then obtain pos where pos: "leaf_insert_slot (guarded s (cs ! i)) key t = Ok pos"
    using leaf_insert_slot_eq [OF p(5), of key t] items_sorted [OF so i] unfolding it by simp
  note sl = insert_slot_for [OF chainD(1) [OF ch i] items_sorted [OF so i] pos]
  show ?thesis
  proof (cases "pos > 0")
    case True
    then show ?thesis
      using rt pos p(9) insert_slot_le [OF chainD(1) [OF ch i] items_sorted [OF so i] pos] by (simp add: insert_round_def)
  next
    case False
    then have z: "unat pos = 0"
      by (simp add: word_greater_zero_iff)
    obtain left where nl: "nearest_nonempty_left E s (cs ! i) = Ok left"
      using nearest_total [OF ch nf i] len by auto
    note n = nearest_nonempty_left_Ok [OF ch i nl]
    have eq: "insert_round E s key t (cs ! i) 0 = (case left of
        Some lid \<Rightarrow> left_edge E s key t (cs ! i) lid h0 | None \<Rightarrow> right_edge E s key t (cs ! i) h0)"
      using rt pos p(9) False nl by (simp add: insert_round_def)
    show ?thesis
    proof (cases left)
      case (Some lid)
      then obtain k where k: "k < i" "lid = cs ! k" "\<not> empty_at s (cs ! k)" "\<forall>j. k < j \<and> j < i \<longrightarrow> empty_at s (cs ! j)"
        using n by auto
      have kl: "k < length cs"
        using k(1) i by simp
      note pk = is_pageD [OF chainD(1) [OF ch kl]] and la = last_above_eq [OF chainD(1) [OF ch kl] k(3), of key t]
      have nx: "bt_next (guarded s (cs ! k)) = Ok (cs ! (k + 1))"
        using pk(9) chainD(2) [OF ch kl] k(1) i by simp
      have "h0 + (i - (k + 1)) \<le> MAX_CHAIN_HOPS"
        using kf len by linarith
      then obtain h where cu: "clean_until E s (cs ! i) (cs ! (k + 1)) h0 = Ok (True, h)"
        using clean_until_total [OF ch nf i, of "k + 1" "h0"] k by auto
      have fa: "slot_count (guarded s (cs ! i)) \<noteq> 0 \<Longrightarrow> first_above 0 (guarded s (cs ! i)) key t = Ok True"
        using first_above_eq [OF chainD(1) [OF ch i], of key t] sl(2) [OF z] by (simp add: empty_at_def)
      have ne: "items_at s (cs ! k) \<noteq> []"
        using k(3) by (metis empty_at_def items_at_def length_items(1) list.size(3))
      have "cs ! k \<in> set (take i cs)"
        using k(1) i by (auto simp: in_set_conv_nth)
      then have "last (items_at s (cs ! k)) \<in> set (contents s (take i cs))"
        using ne unfolding contents_def by (auto intro!: bexI [of _ "cs ! k"])
      then have "\<not> last (items_at s (cs ! k)) > (key, t)"
        using l by (auto simp: lands_def not_less)
      then have "left_edge E s key t (cs ! i) lid h0 = Ok (Inr 0)"
        using pk(11) [OF nf] p(11) [OF nf] k(2,3) nx cu fa la by (simp add: left_edge_def empty_at_def)
      then show ?thesis
        using eq Some by simp
    next
      case None
      have "h0 + (length cs - i) \<le> MAX_CHAIN_HOPS"
        using kf len by linarith
      then obtain x h where x: "nonempty_right E s (nd_next (node_at s (cs ! i))) h0 = Ok (x, h)"
        "\<forall>r. x = Some r \<longrightarrow> (\<exists>j. i < j \<and> j < length cs \<and> r = cs ! j \<and> \<not> empty_at s r)"
        using nonempty_right_total [OF ch nf i] by blast
      have "right_edge E s key t (cs ! i) h0 = Ok (Inr 0)"
      proof (cases x)
        case (Some r)
        then obtain j where j: "i < j" "j < length cs" "r = cs ! j" "\<not> empty_at s r"
          using x(2) by blast
        have "leaf_entry_at (guarded s r) 0 = Ok (hd (items_at s r))"
          using leaf_entry_at_nth [OF is_pageD(5) [OF chainD(1) [OF ch j(2)]], of 0] j(3,4) hd_items(1) [of "guarded s r"]
          by (simp add: empty_at_def items_at_def)
        then show ?thesis
          using x(1) Some p(9) p(11) [OF nf] page_above [OF l fr j(1,2)] j(3,4) by (simp add: right_edge_def)
      qed (use x(1) p(9) p(11) [OF nf] in \<open>simp add: right_edge_def\<close>)
      then show ?thesis
        using eq None by simp
    qed
  qed
qed

section \<open>Success\<close>

lemma fpi_free_space:
  assumes "view s p \<noteq> None" "fpi_unless_splitting E p s = (r, s')"
  shows "free_space (guarded s' p) = free_space (guarded s p)"
proof -
  obtain nd where "view s p = Some nd"
    using assms(1) by auto
  then have g: "btree_page (guarded s p)"
    using view_Some by blast
  have gp: "guarded (x\<lparr> bt_pages := g(p \<mapsto> pg) \<rparr>) p = pg" for x :: "'a bt_store" and g pg
    by (simp add: guarded_def)
  have "guarded s' p = guarded s p \<or> (\<exists>l. guarded s' p = set_page_pd_lsn (guarded s p) l)"
  proof (cases "be_due E p s")
    case True
    obtain x s1 where a: "bt_append E (full_page_image (be_bincode E) p (guarded s p)) s = (x, s1)"
      by fastforce
    show ?thesis
      using assms(2) True a append_pages [OF a]
      by (auto simp: fpi_unless_splitting_def bt_then_def bt_get_def bt_return_def bt_ensure_fpi_def put_page_def gp
          split: sum.splits prod.splits if_splits)
  next
    case False
    then show ?thesis
      using assms(2)
      by (auto simp: fpi_unless_splitting_def bt_then_def bt_get_def bt_return_def bt_ensure_fpi_def split: sum.splits if_splits)
  qed
  moreover have "free_space (set_page_pd_lsn (guarded s p) l) = free_space (guarded s p)" for l
  proof (rule free_space_cong [OF g])
    note f = bt_set_lsn_facts [OF g, of l]
    show "btree_page (set_page_pd_lsn (guarded s p) l)" "hupper (set_page_pd_lsn (guarded s p) l) = hupper (guarded s p)"
      using f by simp_all
    show "length (entries (set_page_pd_lsn (guarded s p) l)) = length (entries (guarded s p))"
      using f(2) by (metis nd_entries_node_of)
  qed
  ultimately show ?thesis
    by auto
qed

lemma insert_into_page_accepted:
  assumes "log_accepts E" "btree_page (guarded s p)" "unat slot \<le> slot_count (guarded s p)" "e \<noteq> []" "length e + 4 \<le> free_space (guarded s p)"
  shows "\<exists>s'. insert_into_page E p slot e s = (Ok (), s')"
proof -
  let ?pg = "guarded s p"
  obtain l s1 where a: "bt_append E (btree_insert (be_bincode E) p slot (nd_level (node_of ?pg)) (nd_flags (node_of ?pg)) e) s = (Ok l, s1)"
    unfolding btree_insert_def using append_accepted [OF assms(1)] by blast
  have "free_space ?pg \<le> 8144"
    using used_space [OF assms(2)] by (simp add: BTREE_PAGE_CAPACITY_def PAGE_SIZE_def page_sizes BTREE_SPECIAL_SIZE_def HEAP_SPECIAL_SIZE_def)
  moreover have "free_space ?pg = hupper ?pg - hlower ?pg"
    by (simp add: free_space_def)
  ultimately have "insert_entry_at slot e ?pg = Ok (inserted (unat slot) e ?pg)"
    using insert_entry_at_eq [OF assms(2), of slot e] assms(3-5) by auto
  then show ?thesis
    using node_reads(1,2) [OF assms(2)] a by (simp add: insert_into_page_def Let_def bt_then_def bt_lift_def put_page_def)
qed

definition easy :: "'w bt_env \<Rightarrow> 'w bt_store \<Rightarrow> page_id list list \<Rightarrow> byte list \<Rightarrow> tid \<Rightarrow> bool" where
  "easy E s Ls key t \<longleftrightarrow> no_faults E \<and> log_accepts E \<and> list_all (walkable s) Ls \<and> insertable s (hd Ls) \<and>
    length key \<le> MAX_INDEX_KEY_BYTES \<and> (key, t) \<notin> set (contents s (hd Ls)) \<and>
    (\<forall>p \<in> set (hd Ls). length key + 14 \<le> free_space (guarded s p))"

lemma insert_optimistic_easy:
  assumes k: "knows C {} {} b s Ls" and e: "easy E s Ls key t"
  shows "\<exists>s'. insert_optimistic E key t (encode_leaf_entry key t) s = (Ok True, s')"
proof -
  let ?e = "encode_leaf_entry key t" and ?cs = "hd Ls"
  note kl = knows_leaves [OF k]
  have nf: "no_faults E" and la: "log_accepts E" and w: "list_all (walkable s) Ls" "insertable s ?cs" and fr: "(key, t) \<notin> set (contents s ?cs)"
    and room: "\<forall>p \<in> set ?cs. length key + 14 \<le> free_space (guarded s p)"
    using e by (auto simp: easy_def)
  let ?l = "length Ls - 1"
  have l: "?l < length Ls" "root_page s \<in> set (Ls ! ?l)" "full s ?l (root_page s)" "?l < DESCENT_FUEL"
    using kl(1) by (auto simp: tree_def last_conv_nth DESCENT_FUEL_def)
  have "bt_pin E s (root_page s) = Ok (guarded s (root_page s))"
    by (rule is_pageD(11) [OF chain_mem [OF treeD(4) [OF kl(1) l(1)] l(2)] nf])
  then obtain j path h where d: "descend_to_leaf_for_insert E s key t = Ok (?cs ! j, path, h)" and lj: "lands (key, t) s ?cs j"
    using descend_insert [OF kl(1) w(1) nf kl(3,4) w(2) l, of key t "[]" False]
    by (auto simp: descend_to_leaf_for_insert_def descend_to_leaf_from_def)
  let ?p = "?cs ! j"
  have j: "j < length ?cs"
    using lj by (simp add: lands_def)
  note pg = chainD(1) [OF kl(2) j]
  have pin: "bt_pin E s ?p = Ok (guarded s ?p)"
    by (rule is_pageD(11) [OF pg nf])
  have v: "view s ?p \<noteq> None"
    using view_page [OF pg] by simp
  obtain s1 where f: "fpi_unless_splitting E ?p s = (Ok (), s1)"
    using fpi_accepted [OF la v] by blast
  have q: "quiet s s1"
    by (rule fpi_unless_splitting_quiet [OF v f])
  note c1 = quiet_chain [OF kl(2) q]
  have "2 * length ?cs \<le> MAX_CHAIN_HOPS"
  proof -
    have "1 * (2 * length ?cs + 2) \<le> (empties s ?cs + 3) * (2 * length ?cs + 2)"
      by (rule mult_le_mono1) simp
    from order_trans [OF this w(2) [unfolded insertable_def]] show ?thesis
      by simp
  qed
  then obtain pos where ir: "insert_round E s1 key t ?p 0 = Ok (Inr pos)" "unat pos \<le> slot_count (guarded s1 ?p)"
    using insert_round_lands [OF c1(1) _ c1(3) [OF kl(4)] nf] kl(3) c1(2) quiet_lands [OF kl(2) q] lj fr by fastforce
  have fuel: "PLACE_FUEL = Suc (MAX_CHAIN_HOPS + 1)"
    by (simp add: PLACE_FUEL_def)
  have pl: "pin_leaf_for_insert E key t PLACE_FUEL ?p 0 s = (Ok (?p, pos), s1)"
    unfolding fuel pin_leaf_for_insert.simps(2) using f ir by (simp add: bt_then_def)
  have g1: "is_page s1 0 ?p"
    by (rule chainD(1) [OF c1(1) j])
  have "length ?e + 4 \<le> free_space (guarded s1 ?p)"
    using fpi_free_space [OF v f] room nth_mem [OF j] by auto
  moreover have "?e \<noteq> []"
    by (metis length_0_conv length_encode_entry(1) add_is_0 numeral_neq_zero)
  ultimately obtain s2 where "insert_into_page E ?p pos ?e s1 = (Ok (), s2)"
    using insert_into_page_accepted [OF la is_pageD(3) [OF g1] ir(2)] by blast
  then show ?thesis
    using d pin pl \<open>length ?e + 4 \<le> free_space (guarded s1 ?p)\<close>
    by (simp add: insert_optimistic_def bt_then_def bt_get_def bt_return_def)
qed

section \<open>Properties\<close>

text \<open>
  C11: insertion into the index.  Whatever fails on the way, an insertion leaves the index well
  formed, and its entries are the old ones with the new one in its place in the order, or the
  old ones alone.  A success has put the entry there, and it is put there at most once unless
  the buffer pool runs full in the middle of a split.  No loop runs out of fuel.  Without
  faults, on levels short enough for the hop bound and with room in the leaves, the insertion
  of a new entry succeeds.
\<close>

theorem btree_insert_correct:
  assumes "files_bounded E" "index_inv s Ls" "bt_insert E key t s = (r, s')"
  shows "\<exists>Ls' n. index_inv s' Ls' \<and> contents s' (hd Ls') = (insort (key, t) ^^ n) (contents s (hd Ls)) \<and>
    (r = Ok () \<longrightarrow> 1 \<le> n) \<and> (never_full E \<longrightarrow> n \<le> 1) \<and> r \<noteq> Err BtDiverges \<and>
    (easy E s Ls key t \<longrightarrow> r = Ok () \<and> n = 1)"
proof (cases "easy E s Ls key t")
  case True
  let ?C = "contents s (hd Ls)" and ?e = "encode_leaf_entry key t"
  have k: "knows ?C {} {} False s Ls"
    unfolding knows_def using assms(2) by auto
  then have kn: "known ?C {} {} False s"
    unfolding known_def ..
  obtain s2 where o: "insert_optimistic E key t ?e s = (Ok True, s2)"
    using insert_optimistic_easy [OF k True] by blast
  have "triple (known ?C {} {} False) (insert_optimistic E key t ?e)
      (\<lambda>placed. known (if placed then insort (key, t) ?C else ?C) {} {} False) (\<lambda>e s. known ?C {} {} False s \<and> calm False e)"
    by (rule insert_optimistic_known) simp
  from tripleD(1) [OF this kn o] obtain Ls' where "index_inv s2 Ls'" "contents s2 (hd Ls') = insort (key, t) ?C"
    by (auto simp: known_def knows_def)
  moreover have "\<not> length key > MAX_INDEX_KEY_BYTES"
    using True by (simp add: easy_def)
  then have "insert_loop E key t False MAX_INSERT_RESTARTS s = (r, s')"
    using assms(3) by (simp add: bt_insert_def insert_with_budget_def)
  then have "r = Ok ()" "s' = s2"
    using o by (subst (asm) insert_loop.simps, simp add: Let_def bt_then_def bt_return_def)+
  ultimately show ?thesis
    by (intro exI [of _ Ls'] exI [of _ 1]) simp
next
  case False
  then show ?thesis
    using bt_insert_spec [OF assms] by blast
qed

definition bounded_env :: "unit bt_env" where
  "bounded_env = demo_env\<lparr> be_ext := (\<lambda>len. unat len \<le> 2 ^ 60) \<rparr>"

definition demo_meta :: "page_id \<Rightarrow> u16 \<Rightarrow> page" where
  "demo_meta r lv = inserted 0 (encode_meta_record r lv) demo_leaf"

definition demo_index :: "unit bt_store" where
  "demo_index = demo_store [1 \<mapsto> demo_leaf1, 999 \<mapsto> demo_meta 1 0] 1"

lemma demo_meta_facts: "btree_page (demo_meta r lv)" "entries (demo_meta r lv) = [encode_meta_record r lv]"
proof -
  note d = demo_leaf_facts
  have "hlower demo_leaf = 32"
    using btree_pageD(5) [OF d(1)] d(4) by simp
  moreover have l: "length (encode_meta_record r lv) = 10"
    by (simp add: encode_meta_record_def)
  moreover have "encode_meta_record r lv \<noteq> []"
    using l by auto
  ultimately have f: "btree_page (inserted 0 (encode_meta_record r lv) demo_leaf)"
      "entries (inserted 0 (encode_meta_record r lv) demo_leaf) = [encode_meta_record r lv]"
    using inserted_facts [OF d(1), of 0 "encode_meta_record r lv"] d by simp_all
  then show "btree_page (demo_meta r lv)" "entries (demo_meta r lv) = [encode_meta_record r lv]"
    by (simp_all add: demo_meta_def)
qed

lemma demo_index_facts:
  "index_inv demo_index [[1]]" "contents demo_index [1] = [([7], demo_tid)]" "easy bounded_env demo_index [[1]] [8] demo_tid"
proof -
  note d = demo_leaf1_facts and m = demo_meta_facts
  have g: "guarded demo_index 1 = demo_leaf1" "guarded demo_index 999 = demo_meta 1 0" "root_page demo_index = 1" "meta_page demo_index = 999"
    by (simp_all add: guarded_def demo_index_def demo_store_def)
  have it: "items_at demo_index 1 = [([7], demo_tid)]"
    using d(2) g by (simp add: items_at_def)
  then show c: "contents demo_index [1] = [([7], demo_tid)]"
    by simp
  have ch: "chain demo_index 0 [1]"
    using d g by (simp add: chain_def is_page_def level_page_def node_at_def) (simp add: demo_index_def demo_store_def)
  then have tr: "tree demo_index [[1]]"
    using g by (simp add: tree_def full_def prevs_full_def)
  have v: "view demo_index 999 = Some (node_of (demo_meta 1 0))"
    using m(1) g by (simp add: view_def node_at_def) (simp add: demo_index_def demo_store_def)
  have "settled demo_index [[1]]"
    using v g m(2) by (simp add: settled_def meta_root_def at_root_def full_def)
  moreover have "alloc_ok (bt_alloc demo_index)" "used (bt_alloc demo_index) 1" "used (bt_alloc demo_index) 999"
    by (simp_all add: demo_index_def demo_store_def alloc_ok_def used_def)
  ultimately show "index_inv demo_index [[1]]"
    using tr c g v by (simp add: index_inv_def hints_def tree_pages_def)
  have "hlower demo_leaf1 = 36"
    using btree_pageD(5) [of demo_leaf1] d(1,3) by (simp add: leaf_page_def)
  then have "free_space demo_leaf1 = 8129"
    using d(5) by (simp add: free_space_def)
  moreover have "empties demo_index [1] = 0"
    using d(3) g by (simp add: empties_def empty_at_def)
  ultimately show "easy bounded_env demo_index [[1]] [8] demo_tid"
    using c g by (simp add: easy_def no_faults_def log_accepts_def bounded_env_def demo_env_def walkable_def insertable_def
        MAX_CHAIN_HOPS_def MAX_INDEX_KEY_BYTES_def PAGE_SIZE_def)
qed

theorem btree_insert_correct_witness:
  "index_inv demo_index [[1]] \<and> files_bounded bounded_env \<and>
   (\<exists>s' Ls. bt_insert bounded_env [8] demo_tid demo_index = (Ok (), s') \<and> contents s' (hd Ls) = [([7], demo_tid), ([8], demo_tid)])"
proof -
  note d = demo_index_facts
  have fb: "files_bounded bounded_env"
    by (simp add: files_bounded_def bounded_env_def)
  obtain r s' where x: "bt_insert bounded_env [8] demo_tid demo_index = (r, s')"
    by fastforce
  from btree_insert_correct [OF fb d(1) x] d(3) obtain Ls where
    "r = Ok ()" "contents s' (hd Ls) = insort ([8], demo_tid) (contents demo_index [1])"
    by auto
  then show ?thesis
    using d(1) fb x d(2) by (auto simp: less_prod_def)
qed

end
