(* ===== verification/Spec2Isabelle.thy ===== *)
theory Spec2Isabelle
  imports Clog_Buffer Txn_Protocol Wal_Writer Deadlock Heap_Recovery Checkpoint Btree_Progress
begin

text \<open>
  A verification library for \<^verbatim>\<open>am\<close>, a transactional storage engine in Rust.

  \<^bold>\<open>The program.\<close>  Pages of 8192 bytes live in one data file and are served by a buffer pool
  (crate \<^verbatim>\<open>pg-storage\<close>).  Every change is logged first in a write-ahead log of fixed-size segments,
  whose positions (LSNs) are stamped on the pages; a group-commit thread syncs the log.  A
  page allocator hands out page numbers, two superblock copies and a freelist snapshot persist
  the metadata, and checkpoints bound the part of the log a restart replays.  On top of this,
  crate \<^verbatim>\<open>pg-txn\<close> keeps the status of transactions (CLOG), takes snapshots, decides the
  visibility of row versions, manages table locks and row waits, and detects deadlocks.  Crate
  \<^verbatim>\<open>pg-am-heap\<close> stores rows in slotted pages, stamps versions in place and replays its log
  records; crate \<^verbatim>\<open>pg-am-btree\<close> is the index; crate \<^verbatim>\<open>pg-engine\<close> holds the catalog, the SQL
  front end and the session layer.

  \<^bold>\<open>How the code is modelled.\<close>  Structures are records, enums are datatypes, machine integers are
  words (log positions inside the WAL writer are natural numbers, so that the theorems there do not
  depend on a 64-bit wrap), byte buffers are byte lists read and written at the offsets of the
  source.  A fallible function returns a sum whose left side is the error value; message texts
  are dropped.  Mutable state is passed explicitly.  Code that runs under locks is cut at the lock
  boundaries, and the interleaving of several threads is an inductive step relation over those pieces.
  Operating-system calls, the checksum crate, the serialiser and the clock are arguments.

  \<^bold>\<open>Theories.\<close>
  \<^item> \<open>Prelude\<close>, \<open>Storage_Types\<close>: machine types, results, little-endian codecs and slices; the identifiers,
    clocks and errors of \<^verbatim>\<open>types.rs\<close>, \<^verbatim>\<open>error.rs\<close>, \<^verbatim>\<open>lsn_clock.rs\<close>, \<^verbatim>\<open>oid.rs\<close>.
  \<^item> \<open>Clog\<close>, \<open>Clog_Buffer\<close>: transaction status in memory and on disk (\<^verbatim>\<open>clog.rs\<close>, \<^verbatim>\<open>clog_mem.rs\<close>,
    \<^verbatim>\<open>clog_file.rs\<close>, \<^verbatim>\<open>clog_buffer.rs\<close>).  The locale \<open>clog_accessor\<close> is the contract of the trait;
    it is interpreted on both implementations, which are shown equal on every history.
  \<^item> \<open>Visibility\<close>, \<open>Txn_Manager\<close>, \<open>Txn_Protocol\<close>: snapshots and the visibility judgement
    (\<^verbatim>\<open>snapshot.rs\<close>, \<^verbatim>\<open>visibility.rs\<close>), the manager's methods (\<^verbatim>\<open>manager.rs\<close>), and the interleaving of
    their critical sections: snapshots are complete, what they see never changes, and no wake-up
    of a row-lock waiter is lost.
  \<^item> \<open>Lock_Manager\<close>, \<open>Deadlock\<close>: table locks with their FIFO queues (\<^verbatim>\<open>lock_manager.rs\<close>) and the cycle
    search over the wait-for graph (\<^verbatim>\<open>deadlock.rs\<close>).
  \<^item> \<open>Wal_Record\<close>, \<open>Wal_Stream\<close>, \<open>Wal_Writer\<close>: record framing (\<^verbatim>\<open>record.rs\<close>), segment files and the
    reader (\<^verbatim>\<open>segment.rs\<close>, \<^verbatim>\<open>reader.rs\<close>), appends and group commit (\<^verbatim>\<open>writer.rs\<close>).  The writer is the
    instance of the contract \<open>commit_wal\<close> that the transaction manager relies on.
  \<^item> \<open>Slotted_Page\<close>, \<open>Tuple_Codec\<close>, \<open>Heap_Row\<close>: the page layout (\<^verbatim>\<open>page.rs\<close>, \<^verbatim>\<open>line_pointer.rs\<close>,
    \<^verbatim>\<open>slotted_page.rs\<close>) as a map from slots to tuples, the tuple encoding (\<^verbatim>\<open>tuple.rs\<close>, \<^verbatim>\<open>toast.rs\<close>), and
    the stamps, version chains and row locks of \<^verbatim>\<open>heap_am.rs\<close>.
  \<^item> \<open>Heap_Redo\<close>, \<open>Heap_Recovery\<close>: the redo handlers (\<^verbatim>\<open>pg-am-heap/src/redo.rs\<close>) against the changes
    they replay, and recovery of whole histories from any image a crash can leave.
  \<^item> \<open>Buffer_Pool\<close>, \<open>Storage_Meta\<close>, \<open>Page_Allocator\<close>, \<open>Checkpoint\<close>: the pool (\<^verbatim>\<open>buffer_pool.rs\<close>) as a
    refinement of a plain page store, the superblock and freelist files, the allocator, and the
    phases of a checkpoint, alone and interleaved with other users of the pool.
  \<^item> \<open>Btree_Key\<close>, \<open>Btree_Page\<close>, \<open>Btree_Node\<close>: the order-preserving key encoding (\<^verbatim>\<open>key.rs\<close>), the index
    page as a list of entries (\<^verbatim>\<open>pg-am-btree/src/page.rs\<close>), and the searches and the split within a page.
  \<^item> \<open>Btree_Index\<close>, \<open>Btree_Read\<close>, \<open>Btree_Write\<close>, \<open>Btree_Update\<close>, \<open>Btree_Split\<close>, \<open>Btree_Errors\<close>,
    \<open>Btree_Insert\<close>, \<open>Btree_Progress\<close>: the index over its pages (\<^verbatim>\<open>index.rs\<close>).  \<open>Btree_Index\<close> has the
    descent and the reads, \<open>Btree_Read\<close> their correctness over levels that are chains of pages with
    possibly stale back links, \<open>Btree_Write\<close> the operations that change the index, \<open>Btree_Update\<close> a
    logic for them and the correctness of deletion, \<open>Btree_Split\<close> the invariant of the index and
    the steps of a split.  \<open>Btree_Errors\<close> shows which errors a step can answer, \<open>Btree_Insert\<close> that both
    passes of an insertion keep the invariant and place the entry in order, and \<open>Btree_Progress\<close> that
    an insertion succeeds where nothing fails, with the theorem on insertion as a whole.

  \<^bold>\<open>Bounds.\<close>  Loops of the source that are bounded by their data are structural recursions or
  functions with a termination proof.  Where a loop waits for other threads, the model has a step
  relation instead of the loop, and the liveness theorems say that no reachable state has a
  sleeper that could proceed.  The walks of the index end at the hop bound of the source; its
  descent has fuel for the sixteen levels a tree can have, and the loops of an insertion have fuel for
  the hop bound.

  \<^bold>\<open>Not modelled.\<close>  The driver of recovery (\<^verbatim>\<open>analysis.rs\<close>, \<^verbatim>\<open>recovery.rs\<close>) and the handlers that adapt
  the CLOG to it; what the heap handlers and the allocator do with a replayed log is modelled.  The bulk load,
  redo and undo of the index, so nothing is said of an index after a crash.  The latches of the
  index: its operations run one at a time.  The catalog, the SQL parser and the session layer.
  The wrappers around operating-system files, mutexes and configuration
  files.
\<close>

end
